(* ===== verification/Avahi_Prelude.thy ===== *)
theory Avahi_Prelude
  imports Main "HOL-Library.Word"
begin

text \<open>
  Shared vocabulary of the development: the C types (bytes, fixed-width integers, C
  strings), the outcome type of code that contains \<open>assert\<close>, the parts of the C library
  the sources use, and generic lemmas.

  A \<open>char*\<close> that points to a NUL-terminated string is a list of bytes without its
  terminator; reading at the end of the list is reading the NUL. \<open>cstring\<close> says that a
  list is such a string. A \<open>uint8_t*\<close> with a length is a plain list of bytes.
\<close>

section \<open>Types\<close>

type_synonym byte = "8 word"
type_synonym u16 = "16 word"
type_synonym u32 = "32 word"

text \<open>
  \<open>Crash\<close> is a failed \<open>assert()\<close> or an access the C standard leaves undefined (reading
  a buffer that has no terminator, reading out of bounds): the process does not go on.
  Functions that report errors by NULL or a negative number return an \<open>option\<close> or an
  \<open>int\<close> inside \<open>Ret\<close>.
\<close>

datatype 'a res = Crash | Ret 'a

fun res_bind :: "'a res \<Rightarrow> ('a \<Rightarrow> 'b res) \<Rightarrow> 'b res" where
  "res_bind Crash f = Crash"
| "res_bind (Ret x) f = f x"

fun res_map :: "('a \<Rightarrow> 'b) \<Rightarrow> 'a res \<Rightarrow> 'b res" where
  "res_map f Crash = Crash"
| "res_map f (Ret x) = Ret (f x)"

named_theorems avahi_simps \<open>equations that evaluate the model's operations\<close>

lemma res_bind_eq_Ret: "res_bind m f = Ret y \<longleftrightarrow> (\<exists>x. m = Ret x \<and> f x = Ret y)"
  by (cases m) auto

lemma res_bind_assoc: "res_bind (res_bind m f) g = res_bind m (\<lambda>x. res_bind (f x) g)"
  by (cases m) simp_all

lemma res_map_eq_Ret: "res_map f m = Ret y \<longleftrightarrow> (\<exists>x. m = Ret x \<and> y = f x)"
  by (cases m) auto

section \<open>Characters and C strings\<close>

abbreviation DOT :: byte where "DOT \<equiv> 0x2E"
abbreviation BSL :: byte where "BSL \<equiv> 0x5C"
abbreviation DASH :: byte where "DASH \<equiv> 0x2D"
abbreviation UNDERSCORE :: byte where "UNDERSCORE \<equiv> 0x5F"
abbreviation SPACE :: byte where "SPACE \<equiv> 0x20"
abbreviation HASH :: byte where "HASH \<equiv> 0x23"
abbreviation QUOTE :: byte where "QUOTE \<equiv> 0x22"
abbreviation EQUALS :: byte where "EQUALS \<equiv> 0x3D"

definition str :: "string \<Rightarrow> byte list" where
  "str s = map of_char s"

definition cstring :: "byte list \<Rightarrow> bool" where
  "cstring s \<longleftrightarrow> 0 \<notin> set s"

text \<open>The C string found at the start of a memory block that is followed by a NUL.\<close>

definition cstr_of :: "byte list \<Rightarrow> byte list" where
  "cstr_of b = takeWhile (\<lambda>c. c \<noteq> 0) b"

lemma cstring_Nil [simp]: "cstring []"
  by (simp add: cstring_def)

lemma cstring_Cons [simp]: "cstring (c # s) \<longleftrightarrow> c \<noteq> 0 \<and> cstring s"
  by (auto simp: cstring_def)

lemma cstring_append [simp]: "cstring (s @ t) \<longleftrightarrow> cstring s \<and> cstring t"
  by (auto simp: cstring_def)

lemma cstring_cstr_of [simp]: "cstring (cstr_of b)"
  by (auto simp: cstring_def cstr_of_def dest: set_takeWhileD)

lemma cstr_of_cstring [simp]: "cstring s \<Longrightarrow> cstr_of s = s"
  by (auto simp: cstring_def cstr_of_def takeWhile_eq_all_conv)

text \<open>The character classes of the C locale.\<close>

definition isdigit :: "byte \<Rightarrow> bool" where
  "isdigit c \<longleftrightarrow> 0x30 \<le> c \<and> c \<le> 0x39"

definition tolower :: "byte \<Rightarrow> byte" where
  "tolower c = (if 0x41 \<le> c \<and> c \<le> 0x5A then c + 0x20 else c)"

definition toupper :: "byte \<Rightarrow> byte" where
  "toupper c = (if 0x61 \<le> c \<and> c \<le> 0x7A then c - 0x20 else c)"

lemma tolower_zero [simp]: "tolower c = 0 \<longleftrightarrow> c = 0"
proof (cases "0x41 \<le> c \<and> c \<le> 0x5A")
  case True
  then have "unat c + 32 < 2 ^ 8" by (simp add: word_le_nat_alt)
  then have "unat (c + 0x20) = unat c + 32" by (simp add: unat_word_ariths)
  with True show ?thesis by (auto simp: tolower_def)
next
  case False
  then show ?thesis by (auto simp: tolower_def)
qed

lemma tolower_idem [simp]: "tolower (tolower c) = tolower c"
proof (cases "0x41 \<le> c \<and> c \<le> 0x5A")
  case True
  then have "unat c + 32 < 2 ^ 8" by (simp add: word_le_nat_alt)
  then have "unat (c + 0x20) = unat c + 32" by (simp add: unat_word_ariths)
  with True have "\<not> c + 0x20 \<le> 0x5A" by (simp add: word_le_nat_alt)
  with True show ?thesis by (simp add: tolower_def)
next
  case False
  then show ?thesis by (auto simp: tolower_def)
qed

text \<open>
  \<open>strcmp\<close>, \<open>strcasecmp\<close> and \<open>memcmp\<close> compare as \<open>unsigned char\<close>; the standard fixes the
  sign of the result only, so the model returns \<open>-1\<close>, \<open>0\<close> or \<open>1\<close>.
\<close>

definition byte_cmp :: "byte \<Rightarrow> byte \<Rightarrow> int" where
  "byte_cmp a b = (if a = b then 0 else if a < b then - 1 else 1)"

fun strcmp :: "byte list \<Rightarrow> byte list \<Rightarrow> int" where
  "strcmp [] [] = 0"
| "strcmp [] (b # bs) = - 1"
| "strcmp (a # as) [] = 1"
| "strcmp (a # as) (b # bs) = (if a = b then strcmp as bs else byte_cmp a b)"

definition strcasecmp :: "byte list \<Rightarrow> byte list \<Rightarrow> int" where
  "strcasecmp a b = strcmp (map tolower a) (map tolower b)"

text \<open>\<open>memcmp\<close> of two blocks of the same length.\<close>

fun memcmp :: "byte list \<Rightarrow> byte list \<Rightarrow> int" where
  "memcmp (a # as) (b # bs) = (if a = b then memcmp as bs else byte_cmp a b)"
| "memcmp _ _ = 0"

lemma strcmp_eq_0 [simp]: "strcmp a b = 0 \<longleftrightarrow> a = b"
  by (induction a b rule: strcmp.induct) (auto simp: byte_cmp_def)

lemma strcasecmp_eq_0: "strcasecmp a b = 0 \<longleftrightarrow> map tolower a = map tolower b"
  by (simp add: strcasecmp_def)

lemma byte_cmp_sym: "byte_cmp b a = - byte_cmp a b"
  by (auto simp: byte_cmp_def)

lemma strcmp_sym: "strcmp b a = - strcmp a b"
  by (induction a b rule: strcmp.induct) (auto simp: byte_cmp_def)

lemma strcmp_trans:
  "strcmp a b < 0 \<Longrightarrow> strcmp b c < 0 \<Longrightarrow> strcmp a c < 0"
proof (induction a b arbitrary: c rule: strcmp.induct)
  case (2 b bs)
  then show ?case by (cases c) simp_all
next
  case (4 a as b bs)
  then show ?case
    by (cases c) (auto simp: byte_cmp_def split: if_splits)
qed simp_all

lemma memcmp_eq_0: "length a = length b \<Longrightarrow> memcmp a b = 0 \<longleftrightarrow> a = b"
  by (induction a b rule: memcmp.induct) (auto simp: byte_cmp_def)

lemma memcmp_sym: "memcmp b a = - memcmp a b"
  by (induction a b rule: list_induct2') (auto simp: byte_cmp_def)

text \<open>
  Plain \<open>char\<close> is signed on some of the program's platforms (x86) and unsigned on others
  (ARM, where it is meant to run). Where the code's result depends on it, the model takes
  the signedness as its first argument; this is the \<open>int\<close> value of a \<open>char\<close>.
\<close>

definition char_val :: "bool \<Rightarrow> byte \<Rightarrow> int" where
  "char_val schar c = (if schar then sint c else uint c)"

section \<open>Decimal numbers\<close>

lemma unat_byte_less [simp]: "unat (c :: byte) < 256"
  using unsigned_less [of c, where 'a = nat] by simp

text \<open>The digits that \<open>printf\<close>'s \<open>%i\<close> and \<open>%u\<close> print for a number that is not negative.\<close>

fun decimal :: "nat \<Rightarrow> byte list" where
  "decimal n = (if n < 10 then [0x30 + of_nat n]
                else decimal (n div 10) @ [0x30 + of_nat (n mod 10)])"

declare decimal.simps [simp del]

lemma three_digits: "n div 100 * 100 + n div 10 mod 10 * 10 + n mod 10 = (n :: nat)"
proof -
  have "n div 100 = n div 10 div 10" by (simp add: div_mult2_eq [symmetric])
  moreover have "n div 10 = n div 10 div 10 * 10 + n div 10 mod 10" by simp
  moreover have "n = n div 10 * 10 + n mod 10" by simp
  ultimately show ?thesis by linarith
qed

lemma byte_hundreds: "unat (c :: byte) div 100 < 10"
  using unat_byte_less [of c] by (simp add: div_less_iff_less_mult del: unat_byte_less)

lemma byte_not_above [simp]: "\<not> 255 < unat (c :: byte)"
  using unat_byte_less [of c] by linarith

text \<open>The value of a string of digits, as \<open>atoi\<close> computes it.\<close>

definition digit_val :: "byte \<Rightarrow> nat" where
  "digit_val c = unat (c - 0x30)"

definition digits_val :: "byte list \<Rightarrow> nat" where
  "digits_val s = foldl (\<lambda>n c. 10 * n + digit_val c) 0 s"

lemma isdigit_digit: "d < 10 \<Longrightarrow> isdigit (0x30 + of_nat d)"
  by (simp add: isdigit_def word_le_nat_alt unat_word_ariths unat_of_nat)

lemma digit_val_digit: "d < 10 \<Longrightarrow> digit_val (0x30 + of_nat d) = d"
  by (simp add: digit_val_def unat_of_nat)

lemma digit_val_less: "isdigit c \<Longrightarrow> digit_val c < 10"
proof -
  assume c: "isdigit c"
  then have "unat (c - 0x30) = unat c - 48"
    by (simp add: isdigit_def unat_sub word_le_nat_alt)
  moreover have "unat c \<le> 57"
    using c by (simp add: isdigit_def word_le_nat_alt)
  ultimately show ?thesis by (simp add: digit_val_def)
qed

lemma decimal_isdigit: "c \<in> set (decimal n) \<Longrightarrow> isdigit c"
proof (induction n arbitrary: c rule: decimal.induct)
  case (1 n)
  show ?case
  proof (cases "n < 10")
    case True
    with "1.prems" show ?thesis by (simp add: decimal.simps [of n] isdigit_digit)
  next
    case False
    with "1.prems" "1.IH" show ?thesis
      by (auto simp: decimal.simps [of n] isdigit_digit)
  qed
qed

lemma decimal_nonempty [simp]: "decimal n \<noteq> []"
  by (simp add: decimal.simps [of n])

lemma digits_val_snoc: "digits_val (s @ [c]) = 10 * digits_val s + digit_val c"
  by (simp add: digits_val_def)

lemma digits_val_decimal: "digits_val (decimal n) = n"
proof (induction n rule: decimal.induct)
  case (1 n)
  show ?case
  proof (cases "n < 10")
    case True
    then show ?thesis
      by (simp add: decimal.simps [of n] digits_val_def digit_val_digit)
  next
    case False
    with "1.IH" show ?thesis
      by (simp add: decimal.simps [of n] digits_val_snoc digit_val_digit)
  qed
qed

lemma isdigit_not_special:
  "isdigit c \<Longrightarrow> c \<noteq> 0 \<and> c \<noteq> DOT \<and> c \<noteq> BSL \<and> c < 128"
  by (auto simp: isdigit_def word_le_nat_alt word_less_nat_alt)

end
