(* ===== verification/Strlst.thy ===== *)
theory Strlst
  imports Avahi_Prelude
begin

text \<open>
  \<open>avahi-common/strlst.c\<close>: linked lists of strings, the data of TXT records. A list is
  modelled by the texts of its nodes from the head on (\<open>size\<close> is the length of \<open>text\<close>; the
  NUL the code keeps after it is implicit). New strings are put at the head, so a list read
  from a packet is in reverse order.
\<close>

type_synonym string_list = "byte list list"

section \<open>Building and reversing\<close>

text \<open>\<open>add_anonymous\<close> allocates the node, \<open>add_arbitrary\<close> fills all of its bytes.\<close>

definition avahi_string_list_add_arbitrary :: "string_list \<Rightarrow> byte list \<Rightarrow> string_list" where
  "avahi_string_list_add_arbitrary l text = text # l"

definition avahi_string_list_add :: "string_list \<Rightarrow> byte list \<Rightarrow> string_list" where
  "avahi_string_list_add l text = avahi_string_list_add_arbitrary l text"

text \<open>The loop of \<open>avahi_string_list_reverse\<close>, which moves nodes from \<open>l\<close> to \<open>r\<close>.\<close>

fun reverse_onto :: "string_list \<Rightarrow> string_list \<Rightarrow> string_list" where
  "reverse_onto [] r = r"
| "reverse_onto (n # l) r = reverse_onto l (n # r)"

definition avahi_string_list_reverse :: "string_list \<Rightarrow> string_list" where
  "avahi_string_list_reverse l = reverse_onto l []"

lemma reverse_onto: "reverse_onto l r = rev l @ r"
  by (induction l arbitrary: r) simp_all

lemma string_list_reverse [simp]: "avahi_string_list_reverse l = rev l"
  by (simp add: avahi_string_list_reverse_def reverse_onto)

fun copy_onto :: "string_list \<Rightarrow> string_list \<Rightarrow> string_list" where
  "copy_onto [] r = r"
| "copy_onto (t # l) r = copy_onto l (avahi_string_list_add_arbitrary r t)"

definition avahi_string_list_copy :: "string_list \<Rightarrow> string_list" where
  "avahi_string_list_copy l = avahi_string_list_reverse (copy_onto l [])"

fun avahi_string_list_add_many :: "string_list \<Rightarrow> byte list list \<Rightarrow> string_list" where
  "avahi_string_list_add_many r [] = r"
| "avahi_string_list_add_many r (txt # va) = avahi_string_list_add_many (avahi_string_list_add r txt) va"

fun avahi_string_list_length :: "string_list \<Rightarrow> u32" where
  "avahi_string_list_length [] = 0"
| "avahi_string_list_length (_ # l) = avahi_string_list_length l + 1"

fun avahi_string_list_equal :: "string_list \<Rightarrow> string_list \<Rightarrow> bool" where
  "avahi_string_list_equal [] [] = True"
| "avahi_string_list_equal (_ # _) [] = False"
| "avahi_string_list_equal [] (_ # _) = False"
| "avahi_string_list_equal (t # a) (u # b) =
     (if length t \<noteq> length u then False
      else if length t \<noteq> 0 \<and> memcmp t u \<noteq> 0 then False
      else avahi_string_list_equal a b)"

lemma copy_onto: "copy_onto l r = rev l @ r"
  by (induction l arbitrary: r) (simp_all add: avahi_string_list_add_arbitrary_def)

lemma string_list_copy [simp]: "avahi_string_list_copy l = l"
  by (simp add: avahi_string_list_copy_def copy_onto)

lemma string_list_equal: "avahi_string_list_equal a b \<longleftrightarrow> a = b"
  by (induction a b rule: avahi_string_list_equal.induct) (auto simp: memcmp_eq_0)

lemma string_list_add_many: "avahi_string_list_add_many r va = rev va @ r"
  by (induction va arbitrary: r)
    (simp_all add: avahi_string_list_add_def avahi_string_list_add_arbitrary_def)

section \<open>Parsing and serialising TXT data\<close>

text \<open>
  \<open>avahi_string_list_parse\<close>: length-prefixed strings, empty ones dropped. \<open>None\<close> is the
  return value -1.
\<close>

function string_list_parse_loop :: "byte list \<Rightarrow> string_list \<Rightarrow> string_list option" where
  "string_list_parse_loop [] r = Some r"
| "string_list_parse_loop (b # c) r =
     (let k = unat b in
      if length c < k then None
      else string_list_parse_loop (drop k c)
             (if 0 < k then avahi_string_list_add_arbitrary r (take k c) else r))"
  by pat_completeness auto
termination
  by (relation "measure (\<lambda>(c, r). length c)") auto

definition avahi_string_list_parse :: "byte list \<Rightarrow> string_list option" where
  "avahi_string_list_parse data = string_list_parse_loop data []"

text \<open>
  \<open>avahi_string_list_serialize\<close> with a buffer of \<open>size\<close> bytes writes the strings in reverse
  order of the list; the result is what it wrote. Without a buffer it computes the size.
\<close>

fun serialize_loop :: "string_list \<Rightarrow> nat \<Rightarrow> byte list" where
  "serialize_loop [] sz = []"
| "serialize_loop (t # n) sz =
     (if sz \<le> 1 then []
      else if length t = 0 then serialize_loop n sz
      else
        let k = (if 255 < length t then 255 else length t);
            k' = (if sz - 1 < k then sz - 1 else k)
        in of_nat k' # take k' t @ serialize_loop n (sz - (1 + k')))"

definition avahi_string_list_serialize :: "string_list \<Rightarrow> nat \<Rightarrow> byte list" where
  "avahi_string_list_serialize l sz =
     (let out = serialize_loop (avahi_string_list_reverse l) sz
      in if length out = 0 \<and> 0 < sz then [0] else out)"

fun serialize_size_loop :: "string_list \<Rightarrow> nat" where
  "serialize_size_loop [] = 0"
| "serialize_size_loop (t # n) =
     (if length t = 0 then serialize_size_loop n
      else (1 + (if 255 < length t then 255 else length t)) + serialize_size_loop n)"

definition avahi_string_list_serialize_size :: "string_list \<Rightarrow> nat" where
  "avahi_string_list_serialize_size l =
     (let used = serialize_size_loop l in if used = 0 then 1 else used)"

text \<open>A buffer of the size the second form computes is filled exactly.\<close>

lemma serialize_size_loop_append:
  "serialize_size_loop (a @ b) = serialize_size_loop a + serialize_size_loop b"
  by (induction a) simp_all

lemma serialize_size_loop_rev: "serialize_size_loop (rev l) = serialize_size_loop l"
  by (induction l) (simp_all add: serialize_size_loop_append)

text \<open>What one string contributes when there is room.\<close>

definition txt_chunk :: "byte list \<Rightarrow> byte list" where
  "txt_chunk t = (if t = [] then [] else of_nat (min 255 (length t)) # take (min 255 (length t)) t)"

lemma at_most_255: "(if 255 < n then 255 else n) = min 255 (n :: nat)"
  by simp

lemma length_txt_chunk: "length (txt_chunk t) = (if t = [] then 0 else 1 + min 255 (length t))"
  by (simp add: txt_chunk_def min_def)

lemma serialize_size_chunks: "serialize_size_loop l = length (concat (map txt_chunk l))"
  by (induction l) (auto simp: length_txt_chunk)

lemma txt_chunk_eq_Nil [simp]: "txt_chunk t = [] \<longleftrightarrow> t = []"
  by (simp add: txt_chunk_def)

lemma small_chunks: "serialize_size_loop l \<le> 1 \<Longrightarrow> concat (map txt_chunk l) = []"
proof (induction l)
  case (Cons t l)
  then show ?case by (cases "t = []") (simp_all only: serialize_size_loop.simps at_most_255, auto simp: min_def split: if_splits)
qed simp

lemma serialize_loop_fits:
  "serialize_size_loop l \<le> sz \<Longrightarrow> serialize_loop l sz = concat (map txt_chunk l)"
proof (induction l arbitrary: sz)
  case (Cons t n)
  show ?case
  proof (cases "t = []")
    case True
    show ?thesis
    proof (cases "sz \<le> 1")
      case True
      with \<open>t = []\<close> Cons.prems have "concat (map txt_chunk n) = []"
        by (intro small_chunks) simp
      with True \<open>t = []\<close> show ?thesis by simp
    next
      case False
      with \<open>t = []\<close> Cons show ?thesis by simp
    qed
  next
    case False
    with Cons.prems have len: "1 + min 255 (length t) + serialize_size_loop n \<le> sz"
      by (simp only: serialize_size_loop.simps at_most_255) simp
    moreover have "0 < min 255 (length t)" using False by simp
    ultimately have k: "min (sz - 1) (min 255 (length t)) = min 255 (length t)" and sz: "\<not> sz \<le> 1"
      by linarith+
    have "serialize_loop (t # n) sz =
      of_nat (min 255 (length t)) # take (min 255 (length t)) t @
      serialize_loop n (sz - (1 + min 255 (length t)))"
    proof -
      have "(if sz - 1 < min 255 (length t) then sz - 1 else min 255 (length t)) = min 255 (length t)"
        using len by (intro if_not_P) linarith
      with sz False show ?thesis
        by (simp only: serialize_loop.simps at_most_255 Let_def if_False length_0_conv)
    qed
    with False Cons.IH [of "sz - (1 + min 255 (length t))"] len show ?thesis
      by (simp add: txt_chunk_def)
  qed
qed simp

lemma length_serialize:
  "length (avahi_string_list_serialize l (avahi_string_list_serialize_size l)) =
   avahi_string_list_serialize_size l"
proof -
  let ?s = "serialize_size_loop l"
  have fits: "?s \<le> n \<Longrightarrow> length (serialize_loop (rev l) n) = ?s" for n
    by (simp add: serialize_loop_fits serialize_size_loop_rev serialize_size_chunks [symmetric])
  show ?thesis
  proof (cases "?s = 0")
    case True
    with fits [of 1] have "serialize_loop (rev l) 1 = []" by simp
    with True show ?thesis
      by (simp add: avahi_string_list_serialize_def avahi_string_list_serialize_size_def)
  next
    case False
    with fits [of ?s] have "serialize_loop (rev l) ?s \<noteq> []" by (metis length_0_conv order_refl)
    with False fits [of ?s] show ?thesis
      by (simp add: avahi_string_list_serialize_def avahi_string_list_serialize_size_def Let_def)
  qed
qed

text \<open>The condition \<open>avahi_record_is_valid\<close> puts on the strings of a TXT record.\<close>

definition txt_ok :: "string_list \<Rightarrow> bool" where
  "txt_ok l \<longleftrightarrow> (\<forall>t \<in> set l. 0 < length t \<and> length t \<le> 255)"

lemma txt_ok_rev [simp]: "txt_ok (rev l) = txt_ok l"
  by (simp add: txt_ok_def)

lemma parse_chunks:
  "txt_ok l \<Longrightarrow> string_list_parse_loop (concat (map txt_chunk l) @ d) r =
   string_list_parse_loop d (rev l @ r)"
proof (induction l arbitrary: r)
  case (Cons t l)
  then have t: "0 < length t" "length t \<le> 255" and l: "txt_ok l" by (auto simp: txt_ok_def)
  then have "unat (of_nat (length t) :: byte) = length t" by (simp add: unat_of_nat)
  with t have "string_list_parse_loop (concat (map txt_chunk (t # l)) @ d) r =
    string_list_parse_loop (concat (map txt_chunk l) @ d) (t # r)"
    by (simp add: txt_chunk_def min_def avahi_string_list_add_arbitrary_def Let_def)
  with Cons.IH [OF l] show ?case by simp
qed simp

lemma parse_serialize:
  assumes "txt_ok l"
  shows "avahi_string_list_parse
           (avahi_string_list_serialize l (avahi_string_list_serialize_size l)) = Some l"
proof -
  have "serialize_size_loop l \<le> avahi_string_list_serialize_size l"
    by (simp add: avahi_string_list_serialize_size_def Let_def)
  then have "serialize_loop (rev l) (avahi_string_list_serialize_size l) = concat (map txt_chunk (rev l))"
    by (simp add: serialize_loop_fits serialize_size_loop_rev)
  moreover have "string_list_parse_loop (concat (map txt_chunk (rev l))) [] = Some l"
    using assms parse_chunks [of "rev l" "[]" "[]"] by simp
  moreover have "concat (map txt_chunk (rev l)) = [] \<Longrightarrow> l = []"
    using assms by (cases l) (auto simp: txt_ok_def)
  ultimately show ?thesis
    by (auto simp: avahi_string_list_serialize_def avahi_string_list_parse_def Let_def)
qed

text \<open>Whatever the input, the parser gives strings a TXT record may hold.\<close>

lemma parse_loop_txt_ok:
  "string_list_parse_loop d r = Some l \<Longrightarrow> txt_ok r \<Longrightarrow> txt_ok l"
proof (induction d r rule: string_list_parse_loop.induct)
  case (2 b c r)
  have "unat b \<le> 255" using byte_not_above [of b] by linarith
  then have "txt_ok r \<Longrightarrow> unat b \<le> length c \<Longrightarrow>
      txt_ok (if 0 < unat b then avahi_string_list_add_arbitrary r (take (unat b) c) else r)"
    unfolding avahi_string_list_add_arbitrary_def txt_ok_def by auto
  with "2.IH" [OF refl] "2.prems" show ?case
    by (simp add: Let_def split: if_splits)
qed simp

lemma parse_txt_ok: "avahi_string_list_parse d = Some l \<Longrightarrow> txt_ok l"
  using parse_loop_txt_ok [of d "[]" l] by (simp add: avahi_string_list_parse_def txt_ok_def)

section \<open>Text form\<close>

text \<open>
  \<open>avahi_string_list_to_string\<close> first computes the size of the text and then writes it into a
  buffer of that size. Whether a byte above 127 is less than 32 depends on the signedness of
  \<open>char\<close>.
\<close>

fun to_string_size_text :: "bool \<Rightarrow> byte list \<Rightarrow> nat" where
  "to_string_size_text sc [] = 0"
| "to_string_size_text sc (p # ps) =
     (if p = QUOTE \<or> p = BSL then 2 else if char_val sc p < 32 then 4 else 1) +
     to_string_size_text sc ps"

fun to_string_size :: "bool \<Rightarrow> bool \<Rightarrow> string_list \<Rightarrow> nat" where
  "to_string_size sc is_head [] = 0"
| "to_string_size sc is_head (n # l) =
     (if is_head then 0 else 1) + to_string_size_text sc n + 2 + to_string_size sc False l"

fun to_string_text :: "bool \<Rightarrow> byte list \<Rightarrow> byte list" where
  "to_string_text sc [] = []"
| "to_string_text sc (p # ps) =
     (if p = QUOTE \<or> p = BSL then [BSL] else []) @
     (if char_val sc p < 32 then
        [BSL, 0x30 + of_nat (unat p div 100), 0x30 + of_nat (unat p div 10 mod 10),
         0x30 + of_nat (unat p mod 10)]
      else [p]) @
     to_string_text sc ps"

fun to_string_loop :: "bool \<Rightarrow> bool \<Rightarrow> string_list \<Rightarrow> byte list" where
  "to_string_loop sc is_head [] = []"
| "to_string_loop sc is_head (n # l) =
     (if is_head then [] else [SPACE]) @ QUOTE # to_string_text sc n @ QUOTE #
     to_string_loop sc False l"

text \<open>
  The result is the allocated size, without the byte for the NUL, and the bytes written
  before it.
\<close>

definition avahi_string_list_to_string :: "bool \<Rightarrow> string_list \<Rightarrow> nat \<times> byte list" where
  "avahi_string_list_to_string sc l =
     (to_string_size sc True l, to_string_loop sc True (avahi_string_list_reverse l))"

lemma length_to_string_text: "length (to_string_text sc t) = to_string_size_text sc t"
  by (induction t) (auto simp: char_val_def)

lemma to_string_size_not_head:
  "l \<noteq> [] \<Longrightarrow> to_string_size sc False l = to_string_size sc True l + 1"
  by (cases l) simp_all

lemma to_string_size_append:
  "to_string_size sc False (a @ b) = to_string_size sc False a + to_string_size sc False b"
  by (induction a) simp_all

lemma to_string_size_rev: "to_string_size sc False (rev l) = to_string_size sc False l"
  by (induction l) (simp_all add: to_string_size_append)

lemma length_to_string_loop: "length (to_string_loop sc h l) = to_string_size sc h l"
  by (induction sc h l rule: to_string_loop.induct) (simp_all add: length_to_string_text)

lemma length_to_string:
  "length (snd (avahi_string_list_to_string sc l)) = fst (avahi_string_list_to_string sc l)"
proof (cases "l = []")
  case False
  then have "to_string_size sc True (rev l) = to_string_size sc True l"
    using to_string_size_rev [of sc l] by (simp add: to_string_size_not_head)
  then show ?thesis by (simp add: avahi_string_list_to_string_def length_to_string_loop)
qed (simp add: avahi_string_list_to_string_def)

section \<open>Keys and values\<close>

text \<open>
  \<open>avahi_string_list_find\<close> returns the node, modelled as the list from that node on. The
  \<open>strcasecmp\<close> of the C library sees the text up to its first NUL; the byte \<open>text[n]\<close> it then
  reads is within the node because the first \<open>n\<close> bytes are not NUL.
\<close>

definition strncasecmp_eq :: "byte list \<Rightarrow> byte list \<Rightarrow> nat \<Rightarrow> bool" where
  "strncasecmp_eq a b n \<longleftrightarrow> strcasecmp (take n (cstr_of a)) (take n (cstr_of b)) = 0"

fun avahi_string_list_find :: "string_list \<Rightarrow> byte list \<Rightarrow> string_list option" where
  "avahi_string_list_find [] key = None"
| "avahi_string_list_find (t # l) key =
     (if strcasecmp (cstr_of t) key = 0 then Some (t # l)
      else if strncasecmp_eq t key (length key) \<and> length key < length t \<and> t ! length key = EQUALS
      then Some (t # l)
      else avahi_string_list_find l key)"

definition avahi_string_list_add_pair :: "string_list \<Rightarrow> byte list \<Rightarrow> byte list option \<Rightarrow> string_list" where
  "avahi_string_list_add_pair l key value =
     (case value of
        Some v \<Rightarrow> (key @ EQUALS # v) # l
      | None \<Rightarrow> avahi_string_list_add l key)"

definition avahi_string_list_add_pair_arbitrary ::
  "string_list \<Rightarrow> byte list \<Rightarrow> byte list option \<Rightarrow> string_list" where
  "avahi_string_list_add_pair_arbitrary l key value =
     (case value of
        None \<Rightarrow> avahi_string_list_add l key
      | Some v \<Rightarrow> (key @ [EQUALS] @ v) # l)"

text \<open>\<open>avahi_string_list_get_pair\<close> of a node: the key and, if there is a '=', what follows it.\<close>

definition avahi_string_list_get_pair :: "byte list \<Rightarrow> byte list \<times> byte list option" where
  "avahi_string_list_get_pair t =
     (if EQUALS \<notin> set t then (cstr_of t, None)
      else
        let n = length (takeWhile (\<lambda>c. c \<noteq> EQUALS) t)
        in (cstr_of (take n t), Some (drop (Suc n) t)))"

lemma get_pair_add_pair:
  assumes "cstring key" "EQUALS \<notin> set key"
  shows "avahi_string_list_get_pair (hd (avahi_string_list_add_pair_arbitrary l key (Some v))) = (key, Some v)"
proof -
  have "takeWhile (\<lambda>c. c \<noteq> EQUALS) (key @ [EQUALS] @ v) = key"
    using assms(2) by (subst takeWhile_append2) auto
  with assms(1) show ?thesis
    by (simp add: avahi_string_list_get_pair_def avahi_string_list_add_pair_arbitrary_def)
qed

lemma find_add_pair:
  assumes "cstring key" "map tolower key = map tolower key'" "cstring key'"
  shows "avahi_string_list_find (avahi_string_list_add_pair_arbitrary l key (Some v)) key' =
         Some (avahi_string_list_add_pair_arbitrary l key (Some v))"
proof -
  from assms(2) have len: "length key = length key'" by (rule map_eq_imp_length_eq)
  have "cstr_of (key @ EQUALS # v) = key @ EQUALS # takeWhile (\<lambda>c. c \<noteq> 0) v"
    using assms(1) by (simp add: cstr_of_def cstring_def takeWhile_append)
  with assms len show ?thesis
    by (simp add: avahi_string_list_add_pair_arbitrary_def strncasecmp_eq_def strcasecmp_eq_0
        nth_append)
qed

section \<open>Properties\<close>

text \<open>
  TXT data survives the wire: \<open>avahi_string_list_serialize\<close> into a buffer of the
  size it announced fills that buffer exactly, and \<open>avahi_string_list_parse\<close> gives the list
  back, in its order, provided its strings have between 1 and 255 bytes.
\<close>

lemma txt_roundtrip:
  assumes "\<forall>t \<in> set l. 0 < length t \<and> length t \<le> 255"
  shows "length (avahi_string_list_serialize l (avahi_string_list_serialize_size l)) =
      avahi_string_list_serialize_size l \<and>
    avahi_string_list_parse
      (avahi_string_list_serialize l (avahi_string_list_serialize_size l)) = Some l"
  using assms length_serialize parse_serialize by (simp add: txt_ok_def)

lemma txt_roundtrip_witness:
  "length (avahi_string_list_serialize [str ''a=1'', str ''path''] (avahi_string_list_serialize_size [str ''a=1'', str ''path''])) =
      avahi_string_list_serialize_size [str ''a=1'', str ''path''] \<and>
    avahi_string_list_parse
      (avahi_string_list_serialize [str ''a=1'', str ''path''] (avahi_string_list_serialize_size [str ''a=1'', str ''path''])) =
    Some [str ''a=1'', str ''path'']"
  by (rule txt_roundtrip) code_simp

text \<open>
  \<open>avahi_string_list_to_string\<close> writes exactly the number of bytes it allocates
  space for, whichever strings are in the list, so that its NUL is the last byte of the block.
\<close>

theorem to_string_exact:
  "length (snd (avahi_string_list_to_string sc l)) = fst (avahi_string_list_to_string sc l)"
  by (rule length_to_string)

end
