(* ===== verification/Utf8.thy ===== *)
theory Utf8
  imports Avahi_Prelude
begin

unbundle bit_operations_syntax

text \<open>
  \<open>avahi-common/utf8.c\<close>: the UTF-8 validator every label and service name passes through.
  The model follows the C code byte by byte, with its masks and its order of checks; a
  \<open>goto error\<close> is the result \<open>False\<close>. Reading at the end of the string reads the NUL,
  which is not a continuation byte.
\<close>

definition is_continuation :: "byte \<Rightarrow> bool" where
  "is_continuation c \<longleftrightarrow> c AND 0xC0 = 0x80"

definition unicode_valid :: "u32 \<Rightarrow> bool" where
  "unicode_valid v \<longleftrightarrow>
     v < 0x110000 \<and> v AND 0xFFFFF800 \<noteq> 0xD800 \<and> (v < 0xFDD0 \<or> 0xFDEF < v) \<and>
     v AND 0xFFFE \<noteq> 0xFFFE"

text \<open>The macro \<open>CONTINUATION_CHAR\<close>: the accumulated value after one more byte.\<close>

definition continue_val :: "u32 \<Rightarrow> byte \<Rightarrow> u32" where
  "continue_val v c = push_bit 6 v OR (ucast c AND 0x3F)"

fun avahi_utf8_valid :: "byte list \<Rightarrow> bool" where
  "avahi_utf8_valid [] \<longleftrightarrow> True"
| "avahi_utf8_valid (c # s) \<longleftrightarrow>
     (if c < 128 then avahi_utf8_valid s
      else if c AND 0xE0 = 0xC0 then
        (if c AND 0x1E = 0 then False
         else case s of
             [] \<Rightarrow> False
           | c1 # s1 \<Rightarrow> is_continuation c1 \<and> avahi_utf8_valid s1)
      else if c AND 0xF0 = 0xE0 then
        (case s of
             c1 # c2 # s2 \<Rightarrow>
               is_continuation c1 \<and> is_continuation c2 \<and>
               (let val = continue_val (continue_val (ucast c AND 0x0F) c1) c2
                in \<not> val < push_bit 11 1 \<and> unicode_valid val) \<and>
               avahi_utf8_valid s2
           | _ \<Rightarrow> False)
      else if c AND 0xF8 = 0xF0 then
        (case s of
             c1 # c2 # c3 # s3 \<Rightarrow>
               is_continuation c1 \<and> is_continuation c2 \<and> is_continuation c3 \<and>
               (let val = continue_val (continue_val (continue_val (ucast c AND 0x07) c1) c2) c3
                in \<not> val < push_bit 16 1 \<and> unicode_valid val) \<and>
               avahi_utf8_valid s3
           | _ \<Rightarrow> False)
      else False)"

lemma utf8_valid_ascii: "\<forall>c \<in> set s. c < 128 \<Longrightarrow> avahi_utf8_valid s"
  by (induction s) simp_all

lemma utf8_valid_append: "avahi_utf8_valid s \<Longrightarrow> avahi_utf8_valid (s @ t) = avahi_utf8_valid t"
proof (induction s rule: avahi_utf8_valid.induct)
  case (2 c s)
  consider "c < 128" | "\<not> c < 128" "c AND 0xE0 = 0xC0"
    | "\<not> c < 128" "c AND 0xE0 \<noteq> 0xC0" "c AND 0xF0 = 0xE0"
    | "\<not> c < 128" "c AND 0xE0 \<noteq> 0xC0" "c AND 0xF0 \<noteq> 0xE0" "c AND 0xF8 = 0xF0"
    using "2.prems" by (auto split: if_splits)
  then show ?case
  proof cases
    case 1
    with 2 show ?thesis by simp
  next
    case 2
    with "2.prems" "2.IH"(2) show ?thesis by (cases s) (simp_all split: if_splits)
  next
    case 3
    with "2.prems" obtain c1 c2 s2 where "s = c1 # c2 # s2"
      by (auto split: list.splits)
    with 3 "2.prems" "2.IH"(3) show ?thesis by (simp add: Let_def)
  next
    case 4
    with "2.prems" obtain c1 c2 c3 s3 where "s = c1 # c2 # c3 # s3"
      by (auto split: list.splits)
    with 4 "2.prems" "2.IH"(4) show ?thesis by (simp add: Let_def)
  qed
qed simp

end
