(* ===== verification/Domain.thy ===== *)
theory Domain
  imports Utf8
begin

text \<open>
  \<open>avahi-common/domain.c\<close>: escaped domain names. A name is a C string in which labels are
  separated by dots, a dot or backslash inside a label is preceded by a backslash, and any
  other byte may be written as a backslash and three decimal digits. The functions here
  split names into labels, escape labels, normalise, compare, hash and validate names, and
  join and split service names.
\<close>

definition AVAHI_DOMAIN_NAME_MAX :: nat where
  "AVAHI_DOMAIN_NAME_MAX = 1014"

definition AVAHI_LABEL_MAX :: nat where
  "AVAHI_LABEL_MAX = 64"

section \<open>Labels\<close>

text \<open>
  \<open>avahi_unescape_label\<close> reads one label from \<open>name\<close> into a buffer of \<open>size\<close> bytes. The
  loop returns the bytes it wrote and what is left of the name, or \<open>None\<close> for NULL; \<open>i\<close>
  counts the bytes written so far. All callers give up when it fails, so the position the
  C code leaves in \<open>*name\<close> after a failure is not part of the model.
\<close>

definition escape_num :: "byte \<Rightarrow> byte \<Rightarrow> byte \<Rightarrow> nat" where
  "escape_num e d1 d2 = digit_val e * 100 + digit_val d1 * 10 + digit_val d2"

definition push_label :: "byte \<Rightarrow> (byte list \<times> byte list) option \<Rightarrow> (byte list \<times> byte list) option" where
  "push_label c r = map_option (\<lambda>(d, rest). (c # d, rest)) r"

fun unescape_loop :: "nat \<Rightarrow> nat \<Rightarrow> byte list \<Rightarrow> (byte list \<times> byte list) option" where
  "unescape_loop i sz [] = (if sz \<le> i then None else Some ([], []))"
| "unescape_loop i sz (c # s) =
     (if sz \<le> i then None
      else if c = DOT then Some ([], s)
      else if c = BSL then
        (case s of
           [] \<Rightarrow> None
         | e # t \<Rightarrow>
             if e = BSL \<or> e = DOT then push_label e (unescape_loop (Suc i) sz t)
             else if isdigit e then
               (case t of
                  d1 # d2 # u \<Rightarrow>
                    if \<not> isdigit d1 \<or> \<not> isdigit d2 then None
                    else
                      let n = escape_num e d1 d2
                      in if 255 < n \<or> n = 0 then None
                         else push_label (of_nat n) (unescape_loop (Suc i) sz u)
                | _ \<Rightarrow> None)
             else None)
      else push_label c (unescape_loop (Suc i) sz s))"

definition avahi_unescape_label :: "byte list \<Rightarrow> nat \<Rightarrow> (byte list \<times> byte list) option" where
  "avahi_unescape_label name sz =
     (case unescape_loop 0 sz name of
        None \<Rightarrow> None
      | Some (dest, rest) \<Rightarrow> if avahi_utf8_valid dest then Some (dest, rest) else None)"

text \<open>
  \<open>avahi_escape_label\<close> appends the escaped form of \<open>src\<close> to a buffer that has room for
  \<open>ret_size\<close> more bytes. The result says whether the whole label fitted, which bytes were
  written, and how much room is left. Only when it fitted does the code write the
  terminating NUL.
\<close>

definition is_proper :: "byte \<Rightarrow> bool" where
  "is_proper c \<longleftrightarrow>
     c = UNDERSCORE \<or> c = DASH \<or> (0x30 \<le> c \<and> c \<le> 0x39) \<or>
     (0x61 \<le> c \<and> c \<le> 0x7A) \<or> (0x41 \<le> c \<and> c \<le> 0x5A)"

definition decimal_escape :: "byte \<Rightarrow> byte list" where
  "decimal_escape c =
     [BSL, 0x30 + of_nat (unat c div 100), 0x30 + of_nat (unat c div 10 mod 10),
      0x30 + of_nat (unat c mod 10)]"

definition put_bytes :: "byte list \<Rightarrow> bool \<times> byte list \<times> nat \<Rightarrow> bool \<times> byte list \<times> nat" where
  "put_bytes b r = (case r of (ok, out, sz) \<Rightarrow> (ok, b @ out, sz))"

fun escape_loop :: "byte list \<Rightarrow> nat \<Rightarrow> bool \<times> byte list \<times> nat" where
  "escape_loop [] sz = (True, [], sz)"
| "escape_loop (c # src) sz =
     (if c = DOT \<or> c = BSL then
        (if sz < 3 then (False, [], sz)
         else put_bytes [BSL, c] (escape_loop src (sz - 2)))
      else if is_proper c then
        (if sz < 2 then (False, [], sz)
         else put_bytes [c] (escape_loop src (sz - 1)))
      else
        (if sz < 5 then (False, [], sz)
         else put_bytes (decimal_escape c) (escape_loop src (sz - 4))))"

definition avahi_escape_label :: "byte list \<Rightarrow> nat \<Rightarrow> (bool \<times> byte list \<times> nat) res" where
  "avahi_escape_label src ret_size = (if 0 < ret_size then Ret (escape_loop src ret_size) else Crash)"

text \<open>The escaped form of a label and of a byte, when there is room for it.\<close>

definition escape_byte :: "byte \<Rightarrow> byte list" where
  "escape_byte c =
     (if c = DOT \<or> c = BSL then [BSL, c] else if is_proper c then [c] else decimal_escape c)"

definition escape :: "byte list \<Rightarrow> byte list" where
  "escape l = concat (map escape_byte l)"

subsection \<open>Facts about one label\<close>

lemma escape_Nil [simp]: "escape [] = []"
  by (simp add: escape_def)

lemma escape_Cons [simp]: "escape (c # l) = escape_byte c @ escape l"
  by (simp add: escape_def)

lemma push_label_eq_Some:
  "push_label c r = Some (l, rest) \<longleftrightarrow> (\<exists>d. r = Some (d, rest) \<and> l = c # d)"
  by (cases r) (auto simp: push_label_def)

lemma push_label_None [simp]: "push_label c None = None"
  by (simp add: push_label_def)

lemma push_label_Some [simp]: "push_label c (Some (d, rest)) = Some (c # d, rest)"
  by (simp add: push_label_def)

lemma unescape_loop_room: "unescape_loop i sz s = Some r \<Longrightarrow> i < sz"
  by (cases s) (auto split: if_splits)

text \<open>
  One step of the unescape loop: what the first byte of a non-empty name can be when the
  loop succeeds. All facts about the loop go through this case rule.
\<close>

lemma unescape_loop_cases [consumes 1, case_names dot escaped number plain]:
  assumes "unescape_loop i sz (c # s) = Some (l, rest)"
  obtains "c = DOT" "l = []" "rest = s" "i < sz"
  | e t d where "c = BSL" "s = e # t" "e = BSL \<or> e = DOT" "l = e # d"
      "unescape_loop (Suc i) sz t = Some (d, rest)"
  | e d1 d2 u d n where "c = BSL" "s = e # d1 # d2 # u" "isdigit e" "isdigit d1" "isdigit d2"
      "n = escape_num e d1 d2" "0 < n" "n \<le> 255"
      "l = of_nat n # d" "unescape_loop (Suc i) sz u = Some (d, rest)"
  | d where "c \<noteq> DOT" "c \<noteq> BSL" "l = c # d" "unescape_loop (Suc i) sz s = Some (d, rest)"
proof -
  consider "c = DOT" | "c = BSL" | "c \<noteq> DOT" "c \<noteq> BSL" by blast
  then show thesis
  proof cases
    case 1
    with assms that(1) show thesis by (auto split: if_splits)
  next
    case 2
    with assms obtain e t where s: "s = e # t" by (auto split: if_splits list.splits)
    show thesis
    proof (cases "e = BSL \<or> e = DOT")
      case True
      with assms 2 s that(2) show thesis
        by (auto simp: push_label_eq_Some split: if_splits)
    next
      case False
      with assms 2 s obtain d1 d2 u where t: "t = d1 # d2 # u"
        by (auto split: if_splits list.splits)
      with False assms 2 s obtain d where
        "isdigit e" "isdigit d1" "isdigit d2" "0 < escape_num e d1 d2" "escape_num e d1 d2 \<le> 255"
        "l = of_nat (escape_num e d1 d2) # d" "unescape_loop (Suc i) sz u = Some (d, rest)"
        by (auto simp: push_label_eq_Some Let_def split: if_splits)
      with 2 s t that(3) show thesis by blast
    qed
  next
    case 3
    with assms that(4) show thesis
      by (auto simp: push_label_eq_Some split: if_splits)
  qed
qed

lemma unescape_loop_NilD: "unescape_loop i sz [] = Some (l, rest) \<Longrightarrow> l = [] \<and> rest = []"
  by (auto split: if_splits)

lemma unescape_loop_shorter:
  "unescape_loop i sz s = Some (l, rest) \<Longrightarrow> s \<noteq> [] \<Longrightarrow> length rest < length s"
proof (induction s arbitrary: i l rest rule: length_induct)
  case (1 s)
  from "1.prems" obtain c s' where s: "s = c # s'" by (cases s) auto
  have IH: "length rest \<le> length t"
    if "unescape_loop (Suc i) sz t = Some (d, rest)" "length t < length s" for t d
    using "1.IH" that by (cases t) (fastforce dest: unescape_loop_NilD)+
  from "1.prems"(1) s have "unescape_loop i sz (c # s') = Some (l, rest)" by simp
  then show ?case
    by (cases rule: unescape_loop_cases) (use IH s in fastforce)+
qed

lemma unescape_label_shorter:
  "avahi_unescape_label s sz = Some (l, rest) \<Longrightarrow> s \<noteq> [] \<Longrightarrow> length rest < length s"
  by (auto simp: avahi_unescape_label_def split: option.splits if_splits
      dest: unescape_loop_shorter)

lemma unescape_label_Nil:
  "avahi_unescape_label [] sz = (if 0 < sz then Some ([], []) else None)"
  by (simp add: avahi_unescape_label_def)

lemma unescape_label_shorter_le:
  "avahi_unescape_label s sz = Some (l, rest) \<Longrightarrow> length rest \<le> length s"
  by (cases s) (auto simp: unescape_label_Nil split: if_splits dest: unescape_label_shorter)

section \<open>Escaping and unescaping are inverse\<close>

lemma escape_num_decimal:
  "escape_num (0x30 + of_nat (unat c div 100)) (0x30 + of_nat (unat c div 10 mod 10))
     (0x30 + of_nat (unat c mod 10)) = unat (c :: byte)"
  by (simp add: escape_num_def digit_val_digit byte_hundreds three_digits)

lemma unescape_escape_byte:
  assumes "c \<noteq> 0" "i < sz"
  shows "unescape_loop i sz (escape_byte c @ t) = push_label c (unescape_loop (Suc i) sz t)"
proof -
  have lt: "unat c < 256" by simp
  consider "c = DOT \<or> c = BSL" | "c \<noteq> DOT" "c \<noteq> BSL" "is_proper c"
    | "c \<noteq> DOT" "c \<noteq> BSL" "\<not> is_proper c" by blast
  then show ?thesis
  proof cases
    case 1
    with assms show ?thesis by (auto simp: escape_byte_def)
  next
    case 2
    with assms show ?thesis by (simp add: escape_byte_def)
  next
    case 3
    let ?e = "0x30 + of_nat (unat c div 100) :: byte"
    have e: "isdigit ?e" "isdigit (0x30 + of_nat (unat c div 10 mod 10))"
      "isdigit (0x30 + of_nat (unat c mod 10))"
      by (auto intro!: isdigit_digit byte_hundreds)
    then have "?e \<noteq> DOT" "?e \<noteq> BSL" by (auto dest: isdigit_not_special)
    moreover have "0 < unat c" using assms(1) by (simp add: unat_gt_0)
    ultimately show ?thesis
      using 3 e lt assms(2)
      by (simp add: escape_byte_def decimal_escape_def Let_def escape_num_decimal)
  qed
qed

lemma unescape_loop_escape:
  assumes "cstring l" "i + length l < sz"
  shows "unescape_loop i sz (escape l @ t) =
         (case unescape_loop (i + length l) sz t of
            None \<Rightarrow> None | Some (d, rest) \<Rightarrow> Some (l @ d, rest))"
  using assms
proof (induction l arbitrary: i)
  case Nil
  then show ?case by (simp split: option.split)
next
  case (Cons c l)
  then have "unescape_loop i sz (escape (c # l) @ t) =
             push_label c (unescape_loop (Suc i) sz (escape l @ t))"
    by (simp add: unescape_escape_byte)
  with Cons show ?case by (simp split: option.split)
qed

text \<open>
  What may follow a label in a name: nothing, or a dot and the rest of the name, which is
  what the unescape function hands back.
\<close>

definition label_tail :: "byte list \<Rightarrow> byte list \<Rightarrow> bool" where
  "label_tail t rest \<longleftrightarrow> t = [] \<and> rest = [] \<or> t = DOT # rest"

lemma unescape_escape_label:
  assumes "cstring l" "length l < sz" "avahi_utf8_valid l" "label_tail t rest"
  shows "avahi_unescape_label (escape l @ t) sz = Some (l, rest)"
proof -
  have "unescape_loop (length l) sz t = Some ([], rest)"
    using assms by (auto simp: label_tail_def)
  with assms show ?thesis
    by (simp add: avahi_unescape_label_def unescape_loop_escape [where i = 0, simplified])
qed

text \<open>What the unescape function returns is a label: short, valid UTF-8, without NUL.\<close>

lemma unescape_loop_label:
  "unescape_loop i sz s = Some (l, rest) \<Longrightarrow> cstring s \<Longrightarrow>
   cstring l \<and> cstring rest \<and> i + length l < sz"
proof (induction s arbitrary: i l rest rule: length_induct)
  case (1 s)
  show ?case
  proof (cases s)
    case Nil
    with "1.prems" show ?thesis by (auto split: if_splits)
  next
    case (Cons c s')
    with "1.prems" have "unescape_loop i sz (c # s') = Some (l, rest)" and cs: "cstring (c # s')"
      by simp_all
    then show ?thesis
    proof (cases rule: unescape_loop_cases)
      case dot
      with cs show ?thesis by simp
    next
      case (escaped e t d)
      then show ?thesis using "1.IH" [rule_format, of t "Suc i" d rest] cs Cons by fastforce
    next
      case (number e d1 d2 u d n)
      then have "(of_nat n :: byte) \<noteq> 0"
        by (auto simp: word_of_nat_eq_0_iff dest: nat_dvd_not_less)
      then show ?thesis
        using number "1.IH" [rule_format, of u "Suc i" d rest] cs Cons by fastforce
    next
      case (plain d)
      then show ?thesis using "1.IH" [rule_format, of s' "Suc i" d rest] cs Cons by fastforce
    qed
  qed
qed

definition is_label :: "byte list \<Rightarrow> bool" where
  "is_label l \<longleftrightarrow> cstring l \<and> length l < AVAHI_LABEL_MAX \<and> avahi_utf8_valid l"

lemma unescape_label_is_label:
  "avahi_unescape_label s AVAHI_LABEL_MAX = Some (l, rest) \<Longrightarrow> cstring s \<Longrightarrow>
   is_label l \<and> cstring rest"
  by (auto simp: avahi_unescape_label_def is_label_def split: option.splits if_splits
      dest: unescape_loop_label)

lemma unescape_is_label:
  "is_label l \<Longrightarrow> label_tail t rest \<Longrightarrow>
   avahi_unescape_label (escape l @ t) AVAHI_LABEL_MAX = Some (l, rest)"
  by (simp add: is_label_def unescape_escape_label)

text \<open>The buffer arithmetic of \<open>avahi_escape_label\<close>: it succeeds when the escaped form and a NUL fit.\<close>

lemma length_escape_byte: "length (escape_byte c) \<le> 4" "0 < length (escape_byte c)"
  by (simp_all add: escape_byte_def decimal_escape_def)

lemma escape_loop_fits:
  "length (escape l) < sz \<Longrightarrow> escape_loop l sz = (True, escape l, sz - length (escape l))"
proof (induction l arbitrary: sz)
  case (Cons c l)
  consider "c = DOT \<or> c = BSL" | "\<not> (c = DOT \<or> c = BSL)" "is_proper c"
    | "\<not> (c = DOT \<or> c = BSL)" "\<not> is_proper c" by blast
  then show ?case
    by cases (use Cons in \<open>simp_all add: escape_byte_def decimal_escape_def put_bytes_def\<close>)
qed simp

lemma length_escape_le: "length (escape l) \<le> 4 * length l"
proof (induction l)
  case (Cons c l)
  then show ?case using length_escape_byte(1) [of c] by simp
qed simp

end
