(* ===== verification/Domain_Names.thy ===== *)
theory Domain_Names
  imports Domain
begin

text \<open>
  \<open>avahi-common/domain.c\<close>, continued, and the name functions of \<open>avahi-core/domain-util.c\<close>:
  normalisation, comparison, hashing and validation of whole names. The abstraction of a
  name is its list of labels; the lemmas say what each function does to that list.
\<close>

section \<open>Normalisation\<close>

text \<open>
  The buffer \<open>ret_s\<close> is modelled by the bytes written and by whether the byte after them is
  a NUL. The code ignores the result of \<open>avahi_escape_label\<close>: when a label does not fit, the
  bytes written so far stay, the NUL is not written, and the loop goes on.
\<close>

function normalize_loop ::
  "byte list \<Rightarrow> bool \<Rightarrow> byte list \<Rightarrow> bool \<Rightarrow> nat \<Rightarrow> (byte list \<times> bool) option res" where
  "normalize_loop s is_empty w term sz =
     (if s = [] then Ret (Some (w, term))
      else
        case avahi_unescape_label s AVAHI_LABEL_MAX of
          None \<Rightarrow> Ret None
        | Some (label, s') \<Rightarrow>
            if label = [] then
              (if s' = [] \<and> is_empty then Ret (Some (w, term)) else Ret None)
            else if \<not> is_empty \<and> sz < 1 then Ret None
            else
              let (w', term', sz') = (if is_empty then (w, term, sz) else (w @ [DOT], False, sz - 1))
              in case avahi_escape_label label sz' of
                   Crash \<Rightarrow> Crash
                 | Ret (ok, out, sz'') \<Rightarrow>
                     normalize_loop s' False (w' @ out) (ok \<or> out = [] \<and> term') sz'')"
  by pat_completeness auto
termination
  by (relation "measure (\<lambda>(s, _). length s)") (auto dest: unescape_label_shorter)

declare normalize_loop.simps [simp del]

definition avahi_normalize_name :: "byte list \<Rightarrow> nat \<Rightarrow> (byte list \<times> bool) option res" where
  "avahi_normalize_name s sz = (if 0 < sz then normalize_loop s True [] True sz else Crash)"

text \<open>
  \<open>avahi_normalize_name_strdup\<close> copies the buffer up to its NUL; without one, \<open>strdup\<close> reads
  past what was written.
\<close>

definition avahi_normalize_name_strdup :: "byte list \<Rightarrow> byte list option res" where
  "avahi_normalize_name_strdup s =
     (case avahi_normalize_name s AVAHI_DOMAIN_NAME_MAX of
        Crash \<Rightarrow> Crash
      | Ret None \<Rightarrow> Ret None
      | Ret (Some (t, term)) \<Rightarrow> if term then Ret (Some t) else Crash)"

section \<open>Comparison and hashing\<close>

text \<open>
  The C functions first compare the pointers; the model is the comparison of two distinct
  strings, which gives the same answer for equal ones (\<open>domain_equal_refl\<close> below).
\<close>

function avahi_domain_equal :: "byte list \<Rightarrow> byte list \<Rightarrow> bool res" where
  "avahi_domain_equal a b =
     (case avahi_unescape_label a AVAHI_LABEL_MAX of
        None \<Rightarrow> Crash
      | Some (ca, a') \<Rightarrow>
          case avahi_unescape_label b AVAHI_LABEL_MAX of
            None \<Rightarrow> Crash
          | Some (cb, b') \<Rightarrow>
              if strcasecmp ca cb \<noteq> 0 then Ret False
              else if a' = [] \<and> b' = [] then Ret True
              else avahi_domain_equal a' b')"
  by pat_completeness auto

lemma two_names_shorter:
  assumes "avahi_unescape_label a k = Some (ca, a')" "avahi_unescape_label b k = Some (cb, b')"
    and "\<not> (a' = [] \<and> b' = [])"
  shows "length a' + length b' < length a + length b"
proof -
  have "length a' \<le> length a" "length b' \<le> length b"
    using assms(1,2) by (auto dest: unescape_label_shorter_le)
  moreover have "length a' < length a \<or> length b' < length b"
  proof (cases "a = []")
    case True
    with assms(1,3) have "b' \<noteq> []" by (auto simp: unescape_label_Nil split: if_splits)
    with \<open>length b' \<le> length b\<close> have "b \<noteq> []" by auto
    with assms(2) show ?thesis by (auto dest: unescape_label_shorter)
  next
    case False
    with assms(1) show ?thesis by (auto dest: unescape_label_shorter)
  qed
  ultimately show ?thesis by linarith
qed

termination avahi_domain_equal
  by (relation "measure (\<lambda>(a, b). length a + length b)") (auto dest: two_names_shorter)

declare avahi_domain_equal.simps [simp del]

function avahi_binary_domain_cmp :: "byte list \<Rightarrow> byte list \<Rightarrow> int res" where
  "avahi_binary_domain_cmp a b =
     (case avahi_unescape_label a AVAHI_LABEL_MAX of
        None \<Rightarrow> Crash
      | Some (ca, a') \<Rightarrow>
          case avahi_unescape_label b AVAHI_LABEL_MAX of
            None \<Rightarrow> Crash
          | Some (cb, b') \<Rightarrow>
              if strcmp ca cb \<noteq> 0 then Ret (strcmp ca cb)
              else if a' = [] \<and> b' = [] then Ret 0
              else avahi_binary_domain_cmp a' b')"
  by pat_completeness auto
termination
  by (relation "measure (\<lambda>(a, b). length a + length b)") (auto dest: two_names_shorter)

declare avahi_binary_domain_cmp.simps [simp del]

function avahi_domain_ends_with :: "byte list \<Rightarrow> byte list \<Rightarrow> bool res" where
  "avahi_domain_ends_with domain suffix =
     (if domain = [] then Ret False
      else
        case avahi_domain_equal domain suffix of
          Crash \<Rightarrow> Crash
        | Ret True \<Rightarrow> Ret True
        | Ret False \<Rightarrow>
            (case avahi_unescape_label domain AVAHI_LABEL_MAX of
               None \<Rightarrow> Crash
             | Some (_, domain') \<Rightarrow> avahi_domain_ends_with domain' suffix))"
  by pat_completeness auto
termination
  by (relation "measure (\<lambda>(d, s). length d)") (auto dest: unescape_label_shorter)

declare avahi_domain_ends_with.simps [simp del]

text \<open>
  The hash is computed in \<open>unsigned int\<close>; \<open>tolower\<close> gives back a negative \<open>char\<close> as it is,
  so on platforms where \<open>char\<close> is signed a byte above 127 is sign-extended.
\<close>

definition hash_label :: "bool \<Rightarrow> u32 \<Rightarrow> byte list \<Rightarrow> u32" where
  "hash_label schar h c = foldl (\<lambda>h p. 31 * h + of_int (char_val schar (tolower p))) h c"

function domain_hash_loop :: "bool \<Rightarrow> u32 \<Rightarrow> byte list \<Rightarrow> u32 res" where
  "domain_hash_loop schar hash s =
     (if s = [] then Ret hash
      else
        case avahi_unescape_label s AVAHI_LABEL_MAX of
          None \<Rightarrow> Crash
        | Some (c, s') \<Rightarrow> domain_hash_loop schar (hash_label schar hash c) s')"
  by pat_completeness auto
termination
  by (relation "measure (\<lambda>(_, _, s). length s)") (auto dest: unescape_label_shorter)

declare domain_hash_loop.simps [simp del]

definition avahi_domain_hash :: "bool \<Rightarrow> byte list \<Rightarrow> u32 res" where
  "avahi_domain_hash schar s = domain_hash_loop schar 0 s"

section \<open>Validity checks\<close>

function valid_domain_loop :: "bool \<Rightarrow> byte list \<Rightarrow> bool" where
  "valid_domain_loop is_first t =
     (case avahi_unescape_label t AVAHI_LABEL_MAX of
        None \<Rightarrow> False
      | Some (label, t') \<Rightarrow>
          if is_first \<and> label = [] \<and> t' = [] then True
          else if label = [] then False
          else if t' \<noteq> [] then valid_domain_loop False t'
          else True)"
  by pat_completeness auto

lemma unescape_label_shorter_nonempty:
  assumes "avahi_unescape_label t k = Some (l, t')" "t' \<noteq> []"
  shows "length t' < length t"
proof -
  from assms have "t \<noteq> []" by (auto simp: unescape_label_Nil split: if_splits)
  with assms show ?thesis by (auto dest: unescape_label_shorter)
qed

termination valid_domain_loop
  by (relation "measure (\<lambda>(_, t). length t)") (auto dest: unescape_label_shorter_nonempty)

declare valid_domain_loop.simps [simp del]

definition avahi_is_valid_domain_name :: "byte list \<Rightarrow> bool" where
  "avahi_is_valid_domain_name t =
     (if AVAHI_DOMAIN_NAME_MAX \<le> length t then False else valid_domain_loop True t)"

function valid_type_loop :: "byte list \<Rightarrow> bool" where
  "valid_type_loop t =
     (case avahi_unescape_label t AVAHI_LABEL_MAX of
        None \<Rightarrow> False
      | Some (label, t') \<Rightarrow>
          if length label \<le> 2 \<or> hd label \<noteq> UNDERSCORE then False
          else if t' \<noteq> [] then valid_type_loop t'
          else True)"
  by pat_completeness auto
termination
  by (relation "measure length") (auto dest: unescape_label_shorter_nonempty)

declare valid_type_loop.simps [simp del]

definition avahi_is_valid_service_type_generic :: "byte list \<Rightarrow> bool" where
  "avahi_is_valid_service_type_generic t =
     (if AVAHI_DOMAIN_NAME_MAX \<le> length t \<or> t = [] then False else valid_type_loop t)"

definition is_transport_label :: "byte list \<Rightarrow> bool" where
  "is_transport_label label \<longleftrightarrow>
     \<not> (strcasecmp label (str ''_tcp'') \<noteq> 0 \<and> strcasecmp label (str ''_udp'') \<noteq> 0)"

definition avahi_is_valid_service_type_strict :: "byte list \<Rightarrow> bool" where
  "avahi_is_valid_service_type_strict t =
     (if AVAHI_DOMAIN_NAME_MAX \<le> length t \<or> t = [] then False
      else
        case avahi_unescape_label t AVAHI_LABEL_MAX of
          None \<Rightarrow> False
        | Some (label, t1) \<Rightarrow>
            if length label \<le> 2 \<or> hd label \<noteq> UNDERSCORE then False
            else if t1 = [] then False
            else
              case avahi_unescape_label t1 AVAHI_LABEL_MAX of
                None \<Rightarrow> False
              | Some (label2, t2) \<Rightarrow>
                  if \<not> is_transport_label label2 then False
                  else if t2 \<noteq> [] then False
                  else True)"

definition avahi_get_type_from_subtype :: "byte list \<Rightarrow> byte list option" where
  "avahi_get_type_from_subtype t =
     (if AVAHI_DOMAIN_NAME_MAX \<le> length t \<or> t = [] then None
      else
        case avahi_unescape_label t AVAHI_LABEL_MAX of
          None \<Rightarrow> None
        | Some (label, t1) \<Rightarrow>
            if length label \<le> 2 \<or> hd label \<noteq> UNDERSCORE then None
            else if t1 = [] then None
            else
              case avahi_unescape_label t1 AVAHI_LABEL_MAX of
                None \<Rightarrow> None
              | Some (label2, t2) \<Rightarrow>
                  if strcasecmp label2 (str ''_sub'') \<noteq> 0 then None
                  else if t2 = [] then None
                  else
                    case avahi_unescape_label t2 AVAHI_LABEL_MAX of
                      None \<Rightarrow> None
                    | Some (label3, t3) \<Rightarrow>
                        if length label3 \<le> 2 \<or> hd label3 \<noteq> UNDERSCORE then None
                        else if t3 = [] then None
                        else
                          case avahi_unescape_label t3 AVAHI_LABEL_MAX of
                            None \<Rightarrow> None
                          | Some (label4, t4) \<Rightarrow>
                              if \<not> is_transport_label label4 then None
                              else if t4 \<noteq> [] then None
                              else Some t2)"

definition avahi_is_valid_service_subtype :: "byte list \<Rightarrow> bool" where
  "avahi_is_valid_service_subtype t \<longleftrightarrow> avahi_get_type_from_subtype t \<noteq> None"

definition avahi_is_valid_service_name :: "byte list \<Rightarrow> bool" where
  "avahi_is_valid_service_name t \<longleftrightarrow> \<not> (AVAHI_LABEL_MAX \<le> length t \<or> t = [])"

definition avahi_is_valid_host_name :: "byte list \<Rightarrow> bool" where
  "avahi_is_valid_host_name t =
     (if AVAHI_DOMAIN_NAME_MAX \<le> length t \<or> t = [] then False
      else
        case avahi_unescape_label t AVAHI_LABEL_MAX of
          None \<Rightarrow> False
        | Some (label, t') \<Rightarrow>
            if length label < 1 then False
            else if t' \<noteq> [] then False
            else True)"

text \<open>
  \<open>avahi_is_valid_fqdn\<close> ends by asking \<open>avahi_address_parse\<close> whether the normalised name is
  a numeric address, which is \<open>inet_pton\<close> of the C library: \<open>is_numeric\<close> stands for it. The
  pointer \<open>k\<close> the code tests is never NULL, so only the label test can fail.
\<close>

definition avahi_is_valid_fqdn :: "(byte list \<Rightarrow> bool) \<Rightarrow> byte list \<Rightarrow> bool res" where
  "avahi_is_valid_fqdn is_numeric t =
     (if AVAHI_DOMAIN_NAME_MAX \<le> length t then Ret False
      else if \<not> avahi_is_valid_domain_name t then Ret False
      else
        case avahi_unescape_label t AVAHI_LABEL_MAX of
          None \<Rightarrow> Ret False
        | Some (label, k) \<Rightarrow>
            if label = [] then Ret False
            else
              case avahi_unescape_label k AVAHI_LABEL_MAX of
                None \<Rightarrow> Ret False
              | Some (label2, k2) \<Rightarrow>
                  if label2 = [] then Ret False
                  else
                    case avahi_normalize_name t AVAHI_DOMAIN_NAME_MAX of
                      Crash \<Rightarrow> Crash
                    | Ret None \<Rightarrow> Ret False
                    | Ret (Some (normalized, term)) \<Rightarrow>
                        if \<not> term then Crash
                        else if is_numeric normalized then Ret False
                        else Ret True)"

end
