(* ===== verification/Domain_Spec.thy ===== *)
theory Domain_Spec
  imports Domain_Names
begin

text \<open>
  The specification of domain names: a name stands for a list of labels, and every
  operation of \<open>Domain_Names\<close> is a function of that list. \<open>labels\<close> reads the list off a
  name, \<open>render\<close> writes it canonically, \<open>domain_labels\<close> is the abstraction of a valid name.
\<close>

section \<open>Names as lists of labels\<close>

function labels :: "byte list \<Rightarrow> byte list list option" where
  "labels s =
     (if s = [] then Some []
      else
        case avahi_unescape_label s AVAHI_LABEL_MAX of
          None \<Rightarrow> None
        | Some (l, rest) \<Rightarrow> map_option ((#) l) (labels rest))"
  by pat_completeness auto
termination
  by (relation "measure length") (auto dest: unescape_label_shorter)

declare labels.simps [simp del]

fun render :: "byte list list \<Rightarrow> byte list" where
  "render [] = []"
| "render [l] = escape l"
| "render (l # ls) = escape l @ DOT # render ls"

definition domain_labels :: "byte list \<Rightarrow> byte list list option" where
  "domain_labels s =
     (case labels s of
        None \<Rightarrow> None
      | Some ls \<Rightarrow> if ls = [[]] then Some [] else if [] \<in> set ls then None else Some ls)"

definition fold_case :: "byte list list \<Rightarrow> byte list list" where
  "fold_case ls = map (map tolower) ls"

text \<open>Lists of labels that a name can stand for.\<close>

definition label_list :: "byte list list \<Rightarrow> bool" where
  "label_list ls \<longleftrightarrow> [] \<notin> set ls \<and> (\<forall>l \<in> set ls. is_label l)"

lemma label_list_Nil [simp]: "label_list []"
  by (simp add: label_list_def)

lemma label_list_Cons [simp]: "label_list (l # ls) \<longleftrightarrow> l \<noteq> [] \<and> is_label l \<and> label_list ls"
  by (auto simp: label_list_def)

lemma label_list_append [simp]: "label_list (ls @ ms) \<longleftrightarrow> label_list ls \<and> label_list ms"
  by (auto simp: label_list_def)

lemma labels_Nil [simp]: "labels [] = Some []"
  by (simp add: labels.simps)

lemma labels_unescape:
  "s \<noteq> [] \<Longrightarrow> avahi_unescape_label s AVAHI_LABEL_MAX = Some (l, rest) \<Longrightarrow>
   labels s = map_option ((#) l) (labels rest)"
  by (simp add: labels.simps [of s])

lemma labels_SomeE:
  assumes "labels s = Some ls" "s \<noteq> []"
  obtains l rest ls' where "avahi_unescape_label s AVAHI_LABEL_MAX = Some (l, rest)"
    "labels rest = Some ls'" "ls = l # ls'"
  using assms by (auto simp: labels.simps [of s] split: option.splits)

lemma labels_eq_Nil: "labels s = Some [] \<longleftrightarrow> s = []"
  by (cases "s = []") (auto elim: labels_SomeE)

lemma labels_root: "labels s = Some [[]] \<Longrightarrow> avahi_unescape_label s AVAHI_LABEL_MAX = Some ([], [])"
  by (cases "s = []") (auto simp: labels_eq_Nil elim: labels_SomeE)

lemma labels_are_labels: "labels s = Some ls \<Longrightarrow> cstring s \<Longrightarrow> l \<in> set ls \<Longrightarrow> is_label l"
proof (induction s arbitrary: ls rule: labels.induct)
  case (1 s)
  show ?case
  proof (cases "s = []")
    case True
    with "1.prems" show ?thesis by simp
  next
    case False
    with "1.prems"(1) obtain l' rest ls' where
      u: "avahi_unescape_label s AVAHI_LABEL_MAX = Some (l', rest)"
      and r: "labels rest = Some ls'" "ls = l' # ls'" by (rule labels_SomeE)
    from u "1.prems"(2) have "is_label l'" "cstring rest" by (auto dest: unescape_label_is_label)
    with "1.IH" [OF False u [THEN trans] refl] "1.prems" u r False show ?thesis by auto
  qed
qed

lemma domain_labels_cases:
  assumes "domain_labels s = Some ls"
  obtains (root) "labels s = Some [[]]" "ls = []" | (proper) "labels s = Some ls" "[] \<notin> set ls"
  using assms by (auto simp: domain_labels_def split: option.splits if_splits)

lemma domain_labels_label_list:
  "domain_labels s = Some ls \<Longrightarrow> cstring s \<Longrightarrow> label_list ls"
  by (erule domain_labels_cases) (auto simp: label_list_def dest: labels_are_labels)

text \<open>The root name is written as the empty string or as a single dot; both unescape alike.\<close>

lemma unescape_root: "avahi_unescape_label [] AVAHI_LABEL_MAX = Some ([], [])"
  by (simp add: unescape_label_Nil AVAHI_LABEL_MAX_def)

lemma domain_labels_unescape_cases:
  assumes "domain_labels s = Some ls"
  obtains (root) "ls = []" "avahi_unescape_label s AVAHI_LABEL_MAX = Some ([], [])"
  | (proper) l rest ls' where "s \<noteq> []" "ls = l # ls'" "l \<noteq> []"
      "avahi_unescape_label s AVAHI_LABEL_MAX = Some (l, rest)"
      "labels rest = Some ls'" "[] \<notin> set ls'" "domain_labels rest = Some ls'"
  using assms
proof (cases rule: domain_labels_cases)
  case root
  with labels_root that(1) show ?thesis by blast
next
  case proper
  show ?thesis
  proof (cases "s = []")
    case True
    with proper that(1) unescape_root show ?thesis by simp
  next
    case False
    from proper(1) this obtain l rest ls' where
      *: "avahi_unescape_label s AVAHI_LABEL_MAX = Some (l, rest)" "labels rest = Some ls'"
        "ls = l # ls'" by (rule labels_SomeE)
    with proper(2) have "domain_labels rest = Some ls'" by (auto simp: domain_labels_def)
    with * proper(2) False that(2) show ?thesis by auto
  qed
qed

section \<open>The canonical form\<close>

lemma escape_nonempty: "l \<noteq> [] \<Longrightarrow> escape l \<noteq> []"
  using length_escape_byte(2) by (cases l) (auto simp del: length_greater_0_conv)

lemma render_Cons: "render (l # ls) = escape l @ (if ls = [] then [] else DOT # render ls)"
  by (cases ls) simp_all

lemma labels_render: "label_list ls \<Longrightarrow> labels (render ls) = Some ls"
proof (induction ls)
  case (Cons l ls)
  have "label_tail (if ls = [] then [] else DOT # render ls) (render ls)"
    by (simp add: label_tail_def)
  with Cons.prems have
    "avahi_unescape_label (render (l # ls)) AVAHI_LABEL_MAX = Some (l, render ls)"
    by (simp add: render_Cons unescape_is_label del: render.simps)
  with Cons show ?case
    by (subst labels_unescape) (auto simp: render_Cons escape_nonempty simp del: render.simps)
qed simp

lemma domain_labels_render: "label_list ls \<Longrightarrow> domain_labels (render ls) = Some ls"
  by (auto simp: domain_labels_def labels_render label_list_def)

section \<open>Normalisation writes the canonical form\<close>

text \<open>
  The buffer after the labels written so far: the loop is at the point where \<open>done\<close> labels
  have been copied.
\<close>

lemma normalize_loop_fits:
  assumes "labels s = Some ls" "[] \<notin> set ls"
    and "length (if is_empty then render ls else if ls = [] then [] else DOT # render ls) < sz"
  shows "normalize_loop s is_empty w True sz =
         Ret (Some (w @ (if is_empty then render ls else if ls = [] then [] else DOT # render ls), True))"
  using assms
proof (induction ls arbitrary: s is_empty w sz)
  case Nil
  then show ?case by (simp add: labels_eq_Nil normalize_loop.simps)
next
  case (Cons l ls)
  from Cons.prems(1) have s: "s \<noteq> []" by auto
  from Cons.prems(1) this obtain rest where
    u: "avahi_unescape_label s AVAHI_LABEL_MAX = Some (l, rest)" and r: "labels rest = Some ls"
    by (rule labels_SomeE) auto
  let ?sz = "if is_empty then sz else sz - 1"
  let ?w = "if is_empty then w else w @ [DOT]"
  have len: "length (escape l) + length (if ls = [] then [] else DOT # render ls) < ?sz"
    and pos: "0 < ?sz"
    using Cons.prems(3) by (auto simp: render_Cons simp del: render.simps)
  then have "escape_loop l ?sz = (True, escape l, ?sz - length (escape l))"
    by (simp add: escape_loop_fits)
  then have "normalize_loop s is_empty w True sz =
             normalize_loop rest False (?w @ escape l) True (?sz - length (escape l))"
    using s u pos Cons.prems(2) by (auto simp: normalize_loop.simps [of s] avahi_escape_label_def Let_def)
  also have "\<dots> = Ret (Some ((?w @ escape l) @ (if ls = [] then [] else DOT # render ls), True))"
    using Cons.IH [OF r, of False "?sz - length (escape l)"] Cons.prems(2) len
    by (auto split: if_splits)
  finally show ?case by (simp add: render_Cons del: render.simps)
qed

lemma normalize_name_fits:
  assumes "domain_labels s = Some ls" "length (render ls) < sz"
  shows "avahi_normalize_name s sz = Ret (Some (render ls, True))"
  using assms(1)
proof (cases rule: domain_labels_cases)
  case root
  then have "normalize_loop s True [] True sz = Ret (Some ([], True))"
    by (subst normalize_loop.simps) (auto dest: labels_root)
  with root assms(2) show ?thesis by (simp add: avahi_normalize_name_def)
next
  case proper
  with assms(2) normalize_loop_fits [of s ls True sz "[]"] show ?thesis
    by (auto simp: avahi_normalize_name_def)
qed

lemma normalize_strdup_fits:
  "domain_labels s = Some ls \<Longrightarrow> length (render ls) < AVAHI_DOMAIN_NAME_MAX \<Longrightarrow>
   avahi_normalize_name_strdup s = Ret (Some (render ls))"
  by (simp add: avahi_normalize_name_strdup_def normalize_name_fits)

section \<open>Comparison, hashing and validation are functions of the labels\<close>

lemma fold_case_Nil [simp]: "fold_case [] = []"
  by (simp add: fold_case_def)

lemma fold_case_Cons [simp]: "fold_case (l # ls) = map tolower l # fold_case ls"
  by (simp add: fold_case_def)

lemma fold_case_eq_Nil [simp]: "fold_case ls = [] \<longleftrightarrow> ls = []"
  by (simp add: fold_case_def)

lemma length_fold_case [simp]: "length (fold_case ls) = length ls"
  by (simp add: fold_case_def)

lemma fold_case_drop: "fold_case (drop n ls) = drop n (fold_case ls)"
  by (simp add: fold_case_def drop_map)

lemma labels_Cons_nonempty: "labels s = Some (l # ls) \<Longrightarrow> s \<noteq> []"
  by auto

lemma labels_ConsD:
  "labels s = Some (l # ls) \<Longrightarrow>
   \<exists>rest. avahi_unescape_label s AVAHI_LABEL_MAX = Some (l, rest) \<and> labels rest = Some ls"
  by (frule labels_Cons_nonempty) (erule labels_SomeE; auto)

text \<open>Label by label: the two loops see the same label boundaries as \<open>labels\<close> does.\<close>

lemma domain_equal_labels:
  assumes "labels a = Some la" "labels b = Some lb" "[] \<notin> set la" "[] \<notin> set lb"
  shows "avahi_domain_equal a b = Ret (fold_case la = fold_case lb)"
  using assms
proof (induction la arbitrary: a b lb)
  case Nil
  then have a: "a = []" by (simp add: labels_eq_Nil)
  show ?case
  proof (cases lb)
    case Nil
    with Nil.prems a show ?thesis
      by (subst avahi_domain_equal.simps) (simp add: labels_eq_Nil unescape_root strcasecmp_eq_0)
  next
    case (Cons l lb')
    with Nil.prems labels_ConsD [of b l lb'] obtain rest where
      "avahi_unescape_label b AVAHI_LABEL_MAX = Some (l, rest)" by auto
    with Cons Nil.prems a show ?thesis
      by (subst avahi_domain_equal.simps) (auto simp: unescape_root strcasecmp_eq_0)
  qed
next
  case (Cons l la)
  from labels_ConsD [OF Cons.prems(1)] obtain ra where
    ua: "avahi_unescape_label a AVAHI_LABEL_MAX = Some (l, ra)" "labels ra = Some la" by blast
  show ?case
  proof (cases lb)
    case Nil
    with Cons.prems have b: "b = []" by (simp add: labels_eq_Nil)
    with Nil Cons.prems ua show ?thesis
      by (subst avahi_domain_equal.simps) (auto simp: unescape_root strcasecmp_eq_0)
  next
    case (Cons k lb')
    with Cons.prems labels_ConsD [of b k lb'] obtain rb where
      ub: "avahi_unescape_label b AVAHI_LABEL_MAX = Some (k, rb)" "labels rb = Some lb'" by auto
    have "ra = [] \<and> rb = [] \<longrightarrow> la = [] \<and> lb' = []" using ua ub by auto
    with Cons Cons.prems Cons.IH [OF ua(2) ub(2)] ua ub show ?thesis
      by (subst avahi_domain_equal.simps) (auto simp: strcasecmp_eq_0)
  qed
qed

lemma domain_equal_cong:
  assumes "avahi_unescape_label a AVAHI_LABEL_MAX = avahi_unescape_label a' AVAHI_LABEL_MAX"
    and "avahi_unescape_label b AVAHI_LABEL_MAX = avahi_unescape_label b' AVAHI_LABEL_MAX"
  shows "avahi_domain_equal a b = avahi_domain_equal a' b'"
  unfolding avahi_domain_equal.simps [of a b] avahi_domain_equal.simps [of a' b'] assms ..

lemma binary_domain_cmp_cong:
  assumes "avahi_unescape_label a AVAHI_LABEL_MAX = avahi_unescape_label a' AVAHI_LABEL_MAX"
    and "avahi_unescape_label b AVAHI_LABEL_MAX = avahi_unescape_label b' AVAHI_LABEL_MAX"
  shows "avahi_binary_domain_cmp a b = avahi_binary_domain_cmp a' b'"
  unfolding avahi_binary_domain_cmp.simps [of a b] avahi_binary_domain_cmp.simps [of a' b'] assms ..

text \<open>A valid name behaves like a name whose labels are exactly \<open>ls\<close>; the root like the empty string.\<close>

lemma domain_labels_as_labels:
  assumes "domain_labels s = Some ls"
  obtains s' where "labels s' = Some ls" "[] \<notin> set ls"
    "avahi_unescape_label s AVAHI_LABEL_MAX = avahi_unescape_label s' AVAHI_LABEL_MAX"
    "s' = s \<or> s' = [] \<and> ls = []"
  using assms
proof (cases rule: domain_labels_cases)
  case root
  with that [of "[]"] show ?thesis by (simp add: labels_root unescape_root)
next
  case proper
  with that show ?thesis by blast
qed

lemma domain_equal_spec:
  assumes "domain_labels a = Some la" "domain_labels b = Some lb"
  shows "avahi_domain_equal a b = Ret (fold_case la = fold_case lb)"
proof -
  from assms(1) obtain a' where a': "labels a' = Some la" "[] \<notin> set la"
    "avahi_unescape_label a AVAHI_LABEL_MAX = avahi_unescape_label a' AVAHI_LABEL_MAX"
    by (rule domain_labels_as_labels)
  from assms(2) obtain b' where b': "labels b' = Some lb" "[] \<notin> set lb"
    "avahi_unescape_label b AVAHI_LABEL_MAX = avahi_unescape_label b' AVAHI_LABEL_MAX"
    by (rule domain_labels_as_labels)
  from a' b' show ?thesis
    using domain_equal_cong [OF a'(3) b'(3)] by (simp add: domain_equal_labels)
qed

lemma domain_equal_refl: "domain_labels a \<noteq> None \<Longrightarrow> avahi_domain_equal a a = Ret True"
  by (auto simp: domain_equal_spec)

fun labels_cmp :: "byte list list \<Rightarrow> byte list list \<Rightarrow> int" where
  "labels_cmp [] [] = 0"
| "labels_cmp [] (k # ks) = - 1"
| "labels_cmp (l # ls) [] = 1"
| "labels_cmp (l # ls) (k # ks) = (if l = k then labels_cmp ls ks else strcmp l k)"

lemma strcmp_Nil: "k \<noteq> [] \<Longrightarrow> strcmp [] k = - 1" "k \<noteq> [] \<Longrightarrow> strcmp k [] = 1"
  by (cases k; simp)+

lemma binary_domain_cmp_labels:
  assumes "labels a = Some la" "labels b = Some lb" "[] \<notin> set la" "[] \<notin> set lb"
  shows "avahi_binary_domain_cmp a b = Ret (labels_cmp la lb)"
  using assms
proof (induction la arbitrary: a b lb)
  case Nil
  then have a: "a = []" by (simp add: labels_eq_Nil)
  show ?case
  proof (cases lb)
    case Nil
    with Nil.prems a show ?thesis
      by (subst avahi_binary_domain_cmp.simps) (simp add: labels_eq_Nil unescape_root)
  next
    case (Cons l lb')
    with Nil.prems labels_ConsD [of b l lb'] obtain rest where
      "avahi_unescape_label b AVAHI_LABEL_MAX = Some (l, rest)" by auto
    with Cons Nil.prems a show ?thesis
      by (subst avahi_binary_domain_cmp.simps) (auto simp: unescape_root strcmp_Nil)
  qed
next
  case (Cons l la)
  from labels_ConsD [OF Cons.prems(1)] obtain ra where
    ua: "avahi_unescape_label a AVAHI_LABEL_MAX = Some (l, ra)" "labels ra = Some la" by blast
  show ?case
  proof (cases lb)
    case Nil
    with Cons.prems have b: "b = []" by (simp add: labels_eq_Nil)
    with Nil Cons.prems ua show ?thesis
      by (subst avahi_binary_domain_cmp.simps) (auto simp: unescape_root strcmp_Nil)
  next
    case (Cons k lb')
    with Cons.prems labels_ConsD [of b k lb'] obtain rb where
      ub: "avahi_unescape_label b AVAHI_LABEL_MAX = Some (k, rb)" "labels rb = Some lb'" by auto
    have "ra = [] \<and> rb = [] \<longrightarrow> la = [] \<and> lb' = []" using ua ub by auto
    with Cons Cons.prems Cons.IH [OF ua(2) ub(2)] ua ub show ?thesis
      by (subst avahi_binary_domain_cmp.simps) auto
  qed
qed

lemma binary_domain_cmp_spec:
  assumes "domain_labels a = Some la" "domain_labels b = Some lb"
  shows "avahi_binary_domain_cmp a b = Ret (labels_cmp la lb)"
proof -
  from assms(1) obtain a' where a': "labels a' = Some la" "[] \<notin> set la"
    "avahi_unescape_label a AVAHI_LABEL_MAX = avahi_unescape_label a' AVAHI_LABEL_MAX"
    by (rule domain_labels_as_labels)
  from assms(2) obtain b' where b': "labels b' = Some lb" "[] \<notin> set lb"
    "avahi_unescape_label b AVAHI_LABEL_MAX = avahi_unescape_label b' AVAHI_LABEL_MAX"
    by (rule domain_labels_as_labels)
  from a' b' show ?thesis
    using binary_domain_cmp_cong [OF a'(3) b'(3)] by (simp add: binary_domain_cmp_labels)
qed

lemma labels_cmp_eq_0: "labels_cmp la lb = 0 \<longleftrightarrow> la = lb"
  by (induction la lb rule: labels_cmp.induct) auto

lemma labels_cmp_sym: "labels_cmp lb la = - labels_cmp la lb"
proof (induction la lb rule: labels_cmp.induct)
  case (4 l ls k ks)
  then show ?case using strcmp_sym [of l k] by auto
qed simp_all

lemma labels_cmp_trans:
  "labels_cmp la lb < 0 \<Longrightarrow> labels_cmp lb lc < 0 \<Longrightarrow> labels_cmp la lc < 0"
proof (induction la lb arbitrary: lc rule: labels_cmp.induct)
  case (2 k ks)
  then show ?case by (cases lc) simp_all
next
  case (4 l ls k ks)
  show ?case
  proof (cases lc)
    case Nil
    with 4 show ?thesis by simp
  next
    case (Cons m ms)
    with 4 show ?thesis
      using strcmp_trans [of l k m] strcmp_sym [of k m] by (auto split: if_splits)
  qed
qed simp_all

lemma hash_label_fold_case: "map tolower l = map tolower k \<Longrightarrow> hash_label sc h l = hash_label sc h k"
proof (induction l arbitrary: h k)
  case Nil
  then show ?case by simp
next
  case (Cons c l)
  then obtain d k' where "k = d # k'" "tolower c = tolower d" "map tolower l = map tolower k'"
    by (cases k) auto
  with Cons.IH show ?case by (simp add: hash_label_def)
qed

fun hash_labels :: "bool \<Rightarrow> u32 \<Rightarrow> byte list list \<Rightarrow> u32" where
  "hash_labels sc h [] = h"
| "hash_labels sc h (l # ls) = hash_labels sc (hash_label sc h l) ls"

lemma domain_hash_loop_labels:
  "labels s = Some ls \<Longrightarrow> domain_hash_loop sc h s = Ret (hash_labels sc h ls)"
proof (induction ls arbitrary: s h)
  case Nil
  then show ?case by (simp add: labels_eq_Nil domain_hash_loop.simps)
next
  case (Cons l ls)
  from labels_ConsD [OF Cons.prems] obtain rest where
    "avahi_unescape_label s AVAHI_LABEL_MAX = Some (l, rest)" "labels rest = Some ls" by blast
  with Cons show ?case
    by (subst domain_hash_loop.simps) auto
qed

lemma hash_labels_fold_case: "fold_case la = fold_case lb \<Longrightarrow> hash_labels sc h la = hash_labels sc h lb"
proof (induction la arbitrary: lb h)
  case Nil
  then show ?case by (cases lb) simp_all
next
  case (Cons l la)
  then obtain k lb' where "lb = k # lb'" "map tolower l = map tolower k" "fold_case la = fold_case lb'"
    by (cases lb) auto
  with Cons.IH hash_label_fold_case [of l k] show ?case by simp
qed

lemma domain_hash_spec:
  assumes "domain_labels s = Some ls"
  shows "avahi_domain_hash sc s = Ret (hash_labels sc 0 ls)"
  using assms
proof (cases rule: domain_labels_cases)
  case root
  then show ?thesis
    by (simp add: avahi_domain_hash_def domain_hash_loop_labels hash_label_def)
next
  case proper
  then show ?thesis by (simp add: avahi_domain_hash_def domain_hash_loop_labels)
qed

lemma valid_domain_loop_labels:
  "t \<noteq> [] \<Longrightarrow> valid_domain_loop False t \<longleftrightarrow> (\<exists>ls. labels t = Some ls \<and> [] \<notin> set ls)"
proof (induction t rule: labels.induct)
  case (1 t)
  show ?case
  proof (cases "avahi_unescape_label t AVAHI_LABEL_MAX")
    case None
    with "1.prems" show ?thesis by (simp add: valid_domain_loop.simps labels.simps [of t])
  next
    case (Some r)
    obtain l t' where "r = (l, t')" by fastforce
    with Some have u: "avahi_unescape_label t AVAHI_LABEL_MAX = Some (l, t')" by simp
    have "t' \<noteq> [] \<Longrightarrow> valid_domain_loop False t' \<longleftrightarrow> (\<exists>ls. labels t' = Some ls \<and> [] \<notin> set ls)"
      using "1.IH" [OF "1.prems" u refl] .
    with u "1.prems" show ?thesis
      by (subst valid_domain_loop.simps) (auto simp: labels_unescape)
  qed
qed

lemma valid_domain_loop_spec: "valid_domain_loop True t \<longleftrightarrow> domain_labels t \<noteq> None"
proof (cases "t = []")
  case True
  then show ?thesis by (subst valid_domain_loop.simps) (simp add: unescape_root domain_labels_def)
next
  case False
  show ?thesis
  proof (cases "avahi_unescape_label t AVAHI_LABEL_MAX")
    case None
    with False show ?thesis
      by (simp add: valid_domain_loop.simps [of True] domain_labels_def labels.simps [of t])
  next
    case (Some r)
    obtain l t' where "r = (l, t')" by fastforce
    with Some have u: "avahi_unescape_label t AVAHI_LABEL_MAX = Some (l, t')" by simp
    then show ?thesis
      using False valid_domain_loop_labels [of t']
      by (subst valid_domain_loop.simps)
        (auto simp: domain_labels_def labels_unescape labels_eq_Nil split: option.splits)
  qed
qed

lemma valid_domain_name_spec:
  "avahi_is_valid_domain_name t \<longleftrightarrow> length t < AVAHI_DOMAIN_NAME_MAX \<and> domain_labels t \<noteq> None"
  by (auto simp: avahi_is_valid_domain_name_def valid_domain_loop_spec)

text \<open>\<open>avahi_domain_ends_with\<close> finds a proper suffix of the labels.\<close>

definition ends_with_labels :: "byte list list \<Rightarrow> byte list list \<Rightarrow> bool" where
  "ends_with_labels ld ls \<longleftrightarrow> (\<exists>pre suf. ld = pre @ suf \<and> suf \<noteq> [] \<and> fold_case suf = fold_case ls)"

lemma ends_with_labels_Nil [simp]: "\<not> ends_with_labels [] ls"
  by (simp add: ends_with_labels_def)

lemma ends_with_labels_Cons:
  "ends_with_labels (l # ld) ls \<longleftrightarrow> fold_case (l # ld) = fold_case ls \<or> ends_with_labels ld ls"
proof
  assume "ends_with_labels (l # ld) ls"
  then obtain pre suf where *: "l # ld = pre @ suf" "suf \<noteq> []" "fold_case suf = fold_case ls"
    by (auto simp: ends_with_labels_def)
  then show "fold_case (l # ld) = fold_case ls \<or> ends_with_labels ld ls"
    by (cases pre) (auto simp: ends_with_labels_def simp del: fold_case_Cons)
next
  assume "fold_case (l # ld) = fold_case ls \<or> ends_with_labels ld ls"
  then show "ends_with_labels (l # ld) ls"
  proof
    assume "fold_case (l # ld) = fold_case ls"
    then have "l # ld = [] @ l # ld \<and> l # ld \<noteq> [] \<and> fold_case (l # ld) = fold_case ls" by simp
    then show ?thesis unfolding ends_with_labels_def by blast
  next
    assume "ends_with_labels ld ls"
    then obtain pre suf where "ld = pre @ suf" "suf \<noteq> []" "fold_case suf = fold_case ls"
      by (auto simp: ends_with_labels_def)
    then have "l # ld = (l # pre) @ suf \<and> suf \<noteq> [] \<and> fold_case suf = fold_case ls" by simp
    then show ?thesis unfolding ends_with_labels_def by blast
  qed
qed

lemma domain_ends_with_spec:
  assumes "labels d = Some ld" "[] \<notin> set ld" "domain_labels suffix = Some ls"
  shows "avahi_domain_ends_with d suffix = Ret (ends_with_labels ld ls)"
  using assms(1,2)
proof (induction ld arbitrary: d)
  case Nil
  then show ?case by (simp add: labels_eq_Nil avahi_domain_ends_with.simps)
next
  case (Cons l ld)
  from labels_ConsD [OF Cons.prems(1)] obtain r where
    u: "avahi_unescape_label d AVAHI_LABEL_MAX = Some (l, r)" "labels r = Some ld" by blast
  have "domain_labels d = Some (l # ld)" using Cons.prems by (auto simp: domain_labels_def)
  then have eq: "avahi_domain_equal d suffix = Ret (fold_case (l # ld) = fold_case ls)"
    using assms(3) by (rule domain_equal_spec)
  have "d \<noteq> []" using Cons.prems by auto
  with Cons.IH [OF u(2)] Cons.prems u eq show ?case
    by (subst avahi_domain_ends_with.simps)
      (auto simp: ends_with_labels_Cons split: bool.split)
qed

end
