(* ===== verification/Alternative.thy ===== *)
theory Alternative
  imports Domain_Spec
begin

text \<open>
  \<open>avahi-common/alternative.c\<close>: the next name to try when a host or service name is taken.
  A trailing number is counted up, otherwise number 2 is appended; the name is cut to fit a
  label, at a character boundary. A number too large for \<open>int\<close> is undefined in \<open>atoi\<close> and in
  the addition, hence \<open>Crash\<close>.
\<close>

fun drop_incomplete_utf8 :: "byte list \<Rightarrow> byte list res" where
  "drop_incomplete_utf8 [] = Ret []"
| "drop_incomplete_utf8 (c # s) =
     (if avahi_utf8_valid (c # s) then Ret (c # s)
      else if last (c # s) < 128 then Crash
      else drop_incomplete_utf8 (butlast (c # s)))"

text \<open>The digits after the last dash or number sign: a positive number without leading zero.\<close>

definition is_number :: "byte list \<Rightarrow> bool" where
  "is_number e \<longleftrightarrow> \<not> (\<exists>p \<in> set e. \<not> isdigit p) \<and> \<not> (e = [] \<or> hd e = 0x30)"

text \<open>\<open>atoi(e)+1\<close> as text.\<close>

definition next_number :: "byte list \<Rightarrow> byte list res" where
  "next_number e = (if digits_val e < 2 ^ 31 - 1 then Ret (decimal (digits_val e + 1)) else Crash)"

text \<open>\<open>strrchr(s, '-')\<close>: what precedes and what follows the last dash.\<close>

fun split_last_dash :: "byte list \<Rightarrow> (byte list \<times> byte list) option" where
  "split_last_dash [] = None"
| "split_last_dash (c # s) =
     (case split_last_dash s of
        Some (b, e) \<Rightarrow> Some (c # b, e)
      | None \<Rightarrow> if c = DASH then Some ([], s) else None)"

text \<open>
  \<open>min_len\<close> is the cut of the code, \<open>if (l >= m) l = m\<close>.
\<close>

definition cut :: "byte list \<Rightarrow> nat \<Rightarrow> byte list" where
  "cut b m = take (if m \<le> length b then m else length b) b"

definition numbered_name :: "byte list \<Rightarrow> byte list \<Rightarrow> byte list \<Rightarrow> byte list res" where
  "numbered_name b sep m =
     res_map (\<lambda>c. c @ sep @ m) (drop_incomplete_utf8 (cut b (AVAHI_LABEL_MAX - 1 - length m - length sep)))"

definition check_name :: "(byte list \<Rightarrow> bool) \<Rightarrow> byte list res \<Rightarrow> byte list option res" where
  "check_name ok r = res_bind r (\<lambda>t. if ok t then Ret (Some t) else Crash)"

definition avahi_alternative_host_name :: "byte list \<Rightarrow> byte list option res" where
  "avahi_alternative_host_name s =
     (if \<not> avahi_is_valid_host_name s then Ret None
      else
        check_name avahi_is_valid_host_name
          (case split_last_dash s of
             None \<Rightarrow> numbered_name s [DASH] (str ''2'')
           | Some (b, e) \<Rightarrow>
               if is_number e then res_bind (next_number e) (\<lambda>m. numbered_name b [DASH] m)
               else numbered_name s [DASH] (str ''2'')))"

text \<open>The last occurrence of \<open> #\<close>, found by searching on from every occurrence.\<close>

fun strstr_mark :: "byte list \<Rightarrow> (byte list \<times> byte list) option" where
  "strstr_mark (c # d # s) =
     (if c = SPACE \<and> d = HASH then Some ([], s)
      else map_option (\<lambda>(b, e). (c # b, e)) (strstr_mark (d # s)))"
| "strstr_mark _ = None"

lemma strstr_mark_split: "strstr_mark s = Some (b, e) \<Longrightarrow> s = b @ [SPACE, HASH] @ e"
  by (induction s arbitrary: b rule: strstr_mark.induct) (auto split: if_splits)

function last_mark :: "byte list \<Rightarrow> byte list \<Rightarrow> byte list \<times> byte list" where
  "last_mark b e =
     (case strstr_mark e of
        None \<Rightarrow> (b, e)
      | Some (b', e') \<Rightarrow> last_mark (b @ [SPACE, HASH] @ b') e')"
  by pat_completeness auto
termination
  by (relation "measure (\<lambda>(b, e). length e)") (auto dest: strstr_mark_split)

declare last_mark.simps [simp del]

definition avahi_alternative_service_name :: "byte list \<Rightarrow> byte list option res" where
  "avahi_alternative_service_name s =
     (if \<not> avahi_is_valid_service_name s then Ret None
      else
        check_name avahi_is_valid_service_name
          (case strstr_mark s of
             None \<Rightarrow> numbered_name s [SPACE, HASH] (str ''2'')
           | Some (b0, e0) \<Rightarrow>
               (case last_mark b0 e0 of (b, e) \<Rightarrow>
                  if is_number e then res_bind (next_number e) (\<lambda>m. numbered_name b [SPACE, HASH] m)
                  else numbered_name s [SPACE, HASH] (str ''2''))))"

section \<open>Cutting at a character boundary\<close>

text \<open>
  A cut of valid UTF-8 is valid UTF-8 followed by the first bytes of one character: bytes
  above 127, no prefix of which is valid.
\<close>

definition partial_char :: "byte list \<Rightarrow> bool" where
  "partial_char q \<longleftrightarrow> (\<forall>c \<in> set q. 128 \<le> c) \<and>
     (\<forall>k. 0 < k \<longrightarrow> k \<le> length q \<longrightarrow> \<not> avahi_utf8_valid (take k q))"

lemma continuation_high: "is_continuation c \<Longrightarrow> 128 \<le> c"
proof -
  assume "is_continuation c"
  then have "c AND 0xC0 = 0x80" by (simp add: is_continuation_def)
  moreover have "c AND 0xC0 \<le> c" by (rule word_and_le2)
  ultimately show ?thesis by simp
qed

lemma partial_char_Nil [simp]: "partial_char []"
  by (simp add: partial_char_def)

lemma partial_one: "\<not> c < 128 \<Longrightarrow> partial_char [c]"
  by (auto simp: partial_char_def not_less)

lemma partial_two:
  "\<not> c < 128 \<Longrightarrow> c AND 0xE0 \<noteq> 0xC0 \<Longrightarrow> 128 \<le> c1 \<Longrightarrow> partial_char [c, c1]"
  by (auto simp: partial_char_def not_less take_Cons')

lemma partial_three:
  "\<not> c < 128 \<Longrightarrow> c AND 0xE0 \<noteq> 0xC0 \<Longrightarrow> c AND 0xF0 \<noteq> 0xE0 \<Longrightarrow> 128 \<le> c1 \<Longrightarrow> 128 \<le> c2 \<Longrightarrow>
   partial_char [c, c1, c2]"
  by (auto simp: partial_char_def not_less take_Cons')

lemma partial_butlast: "partial_char q \<Longrightarrow> partial_char (butlast q)"
  by (auto simp: partial_char_def butlast_conv_take min_def dest: in_set_takeD)

text \<open>The cut after \<open>n\<close> bytes; \<open>prefix_ok\<close> moves a cut behind a whole character.\<close>

definition cut_ok :: "byte list \<Rightarrow> bool" where
  "cut_ok t \<longleftrightarrow> (\<exists>p q. t = p @ q \<and> avahi_utf8_valid p \<and> partial_char q)"

lemma cut_ok_valid_append: "avahi_utf8_valid p \<Longrightarrow> cut_ok t \<Longrightarrow> cut_ok (p @ t)"
  unfolding cut_ok_def by (metis append_assoc utf8_valid_append)

lemma cut_ok_partial: "partial_char q \<Longrightarrow> cut_ok q"
  unfolding cut_ok_def by (metis append_Nil avahi_utf8_valid.simps(1))

lemma cut_ok_take: "avahi_utf8_valid s \<Longrightarrow> cut_ok (take n s)"
proof (induction s arbitrary: n rule: avahi_utf8_valid.induct)
  case 1
  show ?case by (simp add: cut_ok_partial)
next
  case (2 c s)
  consider "n = 0" | "0 < n" "c < 128" | "0 < n" "\<not> c < 128" "c AND 0xE0 = 0xC0"
    | "0 < n" "\<not> c < 128" "c AND 0xE0 \<noteq> 0xC0" "c AND 0xF0 = 0xE0"
    | "0 < n" "\<not> c < 128" "c AND 0xE0 \<noteq> 0xC0" "c AND 0xF0 \<noteq> 0xE0" "c AND 0xF8 = 0xF0"
    using "2.prems" by (auto split: if_splits)
  then show ?case
  proof cases
    case 1
    then show ?thesis by (simp add: cut_ok_partial)
  next
    case 2
    with "2.prems" "2.IH"(1) have "cut_ok ([c] @ take (n - 1) s)"
      by (intro cut_ok_valid_append) simp_all
    with 2 show ?thesis by (simp add: take_Cons')
  next
    case 3
    with "2.prems" obtain c1 s1 where s: "s = c1 # s1" and ok: "c AND 0x1E \<noteq> 0" "is_continuation c1" "avahi_utf8_valid s1"
      by (auto split: list.splits if_splits)
    show ?thesis
    proof (cases "n = 1")
      case True
      with 3 show ?thesis by (simp add: cut_ok_partial partial_one)
    next
      case False
      from 3 s ok "2.IH"(2) have "cut_ok ([c, c1] @ take (n - 2) s1)"
        by (intro cut_ok_valid_append) simp_all
      with False 3(1) s show ?thesis by (simp add: take_Cons' numeral_2_eq_2)
    qed
  next
    case 4
    with "2.prems" obtain c1 c2 s2 where s: "s = c1 # c2 # s2" by (auto split: list.splits)
    with 4 "2.prems" have ok: "is_continuation c1" "is_continuation c2" "avahi_utf8_valid s2"
      by simp_all
    consider "n = 1" | "n = 2" | "2 < n" using 4(1) by linarith
    then show ?thesis
    proof cases
      case 3
      from 4 s ok "2.IH"(3) have "cut_ok ([c, c1, c2] @ take (n - 3) s2)"
        using "2.prems" by (intro cut_ok_valid_append) (simp_all add: Let_def)
      with 3 s show ?thesis by (simp add: take_Cons' numeral_3_eq_3)
    qed (use 4 s ok in \<open>simp_all add: cut_ok_partial partial_one partial_two continuation_high\<close>)
  next
    case 5
    with "2.prems" obtain c1 c2 c3 s3 where s: "s = c1 # c2 # c3 # s3" by (auto split: list.splits)
    with 5 "2.prems" have ok: "is_continuation c1" "is_continuation c2" "is_continuation c3" "avahi_utf8_valid s3"
      by simp_all
    consider "n = 1" | "n = 2" | "n = 3" | "3 < n" using 5(1) by linarith
    then show ?thesis
    proof cases
      case 4
      from 5 s ok "2.IH"(4) have "cut_ok ([c, c1, c2, c3] @ take (n - 4) s3)"
        using "2.prems" by (intro cut_ok_valid_append) (simp_all add: Let_def)
      moreover from 4 obtain m where "n = Suc (Suc (Suc (Suc m)))"
        using that [of "n - 4"] by linarith
      ultimately show ?thesis using s by simp
    qed (use 5 s ok in \<open>simp_all add: cut_ok_partial partial_one partial_two partial_three continuation_high\<close>)
  qed
qed

lemma drop_incomplete_valid: "avahi_utf8_valid s \<Longrightarrow> drop_incomplete_utf8 s = Ret s"
  by (cases s) (simp_all del: avahi_utf8_valid.simps)

lemma drop_incomplete_step:
  "\<not> avahi_utf8_valid s \<Longrightarrow> s \<noteq> [] \<Longrightarrow> \<not> last s < 128 \<Longrightarrow>
   drop_incomplete_utf8 s = drop_incomplete_utf8 (butlast s)"
  by (cases s) (simp_all del: avahi_utf8_valid.simps butlast.simps last.simps)

lemma drop_incomplete_partial:
  "avahi_utf8_valid p \<Longrightarrow> partial_char q \<Longrightarrow> drop_incomplete_utf8 (p @ q) = Ret p"
proof (induction q rule: rev_induct)
  case Nil
  then show ?case by (simp add: drop_incomplete_valid)
next
  case (snoc x q)
  from snoc.prems(2) have "\<not> avahi_utf8_valid (q @ [x])"
    unfolding partial_char_def by (metis length_append_singleton order_refl take_all zero_less_Suc)
  with snoc.prems(1) have "\<not> avahi_utf8_valid (p @ q @ [x])" by (simp add: utf8_valid_append)
  moreover have "\<not> last (p @ q @ [x]) < 128"
    using snoc.prems(2) by (simp add: partial_char_def not_less)
  moreover have "partial_char q" using partial_butlast [OF snoc.prems(2)] by simp
  ultimately show ?case
    using snoc drop_incomplete_step [of "p @ q @ [x]"] by (simp add: butlast_append)
qed

lemma drop_incomplete_cut:
  assumes "avahi_utf8_valid s" "cstring s"
  shows "\<exists>t. drop_incomplete_utf8 (cut s m) = Ret t \<and> avahi_utf8_valid t \<and> cstring t \<and> length t \<le> m \<and>
    (\<exists>u. s = t @ u)"
proof -
  from assms(1) have "cut_ok (cut s m)" unfolding cut_def by (rule cut_ok_take)
  then obtain p q where pq: "cut s m = p @ q" "avahi_utf8_valid p" "partial_char q"
    by (auto simp: cut_ok_def)
  have "s = cut s m @ drop (length (cut s m)) s" by (simp add: cut_def)
  with pq(1) have u: "s = p @ q @ drop (length (cut s m)) s" by simp
  moreover from u assms(2) have "cstring p" by (metis cstring_append)
  moreover have "length (p @ q) \<le> m" using pq(1) [symmetric] by (simp add: cut_def)
  ultimately show ?thesis using drop_incomplete_partial [OF pq(2,3)] pq by auto
qed

section \<open>The last number of a name\<close>

definition has_mark :: "byte list \<Rightarrow> bool" where
  "has_mark s \<longleftrightarrow> (\<exists>b e. s = b @ [SPACE, HASH] @ e)"

lemma strstr_mark_None: "strstr_mark s = None \<Longrightarrow> \<not> has_mark s"
proof (induction s rule: strstr_mark.induct)
  case (1 c d s)
  then have n: "\<not> (c = SPACE \<and> d = HASH)" "\<not> has_mark (d # s)" by (auto split: if_splits)
  show ?case
  proof
    assume "has_mark (c # d # s)"
    then obtain b e where *: "c # d # s = b @ [SPACE, HASH] @ e" by (auto simp: has_mark_def)
    with n(1) have "b \<noteq> []" by auto
    then have "d # s = tl b @ [SPACE, HASH] @ e" using * by (cases b) auto
    with n(2) show False unfolding has_mark_def by blast
  qed
qed (auto simp: has_mark_def Cons_eq_append_conv append_eq_Cons_conv)

lemma last_mark_split:
  "last_mark b e = (b', e') \<Longrightarrow> b' @ [SPACE, HASH] @ e' = b @ [SPACE, HASH] @ e \<and> \<not> has_mark e'"
proof (induction b e rule: last_mark.induct)
  case (1 b e)
  show ?case
  proof (cases "strstr_mark e")
    case None
    with "1.prems" strstr_mark_None show ?thesis by (simp add: last_mark.simps [of b e])
  next
    case (Some r)
    obtain b1 e1 where "r = (b1, e1)" by fastforce
    with Some have s: "strstr_mark e = Some (b1, e1)" by simp
    with "1.prems" have "last_mark (b @ [SPACE, HASH] @ b1) e1 = (b', e')"
      by (simp add: last_mark.simps [of b e])
    with "1.IH" [OF s refl] strstr_mark_split [OF s] show ?thesis by simp
  qed
qed

lemma mark_unique:
  assumes "b @ [SPACE, HASH] @ e = t @ [SPACE, HASH] @ m" "\<not> has_mark e" "\<not> has_mark m"
  shows "e = m"
proof -
  have one: "e' = m'" if "us @ [SPACE, HASH] @ e' = [SPACE, HASH] @ m'" "\<not> has_mark m'" for us e' m'
  proof (cases us)
    case (Cons x xs)
    show ?thesis
    proof (cases xs)
      case Nil
      with Cons that(1) show ?thesis by simp
    next
      case (Cons y ys)
      with \<open>us = x # xs\<close> that(1) have "m' = ys @ [SPACE, HASH] @ e'" by simp
      with that(2) show ?thesis unfolding has_mark_def by blast
    qed
  qed (use that in simp)
  from assms(1) consider us where "us @ [SPACE, HASH] @ e = [SPACE, HASH] @ m"
    | us where "us @ [SPACE, HASH] @ m = [SPACE, HASH] @ e"
    by (auto simp: append_eq_append_conv2)
  then show ?thesis by cases (use one assms in blast)+
qed

lemma no_mark_digits: "\<forall>c \<in> set m. isdigit c \<Longrightarrow> \<not> has_mark m"
  by (auto simp: has_mark_def isdigit_def)

lemma is_number_digits: "is_number e \<Longrightarrow> \<forall>c \<in> set e. isdigit c"
  by (auto simp: is_number_def)

lemma digits_val_2: "digits_val (str ''2'') = 2"
  by code_simp

section \<open>The new name\<close>

lemma utf8_valid_before_ascii: "avahi_utf8_valid (b @ c # t) \<Longrightarrow> c < 128 \<Longrightarrow> avahi_utf8_valid b"
proof (induction b rule: avahi_utf8_valid.induct)
  case (2 x b)
  have c: "\<not> is_continuation c" using "2.prems"(2) continuation_high [of c] by auto
  consider "x < 128" | "\<not> x < 128" "x AND 0xE0 = 0xC0"
    | "\<not> x < 128" "x AND 0xE0 \<noteq> 0xC0" "x AND 0xF0 = 0xE0"
    | "\<not> x < 128" "x AND 0xE0 \<noteq> 0xC0" "x AND 0xF0 \<noteq> 0xE0" "x AND 0xF8 = 0xF0"
    using "2.prems" by (auto split: if_splits)
  then show ?case
  proof cases
    case 1
    with 2 show ?thesis by simp
  next
    case 2
    with "2.prems" "2.IH"(2) c show ?thesis by (cases b) (simp_all split: if_splits)
  next
    case 3
    with "2.prems" c obtain c1 c2 b2 where "b = c1 # c2 # b2"
      by (cases b; cases "tl b") (auto split: list.splits)
    with 3 "2.prems" "2.IH"(3) show ?thesis by (simp add: Let_def)
  next
    case 4
    with "2.prems" c obtain c1 c2 c3 b3 where "b = c1 # c2 # c3 # b3"
      by (cases b; cases "tl b"; cases "tl (tl b)") (auto split: list.splits)
    with 4 "2.prems" "2.IH"(4) show ?thesis by (simp add: Let_def)
  qed
qed simp

lemma numbered_name_ok:
  assumes "avahi_utf8_valid s" "cstring s" "\<forall>c \<in> set m. isdigit c" "\<forall>c \<in> set sep. c \<noteq> 0 \<and> c < 128"
    and "length m + length sep < AVAHI_LABEL_MAX"
  shows "\<exists>t. numbered_name s sep m = Ret (t @ sep @ m) \<and> avahi_utf8_valid (t @ sep @ m) \<and>
    cstring (t @ sep @ m) \<and> length (t @ sep @ m) < AVAHI_LABEL_MAX \<and> (\<exists>u. s = t @ u)"
proof -
  obtain t where t: "drop_incomplete_utf8 (cut s (AVAHI_LABEL_MAX - 1 - length m - length sep)) = Ret t"
    "avahi_utf8_valid t" "cstring t" "length t \<le> AVAHI_LABEL_MAX - 1 - length m - length sep" "\<exists>u. s = t @ u"
    using drop_incomplete_cut [OF assms(1,2)] by blast
  have "avahi_utf8_valid (sep @ m)" "cstring (sep @ m)"
    using assms(3,4) isdigit_not_special by (auto intro!: utf8_valid_ascii simp: cstring_def)
  with t assms(5) show ?thesis
    by (intro exI [of _ t]) (auto simp: numbered_name_def utf8_valid_append)
qed

lemma length_decimal: "n < 10 ^ k \<Longrightarrow> 0 < k \<Longrightarrow> length (decimal n) \<le> k"
proof (induction k arbitrary: n)
  case (Suc k)
  show ?case
  proof (cases "n < 10")
    case True
    then show ?thesis by (simp add: decimal.simps [of n])
  next
    case False
    with Suc.prems have "n div 10 < 10 ^ k" "0 < k"
      by (auto simp: div_less_iff_less_mult mult.commute intro: gr0I)
    with Suc.IH False show ?thesis by (simp add: decimal.simps [of n])
  qed
qed simp

lemma next_number_length: "next_number e = Ret m \<Longrightarrow> length m \<le> 10 \<and> (\<forall>c \<in> set m. isdigit c) \<and> digits_val m = digits_val e + 1"
  using length_decimal [of "digits_val e + 1" 10]
  by (auto simp: next_number_def digits_val_decimal decimal_isdigit split: if_splits)

text \<open>The last mark of a name is the one with a number behind it, when there is such a one.\<close>

lemma last_mark_number:
  assumes "strstr_mark s = Some (b0, e0)" "last_mark b0 e0 = (b, e)"
  shows "s = b @ [SPACE, HASH] @ e" "\<not> has_mark e"
    "s = b' @ [SPACE, HASH] @ e' \<Longrightarrow> is_number e' \<Longrightarrow> b' = b \<and> e' = e"
proof -
  show s: "s = b @ [SPACE, HASH] @ e" "\<not> has_mark e"
    using strstr_mark_split [of s b0 e0] last_mark_split [of b0 e0 b e] assms by simp_all
  assume s': "s = b' @ [SPACE, HASH] @ e'" "is_number e'"
  then have "\<not> has_mark e'" using is_number_digits no_mark_digits by blast
  with s s'(1) mark_unique [of b e b' e'] have "e = e'" by simp
  with s s'(1) show "b' = b \<and> e' = e" by simp
qed

text \<open>What the new name is like: a service name of valid UTF-8 that is not the old one.\<close>

definition renamed :: "byte list \<Rightarrow> byte list \<Rightarrow> byte list \<Rightarrow> byte list \<Rightarrow> bool" where
  "renamed s b m r \<longleftrightarrow>
     avahi_is_valid_service_name r \<and> cstring r \<and> avahi_utf8_valid r \<and> r \<noteq> s \<and>
     (\<exists>t u. b = t @ u \<and> r = t @ [SPACE, HASH] @ m)"

lemma renamed_ok:
  assumes "avahi_utf8_valid b" "cstring b" "\<forall>c \<in> set m. isdigit c" "length m \<le> 10"
    and "\<And>t. t @ [SPACE, HASH] @ m \<noteq> s"
  shows "\<exists>r. check_name avahi_is_valid_service_name (numbered_name b [SPACE, HASH] m) = Ret (Some r) \<and> renamed s b m r"
proof -
  have "\<forall>c \<in> set [SPACE, HASH]. c \<noteq> 0 \<and> c < 128" by simp
  from numbered_name_ok [OF assms(1-3) this] assms(4) obtain t u where
    t: "numbered_name b [SPACE, HASH] m = Ret (t @ [SPACE, HASH] @ m)" "avahi_utf8_valid (t @ [SPACE, HASH] @ m)"
      "cstring (t @ [SPACE, HASH] @ m)" "length (t @ [SPACE, HASH] @ m) < AVAHI_LABEL_MAX" "b = t @ u"
    by (auto simp: AVAHI_LABEL_MAX_def)
  from t(4) have "avahi_is_valid_service_name (t @ [SPACE, HASH] @ m)" by (simp add: avahi_is_valid_service_name_def)
  with t assms(5) show ?thesis by (auto simp: check_name_def renamed_def)
qed

text \<open>
  Property C37. The alternative of a service name (valid UTF-8). When a positive number n without leading
  zero follows its last ' #', the result is a beginning of what is before the mark, ' #' and n + 1;
  for an n that \<open>int\<close> has no successor of, the code is undefined. Otherwise, whatever
  the name ends in, it is a beginning of the name and ' #2'. The result is again a valid service name
  of valid UTF-8, and it is not the one that was taken.
\<close>

theorem alternative_service_name_fresh:
  assumes "avahi_is_valid_service_name s" "cstring s" "avahi_utf8_valid s"
  shows "(\<forall>b e. s = b @ [SPACE, HASH] @ e \<and> is_number e \<longrightarrow>
      (if digits_val e < 2 ^ 31 - 1
       then \<exists>r. avahi_alternative_service_name s = Ret (Some r) \<and> renamed s b (decimal (digits_val e + 1)) r
       else avahi_alternative_service_name s = Crash)) \<and>
    (\<not> (\<exists>b e. s = b @ [SPACE, HASH] @ e \<and> is_number e) \<longrightarrow>
       (\<exists>r. avahi_alternative_service_name s = Ret (Some r) \<and> renamed s s (str ''2'') r))"
proof (intro conjI allI impI)
  fix b e
  assume s: "s = b @ [SPACE, HASH] @ e \<and> is_number e"
  then have "has_mark s" unfolding has_mark_def by blast
  then obtain b0 e0 where m: "strstr_mark s = Some (b0, e0)" using strstr_mark_None by (cases "strstr_mark s") auto
  obtain b1 e1 where l: "last_mark b0 e0 = (b1, e1)" by fastforce
  with last_mark_number(3) [OF m l, of b e] s have l: "last_mark b0 e0 = (b, e)" by blast
  note mark = last_mark_number(1,2) [OF m l]
  have r: "avahi_alternative_service_name s =
      res_bind (next_number e) (\<lambda>m. check_name avahi_is_valid_service_name (numbered_name b [SPACE, HASH] m))"
    using m l s assms(1) by (simp add: avahi_alternative_service_name_def check_name_def next_number_def)
  show "if digits_val e < 2 ^ 31 - 1
       then \<exists>r. avahi_alternative_service_name s = Ret (Some r) \<and> renamed s b (decimal (digits_val e + 1)) r
       else avahi_alternative_service_name s = Crash"
  proof (cases "digits_val e < 2 ^ 31 - 1")
    case True
    let ?m = "decimal (digits_val e + 1)"
    have n: "next_number e = Ret ?m" using True by (simp add: next_number_def)
    note dm = next_number_length [OF n]
    have "t @ [SPACE, HASH] @ ?m \<noteq> s" for t
    proof
      assume "t @ [SPACE, HASH] @ ?m = s"
      with mark dm no_mark_digits mark_unique [of b e t ?m] have "e = ?m" by simp
      with dm show False by simp
    qed
    moreover have "cstring b" "avahi_utf8_valid b"
      using s assms(2,3) utf8_valid_before_ascii [of b SPACE "HASH # e"] by simp_all
    ultimately show ?thesis using renamed_ok [of b ?m s] dm True unfolding r n by simp
  qed (simp add: r next_number_def)
next
  let ?two = "str ''2''"
  assume none: "\<not> (\<exists>b e. s = b @ [SPACE, HASH] @ e \<and> is_number e)"
  have two: "\<forall>c \<in> set ?two. isdigit c" "length ?two \<le> 10" "is_number ?two" by (simp_all add: str_def isdigit_def is_number_def)
  have "avahi_alternative_service_name s = check_name avahi_is_valid_service_name (numbered_name s [SPACE, HASH] ?two)"
  proof (cases "strstr_mark s")
    case None
    with assms(1) show ?thesis by (simp add: avahi_alternative_service_name_def)
  next
    case (Some r0)
    obtain b0 e0 b e where be: "r0 = (b0, e0)" "last_mark b0 e0 = (b, e)" by fastforce
    with Some last_mark_number(1) [of s b0 e0 b e] none have "\<not> is_number e" by blast
    with Some be assms(1) show ?thesis by (simp add: avahi_alternative_service_name_def)
  qed
  moreover have "t @ [SPACE, HASH] @ ?two \<noteq> s" for t using none two(3) by metis
  ultimately show "\<exists>r. avahi_alternative_service_name s = Ret (Some r) \<and> renamed s s ?two r"
    using renamed_ok [OF assms(3,2) two(1,2)] by simp
qed

definition taken_service :: "byte list" where
  "taken_service = str ''Office #second floor''"

lemma alternative_service_name_fresh_witness:
  "\<exists>r. avahi_alternative_service_name taken_service = Ret (Some r) \<and> renamed taken_service taken_service (str ''2'') r"
proof -
  have ok: "avahi_is_valid_service_name taken_service" "cstring taken_service" "avahi_utf8_valid taken_service" by code_simp+
  have "\<not> (\<exists>b e. taken_service = b @ [SPACE, HASH] @ e \<and> is_number e)"
    by (auto simp: taken_service_def str_def Cons_eq_append_conv is_number_def isdigit_def)
  with alternative_service_name_fresh [OF ok] show ?thesis by blast
qed

section \<open>Host names\<close>

lemma split_last_dash_Some: "split_last_dash s = Some (b, e) \<Longrightarrow> s = b @ DASH # e \<and> DASH \<notin> set e"
  and split_last_dash_None: "split_last_dash s = None \<Longrightarrow> DASH \<notin> set s"
proof (induction s arbitrary: b)
  case (Cons c s)
  {
    case 1
    with Cons.IH show ?case by (auto split: option.splits if_splits)
  next
    case 2
    with Cons.IH show ?case by (auto split: option.splits if_splits)
  }
qed simp_all

lemma unescape_plain:
  "DOT \<notin> set s \<Longrightarrow> BSL \<notin> set s \<Longrightarrow>
   unescape_loop i sz s = (if i + length s < sz then Some (s, []) else None)"
  by (induction s arbitrary: i) auto

lemma valid_host_plain:
  assumes "DOT \<notin> set s" "BSL \<notin> set s"
  shows "avahi_is_valid_host_name s \<longleftrightarrow> s \<noteq> [] \<and> length s < AVAHI_LABEL_MAX \<and> avahi_utf8_valid s"
  using assms
  by (auto simp: avahi_is_valid_host_name_def avahi_unescape_label_def unescape_plain
      AVAHI_LABEL_MAX_def AVAHI_DOMAIN_NAME_MAX_def Suc_le_eq)

lemma dash_unique:
  assumes "b @ DASH # e = t @ DASH # m" "DASH \<notin> set e" "DASH \<notin> set m"
  shows "e = m"
proof -
  from assms(1) have "rev e @ DASH # rev b = rev m @ DASH # rev t"
    by (metis append_assoc append_Cons append_Nil rev.simps(2) rev_append)
  moreover have "takeWhile (\<lambda>c. c \<noteq> DASH) (rev x @ DASH # y) = rev x" if "DASH \<notin> set x" for x y
    using that by (subst takeWhile_append2) auto
  ultimately have "rev e = rev m" using assms(2,3) by metis
  then show ?thesis by simp
qed

text \<open>
  For a host name without dots and backslashes (and without a number beyond
  \<open>int\<close> after its last dash) \<open>avahi_alternative_host_name\<close> returns a different, valid host
  name.
\<close>

lemma alternative_host_name_fresh:
  assumes "avahi_is_valid_host_name s" "cstring s" "DOT \<notin> set s" "BSL \<notin> set s"
    and "\<forall>b e. s = b @ DASH # e \<and> is_number e \<longrightarrow> digits_val e < 2 ^ 31 - 1"
  shows "\<exists>r. avahi_alternative_host_name s = Ret (Some r) \<and> avahi_is_valid_host_name r \<and> r \<noteq> s"
proof -
  let ?two = "str ''2''"
  have sep: "\<forall>c \<in> set [DASH]. c \<noteq> 0 \<and> c < 128" by simp
  have two: "\<forall>c \<in> set ?two. isdigit c" "length ?two = 1" by (simp_all add: str_def isdigit_def)
  have nodash: "DASH \<notin> set m" if "\<forall>c \<in> set m. isdigit c" for m
    using that by (auto simp: isdigit_def)
  have u: "avahi_utf8_valid s" using assms valid_host_plain by blast
  have attempt: "\<exists>r. check_name avahi_is_valid_host_name (numbered_name b [DASH] m) = Ret (Some r) \<and>
      avahi_is_valid_host_name r \<and> r \<noteq> s"
    if b: "avahi_utf8_valid b" "\<exists>u. s = b @ u" and m: "\<forall>c \<in> set m. isdigit c" "length m \<le> 10"
      and fresh: "\<And>t. t @ DASH # m \<noteq> s" for b m
  proof -
    from b(2) assms(2-4) have b': "cstring b" "DOT \<notin> set b" "BSL \<notin> set b" by auto
    obtain t where t: "numbered_name b [DASH] m = Ret (t @ [DASH] @ m)" "avahi_utf8_valid (t @ [DASH] @ m)"
      "length (t @ [DASH] @ m) < AVAHI_LABEL_MAX" "\<exists>u. b = t @ u"
      using numbered_name_ok [OF b(1) b'(1) m(1) sep] m(2) by (auto simp: AVAHI_LABEL_MAX_def)
    from t(4) b' m(1) isdigit_not_special have "DOT \<notin> set (t @ [DASH] @ m)" "BSL \<notin> set (t @ [DASH] @ m)"
      by auto
    with t valid_host_plain have "avahi_is_valid_host_name (t @ [DASH] @ m)" by simp
    with t(1) fresh [of t] show ?thesis by (simp add: check_name_def)
  qed
  show ?thesis
  proof (cases "\<exists>b e. split_last_dash s = Some (b, e) \<and> is_number e")
    case True
    then obtain b e where be: "split_last_dash s = Some (b, e)" "is_number e" by blast
    then have s: "s = b @ DASH # e" "DASH \<notin> set e" using split_last_dash_Some by blast+
    from assms(5) s be(2) obtain m where m: "next_number e = Ret m" by (auto simp: next_number_def)
    note dm = next_number_length [OF m]
    have "t @ DASH # m \<noteq> s" for t
      using s dm nodash [of m] dash_unique [of b e t m] by auto
    moreover have "avahi_utf8_valid b" using u s utf8_valid_before_ascii [of b DASH e] by simp
    ultimately show ?thesis
      using attempt [of b m] dm s be m assms(1) by (auto simp: avahi_alternative_host_name_def)
  next
    case False
    have "t @ DASH # ?two \<noteq> s" for t
    proof
      assume eq: "t @ DASH # ?two = s"
      then obtain b e where "split_last_dash s = Some (b, e)"
        using split_last_dash_None [of s] by (cases "split_last_dash s") auto
      moreover from this eq have "e = ?two"
        using split_last_dash_Some [of s b e] dash_unique [of b e t ?two] nodash [OF two(1)] by simp
      ultimately show False using False two by (auto simp: is_number_def str_def)
    qed
    with attempt [of s ?two] u two have
      "\<exists>r. check_name avahi_is_valid_host_name (numbered_name s [DASH] ?two) = Ret (Some r) \<and>
       avahi_is_valid_host_name r \<and> r \<noteq> s" by simp
    with False assms(1) show ?thesis
      by (auto simp: avahi_alternative_host_name_def split: option.split)
  qed
qed

definition taken_host :: "byte list" where
  "taken_host = str ''pi-9''"

lemma alternative_host_name_fresh_witness:
  "\<exists>r. avahi_alternative_host_name taken_host = Ret (Some r) \<and> avahi_is_valid_host_name r \<and> r \<noteq> taken_host"
proof (rule alternative_host_name_fresh)
  show "\<forall>b e. taken_host = b @ DASH # e \<and> is_number e \<longrightarrow> digits_val e < 2 ^ 31 - 1"
    by (auto simp: taken_host_def str_def Cons_eq_append_conv digits_val_def digit_val_def)
qed code_simp+

text \<open>
  The assertion at the end of \<open>avahi_alternative_host_name\<close> fails for some valid
  host names: for 60 letters, an escaped backslash and another letter, because the cut after
  61 bytes leaves a lone backslash, and for a host name with a trailing dot.
\<close>

lemma alternative_host_name_crash:
  "avahi_is_valid_host_name (replicate 60 0x61 @ [BSL, BSL, 0x62]) \<and>
   avahi_alternative_host_name (replicate 60 0x61 @ [BSL, BSL, 0x62]) = Crash \<and>
   avahi_is_valid_host_name (str ''host.'') \<and> avahi_alternative_host_name (str ''host.'') = Crash"
  by code_simp

end
