(* ===== verification/Service_Name.thy ===== *)
theory Service_Name
  imports Domain_Spec
begin

text \<open>
  \<open>avahi_service_name_join\<close> and \<open>avahi_service_name_split\<close> of \<open>avahi-common/domain.c\<close>: the
  full name of a service is its instance name, its type and its domain. Splitting gives back
  what was joined.
\<close>

definition AVAHI_OK :: int where "AVAHI_OK = 0"
definition AVAHI_ERR_INVALID_DOMAIN_NAME :: int where "AVAHI_ERR_INVALID_DOMAIN_NAME = - 4"
definition AVAHI_ERR_INVALID_SERVICE_NAME :: int where "AVAHI_ERR_INVALID_SERVICE_NAME = - 10"
definition AVAHI_ERR_INVALID_SERVICE_TYPE :: int where "AVAHI_ERR_INVALID_SERVICE_TYPE = - 11"
definition AVAHI_ERR_NO_MEMORY :: int where "AVAHI_ERR_NO_MEMORY = - 24"

text \<open>
  \<open>snprintf\<close> into \<open>p\<close> of \<open>size\<close> bytes keeps what fits before the NUL. The result is the
  error code, or \<open>AVAHI_OK\<close> and the contents of \<open>p\<close>.
\<close>

definition snprintf_to :: "nat \<Rightarrow> byte list \<Rightarrow> byte list" where
  "snprintf_to sz s = take (sz - 1) s"

definition avahi_service_name_join ::
  "nat \<Rightarrow> byte list option \<Rightarrow> byte list \<Rightarrow> byte list \<Rightarrow> (int + byte list) res" where
  "avahi_service_name_join sz name type domain =
     (if (case name of None \<Rightarrow> False | Some n \<Rightarrow> \<not> avahi_is_valid_service_name n)
      then Ret (Inl AVAHI_ERR_INVALID_SERVICE_NAME)
      else if \<not> avahi_is_valid_service_type_generic type
      then Ret (Inl AVAHI_ERR_INVALID_SERVICE_TYPE)
      else if \<not> avahi_is_valid_domain_name domain
      then Ret (Inl AVAHI_ERR_INVALID_DOMAIN_NAME)
      else
        res_bind
          (case name of
             None \<Rightarrow> Ret []
           | Some n \<Rightarrow>
               (case avahi_escape_label n (AVAHI_LABEL_MAX * 4) of
                  Crash \<Rightarrow> Crash
                | Ret (ok, e, _) \<Rightarrow> if ok then Ret (e @ [DOT]) else Crash))
          (\<lambda>prefix.
             case avahi_normalize_name type AVAHI_DOMAIN_NAME_MAX of
               Crash \<Rightarrow> Crash
             | Ret None \<Rightarrow> Ret (Inl AVAHI_ERR_INVALID_SERVICE_TYPE)
             | Ret (Some (t, t_term)) \<Rightarrow>
                 (case avahi_normalize_name domain AVAHI_DOMAIN_NAME_MAX of
                    Crash \<Rightarrow> Crash
                  | Ret None \<Rightarrow> Ret (Inl AVAHI_ERR_INVALID_DOMAIN_NAME)
                  | Ret (Some (d, d_term)) \<Rightarrow>
                      if t_term \<and> d_term
                      then Ret (Inr (snprintf_to sz (prefix @ t @ DOT # d)))
                      else Crash)))"

text \<open>\<open>strlcpy\<close>: at most \<open>n - 1\<close> bytes and a NUL.\<close>

definition strlcpy :: "byte list \<Rightarrow> nat \<Rightarrow> byte list" where
  "strlcpy src n = take (n - 1) src"

datatype split_state = ST_NAME | ST_TYPE | ST_DOMAIN

text \<open>A buffer of the split function: what is written, whether it is still empty, the room left.\<close>

record out_buf =
  written :: "byte list"
  buf_empty :: bool
  room :: nat

definition new_buf :: "nat \<Rightarrow> out_buf" where
  "new_buf n = \<lparr>written = [], buf_empty = True, room = n\<rparr>"

text \<open>
  Appending a label to such a buffer, with a dot before it unless it is the first: the code
  of the cases \<open>TYPE\<close> and \<open>DOMAIN\<close>, which are the same but for the buffer.
\<close>

definition append_label :: "out_buf \<Rightarrow> byte list \<Rightarrow> (int + out_buf) res" where
  "append_label b label =
     (if \<not> buf_empty b \<and> room b = 0 then Ret (Inl AVAHI_ERR_NO_MEMORY)
      else
        let b' = (if buf_empty b then b\<lparr>buf_empty := False\<rparr>
                  else b\<lparr>written := written b @ [DOT], room := room b - 1\<rparr>)
        in case avahi_escape_label label (room b') of
             Crash \<Rightarrow> Crash
           | Ret (ok, out, r) \<Rightarrow>
               if ok then Ret (Inr (b'\<lparr>written := written b' @ out, room := r\<rparr>))
               else Ret (Inl AVAHI_ERR_NO_MEMORY))"

definition starts_underscore :: "byte list \<Rightarrow> bool" where
  "starts_underscore l = (case l of [] \<Rightarrow> False | c # _ \<Rightarrow> c = UNDERSCORE)"

function split_loop ::
  "byte list \<Rightarrow> split_state \<Rightarrow> nat \<Rightarrow> byte list \<Rightarrow> out_buf \<Rightarrow> out_buf \<Rightarrow>
   (int + byte list \<times> byte list \<times> byte list) res" where
  "split_loop p st name_sz name type domain =
     (if p = [] then Ret (Inr (name, written type, written domain))
      else
        case avahi_unescape_label p 64 of
          None \<Rightarrow> Ret (Inl (- 1))
        | Some (buf, p') \<Rightarrow>
            if st = ST_NAME then
              split_loop p' ST_TYPE name_sz (strlcpy buf name_sz) type domain
            else if st = ST_TYPE \<and> starts_underscore buf then
              (case append_label type buf of
                 Crash \<Rightarrow> Crash
               | Ret (Inl e) \<Rightarrow> Ret (Inl e)
               | Ret (Inr type') \<Rightarrow> split_loop p' ST_TYPE name_sz name type' domain)
            else
              (case append_label domain buf of
                 Crash \<Rightarrow> Crash
               | Ret (Inl e) \<Rightarrow> Ret (Inl e)
               | Ret (Inr domain') \<Rightarrow> split_loop p' ST_DOMAIN name_sz name type domain'))"
  by pat_completeness auto
termination
  by (relation "measure (\<lambda>(p, _). length p)") (auto dest: unescape_label_shorter)

declare split_loop.simps [simp del]

text \<open>
  \<open>name_sz = None\<close> is a NULL \<open>name\<close>: the caller does not want the instance name, and the
  name has none. The sizes are asserted to be positive.
\<close>

definition avahi_service_name_split ::
  "byte list \<Rightarrow> nat option \<Rightarrow> nat \<Rightarrow> nat \<Rightarrow> (int + byte list \<times> byte list \<times> byte list) res" where
  "avahi_service_name_split p name_sz type_sz domain_sz =
     (if 0 < type_sz \<and> 0 < domain_sz then
        (case name_sz of
           None \<Rightarrow> split_loop p ST_TYPE 0 [] (new_buf type_sz) (new_buf domain_sz)
         | Some n \<Rightarrow>
             if 0 < n then split_loop p ST_NAME n [] (new_buf type_sz) (new_buf domain_sz)
             else Crash)
      else Crash)"

section \<open>What the functions do\<close>

lemma append_label_fits:
  assumes "length (written b @ (if buf_empty b then [] else [DOT]) @ escape l) < length (written b) + room b"
  shows "append_label b l =
    Ret (Inr \<lparr>written = written b @ (if buf_empty b then [] else [DOT]) @ escape l, buf_empty = False,
              room = length (written b) + room b - length (written b @ (if buf_empty b then [] else [DOT]) @ escape l)\<rparr>)"
proof (cases "buf_empty b")
  case True
  with assms have "escape_loop l (room b) = (True, escape l, room b - length (escape l))"
    by (intro escape_loop_fits) simp
  with True assms show ?thesis
    by (cases b) (simp add: append_label_def avahi_escape_label_def Let_def)
next
  case False
  with assms have "escape_loop l (room b - 1) = (True, escape l, room b - 1 - length (escape l))"
    by (intro escape_loop_fits) simp
  with False assms show ?thesis
    by (cases b) (simp add: append_label_def avahi_escape_label_def Let_def)
qed

text \<open>The text that labels add to a buffer.\<close>

definition dotted :: "bool \<Rightarrow> byte list list \<Rightarrow> byte list" where
  "dotted e ls = (if e then render ls else if ls = [] then [] else DOT # render ls)"

lemma dotted_Nil [simp]: "dotted e [] = []"
  by (simp add: dotted_def)

lemma dotted_Cons: "dotted e (l # ls) = (if e then [] else [DOT]) @ escape l @ dotted False ls"
  by (cases ls) (simp_all add: dotted_def)

lemma append_label_dotted:
  assumes "length (dotted (buf_empty b) (l # ls)) < room b"
  obtains b' where "append_label b l = Ret (Inr b')"
    "written b' = written b @ (if buf_empty b then [] else [DOT]) @ escape l"
    "\<not> buf_empty b'" "length (dotted False ls) < room b'"
    "room b' + length (escape l) + (if buf_empty b then 0 else 1) = room b"
proof -
  have "length (written b @ (if buf_empty b then [] else [DOT]) @ escape l) < length (written b) + room b"
    using assms by (auto simp: dotted_Cons split: if_splits)
  from append_label_fits [OF this] show thesis
    by (rule that) (use assms in \<open>auto simp: dotted_Cons split: if_splits\<close>)
qed

lemma split_loop_domain:
  assumes "labels p = Some dl" "length (dotted (buf_empty domain) dl) < room domain"
    and "st = ST_DOMAIN \<or> st = ST_TYPE \<and> (dl = [] \<or> \<not> starts_underscore (hd dl))"
  shows "split_loop p st n name type domain =
         Ret (Inr (name, written type, written domain @ dotted (buf_empty domain) dl))"
  using assms
proof (induction dl arbitrary: p st domain)
  case Nil
  then show ?case by (simp add: labels_eq_Nil split_loop.simps)
next
  case (Cons l dl)
  from labels_ConsD [OF Cons.prems(1)] obtain p' where
    u: "avahi_unescape_label p 64 = Some (l, p')" "labels p' = Some dl"
    by (auto simp: AVAHI_LABEL_MAX_def)
  from Cons.prems(2) obtain b' where b': "append_label domain l = Ret (Inr b')"
    "written b' = written domain @ (if buf_empty domain then [] else [DOT]) @ escape l"
    "\<not> buf_empty b'" "length (dotted False dl) < room b'"
    by (rule append_label_dotted)
  have "p \<noteq> []" using Cons.prems by auto
  then have "split_loop p st n name type domain = split_loop p' ST_DOMAIN n name type b'"
    using u(1) b'(1) Cons.prems(3) by (subst split_loop.simps) auto
  with Cons.IH [OF u(2), of b' ST_DOMAIN] b' show ?case by (simp add: dotted_Cons)
qed

lemma split_loop_type:
  assumes "labels p = Some (ts @ dl)" "\<forall>l \<in> set ts. starts_underscore l"
    and "dl = [] \<or> \<not> starts_underscore (hd dl)"
    and "length (dotted (buf_empty type) ts) < room type"
    and "length (dotted (buf_empty domain) dl) < room domain"
  shows "split_loop p ST_TYPE n name type domain =
         Ret (Inr (name, written type @ dotted (buf_empty type) ts,
                   written domain @ dotted (buf_empty domain) dl))"
  using assms
proof (induction ts arbitrary: p type)
  case Nil
  then show ?case by (simp add: split_loop_domain)
next
  case (Cons l ts)
  from Cons.prems(1) labels_ConsD [of p l "ts @ dl"] obtain p' where
    u: "avahi_unescape_label p 64 = Some (l, p')" "labels p' = Some (ts @ dl)"
    by (auto simp: AVAHI_LABEL_MAX_def)
  from Cons.prems(4) obtain b' where b': "append_label type l = Ret (Inr b')"
    "written b' = written type @ (if buf_empty type then [] else [DOT]) @ escape l"
    "\<not> buf_empty b'" "length (dotted False ts) < room b'"
    by (rule append_label_dotted)
  have "p \<noteq> []" using Cons.prems by auto
  then have "split_loop p ST_TYPE n name type domain = split_loop p' ST_TYPE n name b' domain"
    using u(1) b'(1) Cons.prems(2) by (subst split_loop.simps) simp
  with Cons.IH [OF u(2), of b'] Cons.prems b' show ?case by (simp add: dotted_Cons)
qed

lemma split_labels:
  assumes "labels p = Some (nm # ts @ dl)" "\<forall>l \<in> set ts. starts_underscore l"
    and "dl = [] \<or> \<not> starts_underscore (hd dl)"
    and "0 < n" "length (render ts) < type_sz" "length (render dl) < domain_sz"
  shows "avahi_service_name_split p (Some n) type_sz domain_sz =
         Ret (Inr (take (n - 1) nm, render ts, render dl))"
proof -
  from assms(1) labels_ConsD obtain p' where
    u: "avahi_unescape_label p 64 = Some (nm, p')" "labels p' = Some (ts @ dl)"
    by (fastforce simp: AVAHI_LABEL_MAX_def)
  have "p \<noteq> []" using assms(1) by auto
  with u(1) have "split_loop p ST_NAME n [] (new_buf type_sz) (new_buf domain_sz) =
    split_loop p' ST_TYPE n (strlcpy nm n) (new_buf type_sz) (new_buf domain_sz)"
    by (subst split_loop.simps) simp
  also have "\<dots> = Ret (Inr (take (n - 1) nm, render ts, render dl))"
    using split_loop_type [OF u(2) assms(2,3), of "new_buf type_sz" "new_buf domain_sz"] assms(5,6)
    by (simp add: new_buf_def dotted_def strlcpy_def)
  finally show ?thesis
    using assms(4-6) by (simp add: avahi_service_name_split_def)
qed

lemma valid_type_loop_labels:
  "t \<noteq> [] \<Longrightarrow> valid_type_loop t \<longleftrightarrow>
   (\<exists>ls. labels t = Some ls \<and> (\<forall>l \<in> set ls. 2 < length l \<and> starts_underscore l))"
proof (induction t rule: labels.induct)
  case (1 t)
  show ?case
  proof (cases "avahi_unescape_label t AVAHI_LABEL_MAX")
    case None
    with "1.prems" show ?thesis by (simp add: valid_type_loop.simps labels.simps [of t])
  next
    case (Some r)
    obtain l t' where "r = (l, t')" by fastforce
    with Some have u: "avahi_unescape_label t AVAHI_LABEL_MAX = Some (l, t')" by simp
    have IH: "t' \<noteq> [] \<Longrightarrow> valid_type_loop t' \<longleftrightarrow>
      (\<exists>ls. labels t' = Some ls \<and> (\<forall>l \<in> set ls. 2 < length l \<and> starts_underscore l))"
      using "1.IH" [OF "1.prems" u refl] .
    have "length l \<le> 2 \<or> hd l \<noteq> UNDERSCORE \<longleftrightarrow> \<not> (2 < length l \<and> starts_underscore l)"
      by (cases l) (auto simp: starts_underscore_def)
    with u IH "1.prems" show ?thesis
      by (subst valid_type_loop.simps) (auto simp: labels_unescape)
  qed
qed

lemma valid_service_type_labels:
  assumes "avahi_is_valid_service_type_generic t"
  obtains ts where "labels t = Some ts" "domain_labels t = Some ts" "ts \<noteq> []" "[] \<notin> set ts"
    "\<forall>l \<in> set ts. starts_underscore l"
proof -
  from assms have "t \<noteq> []" "valid_type_loop t"
    by (auto simp: avahi_is_valid_service_type_generic_def split: if_splits)
  with valid_type_loop_labels obtain ts where
    ts: "labels t = Some ts" "\<forall>l \<in> set ts. 2 < length l \<and> starts_underscore l" by blast
  with \<open>t \<noteq> []\<close> have "ts \<noteq> []" "[] \<notin> set ts" by (auto simp: labels_eq_Nil)
  moreover from \<open>[] \<notin> set ts\<close> have "ts \<noteq> [[]]" by auto
  with ts \<open>[] \<notin> set ts\<close> have "domain_labels t = Some ts" by (simp add: domain_labels_def)
  ultimately show thesis using ts that by blast
qed

lemma render_append: "ls \<noteq> [] \<Longrightarrow> ms \<noteq> [] \<Longrightarrow> render (ls @ ms) = render ls @ DOT # render ms"
proof (induction ls)
  case (Cons l ls)
  then show ?case by (cases "ls = []") (simp_all add: render_Cons del: render.simps(3))
qed simp

lemma labels_render_dot:
  assumes "label_list ls" "ls \<noteq> []"
  shows "labels (render ls @ [DOT]) = Some ls"
  using assms
proof (induction ls)
  case (Cons l ls)
  have "label_tail ((if ls = [] then [] else DOT # render ls) @ [DOT]) (if ls = [] then [] else render ls @ [DOT])"
    by (simp add: label_tail_def)
  with Cons.prems have
    "avahi_unescape_label (render (l # ls) @ [DOT]) AVAHI_LABEL_MAX =
     Some (l, if ls = [] then [] else render ls @ [DOT])"
    by (simp add: render_Cons unescape_is_label del: render.simps)
  then show ?case
    using Cons by (subst labels_unescape) (auto simp: render_Cons simp del: render.simps)
qed simp

text \<open>
  The result of a successful join: the canonical name of the labels, with a trailing dot
  when the domain is the root.
\<close>

lemma join_labels:
  assumes "avahi_is_valid_service_name name"
    and "avahi_is_valid_service_type_generic type" "avahi_is_valid_domain_name domain"
    and "domain_labels type = Some ts" "domain_labels domain = Some dl"
    and "length (render ts) < AVAHI_DOMAIN_NAME_MAX" "length (render dl) < AVAHI_DOMAIN_NAME_MAX"
    and "length (escape name @ DOT # render ts @ DOT # render dl) < sz"
  shows "avahi_service_name_join sz (Some name) type domain =
         Ret (Inr (escape name @ DOT # render ts @ DOT # render dl))"
proof -
  have "length (escape name) < AVAHI_LABEL_MAX * 4"
    using length_escape_le [of name] assms(1)
    by (auto simp: avahi_is_valid_service_name_def)
  then have "escape_loop name (AVAHI_LABEL_MAX * 4) =
             (True, escape name, AVAHI_LABEL_MAX * 4 - length (escape name))"
    by (rule escape_loop_fits)
  moreover have "0 < AVAHI_LABEL_MAX * 4" by (simp add: AVAHI_LABEL_MAX_def)
  ultimately show ?thesis
    using assms normalize_name_fits [OF assms(4,6)] normalize_name_fits [OF assms(5,7)]
    by (simp add: avahi_service_name_join_def avahi_escape_label_def snprintf_to_def)
qed

end
