(* ===== verification/Name_Properties.thy ===== *)
theory Name_Properties
  imports Service_Name
begin

text \<open>
  The properties of escaped domain names: labels, canonical form, comparison, hashing,
  suffixes, and the join and split of service names, each with a concrete instance.
\<close>

text \<open>
  Property C38. A label (a C string of less than 64 bytes of valid UTF-8) written by
  \<open>avahi_escape_label\<close> into a buffer with four bytes per byte and one more is never
  truncated, and \<open>avahi_unescape_label\<close> reads exactly that label back, whatever follows it
  in the name.
\<close>

theorem escape_unescape_roundtrip:
  assumes "cstring l" "length l < AVAHI_LABEL_MAX" "avahi_utf8_valid l" "4 * length l < n"
  shows "\<exists>w left. avahi_escape_label l n = Ret (True, w, left) \<and> length w + left = n \<and>
    avahi_unescape_label w AVAHI_LABEL_MAX = Some (l, []) \<and>
    avahi_unescape_label (w @ DOT # rest) AVAHI_LABEL_MAX = Some (l, rest)"
proof -
  have "length (escape l) < n" using assms(4) length_escape_le [of l] by linarith
  then have "avahi_escape_label l n = Ret (True, escape l, n - length (escape l))"
    using assms(4) by (simp add: avahi_escape_label_def escape_loop_fits)
  moreover have "avahi_unescape_label (escape l @ []) AVAHI_LABEL_MAX = Some (l, [])"
    using assms by (intro unescape_escape_label) (simp_all add: label_tail_def)
  moreover have "avahi_unescape_label (escape l @ DOT # rest) AVAHI_LABEL_MAX = Some (l, rest)"
    using assms by (intro unescape_escape_label) (simp_all add: label_tail_def)
  ultimately show ?thesis using \<open>length (escape l) < n\<close> by auto
qed

lemma escape_unescape_roundtrip_witness:
  "\<exists>w left. avahi_escape_label [0x61, DOT, 0xC3, 0xA9] 20 = Ret (True, w, left) \<and> length w + left = 20 \<and>
    avahi_unescape_label w AVAHI_LABEL_MAX = Some ([0x61, DOT, 0xC3, 0xA9], []) \<and>
    avahi_unescape_label (w @ DOT # str ''local'') AVAHI_LABEL_MAX =
      Some ([0x61, DOT, 0xC3, 0xA9], str ''local'')"
  by (rule escape_unescape_roundtrip) code_simp+

text \<open>
  What \<open>avahi_unescape_label\<close> returns for any C string is safe to use: the label
  fits the buffer together with its NUL, contains no NUL and is valid UTF-8, and the rest of
  the name is a suffix of it, strictly shorter unless the name was empty.
\<close>

lemma unescape_loop_suffix:
  "unescape_loop i sz s = Some (l, rest) \<Longrightarrow> \<exists>p. s = p @ rest"
proof (induction s arbitrary: i l rest rule: length_induct)
  case (1 s)
  show ?case
  proof (cases s)
    case Nil
    with "1.prems" show ?thesis by (auto split: if_splits)
  next
    case (Cons c s')
    with "1.prems" have "unescape_loop i sz (c # s') = Some (l, rest)" by simp
    moreover have IH: "\<exists>p. t = p @ rest"
      if "unescape_loop (Suc i) sz t = Some (d, rest)" "length t < length s" for t d
      using "1.IH" that by blast
    ultimately show ?thesis
      by (cases rule: unescape_loop_cases) (use IH Cons in \<open>fastforce intro: exI [of _ "_ # _"]\<close>)+
  qed
qed

theorem unescape_label_safe:
  assumes "avahi_unescape_label s n = Some (l, rest)" "cstring s"
  shows "length l < n \<and> cstring l \<and> avahi_utf8_valid l \<and> (\<exists>p. s = p @ rest) \<and>
    (s = [] \<or> length rest < length s)"
proof -
  from assms have u: "unescape_loop 0 n s = Some (l, rest)" "avahi_utf8_valid l"
    by (auto simp: avahi_unescape_label_def split: option.splits if_splits)
  with assms(2) unescape_loop_label [of 0 n s l rest] unescape_loop_suffix [OF u(1)]
    unescape_loop_shorter [OF u(1)] show ?thesis by auto
qed

lemma unescape_label_safe_witness:
  "length (str ''a.b'') < (64 :: nat) \<and> cstring (str ''a.b'') \<and> avahi_utf8_valid (str ''a.b'') \<and>
   (\<exists>p. (str ''a'' @ BSL # str ''.b.local'') = p @ str ''local'') \<and>
   ((str ''a'' @ BSL # str ''.b.local'') = [] \<or> length (str ''local'') < length (str ''a'' @ BSL # str ''.b.local''))"
  by (rule unescape_label_safe) code_simp+

text \<open>
  Property C39. Normalising a valid name whose canonical form fits the 1014 bytes of the
  buffer gives a name with the same labels, which \<open>avahi_domain_equal\<close> takes for the same
  name, and normalising it again changes nothing.
\<close>

theorem normalize_canonical:
  assumes "avahi_is_valid_domain_name s" "cstring s" "domain_labels s = Some ls"
    and "length (render ls) < AVAHI_DOMAIN_NAME_MAX"
  shows "\<exists>t. avahi_normalize_name_strdup s = Ret (Some t) \<and> domain_labels t = Some ls \<and>
    avahi_domain_equal s t = Ret True \<and> avahi_is_valid_domain_name t \<and>
    avahi_normalize_name_strdup t = Ret (Some t)"
proof -
  have "domain_labels (render ls) = Some ls"
    using assms by (intro domain_labels_render domain_labels_label_list)
  with assms show ?thesis
    by (auto simp: normalize_strdup_fits domain_equal_spec valid_domain_name_spec)
qed

lemma normalize_canonical_witness:
  "\<exists>t. avahi_normalize_name_strdup (str ''My'' @ BSL # str ''032host.Local.'') = Ret (Some t) \<and>
    domain_labels t = Some [str ''My host'', str ''Local''] \<and>
    avahi_domain_equal (str ''My'' @ BSL # str ''032host.Local.'') t = Ret True \<and> avahi_is_valid_domain_name t \<and>
    avahi_normalize_name_strdup t = Ret (Some t)"
  by (rule normalize_canonical) code_simp+

text \<open>
  A name the validator accepts need not fit the buffer of
  \<open>avahi_normalize_name\<close>, which ignores that a label was not written: for four labels of 63
  percent signs, each of which is escaped to four bytes, and two more short labels the
  function ends in the failed assertion of \<open>avahi_escape_label\<close>.
\<close>

definition long_name :: "byte list" where
  "long_name = concat (replicate 4 (replicate 63 0x25 @ [DOT])) @ str ''a.b''"

lemma normalize_valid_name_crash:
  "avahi_is_valid_domain_name long_name \<and> avahi_normalize_name_strdup long_name = Crash"
  by code_simp

text \<open>
  \<open>avahi_domain_equal\<close> decides, for valid names, whether the labels agree up to
  the case of ASCII letters; in particular escapes and a trailing dot do not matter.
\<close>

lemma domain_equal_decides:
  assumes "domain_labels a = Some la" "domain_labels b = Some lb"
  shows "avahi_domain_equal a b = Ret (map (map tolower) la = map (map tolower) lb)"
  using domain_equal_spec [OF assms] by (simp add: fold_case_def)

lemma domain_equal_decides_witness:
  "avahi_domain_equal (str ''Foo'' @ BSL # str ''.bar.LOCAL.'') (str ''foo'' @ BSL # str ''046BAR.local'') =
   Ret (map (map tolower) [str ''Foo.bar'', str ''LOCAL''] =
        map (map tolower) [str ''foo.BAR'', str ''local''])"
  by (rule domain_equal_decides) code_simp+

text \<open>
  Names that are equal for \<open>avahi_domain_equal\<close> have the same
  \<open>avahi_domain_hash\<close>, on platforms with signed and with unsigned \<open>char\<close>: the hash tables
  that are keyed by domain names depend on it.
\<close>

lemma domain_equal_hash:
  assumes "domain_labels a \<noteq> None" "domain_labels b \<noteq> None" "avahi_domain_equal a b = Ret True"
  shows "\<exists>h. avahi_domain_hash sc a = Ret h \<and> avahi_domain_hash sc b = Ret h"
proof -
  from assms obtain la lb where l: "domain_labels a = Some la" "domain_labels b = Some lb" by blast
  with assms(3) have "fold_case la = fold_case lb" by (simp add: domain_equal_spec)
  then have "hash_labels sc 0 la = hash_labels sc 0 lb" by (rule hash_labels_fold_case)
  with l show ?thesis by (simp add: domain_hash_spec)
qed

lemma domain_equal_hash_witness:
  "\<exists>h. avahi_domain_hash True (str ''Foo'' @ BSL # str ''.bar.LOCAL.'') = Ret h \<and>
       avahi_domain_hash True (str ''foo'' @ BSL # str ''046BAR.local'') = Ret h"
  by (rule domain_equal_hash) code_simp+

text \<open>
  \<open>avahi_binary_domain_cmp\<close> is a total order on valid names: it is
  antisymmetric, zero exactly for names with identical labels, and transitive.
\<close>

theorem binary_domain_cmp_order:
  assumes "domain_labels a \<noteq> None" "domain_labels b \<noteq> None" "domain_labels c \<noteq> None"
  shows "\<exists>ab bc ac. avahi_binary_domain_cmp a b = Ret ab \<and> avahi_binary_domain_cmp b a = Ret (- ab) \<and>
    (ab = 0 \<longleftrightarrow> domain_labels a = domain_labels b) \<and>
    avahi_binary_domain_cmp b c = Ret bc \<and> avahi_binary_domain_cmp a c = Ret ac \<and>
    (ab < 0 \<and> bc < 0 \<longrightarrow> ac < 0)"
proof -
  from assms obtain la lb lc where
    l: "domain_labels a = Some la" "domain_labels b = Some lb" "domain_labels c = Some lc" by blast
  then show ?thesis
    using labels_cmp_trans [of la lb lc]
    by (auto simp: binary_domain_cmp_spec labels_cmp_eq_0 labels_cmp_sym [of lb la])
qed

lemma binary_domain_cmp_order_witness:
  "\<exists>ab bc ac. avahi_binary_domain_cmp (str ''a'') (str ''a.b'') = Ret ab \<and>
    avahi_binary_domain_cmp (str ''a.b'') (str ''a'') = Ret (- ab) \<and>
    (ab = 0 \<longleftrightarrow> domain_labels (str ''a'') = domain_labels (str ''a.b'')) \<and>
    avahi_binary_domain_cmp (str ''a.b'') (str ''b'') = Ret bc \<and>
    avahi_binary_domain_cmp (str ''a'') (str ''b'') = Ret ac"
proof -
  have "domain_labels (str ''a'') \<noteq> None" "domain_labels (str ''a.b'') \<noteq> None" "domain_labels (str ''b'') \<noteq> None" by code_simp+
  from binary_domain_cmp_order [OF this] show ?thesis by blast
qed

text \<open>
  \<open>avahi_domain_ends_with\<close> finds out whether the labels of the suffix are, up to
  case, a non-empty suffix of the labels of the domain.
\<close>

theorem domain_ends_with_suffix:
  assumes "labels d = Some ld" "[] \<notin> set ld" "domain_labels suffix = Some ls"
  shows "avahi_domain_ends_with d suffix =
    Ret (\<exists>pre suf. ld = pre @ suf \<and> suf \<noteq> [] \<and> map (map tolower) suf = map (map tolower) ls)"
  using domain_ends_with_spec [OF assms] by (simp add: ends_with_labels_def fold_case_def)

lemma domain_ends_with_suffix_witness:
  "avahi_domain_ends_with (str ''a.b.local'') (str ''Local.'') =
   Ret (\<exists>pre suf. [str ''a'', str ''b'', str ''local''] = pre @ suf \<and> suf \<noteq> [] \<and>
        map (map tolower) suf = map (map tolower) [str ''Local''])"
  by (rule domain_ends_with_suffix) code_simp+

text \<open>
  Property C40. \<open>avahi_service_name_split\<close> undoes \<open>avahi_service_name_join\<close>: for a valid
  instance name of valid UTF-8, a valid type and a valid domain whose first label does not
  start with an underscore, joining succeeds, and splitting the result into buffers of the
  sizes the program uses gives back the instance name and the canonical type and domain.
\<close>

theorem service_name_join_split:
  assumes "avahi_is_valid_service_name name" "cstring name" "avahi_utf8_valid name"
    and "avahi_is_valid_service_type_generic type" "cstring type" "domain_labels type = Some ts"
    and "avahi_is_valid_domain_name domain" "cstring domain" "domain_labels domain = Some dl"
    and "dl = [] \<or> \<not> starts_underscore (hd dl)"
    and "length (escape name @ DOT # render ts @ DOT # render dl) < AVAHI_DOMAIN_NAME_MAX"
  shows "\<exists>p. avahi_service_name_join AVAHI_DOMAIN_NAME_MAX (Some name) type domain = Ret (Inr p) \<and>
    avahi_service_name_split p (Some AVAHI_LABEL_MAX) AVAHI_DOMAIN_NAME_MAX AVAHI_DOMAIN_NAME_MAX =
      Ret (Inr (name, render ts, render dl))"
proof -
  have fits: "length (render ts) < AVAHI_DOMAIN_NAME_MAX" "length (render dl) < AVAHI_DOMAIN_NAME_MAX"
    using assms(11) by simp_all
  let ?p = "escape name @ DOT # render ts @ DOT # render dl"
  have join: "avahi_service_name_join AVAHI_DOMAIN_NAME_MAX (Some name) type domain = Ret (Inr ?p)"
    by (rule join_labels [OF assms(1,4,7,6,9) fits assms(11)])
  from assms(4) obtain ts' where ts': "domain_labels type = Some ts'" "ts' \<noteq> []"
    "\<forall>l \<in> set ts'. starts_underscore l" by (rule valid_service_type_labels)
  with assms(6) have ts: "ts \<noteq> []" "\<forall>l \<in> set ts. starts_underscore l" by simp_all
  have ll: "label_list ts" "label_list dl"
    using assms by (auto intro: domain_labels_label_list)
  have nm: "is_label name" "name \<noteq> []"
    using assms(1-3) by (auto simp: is_label_def avahi_is_valid_service_name_def)
  have "render (name # ts @ dl) @ (if dl = [] then [DOT] else []) = ?p"
    using ts(1) by (cases "dl = []") (simp_all add: render_Cons render_append del: render.simps(3))
  moreover have "label_list (name # ts @ dl)" using ll nm by simp
  then have "labels (render (name # ts @ dl) @ (if dl = [] then [DOT] else [])) = Some (name # ts @ dl)"
    using labels_render labels_render_dot [of "name # ts @ dl"] by (auto simp del: render.simps)
  ultimately have "labels ?p = Some (name # ts @ dl)" by simp
  moreover have "take (AVAHI_LABEL_MAX - 1) name = name"
    using nm by (auto simp: is_label_def AVAHI_LABEL_MAX_def)
  ultimately have "avahi_service_name_split ?p (Some AVAHI_LABEL_MAX) AVAHI_DOMAIN_NAME_MAX
      AVAHI_DOMAIN_NAME_MAX = Ret (Inr (name, render ts, render dl))"
    using split_labels [of ?p name ts dl AVAHI_LABEL_MAX] ts(2) assms(10) fits
    by (simp add: AVAHI_LABEL_MAX_def)
  with join show ?thesis by blast
qed

lemma service_name_join_split_witness:
  "\<exists>p. avahi_service_name_join AVAHI_DOMAIN_NAME_MAX (Some (str ''My printer'')) (str ''_ipp._tcp'')
      (str ''local.'') = Ret (Inr p) \<and>
    avahi_service_name_split p (Some AVAHI_LABEL_MAX) AVAHI_DOMAIN_NAME_MAX AVAHI_DOMAIN_NAME_MAX =
      Ret (Inr (str ''My printer'', render [str ''_ipp'', str ''_tcp''], render [str ''local'']))"
  by (rule service_name_join_split) code_simp+

end
