(* ===== verification/Address.thy ===== *)
theory Address
  imports Domain_Spec
begin

text \<open>
  \<open>avahi-common/address.c\<close> and \<open>avahi-core/addr-util.c\<close>: network addresses. The union of
  \<open>AvahiAddress\<close> is its list of 16 bytes, in network byte order; an IPv4 address uses the
  first four. \<open>inet_pton\<close> and \<open>inet_ntop\<close> of the C library are parameters.
\<close>

definition AVAHI_PROTO_INET :: int where "AVAHI_PROTO_INET = 0"
definition AVAHI_PROTO_INET6 :: int where "AVAHI_PROTO_INET6 = 1"
definition AVAHI_PROTO_UNSPEC :: int where "AVAHI_PROTO_UNSPEC = - 1"
definition AVAHI_IF_UNSPEC :: int where "AVAHI_IF_UNSPEC = - 1"

lemmas proto_defs = AVAHI_PROTO_INET_def AVAHI_PROTO_INET6_def AVAHI_PROTO_UNSPEC_def

definition AVAHI_IF_VALID :: "int \<Rightarrow> bool" where
  "AVAHI_IF_VALID ifindex \<longleftrightarrow> 0 \<le> ifindex \<or> ifindex = AVAHI_IF_UNSPEC"

definition AVAHI_PROTO_VALID :: "int \<Rightarrow> bool" where
  "AVAHI_PROTO_VALID protocol \<longleftrightarrow>
     protocol = AVAHI_PROTO_INET \<or> protocol = AVAHI_PROTO_INET6 \<or> protocol = AVAHI_PROTO_UNSPEC"

record address =
  proto :: int
  addr_data :: "byte list"

definition address_ok :: "address \<Rightarrow> bool" where
  "address_ok a \<longleftrightarrow> length (addr_data a) = 16"

definition ipv4_data :: "address \<Rightarrow> byte list" where
  "ipv4_data a = take 4 (addr_data a)"

text \<open>\<open>ntohl\<close> of four bytes in network order.\<close>

definition ntohl :: "byte list \<Rightarrow> u32" where
  "ntohl b = word_rcat b"

definition address_get_size :: "address \<Rightarrow> nat" where
  "address_get_size a =
     (if proto a = AVAHI_PROTO_INET then 4
      else if proto a = AVAHI_PROTO_INET6 then 16
      else 0)"

definition avahi_address_cmp :: "address \<Rightarrow> address \<Rightarrow> int" where
  "avahi_address_cmp a b =
     (if proto a \<noteq> proto b then - 1
      else memcmp (take (address_get_size a) (addr_data a)) (take (address_get_size a) (addr_data b)))"

text \<open>\<open>%x\<close> of a number below 16.\<close>

definition hex_digit :: "byte \<Rightarrow> byte" where
  "hex_digit d = (if d < 10 then 0x30 + d else 0x57 + d)"

text \<open>The nibbles of an IPv6 address as the format of \<open>avahi_reverse_lookup_name\<close> prints them.\<close>

definition nibble_text :: "byte \<Rightarrow> byte list" where
  "nibble_text b = [hex_digit (and b 0x0F), DOT, hex_digit (drop_bit 4 b), DOT]"

definition reverse_ipv4_text :: "byte list \<Rightarrow> byte list" where
  "reverse_ipv4_text b =
     decimal (unat (b ! 3)) @ DOT # decimal (unat (b ! 2)) @ DOT # decimal (unat (b ! 1)) @ DOT #
     decimal (unat (b ! 0)) @ str ''.in-addr.arpa''"

definition reverse_ipv6_text :: "byte list \<Rightarrow> byte list" where
  "reverse_ipv6_text b = concat (map nibble_text (rev (take 16 b))) @ str ''ip6.arpa''"

definition avahi_reverse_lookup_name :: "address \<Rightarrow> nat \<Rightarrow> byte list res" where
  "avahi_reverse_lookup_name a len =
     (if len = 0 then Crash
      else if proto a = AVAHI_PROTO_INET then Ret (take (len - 1) (reverse_ipv4_text (ipv4_data a)))
      else if proto a = AVAHI_PROTO_INET6 then Ret (take (len - 1) (reverse_ipv6_text (addr_data a)))
      else Crash)"

definition avahi_address_snprint ::
  "(int \<Rightarrow> byte list \<Rightarrow> byte list) \<Rightarrow> nat \<Rightarrow> address \<Rightarrow> byte list option res" where
  "avahi_address_snprint inet_ntop len a =
     (if len = 0 then Crash
      else if \<not> AVAHI_PROTO_VALID (proto a) then Crash
      else if proto a = AVAHI_PROTO_UNSPEC then Ret None
      else
        let t = inet_ntop (proto a) (take (address_get_size a) (addr_data a))
        in Ret (if length t < len then Some t else None))"

definition avahi_address_parse ::
  "(int \<Rightarrow> byte list \<Rightarrow> byte list option) \<Rightarrow> byte list \<Rightarrow> int \<Rightarrow> address \<Rightarrow> address option res" where
  "avahi_address_parse inet_pton s p ret =
     (let store = (\<lambda>p d. \<lparr>proto = p, addr_data = d @ drop (length d) (addr_data ret)\<rparr>) in
      if p = AVAHI_PROTO_UNSPEC then
        (case inet_pton AVAHI_PROTO_INET s of
           Some d \<Rightarrow> Ret (Some (store AVAHI_PROTO_INET d))
         | None \<Rightarrow>
             (case inet_pton AVAHI_PROTO_INET6 s of
                Some d \<Rightarrow> Ret (Some (store AVAHI_PROTO_INET6 d))
              | None \<Rightarrow> Ret None))
      else if \<not> AVAHI_PROTO_VALID p then Crash
      else
        (case inet_pton p s of
           Some d \<Rightarrow> Ret (Some (store p d))
         | None \<Rightarrow> Ret None))"

definition avahi_proto_to_string :: "int \<Rightarrow> byte list res" where
  "avahi_proto_to_string p =
     (if p = AVAHI_PROTO_INET then Ret (str ''IPv4'')
      else if p = AVAHI_PROTO_INET6 then Ret (str ''IPv6'')
      else if p = AVAHI_PROTO_UNSPEC then Ret (str ''UNSPEC'')
      else Crash)"

section \<open>avahi-core/addr-util.c\<close>

definition ipv4_in_ipv6 :: "byte list" where
  "ipv4_in_ipv6 = [0, 0, 0, 0, 0, 0, 0, 0, 0xFF, 0xFF, 0xFF, 0xFF]"

definition avahi_address_is_ipv4_in_ipv6 :: "address \<Rightarrow> bool" where
  "avahi_address_is_ipv4_in_ipv6 a =
     (if proto a \<noteq> AVAHI_PROTO_INET6 then False
      else memcmp (take 12 (addr_data a)) ipv4_in_ipv6 = 0)"

definition avahi_address_is_link_local :: "address \<Rightarrow> bool" where
  "avahi_address_is_link_local a =
     (if proto a = AVAHI_PROTO_INET then and (ntohl (ipv4_data a)) 0xFFFF0000 = 0xA9FE0000
      else if proto a = AVAHI_PROTO_INET6 then
        (let n = or (push_bit 8 (ucast (addr_data a ! 0))) (ucast (addr_data a ! 1)) :: u32
         in and n 0xFFC0 = 0xFE80)
      else False)"

section \<open>Properties\<close>

lemma address_cmp_eq_0:
  assumes "address_ok a" "address_ok b"
  shows "avahi_address_cmp a b = 0 \<longleftrightarrow>
    proto a = proto b \<and> take (address_get_size a) (addr_data a) = take (address_get_size a) (addr_data b)"
  using assms by (auto simp: avahi_address_cmp_def address_ok_def memcmp_eq_0)

text \<open>The labels of a text without escapes are what stands between its dots.\<close>

definition plain :: "byte list \<Rightarrow> bool" where
  "plain l \<longleftrightarrow> l \<noteq> [] \<and> length l < AVAHI_LABEL_MAX \<and> (\<forall>c \<in> set l. c \<noteq> 0 \<and> is_proper c)"

lemma proper_not_special: "is_proper c \<Longrightarrow> c \<noteq> DOT \<and> c \<noteq> BSL \<and> c < 128"
  by (auto simp: is_proper_def word_le_nat_alt word_less_nat_alt)

lemma escape_plain: "\<forall>c \<in> set l. is_proper c \<Longrightarrow> escape l = l"
  by (induction l) (auto simp: escape_byte_def dest: proper_not_special)

lemma plain_label: "plain l \<Longrightarrow> is_label l \<and> l \<noteq> [] \<and> escape l = l"
  by (auto simp: plain_def is_label_def cstring_def escape_plain
      intro!: utf8_valid_ascii dest: proper_not_special)

fun dots :: "byte list list \<Rightarrow> byte list" where
  "dots [] = []"
| "dots [l] = l"
| "dots (l # ls) = l @ DOT # dots ls"

lemma dots_render: "\<forall>l \<in> set ls. plain l \<Longrightarrow> dots ls = render ls \<and> label_list ls"
  by (induction ls rule: dots.induct) (auto dest: plain_label)

lemma domain_labels_dots: "\<forall>l \<in> set ls. plain l \<Longrightarrow> domain_labels (dots ls) = Some ls"
  using dots_render [of ls] domain_labels_render [of ls] by simp

lemma decimal_byte: "plain (decimal (unat (b :: byte))) \<and> length (decimal (unat b)) \<le> 3"
proof -
  have "length (decimal n) \<le> 3" if "n < 1000" for n
    using that by (simp add: decimal.simps [of n] decimal.simps [of "n div 10"]
        decimal.simps [of "n div 10 div 10"])
  moreover have "unat b < 1000" using unat_byte_less [of b] by linarith
  ultimately have "length (decimal (unat b)) \<le> 3" by blast
  moreover have "\<forall>c \<in> set (decimal (unat b)). c \<noteq> 0 \<and> is_proper c"
    using decimal_isdigit isdigit_not_special by (auto simp: is_proper_def isdigit_def)
  ultimately show ?thesis by (simp add: plain_def AVAHI_LABEL_MAX_def)
qed

definition reverse_ipv4_labels :: "byte list \<Rightarrow> byte list list" where
  "reverse_ipv4_labels b = map (\<lambda>x. decimal (unat x)) (rev b) @ [str ''in-addr'', str ''arpa'']"

lemma decimal_byte_inj: "inj (\<lambda>x :: byte. decimal (unat x))"
proof (rule injI)
  fix x y :: byte
  assume "decimal (unat x) = decimal (unat y)"
  then have "digits_val (decimal (unat x)) = digits_val (decimal (unat y))" by (rule arg_cong)
  then show "x = y" by (simp add: digits_val_decimal word_unat_eq_iff)
qed

lemma reverse_ipv4_labels_inj: "reverse_ipv4_labels a = reverse_ipv4_labels b \<Longrightarrow> a = b"
  using inj_map_eq_map [OF decimal_byte_inj, of "rev a" "rev b"]
  unfolding reverse_ipv4_labels_def append_same_eq by simp

lemma plain_str: "plain (str ''in-addr'')" "plain (str ''arpa'')" "plain (str ''ip6'')"
  by code_simp+

lemma reverse_ipv4_dots:
  "length b = 4 \<Longrightarrow> reverse_ipv4_text b = dots (reverse_ipv4_labels b) \<and> length (reverse_ipv4_text b) \<le> 28"
  using decimal_byte [of "b ! 0"] decimal_byte [of "b ! 1"] decimal_byte [of "b ! 2"] decimal_byte [of "b ! 3"]
  by (auto simp: reverse_ipv4_text_def reverse_ipv4_labels_def str_def length_Suc_conv numeral_eq_Suc)

text \<open>
  The name \<open>avahi_reverse_lookup_name\<close> makes for an IPv4 address, in a buffer
  of at least 29 bytes, consists of the decimal bytes of the address, last one first,
  followed by \<open>in-addr\<close> and \<open>arpa\<close>, and is a valid domain name; different addresses have
  different names.
\<close>

theorem reverse_lookup_ipv4:
  assumes "address_ok a" "address_ok b" "proto a = AVAHI_PROTO_INET" "proto b = AVAHI_PROTO_INET" "29 \<le> n"
  shows "\<exists>s t. avahi_reverse_lookup_name a n = Ret s \<and> avahi_reverse_lookup_name b n = Ret t \<and>
    domain_labels s = Some (map (\<lambda>x. decimal (unat x)) (rev (ipv4_data a)) @ [str ''in-addr'', str ''arpa'']) \<and>
    avahi_is_valid_domain_name s \<and> (s = t \<longleftrightarrow> ipv4_data a = ipv4_data b)"
proof -
  have "\<exists>s. avahi_reverse_lookup_name c n = Ret s \<and> domain_labels s = Some (reverse_ipv4_labels (ipv4_data c)) \<and>
     length s \<le> 28" if "address_ok c" "proto c = AVAHI_PROTO_INET" for c
  proof -
    have "length (ipv4_data c) = 4" using that by (simp add: address_ok_def ipv4_data_def)
    moreover have "\<forall>l \<in> set (reverse_ipv4_labels (ipv4_data c)). plain l"
      using plain_str decimal_byte by (auto simp: reverse_ipv4_labels_def)
    moreover from calculation(1) have d: "reverse_ipv4_text (ipv4_data c) = dots (reverse_ipv4_labels (ipv4_data c))"
      and len: "length (reverse_ipv4_text (ipv4_data c)) \<le> 28" using reverse_ipv4_dots by blast+
    moreover have "avahi_reverse_lookup_name c n = Ret (reverse_ipv4_text (ipv4_data c))"
      using that(2) assms(5) len by (simp add: avahi_reverse_lookup_name_def)
    ultimately show ?thesis by (simp add: domain_labels_dots)
  qed
  with assms obtain s t where st: "avahi_reverse_lookup_name a n = Ret s" "avahi_reverse_lookup_name b n = Ret t"
    "domain_labels s = Some (reverse_ipv4_labels (ipv4_data a))" "length s \<le> 28"
    "domain_labels t = Some (reverse_ipv4_labels (ipv4_data b))" by blast
  have "s = t \<longleftrightarrow> ipv4_data a = ipv4_data b"
  proof
    assume "s = t"
    with st have "reverse_ipv4_labels (ipv4_data a) = reverse_ipv4_labels (ipv4_data b)" by simp
    then show "ipv4_data a = ipv4_data b" by (rule reverse_ipv4_labels_inj)
  next
    assume "ipv4_data a = ipv4_data b"
    then have "avahi_reverse_lookup_name a n = avahi_reverse_lookup_name b n"
      using assms(3,4) by (simp add: avahi_reverse_lookup_name_def)
    with st(1,2) show "s = t" by simp
  qed
  with st show ?thesis
    unfolding reverse_ipv4_labels_def [symmetric]
    by (intro exI [of _ s] exI [of _ t]) (simp add: valid_domain_name_spec AVAHI_DOMAIN_NAME_MAX_def)
qed

definition example_address :: "byte \<Rightarrow> address" where
  "example_address c = \<lparr>proto = 0, addr_data = [192, 168, 0, c] @ replicate 12 0\<rparr>"

lemma reverse_lookup_ipv4_witness:
  "\<exists>s t. avahi_reverse_lookup_name (example_address 1) 256 = Ret s \<and>
    avahi_reverse_lookup_name (example_address 2) 256 = Ret t \<and>
    domain_labels s = Some (map (\<lambda>x. decimal (unat x)) (rev (ipv4_data (example_address 1))) @ [str ''in-addr'', str ''arpa'']) \<and>
    avahi_is_valid_domain_name s \<and> (s = t \<longleftrightarrow> ipv4_data (example_address 1) = ipv4_data (example_address 2))"
  by (rule reverse_lookup_ipv4) code_simp+

end
