(* ===== verification/Hashmap.thy ===== *)
theory Hashmap
  imports Avahi_Prelude
begin

text \<open>
  \<open>avahi-core/hashmap.c\<close>: a chained hash table of 123 buckets whose entries are also linked in
  one list. An entry is a heap object that sits in both lists, so the model keeps a store
  from entry numbers to key and value, the buckets and the list of all entries hold the
  numbers. The hash and equality functions the C code stores in the table are the first
  arguments of the operations. Freeing keys and values has no effect on the model.

  The contract a client relies on is the locale \<open>dictionary\<close>; \<open>hash_key\<close> states what a
  client owes about its hash and equality functions.
\<close>

definition HASH_MAP_SIZE :: u32 where
  "HASH_MAP_SIZE = 123"

record ('k, 'v) hashmap =
  entry_of :: "nat \<Rightarrow> ('k \<times> 'v) option"
  buckets :: "u32 \<Rightarrow> nat list"
  entries_list :: "nat list"
  next_entry :: nat

type_synonym 'k hash_func = "'k \<Rightarrow> u32"
type_synonym 'k equal_func = "'k \<Rightarrow> 'k \<Rightarrow> bool"

definition avahi_hashmap_new :: "('k, 'v) hashmap" where
  "avahi_hashmap_new =
     \<lparr>entry_of = (\<lambda>_. None), buckets = (\<lambda>_. []), entries_list = [], next_entry = 0\<rparr>"

definition bucket_index :: "'k hash_func \<Rightarrow> 'k \<Rightarrow> u32" where
  "bucket_index hash key = hash key mod HASH_MAP_SIZE"

definition has_key :: "('k \<Rightarrow> bool) \<Rightarrow> ('k, 'v) hashmap \<Rightarrow> nat \<Rightarrow> bool" where
  "has_key p m e = (case entry_of m e of None \<Rightarrow> False | Some (k, _) \<Rightarrow> p k)"

definition entry_get :: "'k hash_func \<Rightarrow> 'k equal_func \<Rightarrow> ('k, 'v) hashmap \<Rightarrow> 'k \<Rightarrow> nat option" where
  "entry_get hash equal m key = find (has_key (equal key) m) (buckets m (bucket_index hash key))"

text \<open>\<open>entry_free\<close> unlinks the entry from the bucket of its own key and from the list of entries.\<close>

definition entry_free :: "'k hash_func \<Rightarrow> ('k, 'v) hashmap \<Rightarrow> nat \<Rightarrow> ('k, 'v) hashmap" where
  "entry_free hash m e =
     (case entry_of m e of
        None \<Rightarrow> m
      | Some (k, _) \<Rightarrow>
          let idx = bucket_index hash k in
          m\<lparr>buckets := (buckets m)(idx := remove1 e (buckets m idx)),
            entries_list := remove1 e (entries_list m),
            entry_of := (entry_of m)(e := None)\<rparr>)"

definition avahi_hashmap_lookup ::
  "'k hash_func \<Rightarrow> 'k equal_func \<Rightarrow> ('k, 'v) hashmap \<Rightarrow> 'k \<Rightarrow> 'v option" where
  "avahi_hashmap_lookup hash equal m key =
     (case entry_get hash equal m key of
        None \<Rightarrow> None
      | Some e \<Rightarrow> map_option snd (entry_of m e))"

definition new_entry :: "'k hash_func \<Rightarrow> ('k, 'v) hashmap \<Rightarrow> 'k \<Rightarrow> 'v \<Rightarrow> ('k, 'v) hashmap" where
  "new_entry hash m key value =
     (let e = next_entry m; idx = bucket_index hash key in
      m\<lparr>entry_of := (entry_of m)(e \<mapsto> (key, value)),
        entries_list := e # entries_list m,
        buckets := (buckets m)(idx := e # buckets m idx),
        next_entry := Suc e\<rparr>)"

definition avahi_hashmap_insert ::
  "'k hash_func \<Rightarrow> 'k equal_func \<Rightarrow> ('k, 'v) hashmap \<Rightarrow> 'k \<Rightarrow> 'v \<Rightarrow> ('k, 'v) hashmap \<times> int" where
  "avahi_hashmap_insert hash equal m key value =
     (case entry_get hash equal m key of
        Some e \<Rightarrow> (m, 1)
      | None \<Rightarrow> (new_entry hash m key value, 0))"

definition avahi_hashmap_replace ::
  "'k hash_func \<Rightarrow> 'k equal_func \<Rightarrow> ('k, 'v) hashmap \<Rightarrow> 'k \<Rightarrow> 'v \<Rightarrow> ('k, 'v) hashmap \<times> int" where
  "avahi_hashmap_replace hash equal m key value =
     (case entry_get hash equal m key of
        Some e \<Rightarrow> (m\<lparr>entry_of := (entry_of m)(e \<mapsto> (key, value))\<rparr>, 1)
      | None \<Rightarrow> (new_entry hash m key value, 0))"

definition avahi_hashmap_remove ::
  "'k hash_func \<Rightarrow> 'k equal_func \<Rightarrow> ('k, 'v) hashmap \<Rightarrow> 'k \<Rightarrow> ('k, 'v) hashmap" where
  "avahi_hashmap_remove hash equal m key =
     (case entry_get hash equal m key of
        None \<Rightarrow> m
      | Some e \<Rightarrow> entry_free hash m e)"

text \<open>
  \<open>avahi_hashmap_foreach\<close> reads the successor of an entry before it calls the callback; the
  callbacks of the program change nothing or remove the entry they are called for, so the
  entries visited are those of the list at the start. The callback takes and returns a state
  that may contain the table.
\<close>

definition avahi_hashmap_foreach ::
  "('k, 'v) hashmap \<Rightarrow> ('k \<Rightarrow> 'v \<Rightarrow> 's \<Rightarrow> 's) \<Rightarrow> 's \<Rightarrow> 's" where
  "avahi_hashmap_foreach m callback s =
     fold (\<lambda>e s. case entry_of m e of None \<Rightarrow> s | Some (k, v) \<Rightarrow> callback k v s) (entries_list m) s"

section \<open>The contract of a dictionary\<close>

datatype ('k, 'v) dict_op = Insert (op_key: 'k) 'v | Replace (op_key: 'k) 'v | Remove (op_key: 'k)

locale dictionary =
  fixes valid :: "'k \<Rightarrow> bool"
    and equal :: "'k \<Rightarrow> 'k \<Rightarrow> bool"
    and invar :: "'m \<Rightarrow> bool"
    and empty :: 'm
    and lookup :: "'m \<Rightarrow> 'k \<Rightarrow> 'v option"
    and insert :: "'m \<Rightarrow> 'k \<Rightarrow> 'v \<Rightarrow> 'm \<times> int"
    and replace :: "'m \<Rightarrow> 'k \<Rightarrow> 'v \<Rightarrow> 'm \<times> int"
    and remove :: "'m \<Rightarrow> 'k \<Rightarrow> 'm"
  assumes inv_empty: "invar empty"
    and inv_insert: "invar m \<Longrightarrow> valid k \<Longrightarrow> invar (fst (insert m k v))"
    and inv_replace: "invar m \<Longrightarrow> valid k \<Longrightarrow> invar (fst (replace m k v))"
    and inv_remove: "invar m \<Longrightarrow> valid k \<Longrightarrow> invar (remove m k)"
    and lookup_empty: "lookup empty k = None"
    and lookup_insert: "invar m \<Longrightarrow> valid k \<Longrightarrow> valid k' \<Longrightarrow>
      lookup (fst (insert m k v)) k' =
      (if equal k' k \<and> lookup m k = None then Some v else lookup m k')"
    and insert_result: "invar m \<Longrightarrow> valid k \<Longrightarrow>
      snd (insert m k v) = (if lookup m k = None then 0 else 1)"
    and lookup_replace: "invar m \<Longrightarrow> valid k \<Longrightarrow> valid k' \<Longrightarrow>
      lookup (fst (replace m k v)) k' = (if equal k' k then Some v else lookup m k')"
    and lookup_remove: "invar m \<Longrightarrow> valid k \<Longrightarrow> valid k' \<Longrightarrow>
      lookup (remove m k) k' = (if equal k' k then None else lookup m k')"
    and equal_refl: "valid k \<Longrightarrow> equal k k"
    and equal_sym: "valid k \<Longrightarrow> valid k' \<Longrightarrow> equal k k' \<Longrightarrow> equal k' k"
    and equal_trans: "valid a \<Longrightarrow> valid b \<Longrightarrow> valid c \<Longrightarrow> equal a b \<Longrightarrow> equal b c \<Longrightarrow> equal a c"
    and lookup_equal: "invar m \<Longrightarrow> valid k \<Longrightarrow> valid k' \<Longrightarrow> equal k k' \<Longrightarrow> lookup m k = lookup m k'"
begin

text \<open>What clients do: a list of insertions keeps the first value of a key.\<close>

fun insert_all :: "'m \<Rightarrow> ('k \<times> 'v) list \<Rightarrow> 'm" where
  "insert_all m [] = m"
| "insert_all m ((k, v) # kvs) = insert_all (fst (insert m k v)) kvs"

lemma inv_insert_all:
  "invar m \<Longrightarrow> \<forall>(k, v) \<in> set kvs. valid k \<Longrightarrow> invar (insert_all m kvs)"
  by (induction kvs arbitrary: m) (auto simp: inv_insert)

lemma lookup_insert_all:
  "invar m \<Longrightarrow> \<forall>(k, v) \<in> set kvs. valid k \<Longrightarrow> valid k' \<Longrightarrow>
   lookup (insert_all m kvs) k' =
   (case lookup m k' of Some v \<Rightarrow> Some v
    | None \<Rightarrow> map_option snd (find (\<lambda>(k, v). equal k' k) kvs))"
proof (induction kvs arbitrary: m)
  case Nil
  then show ?case by (simp split: option.split)
next
  case (Cons kv kvs)
  obtain k v where kv: "kv = (k, v)" by fastforce
  with Cons.prems have k: "valid k" by simp
  have "lookup (insert_all m (kv # kvs)) k' =
    (case lookup (fst (insert m k v)) k' of Some v \<Rightarrow> Some v
     | None \<Rightarrow> map_option snd (find (\<lambda>(k, v). equal k' k) kvs))"
    using Cons.IH [of "fst (insert m k v)"] Cons.prems kv k by (simp add: inv_insert)
  also have "lookup (fst (insert m k v)) k' =
      (if equal k' k \<and> lookup m k = None then Some v else lookup m k')"
    using Cons.prems k by (simp add: lookup_insert)
  finally show ?case
    using kv lookup_equal [of m k' k] Cons.prems k by (auto split: option.split)
qed

text \<open>
  Any sequence of operations: the table holds what the same operations make of a function
  from keys to values.
\<close>

fun apply_op :: "('k, 'v) dict_op \<Rightarrow> 'm \<Rightarrow> 'm" where
  "apply_op (Insert k v) m = fst (insert m k v)"
| "apply_op (Replace k v) m = fst (replace m k v)"
| "apply_op (Remove k) m = remove m k"

fun abs_op :: "('k, 'v) dict_op \<Rightarrow> ('k \<Rightarrow> 'v option) \<Rightarrow> 'k \<Rightarrow> 'v option" where
  "abs_op (Insert k v) f k' = (if equal k' k \<and> f k = None then Some v else f k')"
| "abs_op (Replace k v) f k' = (if equal k' k then Some v else f k')"
| "abs_op (Remove k) f k' = (if equal k' k then None else f k')"

lemma inv_apply_op: "invar m \<Longrightarrow> valid (op_key c) \<Longrightarrow> invar (apply_op c m)"
  by (cases c) (simp_all add: inv_insert inv_replace inv_remove)

lemma lookup_apply_op:
  "invar m \<Longrightarrow> valid (op_key c) \<Longrightarrow> valid k \<Longrightarrow>
   lookup (apply_op c m) k = abs_op c (lookup m) k"
  by (cases c) (simp_all add: lookup_insert lookup_replace lookup_remove)

lemma abs_op_cong:
  "\<forall>k. valid k \<longrightarrow> f k = g k \<Longrightarrow> valid (op_key c) \<Longrightarrow> valid k \<Longrightarrow> abs_op c f k = abs_op c g k"
  by (cases c) simp_all

lemma abs_ops_cong:
  "\<forall>k. valid k \<longrightarrow> f k = g k \<Longrightarrow> \<forall>c \<in> set cs. valid (op_key c) \<Longrightarrow> valid k \<Longrightarrow>
   fold abs_op cs f k = fold abs_op cs g k"
proof (induction cs arbitrary: f g)
  case (Cons c cs)
  have "\<forall>k. valid k \<longrightarrow> abs_op c f k = abs_op c g k"
    using Cons.prems abs_op_cong by (metis list.set_intros(1))
  with Cons show ?case by simp
qed simp

lemma lookup_ops:
  "invar m \<Longrightarrow> \<forall>c \<in> set cs. valid (op_key c) \<Longrightarrow> valid k \<Longrightarrow>
   lookup (fold apply_op cs m) k = fold abs_op cs (lookup m) k"
proof (induction cs arbitrary: m)
  case (Cons c cs)
  then have "lookup (fold apply_op (c # cs) m) k = fold abs_op cs (lookup (apply_op c m)) k"
    by (simp add: inv_apply_op)
  also have "\<dots> = fold abs_op cs (abs_op c (lookup m)) k"
    using Cons.prems by (intro abs_ops_cong) (simp_all add: lookup_apply_op)
  finally show ?case by simp
qed simp

lemma replace_remove: "invar m \<Longrightarrow> valid k \<Longrightarrow> lookup (remove (fst (replace m k v)) k) k = None"
  by (simp add: inv_replace lookup_remove equal_refl)

end

section \<open>The hash table implements the contract\<close>

text \<open>What the table needs to know about hash and equality.\<close>

locale hash_key =
  fixes hash :: "'k hash_func"
    and equal :: "'k equal_func"
    and valid :: "'k \<Rightarrow> bool"
  assumes refl: "valid k \<Longrightarrow> equal k k"
    and sym: "valid k \<Longrightarrow> valid k' \<Longrightarrow> equal k k' \<Longrightarrow> equal k' k"
    and trans: "valid a \<Longrightarrow> valid b \<Longrightarrow> valid c \<Longrightarrow> equal a b \<Longrightarrow> equal b c \<Longrightarrow> equal a c"
    and hash_equal: "valid k \<Longrightarrow> valid k' \<Longrightarrow> equal k k' \<Longrightarrow> hash k = hash k'"

text \<open>
  The invariant: entry numbers are distinct, stored and below the next one; a bucket is the
  sublist of the entries whose key hashes to it, in the same order; no two entries have
  equal keys.
\<close>

definition in_bucket :: "'k hash_func \<Rightarrow> ('k, 'v) hashmap \<Rightarrow> u32 \<Rightarrow> nat \<Rightarrow> bool" where
  "in_bucket hash m i e = has_key (\<lambda>k. bucket_index hash k = i) m e"

definition hashmap_inv :: "'k hash_func \<Rightarrow> 'k equal_func \<Rightarrow> ('k \<Rightarrow> bool) \<Rightarrow> ('k, 'v) hashmap \<Rightarrow> bool" where
  "hashmap_inv hash equal valid m \<longleftrightarrow>
     distinct (entries_list m) \<and>
     (\<forall>e. e \<in> set (entries_list m) \<longleftrightarrow> entry_of m e \<noteq> None) \<and>
     (\<forall>e \<in> set (entries_list m). e < next_entry m \<and> has_key valid m e) \<and>
     (\<forall>i. buckets m i = filter (in_bucket hash m i) (entries_list m)) \<and>
     (\<forall>e f k k' v v'. entry_of m e = Some (k, v) \<longrightarrow> entry_of m f = Some (k', v') \<longrightarrow>
        equal k k' \<longrightarrow> e = f)"

lemma inv_member: "hashmap_inv hash equal valid m \<Longrightarrow> e \<in> set (entries_list m) \<longleftrightarrow> entry_of m e \<noteq> None"
  unfolding hashmap_inv_def by blast

lemma inv_fresh: "hashmap_inv hash equal valid m \<Longrightarrow> entry_of m (next_entry m) = None"
  unfolding hashmap_inv_def by (metis less_irrefl)

lemma inv_unique:
  "hashmap_inv hash equal valid m \<Longrightarrow> entry_of m e = Some (k, v) \<Longrightarrow>
   entry_of m f = Some (k', v') \<Longrightarrow> equal k k' \<Longrightarrow> f = e"
  unfolding hashmap_inv_def by metis

lemma find_filter: "find p (filter q xs) = find (\<lambda>x. q x \<and> p x) xs"
  by (induction xs) auto

lemma find_cong_set:
  assumes "\<And>x. x \<in> set xs \<Longrightarrow> p x = q x"
  shows "find p xs = find q xs"
  using assms by (induction xs) simp_all

context hash_key
begin

abbreviation "invar \<equiv> hashmap_inv hash equal valid"

lemma entry_get_all:
  assumes "invar m" "valid key"
  shows "entry_get hash equal m key = find (has_key (equal key) m) (entries_list m)"
proof -
  have b: "buckets m (bucket_index hash key) =
      filter (in_bucket hash m (bucket_index hash key)) (entries_list m)"
    using assms(1) by (simp add: hashmap_inv_def)
  have "in_bucket hash m (bucket_index hash key) e \<and> has_key (equal key) m e \<longleftrightarrow> has_key (equal key) m e"
    if "e \<in> set (entries_list m)" for e
  proof -
    from assms(1) that have "has_key valid m e" by (auto simp: hashmap_inv_def)
    then obtain k v where e: "entry_of m e = Some (k, v)" "valid k"
      by (auto simp: has_key_def split: option.splits)
    with assms(2) hash_equal [of key k] show ?thesis
      by (auto simp: in_bucket_def has_key_def bucket_index_def)
  qed
  then show ?thesis
    unfolding entry_get_def b find_filter by (rule find_cong_set)
qed

lemma entry_get_Some:
  assumes "invar m" "valid key"
  shows "entry_get hash equal m key = Some e \<longleftrightarrow> (\<exists>k v. entry_of m e = Some (k, v) \<and> equal key k)"
proof
  assume "entry_get hash equal m key = Some e"
  then have "has_key (equal key) m e"
    using assms by (auto simp: entry_get_all find_Some_iff)
  then show "\<exists>k v. entry_of m e = Some (k, v) \<and> equal key k"
    by (auto simp: has_key_def split: option.splits)
next
  assume "\<exists>k v. entry_of m e = Some (k, v) \<and> equal key k"
  then obtain k v where e: "entry_of m e = Some (k, v)" "equal key k" by blast
  with assms(1) have mem: "e \<in> set (entries_list m)" by (auto simp: hashmap_inv_def)
  have "find (has_key (equal key) m) (entries_list m) \<noteq> None"
    using e mem by (auto simp: find_None_iff has_key_def)
  then obtain f where f: "find (has_key (equal key) m) (entries_list m) = Some f" by blast
  then have "has_key (equal key) m f" "f \<in> set (entries_list m)"
    by (auto simp: find_Some_iff)
  then obtain k' v' where k': "entry_of m f = Some (k', v')" "equal key k'"
    by (auto simp: has_key_def split: option.splits)
  have valid: "has_key valid m e" "has_key valid m f"
    using assms(1) mem \<open>f \<in> _\<close> by (auto simp: hashmap_inv_def)
  with e k' have "valid k" "valid k'" by (auto simp: has_key_def)
  then have "equal k k'"
    using trans [of k key k'] sym [of key k] e(2) k'(2) assms(2) by blast
  with assms(1) e(1) k'(1) have "e = f" by (auto simp: hashmap_inv_def)
  with f show "entry_get hash equal m key = Some e"
    using assms by (simp add: entry_get_all)
qed

lemma entry_get_None:
  assumes "invar m" "valid key"
  shows "entry_get hash equal m key = None \<longleftrightarrow> (\<forall>e k v. entry_of m e = Some (k, v) \<longrightarrow> \<not> equal key k)"
  using entry_get_Some [OF assms] by (metis not_None_eq)

lemma lookup_Some:
  assumes "invar m" "valid key"
  shows "avahi_hashmap_lookup hash equal m key = Some v \<longleftrightarrow>
         (\<exists>e k. entry_of m e = Some (k, v) \<and> equal key k)"
proof -
  have "avahi_hashmap_lookup hash equal m key = Some v \<longleftrightarrow>
      (\<exists>e. entry_get hash equal m key = Some e \<and> (\<exists>k. entry_of m e = Some (k, v)))"
    by (auto simp: avahi_hashmap_lookup_def split: option.splits)
  then show ?thesis
    unfolding entry_get_Some [OF assms] by (metis option.inject prod.inject)
qed

lemma lookup_None:
  assumes "invar m" "valid key"
  shows "avahi_hashmap_lookup hash equal m key = None \<longleftrightarrow> entry_get hash equal m key = None"
proof (cases "entry_get hash equal m key")
  case (Some e)
  then obtain k v where "entry_of m e = Some (k, v)"
    using entry_get_Some [OF assms] by blast
  with Some show ?thesis by (simp add: avahi_hashmap_lookup_def)
qed (simp add: avahi_hashmap_lookup_def)

lemma inv_new_entry:
  assumes "invar m" "valid key" "entry_get hash equal m key = None"
  shows "invar (new_entry hash m key value)"
proof -
  let ?e = "next_entry m"
  have fresh: "?e \<notin> set (entries_list m)" "entry_of m ?e = None"
    using inv_fresh [OF assms(1)] inv_member [OF assms(1)] by auto
  have new: "entry_of m e = Some (k, v) \<Longrightarrow> \<not> equal key k \<and> \<not> equal k key" for e k v
  proof -
    assume e: "entry_of m e = Some (k, v)"
    with assms(1) have "has_key valid m e" by (auto simp: hashmap_inv_def)
    with e have "valid k" by (simp add: has_key_def)
    with e show ?thesis
      using assms(2,3) sym [of k key] entry_get_None [OF assms(1,2)] by blast
  qed
  have "filter (in_bucket hash (new_entry hash m key value) i) (entries_list m) =
      filter (in_bucket hash m i) (entries_list m)" for i
    using fresh(1) by (intro filter_cong) (auto simp: in_bucket_def has_key_def new_entry_def Let_def)
  with assms(1,2) fresh new show ?thesis
    unfolding hashmap_inv_def
    by (auto simp: new_entry_def Let_def in_bucket_def has_key_def less_Suc_eq)
qed

lemma entry_of_new_entry:
  "entry_of (new_entry hash m key value) = (entry_of m)(next_entry m \<mapsto> (key, value))"
  by (simp add: new_entry_def Let_def)

lemma inv_entry_free:
  assumes "invar m" "entry_of m e = Some (k, v)"
  shows "invar (entry_free hash m e)"
proof -
  let ?m = "entry_free hash m e"
  have e: "e \<in> set (entries_list m)" using assms by (auto simp: hashmap_inv_def)
  have d: "distinct (entries_list m)" using assms by (simp add: hashmap_inv_def)
  have list: "entries_list ?m = remove1 e (entries_list m)"
    using assms(2) by (simp add: entry_free_def Let_def)
  have store: "entry_of ?m = (entry_of m)(e := None)"
    using assms(2) by (simp add: entry_free_def Let_def)
  have b: "buckets m i = filter (in_bucket hash m i) (entries_list m)" for i
    using assms(1) by (simp add: hashmap_inv_def)
  have "buckets ?m i = filter (in_bucket hash ?m i) (entries_list ?m)" for i
  proof -
    have "filter (in_bucket hash ?m i) (remove1 e (entries_list m)) =
          filter (in_bucket hash m i) (remove1 e (entries_list m))"
      using d by (intro filter_cong) (auto simp: in_bucket_def has_key_def store)
    also have "\<dots> = remove1 e (filter (in_bucket hash m i) (entries_list m))"
      by (simp add: filter_remove1)
    also have "\<dots> = buckets ?m i"
    proof (cases "i = bucket_index hash k")
      case True
      then show ?thesis using assms(2) b [of i] by (simp add: entry_free_def Let_def)
    next
      case False
      then have "e \<notin> set (filter (in_bucket hash m i) (entries_list m))"
        using assms(2) by (auto simp: in_bucket_def has_key_def)
      with False show ?thesis
        using assms(2) b [of i] by (simp add: entry_free_def Let_def remove1_idem)
    qed
    finally show ?thesis by (simp add: list)
  qed
  moreover have "next_entry ?m = next_entry m"
    using assms(2) by (simp add: entry_free_def Let_def)
  moreover have "has_key valid ?m f" if "f \<in> set (entries_list m)" "f \<noteq> e" for f
    using assms(1) that by (auto simp: hashmap_inv_def has_key_def store)
  ultimately show ?thesis
    using assms(1) d unfolding hashmap_inv_def list store by auto
qed

lemma inv_replace_entry:
  assumes "invar m" "valid key" "entry_get hash equal m key = Some e"
  shows "invar (m\<lparr>entry_of := (entry_of m)(e \<mapsto> (key, value))\<rparr>)"
proof -
  let ?m = "m\<lparr>entry_of := (entry_of m)(e \<mapsto> (key, value))\<rparr>"
  from assms obtain k v where e: "entry_of m e = Some (k, v)" "equal key k"
    using entry_get_Some [OF assms(1,2)] by blast
  with assms(1) have mem: "e \<in> set (entries_list m)" and "has_key valid m e"
    by (auto simp: hashmap_inv_def)
  with e have k: "valid k" by (simp add: has_key_def)
  then have h: "bucket_index hash key = bucket_index hash k"
    using hash_equal [OF assms(2) k e(2)] by (simp add: bucket_index_def)
  have "in_bucket hash ?m i f = in_bucket hash m i f" for i f
    using e h by (auto simp: in_bucket_def has_key_def)
  then have same: "in_bucket hash ?m = in_bucket hash m" by blast
  have uniq: "entry_of m f = Some (k', v') \<Longrightarrow> equal key k' \<or> equal k' key \<Longrightarrow> f = e" for f k' v'
  proof -
    assume f: "entry_of m f = Some (k', v')" and eq: "equal key k' \<or> equal k' key"
    from assms(1) f have "has_key valid m f" by (auto simp: hashmap_inv_def)
    with f have k': "valid k'" by (simp add: has_key_def)
    with eq have "equal key k'" using sym assms(2) by blast
    then have "equal k k'" using trans [of k key k'] sym [of key k] e(2) k k' assms(2) by blast
    with assms(1) e(1) f show ?thesis by (metis inv_unique)
  qed
  have "has_key valid ?m f" if "f \<in> set (entries_list m)" for f
    using assms(1,2) that by (auto simp: hashmap_inv_def has_key_def)
  with assms(1) mem uniq show ?thesis
    unfolding hashmap_inv_def same by (auto split: if_splits)
qed

lemma equal_cong:
  "valid a \<Longrightarrow> valid b \<Longrightarrow> valid c \<Longrightarrow> equal a b \<Longrightarrow> equal a c = equal b c"
  using trans sym by blast

lemma lookup_eqI:
  assumes "invar m" "invar m'" "valid k" "valid k'"
    and "\<And>v. (\<exists>e j. entry_of m e = Some (j, v) \<and> equal k j) = (\<exists>e j. entry_of m' e = Some (j, v) \<and> equal k' j)"
  shows "avahi_hashmap_lookup hash equal m k = avahi_hashmap_lookup hash equal m' k'"
proof (cases "avahi_hashmap_lookup hash equal m k")
  case None
  then show ?thesis
    using assms lookup_Some [OF assms(1,3)] lookup_Some [OF assms(2,4)]
    by (metis not_None_eq)
next
  case (Some v)
  then show ?thesis
    using assms lookup_Some [OF assms(1,3)] lookup_Some [OF assms(2,4)] by metis
qed

lemma valid_stored: "invar m \<Longrightarrow> entry_of m e = Some (k, v) \<Longrightarrow> valid k"
proof -
  assume "invar m" "entry_of m e = Some (k, v)"
  then have "has_key valid m e" by (auto simp: hashmap_inv_def)
  with \<open>entry_of m e = Some (k, v)\<close> show ?thesis by (simp add: has_key_def)
qed

lemma lookup_new_entry:
  assumes "invar m" "valid k" "valid k'" "entry_get hash equal m k = None"
  shows "avahi_hashmap_lookup hash equal (new_entry hash m k v) k' =
         (if equal k' k then Some v else avahi_hashmap_lookup hash equal m k')"
proof -
  let ?m = "new_entry hash m k v"
  have invar': "invar ?m" using assms by (intro inv_new_entry)
  have fresh: "entry_of m (next_entry m) = None" using assms(1) by (rule inv_fresh)
  show ?thesis
  proof (cases "equal k' k")
    case True
    then have "avahi_hashmap_lookup hash equal ?m k' = Some v"
      unfolding lookup_Some [OF invar' assms(3)] entry_of_new_entry by (auto intro!: exI [of _ "next_entry m"])
    with True show ?thesis by simp
  next
    case False
    have "avahi_hashmap_lookup hash equal ?m k' = avahi_hashmap_lookup hash equal m k'"
    proof (rule lookup_eqI [OF invar' assms(1) assms(3) assms(3)])
      fix w
      show "(\<exists>e j. entry_of ?m e = Some (j, w) \<and> equal k' j) = (\<exists>e j. entry_of m e = Some (j, w) \<and> equal k' j)"
        unfolding entry_of_new_entry using False fresh by (auto split: if_splits) (metis fresh option.distinct(1))
    qed
    with False show ?thesis by simp
  qed
qed

lemma lookup_updated:
  assumes "invar m" "valid k" "valid k'" "entry_get hash equal m k = Some e"
  shows "avahi_hashmap_lookup hash equal (m\<lparr>entry_of := (entry_of m)(e \<mapsto> (k, v))\<rparr>) k' =
         (if equal k' k then Some v else avahi_hashmap_lookup hash equal m k')"
proof -
  let ?m = "m\<lparr>entry_of := (entry_of m)(e \<mapsto> (k, v))\<rparr>"
  have invar': "invar ?m" using assms(1,2,4) by (rule inv_replace_entry)
  from assms obtain j w where e: "entry_of m e = Some (j, w)" "equal k j"
    using entry_get_Some [OF assms(1,2)] by blast
  show ?thesis
  proof (cases "equal k' k")
    case True
    then have "avahi_hashmap_lookup hash equal ?m k' = Some v"
      unfolding lookup_Some [OF invar' assms(3)] by (auto intro!: exI [of _ e])
    with True show ?thesis by simp
  next
    case False
    then have "\<not> equal k' j"
      using e valid_stored [OF assms(1) e(1)] trans [of k' j k] sym [of k j] assms(2,3) by blast
    have "avahi_hashmap_lookup hash equal ?m k' = avahi_hashmap_lookup hash equal m k'"
    proof (rule lookup_eqI [OF invar' assms(1) assms(3) assms(3)])
      fix u
      show "(\<exists>f j. entry_of ?m f = Some (j, u) \<and> equal k' j) = (\<exists>f j. entry_of m f = Some (j, u) \<and> equal k' j)"
        using False e \<open>\<not> equal k' j\<close> by (auto split: if_splits) (metis option.inject prod.inject)
    qed
    with False show ?thesis by simp
  qed
qed

lemma lookup_freed:
  assumes "invar m" "valid k" "valid k'" "entry_get hash equal m k = Some e"
  shows "avahi_hashmap_lookup hash equal (entry_free hash m e) k' =
         (if equal k' k then None else avahi_hashmap_lookup hash equal m k')"
proof -
  from assms obtain j w where e: "entry_of m e = Some (j, w)" "equal k j"
    using entry_get_Some [OF assms(1,2)] by blast
  let ?m = "entry_free hash m e"
  have invar': "invar ?m" using assms(1) e(1) by (rule inv_entry_free)
  have store: "entry_of ?m = (entry_of m)(e := None)"
    using e(1) by (simp add: entry_free_def Let_def)
  have j: "valid j" using assms(1) e(1) by (rule valid_stored)
  have only: "f = e" if "entry_of m f = Some (i, u)" "equal k' i" "equal k' k" for f i u
  proof -
    have "valid i" using assms(1) that(1) by (rule valid_stored)
    then have "equal j i"
      using that e(2) j assms(2,3) sym trans by metis
    with assms(1) e(1) that(1) show ?thesis by (metis inv_unique)
  qed
  show ?thesis
  proof (cases "equal k' k")
    case True
    then have "avahi_hashmap_lookup hash equal ?m k' = None"
      using entry_get_None [OF invar' assms(3)] lookup_None [OF invar' assms(3)] only store
      by (auto split: if_splits)
    with True show ?thesis by simp
  next
    case False
    then have "\<not> equal k' j"
      using e j trans [of k' j k] sym [of k j] assms(2,3) by blast
    have "avahi_hashmap_lookup hash equal ?m k' = avahi_hashmap_lookup hash equal m k'"
    proof (rule lookup_eqI [OF invar' assms(1) assms(3) assms(3)])
      fix u
      show "(\<exists>f j. entry_of ?m f = Some (j, u) \<and> equal k' j) = (\<exists>f j. entry_of m f = Some (j, u) \<and> equal k' j)"
        unfolding store using e \<open>\<not> equal k' j\<close> by (auto split: if_splits) (metis option.inject prod.inject)
    qed
    with False show ?thesis by simp
  qed
qed

lemma inv_new: "invar avahi_hashmap_new"
  by (simp add: hashmap_inv_def avahi_hashmap_new_def)

lemma lookup_equal_keys:
  assumes "invar m" "valid k" "valid k'" "equal k k'"
  shows "avahi_hashmap_lookup hash equal m k = avahi_hashmap_lookup hash equal m k'"
proof (rule lookup_eqI [OF assms(1) assms(1) assms(2) assms(3)])
  fix v
  show "(\<exists>e j. entry_of m e = Some (j, v) \<and> equal k j) = (\<exists>e j. entry_of m e = Some (j, v) \<and> equal k' j)"
    using assms equal_cong [of k k'] valid_stored [OF assms(1)] by metis
qed

end

sublocale hash_key \<subseteq> dict: dictionary valid equal "hashmap_inv hash equal valid" avahi_hashmap_new
  "avahi_hashmap_lookup hash equal" "avahi_hashmap_insert hash equal"
  "avahi_hashmap_replace hash equal" "avahi_hashmap_remove hash equal"
proof (unfold_locales, goal_cases)
  case 1
  show ?case by (rule inv_new)
next
  case (2 m k v)
  then show ?case by (auto simp: avahi_hashmap_insert_def inv_new_entry split: option.split)
next
  case (3 m k v)
  then show ?case
    by (auto simp: avahi_hashmap_replace_def inv_new_entry inv_replace_entry split: option.split)
next
  case (4 m k)
  then show ?case
    by (auto simp: avahi_hashmap_remove_def entry_get_Some inv_entry_free split: option.split)
next
  case (5 k)
  show ?case
    by (simp add: avahi_hashmap_lookup_def entry_get_def avahi_hashmap_new_def)
next
  case (6 m k k' v)
  then show ?case
    by (auto simp: avahi_hashmap_insert_def lookup_new_entry lookup_None split: option.split)
next
  case (7 m k v)
  then show ?case
    by (auto simp: avahi_hashmap_insert_def lookup_None split: option.split)
next
  case (8 m k k' v)
  then show ?case
    by (auto simp: avahi_hashmap_replace_def lookup_new_entry lookup_updated split: option.split)
next
  case (9 m k k')
  show ?case
  proof (cases "entry_get hash equal m k")
    case None
    with 9 have "equal k' k \<Longrightarrow> avahi_hashmap_lookup hash equal m k' = None"
      using lookup_equal_keys [of m k' k] by (simp add: lookup_None)
    with None show ?thesis by (simp add: avahi_hashmap_remove_def)
  next
    case (Some e)
    with 9 show ?thesis by (simp add: avahi_hashmap_remove_def lookup_freed)
  qed
next
  case (10 k)
  then show ?case by (rule refl)
next
  case (11 k k')
  then show ?case by (rule sym)
next
  case (12 a b c)
  then show ?case by (metis trans)
next
  case (13 m k k')
  then show ?case by (rule lookup_equal_keys)
qed

text \<open>
  Removing every entry whose value satisfies \<open>P\<close> from within \<open>avahi_hashmap_foreach\<close>, as a
  cleanup callback does.
\<close>

definition remove_if ::
  "'k hash_func \<Rightarrow> 'k equal_func \<Rightarrow> ('v \<Rightarrow> bool) \<Rightarrow> 'k \<Rightarrow> 'v \<Rightarrow> ('k, 'v) hashmap \<Rightarrow> ('k, 'v) hashmap" where
  "remove_if hash equal P k v m = (if P v then avahi_hashmap_remove hash equal m k else m)"

definition visit :: "('k, 'v) hashmap \<Rightarrow> ('k \<Rightarrow> 'v \<Rightarrow> 's \<Rightarrow> 's) \<Rightarrow> nat \<Rightarrow> 's \<Rightarrow> 's" where
  "visit m f e s = (case entry_of m e of None \<Rightarrow> s | Some (k, v) \<Rightarrow> f k v s)"

lemma foreach_visit: "avahi_hashmap_foreach m f s = fold (visit m f) (entries_list m) s"
  by (simp add: avahi_hashmap_foreach_def visit_def [abs_def])

context hash_key
begin

lemma fold_remove_if:
  assumes "invar t"
  shows "invar m \<Longrightarrow> valid k' \<Longrightarrow>
    invar (fold (visit t (remove_if hash equal P)) es m) \<and>
    avahi_hashmap_lookup hash equal (fold (visit t (remove_if hash equal P)) es m) k' =
    (if \<exists>e \<in> set es. \<exists>k v. entry_of t e = Some (k, v) \<and> P v \<and> equal k' k then None
     else avahi_hashmap_lookup hash equal m k')"
proof (induction es arbitrary: m)
  case (Cons e es)
  show ?case
  proof (cases "entry_of t e")
    case None
    with Cons show ?thesis by (simp add: visit_def)
  next
    case (Some kv)
    obtain k v where kv: "kv = (k, v)" by fastforce
    with Some have k: "valid k" using valid_stored [OF assms] by blast
    have "invar (visit t (remove_if hash equal P) e m)"
      using Some kv k Cons.prems by (simp add: visit_def remove_if_def dict.inv_remove)
    moreover have "avahi_hashmap_lookup hash equal (visit t (remove_if hash equal P) e m) k' =
        (if P v \<and> equal k' k then None else avahi_hashmap_lookup hash equal m k')"
      using Some kv k Cons.prems by (simp add: visit_def remove_if_def dict.lookup_remove)
    ultimately show ?thesis
      using Cons.IH Cons.prems(2) Some kv by (auto split: if_splits)
  qed
qed simp

lemma foreach_remove_if:
  assumes "invar m" "valid k"
  shows "invar (avahi_hashmap_foreach m (remove_if hash equal P) m)"
    and "avahi_hashmap_lookup hash equal (avahi_hashmap_foreach m (remove_if hash equal P) m) k =
      (case avahi_hashmap_lookup hash equal m k of
         None \<Rightarrow> None | Some v \<Rightarrow> if P v then None else Some v)"
proof -
  note f = fold_remove_if [OF assms(1) assms(1) assms(2), of P "entries_list m"]
  show "invar (avahi_hashmap_foreach m (remove_if hash equal P) m)"
    using f by (simp add: foreach_visit)
  have "(\<exists>e \<in> set (entries_list m). \<exists>k' v. entry_of m e = Some (k', v) \<and> P v \<and> equal k k') \<longleftrightarrow>
      (\<exists>v. avahi_hashmap_lookup hash equal m k = Some v \<and> P v)"
    using lookup_Some [OF assms] inv_member [OF assms(1)] by blast
  with f show "avahi_hashmap_lookup hash equal (avahi_hashmap_foreach m (remove_if hash equal P) m) k =
      (case avahi_hashmap_lookup hash equal m k of
         None \<Rightarrow> None | Some v \<Rightarrow> if P v then None else Some v)"
    by (auto simp: foreach_visit split: option.split)
qed

end

section \<open>Keys that are C strings\<close>

definition avahi_string_hash :: "bool \<Rightarrow> byte list \<Rightarrow> u32" where
  "avahi_string_hash schar s = foldl (\<lambda>hash p. 31 * hash + of_int (char_val schar p)) 0 s"

definition avahi_string_equal :: "byte list \<Rightarrow> byte list \<Rightarrow> bool" where
  "avahi_string_equal a b \<longleftrightarrow> strcmp a b = 0"

definition avahi_int_hash :: "32 word \<Rightarrow> u32" where
  "avahi_int_hash i = i"

definition avahi_int_equal :: "32 word \<Rightarrow> 32 word \<Rightarrow> bool" where
  "avahi_int_equal a b \<longleftrightarrow> a = b"

interpretation string_map: hash_key "avahi_string_hash schar" avahi_string_equal "\<lambda>_. True"
  by unfold_locales (auto simp: avahi_string_equal_def)

interpretation int_map: hash_key avahi_int_hash avahi_int_equal "\<lambda>_. True"
  by unfold_locales (auto simp: avahi_int_equal_def)

section \<open>The table is a finite map\<close>

definition hashmap_op ::
  "'k hash_func \<Rightarrow> 'k equal_func \<Rightarrow> ('k, 'v) dict_op \<Rightarrow> ('k, 'v) hashmap \<Rightarrow> ('k, 'v) hashmap" where
  "hashmap_op hash equal c m =
     (case c of
        Insert k v \<Rightarrow> fst (avahi_hashmap_insert hash equal m k v)
      | Replace k v \<Rightarrow> fst (avahi_hashmap_replace hash equal m k v)
      | Remove k \<Rightarrow> avahi_hashmap_remove hash equal m k)"

fun map_op :: "('k, 'v) dict_op \<Rightarrow> ('k \<rightharpoonup> 'v) \<Rightarrow> ('k \<rightharpoonup> 'v)" where
  "map_op (Insert k v) f = (if f k = None then f(k \<mapsto> v) else f)"
| "map_op (Replace k v) f = f(k \<mapsto> v)"
| "map_op (Remove k) f = f(k := None)"

lemma lookup_new: "avahi_hashmap_lookup hash equal avahi_hashmap_new = Map.empty"
  by (rule ext) (simp add: avahi_hashmap_lookup_def entry_get_def avahi_hashmap_new_def)

lemma string_op:
  "hashmap_op (avahi_string_hash sc) avahi_string_equal c =
   string_map.dict.apply_op sc c"
  by (cases c) (auto simp: hashmap_op_def)

lemma string_abs_op: "string_map.dict.abs_op c f = map_op c f"
  by (cases c) (auto simp: avahi_string_equal_def)

text \<open>
  A table keyed by C strings is the finite map its operations describe: after
  any sequence of insertions (which keep the old value), replacements and removals on a new
  table, looking up a key gives what the map gives, whatever the hash collisions.
\<close>

theorem string_table_is_map:
  "avahi_hashmap_lookup (avahi_string_hash sc) avahi_string_equal
     (fold (hashmap_op (avahi_string_hash sc) avahi_string_equal) cs avahi_hashmap_new) k =
   fold map_op cs Map.empty k"
  using string_map.dict.lookup_ops [OF string_map.dict.inv_empty, where cs = cs and k = k]
  by (simp add: string_op [abs_def] string_abs_op [abs_def] lookup_new)

end
