(* ===== verification/Rr.thy ===== *)
theory Rr
  imports Address Strlst Hashmap
begin

text \<open>
  \<open>avahi-core/rr.c\<close>: keys (name, class, type) and resource records. Both are immutable and
  reference counted in C; here they are values, and the reference counts are not modelled.
  The union of a record's data is a datatype; a function that reads the member of another
  type than the record's is undefined in C, hence \<open>Crash\<close>. Generic data of size zero stands
  for a NULL pointer, which is what every producer of such data leaves there.
\<close>

section \<open>Constants and types\<close>

definition AVAHI_DNS_TYPE_A :: u16 where "AVAHI_DNS_TYPE_A = 0x01"
definition AVAHI_DNS_TYPE_NS :: u16 where "AVAHI_DNS_TYPE_NS = 0x02"
definition AVAHI_DNS_TYPE_CNAME :: u16 where "AVAHI_DNS_TYPE_CNAME = 0x05"
definition AVAHI_DNS_TYPE_SOA :: u16 where "AVAHI_DNS_TYPE_SOA = 0x06"
definition AVAHI_DNS_TYPE_PTR :: u16 where "AVAHI_DNS_TYPE_PTR = 0x0C"
definition AVAHI_DNS_TYPE_HINFO :: u16 where "AVAHI_DNS_TYPE_HINFO = 0x0D"
definition AVAHI_DNS_TYPE_TXT :: u16 where "AVAHI_DNS_TYPE_TXT = 0x10"
definition AVAHI_DNS_TYPE_AAAA :: u16 where "AVAHI_DNS_TYPE_AAAA = 0x1C"
definition AVAHI_DNS_TYPE_SRV :: u16 where "AVAHI_DNS_TYPE_SRV = 0x21"
definition AVAHI_DNS_TYPE_OPT :: u16 where "AVAHI_DNS_TYPE_OPT = 41"
definition AVAHI_DNS_TYPE_ANY :: u16 where "AVAHI_DNS_TYPE_ANY = 0xFF"
definition AVAHI_DNS_CLASS_IN :: u16 where "AVAHI_DNS_CLASS_IN = 0x01"
definition AVAHI_DNS_CLASS_ANY :: u16 where "AVAHI_DNS_CLASS_ANY = 0xFF"
definition AVAHI_DNS_CACHE_FLUSH :: u16 where "AVAHI_DNS_CACHE_FLUSH = 0x8000"
definition AVAHI_DNS_UNICAST_RESPONSE :: u16 where "AVAHI_DNS_UNICAST_RESPONSE = 0x8000"
definition AVAHI_DEFAULT_TTL :: u32 where "AVAHI_DEFAULT_TTL = 75 * 60"

lemmas type_defs = AVAHI_DNS_TYPE_A_def AVAHI_DNS_TYPE_NS_def AVAHI_DNS_TYPE_CNAME_def
  AVAHI_DNS_TYPE_SOA_def AVAHI_DNS_TYPE_PTR_def AVAHI_DNS_TYPE_HINFO_def AVAHI_DNS_TYPE_TXT_def
  AVAHI_DNS_TYPE_AAAA_def AVAHI_DNS_TYPE_SRV_def AVAHI_DNS_TYPE_OPT_def AVAHI_DNS_TYPE_ANY_def

lemmas class_defs = AVAHI_DNS_CLASS_IN_def AVAHI_DNS_CLASS_ANY_def AVAHI_DNS_CACHE_FLUSH_def
  AVAHI_DNS_UNICAST_RESPONSE_def

record key =
  name :: "byte list"
  clazz :: u16
  ktype :: u16

datatype rdata =
    Generic (generic_data: "byte list")
  | Srv (srv_priority: u16) (srv_weight: u16) (srv_port: u16) (srv_name: "byte list")
  | Name (ptr_name: "byte list")
  | Hinfo (hinfo_cpu: "byte list") (hinfo_os: "byte list")
  | Txt (txt_list: string_list)
  | A (a_address: "byte list")
  | Aaaa (aaaa_address: "byte list")
  | Null_names

record rr =
  rkey :: key
  ttl :: u32
  rdata :: rdata

text \<open>
  The cases of the \<open>switch (r->key->type)\<close> in the functions below. \<open>Null_names\<close> is the
  memory \<open>avahi_record_new\<close> has cleared, when the type's member consists of name pointers.
\<close>

datatype type_case = Srv_case | Name_case | Hinfo_case | Txt_case | A_case | Aaaa_case | Generic_case

definition case_of_type :: "u16 \<Rightarrow> type_case" where
  "case_of_type t =
     (if t = AVAHI_DNS_TYPE_SRV then Srv_case
      else if t = AVAHI_DNS_TYPE_PTR \<or> t = AVAHI_DNS_TYPE_CNAME \<or> t = AVAHI_DNS_TYPE_NS then Name_case
      else if t = AVAHI_DNS_TYPE_HINFO then Hinfo_case
      else if t = AVAHI_DNS_TYPE_TXT then Txt_case
      else if t = AVAHI_DNS_TYPE_A then A_case
      else if t = AVAHI_DNS_TYPE_AAAA then Aaaa_case
      else Generic_case)"

definition rr_case :: "rr \<Rightarrow> type_case" where
  "rr_case r = case_of_type (ktype (rkey r))"

section \<open>Making keys and records\<close>

definition avahi_key_new :: "byte list \<Rightarrow> u16 \<Rightarrow> u16 \<Rightarrow> key option res" where
  "avahi_key_new nm class type =
     res_map (map_option (\<lambda>n. \<lparr>name = n, clazz = class, ktype = type\<rparr>)) (avahi_normalize_name_strdup nm)"

definition avahi_key_new_cname :: "key \<Rightarrow> key option res" where
  "avahi_key_new_cname k =
     (if clazz k \<noteq> AVAHI_DNS_CLASS_IN then Ret None
      else if ktype k = AVAHI_DNS_TYPE_CNAME then Ret None
      else avahi_key_new (name k) (clazz k) AVAHI_DNS_TYPE_CNAME)"

text \<open>The data of a new record: the bytes \<open>memset\<close> clears, read as the member of the type.\<close>

definition cleared_data :: "u16 \<Rightarrow> rdata" where
  "cleared_data t =
     (case case_of_type t of
        Txt_case \<Rightarrow> Txt []
      | A_case \<Rightarrow> A (replicate 4 0)
      | Aaaa_case \<Rightarrow> Aaaa (replicate 16 0)
      | Generic_case \<Rightarrow> Generic []
      | _ \<Rightarrow> Null_names)"

definition avahi_record_new :: "key \<Rightarrow> u32 \<Rightarrow> rr" where
  "avahi_record_new k t =
     \<lparr>rkey = k, ttl = (if t \<noteq> - 1 then t else AVAHI_DEFAULT_TTL), rdata = cleared_data (ktype k)\<rparr>"

definition avahi_record_new_full :: "byte list \<Rightarrow> u16 \<Rightarrow> u16 \<Rightarrow> u32 \<Rightarrow> rr option res" where
  "avahi_record_new_full nm class type t =
     res_map (map_option (\<lambda>k. avahi_record_new k t)) (avahi_key_new nm class type)"

section \<open>Text forms\<close>

definition avahi_dns_class_to_string :: "u16 \<Rightarrow> byte list option" where
  "avahi_dns_class_to_string class =
     (if and class AVAHI_DNS_CACHE_FLUSH \<noteq> 0 then Some (str ''FLUSH'')
      else if class = AVAHI_DNS_CLASS_IN then Some (str ''IN'')
      else if class = AVAHI_DNS_CLASS_ANY then Some (str ''ANY'')
      else None)"

definition avahi_dns_type_to_string :: "u16 \<Rightarrow> byte list option" where
  "avahi_dns_type_to_string type =
     (if type = AVAHI_DNS_TYPE_CNAME then Some (str ''CNAME'')
      else if type = AVAHI_DNS_TYPE_A then Some (str ''A'')
      else if type = AVAHI_DNS_TYPE_AAAA then Some (str ''AAAA'')
      else if type = AVAHI_DNS_TYPE_PTR then Some (str ''PTR'')
      else if type = AVAHI_DNS_TYPE_HINFO then Some (str ''HINFO'')
      else if type = AVAHI_DNS_TYPE_TXT then Some (str ''TXT'')
      else if type = AVAHI_DNS_TYPE_SRV then Some (str ''SRV'')
      else if type = AVAHI_DNS_TYPE_ANY then Some (str ''ANY'')
      else if type = AVAHI_DNS_TYPE_SOA then Some (str ''SOA'')
      else if type = AVAHI_DNS_TYPE_NS then Some (str ''NS'')
      else None)"

abbreviation TAB :: byte where "TAB \<equiv> 0x09"

definition avahi_key_to_string :: "key \<Rightarrow> byte list" where
  "avahi_key_to_string k =
     (let c = (case avahi_dns_class_to_string (clazz k) of
                 Some c \<Rightarrow> c | None \<Rightarrow> str ''CLASS'' @ decimal (unat (clazz k)));
          t = (case avahi_dns_type_to_string (ktype k) of
                 Some t \<Rightarrow> t | None \<Rightarrow> str ''TYPE'' @ decimal (unat (ktype k)))
      in name k @ TAB # c @ TAB # t)"

definition hex_upper :: "byte \<Rightarrow> byte" where
  "hex_upper d = (if d < 10 then 0x30 + d else 0x37 + d)"

text \<open>\<open>sprintf(e, " %02X", *c)\<close>\<close>

definition hex_text :: "byte \<Rightarrow> byte list" where
  "hex_text c = [SPACE, hex_upper (drop_bit 4 c), hex_upper (and c 0x0F)]"

definition rdata_text :: "(int \<Rightarrow> byte list \<Rightarrow> byte list) \<Rightarrow> bool \<Rightarrow> rr \<Rightarrow> byte list res" where
  "rdata_text inet_ntop sc r =
     (case rr_case r of
        A_case \<Rightarrow> (case rdata r of A x \<Rightarrow> Ret (inet_ntop AVAHI_PROTO_INET x) | _ \<Rightarrow> Crash)
      | Aaaa_case \<Rightarrow> (case rdata r of Aaaa x \<Rightarrow> Ret (inet_ntop AVAHI_PROTO_INET6 x) | _ \<Rightarrow> Crash)
      | Name_case \<Rightarrow> (case rdata r of Name n \<Rightarrow> Ret n | _ \<Rightarrow> Crash)
      | Txt_case \<Rightarrow> (case rdata r of Txt l \<Rightarrow> Ret (snd (avahi_string_list_to_string sc l)) | _ \<Rightarrow> Crash)
      | Hinfo_case \<Rightarrow>
          (case rdata r of
             Hinfo c os \<Rightarrow> Ret (take 1023 (QUOTE # c @ [QUOTE, SPACE, QUOTE] @ os @ [QUOTE]))
           | _ \<Rightarrow> Crash)
      | Srv_case \<Rightarrow>
          (case rdata r of
             Srv p w t n \<Rightarrow>
               Ret (take 1023 (decimal (unat p) @ SPACE # decimal (unat w) @ SPACE # decimal (unat t) @ SPACE # n))
           | _ \<Rightarrow> Crash)
      | Generic_case \<Rightarrow>
          (case rdata r of
             Generic d \<Rightarrow> Ret (BSL # HASH # SPACE # decimal (length d) @ concat (map hex_text (take 20 d)))
           | _ \<Rightarrow> Crash))"

definition avahi_record_to_string :: "(int \<Rightarrow> byte list \<Rightarrow> byte list) \<Rightarrow> bool \<Rightarrow> rr \<Rightarrow> byte list res" where
  "avahi_record_to_string inet_ntop sc r =
     res_map (\<lambda>t. avahi_key_to_string (rkey r) @ SPACE # t @ str '' ; ttl='' @ decimal (unat (ttl r)))
       (rdata_text inet_ntop sc r)"

section \<open>Comparing keys\<close>

definition avahi_key_equal :: "key \<Rightarrow> key \<Rightarrow> bool res" where
  "avahi_key_equal a b =
     res_map (\<lambda>e. e \<and> ktype a = ktype b \<and> clazz a = clazz b) (avahi_domain_equal (name a) (name b))"

definition avahi_key_is_pattern :: "key \<Rightarrow> bool" where
  "avahi_key_is_pattern k \<longleftrightarrow> ktype k = AVAHI_DNS_TYPE_ANY \<or> clazz k = AVAHI_DNS_CLASS_ANY"

definition avahi_key_pattern_match :: "key \<Rightarrow> key \<Rightarrow> bool res" where
  "avahi_key_pattern_match pattern k =
     (if avahi_key_is_pattern k then Crash
      else
        res_map (\<lambda>e. e \<and> (ktype pattern = ktype k \<or> ktype pattern = AVAHI_DNS_TYPE_ANY) \<and>
                  (clazz pattern = clazz k \<or> clazz pattern = AVAHI_DNS_CLASS_ANY))
          (avahi_domain_equal (name pattern) (name k)))"

definition avahi_key_hash :: "bool \<Rightarrow> key \<Rightarrow> u32 res" where
  "avahi_key_hash sc k =
     res_map (\<lambda>h. h + ucast (ktype k) + ucast (clazz k)) (avahi_domain_hash sc (name k))"

section \<open>Comparing records\<close>

definition rdata_equal :: "rr \<Rightarrow> rr \<Rightarrow> bool res" where
  "rdata_equal a b =
     (if ktype (rkey a) \<noteq> ktype (rkey b) then Crash
      else
        case rr_case a of
          Srv_case \<Rightarrow>
            (case (rdata a, rdata b) of
               (Srv p w t n, Srv p' w' t' n') \<Rightarrow>
                 if p = p' \<and> w = w' \<and> t = t' then avahi_domain_equal n n' else Ret False
             | _ \<Rightarrow> Crash)
        | Name_case \<Rightarrow>
            (case (rdata a, rdata b) of (Name n, Name n') \<Rightarrow> avahi_domain_equal n n' | _ \<Rightarrow> Crash)
        | Hinfo_case \<Rightarrow>
            (case (rdata a, rdata b) of
               (Hinfo c os, Hinfo c' os') \<Rightarrow> Ret (strcmp c c' = 0 \<and> strcmp os os' = 0)
             | _ \<Rightarrow> Crash)
        | Txt_case \<Rightarrow>
            (case (rdata a, rdata b) of (Txt l, Txt l') \<Rightarrow> Ret (avahi_string_list_equal l l') | _ \<Rightarrow> Crash)
        | A_case \<Rightarrow>
            (case (rdata a, rdata b) of (A x, A y) \<Rightarrow> Ret (memcmp x y = 0) | _ \<Rightarrow> Crash)
        | Aaaa_case \<Rightarrow>
            (case (rdata a, rdata b) of (Aaaa x, Aaaa y) \<Rightarrow> Ret (memcmp x y = 0) | _ \<Rightarrow> Crash)
        | Generic_case \<Rightarrow>
            (case (rdata a, rdata b) of
               (Generic x, Generic y) \<Rightarrow>
                 Ret (length x = length y \<and> (length x = 0 \<or> memcmp x y = 0))
             | _ \<Rightarrow> Crash))"

definition avahi_record_equal_no_ttl :: "rr \<Rightarrow> rr \<Rightarrow> bool res" where
  "avahi_record_equal_no_ttl a b =
     res_bind (avahi_key_equal (rkey a) (rkey b)) (\<lambda>e. if e then rdata_equal a b else Ret False)"

text \<open>
  \<open>avahi_record_copy\<close>: all members are copied. \<open>avahi_memdup\<close> asserts that its argument is not
  NULL, which it is for generic data of size zero. Allocation does not fail in the model.
\<close>

definition avahi_record_copy :: "rr \<Rightarrow> rr option res" where
  "avahi_record_copy r =
     (case rr_case r of
        Name_case \<Rightarrow> (case rdata r of Name n \<Rightarrow> Ret (Some (r\<lparr>rdata := Name n\<rparr>)) | _ \<Rightarrow> Crash)
      | Srv_case \<Rightarrow> (case rdata r of Srv p w t n \<Rightarrow> Ret (Some (r\<lparr>rdata := Srv p w t n\<rparr>)) | _ \<Rightarrow> Crash)
      | Hinfo_case \<Rightarrow> (case rdata r of Hinfo c os \<Rightarrow> Ret (Some (r\<lparr>rdata := Hinfo c os\<rparr>)) | _ \<Rightarrow> Crash)
      | Txt_case \<Rightarrow>
          (case rdata r of Txt l \<Rightarrow> Ret (Some (r\<lparr>rdata := Txt (avahi_string_list_copy l)\<rparr>)) | _ \<Rightarrow> Crash)
      | A_case \<Rightarrow> (case rdata r of A x \<Rightarrow> Ret (Some (r\<lparr>rdata := A x\<rparr>)) | _ \<Rightarrow> Crash)
      | Aaaa_case \<Rightarrow> (case rdata r of Aaaa x \<Rightarrow> Ret (Some (r\<lparr>rdata := Aaaa x\<rparr>)) | _ \<Rightarrow> Crash)
      | Generic_case \<Rightarrow>
          (case rdata r of
             Generic d \<Rightarrow> if d = [] then Crash else Ret (Some (r\<lparr>rdata := Generic d\<rparr>))
           | _ \<Rightarrow> Crash))"

section \<open>Sizes\<close>

definition avahi_key_get_estimate_size :: "key \<Rightarrow> nat" where
  "avahi_key_get_estimate_size k = length (name k) + 1 + 4"

definition avahi_record_get_estimate_size :: "rr \<Rightarrow> nat res" where
  "avahi_record_get_estimate_size r =
     (let n = avahi_key_get_estimate_size (rkey r) + 4 + 2 in
      case rr_case r of
        Name_case \<Rightarrow> (case rdata r of Name m \<Rightarrow> Ret (n + (length m + 1)) | _ \<Rightarrow> Crash)
      | Srv_case \<Rightarrow> (case rdata r of Srv _ _ _ m \<Rightarrow> Ret (n + (6 + length m + 1)) | _ \<Rightarrow> Crash)
      | Hinfo_case \<Rightarrow>
          (case rdata r of Hinfo c os \<Rightarrow> Ret (n + (length os + 1 + length c + 1)) | _ \<Rightarrow> Crash)
      | Txt_case \<Rightarrow>
          (case rdata r of Txt l \<Rightarrow> Ret (n + avahi_string_list_serialize_size l) | _ \<Rightarrow> Crash)
      | A_case \<Rightarrow> Ret (n + 4)
      | Aaaa_case \<Rightarrow> Ret (n + 16)
      | Generic_case \<Rightarrow> (case rdata r of Generic d \<Rightarrow> Ret (n + length d) | _ \<Rightarrow> Crash))"

section \<open>The order of records\<close>

text \<open>\<open>None\<close> is a NULL pointer, which the assertions refuse.\<close>

definition lexicographical_memcmp :: "byte list \<Rightarrow> byte list \<Rightarrow> int" where
  "lexicographical_memcmp a b =
     (let al = length a; bl = length b; c = (if al < bl then al else bl); ret = memcmp (take c a) (take c b)
      in if ret \<noteq> 0 then ret
         else if al = bl then 0
         else if al = c then 1 else - 1)"

definition uint16_cmp :: "u16 \<Rightarrow> u16 \<Rightarrow> int" where
  "uint16_cmp a b = (if a = b then 0 else if a < b then - 1 else 1)"

definition or_else :: "int \<Rightarrow> int \<Rightarrow> int" where
  "or_else r s = (if r \<noteq> 0 then r else s)"

definition compare_txt :: "string_list \<Rightarrow> string_list \<Rightarrow> int" where
  "compare_txt la lb =
     (let asize = avahi_string_list_serialize_size la; bsize = avahi_string_list_serialize_size lb;
          ma = avahi_string_list_serialize la asize; mb = avahi_string_list_serialize lb bsize
      in if asize \<noteq> 0 \<and> bsize \<noteq> 0 then lexicographical_memcmp ma mb
         else if asize \<noteq> 0 \<and> bsize = 0 then 1
         else if asize = 0 \<and> bsize \<noteq> 0 then - 1
         else 0)"

definition compare_rdata :: "rr \<Rightarrow> rr \<Rightarrow> int res" where
  "compare_rdata a b =
     (case rr_case a of
        Name_case \<Rightarrow>
          (case (rdata a, rdata b) of (Name n, Name n') \<Rightarrow> avahi_binary_domain_cmp n n' | _ \<Rightarrow> Crash)
      | Srv_case \<Rightarrow>
          (case (rdata a, rdata b) of
             (Srv p w t n, Srv p' w' t' n') \<Rightarrow>
               let r = or_else (uint16_cmp p p') (or_else (uint16_cmp w w') (uint16_cmp t t'))
               in if r = 0 then avahi_binary_domain_cmp n n' else Ret r
           | _ \<Rightarrow> Crash)
      | Hinfo_case \<Rightarrow>
          (case (rdata a, rdata b) of
             (Hinfo c os, Hinfo c' os') \<Rightarrow> Ret (or_else (strcmp c c') (strcmp os os'))
           | _ \<Rightarrow> Crash)
      | Txt_case \<Rightarrow> (case (rdata a, rdata b) of (Txt la, Txt lb) \<Rightarrow> Ret (compare_txt la lb) | _ \<Rightarrow> Crash)
      | A_case \<Rightarrow> (case (rdata a, rdata b) of (A x, A y) \<Rightarrow> Ret (memcmp x y) | _ \<Rightarrow> Crash)
      | Aaaa_case \<Rightarrow> (case (rdata a, rdata b) of (Aaaa x, Aaaa y) \<Rightarrow> Ret (memcmp x y) | _ \<Rightarrow> Crash)
      | Generic_case \<Rightarrow>
          (case (rdata a, rdata b) of
             (Generic x, Generic y) \<Rightarrow>
               if x = [] \<or> y = [] then Crash else Ret (lexicographical_memcmp x y)
           | _ \<Rightarrow> Crash))"

definition avahi_record_lexicographical_compare :: "rr \<Rightarrow> rr \<Rightarrow> int res" where
  "avahi_record_lexicographical_compare a b =
     (let r = or_else (uint16_cmp (clazz (rkey a)) (clazz (rkey b))) (uint16_cmp (ktype (rkey a)) (ktype (rkey b)))
      in if r \<noteq> 0 then Ret r else compare_rdata a b)"

section \<open>Validity\<close>

definition avahi_record_is_goodbye :: "rr \<Rightarrow> bool" where
  "avahi_record_is_goodbye r \<longleftrightarrow> ttl r = 0"

definition avahi_key_is_valid :: "key \<Rightarrow> bool" where
  "avahi_key_is_valid k \<longleftrightarrow> avahi_is_valid_domain_name (name k)"

definition avahi_record_is_valid :: "rr \<Rightarrow> bool res" where
  "avahi_record_is_valid r =
     (if \<not> avahi_key_is_valid (rkey r) then Ret False
      else
        case rr_case r of
          Name_case \<Rightarrow> (case rdata r of Name n \<Rightarrow> Ret (avahi_is_valid_domain_name n) | _ \<Rightarrow> Crash)
        | Srv_case \<Rightarrow> (case rdata r of Srv _ _ _ n \<Rightarrow> Ret (avahi_is_valid_domain_name n) | _ \<Rightarrow> Crash)
        | Hinfo_case \<Rightarrow>
            (case rdata r of Hinfo c os \<Rightarrow> Ret (length os \<le> 255 \<and> length c \<le> 255) | _ \<Rightarrow> Crash)
        | Txt_case \<Rightarrow>
            (case rdata r of
               Txt l \<Rightarrow> Ret (\<forall>t \<in> set l. \<not> (255 < length t \<or> length t = 0))
             | _ \<Rightarrow> Crash)
        | _ \<Rightarrow> Ret True)"

definition get_address :: "rr \<Rightarrow> address option res" where
  "get_address r =
     (case rr_case r of
        A_case \<Rightarrow>
          (case rdata r of
             A x \<Rightarrow> Ret (Some \<lparr>proto = AVAHI_PROTO_INET, addr_data = x @ replicate 12 0\<rparr>) | _ \<Rightarrow> Crash)
      | Aaaa_case \<Rightarrow>
          (case rdata r of
             Aaaa x \<Rightarrow> Ret (Some \<lparr>proto = AVAHI_PROTO_INET6, addr_data = x\<rparr>) | _ \<Rightarrow> Crash)
      | _ \<Rightarrow> Ret None)"

definition avahi_record_is_link_local_address :: "rr \<Rightarrow> bool res" where
  "avahi_record_is_link_local_address r =
     res_map (\<lambda>a. case a of None \<Rightarrow> False | Some a \<Rightarrow> avahi_address_is_link_local a) (get_address r)"

section \<open>Well-formed keys and records\<close>

text \<open>
  The invariant of the program's records: names are valid C strings, the member of the union
  is the one of the type, with the sizes the type gives it.
\<close>

definition name_ok :: "byte list \<Rightarrow> bool" where
  "name_ok n \<longleftrightarrow> cstring n \<and> domain_labels n \<noteq> None"

definition key_ok :: "key \<Rightarrow> bool" where
  "key_ok k \<longleftrightarrow> name_ok (name k)"

definition rdata_ok :: "u16 \<Rightarrow> rdata \<Rightarrow> bool" where
  "rdata_ok t d =
     (case case_of_type t of
        Srv_case \<Rightarrow> (case d of Srv _ _ _ n \<Rightarrow> name_ok n | _ \<Rightarrow> False)
      | Name_case \<Rightarrow> (case d of Name n \<Rightarrow> name_ok n | _ \<Rightarrow> False)
      | Hinfo_case \<Rightarrow> (case d of Hinfo c os \<Rightarrow> cstring c \<and> cstring os | _ \<Rightarrow> False)
      | Txt_case \<Rightarrow> (case d of Txt l \<Rightarrow> True | _ \<Rightarrow> False)
      | A_case \<Rightarrow> (case d of A x \<Rightarrow> length x = 4 | _ \<Rightarrow> False)
      | Aaaa_case \<Rightarrow> (case d of Aaaa x \<Rightarrow> length x = 16 | _ \<Rightarrow> False)
      | Generic_case \<Rightarrow> (case d of Generic x \<Rightarrow> length x < 65536 | _ \<Rightarrow> False))"

definition rr_ok :: "rr \<Rightarrow> bool" where
  "rr_ok r \<longleftrightarrow> key_ok (rkey r) \<and> rdata_ok (ktype (rkey r)) (rdata r)"

lemmas rr_splits = type_case.splits rdata.splits

text \<open>What a valid record can look like: one case per member of the union.\<close>

lemma rdata_ok_cases [consumes 1, case_names srv name hinfo strings a aaaa generic]:
  assumes "rdata_ok t d"
  obtains p w q n where "case_of_type t = Srv_case" "d = Srv p w q n" "name_ok n"
  | n where "case_of_type t = Name_case" "d = Name n" "name_ok n"
  | c os where "case_of_type t = Hinfo_case" "d = Hinfo c os" "cstring c" "cstring os"
  | l where "case_of_type t = Txt_case" "d = Txt l"
  | x where "case_of_type t = A_case" "d = A x" "length x = 4"
  | x where "case_of_type t = Aaaa_case" "d = Aaaa x" "length x = 16"
  | x where "case_of_type t = Generic_case" "d = Generic x" "length x < 65536"
  using assms by (cases "case_of_type t"; cases d) (auto simp: rdata_ok_def)

definition folded :: "byte list \<Rightarrow> byte list list" where
  "folded n = (case domain_labels n of Some ls \<Rightarrow> fold_case ls | None \<Rightarrow> [])"

lemma domain_equal_folded:
  "name_ok a \<Longrightarrow> name_ok b \<Longrightarrow> avahi_domain_equal a b = Ret (folded a = folded b)"
  by (auto simp: name_ok_def folded_def domain_equal_spec)

lemma domain_hash_folded:
  assumes "name_ok a" "name_ok b" "folded a = folded b"
  shows "\<exists>h. avahi_domain_hash sc a = Ret h \<and> avahi_domain_hash sc b = Ret h"
proof -
  from assms obtain la lb where l: "domain_labels a = Some la" "domain_labels b = Some lb"
    by (auto simp: name_ok_def)
  with assms(3) have "hash_labels sc 0 la = hash_labels sc 0 lb"
    by (intro hash_labels_fold_case) (simp add: folded_def)
  with l show ?thesis by (simp add: domain_hash_spec)
qed

text \<open>The abstraction of a key: its labels without case, its class and its type.\<close>

definition key_abs :: "key \<Rightarrow> byte list list \<times> u16 \<times> u16" where
  "key_abs k = (folded (name k), clazz k, ktype k)"

lemma key_equal_abs:
  "key_ok a \<Longrightarrow> key_ok b \<Longrightarrow> avahi_key_equal a b = Ret (key_abs a = key_abs b)"
  by (auto simp: avahi_key_equal_def key_abs_def key_ok_def domain_equal_folded)

lemma key_hash_abs:
  assumes "key_ok a" "key_ok b" "key_abs a = key_abs b"
  shows "\<exists>h. avahi_key_hash sc a = Ret h \<and> avahi_key_hash sc b = Ret h"
proof -
  have "\<exists>h. avahi_domain_hash sc (name a) = Ret h \<and> avahi_domain_hash sc (name b) = Ret h"
    using assms by (intro domain_hash_folded) (auto simp: key_ok_def key_abs_def)
  with assms(3) show ?thesis by (auto simp: avahi_key_hash_def key_abs_def)
qed

section \<open>Keys in hash tables\<close>

text \<open>
  The functions the program gives to \<open>avahi_hashmap_new\<close> for tables keyed by an \<open>AvahiKey\<close>;
  they are used on valid keys, where they do not crash.
\<close>

definition key_hash_func :: "bool \<Rightarrow> key \<Rightarrow> u32" where
  "key_hash_func sc k = (case avahi_key_hash sc k of Ret h \<Rightarrow> h | Crash \<Rightarrow> 0)"

definition key_equal_func :: "key \<Rightarrow> key \<Rightarrow> bool" where
  "key_equal_func a b = (avahi_key_equal a b = Ret True)"

lemma key_equal_func_abs:
  "key_ok a \<Longrightarrow> key_ok b \<Longrightarrow> key_equal_func a b \<longleftrightarrow> key_abs a = key_abs b"
  by (simp add: key_equal_func_def key_equal_abs)

interpretation key_map: hash_key "key_hash_func sc" key_equal_func key_ok
proof
  show "key_hash_func sc k = key_hash_func sc k'" if "key_ok k" "key_ok k'" "key_equal_func k k'" for k k'
    using that key_hash_abs [of k k' sc] by (auto simp: key_equal_func_abs key_hash_func_def)
qed (simp_all add: key_equal_func_abs)

fun map_key_op :: "('a \<Rightarrow> 'b) \<Rightarrow> ('a, 'v) dict_op \<Rightarrow> ('b, 'v) dict_op" where
  "map_key_op f (Insert k v) = Insert (f k) v"
| "map_key_op f (Replace k v) = Replace (f k) v"
| "map_key_op f (Remove k) = Remove (f k)"

lemma key_op: "hashmap_op (key_hash_func sc) key_equal_func c = key_map.dict.apply_op sc c"
  by (cases c) (auto simp: hashmap_op_def)

lemma key_abs_op:
  "\<forall>k. key_ok k \<longrightarrow> f k = g (key_abs k) \<Longrightarrow> key_ok (op_key c) \<Longrightarrow> key_ok k \<Longrightarrow>
   key_map.dict.abs_op c f k = map_op (map_key_op key_abs c) g (key_abs k)"
  by (cases c) (auto simp: key_equal_func_abs)

lemma key_abs_ops:
  "\<forall>k. key_ok k \<longrightarrow> f k = g (key_abs k) \<Longrightarrow> \<forall>c \<in> set cs. key_ok (op_key c) \<Longrightarrow> key_ok k \<Longrightarrow>
   fold key_map.dict.abs_op cs f k = fold map_op (map (map_key_op key_abs) cs) g (key_abs k)"
proof (induction cs arbitrary: f g)
  case (Cons c cs)
  then have "\<forall>k. key_ok k \<longrightarrow> key_map.dict.abs_op c f k = map_op (map_key_op key_abs c) g (key_abs k)"
    using key_abs_op [OF Cons.prems(1)] by simp
  with Cons.IH Cons.prems show ?case by simp
qed simp

text \<open>
  Property C36. A hash table keyed by \<open>AvahiKey\<close> objects with valid names is a finite map from
  the labels (without case), class and type of a key: after any sequence of insertions,
  replacements and removals, looking up a key gives what the map holds.
\<close>

theorem key_table_is_map:
  assumes "\<forall>c \<in> set cs. key_ok (op_key c)" "key_ok k"
  shows "avahi_hashmap_lookup (key_hash_func sc) key_equal_func
      (fold (hashmap_op (key_hash_func sc) key_equal_func) cs avahi_hashmap_new) k =
    fold map_op (map (map_key_op key_abs) cs) Map.empty (key_abs k)"
proof -
  have "avahi_hashmap_lookup (key_hash_func sc) key_equal_func
      (fold (key_map.dict.apply_op sc) cs avahi_hashmap_new) k =
    fold key_map.dict.abs_op cs Map.empty k"
    using key_map.dict.lookup_ops [OF key_map.dict.inv_empty assms] by (simp add: lookup_new)
  also have "\<dots> = fold map_op (map (map_key_op key_abs) cs) Map.empty (key_abs k)"
    using assms by (intro key_abs_ops) simp_all
  finally show ?thesis by (simp add: key_op [abs_def])
qed

definition example_key :: "string \<Rightarrow> u16 \<Rightarrow> key" where
  "example_key n t = \<lparr>name = str n, clazz = AVAHI_DNS_CLASS_IN, ktype = t\<rparr>"

lemma key_table_is_map_witness:
  "avahi_hashmap_lookup (key_hash_func True) key_equal_func
     (fold (hashmap_op (key_hash_func True) key_equal_func)
        [Insert (example_key ''a.local'' 1) (7 :: nat), Insert (example_key ''A.local.'' 1) 8]
        avahi_hashmap_new) (example_key ''A.LOCAL'' 1) =
   fold map_op (map (map_key_op key_abs) [Insert (example_key ''a.local'' 1) (7 :: nat), Insert (example_key ''A.local.'' 1) 8])
     Map.empty (key_abs (example_key ''A.LOCAL'' 1))"
  by (rule key_table_is_map) code_simp+

section \<open>Equality of records\<close>

fun rdata_abs :: "rdata \<Rightarrow> rdata \<times> byte list list" where
  "rdata_abs (Srv p w t n) = (Srv p w t [], folded n)"
| "rdata_abs (Name n) = (Name [], folded n)"
| "rdata_abs d = (d, [])"

definition rr_abs :: "rr \<Rightarrow> (byte list list \<times> u16 \<times> u16) \<times> rdata \<times> byte list list" where
  "rr_abs r = (key_abs (rkey r), rdata_abs (rdata r))"

lemma rdata_equal_abs:
  assumes "rr_ok a" "rr_ok b" "ktype (rkey a) = ktype (rkey b)"
  shows "rdata_equal a b = Ret (rdata_abs (rdata a) = rdata_abs (rdata b))"
proof -
  from assms(1) have "rdata_ok (ktype (rkey a)) (rdata a)" by (simp add: rr_ok_def)
  then show ?thesis
    by (cases rule: rdata_ok_cases; insert assms(2,3); cases "rdata b")
      (auto simp: rdata_equal_def rr_case_def rr_ok_def rdata_ok_def domain_equal_folded
        string_list_equal memcmp_eq_0)
qed

lemma record_equal_abs:
  "rr_ok a \<Longrightarrow> rr_ok b \<Longrightarrow> avahi_record_equal_no_ttl a b = Ret (rr_abs a = rr_abs b)"
  by (auto simp: avahi_record_equal_no_ttl_def rr_ok_def key_equal_abs rr_abs_def key_abs_def
      rdata_equal_abs)

text \<open>
  \<open>avahi_record_equal_no_ttl\<close> decides, for valid records, whether the keys have
  the same labels (without case), class and type and the data are the same, names in the data
  being compared without case as well; the TTL does not matter.
\<close>

theorem record_equal_decides:
  assumes "rr_ok a" "rr_ok b"
  shows "avahi_record_equal_no_ttl a b =
    Ret (key_abs (rkey a) = key_abs (rkey b) \<and> rdata_abs (rdata a) = rdata_abs (rdata b))"
  using record_equal_abs [OF assms] by (simp add: rr_abs_def)

definition example_ptr :: "string \<Rightarrow> string \<Rightarrow> u32 \<Rightarrow> rr" where
  "example_ptr n p t = \<lparr>rkey = example_key n AVAHI_DNS_TYPE_PTR, ttl = t, rdata = Name (str p)\<rparr>"

lemma record_equal_decides_witness:
  "avahi_record_equal_no_ttl (example_ptr ''_ipp._tcp.local'' ''A.local'' 120) (example_ptr ''_IPP._tcp.local'' ''a.local'' 0) =
    Ret (key_abs (rkey (example_ptr ''_ipp._tcp.local'' ''A.local'' 120)) =
           key_abs (rkey (example_ptr ''_IPP._tcp.local'' ''a.local'' 0)) \<and>
         rdata_abs (rdata (example_ptr ''_ipp._tcp.local'' ''A.local'' 120)) =
           rdata_abs (rdata (example_ptr ''_IPP._tcp.local'' ''a.local'' 0)))"
  by (rule record_equal_decides) code_simp+

text \<open>
  A pattern key matches the keys with its name (up to case) whose type and class
  are its own or that it leaves open with \<open>ANY\<close>; a pattern that leaves nothing open matches
  exactly the keys that are equal to it.
\<close>

theorem pattern_match_decides:
  assumes "key_ok p" "key_ok k" "\<not> avahi_key_is_pattern k"
  shows "avahi_key_pattern_match p k =
      Ret (folded (name p) = folded (name k) \<and>
        (ktype p = ktype k \<or> ktype p = AVAHI_DNS_TYPE_ANY) \<and> (clazz p = clazz k \<or> clazz p = AVAHI_DNS_CLASS_ANY)) \<and>
    (avahi_key_is_pattern p \<or> avahi_key_pattern_match p k = avahi_key_equal p k)"
  using assms
  by (auto simp: avahi_key_pattern_match_def avahi_key_equal_def key_ok_def domain_equal_folded
      avahi_key_is_pattern_def)

lemma pattern_match_decides_witness:
  "avahi_key_pattern_match (example_key ''a.local'' 0xFF) (example_key ''A.local'' 1) =
      Ret (folded (name (example_key ''a.local'' 0xFF)) = folded (name (example_key ''A.local'' 1)) \<and>
        (ktype (example_key ''a.local'' 0xFF) = ktype (example_key ''A.local'' 1) \<or>
          ktype (example_key ''a.local'' 0xFF) = AVAHI_DNS_TYPE_ANY) \<and>
        (clazz (example_key ''a.local'' 0xFF) = clazz (example_key ''A.local'' 1) \<or>
          clazz (example_key ''a.local'' 0xFF) = AVAHI_DNS_CLASS_ANY)) \<and>
    (avahi_key_is_pattern (example_key ''a.local'' 0xFF) \<or>
     avahi_key_pattern_match (example_key ''a.local'' 0xFF) (example_key ''A.local'' 1) =
     avahi_key_equal (example_key ''a.local'' 0xFF) (example_key ''A.local'' 1))"
  by (rule pattern_match_decides) code_simp+

section \<open>The order of records\<close>

lemma lexicographical_memcmp_sym: "lexicographical_memcmp b a = - lexicographical_memcmp a b"
proof -
  have "memcmp (take c b) (take c a) = - memcmp (take c a) (take c b)" for c by (rule memcmp_sym)
  then show ?thesis by (simp add: lexicographical_memcmp_def Let_def)
qed

lemma lexicographical_memcmp_eq_0: "lexicographical_memcmp a b = 0 \<longleftrightarrow> a = b"
proof -
  let ?c = "if length a < length b then length a else length b"
  have "memcmp (take ?c a) (take ?c b) = 0 \<longleftrightarrow> take ?c a = take ?c b" by (rule memcmp_eq_0) simp
  then show ?thesis by (auto simp: lexicographical_memcmp_def Let_def)
qed

lemma uint16_cmp_sym: "uint16_cmp b a = - uint16_cmp a b"
  by (auto simp: uint16_cmp_def)

lemma uint16_cmp_eq_0 [simp]: "uint16_cmp a b = 0 \<longleftrightarrow> a = b"
  by (simp add: uint16_cmp_def)

lemma or_else_eq_0 [simp]: "or_else r s = 0 \<longleftrightarrow> r = 0 \<and> s = 0"
  by (simp add: or_else_def)

lemma or_else_minus: "or_else (- r) (- s) = - or_else r s"
  by (simp add: or_else_def)

lemma serialize_size_pos: "avahi_string_list_serialize_size l \<noteq> 0"
  by (simp add: avahi_string_list_serialize_size_def Let_def)

definition txt_wire :: "string_list \<Rightarrow> byte list" where
  "txt_wire l = avahi_string_list_serialize l (avahi_string_list_serialize_size l)"

lemma compare_txt: "compare_txt la lb = lexicographical_memcmp (txt_wire la) (txt_wire lb)"
  by (simp add: compare_txt_def serialize_size_pos txt_wire_def Let_def)

text \<open>When two data of one type compare as equal.\<close>

fun same_data :: "rdata \<Rightarrow> rdata \<Rightarrow> bool" where
  "same_data (Srv p w t n) (Srv p' w' t' n') \<longleftrightarrow> p = p' \<and> w = w' \<and> t = t' \<and> domain_labels n = domain_labels n'"
| "same_data (Name n) (Name n') \<longleftrightarrow> domain_labels n = domain_labels n'"
| "same_data (Txt l) (Txt l') \<longleftrightarrow> txt_wire l = txt_wire l'"
| "same_data d d' \<longleftrightarrow> d = d'"

lemma name_cmp:
  assumes "name_ok a" "name_ok b"
  shows "\<exists>r. avahi_binary_domain_cmp a b = Ret r \<and> avahi_binary_domain_cmp b a = Ret (- r) \<and>
    (r = 0 \<longleftrightarrow> domain_labels a = domain_labels b)"
  using assms by (auto simp: name_ok_def binary_domain_cmp_spec labels_cmp_eq_0 intro: labels_cmp_sym)

lemma or_else_sym3:
  "or_else (uint16_cmp p' p) (or_else (uint16_cmp w' w) (uint16_cmp t' t)) =
   - or_else (uint16_cmp p p') (or_else (uint16_cmp w w') (uint16_cmp t t'))"
  by (simp add: uint16_cmp_sym [of p' p] uint16_cmp_sym [of w' w] uint16_cmp_sym [of t' t] or_else_minus)

lemma compare_rdata_order:
  assumes "rr_ok a" "rr_ok b" "ktype (rkey a) = ktype (rkey b)"
    and "rdata a \<noteq> Generic []" "rdata b \<noteq> Generic []"
  shows "\<exists>r. compare_rdata a b = Ret r \<and> compare_rdata b a = Ret (- r) \<and>
    (r = 0 \<longleftrightarrow> same_data (rdata a) (rdata b))"
proof -
  from assms have a: "rdata_ok (ktype (rkey a)) (rdata a)" and b: "rdata_ok (ktype (rkey a)) (rdata b)"
    by (simp_all add: rr_ok_def)
  note defs = compare_rdata_def rr_case_def Let_def
  from a show ?thesis
  proof (cases rule: rdata_ok_cases)
    case (srv p w t n)
    with b obtain p' w' t' n' where "rdata b = Srv p' w' t' n'" "name_ok n'"
      by (auto simp: rdata_ok_def split: rdata.splits)
    with srv name_cmp [of n n'] assms(3) show ?thesis
      by (auto simp: defs or_else_sym3 [of p' p w' w t' t])
  next
    case (name n)
    with b obtain n' where "rdata b = Name n'" "name_ok n'"
      by (auto simp: rdata_ok_def split: rdata.splits)
    with name name_cmp [of n n'] assms(3) show ?thesis by (auto simp: defs)
  next
    case (hinfo c os)
    with b obtain c' os' where "rdata b = Hinfo c' os'"
      by (auto simp: rdata_ok_def split: rdata.splits)
    with hinfo assms(3) show ?thesis
      by (auto simp: defs strcmp_sym [of c' c] strcmp_sym [of os' os] or_else_minus)
  next
    case (strings l)
    with b obtain l' where "rdata b = Txt l'"
      by (auto simp: rdata_ok_def split: rdata.splits)
    with strings assms(3) show ?thesis
      by (auto simp: defs compare_txt lexicographical_memcmp_eq_0 intro: lexicographical_memcmp_sym)
  next
    case (a x)
    with b obtain y where "rdata b = A y" "length y = 4"
      by (auto simp: rdata_ok_def split: rdata.splits)
    with a assms(3) show ?thesis by (auto simp: defs memcmp_eq_0 intro: memcmp_sym)
  next
    case (aaaa x)
    with b obtain y where "rdata b = Aaaa y" "length y = 16"
      by (auto simp: rdata_ok_def split: rdata.splits)
    with aaaa assms(3) show ?thesis by (auto simp: defs memcmp_eq_0 intro: memcmp_sym)
  next
    case (generic x)
    with b obtain y where "rdata b = Generic y"
      by (auto simp: rdata_ok_def split: rdata.splits)
    with generic assms(3-5) show ?thesis
      by (auto simp: defs lexicographical_memcmp_eq_0 intro: lexicographical_memcmp_sym)
  qed
qed

text \<open>
  The order that decides simultaneous probes is antisymmetric: two hosts that
  compare the same pair of valid records in opposite order get opposite results, and they get
  zero only for the same class, type and data (names as labels, TXT data as on the wire).
\<close>

theorem record_compare_antisym:
  assumes "rr_ok a" "rr_ok b" "rdata a \<noteq> Generic []" "rdata b \<noteq> Generic []"
  shows "\<exists>r. avahi_record_lexicographical_compare a b = Ret r \<and>
    avahi_record_lexicographical_compare b a = Ret (- r) \<and>
    (r = 0 \<longleftrightarrow> clazz (rkey a) = clazz (rkey b) \<and> ktype (rkey a) = ktype (rkey b) \<and> same_data (rdata a) (rdata b))"
proof (cases "clazz (rkey a) = clazz (rkey b) \<and> ktype (rkey a) = ktype (rkey b)")
  case True
  with assms compare_rdata_order [of a b] show ?thesis
    by (auto simp: avahi_record_lexicographical_compare_def Let_def)
next
  case False
  then show ?thesis
    by (simp add: avahi_record_lexicographical_compare_def Let_def
        uint16_cmp_sym [of "clazz (rkey b)"] uint16_cmp_sym [of "ktype (rkey b)"] or_else_minus) blast
qed

lemma record_compare_antisym_witness:
  "\<exists>r. avahi_record_lexicographical_compare (example_ptr ''x.local'' ''a.local'' 120) (example_ptr ''x.local'' ''b.local'' 120) = Ret r \<and>
    avahi_record_lexicographical_compare (example_ptr ''x.local'' ''b.local'' 120) (example_ptr ''x.local'' ''a.local'' 120) = Ret (- r) \<and>
    (r = 0 \<longleftrightarrow> clazz (rkey (example_ptr ''x.local'' ''a.local'' 120)) = clazz (rkey (example_ptr ''x.local'' ''b.local'' 120)) \<and>
      ktype (rkey (example_ptr ''x.local'' ''a.local'' 120)) = ktype (rkey (example_ptr ''x.local'' ''b.local'' 120)) \<and>
      same_data (rdata (example_ptr ''x.local'' ''a.local'' 120)) (rdata (example_ptr ''x.local'' ''b.local'' 120)))"
  by (rule record_compare_antisym) code_simp+

text \<open>
  Data that is a proper prefix of other data of the same generic type compares as
  the greater one, against RFC 6762, which sorts the shorter data first.
\<close>

theorem compare_prefix_greater:
  assumes "case_of_type (ktype k) = Generic_case" "x \<noteq> []" "y \<noteq> []"
  shows "avahi_record_lexicographical_compare \<lparr>rkey = k, ttl = t, rdata = Generic x\<rparr>
    \<lparr>rkey = k, ttl = u, rdata = Generic (x @ y)\<rparr> = Ret 1"
  using assms
  by (simp add: avahi_record_lexicographical_compare_def compare_rdata_def rr_case_def
      lexicographical_memcmp_def Let_def memcmp_eq_0)

lemma compare_prefix_greater_witness:
  "avahi_record_lexicographical_compare \<lparr>rkey = example_key ''a.local'' 99, ttl = 120, rdata = Generic [1]\<rparr>
    \<lparr>rkey = example_key ''a.local'' 99, ttl = 120, rdata = Generic ([1] @ [0])\<rparr> = Ret 1"
  by (rule compare_prefix_greater) code_simp+

text \<open>
  \<open>avahi_record_copy\<close> of a valid record is an equal record, except that the copy
  of a generic record without data fails the assertion in \<open>avahi_memdup\<close>.
\<close>

theorem record_copy_same:
  assumes "rr_ok r"
  shows "avahi_record_copy r = (if rdata r = Generic [] then Crash else Ret (Some r))"
proof -
  from assms have "rdata_ok (ktype (rkey r)) (rdata r)" by (simp add: rr_ok_def)
  then show ?thesis
    by (cases rule: rdata_ok_cases) (auto simp: avahi_record_copy_def rr_case_def)
qed

lemma record_copy_same_witness:
  "avahi_record_copy (example_ptr ''x.local'' ''a.local'' 120) =
   (if rdata (example_ptr ''x.local'' ''a.local'' 120) = Generic [] then Crash
    else Ret (Some (example_ptr ''x.local'' ''a.local'' 120)))"
  by (rule record_copy_same) code_simp

end
