(* ===== verification/Key_Index.thy ===== *)
theory Key_Index
  imports Rr
begin

text \<open>
  Several components keep their objects in a hash table indexed by record keys, whose values
  are linked lists of the objects with that key (\<open>by_key\<close>). An object is a number, its key is
  given by a function; the linked list is the list of the numbers, and the table holds the
  list of which the C code stores the first element.
\<close>

type_synonym key_index = "(key, nat list) hashmap"

definition index_list :: "bool \<Rightarrow> key_index \<Rightarrow> key \<Rightarrow> nat list" where
  "index_list sc idx k =
     (case avahi_hashmap_lookup (key_hash_func sc) key_equal_func idx k of None \<Rightarrow> [] | Some l \<Rightarrow> l)"

text \<open>\<open>AVAHI_LLIST_PREPEND\<close> to the list found for the key, which then replaces the old one.\<close>

definition index_prepend :: "bool \<Rightarrow> key_index \<Rightarrow> key \<Rightarrow> nat \<Rightarrow> key_index" where
  "index_prepend sc idx k i =
     fst (avahi_hashmap_replace (key_hash_func sc) key_equal_func idx k (i # index_list sc idx k))"

text \<open>
  \<open>AVAHI_LLIST_REMOVE\<close> from the list found for the key; the rest is stored with the key of its
  first element, or the entry of the table goes when nothing is left. \<open>Crash\<close>: the object is
  not in the list of its key.
\<close>

definition index_remove :: "bool \<Rightarrow> key_index \<Rightarrow> (nat \<Rightarrow> key) \<Rightarrow> key \<Rightarrow> nat \<Rightarrow> key_index res" where
  "index_remove sc idx key_of k i =
     (let l = index_list sc idx k; t = remove1 i l in
      if i \<notin> set l then Crash
      else if t \<noteq> [] then
        Ret (fst (avahi_hashmap_replace (key_hash_func sc) key_equal_func idx (key_of (hd t)) t))
      else Ret (avahi_hashmap_remove (key_hash_func sc) key_equal_func idx k))"

text \<open>
  The index agrees with the keys of the objects: the list found for a key holds each object
  with an equal key once, and no list in the table is empty.
\<close>

definition index_ok :: "bool \<Rightarrow> key_index \<Rightarrow> (nat \<rightharpoonup> key) \<Rightarrow> bool" where
  "index_ok sc idx keys \<longleftrightarrow>
     hashmap_inv (key_hash_func sc) key_equal_func key_ok idx \<and>
     (\<forall>i k. keys i = Some k \<longrightarrow> key_ok k) \<and>
     (\<forall>k. key_ok k \<longrightarrow> distinct (index_list sc idx k) \<and>
        set (index_list sc idx k) = {i. \<exists>k'. keys i = Some k' \<and> key_abs k' = key_abs k} \<and>
        avahi_hashmap_lookup (key_hash_func sc) key_equal_func idx k \<noteq> Some [])"

lemma index_ok_new: "index_ok sc avahi_hashmap_new Map.empty"
  by (simp add: index_ok_def index_list_def lookup_new key_map.dict.inv_empty)

lemma index_list_set:
  "index_ok sc idx keys \<Longrightarrow> key_ok k \<Longrightarrow> i \<in> set (index_list sc idx k) \<longleftrightarrow> (\<exists>k'. keys i = Some k' \<and> key_abs k' = key_abs k)"
  by (auto simp: index_ok_def)

lemma index_list_distinct: "index_ok sc idx keys \<Longrightarrow> key_ok k \<Longrightarrow> distinct (index_list sc idx k)"
  by (simp add: index_ok_def)

lemma index_list_replace:
  assumes "hashmap_inv (key_hash_func sc) key_equal_func key_ok idx" "key_ok k" "key_ok k'"
  shows "index_list sc (fst (avahi_hashmap_replace (key_hash_func sc) key_equal_func idx k l)) k' =
    (if key_abs k' = key_abs k then l else index_list sc idx k')"
  using assms by (simp add: index_list_def key_map.dict.lookup_replace key_equal_func_abs)

lemma index_list_remove:
  assumes "hashmap_inv (key_hash_func sc) key_equal_func key_ok idx" "key_ok k" "key_ok k'"
  shows "index_list sc (avahi_hashmap_remove (key_hash_func sc) key_equal_func idx k) k' =
    (if key_abs k' = key_abs k then [] else index_list sc idx k')"
  using assms by (simp add: index_list_def key_map.dict.lookup_remove key_equal_func_abs)

lemma index_list_cong:
  assumes "hashmap_inv (key_hash_func sc) key_equal_func key_ok idx" "key_ok k" "key_ok k'" "key_abs k = key_abs k'"
  shows "index_list sc idx k = index_list sc idx k'"
  using key_map.dict.lookup_equal [OF assms(1-3)] assms(2-4) by (simp add: index_list_def key_equal_func_abs)

lemma index_prepend_list:
  "index_ok sc idx keys \<Longrightarrow> key_ok k \<Longrightarrow> key_ok k' \<Longrightarrow>
   index_list sc (index_prepend sc idx k i) k' =
   (if key_abs k' = key_abs k then i # index_list sc idx k' else index_list sc idx k')"
  using index_list_cong [of sc idx k' k]
  by (auto simp: index_ok_def index_prepend_def index_list_replace)

lemma index_prepend_ok:
  assumes "index_ok sc idx keys" "key_ok k" "keys i = None"
  shows "index_ok sc (index_prepend sc idx k i) (keys(i \<mapsto> k))"
proof -
  have inv: "hashmap_inv (key_hash_func sc) key_equal_func key_ok idx" using assms(1) by (simp add: index_ok_def)
  have "distinct (index_list sc (index_prepend sc idx k i) k') \<and>
      set (index_list sc (index_prepend sc idx k i) k') =
        {j. \<exists>k''. (keys(i \<mapsto> k)) j = Some k'' \<and> key_abs k'' = key_abs k'} \<and>
      avahi_hashmap_lookup (key_hash_func sc) key_equal_func (index_prepend sc idx k i) k' \<noteq> Some []"
    if k': "key_ok k'" for k'
  proof (intro conjI)
    have "i \<notin> set (index_list sc idx k')" using assms by (simp add: index_list_set [OF assms(1) k'])
    then show "distinct (index_list sc (index_prepend sc idx k i) k')"
      using index_list_distinct [OF assms(1) k'] by (simp add: index_prepend_list [OF assms(1,2) k'])
    show "set (index_list sc (index_prepend sc idx k i) k') =
        {j. \<exists>k''. (keys(i \<mapsto> k)) j = Some k'' \<and> key_abs k'' = key_abs k'}"
      using index_list_set [OF assms(1) k'] assms(3)
      by (auto simp: index_prepend_list [OF assms(1,2) k'] split: if_splits)
    show "avahi_hashmap_lookup (key_hash_func sc) key_equal_func (index_prepend sc idx k i) k' \<noteq> Some []"
      using assms k' inv
      by (auto simp: index_prepend_def key_map.dict.lookup_replace index_ok_def split: if_splits)
  qed
  then show ?thesis
    using assms inv by (auto simp: index_ok_def index_prepend_def key_map.dict.inv_replace)
qed

lemma index_remove_ok:
  assumes ok: "index_ok sc idx keys" and i: "keys i = Some k"
    and key_of: "\<And>j k'. keys j = Some k' \<Longrightarrow> key_of j = k'"
  shows "\<exists>idx'. index_remove sc idx key_of k i = Ret idx' \<and> index_ok sc idx' (keys(i := None)) \<and>
    (\<forall>k'. key_ok k' \<longrightarrow> index_list sc idx' k' = remove1 i (index_list sc idx k'))"
proof -
  let ?l = "index_list sc idx k"
  let ?t = "remove1 i ?l"
  have inv: "hashmap_inv (key_hash_func sc) key_equal_func key_ok idx" and k: "key_ok k"
    using ok i by (auto simp: index_ok_def)
  have same: "index_list sc idx k' = ?l" if "key_ok k'" "key_abs k' = key_abs k" for k'
    using index_list_cong [OF inv that(1) k that(2)] .
  have other: "remove1 i (index_list sc idx k') = index_list sc idx k'" if "key_ok k'" "key_abs k' \<noteq> key_abs k" for k'
    using that i by (intro remove1_idem) (simp add: index_list_set [OF ok])
  have mem: "i \<in> set ?l" using ok i k by (simp add: index_list_set)
  obtain idx' where idx': "index_remove sc idx key_of k i = Ret idx'"
    "hashmap_inv (key_hash_func sc) key_equal_func key_ok idx'"
    "\<And>k'. key_ok k' \<Longrightarrow> index_list sc idx' k' = remove1 i (index_list sc idx k')"
    "\<And>k'. key_ok k' \<Longrightarrow> avahi_hashmap_lookup (key_hash_func sc) key_equal_func idx' k' \<noteq> Some []"
  proof (cases "?t = []")
    case True
    have "avahi_hashmap_lookup (key_hash_func sc) key_equal_func (avahi_hashmap_remove (key_hash_func sc) key_equal_func idx k) k' \<noteq> Some []"
      if "key_ok k'" for k'
      using ok that k inv by (simp add: key_map.dict.lookup_remove index_ok_def)
    moreover have "index_list sc (avahi_hashmap_remove (key_hash_func sc) key_equal_func idx k) k' =
        remove1 i (index_list sc idx k')" if "key_ok k'" for k'
      using same [OF that] other [OF that] True by (simp add: index_list_remove [OF inv k that])
    ultimately show thesis
      using True mem inv k by (intro that [of "avahi_hashmap_remove (key_hash_func sc) key_equal_func idx k"]) (simp_all add: index_remove_def Let_def key_map.dict.inv_remove)
  next
    case False
    let ?h = "key_of (hd ?t)"
    have "hd ?t \<in> set ?l" using False notin_set_remove1 by (metis hd_in_set)
    then obtain h where "keys (hd ?t) = Some h" "key_abs h = key_abs k"
      using index_list_set [OF ok k] by blast
    with key_of ok have h: "key_ok ?h" "key_abs ?h = key_abs k" by (auto simp: index_ok_def)
    have "avahi_hashmap_lookup (key_hash_func sc) key_equal_func
        (fst (avahi_hashmap_replace (key_hash_func sc) key_equal_func idx ?h ?t)) k' \<noteq> Some []"
      if "key_ok k'" for k'
      using ok that h inv False by (simp add: key_map.dict.lookup_replace index_ok_def)
    moreover have "index_list sc (fst (avahi_hashmap_replace (key_hash_func sc) key_equal_func idx ?h ?t)) k' =
        remove1 i (index_list sc idx k')" if "key_ok k'" for k'
      using same [OF that] other [OF that] h by (simp add: index_list_replace [OF inv h(1) that])
    ultimately show thesis
      using False mem inv h by (intro that [of "fst (avahi_hashmap_replace (key_hash_func sc) key_equal_func idx ?h ?t)"]) (simp_all add: index_remove_def Let_def key_map.dict.inv_replace)
  qed
  have "set (remove1 i (index_list sc idx k')) = {j. \<exists>k''. (keys(i := None)) j = Some k'' \<and> key_abs k'' = key_abs k'}"
    if "key_ok k'" for k'
    using index_list_distinct [OF ok that] index_list_set [OF ok that] by (auto simp: set_remove1_eq)
  moreover have "distinct (remove1 i (index_list sc idx k'))" if "key_ok k'" for k'
    using index_list_distinct [OF ok that] by (rule distinct_remove1)
  moreover have "key_ok k'" if "(keys(i := None)) j = Some k'" for j k'
    using ok that by (auto simp: index_ok_def split: if_splits)
  ultimately have "index_ok sc idx' (keys(i := None))"
    using idx'(2-4) unfolding index_ok_def by simp
  with idx' show ?thesis by blast
qed

text \<open>Replacing the key of an object by an equal one, when it is the first of its list.\<close>

lemma index_replace_same:
  assumes ok: "index_ok sc idx keys" and i: "keys i = Some k" and k': "key_ok k'" "key_abs k' = key_abs k"
  shows "index_ok sc idx (keys(i \<mapsto> k'))"
    and "index_ok sc (fst (avahi_hashmap_replace (key_hash_func sc) key_equal_func idx k' (index_list sc idx k'))) (keys(i \<mapsto> k'))"
    and "key_ok q \<Longrightarrow> index_list sc (fst (avahi_hashmap_replace (key_hash_func sc) key_equal_func idx k' (index_list sc idx k'))) q = index_list sc idx q"
proof -
  let ?idx = "fst (avahi_hashmap_replace (key_hash_func sc) key_equal_func idx k' (index_list sc idx k'))"
  have inv: "hashmap_inv (key_hash_func sc) key_equal_func key_ok idx" using ok by (simp add: index_ok_def)
  have sets: "{j. \<exists>k''. (keys(i \<mapsto> k')) j = Some k'' \<and> key_abs k'' = key_abs q} = {j. \<exists>k''. keys j = Some k'' \<and> key_abs k'' = key_abs q}" for q
    using i k'(2) by auto
  show new: "index_ok sc idx (keys(i \<mapsto> k'))"
    using ok k' unfolding index_ok_def sets by auto
  show same: "index_list sc ?idx q = index_list sc idx q" if "key_ok q" for q
    using index_list_cong [OF inv k'(1) that] by (auto simp: index_list_replace [OF inv k'(1) that])
  have "i \<in> set (index_list sc idx k')" using i k' by (simp add: index_list_set [OF ok])
  then have "index_list sc idx k' \<noteq> []" by auto
  then have "avahi_hashmap_lookup (key_hash_func sc) key_equal_func ?idx q \<noteq> Some []" if "key_ok q" for q
    using ok that k'(1) inv by (auto simp: key_map.dict.lookup_replace index_ok_def)
  then show "index_ok sc ?idx (keys(i \<mapsto> k'))"
    using new same k'(1) inv unfolding index_ok_def by (simp add: key_map.dict.inv_replace)
qed

end
