(* ===== verification/Timeval.thy ===== *)
theory Timeval
  imports Avahi_Prelude "HOL-Library.Signed_Division"
begin

text \<open>
  \<open>avahi-common/timeval.c\<close>: points in time as seconds and microseconds. The clock
  (\<open>gettimeofday\<close>) and the random number behind the jitter are arguments. Seconds and
  microseconds are unbounded integers here; \<open>time_t\<close> and the 64-bit \<open>AvahiUsec\<close> do not
  overflow for dates the program sees.
\<close>

record timeval =
  tv_sec :: int
  tv_usec :: int

definition avahi_timeval_compare :: "timeval \<Rightarrow> timeval \<Rightarrow> int" where
  "avahi_timeval_compare a b =
     (if tv_sec a < tv_sec b then - 1
      else if tv_sec b < tv_sec a then 1
      else if tv_usec a < tv_usec b then - 1
      else if tv_usec b < tv_usec a then 1
      else 0)"

text \<open>The recursive call of \<open>avahi_timeval_diff\<close> swaps its arguments and does not recurse again.\<close>

definition timeval_sub :: "timeval \<Rightarrow> timeval \<Rightarrow> int" where
  "timeval_sub a b = (tv_sec a - tv_sec b) * 1000000 + tv_usec a - tv_usec b"

function avahi_timeval_diff :: "timeval \<Rightarrow> timeval \<Rightarrow> int" where
  "avahi_timeval_diff a b =
     (if avahi_timeval_compare a b < 0 then - avahi_timeval_diff b a else timeval_sub a b)"
  by pat_completeness auto
termination
  by (relation "measure (\<lambda>(a, b). if avahi_timeval_compare a b < 0 then 1 else 0)")
    (auto simp: avahi_timeval_compare_def split: if_splits)

declare avahi_timeval_diff.simps [simp del]

text \<open>C's division and remainder truncate towards zero: \<open>sdiv\<close> and \<open>smod\<close>.\<close>

definition avahi_timeval_add :: "timeval \<Rightarrow> int \<Rightarrow> timeval" where
  "avahi_timeval_add a usec =
     (let u = usec + tv_usec a in
      if u < 0 then
        a\<lparr>tv_usec := 1000000 + u smod 1000000, tv_sec := tv_sec a + (- 1 + u sdiv 1000000)\<rparr>
      else
        a\<lparr>tv_usec := u smod 1000000, tv_sec := tv_sec a + u sdiv 1000000\<rparr>)"

definition avahi_age :: "timeval \<Rightarrow> timeval \<Rightarrow> int" where
  "avahi_age now a = avahi_timeval_diff now a"

text \<open>
  The jitter: \<open>last_rand\<close> and \<open>timestamp\<close> are the function's static variables, a new random
  number is drawn when ten seconds have passed. \<open>jitter*1000.0*r/(RAND_MAX+1.0)\<close> is exact
  in double precision for jitters up to 4194304 ms, so the model computes with integers;
  \<open>RAND_MAX\<close> is 2147483647.
\<close>

definition RAND_MAX :: int where
  "RAND_MAX = 2147483647"

record jitter_state =
  last_rand :: int
  timestamp :: int

definition draw_rand :: "jitter_state \<Rightarrow> int \<Rightarrow> int \<Rightarrow> jitter_state" where
  "draw_rand js time rnd = (if timestamp js + 10 \<le> time then \<lparr>last_rand = rnd, timestamp = time\<rparr> else js)"

definition jitter_usec :: "int \<Rightarrow> int \<Rightarrow> int" where
  "jitter_usec jitter r = jitter * 1000 * r div (RAND_MAX + 1)"

definition avahi_elapse_time ::
  "timeval \<Rightarrow> int \<Rightarrow> jitter_state \<Rightarrow> int \<Rightarrow> int \<Rightarrow> timeval \<times> jitter_state" where
  "avahi_elapse_time now rnd js msec jitter =
     (let tv = (if msec \<noteq> 0 then avahi_timeval_add now (msec * 1000) else now) in
      if jitter \<noteq> 0 then
        (let js' = draw_rand js (tv_sec now) rnd
         in (avahi_timeval_add tv (jitter_usec jitter (last_rand js')), js'))
      else (tv, js))"

section \<open>Points in time as a number of microseconds\<close>

definition usec_of :: "timeval \<Rightarrow> int" where
  "usec_of t = tv_sec t * 1000000 + tv_usec t"

definition normalized :: "timeval \<Rightarrow> bool" where
  "normalized t \<longleftrightarrow> 0 \<le> tv_usec t \<and> tv_usec t < 1000000"

lemma timeval_compare_usec:
  "normalized a \<Longrightarrow> normalized b \<Longrightarrow>
   avahi_timeval_compare a b = (if usec_of a < usec_of b then - 1 else if usec_of b < usec_of a then 1 else 0)"
  by (auto simp: avahi_timeval_compare_def usec_of_def normalized_def)

lemma timeval_diff: "avahi_timeval_diff a b = usec_of a - usec_of b"
proof -
  have base: "\<not> avahi_timeval_compare c d < 0 \<Longrightarrow> avahi_timeval_diff c d = usec_of c - usec_of d" for c d
    by (subst avahi_timeval_diff.simps) (simp add: timeval_sub_def usec_of_def algebra_simps)
  show ?thesis
  proof (cases "avahi_timeval_compare a b < 0")
    case True
    then have "\<not> avahi_timeval_compare b a < 0"
      by (auto simp: avahi_timeval_compare_def split: if_splits)
    with True base [of b a] show ?thesis by (subst avahi_timeval_diff.simps) simp
  qed (rule base)
qed

lemma c_div_mod: "u sdiv 1000000 * 1000000 + u smod 1000000 = (u :: int)"
  by (simp add: sdiv_mult_smod_eq)

lemma c_mod_range: "u < 0 \<Longrightarrow> - 1000000 < u smod (1000000 :: int) \<and> u smod 1000000 \<le> 0"
  "0 \<le> u \<Longrightarrow> 0 \<le> u smod (1000000 :: int) \<and> u smod 1000000 < 1000000"
  using smod_int_range [of 1000000 u] smod_int_compares [of u 1000000] by simp_all

lemma usec_of_add: "usec_of (avahi_timeval_add t u) = usec_of t + u"
proof -
  have "(u + tv_usec t) sdiv 1000000 * 1000000 + (u + tv_usec t) smod 1000000 = u + tv_usec t"
    by (rule c_div_mod)
  then show ?thesis
    by (simp add: avahi_timeval_add_def usec_of_def Let_def algebra_simps)
qed

text \<open>
  \<open>avahi_timeval_add\<close> moves a point in time by exactly the given number of
  microseconds, which may be negative, and \<open>avahi_timeval_diff\<close> measures that distance; its
  microseconds lie between 0 and 999999 but for one case: when the sum of the microseconds is
  a negative multiple of a million they are 1000000.
\<close>

theorem timeval_add_exact:
  "avahi_timeval_diff (avahi_timeval_add t u) t = u \<and>
   0 \<le> tv_usec (avahi_timeval_add t u) \<and>
   (tv_usec (avahi_timeval_add t u) < 1000000) \<noteq>
     (u + tv_usec t < 0 \<and> (u + tv_usec t) smod 1000000 = 0)"
proof -
  let ?u = "u + tv_usec t"
  have "avahi_timeval_diff (avahi_timeval_add t u) t = u"
    by (simp add: timeval_diff usec_of_add)
  moreover have "0 \<le> tv_usec (avahi_timeval_add t u) \<and>
   (tv_usec (avahi_timeval_add t u) < 1000000) \<noteq> (?u < 0 \<and> ?u smod 1000000 = 0)"
    using c_mod_range [of ?u]
    by (cases "?u < 0") (auto simp: avahi_timeval_add_def Let_def)
  ultimately show ?thesis by blast
qed

lemma jitter_usec_range:
  assumes "0 \<le> jitter" "0 \<le> r" "r \<le> RAND_MAX"
  shows "0 \<le> jitter_usec jitter r \<and> jitter_usec jitter r \<le> jitter * 1000"
proof -
  have "jitter * 1000 * r \<le> jitter * 1000 * (RAND_MAX + 1)"
    using assms by (intro mult_left_mono) auto
  then have "jitter_usec jitter r \<le> (jitter * 1000 * (RAND_MAX + 1)) div (RAND_MAX + 1)"
    unfolding jitter_usec_def by (intro zdiv_mono1) (auto simp: RAND_MAX_def)
  also have "\<dots> = jitter * 1000" by (simp add: RAND_MAX_def)
  finally show ?thesis
    using assms by (simp add: jitter_usec_def RAND_MAX_def pos_imp_zdiv_nonneg_iff)
qed

lemma usec_of_elapse:
  "usec_of (fst (avahi_elapse_time now rnd js msec jitter)) =
   usec_of now + msec * 1000 +
   (if jitter = 0 then 0 else jitter_usec jitter (last_rand (draw_rand js (tv_sec now) rnd)))"
  by (auto simp: avahi_elapse_time_def usec_of_add Let_def)

text \<open>\<open>avahi_elapse_time\<close> without jitter.\<close>

definition elapse_after :: "timeval \<Rightarrow> int \<Rightarrow> timeval" where
  "elapse_after now msec = (if msec \<noteq> 0 then avahi_timeval_add now (msec * 1000) else now)"

lemma elapse_after_usec: "usec_of (elapse_after now msec) = usec_of now + msec * 1000"
  by (simp add: elapse_after_def usec_of_add)

lemma elapse_after_time: "fst (avahi_elapse_time now rnd js msec 0) = elapse_after now msec"
  by (simp add: avahi_elapse_time_def elapse_after_def)

lemma normalized_elapse: "normalized now \<Longrightarrow> 0 \<le> msec \<Longrightarrow> normalized (elapse_after now msec)"
  using c_mod_range(2) [of "msec * 1000 + tv_usec now"]
  by (auto simp: elapse_after_def avahi_timeval_add_def normalized_def Let_def)

lemma normalized_add: "normalized t \<Longrightarrow> 0 \<le> u \<Longrightarrow> normalized (avahi_timeval_add t u)"
  using c_mod_range(2) [of "u + tv_usec t"]
  by (auto simp: avahi_timeval_add_def normalized_def Let_def)

text \<open>What \<open>rand\<close> may return.\<close>

definition rand_ok :: "int \<Rightarrow> bool" where
  "rand_ok r \<longleftrightarrow> 0 \<le> r \<and> r \<le> RAND_MAX"

lemma elapse_time_range:
  assumes "rand_ok (last_rand js)" "rand_ok rnd" "normalized now" "0 \<le> msec" "0 \<le> jitter"
  obtains tv js' where "avahi_elapse_time now rnd js msec jitter = (tv, js')" "rand_ok (last_rand js')" "normalized tv"
    "usec_of now + msec * 1000 \<le> usec_of tv" "usec_of tv \<le> usec_of now + (msec + jitter) * 1000"
proof -
  obtain tv js' where e: "avahi_elapse_time now rnd js msec jitter = (tv, js')" by fastforce
  let ?r = "last_rand (draw_rand js (tv_sec now) rnd)"
  have "rand_ok ?r" using assms(1,2) by (simp add: draw_rand_def)
  then have range: "0 \<le> jitter_usec jitter ?r \<and> jitter_usec jitter ?r \<le> jitter * 1000"
    using assms(5) by (intro jitter_usec_range) (simp_all add: rand_ok_def)
  have "rand_ok (last_rand js')" "normalized tv"
    using e assms(1) \<open>rand_ok ?r\<close> range normalized_elapse [OF assms(3,4)] normalized_add assms(3)
    by (auto simp: avahi_elapse_time_def Let_def elapse_after_def split: if_splits)
  moreover have "usec_of now + msec * 1000 \<le> usec_of tv" "usec_of tv \<le> usec_of now + (msec + jitter) * 1000"
    using usec_of_elapse [of now rnd js msec jitter] e range assms(5) by (auto simp: algebra_simps split: if_splits)
  ultimately show thesis using e that by blast
qed

end
