(* ===== verification/Cache.thy ===== *)
theory Cache
  imports Key_Index Timeval
begin

text \<open>
  \<open>avahi-core/cache.c\<close>: the cache of the records other hosts have announced. Entries are
  numbers in a store; the table \<open>hashmap\<close> and its \<open>by_key\<close> lists are a \<open>key_index\<close>, the list of
  all entries is \<open>centries\<close>. The pending time event of an entry is the time for which it is
  scheduled. What the cache tells other components is collected in \<open>outbox\<close>: notifications of
  the lookups and queries to post. The clock (\<open>now\<close>; \<open>time()\<close> is its seconds) and \<open>rand()\<close> are
  arguments. The product of the jitter is computed in exact arithmetic, where the code rounds
  to a \<open>double\<close>.
\<close>

section \<open>State\<close>

datatype cache_state =
    CACHE_VALID | CACHE_EXPIRY1 | CACHE_EXPIRY2 | CACHE_EXPIRY3 | CACHE_EXPIRY_FINAL
  | CACHE_POOF | CACHE_POOF_FINAL | CACHE_GOODBYE_FINAL | CACHE_REPLACE_FINAL

record centry =
  crecord :: rr
  ctimestamp :: timeval
  poof_timestamp :: timeval
  expiry :: timeval
  cache_flush :: bool
  poof_num :: int
  origin :: address
  cstate :: cache_state
  time_event :: "timeval option"
  poof_address :: address

datatype cache_out = Lookup_new rr | Lookup_remove rr | Post_query key

record cache =
  cstore :: "nat \<Rightarrow> centry option"
  cindex :: key_index
  centries :: "nat list"
  n_entries :: nat
  clast_rand :: int
  clast_rand_timestamp :: int
  cnext :: nat
  outbox :: "cache_out list"

definition avahi_cache_new :: "int \<Rightarrow> cache" where
  "avahi_cache_new r =
     \<lparr>cstore = Map.empty, cindex = avahi_hashmap_new, centries = [], n_entries = 0, clast_rand = r,
      clast_rand_timestamp = 0, cnext = 0, outbox = []\<rparr>"

definition send_out :: "cache_out \<Rightarrow> cache \<Rightarrow> cache" where
  "send_out x c = c\<lparr>outbox := outbox c @ [x]\<rparr>"

definition set_entry :: "nat \<Rightarrow> centry \<Rightarrow> cache \<Rightarrow> cache" where
  "set_entry i e c = c\<lparr>cstore := (cstore c)(i \<mapsto> e)\<rparr>"

text \<open>The key of an entry; entries in the index exist.\<close>

definition entry_key :: "cache \<Rightarrow> nat \<Rightarrow> key" where
  "entry_key c i = rkey (crecord (the (cstore c i)))"

section \<open>Removing and finding entries\<close>

definition remove_entry :: "bool \<Rightarrow> cache \<Rightarrow> nat \<Rightarrow> cache res" where
  "remove_entry sc c i =
     (case cstore c i of
        None \<Rightarrow> Crash
      | Some e \<Rightarrow>
          res_bind (index_remove sc (cindex c) (entry_key c) (rkey (crecord e)) i) (\<lambda>idx.
            if n_entries c < 1 then Crash
            else
              Ret (send_out (Lookup_remove (crecord e))
                (c\<lparr>cindex := idx, centries := remove1 i (centries c), cstore := (cstore c)(i := None),
                   n_entries := n_entries c - 1\<rparr>))))"

definition lookup_key :: "bool \<Rightarrow> cache \<Rightarrow> key \<Rightarrow> nat list res" where
  "lookup_key sc c k = (if avahi_key_is_pattern k then Crash else Ret (index_list sc (cindex c) k))"

text \<open>
  \<open>avahi_cache_walk\<close> calls the callback for the entries that match until it returns something.
  The successor of an entry is read before the call; the callbacks do not change the lists. They
  work on a state that contains the cache: \<open>get\<close> is the cache in it.
\<close>

fun walk_loop ::
  "('s \<Rightarrow> cache) \<Rightarrow> (cache \<Rightarrow> nat \<Rightarrow> bool res) \<Rightarrow> ('s \<Rightarrow> nat \<Rightarrow> ('s \<times> 'a option) res) \<Rightarrow> nat list \<Rightarrow> 's \<Rightarrow>
   ('s \<times> 'a option) res" where
  "walk_loop get select cb [] s = Ret (s, None)"
| "walk_loop get select cb (i # is) s =
     res_bind (select (get s) i) (\<lambda>b.
       if b then
         res_bind (cb s i) (\<lambda>(s', ret). case ret of None \<Rightarrow> walk_loop get select cb is s' | Some x \<Rightarrow> Ret (s', Some x))
       else walk_loop get select cb is s)"

definition avahi_cache_walk ::
  "bool \<Rightarrow> ('s \<Rightarrow> cache) \<Rightarrow> 's \<Rightarrow> key \<Rightarrow> ('s \<Rightarrow> nat \<Rightarrow> ('s \<times> 'a option) res) \<Rightarrow> ('s \<times> 'a option) res" where
  "avahi_cache_walk sc get s pattern cb =
     (if avahi_key_is_pattern pattern then
        walk_loop get (\<lambda>c i. avahi_key_pattern_match pattern (entry_key c i)) cb (centries (get s)) s
      else
        res_bind (lookup_key sc (get s) pattern) (\<lambda>l. walk_loop get (\<lambda>c i. Ret True) cb l s))"

definition lookup_record_callback :: "rr \<Rightarrow> cache \<Rightarrow> nat \<Rightarrow> (cache \<times> nat option) res" where
  "lookup_record_callback r c i =
     (case cstore c i of
        None \<Rightarrow> Crash
      | Some e \<Rightarrow> res_map (\<lambda>eq. (c, if eq then Some i else None)) (avahi_record_equal_no_ttl (crecord e) r))"

definition lookup_record :: "bool \<Rightarrow> cache \<Rightarrow> rr \<Rightarrow> nat option res" where
  "lookup_record sc c r = res_map snd (avahi_cache_walk sc (\<lambda>c. c) c (rkey r) (lookup_record_callback r))"

section \<open>Expiry\<close>

definition update_time_event :: "centry \<Rightarrow> centry" where
  "update_time_event e = e\<lparr>time_event := Some (expiry e)\<rparr>"

text \<open>\<open>next_expiry\<close>: \<open>percent\<close> of the TTL after the timestamp, plus up to 2 percent.\<close>

definition expiry_usec :: "u32 \<Rightarrow> int \<Rightarrow> int \<Rightarrow> int" where
  "expiry_usec t percent rnd =
     (let usec = uint t * 10000; left = usec * percent; right = usec * (percent + 2)
      in left + (right - left) * rnd div (RAND_MAX + 1))"

definition next_expiry :: "timeval \<Rightarrow> int \<Rightarrow> cache \<Rightarrow> nat \<Rightarrow> int \<Rightarrow> cache res" where
  "next_expiry now rnd c i percent =
     (case cstore c i of
        None \<Rightarrow> Crash
      | Some e \<Rightarrow>
          if \<not> (0 < percent \<and> percent \<le> 100) then Crash
          else
            let c' = (if clast_rand_timestamp c + 10 \<le> tv_sec now
                      then c\<lparr>clast_rand := rnd, clast_rand_timestamp := tv_sec now\<rparr> else c);
                usec = expiry_usec (ttl (crecord e)) percent (clast_rand c');
                e' = e\<lparr>expiry := avahi_timeval_add (ctimestamp e) usec\<rparr>
            in Ret (set_entry i (update_time_event e') c'))"

definition expire_in_one_second :: "timeval \<Rightarrow> cache \<Rightarrow> nat \<Rightarrow> cache_state \<Rightarrow> cache res" where
  "expire_in_one_second now c i s =
     (case cstore c i of
        None \<Rightarrow> Crash
      | Some e \<Rightarrow>
          Ret (set_entry i (update_time_event (e\<lparr>cstate := s, expiry := avahi_timeval_add now 1000000\<rparr>)) c))"

text \<open>
  \<open>elapse_func\<close>: the time event of an entry. \<open>shall_refresh\<close> is
  \<open>avahi_querier_shall_refresh_cache\<close> for the interface of the cache.
\<close>

definition elapse_func ::
  "bool \<Rightarrow> timeval \<Rightarrow> int \<Rightarrow> (key \<Rightarrow> bool) \<Rightarrow> cache \<Rightarrow> nat \<Rightarrow> cache res" where
  "elapse_func sc now rnd shall_refresh c i =
     (case cstore c i of
        None \<Rightarrow> Crash
      | Some e \<Rightarrow>
          let again = (\<lambda>s percent.
                let k = rkey (crecord e);
                    c' = set_entry i (e\<lparr>cstate := s\<rparr>) c;
                    c'' = (if shall_refresh k then send_out (Post_query k) c' else c')
                in next_expiry now rnd c'' i percent)
          in (case cstate e of
                CACHE_EXPIRY_FINAL \<Rightarrow> remove_entry sc c i
              | CACHE_POOF_FINAL \<Rightarrow> remove_entry sc c i
              | CACHE_GOODBYE_FINAL \<Rightarrow> remove_entry sc c i
              | CACHE_REPLACE_FINAL \<Rightarrow> remove_entry sc c i
              | CACHE_VALID \<Rightarrow> again CACHE_EXPIRY1 85
              | CACHE_POOF \<Rightarrow> again CACHE_EXPIRY1 85
              | CACHE_EXPIRY1 \<Rightarrow> again CACHE_EXPIRY2 90
              | CACHE_EXPIRY2 \<Rightarrow> again CACHE_EXPIRY3 95
              | CACHE_EXPIRY3 \<Rightarrow> again CACHE_EXPIRY_FINAL 100))"

section \<open>Records that arrive\<close>

text \<open>With the cache flush bit, entries of the key older than one second go.\<close>

fun flush_loop :: "timeval \<Rightarrow> nat list \<Rightarrow> cache \<Rightarrow> cache res" where
  "flush_loop now [] c = Ret c"
| "flush_loop now (i # is) c =
     (case cstore c i of
        None \<Rightarrow> Crash
      | Some e \<Rightarrow>
          if 1000000 < avahi_timeval_diff now (ctimestamp e)
          then res_bind (expire_in_one_second now c i CACHE_REPLACE_FINAL) (flush_loop now is)
          else flush_loop now is c)"

fun find_equal :: "cache \<Rightarrow> rr \<Rightarrow> nat list \<Rightarrow> nat option res" where
  "find_equal c r [] = Ret None"
| "find_equal c r (i # is) =
     (case cstore c i of
        None \<Rightarrow> Crash
      | Some e \<Rightarrow>
          res_bind (avahi_record_equal_no_ttl (crecord e) r) (\<lambda>eq. if eq then Ret (Some i) else find_equal c r is))"

text \<open>
  A new entry: the fields the code sets later or never reads before setting them start with
  arbitrary values in memory, here with those of the arguments.
\<close>

definition new_centry :: "bool \<Rightarrow> timeval \<Rightarrow> address \<Rightarrow> cache \<Rightarrow> rr \<Rightarrow> cache" where
  "new_centry sc now a c r =
     (let i = cnext c;
          e = \<lparr>crecord = r, ctimestamp = now, poof_timestamp = now, expiry = now, cache_flush = False, poof_num = 0,
               origin = a, cstate = CACHE_VALID, time_event = None, poof_address = a\<rparr>
      in send_out (Lookup_new r)
           (c\<lparr>cstore := (cstore c)(i \<mapsto> e), cindex := index_prepend sc (cindex c) (rkey r) i,
              centries := i # centries c, n_entries := n_entries c + 1, cnext := Suc i\<rparr>))"

text \<open>What is done at the end for the entry found or made.\<close>

definition refresh_entry :: "timeval \<Rightarrow> int \<Rightarrow> bool \<Rightarrow> address \<Rightarrow> cache \<Rightarrow> nat \<Rightarrow> cache res" where
  "refresh_entry now rnd flush a c i =
     (case cstore c i of
        None \<Rightarrow> Crash
      | Some e \<Rightarrow>
          res_bind (next_expiry now rnd (set_entry i (e\<lparr>origin := a, ctimestamp := now\<rparr>) c) i 80) (\<lambda>c'.
            case cstore c' i of
              None \<Rightarrow> Crash
            | Some e' \<Rightarrow> Ret (set_entry i (e'\<lparr>cstate := CACHE_VALID, cache_flush := flush\<rparr>) c')))"

definition replace_record :: "bool \<Rightarrow> cache \<Rightarrow> nat list \<Rightarrow> nat \<Rightarrow> rr \<Rightarrow> cache res" where
  "replace_record sc c l i r =
     (case cstore c i of
        None \<Rightarrow> Crash
      | Some e \<Rightarrow>
          let idx = (if hd l = i
                     then fst (avahi_hashmap_replace (key_hash_func sc) key_equal_func (cindex c) (rkey r) l)
                     else cindex c)
          in Ret (set_entry i (e\<lparr>crecord := r\<rparr>) (c\<lparr>cindex := idx\<rparr>)))"

definition avahi_cache_update ::
  "bool \<Rightarrow> nat \<Rightarrow> timeval \<Rightarrow> int \<Rightarrow> cache \<Rightarrow> rr \<Rightarrow> bool \<Rightarrow> address \<Rightarrow> cache res" where
  "avahi_cache_update sc n_cache_entries_max now rnd c r flush a =
     (if ttl r = 0 then
        res_bind (lookup_record sc c r) (\<lambda>e.
          case e of None \<Rightarrow> Ret c | Some i \<Rightarrow> expire_in_one_second now c i CACHE_GOODBYE_FINAL)
      else
        res_bind (lookup_key sc c (rkey r)) (\<lambda>l.
        res_bind (if l \<noteq> [] \<and> flush then flush_loop now l c else Ret c) (\<lambda>c.
        res_bind (find_equal c r l) (\<lambda>e.
          case e of
            Some i \<Rightarrow> res_bind (replace_record sc c l i r) (\<lambda>c. refresh_entry now rnd flush a c i)
          | None \<Rightarrow>
              if n_cache_entries_max \<le> n_entries c then Ret c
              else refresh_entry now rnd flush a (new_centry sc now a c r) (cnext c)))))"

section \<open>Flushing, age, passive observation of failure\<close>

text \<open>The loop of \<open>avahi_cache_flush\<close>; \<open>n\<close> bounds its rounds.\<close>

fun cache_flush_loop :: "bool \<Rightarrow> nat \<Rightarrow> cache \<Rightarrow> cache res" where
  "cache_flush_loop sc 0 c = (if centries c = [] then Ret c else Crash)"
| "cache_flush_loop sc (Suc n) c =
     (case centries c of [] \<Rightarrow> Ret c | i # _ \<Rightarrow> res_bind (remove_entry sc c i) (cache_flush_loop sc n))"

definition avahi_cache_flush :: "bool \<Rightarrow> cache \<Rightarrow> cache res" where
  "avahi_cache_flush sc c = cache_flush_loop sc (length (centries c)) c"

definition avahi_cache_entry_half_ttl :: "timeval \<Rightarrow> centry \<Rightarrow> bool" where
  "avahi_cache_entry_half_ttl now e =
     (let age = (word_of_int (avahi_timeval_diff now (ctimestamp e) sdiv 1000000) :: u32)
      in ttl (crecord e) div 2 \<le> age)"

definition start_poof_callback :: "timeval \<Rightarrow> address \<Rightarrow> cache \<Rightarrow> nat \<Rightarrow> (cache \<times> unit option) res" where
  "start_poof_callback now a c i =
     (case cstore c i of
        None \<Rightarrow> Crash
      | Some e \<Rightarrow>
          (case cstate e of
             CACHE_VALID \<Rightarrow>
               Ret (set_entry i (e\<lparr>cstate := CACHE_POOF, poof_address := a, poof_timestamp := now, poof_num := 0\<rparr>) c, None)
           | CACHE_POOF \<Rightarrow>
               if avahi_timeval_diff now (poof_timestamp e) < 1000000 then Ret (c, None)
               else
                 let n = poof_num e + 1;
                     c' = set_entry i (e\<lparr>poof_timestamp := now, poof_address := a, poof_num := n\<rparr>) c
                 in if 3 < n then res_map (\<lambda>c. (c, None)) (expire_in_one_second now c' i CACHE_POOF_FINAL)
                    else Ret (c', None)
           | _ \<Rightarrow> Ret (c, None)))"

definition avahi_cache_start_poof :: "bool \<Rightarrow> timeval \<Rightarrow> cache \<Rightarrow> key \<Rightarrow> address \<Rightarrow> cache res" where
  "avahi_cache_start_poof sc now c k a = res_map fst (avahi_cache_walk sc (\<lambda>c. c) c k (start_poof_callback now a))"

definition avahi_cache_stop_poof :: "bool \<Rightarrow> timeval \<Rightarrow> int \<Rightarrow> cache \<Rightarrow> rr \<Rightarrow> address \<Rightarrow> cache res" where
  "avahi_cache_stop_poof sc now rnd c r a =
     res_bind (lookup_record sc c r) (\<lambda>x.
       case x of
         None \<Rightarrow> Ret c
       | Some i \<Rightarrow>
           (case cstore c i of
              None \<Rightarrow> Crash
            | Some e \<Rightarrow>
                if (cstate e = CACHE_POOF \<or> cstate e = CACHE_POOF_FINAL) \<and> avahi_address_cmp a (poof_address e) = 0
                then next_expiry now rnd (set_entry i (e\<lparr>cstate := CACHE_VALID\<rparr>) c) i 80
                else Ret c))"

end
