(* ===== verification/Cache_Inv.thy ===== *)
theory Cache_Inv
  imports Cache
begin

text \<open>
  The invariant of the cache, that every operation keeps it and does not crash, and what the
  operations do. \<open>Cache_Properties\<close> states the properties.
\<close>

section \<open>The invariant\<close>

definition entry_keys :: "cache \<Rightarrow> nat \<rightharpoonup> key" where
  "entry_keys c i = map_option (\<lambda>e. rkey (crecord e)) (cstore c i)"

text \<open>
  When the time event of an entry fires, in hundredths of its TTL after its timestamp, by its
  state. The four final states that follow a failure, a goodbye or a replacement have their
  time event a second after that happened.
\<close>

fun expiry_percent :: "cache_state \<Rightarrow> int option" where
  "expiry_percent CACHE_VALID = Some 80"
| "expiry_percent CACHE_POOF = Some 80"
| "expiry_percent CACHE_EXPIRY1 = Some 85"
| "expiry_percent CACHE_EXPIRY2 = Some 90"
| "expiry_percent CACHE_EXPIRY3 = Some 95"
| "expiry_percent CACHE_EXPIRY_FINAL = Some 100"
| "expiry_percent _ = None"

definition expiry_ok :: "centry \<Rightarrow> bool" where
  "expiry_ok e \<longleftrightarrow>
     (case expiry_percent (cstate e) of
        None \<Rightarrow> True
      | Some p \<Rightarrow>
          usec_of (ctimestamp e) + p * (uint (ttl (crecord e)) * 10000) \<le> usec_of (expiry e) \<and>
          usec_of (expiry e) \<le> usec_of (ctimestamp e) + (p + 2) * (uint (ttl (crecord e)) * 10000))"

definition centry_ok :: "centry \<Rightarrow> bool" where
  "centry_ok e \<longleftrightarrow> rr_ok (crecord e) \<and> ttl (crecord e) \<noteq> 0 \<and> \<not> avahi_key_is_pattern (rkey (crecord e)) \<and>
     time_event e = Some (expiry e) \<and> expiry_ok e"

definition cache_inv :: "bool \<Rightarrow> nat \<Rightarrow> cache \<Rightarrow> bool" where
  "cache_inv sc n c \<longleftrightarrow>
     index_ok sc (cindex c) (entry_keys c) \<and>
     distinct (centries c) \<and> set (centries c) = dom (cstore c) \<and>
     n_entries c = length (centries c) \<and> n_entries c \<le> n \<and>
     (\<forall>i \<in> dom (cstore c). i < cnext c) \<and>
     (\<forall>i e. cstore c i = Some e \<longrightarrow> centry_ok e) \<and>
     (\<forall>i j e f. cstore c i = Some e \<longrightarrow> cstore c j = Some f \<longrightarrow> rr_abs (crecord e) = rr_abs (crecord f) \<longrightarrow> i = j) \<and>
     rand_ok (clast_rand c)"

lemma cache_inv_new: "rand_ok r \<Longrightarrow> cache_inv sc n (avahi_cache_new r)"
proof -
  have "entry_keys (avahi_cache_new r) = Map.empty"
    by (rule ext) (simp add: entry_keys_def avahi_cache_new_def)
  then show "rand_ok r \<Longrightarrow> cache_inv sc n (avahi_cache_new r)"
    by (simp add: cache_inv_def avahi_cache_new_def index_ok_new)
qed

lemma cache_inv_entry: "cache_inv sc n c \<Longrightarrow> cstore c i = Some e \<Longrightarrow> centry_ok e"
  by (simp add: cache_inv_def)

lemma cache_inv_index: "cache_inv sc n c \<Longrightarrow> index_ok sc (cindex c) (entry_keys c)"
  by (simp add: cache_inv_def)

lemma entry_keys_Some: "entry_keys c i = Some k \<longleftrightarrow> (\<exists>e. cstore c i = Some e \<and> rkey (crecord e) = k)"
  by (auto simp: entry_keys_def)

lemma rr_abs_key: "rr_abs a = rr_abs b \<Longrightarrow> key_abs (rkey a) = key_abs (rkey b)"
  by (simp add: rr_abs_def)

section \<open>Changing one entry\<close>

lemma set_entry_simps [simp]:
  "cstore (set_entry i e c) = (cstore c)(i \<mapsto> e)" "cindex (set_entry i e c) = cindex c"
  "centries (set_entry i e c) = centries c" "n_entries (set_entry i e c) = n_entries c"
  "clast_rand (set_entry i e c) = clast_rand c" "clast_rand_timestamp (set_entry i e c) = clast_rand_timestamp c"
  "cnext (set_entry i e c) = cnext c" "outbox (set_entry i e c) = outbox c"
  "set_entry i e (set_entry i e' c) = set_entry i e c"
  by (simp_all add: set_entry_def)

lemma send_out_simps [simp]:
  "cstore (send_out x c) = cstore c" "cindex (send_out x c) = cindex c"
  "centries (send_out x c) = centries c" "n_entries (send_out x c) = n_entries c"
  "clast_rand (send_out x c) = clast_rand c" "clast_rand_timestamp (send_out x c) = clast_rand_timestamp c"
  "cnext (send_out x c) = cnext c"
  by (simp_all add: send_out_def)

lemma send_out_set_entry: "send_out x (set_entry i e c) = set_entry i e (send_out x c)"
  by (simp add: send_out_def set_entry_def)

text \<open>The new random number of \<open>next_expiry\<close>, and what it makes of the entry.\<close>

definition draw_cache :: "timeval \<Rightarrow> int \<Rightarrow> cache \<Rightarrow> cache" where
  "draw_cache now rnd c =
     (if clast_rand_timestamp c + 10 \<le> tv_sec now then c\<lparr>clast_rand := rnd, clast_rand_timestamp := tv_sec now\<rparr> else c)"

definition scheduled :: "int \<Rightarrow> centry \<Rightarrow> centry" where
  "scheduled u e = e\<lparr>expiry := avahi_timeval_add (ctimestamp e) u, time_event := Some (avahi_timeval_add (ctimestamp e) u)\<rparr>"

lemma draw_cache_simps [simp]:
  "cstore (draw_cache now rnd c) = cstore c" "cindex (draw_cache now rnd c) = cindex c"
  "centries (draw_cache now rnd c) = centries c" "n_entries (draw_cache now rnd c) = n_entries c"
  "cnext (draw_cache now rnd c) = cnext c" "outbox (draw_cache now rnd c) = outbox c"
  by (simp_all add: draw_cache_def)

lemma scheduled_simps [simp]:
  "crecord (scheduled u e) = crecord e" "cstate (scheduled u e) = cstate e" "ctimestamp (scheduled u e) = ctimestamp e"
  "expiry (scheduled u e) = avahi_timeval_add (ctimestamp e) u"
  "time_event (scheduled u e) = Some (avahi_timeval_add (ctimestamp e) u)"
  by (simp_all add: scheduled_def)

lemma next_expiry_set_entry:
  assumes "0 < p" "p \<le> 100"
  shows "next_expiry now rnd (set_entry i e c) i p =
    Ret (set_entry i (scheduled (expiry_usec (ttl (crecord e)) p (clast_rand (draw_cache now rnd c))) e) (draw_cache now rnd c))"
  using assms by (auto simp: next_expiry_def Let_def draw_cache_def set_entry_def update_time_event_def scheduled_def)

lemma rand_ok_draw: "rand_ok (clast_rand c) \<Longrightarrow> rand_ok rnd \<Longrightarrow> rand_ok (clast_rand (draw_cache now rnd c))"
  by (simp add: draw_cache_def)

lemma expiry_usec_bounds:
  assumes "rand_ok r"
  shows "p * (uint t * 10000) \<le> expiry_usec t p r" "expiry_usec t p r \<le> (p + 2) * (uint t * 10000)"
proof -
  let ?u = "uint t * 10000 :: int"
  have d: "?u * (p + 2) - ?u * p = 2 * ?u" by (simp add: algebra_simps)
  have u: "0 \<le> ?u" by simp
  have r: "0 \<le> r" "r < RAND_MAX + 1" using assms by (simp_all add: rand_ok_def)
  have "0 \<le> 2 * ?u * r div (RAND_MAX + 1)"
    using u r by (intro pos_imp_zdiv_nonneg_iff [THEN iffD2] mult_nonneg_nonneg) (simp_all add: RAND_MAX_def)
  moreover have "2 * ?u * r div (RAND_MAX + 1) \<le> 2 * ?u"
  proof -
    have "2 * ?u * r \<le> 2 * ?u * (RAND_MAX + 1)" using u r by (intro mult_left_mono) simp_all
    then have "2 * ?u * r div (RAND_MAX + 1) \<le> 2 * ?u * (RAND_MAX + 1) div (RAND_MAX + 1)"
      by (intro zdiv_mono1) (simp_all add: RAND_MAX_def)
    then show ?thesis by (simp add: RAND_MAX_def)
  qed
  ultimately show "p * ?u \<le> expiry_usec t p r" "expiry_usec t p r \<le> (p + 2) * ?u"
    by (simp_all add: expiry_usec_def Let_def d algebra_simps)
qed

lemma scheduled_ok:
  assumes "rand_ok r" "expiry_percent (cstate e) = Some p" "rr_ok (crecord e)" "ttl (crecord e) \<noteq> 0"
    "\<not> avahi_key_is_pattern (rkey (crecord e))"
  shows "centry_ok (scheduled (expiry_usec (ttl (crecord e)) p r) e)"
  using assms expiry_usec_bounds [OF assms(1), where p = p and t = "ttl (crecord e)"]
  by (simp add: centry_ok_def expiry_ok_def usec_of_add)

lemma cache_inv_set_entry:
  assumes "cache_inv sc n c" "cstore c i = Some e" "centry_ok e'" "crecord e' = crecord e"
  shows "cache_inv sc n (set_entry i e' c)"
proof -
  have "entry_keys (set_entry i e' c) = entry_keys c"
    using assms(2,4) by (auto simp: entry_keys_def)
  moreover have "set (centries c) = insert i (dom (cstore c))"
    using assms(1,2) by (auto simp: cache_inv_def)
  ultimately show ?thesis
    using assms unfolding cache_inv_def
    by (auto split: if_splits)
qed

lemma cache_inv_draw: "cache_inv sc n c \<Longrightarrow> rand_ok rnd \<Longrightarrow> cache_inv sc n (draw_cache now rnd c)"
  by (simp add: cache_inv_def entry_keys_def [abs_def] rand_ok_draw)

lemma cache_inv_send: "cache_inv sc n (send_out x c) = cache_inv sc n c"
  by (simp add: cache_inv_def entry_keys_def [abs_def])

section \<open>Removing an entry\<close>

definition removed :: "nat \<Rightarrow> cache \<Rightarrow> cache \<Rightarrow> bool" where
  "removed i c c' \<longleftrightarrow> cstore c' = (cstore c)(i := None) \<and> centries c' = remove1 i (centries c) \<and>
     outbox c' = outbox c @ [Lookup_remove (crecord (the (cstore c i)))]"

lemma remove_entry_ok:
  assumes "cache_inv sc n c" "cstore c i = Some e"
  shows "\<exists>c'. remove_entry sc c i = Ret c' \<and> cache_inv sc n c' \<and> removed i c c'"
proof -
  have "entry_keys c i = Some (rkey (crecord e))" using assms(2) by (simp add: entry_keys_def)
  moreover have "\<And>j k. entry_keys c j = Some k \<Longrightarrow> entry_key c j = k" by (auto simp: entry_keys_Some entry_key_def)
  ultimately obtain idx where idx: "index_remove sc (cindex c) (entry_key c) (rkey (crecord e)) i = Ret idx"
    "index_ok sc idx ((entry_keys c)(i := None))"
    using index_remove_ok [OF cache_inv_index [OF assms(1)]] by blast
  have mem: "i \<in> set (centries c)" "distinct (centries c)" "set (centries c) = dom (cstore c)"
    using assms by (auto simp: cache_inv_def)
  then have pos: "0 < n_entries c" using assms(1) by (auto simp: cache_inv_def intro: length_pos_if_in_set)
  let ?c = "c\<lparr>cindex := idx, centries := remove1 i (centries c), cstore := (cstore c)(i := None), n_entries := n_entries c - 1\<rparr>"
  have "entry_keys ?c = (entry_keys c)(i := None)" by (auto simp: entry_keys_def)
  moreover have "set (remove1 i (centries c)) = dom ((cstore c)(i := None))"
    using mem by (auto simp: set_remove1_eq)
  moreover have "n_entries c - 1 = length (remove1 i (centries c))"
    using mem assms(1) by (simp add: cache_inv_def length_remove1)
  ultimately have "cache_inv sc n ?c"
    using assms(1) idx(2) mem(2) unfolding cache_inv_def by (auto split: if_splits)
  moreover have "remove_entry sc c i = Ret (send_out (Lookup_remove (crecord e)) ?c)"
    using assms(2) idx(1) pos by (simp add: remove_entry_def)
  moreover have "removed i c (send_out (Lookup_remove (crecord e)) ?c)"
    using assms(2) by (simp add: removed_def send_out_def)
  ultimately show ?thesis using cache_inv_send by blast
qed

section \<open>Finding an entry\<close>

lemma centry_okD:
  "centry_ok e \<Longrightarrow> rr_ok (crecord e) \<and> ttl (crecord e) \<noteq> 0 \<and> \<not> avahi_key_is_pattern (rkey (crecord e)) \<and>
     time_event e = Some (expiry e) \<and> expiry_ok e"
  by (simp add: centry_ok_def)

lemma rr_ok_key: "rr_ok r \<Longrightarrow> key_ok (rkey r)"
  by (simp add: rr_ok_def)

text \<open>The entries with a given key.\<close>

lemma index_list_cache:
  assumes "cache_inv sc n c" "key_ok k"
  shows "set (index_list sc (cindex c) k) = {i. \<exists>e. cstore c i = Some e \<and> key_abs (rkey (crecord e)) = key_abs k}"
    and "distinct (index_list sc (cindex c) k)"
  using index_list_set [OF cache_inv_index [OF assms(1)] assms(2)]
    index_list_distinct [OF cache_inv_index [OF assms(1)] assms(2)]
  by (auto simp: entry_keys_Some)

text \<open>The result of a search for a record.\<close>

definition finds :: "cache \<Rightarrow> rr \<Rightarrow> nat option \<Rightarrow> bool" where
  "finds c r x \<longleftrightarrow>
     (case x of
        None \<Rightarrow> \<forall>i e. cstore c i = Some e \<longrightarrow> rr_abs (crecord e) \<noteq> rr_abs r
      | Some i \<Rightarrow> \<exists>e. cstore c i = Some e \<and> rr_abs (crecord e) = rr_abs r)"

lemma walk_lookup:
  assumes "rr_ok r" "\<And>i. i \<in> set l \<Longrightarrow> \<exists>e. cstore c i = Some e \<and> rr_ok (crecord e) \<and> select c i = Ret (P e)"
  shows "\<exists>x. walk_loop (\<lambda>c. c) select (lookup_record_callback r) l c = Ret (c, x) \<and>
    (case x of
       None \<Rightarrow> \<forall>i \<in> set l. \<forall>e. cstore c i = Some e \<longrightarrow> P e \<longrightarrow> rr_abs (crecord e) \<noteq> rr_abs r
     | Some i \<Rightarrow> \<exists>e. i \<in> set l \<and> cstore c i = Some e \<and> rr_abs (crecord e) = rr_abs r)"
  using assms(2)
proof (induction l)
  case (Cons i l)
  then obtain e where e: "cstore c i = Some e" "rr_ok (crecord e)" "select c i = Ret (P e)" by auto
  have cb: "lookup_record_callback r c i = Ret (c, if rr_abs (crecord e) = rr_abs r then Some i else None)"
    using e assms(1) by (simp add: lookup_record_callback_def record_equal_abs)
  from Cons obtain x where x: "walk_loop (\<lambda>c. c) select (lookup_record_callback r) l c = Ret (c, x)"
    "case x of
       None \<Rightarrow> \<forall>i \<in> set l. \<forall>e. cstore c i = Some e \<longrightarrow> P e \<longrightarrow> rr_abs (crecord e) \<noteq> rr_abs r
     | Some i \<Rightarrow> \<exists>e. i \<in> set l \<and> cstore c i = Some e \<and> rr_abs (crecord e) = rr_abs r" by auto
  show ?case
  proof (cases "P e \<and> rr_abs (crecord e) = rr_abs r")
    case True
    with e cb show ?thesis by auto
  next
    case False
    with e cb have "walk_loop (\<lambda>c. c) select (lookup_record_callback r) (i # l) c = Ret (c, x)" using x(1) by auto
    with x(2) e False show ?thesis by (auto split: option.splits)
  qed
qed auto

lemma lookup_record_ok:
  assumes "cache_inv sc n c" "rr_ok r"
  shows "\<exists>x. lookup_record sc c r = Ret x \<and> finds c r x"
proof (cases "avahi_key_is_pattern (rkey r)")
  case True
  have mem: "\<exists>e. cstore c i = Some e \<and> rr_ok (crecord e) \<and>
      avahi_key_pattern_match (rkey r) (entry_key c i) =
        Ret (folded (name (rkey r)) = folded (name (rkey (crecord e))) \<and>
          (ktype (rkey r) = ktype (rkey (crecord e)) \<or> ktype (rkey r) = AVAHI_DNS_TYPE_ANY) \<and>
          (clazz (rkey r) = clazz (rkey (crecord e)) \<or> clazz (rkey r) = AVAHI_DNS_CLASS_ANY))"
    if "i \<in> set (centries c)" for i
  proof -
    from that assms(1) obtain e where e: "cstore c i = Some e" "centry_ok e" by (auto simp: cache_inv_def)
    with assms(2) show ?thesis
      by (auto simp: avahi_key_pattern_match_def entry_key_def centry_ok_def rr_ok_def key_ok_def domain_equal_folded)
  qed
  have no: "rr_abs (crecord e) \<noteq> rr_abs r" if "cstore c i = Some e" for i e
  proof
    assume "rr_abs (crecord e) = rr_abs r"
    then have "key_abs (rkey (crecord e)) = key_abs (rkey r)" by (rule rr_abs_key)
    then show False
      using True cache_inv_entry [OF assms(1) that] by (auto simp: key_abs_def centry_ok_def avahi_key_is_pattern_def)
  qed
  from walk_lookup [OF assms(2), of "centries c" c "\<lambda>c i. avahi_key_pattern_match (rkey r) (entry_key c i)", OF mem]
  obtain x where x: "walk_loop (\<lambda>c. c) (\<lambda>c i. avahi_key_pattern_match (rkey r) (entry_key c i)) (lookup_record_callback r) (centries c) c = Ret (c, x)"
    "\<forall>i. x = Some i \<longrightarrow> (\<exists>e. cstore c i = Some e \<and> rr_abs (crecord e) = rr_abs r)"
    by (auto split: option.splits)
  with no have "x = None" by (cases x) auto
  with x no True show ?thesis by (auto simp: lookup_record_def avahi_cache_walk_def finds_def)
next
  case False
  note l = index_list_cache [OF assms(1) rr_ok_key [OF assms(2)]]
  have mem: "\<exists>e. cstore c i = Some e \<and> rr_ok (crecord e) \<and> (\<lambda>c i. Ret True) c i = Ret True"
    if "i \<in> set (index_list sc (cindex c) (rkey r))" for i
    using that l(1) cache_inv_entry [OF assms(1)] by (auto simp: centry_ok_def)
  from walk_lookup [OF assms(2), of "index_list sc (cindex c) (rkey r)" c "\<lambda>c i. Ret True" "\<lambda>_. True", OF mem]
  obtain x where x: "walk_loop (\<lambda>c. c) (\<lambda>c i. Ret True) (lookup_record_callback r) (index_list sc (cindex c) (rkey r)) c = Ret (c, x)"
    "case x of
       None \<Rightarrow> \<forall>i \<in> set (index_list sc (cindex c) (rkey r)). \<forall>e. cstore c i = Some e \<longrightarrow> True \<longrightarrow> rr_abs (crecord e) \<noteq> rr_abs r
     | Some i \<Rightarrow> \<exists>e. i \<in> set (index_list sc (cindex c) (rkey r)) \<and> cstore c i = Some e \<and> rr_abs (crecord e) = rr_abs r"
    by blast
  have "finds c r x"
  proof (cases x)
    case None
    with x(2) have "rr_abs (crecord e) \<noteq> rr_abs r" if "cstore c i = Some e" for i e
      using that l(1) rr_abs_key [of "crecord e" r] by auto
    with None show ?thesis by (simp add: finds_def)
  next
    case (Some i)
    with x(2) show ?thesis by (auto simp: finds_def)
  qed
  with x(1) False show ?thesis by (simp add: lookup_record_def avahi_cache_walk_def lookup_key_def)
qed

lemma find_equal_ok:
  assumes "rr_ok r" "\<forall>i \<in> set l. \<exists>e. cstore c i = Some e \<and> rr_ok (crecord e)"
  shows "\<exists>x. find_equal c r l = Ret x \<and>
    (case x of
       None \<Rightarrow> \<forall>i \<in> set l. \<forall>e. cstore c i = Some e \<longrightarrow> rr_abs (crecord e) \<noteq> rr_abs r
     | Some i \<Rightarrow> i \<in> set l \<and> (\<exists>e. cstore c i = Some e \<and> rr_abs (crecord e) = rr_abs r))"
  using assms(2)
proof (induction l)
  case (Cons i l)
  then obtain e where e: "cstore c i = Some e" "rr_ok (crecord e)" by auto
  with Cons assms(1) show ?case
    by (cases "rr_abs (crecord e) = rr_abs r") (auto simp: record_equal_abs split: option.splits)
qed simp

lemma find_equal_finds:
  assumes "cache_inv sc n c" "rr_ok r"
  shows "\<exists>x. find_equal c r (index_list sc (cindex c) (rkey r)) = Ret x \<and> finds c r x"
proof -
  note l = index_list_cache [OF assms(1) rr_ok_key [OF assms(2)]]
  have "\<forall>i \<in> set (index_list sc (cindex c) (rkey r)). \<exists>e. cstore c i = Some e \<and> rr_ok (crecord e)"
    using l(1) cache_inv_entry [OF assms(1)] by (auto simp: centry_ok_def)
  from find_equal_ok [OF assms(2) this] obtain x where x: "find_equal c r (index_list sc (cindex c) (rkey r)) = Ret x"
    "case x of
       None \<Rightarrow> \<forall>i \<in> set (index_list sc (cindex c) (rkey r)). \<forall>e. cstore c i = Some e \<longrightarrow> rr_abs (crecord e) \<noteq> rr_abs r
     | Some i \<Rightarrow> i \<in> set (index_list sc (cindex c) (rkey r)) \<and> (\<exists>e. cstore c i = Some e \<and> rr_abs (crecord e) = rr_abs r)"
    by auto
  have "finds c r x"
  proof (cases x)
    case None
    with x(2) have "rr_abs (crecord e) \<noteq> rr_abs r" if "cstore c i = Some e" for i e
      using that l(1) rr_abs_key [of "crecord e" r] by auto
    with None show ?thesis by (simp add: finds_def)
  next
    case (Some i)
    with x(2) show ?thesis by (auto simp: finds_def)
  qed
  with x(1) show ?thesis by simp
qed

section \<open>Updates\<close>

text \<open>What the cache flush bit does to an entry older than one second.\<close>

definition expired_by :: "timeval \<Rightarrow> cache_state \<Rightarrow> centry \<Rightarrow> centry" where
  "expired_by now s e =
     e\<lparr>cstate := s, expiry := avahi_timeval_add now 1000000, time_event := Some (avahi_timeval_add now 1000000)\<rparr>"

definition flushed :: "timeval \<Rightarrow> centry \<Rightarrow> centry" where
  "flushed now e =
     (if 1000000 < usec_of now - usec_of (ctimestamp e) then expired_by now CACHE_REPLACE_FINAL e else e)"

lemma expired_by_simps [simp]:
  "crecord (expired_by now s e) = crecord e" "cstate (expired_by now s e) = s"
  "ctimestamp (expired_by now s e) = ctimestamp e"
  by (simp_all add: expired_by_def)

lemma flushed_record [simp]: "crecord (flushed now e) = crecord e"
  by (simp add: flushed_def)

lemma expire_in_one_second:
  "cstore c i = Some e \<Longrightarrow> expire_in_one_second now c i s = Ret (set_entry i (expired_by now s e) c)"
  by (simp add: expire_in_one_second_def update_time_event_def expired_by_def)

lemma expired_by_ok: "centry_ok e \<Longrightarrow> expiry_percent s = None \<Longrightarrow> centry_ok (expired_by now s e)"
  by (simp add: centry_ok_def expiry_ok_def expired_by_def)

lemma flushed_ok: "centry_ok e \<Longrightarrow> centry_ok (flushed now e)"
  by (simp add: flushed_def expired_by_ok)

text \<open>Changing several entries without touching their records.\<close>

definition map_entries :: "nat set \<Rightarrow> (centry \<Rightarrow> centry) \<Rightarrow> cache \<Rightarrow> cache" where
  "map_entries S f c = c\<lparr>cstore := (\<lambda>i. if i \<in> S then map_option f (cstore c i) else cstore c i)\<rparr>"

lemma map_entries_simps [simp]:
  "cstore (map_entries S f c) i = (if i \<in> S then map_option f (cstore c i) else cstore c i)"
  "cindex (map_entries S f c) = cindex c" "centries (map_entries S f c) = centries c"
  "n_entries (map_entries S f c) = n_entries c" "clast_rand (map_entries S f c) = clast_rand c"
  "cnext (map_entries S f c) = cnext c" "outbox (map_entries S f c) = outbox c"
  by (simp_all add: map_entries_def)

lemma cache_inv_map_entries:
  assumes inv: "cache_inv sc n c" and f: "\<And>e. centry_ok e \<Longrightarrow> centry_ok (f e)" "\<And>e. crecord (f e) = crecord e"
  shows "cache_inv sc n (map_entries S f c)"
proof -
  let ?c = "map_entries S f c"
  have keys: "entry_keys ?c = entry_keys c"
    by (rule ext) (simp add: entry_keys_def option.map_comp comp_def f(2))
  have dom: "dom (cstore ?c) = dom (cstore c)"
    by (auto simp: dom_def map_entries_def)
  have ok: "\<forall>i e. cstore ?c i = Some e \<longrightarrow> centry_ok e"
    using inv f(1) by (auto simp: cache_inv_def split: if_splits)
  have old: "\<exists>e'. cstore c i = Some e' \<and> crecord e' = crecord e" if "cstore ?c i = Some e" for i e
    using that f(2) by (auto split: if_splits)
  have uniq: "\<forall>i j e g. cstore ?c i = Some e \<longrightarrow> cstore ?c j = Some g \<longrightarrow> rr_abs (crecord e) = rr_abs (crecord g) \<longrightarrow> i = j"
    using old inv unfolding cache_inv_def by metis
  show ?thesis
    using inv ok uniq unfolding cache_inv_def keys dom map_entries_simps(2-) by (elim conjE) (intro conjI)
qed

lemma flush_loop_ok:
  "\<forall>i \<in> set l. cstore c i \<noteq> None \<Longrightarrow> distinct l \<Longrightarrow> flush_loop now l c = Ret (map_entries (set l) (flushed now) c)"
proof (induction l arbitrary: c)
  case Nil
  show ?case by (simp add: map_entries_def)
next
  case (Cons i l)
  then obtain e where e: "cstore c i = Some e" by auto
  let ?c = "set_entry i (flushed now e) c"
  have "flush_loop now (i # l) c = flush_loop now l ?c"
  proof (cases "1000000 < usec_of now - usec_of (ctimestamp e)")
    case True
    with e show ?thesis by (simp add: timeval_diff expire_in_one_second flushed_def)
  next
    case False
    with e have "?c = c" by (simp add: flushed_def set_entry_def fun_upd_idem)
    with False e show ?thesis by (simp add: timeval_diff)
  qed
  also have "\<dots> = Ret (map_entries (set l) (flushed now) ?c)"
    using Cons by (intro Cons.IH) auto
  also have "map_entries (set l) (flushed now) ?c = map_entries (set (i # l)) (flushed now) c"
    using Cons.prems(2) e by (auto simp: map_entries_def set_entry_def fun_eq_iff)
  finally show ?case .
qed

text \<open>The last step for the entry found or made.\<close>

definition refreshed :: "timeval \<Rightarrow> int \<Rightarrow> bool \<Rightarrow> address \<Rightarrow> cache \<Rightarrow> centry \<Rightarrow> centry" where
  "refreshed now rnd flush a c e =
     (scheduled (expiry_usec (ttl (crecord e)) 80 (clast_rand (draw_cache now rnd c))) (e\<lparr>origin := a, ctimestamp := now\<rparr>))
       \<lparr>cstate := CACHE_VALID, cache_flush := flush\<rparr>"

lemma refresh_entry:
  "cstore c i = Some e \<Longrightarrow>
   refresh_entry now rnd flush a c i = Ret (set_entry i (refreshed now rnd flush a c e) (draw_cache now rnd c))"
  by (simp add: refresh_entry_def next_expiry_set_entry refreshed_def)

lemma refreshed_simps [simp]:
  "crecord (refreshed now rnd flush a c e) = crecord e" "cstate (refreshed now rnd flush a c e) = CACHE_VALID"
  "ctimestamp (refreshed now rnd flush a c e) = now" "origin (refreshed now rnd flush a c e) = a"
  "cache_flush (refreshed now rnd flush a c e) = flush"
  by (simp_all add: refreshed_def scheduled_def)

lemma refreshed_ok:
  assumes "rr_ok (crecord e)" "ttl (crecord e) \<noteq> 0" "\<not> avahi_key_is_pattern (rkey (crecord e))"
    and "rand_ok (clast_rand (draw_cache now rnd c))"
  shows "centry_ok (refreshed now rnd flush a c e)"
  using assms expiry_usec_bounds [OF assms(4), where p = 80 and t = "ttl (crecord e)"]
  by (simp add: refreshed_def scheduled_def centry_ok_def expiry_ok_def usec_of_add)

lemma cache_inv_replace:
  assumes inv: "cache_inv sc n c" and e: "cstore c i = Some e" and same: "rr_abs r = rr_abs (crecord e)"
    and idx: "index_ok sc idx ((entry_keys c)(i \<mapsto> rkey r))" and e': "centry_ok e'" "crecord e' = r"
  shows "cache_inv sc n (set_entry i e' (c\<lparr>cindex := idx\<rparr>))"
proof -
  let ?c = "set_entry i e' (c\<lparr>cindex := idx\<rparr>)"
  have keys: "entry_keys ?c = (entry_keys c)(i \<mapsto> rkey r)"
    using e'(2) by (auto simp: entry_keys_def)
  have dom: "dom (cstore ?c) = dom (cstore c)" using e by auto
  have ok: "\<forall>j f. cstore ?c j = Some f \<longrightarrow> centry_ok f" using inv e'(1) by (simp add: cache_inv_def)
  have old: "\<exists>f'. cstore c j = Some f' \<and> rr_abs (crecord f') = rr_abs (crecord f)" if "cstore ?c j = Some f" for j f
    using that e e'(2) same by (auto split: if_splits)
  have uniq: "\<forall>j k f g. cstore ?c j = Some f \<longrightarrow> cstore ?c k = Some g \<longrightarrow> rr_abs (crecord f) = rr_abs (crecord g) \<longrightarrow> j = k"
    using old inv unfolding cache_inv_def by metis
  have rest: "cindex ?c = idx" "centries ?c = centries c" "n_entries ?c = n_entries c" "cnext ?c = cnext c"
    "clast_rand ?c = clast_rand c" by simp_all
  show ?thesis
    using inv ok uniq idx unfolding cache_inv_def keys dom rest by (elim conjE) (intro conjI)
qed

lemma new_centry_simps [simp]:
  "\<exists>e. cstore (new_centry sc now a c r) = (cstore c)(cnext c \<mapsto> e)"
  "(cstore (new_centry sc now a c r))(cnext c \<mapsto> e') = (cstore c)(cnext c \<mapsto> e')"
  "j \<noteq> cnext c \<Longrightarrow> cstore (new_centry sc now a c r) j = cstore c j"
  by (auto simp: new_centry_def Let_def)

lemma cache_inv_add:
  assumes inv: "cache_inv sc n c" and new: "finds c r None" and room: "n_entries c < n"
    and e': "centry_ok e'" "crecord e' = r"
  shows "cache_inv sc n (set_entry (cnext c) e' (new_centry sc now a c r))"
proof -
  let ?i = "cnext c"
  let ?c = "set_entry ?i e' (new_centry sc now a c r)"
  have free: "cstore c ?i = None" using inv by (auto simp: cache_inv_def)
  have r: "key_ok (rkey r)" using e' by (auto simp: centry_ok_def rr_ok_def)
  have st: "cstore ?c = (cstore c)(?i \<mapsto> e')" by (simp add: new_centry_def Let_def)
  have keys: "entry_keys ?c = (entry_keys c)(?i \<mapsto> rkey r)"
    by (rule ext) (unfold entry_keys_def st, simp add: e'(2))
  have "entry_keys c ?i = None" using free by (simp add: entry_keys_def)
  then have idx: "index_ok sc (index_prepend sc (cindex c) (rkey r) ?i) ((entry_keys c)(?i \<mapsto> rkey r))"
    by (intro index_prepend_ok cache_inv_index [OF inv] r)
  have ok: "\<forall>j f. cstore ?c j = Some f \<longrightarrow> centry_ok f" using inv e'(1) by (simp add: cache_inv_def st)
  have "rr_abs (crecord f) \<noteq> rr_abs (crecord e')" if "cstore c j = Some f" for j f
    using new that e'(2) by (simp add: finds_def)
  then have uniq: "\<forall>j k f g. cstore ?c j = Some f \<longrightarrow> cstore ?c k = Some g \<longrightarrow> rr_abs (crecord f) = rr_abs (crecord g) \<longrightarrow> j = k"
    using inv unfolding cache_inv_def st by (metis fun_upd_apply option.inject)
  have rest: "cindex ?c = index_prepend sc (cindex c) (rkey r) ?i" "centries ?c = ?i # centries c"
    "n_entries ?c = n_entries c + 1" "cnext ?c = Suc (cnext c)" "clast_rand ?c = clast_rand c"
    by (simp_all add: new_centry_def Let_def)
  have list: "distinct (?i # centries c)" "set (?i # centries c) = dom (cstore ?c)"
      "n_entries c + 1 = length (?i # centries c)"
    using inv free by (auto simp: cache_inv_def)
  have bound: "\<forall>j \<in> dom (cstore ?c). j < Suc (cnext c)"
    using inv by (auto simp: cache_inv_def intro: less_SucI)
  have "n_entries c + 1 \<le> n" using room by simp
  with inv ok uniq idx list bound show ?thesis
    unfolding cache_inv_def keys rest by (elim conjE) (intro conjI)
qed

lemma draw_cache_index [simp]: "draw_cache now rnd (c\<lparr>cindex := idx\<rparr>) = (draw_cache now rnd c)\<lparr>cindex := idx\<rparr>"
  "draw_cache now rnd (map_entries S f c) = map_entries S f (draw_cache now rnd c)"
  "draw_cache now rnd (set_entry i e c) = set_entry i e (draw_cache now rnd c)"
  by (simp_all add: draw_cache_def map_entries_def set_entry_def cong: if_cong)

text \<open>
  An update with a record whose TTL is not zero: \<open>c1\<close> is the cache after the flush; the entry
  found there is renewed, or a new one is made when there is room.
\<close>

definition after_flush :: "bool \<Rightarrow> timeval \<Rightarrow> bool \<Rightarrow> rr \<Rightarrow> cache \<Rightarrow> cache" where
  "after_flush sc now flush r c =
     (if flush then map_entries (set (index_list sc (cindex c) (rkey r))) (flushed now) c else c)"

lemma map_entries_empty [simp]: "map_entries {} f c = c"
  by (simp add: map_entries_def)

lemma after_flush_inv: "cache_inv sc n c \<Longrightarrow> cache_inv sc n (after_flush sc now flush r c)"
  by (simp add: after_flush_def cache_inv_map_entries flushed_ok)

lemma after_flush_store:
  assumes "cache_inv sc n c" "rr_ok r"
  shows "cstore (after_flush sc now flush r c) i = map_option
    (\<lambda>e. if flush \<and> key_abs (rkey (crecord e)) = key_abs (rkey r) then flushed now e else e) (cstore c i)"
  using index_list_cache(1) [OF assms(1) rr_ok_key [OF assms(2)]]
  by (cases "cstore c i") (auto simp: after_flush_def)

lemma after_flush_simps [simp]:
  "cindex (after_flush sc now flush r c) = cindex c" "centries (after_flush sc now flush r c) = centries c"
  "n_entries (after_flush sc now flush r c) = n_entries c" "cnext (after_flush sc now flush r c) = cnext c"
  "outbox (after_flush sc now flush r c) = outbox c" "clast_rand (after_flush sc now flush r c) = clast_rand c"
  by (simp_all add: after_flush_def)

lemma update_flush:
  assumes "cache_inv sc n c" "rr_ok r" "ttl r \<noteq> 0" "\<not> avahi_key_is_pattern (rkey r)"
  shows "avahi_cache_update sc nmax now rnd c r flush a =
    res_bind (find_equal (after_flush sc now flush r c) r (index_list sc (cindex c) (rkey r))) (\<lambda>x.
      case x of
        Some i \<Rightarrow> res_bind (replace_record sc (after_flush sc now flush r c) (index_list sc (cindex c) (rkey r)) i r)
          (\<lambda>c. refresh_entry now rnd flush a c i)
      | None \<Rightarrow>
          if nmax \<le> n_entries c then Ret (after_flush sc now flush r c)
          else refresh_entry now rnd flush a (new_centry sc now a (after_flush sc now flush r c) r) (cnext c))"
proof -
  let ?l = "index_list sc (cindex c) (rkey r)"
  note l = index_list_cache [OF assms(1) rr_ok_key [OF assms(2)]]
  have "flush_loop now ?l c = Ret (map_entries (set ?l) (flushed now) c)"
    using l by (intro flush_loop_ok) auto
  then have "(if ?l \<noteq> [] \<and> flush then flush_loop now ?l c else Ret c) = Ret (after_flush sc now flush r c)"
    by (cases "?l = []") (simp_all add: after_flush_def)
  then show ?thesis
    using assms(3,4) by (simp add: avahi_cache_update_def lookup_key_def cong: option.case_cong)
qed

lemma finds_cong:
  assumes "\<And>i. map_option crecord (cstore c i) = map_option crecord (cstore c' i)"
  shows "finds c r x = finds c' r x"
proof -
  have "(\<exists>e. cstore c i = Some e \<and> P (crecord e)) \<longleftrightarrow> (\<exists>e. cstore c' i = Some e \<and> P (crecord e))" for i P
    using assms [of i] by (cases "cstore c i"; cases "cstore c' i") auto
  from this [of _ "\<lambda>s. rr_abs s = rr_abs r"] show ?thesis
    unfolding finds_def by (cases x) auto
qed

lemma finds_after_flush:
  "cache_inv sc n c \<Longrightarrow> rr_ok r \<Longrightarrow> finds (after_flush sc now flush r c) r x = finds c r x"
proof (rule finds_cong)
  assume "cache_inv sc n c" "rr_ok r"
  then show "map_option crecord (cstore (after_flush sc now flush r c) i) = map_option crecord (cstore c i)" for i
    by (cases "cstore c i") (simp_all add: after_flush_store)
qed

text \<open>The entry \<open>i\<close> of \<open>c'\<close> has just been renewed with \<open>r\<close>; the others are those of \<open>c1\<close>.\<close>

definition renewed :: "timeval \<Rightarrow> bool \<Rightarrow> address \<Rightarrow> rr \<Rightarrow> cache \<Rightarrow> cache \<Rightarrow> nat \<Rightarrow> bool" where
  "renewed now flush a r c1 c' i \<longleftrightarrow>
     (\<exists>e. cstore c' = (cstore c1)(i \<mapsto> e) \<and> crecord e = r \<and> cstate e = CACHE_VALID \<and> ctimestamp e = now \<and>
          origin e = a \<and> cache_flush e = flush)"

lemma update_found:
  assumes inv: "cache_inv sc n c" and r: "rr_ok r" "ttl r \<noteq> 0" "\<not> avahi_key_is_pattern (rkey r)" and rnd: "rand_ok rnd"
    and i: "finds c r (Some i)"
  shows "\<exists>c'. res_bind (replace_record sc c (index_list sc (cindex c) (rkey r)) i r)
      (\<lambda>c. refresh_entry now rnd flush a c i) = Ret c' \<and> cache_inv sc n c' \<and> renewed now flush a r c c' i \<and>
      outbox c' = outbox c"
proof -
  from i obtain e where e: "cstore c i = Some e" "rr_abs (crecord e) = rr_abs r" by (auto simp: finds_def)
  let ?l = "index_list sc (cindex c) (rkey r)"
  let ?idx = "if hd ?l = i then fst (avahi_hashmap_replace (key_hash_func sc) key_equal_func (cindex c) (rkey r) ?l) else cindex c"
  let ?d = "draw_cache now rnd c"
  let ?e = "refreshed now rnd flush a (set_entry i (e\<lparr>crecord := r\<rparr>) (c\<lparr>cindex := ?idx\<rparr>)) (e\<lparr>crecord := r\<rparr>)"
  have "entry_keys c i = Some (rkey (crecord e))" "key_ok (rkey r)" "key_abs (rkey r) = key_abs (rkey (crecord e))"
    using e r(1) rr_abs_key [OF e(2)] by (simp_all add: entry_keys_def rr_ok_def)
  note same = index_replace_same [OF cache_inv_index [OF inv] this]
  have idx: "index_ok sc ?idx ((entry_keys c)(i \<mapsto> rkey r))"
    using same(1,2) by simp
  have d: "cache_inv sc n ?d" "entry_keys ?d = entry_keys c"
    using cache_inv_draw [OF inv rnd] by (auto simp: entry_keys_def)
  have "rand_ok (clast_rand ?d)" using d(1) by (simp add: cache_inv_def)
  then have ok: "centry_ok ?e" by (intro refreshed_ok) (use r in simp_all)
  have "cache_inv sc n (set_entry i ?e (?d\<lparr>cindex := ?idx\<rparr>))"
    by (rule cache_inv_replace [OF d(1) _ e(2) [symmetric] _ ok]) (use e idx d(2) in simp_all)
  moreover have "renewed now flush a r c (set_entry i ?e (?d\<lparr>cindex := ?idx\<rparr>)) i"
    unfolding renewed_def by (rule exI [of _ ?e]) simp
  moreover have "res_bind (replace_record sc c ?l i r) (\<lambda>c. refresh_entry now rnd flush a c i) =
      Ret (set_entry i ?e (?d\<lparr>cindex := ?idx\<rparr>))"
    using e(1) by (simp add: replace_record_def refresh_entry Let_def)
  ultimately show ?thesis
    by (intro exI [of _ "set_entry i ?e (?d\<lparr>cindex := ?idx\<rparr>)"]) (simp del: set_entry_simps(9))
qed

lemma update_new:
  assumes inv: "cache_inv sc n c" and r: "rr_ok r" "ttl r \<noteq> 0" "\<not> avahi_key_is_pattern (rkey r)" and rnd: "rand_ok rnd"
    and new: "finds c r None" and room: "n_entries c < n"
  shows "\<exists>c'. refresh_entry now rnd flush a (new_centry sc now a c r) (cnext c) = Ret c' \<and> cache_inv sc n c' \<and>
      renewed now flush a r c c' (cnext c) \<and> outbox c' = outbox c @ [Lookup_new r]"
proof -
  let ?i = "cnext c"
  let ?c = "new_centry sc now a c r"
  obtain e where e: "cstore ?c ?i = Some e" "crecord e = r"
    by (simp add: new_centry_def Let_def)
  let ?e = "refreshed now rnd flush a ?c e"
  let ?d = "draw_cache now rnd c"
  have draw: "draw_cache now rnd ?c = new_centry sc now a ?d r"
    by (simp add: draw_cache_def new_centry_def send_out_def Let_def)
  have d: "cache_inv sc n ?d" "finds ?d r None" "n_entries ?d < n"
    using cache_inv_draw [OF inv rnd] new room by (simp_all add: finds_def)
  have "clast_rand (draw_cache now rnd ?c) = clast_rand ?d" unfolding draw by (simp add: new_centry_def Let_def)
  with d(1) have "rand_ok (clast_rand (draw_cache now rnd ?c))" by (simp add: cache_inv_def)
  then have ok: "centry_ok ?e" by (intro refreshed_ok) (use r e in simp_all)
  have "cache_inv sc n (set_entry ?i ?e (new_centry sc now a ?d r))"
    using cache_inv_add [OF d ok, of now a] e by simp
  moreover have "refresh_entry now rnd flush a ?c ?i = Ret (set_entry ?i ?e (new_centry sc now a ?d r))"
    by (simp add: refresh_entry [OF e(1)] draw)
  moreover have "renewed now flush a r c (set_entry ?i ?e (new_centry sc now a ?d r)) ?i"
    unfolding renewed_def by (rule exI [of _ ?e]) (use e new_centry_simps(2) [where c = ?d] in simp)
  moreover have "outbox (set_entry ?i ?e (new_centry sc now a ?d r)) = outbox c @ [Lookup_new r]"
    by (simp add: new_centry_def send_out_def Let_def)
  ultimately show ?thesis by blast
qed

text \<open>The whole update.\<close>

lemma cache_update_ok:
  assumes inv: "cache_inv sc n c" and r: "rr_ok r" "ttl r \<noteq> 0" "\<not> avahi_key_is_pattern (rkey r)" and rnd: "rand_ok rnd"
  shows "\<exists>c' x. avahi_cache_update sc n now rnd c r flush a = Ret c' \<and> cache_inv sc n c' \<and> finds c r x \<and>
    (case x of
       Some i \<Rightarrow> renewed now flush a r (after_flush sc now flush r c) c' i \<and> outbox c' = outbox c
     | None \<Rightarrow>
         if n_entries c < n then
           renewed now flush a r (after_flush sc now flush r c) c' (cnext c) \<and> outbox c' = outbox c @ [Lookup_new r]
         else c' = after_flush sc now flush r c)"
proof -
  let ?f = "after_flush sc now flush r c"
  have f: "cache_inv sc n ?f" using inv by (rule after_flush_inv)
  note update = update_flush [OF inv r, of n now rnd flush a]
  from find_equal_finds [OF f r(1)] obtain x where x: "find_equal ?f r (index_list sc (cindex c) (rkey r)) = Ret x" "finds ?f r x"
    by auto
  show ?thesis
  proof (cases x)
    case (Some i)
    with update_found [OF f r rnd, of i now flush a] x update finds_after_flush [OF inv r(1)] show ?thesis by force
  next
    case None
    show ?thesis
    proof (cases "n_entries c < n")
      case True
      with None update_new [OF f r rnd, of now flush a] x update finds_after_flush [OF inv r(1)] show ?thesis
        by force
    next
      case False
      with None x update f finds_after_flush [OF inv r(1)] show ?thesis by force
    qed
  qed
qed

section \<open>Goodbyes, time events\<close>

lemma goodbye_ok:
  assumes inv: "cache_inv sc n c" and r: "rr_ok r" "ttl r = 0"
  shows "\<exists>c' x. avahi_cache_update sc nmax now rnd c r flush a = Ret c' \<and> cache_inv sc n c' \<and> finds c r x \<and>
    (case x of
       Some i \<Rightarrow> c' = set_entry i (expired_by now CACHE_GOODBYE_FINAL (the (cstore c i))) c
     | None \<Rightarrow> c' = c)"
proof -
  from lookup_record_ok [OF inv r(1)] obtain x where x: "lookup_record sc c r = Ret x" "finds c r x" by blast
  show ?thesis
  proof (cases x)
    case None
    with x inv r(2) show ?thesis by (force simp: avahi_cache_update_def)
  next
    case (Some i)
    with x obtain e where e: "cstore c i = Some e" by (auto simp: finds_def)
    have "centry_ok (expired_by now CACHE_GOODBYE_FINAL e)"
      using cache_inv_entry [OF inv e] by (intro expired_by_ok) simp_all
    then have "cache_inv sc n (set_entry i (expired_by now CACHE_GOODBYE_FINAL e) c)"
      using inv e by (intro cache_inv_set_entry) simp_all
    with Some x e r(2) show ?thesis
      by (intro exI [of _ "set_entry i (expired_by now CACHE_GOODBYE_FINAL e) c"] exI [of _ x])
        (simp add: avahi_cache_update_def expire_in_one_second)
  qed
qed

text \<open>The state after the one whose time event fires; none after the final ones.\<close>

fun next_state :: "cache_state \<Rightarrow> cache_state option" where
  "next_state CACHE_VALID = Some CACHE_EXPIRY1"
| "next_state CACHE_POOF = Some CACHE_EXPIRY1"
| "next_state CACHE_EXPIRY1 = Some CACHE_EXPIRY2"
| "next_state CACHE_EXPIRY2 = Some CACHE_EXPIRY3"
| "next_state CACHE_EXPIRY3 = Some CACHE_EXPIRY_FINAL"
| "next_state _ = None"

lemma next_state_percent: "next_state s = Some s' \<Longrightarrow> \<exists>p. expiry_percent s' = Some p \<and> 0 < p \<and> p \<le> 100"
  by (cases s) auto

lemma elapse_step:
  assumes "cstore c i = Some e" "next_state (cstate e) = Some s" "expiry_percent s = Some p"
  shows "elapse_func sc now rnd refresh c i =
    next_expiry now rnd (if refresh (rkey (crecord e)) then send_out (Post_query (rkey (crecord e))) (set_entry i (e\<lparr>cstate := s\<rparr>) c)
      else set_entry i (e\<lparr>cstate := s\<rparr>) c) i p"
  using assms by (cases "cstate e") (auto simp: elapse_func_def Let_def)

lemma elapse_final:
  assumes "cstore c i = Some e" "next_state (cstate e) = None"
  shows "elapse_func sc now rnd refresh c i = remove_entry sc c i"
  using assms by (cases "cstate e") (auto simp: elapse_func_def Let_def)

lemma elapse_ok:
  assumes inv: "cache_inv sc n c" and e: "cstore c i = Some e" and rnd: "rand_ok rnd"
  shows "\<exists>c'. elapse_func sc now rnd refresh c i = Ret c' \<and> cache_inv sc n c' \<and>
    (case next_state (cstate e) of
       None \<Rightarrow> removed i c c'
     | Some s \<Rightarrow> (\<exists>e'. cstore c' = (cstore c)(i \<mapsto> e') \<and> crecord e' = crecord e \<and> ctimestamp e' = ctimestamp e \<and> cstate e' = s) \<and>
         outbox c' = outbox c @ (if refresh (rkey (crecord e)) then [Post_query (rkey (crecord e))] else []))"
proof (cases "next_state (cstate e)")
  case None
  with remove_entry_ok [OF inv e] elapse_final [OF e None] show ?thesis by simp
next
  case (Some s)
  then obtain p where p: "expiry_percent s = Some p" "0 < p" "p \<le> 100" using next_state_percent by blast
  let ?k = "rkey (crecord e)"
  let ?c = "if refresh ?k then send_out (Post_query ?k) c else c"
  let ?d = "draw_cache now rnd ?c"
  let ?e = "scheduled (expiry_usec (ttl (crecord e)) p (clast_rand ?d)) (e\<lparr>cstate := s\<rparr>)"
  have d: "cache_inv sc n ?d" using inv rnd by (simp add: cache_inv_draw cache_inv_send)
  then have "rand_ok (clast_rand ?d)" by (simp add: cache_inv_def)
  then have "centry_ok ?e"
    using scheduled_ok [of "clast_rand ?d" "e\<lparr>cstate := s\<rparr>" p] p cache_inv_entry [OF inv e] by (simp add: centry_ok_def)
  then have "cache_inv sc n (set_entry i ?e ?d)"
    using d e by (intro cache_inv_set_entry [OF d]) simp_all
  moreover have "elapse_func sc now rnd refresh c i = Ret (set_entry i ?e ?d)"
    using elapse_step [OF e Some p(1), of sc now rnd refresh] p(2,3)
    by (auto simp: send_out_set_entry next_expiry_set_entry)
  moreover have "outbox (set_entry i ?e ?d) = outbox c @ (if refresh ?k then [Post_query ?k] else [])"
    by (simp add: send_out_def)
  moreover have "\<exists>e'. cstore (set_entry i ?e ?d) = (cstore c)(i \<mapsto> e') \<and> crecord e' = crecord e \<and>
      ctimestamp e' = ctimestamp e \<and> cstate e' = s"
    by (rule exI [of _ ?e]) simp
  ultimately obtain c' where "elapse_func sc now rnd refresh c i = Ret c'" "cache_inv sc n c'"
    "outbox c' = outbox c @ (if refresh ?k then [Post_query ?k] else [])"
    "\<exists>e'. cstore c' = (cstore c)(i \<mapsto> e') \<and> crecord e' = crecord e \<and> ctimestamp e' = ctimestamp e \<and> cstate e' = s"
    by blast
  with Some show ?thesis by (intro exI [of _ c']) simp
qed

section \<open>Passive observation of failure, flushing\<close>

definition poofed :: "timeval \<Rightarrow> address \<Rightarrow> centry \<Rightarrow> centry" where
  "poofed now a e =
     (if cstate e = CACHE_VALID
      then e\<lparr>cstate := CACHE_POOF, poof_address := a, poof_timestamp := now, poof_num := 0\<rparr>
      else if cstate e = CACHE_POOF \<and> 1000000 \<le> usec_of now - usec_of (poof_timestamp e)
      then let e' = e\<lparr>poof_timestamp := now, poof_address := a, poof_num := poof_num e + 1\<rparr>
           in if 3 < poof_num e' then expired_by now CACHE_POOF_FINAL e' else e'
      else e)"

lemma poofed_record [simp]: "crecord (poofed now a e) = crecord e"
  by (simp add: poofed_def Let_def)

lemma poofed_ok: "centry_ok e \<Longrightarrow> centry_ok (poofed now a e)"
  by (auto simp: poofed_def Let_def centry_ok_def expiry_ok_def expired_by_def)

lemma start_poof_callback:
  assumes "cstore c i = Some e"
  shows "start_poof_callback now a c i = Ret (set_entry i (poofed now a e) c, None)"
proof -
  have "set_entry i e c = c" using assms by (simp add: set_entry_def fun_upd_idem)
  then show ?thesis
    using assms
    by (cases "cstate e")
      (auto simp: start_poof_callback_def poofed_def timeval_diff Let_def expire_in_one_second not_less)
qed

lemma walk_poof:
  assumes "\<And>c' i. i \<in> set l \<Longrightarrow> (\<forall>j. map_option crecord (cstore c' j) = map_option crecord (cstore c j)) \<Longrightarrow> select c' i = Ret (P i)"
    and "\<forall>i \<in> set l. cstore c i \<noteq> None" "distinct l"
  shows "walk_loop (\<lambda>c. c) select (start_poof_callback now a) l c = Ret (map_entries {i \<in> set l. P i} (poofed now a) c, None)"
  using assms
proof (induction l arbitrary: c)
  case (Cons i l)
  then obtain e where e: "cstore c i = Some e" by auto
  have sel: "select c i = Ret (P i)" using Cons.prems(1) by simp
  let ?c = "if P i then set_entry i (poofed now a e) c else c"
  have same: "map_option crecord (cstore ?c j) = map_option crecord (cstore c j)" for j
    using e by simp
  have "walk_loop (\<lambda>c. c) select (start_poof_callback now a) (i # l) c = walk_loop (\<lambda>c. c) select (start_poof_callback now a) l ?c"
    using e by (simp add: sel start_poof_callback)
  also have "\<dots> = Ret (map_entries {j \<in> set l. P j} (poofed now a) ?c, None)"
    using Cons.prems same by (intro Cons.IH) auto
  also have "map_entries {j \<in> set l. P j} (poofed now a) ?c = map_entries {j \<in> set (i # l). P j} (poofed now a) c"
    using e Cons.prems(3) by (auto simp: map_entries_def set_entry_def fun_eq_iff)
  finally show ?case .
qed simp

text \<open>Whether a query for \<open>k\<close> is a query for the entry.\<close>

definition asks_for :: "key \<Rightarrow> key \<Rightarrow> bool" where
  "asks_for k k' \<longleftrightarrow> folded (name k) = folded (name k') \<and>
     (ktype k = ktype k' \<or> ktype k = AVAHI_DNS_TYPE_ANY) \<and> (clazz k = clazz k' \<or> clazz k = AVAHI_DNS_CLASS_ANY)"

lemma start_poof_ok:
  assumes inv: "cache_inv sc n c" and k: "key_ok k"
  shows "\<exists>c'. avahi_cache_start_poof sc now c k a = Ret c' \<and> cache_inv sc n c' \<and> outbox c' = outbox c \<and>
    (\<forall>i. cstore c' i = map_option (\<lambda>e. if asks_for k (rkey (crecord e)) then poofed now a e else e) (cstore c i))"
proof -
  have stored: "\<exists>e. cstore c i = Some e \<and> centry_ok e" if "i \<in> set (centries c)" for i
    using inv that by (auto simp: cache_inv_def)
  have "\<exists>S. avahi_cache_start_poof sc now c k a = Ret (map_entries S (poofed now a) c) \<and>
      (\<forall>i e. cstore c i = Some e \<longrightarrow> i \<in> S \<longleftrightarrow> asks_for k (rkey (crecord e)))"
  proof (cases "avahi_key_is_pattern k")
    case True
    let ?P = "\<lambda>i. asks_for k (entry_key c i)"
    have sel: "avahi_key_pattern_match k (entry_key c' i) = Ret (?P i)"
      if i: "i \<in> set (centries c)" and same: "\<forall>j. map_option crecord (cstore c' j) = map_option crecord (cstore c j)" for c' i
    proof -
      from stored [OF i] obtain e where e: "cstore c i = Some e" "centry_ok e" by blast
      with same obtain e' where "cstore c' i = Some e'" "crecord e' = crecord e"
        by (metis map_option_eq_Some option.simps(9))
      with e k show ?thesis
        by (auto simp: entry_key_def asks_for_def avahi_key_pattern_match_def centry_ok_def rr_ok_def key_ok_def domain_equal_folded)
    qed
    have "\<forall>i \<in> set (centries c). cstore c i \<noteq> None" "distinct (centries c)" using inv by (auto simp: cache_inv_def)
    with sel have "walk_loop (\<lambda>c. c) (\<lambda>c i. avahi_key_pattern_match k (entry_key c i)) (start_poof_callback now a) (centries c) c =
        Ret (map_entries {i \<in> set (centries c). ?P i} (poofed now a) c, None)"
      by (intro walk_poof) auto
    moreover have "cstore c i = Some e \<Longrightarrow> i \<in> set (centries c)" for i e
      using inv by (auto simp: cache_inv_def)
    ultimately show ?thesis
      using True
      by (intro exI [of _ "{i \<in> set (centries c). ?P i}"])
        (auto simp: avahi_cache_start_poof_def avahi_cache_walk_def entry_key_def)
  next
    case False
    let ?l = "index_list sc (cindex c) k"
    note l = index_list_cache [OF inv k]
    have "walk_loop (\<lambda>c. c) (\<lambda>c i. Ret True) (start_poof_callback now a) ?l c =
        Ret (map_entries {i \<in> set ?l. True} (poofed now a) c, None)"
      using l by (intro walk_poof) auto
    with False l(1) show ?thesis
      by (intro exI [of _ "set ?l"])
        (auto simp: avahi_cache_start_poof_def avahi_cache_walk_def lookup_key_def asks_for_def key_abs_def avahi_key_is_pattern_def)
  qed
  then obtain S where S: "avahi_cache_start_poof sc now c k a = Ret (map_entries S (poofed now a) c)"
    "\<forall>i e. cstore c i = Some e \<longrightarrow> i \<in> S \<longleftrightarrow> asks_for k (rkey (crecord e))" by blast
  have "cstore (map_entries S (poofed now a) c) i =
      map_option (\<lambda>e. if asks_for k (rkey (crecord e)) then poofed now a e else e) (cstore c i)" for i
    using S(2) by (cases "cstore c i") auto
  with S(1) show ?thesis
    using cache_inv_map_entries [OF inv poofed_ok poofed_record, of "S"] by simp
qed

lemma stop_poof_ok:
  assumes inv: "cache_inv sc n c" and r: "rr_ok r" and rnd: "rand_ok rnd"
  shows "\<exists>c' x. avahi_cache_stop_poof sc now rnd c r a = Ret c' \<and> cache_inv sc n c' \<and> finds c r x \<and> outbox c' = outbox c \<and>
    (case x of
       None \<Rightarrow> c' = c
     | Some i \<Rightarrow> \<exists>e e'. cstore c i = Some e \<and> cstore c' = (cstore c)(i \<mapsto> e') \<and> crecord e' = crecord e \<and>
         cstate e' = (if cstate e \<in> {CACHE_POOF, CACHE_POOF_FINAL} \<and> avahi_address_cmp a (poof_address e) = 0
                      then CACHE_VALID else cstate e))"
proof -
  from lookup_record_ok [OF inv r] obtain x where x: "lookup_record sc c r = Ret x" "finds c r x" by blast
  show ?thesis
  proof (cases x)
    case None
    with x inv show ?thesis by (force simp: avahi_cache_stop_poof_def)
  next
    case (Some i)
    with x obtain e where e: "cstore c i = Some e" by (auto simp: finds_def)
    show ?thesis
    proof (cases "cstate e \<in> {CACHE_POOF, CACHE_POOF_FINAL} \<and> avahi_address_cmp a (poof_address e) = 0")
      case False
      have "\<exists>e'. cstore c = (cstore c)(i \<mapsto> e') \<and> crecord e' = crecord e \<and> cstate e' = cstate e"
        by (rule exI [of _ e]) (use e in \<open>simp add: fun_upd_idem\<close>)
      moreover have "avahi_cache_stop_poof sc now rnd c r a = Ret c"
        using False x(1) Some e by (auto simp: avahi_cache_stop_poof_def)
      ultimately show ?thesis
        using False x(2) Some e inv by (intro exI [of _ c] exI [of _ x]) auto
    next
      case True
      let ?d = "draw_cache now rnd c"
      let ?e = "scheduled (expiry_usec (ttl (crecord e)) 80 (clast_rand ?d)) (e\<lparr>cstate := CACHE_VALID\<rparr>)"
      have d: "cache_inv sc n ?d" using inv rnd by (rule cache_inv_draw)
      then have "rand_ok (clast_rand ?d)" by (simp add: cache_inv_def)
      then have "centry_ok ?e"
        using scheduled_ok [of "clast_rand ?d" "e\<lparr>cstate := CACHE_VALID\<rparr>" 80] cache_inv_entry [OF inv e]
        by (simp add: centry_ok_def)
      then have "cache_inv sc n (set_entry i ?e ?d)"
        using e by (intro cache_inv_set_entry [OF d]) simp_all
      moreover have "avahi_cache_stop_poof sc now rnd c r a = Ret (set_entry i ?e ?d)"
        using True x(1) Some e by (simp add: avahi_cache_stop_poof_def next_expiry_set_entry)
      moreover have "\<exists>e e'. cstore c i = Some e \<and> cstore (set_entry i ?e ?d) = (cstore c)(i \<mapsto> e') \<and> crecord e' = crecord e \<and>
          cstate e' = (if cstate e \<in> {CACHE_POOF, CACHE_POOF_FINAL} \<and> avahi_address_cmp a (poof_address e) = 0
                       then CACHE_VALID else cstate e)"
        using e True by (intro exI [of _ e] exI [of _ ?e]) simp
      moreover have "outbox (set_entry i ?e ?d) = outbox c" by simp
      ultimately show ?thesis using x(2) Some by (intro exI [of _ "set_entry i ?e ?d"] exI [of _ x]) (simp del: set_entry_simps)
    qed
  qed
qed

lemma cache_flush_ok:
  "cache_inv sc n c \<Longrightarrow> length (centries c) = m \<Longrightarrow>
   \<exists>c'. cache_flush_loop sc m c = Ret c' \<and> cache_inv sc n c' \<and> cstore c' = Map.empty \<and>
     outbox c' = outbox c @ map (\<lambda>i. Lookup_remove (crecord (the (cstore c i)))) (centries c)"
proof (induction m arbitrary: c)
  case 0
  have "set (centries c) = dom (cstore c)" using "0.prems"(1) by (simp add: cache_inv_def)
  with "0.prems"(2) have "dom (cstore c) = {}" by simp
  then have "cstore c = Map.empty" by simp
  with 0 show ?case by simp
next
  case (Suc m)
  then obtain i l where l: "centries c = i # l" by (cases "centries c") auto
  have "set (centries c) = dom (cstore c)" using Suc.prems(1) by (simp add: cache_inv_def)
  with l obtain e where e: "cstore c i = Some e" by (metis domD list.set_intros(1))
  from remove_entry_ok [OF Suc.prems(1) e] obtain c1 where c1: "remove_entry sc c i = Ret c1" "cache_inv sc n c1"
    "removed i c c1" by blast
  then have "centries c1 = l" using l by (simp add: removed_def)
  with Suc.IH [OF c1(2)] Suc.prems(2) l obtain c' where c': "cache_flush_loop sc m c1 = Ret c'" "cache_inv sc n c'"
    "cstore c' = Map.empty" "outbox c' = outbox c1 @ map (\<lambda>i. Lookup_remove (crecord (the (cstore c1 i)))) l" by auto
  have "i \<notin> set l" using Suc.prems(1) l by (simp add: cache_inv_def)
  then have "map (\<lambda>i. Lookup_remove (crecord (the (cstore c1 i)))) l = map (\<lambda>i. Lookup_remove (crecord (the (cstore c i)))) l"
    using c1(3) by (auto simp: removed_def)
  moreover have "outbox c1 = outbox c @ [Lookup_remove (crecord (the (cstore c i)))]" using c1(3) by (simp add: removed_def)
  ultimately have "outbox c' = outbox c @ map (\<lambda>i. Lookup_remove (crecord (the (cstore c i)))) (centries c)"
    using c'(4) l by simp
  moreover have "cache_flush_loop sc (Suc m) c = Ret c'" using c1(1) c'(1) l by simp
  ultimately show ?case using c'(2,3) by blast
qed

end
