(* ===== verification/Cache_Properties.thy ===== *)
theory Cache_Properties
  imports Cache_Inv
begin

text \<open>
  The properties of the cache: its reachable states, arrivals, expiry, passive observation of
  failure.
\<close>

section \<open>Reachable caches\<close>

text \<open>
  What happens to a cache: a record arrives, the time event of an entry fires, the cache is
  emptied, a query or a suppressed answer is observed. The arguments that start with the clock
  carry the time, and a random number where the code may draw one.
\<close>

datatype cache_op =
    Update timeval int rr bool address
  | Elapse timeval int "key \<Rightarrow> bool" nat
  | Flush
  | Start_poof timeval key address
  | Stop_poof timeval int rr address

fun cache_do :: "bool \<Rightarrow> nat \<Rightarrow> cache_op \<Rightarrow> cache \<Rightarrow> cache res" where
  "cache_do sc n (Update now rnd r flush a) c = avahi_cache_update sc n now rnd c r flush a"
| "cache_do sc n (Elapse now rnd refresh i) c = elapse_func sc now rnd refresh c i"
| "cache_do sc n Flush c = avahi_cache_flush sc c"
| "cache_do sc n (Start_poof now k a) c = avahi_cache_start_poof sc now c k a"
| "cache_do sc n (Stop_poof now rnd r a) c = avahi_cache_stop_poof sc now rnd c r a"

text \<open>
  What the callers guarantee: records and keys are those the packet parser returns, records that
  are added do not have a pattern for a key, and only pending time events fire.
\<close>

fun cache_op_ok :: "cache \<Rightarrow> cache_op \<Rightarrow> bool" where
  "cache_op_ok c (Update now rnd r flush a) \<longleftrightarrow> rr_ok r \<and> \<not> avahi_key_is_pattern (rkey r) \<and> rand_ok rnd"
| "cache_op_ok c (Elapse now rnd refresh i) \<longleftrightarrow> cstore c i \<noteq> None \<and> rand_ok rnd"
| "cache_op_ok c Flush \<longleftrightarrow> True"
| "cache_op_ok c (Start_poof now k a) \<longleftrightarrow> key_ok k"
| "cache_op_ok c (Stop_poof now rnd r a) \<longleftrightarrow> rr_ok r \<and> rand_ok rnd"

inductive reachable :: "bool \<Rightarrow> nat \<Rightarrow> cache \<Rightarrow> bool" for sc n where
  reach_new: "rand_ok r \<Longrightarrow> reachable sc n (avahi_cache_new r)"
| reach_step: "reachable sc n c \<Longrightarrow> cache_op_ok c x \<Longrightarrow> cache_do sc n x c = Ret c' \<Longrightarrow> reachable sc n c'"

lemma cache_do_ok:
  assumes "cache_inv sc n c" "cache_op_ok c x"
  shows "\<exists>c'. cache_do sc n x c = Ret c' \<and> cache_inv sc n c'"
proof (cases x)
  case (Update now rnd r flush a)
  with assms show ?thesis
    using goodbye_ok [OF assms(1), of r n now rnd flush a] cache_update_ok [OF assms(1), of r rnd now flush a]
    by (cases "ttl r = 0") auto
next
  case (Elapse now rnd refresh i)
  with assms elapse_ok [OF assms(1), of i _ rnd now refresh] show ?thesis by fastforce
next
  case Flush
  with cache_flush_ok [OF assms(1) refl] show ?thesis by (auto simp: avahi_cache_flush_def)
next
  case (Start_poof now k a)
  with assms start_poof_ok [OF assms(1), of k now a] show ?thesis by auto
next
  case (Stop_poof now rnd r a)
  with assms stop_poof_ok [OF assms(1), of r rnd now a] show ?thesis by auto
qed

lemma reachable_inv: "reachable sc n c \<Longrightarrow> cache_inv sc n c"
proof (induction rule: reachable.induct)
  case (reach_new r)
  then show ?case by (rule cache_inv_new)
next
  case (reach_step c x c')
  with cache_do_ok [OF reach_step.IH reach_step.hyps(2)] show ?case by simp
qed

inductive_cases reachable_cases: "reachable sc n c"

section \<open>Properties\<close>

text \<open>
  Property C5. Whatever happens to a cache in whatever order, no operation crashes: no entry is
  used after it was freed, the \<open>by_key\<close> lists and the table never disagree, no assertion fails.
  In every state the cache holds no record twice, without regard to case and TTL, has at most
  the configured number of entries, and every entry has a time event in the future of its
  timestamp that its state calls for: at 80, 85, 90, 95 or 100 percent of its TTL, plus at most
  two. Looking up a record finds it exactly if it is there.
\<close>

theorem cache_never_crashes:
  assumes "reachable sc n c" "cache_op_ok c x" "rr_ok r"
  shows "(\<exists>c'. cache_do sc n x c = Ret c' \<and> reachable sc n c') \<and>
    n_entries c = length (centries c) \<and> n_entries c \<le> n \<and>
    (\<forall>i j e f. cstore c i = Some e \<and> cstore c j = Some f \<and> rr_abs (crecord e) = rr_abs (crecord f) \<longrightarrow> i = j) \<and>
    (\<forall>i e. cstore c i = Some e \<longrightarrow> time_event e = Some (expiry e) \<and> expiry_ok e \<and> ttl (crecord e) \<noteq> 0) \<and>
    (\<exists>y. lookup_record sc c r = Ret y \<and> finds c r y)"
proof -
  have inv: "cache_inv sc n c" using assms(1) by (rule reachable_inv)
  then have "n_entries c = length (centries c) \<and> n_entries c \<le> n"
    "\<forall>i j e f. cstore c i = Some e \<and> cstore c j = Some f \<and> rr_abs (crecord e) = rr_abs (crecord f) \<longrightarrow> i = j"
    unfolding cache_inv_def by blast+
  moreover have "\<forall>i e. cstore c i = Some e \<longrightarrow> time_event e = Some (expiry e) \<and> expiry_ok e \<and> ttl (crecord e) \<noteq> 0"
    using cache_inv_entry [OF inv] by (auto simp: centry_ok_def)
  ultimately show ?thesis
    using cache_do_ok [OF inv assms(2)] lookup_record_ok [OF inv assms(3)] reach_step [OF assms(1,2)] by blast
qed

definition example_time :: "int \<Rightarrow> timeval" where
  "example_time s = \<lparr>tv_sec = s, tv_usec = 0\<rparr>"

definition example_record :: "string \<Rightarrow> u32 \<Rightarrow> rr" where
  "example_record s t = \<lparr>rkey = \<lparr>name = str s, clazz = 1, ktype = AVAHI_DNS_TYPE_A\<rparr>, ttl = t, rdata = A [10, 0, 0, 1]\<rparr>"

definition example_update :: cache_op where
  "example_update = Update (example_time 100) 7 (example_record ''a.local'' 120) True (example_address 1)"

lemma example_ok: "cache_op_ok c example_update" "rr_ok (example_record ''a.local'' 120)"
  by code_simp+

lemma cache_never_crashes_witness:
  "\<exists>c' y. cache_do True 5 example_update (avahi_cache_new 0) = Ret c' \<and> reachable True 5 c' \<and>
    n_entries (avahi_cache_new 0) = length (centries (avahi_cache_new 0)) \<and> n_entries (avahi_cache_new 0) \<le> 5 \<and>
    lookup_record True (avahi_cache_new 0) (example_record ''a.local'' 120) = Ret y \<and>
    finds (avahi_cache_new 0) (example_record ''a.local'' 120) y"
proof -
  have "reachable True 5 (avahi_cache_new 0)" by (rule reach_new) (simp add: rand_ok_def RAND_MAX_def)
  from cache_never_crashes [OF this example_ok] show ?thesis by blast
qed

text \<open>
  Property C6. What an arriving record does. With the flush bit, the entries with its key that
  are older than a second are marked to go a second later; all other entries stay as they
  are. Then the entry with this record, found without regard to case and TTL, or a new one,
  holds the record as it arrived, is valid, has the present as its timestamp and remembers the
  sender; subscribers hear of a record exactly if it is new. Only when the cache is full and the
  record is not in it, nothing is added.
\<close>

theorem cache_update_effect:
  assumes "reachable sc n c" "rr_ok r" "\<not> avahi_key_is_pattern (rkey r)" "ttl r \<noteq> 0" "rand_ok rnd"
  shows "\<exists>c' x. avahi_cache_update sc n now rnd c r flush a = Ret c' \<and> finds c r x \<and>
    (let i = (case x of Some i \<Rightarrow> i | None \<Rightarrow> cnext c);
         stays = (\<lambda>e. if flush \<and> key_abs (rkey (crecord e)) = key_abs (rkey r) then flushed now e else e)
     in if x \<noteq> None \<or> n_entries c < n then
          (\<exists>e. cstore c' i = Some e \<and> crecord e = r \<and> cstate e = CACHE_VALID \<and> ctimestamp e = now \<and> origin e = a \<and>
               cache_flush e = flush) \<and>
          (\<forall>j. j \<noteq> i \<longrightarrow> cstore c' j = map_option stays (cstore c j)) \<and>
          outbox c' = outbox c @ (if x = None then [Lookup_new r] else [])
        else (\<forall>j. cstore c' j = map_option stays (cstore c j)) \<and> outbox c' = outbox c)"
proof -
  have inv: "cache_inv sc n c" using assms(1) by (rule reachable_inv)
  from cache_update_ok [OF inv assms(2,4,3,5), of now flush a] obtain c' x where
    u: "avahi_cache_update sc n now rnd c r flush a = Ret c'" "finds c r x"
    "case x of
       Some i \<Rightarrow> renewed now flush a r (after_flush sc now flush r c) c' i \<and> outbox c' = outbox c
     | None \<Rightarrow>
         if n_entries c < n then
           renewed now flush a r (after_flush sc now flush r c) c' (cnext c) \<and> outbox c' = outbox c @ [Lookup_new r]
         else c' = after_flush sc now flush r c" by blast
  let ?i = "case x of Some i \<Rightarrow> i | None \<Rightarrow> cnext c"
  let ?stays = "\<lambda>e. if flush \<and> key_abs (rkey (crecord e)) = key_abs (rkey r) then flushed now e else e"
  have f: "cstore (after_flush sc now flush r c) = (\<lambda>j. map_option ?stays (cstore c j))"
    by (rule ext) (rule after_flush_store [OF inv assms(2)])
  have "(\<exists>e. cstore c' ?i = Some e \<and> crecord e = r \<and> cstate e = CACHE_VALID \<and> ctimestamp e = now \<and> origin e = a \<and>
        cache_flush e = flush) \<and>
      (\<forall>j. j \<noteq> ?i \<longrightarrow> cstore c' j = map_option ?stays (cstore c j)) \<and>
      outbox c' = outbox c @ (if x = None then [Lookup_new r] else [])" if "x \<noteq> None \<or> n_entries c < n"
  proof -
    from that u(3) have "renewed now flush a r (after_flush sc now flush r c) c' ?i"
      "outbox c' = outbox c @ (if x = None then [Lookup_new r] else [])"
      by (auto split: option.splits)
    then show ?thesis unfolding renewed_def f by force
  qed
  moreover have "c' = after_flush sc now flush r c" if "\<not> (x \<noteq> None \<or> n_entries c < n)"
    using that u(3) by auto
  ultimately show ?thesis
    using u(1,2) f unfolding Let_def by (intro exI [of _ c'] exI [of _ x] conjI) auto
qed

lemma cache_update_effect_witness:
  "\<exists>c' e. avahi_cache_update True 5 (example_time 100) 7 (avahi_cache_new 0) (example_record ''a.local'' 120) True
        (example_address 1) = Ret c' \<and> cstore c' 0 = Some e \<and> crecord e = example_record ''a.local'' 120 \<and>
    cstate e = CACHE_VALID \<and> ctimestamp e = example_time 100 \<and> origin e = example_address 1 \<and> cache_flush e \<and>
    outbox c' = [Lookup_new (example_record ''a.local'' 120)]"
proof -
  have "reachable True 5 (avahi_cache_new 0)" by (rule reach_new) (simp add: rand_ok_def RAND_MAX_def)
  moreover have "rr_ok (example_record ''a.local'' 120)" "\<not> avahi_key_is_pattern (rkey (example_record ''a.local'' 120))"
    "ttl (example_record ''a.local'' 120) \<noteq> 0" "rand_ok 7" by code_simp+
  ultimately have "\<exists>c' x. avahi_cache_update True 5 (example_time 100) 7 (avahi_cache_new 0) (example_record ''a.local'' 120) True
        (example_address 1) = Ret c' \<and> finds (avahi_cache_new 0) (example_record ''a.local'' 120) x \<and>
    (let i = (case x of Some i \<Rightarrow> i | None \<Rightarrow> cnext (avahi_cache_new 0));
         stays = (\<lambda>e. if True \<and> key_abs (rkey (crecord e)) = key_abs (rkey (example_record ''a.local'' 120))
                   then flushed (example_time 100) e else e)
     in if x \<noteq> None \<or> n_entries (avahi_cache_new 0) < 5 then
          (\<exists>e. cstore c' i = Some e \<and> crecord e = example_record ''a.local'' 120 \<and> cstate e = CACHE_VALID \<and>
               ctimestamp e = example_time 100 \<and> origin e = example_address 1 \<and> cache_flush e = True) \<and>
          (\<forall>j. j \<noteq> i \<longrightarrow> cstore c' j = map_option stays (cstore (avahi_cache_new 0) j)) \<and>
          outbox c' = outbox (avahi_cache_new 0) @ (if x = None then [Lookup_new (example_record ''a.local'' 120)] else [])
        else (\<forall>j. cstore c' j = map_option stays (cstore (avahi_cache_new 0) j)) \<and> outbox c' = outbox (avahi_cache_new 0))"
    by (rule cache_update_effect)
  then show ?thesis by (auto simp: Let_def avahi_cache_new_def finds_def split: option.splits)
qed

fun elapses :: "bool \<Rightarrow> (key \<Rightarrow> bool) \<Rightarrow> nat \<Rightarrow> (timeval \<times> int) list \<Rightarrow> cache \<Rightarrow> cache res" where
  "elapses sc refresh i [] c = Ret c"
| "elapses sc refresh i ((now, rnd) # ts) c = res_bind (elapse_func sc now rnd refresh c i) (elapses sc refresh i ts)"

lemma elapses_append: "elapses sc refresh i (ts @ us) c = res_bind (elapses sc refresh i ts c) (elapses sc refresh i us)"
proof (induction ts arbitrary: c)
  case (Cons t ts)
  then have "elapses sc refresh i (ts @ us) = (\<lambda>c. res_bind (elapses sc refresh i ts c) (elapses sc refresh i us))"
    by (intro ext)
  then show ?case by (cases t) (simp add: res_bind_assoc)
qed simp

text \<open>The state after a number of time events.\<close>

fun state_after :: "nat \<Rightarrow> cache_state \<Rightarrow> cache_state option" where
  "state_after 0 s = Some s"
| "state_after (Suc k) s = (case next_state s of None \<Rightarrow> None | Some s' \<Rightarrow> state_after k s')"

lemma elapses_ok:
  "cache_inv sc n c \<Longrightarrow> cstore c i = Some e \<Longrightarrow> state_after (length ts) (cstate e) = Some s \<Longrightarrow>
   \<forall>(now, rnd) \<in> set ts. rand_ok rnd \<Longrightarrow>
   \<exists>c' e'. elapses sc refresh i ts c = Ret c' \<and> cache_inv sc n c' \<and> cstore c' i = Some e' \<and> crecord e' = crecord e \<and>
     ctimestamp e' = ctimestamp e \<and> cstate e' = s \<and>
     outbox c' = outbox c @ (if refresh (rkey (crecord e)) then replicate (length ts) (Post_query (rkey (crecord e))) else [])"
proof (induction ts arbitrary: c e)
  case (Cons t ts)
  obtain now rnd where t: "t = (now, rnd)" by fastforce
  with Cons.prems(3) obtain s1 where s1: "next_state (cstate e) = Some s1" "state_after (length ts) s1 = Some s"
    by (auto split: option.splits)
  have "rand_ok rnd" using Cons.prems(4) t by simp
  from elapse_ok [OF Cons.prems(1,2) this, of now refresh] s1(1) obtain c1 e1 where
    c1: "elapse_func sc now rnd refresh c i = Ret c1" "cache_inv sc n c1" "cstore c1 i = Some e1" "crecord e1 = crecord e"
      "ctimestamp e1 = ctimestamp e" "cstate e1 = s1"
      "outbox c1 = outbox c @ (if refresh (rkey (crecord e)) then [Post_query (rkey (crecord e))] else [])" by auto
  have "state_after (length ts) (cstate e1) = Some s" using s1(2) c1(6) by simp
  from Cons.IH [OF c1(2,3) this] Cons.prems(4) obtain c' e' where
    "elapses sc refresh i ts c1 = Ret c'" "cache_inv sc n c'" "cstore c' i = Some e'" "crecord e' = crecord e1"
      "ctimestamp e' = ctimestamp e1" "cstate e' = s"
      "outbox c' = outbox c1 @ (if refresh (rkey (crecord e1)) then replicate (length ts) (Post_query (rkey (crecord e1))) else [])"
    by auto
  with c1 t show ?case by (intro exI [of _ c'] exI [of _ e']) simp
qed simp

text \<open>
  Property C7. The life of an entry that nobody refreshes. Its time event fires five times,
  whenever that really happens: each of the first four posts a query if somebody is still
  interested and schedules the next; the last is scheduled between 100 and 102 percent of the
  TTL after the record arrived and removes the entry and tells the subscribers.
\<close>

theorem entry_lifetime:
  assumes "reachable sc n c" "cstore c i = Some e" "cstate e = CACHE_VALID"
    and "\<forall>(now, rnd) \<in> set [t1, t2, t3, t4, t5]. rand_ok rnd"
  shows "\<exists>c4 e4 due c5. elapses sc refresh i [t1, t2, t3, t4] c = Ret c4 \<and> cstore c4 i = Some e4 \<and> time_event e4 = Some due \<and>
    usec_of (ctimestamp e) + uint (ttl (crecord e)) * 1000000 \<le> usec_of due \<and>
    usec_of due \<le> usec_of (ctimestamp e) + uint (ttl (crecord e)) * 1020000 \<and>
    elapses sc refresh i [t1, t2, t3, t4, t5] c = Ret c5 \<and> cstore c5 i = None \<and>
    outbox c5 = outbox c @ (if refresh (rkey (crecord e)) then replicate 4 (Post_query (rkey (crecord e))) else []) @
      [Lookup_remove (crecord e)]"
proof -
  have "cache_inv sc n c" using assms(1) by (rule reachable_inv)
  from elapses_ok [OF this assms(2), of "[t1, t2, t3, t4]" CACHE_EXPIRY_FINAL refresh] assms(3,4) obtain c4 e4 where
    c4: "elapses sc refresh i [t1, t2, t3, t4] c = Ret c4"
    "cache_inv sc n c4" "cstore c4 i = Some e4" "crecord e4 = crecord e" "ctimestamp e4 = ctimestamp e" "cstate e4 = CACHE_EXPIRY_FINAL"
    "outbox c4 = outbox c @ (if refresh (rkey (crecord e)) then replicate 4 (Post_query (rkey (crecord e))) else [])"
    by (auto simp: numeral_eq_Suc simp del: elapses.simps)
  obtain n5 r5 where t5: "t5 = (n5, r5)" by fastforce
  from cache_inv_entry [OF c4(2,3)] c4(4-6) have due: "time_event e4 = Some (expiry e4)"
    "usec_of (ctimestamp e) + uint (ttl (crecord e)) * 1000000 \<le> usec_of (expiry e4)"
    "usec_of (expiry e4) \<le> usec_of (ctimestamp e) + uint (ttl (crecord e)) * 1020000"
    by (auto simp: centry_ok_def expiry_ok_def)
  have "rand_ok r5" using assms(4) t5 by simp
  with elapse_ok [OF c4(2,3), of r5 n5 refresh] c4(6) obtain c5 where
    c5: "elapse_func sc n5 r5 refresh c4 i = Ret c5" "removed i c4 c5" by auto
  then have "elapses sc refresh i [t1, t2, t3, t4, t5] c = Ret c5" "cstore c5 i = None"
    "outbox c5 = outbox c4 @ [Lookup_remove (crecord e)]"
    using elapses_append [of sc refresh i "[t1, t2, t3, t4]" "[t5]" c] c4(1,3,4) by (simp_all add: t5 removed_def)
  with c4(1,3,7) due show ?thesis by auto
qed

text \<open>A cache that holds one record.\<close>

definition example_cache :: cache where
  "example_cache = (case cache_do True 5 example_update (avahi_cache_new 0) of Ret c \<Rightarrow> c | Crash \<Rightarrow> avahi_cache_new 0)"

definition example_entry :: centry where
  "example_entry = the (cstore example_cache 0)"

lemma example_cache_reachable: "reachable True 5 example_cache"
proof -
  have "reachable True 5 (avahi_cache_new 0)" by (rule reach_new) (simp add: rand_ok_def RAND_MAX_def)
  moreover have "cache_do True 5 example_update (avahi_cache_new 0) = Ret example_cache"
    using cache_do_ok [OF reachable_inv [OF calculation] example_ok(1)] by (auto simp: example_cache_def)
  ultimately show ?thesis using reach_step [OF _ example_ok(1)] by blast
qed

lemma example_cache_entry:
  "cstore example_cache 0 = Some example_entry" "cstate example_entry = CACHE_VALID"
  "crecord example_entry = example_record ''a.local'' 120" "outbox example_cache = [Lookup_new (example_record ''a.local'' 120)]"
  "ctimestamp example_entry = example_time 100"
  by code_simp+

lemma entry_lifetime_witness:
  "\<exists>c4 e4 due c5. elapses True (\<lambda>k. True) 0 [(example_time 196, 1), (example_time 202, 1), (example_time 208, 1), (example_time 214, 1)]
      example_cache = Ret c4 \<and> cstore c4 0 = Some e4 \<and> time_event e4 = Some due \<and>
    usec_of (ctimestamp example_entry) + uint (ttl (crecord example_entry)) * 1000000 \<le> usec_of due \<and>
    usec_of due \<le> usec_of (ctimestamp example_entry) + uint (ttl (crecord example_entry)) * 1020000 \<and>
    elapses True (\<lambda>k. True) 0 [(example_time 196, 1), (example_time 202, 1), (example_time 208, 1), (example_time 214, 1), (example_time 220, 1)]
      example_cache = Ret c5 \<and> cstore c5 0 = None \<and>
    outbox c5 = outbox example_cache @
      (if True then replicate 4 (Post_query (rkey (crecord example_entry))) else []) @ [Lookup_remove (crecord example_entry)]"
  by (rule entry_lifetime [OF example_cache_reachable example_cache_entry(1,2)]) (simp add: rand_ok_def RAND_MAX_def)

section \<open>Passive observation of failure\<close>

text \<open>Queries from other hosts, with their times and senders, that nobody answers.\<close>

fun unanswered :: "bool \<Rightarrow> key \<Rightarrow> (timeval \<times> address) list \<Rightarrow> cache \<Rightarrow> cache res" where
  "unanswered sc k [] c = Ret c"
| "unanswered sc k ((now, a) # qs) c = res_bind (avahi_cache_start_poof sc now c k a) (unanswered sc k qs)"

lemma unanswered_ok:
  "cache_inv sc n c \<Longrightarrow> cstore c i = Some e \<Longrightarrow> key_ok k \<Longrightarrow> asks_for k (rkey (crecord e)) \<Longrightarrow>
   \<exists>c'. unanswered sc k qs c = Ret c' \<and> cache_inv sc n c' \<and> cstore c' i = Some (fold (\<lambda>(now, a). poofed now a) qs e) \<and>
     outbox c' = outbox c"
proof (induction qs arbitrary: c e)
  case (Cons q qs)
  obtain now a where q: "q = (now, a)" by fastforce
  from start_poof_ok [OF Cons.prems(1,3), of now a] Cons.prems(2,4) obtain c1 where
    c1: "avahi_cache_start_poof sc now c k a = Ret c1" "cache_inv sc n c1" "outbox c1 = outbox c"
      "cstore c1 i = Some (poofed now a e)" by auto
  from Cons.IH [OF c1(2,4) Cons.prems(3)] Cons.prems(4) c1(1,3) q show ?case by auto
qed simp

lemma memcmp_refl: "memcmp x x = 0"
  by (induction x) simp_all

lemma address_cmp_refl: "avahi_address_cmp a a = 0"
  by (simp add: avahi_address_cmp_def memcmp_refl)

lemma stop_poof_valid:
  assumes "cache_inv sc n c" "cstore c i = Some e" "rand_ok rnd" "cstate e = CACHE_POOF_FINAL" "poof_address e = a"
  shows "\<exists>c' e'. avahi_cache_stop_poof sc now rnd c (crecord e) a = Ret c' \<and> cstore c' i = Some e' \<and> cstate e' = CACHE_VALID"
proof -
  have "rr_ok (crecord e)" using cache_inv_entry [OF assms(1,2)] by (simp add: centry_ok_def)
  from stop_poof_ok [OF assms(1) this assms(3), of now a] obtain c' x where c':
    "avahi_cache_stop_poof sc now rnd c (crecord e) a = Ret c'" "finds c (crecord e) x"
    "case x of None \<Rightarrow> c' = c
     | Some i \<Rightarrow> \<exists>f f'. cstore c i = Some f \<and> cstore c' = (cstore c)(i \<mapsto> f') \<and> crecord f' = crecord f \<and>
         cstate f' = (if cstate f \<in> {CACHE_POOF, CACHE_POOF_FINAL} \<and> avahi_address_cmp a (poof_address f) = 0
                      then CACHE_VALID else cstate f)" by blast
  have "x = Some i"
    using c'(2) assms(1,2) by (auto simp: finds_def cache_inv_def split: option.splits)
  with c' assms(2,4,5) show ?thesis by (auto simp: address_cmp_refl)
qed

text \<open>
  Property C8. Passive observation of failure: after five queries for a record that stays
  unanswered, each at least a second after the one before, the entry of the record is due one
  second after the fifth; if no answer is heard until then, it is removed and the subscribers are
  told, long before its TTL has passed. After four queries nothing is decided, and an answer
  that the host that asked sees in time makes the entry valid again.
\<close>

theorem poof_removes_entry:
  assumes "reachable sc n c" "cstore c i = Some e" "cstate e = CACHE_VALID" "key_ok k" "asks_for k (rkey (crecord e))"
    and "usec_of t1 + 1000000 \<le> usec_of t2" "usec_of t2 + 1000000 \<le> usec_of t3" "usec_of t3 + 1000000 \<le> usec_of t4"
      "usec_of t4 + 1000000 \<le> usec_of t5" "rand_ok rnd"
  shows "\<exists>c4 e4 c5 e5 due c6 c7 e7.
    unanswered sc k [(t1, a), (t2, a), (t3, a), (t4, a)] c = Ret c4 \<and> cstore c4 i = Some e4 \<and> cstate e4 = CACHE_POOF \<and>
    unanswered sc k [(t1, a), (t2, a), (t3, a), (t4, a), (t5, a)] c = Ret c5 \<and> cstore c5 i = Some e5 \<and>
    cstate e5 = CACHE_POOF_FINAL \<and> time_event e5 = Some due \<and> usec_of due = usec_of t5 + 1000000 \<and>
    elapse_func sc due rnd refresh c5 i = Ret c6 \<and> cstore c6 i = None \<and> outbox c6 = outbox c @ [Lookup_remove (crecord e)] \<and>
    avahi_cache_stop_poof sc t rnd c5 (crecord e) a = Ret c7 \<and> cstore c7 i = Some e7 \<and> cstate e7 = CACHE_VALID"
proof -
  have inv: "cache_inv sc n c" using assms(1) by (rule reachable_inv)
  note run = unanswered_ok [OF inv assms(2,4,5)]
  from run [of "[(t1, a), (t2, a), (t3, a), (t4, a)]"] obtain c4 e4 where
    c4: "unanswered sc k [(t1, a), (t2, a), (t3, a), (t4, a)] c = Ret c4" "cstore c4 i = Some e4"
      "e4 = fold (\<lambda>(now, a). poofed now a) [(t1, a), (t2, a), (t3, a), (t4, a)] e" by blast
  have e4: "cstate e4 = CACHE_POOF" "poof_num e4 = 3" "poof_timestamp e4 = t4" "crecord e4 = crecord e"
    using c4(3) assms(3,6-9) by (auto simp: poofed_def)
  from run [of "[(t1, a), (t2, a), (t3, a), (t4, a), (t5, a)]"] c4(3) obtain c5 where
    c5: "unanswered sc k [(t1, a), (t2, a), (t3, a), (t4, a), (t5, a)] c = Ret c5" "cache_inv sc n c5"
      "cstore c5 i = Some (poofed t5 a e4)" "outbox c5 = outbox c" by auto
  let ?e5 = "poofed t5 a e4"
  have e5: "cstate ?e5 = CACHE_POOF_FINAL" "crecord ?e5 = crecord e" "poof_address ?e5 = a" "expiry ?e5 = avahi_timeval_add t5 1000000"
    using e4 assms(9) by (auto simp: poofed_def expired_by_def)
  from cache_inv_entry [OF c5(2,3)] e5(4) have due: "time_event ?e5 = Some (avahi_timeval_add t5 1000000)" "rr_ok (crecord e)"
    using e5(2) by (auto simp: centry_ok_def)
  from elapse_ok [OF c5(2,3) assms(10), of "avahi_timeval_add t5 1000000" refresh] e5(1,2) obtain c6 where
    c6: "elapse_func sc (avahi_timeval_add t5 1000000) rnd refresh c5 i = Ret c6" "removed i c5 c6" by auto
  then have c6': "cstore c6 i = None" "outbox c6 = outbox c @ [Lookup_remove (crecord e)]"
    using c5(3,4) e5(2) by (simp_all add: removed_def)
  have "\<exists>c7 e7. avahi_cache_stop_poof sc t rnd c5 (crecord e) a = Ret c7 \<and> cstore c7 i = Some e7 \<and> cstate e7 = CACHE_VALID"
    using stop_poof_valid [OF c5(2,3) assms(10)] e5 by auto
  then obtain c7 e7 where "avahi_cache_stop_poof sc t rnd c5 (crecord e) a = Ret c7" "cstore c7 i = Some e7" "cstate e7 = CACHE_VALID"
    by blast
  with c4(1,2) e4(1) c5(1,3) e5(1) due(1) c6(1) c6' show ?thesis
    by (intro exI [of _ c4] exI [of _ e4] exI [of _ c5] exI [of _ ?e5] exI [of _ "avahi_timeval_add t5 1000000"]
        exI [of _ c6] exI [of _ c7] exI [of _ e7] conjI) (simp_all add: usec_of_add)
qed

lemma poof_removes_entry_witness:
  "\<exists>c4 e4 c5 e5 due c6 c7 e7.
    unanswered True (rkey (crecord example_entry)) [(example_time 101, example_address 2), (example_time 102, example_address 2),
      (example_time 103, example_address 2), (example_time 104, example_address 2)] example_cache = Ret c4 \<and>
    cstore c4 0 = Some e4 \<and> cstate e4 = CACHE_POOF \<and>
    unanswered True (rkey (crecord example_entry)) [(example_time 101, example_address 2), (example_time 102, example_address 2),
      (example_time 103, example_address 2), (example_time 104, example_address 2), (example_time 105, example_address 2)]
      example_cache = Ret c5 \<and> cstore c5 0 = Some e5 \<and>
    cstate e5 = CACHE_POOF_FINAL \<and> time_event e5 = Some due \<and> usec_of due = usec_of (example_time 105) + 1000000 \<and>
    elapse_func True due 1 (\<lambda>k. True) c5 0 = Ret c6 \<and> cstore c6 0 = None \<and>
    outbox c6 = outbox example_cache @ [Lookup_remove (crecord example_entry)] \<and>
    avahi_cache_stop_poof True (example_time 105) 1 c5 (crecord example_entry) (example_address 2) = Ret c7 \<and>
    cstore c7 0 = Some e7 \<and> cstate e7 = CACHE_VALID"
proof (rule poof_removes_entry [OF example_cache_reachable example_cache_entry(1,2)])
  show "key_ok (rkey (crecord example_entry))" "asks_for (rkey (crecord example_entry)) (rkey (crecord example_entry))"
    unfolding example_cache_entry(3) by code_simp+
qed (simp_all add: example_time_def usec_of_def rand_ok_def RAND_MAX_def)

end
