(* ===== verification/Prioq.thy ===== *)
theory Prioq
  imports Avahi_Prelude
begin

text \<open>
  \<open>avahi-core/prioq.c\<close>: a priority queue, a heap of nodes linked as a tree and, level by level,
  as a list. Nodes are numbers; every field of the nodes is a map from nodes to its values, so that
  an assignment through a pointer is an update of one map. \<open>palive\<close> are the nodes that are
  allocated; \<open>None\<close> is the null pointer. The comparison of the data is an argument, because
  it reads memory that changes (the time events of \<open>timeeventq.c\<close>). Node numbers, the
  coordinates \<open>x\<close>, \<open>y\<close> and the number of nodes are natural numbers: a queue has fewer than
  \<open>2 ^ 31\<close> nodes, so that \<open>unsigned\<close> does not wrap.
\<close>

section \<open>The data structure\<close>

record 'd prioq =
  palive :: "nat \<Rightarrow> bool"
  pdata :: "nat \<Rightarrow> 'd"
  px :: "nat \<Rightarrow> nat"
  py :: "nat \<Rightarrow> nat"
  pleft :: "nat \<Rightarrow> nat option"
  pright :: "nat \<Rightarrow> nat option"
  pparent :: "nat \<Rightarrow> nat option"
  pnext :: "nat \<Rightarrow> nat option"
  pprev :: "nat \<Rightarrow> nat option"
  proot :: "nat option"
  plast :: "nat option"
  n_nodes :: nat
  pfresh :: nat

definition avahi_prio_queue_new :: "'d \<Rightarrow> 'd prioq" where
  "avahi_prio_queue_new d =
     \<lparr>palive = \<lambda>_. False, pdata = \<lambda>_. d, px = \<lambda>_. 0, py = \<lambda>_. 0, pleft = Map.empty, pright = Map.empty,
      pparent = Map.empty, pnext = Map.empty, pprev = Map.empty, proot = None, plast = None, n_nodes = 0, pfresh = 0\<rparr>"

text \<open>Assignments to the fields of a node.\<close>

definition set_left :: "nat \<Rightarrow> nat option \<Rightarrow> 'd prioq \<Rightarrow> 'd prioq" where
  "set_left n p q = q\<lparr>pleft := (pleft q)(n := p)\<rparr>"

definition set_right :: "nat \<Rightarrow> nat option \<Rightarrow> 'd prioq \<Rightarrow> 'd prioq" where
  "set_right n p q = q\<lparr>pright := (pright q)(n := p)\<rparr>"

definition set_parent :: "nat \<Rightarrow> nat option \<Rightarrow> 'd prioq \<Rightarrow> 'd prioq" where
  "set_parent n p q = q\<lparr>pparent := (pparent q)(n := p)\<rparr>"

definition set_next :: "nat \<Rightarrow> nat option \<Rightarrow> 'd prioq \<Rightarrow> 'd prioq" where
  "set_next n p q = q\<lparr>pnext := (pnext q)(n := p)\<rparr>"

definition set_prev :: "nat \<Rightarrow> nat option \<Rightarrow> 'd prioq \<Rightarrow> 'd prioq" where
  "set_prev n p q = q\<lparr>pprev := (pprev q)(n := p)\<rparr>"

text \<open>\<open>n = get_node_at_xy(q, x, y)\<close>: \<open>k\<close> levels are left to go down.\<close>

fun get_node_loop :: "'d prioq \<Rightarrow> nat \<Rightarrow> nat \<Rightarrow> nat option \<Rightarrow> nat option res" where
  "get_node_loop q x 0 n = Ret n"
| "get_node_loop q x (Suc k) n =
     (case n of
        None \<Rightarrow> Crash
      | Some m \<Rightarrow>
          if \<not> palive q m then Crash
          else get_node_loop q x k (if x div 2 ^ k mod 2 = 1 then pright q m else pleft q m))"

definition get_node_at_xy :: "'d prioq \<Rightarrow> nat \<Rightarrow> nat \<Rightarrow> nat res" where
  "get_node_at_xy q x y =
     (if proot q = None then Crash
      else
        res_bind (get_node_loop q x y (proot q)) (\<lambda>n.
          case n of
            None \<Rightarrow> Crash
          | Some m \<Rightarrow> if palive q m \<and> px q m = x \<and> py q m = y then Ret m else Crash))"

section \<open>Exchanging two nodes\<close>

text \<open>\<open>if ((n->left = c)) c->parent = n\<close> and the like; \<open>p\<close> becomes the parent of \<open>n\<close> in place of
  \<open>old\<close>.\<close>

definition adopt :: "nat option \<Rightarrow> nat \<Rightarrow> 'd prioq \<Rightarrow> 'd prioq" where
  "adopt c n q = (case c of None \<Rightarrow> q | Some m \<Rightarrow> set_parent m (Some n) q)"

definition take_left :: "nat \<Rightarrow> nat option \<Rightarrow> 'd prioq \<Rightarrow> 'd prioq" where
  "take_left n c q = adopt c n (set_left n c q)"

definition take_right :: "nat \<Rightarrow> nat option \<Rightarrow> 'd prioq \<Rightarrow> 'd prioq" where
  "take_right n c q = adopt c n (set_right n c q)"

definition take_parent :: "nat \<Rightarrow> nat option \<Rightarrow> bool \<Rightarrow> 'd prioq \<Rightarrow> 'd prioq" where
  "take_parent n p was_left q =
     (let q = set_parent n p q in
      case p of
        None \<Rightarrow> q\<lparr>proot := Some n\<rparr>
      | Some m \<Rightarrow> if was_left then set_left m (Some n) q else set_right m (Some n) q)"

definition take_next :: "nat \<Rightarrow> nat option \<Rightarrow> 'd prioq \<Rightarrow> 'd prioq" where
  "take_next n p q =
     (let q = set_next n p q in
      case p of None \<Rightarrow> q\<lparr>plast := Some n\<rparr> | Some m \<Rightarrow> set_prev m (Some n) q)"

definition take_prev :: "nat \<Rightarrow> nat option \<Rightarrow> 'd prioq \<Rightarrow> 'd prioq" where
  "take_prev n p q =
     (let q = set_prev n p q in
      case p of None \<Rightarrow> q | Some m \<Rightarrow> set_next m (Some n) q)"

definition swap_positions :: "nat \<Rightarrow> nat \<Rightarrow> 'd prioq \<Rightarrow> 'd prioq" where
  "swap_positions a b q =
     q\<lparr>px := (px q)(a := px q b, b := px q a), py := (py q)(a := py q b, b := py q a)\<rparr>"

text \<open>\<open>l = a->left; if ((a->left = b->left)) ...; if ((b->left = l)) ...\<close>\<close>

definition swap_left :: "nat \<Rightarrow> nat \<Rightarrow> 'd prioq \<Rightarrow> 'd prioq" where
  "swap_left a b q = take_left b (pleft q a) (take_left a (pleft q b) q)"

definition swap_right :: "nat \<Rightarrow> nat \<Rightarrow> 'd prioq \<Rightarrow> 'd prioq" where
  "swap_right a b q = take_right b (pright q a) (take_right a (pright q b) q)"

text \<open>The two branches for a node \<open>c\<close> and its parent \<open>p\<close>; \<open>a\<close> and \<open>b\<close> are these two.\<close>

definition exchange_with_parent :: "nat \<Rightarrow> nat \<Rightarrow> nat \<Rightarrow> nat \<Rightarrow> 'd prioq \<Rightarrow> 'd prioq" where
  "exchange_with_parent a b c p q =
     (let g = pparent q p;
          q = set_parent p (Some c) q;
          q = take_parent c g (case g of None \<Rightarrow> False | Some m \<Rightarrow> pleft q m = Some p) q
      in if pleft q p = Some c then swap_right a b (set_left c (Some p) (take_left p (pleft q c) q))
         else swap_left a b (set_right c (Some p) (take_right p (pright q c) q)))"

definition exchange_apart :: "nat \<Rightarrow> nat \<Rightarrow> 'd prioq \<Rightarrow> 'd prioq" where
  "exchange_apart a b q =
     (let ap = pparent q a; bp = pparent q b;
          al = (case ap of None \<Rightarrow> False | Some m \<Rightarrow> pleft q m = Some a);
          bl = (case bp of None \<Rightarrow> False | Some m \<Rightarrow> pleft q m = Some b);
          q = take_parent b ap al (take_parent a bp bl q);
          l = pleft q a; r = pright q a;
          q = take_left b l (take_left a (pleft q b) q)
      in take_right b r (take_right a (pright q b) q))"

definition exchange_tree :: "nat \<Rightarrow> nat \<Rightarrow> 'd prioq \<Rightarrow> 'd prioq" where
  "exchange_tree a b q =
     (if pparent q a = Some b then exchange_with_parent a b a b q
      else if pparent q b = Some a then exchange_with_parent a b b a q
      else exchange_apart a b q)"

definition exchange_siblings :: "nat \<Rightarrow> nat \<Rightarrow> 'd prioq \<Rightarrow> 'd prioq" where
  "exchange_siblings a b q =
     (let ap = pprev q a; an = pnext q a; bp = pprev q b; bn = pnext q b
      in if pnext q a = Some b then
           take_prev b ap (take_next a bn (set_next b (Some a) (set_prev a (Some b) q)))
         else if pnext q b = Some a then
           take_next b an (take_prev a bp (set_prev b (Some a) (set_next a (Some b) q)))
         else take_next b an (take_prev b ap (take_next a bn (take_prev a bp q))))"

definition exchange_nodes :: "'d prioq \<Rightarrow> nat \<Rightarrow> nat \<Rightarrow> 'd prioq res" where
  "exchange_nodes q a b =
     (if a = b \<or> \<not> palive q a \<or> \<not> palive q b then Crash
      else Ret (exchange_siblings a b (exchange_tree a b (swap_positions a b q))))"

section \<open>Shuffle, put, remove\<close>

text \<open>The two loops of \<open>avahi_prio_queue_shuffle\<close>; the first argument bounds their rounds.\<close>

fun shuffle_up :: "('d \<Rightarrow> 'd \<Rightarrow> int) \<Rightarrow> nat \<Rightarrow> 'd prioq \<Rightarrow> nat \<Rightarrow> 'd prioq res" where
  "shuffle_up cmp 0 q n = Crash"
| "shuffle_up cmp (Suc k) q n =
     (case pparent q n of
        None \<Rightarrow> Ret q
      | Some p \<Rightarrow>
          if 0 < cmp (pdata q p) (pdata q n)
          then res_bind (exchange_nodes q n p) (\<lambda>q. shuffle_up cmp k q n)
          else Ret q)"

fun shuffle_down :: "('d \<Rightarrow> 'd \<Rightarrow> int) \<Rightarrow> nat \<Rightarrow> 'd prioq \<Rightarrow> nat \<Rightarrow> 'd prioq res" where
  "shuffle_down cmp 0 q n = Crash"
| "shuffle_down cmp (Suc k) q n =
     (case pleft q n of
        None \<Rightarrow> if pright q n = None then Ret q else Crash
      | Some l \<Rightarrow>
          let m = (case pright q n of None \<Rightarrow> l | Some r \<Rightarrow> if cmp (pdata q r) (pdata q l) < 0 then r else l)
          in if cmp (pdata q n) (pdata q m) \<le> 0 then Ret q
             else res_bind (exchange_nodes q n m) (\<lambda>q. shuffle_down cmp k q n))"

definition avahi_prio_queue_shuffle :: "('d \<Rightarrow> 'd \<Rightarrow> int) \<Rightarrow> 'd prioq \<Rightarrow> nat \<Rightarrow> 'd prioq res" where
  "avahi_prio_queue_shuffle cmp q n =
     (if \<not> palive q n then Crash
      else res_bind (shuffle_up cmp (n_nodes q) q n) (\<lambda>q. shuffle_down cmp (n_nodes q) q n))"

text \<open>
  \<open>avahi_prio_queue_put\<close> before the node is moved to its place: the coordinates after those of
  the last node, the link from the parent, what is set in any case.
\<close>

definition next_position :: "nat \<Rightarrow> nat \<Rightarrow> nat \<times> nat" where
  "next_position x y = (if 2 ^ y \<le> x + 1 then (0, y + 1) else (x + 1, y))"

definition attach_node :: "nat \<Rightarrow> nat \<Rightarrow> nat \<Rightarrow> 'd prioq \<Rightarrow> 'd prioq" where
  "attach_node n p x q =
     (let q = set_parent n (Some p) q
      in if x mod 2 = 1 then set_right p (Some n) q else set_left p (Some n) q)"

definition finish_node :: "nat \<Rightarrow> 'd prioq \<Rightarrow> 'd prioq" where
  "finish_node n q = (set_next n None (set_left n None (set_right n None q)))\<lparr>plast := Some n, n_nodes := n_nodes q + 1\<rparr>"

definition append_node :: "'d prioq \<Rightarrow> 'd \<Rightarrow> 'd prioq res" where
  "append_node q d =
     (let n = pfresh q;
          q1 = q\<lparr>palive := (palive q)(n := True), pfresh := Suc n, pdata := (pdata q)(n := d)\<rparr>
      in case plast q of
           None \<Rightarrow>
             if proot q \<noteq> None \<or> n_nodes q \<noteq> 0 then Crash
             else Ret (finish_node n (set_prev n None (set_parent n None
                    (q1\<lparr>px := (px q1)(n := 0), py := (py q1)(n := 0), proot := Some n\<rparr>))))
         | Some l \<Rightarrow>
             if proot q = None \<or> n_nodes q = 0 then Crash
             else
               (case next_position (px q l) (py q l) of (x, y) \<Rightarrow>
                 let q2 = set_prev n (Some l) (set_next l (Some n) (q1\<lparr>px := (px q1)(n := x), py := (py q1)(n := y)\<rparr>))
                 in if y = 0 then Crash
                    else res_bind (get_node_at_xy q2 (x div 2) (y - 1)) (\<lambda>p. Ret (finish_node n (attach_node n p x q2)))))"

definition avahi_prio_queue_put :: "('d \<Rightarrow> 'd \<Rightarrow> int) \<Rightarrow> 'd prioq \<Rightarrow> 'd \<Rightarrow> ('d prioq \<times> nat) res" where
  "avahi_prio_queue_put cmp q d =
     res_bind (append_node q d) (\<lambda>q'. res_map (\<lambda>q''. (q'', pfresh q)) (avahi_prio_queue_shuffle cmp q' (pfresh q)))"

text \<open>\<open>avahi_prio_queue_remove\<close> of the last node.\<close>

definition remove_last :: "'d prioq \<Rightarrow> nat \<Rightarrow> 'd prioq res" where
  "remove_last q n =
     (if \<not> palive q n \<or> plast q \<noteq> Some n \<or> pnext q n \<noteq> None \<or> pleft q n \<noteq> None \<or> pright q n \<noteq> None then Crash
      else
        let q = q\<lparr>plast := pprev q n\<rparr>;
            q1 = (case pprev q n of None \<Rightarrow> q | Some m \<Rightarrow> set_next m None q);
            done_with = (\<lambda>q. if n_nodes q = 0 then Crash
                             else Ret (q\<lparr>palive := (palive q)(n := False), n_nodes := n_nodes q - 1\<rparr>))
        in if (pprev q n = None) \<noteq> (pparent q n = None) then Crash
           else case pparent q1 n of
             Some p \<Rightarrow>
               if \<not> palive q p then Crash
               else if pleft q1 p = Some n then if pright q1 p \<noteq> None then Crash else done_with (set_left p None q1)
               else if pright q1 p \<noteq> Some n \<or> pleft q1 p = None then Crash
               else done_with (set_right p None q1)
           | None \<Rightarrow>
               if proot q1 \<noteq> Some n \<or> n_nodes q1 \<noteq> 1 then Crash else done_with (q1\<lparr>proot := None\<rparr>))"

definition avahi_prio_queue_remove :: "('d \<Rightarrow> 'd \<Rightarrow> int) \<Rightarrow> 'd prioq \<Rightarrow> nat \<Rightarrow> 'd prioq res" where
  "avahi_prio_queue_remove cmp q n =
     (if \<not> palive q n then Crash
      else if plast q = Some n then remove_last q n
      else
        case plast q of
          None \<Rightarrow> Crash
        | Some r \<Rightarrow>
            res_bind (exchange_nodes q r n) (\<lambda>q.
            res_bind (remove_last q n) (\<lambda>q. avahi_prio_queue_shuffle cmp q r)))"

text \<open>\<open>avahi_prio_queue_free\<close> removes the last node until there is none; \<open>k\<close> bounds the rounds.\<close>

fun prio_queue_free_loop :: "('d \<Rightarrow> 'd \<Rightarrow> int) \<Rightarrow> nat \<Rightarrow> 'd prioq \<Rightarrow> 'd prioq res" where
  "prio_queue_free_loop cmp 0 q = (if plast q = None \<and> n_nodes q = 0 then Ret q else Crash)"
| "prio_queue_free_loop cmp (Suc k) q =
     (case plast q of
        None \<Rightarrow> if n_nodes q = 0 then Ret q else Crash
      | Some n \<Rightarrow> res_bind (avahi_prio_queue_remove cmp q n) (prio_queue_free_loop cmp k))"

definition avahi_prio_queue_free :: "('d \<Rightarrow> 'd \<Rightarrow> int) \<Rightarrow> 'd prioq \<Rightarrow> 'd prioq res" where
  "avahi_prio_queue_free cmp q = prio_queue_free_loop cmp (n_nodes q) q"

end
