(* ===== verification/Prioq_Links.thy ===== *)
theory Prioq_Links
  imports Prioq
begin

text \<open>
  Exchanging two nodes of the queue renames them in the links of all nodes: \<open>exchange_nodes\<close> on the
  shape of the queue, the list of its nodes level by level.
\<close>

section \<open>Links\<close>

definition swap_node :: "nat \<Rightarrow> nat \<Rightarrow> nat \<Rightarrow> nat" where
  "swap_node a b c = (if c = a then b else if c = b then a else c)"

definition links_ok :: "'d prioq \<Rightarrow> bool" where
  "links_ok q \<longleftrightarrow>
     (\<forall>c d. palive q c \<longrightarrow> pleft q c = Some d \<longrightarrow> palive q d \<and> d \<noteq> c \<and> pparent q d = Some c \<and> pright q c \<noteq> Some d) \<and>
     (\<forall>c d. palive q c \<longrightarrow> pright q c = Some d \<longrightarrow> palive q d \<and> d \<noteq> c \<and> pparent q d = Some c) \<and>
     (\<forall>c d. palive q c \<longrightarrow> pparent q c = Some d \<longrightarrow>
        palive q d \<and> (pleft q d = Some c \<or> pright q d = Some c) \<and> pparent q d \<noteq> Some c) \<and>
     (\<forall>c. palive q c \<longrightarrow> pparent q c = None \<longleftrightarrow> proot q = Some c)"

definition renames_tree :: "nat \<Rightarrow> nat \<Rightarrow> 'd prioq \<Rightarrow> 'd prioq \<Rightarrow> bool" where
  "renames_tree a b q q' \<longleftrightarrow>
     (\<forall>c. palive q c \<longrightarrow>
        pleft q' (swap_node a b c) = map_option (swap_node a b) (pleft q c) \<and>
        pright q' (swap_node a b c) = map_option (swap_node a b) (pright q c) \<and>
        pparent q' (swap_node a b c) = map_option (swap_node a b) (pparent q c)) \<and>
     proot q' = map_option (swap_node a b) (proot q)"

lemma set_simps [simp]:
  "pleft (set_left n p q) = (pleft q)(n := p)" "pright (set_left n p q) = pright q" "pparent (set_left n p q) = pparent q"
  "proot (set_left n p q) = proot q"
  "pleft (set_right n p q) = pleft q" "pright (set_right n p q) = (pright q)(n := p)" "pparent (set_right n p q) = pparent q"
  "proot (set_right n p q) = proot q"
  "pleft (set_parent n p q) = pleft q" "pright (set_parent n p q) = pright q" "pparent (set_parent n p q) = (pparent q)(n := p)"
  "proot (set_parent n p q) = proot q"
  by (simp_all add: set_left_def set_right_def set_parent_def)

lemma adopt_simps [simp]:
  "pleft (adopt c n q) = pleft q" "pright (adopt c n q) = pright q" "proot (adopt c n q) = proot q"
  "pparent (adopt c n q) = (\<lambda>x. if c = Some x then Some n else pparent q x)"
  by (auto simp: adopt_def set_parent_def split: option.splits)

lemma take_simps [simp]:
  "pleft (take_left n c q) = (pleft q)(n := c)" "pright (take_left n c q) = pright q" "proot (take_left n c q) = proot q"
  "pparent (take_left n c q) = (\<lambda>x. if c = Some x then Some n else pparent q x)"
  "pright (take_right n c q) = (pright q)(n := c)" "pleft (take_right n c q) = pleft q" "proot (take_right n c q) = proot q"
  "pparent (take_right n c q) = (\<lambda>x. if c = Some x then Some n else pparent q x)"
  by (auto simp: take_left_def take_right_def)

lemma take_parent_simps [simp]:
  "pleft (take_parent n p w q) = (\<lambda>x. if p = Some x \<and> w then Some n else pleft q x)"
  "pright (take_parent n p w q) = (\<lambda>x. if p = Some x \<and> \<not> w then Some n else pright q x)"
  "pparent (take_parent n p w q) = (pparent q)(n := p)"
  "proot (take_parent n p w q) = (if p = None then Some n else proot q)"
  by (auto simp: take_parent_def Let_def split: option.splits)

lemma swap_simps [simp]:
  assumes "a \<noteq> b"
  shows "pleft (swap_left a b q) = (pleft q)(a := pleft q b, b := pleft q a)" "pright (swap_left a b q) = pright q"
    "proot (swap_left a b q) = proot q"
    "pparent (swap_left a b q) = (\<lambda>x. if pleft q a = Some x then Some b else if pleft q b = Some x then Some a else pparent q x)"
    "pright (swap_right a b q) = (pright q)(a := pright q b, b := pright q a)" "pleft (swap_right a b q) = pleft q"
    "proot (swap_right a b q) = proot q"
    "pparent (swap_right a b q) = (\<lambda>x. if pright q a = Some x then Some b else if pright q b = Some x then Some a else pparent q x)"
  using assms by (simp_all add: swap_left_def swap_right_def cong: if_cong)

lemma map_swap_node: "p \<noteq> Some a \<Longrightarrow> p \<noteq> Some b \<Longrightarrow> map_option (swap_node a b) p = p"
  by (cases p) (auto simp: swap_node_def)

lemma adopt_record: "adopt c n q = q\<lparr>pparent := (\<lambda>x. if c = Some x then Some n else pparent q x)\<rparr>"
  by (auto simp: adopt_def set_parent_def fun_eq_iff split: option.splits intro!: prioq.fold_congs)

lemma swap_right_record:
  assumes "a \<noteq> b"
  shows "swap_right a b q = q\<lparr>pright := (pright q)(a := pright q b, b := pright q a),
    pparent := (\<lambda>x. if pright q a = Some x then Some b else if pright q b = Some x then Some a else pparent q x)\<rparr>"
  using assms by (simp add: swap_right_def take_right_def set_right_def adopt_record cong: if_cong)

lemma swap_left_record:
  assumes "a \<noteq> b"
  shows "swap_left a b q = q\<lparr>pleft := (pleft q)(a := pleft q b, b := pleft q a),
    pparent := (\<lambda>x. if pleft q a = Some x then Some b else if pleft q b = Some x then Some a else pparent q x)\<rparr>"
  using assms by (simp add: swap_left_def take_left_def set_left_def adopt_record cong: if_cong)

lemma swap_sym:
  assumes "a \<noteq> b"
  shows "\<forall>x. pright q a = Some x \<longrightarrow> pright q b \<noteq> Some x \<Longrightarrow> swap_right a b q = swap_right b a q"
    "\<forall>x. pleft q a = Some x \<longrightarrow> pleft q b \<noteq> Some x \<Longrightarrow> swap_left a b q = swap_left b a q"
proof -
  have f: "\<forall>x. f a = Some x \<longrightarrow> f b \<noteq> Some x \<Longrightarrow>
      (\<lambda>x. if f a = Some x then Some b else if f b = Some x then Some a else h x) =
      (\<lambda>x. if f b = Some x then Some a else if f a = Some x then Some b else h x)" for f h :: "nat \<Rightarrow> nat option"
    by auto
  have u: "f(a := x, b := y) = f(b := y, a := x)" for f :: "nat \<Rightarrow> nat option" and x y
    using assms by (simp add: fun_upd_twist)
  show "\<forall>x. pright q a = Some x \<longrightarrow> pright q b \<noteq> Some x \<Longrightarrow> swap_right a b q = swap_right b a q"
    unfolding swap_right_record [OF assms] swap_right_record [OF assms [symmetric]] by (subst u, subst f) simp_all
  show "\<forall>x. pleft q a = Some x \<longrightarrow> pleft q b \<noteq> Some x \<Longrightarrow> swap_left a b q = swap_left b a q"
    unfolding swap_left_record [OF assms] swap_left_record [OF assms [symmetric]] by (subst u, subst f) simp_all
qed

lemma swap_node_commute: "swap_node a b = swap_node b a"
  by (auto simp: swap_node_def fun_eq_iff)

lemma rename_child:
  "a \<noteq> b \<Longrightarrow> p = Some a \<longleftrightarrow> P \<Longrightarrow> p = Some b \<longleftrightarrow> Q \<Longrightarrow>
   (if P then Some b else if Q then Some a else p) = map_option (swap_node a b) p"
  by (cases p) (auto simp: swap_node_def)

lemma exchange_parent_renames:
  assumes ok: "links_ok q" "palive q c" "palive q p" "pleft q p = Some c \<or> pright q p = Some c"
    and ab: "a = c \<and> b = p \<or> a = p \<and> b = c"
  shows "renames_tree c p q (exchange_with_parent a b c p q)"
proof -
  let ?g = "pparent q p"
  let ?q = "exchange_with_parent a b c p q"
  let ?l = "pleft q p = Some c"
  define w where "w = (case ?g of None \<Rightarrow> False | Some m \<Rightarrow> pleft q m = Some p)"
  have wg: "?g = Some m \<Longrightarrow> w \<longleftrightarrow> pleft q m = Some p" for m by (simp add: w_def)
  have ne: "c \<noteq> p" "?g \<noteq> Some c" "?g \<noteq> Some p" "pparent q c = Some p" "\<not> ?l \<longleftrightarrow> pright q p = Some c"
    "pleft q c \<noteq> Some c" "pleft q c \<noteq> Some p" "pright q c \<noteq> Some c" "pright q c \<noteq> Some p" "pright q p \<noteq> Some p" "pleft q p \<noteq> Some p"
    using ok unfolding links_ok_def by metis+
  have ab': "a \<noteq> b" using ne(1) ab by auto
  define q1 where "q1 = take_parent c ?g w (set_parent p (Some c) q)"
  have q1: "pleft q1 = (\<lambda>x. if ?g = Some x \<and> w then Some c else pleft q x)"
    "pright q1 = (\<lambda>x. if ?g = Some x \<and> \<not> w then Some c else pright q x)"
    "pparent q1 = (pparent q)(p := Some c, c := ?g)" "proot q1 = (if ?g = None then Some c else proot q)"
    by (simp_all add: q1_def cong: if_cong)
  have q1ab: "pleft q1 c = pleft q c" "pleft q1 p = pleft q p" "pright q1 c = pright q c" "pright q1 p = pright q p"
    using ne by (auto simp: q1)
  define q2 where "q2 = (if ?l then set_left c (Some p) (take_left p (pleft q1 c) q1) else set_right c (Some p) (take_right p (pright q1 c) q1))"
  have q2: "pleft q2 = (if ?l then (pleft q1)(p := pleft q1 c, c := Some p) else pleft q1)"
    "pright q2 = (if ?l then pright q1 else (pright q1)(p := pright q1 c, c := Some p))"
    "pparent q2 = (\<lambda>x. if (if ?l then pleft q1 c = Some x else pright q1 c = Some x) then Some p else pparent q1 x)" "proot q2 = proot q1"
    by (simp_all add: q2_def cong: if_cong)
  have q': "?q = (if ?l then swap_right a b q2 else swap_left a b q2)"
    using ne(2,3) by (simp add: exchange_with_parent_def Let_def w_def [symmetric] q1_def [symmetric] q2_def cong: option.case_cong)
  have links: "palive q x \<Longrightarrow> pleft q x = Some y \<Longrightarrow> pparent q y = Some x"
      "palive q x \<Longrightarrow> pright q x = Some y \<Longrightarrow> pparent q y = Some x"
      "palive q x \<Longrightarrow> pparent q x = Some y \<Longrightarrow> pleft q y = Some x \<longleftrightarrow> pright q y \<noteq> Some x"
      "palive q x \<Longrightarrow> pparent q x = None \<longleftrightarrow> proot q = Some x" for x y
    using ok(1) unfolding links_ok_def by blast+
  have apart: "pright q p \<noteq> Some x \<or> pright q c \<noteq> Some x" "pleft q p \<noteq> Some x \<or> pleft q c \<noteq> Some x"
    "pleft q p \<noteq> Some x \<or> pright q c \<noteq> Some x" "pright q p \<noteq> Some x \<or> pleft q c \<noteq> Some x" for x
    using links(1,2) [OF ok(2), of x] links(1,2) [OF ok(3), of x] ne(1) by auto
  have q'': "?q = (if ?l then swap_right c p q2 else swap_left c p q2)"
  proof (cases "a = c")
    case True
    then show ?thesis using ab ne(1) q' by auto
  next
    case False
    then have "a = p" "b = c" using ab by auto
    moreover have "\<forall>x. pright q2 p = Some x \<longrightarrow> pright q2 c \<noteq> Some x" if ?l
      using that apart(1) q1ab(3,4) by (simp add: q2)
    moreover have "\<forall>x. pleft q2 p = Some x \<longrightarrow> pleft q2 c \<noteq> Some x" if "\<not> ?l"
      using that apart(2) q1ab(1,2) by (simp add: q2)
    ultimately show ?thesis using swap_sym [OF ne(1) [symmetric]] q' by auto
  qed
  have r: "proot ?q = (if ?g = None then Some c else proot q)"
    using ne(1) by (simp add: q'' q2 q1)
  have l: "pleft ?q x = (if x = c then if ?l then Some p else pleft q p else if x = p then pleft q c
      else if ?g = Some x \<and> w then Some c else pleft q x)" for x
    using ne q1ab by (cases ?l; simp add: q'' q2; simp add: q1)
  have rr: "pright ?q x = (if x = c then if ?l then pright q p else Some p else if x = p then pright q c
      else if ?g = Some x \<and> \<not> w then Some c else pright q x)" for x
    using ne q1ab by (cases ?l; simp add: q'' q2; simp add: q1)
  have pp: "pparent ?q x = (if x = c then ?g else if x = p then Some c else if pleft q p = Some x \<or> pright q p = Some x then Some c
     else if pleft q c = Some x \<or> pright q c = Some x then Some p else pparent q x)" for x
    using ne q1ab apart [of x] by (cases ?l; simp add: q'' q2; simp add: q1)
  have child: "pleft q x = Some p \<longleftrightarrow> ?g = Some x \<and> w" "pright q x = Some p \<longleftrightarrow> ?g = Some x \<and> \<not> w" if "palive q x" for x
    using links(1,2) [OF that, of p] links(3) [OF ok(3), of x] wg [of x] by blast+
  have nc: "pleft q x = Some c \<longleftrightarrow> False" "pright q x = Some c \<longleftrightarrow> False" if "palive q x" "x \<noteq> p" for x
    using links(1,2) [OF that(1), of c] ne(4) that(2) by auto
  note id = map_swap_node [of _ c p]
  note rename = rename_child [OF ne(1) [symmetric], unfolded swap_node_commute [of p c]]
  show ?thesis
    unfolding renames_tree_def
  proof (intro conjI allI impI)
    fix x assume x: "palive q x"
    show "pleft ?q (swap_node c p x) = map_option (swap_node c p) (pleft q x)"
      using rename [OF child(1) [OF x] nc(1) [OF x]] ne
      by (cases "x = p"; cases "x = c"; cases ?l) (simp_all add: l id, auto simp: swap_node_def l)
    show "pright ?q (swap_node c p x) = map_option (swap_node c p) (pright q x)"
      using rename [OF child(2) [OF x] nc(2) [OF x]] ne
      by (auto simp: rr swap_node_def [of c p x] id) (auto simp: swap_node_def)
    have "pparent q x = Some p \<longleftrightarrow> pleft q p = Some x \<or> pright q p = Some x" "pparent q x = Some c \<longleftrightarrow> pleft q c = Some x \<or> pright q c = Some x"
      using links(1,2) [OF ok(2), of x] links(1,2) [OF ok(3), of x] links(3) [OF x] by blast+
    from rename [OF this] show "pparent ?q (swap_node c p x) = map_option (swap_node c p) (pparent q x)"
      using ne by (auto simp: pp swap_node_def [of c p x] id)
  next
    show "proot ?q = map_option (swap_node c p) (proot q)" using links(4) [OF ok(3)] links(4) [OF ok(2)] ne r
      by (cases "proot q") (auto simp: swap_node_def)
  qed
qed

lemma exchange_apart_renames:
  assumes ok: "links_ok q" "palive q a" "palive q b" "a \<noteq> b" "pparent q a \<noteq> Some b" "pparent q b \<noteq> Some a"
  shows "renames_tree a b q (exchange_apart a b q)"
proof -
  let ?ap = "pparent q a" and ?bp = "pparent q b"
  let ?q = "exchange_apart a b q"
  define al where "al = (case ?ap of None \<Rightarrow> False | Some m \<Rightarrow> pleft q m = Some a)"
  define bl where "bl = (case ?bp of None \<Rightarrow> False | Some m \<Rightarrow> pleft q m = Some b)"
  have wg: "?ap = Some m \<Longrightarrow> al \<longleftrightarrow> pleft q m = Some a" "?bp = Some m \<Longrightarrow> bl \<longleftrightarrow> pleft q m = Some b" for m
    by (simp_all add: al_def bl_def)
  have links: "palive q x \<Longrightarrow> pleft q x = Some y \<Longrightarrow> pparent q y = Some x"
      "palive q x \<Longrightarrow> pright q x = Some y \<Longrightarrow> pparent q y = Some x"
      "palive q x \<Longrightarrow> pparent q x = Some y \<Longrightarrow> pleft q y = Some x \<longleftrightarrow> pright q y \<noteq> Some x"
      "palive q x \<Longrightarrow> pparent q x = None \<longleftrightarrow> proot q = Some x"
      "palive q x \<Longrightarrow> pparent q x = Some y \<Longrightarrow> palive q y" for x y
    using ok(1) unfolding links_ok_def by blast+
  have ne: "?ap \<noteq> Some a" "?bp \<noteq> Some b" 
    using ok unfolding links_ok_def by metis+
  have ch: "pleft q a \<noteq> Some a" "pleft q a \<noteq> Some b" "pright q a \<noteq> Some a" "pright q a \<noteq> Some b"
    "pleft q b \<noteq> Some a" "pleft q b \<noteq> Some b" "pright q b \<noteq> Some a" "pright q b \<noteq> Some b"
    using links(1,2) [OF ok(2)] links(1,2) [OF ok(3)] ne ok(5,6) by auto
  define q1 where "q1 = take_parent b ?ap al (take_parent a ?bp bl q)"
  have q1: "pleft q1 = (\<lambda>x. if ?ap = Some x \<and> al then Some b else if ?bp = Some x \<and> bl then Some a else pleft q x)"
    "pright q1 = (\<lambda>x. if ?ap = Some x \<and> \<not> al then Some b else if ?bp = Some x \<and> \<not> bl then Some a else pright q x)"
    "pparent q1 = (pparent q)(a := ?bp, b := ?ap)" "proot q1 = (if ?ap = None then Some b else if ?bp = None then Some a else proot q)"
    by (simp_all add: q1_def cong: if_cong)
  have q1ab: "pleft q1 a = pleft q a" "pleft q1 b = pleft q b" "pright q1 a = pright q a" "pright q1 b = pright q b"
    using ne ok(5,6) by (auto simp: q1)
  define q2 where "q2 = take_left b (pleft q1 a) (take_left a (pleft q1 b) q1)"
  have q2: "pleft q2 = (pleft q1)(a := pleft q1 b, b := pleft q1 a)" "pright q2 = pright q1" "proot q2 = proot q1"
    "pparent q2 = (\<lambda>x. if pleft q1 a = Some x then Some b else if pleft q1 b = Some x then Some a else pparent q1 x)"
    by (simp_all add: q2_def cong: if_cong)
  have q': "?q = take_right b (pright q1 a) (take_right a (pright q2 b) q2)"
    by (simp only: exchange_apart_def Let_def al_def [symmetric] bl_def [symmetric] q1_def [symmetric] q2_def [symmetric])
  have r: "proot ?q = (if ?ap = None then Some b else if ?bp = None then Some a else proot q)"
    by (simp add: q' q2 q1)
  have l: "pleft ?q x = (if x = a then pleft q b else if x = b then pleft q a
      else if ?ap = Some x \<and> al then Some b else if ?bp = Some x \<and> bl then Some a else pleft q x)" for x
    using q1ab ok(4) by (simp add: q' q2) (simp add: q1)
  have rr: "pright ?q x = (if x = a then pright q b else if x = b then pright q a
      else if ?ap = Some x \<and> \<not> al then Some b else if ?bp = Some x \<and> \<not> bl then Some a else pright q x)" for x
    using q1ab ok(4) by (simp add: q' q2) (simp add: q1)
  have pp: "pparent ?q x = (if x = a then ?bp else if x = b then ?ap else if pleft q a = Some x \<or> pright q a = Some x then Some b
     else if pleft q b = Some x \<or> pright q b = Some x then Some a else pparent q x)" if "palive q x" for x
    using q1ab ok(4) ch links(1,2) [OF ok(2)] links(1,2) [OF ok(3)] by (auto simp: q' q2) (auto simp: q1)
  have child: "pleft q x = Some a \<longleftrightarrow> ?ap = Some x \<and> al" "pleft q x = Some b \<longleftrightarrow> ?bp = Some x \<and> bl"
      "pright q x = Some a \<longleftrightarrow> ?ap = Some x \<and> \<not> al" "pright q x = Some b \<longleftrightarrow> ?bp = Some x \<and> \<not> bl" if "palive q x" for x
    using links(1,2) [OF that, of a] links(1,2) [OF that, of b] links(3) [OF ok(2), of x] links(3) [OF ok(3), of x] wg [of x] by blast+
  note id = map_swap_node [of _ a b]
  show ?thesis
    unfolding renames_tree_def
  proof (intro conjI allI impI)
    fix x assume x: "palive q x"
    have x': "palive q (swap_node a b x)" using x ok(2,3) by (simp add: swap_node_def)
    show "pleft ?q (swap_node a b x) = map_option (swap_node a b) (pleft q x)"
      using rename_child [OF ok(4) child(1,2) [OF x]] ch(1,2,5,6) ok(4)
      by (auto simp: l swap_node_def [of a b x] id)
    show "pright ?q (swap_node a b x) = map_option (swap_node a b) (pright q x)"
      using rename_child [OF ok(4) child(3,4) [OF x]] ch(3,4,7,8) ok(4)
      by (auto simp: rr swap_node_def [of a b x] id)
    have "pparent q x = Some a \<longleftrightarrow> pleft q a = Some x \<or> pright q a = Some x" "pparent q x = Some b \<longleftrightarrow> pleft q b = Some x \<or> pright q b = Some x"
      using links(1,2) [OF ok(2), of x] links(1,2) [OF ok(3), of x] links(3) [OF x] by blast+
    from rename_child [OF ok(4) this] show "pparent ?q (swap_node a b x) = map_option (swap_node a b) (pparent q x)"
      using ok(4-6) ne ch by (auto simp: pp [OF x] pp [OF ok(2)] pp [OF ok(3)] swap_node_def [of a b x] id)
  next
    show "proot ?q = map_option (swap_node a b) (proot q)" using links(4) [OF ok(3)] links(4) [OF ok(2)] ok(4) r
      by (cases "proot q") (auto simp: swap_node_def)
  qed
qed

definition siblings_ok :: "'d prioq \<Rightarrow> bool" where
  "siblings_ok q \<longleftrightarrow>
     (\<forall>c d. palive q c \<longrightarrow> pnext q c = Some d \<longrightarrow> palive q d \<and> d \<noteq> c \<and> pprev q d = Some c \<and> pnext q d \<noteq> Some c) \<and>
     (\<forall>c d. palive q c \<longrightarrow> pprev q c = Some d \<longrightarrow> palive q d \<and> pnext q d = Some c) \<and>
     (\<forall>c. palive q c \<longrightarrow> pnext q c = None \<longleftrightarrow> plast q = Some c)"

definition renames_list :: "nat \<Rightarrow> nat \<Rightarrow> 'd prioq \<Rightarrow> 'd prioq \<Rightarrow> bool" where
  "renames_list a b q q' \<longleftrightarrow>
     (\<forall>c. palive q c \<longrightarrow>
        pnext q' (swap_node a b c) = map_option (swap_node a b) (pnext q c) \<and>
        pprev q' (swap_node a b c) = map_option (swap_node a b) (pprev q c)) \<and>
     plast q' = map_option (swap_node a b) (plast q)"

lemma set_list_simps [simp]:
  "pnext (set_next n p q) = (pnext q)(n := p)" "pprev (set_next n p q) = pprev q" "plast (set_next n p q) = plast q"
  "pnext (set_prev n p q) = pnext q" "pprev (set_prev n p q) = (pprev q)(n := p)" "plast (set_prev n p q) = plast q"
  by (simp_all add: set_next_def set_prev_def)

lemma take_list_simps [simp]:
  "pnext (take_next n p q) = (pnext q)(n := p)" "pprev (take_next n p q) = (\<lambda>x. if p = Some x then Some n else pprev q x)"
  "plast (take_next n p q) = (if p = None then Some n else plast q)"
  "pnext (take_prev n p q) = (\<lambda>x. if p = Some x then Some n else pnext q x)" "pprev (take_prev n p q) = (pprev q)(n := p)"
  "plast (take_prev n p q) = plast q"
  by (auto simp: take_next_def take_prev_def Let_def split: option.splits)

lemma exchange_siblings_renames:
  assumes ok: "siblings_ok q" "palive q a" "palive q b" "a \<noteq> b"
  shows "renames_list a b q (exchange_siblings a b q)"
proof -
  have links: "palive q x \<Longrightarrow> pnext q x = Some y \<longleftrightarrow> palive q y \<and> pprev q y = Some x"
      "palive q x \<Longrightarrow> pnext q x = None \<longleftrightarrow> plast q = Some x" for x y
    using ok(1) unfolding siblings_ok_def by blast+
  have ne: "pnext q a \<noteq> Some a" "pnext q b \<noteq> Some b" "pprev q a \<noteq> Some a" "pprev q b \<noteq> Some b"
      "pnext q a = Some b \<Longrightarrow> pnext q b \<noteq> Some a"
    using ok unfolding siblings_ok_def by metis+
  have ab: "pnext q a = Some b \<longleftrightarrow> pprev q b = Some a" "pnext q b = Some a \<longleftrightarrow> pprev q a = Some b"
    using links(1) [OF ok(2), of b] links(1) [OF ok(3), of a] ok(2,3) by blast+
  have n: "palive q x \<Longrightarrow> pnext q x = Some a \<longleftrightarrow> pprev q a = Some x" "palive q x \<Longrightarrow> pnext q x = Some b \<longleftrightarrow> pprev q b = Some x"
      "palive q x \<Longrightarrow> pprev q x = Some a \<longleftrightarrow> pnext q a = Some x" "palive q x \<Longrightarrow> pprev q x = Some b \<longleftrightarrow> pnext q b = Some x" for x
    using links(1) [of x a] links(1) [of x b] links(1) [OF ok(2), of x] links(1) [OF ok(3), of x] ok(2,3) by blast+
  have apart: "pprev q a \<noteq> Some x \<or> pprev q b \<noteq> Some x" "pnext q a \<noteq> Some x \<or> pnext q b \<noteq> Some x" for x
    using ok unfolding siblings_ok_def by (metis option.inject)+
  note id = map_swap_node [of _ a b]
  have nx: "pnext (exchange_siblings a b q) x =
     (if x = a then if pnext q b = Some a then Some b else pnext q b else if x = b then if pnext q a = Some b then Some a else pnext q a
      else if pprev q a = Some x then Some b else if pprev q b = Some x then Some a else pnext q x)" for x
    using ok(4) ne ab apart [of x] by (auto simp: exchange_siblings_def Let_def)
  have pv: "pprev (exchange_siblings a b q) x =
     (if x = a then if pprev q b = Some a then Some b else pprev q b else if x = b then if pprev q a = Some b then Some a else pprev q a
      else if pnext q a = Some x then Some b else if pnext q b = Some x then Some a else pprev q x)" for x
    using ok(4) ne ab apart [of x] by (auto simp: exchange_siblings_def Let_def)
  have la: "plast (exchange_siblings a b q) = (if pnext q a = None then Some b else if pnext q b = None then Some a else plast q)"
    using ok(4) ne ab by (auto simp: exchange_siblings_def Let_def)
  show ?thesis
    unfolding renames_list_def
  proof (intro conjI allI impI)
    fix x assume x: "palive q x"
    show "pnext (exchange_siblings a b q) (swap_node a b x) = map_option (swap_node a b) (pnext q x)"
      using rename_child [OF ok(4) n(1,2) [OF x]] ok(4) ne
      by (auto simp: nx swap_node_def [of a b x] id) (auto simp: swap_node_def)
    show "pprev (exchange_siblings a b q) (swap_node a b x) = map_option (swap_node a b) (pprev q x)"
      using rename_child [OF ok(4) n(3,4) [OF x]] ok(4) ne
      by (auto simp: pv swap_node_def [of a b x] id) (auto simp: swap_node_def)
  next
    show "plast (exchange_siblings a b q) = map_option (swap_node a b) (plast q)" using links(2) [OF ok(3)] links(2) [OF ok(2)] ok(4) la
      by (cases "plast q") (auto simp: swap_node_def)
  qed
qed

section \<open>Fields that stay\<close>

lemma tree_frame [simp]:
  "palive (set_left n p q) = palive q" "pdata (set_left n p q) = pdata q" "px (set_left n p q) = px q" "py (set_left n p q) = py q" "n_nodes (set_left n p q) = n_nodes q" "pfresh (set_left n p q) = pfresh q" "pnext (set_left n p q) = pnext q" "pprev (set_left n p q) = pprev q" "plast (set_left n p q) = plast q"
  "palive (set_right n p q) = palive q" "pdata (set_right n p q) = pdata q" "px (set_right n p q) = px q" "py (set_right n p q) = py q" "n_nodes (set_right n p q) = n_nodes q" "pfresh (set_right n p q) = pfresh q" "pnext (set_right n p q) = pnext q" "pprev (set_right n p q) = pprev q" "plast (set_right n p q) = plast q"
  "palive (set_parent n p q) = palive q" "pdata (set_parent n p q) = pdata q" "px (set_parent n p q) = px q" "py (set_parent n p q) = py q" "n_nodes (set_parent n p q) = n_nodes q" "pfresh (set_parent n p q) = pfresh q" "pnext (set_parent n p q) = pnext q" "pprev (set_parent n p q) = pprev q" "plast (set_parent n p q) = plast q"
  "palive (adopt p n q) = palive q" "pdata (adopt p n q) = pdata q" "px (adopt p n q) = px q" "py (adopt p n q) = py q" "n_nodes (adopt p n q) = n_nodes q" "pfresh (adopt p n q) = pfresh q" "pnext (adopt p n q) = pnext q" "pprev (adopt p n q) = pprev q" "plast (adopt p n q) = plast q"
  "palive (take_left n p q) = palive q" "pdata (take_left n p q) = pdata q" "px (take_left n p q) = px q" "py (take_left n p q) = py q" "n_nodes (take_left n p q) = n_nodes q" "pfresh (take_left n p q) = pfresh q" "pnext (take_left n p q) = pnext q" "pprev (take_left n p q) = pprev q" "plast (take_left n p q) = plast q"
  "palive (take_right n p q) = palive q" "pdata (take_right n p q) = pdata q" "px (take_right n p q) = px q" "py (take_right n p q) = py q" "n_nodes (take_right n p q) = n_nodes q" "pfresh (take_right n p q) = pfresh q" "pnext (take_right n p q) = pnext q" "pprev (take_right n p q) = pprev q" "plast (take_right n p q) = plast q"
  "palive (take_parent n p w q) = palive q" "pdata (take_parent n p w q) = pdata q" "px (take_parent n p w q) = px q" "py (take_parent n p w q) = py q" "n_nodes (take_parent n p w q) = n_nodes q" "pfresh (take_parent n p w q) = pfresh q" "pnext (take_parent n p w q) = pnext q" "pprev (take_parent n p w q) = pprev q" "plast (take_parent n p w q) = plast q"
  "palive (swap_left a b q) = palive q" "pdata (swap_left a b q) = pdata q" "px (swap_left a b q) = px q" "py (swap_left a b q) = py q" "n_nodes (swap_left a b q) = n_nodes q" "pfresh (swap_left a b q) = pfresh q" "pnext (swap_left a b q) = pnext q" "pprev (swap_left a b q) = pprev q" "plast (swap_left a b q) = plast q"
  "palive (swap_right a b q) = palive q" "pdata (swap_right a b q) = pdata q" "px (swap_right a b q) = px q" "py (swap_right a b q) = py q" "n_nodes (swap_right a b q) = n_nodes q" "pfresh (swap_right a b q) = pfresh q" "pnext (swap_right a b q) = pnext q" "pprev (swap_right a b q) = pprev q" "plast (swap_right a b q) = plast q"
  by (simp_all add: set_left_def set_right_def set_parent_def adopt_def take_left_def take_right_def take_parent_def swap_left_def swap_right_def Let_def split: option.split)

lemma list_frame [simp]:
  "palive (set_next n p q) = palive q" "pdata (set_next n p q) = pdata q" "px (set_next n p q) = px q" "py (set_next n p q) = py q" "n_nodes (set_next n p q) = n_nodes q" "pfresh (set_next n p q) = pfresh q" "pleft (set_next n p q) = pleft q" "pright (set_next n p q) = pright q" "pparent (set_next n p q) = pparent q" "proot (set_next n p q) = proot q"
  "palive (set_prev n p q) = palive q" "pdata (set_prev n p q) = pdata q" "px (set_prev n p q) = px q" "py (set_prev n p q) = py q" "n_nodes (set_prev n p q) = n_nodes q" "pfresh (set_prev n p q) = pfresh q" "pleft (set_prev n p q) = pleft q" "pright (set_prev n p q) = pright q" "pparent (set_prev n p q) = pparent q" "proot (set_prev n p q) = proot q"
  "palive (take_next n p q) = palive q" "pdata (take_next n p q) = pdata q" "px (take_next n p q) = px q" "py (take_next n p q) = py q" "n_nodes (take_next n p q) = n_nodes q" "pfresh (take_next n p q) = pfresh q" "pleft (take_next n p q) = pleft q" "pright (take_next n p q) = pright q" "pparent (take_next n p q) = pparent q" "proot (take_next n p q) = proot q"
  "palive (take_prev n p q) = palive q" "pdata (take_prev n p q) = pdata q" "px (take_prev n p q) = px q" "py (take_prev n p q) = py q" "n_nodes (take_prev n p q) = n_nodes q" "pfresh (take_prev n p q) = pfresh q" "pleft (take_prev n p q) = pleft q" "pright (take_prev n p q) = pright q" "pparent (take_prev n p q) = pparent q" "proot (take_prev n p q) = proot q"
  by (simp_all add: set_next_def set_prev_def take_next_def take_prev_def Let_def split: option.split)

lemma exchange_tree_frame [simp]:
  "palive (exchange_tree a b q) = palive q"
  "pdata (exchange_tree a b q) = pdata q"
  "px (exchange_tree a b q) = px q"
  "py (exchange_tree a b q) = py q"
  "n_nodes (exchange_tree a b q) = n_nodes q"
  "pfresh (exchange_tree a b q) = pfresh q"
  "pnext (exchange_tree a b q) = pnext q"
  "pprev (exchange_tree a b q) = pprev q"
  "plast (exchange_tree a b q) = plast q"
  by (simp_all add: exchange_tree_def exchange_with_parent_def exchange_apart_def Let_def)

lemma exchange_siblings_frame [simp]:
  "palive (exchange_siblings a b q) = palive q"
  "pdata (exchange_siblings a b q) = pdata q"
  "px (exchange_siblings a b q) = px q"
  "py (exchange_siblings a b q) = py q"
  "n_nodes (exchange_siblings a b q) = n_nodes q"
  "pfresh (exchange_siblings a b q) = pfresh q"
  "pleft (exchange_siblings a b q) = pleft q"
  "pright (exchange_siblings a b q) = pright q"
  "pparent (exchange_siblings a b q) = pparent q"
  "proot (exchange_siblings a b q) = proot q"
  by (simp_all add: exchange_siblings_def Let_def)

lemma exchange_tree_renames:
  assumes ok: "links_ok q" "palive q a" "palive q b" "a \<noteq> b"
  shows "renames_tree a b q (exchange_tree a b q)"
proof -
  have p: "pleft q y = Some x \<or> pright q y = Some x" if "palive q x" "pparent q x = Some y" for x y
    using ok(1) that unfolding links_ok_def by blast
  consider "pparent q a = Some b" | "pparent q a \<noteq> Some b" "pparent q b = Some a" | "pparent q a \<noteq> Some b" "pparent q b \<noteq> Some a"
    by blast
  then show ?thesis
  proof cases
    case 1
    with exchange_parent_renames [OF ok(1-3) p [OF ok(2) 1], of a b] show ?thesis by (simp add: exchange_tree_def)
  next
    case 2
    with exchange_parent_renames [OF ok(1,3,2) p [OF ok(3) 2(2)], of a b] show ?thesis
      by (simp add: exchange_tree_def renames_tree_def swap_node_commute [of b a])
  next
    case 3
    with exchange_apart_renames [OF ok 3] show ?thesis by (simp add: exchange_tree_def)
  qed
qed

section \<open>The shape of the queue\<close>

definition node_at :: "nat list \<Rightarrow> nat \<Rightarrow> nat option" where
  "node_at ids k = (if k < length ids then Some (ids ! k) else None)"

definition before :: "nat list \<Rightarrow> nat \<Rightarrow> nat \<Rightarrow> nat option" where
  "before ids k j = (if k = 0 then None else node_at ids j)"

definition node_ok :: "'d prioq \<Rightarrow> nat list \<Rightarrow> nat \<Rightarrow> bool" where
  "node_ok q ids k \<longleftrightarrow>
     (let n = ids ! k
      in 2 ^ py q n + px q n = k + 1 \<and> px q n < 2 ^ py q n \<and>
         pleft q n = node_at ids (2 * k + 1) \<and> pright q n = node_at ids (2 * k + 2) \<and>
         pparent q n = before ids k ((k - 1) div 2) \<and>
         pnext q n = node_at ids (k + 1) \<and> pprev q n = before ids k (k - 1))"

text \<open>\<open>ids\<close> are the nodes of the queue, level by level.\<close>

definition shape :: "'d prioq \<Rightarrow> nat list \<Rightarrow> bool" where
  "shape q ids \<longleftrightarrow>
     distinct ids \<and> (\<forall>n. palive q n \<longleftrightarrow> n \<in> set ids) \<and> (\<forall>n \<in> set ids. n < pfresh q) \<and>
     n_nodes q = length ids \<and> proot q = node_at ids 0 \<and> plast q = before ids (length ids) (length ids - 1) \<and>
     (\<forall>k < length ids. node_ok q ids k)"

lemma node_at_map [simp]: "node_at (map f ids) k = map_option f (node_at ids k)"
  by (simp add: node_at_def)

lemma before_map [simp]: "before (map f ids) k j = map_option f (before ids k j)"
  by (simp add: before_def)

lemma node_at_Some: "node_at ids k = Some n \<longleftrightarrow> k < length ids \<and> ids ! k = n"
  "Some n = node_at ids k \<longleftrightarrow> k < length ids \<and> ids ! k = n"
  by (auto simp: node_at_def)

lemma before_Some: "before ids k j = Some n \<longleftrightarrow> k \<noteq> 0 \<and> j < length ids \<and> ids ! j = n"
  "Some n = before ids k j \<longleftrightarrow> k \<noteq> 0 \<and> j < length ids \<and> ids ! j = n"
  by (auto simp: before_def node_at_def)

lemma shape_node:
  assumes "shape q ids" "palive q n"
  obtains k where "k < length ids" "ids ! k = n" "pleft q n = node_at ids (2 * k + 1)" "pright q n = node_at ids (2 * k + 2)"
    "pparent q n = before ids k ((k - 1) div 2)" "pnext q n = node_at ids (k + 1)" "pprev q n = before ids k (k - 1)"
proof -
  from assms obtain k where k: "k < length ids" "ids ! k = n" by (auto simp: shape_def in_set_conv_nth)
  with assms(1) have "node_ok q ids k" by (simp add: shape_def)
  with k that show thesis by (simp add: node_ok_def Let_def)
qed

lemma shape_links:
  assumes s: "shape q ids"
  shows "links_ok q"
proof -
  have at: "palive q (ids ! k)" "pleft q (ids ! k) = node_at ids (2 * k + 1)" "pright q (ids ! k) = node_at ids (2 * k + 2)"
    "pparent q (ids ! k) = before ids k ((k - 1) div 2)" if "k < length ids" for k
    using s that by (auto simp: shape_def node_ok_def Let_def)
  have eq: "ids ! j = ids ! k \<longleftrightarrow> j = k" if "j < length ids" "k < length ids" for j k
    using s that by (simp add: shape_def nth_eq_iff_index_eq)
  show ?thesis
    unfolding links_ok_def
  proof (intro conjI allI impI)
    fix c d assume c: "palive q c" "pleft q c = Some d"
    from shape_node [OF s c(1)] obtain k where k: "k < length ids" "ids ! k = c" by blast
    with c(2) at(2) [OF k(1)] have d: "2 * k + 1 < length ids" "ids ! (2 * k + 1) = d" by (auto simp: node_at_Some)
    with at [OF d(1)] at(3) [OF k(1)] k eq [OF d(1) k(1)] show "palive q d" "d \<noteq> c" "pparent q d = Some c" "pright q c \<noteq> Some d"
      by (auto simp: before_Some node_at_Some eq)
  next
    fix c d assume c: "palive q c" "pright q c = Some d"
    from shape_node [OF s c(1)] obtain k where k: "k < length ids" "ids ! k = c" by blast
    with c(2) at(3) [OF k(1)] have d: "2 * k + 2 < length ids" "ids ! (2 * k + 2) = d" by (auto simp: node_at_Some)
    with at [OF d(1)] k eq [OF d(1) k(1)] show "palive q d" "d \<noteq> c" "pparent q d = Some c"
      by (auto simp: before_Some)
  next
    fix c d assume c: "palive q c" "pparent q c = Some d"
    from shape_node [OF s c(1)] obtain k where k: "k < length ids" "ids ! k = c" by blast
    with c(2) at(4) [OF k(1)] have d: "k \<noteq> 0" "(k - 1) div 2 < length ids" "ids ! ((k - 1) div 2) = d" by (auto simp: before_Some)
    let ?j = "(k - 1) div 2"
    have j: "k = 2 * ?j + 1 \<or> k = 2 * ?j + 2" using d(1) by presburger
    show "palive q d" using at(1) [OF d(2)] d(3) by simp
    show "pleft q d = Some c \<or> pright q d = Some c"
      using j at(2,3) [OF d(2)] k d(3) by (auto simp: node_at_Some)
    have "((k - 1) div 2 - 1) div 2 \<noteq> k" using d(1) by presburger
    then show "pparent q d \<noteq> Some c" using at(4) [OF d(2)] k d(3) eq by (auto simp: before_Some)
  next
    fix c assume c: "palive q c"
    from shape_node [OF s c] obtain k where k: "k < length ids" "ids ! k = c" by blast
    have "(k - 1) div 2 < length ids" using k(1) by linarith
    then have "pparent q c = None \<longleftrightarrow> k = 0" using at(4) [OF k(1)] k(2) by (simp add: before_def node_at_def)
    moreover have "proot q = Some (ids ! 0)" using s k(1) by (auto simp: shape_def node_at_def)
    ultimately show "pparent q c = None \<longleftrightarrow> proot q = Some c" using k eq [OF _ k(1), of 0] by (cases ids) auto
  qed
qed

lemma shape_siblings:
  assumes s: "shape q ids"
  shows "siblings_ok q"
proof -
  have at: "palive q (ids ! k)" "pnext q (ids ! k) = node_at ids (k + 1)" "pprev q (ids ! k) = before ids k (k - 1)"
    if "k < length ids" for k
    using s that by (auto simp: shape_def node_ok_def Let_def)
  have eq: "ids ! j = ids ! k \<longleftrightarrow> j = k" if "j < length ids" "k < length ids" for j k
    using s that by (simp add: shape_def nth_eq_iff_index_eq)
  show ?thesis
    unfolding siblings_ok_def
  proof (intro conjI allI impI)
    fix c d assume c: "palive q c" "pnext q c = Some d"
    from shape_node [OF s c(1)] obtain k where k: "k < length ids" "ids ! k = c" by blast
    with c(2) at(2) [OF k(1)] have d: "k + 1 < length ids" "ids ! (k + 1) = d" by (auto simp: node_at_Some)
    with at [OF d(1)] k eq [OF d(1) k(1)] show "palive q d" "d \<noteq> c" "pprev q d = Some c" "pnext q d \<noteq> Some c"
      by (auto simp: before_Some node_at_Some eq)
  next
    fix c d assume c: "palive q c" "pprev q c = Some d"
    from shape_node [OF s c(1)] obtain k where k: "k < length ids" "ids ! k = c" by blast
    with c(2) at(3) [OF k(1)] have d: "k \<noteq> 0" "k - 1 < length ids" "ids ! (k - 1) = d" by (auto simp: before_Some)
    with at [OF d(2)] k show "palive q d" "pnext q d = Some c" by (auto simp: node_at_Some)
  next
    fix c assume c: "palive q c"
    from shape_node [OF s c] obtain k where k: "k < length ids" "ids ! k = c" by blast
    moreover have "plast q = Some (ids ! (length ids - 1))" using s k(1) by (auto simp: shape_def before_def node_at_def)
    ultimately show "pnext q c = None \<longleftrightarrow> plast q = Some c" using at(2) [OF k(1)] eq [OF _ k(1), of "length ids - 1"]
      by (auto simp: node_at_def)
  qed
qed

lemma exchange_nodes_shape:
  assumes s: "shape q ids" and ab: "palive q a" "palive q b" "a \<noteq> b"
  shows "\<exists>q'. exchange_nodes q a b = Ret q' \<and> shape q' (map (swap_node a b) ids) \<and> pdata q' = pdata q \<and> palive q' = palive q \<and>
    pfresh q' = pfresh q"
proof -
  let ?s = "swap_node a b"
  let ?p = "swap_positions a b q"
  let ?q = "exchange_siblings a b (exchange_tree a b ?p)"
  have p: "pleft ?p = pleft q" "pright ?p = pright q" "pparent ?p = pparent q" "pnext ?p = pnext q" "pprev ?p = pprev q"
    "proot ?p = proot q" "plast ?p = plast q" "palive ?p = palive q" "pdata ?p = pdata q" "n_nodes ?p = n_nodes q" "pfresh ?p = pfresh q"
    "px ?p (?s c) = px q c" "py ?p (?s c) = py q c" for c
    using ab(3) by (auto simp: swap_positions_def swap_node_def)
  have t: "renames_tree a b ?p (exchange_tree a b ?p)"
  proof (rule exchange_tree_renames)
    show "links_ok ?p" using shape_links [OF s] unfolding links_ok_def p .
  qed (simp_all add: p ab)
  have l: "renames_list a b (exchange_tree a b ?p) ?q"
  proof (rule exchange_siblings_renames)
    show "siblings_ok (exchange_tree a b ?p)" using shape_siblings [OF s] unfolding siblings_ok_def exchange_tree_frame p .
  qed (simp_all add: p ab)
  have inj: "inj_on ?s (set ids)" by (auto simp: inj_on_def swap_node_def split: if_splits)
  have im: "?s ` set ids = set ids"
    using s ab(1,2) by (auto simp: shape_def swap_node_def image_iff)
  have "node_ok ?q (map ?s ids) k" if "k < length ids" for k
  proof -
    have "node_ok q ids k" "palive q (ids ! k)" using s that by (simp_all add: shape_def)
    note n = this
    have f: "pleft ?q (?s (ids ! k)) = map_option ?s (pleft q (ids ! k))" "pright ?q (?s (ids ! k)) = map_option ?s (pright q (ids ! k))"
      "pparent ?q (?s (ids ! k)) = map_option ?s (pparent q (ids ! k))"
      using t n(2) unfolding renames_tree_def exchange_siblings_frame p by blast+
    have g: "pnext ?q (?s (ids ! k)) = map_option ?s (pnext q (ids ! k))" "pprev ?q (?s (ids ! k)) = map_option ?s (pprev q (ids ! k))"
      using l n(2) unfolding renames_list_def exchange_tree_frame p by blast+
    have m: "map ?s ids ! k = ?s (ids ! k)" using that by simp
    show ?thesis using n(1) unfolding node_ok_def Let_def m f g by (simp add: p)
  qed
  moreover have "distinct (map ?s ids)" using s inj by (simp add: shape_def distinct_map)
  moreover have "palive ?q n \<longleftrightarrow> n \<in> set (map ?s ids)" "n \<in> set (map ?s ids) \<Longrightarrow> n < pfresh ?q" for n
    using s im by (simp_all add: shape_def p)
  moreover have "n_nodes ?q = length (map ?s ids)" using s by (simp add: shape_def p)
  moreover have "proot ?q = node_at (map ?s ids) 0" "plast ?q = before (map ?s ids) (length ids) (length ids - 1)"
    using s t l unfolding shape_def renames_tree_def renames_list_def exchange_siblings_frame exchange_tree_frame p by simp_all
  ultimately have "shape ?q (map ?s ids)" by (simp add: shape_def)
  then show ?thesis using ab by (auto simp: exchange_nodes_def p)
qed

end
