(* ===== verification/Prioq_Heap.thy ===== *)
theory Prioq_Heap
  imports Prioq_Links
begin

text \<open>
  The order of the priority queue. The locale \<open>prio_compare\<close> states what the queue needs of its
  comparison function; in it stands the proof that the operations keep the shape and the heap
  order, do not crash, and change the set of nodes as they should.
\<close>

section \<open>Heaps over positions\<close>

definition par :: "nat \<Rightarrow> nat" where
  "par k = (k - 1) div 2"

definition heap :: "('d \<Rightarrow> 'd \<Rightarrow> int) \<Rightarrow> (nat \<Rightarrow> 'd) \<Rightarrow> nat \<Rightarrow> bool" where
  "heap cmp h n \<longleftrightarrow> (\<forall>c < n. c \<noteq> 0 \<longrightarrow> cmp (h (par c)) (h c) \<le> 0)"

text \<open>A heap if the value at \<open>k\<close> were right; the parent of \<open>k\<close> and its children are in order.\<close>

definition heap_except :: "('d \<Rightarrow> 'd \<Rightarrow> int) \<Rightarrow> (nat \<Rightarrow> 'd) \<Rightarrow> nat \<Rightarrow> nat \<Rightarrow> bool" where
  "heap_except cmp h n k \<longleftrightarrow>
     (\<forall>c < n. c \<noteq> 0 \<longrightarrow> c \<noteq> k \<longrightarrow> par c \<noteq> k \<longrightarrow> cmp (h (par c)) (h c) \<le> 0) \<and>
     (\<forall>c < n. c \<noteq> 0 \<longrightarrow> par c = k \<longrightarrow> k \<noteq> 0 \<longrightarrow> cmp (h (par k)) (h c) \<le> 0)"

definition above_ok :: "('d \<Rightarrow> 'd \<Rightarrow> int) \<Rightarrow> (nat \<Rightarrow> 'd) \<Rightarrow> nat \<Rightarrow> bool" where
  "above_ok cmp h k \<longleftrightarrow> (k \<noteq> 0 \<longrightarrow> cmp (h (par k)) (h k) \<le> 0)"

definition exchange :: "nat \<Rightarrow> nat \<Rightarrow> (nat \<Rightarrow> 'd) \<Rightarrow> nat \<Rightarrow> 'd" where
  "exchange i j h = h(i := h j, j := h i)"

lemma par_less: "k \<noteq> 0 \<Longrightarrow> par k < k"
  by (auto simp: par_def)

lemma par_child: "par c = k \<Longrightarrow> c \<noteq> 0 \<Longrightarrow> c = 2 * k + 1 \<or> c = 2 * k + 2"
  by (auto simp: par_def)

lemma par_children [simp]: "par (2 * k + 1) = k" "par (2 * k + 2) = k" "par (Suc (2 * k)) = k" "par (Suc (Suc (2 * k))) = k"
  by (simp_all add: par_def)

locale prio_compare =
  fixes cmp :: "'d \<Rightarrow> 'd \<Rightarrow> int"
  assumes cmp_asym: "0 < cmp a b \<longleftrightarrow> cmp b a < 0"
    and cmp_trans: "cmp a b \<le> 0 \<Longrightarrow> cmp b c \<le> 0 \<Longrightarrow> cmp a c \<le> 0"
begin

lemma cmp_less: "0 < cmp a b \<Longrightarrow> cmp b a \<le> 0" "cmp a b < 0 \<Longrightarrow> cmp a b \<le> 0" "cmp a b \<le> 0 \<longleftrightarrow> \<not> cmp b a < 0"
  using cmp_asym [of a b] cmp_asym [of b a] by linarith+

lemma up_step:
  assumes h: "heap_except cmp h n k" "k \<noteq> 0" "k < n" "0 < cmp (h (par k)) (h k)"
  shows "heap_except cmp (exchange k (par k) h) n (par k)"
proof -
  let ?p = "par k"
  have p: "?p < k" using h(2) by (rule par_less)
  have pair: "c < n \<Longrightarrow> c \<noteq> 0 \<Longrightarrow> c \<noteq> k \<Longrightarrow> par c \<noteq> k \<Longrightarrow> cmp (h (par c)) (h c) \<le> 0" for c
    using h(1) by (simp add: heap_except_def)
  have below: "c < n \<Longrightarrow> c \<noteq> 0 \<Longrightarrow> par c = k \<Longrightarrow> cmp (h ?p) (h c) \<le> 0" for c
    using h(1,2) by (simp add: heap_except_def)
  have gp: "?p \<noteq> 0 \<Longrightarrow> cmp (h (par ?p)) (h ?p) \<le> 0"
    using pair [of ?p] p h(3) par_less [of ?p] by simp
  show ?thesis
    unfolding heap_except_def
  proof (intro conjI allI impI)
    fix c assume c: "c < n" "c \<noteq> 0" "c \<noteq> ?p" "par c \<noteq> ?p"
    show "cmp (exchange k ?p h (par c)) (exchange k ?p h c) \<le> 0"
      using pair [OF c(1,2)] below [OF c(1,2)] c p par_less [OF c(2)] by (auto simp: exchange_def)
  next
    fix c assume c: "c < n" "c \<noteq> 0" "par c = ?p" "?p \<noteq> 0"
    have "par ?p \<noteq> k" "par ?p \<noteq> ?p" "c \<noteq> ?p" using p par_less [OF c(4)] par_less [OF c(2)] c(3) by linarith+
    then show "cmp (exchange k ?p h (par ?p)) (exchange k ?p h c) \<le> 0"
      using gp [OF c(4)] pair [OF c(1,2)] c(3) p cmp_trans [of "h (par ?p)" "h ?p" "h c"] by (auto simp: exchange_def)
  qed
qed

lemma down_step:
  assumes h: "heap_except cmp h n k" "above_ok cmp h k" "m < n" "m \<noteq> 0" "par m = k" "\<not> cmp (h k) (h m) \<le> 0"
    and min: "\<And>c. c < n \<Longrightarrow> c \<noteq> 0 \<Longrightarrow> par c = k \<Longrightarrow> cmp (h m) (h c) \<le> 0"
  shows "heap_except cmp (exchange k m h) n m" "above_ok cmp (exchange k m h) m"
proof -
  have km: "k < m" using par_less [OF h(4)] h(5) by simp
  have pair: "c < n \<Longrightarrow> c \<noteq> 0 \<Longrightarrow> c \<noteq> k \<Longrightarrow> par c \<noteq> k \<Longrightarrow> cmp (h (par c)) (h c) \<le> 0" for c
    using h(1) by (simp add: heap_except_def)
  have gp: "k \<noteq> 0 \<Longrightarrow> cmp (h (par k)) (h m) \<le> 0"
    using h(1,3-5) by (simp add: heap_except_def)
  show "above_ok cmp (exchange k m h) m"
    using h(5,6) km cmp_less(1) by (auto simp: above_ok_def exchange_def)
  show "heap_except cmp (exchange k m h) n m"
    unfolding heap_except_def
  proof (intro conjI allI impI)
    fix c assume c: "c < n" "c \<noteq> 0" "c \<noteq> m" "par c \<noteq> m"
    show "cmp (exchange k m h (par c)) (exchange k m h c) \<le> 0"
      using pair [OF c(1,2)] min [OF c(1,2)] gp c km par_less [OF c(2)] by (auto simp: exchange_def)
  next
    fix c assume c: "c < n" "c \<noteq> 0" "par c = m" "m \<noteq> 0"
    have "m < c" using par_less [OF c(2)] c(3) by simp
    then show "cmp (exchange k m h (par m)) (exchange k m h c) \<le> 0"
      using pair [OF c(1,2)] c(3) km h(5) by (auto simp: exchange_def)
  qed
qed

lemma down_stop:
  assumes "heap_except cmp h n k" "above_ok cmp h k" "\<And>c. c < n \<Longrightarrow> c \<noteq> 0 \<Longrightarrow> par c = k \<Longrightarrow> cmp (h k) (h c) \<le> 0"
  shows "heap cmp h n"
  unfolding heap_def
proof (intro allI impI)
  fix c assume c: "c < n" "c \<noteq> 0"
  consider "par c = k" | "par c \<noteq> k" "c = k" | "par c \<noteq> k" "c \<noteq> k" by blast
  then show "cmp (h (par c)) (h c) \<le> 0"
    using assms c by cases (auto simp: heap_except_def above_ok_def)
qed

lemma heap_hole: "heap cmp h n \<Longrightarrow> (\<And>j. j < n \<Longrightarrow> j \<noteq> k \<Longrightarrow> g j = h j) \<Longrightarrow> heap_except cmp g n k"
proof -
  assume h: "heap cmp h n" and g: "\<And>j. j < n \<Longrightarrow> j \<noteq> k \<Longrightarrow> g j = h j"
  have pn: "c < n \<Longrightarrow> par c < n" for c by (auto simp: par_def)
  have ord: "c < n \<Longrightarrow> c \<noteq> 0 \<Longrightarrow> cmp (h (par c)) (h c) \<le> 0" for c using h by (simp add: heap_def)
  show ?thesis
    unfolding heap_except_def
  proof (intro conjI allI impI)
    fix c assume "c < n" "c \<noteq> 0" "c \<noteq> k" "par c \<noteq> k"
    then show "cmp (g (par c)) (g c) \<le> 0" using ord [of c] g [of c] g [of "par c"] pn [of c] by simp
  next
    fix c assume c: "c < n" "c \<noteq> 0" "par c = k" "k \<noteq> 0"
    then have "c \<noteq> k" "par k \<noteq> k" "par k < n" using par_less [of c] par_less [of k] by auto
    then show "cmp (g (par k)) (g c) \<le> 0"
      using c ord [of c] ord [of k] g [of c] g [of "par k"] pn [of c] cmp_trans [of "h (par k)" "h k" "h c"] by auto
  qed
qed

lemma heap_root: "heap cmp h n \<Longrightarrow> j < n \<Longrightarrow> cmp (h 0) (h j) \<le> 0"
proof (induction j rule: less_induct)
  case (less j)
  show ?case
  proof (cases "j = 0")
    case True
    show ?thesis unfolding True using cmp_less(3) [of "h 0" "h 0"] cmp_asym [of "h 0" "h 0"] by linarith
  next
    case False
    then have "par j < j" by (rule par_less)
    with less False have "cmp (h 0) (h (par j)) \<le> 0" "cmp (h (par j)) (h j) \<le> 0" by (auto simp: heap_def)
    then show ?thesis by (rule cmp_trans)
  qed
qed

end

section \<open>Nodes at positions\<close>

lemma shape_at:
  assumes "shape q ids" "k < length ids"
  shows "palive q (ids ! k)" "pleft q (ids ! k) = node_at ids (2 * k + 1)" "pright q (ids ! k) = node_at ids (2 * k + 2)"
    "pparent q (ids ! k) = before ids k (par k)" "pnext q (ids ! k) = node_at ids (k + 1)" "pprev q (ids ! k) = before ids k (k - 1)"
    "2 ^ py q (ids ! k) + px q (ids ! k) = k + 1" "px q (ids ! k) < 2 ^ py q (ids ! k)"
  using assms by (auto simp: shape_def node_ok_def Let_def par_def)

lemma shape_distinct: "shape q ids \<Longrightarrow> distinct ids"
  by (simp add: shape_def)

lemma shape_nodes: "shape q ids \<Longrightarrow> n_nodes q = length ids"
  by (simp add: shape_def)

lemma swap_ids:
  assumes "distinct ids" "i < length ids" "j < length ids"
  shows "map (swap_node (ids ! i) (ids ! j)) ids = ids[i := ids ! j, j := ids ! i]"
proof (rule nth_equalityI)
  fix k assume "k < length (map (swap_node (ids ! i) (ids ! j)) ids)"
  then show "map (swap_node (ids ! i) (ids ! j)) ids ! k = ids[i := ids ! j, j := ids ! i] ! k"
    using assms by (auto simp: swap_node_def nth_list_update nth_eq_iff_index_eq)
qed simp

text \<open>The data of the nodes by their positions.\<close>

definition data_at :: "'d prioq \<Rightarrow> nat list \<Rightarrow> nat \<Rightarrow> 'd" where
  "data_at q ids k = pdata q (ids ! k)"

text \<open>What exchanging nodes, and whatever consists of it, keeps.\<close>

definition rearranged :: "'d prioq \<Rightarrow> nat list \<Rightarrow> 'd prioq \<Rightarrow> nat list \<Rightarrow> bool" where
  "rearranged q ids q' ids' \<longleftrightarrow> shape q' ids' \<and> set ids' = set ids \<and> length ids' = length ids \<and>
     pdata q' = pdata q \<and> palive q' = palive q \<and> pfresh q' = pfresh q"

lemma rearranged_refl: "shape q ids \<Longrightarrow> rearranged q ids q ids"
  by (simp add: rearranged_def)

lemma rearranged_trans: "rearranged q ids q1 ids1 \<Longrightarrow> rearranged q1 ids1 q2 ids2 \<Longrightarrow> rearranged q ids q2 ids2"
  by (simp add: rearranged_def)

lemma exchange_at:
  assumes s: "shape q ids" and ij: "i < length ids" "j < length ids" "i \<noteq> j"
  shows "\<exists>q'. exchange_nodes q (ids ! i) (ids ! j) = Ret q' \<and> rearranged q ids q' (ids[i := ids ! j, j := ids ! i]) \<and>
    data_at q' (ids[i := ids ! j, j := ids ! i]) = exchange i j (data_at q ids)"
proof -
  have d: "distinct ids" using s by (rule shape_distinct)
  have "palive q (ids ! i)" "palive q (ids ! j)" "ids ! i \<noteq> ids ! j"
    using shape_at(1) [OF s] ij d by (auto simp: nth_eq_iff_index_eq)
  from exchange_nodes_shape [OF s this] swap_ids [OF d ij(1,2)] obtain q' where q':
    "exchange_nodes q (ids ! i) (ids ! j) = Ret q'" "shape q' (ids[i := ids ! j, j := ids ! i])"
    "pdata q' = pdata q" "palive q' = palive q" "pfresh q' = pfresh q" by auto
  have "data_at q' (ids[i := ids ! j, j := ids ! i]) k = exchange i j (data_at q ids) k" for k
    using ij by (cases "k < length ids") (auto simp: data_at_def exchange_def q'(3) nth_list_update)
  with q' ij show ?thesis by (auto simp: rearranged_def set_swap fun_eq_iff)
qed

section \<open>Shuffle\<close>

context prio_compare
begin

lemma shuffle_up_ok:
  "shape q ids \<Longrightarrow> k < length ids \<Longrightarrow> k < f \<Longrightarrow> heap_except cmp (data_at q ids) (length ids) k \<Longrightarrow>
   \<exists>q' ids' k'. shuffle_up cmp f q (ids ! k) = Ret q' \<and> rearranged q ids q' ids' \<and> k' < length ids' \<and> ids' ! k' = ids ! k \<and>
     heap_except cmp (data_at q' ids') (length ids') k' \<and> above_ok cmp (data_at q' ids') k'"
proof (induction f arbitrary: q ids k)
  case (Suc f)
  note at = shape_at [OF Suc.prems(1,2)]
  have p: "k \<noteq> 0 \<Longrightarrow> par k < length ids" using par_less [of k] Suc.prems(2) by simp
  show ?case
  proof (cases "k \<noteq> 0 \<and> 0 < cmp (data_at q ids (par k)) (data_at q ids k)")
    case False
    then have "shuffle_up cmp (Suc f) q (ids ! k) = Ret q"
      using at(4) p by (auto simp: before_def node_at_def data_at_def)
    moreover have "above_ok cmp (data_at q ids) k" using False by (auto simp: above_ok_def)
    ultimately show ?thesis using Suc.prems rearranged_refl by blast
  next
    case True
    then have k: "k \<noteq> 0" "par k < k" using par_less by auto
    let ?ids = "ids[k := ids ! par k, par k := ids ! k]"
    from exchange_at [OF Suc.prems(1,2) p [OF k(1)]] k(2) obtain q1 where q1:
      "exchange_nodes q (ids ! k) (ids ! par k) = Ret q1" "rearranged q ids q1 ?ids"
      "data_at q1 ?ids = exchange k (par k) (data_at q ids)" by auto
    have "heap_except cmp (data_at q1 ?ids) (length ?ids) (par k)"
      unfolding q1(3) using up_step [OF Suc.prems(4) k(1) Suc.prems(2)] True by simp
    moreover have "shape q1 ?ids" "par k < length ?ids" "par k < f" using q1(2) p k Suc.prems(3) by (auto simp: rearranged_def)
    moreover have "?ids ! par k = ids ! k" using p [OF k(1)] by simp
    ultimately obtain q' ids' k' where q': "shuffle_up cmp f q1 (ids ! k) = Ret q'" "rearranged q1 ?ids q' ids'"
      "k' < length ids'" "ids' ! k' = ids ! k" "heap_except cmp (data_at q' ids') (length ids') k'" "above_ok cmp (data_at q' ids') k'"
      using Suc.IH [of q1 ?ids "par k"] by auto
    have "shuffle_up cmp (Suc f) q (ids ! k) = Ret q'"
      using True k at(4) p q1(1) q'(1) by (simp add: before_def node_at_def data_at_def)
    with q' rearranged_trans [OF q1(2) q'(2)] show ?thesis by blast
  qed
qed simp

text \<open>The child that \<open>shuffle_down\<close> looks at.\<close>

lemma smaller_child:
  assumes s: "shape q ids" "2 * k + 1 < length ids"
  defines "m \<equiv> (case node_at ids (2 * k + 2) of None \<Rightarrow> 2 * k + 1
     | Some r \<Rightarrow> if cmp (pdata q r) (pdata q (ids ! (2 * k + 1))) < 0 then 2 * k + 2 else 2 * k + 1)"
  shows "m < length ids" "m \<noteq> 0" "par m = k" "k < m"
    "(case node_at ids (2 * k + 2) of None \<Rightarrow> ids ! (2 * k + 1)
      | Some r \<Rightarrow> if cmp (pdata q r) (pdata q (ids ! (2 * k + 1))) < 0 then r else ids ! (2 * k + 1)) = ids ! m"
    "\<And>c. c < length ids \<Longrightarrow> c \<noteq> 0 \<Longrightarrow> par c = k \<Longrightarrow> cmp (data_at q ids m) (data_at q ids c) \<le> 0"
proof -
  have refl: "cmp a a \<le> 0" for a using cmp_asym [of a a] by linarith
  show "m < length ids" "m \<noteq> 0" "par m = k" "k < m" using s(2) by (auto simp: m_def node_at_def)
  show "(case node_at ids (2 * k + 2) of None \<Rightarrow> ids ! (2 * k + 1)
      | Some r \<Rightarrow> if cmp (pdata q r) (pdata q (ids ! (2 * k + 1))) < 0 then r else ids ! (2 * k + 1)) = ids ! m"
    by (auto simp: m_def node_at_def)
  fix c assume c: "c < length ids" "c \<noteq> 0" "par c = k"
  then have "c = 2 * k + 1 \<or> c = 2 * k + 2" using par_child by blast
  then show "cmp (data_at q ids m) (data_at q ids c) \<le> 0"
    using c(1) refl cmp_less(3) by (auto simp: m_def node_at_def data_at_def intro: cmp_less(2))
qed

lemma shuffle_down_ok:
  "shape q ids \<Longrightarrow> k < length ids \<Longrightarrow> length ids \<le> f + k \<Longrightarrow> heap_except cmp (data_at q ids) (length ids) k \<Longrightarrow>
   above_ok cmp (data_at q ids) k \<Longrightarrow>
   \<exists>q' ids'. shuffle_down cmp f q (ids ! k) = Ret q' \<and> rearranged q ids q' ids' \<and> heap cmp (data_at q' ids') (length ids')"
proof (induction f arbitrary: q ids k)
  case (Suc f)
  note at = shape_at [OF Suc.prems(1,2)]
  show ?case
  proof (cases "2 * k + 1 < length ids")
    case False
    have "heap cmp (data_at q ids) (length ids)"
    proof (rule down_stop [OF Suc.prems(4,5)])
      fix c assume "c < length ids" "c \<noteq> 0" "par c = k"
      with par_child [of c k] False show "cmp (data_at q ids k) (data_at q ids c) \<le> 0" by linarith
    qed
    moreover have "shuffle_down cmp (Suc f) q (ids ! k) = Ret q" using at(2,3) False by (simp add: node_at_def)
    ultimately show ?thesis using rearranged_refl [OF Suc.prems(1)] by blast
  next
    case True
    note child = smaller_child [OF Suc.prems(1) True]
    define m where "m = (case node_at ids (2 * k + 2) of None \<Rightarrow> 2 * k + 1
      | Some r \<Rightarrow> if cmp (pdata q r) (pdata q (ids ! (2 * k + 1))) < 0 then 2 * k + 2 else 2 * k + 1)"
    have m: "m < length ids" "m \<noteq> 0" "par m = k" "k < m"
      "(case node_at ids (2 * k + 2) of None \<Rightarrow> ids ! (2 * k + 1)
        | Some r \<Rightarrow> if cmp (pdata q r) (pdata q (ids ! (2 * k + 1))) < 0 then r else ids ! (2 * k + 1)) = ids ! m"
      "c < length ids \<Longrightarrow> c \<noteq> 0 \<Longrightarrow> par c = k \<Longrightarrow> cmp (data_at q ids m) (data_at q ids c) \<le> 0" for c
      unfolding m_def by (fact child(1), fact child(2), fact child(3), fact child(4), fact child(5), rule child(6))
    have step: "shuffle_down cmp (Suc f) q (ids ! k) = (if cmp (data_at q ids k) (data_at q ids m) \<le> 0 then Ret q
       else res_bind (exchange_nodes q (ids ! k) (ids ! m)) (\<lambda>q. shuffle_down cmp f q (ids ! k)))"
    proof -
      have "pleft q (ids ! k) = Some (ids ! (2 * k + 1))" using at(2) True by (simp add: node_at_def)
      then show ?thesis by (simp only: shuffle_down.simps option.case Let_def at(3) m(5) data_at_def)
    qed
    show ?thesis
    proof (cases "cmp (data_at q ids k) (data_at q ids m) \<le> 0")
      case True
      with m(6) have "heap cmp (data_at q ids) (length ids)" by (intro down_stop [OF Suc.prems(4,5)]) (blast intro: cmp_trans)
      with True step show ?thesis using rearranged_refl [OF Suc.prems(1)] by auto
    next
      case False
      let ?ids = "ids[k := ids ! m, m := ids ! k]"
      from exchange_at [OF Suc.prems(1,2) m(1)] m(4) obtain q1 where q1:
        "exchange_nodes q (ids ! k) (ids ! m) = Ret q1" "rearranged q ids q1 ?ids"
        "data_at q1 ?ids = exchange k m (data_at q ids)" by auto
      have d: "heap_except cmp (exchange k m (data_at q ids)) (length ids) m" "above_ok cmp (exchange k m (data_at q ids)) m"
        by (rule down_step [OF Suc.prems(4,5) m(1-3) False]; rule m(6); assumption)+
      have "\<exists>q' ids'. shuffle_down cmp f q1 (?ids ! m) = Ret q' \<and> rearranged q1 ?ids q' ids' \<and> heap cmp (data_at q' ids') (length ids')"
      proof (rule Suc.IH)
        show "shape q1 ?ids" using q1(2) by (simp add: rearranged_def)
        show "m < length ?ids" "length ?ids \<le> f + m" using m(1,4) Suc.prems(3) by simp_all
        show "heap_except cmp (data_at q1 ?ids) (length ?ids) m" "above_ok cmp (data_at q1 ?ids) m" using d unfolding q1(3) length_list_update by blast+
      qed
      then obtain q' ids' where "shuffle_down cmp f q1 (ids ! k) = Ret q'" "rearranged q1 ?ids q' ids'"
        "heap cmp (data_at q' ids') (length ids')" using m(1) by auto
      with False q1(1) step rearranged_trans [OF q1(2)] show ?thesis by auto
    qed
  qed
qed simp

lemma shuffle_ok:
  assumes "shape q ids" "k < length ids" "heap_except cmp (data_at q ids) (length ids) k"
  shows "\<exists>q' ids'. avahi_prio_queue_shuffle cmp q (ids ! k) = Ret q' \<and> rearranged q ids q' ids' \<and>
    heap cmp (data_at q' ids') (length ids')"
proof -
  have n: "n_nodes q = length ids" "palive q (ids ! k)" using assms(1,2) shape_nodes shape_at(1) by blast+
  from shuffle_up_ok [OF assms(1,2) assms(2,3)] obtain q1 ids1 k1 where q1:
    "shuffle_up cmp (length ids) q (ids ! k) = Ret q1" "rearranged q ids q1 ids1" "k1 < length ids1" "ids1 ! k1 = ids ! k"
    "heap_except cmp (data_at q1 ids1) (length ids1) k1" "above_ok cmp (data_at q1 ids1) k1" by blast
  have s1: "shape q1 ids1" "length ids1 = length ids" using q1(2) by (auto simp: rearranged_def)
  from shuffle_down_ok [OF s1(1) q1(3) le_add1 q1(5,6)] q1(4) obtain q' ids' where
    "shuffle_down cmp (length ids1) q1 (ids ! k) = Ret q'" "rearranged q1 ids1 q' ids'" "heap cmp (data_at q' ids') (length ids')" by auto
  moreover have "n_nodes q1 = length ids1" using s1(1) by (rule shape_nodes)
  ultimately show ?thesis using n q1(1) rearranged_trans [OF q1(2)] s1(2)
    by (auto simp: avahi_prio_queue_shuffle_def)
qed

end

end
