(* ===== verification/Prioq_Ops.thy ===== *)
theory Prioq_Ops
  imports Prioq_Heap
begin

text \<open>
  \<open>avahi_prio_queue_put\<close> and \<open>avahi_prio_queue_remove\<close>: the shape after a node is appended or
  the last one cut off, the invariant of the queue and what the operations do to it.
\<close>

section \<open>The coordinates of the nodes\<close>

lemma coordinates_unique:
  assumes "2 ^ a + b = 2 ^ c + (d :: nat)" "b < 2 ^ a" "d < 2 ^ c"
  shows "a = c \<and> b = d"
proof -
  have False if "a < c" "2 ^ a + b = 2 ^ c + d" "b < 2 ^ a" for a c b d :: nat
  proof -
    have "(2 :: nat) ^ Suc a \<le> 2 ^ c" using that(1) by (intro power_increasing) auto
    with that(2,3) show False by simp
  qed
  from this [of a c b d] this [of c a d b] assms have "a = c" by (metis linorder_neqE_nat)
  with assms(1) show ?thesis by simp
qed

lemma next_coordinates:
  assumes "2 ^ y + x = (k :: nat)" "x < 2 ^ y" "next_position x y = (x', y')"
  shows "2 ^ y' + x' = k + 1" "x' < 2 ^ y'" "y' \<noteq> 0"
proof -
  show "2 ^ y' + x' = k + 1" "x' < 2 ^ y'" using assms by (auto simp: next_position_def split: if_splits)
  show "y' \<noteq> 0" using assms by (cases y) (auto simp: next_position_def split: if_splits)
qed

lemma parent_coordinates:
  assumes "2 ^ y + x = k + 1" "y \<noteq> 0"
  shows "2 ^ (y - 1) + x div 2 = par k + 1" "k \<noteq> 0" "x mod 2 = 1 \<longleftrightarrow> k = 2 * par k + 2" "x mod 2 \<noteq> 1 \<longleftrightarrow> k = 2 * par k + 1"
proof -
  obtain z where z: "y = Suc z" using assms(2) by (cases y) auto
  have "(1 :: nat) \<le> 2 ^ z" by simp
  then have k: "k + 1 = 2 * 2 ^ z + x" "1 \<le> (2 :: nat) ^ z" using assms(1) z by auto
  then show "2 ^ (y - 1) + x div 2 = par k + 1" "k \<noteq> 0" "x mod 2 = 1 \<longleftrightarrow> k = 2 * par k + 2" "x mod 2 \<noteq> 1 \<longleftrightarrow> k = 2 * par k + 1"
    unfolding par_def z by (simp, presburger+)
qed

lemma get_node_loop_ok:
  assumes "\<forall>k < length ids. palive q (ids ! k) \<and> pleft q (ids ! k) = node_at ids (2 * k + 1) \<and> pright q (ids ! k) = node_at ids (2 * k + 2)"
  shows "2 ^ (r + k) + x \<le> length ids \<Longrightarrow>
    get_node_loop q x k (node_at ids (2 ^ r + x div 2 ^ k - 1)) = Ret (node_at ids (2 ^ (r + k) + x - 1))"
proof (induction k arbitrary: r)
  case (Suc k)
  let ?j = "2 ^ r + x div 2 ^ Suc k - 1"
  have "(2 ^ r + x div 2 ^ Suc k) * 2 ^ Suc k \<le> 2 ^ (r + Suc k) + x"
    by (simp add: add_mult_distrib power_add div_times_less_eq_dividend)
  also have "\<dots> \<le> length ids" by (rule Suc.prems)
  finally have "2 ^ r + x div 2 ^ Suc k \<le> length ids"
    by (rule order_trans [rotated]) simp
  moreover have one: "(1 :: nat) \<le> 2 ^ r" by simp
  ultimately have j: "?j < length ids" by linarith
  have half: "x div 2 ^ k = 2 * (x div 2 ^ Suc k) + x div 2 ^ k mod 2"
  proof -
    have "x div 2 ^ Suc k = x div 2 ^ k div 2" by (simp only: power_Suc2 div_mult2_eq)
    then show ?thesis by simp
  qed
  have "(if x div 2 ^ k mod 2 = 1 then pright q (ids ! ?j) else pleft q (ids ! ?j)) = node_at ids (2 ^ Suc r + x div 2 ^ k - 1)"
  proof (cases "x div 2 ^ k mod 2 = 1")
    case True
    with half one have "2 * ?j + 2 = 2 ^ Suc r + x div 2 ^ k - 1" unfolding power_Suc by linarith
    with assms j True show ?thesis by metis
  next
    case False
    then have "x div 2 ^ k mod 2 = 0" by simp
    with half one have "2 * ?j + 1 = 2 ^ Suc r + x div 2 ^ k - 1" unfolding power_Suc by linarith
    with assms j False show ?thesis by metis
  qed
  moreover have "get_node_loop q x (Suc k) (node_at ids ?j) =
      get_node_loop q x k (if x div 2 ^ k mod 2 = 1 then pright q (ids ! ?j) else pleft q (ids ! ?j))"
  proof -
    have "node_at ids ?j = Some (ids ! ?j)" using j by (simp only: node_at_def if_True)
    moreover have "palive q (ids ! ?j)" using j assms by blast
    ultimately show ?thesis by (simp only: get_node_loop.simps option.case not_True_eq_False if_False)
  qed
  moreover have "get_node_loop q x k (node_at ids (2 ^ Suc r + x div 2 ^ k - 1)) = Ret (node_at ids (2 ^ (Suc r + k) + x - 1))"
    using Suc.prems by (intro Suc.IH) simp
  ultimately show ?case by simp
qed simp

lemma get_node_at_xy_ok:
  assumes "\<forall>k < length ids. palive q (ids ! k) \<and> pleft q (ids ! k) = node_at ids (2 * k + 1) \<and> pright q (ids ! k) = node_at ids (2 * k + 2) \<and>
      2 ^ py q (ids ! k) + px q (ids ! k) = k + 1 \<and> px q (ids ! k) < 2 ^ py q (ids ! k)"
    and "proot q = node_at ids 0" "2 ^ y + x = k + 1" "x < 2 ^ y" "k < length ids"
  shows "get_node_at_xy q x y = Ret (ids ! k)"
proof -
  have "get_node_loop q x y (node_at ids (2 ^ 0 + x div 2 ^ y - 1)) = Ret (node_at ids (2 ^ (0 + y) + x - 1))"
    using assms by (intro get_node_loop_ok) auto
  then have "get_node_loop q x y (proot q) = Ret (Some (ids ! k))" using assms(2-5) by (simp add: node_at_def)
  moreover have "px q (ids ! k) = x \<and> py q (ids ! k) = y"
    using coordinates_unique [of "py q (ids ! k)" "px q (ids ! k)" y x] assms(1,3-5) by auto
  moreover have "proot q \<noteq> None" using assms(2,5) by (auto simp: node_at_def)
  ultimately show ?thesis using assms(1,5) by (simp add: get_node_at_xy_def)
qed

section \<open>Appending a node, cutting off the last one\<close>

lemma node_at_snoc: "node_at (ids @ [n]) k = (if k = length ids then Some n else node_at ids k)"
  by (auto simp: node_at_def nth_append)

lemma before_snoc: "j < length ids \<Longrightarrow> before (ids @ [n]) k j = before ids k j"
  by (simp add: before_def node_at_snoc)

lemma shape_empty: "shape (avahi_prio_queue_new d) []"
  by (simp add: shape_def avahi_prio_queue_new_def node_at_def before_def)

lemma append_node_ok:
  assumes s: "shape q ids"
  shows "\<exists>q'. append_node q d = Ret q' \<and> shape q' (ids @ [pfresh q]) \<and> pdata q' = (pdata q)(pfresh q := d) \<and> pfresh q' = Suc (pfresh q)"
proof (cases "ids = []")
  case True
  with s show ?thesis
    by (auto simp: append_node_def shape_def node_at_def before_def node_ok_def Let_def set_next_def set_left_def set_right_def
        set_prev_def set_parent_def finish_node_def)
next
  case False
  let ?n = "pfresh q" and ?N = "length ids"
  let ?l = "ids ! (?N - 1)"
  obtain x y where xy: "next_position (px q ?l) (py q ?l) = (x, y)" by fastforce
  have l: "plast q = Some ?l" "proot q \<noteq> None" "n_nodes q = ?N" using s False by (auto simp: shape_def before_def node_at_def)
  have "?N - 1 < ?N" using False by simp
  note at = shape_at [OF s]
  have "2 ^ py q ?l + px q ?l = ?N" "px q ?l < 2 ^ py q ?l" using at(7,8) [OF \<open>?N - 1 < ?N\<close>] False by simp_all
  note c = next_coordinates [OF this xy]
  note pc = parent_coordinates [OF c(1,3)]
  have pN: "par ?N < ?N" using par_less [OF pc(2)] by simp
  have new: "?n \<notin> set ids" using s by (auto simp: shape_def)
  have ne: "ids ! k \<noteq> ?n" if "k < ?N" for k using new that by (metis nth_mem)
  define q1 where "q1 = set_prev ?n (Some ?l) (set_next ?l (Some ?n)
    (q\<lparr>palive := (palive q)(?n := True), pfresh := Suc ?n, pdata := (pdata q)(?n := d), px := (px q)(?n := x), py := (py q)(?n := y)\<rparr>))"
  have q1: "palive q1 = (palive q)(?n := True)" "pfresh q1 = Suc ?n" "pdata q1 = (pdata q)(?n := d)" "px q1 = (px q)(?n := x)"
    "py q1 = (py q)(?n := y)" "pleft q1 = pleft q" "pright q1 = pright q" "pparent q1 = pparent q" "proot q1 = proot q"
    "pnext q1 = (pnext q)(?l := Some ?n)" "pprev q1 = (pprev q)(?n := Some ?l)" "n_nodes q1 = n_nodes q"
    by (simp_all add: q1_def)
  have p: "get_node_at_xy q1 (x div 2) (y - 1) = Ret (ids ! par ?N)"
  proof (rule get_node_at_xy_ok [OF _ _ pc(1) _ pN])
    show "\<forall>k<?N. palive q1 (ids ! k) \<and> pleft q1 (ids ! k) = node_at ids (2 * k + 1) \<and> pright q1 (ids ! k) = node_at ids (2 * k + 2) \<and>
      2 ^ py q1 (ids ! k) + px q1 (ids ! k) = k + 1 \<and> px q1 (ids ! k) < 2 ^ py q1 (ids ! k)"
      using at ne by (simp add: q1)
    show "proot q1 = node_at ids 0" using s by (simp add: q1 shape_def)
    show "x div 2 < 2 ^ (y - 1)" using c(2,3) by (cases y) auto
  qed
  let ?p = "ids ! par ?N"
  define q2 where "q2 = attach_node ?n ?p x q1"
  have q2: "palive q2 = palive q1" "pfresh q2 = pfresh q1" "pdata q2 = pdata q1" "px q2 = px q1" "py q2 = py q1"
    "pleft q2 = (if x mod 2 = 1 then pleft q1 else (pleft q1)(?p := Some ?n))"
    "pright q2 = (if x mod 2 = 1 then (pright q1)(?p := Some ?n) else pright q1)"
    "pparent q2 = (pparent q1)(?n := Some ?p)" "proot q2 = proot q1" "pnext q2 = pnext q1" "pprev q2 = pprev q1" "n_nodes q2 = n_nodes q1"
    by (simp_all add: q2_def attach_node_def Let_def)
  define q3 where "q3 = finish_node ?n q2"
  have q3: "palive q3 = palive q2" "pfresh q3 = pfresh q2" "pdata q3 = pdata q2" "px q3 = px q2" "py q3 = py q2"
    "pleft q3 = (pleft q2)(?n := None)" "pright q3 = (pright q2)(?n := None)"
    "pparent q3 = pparent q2" "proot q3 = proot q2" "pnext q3 = (pnext q2)(?n := None)" "pprev q3 = pprev q2"
    "n_nodes q3 = n_nodes q2 + 1" "plast q3 = Some ?n"
    by (simp_all add: q3_def finish_node_def)
  have run: "append_node q d = Ret q3"
    using l c(3) p False xy by (simp add: append_node_def q2_def q3_def Let_def q1_def)
  have eq: "ids ! j = ids ! k \<longleftrightarrow> j = k" if "j < ?N" "k < ?N" for j k
    using shape_distinct [OF s] that by (simp add: nth_eq_iff_index_eq)
  have old: "node_ok q3 (ids @ [?n]) k" if k: "k < ?N" for k
  proof -
    have m: "(ids @ [?n]) ! k = ids ! k" using k by (simp add: nth_append)
    have c1: "2 * k + 1 = ?N \<longleftrightarrow> k = par ?N \<and> x mod 2 \<noteq> 1" and c2: "2 * k + 2 = ?N \<longleftrightarrow> k = par ?N \<and> x mod 2 = 1"
      using pc(3,4) par_children [of k] by metis+
    have c3: "k + 1 = ?N \<longleftrightarrow> k = ?N - 1" using k by linarith
    have "pleft q3 (ids ! k) = (if k = par ?N \<and> x mod 2 \<noteq> 1 then Some ?n else node_at ids (2 * k + 1))"
      "pright q3 (ids ! k) = (if k = par ?N \<and> x mod 2 = 1 then Some ?n else node_at ids (2 * k + 2))"
      using at(2,3) [OF k] ne [OF k] eq [OF k pN] by (simp_all add: q3 q2 q1)
    moreover have "pnext q3 (ids ! k) = (if k = ?N - 1 then Some ?n else node_at ids (k + 1))"
      using at(5) [OF k] ne [OF k] eq [OF k \<open>?N - 1 < ?N\<close>] by (simp add: q3 q2 q1)
    moreover have "pparent q3 (ids ! k) = before (ids @ [?n]) k ((k - 1) div 2)" "pprev q3 (ids ! k) = before (ids @ [?n]) k (k - 1)"
      using at(4,6) [OF k] ne [OF k] k before_snoc [of "k - 1" ids ?n k] before_snoc [of "(k - 1) div 2" ids ?n k]
      by (simp_all add: q3 q2 q1 par_def)
    ultimately show ?thesis
      using at(7,8) [OF k] ne [OF k] unfolding node_ok_def Let_def m node_at_snoc c1 c2 c3 by (simp add: q3 q2 q1)
  qed
  have "node_ok q3 (ids @ [?n]) ?N"
  proof -
    have m: "(ids @ [?n]) ! ?N = ?n" by simp
    show ?thesis
      unfolding node_ok_def Let_def m using c(1,2) False pN \<open>?N - 1 < ?N\<close>
      by (auto simp: q3 q2 q1 node_at_def before_def nth_append par_def)
  qed
  then have "\<forall>k < length (ids @ [?n]). node_ok q3 (ids @ [?n]) k" using old by (auto simp: less_Suc_eq)
  moreover have "distinct (ids @ [?n])" "\<forall>n. palive q3 n \<longleftrightarrow> n \<in> set (ids @ [?n])" "\<forall>n \<in> set (ids @ [?n]). n < pfresh q3"
    using s new by (auto simp: shape_def q3 q2 q1 less_SucI)
  moreover have "n_nodes q3 = length (ids @ [?n])" "proot q3 = node_at (ids @ [?n]) 0"
      "plast q3 = before (ids @ [?n]) (length (ids @ [?n])) (length (ids @ [?n]) - 1)"
    using s False by (auto simp: shape_def q3 q2 q1 node_at_def before_def nth_append)
  ultimately have "shape q3 (ids @ [?n])" unfolding shape_def by blast
  then show ?thesis using run by (auto simp: q3 q2 q1)
qed

lemma remove_last_ok:
  assumes s: "shape q (ids @ [n])"
  shows "\<exists>q'. remove_last q n = Ret q' \<and> shape q' ids \<and> pdata q' = pdata q \<and> pfresh q' = pfresh q"
proof (cases "ids = []")
  case True
  with s show ?thesis
    by (auto simp: remove_last_def shape_def node_at_def before_def node_ok_def Let_def)
next
  case False
  let ?N = "length ids"
  let ?m = "ids ! (?N - 1)" and ?p = "ids ! par ?N"
  have len: "?N < length (ids @ [n])" "?N - 1 < ?N" using False by simp_all
  have pN: "par ?N < ?N" using par_less [of ?N] False by simp
  have at: "palive q (ids ! k)" "pleft q (ids ! k) = node_at (ids @ [n]) (2 * k + 1)" "pright q (ids ! k) = node_at (ids @ [n]) (2 * k + 2)"
    "pparent q (ids ! k) = before ids k (par k)" "pnext q (ids ! k) = node_at (ids @ [n]) (k + 1)" "pprev q (ids ! k) = before ids k (k - 1)"
    "2 ^ py q (ids ! k) + px q (ids ! k) = k + 1" "px q (ids ! k) < 2 ^ py q (ids ! k)" if "k < ?N" for k
    using shape_at [OF s, of k] that before_snoc [of "par k" ids n k] before_snoc [of "k - 1" ids n k] par_less [of k]
    by (cases "k = 0"; auto simp: nth_append before_def)+
  have atn: "palive q n" "pleft q n = None" "pright q n = None" "pnext q n = None" "pprev q n = Some ?m" "pparent q n = Some ?p"
    using shape_at [OF s len(1)] False pN by (simp_all add: node_at_def before_def nth_append)
  have q: "plast q = Some n" "n_nodes q = ?N + 1" "proot q = Some (ids ! 0)" "distinct ids" "n \<notin> set ids"
    "\<And>k. palive q k \<longleftrightarrow> k = n \<or> k \<in> set ids" "\<And>k. k \<in> set ids \<Longrightarrow> k < pfresh q"
    using s False by (auto simp: shape_def before_def node_at_def nth_append)
  have eq: "ids ! j = ids ! k \<longleftrightarrow> j = k" if "j < ?N" "k < ?N" for j k
    using q(4) that by (simp add: nth_eq_iff_index_eq)
  have nid: "ids ! k \<noteq> n" if "k < ?N" for k using q(5) that by (metis nth_mem)
  define od where "od \<longleftrightarrow> ?N = 2 * par ?N + 1"
  have alt: "\<not> od \<Longrightarrow> ?N = 2 * par ?N + 2" using par_child [OF refl, of ?N] False unfolding od_def by simp
  have kids: "pleft q ?p = Some n \<longleftrightarrow> od" "od \<Longrightarrow> pright q ?p = None" "\<not> od \<Longrightarrow> pright q ?p = Some n" "pleft q ?p \<noteq> None"
  proof -
    define j where "j = par ?N"
    have l: "pleft q ?p = (if 2 * j + 1 = ?N then Some n else node_at ids (2 * j + 1))"
      "pright q ?p = (if 2 * j + 2 = ?N then Some n else node_at ids (2 * j + 2))"
      using at(2,3) [OF pN] unfolding node_at_snoc j_def by blast+
    have o: "od \<longleftrightarrow> 2 * j + 1 = ?N" "2 * j + 1 \<noteq> ?N \<Longrightarrow> 2 * j + 2 = ?N" using alt unfolding j_def od_def by metis+
    show "pleft q ?p = Some n \<longleftrightarrow> od" "od \<Longrightarrow> pright q ?p = None" "\<not> od \<Longrightarrow> pright q ?p = Some n" "pleft q ?p \<noteq> None"
      using o l nid [of "2 * j + 1"] by (cases od; simp add: node_at_def)+
  qed
  define q1 where "q1 = set_next ?m None (q\<lparr>plast := Some ?m\<rparr>)"
  define q2 where "q2 = (if od then set_left ?p None q1 else set_right ?p None q1)"
  define q3 where "q3 = q2\<lparr>palive := (palive q2)(n := False), n_nodes := n_nodes q2 - 1\<rparr>"
  have f: "palive q3 = (palive q)(n := False)" "pfresh q3 = pfresh q" "pdata q3 = pdata q" "px q3 = px q" "py q3 = py q"
    "pleft q3 = (if od then (pleft q)(?p := None) else pleft q)" "pright q3 = (if od then pright q else (pright q)(?p := None))"
    "pparent q3 = pparent q" "proot q3 = proot q" "pnext q3 = (pnext q)(?m := None)" "pprev q3 = pprev q"
    "n_nodes q3 = ?N" "plast q3 = Some ?m"
    by (simp_all add: q3_def q2_def q1_def q(2))
  have "remove_last q n = Ret q3"
    using atn q(1,2) kids at(1) [OF pN] by (cases od) (simp_all add: remove_last_def Let_def q3_def q2_def q1_def)
  moreover have "node_ok q3 ids k" if k: "k < ?N" for k
  proof -
    have c1: "2 * k + 1 = ?N \<longleftrightarrow> k = par ?N \<and> od" and c2: "2 * k + 2 = ?N \<longleftrightarrow> k = par ?N \<and> \<not> od"
    proof -
      have p: "2 * k + 1 = ?N \<Longrightarrow> par ?N = k" "2 * k + 2 = ?N \<Longrightarrow> par ?N = k" using par_children(1,2) [of k] by argo+
      show "2 * k + 1 = ?N \<longleftrightarrow> k = par ?N \<and> od" unfolding od_def using p(1) by linarith
      show "2 * k + 2 = ?N \<longleftrightarrow> k = par ?N \<and> \<not> od" using alt p(2) unfolding od_def by linarith
    qed
    have c3: "k + 1 = ?N \<longleftrightarrow> k = ?N - 1" using k by linarith
    have none: "node_at ids ?N = None" by (simp add: node_at_def)
    have "pleft q3 (ids ! k) = (if k = par ?N \<and> od then None else if 2 * k + 1 = ?N then Some n else node_at ids (2 * k + 1))"
      "pright q3 (ids ! k) = (if k = par ?N \<and> \<not> od then None else if 2 * k + 2 = ?N then Some n else node_at ids (2 * k + 2))"
      using at(2,3) [OF k] eq [OF k pN] unfolding node_at_snoc by (simp_all add: f)
    then have "pleft q3 (ids ! k) = node_at ids (2 * k + 1)" "pright q3 (ids ! k) = node_at ids (2 * k + 2)"
      unfolding c1 [symmetric] c2 [symmetric] using none by (metis)+
    moreover have "pnext q3 (ids ! k) = (if k + 1 = ?N then None else if k + 1 = ?N then Some n else node_at ids (k + 1))"
      using at(5) [OF k] eq [OF k len(2)] unfolding node_at_snoc c3 by (simp add: f)
    then have "pnext q3 (ids ! k) = node_at ids (k + 1)" using none by metis
    ultimately show ?thesis
      using at(4,6,7,8) [OF k] unfolding node_ok_def Let_def by (simp add: f par_def)
  qed
  moreover have "proot q3 = node_at ids 0" "plast q3 = before ids ?N (?N - 1)" using False by (simp_all add: f q(3) node_at_def before_def)
  ultimately have "remove_last q n = Ret q3" "shape q3 ids" using q(4-7) by (auto simp: shape_def f)
  then show ?thesis by (auto simp: f)
qed

section \<open>The invariant of the queue\<close>

text \<open>\<open>ids\<close> are the nodes of the queue, level by level, and their data is in heap order.\<close>

definition pq_ok :: "('d \<Rightarrow> 'd \<Rightarrow> int) \<Rightarrow> 'd prioq \<Rightarrow> nat list \<Rightarrow> bool" where
  "pq_ok cmp q ids \<longleftrightarrow> shape q ids \<and> heap cmp (data_at q ids) (length ids)"

text \<open>The data of the nodes in the queue.\<close>

definition pq_data :: "'d prioq \<Rightarrow> nat \<Rightarrow> 'd option" where
  "pq_data q n = (if palive q n then Some (pdata q n) else None)"

lemma pq_ok_new: "pq_ok cmp (avahi_prio_queue_new d) []"
  by (simp add: pq_ok_def shape_empty heap_def)

lemma pq_data_new [simp]: "pq_data (avahi_prio_queue_new d) = Map.empty"
  by (simp add: pq_data_def avahi_prio_queue_new_def fun_eq_iff)

lemma pq_ok_alive: "pq_ok cmp q ids \<Longrightarrow> palive q n \<longleftrightarrow> n \<in> set ids"
  by (simp add: pq_ok_def shape_def)

lemma pq_fresh: "pq_ok cmp q ids \<Longrightarrow> pq_data q (pfresh q) = None"
  by (auto simp: pq_ok_def shape_def pq_data_def)

lemma rearranged_data: "rearranged q ids q' ids' \<Longrightarrow> pq_data q' = pq_data q"
  by (simp add: rearranged_def pq_data_def fun_eq_iff)

context prio_compare
begin

lemma root_minimal:
  assumes "pq_ok cmp q ids" "proot q = Some r" "pq_data q n = Some d"
  shows "cmp (pdata q r) d \<le> 0"
proof -
  have s: "shape q ids" "heap cmp (data_at q ids) (length ids)" using assms(1) by (auto simp: pq_ok_def)
  from assms(3) have "palive q n" "d = pdata q n" by (auto simp: pq_data_def split: if_splits)
  then obtain k where "k < length ids" "ids ! k = n" using s(1) by (auto simp: shape_def in_set_conv_nth)
  with heap_root [OF s(2), of k] \<open>d = pdata q n\<close> s(1) assms(2) show ?thesis
    by (auto simp: data_at_def shape_def node_at_def split: if_splits)
qed

lemma root_none: "pq_ok cmp q ids \<Longrightarrow> proot q = None \<longleftrightarrow> pq_data q = Map.empty"
  by (cases ids) (auto simp: pq_ok_def shape_def node_at_def pq_data_def fun_eq_iff)

lemma shuffle_keeps:
  assumes ok: "pq_ok cmp q ids" and n: "palive q n"
  shows "\<exists>q' ids'. avahi_prio_queue_shuffle cmp q n = Ret q' \<and> pq_ok cmp q' ids' \<and> pq_data q' = pq_data q"
proof -
  have s: "shape q ids" "heap cmp (data_at q ids) (length ids)" using ok by (auto simp: pq_ok_def)
  from n s(1) obtain k where k: "k < length ids" "ids ! k = n" by (auto simp: shape_def in_set_conv_nth)
  from shuffle_ok [OF s(1) k(1) heap_hole [OF s(2)]] k(2) obtain q' ids' where
    "avahi_prio_queue_shuffle cmp q n = Ret q'" "rearranged q ids q' ids'" "heap cmp (data_at q' ids') (length ids')" by auto
  then show ?thesis using rearranged_data [of q ids q' ids'] unfolding pq_ok_def by (auto simp: rearranged_def)
qed

lemma put_ok:
  assumes ok: "pq_ok cmp q ids"
  shows "\<exists>q' ids'. avahi_prio_queue_put cmp q d = Ret (q', pfresh q) \<and> pq_ok cmp q' ids' \<and>
    pq_data q' = (pq_data q)(pfresh q \<mapsto> d) \<and> pfresh q' = Suc (pfresh q)"
proof -
  have s: "shape q ids" "heap cmp (data_at q ids) (length ids)" using ok by (auto simp: pq_ok_def)
  let ?n = "pfresh q"
  from append_node_ok [OF s(1)] obtain q1 where q1: "append_node q d = Ret q1" "shape q1 (ids @ [?n])" "pdata q1 = (pdata q)(?n := d)"
    "pfresh q1 = Suc ?n" by blast
  have new: "?n \<notin> set ids" using s(1) by (auto simp: shape_def)
  have same: "data_at q1 (ids @ [?n]) j = data_at q ids j" if "j < length ids" for j
  proof -
    have "ids ! j \<noteq> ?n" using that new nth_mem by metis
    then show ?thesis using that by (simp add: data_at_def q1(3) nth_append)
  qed
  have "heap_except cmp (data_at q1 (ids @ [?n])) (length (ids @ [?n])) (length ids)"
    unfolding heap_except_def
  proof (intro conjI allI impI)
    fix c assume "c < length (ids @ [?n])" "c \<noteq> 0" "c \<noteq> length ids"
    then have "c < length ids" "par c < length ids" using par_less [of c] by auto
    with s(2) \<open>c \<noteq> 0\<close> show "cmp (data_at q1 (ids @ [?n]) (par c)) (data_at q1 (ids @ [?n]) c) \<le> 0" by (simp add: same heap_def)
  next
    fix c assume "c < length (ids @ [?n])" "c \<noteq> 0" "par c = length ids"
    then show "cmp (data_at q1 (ids @ [?n]) (par (length ids))) (data_at q1 (ids @ [?n]) c) \<le> 0" using par_less [of c] by simp
  qed
  from shuffle_ok [OF q1(2) _ this] obtain q' ids' where
    q': "avahi_prio_queue_shuffle cmp q1 ?n = Ret q'" "rearranged q1 (ids @ [?n]) q' ids'" "heap cmp (data_at q' ids') (length ids')" by auto
  have "pq_data q1 = (pq_data q)(?n \<mapsto> d)" using q1(2,3) s(1) by (auto simp: pq_data_def shape_def fun_eq_iff)
  with q' q1 rearranged_data [OF q'(2)] show ?thesis by (auto simp: avahi_prio_queue_put_def pq_ok_def rearranged_def)
qed

lemma heap_butlast: "heap cmp (data_at q (ids @ [n])) (length (ids @ [n])) \<Longrightarrow> heap cmp (data_at q ids) (length ids)"
  unfolding heap_def
proof (intro allI impI)
  fix c assume h: "\<forall>c<length (ids @ [n]). c \<noteq> 0 \<longrightarrow> cmp (data_at q (ids @ [n]) (par c)) (data_at q (ids @ [n]) c) \<le> 0"
    and c: "c < length ids" "c \<noteq> 0"
  then have "par c < length ids" using par_less [of c] by linarith
  moreover have "cmp (data_at q (ids @ [n]) (par c)) (data_at q (ids @ [n]) c) \<le> 0" using h c by simp
  ultimately show "cmp (data_at q ids (par c)) (data_at q ids c) \<le> 0" using c by (simp add: data_at_def nth_append)
qed

lemma remove_ok:
  assumes ok: "pq_ok cmp q ids" and n: "palive q n"
  shows "\<exists>q' ids'. avahi_prio_queue_remove cmp q n = Ret q' \<and> pq_ok cmp q' ids' \<and> pq_data q' = (pq_data q)(n := None) \<and> pfresh q' = pfresh q"
proof -
  have s: "shape q ids" "heap cmp (data_at q ids) (length ids)" using ok by (auto simp: pq_ok_def)
  from n s(1) obtain k where k: "k < length ids" "ids ! k = n" by (auto simp: shape_def in_set_conv_nth)
  then obtain bs r where ids: "ids = bs @ [r]" by (cases ids rule: rev_cases) auto
  have d: "distinct ids" using s(1) by (rule shape_distinct)
  have lastq: "plast q = Some r" using s(1) by (auto simp: shape_def before_def node_at_def ids nth_append)
  have gone: "pq_data q' = (pq_data q0)(m := None)"
    if "shape q0 (js @ [m])" "shape q' js" "pdata q' = pdata q0" for q0 q' js m
    using that by (auto simp: pq_data_def shape_def fun_eq_iff)
  show ?thesis
  proof (cases "n = r")
    case True
    from remove_last_ok [OF s(1) [unfolded ids]] obtain q' where q': "remove_last q r = Ret q'" "shape q' bs" "pdata q' = pdata q" "pfresh q' = pfresh q"
      by blast
    moreover have "heap cmp (data_at q' bs) (length bs)"
      using heap_butlast s(2) q'(3) unfolding ids by (simp add: data_at_def [abs_def])
    ultimately show ?thesis
      using True lastq n gone [OF s(1) [unfolded ids] q'(2,3)] by (auto simp: avahi_prio_queue_remove_def pq_ok_def)
  next
    case False
    then have kb: "k < length bs" "bs ! k = n" using k by (auto simp: ids nth_append split: if_splits)
    let ?ids = "bs[k := r] @ [n]"
    have e: "ids[length bs := ids ! k, k := ids ! length bs] = ?ids" using kb by (auto simp: ids nth_append list_update_append)
    from exchange_at [OF s(1), of "length bs" k] kb obtain q1 where q1: "exchange_nodes q r n = Ret q1" "rearranged q ids q1 ?ids"
      "data_at q1 ?ids = exchange (length bs) k (data_at q ids)" unfolding e by (auto simp: ids nth_append)
    from q1(2) remove_last_ok [of q1 "bs[k := r]" n] obtain q2 where q2: "remove_last q1 n = Ret q2" "shape q2 (bs[k := r])"
      "pdata q2 = pdata q1" "pfresh q2 = pfresh q1" by (auto simp: rearranged_def)
    have "heap_except cmp (data_at q2 (bs[k := r])) (length bs) k"
    proof (rule heap_hole)
      show "heap cmp (data_at q bs) (length bs)" using s(2) unfolding ids by (rule heap_butlast)
    next
      fix j assume "j < length bs" "j \<noteq> k"
      then show "data_at q2 (bs[k := r]) j = data_at q bs j"
        using q1(2) q2(3) by (simp add: data_at_def rearranged_def)
    qed
    with shuffle_ok [OF q2(2), of k] kb obtain q' ids' where
      q': "avahi_prio_queue_shuffle cmp q2 r = Ret q'" "rearranged q2 (bs[k := r]) q' ids'" "heap cmp (data_at q' ids') (length ids')" by auto
    have "pq_data q2 = (pq_data q1)(n := None)" using q1(2) q2(2,3) by (intro gone) (auto simp: rearranged_def)
    with q' q1 q2 lastq False n rearranged_data [OF q'(2)] rearranged_data [OF q1(2)] show ?thesis
      by (auto simp: avahi_prio_queue_remove_def pq_ok_def rearranged_def)
  qed
qed

lemma pq_ok_size: "pq_ok cmp q ids \<Longrightarrow> n_nodes q = length ids \<and> (plast q = None \<longleftrightarrow> ids = []) \<and> (\<forall>n. plast q = Some n \<longrightarrow> palive q n)"
  by (auto simp: pq_ok_def shape_def before_def node_at_def split: if_splits)

end

end
