(* ===== verification/Timeeventq.thy ===== *)
theory Timeeventq
  imports Prioq_Ops Timeval
begin

text \<open>
  \<open>avahi-core/timeeventq.c\<close>: the queue of time events, on the priority queue. An event is a
  number in a store; \<open>ttimeout\<close> is the time for which the poll API's single timeout is set. The
  function and its argument that an event calls are \<open>tuser\<close>; calling it is an argument of
  \<open>expiration_event\<close>.
\<close>

section \<open>State and operations\<close>

record 'u tevent =
  texpiry :: timeval
  tlast_run :: timeval
  tnode :: nat
  tuser :: 'u

record 'u timeq =
  tevents :: "nat \<Rightarrow> 'u tevent option"
  tprioq :: "nat prioq"
  ttimeout :: "timeval option"
  tnext :: nat

definition avahi_time_event_queue_new :: "'u timeq" where
  "avahi_time_event_queue_new = \<lparr>tevents = Map.empty, tprioq = avahi_prio_queue_new 0, ttimeout = None, tnext = 0\<rparr>"

definition event_compare :: "'u tevent \<Rightarrow> 'u tevent \<Rightarrow> int" where
  "event_compare a b =
     (let ret = avahi_timeval_compare (texpiry a) (texpiry b)
      in if ret \<noteq> 0 then ret else avahi_timeval_compare (tlast_run a) (tlast_run b))"

text \<open>\<open>compare\<close>, for the events in memory; the nodes of the queue belong to events.\<close>

definition compare_in :: "(nat \<Rightarrow> 'u tevent option) \<Rightarrow> nat \<Rightarrow> nat \<Rightarrow> int" where
  "compare_in es a b = event_compare (the (es a)) (the (es b))"

definition time_event_queue_root :: "'u timeq \<Rightarrow> nat option" where
  "time_event_queue_root q = map_option (pdata (tprioq q)) (proot (tprioq q))"

definition update_timeout :: "'u timeq \<Rightarrow> 'u timeq" where
  "update_timeout q =
     (case time_event_queue_root q of
        None \<Rightarrow> q\<lparr>ttimeout := None\<rparr>
      | Some e \<Rightarrow> q\<lparr>ttimeout := map_option texpiry (tevents q e)\<rparr>)"

text \<open>Writing an event and moving its node to its place.\<close>

definition reschedule :: "'u timeq \<Rightarrow> nat \<Rightarrow> 'u tevent \<Rightarrow> 'u timeq res" where
  "reschedule q e ev =
     (let es = (tevents q)(e \<mapsto> ev)
      in res_map (\<lambda>pq. q\<lparr>tevents := es, tprioq := pq\<rparr>) (avahi_prio_queue_shuffle (compare_in es) (tprioq q) (tnode ev)))"

definition avahi_time_event_new :: "'u timeq \<Rightarrow> timeval option \<Rightarrow> 'u \<Rightarrow> ('u timeq \<times> nat) res" where
  "avahi_time_event_new q tv u =
     (let e = tnext q;
          epoch = \<lparr>tv_sec = 0, tv_usec = 0\<rparr>;
          ev = \<lparr>texpiry = (case tv of None \<Rightarrow> epoch | Some t \<Rightarrow> t), tlast_run = epoch, tnode = 0, tuser = u\<rparr>
      in res_bind (avahi_prio_queue_put (compare_in ((tevents q)(e \<mapsto> ev))) (tprioq q) e) (\<lambda>(pq, n).
           Ret (update_timeout (q\<lparr>tevents := (tevents q)(e \<mapsto> ev\<lparr>tnode := n\<rparr>), tprioq := pq, tnext := Suc e\<rparr>), e)))"

definition avahi_time_event_free :: "'u timeq \<Rightarrow> nat \<Rightarrow> 'u timeq res" where
  "avahi_time_event_free q e =
     (case tevents q e of
        None \<Rightarrow> Crash
      | Some ev \<Rightarrow>
          res_map (\<lambda>pq. update_timeout (q\<lparr>tprioq := pq, tevents := (tevents q)(e := None)\<rparr>))
            (avahi_prio_queue_remove (compare_in (tevents q)) (tprioq q) (tnode ev)))"

definition avahi_time_event_update :: "'u timeq \<Rightarrow> nat \<Rightarrow> timeval \<Rightarrow> 'u timeq res" where
  "avahi_time_event_update q e tv =
     (case tevents q e of
        None \<Rightarrow> Crash
      | Some ev \<Rightarrow> res_map update_timeout (reschedule q e (ev\<lparr>texpiry := tv\<rparr>)))"

text \<open>\<open>call q e\<close> runs the callback of \<open>e\<close>. The event that is run is returned.\<close>

definition expiration_event ::
  "timeval \<Rightarrow> ('u timeq \<Rightarrow> nat \<Rightarrow> 'u timeq res) \<Rightarrow> 'u timeq \<Rightarrow> ('u timeq \<times> nat option) res" where
  "expiration_event now call q =
     (case time_event_queue_root q of
        None \<Rightarrow> Ret (update_timeout q, None)
      | Some e \<Rightarrow>
          (case tevents q e of
             None \<Rightarrow> Crash
           | Some ev \<Rightarrow>
               if 0 \<le> avahi_timeval_compare now (texpiry ev) then
                 res_bind (reschedule q e (ev\<lparr>tlast_run := now\<rparr>)) (\<lambda>q.
                 res_bind (call q e) (\<lambda>q. Ret (update_timeout q, Some e)))
               else Ret (update_timeout q, None)))"

text \<open>\<open>avahi_time_event_queue_free\<close> frees the events one by one; \<open>k\<close> bounds the rounds.\<close>

fun time_event_queue_free_loop :: "nat \<Rightarrow> 'u timeq \<Rightarrow> 'u timeq res" where
  "time_event_queue_free_loop 0 q = (if time_event_queue_root q = None then Ret q else Crash)"
| "time_event_queue_free_loop (Suc k) q =
     (case time_event_queue_root q of
        None \<Rightarrow> Ret q
      | Some e \<Rightarrow> res_bind (avahi_time_event_free q e) (time_event_queue_free_loop k))"

definition avahi_time_event_queue_free :: "'u timeq \<Rightarrow> 'u timeq res" where
  "avahi_time_event_queue_free q =
     res_bind (time_event_queue_free_loop (n_nodes (tprioq q)) q) (\<lambda>q.
     res_map (\<lambda>pq. q\<lparr>tprioq := pq, ttimeout := None\<rparr>) (avahi_prio_queue_free (compare_in (tevents q)) (tprioq q)))"

section \<open>The comparison is a preorder\<close>

lemma timeval_compare_cases:
  "avahi_timeval_compare a b < 0 \<longleftrightarrow> tv_sec a < tv_sec b \<or> tv_sec a = tv_sec b \<and> tv_usec a < tv_usec b"
  "0 < avahi_timeval_compare a b \<longleftrightarrow> tv_sec b < tv_sec a \<or> tv_sec a = tv_sec b \<and> tv_usec b < tv_usec a"
  "avahi_timeval_compare a b = 0 \<longleftrightarrow> a = b"
  by (auto simp: avahi_timeval_compare_def)

lemma event_compare_cases:
  "event_compare a b < 0 \<longleftrightarrow> avahi_timeval_compare (texpiry a) (texpiry b) < 0 \<or>
     texpiry a = texpiry b \<and> avahi_timeval_compare (tlast_run a) (tlast_run b) < 0"
  "0 < event_compare a b \<longleftrightarrow> 0 < avahi_timeval_compare (texpiry a) (texpiry b) \<or>
     texpiry a = texpiry b \<and> 0 < avahi_timeval_compare (tlast_run a) (tlast_run b)"
  using timeval_compare_cases(3) [of "texpiry a" "texpiry b"] by (auto simp: event_compare_def Let_def)

interpretation ev: prio_compare event_compare
proof unfold_locales
  fix a b c :: "'u tevent"
  show "0 < event_compare a b \<longleftrightarrow> event_compare b a < 0"
    by (auto simp: event_compare_cases timeval_compare_cases)
  have le: "event_compare a b \<le> 0 \<longleftrightarrow> \<not> 0 < event_compare a b" for a b :: "'u tevent" by linarith
  have eq: "s = t \<longleftrightarrow> tv_sec s = tv_sec t \<and> tv_usec s = tv_usec t" for s t :: timeval by (cases s; cases t) simp
  show "event_compare a b \<le> 0 \<Longrightarrow> event_compare b c \<le> 0 \<Longrightarrow> event_compare a c \<le> 0"
    unfolding le event_compare_cases timeval_compare_cases eq by auto
qed

interpretation ce: prio_compare "compare_in es" for es :: "nat \<Rightarrow> 'u tevent option"
  by unfold_locales (auto simp: compare_in_def ev.cmp_asym intro: ev.cmp_trans)

section \<open>The invariant\<close>

text \<open>
  The queue is in order, its nodes are those of the events, and the timeout is set to the earliest
  expiry.
\<close>

definition linked :: "'u timeq \<Rightarrow> bool" where
  "linked q \<longleftrightarrow>
     (\<exists>ids. pq_ok (compare_in (tevents q)) (tprioq q) ids) \<and>
     (\<forall>n e. pq_data (tprioq q) n = Some e \<longleftrightarrow> (\<exists>ev. tevents q e = Some ev \<and> tnode ev = n)) \<and>
     (\<forall>e ev. tevents q e = Some ev \<longrightarrow> e < tnext q)"

definition timeout_ok :: "'u timeq \<Rightarrow> bool" where
  "timeout_ok q \<longleftrightarrow>
     (case ttimeout q of
        None \<Rightarrow> tevents q = Map.empty
      | Some t \<Rightarrow> (\<exists>e ev. tevents q e = Some ev \<and> texpiry ev = t) \<and>
          (\<forall>e ev. tevents q e = Some ev \<longrightarrow> avahi_timeval_compare t (texpiry ev) \<le> 0))"

lemma linkedI:
  assumes "pq_ok (compare_in es) pq ids" "\<And>n e. pq_data pq n = Some e \<longleftrightarrow> (\<exists>ev. es e = Some ev \<and> tnode ev = n)"
    "\<And>e ev. es e = Some ev \<Longrightarrow> e < tnext q" "tevents q = es" "tprioq q = pq"
  shows "linked q"
  using assms(1-3) unfolding linked_def assms(4,5) by blast

lemma linked_data: "linked q \<Longrightarrow> pq_data (tprioq q) n = Some e \<longleftrightarrow> (\<exists>ev. tevents q e = Some ev \<and> tnode ev = n)"
  unfolding linked_def by blast

lemma linked_event:
  assumes "linked q" "tevents q e = Some ev"
  shows "palive (tprioq q) (tnode ev)" "pdata (tprioq q) (tnode ev) = e" "e < tnext q"
  using linked_data [OF assms(1), of "tnode ev" e] assms by (auto simp: pq_data_def linked_def split: if_splits)

lemma linked_node:
  assumes "linked q" "palive (tprioq q) n"
  obtains ev where "tevents q (pdata (tprioq q) n) = Some ev" "tnode ev = n"
  using linked_data [OF assms(1), of n "pdata (tprioq q) n"] assms(2) that by (auto simp: pq_data_def)

text \<open>The root is the event to run next.\<close>

lemma root_event:
  assumes "linked q" "time_event_queue_root q = Some e"
  obtains ev where "tevents q e = Some ev" "\<And>e' ev'. tevents q e' = Some ev' \<Longrightarrow> event_compare ev ev' \<le> 0"
proof -
  from assms obtain r ids where r: "proot (tprioq q) = Some r" "e = pdata (tprioq q) r"
    and ok: "pq_ok (compare_in (tevents q)) (tprioq q) ids" by (auto simp: time_event_queue_root_def linked_def)
  from ok r(1) have "palive (tprioq q) r" by (auto simp: pq_ok_def shape_def node_at_def split: if_splits)
  from linked_node [OF assms(1) this] r(2) obtain ev where e: "tevents q e = Some ev" by auto
  have "event_compare ev ev' \<le> 0" if "tevents q e' = Some ev'" for e' ev'
    using ce.root_minimal [OF ok r(1), of "tnode ev'" e'] linked_data [OF assms(1), of "tnode ev'" e'] that e r(2)
    by (auto simp: compare_in_def)
  with e that show thesis by blast
qed

lemma root_empty:
  assumes "linked q"
  shows "time_event_queue_root q = None \<longleftrightarrow> tevents q = Map.empty"
proof -
  obtain ids where ok: "pq_ok (compare_in (tevents q)) (tprioq q) ids" using assms by (auto simp: linked_def)
  have "pq_data (tprioq q) = Map.empty \<longleftrightarrow> tevents q = Map.empty"
    using linked_data [OF assms] by (metis not_None_eq ext)
  then show ?thesis using ce.root_none [OF ok] by (simp add: time_event_queue_root_def)
qed

lemma event_compare_expiry: "event_compare a b \<le> 0 \<Longrightarrow> avahi_timeval_compare (texpiry a) (texpiry b) \<le> 0"
  by (auto simp: event_compare_def Let_def split: if_splits)

lemma event_compare_cong:
  "texpiry a = texpiry a' \<Longrightarrow> tlast_run a = tlast_run a' \<Longrightarrow> texpiry b = texpiry b' \<Longrightarrow> tlast_run b = tlast_run b' \<Longrightarrow>
   event_compare a b = event_compare a' b'"
  by (simp only: event_compare_def)

lemma update_timeout_simps [simp]: "tevents (update_timeout q) = tevents q" "tprioq (update_timeout q) = tprioq q" "tnext (update_timeout q) = tnext q"
  by (simp_all add: update_timeout_def split: option.splits)

lemma linked_update_timeout [simp]: "linked (update_timeout q) = linked q"
  by (simp add: linked_def)

lemma update_timeout_ok:
  assumes "linked q"
  shows "timeout_ok (update_timeout q)"
proof (cases "time_event_queue_root q")
  case None
  with root_empty [OF assms] show ?thesis by (simp add: timeout_ok_def update_timeout_def)
next
  case (Some e)
  from root_event [OF assms Some] obtain ev where
    e: "tevents q e = Some ev" "\<And>e' ev'. tevents q e' = Some ev' \<Longrightarrow> event_compare ev ev' \<le> 0" by blast
  then have "ttimeout (update_timeout q) = Some (texpiry ev)" by (simp add: update_timeout_def Some)
  with e show ?thesis by (auto simp: timeout_ok_def dest: event_compare_expiry)
qed

section \<open>The operations keep the invariant\<close>

lemma pq_ok_cong:
  assumes "pq_ok (compare_in es) pq ids" "\<And>n. palive pq n \<Longrightarrow> es' (pdata pq n) = es (pdata pq n)"
  shows "pq_ok (compare_in es') pq ids"
proof -
  have "es' (data_at pq ids k) = es (data_at pq ids k)" if "k < length ids" for k
    using assms that by (auto simp: data_at_def pq_ok_def shape_def)
  then show ?thesis
    using assms(1) par_less by (auto simp: pq_ok_def heap_def compare_in_def) (metis less_trans)
qed

lemma pq_ok_same_times:
  assumes "pq_ok (compare_in es) pq ids" "\<And>a b. compare_in es' a b = compare_in es a b"
  shows "pq_ok (compare_in es') pq ids"
  using assms by (simp add: pq_ok_def heap_def)

lemma shuffle_changed:
  assumes ok: "pq_ok (compare_in es) pq ids" and n: "palive pq n"
    and same: "\<And>m. palive pq m \<Longrightarrow> m \<noteq> n \<Longrightarrow> es' (pdata pq m) = es (pdata pq m)"
  shows "\<exists>pq' ids'. avahi_prio_queue_shuffle (compare_in es') pq n = Ret pq' \<and> pq_ok (compare_in es') pq' ids' \<and>
    pq_data pq' = pq_data pq \<and> pfresh pq' = pfresh pq"
proof -
  have s: "shape pq ids" "heap (compare_in es) (data_at pq ids) (length ids)" using ok by (auto simp: pq_ok_def)
  from n s(1) obtain k where k: "k < length ids" "ids ! k = n" by (auto simp: shape_def in_set_conv_nth)
  let ?at = "\<lambda>es j. the (es (data_at pq ids j)) :: 'a tevent"
  have "heap event_compare (?at es) (length ids)" using s(2) by (simp add: heap_def compare_in_def)
  then have "heap_except event_compare (?at es') (length ids) k"
  proof (rule ev.heap_hole)
    fix j assume j: "j < length ids" "j \<noteq> k"
    then have "palive pq (ids ! j)" "ids ! j \<noteq> n" using s(1) k by (auto simp: shape_def nth_eq_iff_index_eq)
    then show "?at es' j = ?at es j" using same by (simp add: data_at_def)
  qed
  then have "heap_except (compare_in es') (data_at pq ids) (length ids) k" by (simp add: heap_except_def compare_in_def)
  from ce.shuffle_ok [OF s(1) k(1) this] k(2) obtain q' ids' where
    "avahi_prio_queue_shuffle (compare_in es') pq n = Ret q'" "rearranged pq ids q' ids'" "heap (compare_in es') (data_at q' ids') (length ids')" by auto
  then show ?thesis using rearranged_data [of pq ids q' ids'] unfolding pq_ok_def by (auto simp: rearranged_def)
qed

lemma reschedule_ok:
  assumes l: "linked q" and e: "tevents q e = Some ev" and n: "tnode ev' = tnode ev"
  shows "\<exists>q'. reschedule q e ev' = Ret q' \<and> linked q' \<and> tevents q' = (tevents q)(e \<mapsto> ev') \<and> tnext q' = tnext q \<and> ttimeout q' = ttimeout q"
proof -
  let ?es = "(tevents q)(e \<mapsto> ev')"
  obtain ids where ok: "pq_ok (compare_in (tevents q)) (tprioq q) ids" using l by (auto simp: linked_def)
  have "?es (pdata (tprioq q) m) = tevents q (pdata (tprioq q) m)" if m: "palive (tprioq q) m" "m \<noteq> tnode ev" for m
    using linked_node [OF l m(1)] e m(2) by (metis fun_upd_other option.inject)
  from shuffle_changed [OF ok linked_event(1) [OF l e] this] obtain pq' ids' where
    pq': "avahi_prio_queue_shuffle (compare_in ?es) (tprioq q) (tnode ev) = Ret pq'" "pq_ok (compare_in ?es) pq' ids'" "pq_data pq' = pq_data (tprioq q)"
    by blast
  have "linked (q\<lparr>tevents := ?es, tprioq := pq'\<rparr>)"
    using pq' linked_data [OF l] linked_event(3) [OF l] e n unfolding linked_def by auto
  with pq'(1) n show ?thesis by (simp add: reschedule_def)
qed

lemma time_event_new_ok:
  assumes l: "linked q"
  shows "\<exists>q' n. avahi_time_event_new q tv u = Ret (q', tnext q) \<and> linked q' \<and> timeout_ok q' \<and>
    tevents q' = (tevents q)(tnext q \<mapsto> \<lparr>texpiry = (case tv of None \<Rightarrow> \<lparr>tv_sec = 0, tv_usec = 0\<rparr> | Some t \<Rightarrow> t),
      tlast_run = \<lparr>tv_sec = 0, tv_usec = 0\<rparr>, tnode = n, tuser = u\<rparr>)"
proof -
  let ?e = "tnext q" and ?n = "pfresh (tprioq q)"
  let ?ev = "\<lparr>texpiry = (case tv of None \<Rightarrow> \<lparr>tv_sec = 0, tv_usec = 0\<rparr> | Some t \<Rightarrow> t), tlast_run = \<lparr>tv_sec = 0, tv_usec = 0\<rparr>, tnode = 0, tuser = u\<rparr>"
  let ?es = "(tevents q)(?e \<mapsto> ?ev)" and ?es' = "(tevents q)(?e \<mapsto> ?ev\<lparr>tnode := ?n\<rparr>)"
  obtain ids where ok: "pq_ok (compare_in (tevents q)) (tprioq q) ids" using l by (auto simp: linked_def)
  have old: "tevents q e \<noteq> None \<Longrightarrow> e \<noteq> ?e" for e using linked_event(3) [OF l] by auto
  have "?es (pdata (tprioq q) m) = tevents q (pdata (tprioq q) m)" if "palive (tprioq q) m" for m
    using linked_node [OF l that] old by (metis fun_upd_other option.simps(3))
  from ce.put_ok [OF pq_ok_cong [OF ok this], of ?e] obtain pq' ids' where
    pq': "avahi_prio_queue_put (compare_in ?es) (tprioq q) ?e = Ret (pq', ?n)" "pq_ok (compare_in ?es) pq' ids'"
      "pq_data pq' = (pq_data (tprioq q))(?n \<mapsto> ?e)" by blast
  have "pq_ok (compare_in ?es') pq' ids'"
    using pq'(2) by (rule pq_ok_same_times) (auto simp: compare_in_def intro!: event_compare_cong)
  moreover have "pq_data pq' n = Some e \<longleftrightarrow> (\<exists>ev. ?es' e = Some ev \<and> tnode ev = n)" for n e
    using linked_data [OF l, of n e] old [of e] pq_fresh [OF ok] linked_data [OF l, of ?n] by (auto simp: pq'(3))
  moreover have "?es' e = Some ev \<Longrightarrow> e < Suc ?e" for e ev using linked_event(3) [OF l, of e] by (auto split: if_splits)
  ultimately have "linked (q\<lparr>tevents := ?es', tprioq := pq', tnext := Suc ?e\<rparr>)" unfolding linked_def by auto
  then show ?thesis
    using pq'(1) update_timeout_ok by (intro exI [of _ "update_timeout (q\<lparr>tevents := ?es', tprioq := pq', tnext := Suc ?e\<rparr>)"] exI [of _ ?n])
      (auto simp: avahi_time_event_new_def Let_def)
qed

lemma time_event_free_ok:
  assumes l: "linked q" and e: "tevents q e = Some ev"
  shows "\<exists>q'. avahi_time_event_free q e = Ret q' \<and> linked q' \<and> timeout_ok q' \<and> tevents q' = (tevents q)(e := None)"
proof -
  let ?es = "(tevents q)(e := None)"
  obtain ids where ok: "pq_ok (compare_in (tevents q)) (tprioq q) ids" using l by (auto simp: linked_def)
  note n = linked_event [OF l e]
  from ce.remove_ok [OF ok n(1)] obtain pq' ids' where
    pq': "avahi_prio_queue_remove (compare_in (tevents q)) (tprioq q) (tnode ev) = Ret pq'" "pq_ok (compare_in (tevents q)) pq' ids'"
      "pq_data pq' = (pq_data (tprioq q))(tnode ev := None)" by blast
  have data: "pq_data pq' n = Some d \<longleftrightarrow> (\<exists>ev. ?es d = Some ev \<and> tnode ev = n)" for n d
    using linked_data [OF l, of n d] linked_data [OF l, of "tnode ev"] e by (auto simp: pq'(3))
  have "?es (pdata pq' m) = tevents q (pdata pq' m)" if "palive pq' m" for m
    using data [of m "pdata pq' m"] that by (auto simp: pq_data_def split: if_splits)
  from pq_ok_cong [OF pq'(2) this] have "pq_ok (compare_in ?es) pq' ids'" .
  moreover have "?es d = Some ev \<Longrightarrow> d < tnext q" for d ev using linked_event(3) [OF l] by (auto split: if_splits)
  ultimately have "linked (q\<lparr>tprioq := pq', tevents := ?es\<rparr>)"
    using data by (intro linkedI [of "?es" pq' ids']) auto
  then show ?thesis using pq'(1) e update_timeout_ok by (auto simp: avahi_time_event_free_def)
qed

lemma time_event_update_ok:
  assumes l: "linked q" and e: "tevents q e = Some ev"
  shows "\<exists>q'. avahi_time_event_update q e tv = Ret q' \<and> linked q' \<and> timeout_ok q' \<and> tevents q' = (tevents q)(e \<mapsto> ev\<lparr>texpiry := tv\<rparr>)"
proof -
  have "tnode (ev\<lparr>texpiry := tv\<rparr>) = tnode ev" by simp
  from reschedule_ok [OF l e this] e show ?thesis using update_timeout_ok by (auto simp: avahi_time_event_update_def)
qed

end
