(* ===== verification/Timer_Properties.thy ===== *)
theory Timer_Properties
  imports Timeeventq
begin

text \<open>
  The properties of the priority queue and of the queue of time events.
\<close>

section \<open>The priority queue\<close>

text \<open>Uses of a priority queue, and what they mean for the data in it.\<close>

datatype 'd pq_op = Put 'd | Remove nat

fun pq_do :: "('d \<Rightarrow> 'd \<Rightarrow> int) \<Rightarrow> 'd pq_op \<Rightarrow> 'd prioq \<Rightarrow> 'd prioq res" where
  "pq_do cmp (Put d) q = res_map fst (avahi_prio_queue_put cmp q d)"
| "pq_do cmp (Remove n) q = avahi_prio_queue_remove cmp q n"

fun pq_run :: "('d \<Rightarrow> 'd \<Rightarrow> int) \<Rightarrow> 'd pq_op list \<Rightarrow> 'd prioq \<Rightarrow> 'd prioq res" where
  "pq_run cmp [] q = Ret q"
| "pq_run cmp (x # xs) q = res_bind (pq_do cmp x q) (pq_run cmp xs)"

fun spec_do :: "'d pq_op \<Rightarrow> nat \<times> (nat \<rightharpoonup> 'd) \<Rightarrow> nat \<times> (nat \<rightharpoonup> 'd)" where
  "spec_do (Put d) (k, m) = (Suc k, m(k \<mapsto> d))"
| "spec_do (Remove n) (k, m) = (k, m(n := None))"

fun spec_ok :: "'d pq_op list \<Rightarrow> nat \<times> (nat \<rightharpoonup> 'd) \<Rightarrow> bool" where
  "spec_ok [] s \<longleftrightarrow> True"
| "spec_ok (x # xs) s \<longleftrightarrow> (case x of Put d \<Rightarrow> True | Remove n \<Rightarrow> snd s n \<noteq> None) \<and> spec_ok xs (spec_do x s)"

definition pq_abs :: "'d prioq \<Rightarrow> nat \<times> (nat \<rightharpoonup> 'd)" where
  "pq_abs q = (pfresh q, pq_data q)"

context prio_compare
begin

lemma pq_do_ok:
  assumes "pq_ok cmp q ids" "spec_ok [x] (pq_abs q)"
  shows "\<exists>q' ids'. pq_do cmp x q = Ret q' \<and> pq_ok cmp q' ids' \<and> pq_abs q' = spec_do x (pq_abs q)"
proof (cases x)
  case (Put d)
  with put_ok [OF assms(1), of d] show ?thesis by (auto simp: pq_abs_def)
next
  case (Remove n)
  with assms(2) have "palive q n" by (auto simp: pq_abs_def pq_data_def split: if_splits)
  from remove_ok [OF assms(1) this] obtain q' ids' where "avahi_prio_queue_remove cmp q n = Ret q'" "pq_ok cmp q' ids'"
    "pq_data q' = (pq_data q)(n := None)" "pfresh q' = pfresh q" by blast
  then show ?thesis using Remove by (intro exI [of _ q'] exI [of _ ids']) (simp add: pq_abs_def)
qed

lemma pq_run_ok:
  "pq_ok cmp q ids \<Longrightarrow> spec_ok xs (pq_abs q) \<Longrightarrow>
   \<exists>q' ids'. pq_run cmp xs q = Ret q' \<and> pq_ok cmp q' ids' \<and> pq_abs q' = fold spec_do xs (pq_abs q)"
proof (induction xs arbitrary: q ids)
  case (Cons x xs)
  then have "spec_ok [x] (pq_abs q)" by simp
  from pq_do_ok [OF Cons.prems(1) this] obtain q1 ids1 where
    "pq_do cmp x q = Ret q1" "pq_ok cmp q1 ids1" "pq_abs q1 = spec_do x (pq_abs q)" by blast
  with Cons.IH [of q1 ids1] Cons.prems(2) show ?case by auto
qed auto

end

text \<open>
  Property C33. The priority queue, for a comparison function that is a total preorder: any
  sequence of puts and of removals of nodes that are in the queue runs to its end, no assertion
  fails and the loops terminate; the queue then has the data that was put and not removed,
  and its root is a node whose data no other data is smaller than. The linked
  nodes never matter: the queue behaves like a finite map from handles to data.
\<close>

theorem prio_queue_refines_map:
  assumes "\<And>a b. 0 < cmp a b \<longleftrightarrow> cmp b a < 0" "\<And>a b c. cmp a b \<le> 0 \<Longrightarrow> cmp b c \<le> 0 \<Longrightarrow> cmp a c \<le> 0"
    and "spec_ok ops (0, Map.empty)"
  shows "\<exists>q. pq_run cmp ops (avahi_prio_queue_new d0) = Ret q \<and> pq_abs q = fold spec_do ops (0, Map.empty) \<and>
    n_nodes q = card (dom (pq_data q)) \<and> (proot q = None \<longleftrightarrow> pq_data q = Map.empty) \<and>
    (\<forall>r n d. proot q = Some r \<and> pq_data q n = Some d \<longrightarrow> (\<exists>m. pq_data q r = Some m \<and> cmp m d \<le> 0))"
proof -
  have laws: "prio_compare cmp" using assms(1,2) by unfold_locales blast+
  have "pq_abs (avahi_prio_queue_new d0) = (0, Map.empty)" by (simp add: pq_abs_def) (simp add: avahi_prio_queue_new_def)
  with prio_compare.pq_run_ok [OF laws pq_ok_new [of cmp d0], of ops] assms(3) obtain q ids where
    q: "pq_run cmp ops (avahi_prio_queue_new d0) = Ret q" "pq_ok cmp q ids" "pq_abs q = fold spec_do ops (0, Map.empty)" by auto
  have "dom (pq_data q) = set ids" using q(2) by (auto simp: pq_data_def pq_ok_def shape_def split: if_splits)
  moreover have "n_nodes q = length ids" "distinct ids" using q(2) by (auto simp: pq_ok_def shape_def)
  ultimately have "n_nodes q = card (dom (pq_data q))" by (simp add: distinct_card)
  moreover have "pq_data q r = Some (pdata q r)" if "proot q = Some r" for r
    using q(2) that by (auto simp: pq_data_def pq_ok_def shape_def node_at_def split: if_splits)
  then have "\<exists>m. pq_data q r = Some m \<and> cmp m d \<le> 0" if "proot q = Some r" "pq_data q n = Some d" for r n d
    using that prio_compare.root_minimal [OF laws q(2) that] by blast
  ultimately show ?thesis
    using q(1,3) prio_compare.root_none [OF laws q(2)] by (intro exI [of _ q]) blast
qed

lemma prio_queue_refines_map_witness:
  "\<exists>q. pq_run (\<lambda>a b. a - b) [Put (5 :: int), Put 3, Put 4, Remove 1, Put 2] (avahi_prio_queue_new 0) = Ret q \<and>
    pq_abs q = fold spec_do [Put 5, Put 3, Put 4, Remove 1, Put 2] (0, Map.empty) \<and>
    n_nodes q = card (dom (pq_data q)) \<and> (proot q = None \<longleftrightarrow> pq_data q = Map.empty)"
proof -
  have "spec_ok [Put (5 :: int), Put 3, Put 4, Remove 1, Put 2] (0, Map.empty)" by simp
  from prio_queue_refines_map [of "\<lambda>a b :: int. a - b", OF _ _ this, of 0] show ?thesis by auto
qed

section \<open>Time events\<close>

text \<open>What the components do with the queue, their callbacks included.\<close>

datatype 'u timer_op = Timer_new "timeval option" 'u | Timer_free nat | Timer_update nat timeval

fun timer_do :: "'u timer_op \<Rightarrow> 'u timeq \<Rightarrow> 'u timeq res" where
  "timer_do (Timer_new tv u) q = res_map fst (avahi_time_event_new q tv u)"
| "timer_do (Timer_free e) q = avahi_time_event_free q e"
| "timer_do (Timer_update e tv) q = avahi_time_event_update q e tv"

fun run_ops :: "'u timer_op list \<Rightarrow> 'u timeq \<Rightarrow> 'u timeq res" where
  "run_ops [] q = Ret q"
| "run_ops (x # xs) q = res_bind (timer_do x q) (run_ops xs)"

fun timer_op_ok :: "'u timeq \<Rightarrow> 'u timer_op \<Rightarrow> bool" where
  "timer_op_ok q (Timer_new tv u) \<longleftrightarrow> True"
| "timer_op_ok q (Timer_free e) \<longleftrightarrow> tevents q e \<noteq> None"
| "timer_op_ok q (Timer_update e tv) \<longleftrightarrow> tevents q e \<noteq> None"

text \<open>
  The states of a queue: operations, and expirations whose callback is a sequence of
  operations on existing events.
\<close>

inductive timer_reachable :: "'u timeq \<Rightarrow> bool" where
  timer_start: "timer_reachable avahi_time_event_queue_new"
| timer_step: "timer_reachable q \<Longrightarrow> timer_op_ok q x \<Longrightarrow> timer_do x q = Ret q' \<Longrightarrow> timer_reachable q'"
| timer_expire: "timer_reachable q \<Longrightarrow> expiration_event now (\<lambda>q e. run_ops (script e) q) q = Ret (q', x) \<Longrightarrow> timer_reachable q'"

lemma timer_do_ok:
  assumes "linked q" "timer_op_ok q x"
  shows "\<exists>q'. timer_do x q = Ret q' \<and> linked q' \<and> timeout_ok q'"
proof (cases x)
  case (Timer_new tv u)
  with time_event_new_ok [OF assms(1), of tv u] show ?thesis by auto
next
  case (Timer_free e)
  with assms(2) time_event_free_ok [OF assms(1), of e] show ?thesis by auto
next
  case (Timer_update e tv)
  with assms(2) time_event_update_ok [OF assms(1), of e _ tv] show ?thesis by auto
qed

lemma timer_do_needs_live: "timer_do x q = Ret q' \<Longrightarrow> timer_op_ok q x"
  by (cases x) (auto simp: avahi_time_event_free_def avahi_time_event_update_def split: option.splits)

lemma run_ops_linked: "linked q \<Longrightarrow> run_ops xs q = Ret q' \<Longrightarrow> linked q'"
proof (induction xs arbitrary: q)
  case (Cons x xs)
  then obtain q1 where q1: "timer_do x q = Ret q1" "run_ops xs q1 = Ret q'" by (auto simp: res_bind_eq_Ret)
  with timer_do_ok [OF Cons.prems(1) timer_do_needs_live [OF q1(1)]] Cons.IH show ?case by auto
qed simp

text \<open>What the timeout of the poll API does.\<close>

lemma expiration_event_ok:
  assumes l: "linked q"
  shows "if \<exists>e ev. tevents q e = Some ev \<and> 0 \<le> avahi_timeval_compare now (texpiry ev) then
      \<exists>e ev q1. tevents q e = Some ev \<and> 0 \<le> avahi_timeval_compare now (texpiry ev) \<and>
        (\<forall>e' ev'. tevents q e' = Some ev' \<longrightarrow> event_compare ev ev' \<le> 0) \<and>
        linked q1 \<and> tevents q1 = (tevents q)(e \<mapsto> ev\<lparr>tlast_run := now\<rparr>) \<and> ttimeout q1 = ttimeout q \<and>
        expiration_event now call q = res_bind (call q1 e) (\<lambda>q2. Ret (update_timeout q2, Some e))
    else expiration_event now call q = Ret (update_timeout q, None)"
proof (cases "time_event_queue_root q")
  case None
  with root_empty [OF l] show ?thesis by (auto simp: expiration_event_def)
next
  case (Some e)
  from root_event [OF l Some] obtain ev where
    e: "tevents q e = Some ev" "\<And>e' ev'. tevents q e' = Some ev' \<Longrightarrow> event_compare ev ev' \<le> 0" by blast
  show ?thesis
  proof (cases "0 \<le> avahi_timeval_compare now (texpiry ev)")
    case True
    have "tnode (ev\<lparr>tlast_run := now\<rparr>) = tnode ev" by simp
    from reschedule_ok [OF l e(1) this] obtain q1 where q1: "reschedule q e (ev\<lparr>tlast_run := now\<rparr>) = Ret q1" "linked q1"
      "tevents q1 = (tevents q)(e \<mapsto> ev\<lparr>tlast_run := now\<rparr>)" "ttimeout q1 = ttimeout q" by blast
    then have "expiration_event now call q = res_bind (call q1 e) (\<lambda>q2. Ret (update_timeout q2, Some e))"
      using Some e(1) True by (simp add: expiration_event_def)
    with True e q1 show ?thesis by auto
  next
    case False
    have "\<not> 0 \<le> avahi_timeval_compare now (texpiry ev')" if "tevents q e' = Some ev'" for e' ev'
      using False event_compare_expiry [OF e(2) [OF that]] by (auto simp: not_le timeval_compare_cases avahi_timeval_compare_def split: if_splits)
    moreover have "expiration_event now call q = Ret (update_timeout q, None)"
      using False Some e(1) by (simp add: expiration_event_def)
    ultimately show ?thesis by auto
  qed
qed

lemma timer_reachable_ok: "timer_reachable q \<Longrightarrow> linked q \<and> timeout_ok q"
proof (induction rule: timer_reachable.induct)
  case timer_start
  have "linked (avahi_time_event_queue_new :: 'a timeq)"
    by (rule linkedI [OF pq_ok_new [of "compare_in Map.empty" 0]]) (simp_all add: avahi_time_event_queue_new_def)
  then show ?case by (simp add: timeout_ok_def avahi_time_event_queue_new_def)
next
  case (timer_step q x q')
  with timer_do_ok [of q x] show ?case by auto
next
  case (timer_expire q now script q' x)
  then have l: "linked q" by simp
  show ?case
  proof (cases "\<exists>e ev. tevents q e = Some ev \<and> 0 \<le> avahi_timeval_compare now (texpiry ev)")
    case True
    with expiration_event_ok [OF l, of now "\<lambda>q e. run_ops (script e) q"] obtain e q1 where
      q1: "linked q1" "expiration_event now (\<lambda>q e. run_ops (script e) q) q = res_bind (run_ops (script e) q1) (\<lambda>q2. Ret (update_timeout q2, Some e))"
      by auto
    with timer_expire.hyps(2) obtain q2 where "run_ops (script e) q1 = Ret q2" "q' = update_timeout q2" by (auto simp: res_bind_eq_Ret)
    note this(1) this(2) q1(1)
    with run_ops_linked [of q1 "script e" q2] update_timeout_ok [of q2] show ?thesis by simp
  next
    case False
    with expiration_event_ok [OF l, of now "\<lambda>q e. run_ops (script e) q"] timer_expire.hyps(2) have "q' = update_timeout q" by auto
    with l update_timeout_ok [of q] show ?thesis by simp
  qed
qed

text \<open>A queue with two events, at second 9 and at second 3.\<close>

definition example_ops :: "nat timer_op list" where
  "example_ops = [Timer_new (Some \<lparr>tv_sec = 9, tv_usec = 0\<rparr>) 7, Timer_new (Some \<lparr>tv_sec = 3, tv_usec = 0\<rparr>) 8]"

definition example_timers :: "nat timeq" where
  "example_timers = (case run_ops example_ops avahi_time_event_queue_new of Ret q \<Rightarrow> q | Crash \<Rightarrow> avahi_time_event_queue_new)"

lemma run_ops_reachable: "timer_reachable q \<Longrightarrow> run_ops xs q = Ret q' \<Longrightarrow> timer_reachable q'"
proof (induction xs arbitrary: q)
  case (Cons x xs)
  then obtain q1 where "timer_do x q = Ret q1" "run_ops xs q1 = Ret q'" by (auto simp: res_bind_eq_Ret)
  with Cons timer_step [OF Cons.prems(1) timer_do_needs_live] show ?case by blast
qed simp

lemma example_timers_reachable: "timer_reachable example_timers"
  using run_ops_reachable [OF timer_start] timer_start by (auto simp: example_timers_def split: res.split)

lemma example_timers_timeout: "ttimeout example_timers = Some \<lparr>tv_sec = 3, tv_usec = 0\<rparr>"
  unfolding example_timers_def example_ops_def by code_simp

text \<open>
  Property C34. In every state of the queue of time events, creating an event, changing or freeing
  one that exists succeeds without a failed assertion, and the timeout of the poll API is set
  exactly if there are events, to the earliest time at which one of them expires.
\<close>

theorem timers_never_late:
  assumes "timer_reachable q" "timer_op_ok q x"
  shows "(\<exists>q'. timer_do x q = Ret q' \<and> timer_reachable q') \<and>
    (case ttimeout q of
       None \<Rightarrow> tevents q = Map.empty
     | Some t \<Rightarrow> (\<exists>e ev. tevents q e = Some ev \<and> texpiry ev = t) \<and>
         (\<forall>e ev. tevents q e = Some ev \<longrightarrow> avahi_timeval_compare t (texpiry ev) \<le> 0))"
  using timer_do_ok [OF _ assms(2)] timer_reachable_ok [OF assms(1)] timer_step [OF assms] unfolding timeout_ok_def by blast

lemma timers_never_late_witness:
  "\<exists>q' t e ev. timer_do (Timer_new None 7) example_timers = Ret q' \<and> timer_reachable q' \<and>
    ttimeout example_timers = Some t \<and> tevents example_timers e = Some ev \<and> texpiry ev = t"
proof -
  have "timer_op_ok example_timers (Timer_new None 7)" by simp
  note safe = timers_never_late [OF example_timers_reachable this]
  have "case ttimeout example_timers of None \<Rightarrow> False | Some t \<Rightarrow> True" by code_simp
  with safe show ?thesis by (auto split: option.splits)
qed

text \<open>The events that are due, and the timeout firing \<open>k\<close> times with callbacks that free their event.\<close>

definition due :: "timeval \<Rightarrow> 'u timeq \<Rightarrow> nat set" where
  "due now q = {e. \<exists>ev. tevents q e = Some ev \<and> 0 \<le> avahi_timeval_compare now (texpiry ev)}"

fun drain :: "nat \<Rightarrow> timeval \<Rightarrow> 'u timeq \<Rightarrow> ('u timeq \<times> nat list) res" where
  "drain 0 now q = Ret (q, [])"
| "drain (Suc k) now q =
     res_bind (expiration_event now avahi_time_event_free q) (\<lambda>(q, x).
       case x of None \<Rightarrow> Ret (q, []) | Some e \<Rightarrow> res_map (\<lambda>(q, es). (q, e # es)) (drain k now q))"

definition expires_before :: "'u timeq \<Rightarrow> nat \<Rightarrow> nat \<Rightarrow> bool" where
  "expires_before q a b \<longleftrightarrow> avahi_timeval_compare (texpiry (the (tevents q a))) (texpiry (the (tevents q b))) \<le> 0"

lemma drain_ok:
  "linked q \<Longrightarrow> timeout_ok q \<Longrightarrow> finite (due now q) \<Longrightarrow> card (due now q) = k \<Longrightarrow>
   \<exists>q' es. drain k now q = Ret (q', es) \<and> distinct es \<and> set es = due now q \<and> sorted_wrt (expires_before q) es \<and>
     tevents q' = tevents q |` (- due now q) \<and> timeout_ok q'"
proof (induction k arbitrary: q)
  case 0
  then have "due now q = {}" by simp
  with "0.prems" show ?case by auto
next
  case (Suc k)
  then have "due now q \<noteq> {}" by auto
  then have "\<exists>e ev. tevents q e = Some ev \<and> 0 \<le> avahi_timeval_compare now (texpiry ev)" by (simp add: due_def)
  with expiration_event_ok [OF Suc.prems(1), of now avahi_time_event_free] obtain e ev q1 where
    e: "tevents q e = Some ev" "0 \<le> avahi_timeval_compare now (texpiry ev)" "\<forall>e' ev'. tevents q e' = Some ev' \<longrightarrow> event_compare ev ev' \<le> 0"
      "linked q1" "tevents q1 = (tevents q)(e \<mapsto> ev\<lparr>tlast_run := now\<rparr>)"
      "expiration_event now avahi_time_event_free q = res_bind (avahi_time_event_free q1 e) (\<lambda>q2. Ret (update_timeout q2, Some e))" by auto
  from time_event_free_ok [OF e(4), of e] e(5) obtain q2 where
    q2: "avahi_time_event_free q1 e = Ret q2" "linked q2" "tevents q2 = (tevents q)(e := None)" by auto
  let ?q = "update_timeout q2"
  have d: "due now ?q = due now q - {e}" "e \<in> due now q" using e(1,2) q2(3) by (auto simp: due_def split: if_splits)
  with Suc.prems(3,4) have "finite (due now ?q)" "card (due now ?q) = k" by simp_all
  with Suc.IH [of ?q] q2(2) update_timeout_ok [OF q2(2)] obtain q' es where
    q': "drain k now ?q = Ret (q', es)" "distinct es" "set es = due now ?q" "sorted_wrt (expires_before ?q) es"
      "tevents q' = tevents ?q |` (- due now ?q)" "timeout_ok q'" by auto
  have "expires_before ?q a b = expires_before q a b" if "a \<noteq> e" "b \<noteq> e" for a b
    using that q2(3) by (simp add: expires_before_def)
  then have "sorted_wrt (expires_before q) es"
    using q'(3,4) d(1) by (auto elim!: sorted_wrt_mono_rel [rotated])
  moreover have "expires_before q e b" if "b \<in> set es" for b
  proof -
    have "b \<in> due now q" using that q'(3) d(1) by simp
    then obtain evb where "tevents q b = Some evb" by (auto simp: due_def)
    with e(1,3) event_compare_expiry [of ev evb] show ?thesis by (simp add: expires_before_def)
  qed
  moreover have "tevents q' = tevents q |` (- due now q)"
    using q'(5) q2(3) d by (auto simp: restrict_map_def fun_eq_iff)
  moreover have "drain (Suc k) now q = Ret (q', e # es)" using e(6) q2(1) q'(1) by simp
  ultimately show ?case using q'(2,3,6) d by (intro exI [of _ q'] exI [of _ "e # es"]) auto
qed

text \<open>
  Property C35. No event that is due is forgotten or starved: when the timeout fires as often as
  there are events due and every callback frees its event, exactly the events that are due are run,
  each once, in the order of their expiry; the others stay, and the timeout is then set to a
  time that has not come.
\<close>

theorem due_events_run:
  assumes "timer_reachable q"
  shows "\<exists>q' es. drain (card (due now q)) now q = Ret (q', es) \<and> distinct es \<and> set es = due now q \<and>
    sorted_wrt (expires_before q) es \<and> tevents q' = tevents q |` (- due now q) \<and>
    (\<forall>t. ttimeout q' = Some t \<longrightarrow> avahi_timeval_compare now t < 0)"
proof -
  have ok: "linked q" "timeout_ok q" using timer_reachable_ok [OF assms] by simp_all
  then obtain ids where "pq_ok (compare_in (tevents q)) (tprioq q) ids" by (auto simp: linked_def)
  then have "due now q \<subseteq> pdata (tprioq q) ` set ids"
    using linked_event(1,2) [OF ok(1)] by (fastforce simp: due_def pq_ok_alive image_iff)
  then have "finite (due now q)" by (rule finite_subset) simp
  from drain_ok [OF ok this refl] obtain q' es where q': "drain (card (due now q)) now q = Ret (q', es)" "distinct es" "set es = due now q"
    "sorted_wrt (expires_before q) es" "tevents q' = tevents q |` (- due now q)" "timeout_ok q'" by blast
  have "avahi_timeval_compare now t < 0" if "ttimeout q' = Some t" for t
  proof -
    from q'(6) that obtain e ev where "tevents q' e = Some ev" "texpiry ev = t" by (auto simp: timeout_ok_def)
    with q'(5) show ?thesis by (auto simp: due_def restrict_map_def not_le split: if_splits)
  qed
  with q' show ?thesis by blast
qed

lemma due_events_run_witness:
  "\<exists>q' es. drain (card (due \<lparr>tv_sec = 5, tv_usec = 0\<rparr> example_timers)) \<lparr>tv_sec = 5, tv_usec = 0\<rparr> example_timers = Ret (q', es) \<and>
    distinct es \<and> set es = due \<lparr>tv_sec = 5, tv_usec = 0\<rparr> example_timers \<and>
    sorted_wrt (expires_before example_timers) es \<and>
    tevents q' = tevents example_timers |` (- due \<lparr>tv_sec = 5, tv_usec = 0\<rparr> example_timers)"
  using due_events_run [OF example_timers_reachable, of "\<lparr>tv_sec = 5, tv_usec = 0\<rparr>"] by blast

end
