(* ===== verification/Dns.thy ===== *)
theory Dns
  imports Rr
begin

unbundle bit_operations_syntax

text \<open>
  \<open>avahi-core/dns.c\<close>: DNS packets. A packet is a memory block of \<open>max_size\<close> bytes of which the
  first \<open>size\<close> are in use; the model keeps the bytes in use, so \<open>size\<close> is their number, and
  reading behind them is \<open>Crash\<close>. \<open>rindex\<close> is where the next read starts. Pointers into the
  packet (the results of the append functions, the values of the name table) are offsets.
  Append functions return the packet they leave behind, also when they fail, and consume
  functions do too.
\<close>

section \<open>Packets\<close>

definition AVAHI_DNS_PACKET_HEADER_SIZE :: nat where "AVAHI_DNS_PACKET_HEADER_SIZE = 12"
definition AVAHI_DNS_PACKET_EXTRA_SIZE :: nat where "AVAHI_DNS_PACKET_EXTRA_SIZE = 48"
definition AVAHI_DNS_LABELS_MAX :: nat where "AVAHI_DNS_LABELS_MAX = 127"
definition AVAHI_DNS_RDATA_MAX :: nat where "AVAHI_DNS_RDATA_MAX = 0xFFFF"
definition AVAHI_DNS_PACKET_SIZE_MAX :: nat where
  "AVAHI_DNS_PACKET_SIZE_MAX = AVAHI_DNS_PACKET_HEADER_SIZE + 256 + 2 + 2 + 4 + 2 + AVAHI_DNS_RDATA_MAX"

record dns_packet =
  pdata :: "byte list"
  rindex :: nat
  max_size :: nat
  res_size :: nat
  name_table :: "(byte list, nat) hashmap option"

abbreviation psize :: "dns_packet \<Rightarrow> nat" where
  "psize p \<equiv> length (pdata p)"

definition avahi_dns_packet_new :: "nat \<Rightarrow> dns_packet" where
  "avahi_dns_packet_new mtu =
     (let m = (if mtu = 0 then AVAHI_DNS_PACKET_SIZE_MAX
               else if AVAHI_DNS_PACKET_EXTRA_SIZE \<le> mtu then mtu - AVAHI_DNS_PACKET_EXTRA_SIZE
               else 0);
          m' = (if m < AVAHI_DNS_PACKET_HEADER_SIZE then AVAHI_DNS_PACKET_HEADER_SIZE else m)
      in \<lparr>pdata = replicate AVAHI_DNS_PACKET_HEADER_SIZE 0, rindex = AVAHI_DNS_PACKET_HEADER_SIZE,
          max_size = m', res_size = 0, name_table = None\<rparr>)"

text \<open>Setting \<open>p->size\<close> back to a smaller value.\<close>

definition set_size :: "nat \<Rightarrow> dns_packet \<Rightarrow> dns_packet" where
  "set_size n p = p\<lparr>pdata := take n (pdata p)\<rparr>"

section \<open>Header fields\<close>

definition AVAHI_DNS_FIELD_ID :: nat where "AVAHI_DNS_FIELD_ID = 0"
definition AVAHI_DNS_FIELD_FLAGS :: nat where "AVAHI_DNS_FIELD_FLAGS = 1"
definition AVAHI_DNS_FIELD_QDCOUNT :: nat where "AVAHI_DNS_FIELD_QDCOUNT = 2"
definition AVAHI_DNS_FIELD_ANCOUNT :: nat where "AVAHI_DNS_FIELD_ANCOUNT = 3"
definition AVAHI_DNS_FIELD_NSCOUNT :: nat where "AVAHI_DNS_FIELD_NSCOUNT = 4"
definition AVAHI_DNS_FIELD_ARCOUNT :: nat where "AVAHI_DNS_FIELD_ARCOUNT = 5"

lemmas field_defs = AVAHI_DNS_FIELD_ID_def AVAHI_DNS_FIELD_FLAGS_def AVAHI_DNS_FIELD_QDCOUNT_def
  AVAHI_DNS_FIELD_ANCOUNT_def AVAHI_DNS_FIELD_NSCOUNT_def AVAHI_DNS_FIELD_ARCOUNT_def

definition AVAHI_DNS_FLAG_QR :: u16 where "AVAHI_DNS_FLAG_QR = 0x8000"
definition AVAHI_DNS_FLAG_OPCODE :: u16 where "AVAHI_DNS_FLAG_OPCODE = 0x7800"
definition AVAHI_DNS_FLAG_RCODE :: u16 where "AVAHI_DNS_FLAG_RCODE = 15"
definition AVAHI_DNS_FLAG_TC :: u16 where "AVAHI_DNS_FLAG_TC = 0x200"
definition AVAHI_DNS_FLAG_AA :: u16 where "AVAHI_DNS_FLAG_AA = 0x400"

text \<open>The parameters of the macro that are not 0 in all its uses.\<close>

definition AVAHI_DNS_FLAGS :: "bool \<Rightarrow> bool \<Rightarrow> u16" where
  "AVAHI_DNS_FLAGS qr aa = push_bit 15 (of_bool qr) OR push_bit 10 (of_bool aa)"

text \<open>A number in network byte order.\<close>

definition be16 :: "u16 \<Rightarrow> byte list" where
  "be16 v = [ucast (drop_bit 8 v), ucast v]"

definition be32 :: "u32 \<Rightarrow> byte list" where
  "be32 v = [ucast (drop_bit 24 v), ucast (drop_bit 16 v), ucast (drop_bit 8 v), ucast v]"

definition from_be16 :: "byte \<Rightarrow> byte \<Rightarrow> u16" where
  "from_be16 a b = push_bit 8 (ucast a) OR ucast b"

definition from_be32 :: "byte \<Rightarrow> byte \<Rightarrow> byte \<Rightarrow> byte \<Rightarrow> u32" where
  "from_be32 a b c d =
     push_bit 24 (ucast a) OR push_bit 16 (ucast b) OR push_bit 8 (ucast c) OR ucast d"

text \<open>Storing bytes at an offset.\<close>

definition overwrite :: "nat \<Rightarrow> byte list \<Rightarrow> byte list \<Rightarrow> byte list" where
  "overwrite off b d = take off d @ b @ drop (off + length b) d"

definition put :: "dns_packet \<Rightarrow> nat \<Rightarrow> byte list \<Rightarrow> dns_packet" where
  "put p off b = p\<lparr>pdata := overwrite off b (pdata p)\<rparr>"

text \<open>
  The assertions compare \<open>idx\<close> with 12, the size of the header in bytes, although it counts
  16-bit fields; an access behind the bytes in use is \<open>Crash\<close> as well.
\<close>

definition avahi_dns_packet_set_field :: "dns_packet \<Rightarrow> nat \<Rightarrow> u16 \<Rightarrow> dns_packet res" where
  "avahi_dns_packet_set_field p idx v =
     (if AVAHI_DNS_PACKET_HEADER_SIZE \<le> idx then Crash
      else if psize p < 2 * idx + 2 then Crash
      else Ret (put p (2 * idx) (be16 v)))"

definition avahi_dns_packet_get_field :: "dns_packet \<Rightarrow> nat \<Rightarrow> u16 res" where
  "avahi_dns_packet_get_field p idx =
     (if AVAHI_DNS_PACKET_HEADER_SIZE \<le> idx then Crash
      else if psize p < 2 * idx + 2 then Crash
      else Ret (from_be16 (pdata p ! (2 * idx)) (pdata p ! (2 * idx + 1))))"

definition avahi_dns_packet_inc_field :: "dns_packet \<Rightarrow> nat \<Rightarrow> dns_packet res" where
  "avahi_dns_packet_inc_field p idx =
     res_bind (avahi_dns_packet_get_field p idx) (\<lambda>v. avahi_dns_packet_set_field p idx (v + 1))"

definition avahi_dns_packet_new_query :: "nat \<Rightarrow> dns_packet res" where
  "avahi_dns_packet_new_query mtu =
     avahi_dns_packet_set_field (avahi_dns_packet_new mtu) AVAHI_DNS_FIELD_FLAGS (AVAHI_DNS_FLAGS False False)"

definition avahi_dns_packet_new_response :: "nat \<Rightarrow> bool \<Rightarrow> dns_packet res" where
  "avahi_dns_packet_new_response mtu aa =
     avahi_dns_packet_set_field (avahi_dns_packet_new mtu) AVAHI_DNS_FIELD_FLAGS (AVAHI_DNS_FLAGS True aa)"

definition avahi_dns_packet_check_valid :: "dns_packet \<Rightarrow> int res" where
  "avahi_dns_packet_check_valid p =
     (if psize p < AVAHI_DNS_PACKET_HEADER_SIZE then Ret (- 1)
      else
        res_map (\<lambda>flags. if flags AND AVAHI_DNS_FLAG_OPCODE \<noteq> 0 then - 1 else 0)
          (avahi_dns_packet_get_field p AVAHI_DNS_FIELD_FLAGS))"

definition avahi_dns_packet_check_valid_multicast :: "dns_packet \<Rightarrow> int res" where
  "avahi_dns_packet_check_valid_multicast p =
     res_bind (avahi_dns_packet_check_valid p) (\<lambda>r.
       if r < 0 then Ret (- 1)
       else
         res_map (\<lambda>flags. if flags AND AVAHI_DNS_FLAG_RCODE \<noteq> 0 then - 1 else 0)
           (avahi_dns_packet_get_field p AVAHI_DNS_FIELD_FLAGS))"

definition avahi_dns_packet_is_query :: "dns_packet \<Rightarrow> bool res" where
  "avahi_dns_packet_is_query p =
     res_map (\<lambda>flags. flags AND AVAHI_DNS_FLAG_QR = 0) (avahi_dns_packet_get_field p AVAHI_DNS_FIELD_FLAGS)"

section \<open>Appending\<close>

text \<open>
  \<open>avahi_dns_packet_extend\<close> makes room; the bytes it adds are not initialised (zero here) and
  are written by all callers.
\<close>

definition avahi_dns_packet_extend :: "dns_packet \<Rightarrow> nat \<Rightarrow> dns_packet \<times> nat option" where
  "avahi_dns_packet_extend p l =
     (if max_size p < psize p + l then (p, None)
      else (p\<lparr>pdata := pdata p @ replicate l 0\<rparr>, Some (psize p)))"

definition append_raw :: "dns_packet \<Rightarrow> byte list \<Rightarrow> dns_packet \<times> nat option" where
  "append_raw p b =
     (case avahi_dns_packet_extend p (length b) of
        (p', None) \<Rightarrow> (p', None)
      | (p', Some d) \<Rightarrow> (put p' d b, Some d))"

definition avahi_dns_packet_append_uint16 :: "dns_packet \<Rightarrow> u16 \<Rightarrow> dns_packet \<times> nat option" where
  "avahi_dns_packet_append_uint16 p v = append_raw p (be16 v)"

definition avahi_dns_packet_append_uint32 :: "dns_packet \<Rightarrow> u32 \<Rightarrow> dns_packet \<times> nat option" where
  "avahi_dns_packet_append_uint32 p v = append_raw p (be32 v)"

definition avahi_dns_packet_append_bytes :: "dns_packet \<Rightarrow> byte list \<Rightarrow> (dns_packet \<times> nat option) res" where
  "avahi_dns_packet_append_bytes p b = (if b = [] then Crash else Ret (append_raw p b))"

definition avahi_dns_packet_append_string :: "dns_packet \<Rightarrow> byte list \<Rightarrow> dns_packet \<times> nat option" where
  "avahi_dns_packet_append_string p s =
     (let k = (if 255 \<le> length s then 255 else length s) in append_raw p (of_nat k # take k s))"

text \<open>The callback \<open>name_table_cleanup\<close> removes what lies behind the bytes in use.\<close>

definition name_table_cleanup :: "bool \<Rightarrow> byte list \<Rightarrow> nat \<Rightarrow> dns_packet \<Rightarrow> dns_packet" where
  "name_table_cleanup sc k v p =
     (if psize p \<le> v then
        p\<lparr>name_table := map_option (\<lambda>t. avahi_hashmap_remove (avahi_string_hash sc) avahi_string_equal t k) (name_table p)\<rparr>
      else p)"

definition avahi_dns_packet_cleanup_name_table :: "bool \<Rightarrow> dns_packet \<Rightarrow> dns_packet" where
  "avahi_dns_packet_cleanup_name_table sc p =
     (case name_table p of
        None \<Rightarrow> p
      | Some t \<Rightarrow> avahi_hashmap_foreach t (name_table_cleanup sc) p)"

definition table_lookup :: "bool \<Rightarrow> dns_packet \<Rightarrow> byte list \<Rightarrow> nat option" where
  "table_lookup sc p nm =
     (case name_table p of
        None \<Rightarrow> None
      | Some t \<Rightarrow> avahi_hashmap_lookup (avahi_string_hash sc) avahi_string_equal t nm)"

definition table_insert :: "bool \<Rightarrow> byte list \<Rightarrow> nat \<Rightarrow> dns_packet \<Rightarrow> dns_packet" where
  "table_insert sc pname d p =
     (let t = (case name_table p of None \<Rightarrow> avahi_hashmap_new | Some t \<Rightarrow> t)
      in p\<lparr>name_table := Some (fst (avahi_hashmap_insert (avahi_string_hash sc) avahi_string_equal t pname d))\<rparr>)"

text \<open>
  The loop of \<open>avahi_dns_packet_append_name\<close> ends at the terminating zero or at a pointer to an
  earlier occurrence (\<open>Name_done\<close>), at \<open>goto fail\<close> (\<open>Name_fail\<close>), or with the plain
  \<open>return NULL\<close> when the pointer does not fit (\<open>Name_null\<close>).
\<close>

datatype name_end = Name_done | Name_fail | Name_null

definition pointer_bytes :: "nat \<Rightarrow> byte list" where
  "pointer_bytes idx = [of_nat ((0xC000 + idx) div 256), of_nat idx]"

function append_name_loop :: "bool \<Rightarrow> dns_packet \<Rightarrow> byte list \<Rightarrow> (dns_packet \<times> name_end) res" where
  "append_name_loop sc p nm =
     (if nm = [] then
        (case append_raw p [0] of (p', None) \<Rightarrow> Ret (p', Name_fail) | (p', Some _) \<Rightarrow> Ret (p', Name_done))
      else
        let prev = table_lookup sc p nm in
        if (case prev of None \<Rightarrow> False | Some idx \<Rightarrow> psize p \<le> idx) then Crash
        else if (case prev of None \<Rightarrow> False | Some idx \<Rightarrow> idx < 0x4000) then
          (case append_raw p (pointer_bytes (the prev)) of
             (p', None) \<Rightarrow> Ret (p', Name_null)
           | (p', Some _) \<Rightarrow> Ret (p', Name_done))
        else
          case avahi_unescape_label nm 64 of
            None \<Rightarrow> Ret (p, Name_fail)
          | Some (label, rest) \<Rightarrow>
              (case avahi_dns_packet_append_string p label of
                 (p', None) \<Rightarrow> Ret (p', Name_fail)
               | (p', Some d) \<Rightarrow> append_name_loop sc (table_insert sc nm d p') rest))"
  by pat_completeness auto
termination
  by (relation "measure (\<lambda>(_, _, nm). length nm)") (auto dest: unescape_label_shorter)

declare append_name_loop.simps [simp del]

definition avahi_dns_packet_append_name :: "bool \<Rightarrow> dns_packet \<Rightarrow> byte list \<Rightarrow> (dns_packet \<times> nat option) res" where
  "avahi_dns_packet_append_name sc p nm =
     (let saved_size = psize p; saved_ptr = snd (avahi_dns_packet_extend p 0) in
      case append_name_loop sc p nm of
        Crash \<Rightarrow> Crash
      | Ret (p', Name_done) \<Rightarrow> Ret (p', saved_ptr)
      | Ret (p', Name_null) \<Rightarrow> Ret (p', None)
      | Ret (p', Name_fail) \<Rightarrow> Ret (avahi_dns_packet_cleanup_name_table sc (set_size saved_size p'), None))"

text \<open>
  A chain of appends that stops at the first one that fails, as \<open>||\<close> does in the conditions
  below.
\<close>

fun append_all :: "dns_packet \<Rightarrow> (dns_packet \<Rightarrow> (dns_packet \<times> nat option) res) list \<Rightarrow> (dns_packet \<times> bool) res" where
  "append_all p [] = Ret (p, True)"
| "append_all p (f # fs) =
     (case f p of
        Crash \<Rightarrow> Crash
      | Ret (p', None) \<Rightarrow> Ret (p', False)
      | Ret (p', Some _) \<Rightarrow> append_all p' fs)"

definition avahi_dns_packet_append_key :: "bool \<Rightarrow> dns_packet \<Rightarrow> key \<Rightarrow> bool \<Rightarrow> (dns_packet \<times> nat option) res" where
  "avahi_dns_packet_append_key sc p k unicast_response =
     (let size = psize p in
      case append_all p
        [\<lambda>p. avahi_dns_packet_append_name sc p (name k),
         \<lambda>p. Ret (avahi_dns_packet_append_uint16 p (ktype k)),
         \<lambda>p. Ret (avahi_dns_packet_append_uint16 p
                (clazz k OR (if unicast_response then AVAHI_DNS_UNICAST_RESPONSE else 0)))] of
        Crash \<Rightarrow> Crash
      | Ret (p', True) \<Rightarrow> Ret (p', Some size)
      | Ret (p', False) \<Rightarrow> Ret (avahi_dns_packet_cleanup_name_table sc (set_size size p'), None))"

definition append_rdata :: "bool \<Rightarrow> dns_packet \<Rightarrow> rr \<Rightarrow> (dns_packet \<times> bool) res" where
  "append_rdata sc p r =
     (case rr_case r of
        Name_case \<Rightarrow>
          (case rdata r of Name n \<Rightarrow> append_all p [\<lambda>p. avahi_dns_packet_append_name sc p n] | _ \<Rightarrow> Crash)
      | Srv_case \<Rightarrow>
          (case rdata r of
             Srv priority weight port n \<Rightarrow>
               append_all p
                 [\<lambda>p. Ret (avahi_dns_packet_append_uint16 p priority),
                  \<lambda>p. Ret (avahi_dns_packet_append_uint16 p weight),
                  \<lambda>p. Ret (avahi_dns_packet_append_uint16 p port),
                  \<lambda>p. avahi_dns_packet_append_name sc p n]
           | _ \<Rightarrow> Crash)
      | Hinfo_case \<Rightarrow>
          (case rdata r of
             Hinfo cpu os \<Rightarrow>
               append_all p
                 [\<lambda>p. Ret (avahi_dns_packet_append_string p cpu),
                  \<lambda>p. Ret (avahi_dns_packet_append_string p os)]
           | _ \<Rightarrow> Crash)
      | Txt_case \<Rightarrow>
          (case rdata r of
             Txt l \<Rightarrow>
               let n = avahi_string_list_serialize_size l in
               (case avahi_dns_packet_extend p n of
                  (p', None) \<Rightarrow> Ret (p', False)
                | (p', Some d) \<Rightarrow> Ret (put p' d (avahi_string_list_serialize l n), True))
           | _ \<Rightarrow> Crash)
      | A_case \<Rightarrow>
          (case rdata r of A x \<Rightarrow> append_all p [\<lambda>p. avahi_dns_packet_append_bytes p x] | _ \<Rightarrow> Crash)
      | Aaaa_case \<Rightarrow>
          (case rdata r of Aaaa x \<Rightarrow> append_all p [\<lambda>p. avahi_dns_packet_append_bytes p x] | _ \<Rightarrow> Crash)
      | Generic_case \<Rightarrow>
          (case rdata r of
             Generic d \<Rightarrow>
               if length d \<noteq> 0 then append_all p [\<lambda>p. avahi_dns_packet_append_bytes p d] else Ret (p, True)
           | _ \<Rightarrow> Crash))"

text \<open>
  The size of the data is written into the two bytes at \<open>l\<close> once the data is there. \<open>start\<close> is
  not NULL because nothing is added to the packet there.
\<close>

definition avahi_dns_packet_append_record ::
  "bool \<Rightarrow> dns_packet \<Rightarrow> rr \<Rightarrow> bool \<Rightarrow> u32 \<Rightarrow> (dns_packet \<times> nat option) res" where
  "avahi_dns_packet_append_record sc p r cache_flush max_ttl =
     (let size = psize p;
          k = rkey r;
          fail = (\<lambda>p'. Ret (avahi_dns_packet_cleanup_name_table sc (set_size size p'), None))
      in case append_all p
           [\<lambda>p. avahi_dns_packet_append_name sc p (name k),
            \<lambda>p. Ret (avahi_dns_packet_append_uint16 p (ktype k)),
            \<lambda>p. Ret (avahi_dns_packet_append_uint16 p
                   (if cache_flush then clazz k OR AVAHI_DNS_CACHE_FLUSH
                    else clazz k AND NOT AVAHI_DNS_CACHE_FLUSH)),
            \<lambda>p. Ret (avahi_dns_packet_append_uint32 p
                   (if max_ttl \<noteq> 0 \<and> max_ttl < ttl r then max_ttl else ttl r)),
            \<lambda>p. Ret (avahi_dns_packet_append_uint16 p 0)] of
           Crash \<Rightarrow> Crash
         | Ret (p', False) \<Rightarrow> fail p'
         | Ret (p', True) \<Rightarrow>
             let l = psize p' - 2; start = psize p' in
             (case append_rdata sc p' r of
                Crash \<Rightarrow> Crash
              | Ret (p'', False) \<Rightarrow> fail p''
              | Ret (p'', True) \<Rightarrow>
                  let n = psize p'' - start in
                  if AVAHI_DNS_RDATA_MAX < n then Crash
                  else Ret (put p'' l (be16 (of_nat n)), Some size)))"

section \<open>Consuming\<close>

text \<open>
  Every read of the packet goes through these two: reading behind the bytes in use is \<open>Crash\<close>, so
  that the checks of the functions below are what keeps them from it.
\<close>

definition read_byte :: "dns_packet \<Rightarrow> nat \<Rightarrow> byte res" where
  "read_byte p i = (if i < psize p then Ret (pdata p ! i) else Crash)"

definition read_bytes :: "dns_packet \<Rightarrow> nat \<Rightarrow> nat \<Rightarrow> byte list res" where
  "read_bytes p i n = (if i + n \<le> psize p then Ret (take n (drop i (pdata p))) else Crash)"

lemma read_byte_inside [simp]: "i < psize p \<Longrightarrow> read_byte p i = Ret (pdata p ! i)"
  by (simp add: read_byte_def)

lemma read_bytes_inside [simp]: "i + n \<le> psize p \<Longrightarrow> read_bytes p i n = Ret (take n (drop i (pdata p)))"
  by (simp add: read_bytes_def)

text \<open>
  \<open>consume_labels\<close>: the loop runs at most 127 times; its fuel is the number of rounds left.
  \<open>ret\<close> counts the bytes of the name at its place in the packet (up to the first pointer),
  \<open>out\<close> is what has been written to \<open>ret_name\<close>, \<open>l\<close> the room left there. \<open>None\<close> is \<open>-1\<close>.
\<close>

definition label_ptr :: "byte \<Rightarrow> byte \<Rightarrow> nat" where
  "label_ptr c d = unat (push_bit 8 (ucast (c AND NOT 0xC0) :: u32) OR ucast d)"

fun consume_labels_loop ::
  "nat \<Rightarrow> dns_packet \<Rightarrow> nat \<Rightarrow> nat \<Rightarrow> bool \<Rightarrow> bool \<Rightarrow> byte list \<Rightarrow> nat \<Rightarrow> (nat \<times> byte list) option res" where
  "consume_labels_loop 0 p idx ret compressed first_label out l = Ret None"
| "consume_labels_loop (Suc i) p idx ret compressed first_label out l =
     (if psize p < idx + 1 then Ret None
      else
        res_bind (read_byte p idx) (\<lambda>c.
        let n = unat c in
        if n = 0 then
          (if l < 1 then Ret None
           else Ret (Some (if compressed then ret else ret + 1, out)))
        else if n \<le> 63 then
          (let idx1 = idx + 1; ret1 = (if compressed then ret else ret + 1) in
           if psize p < idx1 + n then Ret None
           else if l < n + 1 then Ret None
           else
             let (out1, l1) = (if first_label then (out, l) else (out @ [DOT], l - 1)) in
             res_bind (read_bytes p idx1 n) (\<lambda>label.
             res_bind (avahi_escape_label label l1) (\<lambda>(ok, w, l2).
               if \<not> ok then Ret None
               else consume_labels_loop i p (idx1 + n) (if compressed then ret1 else ret1 + n)
                      compressed False (out1 @ w) l2)))
        else if c AND 0xC0 = 0xC0 then
          (if psize p < idx + 2 then Ret None
           else
             res_bind (read_byte p idx) (\<lambda>c.
             res_bind (read_byte p (idx + 1)) (\<lambda>d.
               let ptr = label_ptr c d in
               if ptr < AVAHI_DNS_PACKET_HEADER_SIZE \<or> idx \<le> ptr then Ret None
               else consume_labels_loop i p ptr (if compressed then ret else ret + 2) True first_label out l)))
        else Ret None))"

declare consume_labels_loop.simps(2) [simp del]

definition consume_labels :: "dns_packet \<Rightarrow> nat \<Rightarrow> nat \<Rightarrow> (nat \<times> byte list) option res" where
  "consume_labels p idx l =
     (if l = 0 then Crash else consume_labels_loop AVAHI_DNS_LABELS_MAX p idx 0 False True [] l)"

definition avahi_dns_packet_consume_name :: "dns_packet \<Rightarrow> nat \<Rightarrow> (dns_packet \<times> byte list option) res" where
  "avahi_dns_packet_consume_name p l =
     (case consume_labels p (rindex p) l of
        Crash \<Rightarrow> Crash
      | Ret None \<Rightarrow> Ret (p, None)
      | Ret (Some (r, nm)) \<Rightarrow> Ret (p\<lparr>rindex := rindex p + r\<rparr>, Some nm))"

definition avahi_dns_packet_consume_uint16 :: "dns_packet \<Rightarrow> (dns_packet \<times> u16 option) res" where
  "avahi_dns_packet_consume_uint16 p =
     (if psize p < rindex p + 2 then Ret (p, None)
      else
        res_bind (read_byte p (rindex p)) (\<lambda>a.
        res_map (\<lambda>b. (p\<lparr>rindex := rindex p + 2\<rparr>, Some (from_be16 a b))) (read_byte p (rindex p + 1))))"

definition avahi_dns_packet_consume_uint32 :: "dns_packet \<Rightarrow> (dns_packet \<times> u32 option) res" where
  "avahi_dns_packet_consume_uint32 p =
     (if psize p < rindex p + 4 then Ret (p, None)
      else
        res_bind (read_byte p (rindex p)) (\<lambda>a.
        res_bind (read_byte p (rindex p + 1)) (\<lambda>b.
        res_bind (read_byte p (rindex p + 2)) (\<lambda>c.
        res_map (\<lambda>d. (p\<lparr>rindex := rindex p + 4\<rparr>, Some (from_be32 a b c d))) (read_byte p (rindex p + 3))))))"

definition avahi_dns_packet_consume_bytes :: "dns_packet \<Rightarrow> nat \<Rightarrow> (dns_packet \<times> byte list option) res" where
  "avahi_dns_packet_consume_bytes p l =
     (if l = 0 then Crash
      else if psize p < rindex p + l then Ret (p, None)
      else res_map (\<lambda>b. (p\<lparr>rindex := rindex p + l\<rparr>, Some b)) (read_bytes p (rindex p) l))"

text \<open>The result is the block \<open>ret_string\<close> without the NUL that ends it; it may contain others.\<close>

definition avahi_dns_packet_consume_string :: "dns_packet \<Rightarrow> nat \<Rightarrow> (dns_packet \<times> byte list option) res" where
  "avahi_dns_packet_consume_string p l =
     (if l = 0 then Crash
      else if psize p \<le> rindex p then Ret (p, None)
      else
        res_bind (read_byte p (rindex p)) (\<lambda>b.
        let k = unat b in
        if psize p < rindex p + 1 + k then Ret (p, None)
        else
          let l' = (if k + 1 < l then k + 1 else l)
          in res_map (\<lambda>s. (p\<lparr>rindex := rindex p + (1 + k)\<rparr>, Some s)) (read_bytes p (rindex p + 1) (l' - 1))))"

definition avahi_dns_packet_get_rptr :: "dns_packet \<Rightarrow> nat option" where
  "avahi_dns_packet_get_rptr p = (if psize p < rindex p then None else Some (rindex p))"

definition avahi_dns_packet_skip :: "dns_packet \<Rightarrow> nat \<Rightarrow> dns_packet \<times> unit option" where
  "avahi_dns_packet_skip p len =
     (if psize p < rindex p + len then (p, None) else (p\<lparr>rindex := rindex p + len\<rparr>, Some ()))"

text \<open>\<open>and_then\<close> goes on when something was read, like \<open>||\<close> between the calls in the C code.\<close>

definition and_then ::
  "(dns_packet \<times> 'a option) res \<Rightarrow> (dns_packet \<Rightarrow> 'a \<Rightarrow> (dns_packet \<times> 'b option) res) \<Rightarrow> (dns_packet \<times> 'b option) res" where
  "and_then m f =
     (case m of
        Crash \<Rightarrow> Crash
      | Ret (p, None) \<Rightarrow> Ret (p, None)
      | Ret (p, Some x) \<Rightarrow> f p x)"

text \<open>\<open>rdlength\<close> bytes at the read pointer, without moving it.\<close>

definition peek_bytes :: "dns_packet \<Rightarrow> nat \<Rightarrow> byte list res" where
  "peek_bytes p n = read_bytes p (rindex p) n"

definition parse_rdata_type :: "dns_packet \<Rightarrow> u16 \<Rightarrow> nat \<Rightarrow> (dns_packet \<times> rdata option) res" where
  "parse_rdata_type p t rdlength =
     (case case_of_type t of
        Name_case \<Rightarrow>
          and_then (avahi_dns_packet_consume_name p AVAHI_DOMAIN_NAME_MAX) (\<lambda>p buf. Ret (p, Some (Name buf)))
      | Srv_case \<Rightarrow>
          and_then (avahi_dns_packet_consume_uint16 p) (\<lambda>p priority.
          and_then (avahi_dns_packet_consume_uint16 p) (\<lambda>p weight.
          and_then (avahi_dns_packet_consume_uint16 p) (\<lambda>p port.
          and_then (avahi_dns_packet_consume_name p AVAHI_DOMAIN_NAME_MAX) (\<lambda>p buf.
            Ret (p, Some (Srv priority weight port buf))))))
      | Hinfo_case \<Rightarrow>
          and_then (avahi_dns_packet_consume_string p AVAHI_DOMAIN_NAME_MAX) (\<lambda>p cpu.
          and_then (avahi_dns_packet_consume_string p AVAHI_DOMAIN_NAME_MAX) (\<lambda>p os.
            Ret (p, Some (Hinfo (cstr_of cpu) (cstr_of os)))))
      | Txt_case \<Rightarrow>
          if 0 < rdlength then
            res_bind (peek_bytes p rdlength) (\<lambda>b.
              case avahi_string_list_parse b of
                None \<Rightarrow> Ret (p, None)
              | Some l \<Rightarrow>
                  and_then (Ret (avahi_dns_packet_skip p rdlength)) (\<lambda>p _. Ret (p, Some (Txt l))))
          else Ret (p, Some (Txt []))
      | A_case \<Rightarrow> and_then (avahi_dns_packet_consume_bytes p 4) (\<lambda>p x. Ret (p, Some (A x)))
      | Aaaa_case \<Rightarrow> and_then (avahi_dns_packet_consume_bytes p 16) (\<lambda>p x. Ret (p, Some (Aaaa x)))
      | Generic_case \<Rightarrow>
          if 0 < rdlength then
            res_bind (peek_bytes p rdlength) (\<lambda>b.
              and_then (Ret (avahi_dns_packet_skip p rdlength)) (\<lambda>p _. Ret (p, Some (Generic b))))
          else Ret (p, Some (Generic [])))"

definition parse_rdata :: "dns_packet \<Rightarrow> u16 \<Rightarrow> nat \<Rightarrow> (dns_packet \<times> rdata option) res" where
  "parse_rdata p t rdlength =
     (case avahi_dns_packet_get_rptr p of
        None \<Rightarrow> Crash
      | Some start \<Rightarrow>
          and_then (parse_rdata_type p t rdlength) (\<lambda>p' d.
            case avahi_dns_packet_get_rptr p' of
              None \<Rightarrow> Crash
            | Some e \<Rightarrow> if int e - int start \<noteq> int rdlength then Ret (p', None) else Ret (p', Some d)))"

text \<open>The result of \<open>avahi_dns_packet_consume_record\<close> is the record and the cache flush bit.\<close>

definition avahi_dns_packet_consume_record :: "dns_packet \<Rightarrow> (dns_packet \<times> (rr \<times> bool) option) res" where
  "avahi_dns_packet_consume_record p =
     and_then (avahi_dns_packet_consume_name p AVAHI_DOMAIN_NAME_MAX) (\<lambda>p nm.
     and_then (avahi_dns_packet_consume_uint16 p) (\<lambda>p type.
     and_then (avahi_dns_packet_consume_uint16 p) (\<lambda>p class.
     and_then (avahi_dns_packet_consume_uint32 p) (\<lambda>p t.
     and_then (avahi_dns_packet_consume_uint16 p) (\<lambda>p rdlength.
       if psize p < rindex p + unat rdlength then Ret (p, None)
       else
         let flush = class AND AVAHI_DNS_CACHE_FLUSH \<noteq> 0;
             class' = class AND NOT AVAHI_DNS_CACHE_FLUSH
         in case avahi_record_new_full nm class' type t of
              Crash \<Rightarrow> Crash
            | Ret None \<Rightarrow> Ret (p, None)
            | Ret (Some r) \<Rightarrow>
                and_then (parse_rdata p (ktype (rkey r)) (unat rdlength)) (\<lambda>p d.
                  case avahi_record_is_valid (r\<lparr>rdata := d\<rparr>) of
                    Crash \<Rightarrow> Crash
                  | Ret ok \<Rightarrow> if ok then Ret (p, Some (r\<lparr>rdata := d\<rparr>, flush)) else Ret (p, None)))))))"

definition avahi_dns_packet_consume_key :: "dns_packet \<Rightarrow> (dns_packet \<times> (key \<times> bool) option) res" where
  "avahi_dns_packet_consume_key p =
     and_then (avahi_dns_packet_consume_name p 256) (\<lambda>p nm.
     and_then (avahi_dns_packet_consume_uint16 p) (\<lambda>p type.
     and_then (avahi_dns_packet_consume_uint16 p) (\<lambda>p class.
       let unicast_response = class AND AVAHI_DNS_UNICAST_RESPONSE \<noteq> 0;
           class' = class AND NOT AVAHI_DNS_UNICAST_RESPONSE
       in case avahi_key_new nm class' type of
            Crash \<Rightarrow> Crash
          | Ret None \<Rightarrow> Ret (p, None)
          | Ret (Some k) \<Rightarrow>
              if \<not> avahi_key_is_valid k then Ret (p, None)
              else Ret (p, Some (k, unicast_response)))))"

section \<open>Sizes, replies and bare record data\<close>

definition avahi_dns_packet_is_empty :: "dns_packet \<Rightarrow> bool" where
  "avahi_dns_packet_is_empty p \<longleftrightarrow> psize p \<le> AVAHI_DNS_PACKET_HEADER_SIZE"

definition avahi_dns_packet_space :: "dns_packet \<Rightarrow> nat res" where
  "avahi_dns_packet_space p = (if psize p \<le> max_size p then Ret (max_size p - psize p) else Crash)"

definition avahi_dns_packet_reserve_size :: "dns_packet \<Rightarrow> nat \<Rightarrow> (dns_packet \<times> nat) res" where
  "avahi_dns_packet_reserve_size p n =
     (if \<not> psize p + res_size p \<le> max_size p then Crash
      else
        let p' = (if psize p + res_size p + n \<le> max_size p then p\<lparr>res_size := res_size p + n\<rparr> else p)
        in Ret (p', res_size p'))"

definition avahi_dns_packet_reserved_space :: "dns_packet \<Rightarrow> nat res" where
  "avahi_dns_packet_reserved_space p =
     (if \<not> psize p + res_size p \<le> max_size p then Crash
      else Ret (max_size p - psize p - res_size p))"

text \<open>
  \<open>avahi_dns_packet_new_reply\<close>: the loop copies the questions; \<open>p\<close> is restored afterwards. The
  packet \<open>p\<close> is the incoming query.
\<close>

fun copy_queries_loop :: "bool \<Rightarrow> nat \<Rightarrow> dns_packet \<Rightarrow> dns_packet \<Rightarrow> dns_packet res" where
  "copy_queries_loop sc 0 p r = Ret r"
| "copy_queries_loop sc (Suc n) p r =
     (case avahi_dns_packet_consume_key p of
        Crash \<Rightarrow> Crash
      | Ret (p', None) \<Rightarrow> copy_queries_loop sc n p' r
      | Ret (p', Some (k, unicast_response)) \<Rightarrow>
          res_bind (avahi_dns_packet_append_key sc r k unicast_response) (\<lambda>(r', _).
            copy_queries_loop sc n p' r'))"

definition avahi_dns_packet_new_reply :: "bool \<Rightarrow> dns_packet \<Rightarrow> nat \<Rightarrow> bool \<Rightarrow> bool \<Rightarrow> dns_packet res" where
  "avahi_dns_packet_new_reply sc p mtu copy_queries aa =
     res_bind (avahi_dns_packet_new_response mtu aa) (\<lambda>r.
     res_bind
       (if copy_queries then
          res_bind (avahi_dns_packet_get_field p AVAHI_DNS_FIELD_QDCOUNT) (\<lambda>n.
          res_bind (copy_queries_loop sc (unat n) (p\<lparr>rindex := AVAHI_DNS_PACKET_HEADER_SIZE\<rparr>) r) (\<lambda>r'.
            avahi_dns_packet_set_field r' AVAHI_DNS_FIELD_QDCOUNT n))
        else Ret r) (\<lambda>r.
     res_bind (avahi_dns_packet_get_field p AVAHI_DNS_FIELD_ID) (\<lambda>ident.
     res_bind (avahi_dns_packet_set_field r AVAHI_DNS_FIELD_ID ident) (\<lambda>r.
     res_bind (avahi_dns_packet_get_field r AVAHI_DNS_FIELD_FLAGS) (\<lambda>rflags.
     res_bind (avahi_dns_packet_get_field p AVAHI_DNS_FIELD_FLAGS) (\<lambda>pflags.
       avahi_dns_packet_set_field r AVAHI_DNS_FIELD_FLAGS
         ((rflags AND NOT AVAHI_DNS_FLAG_OPCODE) OR (pflags AND AVAHI_DNS_FLAG_OPCODE))))))))"

text \<open>\<open>avahi_rdata_parse\<close> passes its size on as a 16-bit number.\<close>

definition avahi_rdata_parse :: "u16 \<Rightarrow> byte list \<Rightarrow> rdata option res" where
  "avahi_rdata_parse t b =
     res_map snd
       (parse_rdata \<lparr>pdata = b, rindex = 0, max_size = length b, res_size = 0, name_table = None\<rparr> t
          (length b mod 2 ^ 16))"

definition avahi_rdata_serialize :: "bool \<Rightarrow> rr \<Rightarrow> nat \<Rightarrow> byte list option res" where
  "avahi_rdata_serialize sc r maxsz =
     (if maxsz = 0 then Crash
      else
        res_map (\<lambda>(p, ok). if ok then Some (pdata p) else None)
          (append_rdata sc \<lparr>pdata = [], rindex = 0, max_size = maxsz, res_size = 0, name_table = None\<rparr> r))"

end
