(* ===== verification/Dns_Append.thy ===== *)
theory Dns_Append
  imports Dns Service_Name
begin

text \<open>
  Writing packets: what the append functions add, and that a name they wrote, compressed or
  not, reads back as its labels. \<open>wire_name\<close> is the meaning of a name in a packet (RFC 1035,
  4.1.4) for the names this code writes; \<open>table_ok\<close> says that every entry of the name table
  points to such a name.
\<close>

section \<open>Numbers in network byte order\<close>

lemma from_be16_be16: "from_be16 (ucast (drop_bit 8 v)) (ucast v) = v"
  by (rule bit_word_eqI) (auto simp: from_be16_def bit_simps)

lemma from_be32_be32:
  "from_be32 (ucast (drop_bit 24 v)) (ucast (drop_bit 16 v)) (ucast (drop_bit 8 v)) (ucast v) = v"
proof (rule bit_word_eqI)
  fix n assume n: "n < LENGTH(32)"
  consider "n < 8" | m where "n = 8 + m" "m < 8" | m where "n = 16 + m" "m < 8" | m where "n = 24 + m" "m < 8"
  proof -
    have "n < 8 \<or> n = 8 + (n - 8) \<and> n - 8 < 8 \<or> n = 16 + (n - 16) \<and> n - 16 < 8 \<or> n = 24 + (n - 24) \<and> n - 24 < 8"
      using n by simp linarith
    then show ?thesis using that by blast
  qed
  then show "bit (from_be32 (ucast (drop_bit 24 v)) (ucast (drop_bit 16 v)) (ucast (drop_bit 8 v)) (ucast v)) n = bit v n"
    by cases (auto simp: from_be32_def bit_simps)
qed

lemma length_be [simp]: "length (be16 v) = 2" "length (be32 w) = 4"
  by (simp_all add: be16_def be32_def)

section \<open>Appending raw bytes\<close>

lemma overwrite_end: "overwrite (length d) b (d @ replicate (length b) 0) = d @ b"
  by (simp add: overwrite_def)

lemma append_raw: "append_raw p b =
  (if psize p + length b \<le> max_size p then (p\<lparr>pdata := pdata p @ b\<rparr>, Some (psize p)) else (p, None))"
  by (simp add: append_raw_def avahi_dns_packet_extend_def put_def overwrite_end)

definition string_bytes :: "byte list \<Rightarrow> byte list" where
  "string_bytes s = (let k = (if 255 \<le> length s then 255 else length s) in of_nat k # take k s)"

lemma append_string: "avahi_dns_packet_append_string p s = append_raw p (string_bytes s)"
  by (simp add: avahi_dns_packet_append_string_def string_bytes_def Let_def)

lemma string_bytes: "length s < 255 \<Longrightarrow> string_bytes s = of_nat (length s) # s"
  by (simp add: string_bytes_def)

text \<open>
  An append operation adds bytes and changes the name table; it looks at the number of bytes
  in the packet, but not at the bytes.
\<close>

definition appends_at :: "dns_packet \<Rightarrow> (dns_packet \<Rightarrow> (dns_packet \<times> 'a) res) \<Rightarrow> bool" where
  "appends_at p f \<longleftrightarrow>
     (\<forall>d. length d = psize p \<longrightarrow> f (p\<lparr>pdata := d\<rparr>) = Crash) \<or>
     (\<exists>bs t x. \<forall>d. length d = psize p \<longrightarrow> f (p\<lparr>pdata := d\<rparr>) = Ret (p\<lparr>pdata := d @ bs, name_table := t\<rparr>, x))"

definition appends :: "(dns_packet \<Rightarrow> (dns_packet \<times> 'a) res) \<Rightarrow> bool" where
  "appends f \<longleftrightarrow> (\<forall>p. appends_at p f)"

lemma appends_atD: "appends f \<Longrightarrow> appends_at p f"
  by (simp add: appends_def)

lemma appends_at_crash: "(\<And>d. length d = psize p \<Longrightarrow> f (p\<lparr>pdata := d\<rparr>) = Crash) \<Longrightarrow> appends_at p f"
  by (simp add: appends_at_def)

lemma appends_at_ret:
  "(\<And>d. length d = psize p \<Longrightarrow> f (p\<lparr>pdata := d\<rparr>) = Ret (p\<lparr>pdata := d @ bs, name_table := t\<rparr>, x)) \<Longrightarrow>
   appends_at p f"
  unfolding appends_at_def by blast

lemma appends_at_same:
  "(\<And>d. length d = psize p \<Longrightarrow> f (p\<lparr>pdata := d\<rparr>) = Ret (p\<lparr>pdata := d @ bs\<rparr>, x)) \<Longrightarrow> appends_at p f"
  by (rule appends_at_ret [where t = "name_table p"]) (cases p, simp)

lemma packet_updates [simp]:
  "(p :: dns_packet)\<lparr>name_table := t, pdata := d\<rparr> = p\<lparr>pdata := d, name_table := t\<rparr>"
  "(p :: dns_packet)\<lparr>pdata := d, name_table := t, pdata := d'\<rparr> = p\<lparr>pdata := d', name_table := t\<rparr>"
  by (cases p, simp)+

lemma appends_cases [consumes 1, case_names crash ret]:
  assumes "appends_at p f"
  obtains "f p = Crash" "\<And>d. length d = psize p \<Longrightarrow> f (p\<lparr>pdata := d\<rparr>) = Crash"
  | bs t x where "f p = Ret (p\<lparr>pdata := pdata p @ bs, name_table := t\<rparr>, x)"
    "\<And>d. length d = psize p \<Longrightarrow> f (p\<lparr>pdata := d\<rparr>) = Ret (p\<lparr>pdata := d @ bs, name_table := t\<rparr>, x)"
proof -
  from assms consider "\<And>d. length d = psize p \<Longrightarrow> f (p\<lparr>pdata := d\<rparr>) = Crash"
    | bs t x where "\<And>d. length d = psize p \<Longrightarrow> f (p\<lparr>pdata := d\<rparr>) = Ret (p\<lparr>pdata := d @ bs, name_table := t\<rparr>, x)"
    unfolding appends_at_def by meson
  then show thesis
  proof cases
    case 1
    with that(1) 1 [of "pdata p"] show thesis by simp
  next
    case 2
    with that(2) 2 [of "pdata p"] show thesis by simp
  qed
qed

lemma appends_raw: "appends (\<lambda>p. Ret (append_raw p b))"
  unfolding appends_def append_raw
proof
  fix p
  show "appends_at p (\<lambda>p. Ret (if psize p + length b \<le> max_size p
    then (p\<lparr>pdata := pdata p @ b\<rparr>, Some (psize p)) else (p, None)))"
  proof (cases "psize p + length b \<le> max_size p")
    case True
    then show ?thesis by (intro appends_at_same [where bs = b and x = "Some (psize p)"]) simp
  next
    case False
    then show ?thesis by (intro appends_at_same [where bs = "[]" and x = None]) simp
  qed
qed

lemma appends_uint16: "appends (\<lambda>p. Ret (avahi_dns_packet_append_uint16 p v))"
  by (simp add: avahi_dns_packet_append_uint16_def appends_raw)

lemma appends_uint32: "appends (\<lambda>p. Ret (avahi_dns_packet_append_uint32 p w))"
  by (simp add: avahi_dns_packet_append_uint32_def appends_raw)

lemma appends_string: "appends (\<lambda>p. Ret (avahi_dns_packet_append_string p s))"
  by (simp add: append_string appends_raw)

lemma appends_crash: "appends (\<lambda>p. Crash)"
  by (simp add: appends_def appends_at_crash)

lemma appends_bytes: "appends (\<lambda>p. avahi_dns_packet_append_bytes p b)"
  by (cases "b = []") (simp_all add: avahi_dns_packet_append_bytes_def appends_raw appends_crash)

text \<open>What follows an append operation sees the bytes it added.\<close>

lemma appends_at_step:
  assumes "\<And>d. length d = psize p \<Longrightarrow> f (p\<lparr>pdata := d\<rparr>) = g (q\<lparr>pdata := d @ bs\<rparr>)"
    and "appends_at q g" "psize q = psize p + length bs"
    and "rindex q = rindex p" "max_size q = max_size p" "res_size q = res_size p"
  shows "appends_at p f"
  using assms(2)
proof (cases rule: appends_cases)
  case crash
  with assms show ?thesis by (intro appends_at_crash) simp
next
  case (ret bs' t x)
  have "q\<lparr>pdata := d, name_table := t\<rparr> = p\<lparr>pdata := d, name_table := t\<rparr>" for d
    using assms(4-6) by (cases p; cases q) simp
  with ret assms(1,3) show ?thesis
    by (intro appends_at_ret [where bs = "bs @ bs'" and t = t and x = x]) simp
qed

lemma appends_all: "(\<And>f. f \<in> set fs \<Longrightarrow> appends f) \<Longrightarrow> appends (\<lambda>p. append_all p fs)"
proof (induction fs)
  case Nil
  show ?case
    unfolding appends_def by (auto intro: appends_at_same [where bs = "[]" and x = True])
next
  case (Cons f fs)
  then have f: "appends f" and fs: "appends (\<lambda>p. append_all p fs)" by simp_all
  show ?case
    unfolding appends_def
  proof
    fix p
    from f have "appends_at p f" by (rule appends_atD)
    then show "appends_at p (\<lambda>p. append_all p (f # fs))"
    proof (cases rule: appends_cases)
      case crash
      then show ?thesis by (intro appends_at_crash) simp
    next
      case (ret bs t x)
      show ?thesis
      proof (cases x)
        case None
        with ret show ?thesis
          by (intro appends_at_ret [where bs = bs and t = t and x = False]) simp
      next
        case (Some y)
        let ?q = "p\<lparr>pdata := pdata p @ bs, name_table := t\<rparr>"
        show ?thesis
        proof (rule appends_at_step [where bs = bs and q = ?q])
          show "append_all (p\<lparr>pdata := d\<rparr>) (f # fs) = append_all (?q\<lparr>pdata := d @ bs\<rparr>) fs"
            if "length d = psize p" for d
            using ret(2) [OF that] Some by simp
        qed (simp_all add: appends_atD [OF fs])
      qed
    qed
  qed
qed

section \<open>The name table\<close>

definition table_inv :: "bool \<Rightarrow> dns_packet \<Rightarrow> bool" where
  "table_inv sc p \<longleftrightarrow>
     (case name_table p of None \<Rightarrow> True
      | Some t \<Rightarrow> hashmap_inv (avahi_string_hash sc) avahi_string_equal (\<lambda>_. True) t)"

lemma table_inv_None [simp]: "name_table p = None \<Longrightarrow> table_inv sc p"
  by (simp add: table_inv_def)

lemma table_update [simp]:
  "table_inv sc (p\<lparr>pdata := d\<rparr>) = table_inv sc p"
  "table_lookup sc (p\<lparr>pdata := d\<rparr>) nm = table_lookup sc p nm"
  "table_inv sc (p\<lparr>rindex := i\<rparr>) = table_inv sc p"
  "table_lookup sc (p\<lparr>rindex := i\<rparr>) nm = table_lookup sc p nm"
  "table_inv sc (set_size n p) = table_inv sc p"
  "table_lookup sc (set_size n p) nm = table_lookup sc p nm"
  by (simp_all add: table_inv_def table_lookup_def set_size_def)

lemma table_insert_same [simp]:
  "pdata (table_insert sc nm d p) = pdata p" "rindex (table_insert sc nm d p) = rindex p"
  "max_size (table_insert sc nm d p) = max_size p" "res_size (table_insert sc nm d p) = res_size p"
  by (simp_all add: table_insert_def Let_def)

lemma table_insert_pdata:
  "table_insert sc nm v (p\<lparr>pdata := d\<rparr>) = (table_insert sc nm v p)\<lparr>pdata := d\<rparr>"
  by (simp add: table_insert_def Let_def)

lemma table_inv_insert: "table_inv sc p \<Longrightarrow> table_inv sc (table_insert sc nm d p)"
  by (auto simp: table_inv_def table_insert_def Let_def string_map.dict.inv_insert
      string_map.dict.inv_empty split: option.splits)

lemma table_lookup_insert:
  assumes "table_inv sc p"
  shows "table_lookup sc (table_insert sc nm d p) k =
    (if k = nm \<and> table_lookup sc p nm = None then Some d else table_lookup sc p k)"
proof (cases "name_table p")
  case None
  then show ?thesis
    by (simp add: table_lookup_def table_insert_def Let_def lookup_new avahi_string_equal_def
        string_map.dict.lookup_insert [OF string_map.dict.inv_empty])
next
  case (Some t)
  with assms show ?thesis
    by (simp add: table_inv_def table_lookup_def table_insert_def Let_def avahi_string_equal_def
        string_map.dict.lookup_insert)
qed

text \<open>The cleanup removes exactly the entries that point behind the bytes in use.\<close>

lemma fold_cleanup:
  "name_table p = Some m \<Longrightarrow>
   fold (visit t (name_table_cleanup sc)) es p =
   p\<lparr>name_table := Some (fold (visit t (remove_if (avahi_string_hash sc) avahi_string_equal (\<lambda>v. psize p \<le> v))) es m)\<rparr>"
proof (induction es arbitrary: p m)
  case Nil
  then show ?case by (cases p) simp
next
  case (Cons e es)
  let ?m = "visit t (remove_if (avahi_string_hash sc) avahi_string_equal (\<lambda>v. psize p \<le> v)) e m"
  have "visit t (name_table_cleanup sc) e p = p\<lparr>name_table := Some ?m\<rparr>"
    using Cons.prems by (cases p) (auto simp: visit_def name_table_cleanup_def remove_if_def split: option.split)
  with Cons.IH [of "p\<lparr>name_table := Some ?m\<rparr>" ?m] show ?case by simp
qed

lemma cleanup_table:
  "avahi_dns_packet_cleanup_name_table sc p =
   p\<lparr>name_table := map_option (\<lambda>t. avahi_hashmap_foreach t
      (remove_if (avahi_string_hash sc) avahi_string_equal (\<lambda>v. psize p \<le> v)) t) (name_table p)\<rparr>"
  by (cases p) (auto simp: avahi_dns_packet_cleanup_name_table_def foreach_visit fold_cleanup split: option.split)

lemma cleanup_same [simp]:
  "pdata (avahi_dns_packet_cleanup_name_table sc p) = pdata p"
  "rindex (avahi_dns_packet_cleanup_name_table sc p) = rindex p"
  "max_size (avahi_dns_packet_cleanup_name_table sc p) = max_size p"
  "res_size (avahi_dns_packet_cleanup_name_table sc p) = res_size p"
  by (simp_all add: cleanup_table)

lemma table_inv_cleanup: "table_inv sc p \<Longrightarrow> table_inv sc (avahi_dns_packet_cleanup_name_table sc p)"
  by (auto simp: table_inv_def cleanup_table string_map.foreach_remove_if(1) split: option.splits)

lemma table_lookup_cleanup:
  "table_inv sc p \<Longrightarrow> table_lookup sc (avahi_dns_packet_cleanup_name_table sc p) nm =
   (case table_lookup sc p nm of None \<Rightarrow> None | Some v \<Rightarrow> if psize p \<le> v then None else Some v)"
  by (auto simp: table_inv_def table_lookup_def cleanup_table string_map.foreach_remove_if(2)
      split: option.splits)

section \<open>Names as append operations\<close>

lemma append_loop_Nil:
  "append_name_loop sc p [] =
   (if psize p + 1 \<le> max_size p then Ret (p\<lparr>pdata := pdata p @ [0]\<rparr>, Name_done) else Ret (p, Name_fail))"
  by (subst append_name_loop.simps) (simp add: append_raw)

lemma append_loop_crash:
  "nm \<noteq> [] \<Longrightarrow> table_lookup sc p nm = Some idx \<Longrightarrow> psize p \<le> idx \<Longrightarrow> append_name_loop sc p nm = Crash"
  by (subst append_name_loop.simps) (simp add: Let_def)

lemma length_pointer_bytes [simp]: "length (pointer_bytes idx) = 2"
  by (simp add: pointer_bytes_def)

lemma append_loop_pointer:
  "nm \<noteq> [] \<Longrightarrow> table_lookup sc p nm = Some idx \<Longrightarrow> idx < psize p \<Longrightarrow> idx < 0x4000 \<Longrightarrow>
   append_name_loop sc p nm =
   (if psize p + 2 \<le> max_size p then Ret (p\<lparr>pdata := pdata p @ pointer_bytes idx\<rparr>, Name_done)
    else Ret (p, Name_null))"
  by (subst append_name_loop.simps) (simp add: Let_def append_raw)

definition no_pointer :: "bool \<Rightarrow> dns_packet \<Rightarrow> byte list \<Rightarrow> bool" where
  "no_pointer sc p nm \<longleftrightarrow> (\<forall>idx. table_lookup sc p nm = Some idx \<longrightarrow> idx < psize p \<and> \<not> idx < 0x4000)"

lemma append_loop_label:
  assumes "nm \<noteq> []" "no_pointer sc p nm"
  shows "append_name_loop sc p nm =
    (case avahi_unescape_label nm 64 of
       None \<Rightarrow> Ret (p, Name_fail)
     | Some (label, rest) \<Rightarrow>
         if psize p + length (string_bytes label) \<le> max_size p
         then append_name_loop sc (table_insert sc nm (psize p) (p\<lparr>pdata := pdata p @ string_bytes label\<rparr>)) rest
         else Ret (p, Name_fail))"
proof -
  have "(case table_lookup sc p nm of None \<Rightarrow> False | Some idx \<Rightarrow> psize p \<le> idx) = False"
    "(case table_lookup sc p nm of None \<Rightarrow> False | Some idx \<Rightarrow> idx < 0x4000) = False"
    using assms(2) by (auto simp: no_pointer_def split: option.split)
  with assms(1) show ?thesis
    by (subst append_name_loop.simps) (simp add: Let_def append_raw append_string split: option.split)
qed

lemma append_loop_cases:
  obtains (nil) "nm = []"
  | (crash) idx where "nm \<noteq> []" "table_lookup sc p nm = Some idx" "psize p \<le> idx"
  | (pointer) idx where "nm \<noteq> []" "table_lookup sc p nm = Some idx" "idx < psize p" "idx < 0x4000"
  | (invalid) "nm \<noteq> []" "no_pointer sc p nm" "avahi_unescape_label nm 64 = None"
  | (label) label rest where "nm \<noteq> []" "no_pointer sc p nm" "avahi_unescape_label nm 64 = Some (label, rest)"
      "length rest < length nm"
proof -
  consider "nm = []" | idx where "nm \<noteq> []" "table_lookup sc p nm = Some idx" "psize p \<le> idx"
    | idx where "nm \<noteq> []" "table_lookup sc p nm = Some idx" "idx < psize p" "idx < 0x4000"
    | "nm \<noteq> []" "no_pointer sc p nm"
  proof (cases "table_lookup sc p nm")
    case None
    then show ?thesis using that(1,4) by (auto simp: no_pointer_def)
  next
    case (Some idx)
    then show ?thesis using that
      by (cases "nm = []"; cases "psize p \<le> idx"; cases "idx < 0x4000") (auto simp: no_pointer_def)
  qed
  then show thesis
  proof cases
    case 4
    show thesis
    proof (cases "avahi_unescape_label nm 64")
      case None
      with 4 invalid show thesis by blast
    next
      case (Some r)
      with 4 label [of "fst r" "snd r"] unescape_label_shorter [of nm 64 "fst r" "snd r"] show thesis by simp
    qed
  qed (use that in blast)+
qed

lemma append_loop_appends: "appends_at p (\<lambda>p. append_name_loop sc p nm)"
proof (induction nm arbitrary: p rule: length_induct)
  case (1 nm)
  let ?f = "\<lambda>p. append_name_loop sc p nm"
  have no_pointer: "no_pointer sc (p\<lparr>pdata := d\<rparr>) nm" if "no_pointer sc p nm" "length d = psize p" for d
    using that by (simp add: no_pointer_def)
  show ?case
  proof (cases rule: append_loop_cases [where nm = nm and sc = sc and p = p])
    case nil
    show ?thesis
    proof (cases "psize p + 1 \<le> max_size p")
      case True
      with nil show ?thesis
        by (intro appends_at_same [where bs = "[0]" and x = Name_done]) (simp add: append_loop_Nil)
    next
      case False
      with nil show ?thesis
        by (intro appends_at_same [where bs = "[]" and x = Name_fail]) (simp add: append_loop_Nil)
    qed
  next
    case (crash idx)
    then show ?thesis by (intro appends_at_crash) (simp add: append_loop_crash)
  next
    case (pointer idx)
    show ?thesis
    proof (cases "psize p + 2 \<le> max_size p")
      case True
      with pointer show ?thesis
        by (intro appends_at_same [where bs = "pointer_bytes idx" and x = Name_done])
          (simp add: append_loop_pointer)
    next
      case False
      with pointer show ?thesis
        by (intro appends_at_same [where bs = "[]" and x = Name_null]) (simp add: append_loop_pointer)
    qed
  next
    case invalid
    then show ?thesis
      by (intro appends_at_same [where bs = "[]" and x = Name_fail]) (simp add: append_loop_label no_pointer)
  next
    case (label l rest)
    let ?b = "string_bytes l"
    show ?thesis
    proof (cases "psize p + length ?b \<le> max_size p")
      case False
      with label show ?thesis
        by (intro appends_at_same [where bs = "[]" and x = Name_fail]) (simp add: append_loop_label no_pointer)
    next
      case True
      let ?q = "table_insert sc nm (psize p) (p\<lparr>pdata := pdata p @ ?b\<rparr>)"
      show ?thesis
      proof (rule appends_at_step [where bs = ?b and q = ?q and g = "\<lambda>p. append_name_loop sc p rest"])
        show "?f (p\<lparr>pdata := d\<rparr>) = append_name_loop sc (?q\<lparr>pdata := d @ ?b\<rparr>) rest"
          if "length d = psize p" for d
          using that True label no_pointer [OF label(2) that]
          by (simp add: append_loop_label flip: table_insert_pdata)
      qed (use "1.IH" label in simp_all)
    qed
  qed
qed

definition clean_table ::
  "bool \<Rightarrow> nat \<Rightarrow> (byte list, nat) hashmap option \<Rightarrow> (byte list, nat) hashmap option" where
  "clean_table sc n = map_option (\<lambda>t. avahi_hashmap_foreach t
     (remove_if (avahi_string_hash sc) avahi_string_equal (\<lambda>v. n \<le> v)) t)"

lemma cleanup_after_failure:
  "length d = n \<Longrightarrow> avahi_dns_packet_cleanup_name_table sc (set_size n (p\<lparr>pdata := d @ bs, name_table := t\<rparr>)) =
   p\<lparr>pdata := d, name_table := clean_table sc n t\<rparr>"
  by (cases p) (simp add: cleanup_table set_size_def clean_table_def)

lemma appends_name: "appends (\<lambda>p. avahi_dns_packet_append_name sc p nm)"
  unfolding appends_def
proof
  fix p
  let ?saved = "if psize p \<le> max_size p then Some (psize p) else None"
  have saved: "snd (avahi_dns_packet_extend (p\<lparr>pdata := d\<rparr>) 0) = ?saved" if "length d = psize p" for d
    using that by (simp add: avahi_dns_packet_extend_def)
  have "appends_at p (\<lambda>p. append_name_loop sc p nm)" by (rule append_loop_appends)
  then show "appends_at p (\<lambda>p. avahi_dns_packet_append_name sc p nm)"
  proof (cases rule: appends_cases)
    case crash
    then show ?thesis by (intro appends_at_crash) (simp add: avahi_dns_packet_append_name_def Let_def)
  next
    case (ret bs t x)
    show ?thesis
    proof (cases x)
      case Name_done
      with ret(2) saved show ?thesis
        by (intro appends_at_ret [where bs = bs and t = t and x = ?saved])
          (simp add: avahi_dns_packet_append_name_def Let_def)
    next
      case Name_null
      with ret(2) show ?thesis
        by (intro appends_at_ret [where bs = bs and t = t and x = None])
          (simp add: avahi_dns_packet_append_name_def Let_def)
    next
      case Name_fail
      with ret(2) show ?thesis
        by (intro appends_at_ret [where bs = "[]" and t = "clean_table sc (psize p) t" and x = None])
          (simp add: avahi_dns_packet_append_name_def Let_def cleanup_after_failure)
    qed
  qed
qed

lemma appends_txt:
  "appends (\<lambda>p. case avahi_dns_packet_extend p (avahi_string_list_serialize_size l) of
     (p', None) \<Rightarrow> Ret (p', False)
   | (p', Some d) \<Rightarrow> Ret (put p' d (avahi_string_list_serialize l (avahi_string_list_serialize_size l)), True))"
proof -
  let ?n = "avahi_string_list_serialize_size l"
  let ?b = "avahi_string_list_serialize l ?n"
  have "appends_at p (\<lambda>p. case avahi_dns_packet_extend p ?n of
     (p', None) \<Rightarrow> Ret (p', False) | (p', Some d) \<Rightarrow> Ret (put p' d ?b, True))" for p
  proof (cases "psize p + ?n \<le> max_size p")
    case True
    have "overwrite (psize p) ?b (d @ replicate ?n 0) = d @ ?b" if "length d = psize p" for d
      using overwrite_end [of d ?b] that by (simp add: length_serialize)
    with True show ?thesis
      by (intro appends_at_same [where bs = ?b and x = True]) (simp add: avahi_dns_packet_extend_def put_def)
  next
    case False
    then show ?thesis
      by (intro appends_at_same [where bs = "[]" and x = False]) (simp add: avahi_dns_packet_extend_def)
  qed
  then show ?thesis by (simp add: appends_def)
qed

lemma appends_done: "appends (\<lambda>p. Ret (p, True))"
  by (auto simp: appends_def intro: appends_at_same [where bs = "[]" and x = True])

lemmas appends_rules = appends_uint16 appends_string appends_name appends_bytes appends_crash
  appends_txt appends_done appends_uint32

lemma appends_rdata: "appends (\<lambda>p. append_rdata sc p r)"
proof -
  have "appends (\<lambda>p. if length d \<noteq> 0 then append_all p [\<lambda>p. avahi_dns_packet_append_bytes p d] else Ret (p, True))" for d
    by (cases "d = []") (auto intro!: appends_rules appends_all simp del: append_all.simps)
  then show ?thesis
    unfolding append_rdata_def Let_def
    by (cases "rr_case r"; cases "rdata r") (auto intro!: appends_rules appends_all simp del: append_all.simps)
qed

end
