(* ===== verification/Dns_Consume.thy ===== *)
theory Dns_Consume
  imports Dns Service_Name
begin

text \<open>
  Reading packets is safe: whatever the bytes, no function that consumes a name, key or
  record fails an assertion or reads outside the packet, the read pointer only moves forward
  and stays inside, and what is returned is a valid key or record.
\<close>

section \<open>Escaping into a buffer\<close>

lemma escape_loop_room:
  "escape_loop l sz = (ok, w, sz') \<Longrightarrow> length w + sz' = sz \<and> (0 < sz \<longrightarrow> 0 < sz')"
proof (induction l sz arbitrary: w sz' rule: escape_loop.induct)
  case (2 c src sz)
  then show ?case
    by (fastforce simp: put_bytes_def decimal_escape_def split: if_splits prod.splits)
qed simp

lemma escape_loop_ok:
  "escape_loop l sz = (True, w, sz') \<Longrightarrow> w = escape l"
proof (induction l sz arbitrary: w sz' rule: escape_loop.induct)
  case (2 c src sz)
  then show ?case
    by (auto simp: put_bytes_def escape_byte_def split: if_splits prod.splits)
qed simp

text \<open>Unescaping an escaped label that need not be valid.\<close>

lemma unescape_loop_escape_zero:
  "0 \<in> set l \<Longrightarrow> i + length l < sz \<Longrightarrow> unescape_loop i sz (escape l @ t) = None"
proof (induction l arbitrary: i)
  case (Cons c l)
  show ?case
  proof (cases "c = 0")
    case True
    have "\<not> isdigit BSL" "isdigit 0x30" by (simp_all add: isdigit_def)
    with True Cons.prems show ?thesis
      by (simp add: escape_byte_def is_proper_def decimal_escape_def escape_num_def digit_val_def)
  next
    case False
    with Cons have "unescape_loop (Suc i) sz (escape l @ t) = None" by auto
    with False Cons.prems show ?thesis by (simp add: unescape_escape_byte)
  qed
qed simp

lemma unescape_escape_raw:
  assumes "length l < AVAHI_LABEL_MAX" "label_tail t rest"
  shows "avahi_unescape_label (escape l @ t) AVAHI_LABEL_MAX = (if is_label l then Some (l, rest) else None)"
proof (cases "0 \<in> set l")
  case True
  then show ?thesis
    using unescape_loop_escape_zero [of l 0 AVAHI_LABEL_MAX t] assms(1)
    by (simp add: avahi_unescape_label_def is_label_def cstring_def)
next
  case False
  then have "cstring l" by (simp add: cstring_def)
  moreover have "unescape_loop (length l) AVAHI_LABEL_MAX t = Some ([], rest)"
    using assms by (auto simp: label_tail_def)
  ultimately show ?thesis
    using assms unescape_loop_escape [of l 0 AVAHI_LABEL_MAX t]
    by (simp add: avahi_unescape_label_def is_label_def)
qed

section \<open>Names read from a packet\<close>

definition raw_labels :: "byte list list \<Rightarrow> bool" where
  "raw_labels ls \<longleftrightarrow> (\<forall>l \<in> set ls. l \<noteq> [] \<and> length l \<le> 63)"

lemma raw_labels_Nil [simp]: "raw_labels []"
  by (simp add: raw_labels_def)

lemma raw_labels_Cons [simp]: "raw_labels (l # ls) \<longleftrightarrow> l \<noteq> [] \<and> length l \<le> 63 \<and> raw_labels ls"
  by (auto simp: raw_labels_def)

lemma label_byte_small: "unat (c :: byte) \<noteq> 0 \<Longrightarrow> unat c \<le> 63 \<Longrightarrow> length d \<ge> i + unat c \<Longrightarrow>
   take (unat c) (drop i d) \<noteq> [] \<and> length (take (unat c) (drop i d)) = unat c"
  by auto

text \<open>One round of the loop: at the end, on a label, on a pointer.\<close>

lemma consume_loop_end:
  "psize p < idx + 1 \<Longrightarrow> consume_labels_loop (Suc i) p idx ret cmpr first out l = Ret None"
  "idx < psize p \<Longrightarrow> unat (pdata p ! idx) = 0 \<Longrightarrow>
   consume_labels_loop (Suc i) p idx ret cmpr first out l =
   (if l < 1 then Ret None else Ret (Some (if cmpr then ret else ret + 1, out)))"
  "idx < psize p \<Longrightarrow> 63 < unat (pdata p ! idx) \<Longrightarrow> pdata p ! idx AND 0xC0 \<noteq> 0xC0 \<Longrightarrow>
   consume_labels_loop (Suc i) p idx ret cmpr first out l = Ret None"
  by (simp_all add: consume_labels_loop.simps(2) Let_def)

lemma consume_loop_label:
  assumes "idx < psize p" "n = unat (pdata p ! idx)" "0 < n" "n \<le> 63"
    and "lab = take n (drop (idx + 1) (pdata p))"
  shows "consume_labels_loop (Suc i) p idx ret cmpr first out l =
    (if psize p < idx + 1 + n \<or> l < n + 1 then Ret None
     else case escape_loop lab (if first then l else l - 1) of
       (ok, w, l2) \<Rightarrow>
         if \<not> ok then Ret None
         else consume_labels_loop i p (idx + 1 + n) (if cmpr then ret else ret + 1 + n) cmpr False
           ((if first then out else out @ [DOT]) @ w) l2)"
proof -
  have l: "\<not> l < n + 1 \<Longrightarrow> 0 < (if first then l else l - 1)" using assms(3) by auto
  show ?thesis
    using assms(1-4) l unfolding assms(5) consume_labels_loop.simps(2) Let_def avahi_escape_label_def
    by (cases first; cases cmpr) (simp_all split: prod.split)
qed

lemma consume_loop_pointer:
  assumes "idx < psize p" "63 < unat (pdata p ! idx)" "pdata p ! idx AND 0xC0 = 0xC0"
  shows "consume_labels_loop (Suc i) p idx ret cmpr first out l =
    (if psize p < idx + 2 then Ret None
     else let ptr = label_ptr (pdata p ! idx) (pdata p ! (idx + 1)) in
       if ptr < AVAHI_DNS_PACKET_HEADER_SIZE \<or> idx \<le> ptr then Ret None
       else consume_labels_loop i p ptr (if cmpr then ret else ret + 2) True first out l)"
  using assms unfolding consume_labels_loop.simps(2) Let_def by simp

text \<open>What a round may assume and has to establish.\<close>

definition loop_safe :: "dns_packet \<Rightarrow> nat \<Rightarrow> nat \<Rightarrow> bool \<Rightarrow> bool \<Rightarrow> byte list \<Rightarrow> nat \<Rightarrow> (nat \<times> byte list) option res \<Rightarrow> bool" where
  "loop_safe p idx ret cmpr first out l result \<longleftrightarrow>
     (\<exists>r. result = Ret r \<and>
       (\<forall>ret' o'. r = Some (ret', o') \<longrightarrow>
         (if cmpr then ret' = ret else ret \<le> ret' \<and> idx + (ret' - ret) \<le> psize p) \<and>
         (\<exists>ls. o' = out @ dotted first ls \<and> raw_labels ls \<and> length (dotted first ls) < l)))"

lemma loop_safe_None [simp]: "loop_safe p idx ret cmpr first out l (Ret None)"
  by (simp add: loop_safe_def)

lemma loop_safe_label:
  assumes "loop_safe p (idx + 1 + length lab) (if cmpr then ret else ret + 1 + length lab) cmpr False
      ((if first then out else out @ [DOT]) @ escape lab) l2 result"
    and "lab \<noteq> []" "length lab \<le> 63" "length (escape lab) + l2 = (if first then l else l - 1)" "0 < l2"
  shows "loop_safe p idx ret cmpr first out l result"
proof -
  let ?out1 = "if first then out else out @ [DOT]"
  let ?ret1 = "if cmpr then ret else ret + 1 + length lab"
  from assms(1) obtain r where r: "result = Ret r" and post: "\<And>ret' o'. r = Some (ret', o') \<Longrightarrow>
      (if cmpr then ret' = ?ret1 else ?ret1 \<le> ret' \<and> idx + 1 + length lab + (ret' - ?ret1) \<le> psize p) \<and>
      (\<exists>ls. o' = (?out1 @ escape lab) @ dotted False ls \<and> raw_labels ls \<and> length (dotted False ls) < l2)"
    unfolding loop_safe_def by blast
  have "(if cmpr then ret' = ret else ret \<le> ret' \<and> idx + (ret' - ret) \<le> psize p) \<and>
      (\<exists>ls. o' = out @ dotted first ls \<and> raw_labels ls \<and> length (dotted first ls) < l)"
    if "r = Some (ret', o')" for ret' o'
  proof
    show "if cmpr then ret' = ret else ret \<le> ret' \<and> idx + (ret' - ret) \<le> psize p"
      using post [OF that] by (cases cmpr) auto
    from post [OF that] obtain ls where ls: "o' = (?out1 @ escape lab) @ dotted False ls" "raw_labels ls"
      "length (dotted False ls) < l2" by blast
    then have "o' = out @ dotted first (lab # ls)" "raw_labels (lab # ls)"
      using assms(2,3) by (simp_all add: dotted_Cons)
    moreover have "length (dotted first (lab # ls)) < l"
      using ls(3) assms(4,5) by (cases first) (simp_all add: dotted_Cons)
    ultimately show "\<exists>ls. o' = out @ dotted first ls \<and> raw_labels ls \<and> length (dotted first ls) < l" by blast
  qed
  with r show ?thesis unfolding loop_safe_def by blast
qed

lemma consume_loop_safe:
  "0 < l \<Longrightarrow> loop_safe p idx ret cmpr first out l (consume_labels_loop i p idx ret cmpr first out l)"
proof (induction i arbitrary: idx ret cmpr first out l)
  case (Suc i)
  let ?c = "pdata p ! idx"
  let ?n = "unat ?c"
  let ?lab = "take ?n (drop (idx + 1) (pdata p))"
  consider "psize p < idx + 1" | "idx < psize p" "?n = 0" | "idx < psize p" "0 < ?n" "?n \<le> 63"
    | "idx < psize p" "63 < ?n" "?c AND 0xC0 = 0xC0" | "idx < psize p" "63 < ?n" "?c AND 0xC0 \<noteq> 0xC0"
    by linarith
  then show ?case
  proof cases
    case 2
    then show ?thesis
      using Suc.prems by (auto simp: loop_safe_def consume_loop_end intro: exI [of _ "[]"])
  next
    case 3
    obtain ok w l2 where esc: "escape_loop ?lab (if first then l else l - 1) = (ok, w, l2)"
      by (metis prod_cases3)
    show ?thesis
    proof (cases "ok \<and> idx + 1 + ?n \<le> psize p \<and> ?n + 1 \<le> l")
      case False
      with consume_loop_label [OF 3(1) refl 3(2,3) refl] esc show ?thesis by auto
    next
      case True
      then have lab: "?lab \<noteq> []" "length ?lab = ?n" using 3 by auto
      from True esc have w: "w = escape ?lab" by (simp add: escape_loop_ok)
      from True 3 have "0 < (if first then l else l - 1)" by auto
      with esc w escape_loop_room have room: "length (escape ?lab) + l2 = (if first then l else l - 1)" "0 < l2"
        by blast+
      show ?thesis
        using loop_safe_label [OF _ lab(1) _ room] Suc.IH [OF room(2)] lab(2) 3 True esc w
          consume_loop_label [OF 3(1) refl 3(2,3) refl]
        by auto
    qed
  next
    case 4
    show ?thesis
      using Suc.IH [OF Suc.prems, of "label_ptr ?c (pdata p ! (idx + 1))" "if cmpr then ret else ret + 2" True first out] 4
      unfolding consume_loop_pointer [OF 4] Let_def by (fastforce simp: loop_safe_def)
  qed (simp_all add: consume_loop_end)
qed simp


section \<open>Names read from a packet, normalised\<close>

lemma cstring_escape: "cstring (escape l)"
proof (induction l)
  case (Cons c l)
  have "isdigit (0x30 + of_nat (unat c div 100))" "isdigit (0x30 + of_nat (unat c div 10 mod 10))"
    "isdigit (0x30 + of_nat (unat c mod 10))"
    by (auto intro!: isdigit_digit byte_hundreds)
  then have "cstring (escape_byte c)"
    by (auto simp: escape_byte_def decimal_escape_def is_proper_def dest: isdigit_not_special)
  with Cons show ?case by simp
qed simp

lemma cstring_render: "cstring (render ls)"
  by (induction ls rule: render.induct) (simp_all add: cstring_escape)

lemma normalize_loop_raw:
  "raw_labels ls \<Longrightarrow> length (dotted e ls) < sz \<Longrightarrow>
   normalize_loop (render ls) e w True sz =
   Ret (if \<forall>l \<in> set ls. is_label l then Some (w @ dotted e ls, True) else None)"
proof (induction ls arbitrary: e w sz)
  case Nil
  then show ?case by (simp add: normalize_loop.simps)
next
  case (Cons l ls)
  have tail: "label_tail (if ls = [] then [] else DOT # render ls) (render ls)"
    by (simp add: label_tail_def)
  have u: "avahi_unescape_label (render (l # ls)) AVAHI_LABEL_MAX = (if is_label l then Some (l, render ls) else None)"
    using Cons.prems(1) unescape_escape_raw [OF _ tail, of l]
    by (simp add: render_Cons AVAHI_LABEL_MAX_def del: render.simps)
  have ne: "render (l # ls) \<noteq> []"
    using Cons.prems(1) escape_nonempty by (simp add: render_Cons del: render.simps)
  show ?case
  proof (cases "is_label l")
    case False
    with u ne show ?thesis by (subst normalize_loop.simps) simp
  next
    case True
    let ?sz = "if e then sz else sz - 1"
    have len: "length (escape l) + length (dotted False ls) < ?sz"
      using Cons.prems(2) by (auto simp: dotted_Cons split: if_splits)
    then have esc: "avahi_escape_label l ?sz = Ret (True, escape l, ?sz - length (escape l))"
      by (auto simp: avahi_escape_label_def escape_loop_fits)
    from Cons.prems(2) have "\<not> (\<not> e \<and> sz < 1)" by (auto simp: dotted_Cons)
    with u ne esc True Cons.prems(1) have
      "normalize_loop (render (l # ls)) e w True sz =
       normalize_loop (render ls) False ((if e then w else w @ [DOT]) @ escape l) True (?sz - length (escape l))"
      by (subst normalize_loop.simps) (cases e; simp add: Let_def)
    also have "\<dots> = Ret (if \<forall>x \<in> set ls. is_label x
        then Some (((if e then w else w @ [DOT]) @ escape l) @ dotted False ls, True) else None)"
      using Cons.prems(1) len by (intro Cons.IH) simp_all
    finally show ?thesis using True by (simp add: dotted_Cons)
  qed
qed

lemma key_new_raw:
  assumes "raw_labels ls" "length (render ls) < AVAHI_DOMAIN_NAME_MAX"
  shows "avahi_key_new (render ls) class type =
    Ret (if \<forall>l \<in> set ls. is_label l then Some \<lparr>name = render ls, clazz = class, ktype = type\<rparr> else None)"
  using normalize_loop_raw [OF assms(1), of True AVAHI_DOMAIN_NAME_MAX "[]"] assms(2)
  by (auto simp: avahi_key_new_def avahi_normalize_name_strdup_def avahi_normalize_name_def dotted_def
      AVAHI_DOMAIN_NAME_MAX_def)

lemma raw_labels_label_list: "raw_labels ls \<Longrightarrow> \<forall>l \<in> set ls. is_label l \<Longrightarrow> label_list ls"
  by (auto simp: raw_labels_def label_list_def)

lemma key_ok_render: "label_list ls \<Longrightarrow> key_ok \<lparr>name = render ls, clazz = c, ktype = t\<rparr>"
  by (simp add: key_ok_def name_ok_def cstring_render domain_labels_render)

section \<open>Safe consumers\<close>

text \<open>
  What every consumer guarantees: it does not crash, changes nothing but the read pointer,
  which moves forward and stays in the packet, and what it returns satisfies \<open>Q\<close>.
\<close>

definition consumes :: "dns_packet \<Rightarrow> (dns_packet \<times> 'a option) res \<Rightarrow> ('a \<Rightarrow> bool) \<Rightarrow> bool" where
  "consumes p m Q \<longleftrightarrow>
     (\<exists>i r. m = Ret (p\<lparr>rindex := i\<rparr>, r) \<and> rindex p \<le> i \<and> (rindex p \<le> psize p \<longrightarrow> i \<le> psize p) \<and>
       (\<forall>x. r = Some x \<longrightarrow> i \<le> psize p \<and> Q x))"

lemma consumes_None: "consumes p (Ret (p, None)) Q"
  by (auto simp: consumes_def intro: exI [of _ "rindex p"])

lemma consumes_Some: "rindex p \<le> psize p \<Longrightarrow> Q x \<Longrightarrow> consumes p (Ret (p, Some x)) Q"
  by (auto simp: consumes_def intro: exI [of _ "rindex p"])

lemma consumes_and_then:
  assumes "consumes p m Q"
    and "\<And>i x. rindex p \<le> i \<Longrightarrow> i \<le> psize p \<Longrightarrow> Q x \<Longrightarrow> consumes (p\<lparr>rindex := i\<rparr>) (f (p\<lparr>rindex := i\<rparr>) x) R"
  shows "consumes p (and_then m f) R"
proof -
  from assms(1) obtain i r where m: "m = Ret (p\<lparr>rindex := i\<rparr>, r)" "rindex p \<le> i"
    "rindex p \<le> psize p \<longrightarrow> i \<le> psize p" "\<forall>x. r = Some x \<longrightarrow> i \<le> psize p \<and> Q x"
    by (auto simp: consumes_def)
  show ?thesis
  proof (cases r)
    case None
    with m show ?thesis by (auto simp: consumes_def and_then_def)
  next
    case (Some x)
    with m have i: "i \<le> psize p" "Q x" by auto
    from assms(2) [OF m(2) i] obtain j s where
      "f (p\<lparr>rindex := i\<rparr>) x = Ret (p\<lparr>rindex := j\<rparr>, s)" "i \<le> j" "j \<le> psize p" "\<forall>y. s = Some y \<longrightarrow> R y"
      using i by (auto simp: consumes_def)
    with m Some show ?thesis by (auto simp: consumes_def and_then_def)
  qed
qed

lemma consumes_weaken: "consumes p m Q \<Longrightarrow> (\<And>x. Q x \<Longrightarrow> R x) \<Longrightarrow> consumes p m R"
  by (auto simp: consumes_def)

definition raw_name :: "nat \<Rightarrow> byte list \<Rightarrow> bool" where
  "raw_name l nm \<longleftrightarrow> (\<exists>ls. nm = render ls \<and> raw_labels ls) \<and> length nm < l"

lemma consume_name_consumes: "0 < l \<Longrightarrow> consumes p (avahi_dns_packet_consume_name p l) (raw_name l)"
proof -
  assume l: "0 < l"
  from consume_loop_safe [OF l, of p "rindex p" 0 False True "[]" AVAHI_DNS_LABELS_MAX]
  obtain r where r: "consume_labels p (rindex p) l = Ret r"
    "\<And>n o'. r = Some (n, o') \<Longrightarrow> rindex p + n \<le> psize p \<and> (\<exists>ls. o' = dotted True ls \<and> raw_labels ls \<and> length (dotted True ls) < l)"
    using l by (auto simp: loop_safe_def consume_labels_def)
  show ?thesis
  proof (cases r)
    case None
    with r show ?thesis by (simp add: avahi_dns_packet_consume_name_def consumes_None)
  next
    case (Some x)
    obtain n o' where "x = (n, o')" by fastforce
    with Some r show ?thesis
      by (auto simp: avahi_dns_packet_consume_name_def consumes_def raw_name_def dotted_def)
  qed
qed

lemma consume_uint16_consumes: "consumes p (avahi_dns_packet_consume_uint16 p) (\<lambda>_. True)"
  by (auto simp: consumes_def avahi_dns_packet_consume_uint16_def intro: exI [of _ "rindex p"])

lemma consume_uint32_consumes: "consumes p (avahi_dns_packet_consume_uint32 p) (\<lambda>_. True)"
  by (auto simp: consumes_def avahi_dns_packet_consume_uint32_def intro: exI [of _ "rindex p"])

lemma consume_bytes_consumes:
  "0 < l \<Longrightarrow> consumes p (avahi_dns_packet_consume_bytes p l) (\<lambda>b. length b = l)"
  by (auto simp: consumes_def avahi_dns_packet_consume_bytes_def intro: exI [of _ "rindex p"])

lemma consume_string_consumes:
  "0 < l \<Longrightarrow> consumes p (avahi_dns_packet_consume_string p l) (\<lambda>_. True)"
  by (auto simp: consumes_def avahi_dns_packet_consume_string_def Let_def intro: exI [of _ "rindex p"])

lemma skip_consumes: "consumes p (Ret (avahi_dns_packet_skip p n)) (\<lambda>_. True)"
  by (auto simp: consumes_def avahi_dns_packet_skip_def intro: exI [of _ "rindex p"])

lemmas consumer_rules = consumes_and_then consumes_None consume_name_consumes consume_uint16_consumes
  consume_uint32_consumes consume_bytes_consumes consume_string_consumes skip_consumes

section \<open>Keys and records\<close>

lemma consume_key_consumes:
  "consumes p (avahi_dns_packet_consume_key p)
     (\<lambda>(k, u). key_ok k \<and> avahi_key_is_valid k \<and> clazz k AND AVAHI_DNS_UNICAST_RESPONSE = 0)"
proof -
  have clear: "(c AND NOT AVAHI_DNS_UNICAST_RESPONSE) AND AVAHI_DNS_UNICAST_RESPONSE = 0" for c
    by (simp add: and.assoc)
  have last: "consumes q (case avahi_key_new nm (c AND NOT AVAHI_DNS_UNICAST_RESPONSE) t of
        Crash \<Rightarrow> Crash
      | Ret None \<Rightarrow> Ret (q, None)
      | Ret (Some k) \<Rightarrow> if \<not> avahi_key_is_valid k then Ret (q, None) else Ret (q, Some (k, u)))
     (\<lambda>(k, u). key_ok k \<and> avahi_key_is_valid k \<and> clazz k AND AVAHI_DNS_UNICAST_RESPONSE = 0)"
    if "raw_name 256 nm" "rindex q \<le> psize q" for q nm c t u
  proof -
    from that(1) obtain ls where ls: "nm = render ls" "raw_labels ls" "length (render ls) < AVAHI_DOMAIN_NAME_MAX"
      by (auto simp: raw_name_def AVAHI_DOMAIN_NAME_MAX_def)
    with that(2) show ?thesis
      by (auto simp: key_new_raw key_ok_render raw_labels_label_list clear intro!: consumes_None consumes_Some)
  qed
  show ?thesis
    unfolding avahi_dns_packet_consume_key_def Let_def
    by (rule consumer_rules last | simp)+
qed










section \<open>Properties\<close>


definition hostile_packet :: dns_packet where
  "hostile_packet =
     \<lparr>pdata = replicate 12 0 @ [1, 0x61, 0xC0, 12, 0, 1, 0, 1, 0, 0, 0, 120, 0, 4, 1, 2, 3, 4],
      rindex = 12, max_size = 100, res_size = 0, name_table = None\<rparr>"


text \<open>
  Parsing a question is safe for every packet in the same way, although its name
  buffer has 256 bytes only; a key it returns is valid and does not carry the bit that asks
  for a unicast response.
\<close>

theorem consume_key_safe:
  "\<exists>i r. avahi_dns_packet_consume_key p = Ret (p\<lparr>rindex := i\<rparr>, r) \<and> rindex p \<le> i \<and>
     (rindex p \<le> psize p \<longrightarrow> i \<le> psize p) \<and>
     (\<forall>k unicast. r = Some (k, unicast) \<longrightarrow>
        i \<le> psize p \<and> key_ok k \<and> avahi_key_is_valid k \<and> clazz k AND AVAHI_DNS_UNICAST_RESPONSE = 0)"
  using consume_key_consumes [of p] by (fastforce simp: consumes_def)

lemma consume_key_safe_witness:
  "\<exists>i r. avahi_dns_packet_consume_key hostile_packet = Ret (hostile_packet\<lparr>rindex := i\<rparr>, r) \<and>
     rindex hostile_packet \<le> i"
  using consume_key_safe [of hostile_packet] by blast

end
