(* ===== verification/Dns_Wire.thy ===== *)
theory Dns_Wire
  imports Dns_Append Dns_Consume
begin

text \<open>
  What is appended to a packet is what is read from it. \<open>wire_name\<close> is the meaning of a name
  in a packet (RFC 1035, 4.1.4); the lemmas show that \<open>append_name\<close> writes such names, using
  the name table for compression, and that \<open>consume_labels\<close> reads them; keys, records and
  whole packets follow.
\<close>

section \<open>Names in a packet\<close>

text \<open>
  \<open>wire_name d i ls e\<close>: the bytes of \<open>d\<close> from \<open>i\<close> to \<open>e\<close> spell the labels \<open>ls\<close>. A pointer leads to
  an earlier label, not to another pointer, behind the header.
\<close>

inductive wire_name :: "byte list \<Rightarrow> nat \<Rightarrow> byte list list \<Rightarrow> nat \<Rightarrow> bool" where
  wire_end: "i < length d \<Longrightarrow> d ! i = 0 \<Longrightarrow> wire_name d i [] (i + 1)"
| wire_label: "i + 1 + length l \<le> length d \<Longrightarrow> d ! i = of_nat (length l) \<Longrightarrow> l \<noteq> [] \<Longrightarrow> length l \<le> 63 \<Longrightarrow>
    take (length l) (drop (i + 1) d) = l \<Longrightarrow> wire_name d (i + 1 + length l) ls e \<Longrightarrow>
    wire_name d i (l # ls) e"
| wire_pointer: "i + 2 \<le> length d \<Longrightarrow> take 2 (drop i d) = pointer_bytes j \<Longrightarrow> 12 \<le> j \<Longrightarrow> j < i \<Longrightarrow> j < 0x4000 \<Longrightarrow>
    unat (d ! j) \<le> 63 \<Longrightarrow> ls \<noteq> [] \<Longrightarrow> wire_name d j ls e \<Longrightarrow> wire_name d i ls (i + 2)"

lemma wire_name_end: "wire_name d i ls e \<Longrightarrow> i < e \<and> e \<le> length d"
  by (induction rule: wire_name.induct) auto

lemma wire_name_append: "wire_name d i ls e \<Longrightarrow> wire_name (d @ x) i ls e"
proof (induction rule: wire_name.induct)
  case (wire_end i d)
  then show ?case by (intro wire_name.wire_end) (simp_all add: nth_append)
next
  case (wire_label i l d ls e)
  then show ?case by (intro wire_name.wire_label) (simp_all add: nth_append)
next
  case (wire_pointer i d j ls e)
  then show ?case by (intro wire_name.wire_pointer [where j = j]) (simp_all add: nth_append)
qed

text \<open>The bytes of a pointer, and what the reader makes of them.\<close>

lemma pointer_byte_facts:
  "\<forall>h < 64. unat (of_nat (192 + h) :: byte) = 192 + h \<and> (of_nat (192 + h) :: byte) AND 0xC0 = 0xC0 \<and>
     (of_nat (192 + h) :: byte) AND NOT 0xC0 = of_nat h"
  by code_simp

lemma pointer_number:
  assumes "h < 64"
  shows "unat (push_bit 8 (ucast (of_nat h :: byte) :: u32) OR ucast (of_nat k :: byte)) = 256 * h + k mod 256"
proof -
  have "(push_bit 8 (ucast (of_nat h :: byte) :: u32)) AND ucast (of_nat k :: byte) = 0"
    by (rule bit_word_eqI) (auto simp: bit_simps)
  then have "push_bit 8 (ucast (of_nat h :: byte) :: u32) OR ucast (of_nat k :: byte) =
      push_bit 8 (ucast (of_nat h :: byte)) + ucast (of_nat k :: byte)"
    by (simp add: disjunctive_add_eq_or)
  also have "\<dots> = of_nat (256 * h + k mod 256)"
    using assms by (simp add: push_bit_eq_mult unsigned_of_nat take_bit_eq_mod)
  also have "unat \<dots> = 256 * h + k mod 256"
  proof -
    have "k mod 256 < 256" by simp
    then have "256 * h + k mod 256 < 2 ^ 32" using assms by simp
    then show ?thesis by (intro of_nat_inverse) (simp_all del: of_nat_add of_nat_mult)
  qed
  finally show ?thesis .
qed

lemma label_ptr_pointer:
  assumes "i + 2 \<le> psize p" "take 2 (drop i (pdata p)) = pointer_bytes j" "j < 0x4000"
  shows "label_ptr (pdata p ! i) (pdata p ! (i + 1)) = j \<and> 63 < unat (pdata p ! i) \<and> pdata p ! i AND 0xC0 = 0xC0"
proof -
  have h: "j div 256 < 64" using assms(3) by simp
  have "pdata p ! i = pointer_bytes j ! 0" "pdata p ! (i + 1) = pointer_bytes j ! 1"
    using assms(1) by (simp_all flip: assms(2))
  moreover have "(0xC000 + j) div 256 = 192 + j div 256"
    using div_mult_self1 [of "256 :: nat" j 192] by (simp add: add.commute)
  ultimately have b: "pdata p ! i = of_nat (192 + j div 256)" "pdata p ! (i + 1) = of_nat j"
    by (simp_all add: pointer_bytes_def)
  have "256 * (j div 256) + j mod 256 = j" by simp
  with b h pointer_number [OF h, of j] pointer_byte_facts [rule_format, OF h] show ?thesis
    by (simp add: label_ptr_def)
qed

section \<open>Reading names\<close>

lemma length_escape_ge: "length l \<le> length (escape l)"
proof (induction l)
  case (Cons c l)
  moreover have "1 \<le> length (escape_byte c)" using length_escape_byte(2) [of c] by linarith
  ultimately show ?case by simp
qed simp

text \<open>Rounds of the loop: one for each label and the end, one for each pointer.\<close>

lemma consume_wire_name:
  assumes "wire_name (pdata p) i ls e" "length (dotted first ls) < l"
    and "2 * length ls + (if ls \<noteq> [] \<and> unat (pdata p ! i) \<le> 63 then 0 else 1) \<le> n"
  shows "consume_labels_loop n p i ret cmpr first out l =
    Ret (Some (if cmpr then ret else ret + (e - i), out @ dotted first ls))"
  using assms
proof (induction "pdata p" i ls e arbitrary: n ret cmpr first out l rule: wire_name.induct)
  case (wire_end i)
  then obtain m where "n = Suc m" by (cases n) auto
  with wire_end show ?case by (simp add: consume_loop_end)
next
  case (wire_label i l' ls e)
  from wire_label.hyps(2,4) have c: "unat (pdata p ! i) = length l'" by (simp add: unat_of_nat)
  with wire_label.prems wire_label.hyps(4) obtain m where n: "n = Suc m" by (cases n) auto
  from wire_label.prems(1) have esc: "escape_loop l' (if first then l else l - 1) =
      (True, escape l', (if first then l else l - 1) - length (escape l'))"
    by (intro escape_loop_fits) (auto simp: dotted_Cons split: if_splits)
  have len: "length l' \<le> length (escape l')" by (rule length_escape_ge)
  have room: "\<not> l < length l' + 1"
    using wire_label.prems(1) len by (auto simp: dotted_Cons split: if_splits)
  have "consume_labels_loop n p i ret cmpr first out l =
      consume_labels_loop m p (i + 1 + length l') (if cmpr then ret else ret + 1 + length l') cmpr False
        ((if first then out else out @ [DOT]) @ escape l') ((if first then l else l - 1) - length (escape l'))"
    using wire_label.hyps c n esc room
    by (simp add: consume_loop_label [where n = "length l'" and lab = l'])
  also have "\<dots> = Ret (Some (if cmpr then ret else ret + 1 + length l' + (e - (i + 1 + length l')),
      ((if first then out else out @ [DOT]) @ escape l') @ dotted False ls))"
    using wire_label.prems n c wire_label.hyps(4) wire_label.hyps(7) [of False "(if first then l else l - 1) - length (escape l')" m]
    by (auto simp: dotted_Cons split: if_splits)
  finally show ?case
    using wire_name_end [OF wire_label.hyps(6)] by (auto simp: dotted_Cons)
next
  case (wire_pointer i j ls e)
  note ptr = label_ptr_pointer [OF wire_pointer.hyps(1,2,5)]
  from wire_pointer.prems ptr obtain m where n: "n = Suc m" by (cases n) auto
  have "consume_labels_loop n p i ret cmpr first out l =
      consume_labels_loop m p j (if cmpr then ret else ret + 2) True first out l"
    using ptr wire_pointer.hyps n by (simp add: consume_loop_pointer AVAHI_DNS_PACKET_HEADER_SIZE_def)
  also have "\<dots> = Ret (Some (if cmpr then ret else ret + 2, out @ dotted first ls))"
    using wire_pointer.prems wire_pointer.hyps ptr n by (subst wire_pointer.hyps(9)) auto
  finally show ?case by simp
qed

section \<open>Writing names\<close>

definition name_at :: "byte list \<Rightarrow> byte list \<Rightarrow> nat \<Rightarrow> bool" where
  "name_at d nm v \<longleftrightarrow> 12 \<le> v \<and> v < length d \<and> unat (d ! v) \<le> 63 \<and>
     (\<exists>ls e. nm = render ls \<and> ls \<noteq> [] \<and> label_list ls \<and> wire_name d v ls e)"

text \<open>The invariant of packets under construction: the table points to names that spell their keys.\<close>

definition table_ok :: "bool \<Rightarrow> dns_packet \<Rightarrow> bool" where
  "table_ok sc p \<longleftrightarrow> table_inv sc p \<and> 12 \<le> psize p \<and>
     (\<forall>nm v. table_lookup sc p nm = Some v \<longrightarrow> name_at (pdata p) nm v)"

lemma name_at_append: "name_at d nm v \<Longrightarrow> name_at (d @ x) nm v"
  by (auto simp: name_at_def nth_append intro: wire_name_append)

text \<open>
  While a name is being written, its own suffixes are in the table already, although the rest
  of the name is not there yet; only shorter names are looked up then.
\<close>

definition loop_pre :: "bool \<Rightarrow> dns_packet \<Rightarrow> byte list list \<Rightarrow> bool" where
  "loop_pre sc p ls \<longleftrightarrow> table_inv sc p \<and> 12 \<le> psize p \<and>
     (\<forall>nm v. table_lookup sc p nm = Some v \<longrightarrow>
        v < psize p \<and> (length nm \<le> length (render ls) \<longrightarrow> name_at (pdata p) nm v))"

definition name_room :: "byte list list \<Rightarrow> nat" where
  "name_room ls = (if ls = [] then 1 else length (render ls) + 2)"

definition same_frame :: "dns_packet \<Rightarrow> dns_packet \<Rightarrow> bool" where
  "same_frame p p' \<longleftrightarrow> rindex p' = rindex p \<and> max_size p' = max_size p \<and> res_size p' = res_size p"

definition loop_post :: "bool \<Rightarrow> dns_packet \<Rightarrow> byte list list \<Rightarrow> dns_packet \<Rightarrow> name_end \<Rightarrow> bool" where
  "loop_post sc p ls p' e \<longleftrightarrow>
     same_frame p p' \<and>
     (\<exists>bs. pdata p' = pdata p @ bs \<and> length bs \<le> name_room ls) \<and>
     table_inv sc p' \<and>
     (psize p + name_room ls \<le> max_size p \<longrightarrow> e = Name_done) \<and>
     (psize p \<le> max_size p \<longrightarrow> psize p' \<le> max_size p) \<and>
     (\<forall>nm v. table_lookup sc p nm = Some v \<longrightarrow> table_lookup sc p' nm = Some v) \<and>
     (\<forall>nm v. table_lookup sc p' nm = Some v \<longrightarrow> table_lookup sc p nm = Some v \<or> psize p \<le> v \<and> v < psize p') \<and>
     (e = Name_done \<longrightarrow> wire_name (pdata p') (psize p) ls (psize p') \<and>
        (\<forall>nm v. table_lookup sc p' nm = Some v \<longrightarrow> table_lookup sc p nm = Some v \<or> name_at (pdata p') nm v))"

lemma loop_post_raw:
  assumes "loop_pre sc p ls" "length b \<le> name_room ls"
    and "wire_name (pdata p @ b) (psize p) ls (psize p + length b)"
  shows "loop_post sc p ls (p\<lparr>pdata := pdata p @ b\<rparr>) Name_done \<or> max_size p < psize p + length b"
    and "max_size p < psize p + length b \<Longrightarrow> e \<noteq> Name_done \<Longrightarrow> loop_post sc p ls p e"
  using assms unfolding loop_post_def loop_pre_def same_frame_def by auto

lemma length_render_Cons: "length (render (l # ls)) = length (escape l) + (if ls = [] then 0 else 1 + length (render ls))"
  by (simp add: render_Cons del: render.simps)

lemma name_room_Cons: "length l + 1 + name_room ls \<le> name_room (l # ls)"
  using length_escape_ge [of l] by (simp add: name_room_def length_render_Cons del: render.simps)

lemma label_string_bytes: "is_label l \<Longrightarrow> string_bytes l = of_nat (length l) # l \<and> length l \<le> 63"
  by (auto simp: is_label_def AVAHI_LABEL_MAX_def string_bytes)

text \<open>The label just written, given that the rest of the name follows it.\<close>

lemma wire_name_label:
  assumes "is_label l" "l \<noteq> []" "d = pre @ string_bytes l @ x" "wire_name d (length pre + 1 + length l) ls e"
  shows "wire_name d (length pre) (l # ls) e \<and> unat (d ! length pre) \<le> 63"
proof -
  from assms(1) have b: "string_bytes l = of_nat (length l) # l" "length l \<le> 63" by (simp_all add: label_string_bytes)
  with assms(3) have "d ! length pre = of_nat (length l)" "take (length l) (drop (length pre + 1) d) = l"
    by (simp_all add: nth_append)
  with assms b show ?thesis by (auto intro: wire_label simp: unat_of_nat)
qed

lemma loop_pre_label:
  assumes "loop_pre sc p (l # ls)" "label_list (l # ls)"
    and q: "q = table_insert sc (render (l # ls)) (psize p) (p\<lparr>pdata := pdata p @ string_bytes l\<rparr>)"
  shows "loop_pre sc q ls"
proof -
  have shorter: "length (render ls) < length (render (l # ls))"
    using length_escape_ge [of l] assms(2) by (cases "ls = []"; cases l) (auto simp: length_render_Cons)
  have "0 < length (string_bytes l)" by (simp add: string_bytes_def Let_def)
  moreover have "v < psize q \<and> (length nm \<le> length (render ls) \<longrightarrow> name_at (pdata q) nm v)"
    if "table_lookup sc q nm = Some v" for nm v
  proof (cases "table_lookup sc p nm = Some v")
    case True
    with assms(1) have "v < psize p" "length nm \<le> length (render (l # ls)) \<longrightarrow> name_at (pdata p) nm v"
      unfolding loop_pre_def by blast+
    with shorter show ?thesis by (auto simp: q name_at_append simp del: render.simps)
  next
    case False
    with that assms(1) have "nm = render (l # ls)" "v = psize p"
      by (auto simp: q table_lookup_insert loop_pre_def simp del: render.simps split: if_splits)
    with shorter \<open>0 < length (string_bytes l)\<close> show ?thesis by (simp add: q del: render.simps)
  qed
  ultimately show ?thesis
    using assms(1) by (auto simp: loop_pre_def q table_inv_insert)
qed

lemma loop_post_label:
  assumes pre: "loop_pre sc p (l # ls)" "label_list (l # ls)"
    and q: "q = table_insert sc (render (l # ls)) (psize p) (p\<lparr>pdata := pdata p @ string_bytes l\<rparr>)"
    and post: "loop_post sc q ls p' e"
    and fits: "psize p + length (string_bytes l) \<le> max_size p"
  shows "loop_post sc p (l # ls) p' e"
proof -
  have l: "string_bytes l = of_nat (length l) # l" "length l \<le> 63" "is_label l" "l \<noteq> []"
    using assms(2) label_string_bytes by auto
  have q': "pdata q = pdata p @ string_bytes l" "max_size q = max_size p" by (simp_all add: q)
  have lookup_q: "table_lookup sc q nm =
      (if nm = render (l # ls) \<and> table_lookup sc p nm = None then Some (psize p) else table_lookup sc p nm)" for nm
    using pre(1) by (auto simp: q loop_pre_def table_lookup_insert simp del: render.simps)
  from post obtain bs where bs: "pdata p' = pdata q @ bs" "length bs \<le> name_room ls"
    by (auto simp: loop_post_def)
  have frame: "same_frame p p'" using post by (simp add: loop_post_def same_frame_def q)
  have len: "length (string_bytes l @ bs) \<le> name_room (l # ls)"
    using bs(2) l(1) name_room_Cons [of l ls] by simp
  from post have keep: "\<And>nm v. table_lookup sc q nm = Some v \<Longrightarrow> table_lookup sc p' nm = Some v"
    and orig: "\<And>nm v. table_lookup sc p' nm = Some v \<Longrightarrow> table_lookup sc q nm = Some v \<or> psize q \<le> v \<and> v < psize p'"
    and orig_at: "\<And>nm v. e = Name_done \<Longrightarrow> table_lookup sc p' nm = Some v \<Longrightarrow>
      table_lookup sc q nm = Some v \<or> name_at (pdata p') nm v"
    unfolding loop_post_def by blast+
  have old: "table_lookup sc p' nm = Some v" if "table_lookup sc p nm = Some v" for nm v
    using that by (intro keep) (simp add: lookup_q)
  have inserted: "table_lookup sc q nm = Some v \<Longrightarrow> table_lookup sc p nm = Some v \<or> nm = render (l # ls) \<and> v = psize p" for nm v
    unfolding lookup_q by (auto split: if_splits simp del: render.simps)
  have named: "wire_name (pdata p') (psize p) (l # ls) (psize p') \<and> name_at (pdata p') (render (l # ls)) (psize p)"
    if "e = Name_done"
  proof -
    from that post have "wire_name (pdata p') (psize q) ls (psize p')" by (simp add: loop_post_def)
    then have "wire_name (pdata p') (psize p) (l # ls) (psize p') \<and> unat (pdata p' ! psize p) \<le> 63"
      using wire_name_label [OF l(3,4), of "pdata p'" "pdata p" bs] bs q' l(1) by simp
    then show ?thesis
      using pre bs q' l(1) by (auto simp: name_at_def loop_pre_def simp del: render.simps)
  qed
  have "table_lookup sc p nm = Some v \<or> name_at (pdata p') nm v"
    if "e = Name_done" "table_lookup sc p' nm = Some v" for nm v
    using orig_at [OF that] inserted [of nm v] named that(1) by auto
  moreover have "table_lookup sc p nm = Some v \<or> psize p \<le> v \<and> v < psize p'"
    if "table_lookup sc p' nm = Some v" for nm v
    using orig [OF that] inserted [of nm v] bs q' l(1) by auto
  moreover have "e = Name_done" if "psize p + name_room (l # ls) \<le> max_size p"
    using post that name_room_Cons [of l ls] l(1) q' by (simp add: loop_post_def)
  moreover have "psize p' \<le> max_size p" using post q' fits by (simp add: loop_post_def)
  moreover have "table_inv sc p'" using post by (simp add: loop_post_def)
  ultimately show ?thesis
    unfolding loop_post_def
    using frame len bs q' old named by (intro conjI) (simp_all del: render.simps)
qed

lemma render_inject: "label_list ls \<Longrightarrow> label_list ks \<Longrightarrow> render ls = render ks \<Longrightarrow> ls = ks"
  by (metis labels_render option.inject)

lemma append_loop_correct:
  "loop_pre sc p ls \<Longrightarrow> label_list ls \<Longrightarrow>
   \<exists>p' e. append_name_loop sc p (render ls) = Ret (p', e) \<and> loop_post sc p ls p' e"
proof (induction ls arbitrary: p)
  case Nil
  have w: "wire_name (pdata p @ [0]) (psize p) [] (psize p + length [0 :: byte])"
    using wire_end [of "psize p" "pdata p @ [0]"] by simp
  note post = loop_post_raw [OF Nil.prems(1) _ w]
  show ?case
    using post by (auto simp: append_loop_Nil name_room_def)
next
  case (Cons l ls)
  let ?nm = "render (l # ls)"
  have ne: "?nm \<noteq> []" using Cons.prems(2) escape_nonempty by (simp add: render_Cons del: render.simps)
  from Cons.prems(2) have u: "avahi_unescape_label ?nm 64 = Some (l, render ls)"
    using unescape_is_label [of l "if ls = [] then [] else DOT # render ls" "render ls"]
    by (cases "ls = []") (simp_all add: render_Cons label_tail_def AVAHI_LABEL_MAX_def)
  show ?case
  proof (cases rule: append_loop_cases [where nm = ?nm and sc = sc and p = p])
    case nil
    with ne show ?thesis by simp
  next
    case (crash idx)
    with Cons.prems(1) show ?thesis by (fastforce simp: loop_pre_def)
  next
    case (pointer idx)
    with Cons.prems(1) have at: "name_at (pdata p) ?nm idx" by (fastforce simp: loop_pre_def)
    then obtain ks e where ks: "?nm = render ks" "label_list ks" "wire_name (pdata p) idx ks e"
      and idx: "12 \<le> idx" "unat (pdata p ! idx) \<le> 63"
      unfolding name_at_def by blast
    with Cons.prems(2) have "ks = l # ls" using render_inject by blast
    with ks have "wire_name (pdata p @ pointer_bytes idx) idx (l # ls) e" by (simp add: wire_name_append)
    with pointer idx have w: "wire_name (pdata p @ pointer_bytes idx) (psize p) (l # ls) (psize p + length (pointer_bytes idx))"
      using wire_pointer [of "psize p" "pdata p @ pointer_bytes idx" idx "l # ls" e]
      by (simp add: nth_append)
    note post = loop_post_raw [OF Cons.prems(1) _ w]
    show ?thesis
      using post pointer by (auto simp: append_loop_pointer name_room_def simp del: render.simps)
  next
    case invalid
    with u show ?thesis by simp
  next
    case (label l' rest)
    with u have eq: "l' = l" "rest = render ls" by simp_all
    let ?q = "table_insert sc ?nm (psize p) (p\<lparr>pdata := pdata p @ string_bytes l\<rparr>)"
    show ?thesis
    proof (cases "psize p + length (string_bytes l) \<le> max_size p")
      case True
      have "loop_pre sc ?q ls" using Cons.prems refl by (rule loop_pre_label)
      with Cons.IH Cons.prems(2) obtain p' e where
        p': "append_name_loop sc ?q (render ls) = Ret (p', e)" "loop_post sc ?q ls p' e" by fastforce
      with loop_post_label [OF Cons.prems refl p'(2) True] label eq True show ?thesis
        by (simp add: append_loop_label u del: render.simps)
    next
      case False
      have "length (string_bytes l) \<le> name_room (l # ls)"
        using label_string_bytes [of l] name_room_Cons [of l ls] Cons.prems(2) by auto
      with False have "loop_post sc p (l # ls) p Name_fail"
        using Cons.prems(1) by (auto simp: loop_post_def loop_pre_def same_frame_def)
      with False label eq show ?thesis by (auto simp: append_loop_label u simp del: render.simps)
    qed
  qed
qed

text \<open>What \<open>append_name\<close> does to a packet that satisfies the invariant.\<close>

lemma loop_preI: "table_ok sc p \<Longrightarrow> loop_pre sc p ls"
  by (auto simp: table_ok_def loop_pre_def name_at_def)

lemma table_ok_done: "table_ok sc p \<Longrightarrow> loop_post sc p ls p' Name_done \<Longrightarrow> table_ok sc p'"
proof -
  assume a: "table_ok sc p" "loop_post sc p ls p' Name_done"
  then obtain bs where bs: "pdata p' = pdata p @ bs" by (auto simp: loop_post_def)
  have "name_at (pdata p') nm v" if "table_lookup sc p' nm = Some v" for nm v
  proof -
    from a(2) that have "table_lookup sc p nm = Some v \<or> name_at (pdata p') nm v"
      unfolding loop_post_def by blast
    with a(1) show ?thesis unfolding table_ok_def bs by (auto intro: name_at_append)
  qed
  with a bs show ?thesis by (auto simp: table_ok_def loop_post_def)
qed

text \<open>Taking back what was appended, as the code does on failure.\<close>

lemma table_lookup_below: "table_ok sc p \<Longrightarrow> table_lookup sc p nm = Some v \<Longrightarrow> v < psize p"
  by (auto simp: table_ok_def name_at_def)

definition undone :: "bool \<Rightarrow> dns_packet \<Rightarrow> dns_packet \<Rightarrow> bool" where
  "undone sc p p' \<longleftrightarrow> table_ok sc p' \<and> pdata p' = pdata p \<and> rindex p' = rindex p \<and>
     max_size p' = max_size p \<and> res_size p' = res_size p \<and>
     (\<forall>nm. table_lookup sc p' nm = table_lookup sc p nm)"

text \<open>
  \<open>grown\<close> relates a packet to one some appends later: bytes have been added, entries of the
  table have been added, all of them for what was added.
\<close>

definition grown :: "bool \<Rightarrow> dns_packet \<Rightarrow> dns_packet \<Rightarrow> bool" where
  "grown sc p p' \<longleftrightarrow> same_frame p p' \<and>
     (\<exists>bs. pdata p' = pdata p @ bs) \<and> table_inv sc p' \<and>
     (psize p \<le> max_size p \<longrightarrow> psize p' \<le> max_size p) \<and>
     (\<forall>nm v. table_lookup sc p nm = Some v \<longrightarrow> table_lookup sc p' nm = Some v) \<and>
     (\<forall>nm v. table_lookup sc p' nm = Some v \<longrightarrow> table_lookup sc p nm = Some v \<or> psize p \<le> v \<and> v < psize p')"

lemma loop_post_grown: "loop_post sc p ls p' e \<Longrightarrow> grown sc p p'"
  unfolding loop_post_def grown_def by auto

lemma grown_trans:
  assumes "grown sc p q" "grown sc q r"
  shows "grown sc p r"
  using assms unfolding grown_def same_frame_def by fastforce

end
