(* ===== verification/Dns_Records.thy ===== *)
theory Dns_Records
  imports Dns_Wire
begin

text \<open>
  Keys and records in packets: the format in which \<open>append_key\<close> and \<open>append_record\<close> write
  them, that a failed append leaves no trace, how much room an append needs, and that
  consuming gives back what was appended, for whole packets of records.
\<close>

section \<open>Appending one thing after the other\<close>

text \<open>
  \<open>adds\<close>: an append operation on a good packet does not crash, needs at most \<open>n\<close> bytes of room,
  and leaves a good packet whose bytes satisfy \<open>Q\<close> when it succeeds.
\<close>

definition adds :: "bool \<Rightarrow> dns_packet \<Rightarrow> (dns_packet \<times> 'a) res \<Rightarrow> ('a \<Rightarrow> bool) \<Rightarrow> nat \<Rightarrow> (byte list \<Rightarrow> bool) \<Rightarrow> bool" where
  "adds sc p m ok n Q \<longleftrightarrow>
     (\<exists>p' r. m = Ret (p', r) \<and> grown sc p p' \<and> psize p' \<le> psize p + n \<and>
       (psize p + n \<le> max_size p \<longrightarrow> ok r) \<and> (ok r \<longrightarrow> table_ok sc p' \<and> Q (pdata p')))"

definition is_Some :: "'a option \<Rightarrow> bool" where
  "is_Some x \<longleftrightarrow> x \<noteq> None"

lemma is_Some_simps [simp]: "is_Some (Some x)" "\<not> is_Some None"
  by (simp_all add: is_Some_def)

text \<open>A packet that appends may start from.\<close>

definition packet_ok :: "bool \<Rightarrow> dns_packet \<Rightarrow> bool" where
  "packet_ok sc p \<longleftrightarrow> table_ok sc p \<and> psize p \<le> max_size p"

lemma packet_ok_grown: "packet_ok sc p \<Longrightarrow> grown sc p q \<Longrightarrow> table_ok sc q \<Longrightarrow> packet_ok sc q"
  by (auto simp: packet_ok_def grown_def same_frame_def)

lemma table_ok_raw: "table_ok sc p \<Longrightarrow> table_ok sc (p\<lparr>pdata := pdata p @ b\<rparr>)"
  by (auto simp: table_ok_def intro: name_at_append)

lemma grown_raw: "table_ok sc p \<Longrightarrow> psize p + length b \<le> max_size p \<Longrightarrow> grown sc p (p\<lparr>pdata := pdata p @ b\<rparr>)"
  by (auto simp: grown_def same_frame_def table_ok_def)

lemma grown_refl: "table_ok sc p \<Longrightarrow> grown sc p p"
  by (auto simp: grown_def same_frame_def table_ok_def)

lemma adds_raw:
  "table_ok sc p \<Longrightarrow> adds sc p (Ret (append_raw p b)) is_Some (length b) (\<lambda>d. d = pdata p @ b)"
  by (auto simp: adds_def append_raw table_ok_raw grown_raw grown_refl)

lemma adds_done: "table_ok sc p \<Longrightarrow> adds sc p (Ret (p, True)) (\<lambda>b. b) 0 (\<lambda>d. d = pdata p)"
  by (auto simp: adds_def grown_refl)

lemma adds_weaken: "adds sc p m ok n Q \<Longrightarrow> n \<le> k \<Longrightarrow> (\<And>d. Q d \<Longrightarrow> R d) \<Longrightarrow> adds sc p m ok k R"
  by (fastforce simp: adds_def)

lemma adds_Cons:
  assumes "packet_ok sc p" "adds sc p (f p) is_Some n Q"
    and "\<And>q. packet_ok sc q \<Longrightarrow> grown sc p q \<Longrightarrow> Q (pdata q) \<Longrightarrow> adds sc q (append_all q fs) (\<lambda>b. b) k R"
  shows "adds sc p (append_all p (f # fs)) (\<lambda>b. b) (n + k) R"
proof -
  from assms(2) obtain q r where q: "f p = Ret (q, r)" "grown sc p q" "psize q \<le> psize p + n"
    "psize p + n \<le> max_size p \<longrightarrow> is_Some r" "is_Some r \<longrightarrow> table_ok sc q \<and> Q (pdata q)"
    by (auto simp: adds_def)
  show ?thesis
  proof (cases r)
    case None
    with q show ?thesis by (auto simp: adds_def)
  next
    case (Some x)
    with q assms(1) have "packet_ok sc q" "Q (pdata q)" by (auto intro: packet_ok_grown)
    with assms(3) q(2) have "adds sc q (append_all q fs) (\<lambda>b. b) k R" by blast
    then obtain s ok where s: "append_all q fs = Ret (s, ok)" "grown sc q s" "psize s \<le> psize q + k"
      "psize q + k \<le> max_size q \<longrightarrow> ok" "ok \<longrightarrow> table_ok sc s \<and> R (pdata s)"
      by (auto simp: adds_def)
    moreover have "max_size q = max_size p" using q(2) by (simp add: grown_def same_frame_def)
    ultimately show ?thesis
      using q Some grown_trans [OF q(2) s(2)] by (auto simp: adds_def)
  qed
qed

lemma adds_one:
  assumes "packet_ok sc p" "adds sc p (f p) is_Some n Q"
  shows "adds sc p (append_all p [f]) (\<lambda>b. b) n Q"
proof -
  have "adds sc p (append_all p [f]) (\<lambda>b. b) (n + 0) Q"
    using assms by (rule adds_Cons) (auto simp: packet_ok_def intro!: adds_weaken [OF adds_done])
  then show ?thesis by simp
qed

text \<open>Undoing a failed append.\<close>

lemma cleanup_undone:
  assumes "table_ok sc p" "grown sc p q"
  shows "undone sc p (avahi_dns_packet_cleanup_name_table sc (set_size (psize p) q))"
proof -
  let ?r = "avahi_dns_packet_cleanup_name_table sc (set_size (psize p) q)"
  have d: "pdata (set_size (psize p) q) = pdata p"
    using assms(2) by (auto simp: grown_def set_size_def)
  have "table_lookup sc ?r nm = table_lookup sc p nm" for nm
  proof -
    have "psize (set_size (psize p) q) = psize p" by (simp add: d)
    then have "table_lookup sc ?r nm = (case table_lookup sc q nm of None \<Rightarrow> None | Some v \<Rightarrow> if psize p \<le> v then None else Some v)"
      using assms(2) unfolding grown_def by (simp only: table_lookup_cleanup table_update)
    then show ?thesis
      using assms table_lookup_below [OF assms(1), of nm]
      by (cases "table_lookup sc p nm") (fastforce simp: grown_def split: option.splits)+
  qed
  with d assms show ?thesis
    by (auto simp: undone_def table_ok_def grown_def same_frame_def set_size_def table_inv_cleanup)
qed

lemma adds_name:
  assumes "packet_ok sc p" "label_list ls"
  shows "adds sc p (avahi_dns_packet_append_name sc p (render ls)) is_Some (name_room ls)
    (\<lambda>d. (\<exists>bs. d = pdata p @ bs) \<and> wire_name d (psize p) ls (length d))"
proof -
  from assms have ok: "table_ok sc p" "psize p \<le> max_size p" by (simp_all add: packet_ok_def)
  obtain p' e where p': "append_name_loop sc p (render ls) = Ret (p', e)" "loop_post sc p ls p' e"
    using append_loop_correct [OF loop_preI [OF ok(1)] assms(2)] by blast
  note grown = loop_post_grown [OF p'(2)]
  have saved: "snd (avahi_dns_packet_extend p 0) = Some (psize p)"
    using ok(2) by (simp add: avahi_dns_packet_extend_def)
  have bound: "psize p' \<le> psize p + name_room ls" "psize p + name_room ls \<le> max_size p \<longrightarrow> e = Name_done"
    "e = Name_done \<longrightarrow> wire_name (pdata p') (psize p) ls (psize p')" "\<exists>bs. pdata p' = pdata p @ bs"
    using p'(2) by (auto simp: loop_post_def)
  show ?thesis
  proof (cases e)
    case Name_done
    with p' bound grown saved table_ok_done [OF ok(1)] show ?thesis
      by (auto simp: adds_def avahi_dns_packet_append_name_def Let_def)
  next
    case Name_fail
    let ?r = "avahi_dns_packet_cleanup_name_table sc (set_size (psize p) p')"
    from cleanup_undone [OF ok(1) grown] have "undone sc p ?r" .
    with ok have "grown sc p ?r" by (auto simp: undone_def grown_def same_frame_def table_ok_def)
    with Name_fail p' bound show ?thesis
      using \<open>undone sc p ?r\<close>
      by (auto simp: adds_def avahi_dns_packet_append_name_def Let_def undone_def)
  next
    case Name_null
    with p' bound grown show ?thesis
      by (auto simp: adds_def avahi_dns_packet_append_name_def Let_def)
  qed
qed

section \<open>Fixed-size fields\<close>

text \<open>\<open>bytes_at d i b\<close>: the bytes of \<open>d\<close> at \<open>i\<close> are \<open>b\<close>.\<close>

definition bytes_at :: "byte list \<Rightarrow> nat \<Rightarrow> byte list \<Rightarrow> bool" where
  "bytes_at d i b \<longleftrightarrow> i + length b \<le> length d \<and> take (length b) (drop i d) = b"

lemma bytes_at_append: "bytes_at d i b \<Longrightarrow> bytes_at (d @ x) i b"
  by (auto simp: bytes_at_def)

lemma bytes_at_end: "bytes_at (d @ b @ x) (length d) b"
  by (simp add: bytes_at_def)

lemma bytes_at_split: "bytes_at d i (a @ b) \<longleftrightarrow> bytes_at d i a \<and> bytes_at d (i + length a) b"
proof
  assume a: "bytes_at d i (a @ b)"
  then have "take (length a + length b) (drop i d) = a @ b" by (simp add: bytes_at_def)
  then have "take (length a) (drop i d) @ take (length b) (drop (i + length a) d) = a @ b"
    by (simp add: take_add add.commute)
  moreover have "length (take (length a) (drop i d)) = length a" using a by (auto simp: bytes_at_def min_def)
  ultimately show "bytes_at d i a \<and> bytes_at d (i + length a) b"
    using a by (simp add: bytes_at_def)
next
  assume a: "bytes_at d i a \<and> bytes_at d (i + length a) b"
  then show "bytes_at d i (a @ b)"
    by (auto simp: bytes_at_def take_add add.commute)
qed

lemma bytes_at_nth: "bytes_at d i b \<Longrightarrow> k < length b \<Longrightarrow> d ! (i + k) = b ! k"
  unfolding bytes_at_def by (metis add_leE nth_drop nth_take)

lemma consume_uint16_at:
  "bytes_at (pdata p) (rindex p) (be16 v) \<Longrightarrow>
   avahi_dns_packet_consume_uint16 p = Ret (p\<lparr>rindex := rindex p + 2\<rparr>, Some v)"
  using bytes_at_nth [of "pdata p" "rindex p" "be16 v" 0] bytes_at_nth [of "pdata p" "rindex p" "be16 v" 1]
  by (auto simp: avahi_dns_packet_consume_uint16_def be16_def bytes_at_def from_be16_be16)

lemma consume_uint32_at:
  "bytes_at (pdata p) (rindex p) (be32 v) \<Longrightarrow>
   avahi_dns_packet_consume_uint32 p = Ret (p\<lparr>rindex := rindex p + 4\<rparr>, Some v)"
  using bytes_at_nth [of "pdata p" "rindex p" "be32 v" 0] bytes_at_nth [of "pdata p" "rindex p" "be32 v" 1]
    bytes_at_nth [of "pdata p" "rindex p" "be32 v" 2] bytes_at_nth [of "pdata p" "rindex p" "be32 v" 3]
  by (auto simp: avahi_dns_packet_consume_uint32_def be32_def bytes_at_def from_be32_be32)

text \<open>A number of fixed-size fields after one append.\<close>

definition raws :: "byte list list \<Rightarrow> (dns_packet \<Rightarrow> (dns_packet \<times> nat option) res) list" where
  "raws bs = map (\<lambda>b p. Ret (append_raw p b)) bs"

lemma append_raws:
  "\<exists>x ok. append_all p (raws bs) = Ret (p\<lparr>pdata := pdata p @ x\<rparr>, ok) \<and> length x \<le> length (concat bs) \<and>
     (psize p \<le> max_size p \<longrightarrow> psize p + length x \<le> max_size p) \<and>
     (psize p + length (concat bs) \<le> max_size p \<longrightarrow> ok) \<and> (ok \<longrightarrow> x = concat bs)"
proof (induction bs arbitrary: p)
  case Nil
  show ?case by (intro exI [of _ "[]"] exI [of _ True]) (cases p, simp add: raws_def)
next
  case (Cons b bs)
  show ?case
  proof (cases "psize p + length b \<le> max_size p")
    case True
    let ?q = "p\<lparr>pdata := pdata p @ b\<rparr>"
    from Cons.IH [of ?q] obtain x ok where x: "append_all ?q (raws bs) = Ret (?q\<lparr>pdata := pdata ?q @ x\<rparr>, ok)"
      "length x \<le> length (concat bs)" "psize ?q \<le> max_size ?q \<longrightarrow> psize ?q + length x \<le> max_size ?q"
      "psize ?q + length (concat bs) \<le> max_size ?q \<longrightarrow> ok" "ok \<longrightarrow> x = concat bs" by blast
    with True show ?thesis
      by (intro exI [of _ "b @ x"] exI [of _ ok]) (simp add: raws_def append_raw)
  next
    case False
    then show ?thesis
      by (intro exI [of _ "[]"] exI [of _ False]) (cases p, simp add: raws_def append_raw)
  qed
qed

text \<open>A name, of which at most \<open>n\<close> bytes are written, and fields after it: the head of a question or a record.\<close>

definition puts_name :: "bool \<Rightarrow> dns_packet \<Rightarrow> byte list list \<Rightarrow> nat \<Rightarrow> bool" where
  "puts_name sc p ls n \<longleftrightarrow> adds sc p (avahi_dns_packet_append_name sc p (render ls)) is_Some n
     (\<lambda>d. (\<exists>bs. d = pdata p @ bs) \<and> wire_name d (psize p) ls (length d))"

lemma puts_new_name: "packet_ok sc p \<Longrightarrow> label_list ls \<Longrightarrow> puts_name sc p ls (name_room ls)"
  unfolding puts_name_def by (rule adds_name)

text \<open>A name that is in the table takes the two bytes of a pointer.\<close>

lemma puts_known_name:
  assumes "packet_ok sc p" "label_list ls" "ls \<noteq> []" "table_lookup sc p (render ls) = Some idx" "idx < 0x4000"
  shows "puts_name sc p ls 2"
proof -
  have ne: "render ls \<noteq> []" using assms(2,3) escape_nonempty by (cases ls) (auto simp: render_Cons simp del: render.simps)
  have "idx < psize p" using assms(1,4) table_lookup_below by (auto simp: packet_ok_def)
  from append_loop_pointer [OF ne assms(4) this assms(5)] assms(1) have
    eq: "avahi_dns_packet_append_name sc p (render ls) =
      (if psize p + 2 \<le> max_size p then Ret (p\<lparr>pdata := pdata p @ pointer_bytes idx\<rparr>, Some (psize p)) else Ret (p, None))"
    by (simp add: avahi_dns_packet_append_name_def Let_def avahi_dns_packet_extend_def packet_ok_def)
  from adds_name [OF assms(1,2)] show ?thesis
    unfolding puts_name_def adds_def eq by (auto split: if_splits)
qed

text \<open>A new name is in the table once it has been written.\<close>

lemma append_name_enters:
  assumes "packet_ok sc p" "label_list ls" "ls \<noteq> []" "table_lookup sc p (render ls) = None"
    and "avahi_dns_packet_append_name sc p (render ls) = Ret (p', Some x)"
  shows "table_lookup sc p' (render ls) = Some (psize p)"
proof -
  from assms(3) obtain l ks where ls: "ls = l # ks" by (cases ls) auto
  let ?nm = "render (l # ks)" let ?q = "table_insert sc ?nm (psize p) (p\<lparr>pdata := pdata p @ string_bytes l\<rparr>)"
  have ne: "?nm \<noteq> []" using assms(2) escape_nonempty by (simp add: ls render_Cons del: render.simps)
  have u: "avahi_unescape_label ?nm 64 = Some (l, render ks)"
    using unescape_is_label [of l "if ks = [] then [] else DOT # render ks" "render ks"] assms(2)
    by (cases "ks = []") (simp_all add: ls render_Cons label_tail_def AVAHI_LABEL_MAX_def)
  have np: "no_pointer sc p ?nm" using assms(4) by (simp add: no_pointer_def ls del: render.simps)
  have fits: "psize p + length (string_bytes l) \<le> max_size p"
    using assms(5) append_loop_label [OF ne np] u
    by (auto simp: avahi_dns_packet_append_name_def Let_def ls simp del: render.simps split: if_splits)
  have ok: "table_ok sc p" using assms(1) by (simp add: packet_ok_def)
  have "loop_pre sc ?q ks" using loop_preI [OF ok] assms(2) unfolding ls by (rule loop_pre_label) simp
  then obtain q e where q: "append_name_loop sc ?q (render ks) = Ret (q, e)" "loop_post sc ?q ks q e"
    using append_loop_correct assms(2) unfolding ls by fastforce
  have "table_lookup sc ?q ?nm = Some (psize p)"
    using ok assms(4) by (simp add: table_lookup_insert table_ok_def ls del: render.simps)
  with q(2) have "table_lookup sc q ?nm = Some (psize p)" by (simp add: loop_post_def del: render.simps)
  moreover have "p' = q"
    using assms(5) append_loop_label [OF ne np] u fits q(1)
    by (cases e) (auto simp: avahi_dns_packet_append_name_def Let_def ls simp del: render.simps)
  ultimately show ?thesis by (simp add: ls del: render.simps)
qed

lemma append_head:
  assumes "packet_ok sc p" "puts_name sc p ls n"
  shows "\<exists>p' ok. append_all p ((\<lambda>p. avahi_dns_packet_append_name sc p (render ls)) # raws bs) = Ret (p', ok) \<and>
    grown sc p p' \<and> psize p' \<le> psize p + n + length (concat bs) \<and>
    (psize p + n + length (concat bs) \<le> max_size p \<longrightarrow> ok) \<and>
    (ok \<longrightarrow> (\<exists>q. packet_ok sc q \<and> grown sc p q \<and> p' = q\<lparr>pdata := pdata q @ concat bs\<rparr> \<and>
        wire_name (pdata q) (psize p) ls (psize q) \<and> psize p' \<le> max_size p'))"
proof -
  let ?f = "\<lambda>p. avahi_dns_packet_append_name sc p (render ls)"
  from assms(2) obtain q r where q: "?f p = Ret (q, r)" "grown sc p q" "psize q \<le> psize p + n"
    "psize p + n \<le> max_size p \<longrightarrow> is_Some r"
    "is_Some r \<longrightarrow> table_ok sc q \<and> wire_name (pdata q) (psize p) ls (psize q)"
    unfolding puts_name_def adds_def by blast
  show ?thesis
  proof (cases r)
    case None
    with q show ?thesis by auto
  next
    case (Some y)
    with q have ok: "packet_ok sc q" using packet_ok_grown [OF assms(1) q(2)] by simp
    obtain x k where x: "append_all q (raws bs) = Ret (q\<lparr>pdata := pdata q @ x\<rparr>, k)" "length x \<le> length (concat bs)"
      "psize q \<le> max_size q \<longrightarrow> psize q + length x \<le> max_size q"
      "psize q + length (concat bs) \<le> max_size q \<longrightarrow> k" "k \<longrightarrow> x = concat bs"
      using append_raws by blast
    with ok have "grown sc q (q\<lparr>pdata := pdata q @ x\<rparr>)"
      by (intro grown_raw) (simp_all add: packet_ok_def)
    with q(2) have "grown sc p (q\<lparr>pdata := pdata q @ x\<rparr>)" by (rule grown_trans)
    moreover have "max_size q = max_size p" using q(2) by (simp add: grown_def same_frame_def)
    ultimately show ?thesis
      using q Some x ok by (auto simp: packet_ok_def)
  qed
qed

section \<open>What can be sent\<close>

text \<open>
  Names in canonical form with at most 63 labels, as many as the 127 rounds of the reader are
  sure to cover, that fit a buffer of \<open>m\<close> bytes, and records made of them.
\<close>

definition sent_name :: "nat \<Rightarrow> byte list \<Rightarrow> bool" where
  "sent_name m n \<longleftrightarrow> cstring n \<and> length n < m \<and>
     (case domain_labels n of None \<Rightarrow> False | Some ls \<Rightarrow> n = render ls \<and> length ls \<le> 63)"

definition sent_rdata :: "u16 \<Rightarrow> rdata \<Rightarrow> bool" where
  "sent_rdata t d =
     (case case_of_type t of
        Srv_case \<Rightarrow> (case d of Srv _ _ _ n \<Rightarrow> sent_name AVAHI_DOMAIN_NAME_MAX n | _ \<Rightarrow> False)
      | Name_case \<Rightarrow> (case d of Name n \<Rightarrow> sent_name AVAHI_DOMAIN_NAME_MAX n | _ \<Rightarrow> False)
      | Hinfo_case \<Rightarrow>
          (case d of Hinfo c os \<Rightarrow> cstring c \<and> cstring os \<and> length c \<le> 255 \<and> length os \<le> 255 | _ \<Rightarrow> False)
      | Txt_case \<Rightarrow>
          (case d of Txt l \<Rightarrow> txt_ok l \<and> avahi_string_list_serialize_size l < 65536 | _ \<Rightarrow> False)
      | A_case \<Rightarrow> (case d of A x \<Rightarrow> length x = 4 | _ \<Rightarrow> False)
      | Aaaa_case \<Rightarrow> (case d of Aaaa x \<Rightarrow> length x = 16 | _ \<Rightarrow> False)
      | Generic_case \<Rightarrow> (case d of Generic x \<Rightarrow> length x < 65536 | _ \<Rightarrow> False))"

definition sent_record :: "rr \<Rightarrow> bool" where
  "sent_record r \<longleftrightarrow> sent_name AVAHI_DOMAIN_NAME_MAX (name (rkey r)) \<and>
     clazz (rkey r) AND AVAHI_DNS_CACHE_FLUSH = 0 \<and> ttl r \<noteq> - 1 \<and> sent_rdata (ktype (rkey r)) (rdata r)"

text \<open>Questions are read into a buffer of 256 bytes.\<close>

definition sent_key :: "key \<Rightarrow> bool" where
  "sent_key k \<longleftrightarrow> sent_name 256 (name k) \<and> clazz k AND AVAHI_DNS_UNICAST_RESPONSE = 0"

lemma sent_nameE:
  assumes "sent_name m n"
  obtains ls where "n = render ls" "label_list ls" "length ls \<le> 63" "length (render ls) < m"
  using assms by (auto simp: sent_name_def domain_labels_label_list split: option.splits)

lemma sent_name_mono: "sent_name m n \<Longrightarrow> m \<le> k \<Longrightarrow> sent_name k n"
  by (auto simp: sent_name_def)

lemma sent_rdata_cases [consumes 1, case_names srv name hinfo strings a aaaa generic]:
  assumes "sent_rdata t d"
  obtains x y z n where "case_of_type t = Srv_case" "d = Srv x y z n" "sent_name AVAHI_DOMAIN_NAME_MAX n"
  | n where "case_of_type t = Name_case" "d = Name n" "sent_name AVAHI_DOMAIN_NAME_MAX n"
  | c os where "case_of_type t = Hinfo_case" "d = Hinfo c os" "cstring c" "cstring os" "length c \<le> 255" "length os \<le> 255"
  | l where "case_of_type t = Txt_case" "d = Txt l" "txt_ok l" "avahi_string_list_serialize_size l < 65536"
  | x where "case_of_type t = A_case" "d = A x" "length x = 4"
  | x where "case_of_type t = Aaaa_case" "d = Aaaa x" "length x = 16"
  | x where "case_of_type t = Generic_case" "d = Generic x" "length x < 65536"
  using assms by (cases "case_of_type t"; cases d) (auto simp: sent_rdata_def)

text \<open>The bytes a record's data takes at most.\<close>

fun rdata_room :: "rdata \<Rightarrow> nat" where
  "rdata_room (Generic x) = length x"
| "rdata_room (Srv _ _ _ n) = 6 + (length n + 2)"
| "rdata_room (Name n) = length n + 2"
| "rdata_room (Hinfo c os) = 1 + length c + (1 + length os)"
| "rdata_room (Txt l) = avahi_string_list_serialize_size l"
| "rdata_room (A x) = length x"
| "rdata_room (Aaaa x) = length x"
| "rdata_room Null_names = 0"

lemma name_room: "name_room ls \<le> length (render ls) + 2"
  by (simp add: name_room_def)

section \<open>The format of record data\<close>

text \<open>
  \<open>wire_rdata d i x e\<close>: the bytes of \<open>d\<close> from \<open>i\<close> to \<open>e\<close> are the record data \<open>x\<close> (RFC 1035, 3.3;
  RFC 2782; RFC 3596).
\<close>

definition name_from :: "byte list \<Rightarrow> nat \<Rightarrow> byte list \<Rightarrow> nat \<Rightarrow> bool" where
  "name_from d i n e \<longleftrightarrow> (\<exists>ls. n = render ls \<and> label_list ls \<and> wire_name d i ls e)"

fun wire_rdata :: "byte list \<Rightarrow> nat \<Rightarrow> rdata \<Rightarrow> nat \<Rightarrow> bool" where
  "wire_rdata d i (Generic x) e \<longleftrightarrow> bytes_at d i x \<and> e = i + length x"
| "wire_rdata d i (Srv x y z n) e \<longleftrightarrow> bytes_at d i (be16 x @ be16 y @ be16 z) \<and> name_from d (i + 6) n e"
| "wire_rdata d i (Name n) e \<longleftrightarrow> name_from d i n e"
| "wire_rdata d i (Hinfo c os) e \<longleftrightarrow>
     bytes_at d i (string_bytes c @ string_bytes os) \<and> e = i + length (string_bytes c @ string_bytes os)"
| "wire_rdata d i (Txt l) e \<longleftrightarrow> bytes_at d i (txt_wire l) \<and> e = i + length (txt_wire l)"
| "wire_rdata d i (A x) e \<longleftrightarrow> bytes_at d i x \<and> e = i + length x"
| "wire_rdata d i (Aaaa x) e \<longleftrightarrow> bytes_at d i x \<and> e = i + length x"
| "wire_rdata d i Null_names e \<longleftrightarrow> False"

lemma name_from_append: "name_from d i n e \<Longrightarrow> name_from (d @ x) i n e"
  by (auto simp: name_from_def intro: wire_name_append)

lemma wire_rdata_append: "wire_rdata d i x e \<Longrightarrow> wire_rdata (d @ y) i x e"
  by (cases x) (auto simp: bytes_at_append name_from_append)

lemma wire_rdata_end: "wire_rdata d i x e \<Longrightarrow> i \<le> e \<and> e \<le> length d"
  by (cases x) (auto simp: bytes_at_def name_from_def dest: wire_name_end)

lemma length_string_bytes: "length s \<le> 255 \<Longrightarrow> string_bytes s = of_nat (length s) # s"
  by (simp add: string_bytes_def)

lemma length_txt_wire: "length (txt_wire l) = avahi_string_list_serialize_size l"
  by (simp add: txt_wire_def length_serialize)

text \<open>Data that is a sequence of bytes.\<close>

definition raw_data :: "rdata \<Rightarrow> byte list" where
  "raw_data d = (case d of
     Generic x \<Rightarrow> x | Hinfo c os \<Rightarrow> string_bytes c @ string_bytes os | Txt l \<Rightarrow> txt_wire l
   | A x \<Rightarrow> x | Aaaa x \<Rightarrow> x | _ \<Rightarrow> [])"

lemma adds_raws:
  assumes "packet_ok sc p"
  shows "adds sc p (append_all p (raws bs)) (\<lambda>b. b) (length (concat bs)) (\<lambda>d. d = pdata p @ concat bs)"
proof -
  obtain x k where x: "append_all p (raws bs) = Ret (p\<lparr>pdata := pdata p @ x\<rparr>, k)" "length x \<le> length (concat bs)"
    "psize p \<le> max_size p \<longrightarrow> psize p + length x \<le> max_size p"
    "psize p + length (concat bs) \<le> max_size p \<longrightarrow> k" "k \<longrightarrow> x = concat bs"
    using append_raws by blast
  with assms have "grown sc p (p\<lparr>pdata := pdata p @ x\<rparr>)"
    by (intro grown_raw) (simp_all add: packet_ok_def)
  with x assms show ?thesis by (auto simp: adds_def packet_ok_def table_ok_raw)
qed

lemma append_all_append: "append_all p (fs @ gs) =
  (case append_all p fs of Crash \<Rightarrow> Crash | Ret (p', ok) \<Rightarrow> if ok then append_all p' gs else Ret (p', False))"
proof (induction fs arbitrary: p)
  case (Cons f fs)
  then show ?case by (auto split: res.splits option.splits)
qed simp

lemma adds_append:
  assumes "packet_ok sc p" "adds sc p (append_all p fs) (\<lambda>b. b) n Q"
    and "\<And>q. packet_ok sc q \<Longrightarrow> grown sc p q \<Longrightarrow> Q (pdata q) \<Longrightarrow> adds sc q (append_all q gs) (\<lambda>b. b) k R"
  shows "adds sc p (append_all p (fs @ gs)) (\<lambda>b. b) (n + k) R"
proof -
  from assms(2) obtain q ok where q: "append_all p fs = Ret (q, ok)" "grown sc p q" "psize q \<le> psize p + n"
    "psize p + n \<le> max_size p \<longrightarrow> ok" "ok \<longrightarrow> table_ok sc q \<and> Q (pdata q)"
    by (auto simp: adds_def)
  show ?thesis
  proof (cases ok)
    case False
    with q show ?thesis by (auto simp: adds_def append_all_append)
  next
    case True
    with q assms(1) have "packet_ok sc q" "Q (pdata q)" by (auto intro: packet_ok_grown)
    with assms(3) q(2) have "adds sc q (append_all q gs) (\<lambda>b. b) k R" by blast
    then obtain s k' where s: "append_all q gs = Ret (s, k')" "grown sc q s" "psize s \<le> psize q + k"
      "psize q + k \<le> max_size q \<longrightarrow> k'" "k' \<longrightarrow> table_ok sc s \<and> R (pdata s)"
      by (auto simp: adds_def)
    moreover have "max_size q = max_size p" using q(2) by (simp add: grown_def same_frame_def)
    ultimately show ?thesis
      using q True grown_trans [OF q(2) s(2)] by (auto simp: adds_def append_all_append)
  qed
qed

lemma adds_name_last:
  assumes "packet_ok sc p" "sent_name m n"
  shows "adds sc p (append_all p [\<lambda>p. avahi_dns_packet_append_name sc p n]) (\<lambda>b. b) (length n + 2)
    (\<lambda>d. (\<exists>bs. d = pdata p @ bs) \<and> name_from d (psize p) n (length d))"
proof -
  from assms(2) obtain ls where ls: "n = render ls" "label_list ls" by (rule sent_nameE)
  have "adds sc p (append_all p [\<lambda>p. avahi_dns_packet_append_name sc p n]) (\<lambda>b. b) (name_room ls)
    (\<lambda>d. (\<exists>bs. d = pdata p @ bs) \<and> wire_name d (psize p) ls (length d))"
    using assms(1) adds_name [OF assms(1) ls(2)] ls(1) by (intro adds_one) simp_all
  then show ?thesis
    by (rule adds_weaken) (use ls name_room [of ls] in \<open>auto simp: name_from_def\<close>)
qed

lemma adds_raws_then_name:
  assumes "packet_ok sc p" "sent_name m n"
  shows "adds sc p (append_all p (raws bs @ [\<lambda>p. avahi_dns_packet_append_name sc p n])) (\<lambda>b. b)
    (length (concat bs) + (length n + 2))
    (\<lambda>d. bytes_at d (psize p) (concat bs) \<and> name_from d (psize p + length (concat bs)) n (length d))"
proof (rule adds_append [OF assms(1) adds_raws [OF assms(1)]])
  fix q
  assume q: "packet_ok sc q" "pdata q = pdata p @ concat bs"
  show "adds sc q (append_all q [\<lambda>p. avahi_dns_packet_append_name sc p n]) (\<lambda>b. b) (length n + 2)
    (\<lambda>d. bytes_at d (psize p) (concat bs) \<and> name_from d (psize p + length (concat bs)) n (length d))"
    using adds_name_last [OF q(1) assms(2)] by (rule adds_weaken) (auto simp: q(2) bytes_at_end)
qed

lemma adds_bytes:
  assumes "packet_ok sc p" "\<And>d. d = pdata p @ concat bs \<Longrightarrow> Q d" "length (concat bs) \<le> n"
  shows "adds sc p (append_all p (raws bs)) (\<lambda>b. b) n Q"
  using adds_raws [OF assms(1)] assms(3) by (rule adds_weaken) (rule assms(2))

lemma append_rdata_adds:
  assumes "packet_ok sc p" "sent_rdata (ktype (rkey r)) (rdata r)"
  shows "adds sc p (append_rdata sc p r) (\<lambda>b. b) (rdata_room (rdata r))
    (\<lambda>d. wire_rdata d (psize p) (rdata r) (length d))"
  using assms(2)
proof (cases rule: sent_rdata_cases)
  case (srv x y z n)
  then have "append_rdata sc p r =
      append_all p (raws [be16 x, be16 y, be16 z] @ [\<lambda>p. avahi_dns_packet_append_name sc p n])"
    by (simp add: append_rdata_def rr_case_def raws_def avahi_dns_packet_append_uint16_def del: append_all.simps)
  with adds_raws_then_name [OF assms(1) srv(3), of "[be16 x, be16 y, be16 z]"] srv show ?thesis
    by simp
next
  case (name n)
  then have eq: "append_rdata sc p r = append_all p [\<lambda>p. avahi_dns_packet_append_name sc p n]"
    by (simp add: append_rdata_def rr_case_def del: append_all.simps)
  show ?thesis
    unfolding eq using adds_name_last [OF assms(1) name(3)] by (rule adds_weaken) (simp_all add: name)
next
  case (hinfo c os)
  then have eq: "append_rdata sc p r = append_all p (raws [string_bytes c, string_bytes os])"
    by (simp add: append_rdata_def rr_case_def raws_def append_string del: append_all.simps)
  show ?thesis
    unfolding eq using hinfo length_string_bytes [of c] length_string_bytes [of os] bytes_at_end [of _ _ "[]"]
    by (intro adds_bytes assms(1)) simp_all
next
  case (strings l)
  let ?b = "avahi_string_list_serialize l (avahi_string_list_serialize_size l)"
  have "append_rdata sc p r = append_all p (raws [?b])"
    using strings
    by (auto simp: append_rdata_def rr_case_def raws_def append_raw avahi_dns_packet_extend_def put_def Let_def
        length_serialize overwrite_end [of "pdata p" ?b, unfolded length_serialize])
  then show ?thesis
    using strings bytes_at_end [of "pdata p" ?b "[]"]
    by (auto intro!: adds_bytes assms(1) simp: length_serialize txt_wire_def)
next
  case (a x)
  then have eq: "append_rdata sc p r = append_all p (raws [x])"
    by (auto simp: append_rdata_def rr_case_def raws_def avahi_dns_packet_append_bytes_def)
  show ?thesis
    unfolding eq using a bytes_at_end [of "pdata p" x "[]"] by (intro adds_bytes assms(1)) simp_all
next
  case (aaaa x)
  then have eq: "append_rdata sc p r = append_all p (raws [x])"
    by (auto simp: append_rdata_def rr_case_def raws_def avahi_dns_packet_append_bytes_def)
  show ?thesis
    unfolding eq using aaaa bytes_at_end [of "pdata p" x "[]"] by (intro adds_bytes assms(1)) simp_all
next
  case (generic x)
  then have eq: "append_rdata sc p r = append_all p (raws (if x = [] then [] else [x]))"
    by (auto simp: append_rdata_def rr_case_def raws_def avahi_dns_packet_append_bytes_def)
  show ?thesis
    unfolding eq using generic bytes_at_end [of "pdata p" x "[]"] by (intro adds_bytes assms(1)) (auto split: if_splits)
qed

section \<open>Appending questions and records\<close>

text \<open>The head of a record with the bytes of its length field left open.\<close>

definition record_head :: "rr \<Rightarrow> bool \<Rightarrow> u32 \<Rightarrow> u16 \<Rightarrow> byte list" where
  "record_head r flush t n = be16 (ktype (rkey r)) @
     be16 (if flush then clazz (rkey r) OR AVAHI_DNS_CACHE_FLUSH else clazz (rkey r) AND NOT AVAHI_DNS_CACHE_FLUSH) @
     be32 t @ be16 n"

definition capped :: "u32 \<Rightarrow> rr \<Rightarrow> rr" where
  "capped max_ttl r = r\<lparr>ttl := (if max_ttl \<noteq> 0 \<and> max_ttl < ttl r then max_ttl else ttl r)\<rparr>"

lemma capped_simps [simp]:
  "rkey (capped m r) = rkey r" "rdata (capped m r) = rdata r"
  "record_head (capped m r) flush t n = record_head r flush t n"
  by (simp_all add: capped_def record_head_def)

definition record_at :: "byte list \<Rightarrow> nat \<Rightarrow> rr \<Rightarrow> bool \<Rightarrow> nat \<Rightarrow> bool" where
  "record_at d i r flush e \<longleftrightarrow>
     (\<exists>j. name_from d i (name (rkey r)) j \<and> bytes_at d j (record_head r flush (ttl r) (of_nat (e - (j + 10)))) \<and>
          wire_rdata d (j + 10) (rdata r) e \<and> e - (j + 10) < 65536)"

definition key_at :: "byte list \<Rightarrow> nat \<Rightarrow> key \<Rightarrow> bool \<Rightarrow> nat \<Rightarrow> bool" where
  "key_at d i k unicast e \<longleftrightarrow>
     (\<exists>j. name_from d i (name k) j \<and> e = j + 4 \<and>
        bytes_at d j (be16 (ktype k) @ be16 (clazz k OR (if unicast then AVAHI_DNS_UNICAST_RESPONSE else 0))))"

lemma record_at_append: "record_at d i r flush e \<Longrightarrow> record_at (d @ x) i r flush e"
  unfolding record_at_def by (meson bytes_at_append name_from_append wire_rdata_append)

lemma key_at_append: "key_at d i k u e \<Longrightarrow> key_at (d @ x) i k u e"
  unfolding key_at_def using bytes_at_append name_from_append by blast

lemma length_record_head [simp]: "length (record_head r flush t n) = 10"
  by (simp add: record_head_def)

lemma record_head_length:
  "overwrite (length d + 8) (be16 n) (d @ record_head r flush t 0 @ x) = d @ record_head r flush t n @ x"
  by (simp add: overwrite_def record_head_def)

lemma rdata_room_bound: "sent_rdata t d \<Longrightarrow> rdata_room d < 65536"
  by (cases rule: sent_rdata_cases) (auto simp: sent_name_def AVAHI_DOMAIN_NAME_MAX_def)

text \<open>
  The data of a record is appended as if the length field in front of it had been right from
  the beginning.
\<close>

lemma append_rdata_after_head:
  assumes q: "packet_ok sc q" "psize q + 10 \<le> max_size q" and d: "sent_rdata (ktype (rkey r)) (rdata r)"
    and p4: "p4 = q\<lparr>pdata := pdata q @ record_head r flush t 0\<rparr>"
  shows "\<exists>p5 ok s. append_rdata sc p4 r = Ret (p5, ok) \<and> grown sc p4 p5 \<and> psize p5 \<le> psize p4 + rdata_room (rdata r) \<and>
    (psize p4 + rdata_room (rdata r) \<le> max_size p4 \<longrightarrow> ok) \<and>
    (ok \<longrightarrow> s = put p5 (psize q + 8) (be16 (of_nat (psize p5 - psize p4))) \<and>
      packet_ok sc s \<and> grown sc q s \<and> psize s = psize p5 \<and>
      (\<exists>x. pdata s = pdata q @ record_head r flush t (of_nat (psize p5 - psize p4)) @ x) \<and>
      wire_rdata (pdata s) (psize p4) (rdata r) (psize s))"
proof -
  have ok4: "packet_ok sc p4"
    using q unfolding p4 packet_ok_def by (simp add: table_ok_raw)
  from append_rdata_adds [OF this d] obtain p5 ok where p5: "append_rdata sc p4 r = Ret (p5, ok)" "grown sc p4 p5"
    "psize p5 \<le> psize p4 + rdata_room (rdata r)" "psize p4 + rdata_room (rdata r) \<le> max_size p4 \<longrightarrow> ok"
    by (auto simp: adds_def)
  from appends_atD [OF appends_rdata [of sc r], of p4] p5(1) obtain bs tab where ret: "p5 = p4\<lparr>pdata := pdata p4 @ bs, name_table := tab\<rparr>"
    "\<And>d. length d = psize p4 \<Longrightarrow> append_rdata sc (p4\<lparr>pdata := d\<rparr>) r = Ret (p4\<lparr>pdata := d @ bs, name_table := tab\<rparr>, ok)"
    by (cases rule: appends_cases) auto
  let ?n = "of_nat (psize p5 - psize p4) :: u16"
  let ?d = "pdata q @ record_head r flush t ?n"
  let ?q4 = "q\<lparr>pdata := ?d\<rparr>"
  let ?s = "put p5 (psize q + 8) (be16 ?n)"
  have q4: "packet_ok sc ?q4" "grown sc q ?q4"
    using q unfolding packet_ok_def by (simp_all add: table_ok_raw grown_raw)
  have s: "?s = p4\<lparr>pdata := ?d @ bs, name_table := tab\<rparr>"
    using record_head_length [of "pdata q" ?n r flush t bs] by (simp add: put_def ret(1) p4)
  have "append_rdata sc ?q4 r = Ret (?s, ok)"
    using ret(2) [of ?d] by (simp only: s) (simp add: p4)
  with append_rdata_adds [OF q4(1) d]
  have "grown sc ?q4 ?s \<and> (ok \<longrightarrow> table_ok sc ?s \<and> wire_rdata (pdata ?s) (psize p4) (rdata r) (psize ?s))"
    by (auto simp: adds_def p4)
  then have "ok \<longrightarrow> packet_ok sc ?s \<and> grown sc q ?s \<and> wire_rdata (pdata ?s) (psize p4) (rdata r) (psize ?s)"
    using packet_ok_grown [OF q4(1)] grown_trans [OF q4(2)] by blast
  moreover have "psize ?s = psize p5" "\<exists>x. pdata ?s = pdata q @ record_head r flush t ?n @ x"
    unfolding s by (simp_all add: ret(1) p4)
  ultimately show ?thesis using p5 by blast
qed

text \<open>The outcome of an append: done, or nothing changed.\<close>

definition appended :: "bool \<Rightarrow> dns_packet \<Rightarrow> (dns_packet \<times> nat option) res \<Rightarrow> nat \<Rightarrow> (dns_packet \<Rightarrow> bool) \<Rightarrow> bool" where
  "appended sc p m n Q \<longleftrightarrow>
     (\<exists>p' x. m = Ret (p', x) \<and> (psize p + n \<le> max_size p \<longrightarrow> x \<noteq> None) \<and>
        (case x of None \<Rightarrow> undone sc p p' \<and> packet_ok sc p'
         | Some i \<Rightarrow> i = psize p \<and> packet_ok sc p' \<and> grown sc p p' \<and> psize p' \<le> psize p + n \<and> Q p'))"

lemma appended_failed:
  assumes "packet_ok sc p" "grown sc p q" "\<not> psize p + n \<le> max_size p"
  shows "appended sc p (Ret (avahi_dns_packet_cleanup_name_table sc (set_size (psize p) q), None)) n Q"
proof -
  have "undone sc p (avahi_dns_packet_cleanup_name_table sc (set_size (psize p) q))"
    using assms by (intro cleanup_undone) (simp_all add: packet_ok_def)
  moreover from this have "packet_ok sc (avahi_dns_packet_cleanup_name_table sc (set_size (psize p) q))"
    using assms(1) by (simp add: undone_def packet_ok_def)
  ultimately show ?thesis
    using assms(3) unfolding appended_def by simp
qed

definition key_room :: "key \<Rightarrow> nat" where
  "key_room k = length (name k) + 2 + 4"

definition record_room :: "rr \<Rightarrow> nat" where
  "record_room r = length (name (rkey r)) + 2 + 10 + rdata_room (rdata r)"

lemma append_key_appended:
  assumes "packet_ok sc p" "sent_name m (name k)"
  shows "appended sc p (avahi_dns_packet_append_key sc p k unicast) (key_room k)
    (\<lambda>p'. key_at (pdata p') (psize p) k unicast (psize p'))"
proof -
  from assms(2) obtain ls where ls: "name k = render ls" "label_list ls" by (rule sent_nameE)
  let ?bs = "[be16 (ktype k), be16 (clazz k OR (if unicast then AVAHI_DNS_UNICAST_RESPONSE else 0))]"
  let ?fs = "(\<lambda>p. avahi_dns_packet_append_name sc p (render ls)) # raws ?bs"
  have eq: "avahi_dns_packet_append_key sc p k unicast = (case append_all p ?fs of Crash \<Rightarrow> Crash
      | Ret (p', True) \<Rightarrow> Ret (p', Some (psize p))
      | Ret (p', False) \<Rightarrow> Ret (avahi_dns_packet_cleanup_name_table sc (set_size (psize p) p'), None))"
    by (simp add: avahi_dns_packet_append_key_def ls(1) raws_def avahi_dns_packet_append_uint16_def Let_def
        del: append_all.simps)
  from append_head [OF assms(1) puts_new_name [OF assms(1) ls(2)], of ?bs] obtain p' ok where p': "append_all p ?fs = Ret (p', ok)" "grown sc p p'"
    "psize p' \<le> psize p + name_room ls + 4" "psize p + name_room ls + 4 \<le> max_size p \<longrightarrow> ok"
    "ok \<longrightarrow> (\<exists>q. packet_ok sc q \<and> grown sc p q \<and> p' = q\<lparr>pdata := pdata q @ concat ?bs\<rparr> \<and>
        wire_name (pdata q) (psize p) ls (psize q) \<and> psize p' \<le> max_size p')" by auto
  show ?thesis
  proof (cases ok)
    case False
    with p' name_room [of ls] have "\<not> psize p + key_room k \<le> max_size p" by (simp add: key_room_def ls(1))
    with p'(1,2) False show ?thesis
      unfolding eq by (simp add: appended_failed [OF assms(1)] del: append_all.simps)
  next
    case True
    with p'(5) obtain q where q: "packet_ok sc q" "p' = q\<lparr>pdata := pdata q @ concat ?bs\<rparr>"
      "wire_name (pdata q) (psize p) ls (psize q)" "psize p' \<le> max_size p'" by blast
    have "name_from (pdata p') (psize p) (name k) (psize q)"
      using q(3) ls by (auto simp: name_from_def q(2) intro: wire_name_append)
    moreover have "bytes_at (pdata p') (psize q) (concat ?bs)"
      using bytes_at_end [of "pdata q" "concat ?bs" "[]"] by (simp add: q(2))
    moreover have "packet_ok sc p'" using q by (simp add: packet_ok_def table_ok_raw)
    moreover have "psize p' \<le> psize p + key_room k"
      using p'(3) name_room [of ls] by (simp add: key_room_def ls(1))
    ultimately show ?thesis
      using p'(1,2) True q(2) unfolding eq by (simp add: appended_def key_at_def del: append_all.simps)
  qed
qed

lemma append_record_named:
  assumes "packet_ok sc p" "puts_name sc p ls n" "sent_rdata (ktype (rkey r)) (rdata r)"
    and ls: "name (rkey r) = render ls" "label_list ls"
  shows "appended sc p (avahi_dns_packet_append_record sc p r flush max_ttl) (n + 10 + rdata_room (rdata r))
    (\<lambda>p'. record_at (pdata p') (psize p) (capped max_ttl r) flush (psize p'))"
proof -
  let ?t = "ttl (capped max_ttl r)"
  let ?head = "record_head r flush ?t"
  let ?bs = "[be16 (ktype (rkey r)), be16 (if flush then clazz (rkey r) OR AVAHI_DNS_CACHE_FLUSH
      else clazz (rkey r) AND NOT AVAHI_DNS_CACHE_FLUSH), be32 ?t, be16 0]"
  have bs: "concat ?bs = ?head 0" by (simp add: record_head_def)
  let ?fs = "(\<lambda>p. avahi_dns_packet_append_name sc p (render ls)) # raws ?bs"
  let ?fail = "\<lambda>p'. Ret (avahi_dns_packet_cleanup_name_table sc (set_size (psize p) p'), None)"
  have eq: "avahi_dns_packet_append_record sc p r flush max_ttl = (case append_all p ?fs of Crash \<Rightarrow> Crash
      | Ret (p', False) \<Rightarrow> ?fail p'
      | Ret (p', True) \<Rightarrow> (case append_rdata sc p' r of Crash \<Rightarrow> Crash
          | Ret (p'', False) \<Rightarrow> ?fail p''
          | Ret (p'', True) \<Rightarrow> if AVAHI_DNS_RDATA_MAX < psize p'' - psize p' then Crash
              else Ret (put p'' (psize p' - 2) (be16 (of_nat (psize p'' - psize p'))), Some (psize p))))"
    unfolding avahi_dns_packet_append_record_def Let_def
    by (simp add: ls(1) raws_def avahi_dns_packet_append_uint16_def avahi_dns_packet_append_uint32_def
        capped_def del: append_all.simps)
  from append_head [OF assms(1,2), of ?bs, unfolded bs length_record_head]
  obtain p4 ok where p4: "append_all p ?fs = Ret (p4, ok)" "grown sc p p4"
    "psize p4 \<le> psize p + n + 10" "psize p + n + 10 \<le> max_size p \<longrightarrow> ok"
    "ok \<longrightarrow> (\<exists>q. packet_ok sc q \<and> grown sc p q \<and> p4 = q\<lparr>pdata := pdata q @ ?head 0\<rparr> \<and>
        wire_name (pdata q) (psize p) ls (psize q) \<and> psize p4 \<le> max_size p4)" by blast
  show ?thesis
  proof (cases ok)
    case False
    with p4 have "\<not> psize p + (n + 10 + rdata_room (rdata r)) \<le> max_size p" by linarith
    with p4(1,2) False show ?thesis
      unfolding eq by (simp add: appended_failed [OF assms(1)] del: append_all.simps)
  next
    case True
    with p4(5) obtain q where q: "packet_ok sc q" "grown sc p q" "p4 = q\<lparr>pdata := pdata q @ ?head 0\<rparr>"
      "wire_name (pdata q) (psize p) ls (psize q)" "psize p4 \<le> max_size p4" by blast
    then have "psize q + 10 \<le> max_size q" by simp
    from append_rdata_after_head [OF q(1) this assms(3) q(3)] obtain p5 k s where
      p5: "append_rdata sc p4 r = Ret (p5, k)" "grown sc p4 p5" "psize p5 \<le> psize p4 + rdata_room (rdata r)"
        "psize p4 + rdata_room (rdata r) \<le> max_size p4 \<longrightarrow> k"
      and s: "k \<longrightarrow> s = put p5 (psize q + 8) (be16 (of_nat (psize p5 - psize p4))) \<and>
        packet_ok sc s \<and> grown sc q s \<and> psize s = psize p5 \<and>
        (\<exists>x. pdata s = pdata q @ ?head (of_nat (psize p5 - psize p4)) @ x) \<and>
        wire_rdata (pdata s) (psize p4) (rdata r) (psize s)" by blast
    have small: "\<not> AVAHI_DNS_RDATA_MAX < psize p5 - psize p4"
      using p5(3) rdata_room_bound [OF assms(3)] by (simp add: AVAHI_DNS_RDATA_MAX_def)
    have "max_size p4 = max_size p" using p4(2) by (simp add: grown_def same_frame_def)
    show ?thesis
    proof (cases k)
      case False
      have "\<not> psize p + (n + 10 + rdata_room (rdata r)) \<le> max_size p"
        using False p5(4) p4(3) \<open>max_size p4 = max_size p\<close> by linarith
      with False True p4(1) p5(1) grown_trans [OF p4(2) p5(2)] show ?thesis
        unfolding eq by (simp add: appended_failed [OF assms(1)] del: append_all.simps)
    next
      case True
      with s obtain x where x: "s = put p5 (psize q + 8) (be16 (of_nat (psize p5 - psize p4)))"
        "packet_ok sc s" "grown sc q s" "psize s = psize p5" "wire_rdata (pdata s) (psize p4) (rdata r) (psize s)"
        "pdata s = pdata q @ ?head (of_nat (psize p5 - psize p4)) @ x" by blast
      have "name_from (pdata s) (psize p) (name (rkey r)) (psize q)"
        using q(4) ls by (auto simp: name_from_def x(6) intro: wire_name_append)
      moreover have "bytes_at (pdata s) (psize q) (?head (of_nat (psize p5 - psize p4)))"
        unfolding x(6) by (rule bytes_at_end)
      moreover have "psize p4 = psize q + 10" by (simp add: q(3))
      moreover from this have field: "psize p4 - 2 = psize q + 8" by simp
      ultimately have "record_at (pdata s) (psize p) (capped max_ttl r) flush (psize s)"
        using x(4,5) small unfolding record_at_def
        by (intro exI [of _ "psize q"]) (simp add: AVAHI_DNS_RDATA_MAX_def)
      moreover have "psize s \<le> psize p + (n + 10 + rdata_room (rdata r))" using x(4) p5(3) p4(3) by linarith
      ultimately show ?thesis
        using p4(1) p5(1) True \<open>ok\<close> small x(2) grown_trans [OF q(2) x(3)]
        unfolding eq by (simp add: appended_def field flip: x(1) del: append_all.simps)
    qed
  qed
qed

lemma appended_weaken: "appended sc p m n Q \<Longrightarrow> n \<le> k \<Longrightarrow> appended sc p m k Q"
  unfolding appended_def by (force split: option.splits)

lemma append_record_appended:
  assumes "packet_ok sc p" "sent_name m (name (rkey r))" "sent_rdata (ktype (rkey r)) (rdata r)"
  shows "appended sc p (avahi_dns_packet_append_record sc p r flush max_ttl) (record_room r)
    (\<lambda>p'. record_at (pdata p') (psize p) (capped max_ttl r) flush (psize p'))"
proof -
  from assms(2) obtain ls where ls: "name (rkey r) = render ls" "label_list ls" by (rule sent_nameE)
  from append_record_named [OF assms(1) puts_new_name [OF assms(1) ls(2)] assms(3) ls] show ?thesis
    by (rule appended_weaken) (use name_room [of ls] in \<open>simp add: record_room_def ls(1)\<close>)
qed

text \<open>A record whose name is in the table, and the question that has put it there.\<close>

lemma append_record_known:
  assumes "packet_ok sc p" "sent_name m (name (rkey r))" "sent_rdata (ktype (rkey r)) (rdata r)"
    and "name (rkey r) \<noteq> []" "table_lookup sc p (name (rkey r)) = Some idx" "idx < 0x4000"
  shows "appended sc p (avahi_dns_packet_append_record sc p r flush max_ttl) (12 + rdata_room (rdata r))
    (\<lambda>p'. record_at (pdata p') (psize p) (capped max_ttl r) flush (psize p'))"
proof -
  from assms(2) obtain ls where ls: "name (rkey r) = render ls" "label_list ls" by (rule sent_nameE)
  then have "ls \<noteq> []" using assms(4) by auto
  from puts_known_name [OF assms(1) ls(2) this] assms(5,6) have "puts_name sc p ls 2" by (simp add: ls(1))
  from append_record_named [OF assms(1) this assms(3) ls] show ?thesis by (rule appended_weaken) simp
qed

lemma append_key_enters:
  assumes "packet_ok sc p" "sent_name m (name k)" "name k \<noteq> []" "table_lookup sc p (name k) = None"
    and "avahi_dns_packet_append_key sc p k unicast = Ret (p', Some i)"
  shows "table_lookup sc p' (name k) = Some (psize p)"
proof -
  from assms(2) obtain ls where ls: "name k = render ls" "label_list ls" by (rule sent_nameE)
  then have ne: "ls \<noteq> []" using assms(3) by auto
  let ?bs = "[be16 (ktype k), be16 (clazz k OR (if unicast then AVAHI_DNS_UNICAST_RESPONSE else 0))]"
  have "avahi_dns_packet_append_key sc p k unicast =
      (case append_all p ((\<lambda>p. avahi_dns_packet_append_name sc p (render ls)) # raws ?bs) of Crash \<Rightarrow> Crash
      | Ret (p', True) \<Rightarrow> Ret (p', Some (psize p))
      | Ret (p', False) \<Rightarrow> Ret (avahi_dns_packet_cleanup_name_table sc (set_size (psize p) p'), None))"
    by (simp add: avahi_dns_packet_append_key_def ls(1) raws_def avahi_dns_packet_append_uint16_def Let_def
        del: append_all.simps)
  with assms(5) have all: "append_all p ((\<lambda>p. avahi_dns_packet_append_name sc p (render ls)) # raws ?bs) = Ret (p', True)"
    by (auto split: res.splits bool.splits simp del: append_all.simps)
  then obtain q x where q: "avahi_dns_packet_append_name sc p (render ls) = Ret (q, Some x)" "append_all q (raws ?bs) = Ret (p', True)"
    by (auto split: res.splits option.splits)
  from append_name_enters [OF assms(1) ls(2) ne _ q(1)] assms(4) have "table_lookup sc q (name k) = Some (psize p)"
    by (simp add: ls(1))
  moreover obtain y where "p' = q\<lparr>pdata := pdata q @ y\<rparr>" using append_raws [of q ?bs] q(2) by auto
  ultimately show ?thesis by simp
qed

section \<open>Reading back\<close>

lemma rindex_update [simp]: "(p :: dns_packet)\<lparr>rindex := i, rindex := j\<rparr> = p\<lparr>rindex := j\<rparr>"
  by simp

lemma consume_name_from:
  assumes "name_from (pdata p) (rindex p) n e" "sent_name m n"
  shows "avahi_dns_packet_consume_name p m = Ret (p\<lparr>rindex := e\<rparr>, Some n)"
proof -
  from assms(2) obtain ls where ls: "n = render ls" "label_list ls" "length ls \<le> 63" "length (render ls) < m"
    by (rule sent_nameE)
  with assms(1) render_inject have w: "wire_name (pdata p) (rindex p) ls e"
    unfolding name_from_def by metis
  have "consume_labels_loop AVAHI_DNS_LABELS_MAX p (rindex p) 0 False True [] m =
      Ret (Some (0 + (e - rindex p), [] @ dotted True ls))"
    using consume_wire_name [OF w, of True m AVAHI_DNS_LABELS_MAX 0 False "[]"] ls
    by (simp add: dotted_def AVAHI_DNS_LABELS_MAX_def)
  moreover have "rindex p \<le> e" using wire_name_end [OF w] by simp
  ultimately show ?thesis
    using ls by (auto simp: avahi_dns_packet_consume_name_def consume_labels_def dotted_def)
qed

lemma sent_name_key:
  assumes "sent_name m n" "m \<le> AVAHI_DOMAIN_NAME_MAX"
  shows "avahi_key_new n c t = Ret (Some \<lparr>name = n, clazz = c, ktype = t\<rparr>)"
    and "avahi_is_valid_domain_name n" and "name_ok n"
proof -
  from assms obtain ls where ls: "n = render ls" "label_list ls" "length (render ls) < AVAHI_DOMAIN_NAME_MAX"
    by (auto elim: sent_nameE)
  then have "raw_labels ls" by (auto simp: raw_labels_def label_list_def is_label_def AVAHI_LABEL_MAX_def)
  with ls show "avahi_key_new n c t = Ret (Some \<lparr>name = n, clazz = c, ktype = t\<rparr>)"
    by (auto simp: key_new_raw label_list_def)
  from ls show "name_ok n" by (simp add: name_ok_def cstring_render domain_labels_render)
  then show "avahi_is_valid_domain_name n"
    using ls by (simp add: valid_domain_name_spec name_ok_def)
qed

lemma flag_bits:
  fixes c m :: u16
  assumes "c AND m = 0"
  shows "(c OR m) AND NOT m = c" "(c AND NOT m) AND m = 0" "(c AND NOT m) AND NOT m = c" "c AND NOT m = c"
    "m \<noteq> 0 \<Longrightarrow> (c OR m) AND m \<noteq> 0"
proof -
  have b: "\<not> (bit c n \<and> bit m n)" for n
    using assms by (metis bit_0_eq bit_and_iff bot_apply bot_bool_def)
  show n: "c AND NOT m = c" by (rule bit_word_eqI) (use b in \<open>auto simp: bit_simps\<close>)
  show "(c OR m) AND NOT m = c" by (rule bit_word_eqI) (use b in \<open>auto simp: bit_simps\<close>)
  show "(c AND NOT m) AND m = 0" using n assms by simp
  show "(c AND NOT m) AND NOT m = c" using n by simp
  show "(c OR m) AND m \<noteq> 0" if "m \<noteq> 0"
  proof -
    have "(c OR m) AND m = m" by (rule bit_word_eqI) (auto simp: bit_simps)
    with that show ?thesis by simp
  qed
qed

lemma consume_key_at:
  assumes "key_at (pdata p) (rindex p) k unicast e" "sent_key k"
  shows "avahi_dns_packet_consume_key p = Ret (p\<lparr>rindex := e\<rparr>, Some (k, unicast))"
proof -
  from assms obtain j where j: "name_from (pdata p) (rindex p) (name k) j" "e = j + 4"
    "bytes_at (pdata p) j (be16 (ktype k))"
    "bytes_at (pdata p) (j + 2) (be16 (clazz k OR (if unicast then AVAHI_DNS_UNICAST_RESPONSE else 0)))"
    by (auto simp: key_at_def bytes_at_split)
  from assms have n: "sent_name 256 (name k)" "clazz k AND AVAHI_DNS_UNICAST_RESPONSE = 0"
    by (simp_all add: sent_key_def)
  have "(256 :: nat) \<le> AVAHI_DOMAIN_NAME_MAX" by (simp add: AVAHI_DOMAIN_NAME_MAX_def)
  note key = sent_name_key [OF n(1) this]
  have "AVAHI_DNS_UNICAST_RESPONSE \<noteq> 0" by (simp add: AVAHI_DNS_UNICAST_RESPONSE_def)
  note flags = flag_bits [OF n(2)] flag_bits(5) [OF n(2) this]
  show ?thesis
    using j n key flags
    by (simp add: avahi_dns_packet_consume_key_def consume_name_from and_then_def consume_uint16_at Let_def
        avahi_key_is_valid_def)
qed

lemma bytes_at_peek: "bytes_at (pdata p) (rindex p) b \<Longrightarrow> peek_bytes p (length b) = Ret b"
  by (simp add: bytes_at_def peek_bytes_def)

lemma bytes_at_skip: "bytes_at (pdata p) (rindex p) b \<Longrightarrow>
  avahi_dns_packet_skip p (length b) = (p\<lparr>rindex := rindex p + length b\<rparr>, Some ())"
  by (simp add: bytes_at_def avahi_dns_packet_skip_def)

lemma consume_bytes_at: "bytes_at (pdata p) (rindex p) b \<Longrightarrow> b \<noteq> [] \<Longrightarrow>
  avahi_dns_packet_consume_bytes p (length b) = Ret (p\<lparr>rindex := rindex p + length b\<rparr>, Some b)"
  by (auto simp: bytes_at_def avahi_dns_packet_consume_bytes_def)

lemma consume_string_at:
  assumes "bytes_at (pdata p) (rindex p) (string_bytes s)" "length s \<le> 255" "length s + 1 < m"
  shows "avahi_dns_packet_consume_string p m = Ret (p\<lparr>rindex := rindex p + length (string_bytes s)\<rparr>, Some s)"
proof -
  have "bytes_at (pdata p) (rindex p) ([of_nat (length s)] @ s)"
    using assms(1,2) by (simp add: length_string_bytes)
  then have b: "bytes_at (pdata p) (rindex p) [of_nat (length s)]" "bytes_at (pdata p) (rindex p + 1) s"
    by (simp_all only: bytes_at_split length_Cons list.size One_nat_def)
  have "pdata p ! rindex p = of_nat (length s)" using bytes_at_nth [OF b(1), of 0] by simp
  then have "unat (pdata p ! rindex p) = length s" using assms(2) by (simp add: unat_of_nat)
  moreover have "rindex p < psize p" "take (length s) (drop (rindex p + 1) (pdata p)) = s" "rindex p + 1 + length s \<le> psize p"
    using b by (simp_all add: bytes_at_def)
  ultimately show ?thesis
    using assms(2,3) by (simp add: avahi_dns_packet_consume_string_def length_string_bytes)
qed

lemma parse_rdata_type_at:
  assumes "wire_rdata (pdata p) (rindex p) d e" "sent_rdata t d"
  shows "parse_rdata_type p t (e - rindex p) = Ret (p\<lparr>rindex := e\<rparr>, Some d)"
  using assms(2)
proof (cases rule: sent_rdata_cases)
  case (srv x y z n)
  with assms(1) have "bytes_at (pdata p) (rindex p) (be16 x)" "bytes_at (pdata p) (rindex p + 2) (be16 y)"
    "bytes_at (pdata p) (rindex p + 4) (be16 z)" "name_from (pdata p) (rindex p + 6) n e"
    by (simp_all add: bytes_at_split add.assoc del: add_2_eq_Suc')
  with srv show ?thesis
    by (simp add: parse_rdata_type_def and_then_def consume_uint16_at consume_name_from add.assoc del: add_2_eq_Suc')
next
  case (name n)
  with assms(1) show ?thesis
    by (simp add: parse_rdata_type_def and_then_def consume_name_from)
next
  case (hinfo c os)
  with assms(1) have b: "bytes_at (pdata p) (rindex p) (string_bytes c)"
    "bytes_at (pdata p) (rindex p + length (string_bytes c)) (string_bytes os)"
    "e = rindex p + length (string_bytes c) + length (string_bytes os)"
    by (simp_all add: bytes_at_split)
  have "avahi_dns_packet_consume_string p AVAHI_DOMAIN_NAME_MAX =
      Ret (p\<lparr>rindex := rindex p + length (string_bytes c)\<rparr>, Some c)"
    using b(1) hinfo by (intro consume_string_at) (simp_all add: AVAHI_DOMAIN_NAME_MAX_def)
  moreover have "avahi_dns_packet_consume_string (p\<lparr>rindex := rindex p + length (string_bytes c)\<rparr>) AVAHI_DOMAIN_NAME_MAX =
      Ret (p\<lparr>rindex := e\<rparr>, Some os)"
    using consume_string_at [of "p\<lparr>rindex := rindex p + length (string_bytes c)\<rparr>" os AVAHI_DOMAIN_NAME_MAX] b(2,3) hinfo
    by (simp add: AVAHI_DOMAIN_NAME_MAX_def)
  ultimately show ?thesis
    using hinfo by (simp add: parse_rdata_type_def and_then_def)
next
  case (strings l)
  with assms(1) have b: "bytes_at (pdata p) (rindex p) (txt_wire l)" "e = rindex p + length (txt_wire l)"
    by simp_all
  have "0 < length (txt_wire l)"
    by (simp add: length_txt_wire avahi_string_list_serialize_size_def Let_def)
  moreover have "avahi_string_list_parse (txt_wire l) = Some l"
    using parse_serialize [OF strings(3)] by (simp add: txt_wire_def)
  ultimately show ?thesis
    using b strings(1,2) by (simp add: parse_rdata_type_def and_then_def bytes_at_peek bytes_at_skip)
next
  case (a x)
  moreover have "avahi_dns_packet_consume_bytes p (length x) = Ret (p\<lparr>rindex := rindex p + length x\<rparr>, Some x)"
    using assms(1) a by (intro consume_bytes_at) auto
  ultimately show ?thesis using assms(1) by (simp add: parse_rdata_type_def and_then_def)
next
  case (aaaa x)
  moreover have "avahi_dns_packet_consume_bytes p (length x) = Ret (p\<lparr>rindex := rindex p + length x\<rparr>, Some x)"
    using assms(1) aaaa by (intro consume_bytes_at) auto
  ultimately show ?thesis using assms(1) by (simp add: parse_rdata_type_def and_then_def)
next
  case (generic x)
  with assms(1) show ?thesis
    by (cases "x = []") (auto simp: parse_rdata_type_def and_then_def bytes_at_peek bytes_at_skip)
qed

lemma parse_rdata_at:
  assumes "wire_rdata (pdata p) (rindex p) d e" "sent_rdata t d"
  shows "parse_rdata p t (e - rindex p) = Ret (p\<lparr>rindex := e\<rparr>, Some d)"
  using wire_rdata_end [OF assms(1)]
  by (simp add: parse_rdata_def and_then_def parse_rdata_type_at [OF assms] avahi_dns_packet_get_rptr_def)

lemma sent_rdata_valid:
  "sent_rdata (ktype (rkey r)) (rdata r) \<Longrightarrow> avahi_key_is_valid (rkey r) \<Longrightarrow> avahi_record_is_valid r = Ret True"
  by (cases rule: sent_rdata_cases)
    (auto simp: avahi_record_is_valid_def rr_case_def sent_name_key txt_ok_def not_less)

lemma consume_record_at:
  assumes "record_at (pdata p) (rindex p) r flush e" "sent_record r"
  shows "avahi_dns_packet_consume_record p = Ret (p\<lparr>rindex := e\<rparr>, Some (r, flush))"
proof -
  let ?c = "clazz (rkey r)"
  from assms(2) have n: "sent_name AVAHI_DOMAIN_NAME_MAX (name (rkey r))" "?c AND AVAHI_DNS_CACHE_FLUSH = 0"
    "ttl r \<noteq> - 1" "sent_rdata (ktype (rkey r)) (rdata r)" by (simp_all add: sent_record_def)
  note key = sent_name_key [OF n(1) order_refl]
  have "AVAHI_DNS_CACHE_FLUSH \<noteq> 0" by (simp add: AVAHI_DNS_CACHE_FLUSH_def)
  note flags = flag_bits [OF n(2)] flag_bits(5) [OF n(2) this]
  from assms(1) obtain j where j: "name_from (pdata p) (rindex p) (name (rkey r)) j"
    "bytes_at (pdata p) j (record_head r flush (ttl r) (of_nat (e - (j + 10))))"
    "wire_rdata (pdata p) (j + 10) (rdata r) e" "e - (j + 10) < 65536" by (auto simp: record_at_def)
  define c' where "c' = (if flush then ?c OR AVAHI_DNS_CACHE_FLUSH else ?c AND NOT AVAHI_DNS_CACHE_FLUSH)"
  define n16 :: u16 where "n16 = of_nat (e - (j + 10))"
  from j(2) have b: "bytes_at (pdata p) j (be16 (ktype (rkey r)))" "bytes_at (pdata p) (j + 2) (be16 c')"
    "bytes_at (pdata p) (j + 4) (be32 (ttl r))" "bytes_at (pdata p) (j + 8) (be16 n16)"
    unfolding c'_def n16_def record_head_def bytes_at_split by (simp_all add: add.assoc del: add_2_eq_Suc')
  have len: "unat n16 = e - (j + 10)"
    unfolding n16_def using j(4) by (intro of_nat_inverse) simp_all
  have "j + 10 \<le> e" "e \<le> psize p" using wire_rdata_end [OF j(3)] by simp_all
  moreover have "parse_rdata (p\<lparr>rindex := j + 10\<rparr>) (ktype (rkey r)) (e - (j + 10)) = Ret (p\<lparr>rindex := e\<rparr>, Some (rdata r))"
    using parse_rdata_at [of "p\<lparr>rindex := j + 10\<rparr>", OF _ n(4)] j(3) by simp
  moreover have "avahi_record_new_full (name (rkey r)) ?c (ktype (rkey r)) (ttl r) =
      Ret (Some \<lparr>rkey = rkey r, ttl = ttl r, rdata = cleared_data (ktype (rkey r))\<rparr>)"
    using n(3) key(1) by (simp add: avahi_record_new_full_def avahi_record_new_def)
  moreover have "avahi_record_is_valid \<lparr>rkey = rkey r, ttl = ttl r, rdata = rdata r\<rparr> = Ret True"
    using n(4) key(2) by (intro sent_rdata_valid) (simp_all add: avahi_key_is_valid_def)
  moreover have "c' AND NOT AVAHI_DNS_CACHE_FLUSH = ?c" "(c' AND AVAHI_DNS_CACHE_FLUSH \<noteq> 0) = flush"
    using flags by (auto simp: c'_def)
  ultimately show ?thesis
    using b unfolding avahi_dns_packet_consume_record_def Let_def and_then_def
    by (simp add: consume_name_from [OF j(1) n(1)] consume_uint16_at consume_uint32_at len add.assoc
        del: if_split add_2_eq_Suc')
qed

section \<open>Whole packets\<close>

text \<open>
  The contents of a packet under construction: questions and records with the cache flush bit
  and the upper bound for the TTL they are appended with. A packet is filled until something
  does not fit.
\<close>

datatype entry = Question key bool | Answer rr bool u32

fun append_entry :: "bool \<Rightarrow> dns_packet \<Rightarrow> entry \<Rightarrow> (dns_packet \<times> nat option) res" where
  "append_entry sc p (Question k unicast) = avahi_dns_packet_append_key sc p k unicast"
| "append_entry sc p (Answer r flush max_ttl) = avahi_dns_packet_append_record sc p r flush max_ttl"

fun append_entries :: "bool \<Rightarrow> dns_packet \<Rightarrow> entry list \<Rightarrow> (dns_packet \<times> nat) res" where
  "append_entries sc p [] = Ret (p, 0)"
| "append_entries sc p (e # es) =
     (case append_entry sc p e of
        Crash \<Rightarrow> Crash
      | Ret (p', None) \<Rightarrow> Ret (p', 0)
      | Ret (p', Some _) \<Rightarrow> res_map (\<lambda>(q, n). (q, Suc n)) (append_entries sc p' es))"

fun is_question :: "entry \<Rightarrow> bool" where
  "is_question (Question _ _) = True"
| "is_question (Answer _ _ _) = False"

definition consume_entry :: "bool \<Rightarrow> dns_packet \<Rightarrow> (dns_packet \<times> entry option) res" where
  "consume_entry question p =
     (if question then res_map (\<lambda>(q, x). (q, map_option (\<lambda>(k, u). Question k u) x)) (avahi_dns_packet_consume_key p)
      else res_map (\<lambda>(q, x). (q, map_option (\<lambda>(r, f). Answer r f 0) x)) (avahi_dns_packet_consume_record p))"

fun consume_entries :: "bool list \<Rightarrow> dns_packet \<Rightarrow> (dns_packet \<times> entry option list) res" where
  "consume_entries [] p = Ret (p, [])"
| "consume_entries (b # bs) p =
     res_bind (consume_entry b p) (\<lambda>(p, x). res_map (\<lambda>(q, xs). (q, x # xs)) (consume_entries bs p))"

text \<open>What the receiver gets: the TTL has been cut to its bound.\<close>

fun received :: "entry \<Rightarrow> entry" where
  "received (Question k unicast) = Question k unicast"
| "received (Answer r flush max_ttl) = Answer (capped max_ttl r) flush 0"

fun sent_entry :: "entry \<Rightarrow> bool" where
  "sent_entry (Question k _) \<longleftrightarrow> sent_key k"
| "sent_entry (Answer r _ _) \<longleftrightarrow> sent_record r"

fun entry_room :: "entry \<Rightarrow> nat" where
  "entry_room (Question k _) = key_room k"
| "entry_room (Answer r _ _) = record_room r"

fun entry_at :: "byte list \<Rightarrow> nat \<Rightarrow> entry \<Rightarrow> nat \<Rightarrow> bool" where
  "entry_at d i (Question k unicast) e \<longleftrightarrow> key_at d i k unicast e"
| "entry_at d i (Answer r flush max_ttl) e \<longleftrightarrow> record_at d i (capped max_ttl r) flush e"

lemma entry_at_append: "entry_at d i x e \<Longrightarrow> entry_at (d @ y) i x e"
  by (cases x) (auto intro: key_at_append record_at_append)

lemma append_entry_appended:
  "packet_ok sc p \<Longrightarrow> sent_entry x \<Longrightarrow>
   appended sc p (append_entry sc p x) (entry_room x) (\<lambda>p'. entry_at (pdata p') (psize p) x (psize p'))"
  by (cases x)
    (auto intro: append_key_appended append_record_appended simp: sent_key_def sent_record_def)

lemma sent_record_capped: "sent_record r \<Longrightarrow> sent_record (capped m r)"
proof -
  assume r: "sent_record r"
  have "m \<noteq> - 1" if "m < ttl r" using that word_order.extremum_strict by blast
  with r show ?thesis by (auto simp: sent_record_def capped_def)
qed

lemma consume_entry_at:
  assumes "entry_at (pdata p) (rindex p) x e" "sent_entry x"
  shows "consume_entry (is_question x) p = Ret (p\<lparr>rindex := e\<rparr>, Some (received x))"
proof (cases x)
  case (Question k unicast)
  with assms show ?thesis by (simp add: consume_entry_def consume_key_at)
next
  case (Answer r flush m)
  with assms have "avahi_dns_packet_consume_record p = Ret (p\<lparr>rindex := e\<rparr>, Some (capped m r, flush))"
    by (intro consume_record_at) (simp_all add: sent_record_capped)
  with Answer show ?thesis by (simp add: consume_entry_def)
qed

text \<open>A sequence of entries in a packet.\<close>

inductive entries_at :: "byte list \<Rightarrow> nat \<Rightarrow> entry list \<Rightarrow> nat \<Rightarrow> bool" where
  entries_Nil: "entries_at d i [] i"
| entries_Cons: "entry_at d i x j \<Longrightarrow> entries_at d j xs e \<Longrightarrow> entries_at d i (x # xs) e"

lemma consume_entries_at:
  "entries_at (pdata p) i xs e \<Longrightarrow> \<forall>x \<in> set xs. sent_entry x \<Longrightarrow> rindex p = i \<Longrightarrow>
   consume_entries (map is_question xs) p = Ret (p\<lparr>rindex := e\<rparr>, map (\<lambda>x. Some (received x)) xs)"
proof (induction "pdata p" i xs e arbitrary: p rule: entries_at.induct)
  case (entries_Nil i)
  then show ?case by (cases p) simp
next
  case (entries_Cons i x j xs e)
  from entries_Cons.prems entries_Cons.hyps(1)
  have "consume_entry (is_question x) p = Ret (p\<lparr>rindex := j\<rparr>, Some (received x))"
    by (intro consume_entry_at) simp_all
  with entries_Cons.hyps(3) [of "p\<lparr>rindex := j\<rparr>"] entries_Cons.prems show ?case by simp
qed

lemma append_entries_correct:
  "packet_ok sc p \<Longrightarrow> \<forall>x \<in> set xs. sent_entry x \<Longrightarrow>
   \<exists>q n. append_entries sc p xs = Ret (q, n) \<and> n \<le> length xs \<and> packet_ok sc q \<and>
     (\<exists>bs. pdata q = pdata p @ bs) \<and> rindex q = rindex p \<and> max_size q = max_size p \<and>
     (psize p + sum_list (map entry_room xs) \<le> max_size p \<longrightarrow> n = length xs) \<and>
     psize q \<le> psize p + sum_list (map entry_room xs) \<and>
     entries_at (pdata q) (psize p) (take n xs) (psize q)"
proof (induction xs arbitrary: p)
  case Nil
  then show ?case by (auto intro: entries_Nil)
next
  case (Cons x xs)
  then have "appended sc p (append_entry sc p x) (entry_room x) (\<lambda>p'. entry_at (pdata p') (psize p) x (psize p'))"
    by (intro append_entry_appended) simp_all
  then obtain p' r where r: "append_entry sc p x = Ret (p', r)" "psize p + entry_room x \<le> max_size p \<longrightarrow> r \<noteq> None"
    "case r of None \<Rightarrow> undone sc p p' \<and> packet_ok sc p'
     | Some i \<Rightarrow> i = psize p \<and> packet_ok sc p' \<and> grown sc p p' \<and> psize p' \<le> psize p + entry_room x \<and>
         entry_at (pdata p') (psize p) x (psize p')"
    by (auto simp: appended_def)
  show ?case
  proof (cases r)
    case None
    with r show ?thesis by (auto simp: undone_def intro: entries_Nil)
  next
    case (Some i)
    with r have p': "packet_ok sc p'" "grown sc p p'" "entry_at (pdata p') (psize p) x (psize p')"
      and len: "psize p' \<le> psize p + entry_room x" by simp_all
    from Cons.IH [OF p'(1)] Cons.prems obtain q n where q: "append_entries sc p' xs = Ret (q, n)" "n \<le> length xs"
      "packet_ok sc q" "\<exists>bs. pdata q = pdata p' @ bs" "rindex q = rindex p'" "max_size q = max_size p'"
      "psize p' + sum_list (map entry_room xs) \<le> max_size p' \<longrightarrow> n = length xs"
      "psize q \<le> psize p' + sum_list (map entry_room xs)"
      "entries_at (pdata q) (psize p') (take n xs) (psize q)" by auto
    have "entry_at (pdata q) (psize p) x (psize p')" using p'(3) q(4) by (auto intro: entry_at_append)
    then have "entries_at (pdata q) (psize p) (x # take n xs) (psize q)" using q(9) by (rule entries_Cons)
    with r(1) Some p'(2) q len show ?thesis by (auto simp: grown_def same_frame_def)
  qed
qed

section \<open>New packets, estimates\<close>

lemma packet_ok_new: "packet_ok sc (avahi_dns_packet_new mtu)"
  by (simp add: packet_ok_def table_ok_def avahi_dns_packet_new_def table_lookup_def Let_def
      AVAHI_DNS_PACKET_HEADER_SIZE_def)

lemma new_response:
  "\<exists>p. avahi_dns_packet_new_response mtu aa = Ret p \<and> packet_ok sc p \<and> psize p = 12 \<and> rindex p = 12 \<and>
     max_size p = max_size (avahi_dns_packet_new mtu)"
  by (simp add: avahi_dns_packet_new_response_def avahi_dns_packet_set_field_def avahi_dns_packet_new_def put_def
      overwrite_def packet_ok_def table_ok_def table_lookup_def Let_def AVAHI_DNS_PACKET_HEADER_SIZE_def
      AVAHI_DNS_FIELD_FLAGS_def)

lemma estimate_room:
  assumes "sent_record r"
  shows "\<exists>n. avahi_record_get_estimate_size r = Ret n \<and> record_room r \<le> n + 2"
proof -
  from assms have "sent_rdata (ktype (rkey r)) (rdata r)" by (simp add: sent_record_def)
  then show ?thesis
    by (cases rule: sent_rdata_cases)
      (auto simp: avahi_record_get_estimate_size_def rr_case_def record_room_def avahi_key_get_estimate_size_def)
qed

lemma undone_same: "undone sc p p' \<Longrightarrow> \<exists>t. p' = p\<lparr>name_table := t\<rparr>"
  by (intro exI [of _ "name_table p'"]) (cases p; cases p'; simp add: undone_def)

section \<open>Properties\<close>

text \<open>
  Property C30. What is sent is what is received. A response is filled with questions and
  records, in canonical form and with names of at most 63 labels, until one does not fit; the
  packet never exceeds its size. The receiver, reading as many questions and records from the
  first byte after the header, gets exactly those that went in, in order, each with its
  flush or unicast bit and its TTL cut to the bound, whatever names were compressed and
  however the pointers are nested, and ends where the sender ended. Everything goes in when
  the uncompressed sizes fit.
\<close>

theorem packet_roundtrip:
  assumes "\<forall>x \<in> set xs. sent_entry x"
  shows "\<exists>p0 p n. avahi_dns_packet_new_response mtu aa = Ret p0 \<and> append_entries sc p0 xs = Ret (p, n) \<and>
    n \<le> length xs \<and> psize p \<le> max_size p \<and>
    (12 + sum_list (map entry_room xs) \<le> max_size p \<longrightarrow> n = length xs) \<and>
    consume_entries (map is_question (take n xs)) p =
      Ret (p\<lparr>rindex := psize p\<rparr>, map (\<lambda>x. Some (received x)) (take n xs))"
proof -
  obtain p0 where p0: "avahi_dns_packet_new_response mtu aa = Ret p0" "packet_ok sc p0" "psize p0 = 12" "rindex p0 = 12"
    using new_response by blast
  from append_entries_correct [OF p0(2) assms] obtain p n where p: "append_entries sc p0 xs = Ret (p, n)"
    "n \<le> length xs" "packet_ok sc p" "rindex p = rindex p0" "max_size p = max_size p0"
    "psize p0 + sum_list (map entry_room xs) \<le> max_size p0 \<longrightarrow> n = length xs"
    "entries_at (pdata p) (psize p0) (take n xs) (psize p)" by blast
  have "\<forall>x \<in> set (take n xs). sent_entry x" using assms by (auto dest: in_set_takeD)
  with p p0 have "consume_entries (map is_question (take n xs)) p =
      Ret (p\<lparr>rindex := psize p\<rparr>, map (\<lambda>x. Some (received x)) (take n xs))"
    by (intro consume_entries_at) simp_all
  with p0 p show ?thesis by (auto simp: packet_ok_def)
qed

definition example_entries :: "entry list" where
  "example_entries =
     [Question \<lparr>name = str ''a.local'', clazz = 1, ktype = AVAHI_DNS_TYPE_A\<rparr> True,
      Answer \<lparr>rkey = \<lparr>name = str ''a.local'', clazz = 1, ktype = AVAHI_DNS_TYPE_A\<rparr>, ttl = 120, rdata = A [1, 2, 3, 4]\<rparr> True 10,
      Answer \<lparr>rkey = \<lparr>name = str ''p.local'', clazz = 1, ktype = AVAHI_DNS_TYPE_PTR\<rparr>, ttl = 120,
              rdata = Name (str ''x.p.local'')\<rparr> False 0]"

lemma packet_roundtrip_witness:
  "\<exists>p0 p n. avahi_dns_packet_new_response 500 True = Ret p0 \<and> append_entries True p0 example_entries = Ret (p, n) \<and>
    n \<le> length example_entries \<and> psize p \<le> max_size p \<and>
    consume_entries (map is_question (take n example_entries)) p =
      Ret (p\<lparr>rindex := psize p\<rparr>, map (\<lambda>x. Some (received x)) (take n example_entries))"
proof -
  have "\<forall>x \<in> set example_entries. sent_entry x" by code_simp
  from packet_roundtrip [OF this] show ?thesis by blast
qed

text \<open>
  Property C32. Appending a record is all or nothing. On a packet whose name table is
  consistent, \<open>avahi_dns_packet_append_record\<close> either appends the record, or returns NULL with
  the bytes and sizes as they were and with no entry left in the name table for what was taken
  back, however far it had come. It succeeds whenever two bytes more than the estimate of
  \<open>avahi_record_get_estimate_size\<close>, which counts one byte too few for each name, are free.
\<close>

theorem append_record_all_or_nothing:
  assumes "packet_ok sc p" "sent_record r"
  shows "\<exists>p' x n. avahi_dns_packet_append_record sc p r flush max_ttl = Ret (p', x) \<and> packet_ok sc p' \<and>
    (case x of
       None \<Rightarrow> (\<exists>t. p' = p\<lparr>name_table := t\<rparr>) \<and> (\<forall>nm. table_lookup sc p' nm = table_lookup sc p nm)
     | Some i \<Rightarrow> i = psize p \<and> (\<exists>bs. pdata p' = pdata p @ bs) \<and>
         avahi_dns_packet_consume_record (p'\<lparr>rindex := psize p\<rparr>) =
           Ret (p'\<lparr>rindex := psize p'\<rparr>, Some (capped max_ttl r, flush))) \<and>
    avahi_record_get_estimate_size r = Ret n \<and> (psize p + n + 2 \<le> max_size p \<longrightarrow> x \<noteq> None)"
proof -
  from assms(2) have "appended sc p (avahi_dns_packet_append_record sc p r flush max_ttl) (record_room r)
      (\<lambda>p'. record_at (pdata p') (psize p) (capped max_ttl r) flush (psize p'))"
    by (intro append_record_appended assms(1)) (auto simp: sent_record_def)
  then obtain p' x where x: "avahi_dns_packet_append_record sc p r flush max_ttl = Ret (p', x)" "packet_ok sc p'"
    "psize p + record_room r \<le> max_size p \<longrightarrow> x \<noteq> None" "x = None \<longrightarrow> undone sc p p'"
    "\<forall>i. x = Some i \<longrightarrow> i = psize p \<and> grown sc p p' \<and> record_at (pdata p') (psize p) (capped max_ttl r) flush (psize p')"
    by (auto simp: appended_def split: option.splits)
  obtain n where n: "avahi_record_get_estimate_size r = Ret n" "record_room r \<le> n + 2"
    using estimate_room [OF assms(2)] by blast
  have "avahi_dns_packet_consume_record (p'\<lparr>rindex := psize p\<rparr>) =
      Ret (p'\<lparr>rindex := psize p'\<rparr>, Some (capped max_ttl r, flush))" if "x = Some i" for i
    using consume_record_at [of "p'\<lparr>rindex := psize p\<rparr>" "capped max_ttl r" flush "psize p'"] x(5) that
    by (simp add: sent_record_capped [OF assms(2)])
  with x n show ?thesis
    by (cases x) (auto simp: grown_def undone_def intro: undone_same)
qed

lemma append_record_all_or_nothing_witness:
  "let p = avahi_dns_packet_new 100;
       r = \<lparr>rkey = \<lparr>name = str ''p.local'', clazz = 1, ktype = AVAHI_DNS_TYPE_PTR\<rparr>, ttl = 120, rdata = Name (str ''x.p.local'')\<rparr>
   in \<exists>p' x n. avahi_dns_packet_append_record True p r True 0 = Ret (p', x) \<and> packet_ok True p' \<and>
    (case x of
       None \<Rightarrow> (\<exists>t. p' = p\<lparr>name_table := t\<rparr>) \<and> (\<forall>nm. table_lookup True p' nm = table_lookup True p nm)
     | Some i \<Rightarrow> i = psize p \<and> (\<exists>bs. pdata p' = pdata p @ bs) \<and>
         avahi_dns_packet_consume_record (p'\<lparr>rindex := psize p\<rparr>) =
           Ret (p'\<lparr>rindex := psize p'\<rparr>, Some (capped 0 r, True))) \<and>
    avahi_record_get_estimate_size r = Ret n"
proof -
  let ?p = "avahi_dns_packet_new 100"
  let ?r = "\<lparr>rkey = \<lparr>name = str ''p.local'', clazz = 1, ktype = AVAHI_DNS_TYPE_PTR\<rparr>, ttl = 120, rdata = Name (str ''x.p.local'')\<rparr>"
  have "sent_record ?r" by code_simp
  from append_record_all_or_nothing [OF packet_ok_new [of True 100] this, of True 0] show ?thesis unfolding Let_def by blast
qed

end
