(* ===== verification/Dns_Packets.thy ===== *)
theory Dns_Packets
  imports Dns_Records
begin

text \<open>
  Packets as the schedulers and the server build them: header fields are set before, between and
  after appending questions and records. \<open>holds\<close> relates a packet to what is in it.
\<close>

section \<open>The header does not matter for what follows it\<close>

definition same_body :: "byte list \<Rightarrow> byte list \<Rightarrow> bool" where
  "same_body d d' \<longleftrightarrow> length d' = length d \<and> drop 12 d' = drop 12 d"

lemma nth_after_drop: "12 \<le> i \<Longrightarrow> i < length d \<Longrightarrow> drop 12 d ! (i - 12) = d ! i"
  by simp

lemma same_body_nth: "same_body d d' \<Longrightarrow> 12 \<le> i \<Longrightarrow> i < length d \<Longrightarrow> d' ! i = d ! i"
  unfolding same_body_def using nth_after_drop [of i d] nth_after_drop [of i d'] by metis

lemma same_body_drop: "same_body d d' \<Longrightarrow> 12 \<le> i \<Longrightarrow> drop i d' = drop i d"
  unfolding same_body_def by (metis drop_drop le_add_diff_inverse2)

lemma wire_name_body: "wire_name d i ls e \<Longrightarrow> 12 \<le> i \<Longrightarrow> same_body d d' \<Longrightarrow> wire_name d' i ls e"
proof (induction rule: wire_name.induct)
  case (wire_end i d)
  then show ?case by (intro wire_name.wire_end) (simp_all add: same_body_nth, simp add: same_body_def)
next
  case (wire_label i l d ls e)
  then have "drop (i + 1) d' = drop (i + 1) d" "length d' = length d" "d' ! i = d ! i"
    by (simp_all add: same_body_drop same_body_nth) (simp add: same_body_def)
  with wire_label show ?case by (intro wire_name.wire_label) simp_all
next
  case (wire_pointer i d j ls e)
  then have "drop i d' = drop i d" "length d' = length d" "d' ! j = d ! j"
    by (simp_all add: same_body_drop same_body_nth) (simp add: same_body_def)
  with wire_pointer show ?case by (intro wire_name.wire_pointer [where j = j]) simp_all
qed

lemma bytes_at_body: "bytes_at d i b \<Longrightarrow> 12 \<le> i \<Longrightarrow> same_body d d' \<Longrightarrow> bytes_at d' i b"
  by (simp add: bytes_at_def same_body_drop) (simp add: same_body_def)

lemma name_from_body: "name_from d i n e \<Longrightarrow> 12 \<le> i \<Longrightarrow> same_body d d' \<Longrightarrow> name_from d' i n e"
  unfolding name_from_def using wire_name_body by blast

lemma wire_rdata_body: "wire_rdata d i x e \<Longrightarrow> 12 \<le> i \<Longrightarrow> same_body d d' \<Longrightarrow> wire_rdata d' i x e"
  by (cases x) (auto simp: bytes_at_body name_from_body)

lemma name_from_end: "name_from d i n e \<Longrightarrow> i < e \<and> e \<le> length d"
  unfolding name_from_def using wire_name_end by blast

lemma entry_at_body:
  assumes "entry_at d i x e" "12 \<le> i" "same_body d d'"
  shows "entry_at d' i x e"
proof (cases x)
  case (Question k u)
  with assms obtain j where "name_from d i (name k) j" "e = j + 4"
    "bytes_at d j (be16 (ktype k) @ be16 (clazz k OR (if u then AVAHI_DNS_UNICAST_RESPONSE else 0)))"
    by (auto simp: key_at_def)
  with assms(2,3) Question name_from_end [of d i "name k" j] name_from_body bytes_at_body show ?thesis
    by (auto simp: key_at_def)
next
  case (Answer r f m)
  with assms obtain j where j: "name_from d i (name (rkey r)) j"
    "bytes_at d j (record_head r f (ttl (capped m r)) (of_nat (e - (j + 10))))"
    "wire_rdata d (j + 10) (rdata r) e" "e - (j + 10) < 65536"
    by (auto simp: record_at_def)
  then have "12 \<le> j" using name_from_end assms(2) by fastforce
  with j assms(2,3) Answer name_from_body bytes_at_body wire_rdata_body show ?thesis
    unfolding entry_at.simps Answer record_at_def capped_simps by (meson trans_le_add1)
qed

lemma entry_at_end: "entry_at d i x e \<Longrightarrow> i < e \<and> e \<le> length d"
  by (cases x) (auto simp: key_at_def record_at_def bytes_at_def dest!: name_from_end wire_rdata_end)

lemma entries_at_body: "entries_at d i xs e \<Longrightarrow> 12 \<le> i \<Longrightarrow> same_body d d' \<Longrightarrow> entries_at d' i xs e"
proof (induction rule: entries_at.induct)
  case (entries_Cons d i x j xs e)
  with entry_at_body [of d i x j d'] entry_at_end [of d i x j] show ?case by (auto intro: entries_at.entries_Cons)
qed (rule entries_Nil)

lemma entries_at_end: "entries_at d i xs e \<Longrightarrow> i + length xs \<le> e"
  by (induction rule: entries_at.induct) (auto dest: entry_at_end)

lemma entries_at_append: "entries_at d i xs e \<Longrightarrow> entries_at (d @ y) i xs e"
  by (induction rule: entries_at.induct) (auto intro: entries_at.intros entry_at_append)

lemma entries_at_snoc: "entries_at d i xs j \<Longrightarrow> entry_at d j x e \<Longrightarrow> entries_at d i (xs @ [x]) e"
  by (induction rule: entries_at.induct) (auto intro: entries_at.intros)

section \<open>Header fields\<close>

definition header :: "dns_packet \<Rightarrow> nat \<Rightarrow> u16" where
  "header p j = from_be16 (pdata p ! (2 * j)) (pdata p ! (2 * j + 1))"

lemma get_field: "12 \<le> psize p \<Longrightarrow> j < 6 \<Longrightarrow> avahi_dns_packet_get_field p j = Ret (header p j)"
  by (simp add: avahi_dns_packet_get_field_def header_def AVAHI_DNS_PACKET_HEADER_SIZE_def)

lemma overwrite_nth:
  "off + length b \<le> length d \<Longrightarrow> i < length d \<Longrightarrow>
   overwrite off b d ! i = (if off \<le> i \<and> i < off + length b then b ! (i - off) else d ! i)"
  by (auto simp: overwrite_def nth_append min_def)

lemma length_overwrite [simp]: "off + length b \<le> length d \<Longrightarrow> length (overwrite off b d) = length d"
  by (simp add: overwrite_def)

lemma set_field:
  assumes "12 \<le> psize p" "j < 6"
  shows "avahi_dns_packet_set_field p j v = Ret (put p (2 * j) (be16 v))"
    and "same_body (pdata p) (pdata (put p (2 * j) (be16 v)))"
    and "k < 6 \<Longrightarrow> header (put p (2 * j) (be16 v)) k = (if k = j then v else header p k)"
proof -
  show "avahi_dns_packet_set_field p j v = Ret (put p (2 * j) (be16 v))"
    using assms by (simp add: avahi_dns_packet_set_field_def AVAHI_DNS_PACKET_HEADER_SIZE_def)
  have len: "2 * j + length (be16 v) \<le> psize p" using assms by (simp add: be16_def)
  show "same_body (pdata p) (pdata (put p (2 * j) (be16 v)))"
    unfolding same_body_def
  proof
    show "psize (put p (2 * j) (be16 v)) = psize p" using len by (simp add: put_def)
    show "drop 12 (pdata (put p (2 * j) (be16 v))) = drop 12 (pdata p)"
    proof (rule nth_equalityI)
      fix i assume "i < length (drop 12 (pdata (put p (2 * j) (be16 v))))"
      then show "drop 12 (pdata (put p (2 * j) (be16 v))) ! i = drop 12 (pdata p) ! i"
        using len assms by (simp add: put_def overwrite_nth be16_def)
    qed (use len in \<open>simp add: put_def\<close>)
  qed
  assume k: "k < 6"
  consider "k = j" | "k < j" | "j < k" by linarith
  then show "header (put p (2 * j) (be16 v)) k = (if k = j then v else header p k)"
    using len assms k by cases (simp_all add: header_def put_def overwrite_nth be16_def from_be16_be16)
qed

lemma header_append: "12 \<le> psize p \<Longrightarrow> j < 6 \<Longrightarrow> pdata q = pdata p @ b \<Longrightarrow> header q j = header p j"
  by (simp add: header_def nth_append)

section \<open>What is in a packet\<close>

text \<open>
  Behind the header, the packet consists of the questions and records \<open>xs\<close>; its name table may
  be used for more.
\<close>

definition holds :: "bool \<Rightarrow> dns_packet \<Rightarrow> entry list \<Rightarrow> bool" where
  "holds sc p xs \<longleftrightarrow> packet_ok sc p \<and> rindex p = 12 \<and> (\<forall>x \<in> set xs. sent_entry x) \<and> entries_at (pdata p) 12 xs (psize p)"

definition packet_max :: "nat \<Rightarrow> nat" where
  "packet_max mtu = max_size (avahi_dns_packet_new mtu)"

lemma holds_size: "holds sc p xs \<Longrightarrow> 12 \<le> psize p \<and> psize p \<le> max_size p"
  by (auto simp: holds_def packet_ok_def table_ok_def)

lemma holds_put:
  assumes "holds sc p xs" "j < 6"
  shows "holds sc (put p (2 * j) (be16 v)) xs"
proof -
  let ?q = "put p (2 * j) (be16 v)"
  have h: "12 \<le> psize p" using holds_size [OF assms(1)] by simp
  have same: "same_body (pdata p) (pdata ?q)" using set_field(2) [OF h assms(2)] .
  have frame: "rindex ?q = rindex p" "max_size ?q = max_size p" "name_table ?q = name_table p" by (simp_all add: put_def)
  have len: "psize ?q = psize p" using same by (simp add: same_body_def)
  have look: "table_lookup sc ?q nm = table_lookup sc p nm" for nm using frame by (simp add: table_lookup_def)
  have "name_at (pdata ?q) nm v'" if "name_at (pdata p) nm v'" for nm v'
    using that same_body_nth [OF same] wire_name_body [OF _ _ same] len unfolding name_at_def by metis
  then have "table_ok sc ?q"
    using assms(1) frame len by (auto simp: holds_def packet_ok_def table_ok_def table_inv_def look)
  moreover have "entries_at (pdata ?q) 12 xs (psize ?q)"
    using assms(1) entries_at_body [OF _ _ same] len by (simp add: holds_def)
  ultimately show ?thesis using assms(1) frame len by (simp add: holds_def packet_ok_def)
qed

lemma set_field_holds:
  assumes "holds sc p xs" "j < 6"
  obtains p' where "avahi_dns_packet_set_field p j v = Ret p'" "holds sc p' xs" "psize p' = psize p" "max_size p' = max_size p"
    "\<And>k. k < 6 \<Longrightarrow> header p' k = (if k = j then v else header p k)"
proof -
  have h: "12 \<le> psize p" using holds_size [OF assms(1)] by simp
  note f = set_field [OF h assms(2), where v = v]
  have "psize (put p (2 * j) (be16 v)) = psize p" using f(2) by (simp add: same_body_def)
  with that f holds_put [OF assms] show thesis by (simp add: put_def)
qed

lemma holds_new:
  obtains p where "avahi_dns_packet_set_field (avahi_dns_packet_new mtu) AVAHI_DNS_FIELD_FLAGS v = Ret p" "holds sc p []"
    "psize p = 12" "max_size p = packet_max mtu" "\<And>k. k < 6 \<Longrightarrow> header p k = (if k = AVAHI_DNS_FIELD_FLAGS then v else 0)"
proof -
  let ?p = "avahi_dns_packet_new mtu"
  have e: "psize ?p = 12" "rindex ?p = 12" by (simp_all add: avahi_dns_packet_new_def Let_def AVAHI_DNS_PACKET_HEADER_SIZE_def)
  have "holds sc ?p []"
    using packet_ok_new e entries_Nil [of "pdata ?p" 12] by (simp add: holds_def)
  moreover have "header ?p k = 0" if "k < 6" for k
    using that by (simp add: header_def avahi_dns_packet_new_def Let_def AVAHI_DNS_PACKET_HEADER_SIZE_def from_be16_def)
  moreover have "AVAHI_DNS_FIELD_FLAGS < 6" by (simp add: AVAHI_DNS_FIELD_FLAGS_def)
  ultimately show thesis
    using set_field_holds [of sc ?p "[]" AVAHI_DNS_FIELD_FLAGS v] that e by (metis packet_max_def)
qed

text \<open>Appending to a packet: done, with the sender's estimate as a bound, or nothing changed.\<close>

lemma append_holds_room:
  assumes "holds sc p xs" "sent_entry x"
    and "appended sc p (append_entry sc p x) n (\<lambda>p'. entry_at (pdata p') (psize p) x (psize p'))"
  obtains p' r where "append_entry sc p x = Ret (p', r)" "\<And>k. k < 6 \<Longrightarrow> header p' k = header p k" "max_size p' = max_size p"
    "case r of None \<Rightarrow> holds sc p' xs \<and> psize p' = psize p \<and> max_size p < psize p + n
     | Some i \<Rightarrow> holds sc p' (xs @ [x]) \<and> psize p < psize p' \<and> psize p' \<le> psize p + n"
proof -
  have ok: "packet_ok sc p" "rindex p = 12" "entries_at (pdata p) 12 xs (psize p)" "\<forall>x \<in> set xs. sent_entry x" "12 \<le> psize p"
    using assms(1) holds_size by (auto simp: holds_def)
  from assms(3) obtain p' r where
    r: "append_entry sc p x = Ret (p', r)" "psize p + n \<le> max_size p \<longrightarrow> r \<noteq> None"
    "case r of None \<Rightarrow> undone sc p p' \<and> packet_ok sc p'
     | Some i \<Rightarrow> i = psize p \<and> packet_ok sc p' \<and> grown sc p p' \<and> psize p' \<le> psize p + n \<and>
         entry_at (pdata p') (psize p) x (psize p')"
    by (auto simp: appended_def)
  show thesis
  proof (cases r)
    case None
    with r(3) have u: "undone sc p p'" "packet_ok sc p'" by simp_all
    have "holds sc p' xs" using u ok by (simp add: holds_def undone_def)
    with None r u ok show thesis by (intro that [OF r(1)]) (auto simp: undone_def header_def)
  next
    case (Some i)
    with r(3) have g: "packet_ok sc p'" "grown sc p p'" "psize p' \<le> psize p + n"
      "entry_at (pdata p') (psize p) x (psize p')" by simp_all
    from g(2) obtain b where b: "pdata p' = pdata p @ b" by (auto simp: grown_def)
    have "rindex p' = 12" "max_size p' = max_size p" using g(2) ok(2) by (auto simp: grown_def same_frame_def)
    moreover have "entries_at (pdata p') 12 (xs @ [x]) (psize p')"
      using entries_at_snoc [OF _ g(4)] entries_at_append [OF ok(3)] b by simp
    ultimately have "holds sc p' (xs @ [x])" using g(1) ok(4) assms(2) by (simp add: holds_def)
    with Some r(1) g(3) entry_at_end [OF g(4)] header_append [OF ok(5) _ b] \<open>max_size p' = max_size p\<close> show thesis
      by (intro that [OF r(1)]) auto
  qed
qed

lemma append_holds:
  assumes "holds sc p xs" "sent_entry x"
  obtains p' r where "append_entry sc p x = Ret (p', r)" "\<And>k. k < 6 \<Longrightarrow> header p' k = header p k" "max_size p' = max_size p"
    "case r of None \<Rightarrow> holds sc p' xs \<and> psize p' = psize p \<and> max_size p < psize p + entry_room x
     | Some i \<Rightarrow> holds sc p' (xs @ [x]) \<and> psize p < psize p' \<and> psize p' \<le> psize p + entry_room x"
proof -
  have "packet_ok sc p" using assms(1) by (simp add: holds_def)
  from append_holds_room [OF assms append_entry_appended [OF this assms(2)]] that show thesis by blast
qed

lemma append_key_holds:
  assumes "holds sc p xs" "sent_key k"
  obtains p' r where "avahi_dns_packet_append_key sc p k u = Ret (p', r)" "\<And>k. k < 6 \<Longrightarrow> header p' k = header p k" "max_size p' = max_size p"
    "case r of None \<Rightarrow> holds sc p' xs \<and> psize p' = psize p \<and> max_size p < psize p + key_room k
     | Some i \<Rightarrow> holds sc p' (xs @ [Question k u]) \<and> psize p < psize p' \<and> psize p' \<le> psize p + key_room k"
proof -
  have "sent_entry (Question k u)" using assms(2) by simp
  from append_holds [OF assms(1) this] show thesis by (metis append_entry.simps(1) entry_room.simps(1) that)
qed

lemma append_record_holds:
  assumes "holds sc p xs" "sent_record r"
  obtains p' x where "avahi_dns_packet_append_record sc p r f m = Ret (p', x)" "\<And>k. k < 6 \<Longrightarrow> header p' k = header p k" "max_size p' = max_size p"
    "case x of None \<Rightarrow> holds sc p' xs \<and> psize p' = psize p \<and> max_size p < psize p + record_room r
     | Some i \<Rightarrow> holds sc p' (xs @ [Answer r f m]) \<and> psize p < psize p' \<and> psize p' \<le> psize p + record_room r"
proof -
  have "sent_entry (Answer r f m)" using assms(2) by simp
  from append_holds [OF assms(1) this] show thesis by (metis append_entry.simps(2) entry_room.simps(2) that)
qed

text \<open>A record whose name has been written before, which is replaced by a pointer.\<close>

lemma append_record_known_holds:
  assumes "holds sc p xs" "sent_record r" "name (rkey r) \<noteq> []" "table_lookup sc p (name (rkey r)) = Some idx" "idx < 0x4000"
  obtains p' x where "avahi_dns_packet_append_record sc p r f m = Ret (p', x)" "\<And>k. k < 6 \<Longrightarrow> header p' k = header p k" "max_size p' = max_size p"
    "case x of None \<Rightarrow> holds sc p' xs \<and> psize p' = psize p \<and> max_size p < psize p + (12 + rdata_room (rdata r))
     | Some i \<Rightarrow> holds sc p' (xs @ [Answer r f m])"
proof -
  have "packet_ok sc p" "sent_name AVAHI_DOMAIN_NAME_MAX (name (rkey r))" "sent_rdata (ktype (rkey r)) (rdata r)"
    using assms(1,2) by (simp_all add: holds_def sent_record_def)
  note app = append_record_known [OF this assms(3-5), of f m]
  have "sent_entry (Answer r f m)" using assms(2) by simp
  from append_holds_room [OF assms(1) this, of "12 + rdata_room (rdata r)"] app obtain p' x where
    "avahi_dns_packet_append_record sc p r f m = Ret (p', x)" "\<And>k. k < 6 \<Longrightarrow> header p' k = header p k" "max_size p' = max_size p"
    "case x of None \<Rightarrow> holds sc p' xs \<and> psize p' = psize p \<and> max_size p < psize p + (12 + rdata_room (rdata r))
     | Some i \<Rightarrow> holds sc p' (xs @ [Answer r f m]) \<and> psize p < psize p' \<and> psize p' \<le> psize p + (12 + rdata_room (rdata r))"
    by auto
  then show thesis by (intro that [of p' x]) (auto split: option.splits)
qed

lemma holds_empty: "holds sc p xs \<Longrightarrow> avahi_dns_packet_is_empty p \<longleftrightarrow> xs = []"
proof -
  assume h: "holds sc p xs"
  then have "12 + length xs \<le> psize p" using entries_at_end by (auto simp: holds_def)
  moreover have "psize p = 12" if "xs = []" using h that by (auto simp: holds_def elim: entries_at.cases)
  ultimately show ?thesis by (cases xs) (auto simp: avahi_dns_packet_is_empty_def AVAHI_DNS_PACKET_HEADER_SIZE_def)
qed

text \<open>What a receiver gets out of the packet.\<close>

lemma holds_read:
  "holds sc p xs \<Longrightarrow> consume_entries (map is_question xs) p = Ret (p\<lparr>rindex := psize p\<rparr>, map (\<lambda>x. Some (received x)) xs)"
  by (intro consume_entries_at) (simp_all add: holds_def)

end
