(* ===== verification/Query_Sched.thy ===== *)
theory Query_Sched
  imports Cache_Inv Dns_Packets
begin

text \<open>
  \<open>avahi-core/query-sched.c\<close>: the queries an interface is going to send or has sent recently. Jobs
  are numbers in a store, on the list \<open>qjobs\<close> or, once sent or seen from another host, on
  \<open>qhistory\<close>; the pending time event of a job is the time for which it is scheduled. Packets
  handed to the interface are collected in \<open>qsent\<close>. The clock is the argument \<open>now\<close>, the MTU
  of the interface an argument, its cache the one of \<open>Cache\<close>.
\<close>

section \<open>State\<close>

definition AVAHI_QUERY_HISTORY_MSEC :: int where "AVAHI_QUERY_HISTORY_MSEC = 100"
definition AVAHI_QUERY_DEFER_MSEC :: int where "AVAHI_QUERY_DEFER_MSEC = 100"

record qjob =
  qid :: u32
  n_posted :: int
  qtime_event :: "timeval option"
  qdone :: bool
  qdelivery :: timeval
  qkey :: key

record query_sched =
  qstore :: "nat \<Rightarrow> qjob option"
  qjobs :: "nat list"
  qhistory :: "nat list"
  known_answers :: "rr list"
  next_id :: u32
  qfresh :: nat
  qsent :: "dns_packet list"

definition avahi_query_scheduler_new :: query_sched where
  "avahi_query_scheduler_new =
     \<lparr>qstore = Map.empty, qjobs = [], qhistory = [], known_answers = [], next_id = 0, qfresh = 0, qsent = []\<rparr>"

definition set_job :: "nat \<Rightarrow> qjob \<Rightarrow> query_sched \<Rightarrow> query_sched" where
  "set_job i j s = s\<lparr>qstore := (qstore s)(i \<mapsto> j)\<rparr>"

text \<open>The delivery time of a new job is set by the callers.\<close>

definition job_new :: "query_sched \<Rightarrow> key \<Rightarrow> bool \<Rightarrow> timeval \<Rightarrow> query_sched \<times> nat" where
  "job_new s k finished tv =
     (let i = qfresh s;
          j = \<lparr>qid = next_id s, n_posted = 1, qtime_event = None, qdone = finished, qdelivery = tv, qkey = k\<rparr>;
          s = set_job i j (s\<lparr>next_id := next_id s + 1, qfresh := Suc i\<rparr>)
      in (if finished then s\<lparr>qhistory := i # qhistory s\<rparr> else s\<lparr>qjobs := i # qjobs s\<rparr>, i))"

definition job_free :: "query_sched \<Rightarrow> nat \<Rightarrow> query_sched res" where
  "job_free s i =
     (case qstore s i of
        None \<Rightarrow> Crash
      | Some j \<Rightarrow>
          let s = s\<lparr>qstore := (qstore s)(i := None)\<rparr>
          in Ret (if qdone j then s\<lparr>qhistory := remove1 i (qhistory s)\<rparr> else s\<lparr>qjobs := remove1 i (qjobs s)\<rparr>))"

definition job_set_elapse_time :: "timeval \<Rightarrow> query_sched \<Rightarrow> nat \<Rightarrow> int \<Rightarrow> query_sched res" where
  "job_set_elapse_time now s i msec =
     (case qstore s i of
        None \<Rightarrow> Crash
      | Some j \<Rightarrow> Ret (set_job i (j\<lparr>qtime_event := Some (elapse_after now msec)\<rparr>) s))"

definition job_mark_done :: "timeval \<Rightarrow> query_sched \<Rightarrow> nat \<Rightarrow> query_sched res" where
  "job_mark_done now s i =
     (case qstore s i of
        None \<Rightarrow> Crash
      | Some j \<Rightarrow>
          if qdone j then Crash
          else
            let s = set_job i (j\<lparr>qdone := True, qdelivery := now\<rparr>) (s\<lparr>qjobs := remove1 i (qjobs s), qhistory := i # qhistory s\<rparr>)
            in job_set_elapse_time now s i AVAHI_QUERY_HISTORY_MSEC)"

section \<open>Sending\<close>

definition known_answer_walk_callback ::
  "timeval \<Rightarrow> cache \<Rightarrow> query_sched \<Rightarrow> nat \<Rightarrow> (query_sched \<times> unit option) res" where
  "known_answer_walk_callback now c s i =
     (case cstore c i of
        None \<Rightarrow> Crash
      | Some e \<Rightarrow>
          if avahi_cache_entry_half_ttl now e then Ret (s, None)
          else Ret (s\<lparr>known_answers := crecord e # known_answers s\<rparr>, None))"

definition packet_add_query_job ::
  "bool \<Rightarrow> timeval \<Rightarrow> cache \<Rightarrow> query_sched \<Rightarrow> dns_packet \<Rightarrow> nat \<Rightarrow> (query_sched \<times> dns_packet \<times> bool) res" where
  "packet_add_query_job sc now c s p i =
     (case qstore s i of
        None \<Rightarrow> Crash
      | Some j \<Rightarrow>
          res_bind (avahi_dns_packet_append_key sc p (qkey j) False) (\<lambda>(p, ok).
            if ok = None then Ret (s, p, False)
            else
              res_bind (avahi_cache_walk sc (\<lambda>_. c) s (qkey j) (known_answer_walk_callback now c)) (\<lambda>(s, _).
              res_map (\<lambda>s. (s, p, True)) (job_mark_done now s i))))"

definition send_packet :: "dns_packet \<Rightarrow> query_sched \<Rightarrow> query_sched" where
  "send_packet p s = s\<lparr>qsent := qsent s @ [p]\<rparr>"

text \<open>
  The inner loop of \<open>append_known_answers_and_send\<close> for one record; \<open>k\<close> bounds its rounds: a record
  that does not fit into a packet with something in it is tried once more with an empty one. The
  last result says whether the record was too large.
\<close>

fun append_known_answer ::
  "bool \<Rightarrow> nat \<Rightarrow> nat \<Rightarrow> query_sched \<Rightarrow> dns_packet \<Rightarrow> nat \<Rightarrow> rr \<Rightarrow> (query_sched \<times> dns_packet \<times> nat \<times> bool) res" where
  "append_known_answer sc mtu 0 s p n r = Crash"
| "append_known_answer sc mtu (Suc k) s p n r =
     res_bind (avahi_dns_packet_append_record sc p r False 0) (\<lambda>(p, ok).
       if ok \<noteq> None then Ret (s, p, n, False)
       else if avahi_dns_packet_is_empty p then Ret (s, p, n, True)
       else
         res_bind (avahi_dns_packet_get_field p AVAHI_DNS_FIELD_FLAGS) (\<lambda>flags.
         res_bind (avahi_dns_packet_set_field p AVAHI_DNS_FIELD_FLAGS (flags OR AVAHI_DNS_FLAG_TC)) (\<lambda>p.
         res_bind (avahi_dns_packet_set_field p AVAHI_DNS_FIELD_ANCOUNT (of_nat n)) (\<lambda>p.
         res_bind (avahi_dns_packet_new_query mtu) (\<lambda>p'.
           append_known_answer sc mtu k (send_packet p s) p' 0 r)))))"

text \<open>The outer loop takes the records from the list \<open>known_answers\<close>; \<open>m\<close> bounds its rounds.\<close>

fun append_known_answers :: "bool \<Rightarrow> nat \<Rightarrow> nat \<Rightarrow> query_sched \<Rightarrow> dns_packet \<Rightarrow> nat \<Rightarrow> (query_sched \<times> dns_packet \<times> nat) res" where
  "append_known_answers sc mtu m s p n =
     (case known_answers s of
        [] \<Rightarrow> Ret (s, p, n)
      | r # rs \<Rightarrow>
          (case m of
             0 \<Rightarrow> Crash
           | Suc m \<Rightarrow>
               res_bind (append_known_answer sc mtu 2 s p n r) (\<lambda>(s, p, n, too_large).
                 append_known_answers sc mtu m (s\<lparr>known_answers := rs\<rparr>) p (if too_large then n else n + 1))))"

declare append_known_answers.simps [simp del]

definition append_known_answers_and_send :: "bool \<Rightarrow> nat \<Rightarrow> query_sched \<Rightarrow> dns_packet \<Rightarrow> query_sched res" where
  "append_known_answers_and_send sc mtu s p =
     res_bind (append_known_answers sc mtu (length (known_answers s)) s p 0) (\<lambda>(s, p, n).
     res_map (\<lambda>p. send_packet p s) (avahi_dns_packet_set_field p AVAHI_DNS_FIELD_ANCOUNT (of_nat n)))"

text \<open>The loop that fills the packet with the other jobs; \<open>m\<close> bounds its rounds.\<close>

fun add_query_jobs ::
  "bool \<Rightarrow> timeval \<Rightarrow> cache \<Rightarrow> nat \<Rightarrow> query_sched \<Rightarrow> dns_packet \<Rightarrow> nat \<Rightarrow> (query_sched \<times> dns_packet \<times> nat) res" where
  "add_query_jobs sc now c m s p n =
     (case qjobs s of
        [] \<Rightarrow> Ret (s, p, n)
      | i # _ \<Rightarrow>
          (case m of
             0 \<Rightarrow> Crash
           | Suc m \<Rightarrow>
               res_bind (packet_add_query_job sc now c s p i) (\<lambda>(s, p, b).
                 if b then add_query_jobs sc now c m s p (n + 1) else Ret (s, p, n))))"

declare add_query_jobs.simps [simp del]

definition elapse_callback :: "bool \<Rightarrow> nat \<Rightarrow> timeval \<Rightarrow> cache \<Rightarrow> query_sched \<Rightarrow> nat \<Rightarrow> query_sched res" where
  "elapse_callback sc mtu now c s i =
     (case qstore s i of
        None \<Rightarrow> Crash
      | Some j \<Rightarrow>
          if qdone j then job_free s i
          else if known_answers s \<noteq> [] then Crash
          else
            res_bind (avahi_dns_packet_new_query mtu) (\<lambda>p.
            res_bind (packet_add_query_job sc now c s p i) (\<lambda>(s, p, b).
              if \<not> b then Crash
              else
                res_bind (add_query_jobs sc now c (length (qjobs s)) s p 1) (\<lambda>(s, p, n).
                res_bind (avahi_dns_packet_set_field p AVAHI_DNS_FIELD_QDCOUNT (of_nat n)) (\<lambda>p.
                append_known_answers_and_send sc mtu s p)))))"

section \<open>Posting, incoming queries, withdrawing\<close>

fun find_scheduled :: "query_sched \<Rightarrow> key \<Rightarrow> nat list \<Rightarrow> nat option res" where
  "find_scheduled s k [] = Ret None"
| "find_scheduled s k (i # is) =
     (case qstore s i of
        None \<Rightarrow> Crash
      | Some j \<Rightarrow>
          if qdone j then Crash
          else res_bind (avahi_key_equal (qkey j) k) (\<lambda>eq. if eq then Ret (Some i) else find_scheduled s k is))"

definition find_scheduled_job :: "query_sched \<Rightarrow> key \<Rightarrow> nat option res" where
  "find_scheduled_job s k = find_scheduled s k (qjobs s)"

fun find_history :: "timeval \<Rightarrow> query_sched \<Rightarrow> key \<Rightarrow> nat list \<Rightarrow> (query_sched \<times> nat option) res" where
  "find_history now s k [] = Ret (s, None)"
| "find_history now s k (i # is) =
     (case qstore s i of
        None \<Rightarrow> Crash
      | Some j \<Rightarrow>
          if \<not> qdone j then Crash
          else
            res_bind (avahi_key_equal (qkey j) k) (\<lambda>eq.
              if eq then
                if AVAHI_QUERY_HISTORY_MSEC * 1000 < avahi_age now (qdelivery j) then res_map (\<lambda>s. (s, None)) (job_free s i)
                else Ret (s, Some i)
              else find_history now s k is))"

definition find_history_job :: "timeval \<Rightarrow> query_sched \<Rightarrow> key \<Rightarrow> (query_sched \<times> nat option) res" where
  "find_history_job now s k = find_history now s k (qhistory s)"

text \<open>The result is the id of the job, or \<open>None\<close> where the code returns 0.\<close>

definition avahi_query_scheduler_post :: "timeval \<Rightarrow> query_sched \<Rightarrow> key \<Rightarrow> bool \<Rightarrow> (query_sched \<times> u32 option) res" where
  "avahi_query_scheduler_post now s k immediately =
     res_bind (find_history_job now s k) (\<lambda>(s, h).
       if h \<noteq> None then Ret (s, None)
       else
         let tv = elapse_after now (if immediately then 0 else AVAHI_QUERY_DEFER_MSEC)
         in res_bind (find_scheduled_job s k) (\<lambda>x.
              case x of
                Some i \<Rightarrow>
                  (case qstore s i of
                     None \<Rightarrow> Crash
                   | Some j \<Rightarrow>
                       let j = (if avahi_timeval_compare tv (qdelivery j) < 0
                                then j\<lparr>qdelivery := tv, qtime_event := Some tv\<rparr> else j)
                       in Ret (set_job i (j\<lparr>n_posted := n_posted j + 1\<rparr>) s, Some (qid j)))
              | None \<Rightarrow>
                  (let (s, i) = job_new s k False tv
                   in case qstore s i of
                        None \<Rightarrow> Crash
                      | Some j \<Rightarrow> Ret (set_job i (j\<lparr>qdelivery := tv, qtime_event := Some tv\<rparr>) s, Some (qid j)))))"

definition avahi_query_scheduler_incoming :: "timeval \<Rightarrow> query_sched \<Rightarrow> key \<Rightarrow> query_sched res" where
  "avahi_query_scheduler_incoming now s k =
     res_bind (find_scheduled_job s k) (\<lambda>x.
       case x of
         Some i \<Rightarrow> job_mark_done now s i
       | None \<Rightarrow>
           res_bind (find_history_job now s k) (\<lambda>(s, h).
             let (s, i) = (case h of Some i \<Rightarrow> (s, i) | None \<Rightarrow> job_new s k True now)
             in case qstore s i of
                  None \<Rightarrow> Crash
                | Some j \<Rightarrow> job_set_elapse_time now (set_job i (j\<lparr>qdelivery := now\<rparr>) s) i AVAHI_QUERY_HISTORY_MSEC))"

text \<open>The loop goes on with the next job when other posters of the job are left.\<close>

fun withdraw_loop :: "u32 \<Rightarrow> nat list \<Rightarrow> query_sched \<Rightarrow> (query_sched \<times> bool) res" where
  "withdraw_loop n [] s = Ret (s, False)"
| "withdraw_loop n (i # is) s =
     (case qstore s i of
        None \<Rightarrow> Crash
      | Some j \<Rightarrow>
          if qdone j then Crash
          else if qid j = n then
            if n_posted j < 1 then Crash
            else
              let s = set_job i (j\<lparr>n_posted := n_posted j - 1\<rparr>) s
              in if n_posted j - 1 \<le> 0 then res_map (\<lambda>s. (s, True)) (job_free s i) else withdraw_loop n is s
          else withdraw_loop n is s)"

definition avahi_query_scheduler_withdraw_by_id :: "query_sched \<Rightarrow> u32 \<Rightarrow> (query_sched \<times> bool) res" where
  "avahi_query_scheduler_withdraw_by_id s n = withdraw_loop n (qjobs s) s"

text \<open>\<open>while (list) job_free(s, list)\<close>, of at most \<open>m\<close> rounds.\<close>

fun free_jobs :: "(query_sched \<Rightarrow> nat list) \<Rightarrow> nat \<Rightarrow> query_sched \<Rightarrow> query_sched res" where
  "free_jobs l m s =
     (case l s of
        [] \<Rightarrow> Ret s
      | i # _ \<Rightarrow> (case m of 0 \<Rightarrow> Crash | Suc m \<Rightarrow> res_bind (job_free s i) (free_jobs l m)))"

declare free_jobs.simps [simp del]

definition avahi_query_scheduler_clear :: "query_sched \<Rightarrow> query_sched res" where
  "avahi_query_scheduler_clear s =
     res_bind (free_jobs qjobs (length (qjobs s)) s) (\<lambda>s. free_jobs qhistory (length (qhistory s)) s)"

end
