(* ===== verification/Query_Inv.thy ===== *)
theory Query_Inv
  imports Query_Sched
begin

text \<open>
  The invariant of the query scheduler, that every operation keeps it and does not crash, and what
  the operations do; \<open>Query_Properties\<close> states the properties.
\<close>

section \<open>The invariant\<close>

definition job_ok :: "qjob \<Rightarrow> bool" where
  "job_ok j \<longleftrightarrow> key_ok (qkey j) \<and> sent_key (qkey j) \<and> 1 \<le> n_posted j \<and> normalized (qdelivery j) \<and>
     qtime_event j = Some (if qdone j then elapse_after (qdelivery j) AVAHI_QUERY_HISTORY_MSEC else qdelivery j)"

text \<open>
  The jobs on the lists are the jobs in memory, each list has those of its state, every job has its
  time event, and no two jobs, scheduled or done, are for the same question.
\<close>

definition query_core :: "query_sched \<Rightarrow> bool" where
  "query_core s \<longleftrightarrow>
     distinct (qjobs s @ qhistory s) \<and>
     (\<forall>i. i \<in> set (qjobs s) \<longleftrightarrow> (\<exists>j. qstore s i = Some j \<and> \<not> qdone j)) \<and>
     (\<forall>i. i \<in> set (qhistory s) \<longleftrightarrow> (\<exists>j. qstore s i = Some j \<and> qdone j)) \<and>
     (\<forall>i j. qstore s i = Some j \<longrightarrow> i < qfresh s \<and> job_ok j) \<and>
     (\<forall>i i' j j'. qstore s i = Some j \<longrightarrow> qstore s i' = Some j' \<longrightarrow> key_abs (qkey j) = key_abs (qkey j') \<longrightarrow> i = i')"

definition query_inv :: "query_sched \<Rightarrow> bool" where
  "query_inv s \<longleftrightarrow> query_core s \<and> known_answers s = []"

lemma query_coreI:
  assumes "distinct (qjobs s @ qhistory s)"
    and "\<And>i. i \<in> set (qjobs s) \<longleftrightarrow> (\<exists>j. qstore s i = Some j \<and> \<not> qdone j)"
    and "\<And>i. i \<in> set (qhistory s) \<longleftrightarrow> (\<exists>j. qstore s i = Some j \<and> qdone j)"
    and "\<And>i j. qstore s i = Some j \<Longrightarrow> i < qfresh s \<and> job_ok j"
    and "\<And>i i' j j'. qstore s i = Some j \<Longrightarrow> qstore s i' = Some j' \<Longrightarrow> key_abs (qkey j) = key_abs (qkey j') \<Longrightarrow> i = i'"
  shows "query_core s"
  using assms unfolding query_core_def by blast

lemma query_inv_new: "query_inv avahi_query_scheduler_new"
  by (simp add: query_inv_def query_core_def avahi_query_scheduler_new_def)

lemma core_job: "query_core s \<Longrightarrow> qstore s i = Some j \<Longrightarrow> i < qfresh s \<and> job_ok j"
  by (simp add: query_core_def)

lemma core_scheduled: "query_core s \<Longrightarrow> i \<in> set (qjobs s) \<longleftrightarrow> (\<exists>j. qstore s i = Some j \<and> \<not> qdone j)"
  by (simp add: query_core_def)

lemma core_history: "query_core s \<Longrightarrow> i \<in> set (qhistory s) \<longleftrightarrow> (\<exists>j. qstore s i = Some j \<and> qdone j)"
  by (simp add: query_core_def)

lemma core_unique:
  "query_core s \<Longrightarrow> qstore s i = Some j \<Longrightarrow> qstore s i' = Some j' \<Longrightarrow> key_abs (qkey j) = key_abs (qkey j') \<Longrightarrow> i = i'"
  unfolding query_core_def by blast

lemma set_job_simps [simp]:
  "qstore (set_job i j s) = (qstore s)(i \<mapsto> j)" "qjobs (set_job i j s) = qjobs s" "qhistory (set_job i j s) = qhistory s"
  "known_answers (set_job i j s) = known_answers s" "qfresh (set_job i j s) = qfresh s" "qsent (set_job i j s) = qsent s"
  by (simp_all add: set_job_def)

text \<open>Changing a job that stays on its list.\<close>

lemma core_set_job:
  assumes "query_core s" "qstore s i = Some j" "job_ok j'" "key_abs (qkey j') = key_abs (qkey j)" "qdone j' = qdone j"
  shows "query_core (set_job i j' s)"
  using assms unfolding query_core_def set_job_simps by (auto split: if_splits)

definition mark_done :: "timeval \<Rightarrow> nat \<Rightarrow> query_sched \<Rightarrow> query_sched" where
  "mark_done now i s =
     s\<lparr>qstore := (qstore s)(i := map_option (\<lambda>j. j\<lparr>qdone := True, qdelivery := now,
         qtime_event := Some (elapse_after now AVAHI_QUERY_HISTORY_MSEC)\<rparr>) (qstore s i)),
       qjobs := remove1 i (qjobs s), qhistory := i # qhistory s\<rparr>"

lemma mark_done_simps [simp]:
  "qjobs (mark_done now i s) = remove1 i (qjobs s)" "qhistory (mark_done now i s) = i # qhistory s"
  "known_answers (mark_done now i s) = known_answers s" "qfresh (mark_done now i s) = qfresh s" "qsent (mark_done now i s) = qsent s"
  "qstore (mark_done now i s) = (qstore s)(i := map_option (\<lambda>j. j\<lparr>qdone := True, qdelivery := now,
         qtime_event := Some (elapse_after now AVAHI_QUERY_HISTORY_MSEC)\<rparr>) (qstore s i))"
  by (simp_all add: mark_done_def)

lemma job_mark_done_ok:
  assumes "query_core s" "qstore s i = Some j" "\<not> qdone j" "normalized now"
  shows "job_mark_done now s i = Ret (mark_done now i s)" "query_core (mark_done now i s)"
proof -
  show "job_mark_done now s i = Ret (mark_done now i s)"
    using assms(2,3) by (simp add: job_mark_done_def Let_def job_set_elapse_time_def mark_done_def set_job_def)
  let ?f = "\<lambda>j. j\<lparr>qdone := True, qdelivery := now, qtime_event := Some (elapse_after now AVAHI_QUERY_HISTORY_MSEC)\<rparr> :: qjob"
  have "job_ok (?f j)" using core_job [OF assms(1,2)] assms(4) by (simp add: job_ok_def)
  then show "query_core (mark_done now i s)"
    using assms unfolding query_core_def mark_done_simps by (auto split: if_splits)
qed

definition freed :: "nat \<Rightarrow> query_sched \<Rightarrow> query_sched" where
  "freed i s = s\<lparr>qstore := (qstore s)(i := None), qjobs := remove1 i (qjobs s), qhistory := remove1 i (qhistory s)\<rparr>"

lemma freed_simps [simp]:
  "qjobs (freed i s) = remove1 i (qjobs s)" "qhistory (freed i s) = remove1 i (qhistory s)" "qstore (freed i s) = (qstore s)(i := None)"
  "known_answers (freed i s) = known_answers s" "qfresh (freed i s) = qfresh s" "qsent (freed i s) = qsent s"
  by (simp_all add: freed_def)

lemma job_free_ok:
  assumes "query_core s" "qstore s i = Some j"
  shows "job_free s i = Ret (freed i s)" "query_core (freed i s)"
proof -
  have "qdone j \<Longrightarrow> i \<notin> set (qjobs s)" "\<not> qdone j \<Longrightarrow> i \<notin> set (qhistory s)"
    using assms core_scheduled core_history by auto
  then show "job_free s i = Ret (freed i s)"
    using assms(2) by (cases s) (auto simp: job_free_def freed_def remove1_idem Let_def)
  show "query_core (freed i s)"
    using assms unfolding query_core_def freed_simps by (auto split: if_splits)
qed

text \<open>A new job for a question no job is for.\<close>

lemma job_new_ok:
  assumes "query_core s" "key_ok k" "sent_key k" "\<forall>i j. qstore s i = Some j \<longrightarrow> key_abs (qkey j) \<noteq> key_abs k"
    and "job_ok j" "qkey j = k" "qdone j = d"
  shows "\<exists>s'. job_new s k d tv = (s', qfresh s) \<and> query_core (set_job (qfresh s) j s') \<and>
    qstore s' = (qstore s)(qfresh s \<mapsto> \<lparr>qid = next_id s, n_posted = 1, qtime_event = None, qdone = d, qdelivery = tv, qkey = k\<rparr>) \<and>
    known_answers s' = known_answers s \<and> qsent s' = qsent s"
proof -
  let ?i = "qfresh s"
  have new: "qstore s ?i = None"
    using core_job [OF assms(1), of ?i] by (cases "qstore s ?i") auto
  obtain s' where s': "job_new s k d tv = (s', ?i)" by (simp add: job_new_def Let_def)
  then have f: "qstore s' = (qstore s)(?i \<mapsto> \<lparr>qid = next_id s, n_posted = 1, qtime_event = None, qdone = d, qdelivery = tv, qkey = k\<rparr>)"
    "qjobs s' = (if d then qjobs s else ?i # qjobs s)" "qhistory s' = (if d then ?i # qhistory s else qhistory s)"
    "qfresh s' = Suc ?i" "known_answers s' = known_answers s" "qsent s' = qsent s"
    by (auto simp: job_new_def Let_def set_job_def)
  have notin: "?i \<notin> set (qjobs s)" "?i \<notin> set (qhistory s)" using new core_scheduled core_history assms(1) by auto
  have "i < Suc ?i" if "qstore s i = Some j'" for i j' using core_job [OF assms(1) that] by simp
  have unique: "i1 = i2" if "((qstore s)(?i \<mapsto> j)) i1 = Some j1" "((qstore s)(?i \<mapsto> j)) i2 = Some j2"
      "key_abs (qkey j1) = key_abs (qkey j2)" for i1 i2 j1 j2
    using that assms(4,6) core_unique [OF assms(1), of i1 j1 i2 j2] by (metis fun_upd_apply option.inject)
  have "query_core (set_job ?i j s')"
  proof (rule query_coreI)
    show "distinct (qjobs (set_job ?i j s') @ qhistory (set_job ?i j s'))"
      using assms(1) notin by (simp add: f query_core_def)
    fix i
    show "i \<in> set (qjobs (set_job ?i j s')) \<longleftrightarrow> (\<exists>j'. qstore (set_job ?i j s') i = Some j' \<and> \<not> qdone j')"
      using core_scheduled [OF assms(1), of i] assms(7) new by (auto simp: f)
    show "i \<in> set (qhistory (set_job ?i j s')) \<longleftrightarrow> (\<exists>j'. qstore (set_job ?i j s') i = Some j' \<and> qdone j')"
      using core_history [OF assms(1), of i] assms(7) new by (auto simp: f)
    fix j' assume "qstore (set_job ?i j s') i = Some j'"
    then show "i < qfresh (set_job ?i j s') \<and> job_ok j'"
      using core_job [OF assms(1), of i j'] assms(5) by (auto simp: f split: if_splits)
  next
    fix i i' j1 j2
    assume "qstore (set_job ?i j s') i = Some j1" "qstore (set_job ?i j s') i' = Some j2" "key_abs (qkey j1) = key_abs (qkey j2)"
    then show "i = i'" using unique [of i j1 i' j2] by (simp only: f set_job_simps fun_upd_upd)
  qed
  with s' f show ?thesis by blast
qed

section \<open>Looking for jobs\<close>

lemma find_scheduled_ok:
  assumes "query_core s" "key_ok k"
  shows "\<exists>x. find_scheduled_job s k = Ret x \<and>
    (case x of
       None \<Rightarrow> \<forall>i j. qstore s i = Some j \<longrightarrow> \<not> qdone j \<longrightarrow> key_abs (qkey j) \<noteq> key_abs k
     | Some i \<Rightarrow> \<exists>j. qstore s i = Some j \<and> \<not> qdone j \<and> key_abs (qkey j) = key_abs k)"
proof -
  have "set l \<subseteq> set (qjobs s) \<Longrightarrow> \<exists>x. find_scheduled s k l = Ret x \<and>
    (case x of
       None \<Rightarrow> \<forall>i \<in> set l. \<forall>j. qstore s i = Some j \<longrightarrow> key_abs (qkey j) \<noteq> key_abs k
     | Some i \<Rightarrow> \<exists>j. qstore s i = Some j \<and> \<not> qdone j \<and> key_abs (qkey j) = key_abs k)" for l
  proof (induction l)
    case (Cons i l)
    then obtain j where j: "qstore s i = Some j" "\<not> qdone j" using core_scheduled [OF assms(1)] by auto
    with core_job [OF assms(1) j(1)] have "avahi_key_equal (qkey j) k = Ret (key_abs (qkey j) = key_abs k)"
      using assms(2) by (intro key_equal_abs) (simp_all add: job_ok_def)
    with j Cons show ?case by (cases "key_abs (qkey j) = key_abs k") (auto split: option.splits)
  qed simp
  from this [of "qjobs s"] obtain x where "find_scheduled s k (qjobs s) = Ret x"
    "case x of
       None \<Rightarrow> \<forall>i \<in> set (qjobs s). \<forall>j. qstore s i = Some j \<longrightarrow> key_abs (qkey j) \<noteq> key_abs k
     | Some i \<Rightarrow> \<exists>j. qstore s i = Some j \<and> \<not> qdone j \<and> key_abs (qkey j) = key_abs k" by auto
  then show ?thesis
    using core_scheduled [OF assms(1)] by (intro exI [of _ x]) (auto simp: find_scheduled_job_def split: option.splits)
qed

definition recent :: "timeval \<Rightarrow> qjob \<Rightarrow> bool" where
  "recent now j \<longleftrightarrow> usec_of now - usec_of (qdelivery j) \<le> AVAHI_QUERY_HISTORY_MSEC * 1000"

lemma find_history_ok:
  assumes "query_core s" "key_ok k"
  shows "\<exists>s' x. find_history_job now s k = Ret (s', x) \<and> query_core s' \<and>
    (case x of
       Some i \<Rightarrow> s' = s \<and> (\<exists>j. qstore s i = Some j \<and> qdone j \<and> key_abs (qkey j) = key_abs k \<and> recent now j)
     | None \<Rightarrow> (\<forall>i j. qstore s' i = Some j \<longrightarrow> qdone j \<longrightarrow> key_abs (qkey j) \<noteq> key_abs k) \<and>
         (s' = s \<or> (\<exists>i j. qstore s i = Some j \<and> qdone j \<and> key_abs (qkey j) = key_abs k \<and> \<not> recent now j \<and> s' = freed i s)))"
proof -
  have "set l \<subseteq> set (qhistory s) \<Longrightarrow> \<exists>s' x. find_history now s k l = Ret (s', x) \<and> query_core s' \<and>
    (case x of
       Some i \<Rightarrow> s' = s \<and> (\<exists>j. qstore s i = Some j \<and> qdone j \<and> key_abs (qkey j) = key_abs k \<and> recent now j)
     | None \<Rightarrow> (s' = s \<and> (\<forall>i \<in> set l. \<forall>j. qstore s i = Some j \<longrightarrow> key_abs (qkey j) \<noteq> key_abs k)) \<or>
         (\<exists>i j. qstore s i = Some j \<and> qdone j \<and> key_abs (qkey j) = key_abs k \<and> \<not> recent now j \<and> s' = freed i s))" for l
  proof (induction l)
    case Nil
    then show ?case using assms(1) by simp
  next
    case (Cons i l)
    then obtain j where j: "qstore s i = Some j" "qdone j" using core_history [OF assms(1)] by auto
    with core_job [OF assms(1) j(1)] have eq: "avahi_key_equal (qkey j) k = Ret (key_abs (qkey j) = key_abs k)"
      using assms(2) by (intro key_equal_abs) (simp_all add: job_ok_def)
    show ?case
    proof (cases "key_abs (qkey j) = key_abs k")
      case True
      show ?thesis
      proof (cases "recent now j")
        case True
        with j eq \<open>key_abs (qkey j) = key_abs k\<close> show ?thesis
          using assms(1) by (auto simp: recent_def avahi_age_def timeval_diff)
      next
        case False
        with j eq \<open>key_abs (qkey j) = key_abs k\<close> show ?thesis
          using job_free_ok [OF assms(1) j(1)] by (auto simp: recent_def avahi_age_def timeval_diff)
      qed
    next
      case False
      from Cons obtain s' x where "find_history now s k l = Ret (s', x)" "query_core s'"
        "case x of
           Some i \<Rightarrow> s' = s \<and> (\<exists>j. qstore s i = Some j \<and> qdone j \<and> key_abs (qkey j) = key_abs k \<and> recent now j)
         | None \<Rightarrow> (s' = s \<and> (\<forall>i \<in> set l. \<forall>j. qstore s i = Some j \<longrightarrow> key_abs (qkey j) \<noteq> key_abs k)) \<or>
             (\<exists>i j. qstore s i = Some j \<and> qdone j \<and> key_abs (qkey j) = key_abs k \<and> \<not> recent now j \<and> s' = freed i s)" by auto
      with False j eq show ?thesis by (intro exI [of _ s'] exI [of _ x]) (cases x; auto)
    qed
  qed
  from this [of "qhistory s"] obtain s' x where s': "find_history_job now s k = Ret (s', x)" "query_core s'"
    "case x of
       Some i \<Rightarrow> s' = s \<and> (\<exists>j. qstore s i = Some j \<and> qdone j \<and> key_abs (qkey j) = key_abs k \<and> recent now j)
     | None \<Rightarrow> (s' = s \<and> (\<forall>i \<in> set (qhistory s). \<forall>j. qstore s i = Some j \<longrightarrow> key_abs (qkey j) \<noteq> key_abs k)) \<or>
         (\<exists>i j. qstore s i = Some j \<and> qdone j \<and> key_abs (qkey j) = key_abs k \<and> \<not> recent now j \<and> s' = freed i s)"
    by (auto simp: find_history_job_def)
  have gone: "\<forall>i' j'. qstore (freed i s) i' = Some j' \<longrightarrow> key_abs (qkey j') \<noteq> key_abs k"
    if "qstore s i = Some j" "key_abs (qkey j) = key_abs k" for i j
    using core_unique [OF assms(1) that(1)] that(2) by (auto split: if_splits)
  show ?thesis
  proof (cases x)
    case None
    with s'(3) consider "s' = s" "\<forall>i \<in> set (qhistory s). \<forall>j. qstore s i = Some j \<longrightarrow> key_abs (qkey j) \<noteq> key_abs k"
      | i j where "qstore s i = Some j" "qdone j" "key_abs (qkey j) = key_abs k" "\<not> recent now j" "s' = freed i s" by auto
    then show ?thesis
    proof cases
      case 1
      with s'(1,2) None core_history [OF assms(1)] show ?thesis by (intro exI [of _ s'] exI [of _ x]) auto
    next
      case (2 i j)
      with s'(1,2) None gone [OF 2(1,3)] show ?thesis by (intro exI [of _ s'] exI [of _ x]) auto
    qed
  next
    case (Some i)
    with s' show ?thesis by (intro exI [of _ s'] exI [of _ x]) auto
  qed
qed

section \<open>Posting, incoming queries, withdrawing\<close>

definition scheduled_for :: "query_sched \<Rightarrow> key \<Rightarrow> qjob \<Rightarrow> bool" where
  "scheduled_for s k j \<longleftrightarrow> (\<exists>i. qstore s i = Some j) \<and> \<not> qdone j \<and> key_abs (qkey j) = key_abs k"

definition done_for :: "query_sched \<Rightarrow> key \<Rightarrow> qjob \<Rightarrow> bool" where
  "done_for s k j \<longleftrightarrow> (\<exists>i. qstore s i = Some j) \<and> qdone j \<and> key_abs (qkey j) = key_abs k"

definition sendable_key :: "key \<Rightarrow> bool" where
  "sendable_key k \<longleftrightarrow> key_ok k \<and> sent_key k"

lemma post_ok:
  fixes immediately :: bool
  assumes inv: "query_inv s" and k: "sendable_key k" and now: "normalized now"
  defines "tv \<equiv> elapse_after now (if immediately then 0 else AVAHI_QUERY_DEFER_MSEC)"
  shows "\<exists>s' x. avahi_query_scheduler_post now s k immediately = Ret (s', x) \<and> query_inv s' \<and> qsent s' = qsent s \<and>
    (if \<exists>j. done_for s k j \<and> recent now j then s' = s \<and> x = None
     else \<exists>j. scheduled_for s' k j \<and> x = Some (qid j) \<and> usec_of (qdelivery j) \<le> usec_of tv)"
proof -
  have core: "query_core s" and ka: "known_answers s = []" using inv by (auto simp: query_inv_def)
  have kk: "key_ok k" "sent_key k" using k by (auto simp: sendable_key_def)
  have tvn: "normalized tv" using now by (simp add: tv_def normalized_elapse AVAHI_QUERY_DEFER_MSEC_def)
  from find_history_ok [OF core kk(1), of now] obtain s1 x where s1: "find_history_job now s k = Ret (s1, x)" "query_core s1"
    "case x of
       Some i \<Rightarrow> s1 = s \<and> (\<exists>j. qstore s i = Some j \<and> qdone j \<and> key_abs (qkey j) = key_abs k \<and> recent now j)
     | None \<Rightarrow> (\<forall>i j. qstore s1 i = Some j \<longrightarrow> qdone j \<longrightarrow> key_abs (qkey j) \<noteq> key_abs k) \<and>
         (s1 = s \<or> (\<exists>i j. qstore s i = Some j \<and> qdone j \<and> key_abs (qkey j) = key_abs k \<and> \<not> recent now j \<and> s1 = freed i s))" by blast
  show ?thesis
  proof (cases x)
    case (Some i)
    with s1 have "avahi_query_scheduler_post now s k immediately = Ret (s, None)" "\<exists>j. done_for s k j \<and> recent now j"
      by (auto simp: avahi_query_scheduler_post_def done_for_def)
    with inv show ?thesis by auto
  next
    case None
    have frame: "known_answers s1 = []" "qsent s1 = qsent s" using None s1(3) ka by auto
    have none: "\<forall>i j. qstore s1 i = Some j \<longrightarrow> qdone j \<longrightarrow> key_abs (qkey j) \<noteq> key_abs k" using None s1(3) by simp
    have not: "\<not> (\<exists>j. done_for s k j \<and> recent now j)"
    proof
      assume "\<exists>j. done_for s k j \<and> recent now j"
      then obtain i j where j: "qstore s i = Some j" "qdone j" "key_abs (qkey j) = key_abs k" "recent now j" by (auto simp: done_for_def)
      with none have "s1 \<noteq> s" by blast
      with None s1(3) obtain i' j' where "qstore s i' = Some j'" "key_abs (qkey j') = key_abs k" "\<not> recent now j'" by auto
      with core_unique [OF core j(1), of i' j'] j show False by auto
    qed
    from find_scheduled_ok [OF s1(2) kk(1)] obtain y where y: "find_scheduled_job s1 k = Ret y"
      "case y of
         None \<Rightarrow> \<forall>i j. qstore s1 i = Some j \<longrightarrow> \<not> qdone j \<longrightarrow> key_abs (qkey j) \<noteq> key_abs k
       | Some i \<Rightarrow> \<exists>j. qstore s1 i = Some j \<and> \<not> qdone j \<and> key_abs (qkey j) = key_abs k" by blast
    show ?thesis
    proof (cases y)
      case (Some i)
      with y(2) obtain j where j: "qstore s1 i = Some j" "\<not> qdone j" "key_abs (qkey j) = key_abs k" by auto
      let ?j = "(if avahi_timeval_compare tv (qdelivery j) < 0 then j\<lparr>qdelivery := tv, qtime_event := Some tv\<rparr> else j)
         \<lparr>n_posted := n_posted j + 1\<rparr>"
      have jok: "job_ok j" using core_job [OF s1(2) j(1)] by simp
      then have "usec_of (qdelivery ?j) \<le> usec_of tv"
        using timeval_compare_usec [OF tvn, of "qdelivery j"] by (auto simp: job_ok_def)
      moreover have "job_ok ?j" "qkey ?j = qkey j" "qdone ?j = qdone j" "qid ?j = qid j" using jok tvn j(2) by (auto simp: job_ok_def)
      moreover from this core_set_job [OF s1(2) j(1), of ?j] have "query_core (set_job i ?j s1)" by simp
      moreover have "avahi_query_scheduler_post now s k immediately = Ret (set_job i ?j s1, Some (qid j))"
        using s1(1) None y(1) Some j(1) by (simp add: avahi_query_scheduler_post_def Let_def tv_def) 
      ultimately show ?thesis
        using not frame j(2,3) by (intro exI [of _ "set_job i ?j s1"] exI [of _ "Some (qid j)"]) (auto simp: query_inv_def scheduled_for_def)
    next
      case None
      with y(2) none have "\<forall>i j. qstore s1 i = Some j \<longrightarrow> key_abs (qkey j) \<noteq> key_abs k" by auto
      moreover let ?j = "\<lparr>qid = next_id s1, n_posted = 1, qtime_event = Some tv, qdone = False, qdelivery = tv, qkey = k\<rparr>"
      have "job_ok ?j" using kk tvn by (simp add: job_ok_def)
      ultimately obtain s2 where s2: "job_new s1 k False tv = (s2, qfresh s1)" "query_core (set_job (qfresh s1) ?j s2)"
        "qstore s2 = (qstore s1)(qfresh s1 \<mapsto> \<lparr>qid = next_id s1, n_posted = 1, qtime_event = None, qdone = False, qdelivery = tv, qkey = k\<rparr>)"
        "known_answers s2 = known_answers s1" "qsent s2 = qsent s1"
        using job_new_ok [OF s1(2) kk, of ?j False tv] by auto
      have "avahi_query_scheduler_post now s k immediately = Ret (set_job (qfresh s1) ?j s2, Some (next_id s1))"
        using s1(1) \<open>x = None\<close> y(1) None s2(1,3) by (simp add: avahi_query_scheduler_post_def Let_def tv_def)
      with s2 not frame show ?thesis
        by (intro exI [of _ "set_job (qfresh s1) ?j s2"] exI [of _ "Some (next_id s1)"]) (auto simp: query_inv_def scheduled_for_def)
    qed
  qed
qed

lemma incoming_ok:
  assumes inv: "query_inv s" and k: "sendable_key k" and now: "normalized now"
  shows "\<exists>s'. avahi_query_scheduler_incoming now s k = Ret s' \<and> query_inv s' \<and> qsent s' = qsent s \<and>
    (\<exists>j. done_for s' k j \<and> qdelivery j = now) \<and> \<not> (\<exists>j. scheduled_for s' k j)"
proof -
  have core: "query_core s" and ka: "known_answers s = []" using inv by (auto simp: query_inv_def)
  have kk: "key_ok k" "sent_key k" using k by (auto simp: sendable_key_def)
  have sole: "(\<exists>j. done_for t k j \<and> qdelivery j = now) \<and> \<not> (\<exists>j. scheduled_for t k j)"
    if "query_core t" "qstore t i = Some j" "qdone j" "key_abs (qkey j) = key_abs k" "qdelivery j = now" for t i j
    using that core_unique [OF that(1,2)] by (fastforce simp: done_for_def scheduled_for_def)
  from find_scheduled_ok [OF core kk(1)] obtain y where y: "find_scheduled_job s k = Ret y"
    "case y of
       None \<Rightarrow> \<forall>i j. qstore s i = Some j \<longrightarrow> \<not> qdone j \<longrightarrow> key_abs (qkey j) \<noteq> key_abs k
     | Some i \<Rightarrow> \<exists>j. qstore s i = Some j \<and> \<not> qdone j \<and> key_abs (qkey j) = key_abs k" by blast
  show ?thesis
  proof (cases y)
    case (Some i)
    with y(2) obtain j where j: "qstore s i = Some j" "\<not> qdone j" "key_abs (qkey j) = key_abs k" by auto
    from job_mark_done_ok [OF core j(1,2) now] have "avahi_query_scheduler_incoming now s k = Ret (mark_done now i s)"
      "query_core (mark_done now i s)" using y(1) Some by (simp_all add: avahi_query_scheduler_incoming_def)
    with sole [OF this(2), of i] j ka show ?thesis by (intro exI [of _ "mark_done now i s"]) (simp add: query_inv_def)
  next
    case None
    from find_history_ok [OF core kk(1), of now] obtain s1 x where s1: "find_history_job now s k = Ret (s1, x)" "query_core s1"
      "case x of
         Some i \<Rightarrow> s1 = s \<and> (\<exists>j. qstore s i = Some j \<and> qdone j \<and> key_abs (qkey j) = key_abs k \<and> recent now j)
       | None \<Rightarrow> (\<forall>i j. qstore s1 i = Some j \<longrightarrow> qdone j \<longrightarrow> key_abs (qkey j) \<noteq> key_abs k) \<and>
           (s1 = s \<or> (\<exists>i j. qstore s i = Some j \<and> qdone j \<and> key_abs (qkey j) = key_abs k \<and> \<not> recent now j \<and> s1 = freed i s))" by blast
    show ?thesis
    proof (cases x)
      case (Some i)
      with s1(3) obtain j where j: "s1 = s" "qstore s i = Some j" "qdone j" "key_abs (qkey j) = key_abs k" by auto
      let ?j = "j\<lparr>qdelivery := now, qtime_event := Some (elapse_after now AVAHI_QUERY_HISTORY_MSEC)\<rparr>"
      have "job_ok ?j" using core_job [OF core j(2)] j(3) now by (simp add: job_ok_def)
      with core_set_job [OF core j(2), of ?j] have c: "query_core (set_job i ?j s)" by simp
      have "avahi_query_scheduler_incoming now s k = Ret (set_job i ?j s)"
        using y(1) None s1(1) Some j(1,2) by (simp add: avahi_query_scheduler_incoming_def job_set_elapse_time_def set_job_def)
      with c sole [OF c, of i ?j] j ka show ?thesis by (intro exI [of _ "set_job i ?j s"]) (simp add: query_inv_def)
    next
      case None
      have frame: "known_answers s1 = []" "qsent s1 = qsent s" using None s1(3) ka by auto
      have "\<forall>i j. qstore s1 i = Some j \<longrightarrow> key_abs (qkey j) \<noteq> key_abs k"
      proof (intro allI impI)
        fix i j assume j: "qstore s1 i = Some j"
        with None s1(3) have "qstore s i = Some j" by (auto split: if_splits)
        with j None s1(3) y(2) \<open>y = None\<close> show "key_abs (qkey j) \<noteq> key_abs k" by (cases "qdone j") auto
      qed
      moreover let ?j = "\<lparr>qid = next_id s1, n_posted = 1, qtime_event = Some (elapse_after now AVAHI_QUERY_HISTORY_MSEC),
          qdone = True, qdelivery = now, qkey = k\<rparr>"
      have "job_ok ?j" using kk now by (simp add: job_ok_def)
      ultimately obtain s2 where s2: "job_new s1 k True now = (s2, qfresh s1)" "query_core (set_job (qfresh s1) ?j s2)"
        "qstore s2 = (qstore s1)(qfresh s1 \<mapsto> \<lparr>qid = next_id s1, n_posted = 1, qtime_event = None, qdone = True, qdelivery = now, qkey = k\<rparr>)"
        "known_answers s2 = known_answers s1" "qsent s2 = qsent s1"
        using job_new_ok [OF s1(2) kk, of ?j True now] by auto
      have "avahi_query_scheduler_incoming now s k = Ret (set_job (qfresh s1) ?j s2)"
        using y(1) \<open>y = None\<close> s1(1) None s2(1,3)
        by (simp add: avahi_query_scheduler_incoming_def job_set_elapse_time_def set_job_def)
      with s2 sole [OF s2(2), of "qfresh s1" ?j] frame show ?thesis
        by (intro exI [of _ "set_job (qfresh s1) ?j s2"]) (simp add: query_inv_def)
    qed
  qed
qed

text \<open>
  Withdrawing: a job of that id loses a poster; the answer is yes when one went away with its last
  poster.
\<close>

lemma withdraw_loop_ok:
  assumes "query_core s" "set l \<subseteq> set (qjobs s)" "distinct l"
  shows "\<exists>s' b. withdraw_loop n l s = Ret (s', b) \<and> query_core s' \<and> qsent s' = qsent s \<and> known_answers s' = known_answers s \<and>
    (if b then \<exists>i j. qstore s i = Some j \<and> qid j = n \<and> n_posted j = 1 \<and> qstore s' i = None
     else \<forall>i \<in> set l. \<forall>j. qstore s i = Some j \<longrightarrow> qid j = n \<longrightarrow> 1 < n_posted j \<and> qstore s' i = Some (j\<lparr>n_posted := n_posted j - 1\<rparr>)) \<and>
    (\<forall>i. i \<notin> set l \<or> (\<exists>j. qstore s i = Some j \<and> qid j \<noteq> n) \<longrightarrow> qstore s' i = qstore s i)"
  using assms
proof (induction l arbitrary: s)
  case (Cons i l)
  then obtain j where j: "qstore s i = Some j" "\<not> qdone j" using core_scheduled by auto
  have posted: "1 \<le> n_posted j" using core_job [OF Cons.prems(1) j(1)] by (simp add: job_ok_def)
  show ?case
  proof (cases "qid j = n")
    case False
    obtain s' b where "withdraw_loop n l s = Ret (s', b)" "query_core s'" "qsent s' = qsent s" "known_answers s' = known_answers s"
      "if b then \<exists>i j. qstore s i = Some j \<and> qid j = n \<and> n_posted j = 1 \<and> qstore s' i = None
       else \<forall>i \<in> set l. \<forall>j. qstore s i = Some j \<longrightarrow> qid j = n \<longrightarrow> 1 < n_posted j \<and> qstore s' i = Some (j\<lparr>n_posted := n_posted j - 1\<rparr>)"
      "\<forall>i. i \<notin> set l \<or> (\<exists>j. qstore s i = Some j \<and> qid j \<noteq> n) \<longrightarrow> qstore s' i = qstore s i"
      using Cons.IH [OF Cons.prems(1)] Cons.prems(2,3) by auto
    with False j show ?thesis by (intro exI [of _ s'] exI [of _ b]) auto
  next
    case True
    let ?j = "j\<lparr>n_posted := n_posted j - 1\<rparr>"
    show ?thesis
    proof (cases "n_posted j = 1")
      case last: True
      let ?s = "set_job i ?j s"
      have "job_free ?s i = Ret (freed i s)"
        using job_free_ok(1) [OF Cons.prems(1) j(1)] j by (simp add: job_free_def set_job_def Let_def)
      with True last j posted have "withdraw_loop n (i # l) s = Ret (freed i s, True)" by (simp add: Let_def)
      with job_free_ok(2) [OF Cons.prems(1) j(1)] True last j show ?thesis
        by (intro exI [of _ "freed i s"] exI [of _ True]) auto
    next
      case False
      let ?s = "set_job i ?j s"
      have "job_ok ?j" using core_job [OF Cons.prems(1) j(1)] False by (simp add: job_ok_def)
      then have core: "query_core ?s" using core_set_job [OF Cons.prems(1) j(1)] by simp
      obtain s' b where "withdraw_loop n l ?s = Ret (s', b)" "query_core s'" "qsent s' = qsent s" "known_answers s' = known_answers s"
        "if b then \<exists>i j. qstore ?s i = Some j \<and> qid j = n \<and> n_posted j = 1 \<and> qstore s' i = None
         else \<forall>i \<in> set l. \<forall>j. qstore ?s i = Some j \<longrightarrow> qid j = n \<longrightarrow> 1 < n_posted j \<and> qstore s' i = Some (j\<lparr>n_posted := n_posted j - 1\<rparr>)"
        "\<forall>i. i \<notin> set l \<or> (\<exists>j. qstore ?s i = Some j \<and> qid j \<noteq> n) \<longrightarrow> qstore s' i = qstore ?s i"
        using Cons.IH [OF core] Cons.prems(2,3) by auto
      with False True j posted Cons.prems(3) show ?thesis 
        by (intro exI [of _ s'] exI [of _ b]) (auto split: if_splits)
    qed
  qed
qed (auto intro: exI [of _ False])

lemma withdraw_ok:
  assumes "query_inv s"
  shows "\<exists>s' b. avahi_query_scheduler_withdraw_by_id s n = Ret (s', b) \<and> query_inv s' \<and> qsent s' = qsent s"
  using withdraw_loop_ok [of s "qjobs s" n] assms
  by (auto simp: avahi_query_scheduler_withdraw_by_id_def query_inv_def query_core_def)

lemma free_jobs_ok:
  assumes "query_core s" "length (l s) \<le> m" "\<And>s. query_core s \<Longrightarrow> set (l s) \<subseteq> dom (qstore s)"
    and "\<And>i s. query_core s \<Longrightarrow> l (freed i s) = remove1 i (l s)"
  shows "\<exists>s'. free_jobs l m s = Ret s' \<and> query_core s' \<and> l s' = [] \<and> qsent s' = qsent s \<and> known_answers s' = known_answers s \<and>
    (\<exists>l'. s' = fold freed l' s)"
  using assms
proof (induction m arbitrary: s)
  case 0
  then show ?case by (simp add: free_jobs.simps) (metis fold_Nil id_apply)
next
  case (Suc m)
  show ?case
  proof (cases "l s")
    case Nil
    with Suc.prems show ?thesis by (simp add: free_jobs.simps) (metis fold_Nil id_apply)
  next
    case (Cons i l')
    with Suc.prems(1,3) obtain j where j: "qstore s i = Some j" by fastforce
    note free = job_free_ok [OF Suc.prems(1) j]
    have "length (l (freed i s)) \<le> m" using Suc.prems(1,2,4) Cons by simp
    then obtain s' js where s': "free_jobs l m (freed i s) = Ret s'" "query_core s'" "l s' = []" "qsent s' = qsent s"
        "known_answers s' = known_answers s" "s' = fold freed js (freed i s)"
      using Suc.IH [OF free(2) _ Suc.prems(3,4)] by auto
    have "s' = fold freed (i # js) s" by (simp add: s'(6))
    then have "\<exists>l'. s' = fold freed l' s" by blast
    with s'(1-5) Cons free show ?thesis by (subst free_jobs.simps) auto
  qed
qed

lemma clear_ok:
  assumes "query_inv s"
  shows "\<exists>s'. avahi_query_scheduler_clear s = Ret s' \<and> query_inv s' \<and> qsent s' = qsent s \<and> qstore s' = Map.empty"
proof -
  have core: "query_core s" "known_answers s = []" using assms by (auto simp: query_inv_def)
  from free_jobs_ok [OF core(1), of qjobs "length (qjobs s)"] obtain s1 where
    s1: "free_jobs qjobs (length (qjobs s)) s = Ret s1" "query_core s1" "qjobs s1 = []" "qsent s1 = qsent s" "known_answers s1 = []"
    using core_scheduled core by (fastforce simp: subset_iff)
  from free_jobs_ok [OF s1(2), of qhistory "length (qhistory s1)"] obtain s2 js where
    s2: "free_jobs qhistory (length (qhistory s1)) s1 = Ret s2" "query_core s2" "qhistory s2 = []" "qsent s2 = qsent s"
      "known_answers s2 = []" "s2 = fold freed js s1"
    using core_history s1 by (fastforce simp: subset_iff)
  have "qjobs t = [] \<Longrightarrow> qjobs (fold freed js t) = []" for t by (induction js arbitrary: t) simp_all
  with s1(3) s2(6) have "qjobs s2 = []" by simp
  then have "qstore s2 i = None" for i
    using core_scheduled [OF s2(2), of i] core_history [OF s2(2), of i] s2(3) by (cases "qstore s2 i") auto
  then have "qstore s2 = Map.empty" by blast
  with s1 s2 show ?thesis by (auto simp: avahi_query_scheduler_clear_def query_inv_def)
qed

end
