(* ===== verification/Query_Send.thy ===== *)
theory Query_Send
  imports Query_Inv "HOL-Library.Sublist"
begin

text \<open>
  What the time event of a scheduled question sends: a train of packets with the questions in the
  first, the known answers spread over all of them, and the TC flag on all but the last.
\<close>

section \<open>Known answers\<close>

text \<open>The records an answer to the question would repeat, known for less than half of their lifetime.\<close>

definition fresh_answers :: "timeval \<Rightarrow> cache \<Rightarrow> key \<Rightarrow> rr set" where
  "fresh_answers now c k = {r. \<exists>i e. cstore c i = Some e \<and> asks_for k (rkey (crecord e)) \<and> \<not> avahi_cache_entry_half_ttl now e \<and> r = crecord e}"

lemma walk_known:
  assumes "\<And>i. i \<in> set l \<Longrightarrow> \<exists>e. cstore c i = Some e \<and> select c i = Ret (P e)"
  shows "\<exists>rs. walk_loop (\<lambda>_. c) select (known_answer_walk_callback now c) l s = Ret (s\<lparr>known_answers := rs @ known_answers s\<rparr>, None) \<and>
    set rs = {r. \<exists>i \<in> set l. \<exists>e. cstore c i = Some e \<and> P e \<and> \<not> avahi_cache_entry_half_ttl now e \<and> r = crecord e}"
  using assms
proof (induction l arbitrary: s)
  case (Cons i l)
  from Cons.prems [of i] obtain e where e: "cstore c i = Some e" "select c i = Ret (P e)" by auto
  let ?new = "if P e \<and> \<not> avahi_cache_entry_half_ttl now e then [crecord e] else []"
  let ?s = "s\<lparr>known_answers := ?new @ known_answers s\<rparr>"
  have step: "walk_loop (\<lambda>_. c) select (known_answer_walk_callback now c) (i # l) s =
      walk_loop (\<lambda>_. c) select (known_answer_walk_callback now c) l ?s"
    using e by (simp add: known_answer_walk_callback_def)
  from Cons.IH [of ?s] Cons.prems obtain rs where
    rs: "walk_loop (\<lambda>_. c) select (known_answer_walk_callback now c) l ?s = Ret (?s\<lparr>known_answers := rs @ known_answers ?s\<rparr>, None)"
      "set rs = {r. \<exists>i \<in> set l. \<exists>e. cstore c i = Some e \<and> P e \<and> \<not> avahi_cache_entry_half_ttl now e \<and> r = crecord e}" by auto
  have "set (rs @ ?new) = {r. \<exists>i \<in> set (i # l). \<exists>e. cstore c i = Some e \<and> P e \<and> \<not> avahi_cache_entry_half_ttl now e \<and> r = crecord e}"
    using rs(2) e(1) by auto
  with rs(1) step show ?case by (intro exI [of _ "rs @ ?new"]) simp
qed (auto intro: exI [of _ "[]"])

lemma known_answers_ok:
  assumes inv: "cache_inv cs n c" and k: "key_ok k"
  shows "\<exists>rs. avahi_cache_walk cs (\<lambda>_. c) s k (known_answer_walk_callback now c) = Ret (s\<lparr>known_answers := rs @ known_answers s\<rparr>, None) \<and>
    set rs = fresh_answers now c k"
proof (cases "avahi_key_is_pattern k")
  case True
  have sel: "\<exists>e. cstore c i = Some e \<and> avahi_key_pattern_match k (entry_key c i) = Ret (asks_for k (rkey (crecord e)))"
    if "i \<in> set (centries c)" for i
  proof -
    from inv that obtain e where "cstore c i = Some e" "centry_ok e" by (auto simp: cache_inv_def)
    with k show ?thesis
      by (auto simp: entry_key_def asks_for_def avahi_key_pattern_match_def centry_ok_def rr_ok_def key_ok_def domain_equal_folded)
  qed
  have "cstore c i = Some e \<Longrightarrow> i \<in> set (centries c)" for i e using inv by (auto simp: cache_inv_def)
  moreover from walk_known [of "centries c" c "\<lambda>c i. avahi_key_pattern_match k (entry_key c i)" "\<lambda>e. asks_for k (rkey (crecord e))", OF sel]
  obtain rs where rs: "walk_loop (\<lambda>_. c) (\<lambda>c i. avahi_key_pattern_match k (entry_key c i)) (known_answer_walk_callback now c) (centries c) s =
      Ret (s\<lparr>known_answers := rs @ known_answers s\<rparr>, None)"
    "set rs = {r. \<exists>i \<in> set (centries c). \<exists>e. cstore c i = Some e \<and> asks_for k (rkey (crecord e)) \<and>
       \<not> avahi_cache_entry_half_ttl now e \<and> r = crecord e}" by blast
  ultimately have "set rs = fresh_answers now c k" unfolding fresh_answers_def by blast
  with rs(1) True show ?thesis by (intro exI [of _ rs]) (simp add: avahi_cache_walk_def)
next
  case False
  let ?l = "index_list cs (cindex c) k"
  note l = index_list_cache [OF inv k]
  have mem: "i \<in> set ?l \<longleftrightarrow> (\<exists>e. cstore c i = Some e \<and> asks_for k (rkey (crecord e)))" for i
    using l(1) False by (auto simp: asks_for_def key_abs_def avahi_key_is_pattern_def)
  have "\<exists>e. cstore c i = Some e \<and> (\<lambda>c i. Ret True) c i = Ret True" if "i \<in> set ?l" for i using that mem by auto
  from walk_known [of ?l c "\<lambda>c i. Ret True" "\<lambda>_. True", OF this] obtain rs where
    "walk_loop (\<lambda>_. c) (\<lambda>c i. Ret True) (known_answer_walk_callback now c) ?l s = Ret (s\<lparr>known_answers := rs @ known_answers s\<rparr>, None)"
    "set rs = {r. \<exists>i \<in> set ?l. \<exists>e. cstore c i = Some e \<and> True \<and> \<not> avahi_cache_entry_half_ttl now e \<and> r = crecord e}" by blast
  moreover have "cstore c i = Some e \<Longrightarrow> i \<in> set ?l \<longleftrightarrow> asks_for k (rkey (crecord e))" for i e using mem by simp
  with calculation(2) have "set rs = fresh_answers now c k" unfolding fresh_answers_def by blast
  ultimately show ?thesis using False by (auto simp: avahi_cache_walk_def lookup_key_def)
qed

section \<open>Packets\<close>

definition question :: "key \<Rightarrow> entry" where
  "question k = Question k False"

definition answer :: "rr \<Rightarrow> entry" where
  "answer r = Answer r False 0"

text \<open>A packet being filled, and one that is sent.\<close>

definition open_packet :: "bool \<Rightarrow> nat \<Rightarrow> key list \<Rightarrow> rr list \<Rightarrow> dns_packet \<Rightarrow> bool" where
  "open_packet sc mtu ks as p \<longleftrightarrow> holds sc p (map question ks @ map answer as) \<and> max_size p = packet_max mtu \<and>
     header p AVAHI_DNS_FIELD_QDCOUNT = of_nat (length ks) \<and> header p AVAHI_DNS_FIELD_FLAGS = 0"

definition query_packet :: "bool \<Rightarrow> nat \<Rightarrow> key list \<Rightarrow> bool \<Rightarrow> rr list \<Rightarrow> dns_packet \<Rightarrow> bool" where
  "query_packet sc mtu ks tc as p \<longleftrightarrow> holds sc p (map question ks @ map answer as) \<and> max_size p = packet_max mtu \<and>
     header p AVAHI_DNS_FIELD_QDCOUNT = of_nat (length ks) \<and> header p AVAHI_DNS_FIELD_ANCOUNT = of_nat (length as) \<and>
     header p AVAHI_DNS_FIELD_FLAGS = (if tc then AVAHI_DNS_FLAG_TC else 0)"

fun train :: "bool \<Rightarrow> nat \<Rightarrow> key list \<Rightarrow> rr list list \<Rightarrow> dns_packet list \<Rightarrow> bool" where
  "train sc mtu ks (as # ass) (p # ps) \<longleftrightarrow>
     query_packet sc mtu ks (ass \<noteq> []) as p \<and> (if ass = [] then ps = [] else train sc mtu [] ass ps)"
| "train sc mtu ks _ _ \<longleftrightarrow> False"

lemma open_new:
  obtains p where "avahi_dns_packet_new_query mtu = Ret p" "open_packet sc mtu [] [] p" "psize p = 12"
proof -
  have f: "AVAHI_DNS_FIELD_QDCOUNT < 6" "AVAHI_DNS_FIELD_FLAGS < 6" "AVAHI_DNS_FIELD_QDCOUNT \<noteq> AVAHI_DNS_FIELD_FLAGS"
    and z: "AVAHI_DNS_FLAGS False False = 0" by (simp_all add: field_defs AVAHI_DNS_FLAGS_def)
  obtain p where p: "avahi_dns_packet_set_field (avahi_dns_packet_new mtu) AVAHI_DNS_FIELD_FLAGS (AVAHI_DNS_FLAGS False False) = Ret p"
    "holds sc p []" "psize p = 12" "max_size p = packet_max mtu"
    "\<And>k. k < 6 \<Longrightarrow> header p k = (if k = AVAHI_DNS_FIELD_FLAGS then AVAHI_DNS_FLAGS False False else 0)"
    by (rule holds_new [where mtu = mtu and v = "AVAHI_DNS_FLAGS False False" and sc = sc]) blast
  show thesis
    by (rule that [of p]) (simp_all add: avahi_dns_packet_new_query_def open_packet_def p(1) [unfolded z] p(2-4) p(5) [OF f(1)] p(5) [OF f(2)] f(3) z)
qed

lemma append_answer:
  assumes "open_packet sc mtu ks as p" "sent_record r"
  obtains p' x where "avahi_dns_packet_append_record sc p r False 0 = Ret (p', x)"
    "if x = None then open_packet sc mtu ks as p' \<and> psize p' = psize p \<and> packet_max mtu < psize p + record_room r
     else open_packet sc mtu ks (as @ [r]) p'"
proof -
  have h: "holds sc p (map question ks @ map answer as)" using assms(1) by (simp add: open_packet_def)
  from append_record_holds [OF h assms(2), where f = False and m = 0] obtain p' x where
    x: "avahi_dns_packet_append_record sc p r False 0 = Ret (p', x)" "\<And>k. k < 6 \<Longrightarrow> header p' k = header p k" "max_size p' = max_size p"
      "case x of None \<Rightarrow> holds sc p' (map question ks @ map answer as) \<and> psize p' = psize p \<and> max_size p < psize p + record_room r
       | Some i \<Rightarrow> holds sc p' ((map question ks @ map answer as) @ [Answer r False 0]) \<and> psize p < psize p' \<and> psize p' \<le> psize p + record_room r"
    by blast
  have "header p' AVAHI_DNS_FIELD_QDCOUNT = header p AVAHI_DNS_FIELD_QDCOUNT" "header p' AVAHI_DNS_FIELD_FLAGS = header p AVAHI_DNS_FIELD_FLAGS"
    using x(2) by (simp_all add: field_defs)
  with x(1,3,4) assms(1) show thesis
    by (intro that [of p' x]) (auto simp: open_packet_def answer_def split: option.splits)
qed

text \<open>Setting the count, and the TC flag, makes the packet ready.\<close>

lemma set_count:
  assumes "open_packet sc mtu ks as p"
  obtains q where "avahi_dns_packet_set_field p AVAHI_DNS_FIELD_ANCOUNT (of_nat (length as)) = Ret q" "query_packet sc mtu ks False as q"
proof -
  have h: "holds sc p (map question ks @ map answer as)" using assms(1) by (simp add: open_packet_def)
  from set_field_holds [OF h, of AVAHI_DNS_FIELD_ANCOUNT "of_nat (length as)"] obtain q where
    "avahi_dns_packet_set_field p AVAHI_DNS_FIELD_ANCOUNT (of_nat (length as)) = Ret q" "holds sc q (map question ks @ map answer as)"
    "max_size q = max_size p" "\<And>k. k < 6 \<Longrightarrow> header q k = (if k = AVAHI_DNS_FIELD_ANCOUNT then of_nat (length as) else header p k)"
    by (auto simp: field_defs)
  with assms show thesis by (intro that [of q]) (auto simp: open_packet_def query_packet_def field_defs)
qed

lemma set_count_tc:
  assumes "open_packet sc mtu ks as p"
  obtains q q' where "avahi_dns_packet_get_field p AVAHI_DNS_FIELD_FLAGS = Ret 0"
    "avahi_dns_packet_set_field p AVAHI_DNS_FIELD_FLAGS (0 OR AVAHI_DNS_FLAG_TC) = Ret q"
    "avahi_dns_packet_set_field q AVAHI_DNS_FIELD_ANCOUNT (of_nat (length as)) = Ret q'" "query_packet sc mtu ks True as q'"
proof -
  have h: "holds sc p (map question ks @ map answer as)" using assms(1) by (simp add: open_packet_def)
  have f: "avahi_dns_packet_get_field p AVAHI_DNS_FIELD_FLAGS = Ret 0"
    using get_field [of p AVAHI_DNS_FIELD_FLAGS] holds_size [OF h] assms by (auto simp: open_packet_def field_defs)
  have zero: "0 OR AVAHI_DNS_FLAG_TC = AVAHI_DNS_FLAG_TC" by simp
  from set_field_holds [OF h, of AVAHI_DNS_FIELD_FLAGS AVAHI_DNS_FLAG_TC] obtain q where
    q: "avahi_dns_packet_set_field p AVAHI_DNS_FIELD_FLAGS (0 OR AVAHI_DNS_FLAG_TC) = Ret q" "holds sc q (map question ks @ map answer as)"
    "max_size q = max_size p" "\<And>k. k < 6 \<Longrightarrow> header q k = (if k = AVAHI_DNS_FIELD_FLAGS then AVAHI_DNS_FLAG_TC else header p k)"
    unfolding zero by (auto simp: field_defs)
  from set_field_holds [OF q(2), of AVAHI_DNS_FIELD_ANCOUNT "of_nat (length as)"] obtain q' where
    "avahi_dns_packet_set_field q AVAHI_DNS_FIELD_ANCOUNT (of_nat (length as)) = Ret q'" "holds sc q' (map question ks @ map answer as)"
    "max_size q' = max_size q" "\<And>k. k < 6 \<Longrightarrow> header q' k = (if k = AVAHI_DNS_FIELD_ANCOUNT then of_nat (length as) else header q k)"
    by (auto simp: field_defs)
  with f q assms show thesis by (intro that [of q q']) (auto simp: open_packet_def query_packet_def field_defs)
qed

section \<open>Filling packets with the known answers\<close>

lemma train_Cons: "query_packet sc mtu ks True as p \<Longrightarrow> train sc mtu [] ass ps \<Longrightarrow> train sc mtu ks (as # ass) (p # ps)"
  by (cases ass) auto

lemma send_packet_simps [simp]:
  "qsent (send_packet p s) = qsent s @ [p]" "known_answers (send_packet p s) = known_answers s"
  by (simp_all add: send_packet_def)

definition sent_also :: "dns_packet list \<Rightarrow> query_sched \<Rightarrow> query_sched" where
  "sent_also ps s = s\<lparr>qsent := qsent s @ ps\<rparr>"

lemma sent_also_simps [simp]:
  "sent_also [] s = s" "sent_also ps (sent_also qs s) = sent_also (qs @ ps) s"
  "send_packet p s = sent_also [p] s"
  "known_answers (sent_also ps s) = known_answers s" "qsent (sent_also ps s) = qsent s @ ps"
  by (simp_all add: sent_also_def send_packet_def)

lemma open_empty: "open_packet sc mtu ks as p \<Longrightarrow> avahi_dns_packet_is_empty p \<longleftrightarrow> ks = [] \<and> as = []"
  using holds_empty by (auto simp: open_packet_def)

lemma open_size: "open_packet sc mtu [] [] p \<Longrightarrow> psize p = 12"
  using open_empty [of sc mtu "[]" "[]" p] holds_size [of sc p "[]"]
  by (auto simp: open_packet_def avahi_dns_packet_is_empty_def AVAHI_DNS_PACKET_HEADER_SIZE_def)

text \<open>
  One record: it is added, or left out because it does not fit into an empty packet, or the packet
  is sent and the record tried with the next one. \<open>b\<close> says that it was added.
\<close>

definition added :: "bool \<Rightarrow> nat \<Rightarrow> key list \<Rightarrow> rr list \<Rightarrow> rr \<Rightarrow> key list \<Rightarrow> rr list \<Rightarrow> dns_packet list \<Rightarrow> bool \<Rightarrow> bool" where
  "added sc mtu ks as r ks' as' ps b \<longleftrightarrow>
     (if ps = [] then ks' = ks \<and> as' = as @ (if b then [r] else [])
      else ks' = [] \<and> as' = (if b then [r] else []) \<and> (\<exists>q. ps = [q] \<and> query_packet sc mtu ks True as q)) \<and>
     (12 + record_room r \<le> packet_max mtu \<longrightarrow> b)"

lemma append_known_answer_open:
  assumes "open_packet sc mtu [] [] p" "sent_record r"
  shows "\<exists>p' b. append_known_answer sc mtu (Suc k) s p 0 r = Ret (s, p', 0, \<not> b) \<and>
    open_packet sc mtu [] (if b then [r] else []) p' \<and> (12 + record_room r \<le> packet_max mtu \<longrightarrow> b)"
proof -
  from append_answer [OF assms] obtain p' x where x: "avahi_dns_packet_append_record sc p r False 0 = Ret (p', x)"
    "if x = None then open_packet sc mtu [] [] p' \<and> psize p' = psize p \<and> packet_max mtu < psize p + record_room r
     else open_packet sc mtu [] ([] @ [r]) p'" by blast
  then show ?thesis
    using open_size [OF assms(1)] open_empty [of sc mtu "[]" "[]" p'] by (cases x) auto
qed

lemma append_known_answer_ok:
  assumes "open_packet sc mtu ks as p" "sent_record r"
  shows "\<exists>ks' as' p' ps n b. append_known_answer sc mtu 2 s p (length as) r = Ret (sent_also ps s, p', n, \<not> b) \<and>
    open_packet sc mtu ks' as' p' \<and> length as' = (if b then n + 1 else n) \<and> added sc mtu ks as r ks' as' ps b"
proof -
  from append_answer [OF assms] obtain p' x where x: "avahi_dns_packet_append_record sc p r False 0 = Ret (p', x)"
    "if x = None then open_packet sc mtu ks as p' \<and> psize p' = psize p \<and> packet_max mtu < psize p + record_room r
     else open_packet sc mtu ks (as @ [r]) p'" by blast
  show ?thesis
  proof (cases "x = None \<and> (ks \<noteq> [] \<or> as \<noteq> [])")
    case False
    show ?thesis
    proof (cases "x = None")
      case True
      with False assms(1) have e: "ks = []" "as = []" "open_packet sc mtu [] [] p" by auto
      from append_known_answer_open [OF e(3) assms(2), of 1 s] obtain p2 b where
        "append_known_answer sc mtu 2 s p 0 r = Ret (s, p2, 0, \<not> b)"
        "open_packet sc mtu [] (if b then [r] else []) p2" "12 + record_room r \<le> packet_max mtu \<longrightarrow> b" by (auto simp: numeral_2_eq_2)
      with e show ?thesis
        by (intro exI [of _ "[]"] exI [of _ "if b then [r] else []"] exI [of _ p2] exI [of _ "[]"] exI [of _ 0] exI [of _ b])
          (simp add: added_def)
    next
      case False
      with x have "append_known_answer sc mtu 2 s p (length as) r = Ret (s, p', length as, False)" by (simp add: numeral_2_eq_2)
      with x False show ?thesis
        by (intro exI [of _ ks] exI [of _ "as @ [r]"] exI [of _ p'] exI [of _ "[]"] exI [of _ "length as"] exI [of _ True])
          (simp add: added_def)
    qed
  next
    case True
    with x(2) have op: "open_packet sc mtu ks as p'" and ne: "\<not> avahi_dns_packet_is_empty p'" using open_empty by auto
    obtain q q' where q: "avahi_dns_packet_get_field p' AVAHI_DNS_FIELD_FLAGS = Ret 0"
      "avahi_dns_packet_set_field p' AVAHI_DNS_FIELD_FLAGS (0 OR AVAHI_DNS_FLAG_TC) = Ret q"
      "avahi_dns_packet_set_field q AVAHI_DNS_FIELD_ANCOUNT (of_nat (length as)) = Ret q'" "query_packet sc mtu ks True as q'"
      using set_count_tc [OF op] by blast
    obtain p1 where p1: "avahi_dns_packet_new_query mtu = Ret p1" "open_packet sc mtu [] [] p1" using open_new by blast
    from append_known_answer_open [OF p1(2) assms(2), of 0 "send_packet q' s"] obtain p2 b where
      p2: "append_known_answer sc mtu (Suc 0) (send_packet q' s) p1 0 r = Ret (send_packet q' s, p2, 0, \<not> b)"
      "open_packet sc mtu [] (if b then [r] else []) p2" "12 + record_room r \<le> packet_max mtu \<longrightarrow> b" by blast
    have "append_known_answer sc mtu 2 s p (length as) r = append_known_answer sc mtu (Suc 0) (send_packet q' s) p1 0 r"
      unfolding numeral_2_eq_2 append_known_answer.simps(2) [of sc mtu "Suc 0" s p] x(1) res_bind.simps prod.case q(1-3) p1(1)
      using True ne by simp
    with p2 q(4) show ?thesis
      by (intro exI [of _ "[]"] exI [of _ "if b then [r] else []"] exI [of _ p2] exI [of _ "[q']"] exI [of _ 0] exI [of _ b])
        (simp add: added_def)
  qed
qed

text \<open>All of them: what is left open at the end completes the train.\<close>

lemma append_known_answers_ok:
  assumes "open_packet sc mtu ks as p" "\<forall>r \<in> set (known_answers s). sent_record r" "length (known_answers s) \<le> m"
  shows "\<exists>ks' as' p' ps ass rs. append_known_answers sc mtu m s p (length as) =
      Ret (sent_also ps s\<lparr>known_answers := []\<rparr>, p', length as') \<and> open_packet sc mtu ks' as' p' \<and>
    (\<forall>q. query_packet sc mtu ks' False as' q \<longrightarrow> train sc mtu ks (ass @ [as']) (ps @ [q])) \<and>
    concat (ass @ [as']) = as @ rs \<and> subseq rs (known_answers s) \<and>
    (\<forall>r \<in> set (known_answers s). 12 + record_room r \<le> packet_max mtu \<longrightarrow> r \<in> set rs)"
  using assms
proof (induction m arbitrary: s p ks as)
  case 0
  then show ?case
    by (intro exI [of _ ks] exI [of _ as] exI [of _ p] exI [of _ "[]"] exI [of _ "[]"] exI [of _ "[]"])
      (simp add: append_known_answers.simps)
next
  case (Suc m)
  show ?case
  proof (cases "known_answers s")
    case Nil
    with Suc.prems show ?thesis
      by (intro exI [of _ ks] exI [of _ as] exI [of _ p] exI [of _ "[]"] exI [of _ "[]"] exI [of _ "[]"])
        (simp add: append_known_answers.simps)
  next
    case (Cons r rest)
    with Suc.prems have r: "sent_record r" by simp
    from append_known_answer_ok [OF Suc.prems(1) r, of s] obtain ks1 as1 p1 ps1 n b where
      one: "append_known_answer sc mtu 2 s p (length as) r = Ret (sent_also ps1 s, p1, n, \<not> b)"
      "open_packet sc mtu ks1 as1 p1" "length as1 = (if b then n + 1 else n)" "added sc mtu ks as r ks1 as1 ps1 b" by blast
    let ?s = "sent_also ps1 s\<lparr>known_answers := rest\<rparr>"
    have ka: "known_answers ?s = rest" by simp
    from Suc.IH [OF one(2), of ?s] Suc.prems(2,3) Cons obtain ks' as' p' ps ass rs where
      two: "append_known_answers sc mtu m ?s p1 (length as1) = Ret (sent_also ps ?s\<lparr>known_answers := []\<rparr>, p', length as')"
      "open_packet sc mtu ks' as' p'" "\<forall>q. query_packet sc mtu ks' False as' q \<longrightarrow> train sc mtu ks1 (ass @ [as']) (ps @ [q])"
      "concat (ass @ [as']) = as1 @ rs" "subseq rs rest" "\<forall>r \<in> set rest. 12 + record_room r \<le> packet_max mtu \<longrightarrow> r \<in> set rs"
      unfolding ka by auto
    have step: "append_known_answers sc mtu (Suc m) s p (length as) =
        append_known_answers sc mtu m ?s p1 (length as1)"
      by (subst append_known_answers.simps) (simp add: Cons one(1,3))
    have same: "sent_also ps ?s\<lparr>known_answers := []\<rparr> = sent_also (ps1 @ ps) s\<lparr>known_answers := []\<rparr>"
      by (simp add: sent_also_def)
    let ?rs = "(if b then [r] else []) @ rs"
    have sub: "subseq ?rs (known_answers s)" "\<forall>r \<in> set (known_answers s). 12 + record_room r \<le> packet_max mtu \<longrightarrow> r \<in> set ?rs"
      using two(5,6) one(4) by (auto simp: Cons added_def)
    show ?thesis
    proof (cases "ps1 = []")
      case True
      with one(4) have "ks1 = ks" "as1 = as @ (if b then [r] else [])" by (auto simp: added_def)
      with two(1-4) step sub True same show ?thesis
        by (intro exI [of _ ks'] exI [of _ as'] exI [of _ p'] exI [of _ ps] exI [of _ ass] exI [of _ ?rs]) simp
    next
      case False
      with one(4) obtain q where q: "ks1 = []" "as1 = (if b then [r] else [])" "ps1 = [q]" "query_packet sc mtu ks True as q"
        by (auto simp: added_def)
      with two(1-4) step sub same train_Cons [OF q(4)] show ?thesis
        by (intro exI [of _ ks'] exI [of _ as'] exI [of _ p'] exI [of _ "ps1 @ ps"] exI [of _ "as # ass"] exI [of _ ?rs]) simp
    qed
  qed
qed

lemma known_answers_sent:
  assumes "open_packet sc mtu ks [] p" "\<forall>r \<in> set (known_answers s). sent_record r"
  shows "\<exists>ps ass. append_known_answers_and_send sc mtu s p = Ret (sent_also ps s\<lparr>known_answers := []\<rparr>) \<and>
    train sc mtu ks ass ps \<and> subseq (concat ass) (known_answers s) \<and>
    (\<forall>r \<in> set (known_answers s). 12 + record_room r \<le> packet_max mtu \<longrightarrow> r \<in> set (concat ass))"
proof -
  from append_known_answers_ok [OF assms order.refl] obtain ks' as' p' ps ass rs where
    a: "append_known_answers sc mtu (length (known_answers s)) s p 0 = Ret (sent_also ps s\<lparr>known_answers := []\<rparr>, p', length as')"
    "open_packet sc mtu ks' as' p'" "\<forall>q. query_packet sc mtu ks' False as' q \<longrightarrow> train sc mtu ks (ass @ [as']) (ps @ [q])"
    "concat (ass @ [as']) = rs" "subseq rs (known_answers s)"
    "\<forall>r \<in> set (known_answers s). 12 + record_room r \<le> packet_max mtu \<longrightarrow> r \<in> set rs" by auto
  from set_count [OF a(2)] obtain q where q: "avahi_dns_packet_set_field p' AVAHI_DNS_FIELD_ANCOUNT (of_nat (length as')) = Ret q"
    "query_packet sc mtu ks' False as' q" by blast
  have "append_known_answers_and_send sc mtu s p = Ret (sent_also (ps @ [q]) s\<lparr>known_answers := []\<rparr>)"
    unfolding append_known_answers_and_send_def a(1) res_bind.simps prod.case q(1) by (simp add: send_packet_def sent_also_def)
  with a(3-6) q(2) show ?thesis by (intro exI [of _ "ps @ [q]"] exI [of _ "ass @ [as']"]) simp
qed

section \<open>The questions\<close>

text \<open>The packet before its questions are counted.\<close>

definition asking :: "bool \<Rightarrow> nat \<Rightarrow> key list \<Rightarrow> dns_packet \<Rightarrow> bool" where
  "asking sc mtu ks p \<longleftrightarrow> holds sc p (map question ks) \<and> max_size p = packet_max mtu \<and> header p AVAHI_DNS_FIELD_FLAGS = 0"

lemma append_question:
  assumes "asking sc mtu ks p" "sent_key k"
  obtains p' x where "avahi_dns_packet_append_key sc p k False = Ret (p', x)"
    "if x = None then asking sc mtu ks p' \<and> packet_max mtu < psize p + key_room k
     else asking sc mtu (ks @ [k]) p' \<and> psize p' \<le> psize p + key_room k"
proof -
  have h: "holds sc p (map question ks)" using assms(1) by (simp add: asking_def)
  from append_key_holds [OF h assms(2), where u = False] obtain p' x where
    x: "avahi_dns_packet_append_key sc p k False = Ret (p', x)" "\<And>k. k < 6 \<Longrightarrow> header p' k = header p k" "max_size p' = max_size p"
      "case x of None \<Rightarrow> holds sc p' (map question ks) \<and> psize p' = psize p \<and> max_size p < psize p + key_room k
       | Some i \<Rightarrow> holds sc p' (map question ks @ [Question k False]) \<and> psize p < psize p' \<and> psize p' \<le> psize p + key_room k"
    by blast
  have "header p' AVAHI_DNS_FIELD_FLAGS = header p AVAHI_DNS_FIELD_FLAGS" using x(2) by (simp add: field_defs)
  with x(1,3,4) assms(1) show thesis
    by (intro that [of p' x]) (auto simp: asking_def question_def split: option.splits)
qed

lemma count_questions:
  assumes "asking sc mtu ks p"
  obtains q where "avahi_dns_packet_set_field p AVAHI_DNS_FIELD_QDCOUNT (of_nat (length ks)) = Ret q" "open_packet sc mtu ks [] q"
proof -
  have h: "holds sc p (map question ks)" using assms(1) by (simp add: asking_def)
  from set_field_holds [OF h, of AVAHI_DNS_FIELD_QDCOUNT "of_nat (length ks)"] obtain q where
    "avahi_dns_packet_set_field p AVAHI_DNS_FIELD_QDCOUNT (of_nat (length ks)) = Ret q" "holds sc q (map question ks)"
    "max_size q = max_size p" "\<And>k. k < 6 \<Longrightarrow> header q k = (if k = AVAHI_DNS_FIELD_QDCOUNT then of_nat (length ks) else header p k)"
    by (auto simp: field_defs)
  with assms show thesis by (intro that [of q]) (auto simp: asking_def open_packet_def field_defs)
qed

text \<open>Whether a question fits into an empty packet, which the code asserts of those it sends.\<close>

definition question_fits :: "bool \<Rightarrow> nat \<Rightarrow> key \<Rightarrow> bool" where
  "question_fits sc mtu k \<longleftrightarrow>
     (case avahi_dns_packet_new_query mtu of
        Crash \<Rightarrow> False
      | Ret p \<Rightarrow> (case avahi_dns_packet_append_key sc p k False of Ret (_, Some _) \<Rightarrow> True | _ \<Rightarrow> False))"

lemma question_fits_room:
  assumes "sent_key k" "12 + key_room k \<le> packet_max mtu"
  shows "question_fits sc mtu k"
proof -
  obtain p0 where p0: "avahi_dns_packet_new_query mtu = Ret p0" "open_packet sc mtu [] [] p0" "psize p0 = 12" using open_new by blast
  then have "asking sc mtu [] p0" by (simp add: open_packet_def asking_def)
  from append_question [OF this assms(1)] obtain p' x where
    "avahi_dns_packet_append_key sc p0 k False = Ret (p', x)" "x \<noteq> None"
    using assms(2) p0(3) by (metis not_le)
  with p0(1) show ?thesis by (auto simp: question_fits_def)
qed

definition with_known :: "rr list \<Rightarrow> query_sched \<Rightarrow> query_sched" where
  "with_known rs s = s\<lparr>known_answers := rs @ known_answers s\<rparr>"

lemma with_known_simps [simp]:
  "qstore (with_known rs s) = qstore s" "qjobs (with_known rs s) = qjobs s" "qhistory (with_known rs s) = qhistory s"
  "known_answers (with_known rs s) = rs @ known_answers s" "qsent (with_known rs s) = qsent s" "qfresh (with_known rs s) = qfresh s"
  "with_known rs (with_known rs' s) = with_known (rs @ rs') s" "with_known [] s = s"
  "mark_done now i (with_known rs s) = with_known rs (mark_done now i s)"
  "query_core (with_known rs s) = query_core s"
  by (simp_all add: with_known_def mark_done_def query_core_def)

lemma add_job_ok:
  assumes "query_core s" "qstore s i = Some j" "\<not> qdone j" "normalized now" "cache_inv sc n c" "asking sc mtu ks p"
  shows "\<exists>p' b rs. packet_add_query_job sc now c s p i = Ret (if b then with_known rs (mark_done now i s) else s, p', b) \<and>
    (b \<longleftrightarrow> \<not> (\<exists>q. avahi_dns_packet_append_key sc p (qkey j) False = Ret (q, None))) \<and>
    (if b then asking sc mtu (ks @ [qkey j]) p' \<and> psize p' \<le> psize p + key_room (qkey j) \<and> set rs = fresh_answers now c (qkey j)
     else asking sc mtu ks p' \<and> packet_max mtu < psize p + key_room (qkey j))"
proof -
  have j: "key_ok (qkey j)" "sent_key (qkey j)" using core_job [OF assms(1,2)] by (simp_all add: job_ok_def)
  from append_question [OF assms(6) j(2)] obtain p' x where x: "avahi_dns_packet_append_key sc p (qkey j) False = Ret (p', x)"
    "if x = None then asking sc mtu ks p' \<and> packet_max mtu < psize p + key_room (qkey j)
     else asking sc mtu (ks @ [qkey j]) p' \<and> psize p' \<le> psize p + key_room (qkey j)" by blast
  show ?thesis
  proof (cases "x = None")
    case True
    with x assms(2) show ?thesis
      by (intro exI [of _ p'] exI [of _ False] exI [of _ "[]"]) (simp add: packet_add_query_job_def)
  next
    case False
    from known_answers_ok [OF assms(5) j(1), of s now] obtain rs where
      rs: "avahi_cache_walk sc (\<lambda>_. c) s (qkey j) (known_answer_walk_callback now c) = Ret (with_known rs s, None)"
      "set rs = fresh_answers now c (qkey j)" by (auto simp: with_known_def)
    have "query_core (with_known rs s)" "qstore (with_known rs s) i = Some j" using assms(1,2) by simp_all
    from job_mark_done_ok(1) [OF this assms(3,4)] have "job_mark_done now (with_known rs s) i = Ret (with_known rs (mark_done now i s))" by simp
    with x rs False assms(2) show ?thesis
      by (intro exI [of _ p'] exI [of _ True] exI [of _ rs]) (simp add: packet_add_query_job_def)
  qed
qed

text \<open>The questions of jobs, and the records they ask for.\<close>

definition keys_of :: "query_sched \<Rightarrow> nat list \<Rightarrow> key list" where
  "keys_of s js = map (\<lambda>i. qkey (the (qstore s i))) js"

definition all_fresh :: "timeval \<Rightarrow> cache \<Rightarrow> key list \<Rightarrow> rr set" where
  "all_fresh now c ks = (\<Union>k \<in> set ks. fresh_answers now c k)"

lemma keys_of_mark_done: "qstore s i \<noteq> None \<Longrightarrow> keys_of (mark_done now i s) js = keys_of s js"
  by (auto simp: keys_of_def)

lemma add_query_jobs_ok:
  assumes "query_core s" "normalized now" "cache_inv sc n c" "asking sc mtu ks p" "length (qjobs s) \<le> m"
  shows "\<exists>k p' rs. k \<le> length (qjobs s) \<and>
    add_query_jobs sc now c m s p x = Ret (with_known rs (fold (mark_done now) (take k (qjobs s)) s), p', x + k) \<and>
    query_core (fold (mark_done now) (take k (qjobs s)) s) \<and>
    asking sc mtu (ks @ keys_of s (take k (qjobs s))) p' \<and> set rs = all_fresh now c (keys_of s (take k (qjobs s))) \<and>
    (psize p + sum_list (map key_room (keys_of s (qjobs s))) \<le> packet_max mtu \<longrightarrow> k = length (qjobs s))"
  using assms(1,4,5)
proof (induction m arbitrary: s p ks x)
  case 0
  then show ?case
    by (intro exI [of _ 0] exI [of _ p] exI [of _ "[]"]) (simp add: add_query_jobs.simps keys_of_def all_fresh_def)
next
  case (Suc m)
  show ?case
  proof (cases "qjobs s")
    case Nil
    with Suc.prems show ?thesis
      by (intro exI [of _ 0] exI [of _ p] exI [of _ "[]"]) (simp add: add_query_jobs.simps keys_of_def all_fresh_def)
  next
    case (Cons i l)
    with core_scheduled [OF Suc.prems(1), of i] obtain j where j: "qstore s i = Some j" "\<not> qdone j" by auto
    from add_job_ok [OF Suc.prems(1) j assms(2,3) Suc.prems(2)] obtain p1 b rs1 where
      p1: "packet_add_query_job sc now c s p i = Ret (if b then with_known rs1 (mark_done now i s) else s, p1, b)"
      "if b then asking sc mtu (ks @ [qkey j]) p1 \<and> psize p1 \<le> psize p + key_room (qkey j) \<and> set rs1 = fresh_answers now c (qkey j)
       else asking sc mtu ks p1 \<and> packet_max mtu < psize p + key_room (qkey j)" by blast
    show ?thesis
    proof (cases b)
      case False
      with p1 Cons j have "add_query_jobs sc now c (Suc m) s p x = Ret (s, p1, x)" by (simp add: add_query_jobs.simps)
      moreover have "\<not> psize p + sum_list (map key_room (keys_of s (qjobs s))) \<le> packet_max mtu"
        using p1(2) False Cons j by (simp add: keys_of_def)
      ultimately show ?thesis using p1 False Suc.prems(1)
        by (intro exI [of _ 0] exI [of _ p1] exI [of _ "[]"]) (simp add: keys_of_def all_fresh_def)
    next
      case True
      let ?s = "mark_done now i s"
      have core: "query_core (with_known rs1 ?s)" using job_mark_done_ok(2) [OF Suc.prems(1) j assms(2)] by simp
      have jobs: "qjobs (with_known rs1 ?s) = l" using Cons by simp
      have keys: "keys_of (with_known rs1 ?s) js = keys_of s js" for js using keys_of_mark_done [of s i] j by (simp add: keys_of_def)
      from Suc.IH [OF core, of "ks @ [qkey j]" p1 "x + 1"] Suc.prems(3) p1(2) True Cons obtain k p' rs where
        r: "k \<le> length l" "add_query_jobs sc now c m (with_known rs1 ?s) p1 (x + 1) =
            Ret (with_known rs (fold (mark_done now) (take k l) (with_known rs1 ?s)), p', (x + 1) + k)"
          "query_core (fold (mark_done now) (take k l) (with_known rs1 ?s))"
          "asking sc mtu ((ks @ [qkey j]) @ keys_of s (take k l)) p'" "set rs = all_fresh now c (keys_of s (take k l))"
          "psize p1 + sum_list (map key_room (keys_of s l)) \<le> packet_max mtu \<longrightarrow> k = length l"
        unfolding jobs keys by auto
      have known: "fold (mark_done now) js (with_known rs1 t) = with_known rs1 (fold (mark_done now) js t)" for js t
        by (induction js arbitrary: t) simp_all
      have "add_query_jobs sc now c (Suc m) s p x = add_query_jobs sc now c m (with_known rs1 ?s) p1 (x + 1)"
        using Cons p1(1) True by (subst add_query_jobs.simps) simp
      then have "add_query_jobs sc now c (Suc m) s p x =
          Ret (with_known (rs @ rs1) (fold (mark_done now) (take (Suc k) (qjobs s)) s), p', x + Suc k)"
        using r(2) by (simp add: known Cons)
      moreover have "set (rs @ rs1) = all_fresh now c (keys_of s (take (Suc k) (qjobs s)))"
        using r(5) p1(2) True j by (auto simp: Cons keys_of_def all_fresh_def)
      moreover have "asking sc mtu (ks @ keys_of s (take (Suc k) (qjobs s))) p'" using r(4) j by (simp add: Cons keys_of_def)
      moreover have "psize p + sum_list (map key_room (keys_of s (qjobs s))) \<le> packet_max mtu \<longrightarrow> Suc k = length (qjobs s)"
        using r(6) p1(2) True j by (auto simp: Cons keys_of_def)
      ultimately show ?thesis using r(1,3) Cons
        by (intro exI [of _ "Suc k"] exI [of _ p'] exI [of _ "rs @ rs1"]) (simp add: known)
    qed
  qed
qed

section \<open>The time event\<close>

definition sends_train :: "bool \<Rightarrow> nat \<Rightarrow> timeval \<Rightarrow> cache \<Rightarrow> query_sched \<Rightarrow> nat list \<Rightarrow> query_sched \<Rightarrow> bool" where
  "sends_train sc mtu now c s js s' \<longleftrightarrow> (\<exists>ps ass. s' = sent_also ps (fold (mark_done now) js s) \<and> train sc mtu (keys_of s js) ass ps \<and>
     set (concat ass) \<subseteq> all_fresh now c (keys_of s js) \<and>
     (\<forall>r \<in> all_fresh now c (keys_of s js). 12 + record_room r \<le> packet_max mtu \<longrightarrow> r \<in> set (concat ass)))"

lemma elapse_done:
  assumes "query_inv s" "qstore s i = Some j" "qdone j"
  shows "elapse_callback sc mtu now c s i = Ret (freed i s)" "query_inv (freed i s)"
  using assms job_free_ok [of s i j] by (simp_all add: elapse_callback_def query_inv_def)

lemma elapse_scheduled:
  assumes inv: "query_inv s" and j: "qstore s i = Some j" "\<not> qdone j" and now: "normalized now"
    and c: "cache_inv sc n c" "\<forall>i e. cstore c i = Some e \<longrightarrow> sent_record (crecord e)"
    and room: "question_fits sc mtu (qkey j)"
  shows "\<exists>s' k. elapse_callback sc mtu now c s i = Ret s' \<and> query_inv s' \<and>
    sends_train sc mtu now c s (i # take k (remove1 i (qjobs s))) s' \<and>
    (12 + key_room (qkey j) + sum_list (map key_room (keys_of s (remove1 i (qjobs s)))) \<le> packet_max mtu \<longrightarrow>
       length (remove1 i (qjobs s)) \<le> k)"
proof -
  have core: "query_core s" and ka: "known_answers s = []" using inv by (auto simp: query_inv_def)
  obtain p0 where p0: "avahi_dns_packet_new_query mtu = Ret p0" "open_packet sc mtu [] [] p0" "psize p0 = 12" using open_new by blast
  then have ask: "asking sc mtu [] p0" by (simp add: open_packet_def asking_def)
  have "\<not> (\<exists>q. avahi_dns_packet_append_key sc p0 (qkey j) False = Ret (q, None))"
    using room p0(1) by (auto simp: question_fits_def)
  with add_job_ok [OF core j now c(1) ask] p0(3) obtain p1 rs1 where
    p1: "packet_add_query_job sc now c s p0 i = Ret (with_known rs1 (mark_done now i s), p1, True)"
      "asking sc mtu [qkey j] p1" "psize p1 \<le> 12 + key_room (qkey j)" "set rs1 = fresh_answers now c (qkey j)"
    by (auto split: if_splits)
  let ?s1 = "with_known rs1 (mark_done now i s)"
  let ?l = "remove1 i (qjobs s)"
  have core1: "query_core ?s1" using job_mark_done_ok(2) [OF core j now] by simp
  have l: "qjobs ?s1 = ?l" by simp
  have keys: "keys_of ?s1 js = keys_of s js" for js using keys_of_mark_done [of s i] j by (simp add: keys_of_def)
  from add_query_jobs_ok [OF core1 now c(1) p1(2) order.refl, of 1] obtain k p2 rs where
    p2: "k \<le> length ?l" "add_query_jobs sc now c (length ?l) ?s1 p1 1 = Ret (with_known rs (fold (mark_done now) (take k ?l) ?s1), p2, 1 + k)"
      "query_core (fold (mark_done now) (take k ?l) ?s1)" "asking sc mtu ([qkey j] @ keys_of s (take k ?l)) p2"
      "set rs = all_fresh now c (keys_of s (take k ?l))"
      "psize p1 + sum_list (map key_room (keys_of s ?l)) \<le> packet_max mtu \<longrightarrow> k = length ?l"
    unfolding l keys by blast
  let ?js = "i # take k ?l"
  have ks: "[qkey j] @ keys_of s (take k ?l) = keys_of s ?js" using j by (simp add: keys_of_def)
  have len: "1 + k = length (keys_of s ?js)" using p2(1) by (simp add: keys_of_def)
  have known: "fold (mark_done now) js (with_known rs1 t) = with_known rs1 (fold (mark_done now) js t)" for js t
    by (induction js arbitrary: t) simp_all
  have frame: "known_answers (fold (mark_done now) js t) = known_answers t" for js t by (induction js arbitrary: t) simp_all
  let ?t = "fold (mark_done now) ?js s"
  let ?u = "with_known (rs @ rs1) ?t"
  have u: "with_known rs (fold (mark_done now) (take k ?l) ?s1) = ?u" by (simp add: known)
  have kau: "known_answers ?u = rs @ rs1" using ka frame by simp
  from count_questions [OF p2(4) [unfolded ks]] obtain q where
    q: "avahi_dns_packet_set_field p2 AVAHI_DNS_FIELD_QDCOUNT (of_nat (length (keys_of s ?js))) = Ret q" "open_packet sc mtu (keys_of s ?js) [] q"
    by blast
  have fresh: "set (known_answers ?u) = all_fresh now c (keys_of s ?js)"
    unfolding kau using p1(4) p2(5) j by (auto simp: keys_of_def all_fresh_def)
  have "\<forall>r \<in> set (known_answers ?u). sent_record r"
    unfolding fresh using c(2) by (auto simp: all_fresh_def fresh_answers_def)
  from known_answers_sent [OF q(2) this] obtain ps ass where
    ps: "append_known_answers_and_send sc mtu ?u q = Ret (sent_also ps ?u\<lparr>known_answers := []\<rparr>)" "train sc mtu (keys_of s ?js) ass ps"
      "subseq (concat ass) (known_answers ?u)"
      "\<forall>r \<in> set (known_answers ?u). 12 + record_room r \<le> packet_max mtu \<longrightarrow> r \<in> set (concat ass)" by blast
  have cleared: "sent_also ps ?u\<lparr>known_answers := []\<rparr> = sent_also ps ?t"
    using frame [of ?js s] ka by (simp add: sent_also_def with_known_def)
  have "elapse_callback sc mtu now c s i = Ret (sent_also ps ?t)"
    unfolding elapse_callback_def j(1) option.case p0(1) res_bind.simps p1(1) prod.case l p2(2) u len q(1) ps(1) cleared
    using j(2) ka by simp
  moreover have "query_inv (sent_also ps ?t)"
    using p2(3) ka frame by (simp add: known query_inv_def sent_also_def query_core_def)
  moreover have "sends_train sc mtu now c s ?js (sent_also ps ?t)"
    unfolding sends_train_def fresh [symmetric] using ps(2-4) list_emb_set [OF ps(3)]
    by (intro exI [of _ ps] exI [of _ ass]) auto
  ultimately show ?thesis using p1(3) p2(6)
    by (intro exI [of _ "sent_also ps ?t"] exI [of _ k]) auto
qed

lemma elapse_unfit:
  assumes inv: "query_inv s" and j: "qstore s i = Some j" "\<not> qdone j" and now: "normalized now"
    and c: "cache_inv sc n c" and room: "\<not> question_fits sc mtu (qkey j)"
  shows "elapse_callback sc mtu now c s i = Crash"
proof -
  have core: "query_core s" using inv by (auto simp: query_inv_def)
  obtain p0 where p0: "avahi_dns_packet_new_query mtu = Ret p0" "open_packet sc mtu [] [] p0" "psize p0 = 12" using open_new by blast
  then have ask: "asking sc mtu [] p0" by (simp add: open_packet_def asking_def)
  have "sent_key (qkey j)" using core_job [OF core j(1)] by (simp add: job_ok_def)
  from append_question [OF ask this] obtain q x where q: "avahi_dns_packet_append_key sc p0 (qkey j) False = Ret (q, x)" by blast
  with room p0(1) have "x = None" by (cases x) (auto simp: question_fits_def)
  with add_job_ok [OF core j now c ask] q obtain p1 where "packet_add_query_job sc now c s p0 i = Ret (s, p1, False)"
    by (auto split: if_splits)
  with j p0(1) show ?thesis by (simp add: elapse_callback_def)
qed

end
