(* ===== verification/Query_Properties.thy ===== *)
theory Query_Properties
  imports Query_Send Cache_Properties
begin

text \<open>The properties of the query scheduler, over all sequences of operations.\<close>

section \<open>What happens to a scheduler\<close>

datatype query_op =
    Query_post timeval key bool
  | Query_incoming timeval key
  | Query_withdraw u32
  | Query_clear
  | Query_elapse nat timeval cache nat

fun query_do :: "bool \<Rightarrow> query_op \<Rightarrow> query_sched \<Rightarrow> query_sched res" where
  "query_do sc (Query_post now k imm) s = res_map fst (avahi_query_scheduler_post now s k imm)"
| "query_do sc (Query_incoming now k) s = avahi_query_scheduler_incoming now s k"
| "query_do sc (Query_withdraw x) s = res_map fst (avahi_query_scheduler_withdraw_by_id s x)"
| "query_do sc Query_clear s = avahi_query_scheduler_clear s"
| "query_do sc (Query_elapse mtu now c i) s = elapse_callback sc mtu now c s i"

text \<open>
  The clock is normalised, questions have names in canonical form that fit the buffer of the
  receiver, time events fire for jobs in memory, and the cache is one the cache operations make.
\<close>

fun query_op_ok :: "bool \<Rightarrow> query_sched \<Rightarrow> query_op \<Rightarrow> bool" where
  "query_op_ok sc s (Query_post now k imm) \<longleftrightarrow> normalized now \<and> sendable_key k"
| "query_op_ok sc s (Query_incoming now k) \<longleftrightarrow> normalized now \<and> sendable_key k"
| "query_op_ok sc s (Query_withdraw x) \<longleftrightarrow> True"
| "query_op_ok sc s Query_clear \<longleftrightarrow> True"
| "query_op_ok sc s (Query_elapse mtu now c i) \<longleftrightarrow> normalized now \<and> (\<exists>n. reachable sc n c) \<and>
     (\<forall>i e. cstore c i = Some e \<longrightarrow> sent_record (crecord e)) \<and>
     qstore s i \<noteq> None"

text \<open>The code asserts that a question whose time has come fits into an empty packet.\<close>

fun query_fits :: "bool \<Rightarrow> query_sched \<Rightarrow> query_op \<Rightarrow> bool" where
  "query_fits sc s (Query_elapse mtu now c i) \<longleftrightarrow>
     (case qstore s i of None \<Rightarrow> True | Some j \<Rightarrow> qdone j \<or> question_fits sc mtu (qkey j))"
| "query_fits sc s _ \<longleftrightarrow> True"

inductive query_reachable :: "bool \<Rightarrow> query_sched \<Rightarrow> bool" for sc where
  query_new: "query_reachable sc avahi_query_scheduler_new"
| query_step: "query_reachable sc s \<Longrightarrow> query_op_ok sc s x \<Longrightarrow> query_do sc x s = Ret s' \<Longrightarrow> query_reachable sc s'"

lemma query_do_ok:
  assumes "query_inv s" "query_op_ok sc s x"
  shows "if query_fits sc s x then \<exists>s'. query_do sc x s = Ret s' \<and> query_inv s' else query_do sc x s = Crash"
proof (cases x)
  case (Query_post now k imm)
  with assms post_ok [OF assms(1), of k now imm] show ?thesis by auto
next
  case (Query_incoming now k)
  with assms incoming_ok [OF assms(1), of k now] show ?thesis by auto
next
  case (Query_withdraw n)
  with withdraw_ok [OF assms(1), of n] show ?thesis by auto
next
  case Query_clear
  with clear_ok [OF assms(1)] show ?thesis by auto
next
  case (Query_elapse mtu now c i)
  with assms(2) obtain j n where j: "qstore s i = Some j" "normalized now" "reachable sc n c"
    "\<forall>i e. cstore c i = Some e \<longrightarrow> sent_record (crecord e)" by auto
  show ?thesis
  proof (cases "qdone j")
    case True
    with elapse_done [OF assms(1) j(1)] j(1) Query_elapse show ?thesis by simp
  next
    case False
    note c = reachable_inv [OF j(3)]
    from elapse_scheduled [OF assms(1) j(1) False j(2) c j(4)] elapse_unfit [OF assms(1) j(1) False j(2) c]
    show ?thesis using Query_elapse j(1) False by auto
  qed
qed

lemma query_reachable_inv: "query_reachable sc s \<Longrightarrow> query_inv s"
proof (induction rule: query_reachable.induct)
  case query_new
  then show ?case by (rule query_inv_new)
next
  case (query_step s x s')
  with query_do_ok [OF query_step.IH query_step.hyps(2)] show ?case by (simp split: if_splits)
qed

section \<open>Properties\<close>

text \<open>
  Property C14. Whatever is posted, withdrawn, heard from other hosts and sent, in whatever order, an
  operation of the query scheduler crashes in one case only, and in that case it does: the time of a scheduled question has
  come that does not fit into an empty packet of the MTU, which the code asserts it does. It fits if the MTU leaves
  room for the header and the characters of its name and six bytes more. In every state there is at most one job for a question,
  without regard to case, scheduled or done; a scheduled job has its time event at the time of its
  delivery, a done one 100 milliseconds after it, so that every job is sent or forgotten in time;
  the list of known answers is empty.
\<close>

theorem query_scheduler_invariant:
  assumes "query_reachable sc s" "query_op_ok sc s x"
  shows "(if query_fits sc s x then \<exists>s'. query_do sc x s = Ret s' \<and> query_reachable sc s' else query_do sc x s = Crash) \<and>
    (\<forall>i j mtu. qstore s i = Some j \<and> 12 + key_room (qkey j) \<le> packet_max mtu \<longrightarrow> question_fits sc mtu (qkey j)) \<and>
    known_answers s = [] \<and>
    (\<forall>i i' j j'. qstore s i = Some j \<and> qstore s i' = Some j' \<and> key_abs (qkey j) = key_abs (qkey j') \<longrightarrow> i = i') \<and>
    (\<forall>i j. qstore s i = Some j \<longrightarrow>
       (if qdone j then i \<in> set (qhistory s) \<and> qtime_event j = Some (elapse_after (qdelivery j) AVAHI_QUERY_HISTORY_MSEC)
        else i \<in> set (qjobs s) \<and> qtime_event j = Some (qdelivery j)))"
proof -
  have inv: "query_inv s" using assms(1) by (rule query_reachable_inv)
  then have core: "query_core s" and "known_answers s = []" by (auto simp: query_inv_def)
  moreover have "\<forall>i i' j j'. qstore s i = Some j \<and> qstore s i' = Some j' \<and> key_abs (qkey j) = key_abs (qkey j') \<longrightarrow> i = i'"
    using core_unique [OF core] by blast
  moreover have "\<forall>i j. qstore s i = Some j \<longrightarrow>
       (if qdone j then i \<in> set (qhistory s) \<and> qtime_event j = Some (elapse_after (qdelivery j) AVAHI_QUERY_HISTORY_MSEC)
        else i \<in> set (qjobs s) \<and> qtime_event j = Some (qdelivery j))"
    using core_job [OF core] core_scheduled [OF core] core_history [OF core] by (auto simp: job_ok_def)
  moreover have "question_fits sc mtu (qkey j)" if "qstore s i = Some j" "12 + key_room (qkey j) \<le> packet_max mtu" for i j mtu
    using core_job [OF core that(1)] question_fits_room [OF _ that(2)] by (simp add: job_ok_def)
  moreover have "if query_fits sc s x then \<exists>s'. query_do sc x s = Ret s' \<and> query_reachable sc s' else query_do sc x s = Crash"
    using query_do_ok [OF inv assms(2)] query_step [OF assms] by (auto split: if_splits)
  ultimately show ?thesis by blast
qed

definition example_question :: key where
  "example_question = \<lparr>name = str ''a.local'', clazz = 1, ktype = AVAHI_DNS_TYPE_A\<rparr>"

lemma example_question_ok: "sendable_key example_question" "normalized (example_time 100)"
  by code_simp+

lemma query_scheduler_invariant_witness:
  "\<exists>s'. query_do True (Query_post (example_time 100) example_question True) avahi_query_scheduler_new = Ret s' \<and>
    query_reachable True s'"
proof -
  have "query_op_ok True avahi_query_scheduler_new (Query_post (example_time 100) example_question True)"
    using example_question_ok by simp
  from query_scheduler_invariant [OF query_new this, unfolded query_fits.simps if_True] show ?thesis by blast
qed

text \<open>
  Property C16. Questions are not asked twice. A question that is posted is scheduled, for at once
  or for 100 milliseconds later, or earlier when it already was, unless it has been seen or sent
  within the last 100 milliseconds: then nothing changes. When another host asks a scheduled
  question, it is taken from the schedule, and for 100 milliseconds posting it, in whatever
  case, has no effect.
\<close>

theorem duplicate_questions_suppressed:
  assumes "query_reachable sc s" "sendable_key k" "normalized now"
    and "sendable_key k'" "key_abs k' = key_abs k" "normalized now'" "usec_of now' \<le> usec_of now + 100000"
  shows "(\<exists>s' x. avahi_query_scheduler_post now s k imm = Ret (s', x) \<and> qsent s' = qsent s \<and>
      (if \<exists>j. done_for s k j \<and> usec_of now \<le> usec_of (qdelivery j) + 100000 then s' = s \<and> x = None
       else \<exists>j. scheduled_for s' k j \<and> x = Some (qid j) \<and> qtime_event j = Some (qdelivery j) \<and>
         usec_of (qdelivery j) \<le> usec_of now + (if imm then 0 else 100000))) \<and>
    (\<exists>s'. avahi_query_scheduler_incoming now s k = Ret s' \<and> \<not> (\<exists>j. scheduled_for s' k j) \<and>
      avahi_query_scheduler_post now' s' k' imm' = Ret (s', None))"
proof
  have inv: "query_inv s" using assms(1) by (rule query_reachable_inv)
  from post_ok [OF inv assms(2,3), of imm] obtain s' x where
    s': "avahi_query_scheduler_post now s k imm = Ret (s', x)" "query_inv s'" "qsent s' = qsent s"
      "if \<exists>j. done_for s k j \<and> recent now j then s' = s \<and> x = None
       else \<exists>j. scheduled_for s' k j \<and> x = Some (qid j) \<and>
         usec_of (qdelivery j) \<le> usec_of (elapse_after now (if imm then 0 else AVAHI_QUERY_DEFER_MSEC))" by blast
  have recent: "recent now j \<longleftrightarrow> usec_of now \<le> usec_of (qdelivery j) + 100000" for j
    by (auto simp: recent_def AVAHI_QUERY_HISTORY_MSEC_def)
  have event: "qtime_event j = Some (qdelivery j)" if "scheduled_for s' k j" for j
    using that s'(2) core_job by (fastforce simp: query_inv_def scheduled_for_def job_ok_def)
  show "\<exists>s' x. avahi_query_scheduler_post now s k imm = Ret (s', x) \<and> qsent s' = qsent s \<and>
      (if \<exists>j. done_for s k j \<and> usec_of now \<le> usec_of (qdelivery j) + 100000 then s' = s \<and> x = None
       else \<exists>j. scheduled_for s' k j \<and> x = Some (qid j) \<and> qtime_event j = Some (qdelivery j) \<and>
         usec_of (qdelivery j) \<le> usec_of now + (if imm then 0 else 100000))"
    using s' event unfolding recent
    by (intro exI [of _ s'] exI [of _ x]) (auto simp: elapse_after_usec AVAHI_QUERY_DEFER_MSEC_def split: if_splits)
next
  have inv: "query_inv s" using assms(1) by (rule query_reachable_inv)
  from incoming_ok [OF inv assms(2,3)] obtain s' j where s': "avahi_query_scheduler_incoming now s k = Ret s'" "query_inv s'"
    "done_for s' k j" "qdelivery j = now" "\<not> (\<exists>j. scheduled_for s' k j)" by blast
  have "done_for s' k' j" "recent now' j"
    using s'(3,4) assms(5,7) by (simp_all add: done_for_def recent_def AVAHI_QUERY_HISTORY_MSEC_def)
  with post_ok [OF s'(2) assms(4,6), of imm'] have "avahi_query_scheduler_post now' s' k' imm' = Ret (s', None)" by (auto split: if_splits)
  with s' show "\<exists>s'. avahi_query_scheduler_incoming now s k = Ret s' \<and> \<not> (\<exists>j. scheduled_for s' k j) \<and>
      avahi_query_scheduler_post now' s' k' imm' = Ret (s', None)" by blast
qed

lemma duplicate_questions_suppressed_witness:
  "\<exists>s'. avahi_query_scheduler_incoming (example_time 100) avahi_query_scheduler_new example_question = Ret s' \<and>
    avahi_query_scheduler_post (example_time 100) s' example_question True = Ret (s', None)"
  using duplicate_questions_suppressed [OF query_new [of True] example_question_ok example_question_ok(1) refl example_question_ok(2),
      where imm = True and imm' = True] by auto

lemma fold_mark_done:
  "qjobs (fold (mark_done now) l s) = fold remove1 l (qjobs s)"
  "i \<in> set l \<Longrightarrow> qstore s i = Some j \<Longrightarrow> \<exists>j'. qstore (fold (mark_done now) l s) i = Some j' \<and> qdone j' \<and> qdelivery j' = now \<and> qkey j' = qkey j"
proof -
  show "qjobs (fold (mark_done now) l s) = fold remove1 l (qjobs s)" by (induction l arbitrary: s) simp_all
  have keep: "qstore s i = Some j \<Longrightarrow> qdone j \<Longrightarrow> qdelivery j = now \<Longrightarrow>
      \<exists>j'. qstore (fold (mark_done now) l s) i = Some j' \<and> qdone j' \<and> qdelivery j' = now \<and> qkey j' = qkey j" for l s i j
  proof (induction l arbitrary: s j)
    case (Cons x l)
    show ?case
    proof (cases "x = i")
      case True
      let ?j = "j\<lparr>qdone := True, qdelivery := now, qtime_event := Some (elapse_after now AVAHI_QUERY_HISTORY_MSEC)\<rparr>"
      have "qstore (mark_done now x s) i = Some ?j" using True Cons.prems(1) by simp
      from Cons.IH [OF this] show ?thesis by simp
    qed (use Cons in simp)
  qed simp
  show "i \<in> set l \<Longrightarrow> qstore s i = Some j \<Longrightarrow> \<exists>j'. qstore (fold (mark_done now) l s) i = Some j' \<and> qdone j' \<and> qdelivery j' = now \<and> qkey j' = qkey j"
  proof (induction l arbitrary: s)
    case (Cons x l)
    let ?j = "j\<lparr>qdone := True, qdelivery := now, qtime_event := Some (elapse_after now AVAHI_QUERY_HISTORY_MSEC)\<rparr>"
    show ?case
    proof (cases "x = i")
      case True
      then have "qstore (mark_done now x s) i = Some ?j" using Cons.prems(2) by simp
      from keep [OF this, of l] show ?thesis by simp
    qed (use Cons in simp)
  qed simp
qed

lemma fold_remove1_take: "fold remove1 (take n xs) xs = drop n xs"
proof (induction n arbitrary: xs)
  case (Suc n)
  then show ?case by (cases xs) simp_all
qed simp

lemma sent_also_state [simp]: "qstore (sent_also ps s) = qstore s" "qjobs (sent_also ps s) = qjobs s"
  by (simp_all add: sent_also_def)

lemma post_after_train:
  assumes "query_inv s" "query_inv (sent_also ps (fold (mark_done now) l s))" "set l \<subseteq> set (qjobs s)" "k \<in> set (keys_of s l)"
    and "normalized now'" "usec_of now' \<le> usec_of now + 100000"
  shows "avahi_query_scheduler_post now' (sent_also ps (fold (mark_done now) l s)) k imm = Ret (sent_also ps (fold (mark_done now) l s), None)"
proof -
  let ?t = "sent_also ps (fold (mark_done now) l s)"
  have core: "query_core s" using assms(1) by (simp add: query_inv_def)
  from assms(4) obtain i where i: "i \<in> set l" "k = qkey (the (qstore s i))" by (auto simp: keys_of_def)
  with core_scheduled [OF core, of i] assms(3) obtain j where j: "qstore s i = Some j" by auto
  then have "sendable_key k" using core_job [OF core j] i(2) by (simp add: job_ok_def sendable_key_def)
  moreover from fold_mark_done(2) [OF i(1) j, of now] obtain j' where "qstore ?t i = Some j'" "qdone j'" "qdelivery j' = now" "qkey j' = k"
    using i(2) j by auto
  then have "done_for ?t k j'" "recent now' j'"
    using assms(6) by (auto simp: done_for_def recent_def AVAHI_QUERY_HISTORY_MSEC_def)
  ultimately show ?thesis using post_ok [OF assms(2) _ assms(5), of k imm] by (auto split: if_splits)
qed

text \<open>
  Property C15. What is sent when the time of a scheduled question has come that fits into an empty packet: one packet with the
  question and as many of the other scheduled ones, from the head of the list, as fit, all of them
  when their sizes allow it, and after them the known answers, in this packet and as many more as
  needed. The counts in the headers are right, the TC flag is set in all packets but the last. A
  known answer is a record of the cache that one of the questions asks for and whose lifetime is not
  half over; all of them are sent that fit into a packet at all, and no others. The questions become
  done; posting one of them again within 100 milliseconds has no effect.
\<close>

theorem elapsed_question_sends_train:
  assumes "query_reachable sc s" "qstore s i = Some j" "\<not> qdone j"
    and "query_op_ok sc s (Query_elapse mtu now c i)" "question_fits sc mtu (qkey j)"
  shows "\<exists>s' ps ass l. elapse_callback sc mtu now c s i = Ret s' \<and> (\<exists>n. l = i # take n (remove1 i (qjobs s))) \<and>
    (12 + key_room (qkey j) + sum_list (map key_room (keys_of s (remove1 i (qjobs s)))) \<le> packet_max mtu \<longrightarrow>
       l = i # remove1 i (qjobs s)) \<and>
    qsent s' = qsent s @ ps \<and> train sc mtu (keys_of s l) ass ps \<and>
    set (concat ass) \<subseteq> (\<Union>k \<in> set (keys_of s l). fresh_answers now c k) \<and>
    (\<forall>k r. k \<in> set (keys_of s l) \<and> r \<in> fresh_answers now c k \<and> 12 + record_room r \<le> packet_max mtu \<longrightarrow> r \<in> set (concat ass)) \<and>
    qjobs s' = drop (length l - 1) (remove1 i (qjobs s)) \<and>
    (\<forall>k now'. k \<in> set (keys_of s l) \<and> normalized now' \<and> usec_of now' \<le> usec_of now + 100000 \<longrightarrow>
       (\<forall>imm. avahi_query_scheduler_post now' s' k imm = Ret (s', None)))"
proof -
  have inv: "query_inv s" using assms(1) by (rule query_reachable_inv)
  then have core: "query_core s" by (simp add: query_inv_def)
  from assms(2-4) obtain n where now: "normalized now" and c: "reachable sc n c" "\<forall>i e. cstore c i = Some e \<longrightarrow> sent_record (crecord e)"
 by auto
  let ?l = "remove1 i (qjobs s)"
  from elapse_scheduled [OF inv assms(2,3) now reachable_inv [OF c(1)] c(2) assms(5)] obtain s' m where
    s': "elapse_callback sc mtu now c s i = Ret s'" "query_inv s'" "sends_train sc mtu now c s (i # take m ?l) s'"
      "12 + key_room (qkey j) + sum_list (map key_room (keys_of s ?l)) \<le> packet_max mtu \<longrightarrow> length ?l \<le> m" by blast
  let ?js = "i # take m ?l"
  from s'(3) obtain ps ass where t: "s' = sent_also ps (fold (mark_done now) ?js s)" "train sc mtu (keys_of s ?js) ass ps"
    "set (concat ass) \<subseteq> all_fresh now c (keys_of s ?js)"
    "\<forall>r \<in> all_fresh now c (keys_of s ?js). 12 + record_room r \<le> packet_max mtu \<longrightarrow> r \<in> set (concat ass)"
    by (auto simp only: sends_train_def)
  have mem: "i \<in> set (qjobs s)" using core_scheduled [OF core, of i] assms(2,3) by simp
  have "qsent s' = qsent s @ ps"
  proof -
    have "qsent (fold (mark_done now) js u) = qsent u" for js u by (induction js arbitrary: u) simp_all
    then show ?thesis by (simp only: t(1) sent_also_simps)
  qed
  moreover have "qjobs s' = drop (length ?js - 1) ?l"
    unfolding t(1) sent_also_state fold_mark_done(1) by (simp add: fold_remove1_take min_def)
  moreover have "set ?js \<subseteq> set (qjobs s)" using mem by (auto dest: in_set_takeD notin_set_remove1 set_mp [OF set_remove1_subset])
  then have "\<forall>k now'. k \<in> set (keys_of s ?js) \<and> normalized now' \<and> usec_of now' \<le> usec_of now + 100000 \<longrightarrow>
       (\<forall>imm. avahi_query_scheduler_post now' s' k imm = Ret (s', None))"
    using post_after_train [OF inv s'(2) [unfolded t(1)]] unfolding t(1) by blast
  moreover have "\<forall>k r. k \<in> set (keys_of s ?js) \<and> r \<in> fresh_answers now c k \<and> 12 + record_room r \<le> packet_max mtu \<longrightarrow> r \<in> set (concat ass)"
    using t(4) by (auto simp only: all_fresh_def)
  moreover have "12 + key_room (qkey j) + sum_list (map key_room (keys_of s ?l)) \<le> packet_max mtu \<longrightarrow> ?js = i # ?l"
    using s'(4) by simp
  ultimately show ?thesis using s'(1) t(2,3) unfolding all_fresh_def by blast
qed

definition example_query_sched :: query_sched where
  "example_query_sched = (case query_do True (Query_post (example_time 100) example_question True) avahi_query_scheduler_new of Ret s \<Rightarrow> s)"

lemma example_query_sched:
  "query_reachable True example_query_sched"
  "qstore example_query_sched 0 = Some \<lparr>qid = 0, n_posted = 1, qtime_event = Some (example_time 100), qdone = False,
     qdelivery = example_time 100, qkey = example_question\<rparr>"
proof -
  have ok: "query_op_ok True avahi_query_scheduler_new (Query_post (example_time 100) example_question True)"
    using example_question_ok by simp
  from query_do_ok [OF query_inv_new this] have
    "query_do True (Query_post (example_time 100) example_question True) avahi_query_scheduler_new = Ret example_query_sched"
    by (auto simp: example_query_sched_def)
  then show "query_reachable True example_query_sched" by (rule query_step [OF query_new ok])
  show "qstore example_query_sched 0 = Some \<lparr>qid = 0, n_posted = 1, qtime_event = Some (example_time 100), qdone = False,
     qdelivery = example_time 100, qkey = example_question\<rparr>" by code_simp
qed

lemma elapsed_question_sends_train_witness:
  "\<exists>s' ps ass. elapse_callback True 1500 (example_time 101) example_cache example_query_sched 0 = Ret s' \<and>
    qsent s' = qsent example_query_sched @ ps \<and> train True 1500 [example_question] ass ps \<and>
    set (concat ass) \<subseteq> fresh_answers (example_time 101) example_cache example_question"
proof -
  have "centries example_cache = [0]" by code_simp
  then have only: "cstore example_cache i = Some e \<Longrightarrow> i = 0" for i e
    using reachable_inv [OF example_cache_reachable] by (auto simp: cache_inv_def)
  have "sent_record (example_record ''a.local'' 120)" "12 + key_room example_question \<le> packet_max 1500"
    "normalized (example_time 101)" "qjobs example_query_sched = [0]" by code_simp+
  note facts = this
  have "sent_record (crecord e)" if "cstore example_cache i = Some e" for i e
    using facts(1) only [OF that] that example_cache_entry(1,3) by simp
  then have ok: "query_op_ok True example_query_sched (Query_elapse 1500 (example_time 101) example_cache 0)"
    using facts(3) example_cache_reachable by (auto simp: example_query_sched(2))
  have "sent_key example_question" using example_question_ok(1) by (simp add: sendable_key_def)
  then have "question_fits True 1500 example_question" by (rule question_fits_room) (rule facts(2))
  with elapsed_question_sends_train [OF example_query_sched _ ok] facts(4) obtain s' ps ass l where
    "elapse_callback True 1500 (example_time 101) example_cache example_query_sched 0 = Ret s'" "l = [0]"
    "qsent s' = qsent example_query_sched @ ps" "train True 1500 (keys_of example_query_sched l) ass ps"
    "set (concat ass) \<subseteq> (\<Union>k \<in> set (keys_of example_query_sched l). fresh_answers (example_time 101) example_cache k)" by auto
  moreover have "keys_of example_query_sched [0] = [example_question]" by (simp add: keys_of_def example_query_sched(2))
  ultimately show ?thesis by auto
qed

end
