(* ===== verification/Response_Sched.thy ===== *)
theory Response_Sched
  imports Dns_Packets Timeval Address
begin

text \<open>
  \<open>avahi-core/response-sched.c\<close>: the responses an interface is going to send, those it has sent
  or seen from other hosts, and the known answers of other hosts that suppress responses to them.
  Jobs are numbers in a store; the three lists of the code are one function of the state of their
  jobs. Packets handed to the interface are collected in \<open>rsent\<close>. The clock is the argument
  \<open>now\<close>, \<open>rnd\<close> what \<open>rand\<close> returns, should it be called, and \<open>aux\<close> the records, with their flush
  bits, that \<open>avahi_server_enumerate_aux_records\<close> finds for the interface.
\<close>

section \<open>State\<close>

definition AVAHI_RESPONSE_HISTORY_MSEC :: int where "AVAHI_RESPONSE_HISTORY_MSEC = 500"
definition AVAHI_RESPONSE_DEFER_MSEC :: int where "AVAHI_RESPONSE_DEFER_MSEC = 20"
definition AVAHI_RESPONSE_JITTER_MSEC :: int where "AVAHI_RESPONSE_JITTER_MSEC = 100"
definition AVAHI_RESPONSE_SUPPRESS_MSEC :: int where "AVAHI_RESPONSE_SUPPRESS_MSEC = 700"

datatype response_job_state = AVAHI_SCHEDULED | AVAHI_DONE | AVAHI_SUPPRESSED

text \<open>The querier is \<open>None\<close> when \<open>querier_valid\<close> is not set.\<close>

record rjob =
  rtime_event :: "timeval option"
  rstate :: response_job_state
  rdelivery :: timeval
  rrecord :: rr
  rflush :: bool
  rquerier :: "address option"

record response_sched =
  rstore :: "nat \<Rightarrow> rjob option"
  rlist :: "response_job_state \<Rightarrow> nat list"
  rfresh :: nat
  rjitter :: jitter_state
  rsent :: "dns_packet list"

definition avahi_response_scheduler_new :: "jitter_state \<Rightarrow> response_sched" where
  "avahi_response_scheduler_new js = \<lparr>rstore = Map.empty, rlist = (\<lambda>_. []), rfresh = 0, rjitter = js, rsent = []\<rparr>"

definition set_rjob :: "nat \<Rightarrow> rjob \<Rightarrow> response_sched \<Rightarrow> response_sched" where
  "set_rjob i j s = s\<lparr>rstore := (rstore s)(i \<mapsto> j)\<rparr>"

text \<open>The delivery time of a new job is set by the callers.\<close>

definition response_job_new :: "response_sched \<Rightarrow> rr \<Rightarrow> response_job_state \<Rightarrow> timeval \<Rightarrow> response_sched \<times> nat" where
  "response_job_new s r st tv =
     (let i = rfresh s;
          j = \<lparr>rtime_event = None, rstate = st, rdelivery = tv, rrecord = r, rflush = False, rquerier = None\<rparr>
      in (set_rjob i j (s\<lparr>rfresh := Suc i, rlist := (rlist s)(st := i # rlist s st)\<rparr>), i))"

definition response_job_free :: "response_sched \<Rightarrow> nat \<Rightarrow> response_sched res" where
  "response_job_free s i =
     (case rstore s i of
        None \<Rightarrow> Crash
      | Some j \<Rightarrow>
          Ret (s\<lparr>rstore := (rstore s)(i := None), rlist := (rlist s)(rstate j := remove1 i (rlist s (rstate j)))\<rparr>))"

definition elapse_time :: "timeval \<Rightarrow> int \<Rightarrow> response_sched \<Rightarrow> int \<Rightarrow> int \<Rightarrow> response_sched \<times> timeval" where
  "elapse_time now rnd s msec jitter =
     (let (tv, js) = avahi_elapse_time now rnd (rjitter s) msec jitter in (s\<lparr>rjitter := js\<rparr>, tv))"

text \<open>The callers of \<open>job_set_elapse_time\<close> want no jitter; the random number is not used.\<close>

definition response_job_set_elapse_time :: "timeval \<Rightarrow> response_sched \<Rightarrow> nat \<Rightarrow> int \<Rightarrow> response_sched res" where
  "response_job_set_elapse_time now s i msec =
     (case rstore s i of
        None \<Rightarrow> Crash
      | Some j \<Rightarrow>
          let (s, tv) = elapse_time now 0 s msec 0 in Ret (set_rjob i (j\<lparr>rtime_event := Some tv\<rparr>) s))"

definition response_job_mark_done :: "timeval \<Rightarrow> response_sched \<Rightarrow> nat \<Rightarrow> response_sched res" where
  "response_job_mark_done now s i =
     (case rstore s i of
        None \<Rightarrow> Crash
      | Some j \<Rightarrow>
          if rstate j \<noteq> AVAHI_SCHEDULED then Crash
          else
            let s = s\<lparr>rlist := (rlist s)(AVAHI_SCHEDULED := remove1 i (rlist s AVAHI_SCHEDULED))\<rparr>;
                s = s\<lparr>rlist := (rlist s)(AVAHI_DONE := i # rlist s AVAHI_DONE)\<rparr>;
                s = set_rjob i (j\<lparr>rstate := AVAHI_DONE, rdelivery := now\<rparr>) s
            in response_job_set_elapse_time now s i AVAHI_RESPONSE_HISTORY_MSEC)"

section \<open>Looking for jobs\<close>

fun find_scheduled_response :: "response_sched \<Rightarrow> rr \<Rightarrow> nat list \<Rightarrow> nat option res" where
  "find_scheduled_response s r [] = Ret None"
| "find_scheduled_response s r (i # is) =
     (case rstore s i of
        None \<Rightarrow> Crash
      | Some j \<Rightarrow>
          if rstate j \<noteq> AVAHI_SCHEDULED then Crash
          else res_bind (avahi_record_equal_no_ttl (rrecord j) r) (\<lambda>eq.
                 if eq then Ret (Some i) else find_scheduled_response s r is))"

fun find_history_response :: "timeval \<Rightarrow> response_sched \<Rightarrow> rr \<Rightarrow> nat list \<Rightarrow> (response_sched \<times> nat option) res" where
  "find_history_response now s r [] = Ret (s, None)"
| "find_history_response now s r (i # is) =
     (case rstore s i of
        None \<Rightarrow> Crash
      | Some j \<Rightarrow>
          if rstate j \<noteq> AVAHI_DONE then Crash
          else res_bind (avahi_record_equal_no_ttl (rrecord j) r) (\<lambda>eq.
                 if eq then
                   if AVAHI_RESPONSE_HISTORY_MSEC < avahi_age now (rdelivery j) sdiv 1000
                   then res_map (\<lambda>s. (s, None)) (response_job_free s i)
                   else Ret (s, Some i)
                 else find_history_response now s r is))"

fun find_suppressed_response ::
  "timeval \<Rightarrow> response_sched \<Rightarrow> rr \<Rightarrow> address \<Rightarrow> nat list \<Rightarrow> (response_sched \<times> nat option) res" where
  "find_suppressed_response now s r a [] = Ret (s, None)"
| "find_suppressed_response now s r a (i # is) =
     (case rstore s i of
        None \<Rightarrow> Crash
      | Some j \<Rightarrow>
          if rstate j \<noteq> AVAHI_SUPPRESSED then Crash
          else
            (case rquerier j of
               None \<Rightarrow> Crash
             | Some q \<Rightarrow>
                 res_bind (avahi_record_equal_no_ttl (rrecord j) r) (\<lambda>eq.
                   if eq \<and> avahi_address_cmp q a = 0 then
                     if AVAHI_RESPONSE_SUPPRESS_MSEC * 1000 < avahi_age now (rdelivery j)
                     then res_map (\<lambda>s. (s, None)) (response_job_free s i)
                     else Ret (s, Some i)
                   else find_suppressed_response now s r a is)))"

section \<open>Posting\<close>

text \<open>Whether a job stands for a response: both goodbyes or both not, and a sensible TTL.\<close>

definition stands_for :: "rr \<Rightarrow> rr \<Rightarrow> bool" where
  "stands_for known r \<longleftrightarrow> avahi_record_is_goodbye r = avahi_record_is_goodbye known \<and> ttl r div 2 \<le> ttl known"

text \<open>The suppression by a known answer of the querier.\<close>

definition suppressed_by_querier :: "timeval \<Rightarrow> response_sched \<Rightarrow> rr \<Rightarrow> address option \<Rightarrow> (response_sched \<times> bool) res" where
  "suppressed_by_querier now s r querier =
     (case querier of
        None \<Rightarrow> Ret (s, False)
      | Some a \<Rightarrow>
          res_bind (find_suppressed_response now s r a (rlist s AVAHI_SUPPRESSED)) (\<lambda>(s, x).
            case x of
              None \<Rightarrow> Ret (s, False)
            | Some i \<Rightarrow> (case rstore s i of None \<Rightarrow> Crash | Some j \<Rightarrow> Ret (s, stands_for (rrecord j) r))))"

text \<open>The suppression by a response sent recently; one that does not do is forgotten.\<close>

definition suppressed_by_history :: "timeval \<Rightarrow> response_sched \<Rightarrow> rr \<Rightarrow> bool \<Rightarrow> (response_sched \<times> bool) res" where
  "suppressed_by_history now s r flush =
     res_bind (find_history_response now s r (rlist s AVAHI_DONE)) (\<lambda>(s, x).
       case x of
         None \<Rightarrow> Ret (s, False)
       | Some i \<Rightarrow>
           (case rstore s i of
              None \<Rightarrow> Crash
            | Some j \<Rightarrow>
                if stands_for (rrecord j) r \<and> (rflush j \<or> \<not> flush) then Ret (s, True)
                else res_map (\<lambda>s. (s, False)) (response_job_free s i)))"

definition update_scheduled :: "timeval \<Rightarrow> rr \<Rightarrow> bool \<Rightarrow> address option \<Rightarrow> rjob \<Rightarrow> rjob" where
  "update_scheduled tv r flush querier j =
     (let j = (if avahi_timeval_compare tv (rdelivery j) < 0 then j\<lparr>rdelivery := tv, rtime_event := Some tv\<rparr> else j);
          j = (if flush then j\<lparr>rflush := True\<rparr> else j);
          j = (case querier of
                 None \<Rightarrow> j\<lparr>rquerier := None\<rparr>
               | Some a \<Rightarrow>
                   (case rquerier j of
                      None \<Rightarrow> j
                    | Some q \<Rightarrow> if avahi_address_cmp a q \<noteq> 0 then j\<lparr>rquerier := None\<rparr> else j))
      in j\<lparr>rrecord := r\<rparr>)"

definition avahi_response_scheduler_post ::
  "timeval \<Rightarrow> int \<Rightarrow> response_sched \<Rightarrow> rr \<Rightarrow> bool \<Rightarrow> address option \<Rightarrow> bool \<Rightarrow> (response_sched \<times> bool) res" where
  "avahi_response_scheduler_post now rnd s r flush querier immediately =
     (if avahi_key_is_pattern (rkey r) then Crash
      else
        res_bind (suppressed_by_querier now s r querier) (\<lambda>(s, b).
        if b then Ret (s, False)
        else
          res_bind (suppressed_by_history now s r flush) (\<lambda>(s, b).
          if b then Ret (s, False)
          else
            let (s, tv) = elapse_time now rnd s (if immediately then 0 else AVAHI_RESPONSE_DEFER_MSEC)
                            (if immediately then 0 else AVAHI_RESPONSE_JITTER_MSEC)
            in res_bind (find_scheduled_response s r (rlist s AVAHI_SCHEDULED)) (\<lambda>x.
                 case x of
                   Some i \<Rightarrow>
                     (case rstore s i of
                        None \<Rightarrow> Crash
                      | Some j \<Rightarrow> Ret (set_rjob i (update_scheduled tv r flush querier j) s, True))
                 | None \<Rightarrow>
                     (let (s, i) = response_job_new s r AVAHI_SCHEDULED tv
                      in case rstore s i of
                           None \<Rightarrow> Crash
                         | Some j \<Rightarrow> Ret (set_rjob i (j\<lparr>rtime_event := Some tv, rflush := flush, rquerier := querier\<rparr>) s, True))))))"

section \<open>Sending\<close>

text \<open>\<open>enumerate_aux_records_callback\<close> for all auxiliary records in turn.\<close>

fun post_aux :: "timeval \<Rightarrow> int \<Rightarrow> nat \<Rightarrow> (rr \<times> bool) list \<Rightarrow> response_sched \<Rightarrow> response_sched res" where
  "post_aux now rnd i [] s = Ret s"
| "post_aux now rnd i ((r, flush) # rs) s =
     (case rstore s i of
        None \<Rightarrow> Crash
      | Some j \<Rightarrow>
          res_bind (avahi_response_scheduler_post now rnd s r flush (rquerier j) False) (\<lambda>(s, _). post_aux now rnd i rs s))"

definition packet_add_response_job ::
  "bool \<Rightarrow> (rr \<Rightarrow> (rr \<times> bool) list) \<Rightarrow> timeval \<Rightarrow> int \<Rightarrow> response_sched \<Rightarrow> dns_packet \<Rightarrow> nat \<Rightarrow>
   (response_sched \<times> dns_packet \<times> bool) res" where
  "packet_add_response_job sc aux now rnd s p i =
     (case rstore s i of
        None \<Rightarrow> Crash
      | Some j \<Rightarrow>
          res_bind (avahi_dns_packet_append_record sc p (rrecord j) (rflush j) 0) (\<lambda>(p, ok).
            if ok = None then Ret (s, p, False)
            else
              res_bind (post_aux now rnd i (aux (rrecord j)) s) (\<lambda>s.
              res_map (\<lambda>s. (s, p, True)) (response_job_mark_done now s i))))"

text \<open>The loop that fills the packet; \<open>m\<close> bounds its rounds, each of which makes the packet longer.\<close>

fun add_response_jobs ::
  "bool \<Rightarrow> (rr \<Rightarrow> (rr \<times> bool) list) \<Rightarrow> timeval \<Rightarrow> int \<Rightarrow> nat \<Rightarrow> response_sched \<Rightarrow> dns_packet \<Rightarrow> nat \<Rightarrow>
   (response_sched \<times> dns_packet \<times> nat) res" where
  "add_response_jobs sc aux now rnd m s p n =
     (case rlist s AVAHI_SCHEDULED of
        [] \<Rightarrow> Ret (s, p, n)
      | i # _ \<Rightarrow>
          (case m of
             0 \<Rightarrow> Crash
           | Suc m \<Rightarrow>
               res_bind (packet_add_response_job sc aux now rnd s p i) (\<lambda>(s, p, b).
                 if b then add_response_jobs sc aux now rnd m s p (n + 1) else Ret (s, p, n))))"

declare add_response_jobs.simps [simp del]

definition send_response :: "dns_packet \<Rightarrow> nat \<Rightarrow> response_sched \<Rightarrow> response_sched res" where
  "send_response p n s =
     res_map (\<lambda>p. s\<lparr>rsent := rsent s @ [p]\<rparr>) (avahi_dns_packet_set_field p AVAHI_DNS_FIELD_ANCOUNT (of_nat n))"

definition send_response_packet ::
  "bool \<Rightarrow> (rr \<Rightarrow> (rr \<times> bool) list) \<Rightarrow> nat \<Rightarrow> timeval \<Rightarrow> int \<Rightarrow> response_sched \<Rightarrow> nat \<Rightarrow> response_sched res" where
  "send_response_packet sc aux mtu now rnd s i =
     res_bind (avahi_dns_packet_new_response mtu True) (\<lambda>p.
     res_bind (packet_add_response_job sc aux now rnd s p i) (\<lambda>(s, p, b).
       if b then
         res_bind (add_response_jobs sc aux now rnd (max_size p) s p 1) (\<lambda>(s, p, n). send_response p n s)
       else
         (case rstore s i of
            None \<Rightarrow> Crash
          | Some j \<Rightarrow>
              res_bind (avahi_record_get_estimate_size (rrecord j)) (\<lambda>size.
              res_bind (avahi_dns_packet_new_response (size + AVAHI_DNS_PACKET_HEADER_SIZE + AVAHI_DNS_PACKET_EXTRA_SIZE) True) (\<lambda>p.
              res_bind (packet_add_response_job sc aux now rnd s p i) (\<lambda>(s, p, b).
                if b then send_response p 1 s else response_job_mark_done now s i))))))"

definition response_elapse_callback ::
  "bool \<Rightarrow> (rr \<Rightarrow> (rr \<times> bool) list) \<Rightarrow> nat \<Rightarrow> timeval \<Rightarrow> int \<Rightarrow> response_sched \<Rightarrow> nat \<Rightarrow> response_sched res" where
  "response_elapse_callback sc aux mtu now rnd s i =
     (case rstore s i of
        None \<Rightarrow> Crash
      | Some j \<Rightarrow>
          if rstate j = AVAHI_DONE \<or> rstate j = AVAHI_SUPPRESSED then response_job_free s i
          else send_response_packet sc aux mtu now rnd s i)"

text \<open>
  \<open>avahi_response_scheduler_force\<close> for at most \<open>k\<close> rounds. The auxiliary records of a response
  are scheduled in turn, so that the loop of the code goes on as long as there are new ones.
\<close>

fun avahi_response_scheduler_force ::
  "bool \<Rightarrow> (rr \<Rightarrow> (rr \<times> bool) list) \<Rightarrow> nat \<Rightarrow> timeval \<Rightarrow> int \<Rightarrow> nat \<Rightarrow> response_sched \<Rightarrow> response_sched res" where
  "avahi_response_scheduler_force sc aux mtu now rnd 0 s = Ret s"
| "avahi_response_scheduler_force sc aux mtu now rnd (Suc k) s =
     (case rlist s AVAHI_SCHEDULED of
        [] \<Rightarrow> Ret s
      | i # _ \<Rightarrow> res_bind (send_response_packet sc aux mtu now rnd s i) (avahi_response_scheduler_force sc aux mtu now rnd k))"

section \<open>Incoming responses and known answers\<close>

definition avahi_response_scheduler_incoming :: "timeval \<Rightarrow> response_sched \<Rightarrow> rr \<Rightarrow> bool \<Rightarrow> response_sched res" where
  "avahi_response_scheduler_incoming now s r flush =
     res_bind (find_scheduled_response s r (rlist s AVAHI_SCHEDULED)) (\<lambda>x.
       case x of
         Some i \<Rightarrow>
           (case rstore s i of
              None \<Rightarrow> Crash
            | Some j \<Rightarrow>
                if (\<not> rflush j \<or> flush) \<and> stands_for r (rrecord j) then response_job_mark_done now s i else Ret s)
       | None \<Rightarrow>
           res_bind (find_history_response now s r (rlist s AVAHI_DONE)) (\<lambda>(s, h).
             let (s, i) = (case h of Some i \<Rightarrow> (s, i) | None \<Rightarrow> response_job_new s r AVAHI_DONE now)
             in case rstore s i of
                  None \<Rightarrow> Crash
                | Some j \<Rightarrow>
                    response_job_set_elapse_time now
                      (set_rjob i (j\<lparr>rrecord := r, rflush := flush, rquerier := None, rdelivery := now\<rparr>) s) i
                      AVAHI_RESPONSE_HISTORY_MSEC))"

text \<open>A scheduled response the querier knows already is dropped.\<close>

definition drop_known :: "response_sched \<Rightarrow> rr \<Rightarrow> address \<Rightarrow> response_sched res" where
  "drop_known s r a =
     res_bind (find_scheduled_response s r (rlist s AVAHI_SCHEDULED)) (\<lambda>x.
       case x of
         None \<Rightarrow> Ret s
       | Some i \<Rightarrow>
           (case rstore s i of
              None \<Rightarrow> Crash
            | Some j \<Rightarrow>
                if (case rquerier j of None \<Rightarrow> False | Some q \<Rightarrow> avahi_address_cmp a q = 0) \<and> stands_for r (rrecord j)
                then response_job_free s i else Ret s))"

definition avahi_response_scheduler_suppress :: "timeval \<Rightarrow> response_sched \<Rightarrow> rr \<Rightarrow> address \<Rightarrow> response_sched res" where
  "avahi_response_scheduler_suppress now s r a =
     res_bind (drop_known s r a) (\<lambda>s.
     res_bind (find_suppressed_response now s r a (rlist s AVAHI_SUPPRESSED)) (\<lambda>(s, x).
       let (s, i) = (case x of Some i \<Rightarrow> (s, i) | None \<Rightarrow> response_job_new s r AVAHI_SUPPRESSED now)
       in case rstore s i of
            None \<Rightarrow> Crash
          | Some j \<Rightarrow>
              let j = (if x = None then j\<lparr>rquerier := Some a\<rparr> else j\<lparr>rrecord := r\<rparr>)
              in response_job_set_elapse_time now (set_rjob i (j\<lparr>rdelivery := now\<rparr>) s) i AVAHI_RESPONSE_SUPPRESS_MSEC))"

fun free_response_jobs :: "response_job_state \<Rightarrow> nat \<Rightarrow> response_sched \<Rightarrow> response_sched res" where
  "free_response_jobs st m s =
     (case rlist s st of
        [] \<Rightarrow> Ret s
      | i # _ \<Rightarrow> (case m of 0 \<Rightarrow> Crash | Suc m \<Rightarrow> res_bind (response_job_free s i) (free_response_jobs st m)))"

declare free_response_jobs.simps [simp del]

definition avahi_response_scheduler_clear :: "response_sched \<Rightarrow> response_sched res" where
  "avahi_response_scheduler_clear s =
     res_bind (free_response_jobs AVAHI_SCHEDULED (length (rlist s AVAHI_SCHEDULED)) s) (\<lambda>s.
     res_bind (free_response_jobs AVAHI_DONE (length (rlist s AVAHI_DONE)) s) (\<lambda>s.
       free_response_jobs AVAHI_SUPPRESSED (length (rlist s AVAHI_SUPPRESSED)) s))"

end
