(* ===== verification/Response_Inv.thy ===== *)
theory Response_Inv
  imports Response_Sched
begin

text \<open>
  The invariant of the response scheduler, that every operation keeps it and does not crash, and
  what the operations do; \<open>Response_Properties\<close> states the properties.
\<close>

section \<open>The invariant\<close>

definition same_address :: "address \<Rightarrow> address \<Rightarrow> bool" where
  "same_address a b \<longleftrightarrow> proto a = proto b \<and> take (address_get_size a) (addr_data a) = take (address_get_size a) (addr_data b)"

lemma same_address_simps [simp]: "same_address a a"
  by (simp add: same_address_def)

lemma same_address_sym: "same_address a b \<longleftrightarrow> same_address b a"
  by (auto simp: same_address_def address_get_size_def)

lemma same_address_trans: "same_address a b \<Longrightarrow> same_address b c \<Longrightarrow> same_address a c"
  by (auto simp: same_address_def address_get_size_def)

lemma address_cmp_same: "address_ok a \<Longrightarrow> address_ok b \<Longrightarrow> avahi_address_cmp a b = 0 \<longleftrightarrow> same_address a b"
  by (simp add: address_cmp_eq_0 same_address_def)

definition lasts :: "response_job_state \<Rightarrow> int" where
  "lasts st = (case st of AVAHI_SCHEDULED \<Rightarrow> 0 | AVAHI_DONE \<Rightarrow> AVAHI_RESPONSE_HISTORY_MSEC | AVAHI_SUPPRESSED \<Rightarrow> AVAHI_RESPONSE_SUPPRESS_MSEC)"

lemma lasts_simps [simp]:
  "lasts AVAHI_SCHEDULED = 0" "lasts AVAHI_DONE = 500" "lasts AVAHI_SUPPRESSED = 700"
  by (simp_all add: lasts_def AVAHI_RESPONSE_HISTORY_MSEC_def AVAHI_RESPONSE_SUPPRESS_MSEC_def)

definition rjob_ok :: "rjob \<Rightarrow> bool" where
  "rjob_ok j \<longleftrightarrow> rr_ok (rrecord j) \<and> (rstate j = AVAHI_SCHEDULED \<longrightarrow> sent_record (rrecord j)) \<and> normalized (rdelivery j) \<and>
     (case rquerier j of None \<Rightarrow> rstate j \<noteq> AVAHI_SUPPRESSED | Some a \<Rightarrow> address_ok a) \<and>
     rtime_event j = Some (elapse_after (rdelivery j) (lasts (rstate j)))"

text \<open>
  Two jobs stand in each other's way: for one record, one is enough that is scheduled or done, and
  one for each querier that knows it.
\<close>

definition clash :: "rjob \<Rightarrow> rjob \<Rightarrow> bool" where
  "clash j j' \<longleftrightarrow> rr_abs (rrecord j) = rr_abs (rrecord j') \<and>
     (if rstate j = AVAHI_SUPPRESSED
      then rstate j' = AVAHI_SUPPRESSED \<and> (\<exists>a b. rquerier j = Some a \<and> rquerier j' = Some b \<and> same_address a b)
      else rstate j' \<noteq> AVAHI_SUPPRESSED)"

lemma clash_sym: "clash j j' \<longleftrightarrow> clash j' j"
  by (auto simp: clash_def same_address_sym)

definition resp_core :: "response_sched \<Rightarrow> bool" where
  "resp_core s \<longleftrightarrow>
     (\<forall>st. distinct (rlist s st)) \<and>
     (\<forall>st i. i \<in> set (rlist s st) \<longleftrightarrow> (\<exists>j. rstore s i = Some j \<and> rstate j = st)) \<and>
     (\<forall>i j. rstore s i = Some j \<longrightarrow> i < rfresh s \<and> rjob_ok j) \<and>
     (\<forall>i i' j j'. rstore s i = Some j \<longrightarrow> rstore s i' = Some j' \<longrightarrow> clash j j' \<longrightarrow> i = i') \<and>
     rand_ok (last_rand (rjitter s))"

lemma resp_coreI:
  assumes "\<And>st. distinct (rlist s st)"
    and "\<And>st i. i \<in> set (rlist s st) \<longleftrightarrow> (\<exists>j. rstore s i = Some j \<and> rstate j = st)"
    and "\<And>i j. rstore s i = Some j \<Longrightarrow> i < rfresh s \<and> rjob_ok j"
    and "\<And>i i' j j'. rstore s i = Some j \<Longrightarrow> rstore s i' = Some j' \<Longrightarrow> clash j j' \<Longrightarrow> i = i'"
    and "rand_ok (last_rand (rjitter s))"
  shows "resp_core s"
  using assms unfolding resp_core_def by blast

lemma resp_core_new: "rand_ok (last_rand js) \<Longrightarrow> resp_core (avahi_response_scheduler_new js)"
  by (simp add: resp_core_def avahi_response_scheduler_new_def)

lemma core_rjob: "resp_core s \<Longrightarrow> rstore s i = Some j \<Longrightarrow> i < rfresh s \<and> rjob_ok j"
  by (simp add: resp_core_def)

lemma core_rlist: "resp_core s \<Longrightarrow> i \<in> set (rlist s st) \<longleftrightarrow> (\<exists>j. rstore s i = Some j \<and> rstate j = st)"
  by (simp add: resp_core_def)

lemma core_clash: "resp_core s \<Longrightarrow> rstore s i = Some j \<Longrightarrow> rstore s i' = Some j' \<Longrightarrow> clash j j' \<Longrightarrow> i = i'"
  unfolding resp_core_def by blast

lemma core_rand: "resp_core s \<Longrightarrow> rand_ok (last_rand (rjitter s))"
  by (simp add: resp_core_def)

section \<open>Placing and freeing jobs\<close>

text \<open>A job with this content, on the list of its state and on no other.\<close>

definition place :: "nat \<Rightarrow> rjob \<Rightarrow> response_sched \<Rightarrow> response_sched" where
  "place i j s = s\<lparr>rstore := (rstore s)(i \<mapsto> j),
     rlist := (\<lambda>st. if st \<noteq> rstate j then remove1 i (rlist s st) else if i \<in> set (rlist s st) then rlist s st else i # rlist s st)\<rparr>"

definition rfreed :: "nat \<Rightarrow> response_sched \<Rightarrow> response_sched" where
  "rfreed i s = s\<lparr>rstore := (rstore s)(i := None), rlist := (\<lambda>st. remove1 i (rlist s st))\<rparr>"

lemma place_simps [simp]:
  "rstore (place i j s) = (rstore s)(i \<mapsto> j)" "rfresh (place i j s) = rfresh s" "rjitter (place i j s) = rjitter s" "rsent (place i j s) = rsent s"
  by (simp_all add: place_def)

lemma rfreed_simps [simp]:
  "rstore (rfreed i s) = (rstore s)(i := None)" "rfresh (rfreed i s) = rfresh s" "rjitter (rfreed i s) = rjitter s" "rsent (rfreed i s) = rsent s"
  "rlist (rfreed i s) st = remove1 i (rlist s st)"
  by (simp_all add: rfreed_def)

lemma core_place:
  assumes "resp_core s" "i < rfresh s" "rjob_ok j" "\<And>i' j'. rstore s i' = Some j' \<Longrightarrow> clash j j' \<Longrightarrow> i' = i"
  shows "resp_core (place i j s)"
proof (rule resp_coreI)
  have dist: "distinct (rlist s st)" for st using assms(1) by (simp add: resp_core_def)
  fix st i'
  show "distinct (rlist (place i j s) st)" using dist by (simp add: place_def)
  show "i' \<in> set (rlist (place i j s) st) \<longleftrightarrow> (\<exists>j'. rstore (place i j s) i' = Some j' \<and> rstate j' = st)"
    using core_rlist [OF assms(1), of i' st] dist [of st] by (auto simp: place_def)
next
  fix i' j' assume "rstore (place i j s) i' = Some j'"
  then show "i' < rfresh (place i j s) \<and> rjob_ok j'" using assms(2,3) core_rjob [OF assms(1), of i' j'] by (auto split: if_splits)
next
  fix i1 i2 j1 j2
  assume a: "rstore (place i j s) i1 = Some j1" "rstore (place i j s) i2 = Some j2" "clash j1 j2"
  then have "clash j2 j1" by (simp add: clash_sym)
  with a show "i1 = i2" using assms(4) [of i1 j1] assms(4) [of i2 j2] core_clash [OF assms(1), of i1 j1 i2 j2] by (auto split: if_splits)
next
  show "rand_ok (last_rand (rjitter (place i j s)))" using core_rand [OF assms(1)] by simp
qed

lemma core_rfreed:
  assumes "resp_core s"
  shows "resp_core (rfreed i s)"
proof (rule resp_coreI)
  have dist: "distinct (rlist s st)" for st using assms(1) by (simp add: resp_core_def)
  fix st i'
  show "distinct (rlist (rfreed i s) st)" using dist by simp
  show "i' \<in> set (rlist (rfreed i s) st) \<longleftrightarrow> (\<exists>j'. rstore (rfreed i s) i' = Some j' \<and> rstate j' = st)"
    using core_rlist [OF assms(1), of i' st] dist [of st] by auto
qed (use core_rjob [OF assms(1)] core_clash [OF assms(1)] core_rand [OF assms(1)] in \<open>auto split: if_splits\<close>)

lemma set_rjob_place:
  assumes "resp_core s" "rstore s i = Some j" "rstate j' = rstate j"
  shows "set_rjob i j' s = place i j' s"
proof -
  have "(\<lambda>st. if st \<noteq> rstate j' then remove1 i (rlist s st) else if i \<in> set (rlist s st) then rlist s st else i # rlist s st) = rlist s"
  proof (rule ext)
    fix st
    show "(if st \<noteq> rstate j' then remove1 i (rlist s st) else if i \<in> set (rlist s st) then rlist s st else i # rlist s st) = rlist s st"
      using core_rlist [OF assms(1), of i st] assms(2,3) by (auto simp: remove1_idem)
  qed
  then show ?thesis by (simp add: set_rjob_def place_def)
qed

lemma response_job_free_ok:
  assumes "resp_core s" "rstore s i = Some j"
  shows "response_job_free s i = Ret (rfreed i s)"
proof -
  have "(rlist s)(rstate j := remove1 i (rlist s (rstate j))) = (\<lambda>st. remove1 i (rlist s st))"
  proof (rule ext)
    fix st
    show "((rlist s)(rstate j := remove1 i (rlist s (rstate j)))) st = remove1 i (rlist s st)"
      using core_rlist [OF assms(1), of i st] assms(2) by (auto simp: remove1_idem)
  qed
  with assms(2) show ?thesis by (simp add: response_job_free_def rfreed_def)
qed

lemma elapse_time_0: "elapse_time now rnd s msec 0 = (s, elapse_after now msec)"
  by (cases s) (simp add: elapse_time_def avahi_elapse_time_def elapse_after_def)

lemma set_elapse_time_ok:
  assumes "rstore s i = Some j"
  shows "response_job_set_elapse_time now s i msec = Ret (set_rjob i (j\<lparr>rtime_event := Some (elapse_after now msec)\<rparr>) s)"
  using assms by (simp add: response_job_set_elapse_time_def elapse_time_0)

definition rdone :: "timeval \<Rightarrow> rjob \<Rightarrow> rjob" where
  "rdone now j = j\<lparr>rstate := AVAHI_DONE, rdelivery := now, rtime_event := Some (elapse_after now 500)\<rparr>"

lemma rdone_simps [simp]:
  "rrecord (rdone now j) = rrecord j" "rflush (rdone now j) = rflush j" "rquerier (rdone now j) = rquerier j"
  "rstate (rdone now j) = AVAHI_DONE" "rdelivery (rdone now j) = now"
  by (simp_all add: rdone_def)

lemma rdone_ok: "rjob_ok j \<Longrightarrow> normalized now \<Longrightarrow> rjob_ok (rdone now j)"
  by (auto simp: rjob_ok_def rdone_def split: option.splits)

lemma response_job_mark_done_ok:
  assumes "resp_core s" "rstore s i = Some j" "rstate j = AVAHI_SCHEDULED" "normalized now"
  shows "response_job_mark_done now s i = Ret (place i (rdone now j) s)" "resp_core (place i (rdone now j) s)"
proof -
  let ?l = "((rlist s)(AVAHI_SCHEDULED := remove1 i (rlist s AVAHI_SCHEDULED)))(AVAHI_DONE := i # rlist s AVAHI_DONE)"
  have "?l = (\<lambda>st. if st \<noteq> AVAHI_DONE then remove1 i (rlist s st) else if i \<in> set (rlist s st) then rlist s st else i # rlist s st)"
  proof (rule ext)
    fix st
    show "?l st = (if st \<noteq> AVAHI_DONE then remove1 i (rlist s st) else if i \<in> set (rlist s st) then rlist s st else i # rlist s st)"
      using core_rlist [OF assms(1), of i st] assms(2,3) by (auto simp: remove1_idem)
  qed
  with assms(2,3) show "response_job_mark_done now s i = Ret (place i (rdone now j) s)"
    by (simp add: response_job_mark_done_def Let_def set_elapse_time_ok set_rjob_def place_def rdone_def AVAHI_RESPONSE_HISTORY_MSEC_def)
  show "resp_core (place i (rdone now j) s)"
  proof (rule core_place [OF assms(1)])
    show "i < rfresh s" "rjob_ok (rdone now j)" using core_rjob [OF assms(1,2)] rdone_ok assms(4) by auto
    fix i' j' assume j': "rstore s i' = Some j'" "clash (rdone now j) j'"
    then have "clash j j'" using assms(3) by (simp add: clash_def)
    with core_clash [OF assms(1,2) j'(1)] show "i' = i" by simp
  qed
qed

text \<open>A new job that clashes with none.\<close>

lemma response_job_new_ok:
  assumes "resp_core s" "rjob_ok j" "rstate j = st" "\<forall>i' j'. rstore s i' = Some j' \<longrightarrow> \<not> clash j j'"
  shows "\<exists>s'. response_job_new s r st tv = (s', rfresh s) \<and> set_rjob (rfresh s) j s' = place (rfresh s) j (s\<lparr>rfresh := Suc (rfresh s)\<rparr>) \<and>
    resp_core (set_rjob (rfresh s) j s') \<and>
    rstore s' (rfresh s) = Some \<lparr>rtime_event = None, rstate = st, rdelivery = tv, rrecord = r, rflush = False, rquerier = None\<rparr>"
proof -
  let ?i = "rfresh s" and ?s = "s\<lparr>rfresh := Suc (rfresh s)\<rparr>"
  have new: "rstore s ?i = None" using core_rjob [OF assms(1), of ?i] by (cases "rstore s ?i") auto
  have notin: "?i \<notin> set (rlist s st')" for st' using core_rlist [OF assms(1), of ?i st'] new by simp
  have core: "resp_core ?s"
    using assms(1) core_rjob [OF assms(1)] by (auto simp: resp_core_def less_Suc_eq)
  obtain s' where s': "response_job_new s r st tv = (s', ?i)" by (simp add: response_job_new_def Let_def)
  have l: "(\<lambda>st'. if st' \<noteq> st then remove1 ?i (rlist s st') else if ?i \<in> set (rlist s st') then rlist s st' else ?i # rlist s st') =
      (rlist s)(st := ?i # rlist s st)"
    using notin by (auto simp: fun_eq_iff remove1_idem)
  from s' have "set_rjob ?i j s' = s\<lparr>rfresh := Suc ?i, rstore := (rstore s)(?i \<mapsto> j), rlist := (rlist s)(st := ?i # rlist s st)\<rparr>"
    by (auto simp: response_job_new_def Let_def set_rjob_def)
  then have eq: "set_rjob ?i j s' = place ?i j ?s"
    by (simp add: place_def assms(3) l cong: if_cong)
  moreover have "resp_core (place ?i j ?s)" using assms(4) by (intro core_place [OF core] assms(2)) auto
  moreover have "rstore s' ?i = Some \<lparr>rtime_event = None, rstate = st, rdelivery = tv, rrecord = r, rflush = False, rquerier = None\<rparr>"
    using s' by (auto simp: response_job_new_def Let_def set_rjob_def)
  ultimately show ?thesis using s' by auto
qed

section \<open>Looking for jobs\<close>

lemma find_scheduled_response_ok:
  assumes "resp_core s" "rr_ok r"
  shows "\<exists>x. find_scheduled_response s r (rlist s AVAHI_SCHEDULED) = Ret x \<and>
    (case x of
       None \<Rightarrow> \<forall>i j. rstore s i = Some j \<longrightarrow> rstate j = AVAHI_SCHEDULED \<longrightarrow> rr_abs (rrecord j) \<noteq> rr_abs r
     | Some i \<Rightarrow> \<exists>j. rstore s i = Some j \<and> rstate j = AVAHI_SCHEDULED \<and> rr_abs (rrecord j) = rr_abs r)"
proof -
  have "set l \<subseteq> set (rlist s AVAHI_SCHEDULED) \<Longrightarrow> \<exists>x. find_scheduled_response s r l = Ret x \<and>
    (case x of
       None \<Rightarrow> \<forall>i \<in> set l. \<forall>j. rstore s i = Some j \<longrightarrow> rr_abs (rrecord j) \<noteq> rr_abs r
     | Some i \<Rightarrow> \<exists>j. rstore s i = Some j \<and> rstate j = AVAHI_SCHEDULED \<and> rr_abs (rrecord j) = rr_abs r)" for l
  proof (induction l)
    case (Cons i l)
    then obtain j where j: "rstore s i = Some j" "rstate j = AVAHI_SCHEDULED" using core_rlist [OF assms(1)] by auto
    with core_rjob [OF assms(1) j(1)] have "avahi_record_equal_no_ttl (rrecord j) r = Ret (rr_abs (rrecord j) = rr_abs r)"
      using assms(2) by (intro record_equal_abs) (simp_all add: rjob_ok_def)
    moreover from Cons obtain x where "find_scheduled_response s r l = Ret x"
      "case x of
         None \<Rightarrow> \<forall>i \<in> set l. \<forall>j. rstore s i = Some j \<longrightarrow> rr_abs (rrecord j) \<noteq> rr_abs r
       | Some i \<Rightarrow> \<exists>j. rstore s i = Some j \<and> rstate j = AVAHI_SCHEDULED \<and> rr_abs (rrecord j) = rr_abs r" by auto
    ultimately show ?case using j by (cases "rr_abs (rrecord j) = rr_abs r"; cases x) auto
  qed simp
  from this [of "rlist s AVAHI_SCHEDULED"] obtain x where "find_scheduled_response s r (rlist s AVAHI_SCHEDULED) = Ret x"
    "case x of
       None \<Rightarrow> \<forall>i \<in> set (rlist s AVAHI_SCHEDULED). \<forall>j. rstore s i = Some j \<longrightarrow> rr_abs (rrecord j) \<noteq> rr_abs r
     | Some i \<Rightarrow> \<exists>j. rstore s i = Some j \<and> rstate j = AVAHI_SCHEDULED \<and> rr_abs (rrecord j) = rr_abs r" by auto
  then show ?thesis
    using core_rlist [OF assms(1)] by (intro exI [of _ x]) (auto split: option.splits)
qed

text \<open>Whether a job that is not scheduled still counts.\<close>

definition counts :: "timeval \<Rightarrow> rjob \<Rightarrow> bool" where
  "counts now j \<longleftrightarrow>
     (case rstate j of
        AVAHI_SCHEDULED \<Rightarrow> True
      | AVAHI_DONE \<Rightarrow> (usec_of now - usec_of (rdelivery j)) sdiv 1000 \<le> 500
      | AVAHI_SUPPRESSED \<Rightarrow> usec_of now - usec_of (rdelivery j) \<le> 700000)"

text \<open>The result of a search that forgets an outdated job: \<open>P\<close> is what it looks for.\<close>

definition finds_job :: "timeval \<Rightarrow> response_sched \<Rightarrow> (rjob \<Rightarrow> bool) \<Rightarrow> response_sched \<Rightarrow> nat option \<Rightarrow> bool" where
  "finds_job now s P s' x \<longleftrightarrow>
     (case x of
        Some i \<Rightarrow> s' = s \<and> (\<exists>j. rstore s i = Some j \<and> P j \<and> counts now j)
      | None \<Rightarrow> (s' = s \<and> (\<forall>i j. rstore s i = Some j \<longrightarrow> \<not> P j)) \<or>
          (\<exists>i j. rstore s i = Some j \<and> P j \<and> \<not> counts now j \<and> s' = rfreed i s))"

lemma find_history_response_ok:
  assumes "resp_core s" "rr_ok r"
  shows "\<exists>s' x. find_history_response now s r (rlist s AVAHI_DONE) = Ret (s', x) \<and>
    finds_job now s (\<lambda>j. rstate j = AVAHI_DONE \<and> rr_abs (rrecord j) = rr_abs r) s' x"
proof -
  let ?P = "\<lambda>j. rstate j = AVAHI_DONE \<and> rr_abs (rrecord j) = rr_abs r"
  have "set l \<subseteq> set (rlist s AVAHI_DONE) \<Longrightarrow> \<exists>s' x. find_history_response now s r l = Ret (s', x) \<and>
    (case x of
       Some i \<Rightarrow> s' = s \<and> (\<exists>j. rstore s i = Some j \<and> ?P j \<and> counts now j)
     | None \<Rightarrow> (s' = s \<and> (\<forall>i \<in> set l. \<forall>j. rstore s i = Some j \<longrightarrow> \<not> ?P j)) \<or>
         (\<exists>i j. rstore s i = Some j \<and> ?P j \<and> \<not> counts now j \<and> s' = rfreed i s))" for l
  proof (induction l)
    case (Cons i l)
    then obtain j where j: "rstore s i = Some j" "rstate j = AVAHI_DONE" using core_rlist [OF assms(1)] by auto
    with core_rjob [OF assms(1) j(1)] have eq: "avahi_record_equal_no_ttl (rrecord j) r = Ret (rr_abs (rrecord j) = rr_abs r)"
      using assms(2) by (intro record_equal_abs) (simp_all add: rjob_ok_def)
    show ?case
    proof (cases "rr_abs (rrecord j) = rr_abs r")
      case True
      have c: "AVAHI_RESPONSE_HISTORY_MSEC < avahi_age now (rdelivery j) sdiv 1000 \<longleftrightarrow> \<not> counts now j"
        using j(2) by (auto simp: counts_def avahi_age_def timeval_diff AVAHI_RESPONSE_HISTORY_MSEC_def)
      with True j eq response_job_free_ok [OF assms(1) j(1)] show ?thesis by (cases "counts now j") auto
    next
      case False
      from Cons obtain s' x where "find_history_response now s r l = Ret (s', x)"
        "case x of
           Some i \<Rightarrow> s' = s \<and> (\<exists>j. rstore s i = Some j \<and> ?P j \<and> counts now j)
         | None \<Rightarrow> (s' = s \<and> (\<forall>i \<in> set l. \<forall>j. rstore s i = Some j \<longrightarrow> \<not> ?P j)) \<or>
             (\<exists>i j. rstore s i = Some j \<and> ?P j \<and> \<not> counts now j \<and> s' = rfreed i s)" by auto
      with False j eq show ?thesis by (intro exI [of _ s'] exI [of _ x]) (cases x; auto)
    qed
  qed simp
  from this [of "rlist s AVAHI_DONE"] obtain s' x where s': "find_history_response now s r (rlist s AVAHI_DONE) = Ret (s', x)"
    "case x of
       Some i \<Rightarrow> s' = s \<and> (\<exists>j. rstore s i = Some j \<and> ?P j \<and> counts now j)
     | None \<Rightarrow> (s' = s \<and> (\<forall>i \<in> set (rlist s AVAHI_DONE). \<forall>j. rstore s i = Some j \<longrightarrow> \<not> ?P j)) \<or>
         (\<exists>i j. rstore s i = Some j \<and> ?P j \<and> \<not> counts now j \<and> s' = rfreed i s)" by auto
  then show ?thesis
    using core_rlist [OF assms(1)] by (intro exI [of _ s'] exI [of _ x]) (cases x; auto simp: finds_job_def)
qed

definition known_to :: "address \<Rightarrow> rjob \<Rightarrow> bool" where
  "known_to a j \<longleftrightarrow> (\<exists>q. rquerier j = Some q \<and> same_address q a)"

lemma find_suppressed_response_ok:
  assumes "resp_core s" "rr_ok r" "address_ok a"
  shows "\<exists>s' x. find_suppressed_response now s r a (rlist s AVAHI_SUPPRESSED) = Ret (s', x) \<and>
    finds_job now s (\<lambda>j. rstate j = AVAHI_SUPPRESSED \<and> rr_abs (rrecord j) = rr_abs r \<and> known_to a j) s' x"
proof -
  let ?P = "\<lambda>j. rstate j = AVAHI_SUPPRESSED \<and> rr_abs (rrecord j) = rr_abs r \<and> known_to a j"
  have "set l \<subseteq> set (rlist s AVAHI_SUPPRESSED) \<Longrightarrow> \<exists>s' x. find_suppressed_response now s r a l = Ret (s', x) \<and>
    (case x of
       Some i \<Rightarrow> s' = s \<and> (\<exists>j. rstore s i = Some j \<and> ?P j \<and> counts now j)
     | None \<Rightarrow> (s' = s \<and> (\<forall>i \<in> set l. \<forall>j. rstore s i = Some j \<longrightarrow> \<not> ?P j)) \<or>
         (\<exists>i j. rstore s i = Some j \<and> ?P j \<and> \<not> counts now j \<and> s' = rfreed i s))" for l
  proof (induction l)
    case (Cons i l)
    then obtain j where j: "rstore s i = Some j" "rstate j = AVAHI_SUPPRESSED" using core_rlist [OF assms(1)] by auto
    note ok = core_rjob [OF assms(1) j(1)]
    with assms(2) have eq: "avahi_record_equal_no_ttl (rrecord j) r = Ret (rr_abs (rrecord j) = rr_abs r)"
      by (intro record_equal_abs) (simp_all add: rjob_ok_def)
    from ok j(2) obtain q where q: "rquerier j = Some q" "address_ok q" by (auto simp: rjob_ok_def split: option.splits)
    then have cmp: "avahi_address_cmp q a = 0 \<longleftrightarrow> known_to a j" using address_cmp_same assms(3) by (simp add: known_to_def)
    show ?case
    proof (cases "rr_abs (rrecord j) = rr_abs r \<and> known_to a j")
      case True
      have c: "AVAHI_RESPONSE_SUPPRESS_MSEC * 1000 < avahi_age now (rdelivery j) \<longleftrightarrow> \<not> counts now j"
        using j(2) by (auto simp: counts_def avahi_age_def timeval_diff AVAHI_RESPONSE_SUPPRESS_MSEC_def)
      with True j eq q cmp response_job_free_ok [OF assms(1) j(1)] show ?thesis by (cases "counts now j") auto
    next
      case False
      from Cons obtain s' x where "find_suppressed_response now s r a l = Ret (s', x)"
        "case x of
           Some i \<Rightarrow> s' = s \<and> (\<exists>j. rstore s i = Some j \<and> ?P j \<and> counts now j)
         | None \<Rightarrow> (s' = s \<and> (\<forall>i \<in> set l. \<forall>j. rstore s i = Some j \<longrightarrow> \<not> ?P j)) \<or>
             (\<exists>i j. rstore s i = Some j \<and> ?P j \<and> \<not> counts now j \<and> s' = rfreed i s)" by auto
      with False j eq q(1) cmp show ?thesis by (intro exI [of _ s'] exI [of _ x]) (cases x; auto)
    qed
  qed simp
  from this [of "rlist s AVAHI_SUPPRESSED"] obtain s' x where s': "find_suppressed_response now s r a (rlist s AVAHI_SUPPRESSED) = Ret (s', x)"
    "case x of
       Some i \<Rightarrow> s' = s \<and> (\<exists>j. rstore s i = Some j \<and> ?P j \<and> counts now j)
     | None \<Rightarrow> (s' = s \<and> (\<forall>i \<in> set (rlist s AVAHI_SUPPRESSED). \<forall>j. rstore s i = Some j \<longrightarrow> \<not> ?P j)) \<or>
         (\<exists>i j. rstore s i = Some j \<and> ?P j \<and> \<not> counts now j \<and> s' = rfreed i s)" by auto
  then show ?thesis
    using core_rlist [OF assms(1)] by (intro exI [of _ s'] exI [of _ x]) (cases x; auto simp: finds_job_def)
qed

section \<open>Posting\<close>

text \<open>A scheduled response that may be posted.\<close>

definition postable :: "rr \<Rightarrow> bool" where
  "postable r \<longleftrightarrow> rr_ok r \<and> sent_record r \<and> \<not> avahi_key_is_pattern (rkey r)"

definition querier_ok :: "address option \<Rightarrow> bool" where
  "querier_ok q \<longleftrightarrow> (case q of None \<Rightarrow> True | Some a \<Rightarrow> address_ok a)"

text \<open>The two reasons not to schedule a response.\<close>

definition known_answer :: "timeval \<Rightarrow> response_sched \<Rightarrow> rr \<Rightarrow> address option \<Rightarrow> bool" where
  "known_answer now s r querier \<longleftrightarrow> (\<exists>a i j. querier = Some a \<and> rstore s i = Some j \<and> rstate j = AVAHI_SUPPRESSED \<and>
     rr_abs (rrecord j) = rr_abs r \<and> known_to a j \<and> counts now j \<and> stands_for (rrecord j) r)"

definition sent_recently :: "timeval \<Rightarrow> response_sched \<Rightarrow> rr \<Rightarrow> bool \<Rightarrow> bool" where
  "sent_recently now s r flush \<longleftrightarrow> (\<exists>i j. rstore s i = Some j \<and> rstate j = AVAHI_DONE \<and>
     rr_abs (rrecord j) = rr_abs r \<and> counts now j \<and> stands_for (rrecord j) r \<and> (rflush j \<or> \<not> flush))"

text \<open>
  A later state in which nothing has been added, only jobs that are not scheduled and that no
  longer count, or that satisfy \<open>P\<close>, are gone.
\<close>

definition forgets :: "timeval \<Rightarrow> (rjob \<Rightarrow> bool) \<Rightarrow> response_sched \<Rightarrow> response_sched \<Rightarrow> bool" where
  "forgets now P s s' \<longleftrightarrow> rsent s' = rsent s \<and> rfresh s' = rfresh s \<and>
     (\<forall>i. rstore s' i = rstore s i \<or> (rstore s' i = None \<and> (\<exists>j. rstore s i = Some j \<and> rstate j \<noteq> AVAHI_SCHEDULED \<and> (counts now j \<longrightarrow> P j))))"

lemma forgets_refl: "forgets now P s s"
  by (simp add: forgets_def)

lemma forgets_freed:
  "rstore s i = Some j \<Longrightarrow> rstate j \<noteq> AVAHI_SCHEDULED \<Longrightarrow> (counts now j \<longrightarrow> P j) \<Longrightarrow> forgets now P s (rfreed i s)"
  by (auto simp: forgets_def)

lemma forgets_trans: "forgets now P s s' \<Longrightarrow> forgets now P s' s'' \<Longrightarrow> forgets now P s s''"
  unfolding forgets_def by metis

lemma suppressed_by_querier_ok:
  assumes "resp_core s" "rr_ok r" "querier_ok querier"
  shows "\<exists>s'. suppressed_by_querier now s r querier = Ret (s', known_answer now s r querier) \<and> resp_core s' \<and>
    forgets now (\<lambda>_. False) s s'"
proof (cases querier)
  case None
  with assms(1) show ?thesis by (simp add: suppressed_by_querier_def known_answer_def forgets_refl)
next
  case (Some a)
  let ?P = "\<lambda>j. rstate j = AVAHI_SUPPRESSED \<and> rr_abs (rrecord j) = rr_abs r \<and> known_to a j"
  from Some assms(3) have a: "address_ok a" by (simp add: querier_ok_def)
  from find_suppressed_response_ok [OF assms(1,2) a, of now] obtain s' x where
    s': "find_suppressed_response now s r a (rlist s AVAHI_SUPPRESSED) = Ret (s', x)" "finds_job now s ?P s' x" by blast
  have unique: "i = i'" if "rstore s i = Some j" "?P j" "rstore s i' = Some j'" "?P j'" for i i' j j'
  proof -
    have "clash j j'" using that(2,4) same_address_trans same_address_sym by (auto simp: clash_def known_to_def)
    with core_clash [OF assms(1) that(1,3)] show ?thesis .
  qed
  show ?thesis
  proof (cases x)
    case (Some i)
    with s'(2) obtain j where j: "s' = s" "rstore s i = Some j" "?P j" "counts now j" by (auto simp: finds_job_def)
    have "known_answer now s r querier \<longleftrightarrow> stands_for (rrecord j) r"
      unfolding known_answer_def using unique [OF j(2,3)] j \<open>querier = Some a\<close> by fastforce
    with s'(1) Some j assms(1) \<open>querier = Some a\<close> show ?thesis by (simp add: suppressed_by_querier_def forgets_refl)
  next
    case None
    have not: "\<not> known_answer now s r querier"
    proof
      assume "known_answer now s r querier"
      then obtain i j where j: "rstore s i = Some j" "?P j" "counts now j" using \<open>querier = Some a\<close> by (auto simp: known_answer_def)
      with None s'(2) obtain i' j' where "rstore s i' = Some j'" "?P j'" "\<not> counts now j'" by (auto simp: finds_job_def)
      with unique [OF j(1,2)] j show False by fastforce
    qed
    from None s'(2) have "resp_core s' \<and> forgets now (\<lambda>_. False) s s'"
      using assms(1) core_rfreed forgets_refl forgets_freed by (fastforce simp: finds_job_def)
    with s'(1) None not \<open>querier = Some a\<close> show ?thesis by (simp add: suppressed_by_querier_def)
  qed
qed

lemma suppressed_by_history_ok:
  assumes "resp_core s" "rr_ok r"
  shows "\<exists>s'. suppressed_by_history now s r flush = Ret (s', sent_recently now s r flush) \<and> resp_core s' \<and>
    forgets now (\<lambda>j. \<not> sent_recently now s r flush \<and> rr_abs (rrecord j) = rr_abs r) s s' \<and>
    (\<not> sent_recently now s r flush \<longrightarrow> (\<forall>i j. rstore s' i = Some j \<longrightarrow> rstate j = AVAHI_DONE \<longrightarrow> rr_abs (rrecord j) \<noteq> rr_abs r))"
proof -
  let ?P = "\<lambda>j. rstate j = AVAHI_DONE \<and> rr_abs (rrecord j) = rr_abs r"
  from find_history_response_ok [OF assms, of now] obtain s' x where
    s': "find_history_response now s r (rlist s AVAHI_DONE) = Ret (s', x)" "finds_job now s ?P s' x" by blast
  have unique: "i = i'" if "rstore s i = Some j" "?P j" "rstore s i' = Some j'" "?P j'" for i i' j j'
    using core_clash [OF assms(1) that(1,3)] that by (simp add: clash_def)
  have gone: "\<forall>i' j'. rstore (rfreed i s) i' = Some j' \<longrightarrow> rstate j' = AVAHI_DONE \<longrightarrow> rr_abs (rrecord j') \<noteq> rr_abs r"
    if "rstore s i = Some j" "?P j" for i j
    using unique [OF that] by (auto split: if_splits)
  show ?thesis
  proof (cases x)
    case (Some i)
    with s'(2) obtain j where j: "s' = s" "rstore s i = Some j" "?P j" "counts now j" by (auto simp: finds_job_def)
    have eq: "sent_recently now s r flush \<longleftrightarrow> stands_for (rrecord j) r \<and> (rflush j \<or> \<not> flush)"
      unfolding sent_recently_def using unique [OF j(2,3)] j by fastforce
    show ?thesis
    proof (cases "sent_recently now s r flush")
      case True
      with s'(1) Some j eq assms(1) show ?thesis by (simp add: suppressed_by_history_def forgets_refl)
    next
      case False
      have "suppressed_by_history now s r flush = Ret (rfreed i s, False)"
        using s'(1) Some j False eq response_job_free_ok [OF assms(1) j(2)] by (auto simp: suppressed_by_history_def)
      moreover have "forgets now (\<lambda>j. \<not> sent_recently now s r flush \<and> rr_abs (rrecord j) = rr_abs r) s (rfreed i s)"
        using False j by (intro forgets_freed [OF j(2)]) auto
      ultimately show ?thesis using False core_rfreed [OF assms(1)] gone [OF j(2,3)] by simp
    qed
  next
    case None
    have not: "\<not> sent_recently now s r flush"
    proof
      assume "sent_recently now s r flush"
      then obtain i j where j: "rstore s i = Some j" "?P j" "counts now j" by (auto simp: sent_recently_def)
      with None s'(2) obtain i' j' where "rstore s i' = Some j'" "?P j'" "\<not> counts now j'" by (auto simp: finds_job_def)
      with unique [OF j(1,2)] j show False by fastforce
    qed
    from None s'(2) consider "s' = s" "\<forall>i j. rstore s i = Some j \<longrightarrow> \<not> ?P j"
      | i j where "rstore s i = Some j" "?P j" "\<not> counts now j" "s' = rfreed i s" by (auto simp: finds_job_def)
    then show ?thesis
    proof cases
      case 1
      with s'(1) None not assms(1) show ?thesis by (simp add: suppressed_by_history_def forgets_refl)
    next
      case (2 i j)
      have "forgets now (\<lambda>j. \<not> sent_recently now s r flush \<and> rr_abs (rrecord j) = rr_abs r) s (rfreed i s)"
        using 2 by (intro forgets_freed [OF 2(1)]) auto
      with s'(1) None not 2 gone [OF 2(1,2)] core_rfreed [OF assms(1)] show ?thesis by (simp add: suppressed_by_history_def)
    qed
  qed
qed

lemma forgets_sent_recently: "forgets now (\<lambda>_. False) s s' \<Longrightarrow> sent_recently now s' r flush = sent_recently now s r flush"
  unfolding sent_recently_def forgets_def by (metis option.distinct(1) option.inject)

lemma elapse_time_ok:
  assumes "resp_core s" "normalized now" "rand_ok rnd" "0 \<le> msec" "0 \<le> jitter"
  shows "\<exists>js tv. elapse_time now rnd s msec jitter = (s\<lparr>rjitter := js\<rparr>, tv) \<and> rand_ok (last_rand js) \<and> normalized tv \<and>
    usec_of now \<le> usec_of tv \<and> usec_of tv \<le> usec_of now + (msec + jitter) * 1000"
proof -
  from elapse_time_range [OF core_rand [OF assms(1)] assms(3,2,4,5)] obtain tv js where
    "avahi_elapse_time now rnd (rjitter s) msec jitter = (tv, js)" "rand_ok (last_rand js)" "normalized tv"
    "usec_of now + msec * 1000 \<le> usec_of tv" "usec_of tv \<le> usec_of now + (msec + jitter) * 1000" .
  with assms(4) show ?thesis by (intro exI [of _ js] exI [of _ tv]) (simp add: elapse_time_def)
qed

lemma core_rjitter: "resp_core s \<Longrightarrow> rand_ok (last_rand js) \<Longrightarrow> resp_core (s\<lparr>rjitter := js\<rparr>)"
  by (simp add: resp_core_def)

definition scheduled_by :: "timeval \<Rightarrow> int \<Rightarrow> rr \<Rightarrow> bool \<Rightarrow> address option \<Rightarrow> response_sched \<Rightarrow> response_sched \<Rightarrow> bool" where
  "scheduled_by now limit r flush querier s s' \<longleftrightarrow> rfresh s \<le> rfresh s' \<and> (\<exists>i j. (i < rfresh s \<longrightarrow> rstore s i \<noteq> None) \<and> rstore s' i = Some j \<and> rstate j = AVAHI_SCHEDULED \<and> rrecord j = r \<and>
     (flush \<longrightarrow> rflush j) \<and> usec_of (rdelivery j) \<le> limit \<and> (\<forall>a. rquerier j = Some a \<longrightarrow> (\<exists>b. querier = Some b \<and> same_address a b)) \<and>
     (\<forall>j0. rstore s i = Some j0 \<longrightarrow> rstate j0 = AVAHI_SCHEDULED \<and> rr_abs (rrecord j0) = rr_abs r \<and>
        (rflush j0 \<longrightarrow> rflush j) \<and> usec_of (rdelivery j) \<le> usec_of (rdelivery j0)) \<and>
     (\<forall>i'. i' \<noteq> i \<longrightarrow> rstore s' i' = rstore s i' \<or> (rstore s' i' = None \<and>
        (\<exists>j. rstore s i' = Some j \<and> rstate j \<noteq> AVAHI_SCHEDULED \<and> (counts now j \<longrightarrow> rr_abs (rrecord j) = rr_abs r)))))"

lemma update_scheduled_ok:
  fixes flush :: bool
  assumes "rjob_ok j" "rstate j = AVAHI_SCHEDULED" "postable r" "querier_ok querier" "normalized tv"
  defines "j' \<equiv> update_scheduled tv r flush querier j"
  shows "rjob_ok j'" "rstate j' = AVAHI_SCHEDULED" "rrecord j' = r" "flush \<longrightarrow> rflush j'" "rflush j \<longrightarrow> rflush j'"
    "usec_of (rdelivery j') \<le> usec_of tv" "usec_of (rdelivery j') \<le> usec_of (rdelivery j)"
    "\<forall>a. rquerier j' = Some a \<longrightarrow> (\<exists>b. querier = Some b \<and> same_address a b)"
proof -
  have n: "normalized (rdelivery j)" "rtime_event j = Some (elapse_after (rdelivery j) 0)" using assms(1,2) by (auto simp: rjob_ok_def)
  note cmp = timeval_compare_usec [OF assms(5) n(1)]
  have q: "rquerier j = Some a \<Longrightarrow> address_ok a" for a using assms(1) by (auto simp: rjob_ok_def)
  have e: "elapse_after t 0 = t" for t by (simp add: elapse_after_def)
  show "rjob_ok j'" using assms(1-5) n q
    by (auto simp: j'_def update_scheduled_def Let_def rjob_ok_def postable_def querier_ok_def e split: option.splits)
  show "rstate j' = AVAHI_SCHEDULED" "rrecord j' = r" "flush \<longrightarrow> rflush j'" "rflush j \<longrightarrow> rflush j'"
    using assms(2) by (auto simp: j'_def update_scheduled_def Let_def split: option.splits)
  show "usec_of (rdelivery j') \<le> usec_of tv" "usec_of (rdelivery j') \<le> usec_of (rdelivery j)"
    using cmp by (auto simp: j'_def update_scheduled_def Let_def split: option.splits if_splits)
  show "\<forall>a. rquerier j' = Some a \<longrightarrow> (\<exists>b. querier = Some b \<and> same_address a b)"
    using q assms(4) address_cmp_same same_address_sym
    by (auto simp: j'_def update_scheduled_def Let_def querier_ok_def split: option.splits if_splits)
qed

lemma response_post_ok:
  assumes "resp_core s" "postable r" "querier_ok querier" "normalized now" "rand_ok rnd"
  shows "\<exists>s' b. avahi_response_scheduler_post now rnd s r flush querier imm = Ret (s', b) \<and> resp_core s' \<and> rsent s' = rsent s \<and>
    (b \<longleftrightarrow> \<not> known_answer now s r querier \<and> \<not> sent_recently now s r flush) \<and>
    (if b then scheduled_by now (usec_of now + (if imm then 0 else 120000)) r flush querier s s' else forgets now (\<lambda>_. False) s s')"
proof -
  have r: "rr_ok r" "\<not> avahi_key_is_pattern (rkey r)" using assms(2) by (auto simp: postable_def)
  from suppressed_by_querier_ok [OF assms(1) r(1) assms(3), of now] obtain s1 where
    s1: "suppressed_by_querier now s r querier = Ret (s1, known_answer now s r querier)" "resp_core s1" "forgets now (\<lambda>_. False) s s1" by blast
  show ?thesis
  proof (cases "known_answer now s r querier")
    case True
    with s1 r have "avahi_response_scheduler_post now rnd s r flush querier imm = Ret (s1, False)"
      by (simp add: avahi_response_scheduler_post_def)
    with s1 True show ?thesis by (auto simp: forgets_def)
  next
    case False
    note nk = this
    note sr = forgets_sent_recently [OF s1(3), of r flush]
    from suppressed_by_history_ok [OF s1(2) r(1), of now flush] obtain s2 where
      s2: "suppressed_by_history now s1 r flush = Ret (s2, sent_recently now s r flush)" "resp_core s2"
        "forgets now (\<lambda>j. \<not> sent_recently now s r flush \<and> rr_abs (rrecord j) = rr_abs r) s1 s2"
        "\<not> sent_recently now s r flush \<longrightarrow> (\<forall>i j. rstore s2 i = Some j \<longrightarrow> rstate j = AVAHI_DONE \<longrightarrow> rr_abs (rrecord j) \<noteq> rr_abs r)"
      unfolding sr by blast
    show ?thesis
    proof (cases "sent_recently now s r flush")
      case True
      with s1 s2 r nk have "avahi_response_scheduler_post now rnd s r flush querier imm = Ret (s2, False)"
        by (simp add: avahi_response_scheduler_post_def)
      moreover have "forgets now (\<lambda>_. False) s s2" using s1(3) s2(3) True by (auto intro: forgets_trans)
      ultimately show ?thesis using True s2(2) by (auto simp: forgets_def)
    next
      case False
      have "forgets now (\<lambda>j. rr_abs (rrecord j) = rr_abs r) s s1" "forgets now (\<lambda>j. rr_abs (rrecord j) = rr_abs r) s1 s2"
        using s1(3) s2(3) by (auto simp: forgets_def)
      then have f: "forgets now (\<lambda>j. rr_abs (rrecord j) = rr_abs r) s s2" by (rule forgets_trans)
      let ?m = "if imm then 0 else AVAHI_RESPONSE_DEFER_MSEC" and ?jm = "if imm then 0 else AVAHI_RESPONSE_JITTER_MSEC"
      have "0 \<le> ?m" "0 \<le> ?jm" by (simp_all add: AVAHI_RESPONSE_DEFER_MSEC_def AVAHI_RESPONSE_JITTER_MSEC_def)
      from elapse_time_ok [OF s2(2) assms(4,5) this] obtain js tv where
        tv: "elapse_time now rnd s2 ?m ?jm = (s2\<lparr>rjitter := js\<rparr>, tv)" "rand_ok (last_rand js)" "normalized tv"
          "usec_of tv \<le> usec_of now + (if imm then 0 else 120000)"
        by (auto simp: AVAHI_RESPONSE_DEFER_MSEC_def AVAHI_RESPONSE_JITTER_MSEC_def split: if_splits)
      let ?s = "s2\<lparr>rjitter := js\<rparr>"
      have core: "resp_core ?s" using core_rjitter [OF s2(2) tv(2)] .
      from find_scheduled_response_ok [OF core r(1)] obtain x where
        x: "find_scheduled_response ?s r (rlist ?s AVAHI_SCHEDULED) = Ret x"
          "case x of
             None \<Rightarrow> \<forall>i j. rstore ?s i = Some j \<longrightarrow> rstate j = AVAHI_SCHEDULED \<longrightarrow> rr_abs (rrecord j) \<noteq> rr_abs r
           | Some i \<Rightarrow> \<exists>j. rstore ?s i = Some j \<and> rstate j = AVAHI_SCHEDULED \<and> rr_abs (rrecord j) = rr_abs r" by blast
      have post: "avahi_response_scheduler_post now rnd s r flush querier imm =
          (case x of
             Some i \<Rightarrow>
               (case rstore ?s i of None \<Rightarrow> Crash | Some j \<Rightarrow> Ret (set_rjob i (update_scheduled tv r flush querier j) ?s, True))
           | None \<Rightarrow>
               (let (s, i) = response_job_new ?s r AVAHI_SCHEDULED tv
                in case rstore s i of
                     None \<Rightarrow> Crash
                   | Some j \<Rightarrow> Ret (set_rjob i (j\<lparr>rtime_event := Some tv, rflush := flush, rquerier := querier\<rparr>) s, True)))"
        unfolding avahi_response_scheduler_post_def s1(1) res_bind.simps prod.case s2(1) Let_def tv(1) x(1)
        using nk False r(2) by (simp only: if_False)
      show ?thesis
      proof (cases x)
        case (Some i)
        with x(2) obtain j where j: "rstore ?s i = Some j" "rstate j = AVAHI_SCHEDULED" "rr_abs (rrecord j) = rr_abs r" by auto
        let ?j = "update_scheduled tv r flush querier j"
        note u = update_scheduled_ok [OF _ j(2) assms(2,3) tv(3), of flush]
        note jok = core_rjob [OF core j(1)]
        have new: "set_rjob i ?j ?s = place i ?j ?s" using set_rjob_place [OF core j(1)] u jok j(2) by simp
        have "resp_core (place i ?j ?s)"
        proof (rule core_place [OF core])
          show "i < rfresh ?s" "rjob_ok ?j" using jok u(1) by auto
          fix i' j' assume j': "rstore ?s i' = Some j'" "clash ?j j'"
          then have "clash j j'" using u(2,3) jok j(2,3) by (simp add: clash_def)
          with core_clash [OF core j(1) j'(1)] show "i' = i" by simp
        qed
        moreover have some: "rstore s i \<noteq> None"
        proof -
          have "rstore s2 i = rstore s i \<or> (\<exists>j. rstore s i = Some j)" using f unfolding forgets_def by metis
          with j(1) show ?thesis by (cases "rstore s i") auto
        qed
        moreover have "scheduled_by now (usec_of now + (if imm then 0 else 120000)) r flush querier s (place i ?j ?s)"
          unfolding scheduled_by_def
        proof (intro exI [of _ i] exI [of _ ?j] conjI allI impI)
          fix j0 assume "rstore s i = Some j0"
          moreover have "rstore s2 i = rstore s i \<or> rstore s2 i = None" using f unfolding forgets_def by metis
          ultimately have "j0 = j" using j(1) by auto
          then show "rstate j0 = AVAHI_SCHEDULED" "rr_abs (rrecord j0) = rr_abs r" "rflush j0 \<Longrightarrow> rflush ?j"
            "usec_of (rdelivery ?j) \<le> usec_of (rdelivery j0)" using j u jok by auto
        qed (use u jok tv(4) f j(1) some in \<open>auto simp: forgets_def\<close>)
        moreover have "rsent (place i ?j ?s) = rsent s" using f by (simp add: forgets_def)
        ultimately show ?thesis using post Some j(1) new nk False
          by (intro exI [of _ "place i ?j ?s"] exI [of _ True]) (simp split del: if_split)
      next
        case None
        let ?j = "\<lparr>rtime_event = Some tv, rstate = AVAHI_SCHEDULED, rdelivery = tv, rrecord = r, rflush = flush, rquerier = querier\<rparr>"
        have ok: "rjob_ok ?j" using assms(2,3) tv(3) by (auto simp: rjob_ok_def postable_def querier_ok_def elapse_after_def split: option.splits)
        have free: "\<forall>i' j'. rstore ?s i' = Some j' \<longrightarrow> \<not> clash ?j j'"
        proof (intro allI impI notI)
          fix i' j' assume j': "rstore ?s i' = Some j'" and c: "clash ?j j'"
          from j' have "rstore s2 i' = Some j'" by simp
          with x(2) None s2(4) False have "rstate j' = AVAHI_SCHEDULED \<or> rstate j' = AVAHI_DONE \<Longrightarrow> rr_abs (rrecord j') \<noteq> rr_abs r" by auto
          with c show False by (cases "rstate j'") (auto simp: clash_def)
        qed
        from response_job_new_ok [OF core ok _ free, where st = AVAHI_SCHEDULED and r = r and tv = tv] obtain s3 where
          s3: "response_job_new ?s r AVAHI_SCHEDULED tv = (s3, rfresh ?s)"
            "set_rjob (rfresh ?s) ?j s3 = place (rfresh ?s) ?j (?s\<lparr>rfresh := Suc (rfresh ?s)\<rparr>)" "resp_core (set_rjob (rfresh ?s) ?j s3)"
            "rstore s3 (rfresh ?s) = Some \<lparr>rtime_event = None, rstate = AVAHI_SCHEDULED, rdelivery = tv, rrecord = r, rflush = False, rquerier = None\<rparr>"
          by auto
        let ?i = "rfresh ?s"
        have old: "rstore s ?i = None"
        proof (cases "rstore s ?i")
          case (Some j0)
          have fresh: "rstore s2 ?i = None" using core_rjob [OF s2(2), of ?i] by (cases "rstore s2 ?i") auto
          have "rfresh s2 = rfresh s" using f by (simp add: forgets_def)
          then show ?thesis using core_rjob [OF assms(1) Some] by simp
        qed
        have "scheduled_by now (usec_of now + (if imm then 0 else 120000)) r flush querier s (place ?i ?j (?s\<lparr>rfresh := Suc ?i\<rparr>))"
          unfolding scheduled_by_def using tv(4) f old
          by (intro exI [of _ ?i] exI [of _ ?j] conjI) (auto simp: forgets_def)
        moreover have "rsent (place ?i ?j (?s\<lparr>rfresh := Suc ?i\<rparr>)) = rsent s" using f by (simp add: forgets_def)
        ultimately show ?thesis using post None s3 nk False
          by (intro exI [of _ "place ?i ?j (?s\<lparr>rfresh := Suc ?i\<rparr>)"] exI [of _ True]) (simp split del: if_split)
      qed
    qed
  qed
qed

section \<open>Incoming responses and known answers\<close>

lemma incoming_scheduled:
  assumes "resp_core s" "rr_ok r" "normalized now" "rstore s i = Some j" "rstate j = AVAHI_SCHEDULED" "rr_abs (rrecord j) = rr_abs r"
  shows "avahi_response_scheduler_incoming now s r flush =
      Ret (if (\<not> rflush j \<or> flush) \<and> stands_for r (rrecord j) then place i (rdone now j) s else s)"
proof -
  from find_scheduled_response_ok [OF assms(1,2)] assms(4-6) obtain i' j' where
    f: "find_scheduled_response s r (rlist s AVAHI_SCHEDULED) = Ret (Some i')" "rstore s i' = Some j'" "rstate j' = AVAHI_SCHEDULED"
      "rr_abs (rrecord j') = rr_abs r" by (auto split: option.splits)
  have "i' = i" using core_clash [OF assms(1) f(2) assms(4)] f assms(5,6) by (simp add: clash_def)
  with f assms(4) response_job_mark_done_ok(1) [OF assms(1,4,5,3)] show ?thesis by (auto simp: avahi_response_scheduler_incoming_def)
qed

lemma incoming_unscheduled:
  assumes "resp_core s" "rr_ok r" "normalized now" "\<forall>i j. rstore s i = Some j \<longrightarrow> rstate j = AVAHI_SCHEDULED \<longrightarrow> rr_abs (rrecord j) \<noteq> rr_abs r"
  shows "\<exists>s' i j. avahi_response_scheduler_incoming now s r flush = Ret s' \<and> resp_core s' \<and> rsent s' = rsent s \<and>
    rstore s' i = Some j \<and> rstate j = AVAHI_DONE \<and> rrecord j = r \<and> rflush j = flush \<and> rdelivery j = now \<and>
    (\<forall>i' j'. rstore s' i' = Some j' \<longrightarrow> rstate j' = AVAHI_SCHEDULED \<longrightarrow> rstore s i' = Some j')"
proof -
  from find_scheduled_response_ok [OF assms(1,2)] assms(4)
  have none: "find_scheduled_response s r (rlist s AVAHI_SCHEDULED) = Ret None" by (force split: option.splits)
  from find_history_response_ok [OF assms(1,2), of now] obtain s1 x where
    s1: "find_history_response now s r (rlist s AVAHI_DONE) = Ret (s1, x)"
      "finds_job now s (\<lambda>j. rstate j = AVAHI_DONE \<and> rr_abs (rrecord j) = rr_abs r) s1 x" by blast
  let ?u = "\<lambda>j. j\<lparr>rrecord := r, rflush := flush, rquerier := None, rdelivery := now, rtime_event := Some (elapse_after now 500)\<rparr> :: rjob"
  show ?thesis
  proof (cases x)
    case (Some i)
    with s1(2) obtain j where j: "s1 = s" "rstore s i = Some j" "rstate j = AVAHI_DONE" "rr_abs (rrecord j) = rr_abs r"
      by (auto simp: finds_job_def)
    have ok: "rjob_ok (?u j)" using assms(2,3) j(3) by (simp add: rjob_ok_def)
    have "avahi_response_scheduler_incoming now s r flush = Ret (set_rjob i (?u j) s)"
      using none s1(1) Some j(1,2)
      by (simp add: avahi_response_scheduler_incoming_def set_elapse_time_ok set_rjob_def AVAHI_RESPONSE_HISTORY_MSEC_def)
    moreover have "resp_core (place i (?u j) s)"
    proof (rule core_place [OF assms(1) _ ok])
      show "i < rfresh s" using core_rjob [OF assms(1) j(2)] by simp
      fix i' j' assume j': "rstore s i' = Some j'" "clash (?u j) j'"
      then have "clash j j'" using j(3,4) by (simp add: clash_def)
      with core_clash [OF assms(1) j(2) j'(1)] show "i' = i" by simp
    qed
    ultimately show ?thesis using j(3) set_rjob_place [OF assms(1) j(2), of "?u j"]
      by (intro exI [of _ "place i (?u j) s"] exI [of _ i] exI [of _ "?u j"]) auto
  next
    case None
    with s1(2) assms(1) have c1: "resp_core s1" "rsent s1 = rsent s" "rfresh s1 = rfresh s" "\<And>i' j'. rstore s1 i' = Some j' \<Longrightarrow> rstore s i' = Some j'"
      using core_rfreed by (auto simp: finds_job_def split: if_splits)
    have nodone: "rr_abs (rrecord j') \<noteq> rr_abs r" if "rstore s1 i' = Some j'" "rstate j' = AVAHI_DONE" for i' j'
    proof
      assume eq: "rr_abs (rrecord j') = rr_abs r"
      from None s1(2) that eq obtain i0 j0 where f: "rstore s i0 = Some j0" "rstate j0 = AVAHI_DONE" "rr_abs (rrecord j0) = rr_abs r" "s1 = rfreed i0 s"
        by (fastforce simp: finds_job_def)
      with core_clash [OF assms(1) c1(4) [OF that(1)] f(1)] that eq show False by (simp add: clash_def)
    qed
    let ?n = "\<lparr>rtime_event = None, rstate = AVAHI_DONE, rdelivery = now, rrecord = r, rflush = False, rquerier = None\<rparr>"
    let ?i = "rfresh s1"
    have free: "\<forall>i' j'. rstore s1 i' = Some j' \<longrightarrow> \<not> clash (?u ?n) j'"
    proof (intro allI impI notI)
      fix i' j' assume j': "rstore s1 i' = Some j'" "clash (?u ?n) j'"
      then have "rstate j' = AVAHI_SCHEDULED \<or> rstate j' = AVAHI_DONE" "rr_abs (rrecord j') = rr_abs r"
        by (cases "rstate j'", auto simp: clash_def)
      with nodone [OF j'(1)] c1(4) [OF j'(1)] assms(4) show False by blast
    qed
    have ok: "rjob_ok (?u ?n)" using assms(2,3) by (simp add: rjob_ok_def)
    from response_job_new_ok [OF c1(1) ok _ free, where st = AVAHI_DONE and r = r and tv = now] obtain s2 where
      s2: "response_job_new s1 r AVAHI_DONE now = (s2, ?i)" "resp_core (set_rjob ?i (?u ?n) s2)" "rstore s2 ?i = Some ?n"
        "set_rjob ?i (?u ?n) s2 = place ?i (?u ?n) (s1\<lparr>rfresh := Suc ?i\<rparr>)" by auto
    have "avahi_response_scheduler_incoming now s r flush = Ret (set_rjob ?i (?u ?n) s2)"
      using none s1(1) None s2(1,3)
      by (simp add: avahi_response_scheduler_incoming_def set_elapse_time_ok set_rjob_def AVAHI_RESPONSE_HISTORY_MSEC_def)
    with s2(2) c1 show ?thesis unfolding s2(4)
      by (intro exI [of _ "place ?i (?u ?n) (s1\<lparr>rfresh := Suc ?i\<rparr>)"] exI [of _ ?i] exI [of _ "?u ?n"]) auto
  qed
qed

lemma incoming_core:
  assumes "resp_core s" "rr_ok r" "normalized now"
  shows "\<exists>s'. avahi_response_scheduler_incoming now s r flush = Ret s' \<and> resp_core s' \<and> rsent s' = rsent s"
proof (cases "\<exists>i j. rstore s i = Some j \<and> rstate j = AVAHI_SCHEDULED \<and> rr_abs (rrecord j) = rr_abs r")
  case True
  then obtain i j where j: "rstore s i = Some j" "rstate j = AVAHI_SCHEDULED" "rr_abs (rrecord j) = rr_abs r" by blast
  from incoming_scheduled [OF assms j] response_job_mark_done_ok(2) [OF assms(1) j(1,2) assms(3)] assms(1) show ?thesis by simp
next
  case False
  with incoming_unscheduled [OF assms, of flush] show ?thesis by blast
qed

text \<open>Whether the querier knows a scheduled response already.\<close>

definition drops :: "rr \<Rightarrow> address \<Rightarrow> rjob \<Rightarrow> bool" where
  "drops r a j \<longleftrightarrow> rstate j = AVAHI_SCHEDULED \<and> rr_abs (rrecord j) = rr_abs r \<and> known_to a j \<and> stands_for r (rrecord j)"

lemma drop_known_ok:
  assumes "resp_core s" "rr_ok r" "address_ok a"
  shows "\<exists>s'. drop_known s r a = Ret s' \<and> resp_core s' \<and> rsent s' = rsent s \<and>
    (\<forall>i. rstore s' i = (case rstore s i of None \<Rightarrow> None | Some j \<Rightarrow> if drops r a j then None else Some j))"
proof -
  from find_scheduled_response_ok [OF assms(1,2)] obtain x where
    x: "find_scheduled_response s r (rlist s AVAHI_SCHEDULED) = Ret x"
      "case x of
         None \<Rightarrow> \<forall>i j. rstore s i = Some j \<longrightarrow> rstate j = AVAHI_SCHEDULED \<longrightarrow> rr_abs (rrecord j) \<noteq> rr_abs r
       | Some i \<Rightarrow> \<exists>j. rstore s i = Some j \<and> rstate j = AVAHI_SCHEDULED \<and> rr_abs (rrecord j) = rr_abs r" by blast
  show ?thesis
  proof (cases x)
    case None
    with x have "drop_known s r a = Ret s" "\<And>i j. rstore s i = Some j \<Longrightarrow> \<not> drops r a j" by (auto simp: drop_known_def drops_def)
    with assms(1) show ?thesis by (auto split: option.splits)
  next
    case (Some i)
    with x(2) obtain j where j: "rstore s i = Some j" "rstate j = AVAHI_SCHEDULED" "rr_abs (rrecord j) = rr_abs r" by auto
    have q: "address_ok q" if "rquerier j = Some q" for q using core_rjob [OF assms(1) j(1)] that by (simp add: rjob_ok_def)
    have "(case rquerier j of None \<Rightarrow> False | Some q \<Rightarrow> avahi_address_cmp a q = 0) \<and> stands_for r (rrecord j) \<longleftrightarrow> drops r a j"
      using j(2,3) address_cmp_same [OF assms(3) q] same_address_sym by (auto simp: drops_def known_to_def split: option.splits)
    with x(1) Some j(1) response_job_free_ok [OF assms(1) j(1)]
    have d: "drop_known s r a = Ret (if drops r a j then rfreed i s else s)" by (simp add: drop_known_def)
    have "drops r a j' \<longleftrightarrow> i' = i \<and> drops r a j" if "rstore s i' = Some j'" for i' j'
      using core_clash [OF assms(1) that j(1)] j that by (auto simp: drops_def clash_def)
    with d assms(1) core_rfreed [OF assms(1)] show ?thesis by (auto split: option.splits)
  qed
qed

lemma suppress_ok:
  assumes "resp_core s" "rr_ok r" "address_ok a" "normalized now"
  shows "\<exists>s' i j. avahi_response_scheduler_suppress now s r a = Ret s' \<and> resp_core s' \<and> rsent s' = rsent s \<and>
    rstore s' i = Some j \<and> rstate j = AVAHI_SUPPRESSED \<and> rrecord j = r \<and> known_to a j \<and> rdelivery j = now \<and>
    (\<forall>i' j'. rstate j' \<noteq> AVAHI_SUPPRESSED \<longrightarrow> (rstore s' i' = Some j' \<longleftrightarrow> rstore s i' = Some j' \<and> \<not> drops r a j'))"
proof -
  from drop_known_ok [OF assms(1-3)] obtain s1 where s1: "drop_known s r a = Ret s1" "resp_core s1" "rsent s1 = rsent s"
    "\<forall>i. rstore s1 i = (case rstore s i of None \<Rightarrow> None | Some j \<Rightarrow> if drops r a j then None else Some j)" by blast
  then have kept: "rstore s1 i' = Some j' \<longleftrightarrow> rstore s i' = Some j' \<and> \<not> drops r a j'" for i' j'
    by (auto split: option.splits if_splits)
  let ?P = "\<lambda>j. rstate j = AVAHI_SUPPRESSED \<and> rr_abs (rrecord j) = rr_abs r \<and> known_to a j"
  from find_suppressed_response_ok [OF s1(2) assms(2,3), of now] obtain s2 x where
    s2: "find_suppressed_response now s1 r a (rlist s1 AVAHI_SUPPRESSED) = Ret (s2, x)" "finds_job now s1 ?P s2 x" by blast
  have unique: "i = i'" if "rstore s1 i = Some j" "?P j" "rstore s1 i' = Some j'" "?P j'" for i i' j j'
  proof -
    have "clash j j'" using that(2,4) same_address_trans same_address_sym by (auto simp: clash_def known_to_def)
    with core_clash [OF s1(2) that(1,3)] show ?thesis .
  qed
  let ?u = "\<lambda>j. j\<lparr>rdelivery := now, rtime_event := Some (elapse_after now 700)\<rparr> :: rjob"
  show ?thesis
  proof (cases x)
    case (Some i)
    with s2(2) obtain j where j: "s2 = s1" "rstore s1 i = Some j" "?P j" by (auto simp: finds_job_def)
    let ?j = "?u (j\<lparr>rrecord := r\<rparr>)"
    have ok: "rjob_ok ?j" using core_rjob [OF s1(2) j(2)] assms(2,4) j(3) by (auto simp: rjob_ok_def split: option.splits)
    have "avahi_response_scheduler_suppress now s r a = Ret (set_rjob i ?j s1)"
      using s1(1) s2(1) Some j(1,2)
      by (simp add: avahi_response_scheduler_suppress_def set_elapse_time_ok set_rjob_def AVAHI_RESPONSE_SUPPRESS_MSEC_def)
    moreover have "resp_core (place i ?j s1)"
    proof (rule core_place [OF s1(2) _ ok])
      show "i < rfresh s1" using core_rjob [OF s1(2) j(2)] by simp
      fix i' j' assume j': "rstore s1 i' = Some j'" "clash ?j j'"
      then have "clash j j'" using j(3) by (simp add: clash_def)
      with core_clash [OF s1(2) j(2) j'(1)] show "i' = i" by simp
    qed
    moreover have "known_to a ?j" "rstate ?j = AVAHI_SUPPRESSED" using j(3) by (auto simp: known_to_def)
    moreover have "set_rjob i ?j s1 = place i ?j s1" using set_rjob_place [OF s1(2) j(2), of ?j] by simp
    ultimately show ?thesis using kept s1(3) j(2,3)
      by (intro exI [of _ "place i ?j s1"] exI [of _ i] exI [of _ ?j]) auto
  next
    case None
    with s2(2) s1(2) have c2: "resp_core s2" "rsent s2 = rsent s1" "rfresh s2 = rfresh s1"
      "\<And>i' j'. rstate j' \<noteq> AVAHI_SUPPRESSED \<Longrightarrow> rstore s2 i' = Some j' \<longleftrightarrow> rstore s1 i' = Some j'"
      "\<And>i' j'. rstore s2 i' = Some j' \<Longrightarrow> rstore s1 i' = Some j'"
      using core_rfreed by (auto simp: finds_job_def split: if_splits)
    have none: "\<not> ?P j'" if "rstore s2 i' = Some j'" for i' j'
    proof
      assume P: "?P j'"
      from None s2(2) that P obtain i0 j0 where f: "rstore s1 i0 = Some j0" "?P j0" "s2 = rfreed i0 s1" by (fastforce simp: finds_job_def)
      with unique [OF c2(5) [OF that] P f(1,2)] that show False by simp
    qed
    let ?n = "\<lparr>rtime_event = None, rstate = AVAHI_SUPPRESSED, rdelivery = now, rrecord = r, rflush = False, rquerier = None\<rparr>"
    let ?j = "?u (?n\<lparr>rquerier := Some a\<rparr>)" and ?i = "rfresh s2"
    have ok: "rjob_ok ?j" using assms(2-4) by (simp add: rjob_ok_def)
    have free: "\<forall>i' j'. rstore s2 i' = Some j' \<longrightarrow> \<not> clash ?j j'"
    proof (intro allI impI notI)
      fix i' j' assume j': "rstore s2 i' = Some j'" and c: "clash ?j j'"
      from c obtain b where "rstate j' = AVAHI_SUPPRESSED" "rr_abs r = rr_abs (rrecord j')" "rquerier j' = Some b" "same_address a b"
        by (auto simp: clash_def)
      with none [OF j'] same_address_sym show False by (auto simp: known_to_def)
    qed
    from response_job_new_ok [OF c2(1) ok _ free, where st = AVAHI_SUPPRESSED and r = r and tv = now] obtain s3 where
      s3: "response_job_new s2 r AVAHI_SUPPRESSED now = (s3, ?i)" "resp_core (set_rjob ?i ?j s3)" "rstore s3 ?i = Some ?n"
        "set_rjob ?i ?j s3 = place ?i ?j (s2\<lparr>rfresh := Suc ?i\<rparr>)" by auto
    have "avahi_response_scheduler_suppress now s r a = Ret (set_rjob ?i ?j s3)"
      using s1(1) s2(1) None s3(1,3)
      by (simp add: avahi_response_scheduler_suppress_def set_elapse_time_ok set_rjob_def AVAHI_RESPONSE_SUPPRESS_MSEC_def)
    moreover have "known_to a ?j" by (simp add: known_to_def)
    moreover let ?s = "place ?i ?j (s2\<lparr>rfresh := Suc ?i\<rparr>)"
    have "resp_core ?s" using s3(2) by (simp only: s3(4))
    moreover have "rstore ?s i' = Some j' \<longleftrightarrow> rstore s i' = Some j' \<and> \<not> drops r a j'" if other: "rstate j' \<noteq> AVAHI_SUPPRESSED" for i' j'
    proof (cases "i' = ?i")
      case True
      have "rstore s2 ?i = None" using core_rjob [OF c2(1), of ?i] by (cases "rstore s2 ?i") auto
      with c2(4) [OF other, of ?i] kept [of ?i j'] True other show ?thesis by auto
    next
      case False
      with c2(4) [OF other, of i'] kept [of i' j'] show ?thesis by simp
    qed
    moreover have "rstore ?s ?i = Some ?j" "rstate ?j = AVAHI_SUPPRESSED" "rrecord ?j = r" "rdelivery ?j = now" by simp_all
    moreover have "rsent ?s = rsent s" using c2(2) s1(3) by simp
    ultimately show ?thesis unfolding s3(4) by blast
  qed
qed

lemma free_response_jobs_ok:
  assumes "resp_core s" "length (rlist s st) \<le> m"
  shows "\<exists>s'. free_response_jobs st m s = Ret s' \<and> resp_core s' \<and> rsent s' = rsent s \<and> rlist s' st = [] \<and>
    (\<forall>i. rstore s' i = (case rstore s i of None \<Rightarrow> None | Some j \<Rightarrow> if rstate j = st then None else Some j))"
  using assms
proof (induction m arbitrary: s)
  case 0
  then have "rstate j \<noteq> st" if "rstore s i = Some j" for i j using core_rlist [of s i st] that by auto
  with 0 show ?case by (auto simp: free_response_jobs.simps split: option.splits)
next
  case (Suc m)
  show ?case
  proof (cases "rlist s st")
    case Nil
    then have "rstate j \<noteq> st" if "rstore s i = Some j" for i j using core_rlist [OF Suc.prems(1), of i st] that by auto
    with Suc.prems Nil show ?thesis by (auto simp: free_response_jobs.simps split: option.splits)
  next
    case (Cons i l)
    with core_rlist [OF Suc.prems(1), of i st] obtain j where j: "rstore s i = Some j" "rstate j = st" by auto
    have "length (rlist (rfreed i s) st) \<le> m" using Suc.prems(2) Cons by simp
    from Suc.IH [OF core_rfreed [OF Suc.prems(1)] this] obtain s' where
      s': "free_response_jobs st m (rfreed i s) = Ret s'" "resp_core s'" "rsent s' = rsent s" "rlist s' st = []"
        "\<forall>i'. rstore s' i' = (case rstore (rfreed i s) i' of None \<Rightarrow> None | Some j \<Rightarrow> if rstate j = st then None else Some j)" by auto
    have "free_response_jobs st (Suc m) s = Ret s'"
      using Cons s'(1) response_job_free_ok [OF Suc.prems(1) j(1)] by (simp add: free_response_jobs.simps)
    moreover have "rstore s' i' = (case rstore s i' of None \<Rightarrow> None | Some j \<Rightarrow> if rstate j = st then None else Some j)" for i'
      using s'(5) j by (auto split: option.splits)
    ultimately show ?thesis using s'(2-4) by blast
  qed
qed

lemma response_clear_ok:
  assumes "resp_core s"
  shows "\<exists>s'. avahi_response_scheduler_clear s = Ret s' \<and> resp_core s' \<and> rsent s' = rsent s \<and> rstore s' = Map.empty"
proof -
  from free_response_jobs_ok [OF assms order.refl] obtain s1 where
    s1: "free_response_jobs AVAHI_SCHEDULED (length (rlist s AVAHI_SCHEDULED)) s = Ret s1" "resp_core s1" "rsent s1 = rsent s"
      "\<forall>i. rstore s1 i = (case rstore s i of None \<Rightarrow> None | Some j \<Rightarrow> if rstate j = AVAHI_SCHEDULED then None else Some j)" by blast
  from free_response_jobs_ok [OF s1(2) order.refl] obtain s2 where
    s2: "free_response_jobs AVAHI_DONE (length (rlist s1 AVAHI_DONE)) s1 = Ret s2" "resp_core s2" "rsent s2 = rsent s1"
      "\<forall>i. rstore s2 i = (case rstore s1 i of None \<Rightarrow> None | Some j \<Rightarrow> if rstate j = AVAHI_DONE then None else Some j)" by blast
  from free_response_jobs_ok [OF s2(2) order.refl] obtain s3 where
    s3: "free_response_jobs AVAHI_SUPPRESSED (length (rlist s2 AVAHI_SUPPRESSED)) s2 = Ret s3" "resp_core s3" "rsent s3 = rsent s2"
      "\<forall>i. rstore s3 i = (case rstore s2 i of None \<Rightarrow> None | Some j \<Rightarrow> if rstate j = AVAHI_SUPPRESSED then None else Some j)" by blast
  have "rstore s3 i = None" for i
  proof (cases "rstore s i")
    case (Some j)
    then show ?thesis using s1(4) s2(4) s3(4) by (cases "rstate j") simp_all
  qed (use s1(4) s2(4) s3(4) in simp)
  then have "rstore s3 = Map.empty" by blast
  with s1 s2 s3 show ?thesis by (simp add: avahi_response_scheduler_clear_def)
qed

end
