(* ===== verification/Response_Send.thy ===== *)
theory Response_Send
  imports Response_Inv
begin

text \<open>
  What the time event of a scheduled response sends, and that the loop that fills the packet ends:
  every round makes the packet longer.
\<close>

section \<open>Posting the auxiliary records\<close>

text \<open>A record is covered: it is scheduled, or a job that still counts stands against sending it.\<close>

definition covered :: "timeval \<Rightarrow> response_sched \<Rightarrow> rr \<Rightarrow> bool" where
  "covered now s r \<longleftrightarrow> (\<exists>i j. rstore s i = Some j \<and> rr_abs (rrecord j) = rr_abs r \<and> counts now j)"

text \<open>The scheduled records come from \<open>R\<close>.\<close>

definition jobs_in :: "rr set \<Rightarrow> response_sched \<Rightarrow> bool" where
  "jobs_in R s \<longleftrightarrow> (\<forall>i j. rstore s i = Some j \<longrightarrow> rstate j = AVAHI_SCHEDULED \<longrightarrow> rrecord j \<in> R)"

text \<open>Job \<open>i\<close> is no longer on the schedule and never will be again.\<close>

definition off_schedule :: "nat \<Rightarrow> response_sched \<Rightarrow> bool" where
  "off_schedule i s \<longleftrightarrow> i < rfresh s \<and> (\<forall>j. rstore s i = Some j \<longrightarrow> rstate j \<noteq> AVAHI_SCHEDULED)"

text \<open>How the state may change while a packet is filled.\<close>

definition progress :: "timeval \<Rightarrow> rr set \<Rightarrow> response_sched \<Rightarrow> response_sched \<Rightarrow> bool" where
  "progress now R s s' \<longleftrightarrow> resp_core s' \<and> rsent s' = rsent s \<and> (\<forall>r. covered now s r \<longrightarrow> covered now s' r) \<and>
     (jobs_in R s \<longrightarrow> jobs_in R s') \<and> (\<forall>i. off_schedule i s \<longrightarrow> off_schedule i s')"

lemma progress_refl: "resp_core s \<Longrightarrow> progress now R s s"
  by (simp add: progress_def)

lemma progress_trans: "progress now R s s' \<Longrightarrow> progress now R s' s'' \<Longrightarrow> progress now R s s''"
  by (simp add: progress_def)

lemma post_progress:
  assumes "resp_core s" "postable r" "querier_ok q" "normalized now" "rand_ok rnd" "r \<in> R"
  shows "\<exists>s' b. avahi_response_scheduler_post now rnd s r flush q imm = Ret (s', b) \<and> progress now R s s' \<and> covered now s' r \<and>
    (\<forall>i j. rstore s i = Some j \<longrightarrow> rstate j = AVAHI_SCHEDULED \<longrightarrow>
       (\<exists>j'. rstore s' i = Some j' \<and> rstate j' = AVAHI_SCHEDULED \<and> rr_abs (rrecord j') = rr_abs (rrecord j)))"
proof -
  from response_post_ok [OF assms(1-5), of flush imm] obtain s' b where
    s': "avahi_response_scheduler_post now rnd s r flush q imm = Ret (s', b)" "resp_core s'" "rsent s' = rsent s"
      "b \<longleftrightarrow> \<not> known_answer now s r q \<and> \<not> sent_recently now s r flush"
      "if b then scheduled_by now (usec_of now + (if imm then 0 else 120000)) r flush q s s' else forgets now (\<lambda>_. False) s s'" by blast
  show ?thesis
  proof (cases b)
    case True
    with s'(5) obtain i j where j: "rfresh s \<le> rfresh s'" "i < rfresh s \<longrightarrow> rstore s i \<noteq> None" "rstore s' i = Some j" "rstate j = AVAHI_SCHEDULED" "rrecord j = r"
        "\<forall>j0. rstore s i = Some j0 \<longrightarrow> rstate j0 = AVAHI_SCHEDULED \<and> rr_abs (rrecord j0) = rr_abs r"
      and oth: "\<forall>i'. i' \<noteq> i \<longrightarrow> rstore s' i' = rstore s i' \<or> (rstore s' i' = None \<and>
        (\<exists>j. rstore s i' = Some j \<and> rstate j \<noteq> AVAHI_SCHEDULED \<and> (counts now j \<longrightarrow> rr_abs (rrecord j) = rr_abs r)))"
      unfolding scheduled_by_def if_P [OF True] by - (elim conjE exE, rule that, (assumption | blast)+)
    note other = oth [rule_format]
    have cov: "covered now s' r" unfolding covered_def using j(3-5) by (intro exI [of _ i] exI [of _ j]) (simp add: counts_def)
    have "covered now s' r'" if r': "covered now s r'" for r'
    proof -
      from r' obtain i' j' where i': "rstore s i' = Some j'" "rr_abs (rrecord j') = rr_abs r'" "counts now j'" by (auto simp: covered_def)
      show ?thesis
      proof (cases "rstore s' i' = Some j'")
        case True
        with i' show ?thesis by (auto simp: covered_def)
      next
        case False
        with i' other [of i'] j(6) have "rr_abs r' = rr_abs r" by (cases "i' = i") auto
        with cov show ?thesis by (simp add: covered_def)
      qed
    qed
    moreover have "jobs_in R s \<Longrightarrow> jobs_in R s'"
      unfolding jobs_in_def using other j(3,5) assms(6) by (metis option.distinct(1) option.inject)
    moreover have "off_schedule i' s'" if "off_schedule i' s" for i'
      using that j(1-3,6) other [of i'] unfolding off_schedule_def by (cases "i' = i") auto
    ultimately have "progress now R s s'" using s'(2,3) by (simp add: progress_def)
    moreover have "\<exists>j''. rstore s' i' = Some j'' \<and> rstate j'' = AVAHI_SCHEDULED \<and> rr_abs (rrecord j'') = rr_abs (rrecord j')"
      if "rstore s i' = Some j'" "rstate j' = AVAHI_SCHEDULED" for i' j'
      using that other [of i'] j by (cases "i' = i") auto
    ultimately show ?thesis using s'(1) cov by blast
  next
    case False
    with s'(5) have f: "rfresh s' = rfresh s" "\<And>i. rstore s' i = rstore s i \<or>
        (rstore s' i = None \<and> (\<exists>j. rstore s i = Some j \<and> rstate j \<noteq> AVAHI_SCHEDULED \<and> \<not> counts now j))" by (auto simp: forgets_def)
    then have kept: "rstore s' i = Some j" if "rstore s i = Some j" "counts now j" for i j using that by (metis option.inject)
    have "covered now s' r" using False s'(4) kept by (auto simp: covered_def known_answer_def sent_recently_def)
    moreover have "covered now s' r'" if "covered now s r'" for r' using that kept by (auto simp: covered_def)
    moreover have "jobs_in R s \<Longrightarrow> jobs_in R s'" unfolding jobs_in_def using f by (metis option.distinct(1))
    moreover have "off_schedule i' s'" if "off_schedule i' s" for i' using that f unfolding off_schedule_def by (metis option.distinct(1))
    ultimately show ?thesis using s'(1-3) kept by (auto simp: progress_def counts_def)
  qed
qed

lemma post_aux_ok:
  assumes "resp_core s" "normalized now" "rand_ok rnd" "\<forall>(a, f) \<in> set rs. postable a \<and> a \<in> R"
    and "rstore s i = Some j" "rstate j = AVAHI_SCHEDULED"
  shows "\<exists>s' j'. post_aux now rnd i rs s = Ret s' \<and> progress now R s s' \<and> (\<forall>(a, f) \<in> set rs. covered now s' a) \<and>
    rstore s' i = Some j' \<and> rstate j' = AVAHI_SCHEDULED \<and> rr_abs (rrecord j') = rr_abs (rrecord j)"
  using assms
proof (induction rs arbitrary: s j)
  case Nil
  then show ?case by (simp add: progress_refl)
next
  case (Cons x rs)
  obtain a f where x: "x = (a, f)" by (cases x)
  have q: "querier_ok (rquerier j)" using core_rjob [OF Cons.prems(1,5)] by (auto simp: rjob_ok_def querier_ok_def split: option.splits)
  from Cons.prems(4) x have a: "postable a" "a \<in> R" by auto
  from post_progress [OF Cons.prems(1) a(1) q Cons.prems(2,3) a(2), of f False] Cons.prems(5,6) obtain s1 b j1 where
    s1: "avahi_response_scheduler_post now rnd s a f (rquerier j) False = Ret (s1, b)" "progress now R s s1" "covered now s1 a"
      "rstore s1 i = Some j1" "rstate j1 = AVAHI_SCHEDULED" "rr_abs (rrecord j1) = rr_abs (rrecord j)" by blast
  have "resp_core s1" using s1(2) by (simp add: progress_def)
  from Cons.IH [OF this Cons.prems(2,3) _ s1(4,5)] Cons.prems(4) obtain s' j' where
    s': "post_aux now rnd i rs s1 = Ret s'" "progress now R s1 s'" "\<forall>(a, f) \<in> set rs. covered now s' a"
      "rstore s' i = Some j'" "rstate j' = AVAHI_SCHEDULED" "rr_abs (rrecord j') = rr_abs (rrecord j1)" by auto
  have "covered now s' a" using s1(3) s'(2) by (simp add: progress_def)
  with s1 s' x Cons.prems(5) progress_trans [OF s1(2) s'(2)] show ?case by auto
qed

section \<open>Filling the packet\<close>

definition response_entry :: "rr \<times> bool \<Rightarrow> entry" where
  "response_entry x = Answer (fst x) (snd x) 0"

text \<open>A response being filled, and one that is sent.\<close>

definition replying :: "bool \<Rightarrow> nat \<Rightarrow> (rr \<times> bool) list \<Rightarrow> dns_packet \<Rightarrow> bool" where
  "replying sc m rs p \<longleftrightarrow> holds sc p (map response_entry rs) \<and> max_size p = m \<and>
     header p AVAHI_DNS_FIELD_FLAGS = AVAHI_DNS_FLAGS True True \<and> header p AVAHI_DNS_FIELD_QDCOUNT = 0"

definition response_packet :: "bool \<Rightarrow> nat \<Rightarrow> (rr \<times> bool) list \<Rightarrow> dns_packet \<Rightarrow> bool" where
  "response_packet sc m rs p \<longleftrightarrow> replying sc m rs p \<and> header p AVAHI_DNS_FIELD_ANCOUNT = of_nat (length rs)"

lemma replying_new:
  obtains p where "avahi_dns_packet_new_response mtu True = Ret p" "replying sc (packet_max mtu) [] p" "psize p = 12"
proof -
  have f: "AVAHI_DNS_FIELD_QDCOUNT < 6" "AVAHI_DNS_FIELD_FLAGS < 6" "AVAHI_DNS_FIELD_QDCOUNT \<noteq> AVAHI_DNS_FIELD_FLAGS"
    by (simp_all add: field_defs)
  obtain p where p: "avahi_dns_packet_set_field (avahi_dns_packet_new mtu) AVAHI_DNS_FIELD_FLAGS (AVAHI_DNS_FLAGS True True) = Ret p"
    "holds sc p []" "psize p = 12" "max_size p = packet_max mtu"
    "\<And>k. k < 6 \<Longrightarrow> header p k = (if k = AVAHI_DNS_FIELD_FLAGS then AVAHI_DNS_FLAGS True True else 0)"
    by (rule holds_new [where mtu = mtu and v = "AVAHI_DNS_FLAGS True True" and sc = sc]) blast
  show thesis
    by (rule that [of p]) (simp_all add: avahi_dns_packet_new_response_def replying_def p(1-4) p(5) [OF f(1)] p(5) [OF f(2)] f(3))
qed

lemma replying_append:
  assumes "replying sc m rs p" "sent_record r"
  obtains p' x where "avahi_dns_packet_append_record sc p r f 0 = Ret (p', x)"
    "if x = None then replying sc m rs p' \<and> psize p' = psize p \<and> m < psize p + record_room r
     else replying sc m (rs @ [(r, f)]) p' \<and> psize p < psize p'"
proof -
  have h: "holds sc p (map response_entry rs)" using assms(1) by (simp add: replying_def)
  from append_record_holds [OF h assms(2), where f = f and m = 0] obtain p' x where
    x: "avahi_dns_packet_append_record sc p r f 0 = Ret (p', x)" "\<And>k. k < 6 \<Longrightarrow> header p' k = header p k" "max_size p' = max_size p"
      "case x of None \<Rightarrow> holds sc p' (map response_entry rs) \<and> psize p' = psize p \<and> max_size p < psize p + record_room r
       | Some i \<Rightarrow> holds sc p' (map response_entry rs @ [Answer r f 0]) \<and> psize p < psize p' \<and> psize p' \<le> psize p + record_room r"
    by blast
  have "header p' AVAHI_DNS_FIELD_QDCOUNT = header p AVAHI_DNS_FIELD_QDCOUNT" "header p' AVAHI_DNS_FIELD_FLAGS = header p AVAHI_DNS_FIELD_FLAGS"
    using x(2) by (simp_all add: field_defs)
  with x(1,3,4) assms(1) show thesis
    by (intro that [of p' x]) (auto simp: replying_def response_entry_def split: option.splits)
qed

lemma replying_size: "replying sc m rs p \<Longrightarrow> 12 \<le> psize p \<and> psize p \<le> m"
  using holds_size by (auto simp: replying_def)

lemma send_response_ok:
  assumes "replying sc m rs p"
  obtains q where "send_response p (length rs) s = Ret (s\<lparr>rsent := rsent s @ [q]\<rparr>)" "response_packet sc m rs q"
proof -
  have h: "holds sc p (map response_entry rs)" using assms(1) by (simp add: replying_def)
  from set_field_holds [OF h, of AVAHI_DNS_FIELD_ANCOUNT "of_nat (length rs)"] obtain q where
    "avahi_dns_packet_set_field p AVAHI_DNS_FIELD_ANCOUNT (of_nat (length rs)) = Ret q" "holds sc q (map response_entry rs)"
    "max_size q = max_size p" "\<And>k. k < 6 \<Longrightarrow> header q k = (if k = AVAHI_DNS_FIELD_ANCOUNT then of_nat (length rs) else header p k)"
    by (auto simp: field_defs)
  with assms show thesis by (intro that [of q]) (auto simp: send_response_def replying_def response_packet_def field_defs)
qed

text \<open>The auxiliary records of records from \<open>R\<close> may be posted and are in \<open>R\<close> as well.\<close>

definition aux_closed :: "(rr \<Rightarrow> (rr \<times> bool) list) \<Rightarrow> rr set \<Rightarrow> bool" where
  "aux_closed aux R \<longleftrightarrow> (\<forall>r \<in> R. \<forall>(a, f) \<in> set (aux r). postable a \<and> a \<in> R)"

definition aux_covered :: "(rr \<Rightarrow> (rr \<times> bool) list) \<Rightarrow> timeval \<Rightarrow> response_sched \<Rightarrow> (rr \<times> bool) list \<Rightarrow> bool" where
  "aux_covered aux now s rs \<longleftrightarrow> (\<forall>(r, f) \<in> set rs. covered now s r \<and> (\<forall>(a, g) \<in> set (aux r). covered now s a))"

lemma aux_covered_progress: "aux_covered aux now s rs \<Longrightarrow> progress now R s s' \<Longrightarrow> aux_covered aux now s' rs"
  unfolding aux_covered_def progress_def by fastforce

lemma mark_done_progress:
  assumes "resp_core s" "rstore s i = Some j" "rstate j = AVAHI_SCHEDULED" "normalized now"
  shows "progress now R s (place i (rdone now j) s)" "covered now (place i (rdone now j) s) (rrecord j)" "off_schedule i (place i (rdone now j) s)"
proof -
  have c: "counts now (rdone now j)" by (simp add: counts_def)
  have "covered now (place i (rdone now j) s) r" if "covered now s r" for r
  proof -
    from that obtain i' j' where "rstore s i' = Some j'" "rr_abs (rrecord j') = rr_abs r" "counts now j'" by (auto simp: covered_def)
    with assms(2) c show ?thesis unfolding covered_def
      by (intro exI [of _ i'] exI [of _ "if i' = i then rdone now j else j'"]) auto
  qed
  moreover have "jobs_in R s \<Longrightarrow> jobs_in R (place i (rdone now j) s)" by (auto simp: jobs_in_def)
  moreover have "off_schedule i' s \<Longrightarrow> off_schedule i' (place i (rdone now j) s)" for i' by (auto simp: off_schedule_def)
  ultimately show "progress now R s (place i (rdone now j) s)"
    using response_job_mark_done_ok(2) [OF assms] by (simp add: progress_def)
  show "covered now (place i (rdone now j) s) (rrecord j)" unfolding covered_def using c by (intro exI [of _ i] exI [of _ "rdone now j"]) simp
  show "off_schedule i (place i (rdone now j) s)" using core_rjob [OF assms(1,2)] by (simp add: off_schedule_def)
qed

lemma add_response_ok:
  assumes "resp_core s" "rstore s i = Some j" "rstate j = AVAHI_SCHEDULED" "normalized now" "rand_ok rnd"
    and "replying sc m rs p" "jobs_in R s" "aux_closed aux R"
  shows "\<exists>s' p' b. packet_add_response_job sc aux now rnd s p i = Ret (s', p', b) \<and>
    (if b then replying sc m (rs @ [(rrecord j, rflush j)]) p' \<and> psize p < psize p' \<and> progress now R s s' \<and>
       aux_covered aux now s' [(rrecord j, rflush j)] \<and> off_schedule i s'
     else s' = s \<and> replying sc m rs p' \<and> m < psize p + record_room (rrecord j))"
proof -
  have jok: "rjob_ok j" "sent_record (rrecord j)" using core_rjob [OF assms(1,2)] assms(3) by (auto simp: rjob_ok_def)
  from replying_append [OF assms(6) jok(2), where f = "rflush j"] obtain p' x where
    x: "avahi_dns_packet_append_record sc p (rrecord j) (rflush j) 0 = Ret (p', x)"
      "if x = None then replying sc m rs p' \<and> psize p' = psize p \<and> m < psize p + record_room (rrecord j)
       else replying sc m (rs @ [(rrecord j, rflush j)]) p' \<and> psize p < psize p'" by blast
  show ?thesis
  proof (cases "x = None")
    case True
    with x assms(2) show ?thesis by (intro exI [of _ s] exI [of _ p'] exI [of _ False]) (simp add: packet_add_response_job_def)
  next
    case False
    have "rrecord j \<in> R" using assms(2,3,7) by (auto simp: jobs_in_def)
    with assms(8) have aux: "\<forall>(a, f) \<in> set (aux (rrecord j)). postable a \<and> a \<in> R" by (auto simp: aux_closed_def)
    from post_aux_ok [OF assms(1,4,5) aux assms(2,3)] obtain s1 j1 where
      s1: "post_aux now rnd i (aux (rrecord j)) s = Ret s1" "progress now R s s1" "\<forall>(a, f) \<in> set (aux (rrecord j)). covered now s1 a"
        "rstore s1 i = Some j1" "rstate j1 = AVAHI_SCHEDULED" "rr_abs (rrecord j1) = rr_abs (rrecord j)" by blast
    have core: "resp_core s1" using s1(2) by (simp add: progress_def)
    let ?s = "place i (rdone now j1) s1"
    note dn = mark_done_progress(1) [OF core s1(4,5) assms(4), of R] mark_done_progress(2,3) [OF core s1(4,5) assms(4)]
    have "packet_add_response_job sc aux now rnd s p i = Ret (?s, p', True)"
      using assms(2) x(1) False s1(1) response_job_mark_done_ok(1) [OF core s1(4,5) assms(4)] by (simp add: packet_add_response_job_def)
    moreover have "covered now ?s (rrecord j)" using dn(2) s1(6) by (simp add: covered_def)
    moreover have "\<forall>(a, f) \<in> set (aux (rrecord j)). covered now ?s a" using dn(1) s1(3) by (auto simp: progress_def)
    then have "aux_covered aux now ?s [(rrecord j, rflush j)]" using calculation(2) by (auto simp: aux_covered_def)
    moreover note this
    ultimately show ?thesis using x(2) False dn(3) progress_trans [OF s1(2) dn(1)]
      by (intro exI [of _ ?s] exI [of _ p'] exI [of _ True]) simp
  qed
qed

text \<open>The loop ends because its packet grows; what is left on the schedule does not fit.\<close>

lemma add_responses_ok:
  assumes "resp_core s" "normalized now" "rand_ok rnd" "replying sc m rs p" "jobs_in R s" "aux_closed aux R" "m < psize p + k"
    and "aux_covered aux now s rs" "fst ` set rs \<subseteq> R"
  shows "\<exists>s' p' rs'. add_response_jobs sc aux now rnd k s p (length rs) = Ret (s', p', length rs') \<and> (\<exists>more. rs' = rs @ more) \<and>
    replying sc m rs' p' \<and> progress now R s s' \<and> aux_covered aux now s' rs' \<and> fst ` set rs' \<subseteq> R"
  using assms(1,4,5,7-9)
proof (induction k arbitrary: s p rs)
  case 0
  then show ?case using replying_size [of sc m rs p] by simp
next
  case (Suc k)
  show ?case
  proof (cases "rlist s AVAHI_SCHEDULED")
    case Nil
    then have "add_response_jobs sc aux now rnd (Suc k) s p (length rs) = Ret (s, p, length rs)" by (simp add: add_response_jobs.simps)
    with Suc.prems show ?thesis using progress_refl by (intro exI [of _ s] exI [of _ p] exI [of _ rs]) simp
  next
    case (Cons i l)
    with core_rlist [OF Suc.prems(1), of i AVAHI_SCHEDULED] obtain j where j: "rstore s i = Some j" "rstate j = AVAHI_SCHEDULED" by auto
    from add_response_ok [OF Suc.prems(1) j assms(2,3) Suc.prems(2,3) assms(6)] obtain s1 p1 b where
      s1: "packet_add_response_job sc aux now rnd s p i = Ret (s1, p1, b)"
        "if b then replying sc m (rs @ [(rrecord j, rflush j)]) p1 \<and> psize p < psize p1 \<and> progress now R s s1 \<and>
           aux_covered aux now s1 [(rrecord j, rflush j)] \<and> off_schedule i s1
         else s1 = s \<and> replying sc m rs p1 \<and> m < psize p + record_room (rrecord j)" by blast
    show ?thesis
    proof (cases b)
      case False
      with Cons s1 Suc.prems(2) have "add_response_jobs sc aux now rnd (Suc k) s p (length rs) = Ret (s, p1, length rs)"
        by (simp add: add_response_jobs.simps)
      moreover have "replying sc m rs p1" using s1(2) False by simp
      ultimately show ?thesis using Suc.prems progress_refl by (intro exI [of _ s] exI [of _ p1] exI [of _ rs]) simp
    next
      case True
      let ?rs = "rs @ [(rrecord j, rflush j)]"
      from True s1(2) have a: "replying sc m ?rs p1" "psize p < psize p1" "progress now R s s1" "aux_covered aux now s1 [(rrecord j, rflush j)]"
        by auto
      have "resp_core s1" "jobs_in R s1" using a(3) Suc.prems(3) by (auto simp: progress_def)
      moreover have "aux_covered aux now s1 ?rs"
        using aux_covered_progress [OF Suc.prems(5) a(3)] a(4) by (auto simp: aux_covered_def)
      moreover have "fst ` set ?rs \<subseteq> R" using Suc.prems(3,6) j by (auto simp: jobs_in_def)
      moreover have "m < psize p1 + k" using Suc.prems(4) a(2) by simp
      ultimately obtain s' p' rs' where
        "add_response_jobs sc aux now rnd k s1 p1 (length ?rs) = Ret (s', p', length rs')" "\<exists>more. rs' = ?rs @ more"
        "replying sc m rs' p'" "progress now R s1 s'" "aux_covered aux now s' rs'" "fst ` set rs' \<subseteq> R"
        using Suc.IH [of s1 ?rs p1] a(1) by blast
      moreover have "add_response_jobs sc aux now rnd (Suc k) s p (length rs) = add_response_jobs sc aux now rnd k s1 p1 (length ?rs)"
        using Cons s1(1) True by (subst add_response_jobs.simps) simp
      ultimately show ?thesis using progress_trans [OF a(3)] by (intro exI [of _ s'] exI [of _ p'] exI [of _ rs']) auto
    qed
  qed
qed

section \<open>The time event\<close>

text \<open>
  What sending job \<open>i\<close> does: the records \<open>rs\<close> in one packet of at most \<open>m\<close> bytes, or nothing, when
  the record does not even fit into a packet made for it.
\<close>

definition responded ::
  "bool \<Rightarrow> (rr \<Rightarrow> (rr \<times> bool) list) \<Rightarrow> nat \<Rightarrow> timeval \<Rightarrow> rr set \<Rightarrow> response_sched \<Rightarrow> nat \<Rightarrow> rjob \<Rightarrow> response_sched \<Rightarrow> bool" where
  "responded sc aux mtu now R s i j s' \<longleftrightarrow> resp_core s' \<and> jobs_in R s' \<and> off_schedule i s' \<and>
     ((\<exists>p more. rsent s' = rsent s @ [p] \<and> aux_covered aux now s' ((rrecord j, rflush j) # more) \<and> fst ` set more \<subseteq> R \<and>
         (\<exists>m. response_packet sc m ((rrecord j, rflush j) # more) p \<and> (m = packet_max mtu \<or> more = []))) \<or>
      (rsent s' = rsent s \<and> s' = place i (rdone now j) s \<and> packet_max mtu < 12 + record_room (rrecord j)))"

lemma rsent_update_core: "resp_core (s\<lparr>rsent := x\<rparr>) = resp_core s"
  by (simp add: resp_core_def)

lemma rsent_update_props [simp]:
  "jobs_in R (s\<lparr>rsent := x\<rparr>) = jobs_in R s" "off_schedule i (s\<lparr>rsent := x\<rparr>) = off_schedule i s"
  "aux_covered aux now (s\<lparr>rsent := x\<rparr>) rs = aux_covered aux now s rs"
  by (simp_all add: jobs_in_def off_schedule_def aux_covered_def covered_def)

lemma responded_sent:
  assumes "progress now R s s2" "jobs_in R s" "off_schedule i s2" "aux_covered aux now s2 ((rrecord j, rflush j) # others)"
    and "fst ` set others \<subseteq> R" "response_packet sc m ((rrecord j, rflush j) # others) q" "m = packet_max mtu \<or> others = []"
  shows "responded sc aux mtu now R s i j (s2\<lparr>rsent := rsent s2 @ [q]\<rparr>)"
proof -
  have "resp_core s2" "jobs_in R s2" "rsent s2 = rsent s" using assms(1,2) by (simp_all add: progress_def)
  moreover have "\<exists>m. response_packet sc m ((rrecord j, rflush j) # others) q \<and> (m = packet_max mtu \<or> others = [])"
    using assms(6,7) by blast
  ultimately show ?thesis unfolding responded_def rsent_update_props
    using assms(3-5) by (intro conjI disjI1 exI [of _ q] exI [of _ others]) (simp_all add: rsent_update_core)
qed

lemma send_response_packet_ok:
  assumes "resp_core s" "rstore s i = Some j" "rstate j = AVAHI_SCHEDULED" "normalized now" "rand_ok rnd"
    and "jobs_in R s" "aux_closed aux R"
  shows "\<exists>s'. send_response_packet sc aux mtu now rnd s i = Ret s' \<and> responded sc aux mtu now R s i j s'"
proof -
  obtain p0 where p0: "avahi_dns_packet_new_response mtu True = Ret p0" "replying sc (packet_max mtu) [] p0" "psize p0 = 12"
    using replying_new by blast
  from add_response_ok [OF assms(1-5) p0(2) assms(6,7)] obtain s1 p1 b where
    s1: "packet_add_response_job sc aux now rnd s p0 i = Ret (s1, p1, b)"
      "if b then replying sc (packet_max mtu) ([] @ [(rrecord j, rflush j)]) p1 \<and> psize p0 < psize p1 \<and> progress now R s s1 \<and>
         aux_covered aux now s1 [(rrecord j, rflush j)] \<and> off_schedule i s1
       else s1 = s \<and> replying sc (packet_max mtu) [] p1 \<and> packet_max mtu < psize p0 + record_room (rrecord j)" by blast
  have R: "rrecord j \<in> R" using assms(2,3,6) by (auto simp: jobs_in_def)
  show ?thesis
  proof (cases b)
    case True
    with s1(2) have a: "replying sc (packet_max mtu) [(rrecord j, rflush j)] p1" "progress now R s s1"
      "aux_covered aux now s1 [(rrecord j, rflush j)]" "off_schedule i s1" by auto
    have m: "max_size p1 = packet_max mtu" "12 \<le> psize p1"
      using a(1) replying_size [OF a(1)] by (auto simp: replying_def)
    have c: "resp_core s1" "jobs_in R s1" "packet_max mtu < psize p1 + max_size p1" "fst ` set [(rrecord j, rflush j)] \<subseteq> R"
      using a(2) assms(6) R m by (auto simp: progress_def)
    from add_responses_ok [OF c(1) assms(4,5) a(1) c(2) assms(7) c(3) a(3) c(4)] obtain s2 p2 rs others where
      s2: "add_response_jobs sc aux now rnd (max_size p1) s1 p1 1 = Ret (s2, p2, length rs)" "rs = (rrecord j, rflush j) # others"
        "replying sc (packet_max mtu) rs p2" "progress now R s1 s2" "aux_covered aux now s2 rs" "fst ` set rs \<subseteq> R"
      by auto
    obtain q where q: "send_response p2 (length rs) s2 = Ret (s2\<lparr>rsent := rsent s2 @ [q]\<rparr>)" "response_packet sc (packet_max mtu) rs q"
      using send_response_ok [OF s2(3)] by blast
    let ?s = "s2\<lparr>rsent := rsent s2 @ [q]\<rparr>"
    have "send_response_packet sc aux mtu now rnd s i = Ret ?s"
      unfolding send_response_packet_def p0(1) res_bind.simps s1(1) prod.case s2(1) q(1) using True by simp
    moreover have "fst ` set others \<subseteq> R" using s2(2,6) by auto
    moreover have "off_schedule i s2" using a(4) s2(4) by (simp add: progress_def)
    ultimately show ?thesis
      using responded_sent [OF progress_trans [OF a(2) s2(4)] assms(6), of i aux j others sc "packet_max mtu" q mtu] s2(5) q(2) unfolding s2(2) by blast
  next
    case False
    with s1(2) p0(3) have a: "s1 = s" "packet_max mtu < 12 + record_room (rrecord j)" by auto
    have "sent_record (rrecord j)" using core_rjob [OF assms(1,2)] assms(3) by (simp add: rjob_ok_def)
    from estimate_room [OF this] obtain size where size: "avahi_record_get_estimate_size (rrecord j) = Ret size" by blast
    let ?mtu = "size + AVAHI_DNS_PACKET_HEADER_SIZE + AVAHI_DNS_PACKET_EXTRA_SIZE"
    obtain p2 where p2: "avahi_dns_packet_new_response ?mtu True = Ret p2" "replying sc (packet_max ?mtu) [] p2" using replying_new by blast
    from add_response_ok [OF assms(1-5) p2(2) assms(6,7)] obtain s3 p3 c where
      s3: "packet_add_response_job sc aux now rnd s p2 i = Ret (s3, p3, c)"
        "if c then replying sc (packet_max ?mtu) ([] @ [(rrecord j, rflush j)]) p3 \<and> psize p2 < psize p3 \<and> progress now R s s3 \<and>
           aux_covered aux now s3 [(rrecord j, rflush j)] \<and> off_schedule i s3
         else s3 = s \<and> replying sc (packet_max ?mtu) [] p3 \<and> packet_max ?mtu < psize p2 + record_room (rrecord j)" by blast
    have send: "send_response_packet sc aux mtu now rnd s i = (if c then send_response p3 1 s3 else response_job_mark_done now s3 i)"
      unfolding send_response_packet_def p0(1) res_bind.simps s1(1) prod.case a(1) assms(2) option.case size p2(1) s3(1)
      using False by simp
    show ?thesis
    proof (cases c)
      case True
      with s3(2) have b: "replying sc (packet_max ?mtu) [(rrecord j, rflush j)] p3" "progress now R s s3"
        "aux_covered aux now s3 [(rrecord j, rflush j)]" "off_schedule i s3" by auto
      obtain q where q: "send_response p3 (length [(rrecord j, rflush j)]) s3 = Ret (s3\<lparr>rsent := rsent s3 @ [q]\<rparr>)"
        "response_packet sc (packet_max ?mtu) [(rrecord j, rflush j)] q"
        using send_response_ok [OF b(1)] by blast
      let ?s = "s3\<lparr>rsent := rsent s3 @ [q]\<rparr>"
      have "send_response_packet sc aux mtu now rnd s i = Ret ?s" using send True q(1) by simp
      then show ?thesis using responded_sent [OF b(2) assms(6) b(4,3) _ q(2)] by auto
    next
      case False
      with s3(2) have "s3 = s" by simp
      with send False response_job_mark_done_ok [OF assms(1-4)] mark_done_progress(1) [OF assms(1-4), of R]
        mark_done_progress(3) [OF assms(1-4)] a(2) assms(6)
      show ?thesis by (auto simp: responded_def progress_def)
    qed
  qed
qed

lemma force_ok:
  assumes "resp_core s" "normalized now" "rand_ok rnd" "jobs_in R s" "aux_closed aux R"
  shows "\<exists>s'. avahi_response_scheduler_force sc aux mtu now rnd k s = Ret s' \<and> resp_core s' \<and> jobs_in R s'"
  using assms(1,4)
proof (induction k arbitrary: s)
  case (Suc k)
  show ?case
  proof (cases "rlist s AVAHI_SCHEDULED")
    case (Cons i l)
    with core_rlist [OF Suc.prems(1), of i AVAHI_SCHEDULED] obtain j where j: "rstore s i = Some j" "rstate j = AVAHI_SCHEDULED" by auto
    from send_response_packet_ok [OF Suc.prems(1) j assms(2,3) Suc.prems(2) assms(5), of sc mtu] obtain s1 where
      "send_response_packet sc aux mtu now rnd s i = Ret s1" "resp_core s1" "jobs_in R s1" by (auto simp: responded_def)
    with Cons Suc.IH [of s1] show ?thesis by simp
  qed (use Suc.prems in simp)
qed simp

end
