(* ===== verification/Response_Properties.thy ===== *)
theory Response_Properties
  imports Response_Send Cache_Properties
begin

text \<open>The properties of the response scheduler, over all sequences of operations.\<close>

section \<open>What happens to a scheduler\<close>

type_synonym aux_records = "rr \<Rightarrow> (rr \<times> bool) list"

datatype response_op =
    Response_post timeval int rr bool "address option" bool
  | Response_incoming timeval rr bool
  | Response_suppress timeval rr address
  | Response_clear
  | Response_elapse aux_records nat timeval int nat
  | Response_force aux_records nat timeval int nat

fun response_do :: "bool \<Rightarrow> response_op \<Rightarrow> response_sched \<Rightarrow> response_sched res" where
  "response_do sc (Response_post now rnd r flush q imm) s = res_map fst (avahi_response_scheduler_post now rnd s r flush q imm)"
| "response_do sc (Response_incoming now r flush) s = avahi_response_scheduler_incoming now s r flush"
| "response_do sc (Response_suppress now r a) s = avahi_response_scheduler_suppress now s r a"
| "response_do sc Response_clear s = avahi_response_scheduler_clear s"
| "response_do sc (Response_elapse aux mtu now rnd i) s = response_elapse_callback sc aux mtu now rnd s i"
| "response_do sc (Response_force aux mtu now rnd k) s = avahi_response_scheduler_force sc aux mtu now rnd k s"

text \<open>
  The clock is normalised and random numbers are in range; records that are posted are no patterns
  and have names that can be sent, and so have the auxiliary records of such records; time events
  fire for jobs in memory.
\<close>

fun response_op_ok :: "response_sched \<Rightarrow> response_op \<Rightarrow> bool" where
  "response_op_ok s (Response_post now rnd r flush q imm) \<longleftrightarrow> normalized now \<and> rand_ok rnd \<and> postable r \<and> querier_ok q"
| "response_op_ok s (Response_incoming now r flush) \<longleftrightarrow> normalized now \<and> rr_ok r"
| "response_op_ok s (Response_suppress now r a) \<longleftrightarrow> normalized now \<and> rr_ok r \<and> address_ok a"
| "response_op_ok s Response_clear \<longleftrightarrow> True"
| "response_op_ok s (Response_elapse aux mtu now rnd i) \<longleftrightarrow>
     normalized now \<and> rand_ok rnd \<and> aux_closed aux (Collect postable) \<and> rstore s i \<noteq> None"
| "response_op_ok s (Response_force aux mtu now rnd k) \<longleftrightarrow> normalized now \<and> rand_ok rnd \<and> aux_closed aux (Collect postable)"

inductive response_reachable :: "bool \<Rightarrow> response_sched \<Rightarrow> bool" for sc where
  response_new: "rand_ok (last_rand js) \<Longrightarrow> response_reachable sc (avahi_response_scheduler_new js)"
| response_step: "response_reachable sc s \<Longrightarrow> response_op_ok s x \<Longrightarrow> response_do sc x s = Ret s' \<Longrightarrow> response_reachable sc s'"

definition response_inv :: "response_sched \<Rightarrow> bool" where
  "response_inv s \<longleftrightarrow> resp_core s \<and> jobs_in (Collect postable) s"

lemma jobs_in_kept:
  assumes "jobs_in R s" "\<And>i j. rstore s' i = Some j \<Longrightarrow> rstate j = AVAHI_SCHEDULED \<Longrightarrow> rstore s i = Some j"
  shows "jobs_in R s'"
  using assms unfolding jobs_in_def by blast

lemma incoming_jobs:
  assumes "resp_core s" "rr_ok r" "normalized now" "avahi_response_scheduler_incoming now s r flush = Ret s'" "jobs_in R s"
  shows "jobs_in R s'"
proof (cases "\<exists>i j. rstore s i = Some j \<and> rstate j = AVAHI_SCHEDULED \<and> rr_abs (rrecord j) = rr_abs r")
  case True
  then obtain i j where j: "rstore s i = Some j" "rstate j = AVAHI_SCHEDULED" "rr_abs (rrecord j) = rr_abs r" by blast
  with incoming_scheduled [OF assms(1-3) j, of flush] mark_done_progress(1) [OF assms(1) j(1,2) assms(3), of R] assms(4,5)
  show ?thesis by (auto simp: progress_def split: if_splits)
next
  case False
  with incoming_unscheduled [OF assms(1-3), of flush] assms(4)
  have "\<forall>i j. rstore s' i = Some j \<longrightarrow> rstate j = AVAHI_SCHEDULED \<longrightarrow> rstore s i = Some j" by auto
  with jobs_in_kept [OF assms(5)] show ?thesis by blast
qed

lemma elapse_unscheduled:
  assumes "resp_core s" "rstore s i = Some j" "rstate j \<noteq> AVAHI_SCHEDULED"
  shows "response_elapse_callback sc aux mtu now rnd s i = Ret (rfreed i s)"
  using assms(2,3) response_job_free_ok [OF assms(1,2)] by (cases "rstate j") (simp_all add: response_elapse_callback_def)

lemma elapse_scheduled_response:
  assumes "rstore s i = Some j" "rstate j = AVAHI_SCHEDULED"
  shows "response_elapse_callback sc aux mtu now rnd s i = send_response_packet sc aux mtu now rnd s i"
  using assms by (simp add: response_elapse_callback_def)

lemma response_do_ok:
  assumes "response_inv s" "response_op_ok s x"
  shows "\<exists>s'. response_do sc x s = Ret s' \<and> response_inv s'"
proof -
  have core: "resp_core s" and jobs: "jobs_in (Collect postable) s" using assms(1) by (auto simp: response_inv_def)
  show ?thesis
  proof (cases x)
    case (Response_post now rnd r flush q imm)
    with assms(2) post_progress [OF core, of r q now rnd "Collect postable" flush imm] jobs
    show ?thesis by (auto simp: progress_def response_inv_def)
  next
    case (Response_incoming now r flush)
    with assms(2) incoming_core [OF core, of r now flush] incoming_jobs [OF core, of r now flush] jobs
    show ?thesis by (auto simp: response_inv_def)
  next
    case (Response_suppress now r a)
    with assms(2) suppress_ok [OF core, of r a now] obtain s' where s': "avahi_response_scheduler_suppress now s r a = Ret s'" "resp_core s'"
      "\<forall>i j. rstate j \<noteq> AVAHI_SUPPRESSED \<longrightarrow> (rstore s' i = Some j \<longleftrightarrow> rstore s i = Some j \<and> \<not> drops r a j)" by auto
    have "jobs_in (Collect postable) s'" using s'(3) by (intro jobs_in_kept [OF jobs]) auto
    with s' Response_suppress show ?thesis by (simp add: response_inv_def)
  next
    case Response_clear
    with response_clear_ok [OF core] show ?thesis by (auto simp: response_inv_def jobs_in_def)
  next
    case (Response_elapse aux mtu now rnd i)
    with assms(2) obtain j where j: "rstore s i = Some j" and ok: "normalized now" "rand_ok rnd" "aux_closed aux (Collect postable)" by auto
    show ?thesis
    proof (cases "rstate j = AVAHI_SCHEDULED")
      case True
      from send_response_packet_ok [OF core j True ok(1,2) jobs ok(3), of sc mtu] obtain s' where
        "send_response_packet sc aux mtu now rnd s i = Ret s'" "resp_core s'" "jobs_in (Collect postable) s'"
        unfolding responded_def by blast
      then show ?thesis by (simp add: Response_elapse elapse_scheduled_response [OF j True] response_inv_def)
    next
      case False
      have "jobs_in (Collect postable) (rfreed i s)" by (rule jobs_in_kept [OF jobs]) (simp split: if_splits)
      with elapse_unscheduled [OF core j False] core_rfreed [OF core] Response_elapse show ?thesis by (simp add: response_inv_def)
    qed
  next
    case (Response_force aux mtu now rnd k)
    with assms(2) force_ok [OF core _ _ jobs] show ?thesis by (simp add: response_inv_def)
  qed
qed

lemma response_reachable_inv: "response_reachable sc s \<Longrightarrow> response_inv s"
proof (induction rule: response_reachable.induct)
  case (response_new js)
  then show ?case using resp_core_new by (simp add: response_inv_def jobs_in_def) (simp add: avahi_response_scheduler_new_def)
next
  case (response_step s x s')
  with response_do_ok [OF response_step.IH response_step.hyps(2), of sc] show ?case by simp
qed

section \<open>Properties\<close>

text \<open>
  Property C20. Whatever is posted, heard, suppressed and sent, in whatever order, no operation of the
  response scheduler crashes. In every state one job at most is scheduled or done for a record and
  one at most suppresses it for a querier; the lists hold the jobs of their state without repetition;
  the time event of a scheduled job is set for its delivery, that of a done one 500 milliseconds and
  that of a suppression 700 milliseconds after it, so that each is sent or forgotten in time.
\<close>

theorem response_scheduler_invariant:
  assumes "response_reachable sc s" "response_op_ok s x"
  shows "(\<exists>s'. response_do sc x s = Ret s' \<and> response_reachable sc s') \<and>
    (\<forall>i i' j j'. rstore s i = Some j \<and> rstore s i' = Some j' \<and> rr_abs (rrecord j) = rr_abs (rrecord j') \<and>
       (if rstate j = AVAHI_SUPPRESSED then rstate j' = AVAHI_SUPPRESSED \<and> rquerier j = rquerier j' else rstate j' \<noteq> AVAHI_SUPPRESSED)
       \<longrightarrow> i = i') \<and>
    (\<forall>st. distinct (rlist s st)) \<and>
    (\<forall>i j. rstore s i = Some j \<longrightarrow> i \<in> set (rlist s (rstate j)) \<and>
       rtime_event j = Some (elapse_after (rdelivery j)
         (case rstate j of AVAHI_SCHEDULED \<Rightarrow> 0 | AVAHI_DONE \<Rightarrow> AVAHI_RESPONSE_HISTORY_MSEC
          | AVAHI_SUPPRESSED \<Rightarrow> AVAHI_RESPONSE_SUPPRESS_MSEC)))"
proof -
  have inv: "response_inv s" using assms(1) by (rule response_reachable_inv)
  then have core: "resp_core s" by (simp add: response_inv_def)
  have "clash j j'" if "rstore s i = Some j" "rstore s i' = Some j'" "rr_abs (rrecord j) = rr_abs (rrecord j')"
      "if rstate j = AVAHI_SUPPRESSED then rstate j' = AVAHI_SUPPRESSED \<and> rquerier j = rquerier j' else rstate j' \<noteq> AVAHI_SUPPRESSED"
    for i i' j j'
    using that core_rjob [OF core that(1)] by (auto simp: clash_def rjob_ok_def split: option.splits if_splits)
  with core_clash [OF core] have "\<forall>i i' j j'. rstore s i = Some j \<and> rstore s i' = Some j' \<and> rr_abs (rrecord j) = rr_abs (rrecord j') \<and>
       (if rstate j = AVAHI_SUPPRESSED then rstate j' = AVAHI_SUPPRESSED \<and> rquerier j = rquerier j' else rstate j' \<noteq> AVAHI_SUPPRESSED)
       \<longrightarrow> i = i'" by blast
  moreover have "\<forall>i j. rstore s i = Some j \<longrightarrow> i \<in> set (rlist s (rstate j)) \<and>
       rtime_event j = Some (elapse_after (rdelivery j)
         (case rstate j of AVAHI_SCHEDULED \<Rightarrow> 0 | AVAHI_DONE \<Rightarrow> AVAHI_RESPONSE_HISTORY_MSEC
          | AVAHI_SUPPRESSED \<Rightarrow> AVAHI_RESPONSE_SUPPRESS_MSEC))"
  proof (intro allI impI)
    fix i j assume j: "rstore s i = Some j"
    have "lasts (rstate j) = (case rstate j of AVAHI_SCHEDULED \<Rightarrow> 0 | AVAHI_DONE \<Rightarrow> AVAHI_RESPONSE_HISTORY_MSEC
          | AVAHI_SUPPRESSED \<Rightarrow> AVAHI_RESPONSE_SUPPRESS_MSEC)" by (cases "rstate j") (simp_all add: lasts_def)
    then show "i \<in> set (rlist s (rstate j)) \<and> rtime_event j = Some (elapse_after (rdelivery j)
         (case rstate j of AVAHI_SCHEDULED \<Rightarrow> 0 | AVAHI_DONE \<Rightarrow> AVAHI_RESPONSE_HISTORY_MSEC
          | AVAHI_SUPPRESSED \<Rightarrow> AVAHI_RESPONSE_SUPPRESS_MSEC))"
      using j core_rjob [OF core j] core_rlist [OF core] by (auto simp: rjob_ok_def)
  qed
  moreover have "\<forall>st. distinct (rlist s st)" using core by (simp add: resp_core_def)
  ultimately show ?thesis using response_do_ok [OF inv assms(2)] response_step [OF assms] by blast
qed

definition example_response_sched :: response_sched where
  "example_response_sched = avahi_response_scheduler_new \<lparr>last_rand = 0, timestamp = 0\<rparr>"


lemma example_postable:
  "postable (example_record ''a.local'' 120)" "normalized (example_time 100)" "rand_ok 0" "querier_ok None"
  by code_simp+

lemma example_post_ok: "response_op_ok example_response_sched (Response_post (example_time 100) 0 (example_record ''a.local'' 120) True None True)"
  using example_postable by simp

lemma example_response_reachable: "response_reachable True example_response_sched"
  unfolding example_response_sched_def by (rule response_new) (simp add: rand_ok_def RAND_MAX_def)

lemma response_scheduler_invariant_witness:
  "\<exists>s'. response_do True (Response_post (example_time 100) 0 (example_record ''a.local'' 120) True None True) example_response_sched = Ret s' \<and>
    response_reachable True s'"
  using response_scheduler_invariant [OF example_response_reachable example_post_ok] by blast

text \<open>
  Property C22. A response that is posted is not scheduled when the querier has shown within the last
  700 milliseconds that it knows the record, or when it has been sent or seen within the last 500
  milliseconds, with a lifetime at least half as long and with the flush bit if that is asked for;
  then the schedule stays as it is. Otherwise it is scheduled for at once or for at most 120
  milliseconds later, or earlier if the record was scheduled already, and nothing else
  leaves the schedule.
\<close>

theorem response_post_decides:
  assumes "response_reachable sc s" "response_op_ok s (Response_post now rnd r flush q imm)"
  shows "\<exists>s' b. avahi_response_scheduler_post now rnd s r flush q imm = Ret (s', b) \<and> rsent s' = rsent s \<and>
    (b \<longleftrightarrow> \<not> known_answer now s r q \<and> \<not> sent_recently now s r flush) \<and>
    (if b then \<exists>i j. rstore s' i = Some j \<and> rstate j = AVAHI_SCHEDULED \<and> rrecord j = r \<and> (flush \<longrightarrow> rflush j) \<and>
       rtime_event j = Some (rdelivery j) \<and> usec_of (rdelivery j) \<le> usec_of now + (if imm then 0 else 120000) \<and>
       (\<forall>j0. rstore s i = Some j0 \<longrightarrow> rr_abs (rrecord j0) = rr_abs r \<and> usec_of (rdelivery j) \<le> usec_of (rdelivery j0)) \<and>
       (\<forall>i' j'. i' \<noteq> i \<and> rstate j' = AVAHI_SCHEDULED \<longrightarrow> (rstore s' i' = Some j' \<longleftrightarrow> rstore s i' = Some j'))
     else \<forall>i' j'. rstate j' = AVAHI_SCHEDULED \<longrightarrow> (rstore s' i' = Some j' \<longleftrightarrow> rstore s i' = Some j'))"
proof -
  have core: "resp_core s" using response_reachable_inv [OF assms(1)] by (simp add: response_inv_def)
  from assms(2) have ok: "postable r" "querier_ok q" "normalized now" "rand_ok rnd" by auto
  from response_post_ok [OF core ok, of flush imm] obtain s' b where
    s': "avahi_response_scheduler_post now rnd s r flush q imm = Ret (s', b)" "resp_core s'" "rsent s' = rsent s"
      "b \<longleftrightarrow> \<not> known_answer now s r q \<and> \<not> sent_recently now s r flush"
      "if b then scheduled_by now (usec_of now + (if imm then 0 else 120000)) r flush q s s' else forgets now (\<lambda>_. False) s s'" by blast
  show ?thesis
  proof (cases b)
    case True
    with s'(5) obtain i j where j: "rstore s' i = Some j" "rstate j = AVAHI_SCHEDULED" "rrecord j = r" "flush \<longrightarrow> rflush j"
        "usec_of (rdelivery j) \<le> usec_of now + (if imm then 0 else 120000)"
        "\<forall>j0. rstore s i = Some j0 \<longrightarrow> rstate j0 = AVAHI_SCHEDULED \<and> rr_abs (rrecord j0) = rr_abs r \<and>
           (rflush j0 \<longrightarrow> rflush j) \<and> usec_of (rdelivery j) \<le> usec_of (rdelivery j0)"
      and oth: "\<forall>i'. i' \<noteq> i \<longrightarrow> rstore s' i' = rstore s i' \<or> (rstore s' i' = None \<and>
        (\<exists>j. rstore s i' = Some j \<and> rstate j \<noteq> AVAHI_SCHEDULED \<and> (counts now j \<longrightarrow> rr_abs (rrecord j) = rr_abs r)))"
      unfolding scheduled_by_def if_P [OF True] by - (elim conjE exE, rule that, (assumption | blast)+)
    have "rtime_event j = Some (rdelivery j)" using core_rjob [OF s'(2) j(1)] j(2) by (simp add: rjob_ok_def elapse_after_def)
    moreover have "\<forall>i' j'. i' \<noteq> i \<and> rstate j' = AVAHI_SCHEDULED \<longrightarrow> (rstore s' i' = Some j' \<longleftrightarrow> rstore s i' = Some j')"
      using oth by (metis option.distinct(1) option.inject)
    moreover have "\<forall>j0. rstore s i = Some j0 \<longrightarrow> rr_abs (rrecord j0) = rr_abs r \<and> usec_of (rdelivery j) \<le> usec_of (rdelivery j0)"
      using j(6) by blast
    ultimately have "\<exists>i j. rstore s' i = Some j \<and> rstate j = AVAHI_SCHEDULED \<and> rrecord j = r \<and> (flush \<longrightarrow> rflush j) \<and>
       rtime_event j = Some (rdelivery j) \<and> usec_of (rdelivery j) \<le> usec_of now + (if imm then 0 else 120000) \<and>
       (\<forall>j0. rstore s i = Some j0 \<longrightarrow> rr_abs (rrecord j0) = rr_abs r \<and> usec_of (rdelivery j) \<le> usec_of (rdelivery j0)) \<and>
       (\<forall>i' j'. i' \<noteq> i \<and> rstate j' = AVAHI_SCHEDULED \<longrightarrow> (rstore s' i' = Some j' \<longleftrightarrow> rstore s i' = Some j'))"
      using j(1-5) by blast
    with s'(1,3,4) show ?thesis by (simp only: if_P [OF True]) (intro exI [of _ s'] exI [of _ b], simp add: True)
  next
    case False
    with s'(5) have "\<forall>i' j'. rstate j' = AVAHI_SCHEDULED \<longrightarrow> (rstore s' i' = Some j' \<longleftrightarrow> rstore s i' = Some j')"
      by (simp add: forgets_def) (metis option.distinct(1) option.inject)
    with s'(1,3,4) False show ?thesis by (intro exI [of _ s'] exI [of _ b]) simp
  qed
qed

lemma response_post_decides_witness:
  "\<exists>s' i j. avahi_response_scheduler_post (example_time 100) 0 example_response_sched (example_record ''a.local'' 120) True None True = Ret (s', True) \<and>
    rstore s' i = Some j \<and> rstate j = AVAHI_SCHEDULED \<and> rrecord j = example_record ''a.local'' 120 \<and> rflush j"
proof -
  have "\<not> known_answer (example_time 100) example_response_sched (example_record ''a.local'' 120) None"
    "\<not> sent_recently (example_time 100) example_response_sched (example_record ''a.local'' 120) True"
    by (simp_all add: known_answer_def sent_recently_def example_response_sched_def avahi_response_scheduler_new_def)
  with response_post_decides [OF example_response_reachable example_post_ok] show ?thesis by - (elim exE conjE, simp, blast)
qed

lemma counts_done:
  assumes "rstate d = AVAHI_DONE" "usec_of now \<le> usec_of (rdelivery d) + 500000"
  shows "counts now d"
proof -
  let ?x = "usec_of now - usec_of (rdelivery d)"
  have "?x sdiv 1000 \<le> 500"
  proof (cases "0 \<le> ?x")
    case True
    then have "?x sdiv 1000 = ?x div 1000" by (simp add: signed_divide_int_def sgn_if)
    with assms(2) show ?thesis by simp
  next
    case False
    then have "?x sdiv 1000 \<le> 0" by (simp add: signed_divide_int_def sgn_if)
    then show ?thesis by simp
  qed
  with assms(1) show ?thesis by (simp add: counts_def)
qed

lemma done_suppresses:
  assumes "resp_core s" "rstore s i = Some d" "rstate d = AVAHI_DONE" "rr_abs r = rr_abs (rrecord d)" "stands_for (rrecord d) r"
    "flush \<longrightarrow> rflush d" "usec_of now \<le> usec_of (rdelivery d) + 500000"
    and "postable r" "querier_ok q" "normalized now" "rand_ok rnd"
  shows "\<exists>s'. avahi_response_scheduler_post now rnd s r flush q imm = Ret (s', False)"
proof -
  have "sent_recently now s r flush"
    unfolding sent_recently_def using assms(2-6) counts_done [OF assms(3,7)] by (intro exI [of _ i] exI [of _ d]) auto
  with response_post_ok [OF assms(1,8-11), of flush imm] show ?thesis by auto
qed

lemma known_suppresses:
  assumes "resp_core s" "rstore s i = Some d" "rstate d = AVAHI_SUPPRESSED" "rr_abs r = rr_abs (rrecord d)" "stands_for (rrecord d) r"
    "known_to a d" "usec_of now \<le> usec_of (rdelivery d) + 700000"
    and "postable r" "address_ok a" "normalized now" "rand_ok rnd"
  shows "\<exists>s'. avahi_response_scheduler_post now rnd s r flush (Some a) imm = Ret (s', False)"
proof -
  have "known_answer now s r (Some a)"
    unfolding known_answer_def using assms(2-7) by (intro exI [of _ a] exI [of _ i] exI [of _ d]) (simp add: counts_def)
  moreover have "querier_ok (Some a)" using assms(9) by (simp add: querier_ok_def)
  ultimately show ?thesis using response_post_ok [OF assms(1,8) _ assms(10,11), of "Some a" flush imm] by auto
qed

text \<open>
  Until \<open>limit\<close>, nothing is scheduled when a record is posted for a querier in \<open>Q\<close> that the response
  \<open>r\<close>, sent with flush bit \<open>b\<close>, stands for.
\<close>

definition quiet :: "response_sched \<Rightarrow> rr \<Rightarrow> bool \<Rightarrow> (address option \<Rightarrow> bool) \<Rightarrow> int \<Rightarrow> bool" where
  "quiet s r b Q limit \<longleftrightarrow> (\<forall>now rnd r' f q imm.
     response_op_ok s (Response_post now rnd r' f q imm) \<and> rr_abs r' = rr_abs r \<and> stands_for r r' \<and> (f \<longrightarrow> b) \<and> Q q \<and> usec_of now \<le> limit \<longrightarrow>
     (\<exists>s'. avahi_response_scheduler_post now rnd s r' f q imm = Ret (s', False)))"

lemma quiet_done:
  assumes "resp_core s" "rstore s i = Some d" "rstate d = AVAHI_DONE"
  shows "quiet s (rrecord d) (rflush d) (\<lambda>_. True) (usec_of (rdelivery d) + 500000)"
  unfolding quiet_def using done_suppresses [OF assms] by simp

lemma quiet_known:
  assumes "resp_core s" "rstore s i = Some d" "rstate d = AVAHI_SUPPRESSED" "known_to a d" "address_ok a"
  shows "quiet s (rrecord d) True (\<lambda>q. q = Some a) (usec_of (rdelivery d) + 700000)"
  unfolding quiet_def using known_suppresses [OF assms(1-3) _ _ assms(4) _ _ assms(5)] by simp

text \<open>The job for a record, if it is scheduled.\<close>

definition scheduled_job :: "response_sched \<Rightarrow> rr \<Rightarrow> rjob \<Rightarrow> bool" where
  "scheduled_job s r j \<longleftrightarrow> (\<exists>i. rstore s i = Some j \<and> rstate j = AVAHI_SCHEDULED \<and> rr_abs (rrecord j) = rr_abs r)"

lemma scheduled_job_unique:
  assumes "resp_core s" "rstore s i = Some j" "rstate j = AVAHI_SCHEDULED" "rr_abs (rrecord j) = rr_abs r"
  shows "scheduled_job s r j' \<longleftrightarrow> j' = j"
proof
  assume "scheduled_job s r j'"
  then obtain i' where j': "rstore s i' = Some j'" "rstate j' = AVAHI_SCHEDULED" "rr_abs (rrecord j') = rr_abs r"
    by (auto simp: scheduled_job_def)
  with core_clash [OF assms(1) _ assms(2)] assms(3,4) have "i' = i" by (simp add: clash_def)
  with j' assms(2) show "j' = j" by simp
qed (use assms in \<open>auto simp: scheduled_job_def\<close>)

lemma incoming_quiet:
  assumes "resp_core s" "rr_ok r" "normalized now"
  shows "\<exists>s1. avahi_response_scheduler_incoming now s r flush = Ret s1 \<and> rsent s1 = rsent s \<and>
    (\<forall>j. scheduled_job s r j \<longrightarrow>
       (if (rflush j \<longrightarrow> flush) \<and> stands_for r (rrecord j)
        then (\<nexists>j'. scheduled_job s1 r j') \<and> quiet s1 (rrecord j) (rflush j) (\<lambda>_. True) (usec_of now + 500000)
        else s1 = s)) \<and>
    ((\<nexists>j. scheduled_job s r j) \<longrightarrow> (\<nexists>j. scheduled_job s1 r j) \<and> quiet s1 r flush (\<lambda>_. True) (usec_of now + 500000))"
proof (cases "\<exists>j. scheduled_job s r j")
  case True
  then obtain i j where j: "rstore s i = Some j" "rstate j = AVAHI_SCHEDULED" "rr_abs (rrecord j) = rr_abs r"
    by (auto simp: scheduled_job_def)
  note unique = scheduled_job_unique [OF assms(1) j]
  let ?d = "rdone now j" and ?b = "(rflush j \<longrightarrow> flush) \<and> stands_for r (rrecord j)"
  have s1: "avahi_response_scheduler_incoming now s r flush = Ret (if ?b then place i ?d s else s)"
    using incoming_scheduled [OF assms j, of flush] by auto
  have "\<nexists>j'. scheduled_job (place i ?d s) r j'"
  proof
    assume "\<exists>j'. scheduled_job (place i ?d s) r j'"
    then obtain i' j' where j': "i' \<noteq> i" "rstore s i' = Some j'" "rstate j' = AVAHI_SCHEDULED" "rr_abs (rrecord j') = rr_abs r"
      by (auto simp: scheduled_job_def split: if_splits)
    then have "clash j' j" using j by (simp add: clash_def)
    with core_clash [OF assms(1) j'(2) j(1)] j'(1) show False by simp
  qed
  moreover have "quiet (place i ?d s) (rrecord j) (rflush j) (\<lambda>_. True) (usec_of now + 500000)"
    using quiet_done [OF response_job_mark_done_ok(2) [OF assms(1) j(1,2) assms(3)], of i ?d] by simp
  ultimately show ?thesis using s1 unique by (intro exI [of _ "if ?b then place i ?d s else s"]) simp
next
  case False
  then have "\<forall>i j. rstore s i = Some j \<longrightarrow> rstate j = AVAHI_SCHEDULED \<longrightarrow> rr_abs (rrecord j) \<noteq> rr_abs r"
    by (auto simp: scheduled_job_def)
  from incoming_unscheduled [OF assms this, of flush] obtain s' i d where
    s': "avahi_response_scheduler_incoming now s r flush = Ret s'" "resp_core s'" "rsent s' = rsent s" and
    d: "rstore s' i = Some d" "rstate d = AVAHI_DONE" "rrecord d = r" "rflush d = flush" "rdelivery d = now" and
    kept: "\<forall>i' j'. rstore s' i' = Some j' \<longrightarrow> rstate j' = AVAHI_SCHEDULED \<longrightarrow> rstore s i' = Some j'" by blast
  have "\<nexists>j. scheduled_job s' r j" using kept False by (auto simp: scheduled_job_def)
  with s' quiet_done [OF s'(2) d(1,2)] d(3-5) False show ?thesis by auto
qed

lemma suppress_quiet:
  assumes "resp_core s" "rr_ok r" "address_ok a" "normalized now"
  shows "\<exists>s2. avahi_response_scheduler_suppress now s r a = Ret s2 \<and> rsent s2 = rsent s \<and>
    (\<forall>r' j. scheduled_job s2 r' j \<longleftrightarrow>
       scheduled_job s r' j \<and> \<not> (scheduled_job s r j \<and> known_to a j \<and> stands_for r (rrecord j))) \<and>
    quiet s2 r True (\<lambda>q. q = Some a) (usec_of now + 700000)"
proof -
  from suppress_ok [OF assms] obtain s' i d where
    s': "avahi_response_scheduler_suppress now s r a = Ret s'" "resp_core s'" "rsent s' = rsent s" and
    d: "rstore s' i = Some d" "rstate d = AVAHI_SUPPRESSED" "rrecord d = r" "known_to a d" "rdelivery d = now" and
    kept: "\<forall>i' j'. rstate j' \<noteq> AVAHI_SUPPRESSED \<longrightarrow> (rstore s' i' = Some j' \<longleftrightarrow> rstore s i' = Some j' \<and> \<not> drops r a j')" by blast
  have "scheduled_job s' r' j \<longleftrightarrow> scheduled_job s r' j \<and> \<not> (scheduled_job s r j \<and> known_to a j \<and> stands_for r (rrecord j))" for r' j
    using kept by (auto simp: scheduled_job_def drops_def)
  with s' quiet_known [OF s'(2) d(1,2,4) assms(3)] d(3,5) show ?thesis by auto
qed

text \<open>
  Property C23. Responses are not sent twice. When another host sends a record that is scheduled, the
  job leaves the schedule if the flush bit and the lifetime of the other response do for it; otherwise
  nothing changes. A record that is not scheduled enters the history. For 500 milliseconds after
  that nothing is scheduled that the response remembered stands for. When a querier sends a record
  as a known answer, the response to it alone leaves the schedule, if that answer stands for it, and
  nothing else does; for 700 milliseconds the record is not scheduled for this querier again.
\<close>

theorem heard_responses_suppress:
  assumes "response_reachable sc s" "rr_ok r" "address_ok a" "normalized now"
  shows "\<exists>s1 s2. avahi_response_scheduler_incoming now s r flush = Ret s1 \<and> rsent s1 = rsent s \<and>
    (\<forall>j. scheduled_job s r j \<longrightarrow>
       (if (rflush j \<longrightarrow> flush) \<and> stands_for r (rrecord j)
        then (\<nexists>j'. scheduled_job s1 r j') \<and> quiet s1 (rrecord j) (rflush j) (\<lambda>_. True) (usec_of now + 500000)
        else s1 = s)) \<and>
    ((\<nexists>j. scheduled_job s r j) \<longrightarrow> (\<nexists>j. scheduled_job s1 r j) \<and> quiet s1 r flush (\<lambda>_. True) (usec_of now + 500000)) \<and>
    avahi_response_scheduler_suppress now s r a = Ret s2 \<and> rsent s2 = rsent s \<and>
    (\<forall>r' j. scheduled_job s2 r' j \<longleftrightarrow>
       scheduled_job s r' j \<and> \<not> (scheduled_job s r j \<and> known_to a j \<and> stands_for r (rrecord j))) \<and>
    quiet s2 r True (\<lambda>q. q = Some a) (usec_of now + 700000)"
proof -
  have core: "resp_core s" using response_reachable_inv [OF assms(1)] by (simp add: response_inv_def)
  have "\<exists>s1. avahi_response_scheduler_incoming now s r flush = Ret s1 \<and> rsent s1 = rsent s \<and>
    (\<forall>j. scheduled_job s r j \<longrightarrow>
       (if (rflush j \<longrightarrow> flush) \<and> stands_for r (rrecord j)
        then (\<nexists>j'. scheduled_job s1 r j') \<and> quiet s1 (rrecord j) (rflush j) (\<lambda>_. True) (usec_of now + 500000)
        else s1 = s)) \<and>
    ((\<nexists>j. scheduled_job s r j) \<longrightarrow> (\<nexists>j. scheduled_job s1 r j) \<and> quiet s1 r flush (\<lambda>_. True) (usec_of now + 500000))"
    by (rule incoming_quiet [OF core assms(2,4)])
  moreover have "\<exists>s2. avahi_response_scheduler_suppress now s r a = Ret s2 \<and> rsent s2 = rsent s \<and>
    (\<forall>r' j. scheduled_job s2 r' j \<longleftrightarrow>
       scheduled_job s r' j \<and> \<not> (scheduled_job s r j \<and> known_to a j \<and> stands_for r (rrecord j))) \<and>
    quiet s2 r True (\<lambda>q. q = Some a) (usec_of now + 700000)"
    by (rule suppress_quiet [OF core assms(2-4)])
  ultimately show ?thesis by blast
qed

lemma heard_responses_suppress_witness:
  "\<exists>s1 s2. avahi_response_scheduler_incoming (example_time 100) example_response_sched (example_record ''a.local'' 120) True = Ret s1 \<and>
    quiet s1 (example_record ''a.local'' 120) True (\<lambda>_. True) 100500000 \<and>
    avahi_response_scheduler_suppress (example_time 100) example_response_sched (example_record ''a.local'' 120) (example_address 1) = Ret s2 \<and>
    quiet s2 (example_record ''a.local'' 120) True (\<lambda>q. q = Some (example_address 1)) 100700000"
proof -
  have "rr_ok (example_record ''a.local'' 120)" "address_ok (example_address 1)" by code_simp+
  note w = heard_responses_suppress [OF example_response_reachable this example_postable(2)]
  have "\<nexists>j. scheduled_job example_response_sched (example_record ''a.local'' 120) j"
    by (simp add: scheduled_job_def example_response_sched_def avahi_response_scheduler_new_def)
  moreover have "usec_of (example_time 100) = 100000000" by code_simp
  ultimately show ?thesis using w [of True] by auto
qed

text \<open>The loop that fills the packet does not depend on its bound as long as it does not reach it.\<close>

lemma add_response_jobs_more:
  "add_response_jobs sc aux now rnd k s p n = Ret x \<Longrightarrow> k \<le> k' \<Longrightarrow> add_response_jobs sc aux now rnd k' s p n = Ret x"
proof (induction k arbitrary: s p n k')
  case 0
  then show ?case by (simp add: add_response_jobs.simps split: list.splits)
next
  case (Suc k)
  then obtain l where l: "k' = Suc l" "k \<le> l" by (cases k') auto
  show ?case
  proof (cases "rlist s AVAHI_SCHEDULED")
    case Nil
    with Suc.prems show ?thesis by (simp add: add_response_jobs.simps)
  next
    case (Cons i l')
    with Suc.prems(1) obtain s1 p1 b where step: "packet_add_response_job sc aux now rnd s p i = Ret (s1, p1, b)"
      "(if b then add_response_jobs sc aux now rnd k s1 p1 (n + 1) else Ret (s1, p1, n)) = Ret x"
      by (subst (asm) add_response_jobs.simps) (auto simp: res_bind_eq_Ret)
    with Suc.IH [OF _ l(2), of s1 p1 "n + 1"] Cons l(1) show ?thesis
      by (subst add_response_jobs.simps) (cases b; simp)
  qed
qed

text \<open>
  Property C24. Sending ends, although every record that is sent schedules its auxiliary records: in a
  packet of a response with room for \<open>m\<close> bytes the loop stops after at most \<open>m\<close> rounds, whatever the
  auxiliary records are, as every round makes the packet longer. The packet then holds the records it
  held before and more, the count agrees, and each of them, with each of its auxiliary records, is
  covered: it is scheduled, or sent or suppressed recently.
\<close>

theorem filling_packet_terminates:
  assumes "response_reachable sc s" "response_op_ok s (Response_force aux mtu now rnd n)"
    and "replying sc m rs p" "fst ` set rs \<subseteq> Collect postable" "aux_covered aux now s rs"
  shows "\<exists>s' p' others. (\<forall>k \<ge> m. add_response_jobs sc aux now rnd k s p (length rs) = Ret (s', p', length (rs @ others))) \<and>
    replying sc m (rs @ others) p' \<and> aux_covered aux now s' (rs @ others) \<and> response_inv s' \<and> rsent s' = rsent s"
proof -
  have core: "resp_core s" "jobs_in (Collect postable) s" using response_reachable_inv [OF assms(1)] by (simp_all add: response_inv_def)
  from assms(2) have ok: "normalized now" "rand_ok rnd" "aux_closed aux (Collect postable)" by auto
  have "m < psize p + m" using replying_size [OF assms(3)] by linarith
  from add_responses_ok [OF core(1) ok(1,2) assms(3) core(2) ok(3) this assms(5,4)] obtain s' p' others where
    a: "add_response_jobs sc aux now rnd m s p (length rs) = Ret (s', p', length (rs @ others))" "replying sc m (rs @ others) p'"
      "progress now (Collect postable) s s'" "aux_covered aux now s' (rs @ others)" by blast
  have "response_inv s'" "rsent s' = rsent s" using a(3) core(2) by (simp_all add: progress_def response_inv_def)
  with a(2,4) add_response_jobs_more [OF a(1)] show ?thesis
    by (intro exI [of _ s'] exI [of _ p'] exI [of _ others] conjI allI impI)
qed

definition example_scheduled_response :: response_sched where
  "example_scheduled_response =
     (case response_do True (Response_post (example_time 100) 0 (example_record ''a.local'' 120) True None True) example_response_sched of Ret s \<Rightarrow> s)"

definition example_response_job :: rjob where
  "example_response_job = \<lparr>rtime_event = Some (example_time 100), rstate = AVAHI_SCHEDULED, rdelivery = example_time 100,
     rrecord = example_record ''a.local'' 120, rflush = True, rquerier = None\<rparr>"

lemma example_scheduled_response:
  "response_reachable True example_scheduled_response" "rstore example_scheduled_response 0 = Some example_response_job"
proof -
  from response_scheduler_invariant_witness have
    "response_do True (Response_post (example_time 100) 0 (example_record ''a.local'' 120) True None True) example_response_sched = Ret example_scheduled_response"
    by (auto simp: example_scheduled_response_def)
  then show "response_reachable True example_scheduled_response"
    by (rule response_step [OF example_response_reachable example_post_ok])
  show "rstore example_scheduled_response 0 = Some example_response_job" by code_simp
qed

lemma no_aux_closed: "aux_closed (\<lambda>_. []) R"
  by (simp add: aux_closed_def)

lemma filling_packet_terminates_witness:
  "\<exists>p s' p' others. avahi_dns_packet_new_response 1500 True = Ret p \<and>
    add_response_jobs True (\<lambda>_. []) (example_time 100) 0 1500 example_scheduled_response p 0 = Ret (s', p', length others) \<and>
    replying True (packet_max 1500) others p'"
proof -
  obtain p where p: "avahi_dns_packet_new_response 1500 True = Ret p" "replying True (packet_max 1500) [] p" using replying_new by blast
  have "response_op_ok example_scheduled_response (Response_force (\<lambda>_. []) 1500 (example_time 100) 0 0)"
    using example_postable no_aux_closed by simp
  from filling_packet_terminates [OF example_scheduled_response(1) this p(2)] obtain s' p' others where
    "\<forall>k \<ge> packet_max 1500. add_response_jobs True (\<lambda>_. []) (example_time 100) 0 k example_scheduled_response p 0 = Ret (s', p', length others)"
    "replying True (packet_max 1500) others p'" by (auto simp: aux_covered_def)
  moreover have "packet_max 1500 \<le> 1500" by code_simp
  ultimately show ?thesis using p(1) by blast
qed

text \<open>
  Property C21. What happens when the time of a scheduled response has come: it is sent, in one packet
  with the right count of answers and as much of the rest of the schedule as follows; when the record
  does not fit into a packet of the MTU, it is sent alone in a packet made for it. The job is done;
  each record sent and each of its auxiliary records is then scheduled, or has been sent or is known to the querier. The one way for the
  record to be lost is that it is larger than a packet of the MTU can take.
\<close>

theorem elapsed_response_is_sent:
  assumes "response_reachable sc s" "response_op_ok s (Response_elapse aux mtu now rnd i)"
    and "rstore s i = Some j" "rstate j = AVAHI_SCHEDULED"
  shows "\<exists>s'. response_elapse_callback sc aux mtu now rnd s i = Ret s' \<and>
    (\<forall>j'. rstore s' i = Some j' \<longrightarrow> rstate j' \<noteq> AVAHI_SCHEDULED) \<and>
    ((\<exists>p others m. rsent s' = rsent s @ [p] \<and> response_packet sc m ((rrecord j, rflush j) # others) p \<and>
        (m = packet_max mtu \<or> others = []) \<and> aux_covered aux now s' ((rrecord j, rflush j) # others)) \<or>
     (rsent s' = rsent s \<and> packet_max mtu < 12 + record_room (rrecord j)))"
proof -
  have core: "resp_core s" "jobs_in (Collect postable) s" using response_reachable_inv [OF assms(1)] by (simp_all add: response_inv_def)
  from assms(2) have ok: "normalized now" "rand_ok rnd" "aux_closed aux (Collect postable)" by auto
  from send_response_packet_ok [OF core(1) assms(3,4) ok(1,2) core(2) ok(3), of sc mtu] obtain s' where
    s': "send_response_packet sc aux mtu now rnd s i = Ret s'" "responded sc aux mtu now (Collect postable) s i j s'" by blast
  have "\<forall>j'. rstore s' i = Some j' \<longrightarrow> rstate j' \<noteq> AVAHI_SCHEDULED" using s'(2) by (simp add: responded_def off_schedule_def)
  moreover have "(\<exists>p others m. rsent s' = rsent s @ [p] \<and> response_packet sc m ((rrecord j, rflush j) # others) p \<and>
        (m = packet_max mtu \<or> others = []) \<and> aux_covered aux now s' ((rrecord j, rflush j) # others)) \<or>
     (rsent s' = rsent s \<and> packet_max mtu < 12 + record_room (rrecord j))"
    using s'(2) unfolding responded_def by blast
  ultimately show ?thesis using s'(1) elapse_scheduled_response [OF assms(3,4)] by auto
qed

lemma elapsed_response_is_sent_witness:
  "\<exists>s' p others m. response_elapse_callback True (\<lambda>_. []) 1500 (example_time 100) 0 example_scheduled_response 0 = Ret s' \<and>
    rsent s' = [p] \<and> response_packet True m ((example_record ''a.local'' 120, True) # others) p"
proof -
  have "response_op_ok example_scheduled_response (Response_elapse (\<lambda>_. []) 1500 (example_time 100) 0 0)"
    using example_postable no_aux_closed example_scheduled_response(2) by simp
  moreover have "rstate example_response_job = AVAHI_SCHEDULED" "rsent example_scheduled_response = []"
    "12 + record_room (example_record ''a.local'' 120) \<le> packet_max 1500" by code_simp+
  moreover have "rrecord example_response_job = example_record ''a.local'' 120" "rflush example_response_job"
    by (simp_all add: example_response_job_def)
  ultimately show ?thesis
    using elapsed_response_is_sent [OF example_scheduled_response(1) _ example_scheduled_response(2), of "\<lambda>_. []" 1500 "example_time 100" 0] by auto
qed

end
