(* ===== verification/Probe_Sched.thy ===== *)
theory Probe_Sched
  imports Dns_Packets Timeval
begin

text \<open>
  \<open>avahi-core/probe-sched.c\<close>: the records an interface is going to probe for, and those it has
  probed for recently. Jobs are numbers in a store, on the list \<open>pjobs\<close> or, once sent, on
  \<open>phistory\<close>; the pending time event of a job is the time for which it is scheduled. Packets
  handed to the interface are collected in \<open>psent\<close>. The clock is the argument \<open>now\<close>, the MTU of
  the interface an argument.
\<close>

section \<open>State\<close>

definition AVAHI_PROBE_HISTORY_MSEC :: int where "AVAHI_PROBE_HISTORY_MSEC = 150"
definition AVAHI_PROBE_DEFER_MSEC :: int where "AVAHI_PROBE_DEFER_MSEC = 50"

record pjob =
  ptime_event :: "timeval option"
  pchosen :: bool
  pdone :: bool
  pdelivery :: timeval
  precord :: rr

record probe_sched =
  pstore :: "nat \<Rightarrow> pjob option"
  pjobs :: "nat list"
  phistory :: "nat list"
  pfresh :: nat
  psent :: "dns_packet list"

definition avahi_probe_scheduler_new :: probe_sched where
  "avahi_probe_scheduler_new = \<lparr>pstore = Map.empty, pjobs = [], phistory = [], pfresh = 0, psent = []\<rparr>"

definition set_pjob :: "nat \<Rightarrow> pjob \<Rightarrow> probe_sched \<Rightarrow> probe_sched" where
  "set_pjob i j s = s\<lparr>pstore := (pstore s)(i \<mapsto> j)\<rparr>"

text \<open>The delivery time of a new job is set by the caller.\<close>

definition probe_job_new :: "probe_sched \<Rightarrow> rr \<Rightarrow> bool \<Rightarrow> timeval \<Rightarrow> probe_sched \<times> nat" where
  "probe_job_new s r finished tv =
     (let i = pfresh s;
          j = \<lparr>ptime_event = None, pchosen = False, pdone = finished, pdelivery = tv, precord = r\<rparr>;
          s = set_pjob i j (s\<lparr>pfresh := Suc i\<rparr>)
      in (if finished then s\<lparr>phistory := i # phistory s\<rparr> else s\<lparr>pjobs := i # pjobs s\<rparr>, i))"

definition probe_job_free :: "probe_sched \<Rightarrow> nat \<Rightarrow> probe_sched res" where
  "probe_job_free s i =
     (case pstore s i of
        None \<Rightarrow> Crash
      | Some j \<Rightarrow>
          let s = s\<lparr>pstore := (pstore s)(i := None)\<rparr>
          in Ret (if pdone j then s\<lparr>phistory := remove1 i (phistory s)\<rparr> else s\<lparr>pjobs := remove1 i (pjobs s)\<rparr>))"

definition probe_job_set_elapse_time :: "timeval \<Rightarrow> probe_sched \<Rightarrow> nat \<Rightarrow> int \<Rightarrow> probe_sched res" where
  "probe_job_set_elapse_time now s i msec =
     (case pstore s i of
        None \<Rightarrow> Crash
      | Some j \<Rightarrow> Ret (set_pjob i (j\<lparr>ptime_event := Some (elapse_after now msec)\<rparr>) s))"

definition probe_job_mark_done :: "timeval \<Rightarrow> probe_sched \<Rightarrow> nat \<Rightarrow> probe_sched res" where
  "probe_job_mark_done now s i =
     (case pstore s i of
        None \<Rightarrow> Crash
      | Some j \<Rightarrow>
          if pdone j then Crash
          else
            let s = s\<lparr>pjobs := remove1 i (pjobs s)\<rparr>;
                s = s\<lparr>phistory := i # phistory s\<rparr>;
                s = set_pjob i (j\<lparr>pdone := True, pdelivery := now\<rparr>) s
            in probe_job_set_elapse_time now s i AVAHI_PROBE_HISTORY_MSEC)"

text \<open>\<open>while (list) job_free(s, list)\<close>, of at most \<open>m\<close> rounds.\<close>

fun free_probe_jobs :: "(probe_sched \<Rightarrow> nat list) \<Rightarrow> nat \<Rightarrow> probe_sched \<Rightarrow> probe_sched res" where
  "free_probe_jobs l m s =
     (case l s of
        [] \<Rightarrow> Ret s
      | i # _ \<Rightarrow> (case m of 0 \<Rightarrow> Crash | Suc m \<Rightarrow> res_bind (probe_job_free s i) (free_probe_jobs l m)))"

declare free_probe_jobs.simps [simp del]

definition avahi_probe_scheduler_clear :: "probe_sched \<Rightarrow> probe_sched res" where
  "avahi_probe_scheduler_clear s =
     res_bind (free_probe_jobs pjobs (length (pjobs s)) s) (\<lambda>s. free_probe_jobs phistory (length (phistory s)) s)"

section \<open>Choosing the probes of a packet\<close>

definition set_chosen :: "bool \<Rightarrow> nat \<Rightarrow> probe_sched \<Rightarrow> probe_sched" where
  "set_chosen b i s = s\<lparr>pstore := (pstore s)(i := map_option (\<lambda>j. j\<lparr>pchosen := b\<rparr>) (pstore s i))\<rparr>"

text \<open>The scan for more jobs with the name and class of the question \<open>k\<close>.\<close>

fun choose_matching :: "key \<Rightarrow> nat list \<Rightarrow> probe_sched \<Rightarrow> dns_packet \<Rightarrow> (probe_sched \<times> dns_packet) res" where
  "choose_matching k [] s p = Ret (s, p)"
| "choose_matching k (i # is) s p =
     (case pstore s i of
        None \<Rightarrow> Crash
      | Some j \<Rightarrow>
          if pchosen j then choose_matching k is s p
          else
            res_bind (if clazz k \<noteq> clazz (rkey (precord j)) then Ret False
                      else avahi_domain_equal (name k) (name (rkey (precord j)))) (\<lambda>eq.
            if \<not> eq then choose_matching k is s p
            else
              res_bind (avahi_record_get_estimate_size (precord j)) (\<lambda>size.
              res_bind (avahi_dns_packet_reserved_space p) (\<lambda>space.
                if space < size then Ret (s, p)
                else
                  res_bind (avahi_dns_packet_reserve_size p size) (\<lambda>(p, _).
                  choose_matching k is (set_chosen True i s) p)))))"

definition packet_add_probe_query ::
  "bool \<Rightarrow> probe_sched \<Rightarrow> dns_packet \<Rightarrow> nat \<Rightarrow> (probe_sched \<times> dns_packet \<times> bool) res" where
  "packet_add_probe_query sc s p i =
     (case pstore s i of
        None \<Rightarrow> Crash
      | Some j \<Rightarrow>
          if pchosen j then Crash
          else
            res_bind (avahi_record_get_estimate_size (precord j)) (\<lambda>size.
            res_bind (avahi_dns_packet_reserved_space p) (\<lambda>space.
              if space < avahi_key_get_estimate_size (rkey (precord j)) + size then Ret (s, p, False)
              else
                res_bind (avahi_key_new (name (rkey (precord j))) (clazz (rkey (precord j))) AVAHI_DNS_TYPE_ANY) (\<lambda>k.
                  case k of
                    None \<Rightarrow> Ret (s, p, False)
                  | Some k \<Rightarrow>
                      res_bind (avahi_dns_packet_append_key sc p k False) (\<lambda>(p, b).
                        if b = None then Crash
                        else
                          res_bind (avahi_dns_packet_reserve_size p size) (\<lambda>(p, _).
                          res_map (\<lambda>(s, p). (s, p, True)) (choose_matching k (pjobs s) (set_chosen True i s) p)))))))"

section \<open>Sending\<close>

text \<open>The loop that fills the packet with more probes, and counts the questions.\<close>

fun add_probes :: "bool \<Rightarrow> nat list \<Rightarrow> probe_sched \<Rightarrow> dns_packet \<Rightarrow> nat \<Rightarrow> (probe_sched \<times> dns_packet \<times> nat) res" where
  "add_probes sc [] s p n = Ret (s, p, n)"
| "add_probes sc (i # is) s p n =
     (case pstore s i of
        None \<Rightarrow> Crash
      | Some j \<Rightarrow>
          if pchosen j then add_probes sc is s p n
          else
            res_bind (packet_add_probe_query sc s p i) (\<lambda>(s, p, b).
              if b then add_probes sc is s p (n + 1) else Ret (s, p, n)))"

text \<open>
  The loop over the jobs that appends the chosen records and counts them. The next job is read
  before the current one is moved to the history. When a record does not fit, no later one is tried.
\<close>

fun add_probe_records ::
  "bool \<Rightarrow> timeval \<Rightarrow> nat list \<Rightarrow> probe_sched \<Rightarrow> dns_packet \<Rightarrow> nat \<Rightarrow> (probe_sched \<times> dns_packet \<times> nat) res" where
  "add_probe_records sc now [] s p n = Ret (s, p, n)"
| "add_probe_records sc now (i # is) s p n =
     (case pstore s i of
        None \<Rightarrow> Crash
      | Some j \<Rightarrow>
          if \<not> pchosen j then add_probe_records sc now is s p n
          else
            res_bind (avahi_dns_packet_append_record sc p (precord j) False 0) (\<lambda>(p, ok).
              if ok = None then Ret (fold (set_chosen False) (i # is) s, p, n)
              else res_bind (probe_job_mark_done now s i) (\<lambda>s. add_probe_records sc now is s p (n + 1))))"

definition send_probe :: "dns_packet \<Rightarrow> probe_sched \<Rightarrow> probe_sched" where
  "send_probe p s = s\<lparr>psent := psent s @ [p]\<rparr>"

text \<open>The probe that does not fit into a packet of the MTU.\<close>

definition send_large_probe :: "bool \<Rightarrow> timeval \<Rightarrow> probe_sched \<Rightarrow> nat \<Rightarrow> probe_sched res" where
  "send_large_probe sc now s i =
     (case pstore s i of
        None \<Rightarrow> Crash
      | Some j \<Rightarrow>
          let r = precord j in
          res_bind (avahi_record_get_estimate_size r) (\<lambda>n.
          let size = avahi_key_get_estimate_size (rkey r) + n + AVAHI_DNS_PACKET_HEADER_SIZE in
          res_bind (avahi_dns_packet_new_query (size + AVAHI_DNS_PACKET_EXTRA_SIZE)) (\<lambda>p.
          res_bind (avahi_key_new (name (rkey r)) (clazz (rkey r)) AVAHI_DNS_TYPE_ANY) (\<lambda>k.
            case k of
              None \<Rightarrow> Ret s
            | Some k \<Rightarrow>
                res_bind (avahi_dns_packet_append_key sc p k False) (\<lambda>(p, a).
                res_bind (if a = None then Ret (p, None) else avahi_dns_packet_append_record sc p r False 0) (\<lambda>(p, b).
                res_bind
                  (if b \<noteq> None then
                     res_bind (avahi_dns_packet_set_field p AVAHI_DNS_FIELD_NSCOUNT 1) (\<lambda>p.
                     res_map (\<lambda>p. send_probe p s) (avahi_dns_packet_set_field p AVAHI_DNS_FIELD_QDCOUNT 1))
                   else Ret s)
                  (\<lambda>s. probe_job_mark_done now s i)))))))"

definition probe_elapse_callback :: "bool \<Rightarrow> nat \<Rightarrow> timeval \<Rightarrow> probe_sched \<Rightarrow> nat \<Rightarrow> probe_sched res" where
  "probe_elapse_callback sc mtu now s i =
     (case pstore s i of
        None \<Rightarrow> Crash
      | Some j \<Rightarrow>
          if pdone j then probe_job_free s i
          else
            res_bind (avahi_dns_packet_new_query mtu) (\<lambda>p.
            res_bind (packet_add_probe_query sc s p i) (\<lambda>(s, p, b).
              if \<not> b then send_large_probe sc now s i
              else
                res_bind (add_probes sc (pjobs s) s p 1) (\<lambda>(s, p, n).
                res_bind (avahi_dns_packet_set_field p AVAHI_DNS_FIELD_QDCOUNT (of_nat n)) (\<lambda>p.
                res_bind (add_probe_records sc now (pjobs s) s p 0) (\<lambda>(s, p, n).
                res_map (\<lambda>p. send_probe p s) (avahi_dns_packet_set_field p AVAHI_DNS_FIELD_NSCOUNT (of_nat n))))))))"

section \<open>Posting\<close>

fun find_scheduled_probe :: "probe_sched \<Rightarrow> rr \<Rightarrow> nat list \<Rightarrow> nat option res" where
  "find_scheduled_probe s r [] = Ret None"
| "find_scheduled_probe s r (i # is) =
     (case pstore s i of
        None \<Rightarrow> Crash
      | Some j \<Rightarrow>
          if pdone j then Crash
          else res_bind (avahi_record_equal_no_ttl (precord j) r) (\<lambda>eq.
                 if eq then Ret (Some i) else find_scheduled_probe s r is))"

fun find_history_probe :: "timeval \<Rightarrow> probe_sched \<Rightarrow> rr \<Rightarrow> nat list \<Rightarrow> (probe_sched \<times> nat option) res" where
  "find_history_probe now s r [] = Ret (s, None)"
| "find_history_probe now s r (i # is) =
     (case pstore s i of
        None \<Rightarrow> Crash
      | Some j \<Rightarrow>
          if \<not> pdone j then Crash
          else res_bind (avahi_record_equal_no_ttl (precord j) r) (\<lambda>eq.
                 if eq then
                   if AVAHI_PROBE_HISTORY_MSEC * 1000 < avahi_age now (pdelivery j)
                   then res_map (\<lambda>s. (s, None)) (probe_job_free s i)
                   else Ret (s, Some i)
                 else find_history_probe now s r is))"

definition avahi_probe_scheduler_post :: "timeval \<Rightarrow> probe_sched \<Rightarrow> rr \<Rightarrow> bool \<Rightarrow> (probe_sched \<times> bool) res" where
  "avahi_probe_scheduler_post now s r immediately =
     (if avahi_key_is_pattern (rkey r) then Crash
      else
        res_bind (find_history_probe now s r (phistory s)) (\<lambda>(s, h).
          if h \<noteq> None then Ret (s, False)
          else
            let tv = elapse_after now (if immediately then 0 else AVAHI_PROBE_DEFER_MSEC)
            in res_bind (find_scheduled_probe s r (pjobs s)) (\<lambda>x.
                 case x of
                   Some i \<Rightarrow>
                     (case pstore s i of
                        None \<Rightarrow> Crash
                      | Some j \<Rightarrow>
                          Ret (if avahi_timeval_compare tv (pdelivery j) < 0
                               then set_pjob i (j\<lparr>pdelivery := tv, ptime_event := Some tv\<rparr>) s else s, True))
                 | None \<Rightarrow>
                     (let (s, i) = probe_job_new s r False tv
                      in case pstore s i of
                           None \<Rightarrow> Crash
                         | Some j \<Rightarrow> Ret (set_pjob i (j\<lparr>pdelivery := tv, ptime_event := Some tv\<rparr>) s, True)))))"

end
