(* ===== verification/Probe_Inv.thy ===== *)
theory Probe_Inv
  imports Probe_Sched Response_Inv
begin

text \<open>
  The invariant of the probe scheduler, that posting and clearing keep it, and what they do;
  \<open>Probe_Send\<close> treats the time events.
\<close>

section \<open>The invariant\<close>

text \<open>
  A record that can be probed for: it can be posted and its name fits the buffer into which the
  receiver reads the name of a question.
\<close>

definition probeable :: "rr \<Rightarrow> bool" where
  "probeable r \<longleftrightarrow> postable r \<and> sent_key (rkey r)"

definition pjob_ok :: "pjob \<Rightarrow> bool" where
  "pjob_ok j \<longleftrightarrow> probeable (precord j) \<and> normalized (pdelivery j) \<and>
     ptime_event j = Some (if pdone j then elapse_after (pdelivery j) AVAHI_PROBE_HISTORY_MSEC else pdelivery j)"

definition probe_core :: "probe_sched \<Rightarrow> bool" where
  "probe_core s \<longleftrightarrow>
     distinct (pjobs s @ phistory s) \<and>
     (\<forall>i. i \<in> set (pjobs s) \<longleftrightarrow> (\<exists>j. pstore s i = Some j \<and> \<not> pdone j)) \<and>
     (\<forall>i. i \<in> set (phistory s) \<longleftrightarrow> (\<exists>j. pstore s i = Some j \<and> pdone j)) \<and>
     (\<forall>i j. pstore s i = Some j \<longrightarrow> i < pfresh s \<and> pjob_ok j) \<and>
     (\<forall>i i' j j'. pstore s i = Some j \<longrightarrow> pstore s i' = Some j' \<longrightarrow> rr_abs (precord j) = rr_abs (precord j') \<longrightarrow> i = i')"

text \<open>Between the operations no scheduled job is marked for a packet.\<close>

definition idle :: "probe_sched \<Rightarrow> bool" where
  "idle s \<longleftrightarrow> (\<forall>i j. pstore s i = Some j \<longrightarrow> \<not> pdone j \<longrightarrow> \<not> pchosen j)"

definition probe_inv :: "probe_sched \<Rightarrow> bool" where
  "probe_inv s \<longleftrightarrow> probe_core s \<and> idle s"

lemma probe_coreI:
  assumes "distinct (pjobs s @ phistory s)"
    and "\<And>i. i \<in> set (pjobs s) \<longleftrightarrow> (\<exists>j. pstore s i = Some j \<and> \<not> pdone j)"
    and "\<And>i. i \<in> set (phistory s) \<longleftrightarrow> (\<exists>j. pstore s i = Some j \<and> pdone j)"
    and "\<And>i j. pstore s i = Some j \<Longrightarrow> i < pfresh s \<and> pjob_ok j"
    and "\<And>i i' j j'. pstore s i = Some j \<Longrightarrow> pstore s i' = Some j' \<Longrightarrow> rr_abs (precord j) = rr_abs (precord j') \<Longrightarrow> i = i'"
  shows "probe_core s"
  using assms unfolding probe_core_def by blast

lemma probe_inv_new: "probe_inv avahi_probe_scheduler_new"
  by (simp add: probe_inv_def probe_core_def idle_def avahi_probe_scheduler_new_def)

lemma core_pjob: "probe_core s \<Longrightarrow> pstore s i = Some j \<Longrightarrow> i < pfresh s \<and> pjob_ok j"
  by (simp add: probe_core_def)

lemma core_pjobs: "probe_core s \<Longrightarrow> i \<in> set (pjobs s) \<longleftrightarrow> (\<exists>j. pstore s i = Some j \<and> \<not> pdone j)"
  by (simp add: probe_core_def)

lemma core_phistory: "probe_core s \<Longrightarrow> i \<in> set (phistory s) \<longleftrightarrow> (\<exists>j. pstore s i = Some j \<and> pdone j)"
  by (simp add: probe_core_def)

lemma core_punique:
  "probe_core s \<Longrightarrow> pstore s i = Some j \<Longrightarrow> pstore s i' = Some j' \<Longrightarrow> rr_abs (precord j) = rr_abs (precord j') \<Longrightarrow> i = i'"
  unfolding probe_core_def by blast

lemma core_distinct: "probe_core s \<Longrightarrow> distinct (pjobs s)" "probe_core s \<Longrightarrow> distinct (phistory s)"
  by (simp_all add: probe_core_def)

lemma core_record: "probe_core s \<Longrightarrow> pstore s i = Some j \<Longrightarrow> rr_ok (precord j) \<and> sent_record (precord j) \<and> probeable (precord j)"
  using core_pjob [of s i j] by (simp add: pjob_ok_def probeable_def postable_def)

lemma set_pjob_simps [simp]:
  "pstore (set_pjob i j s) = (pstore s)(i \<mapsto> j)" "pjobs (set_pjob i j s) = pjobs s" "phistory (set_pjob i j s) = phistory s"
  "pfresh (set_pjob i j s) = pfresh s" "psent (set_pjob i j s) = psent s"
  by (simp_all add: set_pjob_def)

text \<open>Changing a job that stays on its list.\<close>

lemma core_set_pjob:
  assumes "probe_core s" "pstore s i = Some j" "pjob_ok j'" "precord j' = precord j" "pdone j' = pdone j"
  shows "probe_core (set_pjob i j' s)"
  using assms unfolding probe_core_def set_pjob_simps by (auto split: if_splits)

definition probed :: "timeval \<Rightarrow> pjob \<Rightarrow> pjob" where
  "probed now j = j\<lparr>pdone := True, pdelivery := now, ptime_event := Some (elapse_after now AVAHI_PROBE_HISTORY_MSEC)\<rparr>"

definition pmark :: "timeval \<Rightarrow> nat \<Rightarrow> probe_sched \<Rightarrow> probe_sched" where
  "pmark now i s =
     s\<lparr>pstore := (pstore s)(i := map_option (probed now) (pstore s i)), pjobs := remove1 i (pjobs s), phistory := i # phistory s\<rparr>"

lemma probed_simps [simp]: "pdone (probed now j)" "precord (probed now j) = precord j" "pdelivery (probed now j) = now"
  by (simp_all add: probed_def)

lemma pmark_simps [simp]:
  "pjobs (pmark now i s) = remove1 i (pjobs s)" "phistory (pmark now i s) = i # phistory s"
  "pfresh (pmark now i s) = pfresh s" "psent (pmark now i s) = psent s"
  "pstore (pmark now i s) = (pstore s)(i := map_option (probed now) (pstore s i))"
  by (simp_all add: pmark_def)

lemma probe_mark_done_ok:
  assumes "probe_core s" "pstore s i = Some j" "\<not> pdone j" "normalized now"
  shows "probe_job_mark_done now s i = Ret (pmark now i s)" "probe_core (pmark now i s)" "idle s \<Longrightarrow> idle (pmark now i s)"
proof -
  show "probe_job_mark_done now s i = Ret (pmark now i s)"
    using assms(2,3) by (simp add: probe_job_mark_done_def Let_def probe_job_set_elapse_time_def pmark_def probed_def set_pjob_def)
  have "pjob_ok (probed now j)" using core_pjob [OF assms(1,2)] assms(4) by (simp add: pjob_ok_def probed_def)
  then show "probe_core (pmark now i s)"
    using assms unfolding probe_core_def pmark_simps by (auto split: if_splits)
  show "idle (pmark now i s)" if "idle s" using that by (auto simp: idle_def)
qed

definition pfreed :: "nat \<Rightarrow> probe_sched \<Rightarrow> probe_sched" where
  "pfreed i s = s\<lparr>pstore := (pstore s)(i := None), pjobs := remove1 i (pjobs s), phistory := remove1 i (phistory s)\<rparr>"

lemma pfreed_simps [simp]:
  "pjobs (pfreed i s) = remove1 i (pjobs s)" "phistory (pfreed i s) = remove1 i (phistory s)" "pstore (pfreed i s) = (pstore s)(i := None)"
  "pfresh (pfreed i s) = pfresh s" "psent (pfreed i s) = psent s"
  by (simp_all add: pfreed_def)

lemma probe_job_free_ok:
  assumes "probe_core s" "pstore s i = Some j"
  shows "probe_job_free s i = Ret (pfreed i s)" "probe_core (pfreed i s)" "idle s \<Longrightarrow> idle (pfreed i s)"
proof -
  have "pdone j \<Longrightarrow> i \<notin> set (pjobs s)" "\<not> pdone j \<Longrightarrow> i \<notin> set (phistory s)"
    using assms core_pjobs core_phistory by auto
  then show "probe_job_free s i = Ret (pfreed i s)"
    using assms(2) by (cases s) (auto simp: probe_job_free_def pfreed_def remove1_idem Let_def)
  show "probe_core (pfreed i s)"
    using assms unfolding probe_core_def pfreed_simps by (auto split: if_splits)
  show "idle (pfreed i s)" if "idle s" using that by (auto simp: idle_def split: if_splits)
qed

text \<open>A new scheduled job for a record no job is for.\<close>

lemma probe_job_new_ok:
  assumes "probe_core s" "\<forall>i j. pstore s i = Some j \<longrightarrow> rr_abs (precord j) \<noteq> rr_abs r"
    and "pjob_ok j" "precord j = r" "\<not> pdone j"
  shows "\<exists>s'. probe_job_new s r False tv = (s', pfresh s) \<and> probe_core (set_pjob (pfresh s) j s') \<and>
    pstore s' = (pstore s)(pfresh s \<mapsto> \<lparr>ptime_event = None, pchosen = False, pdone = False, pdelivery = tv, precord = r\<rparr>) \<and>
    psent s' = psent s"
proof -
  let ?i = "pfresh s"
  have new: "pstore s ?i = None"
    using core_pjob [OF assms(1), of ?i] by (cases "pstore s ?i") auto
  obtain s' where s': "probe_job_new s r False tv = (s', ?i)" by (simp add: probe_job_new_def Let_def)
  then have f: "pstore s' = (pstore s)(?i \<mapsto> \<lparr>ptime_event = None, pchosen = False, pdone = False, pdelivery = tv, precord = r\<rparr>)"
    "pjobs s' = ?i # pjobs s" "phistory s' = phistory s" "pfresh s' = Suc ?i" "psent s' = psent s"
    by (auto simp: probe_job_new_def Let_def set_pjob_def)
  have notin: "?i \<notin> set (pjobs s)" "?i \<notin> set (phistory s)" using new core_pjobs core_phistory assms(1) by auto
  have unique: "i1 = i2" if "((pstore s)(?i \<mapsto> j)) i1 = Some j1" "((pstore s)(?i \<mapsto> j)) i2 = Some j2"
      "rr_abs (precord j1) = rr_abs (precord j2)" for i1 i2 j1 j2
    using that assms(2,4) core_punique [OF assms(1), of i1 j1 i2 j2] by (metis fun_upd_apply option.inject)
  have "probe_core (set_pjob ?i j s')"
  proof (rule probe_coreI)
    show "distinct (pjobs (set_pjob ?i j s') @ phistory (set_pjob ?i j s'))"
      using assms(1) notin by (simp add: f probe_core_def)
    fix i
    show "i \<in> set (pjobs (set_pjob ?i j s')) \<longleftrightarrow> (\<exists>j'. pstore (set_pjob ?i j s') i = Some j' \<and> \<not> pdone j')"
      using core_pjobs [OF assms(1), of i] assms(5) new by (auto simp: f)
    show "i \<in> set (phistory (set_pjob ?i j s')) \<longleftrightarrow> (\<exists>j'. pstore (set_pjob ?i j s') i = Some j' \<and> pdone j')"
      using core_phistory [OF assms(1), of i] assms(5) new by (auto simp: f)
    fix j' assume "pstore (set_pjob ?i j s') i = Some j'"
    then show "i < pfresh (set_pjob ?i j s') \<and> pjob_ok j'"
      using core_pjob [OF assms(1), of i j'] assms(3) by (auto simp: f split: if_splits)
  next
    fix i i' j1 j2
    assume "pstore (set_pjob ?i j s') i = Some j1" "pstore (set_pjob ?i j s') i' = Some j2" "rr_abs (precord j1) = rr_abs (precord j2)"
    then show "i = i'" using unique [of i j1 i' j2] by (simp only: f set_pjob_simps fun_upd_upd)
  qed
  with s' f show ?thesis by blast
qed

section \<open>Looking for jobs\<close>

definition probes_for :: "rr \<Rightarrow> pjob \<Rightarrow> bool" where
  "probes_for r j \<longleftrightarrow> rr_abs (precord j) = rr_abs r"

lemma probe_equal: "probe_core s \<Longrightarrow> pstore s i = Some j \<Longrightarrow> rr_ok r \<Longrightarrow> avahi_record_equal_no_ttl (precord j) r = Ret (probes_for r j)"
  using core_record [of s i j] by (simp add: record_equal_abs probes_for_def)

lemma find_scheduled_probe_ok:
  assumes "probe_core s" "rr_ok r"
  shows "\<exists>x. find_scheduled_probe s r (pjobs s) = Ret x \<and>
    (case x of
       None \<Rightarrow> \<forall>i j. pstore s i = Some j \<longrightarrow> \<not> pdone j \<longrightarrow> \<not> probes_for r j
     | Some i \<Rightarrow> \<exists>j. pstore s i = Some j \<and> \<not> pdone j \<and> probes_for r j)"
proof -
  have "set l \<subseteq> set (pjobs s) \<Longrightarrow> \<exists>x. find_scheduled_probe s r l = Ret x \<and>
    (case x of
       None \<Rightarrow> \<forall>i \<in> set l. \<forall>j. pstore s i = Some j \<longrightarrow> \<not> probes_for r j
     | Some i \<Rightarrow> \<exists>j. pstore s i = Some j \<and> \<not> pdone j \<and> probes_for r j)" for l
  proof (induction l)
    case (Cons i l)
    then obtain j where j: "pstore s i = Some j" "\<not> pdone j" using core_pjobs [OF assms(1)] by auto
    with Cons probe_equal [OF assms(1) j(1) assms(2)] show ?case by (cases "probes_for r j") (auto split: option.splits)
  qed simp
  from this [OF order.refl] obtain x where "find_scheduled_probe s r (pjobs s) = Ret x"
    "case x of
       None \<Rightarrow> \<forall>i \<in> set (pjobs s). \<forall>j. pstore s i = Some j \<longrightarrow> \<not> probes_for r j
     | Some i \<Rightarrow> \<exists>j. pstore s i = Some j \<and> \<not> pdone j \<and> probes_for r j" by auto
  then show ?thesis
    using core_pjobs [OF assms(1)] by (intro exI [of _ x]) (auto split: option.splits)
qed

definition probed_lately :: "timeval \<Rightarrow> pjob \<Rightarrow> bool" where
  "probed_lately now j \<longleftrightarrow> usec_of now - usec_of (pdelivery j) \<le> AVAHI_PROBE_HISTORY_MSEC * 1000"

text \<open>The result of looking in the history: an outdated job is freed.\<close>

definition history_result :: "timeval \<Rightarrow> rr \<Rightarrow> probe_sched \<Rightarrow> probe_sched \<Rightarrow> nat option \<Rightarrow> bool" where
  "history_result now r s s' x \<longleftrightarrow>
     (s' = s \<and> x = None \<and> (\<forall>i j. pstore s i = Some j \<longrightarrow> pdone j \<longrightarrow> \<not> probes_for r j)) \<or>
     (\<exists>i j. pstore s i = Some j \<and> pdone j \<and> probes_for r j \<and>
        (if probed_lately now j then s' = s \<and> x = Some i else s' = pfreed i s \<and> x = None))"

lemma find_history_probe_ok:
  assumes "probe_core s" "rr_ok r"
  shows "\<exists>s' x. find_history_probe now s r (phistory s) = Ret (s', x) \<and> history_result now r s s' x"
proof -
  have "set l \<subseteq> set (phistory s) \<Longrightarrow>
    (\<forall>i \<in> set (phistory s) - set l. \<forall>j. pstore s i = Some j \<longrightarrow> \<not> probes_for r j) \<Longrightarrow>
    \<exists>s' x. find_history_probe now s r l = Ret (s', x) \<and> history_result now r s s' x" for l
  proof (induction l)
    case Nil
    then have "\<forall>i j. pstore s i = Some j \<longrightarrow> pdone j \<longrightarrow> \<not> probes_for r j" using core_phistory [OF assms(1)] by fastforce
    then show ?case by (simp add: history_result_def)
  next
    case (Cons i l)
    then obtain j where j: "pstore s i = Some j" "pdone j" using core_phistory [OF assms(1)] by auto
    note eq = probe_equal [OF assms(1) j(1) assms(2)]
    show ?case
    proof (cases "probes_for r j")
      case True
      have "find_history_probe now s r (i # l) = Ret (if probed_lately now j then (s, Some i) else (pfreed i s, None))"
        using j True eq probe_job_free_ok(1) [OF assms(1) j(1)]
        by (auto simp: probed_lately_def avahi_age_def timeval_diff)
      moreover have "history_result now r s (if probed_lately now j then s else pfreed i s) (if probed_lately now j then Some i else None)"
        using j True by (auto simp: history_result_def)
      ultimately show ?thesis by (cases "probed_lately now j") auto
    next
      case False
      have "\<forall>i' \<in> set (phistory s) - set l. \<forall>j'. pstore s i' = Some j' \<longrightarrow> \<not> probes_for r j'"
        using Cons.prems(2) False j by auto
      with Cons.IH Cons.prems(1) False j eq show ?thesis by auto
    qed
  qed
  from this [OF order.refl] show ?thesis by simp
qed

section \<open>Posting\<close>

text \<open>The job for a record in a state: at most one.\<close>

definition job_for :: "probe_sched \<Rightarrow> rr \<Rightarrow> bool \<Rightarrow> pjob \<Rightarrow> bool" where
  "job_for s r finished j \<longleftrightarrow> (\<exists>i. pstore s i = Some j) \<and> (pdone j \<longleftrightarrow> finished) \<and> probes_for r j"

lemma history_result_new:
  assumes "probe_inv s" "history_result now r s s' None"
  shows "probe_inv s'" "psent s' = psent s" "\<forall>i j. pstore s' i = Some j \<longrightarrow> pdone j \<longrightarrow> \<not> probes_for r j"
    "\<forall>i j. \<not> pdone j \<longrightarrow> (pstore s' i = Some j \<longleftrightarrow> pstore s i = Some j)"
    "\<not> (\<exists>j. job_for s r True j \<and> probed_lately now j)"
proof -
  have core: "probe_core s" "idle s" using assms(1) by (auto simp: probe_inv_def)
  consider "\<forall>i j. pstore s i = Some j \<longrightarrow> pdone j \<longrightarrow> \<not> probes_for r j" "s' = s"
    | i j where "pstore s i = Some j" "pdone j" "probes_for r j" "\<not> probed_lately now j" "s' = pfreed i s"
    using assms(2) by (auto simp: history_result_def split: if_splits)
  then have "probe_inv s' \<and> psent s' = psent s \<and> (\<forall>i j. pstore s' i = Some j \<longrightarrow> pdone j \<longrightarrow> \<not> probes_for r j) \<and>
    (\<forall>i j. \<not> pdone j \<longrightarrow> (pstore s' i = Some j \<longleftrightarrow> pstore s i = Some j)) \<and> \<not> (\<exists>j. job_for s r True j \<and> probed_lately now j)"
  proof cases
    case 1
    with assms(1) show ?thesis by (auto simp: job_for_def)
  next
    case (2 i j)
    have only: "i' = i \<and> j' = j" if "pstore s i' = Some j'" "probes_for r j'" for i' j'
      using core_punique [OF core(1) that(1) 2(1)] that 2(1,3) by (simp add: probes_for_def)
    have "probe_inv s'" using probe_job_free_ok(2,3) [OF core(1) 2(1)] core(2) by (simp add: probe_inv_def 2(5))
    moreover have "\<forall>i' j'. pstore s' i' = Some j' \<longrightarrow> pdone j' \<longrightarrow> \<not> probes_for r j'"
      using only by (auto simp: 2(5))
    moreover have "\<forall>i' j'. \<not> pdone j' \<longrightarrow> (pstore s' i' = Some j' \<longleftrightarrow> pstore s i' = Some j')"
      using 2(1,2) by (auto simp: 2(5))
    moreover have "\<not> (\<exists>j. job_for s r True j \<and> probed_lately now j)"
      using only 2(4) by (auto simp: job_for_def)
    ultimately show ?thesis using 2(5) by simp
  qed
  then show "probe_inv s'" "psent s' = psent s" "\<forall>i j. pstore s' i = Some j \<longrightarrow> pdone j \<longrightarrow> \<not> probes_for r j"
    "\<forall>i j. \<not> pdone j \<longrightarrow> (pstore s' i = Some j \<longleftrightarrow> pstore s i = Some j)"
    "\<not> (\<exists>j. job_for s r True j \<and> probed_lately now j)" by blast+
qed

lemma probe_post_ok:
  fixes immediately :: bool
  assumes inv: "probe_inv s" and r: "probeable r" and now: "normalized now"
  defines "tv \<equiv> elapse_after now (if immediately then 0 else AVAHI_PROBE_DEFER_MSEC)"
  shows "\<exists>s' x. avahi_probe_scheduler_post now s r immediately = Ret (s', x) \<and> probe_inv s' \<and> psent s' = psent s \<and>
    (if \<exists>j. job_for s r True j \<and> probed_lately now j then s' = s \<and> \<not> x
     else x \<and> (\<exists>j. job_for s' r False j \<and> usec_of (pdelivery j) \<le> usec_of tv \<and>
       (\<forall>j0. job_for s r False j0 \<longrightarrow> usec_of (pdelivery j) \<le> usec_of (pdelivery j0))))"
proof -
  have core: "probe_core s" using inv by (simp add: probe_inv_def)
  have rok: "rr_ok r" "\<not> avahi_key_is_pattern (rkey r)" using r by (simp_all add: probeable_def postable_def)
  have tvn: "normalized tv" using now by (simp add: tv_def normalized_elapse AVAHI_PROBE_DEFER_MSEC_def)
  from find_history_probe_ok [OF core rok(1)] obtain s1 x where
    s1: "find_history_probe now s r (phistory s) = Ret (s1, x)" "history_result now r s s1 x" by blast
  show ?thesis
  proof (cases x)
    case (Some i)
    with s1(2) have "s1 = s" "\<exists>j. job_for s r True j \<and> probed_lately now j"
      by (auto simp: history_result_def job_for_def split: if_splits)
    with s1 Some rok inv show ?thesis by (intro exI [of _ s] exI [of _ False]) (simp add: avahi_probe_scheduler_post_def)
  next
    case None
    note n = history_result_new [OF inv s1(2) [unfolded None]]
    have core1: "probe_core s1" "idle s1" using n(1) by (simp_all add: probe_inv_def)
    have same: "job_for s1 r False j0 \<longleftrightarrow> job_for s r False j0" for j0 using n(4) by (auto simp: job_for_def)
    from find_scheduled_probe_ok [OF core1(1) rok(1)] obtain y where y: "find_scheduled_probe s1 r (pjobs s1) = Ret y"
      "case y of
         None \<Rightarrow> \<forall>i j. pstore s1 i = Some j \<longrightarrow> \<not> pdone j \<longrightarrow> \<not> probes_for r j
       | Some i \<Rightarrow> \<exists>j. pstore s1 i = Some j \<and> \<not> pdone j \<and> probes_for r j" by blast
    show ?thesis
    proof (cases y)
      case (Some i)
      with y(2) obtain j where j: "pstore s1 i = Some j" "\<not> pdone j" "probes_for r j" by auto
      have only: "j0 = j" if "job_for s r False j0" for j0
        using that core_punique [OF core1(1) j(1)] j unfolding same [symmetric] by (fastforce simp: job_for_def probes_for_def)
      let ?b = "avahi_timeval_compare tv (pdelivery j) < 0"
      let ?j = "if ?b then j\<lparr>pdelivery := tv, ptime_event := Some tv\<rparr> else j"
      let ?s = "set_pjob i ?j s1"
      have jok: "pjob_ok j" using core_pjob [OF core1(1) j(1)] by simp
      then have le: "usec_of (pdelivery ?j) \<le> usec_of tv" "usec_of (pdelivery ?j) \<le> usec_of (pdelivery j)"
        using timeval_compare_usec [OF tvn, of "pdelivery j"] by (auto simp: pjob_ok_def split: if_splits)
      have jj: "pjob_ok ?j" "precord ?j = precord j" "pdone ?j = pdone j" "pchosen ?j = pchosen j" using jok tvn j(2) by (auto simp: pjob_ok_def)
      from jj(4) core_set_pjob [OF core1(1) j(1) jj(1-3)] have inv': "probe_inv ?s"
        using core1(2) j(1,2) by (auto simp: probe_inv_def idle_def)
      have "(if ?b then set_pjob i (j\<lparr>pdelivery := tv, ptime_event := Some tv\<rparr>) s1 else s1) = ?s"
        using j(1) by (cases s1) (simp add: set_pjob_def fun_upd_idem)
      then have "avahi_probe_scheduler_post now s r immediately = Ret (?s, True)"
        using s1(1) None y(1) Some j(1) rok by (simp add: avahi_probe_scheduler_post_def Let_def flip: tv_def)
      moreover have "job_for ?s r False ?j" using j jj by (auto simp: job_for_def probes_for_def)
      ultimately show ?thesis
        using n(2,5) inv' only le by (intro exI [of _ ?s] exI [of _ True]) auto
    next
      case None
      with y(2) n(3) have none: "\<forall>i j. pstore s1 i = Some j \<longrightarrow> rr_abs (precord j) \<noteq> rr_abs r" by (auto simp: probes_for_def)
      let ?j = "\<lparr>ptime_event = Some tv, pchosen = False, pdone = False, pdelivery = tv, precord = r\<rparr>"
      have "pjob_ok ?j" using r tvn by (simp add: pjob_ok_def)
      from probe_job_new_ok [OF core1(1) none this, of tv] obtain s2 where s2: "probe_job_new s1 r False tv = (s2, pfresh s1)"
        "probe_core (set_pjob (pfresh s1) ?j s2)"
        "pstore s2 = (pstore s1)(pfresh s1 \<mapsto> \<lparr>ptime_event = None, pchosen = False, pdone = False, pdelivery = tv, precord = r\<rparr>)"
        "psent s2 = psent s1" by auto
      let ?s = "set_pjob (pfresh s1) ?j s2"
      have "avahi_probe_scheduler_post now s r immediately = Ret (?s, True)"
        using s1(1) \<open>x = None\<close> y(1) None s2(1,3) rok by (simp add: avahi_probe_scheduler_post_def Let_def flip: tv_def)
      moreover have "probe_inv ?s" using s2(2,3) core1(2) by (auto simp: probe_inv_def idle_def)
      moreover have "job_for ?s r False ?j" by (auto simp: job_for_def probes_for_def)
      moreover have "\<not> job_for s r False j0" for j0
        unfolding same [symmetric] using none by (auto simp: job_for_def probes_for_def)
      ultimately show ?thesis
        using n(2,5) s2(4) by (intro exI [of _ ?s] exI [of _ True]) auto
    qed
  qed
qed

section \<open>Clearing\<close>

lemma free_probe_jobs_ok:
  assumes "probe_inv s" "length (l s) \<le> m" "\<And>s. probe_core s \<Longrightarrow> set (l s) \<subseteq> dom (pstore s)"
    and "\<And>i s. l (pfreed i s) = remove1 i (l s)"
  shows "\<exists>s'. free_probe_jobs l m s = Ret s' \<and> probe_inv s' \<and> l s' = [] \<and> psent s' = psent s \<and>
    set (pjobs s') \<subseteq> set (pjobs s)"
  using assms
proof (induction m arbitrary: s)
  case 0
  then show ?case by (simp add: free_probe_jobs.simps)
next
  case (Suc m)
  show ?case
  proof (cases "l s")
    case Nil
    with Suc.prems show ?thesis by (simp add: free_probe_jobs.simps)
  next
    case (Cons i l')
    have core: "probe_core s" "idle s" using Suc.prems(1) by (simp_all add: probe_inv_def)
    with Suc.prems(3) Cons obtain j where j: "pstore s i = Some j" by fastforce
    note free = probe_job_free_ok [OF core(1) j]
    have "probe_inv (pfreed i s)" using free core by (simp add: probe_inv_def)
    moreover have "length (l (pfreed i s)) \<le> m" using Suc.prems(2,4) Cons by simp
    ultimately obtain s' where "free_probe_jobs l m (pfreed i s) = Ret s'" "probe_inv s'" "l s' = []" "psent s' = psent s"
        "set (pjobs s') \<subseteq> set (remove1 i (pjobs s))"
      using Suc.IH [of "pfreed i s"] Suc.prems(3,4) by auto
    with Cons free(1) set_remove1_subset [of i "pjobs s"] show ?thesis by (subst free_probe_jobs.simps) auto
  qed
qed

lemma probe_clear_ok:
  assumes "probe_inv s"
  shows "\<exists>s'. avahi_probe_scheduler_clear s = Ret s' \<and> probe_inv s' \<and> psent s' = psent s \<and> pstore s' = Map.empty"
proof -
  have core: "probe_core s" using assms by (simp add: probe_inv_def)
  from free_probe_jobs_ok [OF assms, of pjobs "length (pjobs s)"] obtain s1 where
    s1: "free_probe_jobs pjobs (length (pjobs s)) s = Ret s1" "probe_inv s1" "pjobs s1 = []" "psent s1 = psent s"
    using core_pjobs by (fastforce simp: subset_iff)
  from free_probe_jobs_ok [OF s1(2), of phistory "length (phistory s1)"] obtain s2 where
    s2: "free_probe_jobs phistory (length (phistory s1)) s1 = Ret s2" "probe_inv s2" "phistory s2 = []" "psent s2 = psent s"
      "pjobs s2 = []"
    using core_phistory s1 by (fastforce simp: subset_iff)
  have "pstore s2 i = None" for i
    using s2 core_pjobs [of s2 i] core_phistory [of s2 i] by (cases "pstore s2 i") (auto simp: probe_inv_def)
  then have "pstore s2 = Map.empty" by blast
  with s1 s2 show ?thesis by (auto simp: avahi_probe_scheduler_clear_def)
qed

end
