(* ===== verification/Probe_Send.thy ===== *)
theory Probe_Send
  imports Probe_Inv
begin

text \<open>
  What the time event of a scheduled probe sends: a packet with questions of type ANY, each for the
  name and class of records that are claimed in its authority section.
\<close>

section \<open>Questions, records and their sizes\<close>

definition probe_question :: "rr \<Rightarrow> key" where
  "probe_question r = \<lparr>name = name (rkey r), clazz = clazz (rkey r), ktype = AVAHI_DNS_TYPE_ANY\<rparr>"

definition covers :: "key \<Rightarrow> rr \<Rightarrow> bool" where
  "covers k r \<longleftrightarrow> folded (name k) = folded (name (rkey r)) \<and> clazz k = clazz (rkey r)"

definition asked :: "key \<Rightarrow> entry" where
  "asked k = Question k False"

definition claimed :: "rr \<Rightarrow> entry" where
  "claimed r = Answer r False 0"

definition estimate :: "rr \<Rightarrow> nat" where
  "estimate r = (case avahi_record_get_estimate_size r of Ret n \<Rightarrow> n | Crash \<Rightarrow> 0)"

lemma probeable_facts:
  assumes "probeable r"
  shows "sent_record r" "name_ok (name (rkey r))" "sent_key (probe_question r)" "name_ok (name (probe_question r))"
    "avahi_key_new (name (rkey r)) (clazz (rkey r)) AVAHI_DNS_TYPE_ANY = Ret (Some (probe_question r))"
proof -
  have r: "sent_record r" "sent_key (rkey r)" "key_ok (rkey r)" using assms by (auto simp: probeable_def postable_def rr_ok_def)
  then show "sent_record r" "name_ok (name (rkey r))" "sent_key (probe_question r)" "name_ok (name (probe_question r))"
    by (simp_all add: sent_key_def probe_question_def key_ok_def)
  from r(2) show "avahi_key_new (name (rkey r)) (clazz (rkey r)) AVAHI_DNS_TYPE_ANY = Ret (Some (probe_question r))"
    unfolding probe_question_def sent_key_def
    by (intro sent_name_key(1) [where m = 256]) (simp_all add: AVAHI_DOMAIN_NAME_MAX_def)
qed

lemma estimate_size:
  assumes "sent_record r"
  shows "avahi_record_get_estimate_size r = Ret (estimate r)" "11 \<le> estimate r" "estimate r \<le> record_room r"
proof -
  from assms have "sent_rdata (ktype (rkey r)) (rdata r)" by (simp add: sent_record_def)
  then have "avahi_record_get_estimate_size r = Ret (estimate r) \<and> 11 \<le> estimate r \<and> estimate r \<le> record_room r"
    by (cases rule: sent_rdata_cases)
      (auto simp: estimate_def avahi_record_get_estimate_size_def rr_case_def record_room_def avahi_key_get_estimate_size_def)
  then show "avahi_record_get_estimate_size r = Ret (estimate r)" "11 \<le> estimate r" "estimate r \<le> record_room r" by simp_all
qed

lemma key_abs_question: "key_abs (probe_question r) = key_abs (probe_question r') \<longleftrightarrow> covers (probe_question r) r'"
  by (simp add: key_abs_def probe_question_def covers_def)

lemma key_room_question: "key_room (probe_question r) = avahi_key_get_estimate_size (rkey r) + 1"
  by (simp add: key_room_def probe_question_def avahi_key_get_estimate_size_def)

section \<open>Reserved space\<close>

definition roomy :: "dns_packet \<Rightarrow> bool" where
  "roomy p \<longleftrightarrow> psize p + res_size p \<le> max_size p"

definition space :: "dns_packet \<Rightarrow> nat" where
  "space p = max_size p - psize p - res_size p"

lemma reserved_space: "roomy p \<Longrightarrow> avahi_dns_packet_reserved_space p = Ret (space p)"
  by (simp add: roomy_def space_def avahi_dns_packet_reserved_space_def)

lemma append_key_frame:
  assumes "holds sc p xs" "sent_key k" "avahi_dns_packet_append_key sc p k u = Ret (p', x)"
  shows "res_size p' = res_size p"
proof -
  have "packet_ok sc p" "sent_name 256 (name k)" using assms(1,2) by (simp_all add: holds_def sent_key_def)
  from append_key_appended [OF this, of u] assms(3) show ?thesis
    by (auto simp: appended_def undone_def grown_def same_frame_def split: option.splits)
qed

section \<open>Choosing\<close>

definition picked :: "nat set \<Rightarrow> probe_sched \<Rightarrow> probe_sched" where
  "picked C s = s\<lparr>pstore := (\<lambda>i. map_option (\<lambda>j. if i \<in> C then j\<lparr>pchosen := True\<rparr> else j) (pstore s i))\<rparr>"

lemma picked_simps [simp]:
  "pjobs (picked C s) = pjobs s" "phistory (picked C s) = phistory s" "pfresh (picked C s) = pfresh s" "psent (picked C s) = psent s"
  "pstore (picked C s) i = map_option (\<lambda>j. if i \<in> C then j\<lparr>pchosen := True\<rparr> else j) (pstore s i)"
  by (simp_all add: picked_def)

lemma picked_empty [simp]: "picked {} s = s"
  by (simp add: picked_def option.map_ident)

lemma picked_insert: "set_chosen True i (picked C s) = picked (insert i C) s"
  by (cases s) (auto simp: set_chosen_def picked_def fun_eq_iff option.map_comp comp_def intro!: option.map_cong)

lemma unpick:
  assumes "idle s" "C \<subseteq> set l" "set l \<subseteq> set (pjobs s)" "probe_core s"
  shows "fold (set_chosen False) l (picked C s) = s"
proof -
  have f: "fold (set_chosen False) l t = t\<lparr>pstore := (\<lambda>i. if i \<in> set l then map_option (\<lambda>j. j\<lparr>pchosen := False\<rparr>) (pstore t i) else pstore t i)\<rparr>" for t
    by (induction l arbitrary: t) (auto simp: set_chosen_def fun_eq_iff option.map_comp comp_def intro!: option.map_cong)
  have "(if i \<in> set l then map_option (\<lambda>j. j\<lparr>pchosen := False\<rparr>) (pstore (picked C s) i) else pstore (picked C s) i) = pstore s i" for i
  proof (cases "i \<in> set l")
    case True
    with assms core_pjobs [OF assms(4), of i] obtain j where "pstore s i = Some j" "\<not> pchosen j" by (auto simp: idle_def)
    with True show ?thesis by (cases j) simp
  next
    case False
    with assms(2) have "i \<notin> C" by blast
    with False show ?thesis by (simp add: option.map_ident)
  qed
  then show ?thesis unfolding f by (cases s) (simp add: picked_def)
qed

definition record_of :: "probe_sched \<Rightarrow> nat \<Rightarrow> rr" where
  "record_of s i = precord (the (pstore s i))"

lemma scheduled_job:
  assumes "probe_inv s" "i \<in> set (pjobs s)"
  obtains j where "pstore s i = Some j" "\<not> pdone j" "\<not> pchosen j" "probeable (precord j)" "record_of s i = precord j"
proof -
  from assms have core: "probe_core s" and idle: "idle s" by (simp_all add: probe_inv_def)
  from core_pjobs [OF core, of i] assms(2) obtain j where j: "pstore s i = Some j" "\<not> pdone j" by auto
  with core_record [OF core j(1)] idle show thesis by (intro that [OF j]) (auto simp: idle_def record_of_def)
qed

text \<open>
  The scan stops at the first job that does not fit: a job with the name and class of the question
  is left out only when it, or one before it, is too large.
\<close>

definition blocked :: "probe_sched \<Rightarrow> key \<Rightarrow> nat set \<Rightarrow> dns_packet \<Rightarrow> nat list \<Rightarrow> bool" where
  "blocked s k C p l \<longleftrightarrow> (\<forall>pre x post. l = pre @ x # post \<longrightarrow> x \<notin> C \<longrightarrow> covers k (record_of s x) \<longrightarrow>
     (\<exists>y \<in> set (pre @ [x]) - C. space p < estimate (record_of s y)))"

lemma blocked_Nil [simp]: "blocked s k C p []"
  by (simp add: blocked_def)

lemma blocked_Cons:
  assumes "i \<notin> C \<Longrightarrow> covers k (record_of s i) \<Longrightarrow> space p < estimate (record_of s i)" "blocked s k C p l"
  shows "blocked s k C p (i # l)"
  unfolding blocked_def
proof (intro allI impI)
  fix pre x post assume l: "i # l = pre @ x # post" and x: "x \<notin> C" "covers k (record_of s x)"
  show "\<exists>y \<in> set (pre @ [x]) - C. space p < estimate (record_of s y)"
  proof (cases pre)
    case Nil
    with l x assms(1) show ?thesis by simp
  next
    case (Cons i' pre')
    with l have "l = pre' @ x # post" by simp
    with assms(2) x have "\<exists>y \<in> set (pre' @ [x]) - C. space p < estimate (record_of s y)" unfolding blocked_def by blast
    with Cons show ?thesis by auto
  qed
qed

lemma blocked_first: "i \<notin> C \<Longrightarrow> space p < estimate (record_of s i) \<Longrightarrow> blocked s k C p (i # l)"
  unfolding blocked_def by (auto simp: Cons_eq_append_conv)

lemma blocked_mono:
  assumes "blocked s k C p l" "space p' \<le> space p" "\<forall>y \<in> D. estimate (record_of s y) \<le> space p"
  shows "blocked s k (C \<union> D) p' l"
  unfolding blocked_def
proof (intro allI impI)
  fix pre x post assume x: "l = pre @ x # post" "x \<notin> C \<union> D" "covers k (record_of s x)"
  with assms(1) obtain y where y: "y \<in> set (pre @ [x]) - C" "space p < estimate (record_of s y)"
    unfolding blocked_def by blast
  with assms(2,3) have "y \<notin> D" "space p' < estimate (record_of s y)" by auto
  with y(1) show "\<exists>y \<in> set (pre @ [x]) - (C \<union> D). space p' < estimate (record_of s y)" by blast
qed

definition estimates :: "probe_sched \<Rightarrow> nat set \<Rightarrow> nat" where
  "estimates s C = (\<Sum>x \<in> C. estimate (record_of s x))"

text \<open>The outcome of choosing the jobs \<open>D\<close> for a question besides those in \<open>C\<close>.\<close>

definition chosen_also :: "probe_sched \<Rightarrow> key \<Rightarrow> nat set \<Rightarrow> nat set \<Rightarrow> nat list \<Rightarrow> dns_packet \<Rightarrow> dns_packet \<Rightarrow> bool" where
  "chosen_also s k C D l p p' \<longleftrightarrow> D \<subseteq> set l - C \<and> (\<forall>x \<in> D. covers k (record_of s x) \<and> estimate (record_of s x) \<le> space p) \<and>
     p' = p\<lparr>res_size := res_size p + estimates s D\<rparr> \<and> roomy p' \<and> blocked s k (C \<union> D) p' l"

lemma choose_matching_ok:
  assumes "probe_inv s" "name_ok (name k)" "roomy p" "set l \<subseteq> set (pjobs s)"
  shows "\<exists>D p'. choose_matching k l (picked C s) p = Ret (picked (C \<union> D) s, p') \<and> chosen_also s k C D l p p'"
  using assms(3,4)
proof (induction l arbitrary: C p)
  case Nil
  then show ?case by (intro exI [of _ "{}"] exI [of _ p]) (simp add: chosen_also_def estimates_def)
next
  case (Cons i l)
  then obtain j where j: "pstore s i = Some j" "\<not> pchosen j" "probeable (precord j)" "record_of s i = precord j"
    using scheduled_job [OF assms(1), of i] by (metis list.set_intros(1) subsetD)
  have rec: "sent_record (precord j)" "name_ok (name (rkey (precord j)))" using probeable_facts [OF j(3)] by simp_all
  note est = estimate_size [OF rec(1)]
  show ?case
  proof (cases "i \<notin> C \<and> covers k (precord j)")
    case False
    have skip: "choose_matching k (i # l) (picked C s) p = choose_matching k l (picked C s) p"
      using False j rec assms(2) by (auto simp: covers_def domain_equal_folded)
    from Cons.IH [OF Cons.prems(1), of C] Cons.prems(2) obtain D p' where
      "choose_matching k l (picked C s) p = Ret (picked (C \<union> D) s, p')" "chosen_also s k C D l p p'" by auto
    with False j skip show ?thesis
      by (intro exI [of _ D] exI [of _ p']) (auto simp: chosen_also_def intro!: blocked_Cons)
  next
    case True
    then have eq: "avahi_domain_equal (name k) (name (rkey (precord j))) = Ret True" "clazz k = clazz (rkey (precord j))"
      using rec assms(2) by (simp_all add: covers_def domain_equal_folded)
    show ?thesis
    proof (cases "space p < estimate (precord j)")
      case too_large: True
      with True j eq est(1) reserved_space [OF Cons.prems(1)]
      have "choose_matching k (i # l) (picked C s) p = Ret (picked C s, p)" by simp
      with too_large True j(4) Cons.prems(1) show ?thesis
        by (intro exI [of _ "{}"] exI [of _ p]) (simp add: chosen_also_def estimates_def blocked_first)
    next
      case False
      let ?n = "estimate (precord j)" and ?q = "p\<lparr>res_size := res_size p + estimate (precord j)\<rparr>"
      have q: "roomy ?q" "space ?q = space p - ?n" using False Cons.prems(1) by (auto simp: roomy_def space_def)
      then have "avahi_dns_packet_reserve_size p ?n = Ret (?q, res_size p + ?n)"
        by (simp add: avahi_dns_packet_reserve_size_def roomy_def)
      then have step: "choose_matching k (i # l) (picked C s) p = choose_matching k l (picked (insert i C) s) ?q"
        using True False j eq est(1) reserved_space [OF Cons.prems(1)] by (simp add: picked_insert)
      from Cons.IH [OF q(1), of "insert i C"] Cons.prems(2) obtain D p' where
        D: "choose_matching k l (picked (insert i C) s) ?q = Ret (picked (insert i C \<union> D) s, p')"
        "chosen_also s k (insert i C) D l ?q p'" by auto
      then have "finite D" "i \<notin> D" by (auto simp: chosen_also_def intro: finite_subset)
      then have "estimates s (insert i D) = ?n + estimates s D" by (simp add: estimates_def j(4))
      moreover have "insert i C \<union> D = C \<union> insert i D" by simp
      ultimately have "chosen_also s k C (insert i D) (i # l) p p'"
        using D(2) True False q(2) j(4) unfolding chosen_also_def by (auto intro!: blocked_Cons simp: add.assoc)
      with D(1) step \<open>insert i C \<union> D = C \<union> insert i D\<close> show ?thesis by (metis)
    qed
  qed
qed

section \<open>Filling a packet\<close>

text \<open>
  While a packet is being filled: the questions \<open>qs\<close> are in it, for the jobs in \<open>C\<close>, whose records
  have reserved space as far as it went.
\<close>

definition wanted :: "probe_sched \<Rightarrow> nat set \<Rightarrow> nat" where
  "wanted s C = (\<Sum>x \<in> C. key_room (rkey (record_of s x)))"

definition filling :: "bool \<Rightarrow> nat \<Rightarrow> probe_sched \<Rightarrow> nat set \<Rightarrow> key list \<Rightarrow> dns_packet \<Rightarrow> bool" where
  "filling sc mtu s C qs p \<longleftrightarrow>
     holds sc p (map asked qs) \<and> max_size p = packet_max mtu \<and> header p AVAHI_DNS_FIELD_FLAGS = 0 \<and> roomy p \<and>
     C \<subseteq> set (pjobs s) \<and> (\<forall>x \<in> C. \<exists>q \<in> set qs. covers q (record_of s x)) \<and>
     (\<forall>q \<in> set qs. \<exists>x \<in> C. q = probe_question (record_of s x)) \<and> distinct (map key_abs qs) \<and>
     (\<forall>q \<in> set qs. blocked s q C p (pjobs s)) \<and>
     psize p \<le> 12 + wanted s C \<and> res_size p \<le> estimates s C"

lemma filling_new:
  obtains p where "avahi_dns_packet_new_query mtu = Ret p" "filling sc mtu s {} [] p"
proof -
  have f: "AVAHI_DNS_FIELD_FLAGS < 6" and z: "AVAHI_DNS_FLAGS False False = 0" by (simp_all add: field_defs AVAHI_DNS_FLAGS_def)
  obtain p where p: "avahi_dns_packet_set_field (avahi_dns_packet_new mtu) AVAHI_DNS_FIELD_FLAGS (AVAHI_DNS_FLAGS False False) = Ret p"
    "holds sc p []" "psize p = 12" "max_size p = packet_max mtu"
    "\<And>k. k < 6 \<Longrightarrow> header p k = (if k = AVAHI_DNS_FIELD_FLAGS then AVAHI_DNS_FLAGS False False else 0)"
    by (rule holds_new [where mtu = mtu and v = "AVAHI_DNS_FLAGS False False" and sc = sc]) blast
  have "res_size p = 0"
    using p(1) by (auto simp: avahi_dns_packet_set_field_def avahi_dns_packet_new_def put_def Let_def split: if_splits)
  with p holds_size [OF p(2)] show thesis
    by (intro that [of p]) (simp_all add: avahi_dns_packet_new_query_def filling_def p(1) [unfolded z] p(5) [OF f] z roomy_def
        wanted_def estimates_def)
qed

lemma wanted_Un: "finite C \<Longrightarrow> finite D \<Longrightarrow> C \<inter> D = {} \<Longrightarrow> wanted s (C \<union> D) = wanted s C + wanted s D"
  "finite C \<Longrightarrow> finite D \<Longrightarrow> C \<inter> D = {} \<Longrightarrow> estimates s (C \<union> D) = estimates s C + estimates s D"
  by (simp_all add: wanted_def estimates_def sum.union_disjoint)

lemma wanted_member: "finite D \<Longrightarrow> x \<in> D \<Longrightarrow> key_room (rkey (record_of s x)) \<le> wanted s D"
  unfolding wanted_def by (rule member_le_sum) simp_all

lemma reserve_size:
  assumes "roomy p"
  obtains m where "avahi_dns_packet_reserve_size p n = Ret (p\<lparr>res_size := m\<rparr>, m)" "roomy (p\<lparr>res_size := m\<rparr>)"
    "res_size p \<le> m" "m \<le> res_size p + n"
proof -
  let ?m = "if psize p + res_size p + n \<le> max_size p then res_size p + n else res_size p"
  have "p\<lparr>res_size := res_size p\<rparr> = p" by (cases p) simp
  then have "avahi_dns_packet_reserve_size p n = Ret (p\<lparr>res_size := ?m\<rparr>, ?m)"
    using assms by (simp add: avahi_dns_packet_reserve_size_def roomy_def)
  with assms show thesis by (intro that [of ?m]) (auto simp: roomy_def)
qed

lemma res_size_update:
  "holds sc (p\<lparr>res_size := n\<rparr>) xs = holds sc p xs" "header (p\<lparr>res_size := n\<rparr>) k = header p k"
  by (simp_all add: holds_def packet_ok_def table_ok_def table_inv_def table_lookup_def header_def)

text \<open>One more question, and the jobs it covers.\<close>

lemma packet_add_probe_query_ok:
  assumes inv: "probe_inv s" and fill: "filling sc mtu s C qs p" and i: "i \<in> set (pjobs s)" "i \<notin> C"
    and first: "qs = [] \<or> (\<exists>pre post. pjobs s = pre @ i # post \<and> set pre \<subseteq> C)"
  shows "\<exists>C' p' b. packet_add_probe_query sc (picked C s) p i = Ret (picked C' s, p', b) \<and>
    (if b then filling sc mtu s C' (qs @ [probe_question (record_of s i)]) p' \<and> insert i C \<subseteq> C' \<and>
       key_room (rkey (record_of s i)) - 1 + estimate (record_of s i) \<le> space p
     else C' = C \<and> p' = p \<and> space p < key_room (rkey (record_of s i)) - 1 + estimate (record_of s i))"
proof -
  obtain j where j: "pstore s i = Some j" "\<not> pchosen j" "probeable (precord j)" "record_of s i = precord j"
    using scheduled_job [OF inv i(1)] by metis
  let ?r = "precord j" let ?q = "probe_question ?r" let ?n = "estimate ?r"
  note pf = probeable_facts [OF j(3)]
  note est = estimate_size [OF pf(1)]
  have roomy: "roomy p" and h: "holds sc p (map asked qs)" using fill by (simp_all add: filling_def)
  have room: "key_room (rkey ?r) - 1 = avahi_key_get_estimate_size (rkey ?r)" "key_room ?q = key_room (rkey ?r)"
    by (simp_all add: key_room_def avahi_key_get_estimate_size_def probe_question_def)
  show ?thesis
  proof (cases "space p < avahi_key_get_estimate_size (rkey ?r) + ?n")
    case True
    with i j est(1) reserved_space [OF roomy] have "packet_add_probe_query sc (picked C s) p i = Ret (picked C s, p, False)"
      by (simp add: packet_add_probe_query_def)
    with True room j(4) show ?thesis by (intro exI [of _ C] exI [of _ p] exI [of _ False]) simp
  next
    case False
    from append_key_holds [OF h pf(3), where u = False] obtain p1 x where
      x: "avahi_dns_packet_append_key sc p ?q False = Ret (p1, x)" "\<And>k. k < 6 \<Longrightarrow> header p1 k = header p k" "max_size p1 = max_size p"
        "case x of None \<Rightarrow> holds sc p1 (map asked qs) \<and> psize p1 = psize p \<and> max_size p < psize p + key_room ?q
         | Some i \<Rightarrow> holds sc p1 (map asked qs @ [Question ?q False]) \<and> psize p < psize p1 \<and> psize p1 \<le> psize p + key_room ?q" by blast
    have res: "res_size p1 = res_size p" by (rule append_key_frame [OF h pf(3) x(1)])
    have fits: "psize p + res_size p + avahi_key_get_estimate_size (rkey ?r) + ?n \<le> max_size p"
      using False roomy by (simp add: space_def roomy_def)
    with x(4) room est(2) have some: "x \<noteq> None" and p1: "holds sc p1 (map asked (qs @ [?q]))" "psize p < psize p1" "psize p1 \<le> psize p + key_room ?q"
      by (auto simp: asked_def key_room_def avahi_key_get_estimate_size_def split: option.splits)
    have roomy1: "roomy p1" using p1(3) fits est(2) room(2) res x(3)
      by (simp add: roomy_def key_room_def avahi_key_get_estimate_size_def)
    have space1: "space p1 \<le> space p" using p1(2) res x(3) by (simp add: space_def)
    from reserve_size [OF roomy1, of ?n] obtain m where m: "avahi_dns_packet_reserve_size p1 ?n = Ret (p1\<lparr>res_size := m\<rparr>, m)"
      "roomy (p1\<lparr>res_size := m\<rparr>)" "res_size p1 \<le> m" "m \<le> res_size p1 + ?n" by blast
    let ?p2 = "p1\<lparr>res_size := m\<rparr>"
    have space2: "space ?p2 \<le> space p1" using m(3) by (simp add: space_def)
    have nm: "name_ok (name ?q)" using pf(4) .
    from choose_matching_ok [OF inv nm m(2) order.refl, of "insert i C"] obtain D p3 where
      D: "choose_matching ?q (pjobs s) (picked (insert i C) s) ?p2 = Ret (picked (insert i C \<union> D) s, p3)"
        "chosen_also s ?q (insert i C) D (pjobs s) ?p2 p3" by blast
    let ?C = "insert i C \<union> D" let ?D = "insert i D"
    have run: "packet_add_probe_query sc (picked C s) p i = Ret (picked ?C s, p3, True)"
      using i j False est(1) reserved_space [OF roomy] pf(5) x(1) some m(1) D(1)
      by (simp add: packet_add_probe_query_def picked_insert)
    have p3: "p3 = p1\<lparr>res_size := m + estimates s D\<rparr>" "roomy p3" "blocked s ?q ?C p3 (pjobs s)"
      and Dsub: "D \<subseteq> set (pjobs s) - insert i C" and Dcov: "\<forall>x \<in> D. covers ?q (record_of s x) \<and> estimate (record_of s x) \<le> space p1"
      using D(2) space2 unfolding chosen_also_def by auto
    have same: "pdata p3 = pdata p1" "max_size p3 = max_size p" "\<And>k. header p3 k = header p1 k" "\<And>xs. holds sc p3 xs = holds sc p1 xs"
      unfolding p3(1) by (simp_all add: x(3) res_size_update)
    have space3: "space p3 \<le> space p" using m(3) res x(3) p1(2) unfolding p3(1) by (simp add: space_def)
    have fin: "finite C" "finite D" using fill Dsub by (auto simp: filling_def intro: finite_subset)
    have CD: "?C = C \<union> ?D" "C \<inter> ?D = {}" using Dsub i(2) by auto
    have small: "\<forall>y \<in> ?D. estimate (record_of s y) \<le> space p"
      using Dcov False j(4) space1 by auto
    have "filling sc mtu s ?C (qs @ [?q]) p3"
      unfolding filling_def
    proof (intro conjI)
      show "holds sc p3 (map asked (qs @ [?q]))" using p1(1) by (simp only: same)
      show "max_size p3 = packet_max mtu" "header p3 AVAHI_DNS_FIELD_FLAGS = 0" "roomy p3"
        using fill x(2) same p3(2) by (simp_all add: filling_def field_defs)
      show "?C \<subseteq> set (pjobs s)" using fill i(1) Dsub by (auto simp: filling_def)
      have "covers ?q (record_of s i)" by (simp add: covers_def probe_question_def j(4))
      with fill Dcov show "\<forall>x \<in> ?C. \<exists>q \<in> set (qs @ [?q]). covers q (record_of s x)" by (auto simp: filling_def)
      show "\<forall>q \<in> set (qs @ [?q]). \<exists>x \<in> ?C. q = probe_question (record_of s x)"
        using fill j(4) by (fastforce simp: filling_def)
      show "\<forall>q \<in> set (qs @ [?q]). blocked s q ?C p3 (pjobs s)"
        using fill p3(3) blocked_mono [OF _ space3 small] unfolding CD(1) by (auto simp: filling_def)
      have "key_abs q \<noteq> key_abs ?q" if q: "q \<in> set qs" for q
      proof
        assume eq: "key_abs q = key_abs ?q"
        from fill q obtain x where "q = probe_question (record_of s x)" by (auto simp: filling_def)
        with eq have c: "covers q (record_of s i)" using j(4) key_abs_question by simp
        from first q obtain pre post where pre: "pjobs s = pre @ i # post" "set pre \<subseteq> C" by auto
        have "blocked s q C p (pjobs s)" using fill q by (simp add: filling_def)
        with c pre(1) i(2) obtain y where "y \<in> set (pre @ [i]) - C" "space p < estimate (record_of s y)"
          unfolding blocked_def by blast
        with pre(2) False j(4) show False by auto
      qed
      then have "key_abs ?q \<notin> key_abs ` set qs" by (metis imageE)
      with fill show "distinct (map key_abs (qs @ [?q]))" by (simp add: filling_def)
      have "wanted s ?C = wanted s C + wanted s ?D" "estimates s ?C = estimates s C + estimates s ?D"
        unfolding CD(1) using wanted_Un [OF fin(1) _ CD(2)] fin(2) by simp_all
      moreover have "key_room ?q \<le> wanted s ?D" using wanted_member [of ?D i s] fin(2) room(2) j(4) by simp
      moreover have "i \<notin> D" using Dsub by blast
      then have "estimates s ?D = ?n + estimates s D" using fin(2) by (simp add: estimates_def j(4))
      ultimately show "psize p3 \<le> 12 + wanted s ?C" "res_size p3 \<le> estimates s ?C"
        using fill p1(3) same(1) p3(1) m(4) res by (simp_all add: filling_def)
    qed
    with run show ?thesis using j(4) False room(1) by (intro exI [of _ ?C] exI [of _ p3] exI [of _ True]) auto
  qed
qed

lemma add_probes_ok:
  assumes inv: "probe_inv s" and fill: "filling sc mtu s C qs p" and l: "pjobs s = pre @ l" "set pre \<subseteq> C"
  shows "\<exists>C' qs' p'. add_probes sc l (picked C s) p n = Ret (picked C' s, p', n + length qs') \<and>
    filling sc mtu s C' (qs @ qs') p' \<and> C \<subseteq> C' \<and>
    (12 + wanted s (set (pjobs s)) + estimates s (set (pjobs s)) \<le> packet_max mtu \<longrightarrow> C' = set (pjobs s))"
  using fill l
proof (induction l arbitrary: C qs p n pre)
  case Nil
  then show ?case by (intro exI [of _ C] exI [of _ "[]"] exI [of _ p]) (auto simp: filling_def)
next
  case (Cons i l)
  have i: "i \<in> set (pjobs s)" using Cons.prems(2) by simp
  obtain j where j: "pstore s i = Some j" "\<not> pchosen j" using scheduled_job [OF inv i] by metis
  have l: "pjobs s = (pre @ [i]) @ l" using Cons.prems(2) by simp
  show ?case
  proof (cases "i \<in> C")
    case True
    then have "set (pre @ [i]) \<subseteq> C" using Cons.prems(3) by simp
    from Cons.IH [OF Cons.prems(1) l this, of n] True j show ?thesis by simp
  next
    case False
    have first: "qs = [] \<or> (\<exists>pre post. pjobs s = pre @ i # post \<and> set pre \<subseteq> C)" using Cons.prems(2,3) by blast
    from packet_add_probe_query_ok [OF inv Cons.prems(1) i False first] obtain C1 p1 b where
      one: "packet_add_probe_query sc (picked C s) p i = Ret (picked C1 s, p1, b)"
      "if b then filling sc mtu s C1 (qs @ [probe_question (record_of s i)]) p1 \<and> insert i C \<subseteq> C1 \<and> key_room (rkey (record_of s i)) - 1 + estimate (record_of s i) \<le> space p
       else C1 = C \<and> p1 = p \<and> space p < key_room (rkey (record_of s i)) - 1 + estimate (record_of s i)" by blast
    show ?thesis
    proof (cases b)
      case True
      with one(2) have f: "filling sc mtu s C1 (qs @ [probe_question (record_of s i)]) p1" "insert i C \<subseteq> C1" by simp_all
      then have "set (pre @ [i]) \<subseteq> C1" using Cons.prems(3) by auto
      from Cons.IH [OF f(1) l this, of "n + 1"] obtain C' qs' p' where
        "add_probes sc l (picked C1 s) p1 (n + 1) = Ret (picked C' s, p', n + 1 + length qs')"
        "filling sc mtu s C' ((qs @ [probe_question (record_of s i)]) @ qs') p'" "C1 \<subseteq> C'"
        "12 + wanted s (set (pjobs s)) + estimates s (set (pjobs s)) \<le> packet_max mtu \<longrightarrow> C' = set (pjobs s)" by blast
      with one(1) True False j f(2) show ?thesis
        by (intro exI [of _ C'] exI [of _ "probe_question (record_of s i) # qs'"] exI [of _ p']) auto
    next
      case full: False
      with one have stop: "space p < key_room (rkey (record_of s i)) - 1 + estimate (record_of s i)"
        "add_probes sc (i # l) (picked C s) p n = Ret (picked C s, p, n)" using False j by auto
      have "\<not> 12 + wanted s (set (pjobs s)) + estimates s (set (pjobs s)) \<le> packet_max mtu"
      proof
        assume le: "12 + wanted s (set (pjobs s)) + estimates s (set (pjobs s)) \<le> packet_max mtu"
        have sub: "insert i C \<subseteq> set (pjobs s)" "finite C" using Cons.prems(1) i by (auto simp: filling_def intro: finite_subset)
        then have "wanted s (insert i C) \<le> wanted s (set (pjobs s))" "estimates s (insert i C) \<le> estimates s (set (pjobs s))"
          unfolding wanted_def estimates_def by (auto intro: sum_mono2)
        then have "key_room (rkey (record_of s i)) + wanted s C + estimate (record_of s i) + estimates s C + 12 \<le> packet_max mtu"
          using le False sub(2) by (simp add: wanted_def estimates_def)
        with stop(1) Cons.prems(1) show False by (auto simp: filling_def space_def roomy_def)
      qed
      with Cons.prems(1) stop(2) show ?thesis by (intro exI [of _ C] exI [of _ "[]"] exI [of _ p]) simp
    qed
  qed
qed

section \<open>The records\<close>

lemma idle_picked: "probe_core s \<Longrightarrow> normalized now \<Longrightarrow> i \<in> set (pjobs s) \<Longrightarrow>
    probe_job_mark_done now (picked C s) i = Ret (pmark now i (picked C s))"
  using core_pjobs [of s i] by (auto simp: probe_job_mark_done_def Let_def probe_job_set_elapse_time_def pmark_def probed_def set_pjob_def)

lemma picked_pmark: "pmark now i (picked C s) = picked C (pmark now i s)"
  by (cases s) (auto simp: pmark_def picked_def fun_eq_iff probed_def option.map_comp comp_def intro!: option.map_cong)

lemma picked_picked: "picked C (picked D s) = picked (C \<union> D) s"
  by (cases s) (auto simp: picked_def fun_eq_iff option.map_comp comp_def intro!: option.map_cong)

lemma picked_fold: "fold (pmark now) js (picked C s) = picked C (fold (pmark now) js s)"
  by (induction js arbitrary: s) (simp_all add: picked_pmark)

text \<open>Jobs that are done keep their mark.\<close>

definition all_probed :: "timeval \<Rightarrow> nat list \<Rightarrow> probe_sched \<Rightarrow> probe_sched" where
  "all_probed now js s = fold (\<lambda>i s. picked {i} (pmark now i s)) js s"

lemma inv_picked_done:
  assumes "probe_inv s" "pstore s i = Some j" "pdone j"
  shows "probe_inv (picked {i} s)"
proof -
  have core: "probe_core s" and idle: "idle s" using assms(1) by (simp_all add: probe_inv_def)
  have eq: "picked {i} s = set_pjob i (j\<lparr>pchosen := True\<rparr>) s"
    using assms(2) by (cases s) (auto simp: picked_def set_pjob_def fun_eq_iff option.map_ident)
  have "pjob_ok (j\<lparr>pchosen := True\<rparr>)" using core_pjob [OF core assms(2)] by (simp add: pjob_ok_def)
  from core_set_pjob [OF core assms(2) this] idle assms(3) show ?thesis
    unfolding eq by (auto simp: probe_inv_def idle_def)
qed

lemma inv_probed:
  assumes "probe_inv s" "i \<in> set (pjobs s)" "normalized now"
  shows "probe_inv (picked {i} (pmark now i s))"
proof -
  have core: "probe_core s" and idle: "idle s" using assms(1) by (simp_all add: probe_inv_def)
  from core_pjobs [OF core, of i] assms(2) obtain j where j: "pstore s i = Some j" "\<not> pdone j" by auto
  from probe_mark_done_ok(2,3) [OF core j assms(3)] idle have "probe_inv (pmark now i s)" by (simp add: probe_inv_def)
  then show ?thesis by (rule inv_picked_done [where j = "probed now j"]) (simp_all add: j)
qed

lemma record_of_probed [simp]: "record_of (picked {i} (pmark now i s)) x = record_of s x"
  by (cases "pstore s x") (auto simp: record_of_def)

lemma add_probe_records_ok:
  assumes "probe_inv s" "normalized now" "distinct l" "set l \<subseteq> set (pjobs s)" "C \<subseteq> set l" "holds sc p xs"
  shows "\<exists>js rest p'. add_probe_records sc now l (picked C s) p n = Ret (all_probed now js s, p', n + length js) \<and>
    filter (\<lambda>x. x \<in> C) l = js @ rest \<and> holds sc p' (xs @ map claimed (map (record_of s) js)) \<and>
    (\<forall>k < 6. header p' k = header p k) \<and> max_size p' = max_size p \<and>
    (psize p + (\<Sum>x \<in> C. record_room (record_of s x)) \<le> max_size p \<longrightarrow> rest = [])"
  using assms
proof (induction l arbitrary: s C p xs n)
  case Nil
  then show ?case by (intro exI [of _ "[]"] exI [of _ p]) (simp add: all_probed_def)
next
  case (Cons i l)
  have i: "i \<in> set (pjobs s)" using Cons.prems(4) by simp
  have core: "probe_core s" and idle: "idle s" using Cons.prems(1) by (simp_all add: probe_inv_def)
  obtain j where j: "pstore s i = Some j" "\<not> pdone j" "\<not> pchosen j" "probeable (precord j)" "record_of s i = precord j"
    using scheduled_job [OF Cons.prems(1) i] by metis
  show ?case
  proof (cases "i \<in> C")
    case False
    with Cons.prems have "set l \<subseteq> set (pjobs s)" "C \<subseteq> set l" "distinct l" by auto
    from Cons.IH [OF Cons.prems(1,2) this(3,1,2) Cons.prems(6), of n] False j show ?thesis by simp
  next
    case True
    have fin: "finite C" using Cons.prems(5) by (rule finite_subset) simp
    from append_record_holds [OF Cons.prems(6) probeable_facts(1) [OF j(4)], where f = False and m = 0] obtain p1 x where
      x: "avahi_dns_packet_append_record sc p (precord j) False 0 = Ret (p1, x)" "\<And>k. k < 6 \<Longrightarrow> header p1 k = header p k" "max_size p1 = max_size p"
        "case x of None \<Rightarrow> holds sc p1 xs \<and> psize p1 = psize p \<and> max_size p < psize p + record_room (precord j)
         | Some i \<Rightarrow> holds sc p1 (xs @ [Answer (precord j) False 0]) \<and> psize p < psize p1 \<and> psize p1 \<le> psize p + record_room (precord j)" by blast
    have sum: "(\<Sum>x \<in> C. record_room (record_of s x)) = record_room (precord j) + (\<Sum>x \<in> C - {i}. record_room (record_of s x))"
      using sum.remove [OF fin True, of "\<lambda>x. record_room (record_of s x)"] j(5) by simp
    show ?thesis
    proof (cases x)
      case None
      with x(1) j True have "add_probe_records sc now (i # l) (picked C s) p n = Ret (fold (set_chosen False) (i # l) (picked C s), p1, n)"
        by (simp del: fold_simps)
      also have "fold (set_chosen False) (i # l) (picked C s) = s" by (rule unpick [OF idle Cons.prems(5,4) core])
      finally show ?thesis using None x sum
        by (intro exI [of _ "[]"] exI [of _ "filter (\<lambda>x. x \<in> C) (i # l)"] exI [of _ p1]) (simp add: all_probed_def)
    next
      case (Some y)
      let ?s = "picked {i} (pmark now i s)"
      have inv1: "probe_inv ?s" by (rule inv_probed [OF Cons.prems(1) i Cons.prems(2)])
      have "pmark now i (picked C s) = picked (C - {i}) ?s"
        using True by (simp add: picked_pmark picked_picked insert_absorb)
      then have step: "add_probe_records sc now (i # l) (picked C s) p n = add_probe_records sc now l (picked (C - {i}) ?s) p1 (n + 1)"
        using j True x(1) Some idle_picked [OF core Cons.prems(2) i, of C] by simp
      have l: "distinct l" "set l \<subseteq> set (pjobs ?s)" "C - {i} \<subseteq> set l" "i \<notin> set l"
        using Cons.prems(3-5) core_distinct(1) [OF core] by auto
      have h1: "holds sc p1 (xs @ [claimed (precord j)])" using x(4) Some by (simp add: claimed_def)
      from Cons.IH [OF inv1 Cons.prems(2) l(1-3) h1, of "n + 1"] obtain js rest p' where
        r: "add_probe_records sc now l (picked (C - {i}) ?s) p1 (n + 1) = Ret (all_probed now js ?s, p', n + 1 + length js)"
          "filter (\<lambda>x. x \<in> C - {i}) l = js @ rest" "holds sc p' ((xs @ [claimed (precord j)]) @ map claimed (map (record_of ?s) js))"
          "\<forall>k < 6. header p' k = header p1 k" "max_size p' = max_size p1"
          "psize p1 + (\<Sum>x \<in> C - {i}. record_room (record_of ?s x)) \<le> max_size p1 \<longrightarrow> rest = []" by blast
      have "filter (\<lambda>x. x \<in> C - {i}) l = filter (\<lambda>x. x \<in> C) l" using l(4) by (intro filter_cong) auto
      moreover have "all_probed now js ?s = all_probed now (i # js) s" by (simp add: all_probed_def)
      moreover have same: "record_of ?s = record_of s" by (rule ext) simp
      moreover have "n + 1 + length js = n + length (i # js)" by simp
      ultimately have run: "add_probe_records sc now (i # l) (picked C s) p n = Ret (all_probed now (i # js) s, p', n + length (i # js))"
        and chosen: "filter (\<lambda>x. x \<in> C) (i # l) = (i # js) @ rest"
        using step r(1,2) True by (simp_all only: filter.simps if_True append_Cons)
      have "holds sc p' (xs @ map claimed (map (record_of s) (i # js)))" using r(3) j(5) by (simp add: same)
      moreover have "\<forall>k < 6. header p' k = header p k" "max_size p' = max_size p" using r(4,5) x(2,3) by simp_all
      moreover have "psize p + (\<Sum>x \<in> C. record_room (record_of s x)) \<le> max_size p \<longrightarrow> rest = []"
        using r(6) x(3,4) Some sum unfolding same by simp
      ultimately show ?thesis using run chosen by blast
    qed
  qed
qed

lemma all_probed_simps:
  "pjobs (all_probed now js s) = fold remove1 js (pjobs s)" "psent (all_probed now js s) = psent s"
  by (induction js arbitrary: s) (simp_all add: all_probed_def)

lemma inv_all_probed:
  "probe_inv s \<Longrightarrow> normalized now \<Longrightarrow> set js \<subseteq> set (pjobs s) \<Longrightarrow> distinct js \<Longrightarrow> probe_inv (all_probed now js s)"
proof (induction js arbitrary: s)
  case (Cons i js)
  let ?s = "picked {i} (pmark now i s)"
  have "distinct (pjobs s)" using Cons.prems(1) core_distinct by (simp add: probe_inv_def)
  then have "set js \<subseteq> set (pjobs ?s)" using Cons.prems(3,4) by auto
  with Cons.IH [OF inv_probed [OF Cons.prems(1) _ Cons.prems(2)] Cons.prems(2)] Cons.prems(3,4) show ?case
    by (simp add: all_probed_def)
qed (simp add: all_probed_def)

lemma all_probed_store:
  "i \<notin> set js \<Longrightarrow> pstore (all_probed now js s) i = pstore s i"
  "distinct js \<Longrightarrow> i \<in> set js \<Longrightarrow> pstore s i = Some j \<Longrightarrow>
     \<exists>j'. pstore (all_probed now js s) i = Some j' \<and> pdone j' \<and> pdelivery j' = now \<and> precord j' = precord j"
proof -
  show keep: "i \<notin> set js \<Longrightarrow> pstore (all_probed now js s) i = pstore s i" for js s
    by (induction js arbitrary: s) (simp_all add: all_probed_def option.map_ident)
  show "distinct js \<Longrightarrow> i \<in> set js \<Longrightarrow> pstore s i = Some j \<Longrightarrow>
     \<exists>j'. pstore (all_probed now js s) i = Some j' \<and> pdone j' \<and> pdelivery j' = now \<and> precord j' = precord j"
  proof (induction js arbitrary: s)
    case (Cons i' js)
    let ?s = "picked {i'} (pmark now i' s)"
    have step: "all_probed now (i' # js) s = all_probed now js ?s" by (simp add: all_probed_def)
    show ?case
    proof (cases "i' = i")
      case True
      with Cons.prems keep [of js ?s] show ?thesis unfolding step by simp
    next
      case False
      with Cons.prems have "pstore ?s i = Some j" by simp
      with Cons.IH [of ?s] Cons.prems False show ?thesis unfolding step by simp
    qed
  qed simp
qed

section \<open>The time event of a scheduled probe\<close>

definition probe_packet :: "bool \<Rightarrow> nat \<Rightarrow> key list \<Rightarrow> rr list \<Rightarrow> dns_packet \<Rightarrow> bool" where
  "probe_packet sc n qs rs p \<longleftrightarrow> holds sc p (map asked qs @ map claimed rs) \<and> max_size p = n \<and>
     header p AVAHI_DNS_FIELD_QDCOUNT = of_nat (length qs) \<and> header p AVAHI_DNS_FIELD_NSCOUNT = of_nat (length rs) \<and>
     header p AVAHI_DNS_FIELD_FLAGS = 0"

text \<open>The room a probe takes in an empty packet, as the code estimates it.\<close>

definition probe_room :: "rr \<Rightarrow> nat" where
  "probe_room r = AVAHI_DNS_PACKET_HEADER_SIZE + avahi_key_get_estimate_size (rkey r) + estimate r"

definition sent_probes :: "dns_packet list \<Rightarrow> probe_sched \<Rightarrow> probe_sched" where
  "sent_probes ps s = s\<lparr>psent := psent s @ ps\<rparr>"

lemma sent_probes_simps [simp]:
  "pstore (sent_probes ps s) = pstore s" "pjobs (sent_probes ps s) = pjobs s" "phistory (sent_probes ps s) = phistory s"
  "pfresh (sent_probes ps s) = pfresh s" "psent (sent_probes ps s) = psent s @ ps"
  by (simp_all add: sent_probes_def)

lemma inv_sent_probes: "probe_inv (sent_probes ps s) \<longleftrightarrow> probe_inv s"
  by (simp add: probe_inv_def probe_core_def idle_def)

text \<open>A probe too large for the MTU: alone, in a packet of the size of the estimate.\<close>

lemma packet_max_extra: "12 \<le> n \<Longrightarrow> packet_max (n + AVAHI_DNS_PACKET_EXTRA_SIZE) = n"
  by (simp add: packet_max_def avahi_dns_packet_new_def Let_def AVAHI_DNS_PACKET_HEADER_SIZE_def AVAHI_DNS_PACKET_EXTRA_SIZE_def)

lemma rdata_room_estimate: "sent_record r \<Longrightarrow> rdata_room (rdata r) + length (name (rkey r)) + 10 \<le> estimate r"
  using estimate_room [of r] estimate_size(1) [of r] by (auto simp: record_room_def)

lemma set_counts:
  assumes "holds sc p xs" "header p AVAHI_DNS_FIELD_FLAGS = 0"
  obtains p1 p2 where "avahi_dns_packet_set_field p AVAHI_DNS_FIELD_NSCOUNT n = Ret p1"
    "avahi_dns_packet_set_field p1 AVAHI_DNS_FIELD_QDCOUNT q = Ret p2" "holds sc p2 xs" "max_size p2 = max_size p"
    "header p2 AVAHI_DNS_FIELD_QDCOUNT = q" "header p2 AVAHI_DNS_FIELD_NSCOUNT = n" "header p2 AVAHI_DNS_FIELD_FLAGS = 0"
proof -
  have f: "AVAHI_DNS_FIELD_NSCOUNT < 6" "AVAHI_DNS_FIELD_QDCOUNT < 6" by (simp_all add: field_defs)
  from set_field_holds [OF assms(1) f(1), of n] obtain p1 where
    p1: "avahi_dns_packet_set_field p AVAHI_DNS_FIELD_NSCOUNT n = Ret p1" "holds sc p1 xs" "max_size p1 = max_size p"
      "\<And>k. k < 6 \<Longrightarrow> header p1 k = (if k = AVAHI_DNS_FIELD_NSCOUNT then n else header p k)" by blast
  from set_field_holds [OF p1(2) f(2), of q] obtain p2 where
    p2: "avahi_dns_packet_set_field p1 AVAHI_DNS_FIELD_QDCOUNT q = Ret p2" "holds sc p2 xs" "max_size p2 = max_size p1"
      "\<And>k. k < 6 \<Longrightarrow> header p2 k = (if k = AVAHI_DNS_FIELD_QDCOUNT then q else header p1 k)" by blast
  from p1 p2 assms(2) show thesis by (intro that [of p1 p2]) (simp_all add: field_defs)
qed

lemma new_packet_lookup: "holds sc p [] \<Longrightarrow> psize p \<le> 12 \<Longrightarrow> table_lookup sc p nm = None"
  by (cases "table_lookup sc p nm") (fastforce simp: holds_def packet_ok_def table_ok_def name_at_def)+

text \<open>
  The question and the record fit, the name of the record being a pointer to the question, unless the
  name has fewer than three characters.
\<close>

lemma large_probe_fits:
  assumes r: "probeable r" and p: "holds sc p []" "psize p \<le> 12" "max_size p = probe_room r"
  shows "\<exists>p1 i p2 x. avahi_dns_packet_append_key sc p (probe_question r) False = Ret (p1, Some i) \<and>
    avahi_dns_packet_append_record sc p1 r False 0 = Ret (p2, x) \<and> (\<forall>k < 6. header p2 k = header p k) \<and>
    max_size p2 = max_size p \<and> (x \<noteq> None \<longrightarrow> holds sc p2 ([asked (probe_question r)] @ [claimed r])) \<and>
    (3 \<le> length (name (rkey r)) \<longrightarrow> x \<noteq> None)"
proof -
  let ?q = "probe_question r"
  note pf = probeable_facts [OF r]
  have est: "11 \<le> estimate r" "rdata_room (rdata r) + length (name (rkey r)) + 10 \<le> estimate r"
    using estimate_size(2) [OF pf(1)] rdata_room_estimate [OF pf(1)] by simp_all
  have size: "max_size p = 12 + (length (name (rkey r)) + 5) + estimate r" and room: "key_room ?q = length (name (rkey r)) + 6"
    by (simp_all add: p(3) probe_room_def AVAHI_DNS_PACKET_HEADER_SIZE_def avahi_key_get_estimate_size_def key_room_def probe_question_def)
  from append_key_holds [OF p(1) pf(3), where u = False] obtain p1 x1 where
    x1: "avahi_dns_packet_append_key sc p ?q False = Ret (p1, x1)" "\<And>k. k < 6 \<Longrightarrow> header p1 k = header p k" "max_size p1 = max_size p"
      "case x1 of None \<Rightarrow> holds sc p1 [] \<and> psize p1 = psize p \<and> max_size p < psize p + key_room ?q
       | Some i \<Rightarrow> holds sc p1 ([] @ [Question ?q False]) \<and> psize p < psize p1 \<and> psize p1 \<le> psize p + key_room ?q" by blast
  with size room p(2) est(1) obtain i where i: "x1 = Some i" "holds sc p1 [asked ?q]" "psize p1 \<le> psize p + key_room ?q"
    by (auto simp: asked_def split: option.splits)
  from append_record_holds [OF i(2) pf(1), where f = False and m = 0] obtain p2 x where
    x: "avahi_dns_packet_append_record sc p1 r False 0 = Ret (p2, x)" "\<And>k. k < 6 \<Longrightarrow> header p2 k = header p1 k" "max_size p2 = max_size p1"
      "case x of None \<Rightarrow> holds sc p2 [asked ?q] \<and> psize p2 = psize p1 \<and> max_size p1 < psize p1 + record_room r
       | Some i \<Rightarrow> holds sc p2 ([asked ?q] @ [Answer r False 0]) \<and> psize p1 < psize p2 \<and> psize p2 \<le> psize p1 + record_room r" by blast
  have "x \<noteq> None" if long: "3 \<le> length (name (rkey r))"
  proof -
    have ne: "name (rkey r) \<noteq> []" using long by auto
    have "table_lookup sc p (name ?q) = None" by (rule new_packet_lookup [OF p(1,2)])
    moreover have "packet_ok sc p" "sent_name 256 (name ?q)" "name ?q \<noteq> []"
      using p(1) pf(3) ne by (simp_all add: holds_def sent_key_def probe_question_def)
    moreover note append_key_enters [of sc p 256 ?q False p1 i]
    ultimately have known: "table_lookup sc p1 (name (rkey r)) = Some (psize p)"
      using x1(1) i(1) by (simp add: probe_question_def)
    have "psize p < 0x4000" using p(2) by simp
    from append_record_known_holds [OF i(2) pf(1) ne known this, of False 0] obtain p3 x3 where
      x3: "avahi_dns_packet_append_record sc p1 r False 0 = Ret (p3, x3)"
        "case x3 of None \<Rightarrow> holds sc p3 [asked ?q] \<and> psize p3 = psize p1 \<and> max_size p1 < psize p1 + (12 + rdata_room (rdata r))
         | Some i \<Rightarrow> holds sc p3 ([asked ?q] @ [Answer r False 0])" by blast
    moreover have "\<not> max_size p1 < psize p1 + (12 + rdata_room (rdata r))"
      using x1(3) i(3) room size p(2) est(2) long by simp
    ultimately show ?thesis using x(1) by (auto split: option.splits)
  qed
  with x1 i(1) x show ?thesis
    by (intro exI [of _ p1] exI [of _ i] exI [of _ p2] exI [of _ x]) (auto simp: claimed_def split: option.splits)
qed

lemma send_large_probe_ok:
  assumes inv: "probe_inv s" and i: "i \<in> set (pjobs s)" and now: "normalized now"
  defines "r \<equiv> record_of s i"
  shows "\<exists>ps. send_large_probe sc now s i = Ret (pmark now i (sent_probes ps s)) \<and>
    (ps = [] \<or> (\<exists>p. ps = [p] \<and> probe_packet sc (probe_room r) [probe_question r] [r] p)) \<and>
    (3 \<le> length (name (rkey r)) \<longrightarrow> ps \<noteq> [])"
proof -
  obtain j where j: "pstore s i = Some j" "\<not> pdone j" "probeable (precord j)" "r = precord j"
    using scheduled_job [OF inv i] unfolding r_def by metis
  then have r: "probeable r" by simp
  note pf = probeable_facts [OF r]
  let ?size = "avahi_key_get_estimate_size (rkey r) + estimate r + AVAHI_DNS_PACKET_HEADER_SIZE"
  have max: "packet_max (?size + AVAHI_DNS_PACKET_EXTRA_SIZE) = probe_room r"
    by (subst packet_max_extra) (simp_all add: probe_room_def AVAHI_DNS_PACKET_HEADER_SIZE_def)
  obtain p where p: "avahi_dns_packet_new_query (?size + AVAHI_DNS_PACKET_EXTRA_SIZE) = Ret p"
    "filling sc (?size + AVAHI_DNS_PACKET_EXTRA_SIZE) s {} [] p" using filling_new by blast
  then have p': "holds sc p []" "psize p \<le> 12" "max_size p = probe_room r" "header p AVAHI_DNS_FIELD_FLAGS = 0"
    by (simp_all add: filling_def max wanted_def)
  from large_probe_fits [OF r p'(1-3)] obtain p1 y p2 x where
    x: "avahi_dns_packet_append_key sc p (probe_question r) False = Ret (p1, Some y)"
      "avahi_dns_packet_append_record sc p1 r False 0 = Ret (p2, x)" "\<forall>k < 6. header p2 k = header p k" "max_size p2 = max_size p"
      "x \<noteq> None \<longrightarrow> holds sc p2 ([asked (probe_question r)] @ [claimed r])" "3 \<le> length (name (rkey r)) \<longrightarrow> x \<noteq> None" by blast
  have mark: "probe_job_mark_done now (sent_probes ps s) i = Ret (pmark now i (sent_probes ps s))" for ps
  proof (rule probe_mark_done_ok(1) [OF _ _ j(2) now])
    show "probe_core (sent_probes ps s)" using inv inv_sent_probes [of ps s] by (simp add: probe_inv_def)
  qed (simp add: j(1))
  show ?thesis
  proof (cases x)
    case None
    have "sent_probes [] s = s" by (simp add: sent_probes_def)
    with None j(1,4) estimate_size(1) [OF pf(1)] p(1) pf(5) x(1,2) mark [of "[]"]
    have "send_large_probe sc now s i = Ret (pmark now i (sent_probes [] s))" by (simp add: send_large_probe_def Let_def)
    with None x(6) show ?thesis by blast
  next
    case (Some z)
    have flags: "header p2 AVAHI_DNS_FIELD_FLAGS = 0" using x(3) p'(4) by (simp add: field_defs)
    from Some x(5) set_counts [OF _ flags, of sc "[asked (probe_question r)] @ [claimed r]" 1 1] obtain p3 p4 where
      p4: "avahi_dns_packet_set_field p2 AVAHI_DNS_FIELD_NSCOUNT 1 = Ret p3" "avahi_dns_packet_set_field p3 AVAHI_DNS_FIELD_QDCOUNT 1 = Ret p4"
        "holds sc p4 ([asked (probe_question r)] @ [claimed r])" "max_size p4 = max_size p2"
        "header p4 AVAHI_DNS_FIELD_QDCOUNT = 1" "header p4 AVAHI_DNS_FIELD_NSCOUNT = 1" "header p4 AVAHI_DNS_FIELD_FLAGS = 0" by auto
    have "send_probe p4 s = sent_probes [p4] s" by (simp add: send_probe_def sent_probes_def)
    with Some j(1,4) estimate_size(1) [OF pf(1)] p(1) pf(5) x(1,2) p4(1,2) mark [of "[p4]"]
    have "send_large_probe sc now s i = Ret (pmark now i (sent_probes [p4] s))" by (simp add: send_large_probe_def Let_def)
    moreover have "probe_packet sc (probe_room r) [probe_question r] [r] p4"
      using p4 x(4) p'(3) by (simp add: probe_packet_def)
    ultimately show ?thesis by blast
  qed
qed

text \<open>The job whose event fires is the first in an empty packet.\<close>

lemma first_probe:
  assumes inv: "probe_inv s" and p: "filling sc mtu s {} [] p" and i: "i \<in> set (pjobs s)"
  shows "\<exists>C p' b. packet_add_probe_query sc s p i = Ret (picked C s, p', b) \<and> (b \<longleftrightarrow> probe_room (record_of s i) \<le> packet_max mtu) \<and>
    (if b then filling sc mtu s C [probe_question (record_of s i)] p' \<and> i \<in> C else C = {})"
proof -
  have "psize p = 12" "res_size p = 0" "max_size p = packet_max mtu"
    using p holds_size [of sc p "[]"] by (auto simp: filling_def wanted_def estimates_def)
  then have room: "probe_room (record_of s i) \<le> packet_max mtu \<longleftrightarrow>
      \<not> space p < key_room (rkey (record_of s i)) - 1 + estimate (record_of s i)"
    using p by (auto simp: filling_def roomy_def space_def probe_room_def AVAHI_DNS_PACKET_HEADER_SIZE_def key_room_def
        avahi_key_get_estimate_size_def)
  from packet_add_probe_query_ok [OF inv p i] obtain C p' b where
    "packet_add_probe_query sc s p i = Ret (picked C s, p', b)"
    "if b then filling sc mtu s C [probe_question (record_of s i)] p' \<and> insert i {} \<subseteq> C \<and>
       key_room (rkey (record_of s i)) - 1 + estimate (record_of s i) \<le> space p
     else C = {} \<and> p' = p \<and> space p < key_room (rkey (record_of s i)) - 1 + estimate (record_of s i)"
    unfolding append_Nil picked_empty by blast
  with room show ?thesis by (intro exI [of _ C] exI [of _ p'] exI [of _ b]) (cases b; simp)
qed

text \<open>
  Otherwise, a packet of the MTU with the question of the job whose event fires and of as many
  others as fit. \<open>js\<close> are the jobs whose records are sent, \<open>rest\<close> those that were chosen in vain.
\<close>

lemma elapse_chosen_ok:
  assumes inv: "probe_inv s" and i: "i \<in> set (pjobs s)" and now: "normalized now"
    and room: "probe_room (record_of s i) \<le> packet_max mtu"
  shows "\<exists>qs js rest p. probe_elapse_callback sc mtu now s i = Ret (sent_probes [p] (all_probed now js s)) \<and>
    probe_packet sc (packet_max mtu) qs (map (record_of s) js) p \<and>
    probe_question (record_of s i) \<in> set qs \<and> distinct (map key_abs qs) \<and>
    (\<forall>q \<in> set qs. \<exists>x \<in> set (js @ rest). q = probe_question (record_of s x)) \<and>
    (\<forall>x \<in> set (js @ rest). \<exists>q \<in> set qs. covers q (record_of s x)) \<and> i \<in> set (js @ rest) \<and>
    js @ rest = filter (\<lambda>x. x \<in> set (js @ rest)) (pjobs s) \<and>
    (12 + wanted s (set (pjobs s)) + (\<Sum>x \<in> set (pjobs s). record_room (record_of s x)) \<le> packet_max mtu \<longrightarrow>
       js = pjobs s \<and> rest = [])"
proof -
  have core: "probe_core s" and dist: "distinct (pjobs s)" using inv core_distinct by (auto simp: probe_inv_def)
  obtain j where j: "pstore s i = Some j" "\<not> pdone j" using scheduled_job [OF inv i] by metis
  obtain p0 where p0: "avahi_dns_packet_new_query mtu = Ret p0" "filling sc mtu s {} [] p0" using filling_new by blast
  from first_probe [OF inv p0(2) i] room obtain C1 p1 where
    one: "packet_add_probe_query sc s p0 i = Ret (picked C1 s, p1, True)"
    and fill1: "filling sc mtu s C1 [probe_question (record_of s i)] p1" "i \<in> C1" by auto
  from add_probes_ok [OF inv fill1(1), of "[]" "pjobs s" 1] obtain C qs' p2 where
    two: "add_probes sc (pjobs s) (picked C1 s) p1 1 = Ret (picked C s, p2, 1 + length qs')"
      "filling sc mtu s C ([probe_question (record_of s i)] @ qs') p2" "C1 \<subseteq> C"
      "12 + wanted s (set (pjobs s)) + estimates s (set (pjobs s)) \<le> packet_max mtu \<longrightarrow> C = set (pjobs s)" by auto
  let ?qs = "probe_question (record_of s i) # qs'"
  have h2: "holds sc p2 (map asked ?qs)" and max2: "max_size p2 = packet_max mtu" and C: "C \<subseteq> set (pjobs s)"
    and flags2: "header p2 AVAHI_DNS_FIELD_FLAGS = 0" and size2: "psize p2 \<le> 12 + wanted s C"
    using two(2) by (simp_all add: filling_def)
  from set_field_holds [OF h2, of AVAHI_DNS_FIELD_QDCOUNT "of_nat (1 + length qs')"] obtain p3 where
    p3: "avahi_dns_packet_set_field p2 AVAHI_DNS_FIELD_QDCOUNT (of_nat (1 + length qs')) = Ret p3" "holds sc p3 (map asked ?qs)"
      "psize p3 = psize p2" "max_size p3 = max_size p2"
      "\<And>k. k < 6 \<Longrightarrow> header p3 k = (if k = AVAHI_DNS_FIELD_QDCOUNT then of_nat (1 + length qs') else header p2 k)"
    by (auto simp: field_defs)
  from add_probe_records_ok [OF inv now dist order.refl C p3(2), of 0] obtain js rest p4 where
    r: "add_probe_records sc now (pjobs s) (picked C s) p3 0 = Ret (all_probed now js s, p4, 0 + length js)"
      "filter (\<lambda>x. x \<in> C) (pjobs s) = js @ rest" "holds sc p4 (map asked ?qs @ map claimed (map (record_of s) js))"
      "\<forall>k < 6. header p4 k = header p3 k" "max_size p4 = max_size p3"
      "psize p3 + (\<Sum>x \<in> C. record_room (record_of s x)) \<le> max_size p3 \<longrightarrow> rest = []" by blast
  from set_field_holds [OF r(3), of AVAHI_DNS_FIELD_NSCOUNT "of_nat (length js)"] obtain p5 where
    p5: "avahi_dns_packet_set_field p4 AVAHI_DNS_FIELD_NSCOUNT (of_nat (length js)) = Ret p5"
      "holds sc p5 (map asked ?qs @ map claimed (map (record_of s) js))" "max_size p5 = max_size p4"
      "\<And>k. k < 6 \<Longrightarrow> header p5 k = (if k = AVAHI_DNS_FIELD_NSCOUNT then of_nat (length js) else header p4 k)"
    by (auto simp: field_defs)
  have set: "set (js @ rest) = C" using r(2) C by (metis inf.absorb_iff2 set_filter Collect_conj_eq Collect_mem_eq)
  have run: "probe_elapse_callback sc mtu now s i = Ret (sent_probes [p5] (all_probed now js s))"
    using j p0(1) one two(1) p3(1) r(1) p5(1)
    by (simp add: probe_elapse_callback_def send_probe_def sent_probes_def)
  have packet: "probe_packet sc (packet_max mtu) ?qs (map (record_of s) js) p5"
    using p5 p3 r(4,5) max2 flags2 by (simp add: probe_packet_def field_defs)
  have all: "js = pjobs s \<and> rest = []"
    if le: "12 + wanted s (set (pjobs s)) + (\<Sum>x \<in> set (pjobs s). record_room (record_of s x)) \<le> packet_max mtu"
  proof -
    have "estimate (record_of s x) \<le> record_room (record_of s x)" if "x \<in> set (pjobs s)" for x
      using scheduled_job [OF inv that] probeable_facts(1) estimate_size(3) by metis
    then have "estimates s (set (pjobs s)) \<le> (\<Sum>x \<in> set (pjobs s). record_room (record_of s x))"
      unfolding estimates_def by (rule sum_mono)
    with le two(4) have "C = set (pjobs s)" by simp
    with le size2 p3(3,4) max2 r(2,6) show ?thesis by simp
  qed
  have f: "\<forall>x \<in> C. \<exists>q \<in> set ?qs. covers q (record_of s x)" "\<forall>q \<in> set ?qs. \<exists>x \<in> C. q = probe_question (record_of s x)"
    "distinct (map key_abs ?qs)" using two(2) by (simp_all add: filling_def)
  have "i \<in> C" using fill1(2) two(3) by blast
  then have mem: "i \<in> set (js @ rest)" "js @ rest = filter (\<lambda>x. x \<in> set (js @ rest)) (pjobs s)"
    using r(2) by (simp_all only: set)
  have qi: "probe_question (record_of s i) \<in> set ?qs" by simp
  show ?thesis
    using run packet qi f(3) f(2) [folded set] f(1) [folded set] mem all
    by (intro exI [of _ ?qs] exI [of _ js] exI [of _ rest] exI [of _ p5] conjI) (assumption | blast)+
qed

lemma elapse_large_ok:
  assumes inv: "probe_inv s" and i: "i \<in> set (pjobs s)" and room: "packet_max mtu < probe_room (record_of s i)"
  shows "probe_elapse_callback sc mtu now s i = send_large_probe sc now s i"
proof -
  obtain j where j: "pstore s i = Some j" "\<not> pdone j" using scheduled_job [OF inv i] by metis
  obtain p0 where p0: "avahi_dns_packet_new_query mtu = Ret p0" "filling sc mtu s {} [] p0" using filling_new by blast
  from first_probe [OF inv p0(2) i] room obtain p1 where "packet_add_probe_query sc s p0 i = Ret (s, p1, False)" by auto
  with j p0(1) show ?thesis by (simp add: probe_elapse_callback_def)
qed

lemma elapse_done_ok:
  assumes "probe_inv s" "pstore s i = Some j" "pdone j"
  shows "probe_elapse_callback sc mtu now s i = Ret (pfreed i s)" "probe_inv (pfreed i s)"
  using assms probe_job_free_ok [of s i j] by (simp_all add: probe_elapse_callback_def probe_inv_def)

lemma elapse_scheduled_inv:
  assumes inv: "probe_inv s" and i: "i \<in> set (pjobs s)" and now: "normalized now"
  shows "\<exists>s'. probe_elapse_callback sc mtu now s i = Ret s' \<and> probe_inv s'"
proof (cases "packet_max mtu < probe_room (record_of s i)")
  case True
  from send_large_probe_ok [OF inv i now, of sc] obtain ps where
    ps: "send_large_probe sc now s i = Ret (pmark now i (sent_probes ps s))" by blast
  obtain j where j: "pstore s i = Some j" "\<not> pdone j" using scheduled_job [OF inv i] by metis
  have "probe_inv (sent_probes ps s)" using inv by (simp add: inv_sent_probes)
  then have "probe_inv (pmark now i (sent_probes ps s))"
    using probe_mark_done_ok(2,3) [of "sent_probes ps s" i j now] j now by (simp add: probe_inv_def)
  with elapse_large_ok [OF inv i True] ps show ?thesis by auto
next
  case False
  with elapse_chosen_ok [OF inv i now, of mtu sc] obtain js rest p where
    e: "probe_elapse_callback sc mtu now s i = Ret (sent_probes [p] (all_probed now js s))"
      "js @ rest = filter (\<lambda>x. x \<in> set (js @ rest)) (pjobs s)" by auto
  have "distinct (pjobs s)" using inv core_distinct by (auto simp: probe_inv_def)
  then have "distinct (js @ rest)" "set (js @ rest) \<subseteq> set (pjobs s)"
    by (subst e(2), simp, subst e(2), auto)
  with inv_all_probed [OF inv now, of js] e(1) show ?thesis by (auto simp: inv_sent_probes)
qed

end
