(* ===== verification/Probe_Properties.thy ===== *)
theory Probe_Properties
  imports Probe_Send Cache_Properties
begin

text \<open>The properties of the probe scheduler, over all sequences of operations.\<close>

section \<open>What happens to a scheduler\<close>

datatype probe_op =
    Probe_post timeval rr bool
  | Probe_clear
  | Probe_elapse nat timeval nat

fun probe_do :: "bool \<Rightarrow> probe_op \<Rightarrow> probe_sched \<Rightarrow> probe_sched res" where
  "probe_do sc (Probe_post now r imm) s = res_map fst (avahi_probe_scheduler_post now s r imm)"
| "probe_do sc Probe_clear s = avahi_probe_scheduler_clear s"
| "probe_do sc (Probe_elapse mtu now i) s = probe_elapse_callback sc mtu now s i"

text \<open>
  The clock is normalised, records have names in canonical form that fit the buffers of the
  receiver, time events fire for jobs in memory; the MTU is arbitrary.
\<close>

fun probe_op_ok :: "probe_sched \<Rightarrow> probe_op \<Rightarrow> bool" where
  "probe_op_ok s (Probe_post now r imm) \<longleftrightarrow> normalized now \<and> probeable r"
| "probe_op_ok s Probe_clear \<longleftrightarrow> True"
| "probe_op_ok s (Probe_elapse mtu now i) \<longleftrightarrow> normalized now \<and> pstore s i \<noteq> None"

inductive probe_reachable :: "bool \<Rightarrow> probe_sched \<Rightarrow> bool" for sc where
  probe_new: "probe_reachable sc avahi_probe_scheduler_new"
| probe_step: "probe_reachable sc s \<Longrightarrow> probe_op_ok s x \<Longrightarrow> probe_do sc x s = Ret s' \<Longrightarrow> probe_reachable sc s'"

lemma probe_do_ok:
  assumes "probe_inv s" "probe_op_ok s x"
  shows "\<exists>s'. probe_do sc x s = Ret s' \<and> probe_inv s'"
proof (cases x)
  case (Probe_post now r imm)
  with assms probe_post_ok [OF assms(1), of r now imm] show ?thesis by auto
next
  case Probe_clear
  with probe_clear_ok [OF assms(1)] show ?thesis by auto
next
  case (Probe_elapse mtu now i)
  with assms(2) obtain j where j: "pstore s i = Some j" "normalized now" by auto
  show ?thesis
  proof (cases "pdone j")
    case True
    with elapse_done_ok [OF assms(1) j(1)] Probe_elapse show ?thesis by simp
  next
    case False
    with j(1) assms(1) have "i \<in> set (pjobs s)" using core_pjobs [of s i] by (simp add: probe_inv_def)
    with elapse_scheduled_inv [OF assms(1) this j(2)] Probe_elapse show ?thesis by simp
  qed
qed

lemma probe_reachable_inv: "probe_reachable sc s \<Longrightarrow> probe_inv s"
proof (induction rule: probe_reachable.induct)
  case probe_new
  then show ?case by (rule probe_inv_new)
next
  case (probe_step s x s')
  with probe_do_ok [OF probe_step.IH probe_step.hyps(2), of sc] show ?case by simp
qed

lemma fold_remove1_filter: "distinct l \<Longrightarrow> fold remove1 js l = filter (\<lambda>x. x \<notin> set js) l"
proof (induction js arbitrary: l)
  case (Cons i js)
  then have "fold remove1 (i # js) l = filter (\<lambda>x. x \<notin> set js) (filter (\<lambda>x. i \<noteq> x) l)"
    by (simp add: distinct_remove1_removeAll removeAll_filter_not_eq)
  also have "\<dots> = filter (\<lambda>x. x \<notin> set (i # js)) l" by (auto intro: filter_cong)
  finally show ?case .
qed simp

text \<open>Evaluation: these comparisons are done on integers, not on unary numbers.\<close>

lemma rdata_max_int [code_unfold]: "AVAHI_DNS_RDATA_MAX < n \<longleftrightarrow> 65535 < int n"
  by (simp add: AVAHI_DNS_RDATA_MAX_def)

lemma pointer_bytes_int [code]: "pointer_bytes idx = [word_of_int ((0xC000 + int idx) div 256), of_nat idx]"
proof -
  have "int ((0xC000 + idx) div 256) = (0xC000 + int idx) div 256" by (simp add: zdiv_int)
  then have "of_nat ((0xC000 + idx) div 256) = (word_of_int ((0xC000 + int idx) div 256) :: byte)"
    by (metis of_int_of_nat_eq)
  then show ?thesis by (simp add: pointer_bytes_def)
qed

section \<open>Properties\<close>

text \<open>
  Property C17. Whatever records are posted for probing, whatever time events fire, with whatever
  MTU, no operation of the probe scheduler crashes; in particular the assertion that the question of
  a probe fits where its estimate did always holds. In every state there is at most one job for a
  record, without regard to case and TTL, scheduled or done; a scheduled job has its time event at
  the time of its delivery and is not marked for a packet, a done one has it 150 milliseconds later.
\<close>

theorem probe_scheduler_invariant:
  assumes "probe_reachable sc s" "probe_op_ok s x"
  shows "(\<exists>s'. probe_do sc x s = Ret s' \<and> probe_reachable sc s') \<and>
    (\<forall>i i' j j'. pstore s i = Some j \<and> pstore s i' = Some j' \<and> rr_abs (precord j) = rr_abs (precord j') \<longrightarrow> i = i') \<and>
    (\<forall>i j. pstore s i = Some j \<longrightarrow>
       (if pdone j then i \<in> set (phistory s) \<and> ptime_event j = Some (elapse_after (pdelivery j) AVAHI_PROBE_HISTORY_MSEC)
        else i \<in> set (pjobs s) \<and> ptime_event j = Some (pdelivery j) \<and> \<not> pchosen j))"
proof -
  have inv: "probe_inv s" using assms(1) by (rule probe_reachable_inv)
  then have core: "probe_core s" and idle: "idle s" by (auto simp: probe_inv_def)
  have "\<forall>i i' j j'. pstore s i = Some j \<and> pstore s i' = Some j' \<and> rr_abs (precord j) = rr_abs (precord j') \<longrightarrow> i = i'"
    using core_punique [OF core] by blast
  moreover have "\<forall>i j. pstore s i = Some j \<longrightarrow>
       (if pdone j then i \<in> set (phistory s) \<and> ptime_event j = Some (elapse_after (pdelivery j) AVAHI_PROBE_HISTORY_MSEC)
        else i \<in> set (pjobs s) \<and> ptime_event j = Some (pdelivery j) \<and> \<not> pchosen j)"
    using core_pjob [OF core] core_pjobs [OF core] core_phistory [OF core] idle by (auto simp: pjob_ok_def idle_def)
  ultimately show ?thesis using probe_do_ok [OF inv assms(2)] probe_step [OF assms] by blast
qed

definition example_probe :: rr where
  "example_probe = \<lparr>rkey = \<lparr>name = str ''a.local'', clazz = 1, ktype = AVAHI_DNS_TYPE_A\<rparr>, ttl = 120, rdata = A [10, 0, 0, 1]\<rparr>"

definition example_probe_hinfo :: rr where
  "example_probe_hinfo = \<lparr>rkey = \<lparr>name = str ''a.local'', clazz = 1, ktype = AVAHI_DNS_TYPE_HINFO\<rparr>, ttl = 120, rdata = Hinfo [] (str ''x'')\<rparr>"

lemma example_probes_ok: "probeable example_probe" "probeable example_probe_hinfo" "normalized (example_time 100)"
  by code_simp+

lemma probe_scheduler_invariant_witness:
  "\<exists>s'. probe_do True (Probe_post (example_time 100) example_probe True) avahi_probe_scheduler_new = Ret s' \<and>
    probe_reachable True s'"
proof -
  have "probe_op_ok avahi_probe_scheduler_new (Probe_post (example_time 100) example_probe True)"
    using example_probes_ok by simp
  from probe_scheduler_invariant [OF probe_new this] show ?thesis by blast
qed

lemma posted_ok:
  assumes "probe_reachable sc s" "probeable r" "normalized now"
  shows "\<exists>s' x. avahi_probe_scheduler_post now s r imm = Ret (s', x) \<and> probe_reachable sc s' \<and> psent s' = psent s \<and>
    (if \<exists>j. job_for s r True j \<and> usec_of now \<le> usec_of (pdelivery j) + 150000 then s' = s \<and> \<not> x
     else x \<and> (\<exists>j. job_for s' r False j \<and> ptime_event j = Some (pdelivery j) \<and>
       usec_of (pdelivery j) \<le> usec_of now + (if imm then 0 else 50000) \<and>
       (\<forall>j0. job_for s r False j0 \<longrightarrow> usec_of (pdelivery j) \<le> usec_of (pdelivery j0))))"
proof -
  have inv: "probe_inv s" using assms(1) by (rule probe_reachable_inv)
  have lately: "probed_lately now j \<longleftrightarrow> usec_of now \<le> usec_of (pdelivery j) + 150000" for j
    by (auto simp: probed_lately_def AVAHI_PROBE_HISTORY_MSEC_def)
  from probe_post_ok [OF inv assms(2,3), of imm] obtain s' x where
    s': "avahi_probe_scheduler_post now s r imm = Ret (s', x)" "probe_inv s'" "psent s' = psent s"
    "if \<exists>j. job_for s r True j \<and> probed_lately now j then s' = s \<and> \<not> x
     else x \<and> (\<exists>j. job_for s' r False j \<and> usec_of (pdelivery j) \<le> usec_of (elapse_after now (if imm then 0 else AVAHI_PROBE_DEFER_MSEC)) \<and>
       (\<forall>j0. job_for s r False j0 \<longrightarrow> usec_of (pdelivery j) \<le> usec_of (pdelivery j0)))" by blast
  have "probe_reachable sc s'"
    using probe_step [OF assms(1), of "Probe_post now r imm" s'] s'(1) assms(2,3) by simp
  moreover have "ptime_event j = Some (pdelivery j)" if "job_for s' r False j" for j
    using that s'(2) core_pjob by (fastforce simp: probe_inv_def job_for_def pjob_ok_def)
  ultimately show ?thesis using s' unfolding lately
    by (intro exI [of _ s'] exI [of _ x]) (auto simp: elapse_after_usec AVAHI_PROBE_DEFER_MSEC_def split: if_splits)
qed

text \<open>
  Property C19. Posting a record for probing. Nothing happens when the record has been probed for in
  the last 150 milliseconds. Otherwise a probe is scheduled, for at once or for 50 milliseconds
  later, or for when it was scheduled already, should that be earlier. No packet is sent.
\<close>

theorem posted_probe_is_scheduled:
  assumes "probe_reachable sc s" "probeable r" "normalized now"
  shows "\<exists>s' x. avahi_probe_scheduler_post now s r imm = Ret (s', x) \<and> probe_reachable sc s' \<and> psent s' = psent s \<and>
    (if \<exists>j. job_for s r True j \<and> usec_of now \<le> usec_of (pdelivery j) + 150000 then s' = s \<and> \<not> x
     else x \<and> (\<exists>j. job_for s' r False j \<and> ptime_event j = Some (pdelivery j) \<and>
       usec_of (pdelivery j) \<le> usec_of now + (if imm then 0 else 50000) \<and>
       (\<forall>j0. job_for s r False j0 \<longrightarrow> usec_of (pdelivery j) \<le> usec_of (pdelivery j0))))"
  using posted_ok [OF assms] .

definition example_probe_sched :: probe_sched where
  "example_probe_sched =
     (case avahi_probe_scheduler_post (example_time 100) avahi_probe_scheduler_new example_probe True of Ret (s, _) \<Rightarrow>
      case avahi_probe_scheduler_post (example_time 100) s example_probe_hinfo True of Ret (s, _) \<Rightarrow> s)"

lemma posted_probe_is_scheduled_witness:
  "\<exists>s' j. avahi_probe_scheduler_post (example_time 100) avahi_probe_scheduler_new example_probe True = Ret (s', True) \<and>
    probe_reachable True s' \<and> job_for s' example_probe False j"
proof -
  have none: "\<not> job_for avahi_probe_scheduler_new r b j" for r b j
    by (simp add: job_for_def avahi_probe_scheduler_new_def)
  from posted_probe_is_scheduled [OF probe_new [of True] example_probes_ok(1,3), where imm = True] none show ?thesis by auto
qed

text \<open>
  Property C18. What is sent when the time of a scheduled probe has come. If the probe fits into a
  packet of the MTU, one packet is sent, of at most that size, which the receiver can read: questions
  of type ANY, the one for this probe among them, no two for the same name and class, and after them
  the records of scheduled probes, each covered by one of the questions; the counts in the header are
  right. All scheduled probes are in it when their sizes allow. If the probe does not fit, its
  question and record alone are sent in a larger packet; that packet is big enough for every name of
  at least three characters, although the estimate of its size is too low, because the name in the
  record is compressed. The probes whose records have been sent, and only they, become done; the
  others stay scheduled.
\<close>

theorem elapsed_probe_is_sent:
  assumes "probe_reachable sc s" "pstore s i = Some j" "\<not> pdone j" "normalized now"
  shows "\<exists>s' js ps. probe_elapse_callback sc mtu now s i = Ret s' \<and> psent s' = psent s @ ps \<and> set js \<subseteq> set (pjobs s) \<and>
    pjobs s' = filter (\<lambda>x. x \<notin> set js) (pjobs s) \<and> (\<forall>x. x \<notin> set js \<longrightarrow> pstore s' x = pstore s x) \<and>
    (\<forall>x \<in> set js. \<exists>j'. pstore s' x = Some j' \<and> pdone j' \<and> pdelivery j' = now \<and> precord j' = record_of s x) \<and>
    (if probe_room (precord j) \<le> packet_max mtu
     then \<exists>qs p. ps = [p] \<and> probe_packet sc (packet_max mtu) qs (map (record_of s) js) p \<and>
       probe_question (precord j) \<in> set qs \<and> distinct (map key_abs qs) \<and>
       (\<forall>q \<in> set qs. \<exists>x \<in> set (pjobs s). q = probe_question (record_of s x)) \<and>
       (\<forall>x \<in> set js. \<exists>q \<in> set qs. covers q (record_of s x)) \<and>
       (12 + wanted s (set (pjobs s)) + (\<Sum>x \<in> set (pjobs s). record_room (record_of s x)) \<le> packet_max mtu \<longrightarrow> js = pjobs s)
     else js = [i] \<and> (ps = [] \<or> (\<exists>p. ps = [p] \<and> probe_packet sc (probe_room (precord j)) [probe_question (precord j)] [precord j] p)) \<and>
       (3 \<le> length (name (rkey (precord j))) \<longrightarrow> ps \<noteq> []))"
proof -
  have inv: "probe_inv s" using assms(1) by (rule probe_reachable_inv)
  then have core: "probe_core s" and dist: "distinct (pjobs s)" using core_distinct by (auto simp: probe_inv_def)
  have i: "i \<in> set (pjobs s)" using core_pjobs [OF core, of i] assms(2,3) by blast
  have r: "record_of s i = precord j" by (simp add: record_of_def assms(2))
  show ?thesis
  proof (cases "probe_room (precord j) \<le> packet_max mtu")
    case True
    with elapse_chosen_ok [OF inv i assms(4), of mtu sc] r obtain qs js rest p where
      e: "probe_elapse_callback sc mtu now s i = Ret (sent_probes [p] (all_probed now js s))"
        "probe_packet sc (packet_max mtu) qs (map (record_of s) js) p" "probe_question (precord j) \<in> set qs" "distinct (map key_abs qs)"
        "\<forall>q \<in> set qs. \<exists>x \<in> set (js @ rest). q = probe_question (record_of s x)"
        "\<forall>x \<in> set (js @ rest). \<exists>q \<in> set qs. covers q (record_of s x)"
        "js @ rest = filter (\<lambda>x. x \<in> set (js @ rest)) (pjobs s)"
        "12 + wanted s (set (pjobs s)) + (\<Sum>x \<in> set (pjobs s). record_room (record_of s x)) \<le> packet_max mtu \<longrightarrow>
           js = pjobs s \<and> rest = []" by auto
    have d: "distinct (js @ rest)" and sub: "set (js @ rest) \<subseteq> set (pjobs s)"
      using dist by (subst e(7), simp, subst e(7), auto)
    let ?s = "sent_probes [p] (all_probed now js s)"
    have "psent ?s = psent s @ [p]" "pjobs ?s = filter (\<lambda>x. x \<notin> set js) (pjobs s)"
      using d dist by (simp_all add: all_probed_simps fold_remove1_filter)
    moreover have "pstore ?s x = pstore s x" if "x \<notin> set js" for x using all_probed_store(1) [OF that] by simp
    moreover have "\<exists>j'. pstore ?s x = Some j' \<and> pdone j' \<and> pdelivery j' = now \<and> precord j' = record_of s x" if x: "x \<in> set js" for x
    proof -
      obtain jx where "pstore s x = Some jx" "record_of s x = precord jx"
        using scheduled_job [OF inv] x sub by (metis UnI1 set_append subsetD)
      with all_probed_store(2) [of js x s jx now] d x show ?thesis by simp
    qed
    moreover have "\<forall>q \<in> set qs. \<exists>x \<in> set (pjobs s). q = probe_question (record_of s x)" using e(5) sub by blast
    moreover have "\<forall>x \<in> set js. \<exists>q \<in> set qs. covers q (record_of s x)" using e(6) by simp
    ultimately show ?thesis using True e(1-4,8) sub by (intro exI [of _ ?s] exI [of _ js] exI [of _ "[p]"]) auto
  next
    case False
    then have large: "packet_max mtu < probe_room (record_of s i)" by (simp add: r)
    from send_large_probe_ok [OF inv i assms(4), of sc] elapse_large_ok [OF inv i large, of sc now] r obtain ps where
      ps: "probe_elapse_callback sc mtu now s i = Ret (pmark now i (sent_probes ps s))"
        "ps = [] \<or> (\<exists>p. ps = [p] \<and> probe_packet sc (probe_room (precord j)) [probe_question (precord j)] [precord j] p)"
        "3 \<le> length (name (rkey (precord j))) \<longrightarrow> ps \<noteq> []" by auto
    have "remove1 i (pjobs s) = filter (\<lambda>x. x \<notin> {i}) (pjobs s)" using dist by (simp add: distinct_remove1_removeAll removeAll_filter_not_eq eq_commute)
    with ps False i assms(2) r show ?thesis
      by (intro exI [of _ "pmark now i (sent_probes ps s)"] exI [of _ "[i]"] exI [of _ ps]) auto
  qed
qed

lemma example_probe_sched:
  "probe_reachable True example_probe_sched"
  "pstore example_probe_sched 0 = Some \<lparr>ptime_event = Some (example_time 100), pchosen = False, pdone = False,
     pdelivery = example_time 100, precord = example_probe\<rparr>"
proof -
  from posted_ok [OF probe_new example_probes_ok(1,3), of True] obtain s x where
    s: "avahi_probe_scheduler_post (example_time 100) avahi_probe_scheduler_new example_probe True = Ret (s, x)"
      "probe_reachable True s" by blast
  from posted_ok [OF s(2) example_probes_ok(2,3), of True] obtain s' x' where
    s': "avahi_probe_scheduler_post (example_time 100) s example_probe_hinfo True = Ret (s', x')" "probe_reachable True s'" by blast
  from s s' have "example_probe_sched = s'" by (simp add: example_probe_sched_def)
  with s'(2) show "probe_reachable True example_probe_sched" by simp
  show "pstore example_probe_sched 0 = Some \<lparr>ptime_event = Some (example_time 100), pchosen = False, pdone = False,
     pdelivery = example_time 100, precord = example_probe\<rparr>" by code_simp
qed

lemma elapsed_probe_is_sent_witness:
  "\<exists>s' js qs p. probe_elapse_callback True 1500 (example_time 101) example_probe_sched 0 = Ret s' \<and>
    psent s' = psent example_probe_sched @ [p] \<and>
    probe_packet True (packet_max 1500) qs (map (record_of example_probe_sched) js) p \<and> probe_question example_probe \<in> set qs"
proof -
  have fits: "probe_room example_probe \<le> packet_max 1500" "normalized (example_time 101)" by code_simp+
  from elapsed_probe_is_sent [OF example_probe_sched _ fits(2), where mtu = 1500] fits(1) show ?thesis by fastforce
qed

text \<open>
  A probe that fits exactly can be left out of its own packet, when another record for the same name is queued. The estimates count one
  byte too few for the name of the question, so that reserving the space of the record fails by one
  byte, which the code does not notice; the space goes to the other record, and when
  the records are appended there is no room for the one whose time event has fired. Here the probe
  for an address record takes, by the estimates, all of the packet; what is sent has one question and
  one record, the host information posted later, and the address stays scheduled.
\<close>

lemma fired_probe_left_out:
  "probe_room example_probe = packet_max 94 \<and>
   (\<exists>s p. probe_elapse_callback True 94 (example_time 100) example_probe_sched 0 = Ret s \<and> psent s = [p] \<and>
     header p AVAHI_DNS_FIELD_QDCOUNT = 1 \<and> header p AVAHI_DNS_FIELD_NSCOUNT = 1 \<and> pjobs s = [0] \<and> phistory s = [1])"
proof
  show "probe_room example_probe = packet_max 94" by code_simp
  have "case probe_elapse_callback True 94 (example_time 100) example_probe_sched 0 of Crash \<Rightarrow> False
    | Ret s \<Rightarrow> (case psent s of [p] \<Rightarrow> header p AVAHI_DNS_FIELD_QDCOUNT = 1 \<and> header p AVAHI_DNS_FIELD_NSCOUNT = 1 \<and> pjobs s = [0] \<and> phistory s = [1]
        | _ \<Rightarrow> False)" by code_simp
  then show "\<exists>s p. probe_elapse_callback True 94 (example_time 100) example_probe_sched 0 = Ret s \<and> psent s = [p] \<and>
     header p AVAHI_DNS_FIELD_QDCOUNT = 1 \<and> header p AVAHI_DNS_FIELD_NSCOUNT = 1 \<and> pjobs s = [0] \<and> phistory s = [1]"
    by (auto split: res.splits list.splits)
qed

end
