(* ===== verification/Querier.thy ===== *)
theory Querier
  imports Query_Sched
begin

text \<open>
  \<open>avahi-core/querier.c\<close>: the questions an interface asks again and again, at intervals that double
  up to an hour, as long as somebody is interested in the answers. The state are the parts of
  \<open>AvahiInterface\<close> the code uses: the queriers, as numbers in a store, on a list and in a hash table
  by key, whether the interface announces, and its query scheduler.
\<close>

section \<open>State\<close>

text \<open>\<open>post_id\<close> has no value before the first query is posted; here it is 0.\<close>

record querier =
  qr_key :: key
  n_used :: int
  qr_delay :: u32
  qr_event :: "timeval option"
  creation_time :: timeval
  post_id :: u32
  post_id_valid :: bool

record querier_iface =
  qr_store :: "nat \<Rightarrow> querier option"
  queriers :: "nat list"
  queriers_by_key :: "(key, nat) hashmap"
  qr_fresh :: nat
  qr_announcing :: bool
  query_scheduler :: query_sched

definition no_queriers :: "bool \<Rightarrow> query_sched \<Rightarrow> querier_iface" where
  "no_queriers announces q =
     \<lparr>qr_store = Map.empty, queriers = [], queriers_by_key = avahi_hashmap_new, qr_fresh = 0, qr_announcing = announces,
      query_scheduler = q\<rparr>"

definition set_querier :: "nat \<Rightarrow> querier \<Rightarrow> querier_iface \<Rightarrow> querier_iface" where
  "set_querier i q s = s\<lparr>qr_store := (qr_store s)(i \<mapsto> q)\<rparr>"

text \<open>\<open>iface.c\<close>: queries are posted only while the interface announces.\<close>

definition avahi_interface_post_query :: "timeval \<Rightarrow> querier_iface \<Rightarrow> key \<Rightarrow> bool \<Rightarrow> (querier_iface \<times> u32 option) res" where
  "avahi_interface_post_query now s k immediately =
     (if \<not> qr_announcing s then Ret (s, None)
      else res_map (\<lambda>(q, x). (s\<lparr>query_scheduler := q\<rparr>, x)) (avahi_query_scheduler_post now (query_scheduler s) k immediately))"

definition avahi_interface_withraw_query :: "querier_iface \<Rightarrow> u32 \<Rightarrow> (querier_iface \<times> bool) res" where
  "avahi_interface_withraw_query s x =
     res_map (\<lambda>(q, b). (s\<lparr>query_scheduler := q\<rparr>, b)) (avahi_query_scheduler_withdraw_by_id (query_scheduler s) x)"

section \<open>Operations\<close>

definition lookup_querier :: "bool \<Rightarrow> querier_iface \<Rightarrow> key \<Rightarrow> nat option" where
  "lookup_querier sc s k = avahi_hashmap_lookup (key_hash_func sc) key_equal_func (queriers_by_key s) k"

definition avahi_querier_free :: "bool \<Rightarrow> querier_iface \<Rightarrow> nat \<Rightarrow> querier_iface res" where
  "avahi_querier_free sc s i =
     (case qr_store s i of
        None \<Rightarrow> Crash
      | Some q \<Rightarrow>
          Ret (s\<lparr>queriers := remove1 i (queriers s),
                 queriers_by_key := avahi_hashmap_remove (key_hash_func sc) key_equal_func (queriers_by_key s) (qr_key q),
                 qr_store := (qr_store s)(i := None)\<rparr>))"

text \<open>The query is posted for the querier; its id is kept when the scheduler takes it.\<close>

definition querier_posts :: "timeval \<Rightarrow> querier_iface \<Rightarrow> querier \<Rightarrow> (querier_iface \<times> querier) res" where
  "querier_posts now s q =
     res_map (\<lambda>(s, x). (s, case x of None \<Rightarrow> q | Some n \<Rightarrow> q\<lparr>post_id := n, post_id_valid := True\<rparr>))
       (avahi_interface_post_query now s (qr_key q) False)"

definition querier_sleeps :: "timeval \<Rightarrow> querier \<Rightarrow> querier" where
  "querier_sleeps now q = q\<lparr>qr_event := Some (elapse_after now (uint (qr_delay q * 1000)))\<rparr>"

definition querier_elapse_callback :: "bool \<Rightarrow> timeval \<Rightarrow> querier_iface \<Rightarrow> nat \<Rightarrow> querier_iface res" where
  "querier_elapse_callback sc now s i =
     (case qr_store s i of
        None \<Rightarrow> Crash
      | Some q \<Rightarrow>
          if n_used q \<le> 0 then avahi_querier_free sc s i
          else
            res_map
              (\<lambda>(s, q).
                 let q = q\<lparr>qr_delay := qr_delay q * 2\<rparr>;
                     q = (if 60 * 60 \<le> qr_delay q then q\<lparr>qr_delay := 60 * 60\<rparr> else q)
                 in set_querier i (querier_sleeps now q) s)
              (querier_posts now s q))"

text \<open>The second result is what the caller gets in \<open>ret_ctime\<close>.\<close>

definition avahi_querier_add :: "bool \<Rightarrow> timeval \<Rightarrow> querier_iface \<Rightarrow> key \<Rightarrow> (querier_iface \<times> timeval) res" where
  "avahi_querier_add sc now s k =
     (case lookup_querier sc s k of
        Some i \<Rightarrow>
          (case qr_store s i of
             None \<Rightarrow> Crash
           | Some q \<Rightarrow> Ret (set_querier i (q\<lparr>n_used := n_used q + 1\<rparr>) s, creation_time q))
      | None \<Rightarrow>
          let q = \<lparr>qr_key = k, n_used = 1, qr_delay = 1, qr_event = None, creation_time = now, post_id = 0, post_id_valid = False\<rparr>
          in res_map
               (\<lambda>(s, q).
                  let i = qr_fresh s;
                      s = set_querier i (querier_sleeps now q) (s\<lparr>qr_fresh := Suc i\<rparr>);
                      s = s\<lparr>queriers := i # queriers s\<rparr>
                  in (s\<lparr>queriers_by_key := fst (avahi_hashmap_insert (key_hash_func sc) key_equal_func (queriers_by_key s) k i)\<rparr>,
                      now))
               (querier_posts now s q))"

definition avahi_querier_remove :: "bool \<Rightarrow> querier_iface \<Rightarrow> key \<Rightarrow> querier_iface res" where
  "avahi_querier_remove sc s k =
     (case lookup_querier sc s k of
        None \<Rightarrow> Ret s
      | Some i \<Rightarrow>
          (case qr_store s i of
             None \<Rightarrow> Crash
           | Some q \<Rightarrow>
               if n_used q \<le> 0 then Ret s
               else
                 let s = set_querier i (q\<lparr>n_used := n_used q - 1\<rparr>) s
                 in if n_used q - 1 \<le> 0 \<and> post_id_valid q
                    then res_bind (avahi_interface_withraw_query s (post_id q)) (\<lambda>(s, b).
                           if b then avahi_querier_free sc s i else Ret s)
                    else Ret s))"

definition avahi_querier_shall_refresh_cache :: "bool \<Rightarrow> timeval \<Rightarrow> querier_iface \<Rightarrow> key \<Rightarrow> (querier_iface \<times> bool) res" where
  "avahi_querier_shall_refresh_cache sc now s k =
     (case lookup_querier sc s k of
        None \<Rightarrow> Ret (s, False)
      | Some i \<Rightarrow>
          (case qr_store s i of
             None \<Rightarrow> Crash
           | Some q \<Rightarrow>
               if n_used q \<le> 0 then res_map (\<lambda>s. (s, False)) (avahi_querier_free sc s i)
               else Ret (set_querier i (querier_sleeps now q) s, True)))"

text \<open>\<open>while (i->queriers)\<close>, of at most \<open>m\<close> rounds.\<close>

fun free_queriers :: "bool \<Rightarrow> nat \<Rightarrow> querier_iface \<Rightarrow> querier_iface res" where
  "free_queriers sc m s =
     (case queriers s of
        [] \<Rightarrow> Ret s
      | i # _ \<Rightarrow> (case m of 0 \<Rightarrow> Crash | Suc m \<Rightarrow> res_bind (avahi_querier_free sc s i) (free_queriers sc m)))"

declare free_queriers.simps [simp del]

definition avahi_querier_free_all :: "bool \<Rightarrow> querier_iface \<Rightarrow> querier_iface res" where
  "avahi_querier_free_all sc s = free_queriers sc (length (queriers s)) s"

text \<open>
  The expiry of a cache entry, in \<open>cache.c\<close>: when somebody is interested in its records, they are asked
  for again.
\<close>

definition refresh_cache :: "bool \<Rightarrow> timeval \<Rightarrow> querier_iface \<Rightarrow> key \<Rightarrow> querier_iface res" where
  "refresh_cache sc now s k =
     res_bind (avahi_querier_shall_refresh_cache sc now s k) (\<lambda>(s, b).
       if b then res_map fst (avahi_interface_post_query now s k False) else Ret s)"

section \<open>All interfaces\<close>

text \<open>
  The callbacks of the walk over the interfaces that match an index and a protocol, which are given
  as a list.
\<close>

definition remove_querier_callback :: "bool \<Rightarrow> key \<Rightarrow> querier_iface \<Rightarrow> querier_iface res" where
  "remove_querier_callback sc k s = (if qr_announcing s then avahi_querier_remove sc s k else Ret s)"

fun avahi_querier_remove_for_all :: "bool \<Rightarrow> key \<Rightarrow> querier_iface list \<Rightarrow> querier_iface list res" where
  "avahi_querier_remove_for_all sc k [] = Ret []"
| "avahi_querier_remove_for_all sc k (s # ss) =
     res_bind (remove_querier_callback sc k s) (\<lambda>s. res_map (\<lambda>ss. s # ss) (avahi_querier_remove_for_all sc k ss))"

definition add_querier_callback :: "bool \<Rightarrow> timeval \<Rightarrow> key \<Rightarrow> timeval \<Rightarrow> querier_iface \<Rightarrow> (querier_iface \<times> timeval) res" where
  "add_querier_callback sc now k ctime s =
     (if qr_announcing s
      then res_map (\<lambda>(s, tv). (s, if 0 < avahi_timeval_compare tv ctime then tv else ctime)) (avahi_querier_add sc now s k)
      else Ret (s, ctime))"

fun add_queriers :: "bool \<Rightarrow> timeval \<Rightarrow> key \<Rightarrow> timeval \<Rightarrow> querier_iface list \<Rightarrow> (querier_iface list \<times> timeval) res" where
  "add_queriers sc now k ctime [] = Ret ([], ctime)"
| "add_queriers sc now k ctime (s # ss) =
     res_bind (add_querier_callback sc now k ctime s) (\<lambda>(s, ctime).
       res_map (\<lambda>(ss, ctime). (s # ss, ctime)) (add_queriers sc now k ctime ss))"

definition avahi_querier_add_for_all ::
  "bool \<Rightarrow> timeval \<Rightarrow> key \<Rightarrow> querier_iface list \<Rightarrow> (querier_iface list \<times> timeval) res" where
  "avahi_querier_add_for_all sc now k ss = add_queriers sc now k \<lparr>tv_sec = 0, tv_usec = 0\<rparr> ss"

end
