(* ===== verification/Querier_Inv.thy ===== *)
theory Querier_Inv
  imports Querier Query_Properties
begin

text \<open>
  The invariant of the queriers of an interface, that every operation keeps it, and what the
  operations do.
\<close>

section \<open>The invariant\<close>

definition asking_ok :: "querier \<Rightarrow> bool" where
  "asking_ok q \<longleftrightarrow> sendable_key (qr_key q) \<and> 0 \<le> n_used q \<and> 1 \<le> qr_delay q \<and> qr_delay q \<le> 3600 \<and>
     (\<exists>t. qr_event q = Some t \<and> normalized t) \<and> normalized (creation_time q)"

text \<open>Every querier is on the list and is what the hash table has for its key.\<close>

definition queriers_inv :: "bool \<Rightarrow> querier_iface \<Rightarrow> bool" where
  "queriers_inv sc s \<longleftrightarrow>
     query_inv (query_scheduler s) \<and> distinct (queriers s) \<and> (\<forall>i. i \<in> set (queriers s) \<longleftrightarrow> qr_store s i \<noteq> None) \<and>
     (\<forall>i q. qr_store s i = Some q \<longrightarrow> i < qr_fresh s \<and> asking_ok q) \<and>
     hashmap_inv (key_hash_func sc) key_equal_func key_ok (queriers_by_key s) \<and>
     (\<forall>k i. key_ok k \<longrightarrow> (lookup_querier sc s k = Some i \<longleftrightarrow> (\<exists>q. qr_store s i = Some q \<and> key_abs (qr_key q) = key_abs k)))"

lemma queriers_invI:
  assumes "query_inv (query_scheduler s)" "distinct (queriers s)" "\<And>i. i \<in> set (queriers s) \<longleftrightarrow> qr_store s i \<noteq> None"
    and "\<And>i q. qr_store s i = Some q \<Longrightarrow> i < qr_fresh s \<and> asking_ok q"
    and "hashmap_inv (key_hash_func sc) key_equal_func key_ok (queriers_by_key s)"
    and "\<And>k i. key_ok k \<Longrightarrow> lookup_querier sc s k = Some i \<longleftrightarrow> (\<exists>q. qr_store s i = Some q \<and> key_abs (qr_key q) = key_abs k)"
  shows "queriers_inv sc s"
  using assms unfolding queriers_inv_def by blast

lemma inv_sched: "queriers_inv sc s \<Longrightarrow> query_inv (query_scheduler s)"
  by (simp add: queriers_inv_def)

lemma inv_querier: "queriers_inv sc s \<Longrightarrow> qr_store s i = Some q \<Longrightarrow> i < qr_fresh s \<and> asking_ok q"
  by (simp add: queriers_inv_def)

lemma inv_listed: "queriers_inv sc s \<Longrightarrow> i \<in> set (queriers s) \<longleftrightarrow> qr_store s i \<noteq> None"
  unfolding queriers_inv_def by blast

lemma inv_distinct: "queriers_inv sc s \<Longrightarrow> distinct (queriers s)"
  by (simp add: queriers_inv_def)

lemma inv_table: "queriers_inv sc s \<Longrightarrow> hashmap_inv (key_hash_func sc) key_equal_func key_ok (queriers_by_key s)"
  by (simp add: queriers_inv_def)

lemma inv_lookup:
  "queriers_inv sc s \<Longrightarrow> key_ok k \<Longrightarrow>
   lookup_querier sc s k = Some i \<longleftrightarrow> (\<exists>q. qr_store s i = Some q \<and> key_abs (qr_key q) = key_abs k)"
  unfolding queriers_inv_def by blast

lemma inv_lookup_None:
  assumes "queriers_inv sc s" "key_ok k"
  shows "lookup_querier sc s k = None \<longleftrightarrow> (\<forall>i q. qr_store s i = Some q \<longrightarrow> key_abs (qr_key q) \<noteq> key_abs k)"
  using inv_lookup [OF assms] by (metis option.distinct(1) option.exhaust)

lemma querier_unique:
  assumes "queriers_inv sc s" "qr_store s i = Some q" "qr_store s i' = Some q'" "key_abs (qr_key q) = key_abs (qr_key q')"
  shows "i = i'"
proof -
  have "key_ok (qr_key q)" using inv_querier [OF assms(1,2)] by (simp add: asking_ok_def sendable_key_def)
  with inv_lookup [OF assms(1) this] assms(2-4) show ?thesis by (metis option.inject)
qed

lemma no_queriers_inv: "query_inv q \<Longrightarrow> queriers_inv sc (no_queriers b q)"
  using key_map.dict.inv_empty by (intro queriers_invI) (simp_all add: no_queriers_def lookup_querier_def lookup_new)

lemma set_querier_simps [simp]:
  "qr_store (set_querier i q s) = (qr_store s)(i \<mapsto> q)" "queriers (set_querier i q s) = queriers s"
  "queriers_by_key (set_querier i q s) = queriers_by_key s" "qr_fresh (set_querier i q s) = qr_fresh s"
  "qr_announcing (set_querier i q s) = qr_announcing s" "query_scheduler (set_querier i q s) = query_scheduler s"
  "lookup_querier sc (set_querier i q s) k = lookup_querier sc s k"
  by (simp_all add: set_querier_def lookup_querier_def)

lemma lookup_update [simp]:
  "lookup_querier sc (s\<lparr>query_scheduler := x\<rparr>) k = lookup_querier sc s k"
  by (simp add: lookup_querier_def)

lemma inv_set_querier:
  assumes "queriers_inv sc s" "qr_store s i = Some q" "asking_ok q'" "qr_key q' = qr_key q"
  shows "queriers_inv sc (set_querier i q' s)"
  using assms unfolding queriers_inv_def set_querier_simps by (auto split: if_splits)

lemma inv_set_sched: "queriers_inv sc s \<Longrightarrow> query_inv x \<Longrightarrow> queriers_inv sc (s\<lparr>query_scheduler := x\<rparr>)"
  by (simp add: queriers_inv_def)

text \<open>Taking a querier away.\<close>

definition qr_freed :: "bool \<Rightarrow> nat \<Rightarrow> querier_iface \<Rightarrow> querier_iface" where
  "qr_freed sc i s = (case avahi_querier_free sc s i of Ret s' \<Rightarrow> s' | Crash \<Rightarrow> s)"

lemma querier_free_ok:
  assumes "queriers_inv sc s" "qr_store s i = Some q"
  shows "avahi_querier_free sc s i = Ret (qr_freed sc i s)" "queriers_inv sc (qr_freed sc i s)"
    "qr_store (qr_freed sc i s) = (qr_store s)(i := None)" "query_scheduler (qr_freed sc i s) = query_scheduler s"
    "queriers (qr_freed sc i s) = remove1 i (queriers s)" "qr_announcing (qr_freed sc i s) = qr_announcing s"
proof -
  let ?m = "avahi_hashmap_remove (key_hash_func sc) key_equal_func (queriers_by_key s) (qr_key q)"
  have f: "avahi_querier_free sc s i = Ret (qr_freed sc i s)"
    "qr_freed sc i s = s\<lparr>queriers := remove1 i (queriers s), queriers_by_key := ?m, qr_store := (qr_store s)(i := None)\<rparr>"
    using assms(2) by (simp_all add: avahi_querier_free_def qr_freed_def)
  then show "avahi_querier_free sc s i = Ret (qr_freed sc i s)" "qr_store (qr_freed sc i s) = (qr_store s)(i := None)"
    "query_scheduler (qr_freed sc i s) = query_scheduler s" "queriers (qr_freed sc i s) = remove1 i (queriers s)"
    "qr_announcing (qr_freed sc i s) = qr_announcing s" by simp_all
  have key: "key_ok (qr_key q)" using inv_querier [OF assms] by (simp add: asking_ok_def sendable_key_def)
  show "queriers_inv sc (qr_freed sc i s)"
  proof (rule queriers_invI)
    fix k i' assume k: "key_ok k"
    have "lookup_querier sc (qr_freed sc i s) k = (if key_abs k = key_abs (qr_key q) then None else lookup_querier sc s k)"
      using key_map.dict.lookup_remove [OF inv_table [OF assms(1)] key k] key_equal_func_abs [OF k key]
      by (simp add: lookup_querier_def f(2))
    moreover have "(if key_abs k = key_abs (qr_key q) then None else lookup_querier sc s k) = Some i' \<longleftrightarrow>
        (\<exists>q'. ((qr_store s)(i := None)) i' = Some q' \<and> key_abs (qr_key q') = key_abs k)"
    proof (cases "key_abs k = key_abs (qr_key q)")
      case True
      with querier_unique [OF assms, of i'] show ?thesis by auto
    next
      case False
      with inv_lookup [OF assms(1) k, of i'] assms(2) show ?thesis by (cases "i' = i") auto
    qed
    ultimately show "lookup_querier sc (qr_freed sc i s) k = Some i' \<longleftrightarrow>
        (\<exists>q. qr_store (qr_freed sc i s) i' = Some q \<and> key_abs (qr_key q) = key_abs k)"
      by (simp add: f(2))
  next
    show "hashmap_inv (key_hash_func sc) key_equal_func key_ok (queriers_by_key (qr_freed sc i s))"
      using key_map.dict.inv_remove [OF inv_table [OF assms(1)] key] by (simp add: f(2))
  qed (use inv_sched [OF assms(1)] inv_distinct [OF assms(1)] inv_listed [OF assms(1)] inv_querier [OF assms(1)]
      in \<open>auto simp: f(2) split: if_splits\<close>)
qed

text \<open>Adding one for a key there is none for.\<close>

definition qr_added :: "bool \<Rightarrow> querier \<Rightarrow> querier_iface \<Rightarrow> querier_iface" where
  "qr_added sc q s =
     s\<lparr>qr_store := (qr_store s)(qr_fresh s \<mapsto> q), qr_fresh := Suc (qr_fresh s), queriers := qr_fresh s # queriers s,
       queriers_by_key := fst (avahi_hashmap_insert (key_hash_func sc) key_equal_func (queriers_by_key s) (qr_key q) (qr_fresh s))\<rparr>"

lemma qr_added_ok:
  assumes inv: "queriers_inv sc s" and q: "asking_ok q" and new: "lookup_querier sc s (qr_key q) = None"
  shows "queriers_inv sc (qr_added sc q s)"
proof -
  have key: "key_ok (qr_key q)" using q by (simp add: asking_ok_def sendable_key_def)
  have free: "qr_store s (qr_fresh s) = None" using inv_querier [OF inv, of "qr_fresh s"] by (cases "qr_store s (qr_fresh s)") auto
  show ?thesis
  proof (rule queriers_invI)
    fix k i assume k: "key_ok k"
    have "lookup_querier sc (qr_added sc q s) k = (if key_abs k = key_abs (qr_key q) then Some (qr_fresh s) else lookup_querier sc s k)"
      using key_map.dict.lookup_insert [OF inv_table [OF inv] key k] new key_equal_func_abs [OF k key]
      by (simp add: lookup_querier_def qr_added_def)
    with inv_lookup [OF inv k] inv_lookup_None [OF inv key] new free
    show "lookup_querier sc (qr_added sc q s) k = Some i \<longleftrightarrow> (\<exists>q'. qr_store (qr_added sc q s) i = Some q' \<and> key_abs (qr_key q') = key_abs k)"
      by (auto simp: qr_added_def)
  next
    show "hashmap_inv (key_hash_func sc) key_equal_func key_ok (queriers_by_key (qr_added sc q s))"
      using key_map.dict.inv_insert [OF inv_table [OF inv] key] by (simp add: qr_added_def)
    show "distinct (queriers (qr_added sc q s))" using inv_distinct [OF inv] inv_listed [OF inv, of "qr_fresh s"] free by (simp add: qr_added_def)
    show "i < qr_fresh (qr_added sc q s) \<and> asking_ok q'" if "qr_store (qr_added sc q s) i = Some q'" for i q'
      using that inv_querier [OF inv, of i q'] q by (auto simp: qr_added_def split: if_splits)
  qed (use inv_sched [OF inv] inv_listed [OF inv] in \<open>auto simp: qr_added_def\<close>)
qed

section \<open>Posting the query\<close>

text \<open>What the scheduler does for a querier that asks.\<close>

definition asked_for :: "timeval \<Rightarrow> bool \<Rightarrow> key \<Rightarrow> query_sched \<Rightarrow> query_sched \<Rightarrow> u32 option \<Rightarrow> bool" where
  "asked_for now announces k q q' x \<longleftrightarrow>
     (if \<not> announces \<or> (\<exists>j. done_for q k j \<and> recent now j) then q' = q \<and> x = None
      else \<exists>j. scheduled_for q' k j \<and> x = Some (qid j) \<and> usec_of (qdelivery j) \<le> usec_of now + 100000)"

lemma post_query_ok:
  assumes "queriers_inv sc s" "sendable_key k" "normalized now"
  shows "\<exists>x pid. avahi_interface_post_query now s k False = Ret (s\<lparr>query_scheduler := x\<rparr>, pid) \<and> query_inv x \<and>
    qsent x = qsent (query_scheduler s) \<and> asked_for now (qr_announcing s) k (query_scheduler s) x pid"
proof (cases "qr_announcing s")
  case False
  have "s = s\<lparr>query_scheduler := query_scheduler s\<rparr>" by (cases s) simp
  with False inv_sched [OF assms(1)] show ?thesis
    by (intro exI [of _ "query_scheduler s"] exI [of _ None]) (simp add: avahi_interface_post_query_def asked_for_def)
next
  case True
  from post_ok [OF inv_sched [OF assms(1)] assms(2,3), of False, unfolded if_False] obtain x i where
    "avahi_query_scheduler_post now (query_scheduler s) k False = Ret (x, i)" "query_inv x" "qsent x = qsent (query_scheduler s)"
    "if \<exists>j. done_for (query_scheduler s) k j \<and> recent now j then x = query_scheduler s \<and> i = None
     else \<exists>j. scheduled_for x k j \<and> i = Some (qid j) \<and> usec_of (qdelivery j) \<le> usec_of (elapse_after now AVAHI_QUERY_DEFER_MSEC)"
    by blast
  with True show ?thesis
    by (intro exI [of _ x] exI [of _ i])
      (auto simp: avahi_interface_post_query_def asked_for_def elapse_after_usec AVAHI_QUERY_DEFER_MSEC_def split: if_splits)
qed

lemma querier_posts_ok:
  assumes "queriers_inv sc s" "sendable_key (qr_key q)" "normalized now"
  shows "\<exists>x pid q'. querier_posts now s q = Ret (s\<lparr>query_scheduler := x\<rparr>, q') \<and> query_inv x \<and> qsent x = qsent (query_scheduler s) \<and>
    asked_for now (qr_announcing s) (qr_key q) (query_scheduler s) x pid \<and>
    q' = (case pid of None \<Rightarrow> q | Some n \<Rightarrow> q\<lparr>post_id := n, post_id_valid := True\<rparr>)"
  using post_query_ok [OF assms] by (fastforce simp: querier_posts_def)

lemma delay_sleeps:
  assumes "1 \<le> qr_delay q" "qr_delay q \<le> 3600"
  shows "uint (qr_delay q * 1000) = uint (qr_delay q) * 1000"
proof -
  have "uint (qr_delay q) \<le> 3600" using assms(2) by (simp add: word_le_def)
  then have "uint (qr_delay q) * uint (1000 :: u32) < 2 ^ 32" by simp
  then show ?thesis by (simp add: uint_mult_lem [THEN iffD1])
qed

lemma querier_sleeps_simps [simp]:
  "qr_key (querier_sleeps now q) = qr_key q" "n_used (querier_sleeps now q) = n_used q" "qr_delay (querier_sleeps now q) = qr_delay q"
  "creation_time (querier_sleeps now q) = creation_time q" "post_id (querier_sleeps now q) = post_id q"
  "post_id_valid (querier_sleeps now q) = post_id_valid q"
  "qr_event (querier_sleeps now q) = Some (elapse_after now (uint (qr_delay q * 1000)))"
  by (simp_all add: querier_sleeps_def)

lemma querier_sleeps_ok:
  "sendable_key (qr_key q) \<Longrightarrow> 0 \<le> n_used q \<Longrightarrow> 1 \<le> qr_delay q \<Longrightarrow> qr_delay q \<le> 3600 \<Longrightarrow> normalized (creation_time q) \<Longrightarrow>
   normalized now \<Longrightarrow> asking_ok (querier_sleeps now q)"
  by (simp add: asking_ok_def normalized_elapse)

section \<open>The operations\<close>

text \<open>A querier nobody uses goes away at its time event; another asks and doubles its delay.\<close>

definition next_delay :: "int \<Rightarrow> int" where
  "next_delay d = min 3600 (2 * d)"

lemma next_delay_word:
  assumes "1 \<le> d" "d \<le> 3600"
  shows "uint (if 60 * 60 \<le> d * 2 then 60 * 60 else d * 2 :: u32) = next_delay (uint d)"
    "1 \<le> (if 60 * 60 \<le> d * 2 then 60 * 60 else d * 2 :: u32)" "(if 60 * 60 \<le> d * 2 then 60 * 60 else d * 2 :: u32) \<le> 3600"
proof -
  have d: "1 \<le> uint d" "uint d \<le> 3600" using assms by (simp_all add: word_le_def)
  then have "uint d * uint (2 :: u32) < 2 ^ 32" by simp
  then have m: "uint (d * 2) = uint d * 2" by (simp add: uint_mult_lem [THEN iffD1])
  then show "uint (if 60 * 60 \<le> d * 2 then 60 * 60 else d * 2 :: u32) = next_delay (uint d)"
    using d by (simp add: word_le_def next_delay_def)
  show "1 \<le> (if 60 * 60 \<le> d * 2 then 60 * 60 else d * 2 :: u32)" "(if 60 * 60 \<le> d * 2 then 60 * 60 else d * 2 :: u32) \<le> 3600"
    using d m by (simp_all add: word_le_def)
qed

lemma querier_elapse_unused:
  assumes "queriers_inv sc s" "qr_store s i = Some q" "n_used q = 0"
  shows "querier_elapse_callback sc now s i = Ret (qr_freed sc i s)"
  using assms(2,3) querier_free_ok(1) [OF assms(1,2)] by (simp add: querier_elapse_callback_def)

text \<open>The querier after it has asked.\<close>

definition asks_again :: "timeval \<Rightarrow> u32 option \<Rightarrow> querier \<Rightarrow> querier \<Rightarrow> bool" where
  "asks_again now pid q q' \<longleftrightarrow>
     qr_key q' = qr_key q \<and> n_used q' = n_used q \<and> creation_time q' = creation_time q \<and>
     uint (qr_delay q') = next_delay (uint (qr_delay q)) \<and>
     qr_event q' = Some (elapse_after now (next_delay (uint (qr_delay q)) * 1000)) \<and>
     (case pid of None \<Rightarrow> post_id q' = post_id q \<and> post_id_valid q' = post_id_valid q | Some n \<Rightarrow> post_id q' = n \<and> post_id_valid q')"

lemma querier_elapse_used:
  assumes inv: "queriers_inv sc s" and i: "qr_store s i = Some q" and now: "normalized now" and used: "0 < n_used q"
  shows "\<exists>x pid q'. querier_elapse_callback sc now s i = Ret (set_querier i q' (s\<lparr>query_scheduler := x\<rparr>)) \<and>
    queriers_inv sc (set_querier i q' (s\<lparr>query_scheduler := x\<rparr>)) \<and> qsent x = qsent (query_scheduler s) \<and>
    asked_for now (qr_announcing s) (qr_key q) (query_scheduler s) x pid \<and> asks_again now pid q q'"
proof -
  have ok: "asking_ok q" using inv_querier [OF inv i] by simp
  then have k: "sendable_key (qr_key q)" by (simp add: asking_ok_def)
  from querier_posts_ok [OF inv k now] obtain x pid q1 where
    p: "querier_posts now s q = Ret (s\<lparr>query_scheduler := x\<rparr>, q1)" "query_inv x" "qsent x = qsent (query_scheduler s)"
      "asked_for now (qr_announcing s) (qr_key q) (query_scheduler s) x pid"
      "q1 = (case pid of None \<Rightarrow> q | Some n \<Rightarrow> q\<lparr>post_id := n, post_id_valid := True\<rparr>)" by blast
  let ?d = "if 60 * 60 \<le> qr_delay q * 2 then 60 * 60 else qr_delay q * 2 :: u32"
  let ?q = "querier_sleeps now (q1\<lparr>qr_delay := ?d\<rparr>)"
  have d: "1 \<le> qr_delay q" "qr_delay q \<le> 3600" using ok by (simp_all add: asking_ok_def)
  note nd = next_delay_word [OF d]
  have q1: "qr_key q1 = qr_key q" "n_used q1 = n_used q" "creation_time q1 = creation_time q" "qr_delay q1 = qr_delay q"
    "case pid of None \<Rightarrow> post_id q1 = post_id q \<and> post_id_valid q1 = post_id_valid q | Some n \<Rightarrow> post_id q1 = n \<and> post_id_valid q1"
    using p(5) by (simp_all split: option.splits)
  have run: "querier_elapse_callback sc now s i = Ret (set_querier i ?q (s\<lparr>query_scheduler := x\<rparr>))"
    using i used p(1) q1(4) by (auto simp: querier_elapse_callback_def Let_def)
  have "asking_ok ?q" using ok q1 nd now by (intro querier_sleeps_ok) (simp_all add: asking_ok_def del: if_split)
  then have "queriers_inv sc (set_querier i ?q (s\<lparr>query_scheduler := x\<rparr>))"
    using inv_set_querier [OF inv_set_sched [OF inv p(2)], of i q ?q] i q1(1) by simp
  moreover have "uint (?d * 1000) = uint ?d * 1000" using delay_sleeps [of "q1\<lparr>qr_delay := ?d\<rparr>"] nd(2,3) by simp
  then have "asks_again now pid q ?q" using q1 nd(1) by (simp add: asks_again_def del: if_split split: option.splits)
  ultimately show ?thesis using run p(3,4) by blast
qed

text \<open>Adding: one user more, or a new querier, which asks.\<close>

lemma querier_add_known:
  assumes inv: "queriers_inv sc s" and k: "sendable_key k" and i: "qr_store s i = Some q" "key_abs (qr_key q) = key_abs k"
  shows "avahi_querier_add sc now s k = Ret (set_querier i (q\<lparr>n_used := n_used q + 1\<rparr>) s, creation_time q)"
    "queriers_inv sc (set_querier i (q\<lparr>n_used := n_used q + 1\<rparr>) s)"
proof -
  have "lookup_querier sc s k = Some i" using inv_lookup [OF inv, of k i] i k by (auto simp: sendable_key_def)
  with i(1) show "avahi_querier_add sc now s k = Ret (set_querier i (q\<lparr>n_used := n_used q + 1\<rparr>) s, creation_time q)"
    by (simp add: avahi_querier_add_def)
  have "asking_ok (q\<lparr>n_used := n_used q + 1\<rparr>)" using inv_querier [OF inv i(1)] by (simp add: asking_ok_def)
  with inv_set_querier [OF inv i(1)] show "queriers_inv sc (set_querier i (q\<lparr>n_used := n_used q + 1\<rparr>) s)" by simp
qed

lemma querier_add_new:
  assumes inv: "queriers_inv sc s" and k: "sendable_key k" and now: "normalized now"
    and new: "\<And>i q. qr_store s i = Some q \<Longrightarrow> key_abs (qr_key q) \<noteq> key_abs k"
  shows "\<exists>s' pid q. avahi_querier_add sc now s k = Ret (s', now) \<and> queriers_inv sc s' \<and> qr_announcing s' = qr_announcing s \<and>
    qsent (query_scheduler s') = qsent (query_scheduler s) \<and>
    asked_for now (qr_announcing s) k (query_scheduler s) (query_scheduler s') pid \<and>
    qr_store s' = (qr_store s)(qr_fresh s \<mapsto> q) \<and> qr_key q = k \<and> n_used q = 1 \<and> qr_delay q = 1 \<and> creation_time q = now \<and>
    qr_event q = Some (elapse_after now 1000)"
proof -
  have kok: "key_ok k" using k by (simp add: sendable_key_def)
  have none: "lookup_querier sc s k = None" using inv_lookup_None [OF inv kok] new by blast
  let ?q = "\<lparr>qr_key = k, n_used = 1, qr_delay = 1, qr_event = None, creation_time = now, post_id = 0, post_id_valid = False\<rparr>"
  from querier_posts_ok [OF inv _ now, of ?q] k obtain x pid q1 where
    p: "querier_posts now s ?q = Ret (s\<lparr>query_scheduler := x\<rparr>, q1)" "query_inv x" "qsent x = qsent (query_scheduler s)"
      "asked_for now (qr_announcing s) k (query_scheduler s) x pid"
      "q1 = (case pid of None \<Rightarrow> ?q | Some n \<Rightarrow> ?q\<lparr>post_id := n, post_id_valid := True\<rparr>)" by auto
  have q1: "qr_key q1 = k" "n_used q1 = 1" "creation_time q1 = now" "qr_delay q1 = 1"
    using p(5) by (simp_all split: option.splits)
  let ?s = "qr_added sc (querier_sleeps now q1) (s\<lparr>query_scheduler := x\<rparr>)"
  have run: "avahi_querier_add sc now s k = Ret (?s, now)"
    using none p(1) q1(1) by (simp add: avahi_querier_add_def Let_def qr_added_def set_querier_def)
  have "asking_ok (querier_sleeps now q1)" using q1 k now by (intro querier_sleeps_ok) simp_all
  then have "queriers_inv sc ?s" using inv_set_sched [OF inv p(2)] none q1(1) by (intro qr_added_ok) simp_all
  with run p(3,4) q1 show ?thesis
    by (intro exI [of _ ?s] exI [of _ pid] exI [of _ "querier_sleeps now q1"]) (simp add: qr_added_def)
qed

text \<open>Removing: one user less; with the last one, the query is withdrawn, and the querier goes if it was.\<close>

lemma querier_remove_unknown:
  assumes "queriers_inv sc s" "sendable_key k" "\<And>i q. qr_store s i = Some q \<Longrightarrow> key_abs (qr_key q) = key_abs k \<Longrightarrow> n_used q = 0"
  shows "avahi_querier_remove sc s k = Ret s"
proof (cases "lookup_querier sc s k")
  case (Some i)
  with inv_lookup [OF assms(1), of k i] assms(2) obtain q where "qr_store s i = Some q" "key_abs (qr_key q) = key_abs k"
    by (auto simp: sendable_key_def)
  with assms(3) Some show ?thesis by (simp add: avahi_querier_remove_def)
qed (simp add: avahi_querier_remove_def)

lemma querier_remove_known:
  assumes inv: "queriers_inv sc s" and k: "sendable_key k" and i: "qr_store s i = Some q" "key_abs (qr_key q) = key_abs k"
    and used: "0 < n_used q"
  defines "q' \<equiv> q\<lparr>n_used := n_used q - 1\<rparr>"
  shows "\<exists>s'. avahi_querier_remove sc s k = Ret s' \<and> queriers_inv sc s' \<and> qr_announcing s' = qr_announcing s \<and>
    qsent (query_scheduler s') = qsent (query_scheduler s) \<and>
    (if n_used q = 1 \<and> post_id_valid q
     then \<exists>x b. avahi_query_scheduler_withdraw_by_id (query_scheduler s) (post_id q) = Ret (x, b) \<and> query_scheduler s' = x \<and>
       qr_store s' = (qr_store s)(i := if b then None else Some q')
     else s' = set_querier i q' s)"
proof -
  let ?s = "set_querier i q' s"
  have look: "lookup_querier sc s k = Some i" using inv_lookup [OF inv, of k i] i k by (auto simp: sendable_key_def)
  have "asking_ok q'" using inv_querier [OF inv i(1)] used by (simp add: asking_ok_def q'_def)
  with inv_set_querier [OF inv i(1)] have inv1: "queriers_inv sc ?s" by (simp add: q'_def)
  show ?thesis
  proof (cases "n_used q = 1 \<and> post_id_valid q")
    case False
    with look i(1) used have "avahi_querier_remove sc s k = Ret ?s" by (auto simp: avahi_querier_remove_def q'_def Let_def)
    with False inv1 show ?thesis by auto
  next
    case True
    from withdraw_ok [OF inv_sched [OF inv], of "post_id q"] obtain x b where
      w: "avahi_query_scheduler_withdraw_by_id (query_scheduler s) (post_id q) = Ret (x, b)" "query_inv x" "qsent x = qsent (query_scheduler s)"
      by blast
    let ?t = "?s\<lparr>query_scheduler := x\<rparr>"
    have invt: "queriers_inv sc ?t" using inv_set_sched [OF inv1 w(2)] .
    have t: "qr_store ?t i = Some q'" by simp
    have run: "avahi_querier_remove sc s k = (if b then avahi_querier_free sc ?t i else Ret ?t)"
      using look i(1) used True w(1) by (simp add: avahi_querier_remove_def q'_def Let_def avahi_interface_withraw_query_def)
    show ?thesis
    proof (cases b)
      case False
      with run True w invt show ?thesis by (intro exI [of _ ?t]) auto
    next
      case True
      with run w querier_free_ok [OF invt t] \<open>n_used q = 1 \<and> post_id_valid q\<close> show ?thesis
        by (intro exI [of _ "qr_freed sc i ?t"]) (auto intro: exI [of _ True])
    qed
  qed
qed

text \<open>Expiring cache entries.\<close>

lemma shall_refresh_ok:
  assumes inv: "queriers_inv sc s" and k: "sendable_key k" and now: "normalized now"
  shows "\<exists>s' b. avahi_querier_shall_refresh_cache sc now s k = Ret (s', b) \<and> queriers_inv sc s' \<and>
    query_scheduler s' = query_scheduler s \<and> qr_announcing s' = qr_announcing s \<and>
    (b \<longleftrightarrow> (\<exists>i q. qr_store s i = Some q \<and> key_abs (qr_key q) = key_abs k \<and> 0 < n_used q)) \<and>
    (\<forall>i. qr_store s' i = (case qr_store s i of None \<Rightarrow> None
       | Some q \<Rightarrow> if key_abs (qr_key q) \<noteq> key_abs k then Some q else if b then Some (querier_sleeps now q) else None))"
proof -
  have kok: "key_ok k" using k by (simp add: sendable_key_def)
  show ?thesis
  proof (cases "lookup_querier sc s k")
    case None
    with inv_lookup_None [OF inv kok] have none: "\<And>i q. qr_store s i = Some q \<Longrightarrow> key_abs (qr_key q) \<noteq> key_abs k" by blast
    with None inv show ?thesis
      by (intro exI [of _ s] exI [of _ False]) (auto simp: avahi_querier_shall_refresh_cache_def split: option.splits)
  next
    case (Some i)
    with inv_lookup [OF inv kok, of i] obtain q where q: "qr_store s i = Some q" "key_abs (qr_key q) = key_abs k" by auto
    have only: "i' = i \<and> q' = q" if "qr_store s i' = Some q'" "key_abs (qr_key q') = key_abs k" for i' q'
      using querier_unique [OF inv q(1) that(1)] q that by simp
    have ok: "asking_ok q" using inv_querier [OF inv q(1)] by simp
    show ?thesis
    proof (cases "0 < n_used q")
      case True
      let ?s = "set_querier i (querier_sleeps now q) s"
      have "asking_ok (querier_sleeps now q)" using ok now by (intro querier_sleeps_ok) (simp_all add: asking_ok_def)
      with inv_set_querier [OF inv q(1)] have "queriers_inv sc ?s" by simp
      moreover have "avahi_querier_shall_refresh_cache sc now s k = Ret (?s, True)"
        using Some q(1) True by (simp add: avahi_querier_shall_refresh_cache_def)
      moreover have "qr_store ?s i' = (case qr_store s i' of None \<Rightarrow> None
         | Some q \<Rightarrow> if key_abs (qr_key q) \<noteq> key_abs k then Some q else Some (querier_sleeps now q))" for i'
      proof (cases "i' = i")
        case False
        with only [of i'] show ?thesis by (cases "qr_store s i'") auto
      qed (simp add: q)
      moreover have "\<exists>i q. qr_store s i = Some q \<and> key_abs (qr_key q) = key_abs k \<and> 0 < n_used q" using True q by blast
      ultimately show ?thesis
        by (intro exI [of _ ?s] exI [of _ True] conjI) (assumption | simp only: set_querier_simps simp_thms if_True)+
    next
      case False
      note free = querier_free_ok [OF inv q(1)]
      have "avahi_querier_shall_refresh_cache sc now s k = Ret (qr_freed sc i s, False)"
        using Some q(1) False free(1) by (simp add: avahi_querier_shall_refresh_cache_def)
      moreover have "qr_store (qr_freed sc i s) i' = (case qr_store s i' of None \<Rightarrow> None
         | Some q \<Rightarrow> if key_abs (qr_key q) \<noteq> key_abs k then Some q else None)" for i'
      proof (cases "i' = i")
        case False
        with only [of i'] free(3) show ?thesis by (cases "qr_store s i'") auto
      qed (simp add: q free(3))
      moreover have "\<not> (\<exists>i q. qr_store s i = Some q \<and> key_abs (qr_key q) = key_abs k \<and> 0 < n_used q)"
        using only False by blast
      ultimately show ?thesis using free(2,4,6)
        by (intro exI [of _ "qr_freed sc i s"] exI [of _ False] conjI) (simp_all add: if_False cong: option.case_cong if_cong)
    qed
  qed
qed

lemma refresh_cache_ok:
  assumes inv: "queriers_inv sc s" and k: "sendable_key k" and now: "normalized now"
  shows "\<exists>s'. refresh_cache sc now s k = Ret s' \<and> queriers_inv sc s' \<and> qr_announcing s' = qr_announcing s \<and>
    qsent (query_scheduler s') = qsent (query_scheduler s)"
proof -
  from shall_refresh_ok [OF assms] obtain s1 b where
    s1: "avahi_querier_shall_refresh_cache sc now s k = Ret (s1, b)" "queriers_inv sc s1" "query_scheduler s1 = query_scheduler s"
      "qr_announcing s1 = qr_announcing s" by blast
  from post_query_ok [OF s1(2) k now] obtain x pid where
    x: "avahi_interface_post_query now s1 k False = Ret (s1\<lparr>query_scheduler := x\<rparr>, pid)" "query_inv x"
      "qsent x = qsent (query_scheduler s1)" by blast
  show ?thesis
  proof (cases b)
    case True
    with s1 x inv_set_sched [OF s1(2) x(2)] show ?thesis
      by (intro exI [of _ "s1\<lparr>query_scheduler := x\<rparr>"]) (simp add: refresh_cache_def)
  next
    case False
    with s1 show ?thesis by (intro exI [of _ s1]) (simp add: refresh_cache_def)
  qed
qed

lemma free_queriers_ok:
  assumes "queriers_inv sc s" "length (queriers s) \<le> m"
  shows "\<exists>s'. free_queriers sc m s = Ret s' \<and> queriers_inv sc s' \<and> queriers s' = [] \<and> query_scheduler s' = query_scheduler s"
  using assms
proof (induction m arbitrary: s)
  case 0
  then show ?case by (simp add: free_queriers.simps)
next
  case (Suc m)
  show ?case
  proof (cases "queriers s")
    case Nil
    with Suc.prems show ?thesis by (simp add: free_queriers.simps)
  next
    case (Cons i l)
    with inv_listed [OF Suc.prems(1), of i] obtain q where q: "qr_store s i = Some q" by auto
    note free = querier_free_ok [OF Suc.prems(1) q]
    have "length (queriers (qr_freed sc i s)) \<le> m" using free(5) Cons Suc.prems(2) by simp
    from Suc.IH [OF free(2) this] free(1,4) Cons show ?thesis by (subst free_queriers.simps) auto
  qed
qed

lemma free_all_queriers_ok:
  assumes "queriers_inv sc s"
  shows "\<exists>s'. avahi_querier_free_all sc s = Ret s' \<and> queriers_inv sc s' \<and> qr_store s' = Map.empty \<and>
    query_scheduler s' = query_scheduler s"
proof -
  from free_queriers_ok [OF assms order.refl] obtain s' where
    s': "free_queriers sc (length (queriers s)) s = Ret s'" "queriers_inv sc s'" "queriers s' = []" "query_scheduler s' = query_scheduler s"
    by blast
  then have "qr_store s' i = None" for i using inv_listed [OF s'(2), of i] by simp
  then have "qr_store s' = Map.empty" by blast
  with s' show ?thesis by (simp add: avahi_querier_free_all_def)
qed

end
