(* ===== verification/Querier_Properties.thy ===== *)
theory Querier_Properties
  imports Querier_Inv
begin

text \<open>The properties of the queriers of an interface, over all sequences of operations.\<close>

section \<open>What happens to the queriers\<close>

text \<open>\<open>Scheduler_op\<close> is what others do with the query scheduler of the interface.\<close>

datatype querier_op =
    Querier_add timeval key
  | Querier_remove key
  | Querier_elapse timeval nat
  | Querier_refresh timeval key
  | Querier_free_all
  | Scheduler_op query_op

fun querier_do :: "bool \<Rightarrow> querier_op \<Rightarrow> querier_iface \<Rightarrow> querier_iface res" where
  "querier_do sc (Querier_add now k) s = res_map fst (avahi_querier_add sc now s k)"
| "querier_do sc (Querier_remove k) s = avahi_querier_remove sc s k"
| "querier_do sc (Querier_elapse now i) s = querier_elapse_callback sc now s i"
| "querier_do sc (Querier_refresh now k) s = refresh_cache sc now s k"
| "querier_do sc Querier_free_all s = avahi_querier_free_all sc s"
| "querier_do sc (Scheduler_op x) s = res_map (\<lambda>q. s\<lparr>query_scheduler := q\<rparr>) (query_do sc x (query_scheduler s))"

fun querier_op_ok :: "bool \<Rightarrow> querier_iface \<Rightarrow> querier_op \<Rightarrow> bool" where
  "querier_op_ok sc s (Querier_add now k) \<longleftrightarrow> normalized now \<and> sendable_key k"
| "querier_op_ok sc s (Querier_remove k) \<longleftrightarrow> sendable_key k"
| "querier_op_ok sc s (Querier_elapse now i) \<longleftrightarrow> normalized now \<and> qr_store s i \<noteq> None"
| "querier_op_ok sc s (Querier_refresh now k) \<longleftrightarrow> normalized now \<and> sendable_key k"
| "querier_op_ok sc s Querier_free_all \<longleftrightarrow> True"
| "querier_op_ok sc s (Scheduler_op x) \<longleftrightarrow> query_op_ok sc (query_scheduler s) x \<and> query_fits sc (query_scheduler s) x"

inductive queriers_reachable :: "bool \<Rightarrow> querier_iface \<Rightarrow> bool" for sc where
  queriers_new: "queriers_reachable sc (no_queriers announces avahi_query_scheduler_new)"
| queriers_step: "queriers_reachable sc s \<Longrightarrow> querier_op_ok sc s x \<Longrightarrow> querier_do sc x s = Ret s' \<Longrightarrow> queriers_reachable sc s'"

lemma querier_add_ok:
  assumes "queriers_inv sc s" "sendable_key k" "normalized now"
  shows "\<exists>s' tv. avahi_querier_add sc now s k = Ret (s', tv) \<and> queriers_inv sc s'"
proof (cases "\<exists>i q. qr_store s i = Some q \<and> key_abs (qr_key q) = key_abs k")
  case True
  then show ?thesis using querier_add_known [OF assms(1,2)] by blast
next
  case False
  then show ?thesis using querier_add_new [OF assms] by blast
qed

lemma querier_remove_ok:
  assumes "queriers_inv sc s" "sendable_key k"
  shows "\<exists>s'. avahi_querier_remove sc s k = Ret s' \<and> queriers_inv sc s'"
proof (cases "\<exists>i q. qr_store s i = Some q \<and> key_abs (qr_key q) = key_abs k \<and> 0 < n_used q")
  case True
  then show ?thesis using querier_remove_known [OF assms] by blast
next
  case False
  have "n_used q = 0" if "qr_store s i = Some q" "key_abs (qr_key q) = key_abs k" for i q
    using False that inv_querier [OF assms(1) that(1)] by (force simp: asking_ok_def)
  then show ?thesis using querier_remove_unknown [OF assms] assms(1) by blast
qed

lemma querier_elapse_ok:
  assumes "queriers_inv sc s" "qr_store s i = Some q" "normalized now"
  shows "\<exists>s'. querier_elapse_callback sc now s i = Ret s' \<and> queriers_inv sc s'"
proof (cases "0 < n_used q")
  case True
  then show ?thesis using querier_elapse_used [OF assms] by blast
next
  case False
  with inv_querier [OF assms(1,2)] have "n_used q = 0" by (simp add: asking_ok_def)
  then show ?thesis using querier_elapse_unused [OF assms(1,2)] querier_free_ok(2) [OF assms(1,2)] by blast
qed

lemma querier_do_ok:
  assumes "queriers_inv sc s" "querier_op_ok sc s x"
  shows "\<exists>s'. querier_do sc x s = Ret s' \<and> queriers_inv sc s'"
proof (cases x)
  case (Querier_add now k)
  with assms querier_add_ok [OF assms(1), of k now] show ?thesis by auto
next
  case (Querier_remove k)
  with assms querier_remove_ok [OF assms(1), of k] show ?thesis by auto
next
  case (Querier_elapse now i)
  with assms querier_elapse_ok [OF assms(1), of i _ now] show ?thesis by auto
next
  case (Querier_refresh now k)
  with assms refresh_cache_ok [OF assms(1), of k now] show ?thesis by auto
next
  case Querier_free_all
  with free_all_queriers_ok [OF assms(1)] show ?thesis by auto
next
  case (Scheduler_op y)
  with assms query_do_ok [OF inv_sched [OF assms(1)], of sc y] inv_set_sched [OF assms(1)] show ?thesis by auto
qed

lemma queriers_reachable_inv: "queriers_reachable sc s \<Longrightarrow> queriers_inv sc s"
proof (induction rule: queriers_reachable.induct)
  case (queriers_new announces)
  then show ?case by (intro no_queriers_inv query_inv_new)
next
  case (queriers_step s x s')
  with querier_do_ok [OF queriers_step.IH queriers_step.hyps(2)] show ?case by simp
qed

section \<open>Users\<close>

text \<open>How many are interested in a question, and what the operations are to make of it.\<close>

definition users :: "bool \<Rightarrow> querier_iface \<Rightarrow> key \<Rightarrow> int" where
  "users sc s k =
     (case lookup_querier sc s k of None \<Rightarrow> 0 | Some i \<Rightarrow> (case qr_store s i of None \<Rightarrow> 0 | Some q \<Rightarrow> n_used q))"

fun count_users :: "querier_op \<Rightarrow> key \<Rightarrow> int \<Rightarrow> int" where
  "count_users (Querier_add now k') k n = (if key_abs k' = key_abs k then n + 1 else n)"
| "count_users (Querier_remove k') k n = (if key_abs k' = key_abs k then max 0 (n - 1) else n)"
| "count_users Querier_free_all k n = 0"
| "count_users _ k n = n"

definition used_by :: "querier_iface \<Rightarrow> key \<Rightarrow> nat \<Rightarrow> int \<Rightarrow> bool" where
  "used_by s k i n \<longleftrightarrow> (\<exists>q. qr_store s i = Some q \<and> key_abs (qr_key q) = key_abs k \<and> n_used q = n)"

lemma users_known: "queriers_inv sc s \<Longrightarrow> key_ok k \<Longrightarrow> used_by s k i n \<Longrightarrow> users sc s k = n"
  using inv_lookup [of sc s k i] by (auto simp: used_by_def users_def)

lemma users_unknown: "queriers_inv sc s \<Longrightarrow> key_ok k \<Longrightarrow> (\<And>i n. \<not> used_by s k i n) \<Longrightarrow> users sc s k = 0"
proof -
  assume "queriers_inv sc s" "key_ok k" "\<And>i n. \<not> used_by s k i n"
  then have "lookup_querier sc s k = None" by (subst inv_lookup_None) (auto simp: used_by_def)
  then show ?thesis by (simp add: users_def)
qed

lemma users_same:
  assumes "queriers_inv sc s" "queriers_inv sc s'" "key_ok k" "\<And>i n. n \<noteq> 0 \<Longrightarrow> used_by s' k i n \<longleftrightarrow> used_by s k i n"
  shows "users sc s' k = users sc s k"
proof (cases "\<exists>i n. n \<noteq> 0 \<and> used_by s k i n")
  case True
  with assms(4) users_known [OF assms(1,3)] users_known [OF assms(2,3)] show ?thesis by metis
next
  case False
  then have "users sc s k = 0" "users sc s' k = 0"
    using users_known [OF assms(1,3)] users_unknown [OF assms(1,3)] users_known [OF assms(2,3)] users_unknown [OF assms(2,3)] assms(4)
    by metis+
  then show ?thesis by simp
qed

lemma users_pos: "queriers_inv sc s \<Longrightarrow> key_ok k \<Longrightarrow>
    0 < users sc s k \<longleftrightarrow> (\<exists>i q. qr_store s i = Some q \<and> key_abs (qr_key q) = key_abs k \<and> 0 < n_used q)"
  using users_known [of sc s k] users_unknown [of sc s k] unfolding used_by_def by (metis less_irrefl)

lemma add_users:
  assumes inv: "queriers_inv sc s" and k': "sendable_key k'" and now: "normalized now" and k: "key_ok k"
    and s': "avahi_querier_add sc now s k' = Ret (s', tv)" "queriers_inv sc s'"
  shows "users sc s' k = (if key_abs k' = key_abs k then users sc s k + 1 else users sc s k)"
proof (cases "\<exists>i q. qr_store s i = Some q \<and> key_abs (qr_key q) = key_abs k'")
  case True
  then obtain i q where q: "qr_store s i = Some q" "key_abs (qr_key q) = key_abs k'" by blast
  with querier_add_known [OF inv k' q] s'(1) have store: "qr_store s' = (qr_store s)(i \<mapsto> q\<lparr>n_used := n_used q + 1\<rparr>)" by (auto simp: set_querier_def)
  show ?thesis
  proof (cases "key_abs k' = key_abs k")
    case True
    with q store have "used_by s k i (n_used q)" "used_by s' k i (n_used q + 1)" by (simp_all add: used_by_def)
    with True users_known [OF inv k] users_known [OF s'(2) k] show ?thesis by simp
  next
    case False
    with q store have "used_by s' k j n \<longleftrightarrow> used_by s k j n" for j n by (auto simp: used_by_def)
    with False users_same [OF inv s'(2) k] show ?thesis by simp
  qed
next
  case False
  with querier_add_new [OF inv k' now] s'(1) obtain q where
    q: "qr_store s' = (qr_store s)(qr_fresh s \<mapsto> q)" "qr_key q = k'" "n_used q = 1" by auto
  have fresh: "qr_store s (qr_fresh s) = None" using inv_querier [OF inv, of "qr_fresh s"] by (cases "qr_store s (qr_fresh s)") auto
  show ?thesis
  proof (cases "key_abs k' = key_abs k")
    case True
    with False have "\<not> used_by s k j n" for j n by (auto simp: used_by_def)
    moreover have "used_by s' k (qr_fresh s) 1" using q True by (simp add: used_by_def)
    ultimately show ?thesis using True users_unknown [OF inv k] users_known [OF s'(2) k] by simp
  next
    case False
    with q fresh have "used_by s' k j n \<longleftrightarrow> used_by s k j n" for j n by (auto simp: used_by_def)
    with False users_same [OF inv s'(2) k] show ?thesis by simp
  qed
qed

lemma remove_users:
  assumes inv: "queriers_inv sc s" and k': "sendable_key k'" and k: "key_ok k"
    and s': "avahi_querier_remove sc s k' = Ret s'" "queriers_inv sc s'"
  shows "users sc s' k = (if key_abs k' = key_abs k then max 0 (users sc s k - 1) else users sc s k)"
proof (cases "\<exists>i q. qr_store s i = Some q \<and> key_abs (qr_key q) = key_abs k' \<and> 0 < n_used q")
  case True
  then obtain i q where q: "qr_store s i = Some q" "key_abs (qr_key q) = key_abs k'" "0 < n_used q" by blast
  from querier_remove_known [OF inv k' q] s'(1) have
    store: "qr_store s' = (qr_store s)(i \<mapsto> q\<lparr>n_used := n_used q - 1\<rparr>) \<or> n_used q = 1 \<and> qr_store s' = (qr_store s)(i := None)"
    by (auto split: if_splits)
  show ?thesis
  proof (cases "key_abs k' = key_abs k")
    case True
    have only: "j = i" if "used_by s k j n" for j n
      using that q(1,2) True querier_unique [OF inv] unfolding used_by_def by metis
    have "used_by s k i (n_used q)" using q True by (simp add: used_by_def)
    then have n: "users sc s k = n_used q" by (rule users_known [OF inv k])
    have "users sc s' k = n_used q - 1" using store
    proof
      assume "qr_store s' = (qr_store s)(i \<mapsto> q\<lparr>n_used := n_used q - 1\<rparr>)"
      with q True have "used_by s' k i (n_used q - 1)" by (simp add: used_by_def)
      then show ?thesis by (rule users_known [OF s'(2) k])
    next
      assume *: "n_used q = 1 \<and> qr_store s' = (qr_store s)(i := None)"
      with only have "\<not> used_by s' k j n" for j n by (fastforce simp: used_by_def split: if_splits)
      with * users_unknown [OF s'(2) k] show ?thesis by simp
    qed
    with n True q(3) show ?thesis by simp
  next
    case False
    with q store have "used_by s' k j n \<longleftrightarrow> used_by s k j n" for j n by (auto simp: used_by_def split: if_splits)
    with False users_same [OF inv s'(2) k] show ?thesis by simp
  qed
next
  case False
  have zero: "n_used q = 0" if "qr_store s i = Some q" "key_abs (qr_key q) = key_abs k'" for i q
    using False that inv_querier [OF inv that(1)] by (force simp: asking_ok_def)
  with querier_remove_unknown [OF inv k'] s'(1) have "s' = s" by simp
  moreover have "users sc s k = 0" if "key_abs k' = key_abs k"
    using zero that users_known [OF inv k] users_unknown [OF inv k] unfolding used_by_def by metis
  ultimately show ?thesis by simp
qed

lemma elapse_users:
  assumes inv: "queriers_inv sc s" and i: "qr_store s i = Some q" and now: "normalized now" and k: "key_ok k"
    and s': "querier_elapse_callback sc now s i = Ret s'" "queriers_inv sc s'"
  shows "users sc s' k = users sc s k"
proof (cases "0 < n_used q")
  case True
  from querier_elapse_used [OF inv i now True] s'(1) obtain q' where
    "qr_store s' = (qr_store s)(i \<mapsto> q')" "qr_key q' = qr_key q" "n_used q' = n_used q" by (auto simp: asks_again_def)
  with i have "used_by s' k j n \<longleftrightarrow> used_by s k j n" for j n by (auto simp: used_by_def)
  then show ?thesis by (rule users_same [OF inv s'(2) k])
next
  case False
  with inv_querier [OF inv i] have z: "n_used q = 0" by (simp add: asking_ok_def)
  with querier_elapse_unused [OF inv i] querier_free_ok(3) [OF inv i] s'(1) have "qr_store s' = (qr_store s)(i := None)" by simp
  with i z have "used_by s' k j n \<longleftrightarrow> used_by s k j n" if "n \<noteq> 0" for j n using that by (auto simp: used_by_def)
  then show ?thesis by (rule users_same [OF inv s'(2) k])
qed

lemma refresh_users:
  assumes inv: "queriers_inv sc s" and k': "sendable_key k'" and now: "normalized now" and k: "key_ok k"
    and s': "refresh_cache sc now s k' = Ret s'" "queriers_inv sc s'"
  shows "users sc s' k = users sc s k"
proof -
  from shall_refresh_ok [OF inv k' now] obtain s1 b where
    s1: "avahi_querier_shall_refresh_cache sc now s k' = Ret (s1, b)" "queriers_inv sc s1"
      "b \<longleftrightarrow> (\<exists>i q. qr_store s i = Some q \<and> key_abs (qr_key q) = key_abs k' \<and> 0 < n_used q)"
      "\<forall>i. qr_store s1 i = (case qr_store s i of None \<Rightarrow> None
       | Some q \<Rightarrow> if key_abs (qr_key q) \<noteq> key_abs k' then Some q else if b then Some (querier_sleeps now q) else None)" by blast
  from post_query_ok [OF s1(2) k' now] obtain x pid where
    x: "avahi_interface_post_query now s1 k' False = Ret (s1\<lparr>query_scheduler := x\<rparr>, pid)" by blast
  with s1(1) s'(1) have store: "qr_store s' = qr_store s1" by (auto simp: refresh_cache_def split: if_splits)
  have zero: "n_used q = 0" if "qr_store s i = Some q" "key_abs (qr_key q) = key_abs k'" "\<not> b" for i q
    using s1(3) that inv_querier [OF inv that(1)] by (force simp: asking_ok_def)
  have "used_by s' k j n \<longleftrightarrow> used_by s k j n" if n: "n \<noteq> 0" for j n
    using s1(4) [rule_format, of j] n zero [of j]
    by (cases "qr_store s j") (auto simp: used_by_def store querier_sleeps_def split: if_splits)
  then show ?thesis by (rule users_same [OF inv s'(2) k])
qed

lemma querier_do_users:
  assumes inv: "queriers_inv sc s" and ok: "querier_op_ok sc s x" and k: "key_ok k" and s': "querier_do sc x s = Ret s'"
  shows "users sc s' k = count_users x k (users sc s k)"
proof -
  have inv': "queriers_inv sc s'" using querier_do_ok [OF inv ok] s' by simp
  show ?thesis
  proof (cases x)
    case (Querier_add now k')
    with s' obtain tv where "avahi_querier_add sc now s k' = Ret (s', tv)" by (auto simp: res_map_eq_Ret)
    moreover from Querier_add ok have "sendable_key k'" "normalized now" by simp_all
    ultimately show ?thesis using add_users [OF inv _ _ k _ inv'] Querier_add by simp
  next
    case (Querier_remove k')
    with s' ok remove_users [OF inv _ k _ inv'] show ?thesis by simp
  next
    case (Querier_elapse now i)
    with s' ok elapse_users [OF inv _ _ k _ inv'] show ?thesis by auto
  next
    case (Querier_refresh now k')
    with s' ok have "sendable_key k'" "normalized now" "refresh_cache sc now s k' = Ret s'" by simp_all
    with Querier_refresh refresh_users [OF inv _ _ k _ inv'] show ?thesis by simp
  next
    case Querier_free_all
    with free_all_queriers_ok [OF inv] s' have "qr_store s' = Map.empty" by auto
    then have "\<not> used_by s' k j n" for j n by (simp add: used_by_def)
    with Querier_free_all users_unknown [OF inv' k] show ?thesis by simp
  next
    case (Scheduler_op y)
    with s' obtain z where "s' = s\<lparr>query_scheduler := z\<rparr>" by (auto simp: res_map_eq_Ret)
    then have "used_by s' k j n \<longleftrightarrow> used_by s k j n" for j n by (simp add: used_by_def)
    then have "users sc s' k = users sc s k" by (rule users_same [OF inv inv' k])
    with Scheduler_op show ?thesis by simp
  qed
qed

section \<open>Properties\<close>

text \<open>
  Property C10. Whatever is added and removed, whatever time events fire, cache entries expire and
  others do with the query scheduler, no operation on the queriers crashes, and the scheduler stays
  in order. In every state there is at most one querier for a question, without regard to case, and
  looking the question up in the hash table finds it; it asks at intervals of between a second and an
  hour, has its time event set and never fewer than no users.
\<close>

theorem queriers_invariant:
  assumes "queriers_reachable sc s" "querier_op_ok sc s x"
  shows "(\<exists>s'. querier_do sc x s = Ret s' \<and> queriers_reachable sc s') \<and> query_inv (query_scheduler s) \<and>
    (\<forall>k i. key_ok k \<longrightarrow> (lookup_querier sc s k = Some i \<longleftrightarrow> (\<exists>q. qr_store s i = Some q \<and> key_abs (qr_key q) = key_abs k))) \<and>
    (\<forall>i q. qr_store s i = Some q \<longrightarrow> i \<in> set (queriers s) \<and> 0 \<le> n_used q \<and> 1 \<le> uint (qr_delay q) \<and> uint (qr_delay q) \<le> 3600 \<and>
       qr_event q \<noteq> None)"
proof -
  have inv: "queriers_inv sc s" using assms(1) by (rule queriers_reachable_inv)
  have "i \<in> set (queriers s) \<and> 0 \<le> n_used q \<and> 1 \<le> uint (qr_delay q) \<and> uint (qr_delay q) \<le> 3600 \<and> qr_event q \<noteq> None"
    if "qr_store s i = Some q" for i q
    using that inv_querier [OF inv that] inv_listed [OF inv, of i] by (auto simp: asking_ok_def word_le_def)
  then show ?thesis
    using inv_lookup [OF inv] inv_sched [OF inv] querier_do_ok [OF inv assms(2)] queriers_step [OF assms] by blast
qed

lemma queriers_invariant_witness:
  "\<exists>s'. querier_do True (Querier_add (example_time 100) example_question) (no_queriers True avahi_query_scheduler_new) = Ret s' \<and>
    queriers_reachable True s'"
proof -
  have "querier_op_ok True (no_queriers True avahi_query_scheduler_new) (Querier_add (example_time 100) example_question)"
    using example_question_ok by simp
  from queriers_invariant [OF queriers_new this] show ?thesis by blast
qed

text \<open>The time event of a querier firing at one time after the other.\<close>

fun querier_elapses :: "bool \<Rightarrow> nat \<Rightarrow> timeval list \<Rightarrow> querier_iface \<Rightarrow> querier_iface res" where
  "querier_elapses sc i [] s = Ret s"
| "querier_elapses sc i (now # ts) s = res_bind (querier_elapse_callback sc now s i) (querier_elapses sc i ts)"

lemma next_delay_power: "1 \<le> d \<Longrightarrow> d \<le> 3600 \<Longrightarrow> min 3600 (next_delay d * 2 ^ n) = min 3600 (d * 2 ^ Suc n)"
proof -
  assume d: "1 \<le> d" "d \<le> 3600"
  have one: "(1 :: int) \<le> 2 ^ n" by simp
  show ?thesis
  proof (cases "3600 \<le> 2 * d")
    case True
    then have "3600 * 1 \<le> 2 * d * 2 ^ n" using one by (intro mult_mono) simp_all
    moreover have "3600 * 1 \<le> (3600 :: int) * 2 ^ n" using one by (intro mult_left_mono) simp_all
    moreover have "next_delay d = 3600" using True by (simp add: next_delay_def)
    ultimately show ?thesis by (simp add: ac_simps)
  next
    case False
    then show ?thesis by (simp add: next_delay_def ac_simps)
  qed
qed

lemma elapses_delay:
  assumes "queriers_inv sc s" "qr_store s i = Some q" "0 < n_used q" "\<forall>t \<in> set ts. normalized t"
  shows "\<exists>s' q'. querier_elapses sc i ts s = Ret s' \<and> queriers_inv sc s' \<and> qr_store s' i = Some q' \<and> qr_key q' = qr_key q \<and>
    n_used q' = n_used q \<and> uint (qr_delay q') = min 3600 (uint (qr_delay q) * 2 ^ length ts) \<and>
    (ts \<noteq> [] \<longrightarrow> qr_event q' = Some (elapse_after (last ts) (uint (qr_delay q') * 1000)))"
  using assms
proof (induction ts arbitrary: s q)
  case Nil
  have "uint (qr_delay q) \<le> 3600" using inv_querier [OF Nil(1,2)] by (simp add: asking_ok_def word_le_def)
  with Nil show ?case by simp
next
  case (Cons now ts)
  have d: "1 \<le> uint (qr_delay q)" "uint (qr_delay q) \<le> 3600"
    using inv_querier [OF Cons.prems(1,2)] by (simp_all add: asking_ok_def word_le_def)
  have now: "normalized now" using Cons.prems(4) by simp
  from querier_elapse_used [OF Cons.prems(1,2) now Cons.prems(3)] obtain x pid q1 where
    one: "querier_elapse_callback sc now s i = Ret (set_querier i q1 (s\<lparr>query_scheduler := x\<rparr>))"
      "queriers_inv sc (set_querier i q1 (s\<lparr>query_scheduler := x\<rparr>))" "asks_again now pid q q1" by blast
  from one(3) have q1: "qr_key q1 = qr_key q" "n_used q1 = n_used q" "uint (qr_delay q1) = next_delay (uint (qr_delay q))"
    "qr_event q1 = Some (elapse_after now (next_delay (uint (qr_delay q)) * 1000))" by (simp_all add: asks_again_def)
  from Cons.IH [OF one(2), of q1] Cons.prems(3,4) q1(2) obtain s' q' where
    s': "querier_elapses sc i ts (set_querier i q1 (s\<lparr>query_scheduler := x\<rparr>)) = Ret s'" "queriers_inv sc s'" "qr_store s' i = Some q'"
      "qr_key q' = qr_key q1" "n_used q' = n_used q1" "uint (qr_delay q') = min 3600 (uint (qr_delay q1) * 2 ^ length ts)"
      "ts \<noteq> [] \<longrightarrow> qr_event q' = Some (elapse_after (last ts) (uint (qr_delay q') * 1000))" by auto
  have run: "querier_elapses sc i (now # ts) s = Ret s'" using one(1) s'(1) by simp
  have delay: "uint (qr_delay q') = min 3600 (uint (qr_delay q) * 2 ^ length (now # ts))"
    using s'(6) q1(3) next_delay_power [OF d, of "length ts"] by simp
  have event: "qr_event q' = Some (elapse_after (last (now # ts)) (uint (qr_delay q') * 1000))"
  proof (cases ts)
    case Nil
    with s'(1,3) have "q' = q1" by auto
    with q1(3,4) Nil show ?thesis by simp
  qed (use s'(7) in simp)
  show ?case using run s'(2-5) delay event q1(1,2) by (intro exI [of _ s'] exI [of _ q']) simp
qed

text \<open>
  Property C12. A querier asks ever more rarely. When its time event fires and it has users, its
  question is handed to the scheduler, which will send it within 100 milliseconds unless it has just
  been asked; when the event has fired n times, the next comes min (d 2^n) 3600 seconds after the last,
  where d is what the interval was before. The number of users does not change.
\<close>

theorem querier_backs_off:
  assumes "queriers_reachable sc s" "qr_store s i = Some q" "0 < n_used q" "\<forall>t \<in> set ts. normalized t" "normalized now"
  shows "(\<exists>s' pid. querier_elapse_callback sc now s i = Ret s' \<and>
      asked_for now (qr_announcing s) (qr_key q) (query_scheduler s) (query_scheduler s') pid) \<and>
    (\<exists>s' q'. querier_elapses sc i ts s = Ret s' \<and> qr_store s' i = Some q' \<and> n_used q' = n_used q \<and>
      uint (qr_delay q') = min 3600 (uint (qr_delay q) * 2 ^ length ts) \<and>
      (ts \<noteq> [] \<longrightarrow> qr_event q' = Some (elapse_after (last ts) (uint (qr_delay q') * 1000))))"
proof -
  have inv: "queriers_inv sc s" using assms(1) by (rule queriers_reachable_inv)
  from querier_elapse_used [OF inv assms(2,5,3)] obtain x pid q1 where
    x: "querier_elapse_callback sc now s i = Ret (set_querier i q1 (s\<lparr>query_scheduler := x\<rparr>))"
      "asked_for now (qr_announcing s) (qr_key q) (query_scheduler s) x pid" by blast
  have "query_scheduler (set_querier i q1 (s\<lparr>query_scheduler := x\<rparr>)) = x" by simp
  with x have "\<exists>s' pid. querier_elapse_callback sc now s i = Ret s' \<and>
      asked_for now (qr_announcing s) (qr_key q) (query_scheduler s) (query_scheduler s') pid" by metis
  moreover from elapses_delay [OF inv assms(2-4)] have "\<exists>s' q'. querier_elapses sc i ts s = Ret s' \<and> qr_store s' i = Some q' \<and> n_used q' = n_used q \<and>
      uint (qr_delay q') = min 3600 (uint (qr_delay q) * 2 ^ length ts) \<and>
      (ts \<noteq> [] \<longrightarrow> qr_event q' = Some (elapse_after (last ts) (uint (qr_delay q') * 1000)))" by blast
  ultimately show ?thesis ..
qed

definition example_queriers :: querier_iface where
  "example_queriers =
     (case querier_do True (Querier_add (example_time 100) example_question) (no_queriers True avahi_query_scheduler_new) of Ret s \<Rightarrow> s)"

lemma example_queriers:
  "queriers_reachable True example_queriers"
  "\<exists>q. qr_store example_queriers 0 = Some q \<and> n_used q = 1 \<and> qr_delay q = 1 \<and> qr_key q = example_question"
proof -
  let ?s = "no_queriers True avahi_query_scheduler_new"
  have ok: "querier_op_ok True ?s (Querier_add (example_time 100) example_question)" using example_question_ok by simp
  from querier_do_ok [OF queriers_reachable_inv [OF queriers_new] ok] obtain s where
    s: "querier_do True (Querier_add (example_time 100) example_question) ?s = Ret s" by blast
  then have e: "example_queriers = s" by (simp add: example_queriers_def)
  from queriers_step [OF queriers_new ok s] e show "queriers_reachable True example_queriers" by simp
  have inv: "queriers_inv True ?s" by (rule queriers_reachable_inv [OF queriers_new])
  have "qr_store ?s = Map.empty" "qr_fresh ?s = 0" by (simp_all add: no_queriers_def)
  with querier_add_new [OF inv example_question_ok] s e show
    "\<exists>q. qr_store example_queriers 0 = Some q \<and> n_used q = 1 \<and> qr_delay q = 1 \<and> qr_key q = example_question" by auto
qed

lemma querier_backs_off_witness:
  "\<exists>s' q'. querier_elapses True 0 [example_time 101, example_time 103] example_queriers = Ret s' \<and> qr_store s' 0 = Some q' \<and>
    uint (qr_delay q') = 4 \<and> qr_event q' = Some (elapse_after (example_time 103) 4000)"
proof -
  from example_queriers(2) obtain q where q: "qr_store example_queriers 0 = Some q" "n_used q = 1" "qr_delay q = 1" by blast
  have t: "normalized (example_time 101)" "normalized (example_time 103)" by code_simp+
  from querier_backs_off [OF example_queriers(1) q(1), of "[example_time 101, example_time 103]" "example_time 101"] q t
  show ?thesis by auto
qed

text \<open>
  Property C11. The queriers count for every question how many are interested in it: adding one makes
  it one more, removing one makes it one less but never fewer than none, whether the query could be
  withdrawn or not; nothing else changes the number, until all queriers are freed. The cache is
  told to refresh its entries exactly when somebody is interested in them.
\<close>

theorem queriers_count_users:
  assumes "queriers_reachable sc s" "querier_op_ok sc s x" "sendable_key k" "normalized now"
  shows "(\<exists>s'. querier_do sc x s = Ret s' \<and> users sc s' k = count_users x k (users sc s k)) \<and>
    (\<exists>s' b. avahi_querier_shall_refresh_cache sc now s k = Ret (s', b) \<and> (b \<longleftrightarrow> 0 < users sc s k))"
proof -
  have inv: "queriers_inv sc s" using assms(1) by (rule queriers_reachable_inv)
  have k: "key_ok k" using assms(3) by (simp add: sendable_key_def)
  from querier_do_ok [OF inv assms(2)] querier_do_users [OF inv assms(2) k]
  have "\<exists>s'. querier_do sc x s = Ret s' \<and> users sc s' k = count_users x k (users sc s k)" by blast
  moreover from shall_refresh_ok [OF inv assms(3,4)] users_pos [OF inv k]
  have "\<exists>s' b. avahi_querier_shall_refresh_cache sc now s k = Ret (s', b) \<and> (b \<longleftrightarrow> 0 < users sc s k)" by blast
  ultimately show ?thesis ..
qed

lemma queriers_count_users_witness:
  "\<exists>s'. querier_do True (Querier_remove example_question) example_queriers = Ret s' \<and> users True s' example_question = 0"
proof -
  from example_queriers(2) have "used_by example_queriers example_question 0 1" by (auto simp: used_by_def)
  then have one: "users True example_queriers example_question = 1"
    using users_known [OF queriers_reachable_inv [OF example_queriers(1)]] example_question_ok(1) by (auto simp: sendable_key_def)
  have "querier_op_ok True example_queriers (Querier_remove example_question)" using example_question_ok by simp
  from queriers_count_users [OF example_queriers(1) this example_question_ok(1,2)] one show ?thesis by simp
qed

fun queriers_run :: "bool \<Rightarrow> querier_op list \<Rightarrow> querier_iface \<Rightarrow> querier_iface res" where
  "queriers_run sc [] s = Ret s"
| "queriers_run sc (x # xs) s = res_bind (querier_do sc x s) (queriers_run sc xs)"

text \<open>Withdrawing a post of the one scheduled job with its number.\<close>

lemma withdraw_loop_none:
  "\<forall>x \<in> set l. \<exists>j. qstore s x = Some j \<and> \<not> qdone j \<and> qid j \<noteq> n \<Longrightarrow> withdraw_loop n l s = Ret (s, False)"
  by (induction l) auto

lemma withdraw_loop_one:
  assumes "distinct l" "m \<in> set l" "qstore s m = Some j" "1 \<le> n_posted j"
    and "\<forall>x \<in> set l. \<exists>j. qstore s x = Some j \<and> \<not> qdone j \<and> (qid j = n \<longleftrightarrow> x = m)"
  shows "withdraw_loop n l s =
    (let s' = set_job m (j\<lparr>n_posted := n_posted j - 1\<rparr>) s
     in if n_posted j = 1 then res_map (\<lambda>s. (s, True)) (job_free s' m) else Ret (s', False))"
  using assms
proof (induction l)
  case (Cons x l)
  show ?case
  proof (cases "x = m")
    case True
    let ?s = "set_job m (j\<lparr>n_posted := n_posted j - 1\<rparr>) s"
    have "\<forall>x \<in> set l. \<exists>j. qstore ?s x = Some j \<and> \<not> qdone j \<and> qid j \<noteq> n" using Cons.prems(1,5) True by auto
    note rest = withdraw_loop_none [OF this]
    have "\<not> qdone j" "qid j = n" using Cons.prems(3,5) True by auto
    with True Cons.prems(3,4) rest show ?thesis by (simp add: Let_def)
  next
    case False
    then obtain jx where "qstore s x = Some jx" "\<not> qdone jx" "qid jx \<noteq> n" using Cons.prems(5) by auto
    with False Cons show ?thesis by simp
  qed
qed simp

lemma withdraw_one:
  assumes "query_core s" "qstore s m = Some j" "\<not> qdone j" "1 \<le> n_posted j"
    and "\<forall>m' j'. qstore s m' = Some j' \<and> \<not> qdone j' \<and> qid j' = qid j \<longrightarrow> m' = m"
  shows "\<exists>s'. avahi_query_scheduler_withdraw_by_id s (qid j) = Ret (s', n_posted j = 1) \<and>
    qstore s' = (qstore s)(m := if n_posted j = 1 then None else Some (j\<lparr>n_posted := n_posted j - 1\<rparr>))"
proof -
  have "distinct (qjobs s)" using assms(1) by (simp add: query_core_def)
  moreover have "m \<in> set (qjobs s)" using core_scheduled [OF assms(1), of m] assms(2,3) by simp
  moreover have "\<forall>x \<in> set (qjobs s). \<exists>j'. qstore s x = Some j' \<and> \<not> qdone j' \<and> (qid j' = qid j \<longleftrightarrow> x = m)"
  proof
    fix x
    assume "x \<in> set (qjobs s)"
    with core_scheduled [OF assms(1), of x] obtain j' where "qstore s x = Some j'" "\<not> qdone j'" by auto
    with assms(2,5) show "\<exists>j'. qstore s x = Some j' \<and> \<not> qdone j' \<and> (qid j' = qid j \<longleftrightarrow> x = m)" by (cases "x = m") auto
  qed
  ultimately show ?thesis using withdraw_loop_one [OF _ _ assms(2,4), of "qjobs s" "qid j"] assms(3)
    by (simp add: avahi_query_scheduler_withdraw_by_id_def Let_def job_free_def)
qed

lemma remove_last_user:
  assumes inv: "queriers_inv sc s" and k: "sendable_key k" and q: "qr_store s i = Some q" "key_abs (qr_key q) = key_abs k"
    and q1: "n_used q = 1" "post_id_valid q" and j: "qstore (query_scheduler s) m = Some j" "\<not> qdone j" "qid j = post_id q" "1 \<le> n_posted j"
    and only: "\<forall>m' j'. qstore (query_scheduler s) m' = Some j' \<and> \<not> qdone j' \<and> qid j' = post_id q \<longrightarrow> m' = m"
  shows "\<exists>s'. avahi_querier_remove sc s k = Ret s' \<and> queriers_inv sc s' \<and> qsent (query_scheduler s') = qsent (query_scheduler s) \<and>
    qr_store s' = (qr_store s)(i := if n_posted j = 1 then None else Some (q\<lparr>n_used := 0\<rparr>)) \<and>
    qstore (query_scheduler s') = (qstore (query_scheduler s))(m := if n_posted j = 1 then None else Some (j\<lparr>n_posted := n_posted j - 1\<rparr>))"
proof -
  have core: "query_core (query_scheduler s)" using inv_sched [OF inv] by (simp add: query_inv_def)
  from withdraw_one [OF core j(1,2,4)] only j(3) obtain x where
    x: "avahi_query_scheduler_withdraw_by_id (query_scheduler s) (post_id q) = Ret (x, n_posted j = 1)"
      "qstore x = (qstore (query_scheduler s))(m := if n_posted j = 1 then None else Some (j\<lparr>n_posted := n_posted j - 1\<rparr>))" by metis
  from querier_remove_known [OF inv k q] q1 obtain s' where
    s': "avahi_querier_remove sc s k = Ret s'" "queriers_inv sc s'" "qsent (query_scheduler s') = qsent (query_scheduler s)"
      "\<exists>x b. avahi_query_scheduler_withdraw_by_id (query_scheduler s) (post_id q) = Ret (x, b) \<and> query_scheduler s' = x \<and>
       qr_store s' = (qr_store s)(i := if b then None else Some (q\<lparr>n_used := 0\<rparr>))" by auto
  from s'(4) x(1) have "query_scheduler s' = x" "qr_store s' = (qr_store s)(i := if n_posted j = 1 then None else Some (q\<lparr>n_used := 0\<rparr>))" by auto
  with s'(1-3) x(2) show ?thesis by blast
qed

text \<open>
  Property C13. A querier can withdraw the query of somebody else. Its last user leaves while its question is scheduled and
  has been posted by one other, a reflector say: the job of the question stays for the other, and so does the querier,
  but the querier goes on taking the number of its post for valid. The next user does not post again; when it leaves before the
  querier has asked again, the same post is withdrawn a second time, which takes away the question of the other one
  before it has been sent. (The numbers of posts are unique until 2^32 questions have been posted.)
\<close>

theorem querier_withdraws_twice:
  assumes "queriers_reachable sc s" "sendable_key k" "normalized now"
    and "qr_store s i = Some q" "key_abs (qr_key q) = key_abs k" "n_used q = 1" "post_id_valid q"
    and "qstore (query_scheduler s) m = Some j" "\<not> qdone j" "qid j = post_id q" "n_posted j = 2"
    and "\<forall>m' j'. qstore (query_scheduler s) m' = Some j' \<and> \<not> qdone j' \<and> qid j' = post_id q \<longrightarrow> m' = m"
  shows "\<exists>s1 s2 s3. avahi_querier_remove sc s k = Ret s1 \<and>
      qstore (query_scheduler s1) = (qstore (query_scheduler s))(m \<mapsto> j\<lparr>n_posted := 1\<rparr>) \<and> qr_store s1 i = Some (q\<lparr>n_used := 0\<rparr>) \<and>
    avahi_querier_add sc now s1 k = Ret (s2, creation_time q) \<and> query_scheduler s2 = query_scheduler s1 \<and>
    avahi_querier_remove sc s2 k = Ret s3 \<and>
      qstore (query_scheduler s3) = (qstore (query_scheduler s))(m := None) \<and> qsent (query_scheduler s3) = qsent (query_scheduler s)"
proof -
  have inv: "queriers_inv sc s" using assms(1) by (rule queriers_reachable_inv)
  from remove_last_user [OF inv assms(2,4-10) _ assms(12)] assms(11) obtain s1 where
    s1: "avahi_querier_remove sc s k = Ret s1" "queriers_inv sc s1" "qsent (query_scheduler s1) = qsent (query_scheduler s)"
      "qr_store s1 = (qr_store s)(i \<mapsto> q\<lparr>n_used := 0\<rparr>)"
      "qstore (query_scheduler s1) = (qstore (query_scheduler s))(m \<mapsto> j\<lparr>n_posted := 1\<rparr>)" by auto
  have q1: "qr_store s1 i = Some (q\<lparr>n_used := 0\<rparr>)" "key_abs (qr_key (q\<lparr>n_used := 0\<rparr>)) = key_abs k" using s1(4) assms(5) by simp_all
  note add = querier_add_known(1) [OF s1(2) assms(2) q1, where now = now] querier_add_known(2) [OF s1(2) assms(2) q1]
  let ?s2 = "set_querier i (q\<lparr>n_used := 1\<rparr>) s1"
  have add': "avahi_querier_add sc now s1 k = Ret (?s2, creation_time q)" and inv2: "queriers_inv sc ?s2" using add by simp_all
  have q2: "qr_store ?s2 i = Some (q\<lparr>n_used := 1\<rparr>)" by simp
  have j2: "qstore (query_scheduler ?s2) m = Some (j\<lparr>n_posted := 1\<rparr>)" using s1(5) by simp
  have only: "\<forall>m' j'. qstore (query_scheduler ?s2) m' = Some j' \<and> \<not> qdone j' \<and> qid j' = post_id (q\<lparr>n_used := 1\<rparr>) \<longrightarrow> m' = m"
    using s1(5) assms(12) by (auto split: if_splits)
  from remove_last_user [OF inv2 assms(2) q2 _ _ _ j2 _ _ _ only] assms(5,7,9,10) obtain s3 where
    "avahi_querier_remove sc ?s2 k = Ret s3" "qsent (query_scheduler s3) = qsent (query_scheduler s1)"
    "qstore (query_scheduler s3) = (qstore (query_scheduler s1))(m := None)" by auto
  with s1 q1(1) add' show ?thesis by (intro exI [of _ s1] exI [of _ ?s2] exI [of _ s3]) simp
qed

definition example_shared_queriers :: querier_iface where
  "example_shared_queriers =
     (case querier_do True (Scheduler_op (Query_post (example_time 100) example_question True)) example_queriers of Ret s \<Rightarrow> s)"

lemma querier_withdraws_twice_witness:
  "\<exists>s1 s2 s3. avahi_querier_remove True example_shared_queriers example_question = Ret s1 \<and> qstore (query_scheduler s1) 0 \<noteq> None \<and>
    avahi_querier_add True (example_time 100) s1 example_question = Ret (s2, example_time 100) \<and>
    avahi_querier_remove True s2 example_question = Ret s3 \<and> qstore (query_scheduler s3) 0 = None \<and> qsent (query_scheduler s3) = []"
proof -
  let ?op = "Scheduler_op (Query_post (example_time 100) example_question True)"
  have ok: "querier_op_ok True example_queriers ?op" using example_question_ok by simp
  from querier_do_ok [OF queriers_reachable_inv [OF example_queriers(1)] ok] have
    "querier_do True ?op example_queriers = Ret example_shared_queriers" by (auto simp: example_shared_queriers_def)
  from queriers_step [OF example_queriers(1) ok this] have reach: "queriers_reachable True example_shared_queriers" .
  have "map_option (\<lambda>q. (qr_key q, n_used q, post_id_valid q, post_id q, creation_time q)) (qr_store example_shared_queriers 0) =
      Some (example_question, 1, True, 0, example_time 100)"
    "map_option (\<lambda>j. (qdone j, qid j, n_posted j)) (qstore (query_scheduler example_shared_queriers) 0) = Some (False, 0, 2)"
    "qjobs (query_scheduler example_shared_queriers) = [0]" "qsent (query_scheduler example_shared_queriers) = []" by code_simp+
  then obtain q j where q: "qr_store example_shared_queriers 0 = Some q" "qr_key q = example_question" "n_used q = 1" "post_id_valid q"
      "post_id q = 0" "creation_time q = example_time 100"
    and j: "qstore (query_scheduler example_shared_queriers) 0 = Some j" "\<not> qdone j" "qid j = 0" "n_posted j = 2"
    and l: "qjobs (query_scheduler example_shared_queriers) = [0]" "qsent (query_scheduler example_shared_queriers) = []" by auto
  have "query_core (query_scheduler example_shared_queriers)"
    using inv_sched [OF queriers_reachable_inv [OF reach]] by (simp add: query_inv_def)
  from core_scheduled [OF this] l(1) have "\<forall>m' j'. qstore (query_scheduler example_shared_queriers) m' = Some j' \<and> \<not> qdone j' \<and> qid j' = post_id q \<longrightarrow> m' = 0"
    by auto
  from querier_withdraws_twice [OF reach example_question_ok q(1) _ q(3,4) j(1,2) _ j(4) this] q j l show ?thesis by auto
qed

end
