(* ===== verification/Rrlist.thy ===== *)
theory Rrlist
  imports Rr
begin

text \<open>
  \<open>avahi-core/rrlist.c\<close>: the list in which the records of a response are gathered. Records that have
  been taken out are remembered until the list is flushed, so that none is taken out twice,
  although more are pushed on while it is drained.
\<close>

section \<open>The list\<close>

record list_item =
  irecord :: rr
  unicast_response :: bool
  flush_cache :: bool
  auxiliary :: bool

text \<open>The flag \<open>read\<close> of an item says which of the two lists it is in.\<close>

record record_list =
  lread :: "list_item list"
  lunread :: "list_item list"
  all_flush_cache :: bool

definition avahi_record_list_new :: record_list where
  "avahi_record_list_new = \<lparr>lread = [], lunread = [], all_flush_cache = True\<rparr>"

definition avahi_record_list_flush :: "record_list \<Rightarrow> record_list" where
  "avahi_record_list_flush l = l\<lparr>lread := [], lunread := [], all_flush_cache := True\<rparr>"

definition avahi_record_list_next :: "record_list \<Rightarrow> record_list \<times> list_item option" where
  "avahi_record_list_next l =
     (case lunread l of
        [] \<Rightarrow> (l, None)
      | i # rest \<Rightarrow> (l\<lparr>lunread := rest, lread := i # lread l\<rparr>, Some i))"

fun find_item :: "rr \<Rightarrow> list_item list \<Rightarrow> list_item option res" where
  "find_item r [] = Ret None"
| "find_item r (i # rest) =
     res_bind (avahi_record_equal_no_ttl (irecord i) r) (\<lambda>eq. if eq then Ret (Some i) else find_item r rest)"

text \<open>\<open>get\<close>, with whether the item has been read.\<close>

definition get_item :: "record_list \<Rightarrow> rr \<Rightarrow> (bool \<times> list_item) option res" where
  "get_item l r =
     res_bind (find_item r (lread l)) (\<lambda>x.
       case x of
         Some i \<Rightarrow> Ret (Some (True, i))
       | None \<Rightarrow> res_map (map_option (Pair False)) (find_item r (lunread l)))"

definition avahi_record_list_push :: "record_list \<Rightarrow> rr \<Rightarrow> bool \<Rightarrow> bool \<Rightarrow> bool \<Rightarrow> record_list res" where
  "avahi_record_list_push l r flush unicast aux =
     res_map (\<lambda>x.
       case x of
         Some _ \<Rightarrow> l
       | None \<Rightarrow>
           l\<lparr>lunread := \<lparr>irecord = r, unicast_response = unicast, flush_cache = flush, auxiliary = aux\<rparr> # lunread l,
             all_flush_cache := all_flush_cache l \<and> flush\<rparr>) (get_item l r)"

definition avahi_record_list_drop :: "record_list \<Rightarrow> rr \<Rightarrow> record_list res" where
  "avahi_record_list_drop l r =
     res_map (\<lambda>x.
       case x of
         None \<Rightarrow> l
       | Some (True, i) \<Rightarrow> l\<lparr>lread := remove1 i (lread l)\<rparr>
       | Some (False, i) \<Rightarrow> l\<lparr>lunread := remove1 i (lunread l)\<rparr>) (get_item l r)"

definition avahi_record_list_is_empty :: "record_list \<Rightarrow> bool" where
  "avahi_record_list_is_empty l \<longleftrightarrow> lunread l = [] \<and> lread l = []"

definition avahi_record_list_all_flush_cache :: "record_list \<Rightarrow> bool" where
  "avahi_record_list_all_flush_cache l = all_flush_cache l"

section \<open>What the list holds\<close>

definition item_abs :: "list_item \<Rightarrow> (byte list list \<times> u16 \<times> u16) \<times> rdata \<times> byte list list" where
  "item_abs i = rr_abs (irecord i)"

text \<open>The items, read or not, are valid and have different meanings; the flag speaks the truth when it is set.\<close>

definition record_list_ok :: "record_list \<Rightarrow> bool" where
  "record_list_ok l \<longleftrightarrow> (\<forall>i \<in> set (lread l) \<union> set (lunread l). rr_ok (irecord i)) \<and>
     distinct (map item_abs (lread l @ lunread l)) \<and>
     (all_flush_cache l \<longrightarrow> (\<forall>i \<in> set (lread l) \<union> set (lunread l). flush_cache i))"

text \<open>A record with the meaning of \<open>r\<close> is in the list.\<close>

definition in_list :: "record_list \<Rightarrow> rr \<Rightarrow> bool" where
  "in_list l r \<longleftrightarrow> rr_abs r \<in> item_abs ` (set (lread l) \<union> set (lunread l))"

lemma record_list_new_ok: "record_list_ok avahi_record_list_new"
  by (simp add: record_list_ok_def avahi_record_list_new_def)

lemma record_list_flush_new: "avahi_record_list_flush l = avahi_record_list_new"
  by (simp add: avahi_record_list_flush_def avahi_record_list_new_def)

lemma find_item_ok:
  assumes "\<forall>i \<in> set l. rr_ok (irecord i)" "rr_ok r"
  shows "find_item r l = Ret (find (\<lambda>i. item_abs i = rr_abs r) l)"
  using assms by (induction l) (simp_all add: record_equal_abs item_abs_def)

lemma get_item_ok:
  assumes "record_list_ok l" "rr_ok r"
  shows "get_item l r = Ret (case find (\<lambda>i. item_abs i = rr_abs r) (lread l) of
     Some i \<Rightarrow> Some (True, i)
   | None \<Rightarrow> map_option (Pair False) (find (\<lambda>i. item_abs i = rr_abs r) (lunread l)))"
  using assms find_item_ok [of "lread l" r] find_item_ok [of "lunread l" r]
  by (auto simp: get_item_def record_list_ok_def split: option.splits)

lemma find_image_None: "find (\<lambda>i. f i = a) l = None \<longleftrightarrow> a \<notin> f ` set l"
  by (auto simp: find_None_iff)

lemma get_item_None:
  assumes "record_list_ok l" "rr_ok r"
  shows "get_item l r = Ret None \<longleftrightarrow> \<not> in_list l r"
  unfolding get_item_ok [OF assms] in_list_def image_Un Un_iff
  using find_image_None [of item_abs "rr_abs r" "lread l"] find_image_None [of item_abs "rr_abs r" "lunread l"]
  by (cases "find (\<lambda>i. item_abs i = rr_abs r) (lread l)") simp_all

lemma record_list_push_ok:
  assumes "record_list_ok l" "rr_ok r"
  shows "avahi_record_list_push l r flush unicast aux = Ret (if in_list l r then l else
    l\<lparr>lunread := \<lparr>irecord = r, unicast_response = unicast, flush_cache = flush, auxiliary = aux\<rparr> # lunread l,
      all_flush_cache := all_flush_cache l \<and> flush\<rparr>)"
  using get_item_ok [OF assms] get_item_None [OF assms]
  by (cases "get_item l r") (auto simp: avahi_record_list_push_def split: option.splits)

lemma in_list_push: "in_list (l\<lparr>lunread := i # lunread l, all_flush_cache := b\<rparr>) r \<longleftrightarrow> item_abs i = rr_abs r \<or> in_list l r"
  by (auto simp: in_list_def image_iff)

lemma record_list_push_keeps:
  assumes "record_list_ok l" "rr_ok r" "avahi_record_list_push l r flush unicast aux = Ret l'"
  shows "record_list_ok l'" "in_list l' r' \<longleftrightarrow> in_list l r' \<or> rr_abs r' = rr_abs r" "lread l' = lread l"
proof -
  let ?i = "\<lparr>irecord = r, unicast_response = unicast, flush_cache = flush, auxiliary = aux\<rparr>"
  have l': "l' = (if in_list l r then l else l\<lparr>lunread := ?i # lunread l, all_flush_cache := all_flush_cache l \<and> flush\<rparr>)"
    using assms by (simp add: record_list_push_ok)
  show "record_list_ok l'"
  proof (cases "in_list l r")
    case True
    with l' assms(1) show ?thesis by simp
  next
    case False
    then have "rr_abs r \<notin> item_abs ` set (lread l)" "rr_abs r \<notin> item_abs ` set (lunread l)" by (auto simp: in_list_def)
    with l' False assms(1,2) show ?thesis unfolding record_list_ok_def by (simp add: item_abs_def [of ?i])
  qed
  show "in_list l' r' \<longleftrightarrow> in_list l r' \<or> rr_abs r' = rr_abs r"
    using l' by (cases "in_list l r") (auto simp: in_list_push item_abs_def [of ?i], simp add: in_list_def)
  show "lread l' = lread l" using l' by simp
qed

lemma record_list_next_keeps:
  assumes "record_list_ok l" "avahi_record_list_next l = (l', x)"
  shows "record_list_ok l'" "in_list l' r = in_list l r"
proof -
  have "record_list_ok l' \<and> in_list l' r = in_list l r"
  proof (cases "lunread l")
    case Nil
    with assms show ?thesis by (simp add: avahi_record_list_next_def)
  next
    case (Cons i rest)
    with assms(2) have "l' = l\<lparr>lunread := rest, lread := i # lread l\<rparr>" by (simp add: avahi_record_list_next_def)
    with Cons assms(1) show ?thesis by (simp add: record_list_ok_def in_list_def Un_insert_right)
  qed
  then show "record_list_ok l'" "in_list l' r = in_list l r" by simp_all
qed

section \<open>Pushing and draining\<close>

datatype list_op = Push rr bool bool bool | Next

text \<open>A sequence of operations, and the items it takes out.\<close>

fun record_list_run :: "list_op list \<Rightarrow> record_list \<Rightarrow> (record_list \<times> list_item list) res" where
  "record_list_run [] l = Ret (l, [])"
| "record_list_run (Push r flush unicast aux # xs) l =
     res_bind (avahi_record_list_push l r flush unicast aux) (record_list_run xs)"
| "record_list_run (Next # xs) l =
     (case avahi_record_list_next l of
        (l, x) \<Rightarrow> res_map (\<lambda>(l, out). (l, (case x of None \<Rightarrow> out | Some i \<Rightarrow> i # out))) (record_list_run xs l))"

fun pushed :: "list_op list \<Rightarrow> list_item list" where
  "pushed [] = []"
| "pushed (Push r flush unicast aux # xs) =
     \<lparr>irecord = r, unicast_response = unicast, flush_cache = flush, auxiliary = aux\<rparr> # pushed xs"
| "pushed (Next # xs) = pushed xs"

lemma record_list_run_ok:
  assumes "record_list_ok l" "\<forall>i \<in> set (pushed xs). rr_ok (irecord i)"
  shows "\<exists>l' out. record_list_run xs l = Ret (l', out) \<and> record_list_ok l' \<and> lread l' = rev out @ lread l \<and>
    set (lread l') \<union> set (lunread l') \<subseteq> set (lread l) \<union> set (lunread l) \<union> set (pushed xs) \<and>
    item_abs ` (set (lread l') \<union> set (lunread l')) = item_abs ` (set (lread l) \<union> set (lunread l) \<union> set (pushed xs))"
  using assms
proof (induction xs arbitrary: l)
  case (Cons x xs)
  show ?case
  proof (cases x)
    case (Push r flush unicast aux)
    let ?i = "\<lparr>irecord = r, unicast_response = unicast, flush_cache = flush, auxiliary = aux\<rparr>"
    let ?l = "if in_list l r then l else l\<lparr>lunread := ?i # lunread l, all_flush_cache := all_flush_cache l \<and> flush\<rparr>"
    from Cons.prems Push have r: "rr_ok r" by simp
    note push = record_list_push_ok [OF Cons.prems(1) r, of flush unicast aux]
    note ok = record_list_push_keeps(1) [OF Cons.prems(1) r push]
    have "\<forall>i \<in> set (pushed xs). rr_ok (irecord i)" using Cons.prems(2) Push by simp
    from Cons.IH [OF ok this] obtain l' out where l': "record_list_run xs ?l = Ret (l', out)" "record_list_ok l'"
      "lread l' = rev out @ lread ?l"
      "set (lread l') \<union> set (lunread l') \<subseteq> set (lread ?l) \<union> set (lunread ?l) \<union> set (pushed xs)"
      "item_abs ` (set (lread l') \<union> set (lunread l')) = item_abs ` (set (lread ?l) \<union> set (lunread ?l) \<union> set (pushed xs))" by blast
    have "record_list_run (x # xs) l = Ret (l', out)" using l'(1) push Push by simp
    moreover have "item_abs ` (set (lread ?l) \<union> set (lunread ?l) \<union> set (pushed xs)) =
        item_abs ` (set (lread l) \<union> set (lunread l) \<union> set (pushed (x # xs)))"
    proof (cases "in_list l r")
      case True
      then have "item_abs ?i \<in> item_abs ` (set (lread l) \<union> set (lunread l))" by (simp add: in_list_def item_abs_def [of ?i])
      with True Push show ?thesis by (simp add: image_Un insert_absorb)
    qed (use Push in \<open>simp add: image_Un\<close>)
    then have "item_abs ` (set (lread l') \<union> set (lunread l')) = item_abs ` (set (lread l) \<union> set (lunread l) \<union> set (pushed (x # xs)))"
      using l'(5) by (rule trans [rotated])
    moreover have "lread l' = rev out @ lread l" using l'(3) by simp
    moreover have "set (lread ?l) \<union> set (lunread ?l) \<union> set (pushed xs) \<subseteq> set (lread l) \<union> set (lunread l) \<union> set (pushed (x # xs))"
      using Push by auto
    with l'(4) have "set (lread l') \<union> set (lunread l') \<subseteq> set (lread l) \<union> set (lunread l) \<union> set (pushed (x # xs))" by (rule order.trans)
    ultimately show ?thesis using l'(2) by blast
  next
    case Next
    show ?thesis
    proof (cases "lunread l = []")
      case True
      with Cons.IH [OF Cons.prems(1)] Cons.prems(2) Next show ?thesis by (auto simp: avahi_record_list_next_def)
    next
      case False
      then obtain i rest where unread: "lunread l = i # rest" by (cases "lunread l") auto
      let ?l = "l\<lparr>lunread := rest, lread := i # lread l\<rparr>"
      have "avahi_record_list_next l = (?l, Some i)" using unread by (simp add: avahi_record_list_next_def)
      note next_step = this record_list_next_keeps(1) [OF Cons.prems(1) this]
      have "\<forall>i \<in> set (pushed xs). rr_ok (irecord i)" using Cons.prems(2) Next by simp
      from Cons.IH [OF next_step(2) this] obtain l' out where l': "record_list_run xs ?l = Ret (l', out)" "record_list_ok l'"
        "lread l' = rev out @ lread ?l"
        "set (lread l') \<union> set (lunread l') \<subseteq> set (lread ?l) \<union> set (lunread ?l) \<union> set (pushed xs)"
        "item_abs ` (set (lread l') \<union> set (lunread l')) = item_abs ` (set (lread ?l) \<union> set (lunread ?l) \<union> set (pushed xs))" by blast
      have "record_list_run (x # xs) l = Ret (l', i # out)" using next_step(1) l'(1) Next by simp
      moreover have "set (lread ?l) \<union> set (lunread ?l) \<union> set (pushed xs) = set (lread l) \<union> set (lunread l) \<union> set (pushed (x # xs))"
        using unread Next by auto
      moreover have "lread l' = rev (i # out) @ lread l" using l'(3) by simp
      ultimately show ?thesis using l'(2,4,5) by metis
    qed
  qed
qed simp

text \<open>
  However records are pushed on the list and taken from it in between, from a list that
  has just been made or flushed: each record is taken out at most once, with the flags it was pushed
  with; what has been pushed is either taken out or still waits; and
  when the list says that all its records have the flush bit, they do.
\<close>

lemma record_list_takes_once:
  assumes "\<forall>i \<in> set (pushed xs). rr_ok (irecord i)"
  shows "\<exists>l out. record_list_run xs (avahi_record_list_flush l0) = Ret (l, out) \<and>
    distinct (map (\<lambda>i. rr_abs (irecord i)) (out @ lunread l)) \<and> set (out @ lunread l) \<subseteq> set (pushed xs) \<and>
    (\<lambda>i. rr_abs (irecord i)) ` set (out @ lunread l) = (\<lambda>i. rr_abs (irecord i)) ` set (pushed xs) \<and>
    (avahi_record_list_all_flush_cache l \<longrightarrow> (\<forall>i \<in> set (out @ lunread l). flush_cache i))"
proof -
  from record_list_run_ok [OF record_list_new_ok assms] obtain l out where
    l: "record_list_run xs avahi_record_list_new = Ret (l, out)" "record_list_ok l" "lread l = rev out"
      "set (lread l) \<union> set (lunread l) \<subseteq> set (pushed xs)"
      "item_abs ` (set (lread l) \<union> set (lunread l)) = item_abs ` set (pushed xs)"
    by (auto simp: avahi_record_list_new_def)
  have "distinct (map item_abs (out @ lunread l))" using l(2,3) by (auto simp: record_list_ok_def rev_map [symmetric])
  moreover have "avahi_record_list_all_flush_cache l \<longrightarrow> (\<forall>i \<in> set (out @ lunread l). flush_cache i)"
    using l(2,3) by (auto simp: record_list_ok_def avahi_record_list_all_flush_cache_def)
  ultimately show ?thesis using l unfolding record_list_flush_new item_abs_def [abs_def] by auto
qed

lemma record_list_takes_once_witness:
  "\<exists>l out. record_list_run [Push (example_ptr ''_ipp._tcp.local'' ''A.local'' 120) True False False, Next,
      Push (example_ptr ''_ipp._tcp.local'' ''a.local'' 0) True False True, Next] (avahi_record_list_flush avahi_record_list_new) = Ret (l, out) \<and>
    distinct (map (\<lambda>i. rr_abs (irecord i)) (out @ lunread l))"
proof -
  have "rr_ok (example_ptr ''_ipp._tcp.local'' ''A.local'' 120)" "rr_ok (example_ptr ''_ipp._tcp.local'' ''a.local'' 0)" by code_simp+
  then have "\<forall>i \<in> set (pushed [Push (example_ptr ''_ipp._tcp.local'' ''A.local'' 120) True False False, Next,
      Push (example_ptr ''_ipp._tcp.local'' ''a.local'' 0) True False True, Next]). rr_ok (irecord i)" by simp
  from record_list_takes_once [OF this] show ?thesis by blast
qed

end
