(* ===== verification/Publish.thy ===== *)
theory Publish
  imports Rrlist Key_Index Response_Sched
begin

text \<open>
  The records a server publishes: entries, their groups, the announcers that probe for and announce an entry
  on an interface (\<open>avahi-core/announce.c\<close>, the groups of \<open>avahi-core/entry.c\<close> and the part of
  \<open>avahi-core/server.c\<close> that looks records up and deals with conflicts). Entries, groups and
  interfaces are numbers in stores. An interface hands responses to its response scheduler; the
  probes it hands to its probe scheduler and the unicast packets it sends are collected. Calls of the callback of a group are collected
  in \<open>changes\<close>. The clock is the argument \<open>now\<close>, \<open>rnd\<close> what \<open>rand\<close> returns, should it
  be called. Unsigned counters are natural numbers; \<open>Crash\<close> also stands for a counter that
  would fall below zero.
\<close>

section \<open>State\<close>

definition AVAHI_ANNOUNCEMENT_JITTER_MSEC :: int where "AVAHI_ANNOUNCEMENT_JITTER_MSEC = 250"
definition AVAHI_PROBE_JITTER_MSEC :: int where "AVAHI_PROBE_JITTER_MSEC = 250"
definition AVAHI_PROBE_INTERVAL_MSEC :: int where "AVAHI_PROBE_INTERVAL_MSEC = 250"
definition AVAHI_RR_HOLDOFF_MSEC :: int where "AVAHI_RR_HOLDOFF_MSEC = 1000"
definition AVAHI_RR_HOLDOFF_MSEC_RATE_LIMIT :: int where "AVAHI_RR_HOLDOFF_MSEC_RATE_LIMIT = 20000"
definition AVAHI_RR_RATE_LIMIT_COUNT :: nat where "AVAHI_RR_RATE_LIMIT_COUNT = 15"

text \<open>A value of the type \<open>AvahiPublishFlags\<close> is the set of its flags.\<close>

datatype publish_flag =
    AVAHI_PUBLISH_UNIQUE | AVAHI_PUBLISH_NO_PROBE | AVAHI_PUBLISH_NO_ANNOUNCE | AVAHI_PUBLISH_ALLOW_MULTIPLE
  | AVAHI_PUBLISH_NO_REVERSE | AVAHI_PUBLISH_NO_COOKIE | AVAHI_PUBLISH_UPDATE | AVAHI_PUBLISH_USE_WIDE_AREA
  | AVAHI_PUBLISH_USE_MULTICAST

datatype announcer_state = AVAHI_PROBING | AVAHI_WAITING | AVAHI_ANNOUNCING | AVAHI_ESTABLISHED

datatype entry_group_state =
    AVAHI_ENTRY_GROUP_UNCOMMITED | AVAHI_ENTRY_GROUP_REGISTERING | AVAHI_ENTRY_GROUP_ESTABLISHED
  | AVAHI_ENTRY_GROUP_COLLISION | AVAHI_ENTRY_GROUP_FAILURE

datatype server_state =
    AVAHI_SERVER_INVALID | AVAHI_SERVER_REGISTERING | AVAHI_SERVER_RUNNING | AVAHI_SERVER_COLLISION | AVAHI_SERVER_FAILURE

record announcer =
  ainterface :: nat
  atime_event :: "timeval option"
  astate :: announcer_state
  n_iteration :: nat
  sec_delay :: nat

text \<open>An entry has its announcers in the order of the list \<open>by_entry\<close>.\<close>

record entry =
  egroup :: "nat option"
  edead :: bool
  eflags :: "publish_flag set"
  erecord :: rr
  einterface :: int
  eprotocol :: int
  announcers :: "announcer list"

record group =
  gdead :: bool
  gstate :: entry_group_state
  n_probing :: nat
  n_register_try :: nat
  register_time :: timeval
  register_time_event :: "timeval option"
  established_at :: timeval
  gentries :: "nat list"

record iface =
  announcing :: bool
  hw_index :: int
  iprotocol :: int
  hw_mtu :: nat
  iresponses :: response_sched
  iprobes :: "rr list"
  iunicasts :: "(dns_packet \<times> address \<times> u16) list"

text \<open>\<open>wide_area_servers\<close>: there is a wide area lookup engine, and it has servers.\<close>

record server =
  entries :: "nat list"
  estore :: "nat \<Rightarrow> entry option"
  entries_by_key :: key_index
  groups :: "nat list"
  gstore :: "nat \<Rightarrow> group option"
  interfaces :: "nat list"
  istore :: "nat \<Rightarrow> iface option"
  srecords :: record_list
  need_entry_cleanup :: bool
  need_group_cleanup :: bool
  cleanup_time_event :: "timeval option"
  sjitter :: jitter_state
  sstate :: server_state
  wide_area_servers :: bool
  disable_publishing :: bool
  changes :: "(nat \<times> entry_group_state) list"

definition get_entry :: "server \<Rightarrow> nat \<Rightarrow> entry res" where
  "get_entry s e = (case estore s e of None \<Rightarrow> Crash | Some x \<Rightarrow> Ret x)"

definition get_group :: "server \<Rightarrow> nat \<Rightarrow> group res" where
  "get_group s g = (case gstore s g of None \<Rightarrow> Crash | Some x \<Rightarrow> Ret x)"

definition get_iface :: "server \<Rightarrow> nat \<Rightarrow> iface res" where
  "get_iface s i = (case istore s i of None \<Rightarrow> Crash | Some x \<Rightarrow> Ret x)"

definition set_entry :: "nat \<Rightarrow> entry \<Rightarrow> server \<Rightarrow> server" where
  "set_entry e x s = s\<lparr>estore := (estore s)(e \<mapsto> x)\<rparr>"

definition set_group :: "nat \<Rightarrow> group \<Rightarrow> server \<Rightarrow> server" where
  "set_group g x s = s\<lparr>gstore := (gstore s)(g \<mapsto> x)\<rparr>"

definition set_iface :: "nat \<Rightarrow> iface \<Rightarrow> server \<Rightarrow> server" where
  "set_iface i x s = s\<lparr>istore := (istore s)(i \<mapsto> x)\<rparr>"

definition unique :: "entry \<Rightarrow> bool" where
  "unique x \<longleftrightarrow> AVAHI_PUBLISH_UNIQUE \<in> eflags x"

definition get_announcer :: "entry \<Rightarrow> nat \<Rightarrow> announcer option" where
  "get_announcer x i = find (\<lambda>a. ainterface a = i) (announcers x)"

text \<open>The announcer \<open>a\<close> of an entry takes the place of the one for its interface.\<close>

definition set_announcer :: "nat \<Rightarrow> announcer \<Rightarrow> server \<Rightarrow> server res" where
  "set_announcer e a s =
     res_map (\<lambda>x. set_entry e (x\<lparr>announcers := map (\<lambda>b. if ainterface b = ainterface a then a else b) (announcers x)\<rparr>) s)
       (get_entry s e)"

definition get_announcer_of :: "server \<Rightarrow> nat \<Rightarrow> nat \<Rightarrow> announcer res" where
  "get_announcer_of s e i =
     res_bind (get_entry s e) (\<lambda>x. case get_announcer x i of None \<Rightarrow> Crash | Some a \<Rightarrow> Ret a)"

section \<open>Interfaces\<close>

definition avahi_interface_match :: "iface \<Rightarrow> int \<Rightarrow> int \<Rightarrow> bool" where
  "avahi_interface_match x idx protocol \<longleftrightarrow>
     \<not> (idx \<noteq> AVAHI_IF_UNSPEC \<and> idx \<noteq> hw_index x) \<and> \<not> (protocol \<noteq> AVAHI_PROTO_UNSPEC \<and> protocol \<noteq> iprotocol x)"

text \<open>The static variables of \<open>avahi_elapse_time\<close> are shared by all its callers.\<close>

definition server_elapse_time :: "timeval \<Rightarrow> int \<Rightarrow> server \<Rightarrow> int \<Rightarrow> int \<Rightarrow> server \<times> timeval" where
  "server_elapse_time now rnd s msec jitter =
     (let (tv, js) = avahi_elapse_time now rnd (sjitter s) msec jitter in (s\<lparr>sjitter := js\<rparr>, tv))"

definition avahi_interface_post_response ::
  "timeval \<Rightarrow> int \<Rightarrow> server \<Rightarrow> nat \<Rightarrow> rr \<Rightarrow> bool \<Rightarrow> address option \<Rightarrow> bool \<Rightarrow> (server \<times> bool) res" where
  "avahi_interface_post_response now rnd s i r flush querier immediately =
     res_bind (get_iface s i) (\<lambda>x.
       if \<not> announcing x then Ret (s, False)
       else
         res_map (\<lambda>(rs, b). ((set_iface i (x\<lparr>iresponses := rs\<rparr>) s)\<lparr>sjitter := rjitter rs\<rparr>, b))
           (avahi_response_scheduler_post now rnd ((iresponses x)\<lparr>rjitter := sjitter s\<rparr>) r flush querier immediately))"

definition avahi_interface_post_probe :: "server \<Rightarrow> nat \<Rightarrow> rr \<Rightarrow> server res" where
  "avahi_interface_post_probe s i r =
     res_bind (get_iface s i) (\<lambda>x.
       if \<not> announcing x then Ret s
       else if avahi_key_is_pattern (rkey r) then Crash
       else Ret (set_iface i (x\<lparr>iprobes := iprobes x @ [r]\<rparr>) s))"

section \<open>What is registered\<close>

definition announcer_registered :: "entry \<Rightarrow> announcer \<Rightarrow> bool" where
  "announcer_registered x a \<longleftrightarrow>
     astate a = AVAHI_ANNOUNCING \<or> astate a = AVAHI_ESTABLISHED \<or> astate a = AVAHI_WAITING \<and> \<not> unique x"

definition announcer_probing :: "entry \<Rightarrow> announcer \<Rightarrow> bool" where
  "announcer_probing x a \<longleftrightarrow> astate a = AVAHI_PROBING \<or> astate a = AVAHI_WAITING \<and> unique x"

definition avahi_entry_is_registered :: "server \<Rightarrow> nat \<Rightarrow> nat \<Rightarrow> bool res" where
  "avahi_entry_is_registered s e i =
     res_bind (get_entry s e) (\<lambda>x.
       if edead x then Crash
       else Ret (case get_announcer x i of None \<Rightarrow> False | Some a \<Rightarrow> announcer_registered x a))"

definition avahi_entry_is_probing :: "server \<Rightarrow> nat \<Rightarrow> nat \<Rightarrow> bool res" where
  "avahi_entry_is_probing s e i =
     res_bind (get_entry s e) (\<lambda>x.
       if edead x then Crash
       else Ret (case get_announcer x i of None \<Rightarrow> False | Some a \<Rightarrow> announcer_probing x a))"

definition avahi_entry_is_commited :: "server \<Rightarrow> nat \<Rightarrow> bool res" where
  "avahi_entry_is_commited s e =
     res_bind (get_entry s e) (\<lambda>x.
       if edead x then Crash
       else
         case egroup x of
           None \<Rightarrow> Ret True
         | Some g \<Rightarrow>
             res_map (\<lambda>y. gstate y = AVAHI_ENTRY_GROUP_REGISTERING \<or> gstate y = AVAHI_ENTRY_GROUP_ESTABLISHED) (get_group s g))"

section \<open>Gathering records\<close>

definition avahi_server_prepare_response :: "server \<Rightarrow> nat \<Rightarrow> bool \<Rightarrow> bool \<Rightarrow> server res" where
  "avahi_server_prepare_response s e unicast aux =
     res_bind (get_entry s e) (\<lambda>x.
       res_map (\<lambda>l. s\<lparr>srecords := l\<rparr>) (avahi_record_list_push (srecords s) (erecord x) (unique x) unicast aux))"

text \<open>
  The loops over the entries that are registered on interface \<open>i\<close>, with those that match a pattern
  or those in the list of a key.
\<close>

fun prepare_pattern :: "nat \<Rightarrow> key \<Rightarrow> bool \<Rightarrow> nat list \<Rightarrow> server \<Rightarrow> server res" where
  "prepare_pattern i k unicast [] s = Ret s"
| "prepare_pattern i k unicast (e # es) s =
     res_bind (get_entry s e) (\<lambda>x.
     res_bind (if edead x then Ret False else avahi_key_pattern_match k (rkey (erecord x))) (\<lambda>b.
     res_bind (if b then avahi_entry_is_registered s e i else Ret False) (\<lambda>b.
     res_bind (if b then avahi_server_prepare_response s e unicast False else Ret s) (prepare_pattern i k unicast es))))"

fun prepare_listed :: "nat \<Rightarrow> bool \<Rightarrow> nat list \<Rightarrow> server \<Rightarrow> server res" where
  "prepare_listed i unicast [] s = Ret s"
| "prepare_listed i unicast (e # es) s =
     res_bind (get_entry s e) (\<lambda>x.
     res_bind (if edead x then Ret False else avahi_entry_is_registered s e i) (\<lambda>b.
     res_bind (if b then avahi_server_prepare_response s e unicast False else Ret s) (prepare_listed i unicast es)))"

definition prepare_for_key :: "bool \<Rightarrow> nat \<Rightarrow> key \<Rightarrow> bool \<Rightarrow> server \<Rightarrow> server res" where
  "prepare_for_key sc i k unicast s =
     (if avahi_key_is_pattern k then prepare_pattern i k unicast (entries s) s
      else prepare_listed i unicast (index_list sc (entries_by_key s) k) s)"

text \<open>The recursive call is for a key of type CNAME and goes no deeper.\<close>

definition avahi_server_prepare_matching_responses :: "bool \<Rightarrow> server \<Rightarrow> nat \<Rightarrow> key \<Rightarrow> bool \<Rightarrow> server res" where
  "avahi_server_prepare_matching_responses sc s i k unicast =
     res_bind (prepare_for_key sc i k unicast s) (\<lambda>s.
       if (clazz k = AVAHI_DNS_CLASS_IN \<or> clazz k = AVAHI_DNS_CLASS_ANY) \<and>
          ktype k \<noteq> AVAHI_DNS_TYPE_CNAME \<and> ktype k \<noteq> AVAHI_DNS_TYPE_ANY
       then res_bind (avahi_key_new (name k) AVAHI_DNS_CLASS_IN AVAHI_DNS_TYPE_CNAME) (\<lambda>x.
              case x of None \<Rightarrow> Ret s | Some k \<Rightarrow> prepare_for_key sc i k unicast s)
       else Ret s)"

section \<open>Auxiliary records\<close>

text \<open>
  \<open>avahi_server_enumerate_aux_records\<close>, with the records the callback is called for and their flush
  bits as its value; neither callback changes the entries.
\<close>

fun enum_any :: "server \<Rightarrow> nat \<Rightarrow> byte list \<Rightarrow> nat list \<Rightarrow> (rr \<times> bool) list res" where
  "enum_any s i nm [] = Ret []"
| "enum_any s i nm (e # es) =
     res_bind (get_entry s e) (\<lambda>x.
     res_bind (if edead x then Ret False else avahi_entry_is_registered s e i) (\<lambda>b.
     res_bind (if b \<and> clazz (rkey (erecord x)) = AVAHI_DNS_CLASS_IN
               then avahi_domain_equal nm (name (rkey (erecord x))) else Ret False) (\<lambda>b.
     res_map (\<lambda>rs. if b then (erecord x, unique x) # rs else rs) (enum_any s i nm es))))"

fun enum_listed :: "server \<Rightarrow> nat \<Rightarrow> nat list \<Rightarrow> (rr \<times> bool) list res" where
  "enum_listed s i [] = Ret []"
| "enum_listed s i (e # es) =
     res_bind (get_entry s e) (\<lambda>x.
     res_bind (if edead x then Ret False else avahi_entry_is_registered s e i) (\<lambda>b.
     res_map (\<lambda>rs. if b then (erecord x, unique x) # rs else rs) (enum_listed s i es)))"

definition enum_aux_records :: "bool \<Rightarrow> server \<Rightarrow> nat \<Rightarrow> byte list \<Rightarrow> u16 \<Rightarrow> (rr \<times> bool) list res" where
  "enum_aux_records sc s i nm type =
     (if type = AVAHI_DNS_TYPE_ANY then enum_any s i nm (entries s)
      else
        res_bind (avahi_key_new nm AVAHI_DNS_CLASS_IN type) (\<lambda>x.
          case x of None \<Rightarrow> Ret [] | Some k \<Rightarrow> enum_listed s i (index_list sc (entries_by_key s) k)))"

definition avahi_server_enumerate_aux_records :: "bool \<Rightarrow> server \<Rightarrow> nat \<Rightarrow> rr \<Rightarrow> (rr \<times> bool) list res" where
  "avahi_server_enumerate_aux_records sc s i r =
     (if clazz (rkey r) \<noteq> AVAHI_DNS_CLASS_IN then Ret []
      else if ktype (rkey r) = AVAHI_DNS_TYPE_PTR then
        (case rdata r of
           Name n \<Rightarrow>
             res_bind (enum_aux_records sc s i n AVAHI_DNS_TYPE_SRV) (\<lambda>rs.
             res_map (\<lambda>rs'. rs @ rs') (enum_aux_records sc s i n AVAHI_DNS_TYPE_TXT))
         | _ \<Rightarrow> Crash)
      else if ktype (rkey r) = AVAHI_DNS_TYPE_SRV then
        (case rdata r of
           Srv _ _ _ n \<Rightarrow>
             res_bind (enum_aux_records sc s i n AVAHI_DNS_TYPE_A) (\<lambda>rs.
             res_map (\<lambda>rs'. rs @ rs') (enum_aux_records sc s i n AVAHI_DNS_TYPE_AAAA))
         | _ \<Rightarrow> Crash)
      else if ktype (rkey r) = AVAHI_DNS_TYPE_CNAME then
        (case rdata r of Name n \<Rightarrow> enum_aux_records sc s i n AVAHI_DNS_TYPE_ANY | _ \<Rightarrow> Crash)
      else Ret [])"

fun push_aux :: "bool \<Rightarrow> (rr \<times> bool) list \<Rightarrow> record_list \<Rightarrow> record_list res" where
  "push_aux unicast [] l = Ret l"
| "push_aux unicast ((r, flush) # rs) l =
     res_bind (avahi_record_list_push l r flush unicast True) (push_aux unicast rs)"

definition append_aux_records_to_list :: "bool \<Rightarrow> server \<Rightarrow> nat \<Rightarrow> rr \<Rightarrow> bool \<Rightarrow> server res" where
  "append_aux_records_to_list sc s i r unicast =
     res_bind (avahi_server_enumerate_aux_records sc s i r) (\<lambda>rs.
       res_map (\<lambda>l. s\<lparr>srecords := l\<rparr>) (push_aux unicast rs (srecords s)))"

section \<open>Generating responses\<close>

text \<open>
  The packet is handed to the socket of the protocol, which must be that of the address. The limit on the
  rate of packets is modelled apart, by \<open>ratelimit_pass\<close> of the theory \<open>Ifaces\<close>.
\<close>

definition avahi_interface_send_packet_unicast :: "server \<Rightarrow> nat \<Rightarrow> dns_packet \<Rightarrow> address \<Rightarrow> u16 \<Rightarrow> server res" where
  "avahi_interface_send_packet_unicast s i p a port =
     res_bind (get_iface s i) (\<lambda>x.
       if \<not> announcing x then Ret s
       else if proto a \<noteq> iprotocol x then Crash
       else Ret (set_iface i (x\<lparr>iunicasts := iunicasts x @ [(p, a, port)]\<rparr>) s))"

text \<open>
  The loop that appends a record to the unicast reply to the query \<open>p\<close>, which is sent first when it is
  full: the second round starts with an empty packet and is the last one.
\<close>

fun append_to_reply ::
  "nat \<Rightarrow> bool \<Rightarrow> server \<Rightarrow> nat \<Rightarrow> dns_packet option \<Rightarrow> address option \<Rightarrow> u16 \<Rightarrow> rr \<Rightarrow> bool \<Rightarrow> dns_packet option \<Rightarrow>
   (server \<times> dns_packet option) res" where
  "append_to_reply 0 sc s i p a port r flush reply = Crash"
| "append_to_reply (Suc m) sc s i p a port r flush reply =
     res_bind (get_iface s i) (\<lambda>x.
     res_bind (case (reply, p) of
                 (Some q, _) \<Rightarrow> Ret q
               | (None, Some p) \<Rightarrow> avahi_dns_packet_new_reply sc p (hw_mtu x) False False
               | (None, None) \<Rightarrow> Crash) (\<lambda>q.
     res_bind (avahi_dns_packet_append_record sc q r flush 0) (\<lambda>(q, ok).
       if ok \<noteq> None then res_map (\<lambda>q. (s, Some q)) (avahi_dns_packet_inc_field q AVAHI_DNS_FIELD_ANCOUNT)
       else
         res_bind (avahi_dns_packet_get_field q AVAHI_DNS_FIELD_ANCOUNT) (\<lambda>n.
           if n = 0 then
             (case p of
                None \<Rightarrow> Crash
              | Some p \<Rightarrow>
                  res_bind (avahi_record_get_estimate_size r) (\<lambda>size.
                  res_bind (avahi_dns_packet_new_reply sc p (size + AVAHI_DNS_PACKET_HEADER_SIZE + AVAHI_DNS_PACKET_EXTRA_SIZE) False True) (\<lambda>q.
                  res_bind (avahi_dns_packet_append_record sc q r flush 0) (\<lambda>(q, ok).
                    if ok \<noteq> None then res_map (\<lambda>q. (s, Some q)) (avahi_dns_packet_inc_field q AVAHI_DNS_FIELD_ANCOUNT)
                    else Ret (s, None)))))
           else
             (case a of
                None \<Rightarrow> Crash
              | Some a' \<Rightarrow>
                  res_bind (avahi_interface_send_packet_unicast s i q a' port) (\<lambda>s.
                    append_to_reply m sc s i p a port r flush None))))))"

text \<open>The loops that empty the record list; \<open>m\<close> bounds the number of records taken from it.\<close>

fun legacy_loop :: "nat \<Rightarrow> bool \<Rightarrow> server \<Rightarrow> nat \<Rightarrow> dns_packet \<Rightarrow> (server \<times> dns_packet) res" where
  "legacy_loop m sc s i q =
     (case avahi_record_list_next (srecords s) of
        (l, None) \<Rightarrow> Ret (s\<lparr>srecords := l\<rparr>, q)
      | (l, Some it) \<Rightarrow>
          (case m of
             0 \<Rightarrow> Crash
           | Suc m \<Rightarrow>
               res_bind (append_aux_records_to_list sc (s\<lparr>srecords := l\<rparr>) i (irecord it) False) (\<lambda>s.
               res_bind (avahi_dns_packet_append_record sc q (irecord it) False 10) (\<lambda>(q, ok).
               res_bind (if ok \<noteq> None then avahi_dns_packet_inc_field q AVAHI_DNS_FIELD_ANCOUNT else Ret q) (\<lambda>q.
                 legacy_loop m sc s i q)))))"

fun generate_loop ::
  "nat \<Rightarrow> bool \<Rightarrow> timeval \<Rightarrow> int \<Rightarrow> server \<Rightarrow> nat \<Rightarrow> dns_packet option \<Rightarrow> address option \<Rightarrow> u16 \<Rightarrow> bool \<Rightarrow> bool \<Rightarrow>
   dns_packet option \<Rightarrow> (server \<times> dns_packet option) res" where
  "generate_loop m sc now rnd s i p a port tc immediately reply =
     (case avahi_record_list_next (srecords s) of
        (l, None) \<Rightarrow> Ret (s\<lparr>srecords := l\<rparr>, reply)
      | (l, Some it) \<Rightarrow>
          (case m of
             0 \<Rightarrow> Crash
           | Suc m \<Rightarrow>
               let s = s\<lparr>srecords := l\<rparr>;
                   im = immediately \<or> flush_cache it \<and> \<not> tc \<and> \<not> auxiliary it \<and> avahi_record_list_all_flush_cache (srecords s)
               in res_bind (avahi_interface_post_response now rnd s i (irecord it) (flush_cache it) a im) (\<lambda>(s, posted).
                  res_bind (if \<not> posted \<and> unicast_response it
                            then res_bind (append_aux_records_to_list sc s i (irecord it) (unicast_response it)) (\<lambda>s.
                                   append_to_reply 2 sc s i p a port (irecord it) (flush_cache it) reply)
                            else Ret (s, reply)) (\<lambda>(s, reply).
                    generate_loop m sc now rnd s i p a port tc immediately reply))))"

declare legacy_loop.simps [simp del] generate_loop.simps [simp del]

definition send_reply :: "server \<Rightarrow> nat \<Rightarrow> address option \<Rightarrow> u16 \<Rightarrow> dns_packet \<Rightarrow> server res" where
  "send_reply s i a port q =
     res_bind (avahi_dns_packet_get_field q AVAHI_DNS_FIELD_ANCOUNT) (\<lambda>n.
       if n = 0 then Ret s
       else case a of None \<Rightarrow> Crash | Some a \<Rightarrow> avahi_interface_send_packet_unicast s i q a port)"

text \<open>No record is taken out of the list that is neither in it nor that of an entry.\<close>

definition avahi_server_generate_response ::
  "bool \<Rightarrow> timeval \<Rightarrow> int \<Rightarrow> server \<Rightarrow> nat \<Rightarrow> dns_packet option \<Rightarrow> address option \<Rightarrow> u16 \<Rightarrow> bool \<Rightarrow> bool \<Rightarrow> server res" where
  "avahi_server_generate_response sc now rnd s i p a port legacy_unicast immediately =
     (let m = length (lunread (srecords s)) + length (entries s) in
      res_map (\<lambda>s. s\<lparr>srecords := avahi_record_list_flush (srecords s)\<rparr>)
        (if legacy_unicast then
           (case p of
              None \<Rightarrow> Crash
            | Some p \<Rightarrow>
                if a = None \<or> port = 0 then Crash
                else
                  res_bind (avahi_dns_packet_new_reply sc p (512 + AVAHI_DNS_PACKET_EXTRA_SIZE) True True) (\<lambda>q.
                  res_bind (legacy_loop m sc s i q) (\<lambda>(s, q). send_reply s i a port q)))
         else
           res_bind (case p of
                       None \<Rightarrow> Ret False
                     | Some p \<Rightarrow>
                         res_map (\<lambda>flags. flags AND AVAHI_DNS_FLAG_TC \<noteq> 0) (avahi_dns_packet_get_field p AVAHI_DNS_FIELD_FLAGS)) (\<lambda>tc.
           res_bind (generate_loop m sc now rnd s i p a port tc immediately None) (\<lambda>(s, reply).
             case reply of None \<Rightarrow> Ret s | Some q \<Rightarrow> send_reply s i a port q))))"

end
