(* ===== verification/Announce.thy ===== *)
theory Announce
  imports Publish
begin

text \<open>
  Announcers (\<open>avahi-core/announce.c\<close>) and the groups of entries (\<open>avahi-core/entry.c\<close>): an announcer
  probes for an entry on an interface, waits for the others of its group, announces and is established.
\<close>

section \<open>Groups change state\<close>

definition avahi_s_entry_group_change_state :: "timeval \<Rightarrow> server \<Rightarrow> nat \<Rightarrow> entry_group_state \<Rightarrow> server res" where
  "avahi_s_entry_group_change_state now s g st =
     res_bind (get_group s g) (\<lambda>x.
       if gstate x = st then Ret s
       else if st = AVAHI_ENTRY_GROUP_FAILURE then Crash
       else
         let x = (if gstate x = AVAHI_ENTRY_GROUP_ESTABLISHED
                  then if 5000000 < avahi_age now (established_at x) then x\<lparr>n_register_try := 0\<rparr> else x
                  else if gstate x = AVAHI_ENTRY_GROUP_REGISTERING then x\<lparr>register_time_event := None\<rparr>
                  else x);
             x = (if st = AVAHI_ENTRY_GROUP_ESTABLISHED then x\<lparr>established_at := now\<rparr> else x);
             s = set_group g (x\<lparr>gstate := st\<rparr>) s
         in Ret (s\<lparr>changes := changes s @ [(g, st)]\<rparr>))"

section \<open>Announcers\<close>

text \<open>The announcer makes its announcement: the branch \<open>AVAHI_ANNOUNCING\<close> of \<open>next_state\<close>.\<close>

definition announce_next :: "bool \<Rightarrow> timeval \<Rightarrow> int \<Rightarrow> nat \<Rightarrow> nat \<Rightarrow> server \<Rightarrow> server res" where
  "announce_next sc now rnd e i s =
     res_bind (get_entry s e) (\<lambda>x.
     res_bind (if unique x then avahi_server_prepare_matching_responses sc s i (rkey (erecord x)) False
               else avahi_server_prepare_response s e False False) (\<lambda>s.
     res_bind (avahi_server_generate_response sc now rnd s i None None 0 False False) (\<lambda>s.
     res_bind (get_announcer_of s e i) (\<lambda>a.
       let a = a\<lparr>n_iteration := n_iteration a + 1\<rparr> in
       if 4 \<le> n_iteration a then set_announcer e (a\<lparr>astate := AVAHI_ESTABLISHED, atime_event := None\<rparr>) s
       else
         let (s, tv) = server_elapse_time now rnd s (int (sec_delay a) * 1000) AVAHI_ANNOUNCEMENT_JITTER_MSEC;
             a = (if n_iteration a < 10 then a\<lparr>sec_delay := sec_delay a * 2\<rparr> else a)
         in set_announcer e (a\<lparr>atime_event := Some tv\<rparr>) s))))"

text \<open>The loop over the announcers of a group, as pairs of an entry and an interface.\<close>

fun announce_waiting :: "bool \<Rightarrow> timeval \<Rightarrow> int \<Rightarrow> bool \<Rightarrow> (nat \<times> nat) list \<Rightarrow> server \<Rightarrow> server res" where
  "announce_waiting sc now rnd immediately [] s = Ret s"
| "announce_waiting sc now rnd immediately ((e, i) # as) s =
     res_bind (get_announcer_of s e i) (\<lambda>a.
     res_bind
       (if astate a \<noteq> AVAHI_WAITING then Ret s
        else if immediately then
          res_bind (set_announcer e (a\<lparr>astate := AVAHI_ANNOUNCING, n_iteration := 1\<rparr>) s) (announce_next sc now rnd e i)
        else
          let (s, tv) = server_elapse_time now rnd s 0 AVAHI_ANNOUNCEMENT_JITTER_MSEC
          in set_announcer e (a\<lparr>astate := AVAHI_ANNOUNCING, n_iteration := 0, atime_event := Some tv\<rparr>) s)
       (announce_waiting sc now rnd immediately as))"

fun announcers_of :: "server \<Rightarrow> nat list \<Rightarrow> (nat \<times> nat) list res" where
  "announcers_of s [] = Ret []"
| "announcers_of s (e # es) =
     res_bind (get_entry s e) (\<lambda>x. res_map (\<lambda>as. map (\<lambda>a. (e, ainterface a)) (announcers x) @ as) (announcers_of s es))"

definition avahi_s_entry_group_check_probed :: "bool \<Rightarrow> timeval \<Rightarrow> int \<Rightarrow> nat \<Rightarrow> bool \<Rightarrow> server \<Rightarrow> server res" where
  "avahi_s_entry_group_check_probed sc now rnd g immediately s =
     res_bind (get_group s g) (\<lambda>x.
       if gdead x then Crash
       else if gstate x \<noteq> AVAHI_ENTRY_GROUP_REGISTERING \<or> 0 < n_probing x then Ret s
       else
         res_bind (avahi_s_entry_group_change_state now s g AVAHI_ENTRY_GROUP_ESTABLISHED) (\<lambda>s.
         res_bind (announcers_of s (gentries x)) (\<lambda>as. announce_waiting sc now rnd immediately as s)))"

text \<open>A probing announcer of a group leaves the count of the group.\<close>

definition probing_done :: "nat option \<Rightarrow> server \<Rightarrow> server res" where
  "probing_done g s =
     (case g of
        None \<Rightarrow> Ret s
      | Some g \<Rightarrow>
          res_bind (get_group s g) (\<lambda>x.
            if n_probing x = 0 then Crash else Ret (set_group g (x\<lparr>n_probing := n_probing x - 1\<rparr>) s)))"

definition probing_started :: "nat option \<Rightarrow> server \<Rightarrow> server res" where
  "probing_started g s =
     (case g of
        None \<Rightarrow> Ret s
      | Some g \<Rightarrow> res_map (\<lambda>x. set_group g (x\<lparr>n_probing := n_probing x + 1\<rparr>) s) (get_group s g))"

definition group_in_state :: "server \<Rightarrow> nat option \<Rightarrow> entry_group_state \<Rightarrow> bool res" where
  "group_in_state s g st = (case g of None \<Rightarrow> Ret False | Some g \<Rightarrow> res_map (\<lambda>x. gstate x = st) (get_group s g))"

definition next_state :: "bool \<Rightarrow> timeval \<Rightarrow> int \<Rightarrow> nat \<Rightarrow> nat \<Rightarrow> server \<Rightarrow> server res" where
  "next_state sc now rnd e i s =
     res_bind (get_entry s e) (\<lambda>x.
     res_bind (get_announcer_of s e i) (\<lambda>a.
       case astate a of
         AVAHI_WAITING \<Rightarrow>
           (case egroup x of None \<Rightarrow> Crash | Some g \<Rightarrow> avahi_s_entry_group_check_probed sc now rnd g True s)
       | AVAHI_PROBING \<Rightarrow>
           if 4 \<le> n_iteration a then
             res_bind (probing_done (egroup x) s) (\<lambda>s.
             res_bind (group_in_state s (egroup x) AVAHI_ENTRY_GROUP_REGISTERING) (\<lambda>b.
               if b then
                 res_bind (set_announcer e (a\<lparr>astate := AVAHI_WAITING, atime_event := None\<rparr>) s) (\<lambda>s.
                   case egroup x of None \<Rightarrow> Crash | Some g \<Rightarrow> avahi_s_entry_group_check_probed sc now rnd g True s)
               else
                 res_bind (set_announcer e (a\<lparr>astate := AVAHI_ANNOUNCING, n_iteration := 1, atime_event := None\<rparr>) s)
                   (announce_next sc now rnd e i)))
           else
             res_bind (avahi_interface_post_probe s i (erecord x)) (\<lambda>s.
               let (s, tv) = server_elapse_time now rnd s AVAHI_PROBE_INTERVAL_MSEC 0
               in set_announcer e (a\<lparr>atime_event := Some tv, n_iteration := n_iteration a + 1\<rparr>) s)
       | AVAHI_ANNOUNCING \<Rightarrow> announce_next sc now rnd e i s
       | AVAHI_ESTABLISHED \<Rightarrow> Ret s))"

text \<open>
  The end of \<open>go_to_initial_state\<close> and of \<open>reannounce\<close>: the announcer starts in state \<open>st\<close>.
\<close>

definition start_announcer :: "timeval \<Rightarrow> int \<Rightarrow> nat \<Rightarrow> announcer \<Rightarrow> announcer_state \<Rightarrow> server \<Rightarrow> server res" where
  "start_announcer now rnd e a st s =
     res_bind (get_entry s e) (\<lambda>x.
     res_bind (if st = AVAHI_PROBING then probing_started (egroup x) s else Ret s) (\<lambda>s.
       let (s, tv) = (if st = AVAHI_PROBING then map_prod id Some (server_elapse_time now rnd s 0 AVAHI_PROBE_JITTER_MSEC)
                      else if st = AVAHI_ANNOUNCING
                      then map_prod id Some (server_elapse_time now rnd s 0 AVAHI_ANNOUNCEMENT_JITTER_MSEC)
                      else (s, None))
       in set_announcer e (a\<lparr>astate := st, n_iteration := 1, sec_delay := 1, atime_event := tv\<rparr>) s))"

definition initial_state :: "server \<Rightarrow> entry \<Rightarrow> announcer_state res" where
  "initial_state s x =
     (if unique x \<and> AVAHI_PUBLISH_NO_PROBE \<notin> eflags x then Ret AVAHI_PROBING
      else if AVAHI_PUBLISH_NO_ANNOUNCE \<notin> eflags x then
        (case egroup x of
           None \<Rightarrow> Ret AVAHI_ANNOUNCING
         | Some g \<Rightarrow>
             res_map (\<lambda>y. if gstate y = AVAHI_ENTRY_GROUP_ESTABLISHED then AVAHI_ANNOUNCING else AVAHI_WAITING) (get_group s g))
      else Ret AVAHI_ESTABLISHED)"

definition go_to_initial_state :: "timeval \<Rightarrow> int \<Rightarrow> nat \<Rightarrow> nat \<Rightarrow> server \<Rightarrow> server res" where
  "go_to_initial_state now rnd e i s =
     res_bind (get_entry s e) (\<lambda>x.
     res_bind (get_announcer_of s e i) (\<lambda>a.
     res_bind (initial_state s x) (\<lambda>st. start_announcer now rnd e a st s)))"

text \<open>The state of a new announcer is set by \<open>go_to_initial_state\<close>.\<close>

definition fresh_announcer :: "nat \<Rightarrow> announcer" where
  "fresh_announcer i = \<lparr>ainterface = i, atime_event = None, astate = AVAHI_ESTABLISHED, n_iteration = 0, sec_delay = 0\<rparr>"

definition new_announcer :: "timeval \<Rightarrow> int \<Rightarrow> nat \<Rightarrow> nat \<Rightarrow> server \<Rightarrow> server res" where
  "new_announcer now rnd i e s =
     res_bind (get_entry s e) (\<lambda>x.
     res_bind (get_iface s i) (\<lambda>y.
       if edead x then Crash
       else if \<not> avahi_interface_match y (einterface x) (eprotocol x) \<or> \<not> announcing y then Ret s
       else
         res_bind (avahi_entry_is_commited s e) (\<lambda>b.
           if \<not> b \<or> get_announcer x i \<noteq> None then Ret s
           else go_to_initial_state now rnd e i (set_entry e (x\<lparr>announcers := fresh_announcer i # announcers x\<rparr>) s))))"

text \<open>The loops over entries that pass over the dead ones: \<open>f\<close> is called for the others.\<close>

fun for_entries :: "(nat \<Rightarrow> server \<Rightarrow> server res) \<Rightarrow> nat list \<Rightarrow> server \<Rightarrow> server res" where
  "for_entries f [] s = Ret s"
| "for_entries f (e # es) s =
     res_bind (get_entry s e) (\<lambda>x. res_bind (if edead x then Ret s else f e s) (for_entries f es))"

definition avahi_announce_interface :: "timeval \<Rightarrow> int \<Rightarrow> nat \<Rightarrow> server \<Rightarrow> server res" where
  "avahi_announce_interface now rnd i s =
     res_bind (get_iface s i) (\<lambda>y. if \<not> announcing y then Ret s else for_entries (new_announcer now rnd i) (entries s) s)"

text \<open>\<open>avahi_interface_monitor_walk\<close>: the callback \<open>f\<close> is called for the interfaces that match.\<close>

fun interface_walk :: "(nat \<Rightarrow> server \<Rightarrow> server res) \<Rightarrow> int \<Rightarrow> int \<Rightarrow> nat list \<Rightarrow> server \<Rightarrow> server res" where
  "interface_walk f idx protocol [] s = Ret s"
| "interface_walk f idx protocol (i # rest) s =
     res_bind (get_iface s i) (\<lambda>y.
     res_bind (if avahi_interface_match y idx protocol then f i s else Ret s) (interface_walk f idx protocol rest))"

definition avahi_announce_entry :: "timeval \<Rightarrow> int \<Rightarrow> nat \<Rightarrow> server \<Rightarrow> server res" where
  "avahi_announce_entry now rnd e s =
     res_bind (get_entry s e) (\<lambda>x.
       if edead x then Crash
       else interface_walk (\<lambda>i. new_announcer now rnd i e) (einterface x) (eprotocol x) (interfaces s) s)"

definition avahi_announce_group :: "timeval \<Rightarrow> int \<Rightarrow> nat \<Rightarrow> server \<Rightarrow> server res" where
  "avahi_announce_group now rnd g s = res_bind (get_group s g) (\<lambda>x. for_entries (avahi_announce_entry now rnd) (gentries x) s)"

definition avahi_entry_return_to_initial_state :: "timeval \<Rightarrow> int \<Rightarrow> nat \<Rightarrow> nat \<Rightarrow> server \<Rightarrow> server res" where
  "avahi_entry_return_to_initial_state now rnd e i s =
     res_bind (get_entry s e) (\<lambda>x.
       case get_announcer x i of
         None \<Rightarrow> Ret s
       | Some a \<Rightarrow>
           res_bind (if astate a = AVAHI_PROBING then probing_done (egroup x) s else Ret s) (go_to_initial_state now rnd e i))"

section \<open>Goodbye\<close>

definition make_goodbye_record :: "rr \<Rightarrow> rr option res" where
  "make_goodbye_record r = res_map (map_option (\<lambda>r. r\<lparr>ttl := 0\<rparr>)) (avahi_record_copy r)"

fun duplicate_in :: "server \<Rightarrow> nat \<Rightarrow> rr \<Rightarrow> nat list \<Rightarrow> bool res" where
  "duplicate_in s e r [] = Ret False"
| "duplicate_in s e r (i # es) =
     res_bind (get_entry s i) (\<lambda>x.
       if i = e \<or> edead x then duplicate_in s e r es
       else res_bind (avahi_record_equal_no_ttl (erecord x) r) (\<lambda>eq. if eq then Ret True else duplicate_in s e r es))"

definition is_duplicate_entry :: "bool \<Rightarrow> server \<Rightarrow> nat \<Rightarrow> bool res" where
  "is_duplicate_entry sc s e =
     res_bind (get_entry s e) (\<lambda>x.
       duplicate_in s e (erecord x) (index_list sc (entries_by_key s) (rkey (erecord x))))"

definition send_goodbye_callback :: "bool \<Rightarrow> timeval \<Rightarrow> int \<Rightarrow> nat \<Rightarrow> nat \<Rightarrow> server \<Rightarrow> server res" where
  "send_goodbye_callback sc now rnd e i s =
     res_bind (get_entry s e) (\<lambda>x.
     res_bind (get_iface s i) (\<lambda>y.
       if edead x then Crash
       else if \<not> avahi_interface_match y (einterface x) (eprotocol x) \<or> AVAHI_PUBLISH_NO_ANNOUNCE \<in> eflags x then Ret s
       else
         res_bind (avahi_entry_is_registered s e i) (\<lambda>registered.
           if \<not> registered then Ret s
           else
             res_bind (is_duplicate_entry sc s e) (\<lambda>dup.
               if dup then Ret s
               else
                 res_bind (make_goodbye_record (erecord x)) (\<lambda>g.
                   case g of
                     None \<Rightarrow> Ret s
                   | Some g \<Rightarrow> res_map fst (avahi_interface_post_response now rnd s i g (unique x) None True))))))"

text \<open>\<open>remove_announcer\<close> for all announcers of an entry, or for all on an interface.\<close>

definition remove_entry_announcers :: "nat \<Rightarrow> server \<Rightarrow> server res" where
  "remove_entry_announcers e s = res_map (\<lambda>x. set_entry e (x\<lparr>announcers := []\<rparr>) s) (get_entry s e)"

definition remove_interface_announcers :: "nat \<Rightarrow> server \<Rightarrow> server" where
  "remove_interface_announcers i s =
     s\<lparr>estore := map_option (\<lambda>x. x\<lparr>announcers := filter (\<lambda>a. ainterface a \<noteq> i) (announcers x)\<rparr>) \<circ> estore s\<rparr>"

definition avahi_goodbye_interface :: "bool \<Rightarrow> timeval \<Rightarrow> int \<Rightarrow> nat \<Rightarrow> bool \<Rightarrow> bool \<Rightarrow> server \<Rightarrow> server res" where
  "avahi_goodbye_interface sc now rnd i send_goodbye remove s =
     res_bind (get_iface s i) (\<lambda>y.
     res_map (\<lambda>s. if remove then remove_interface_announcers i s else s)
       (if send_goodbye \<and> announcing y then for_entries (\<lambda>e. send_goodbye_callback sc now rnd e i) (entries s) s else Ret s))"

definition avahi_goodbye_entry :: "bool \<Rightarrow> timeval \<Rightarrow> int \<Rightarrow> nat \<Rightarrow> bool \<Rightarrow> bool \<Rightarrow> server \<Rightarrow> server res" where
  "avahi_goodbye_entry sc now rnd e send_goodbye remove s =
     res_bind (get_entry s e) (\<lambda>x.
     res_bind (if send_goodbye \<and> \<not> edead x
               then interface_walk (send_goodbye_callback sc now rnd e) AVAHI_IF_UNSPEC AVAHI_PROTO_UNSPEC (interfaces s) s
               else Ret s) (\<lambda>s.
       if remove then remove_entry_announcers e s else Ret s))"

section \<open>Announcing again\<close>

definition reannounced_state :: "entry \<Rightarrow> announcer_state \<Rightarrow> announcer_state" where
  "reannounced_state x st =
     (if st = AVAHI_PROBING \<or> st = AVAHI_WAITING \<and> unique x \<and> AVAHI_PUBLISH_NO_PROBE \<notin> eflags x then AVAHI_PROBING
      else if st = AVAHI_WAITING then AVAHI_WAITING
      else if AVAHI_PUBLISH_NO_ANNOUNCE \<in> eflags x then AVAHI_ESTABLISHED
      else AVAHI_ANNOUNCING)"

definition reannounce :: "timeval \<Rightarrow> int \<Rightarrow> nat \<Rightarrow> announcer \<Rightarrow> server \<Rightarrow> server res" where
  "reannounce now rnd e a s =
     res_bind (get_entry s e) (\<lambda>x.
     res_bind (group_in_state s (egroup x) AVAHI_ENTRY_GROUP_UNCOMMITED) (\<lambda>uncommited.
     res_bind (group_in_state s (egroup x) AVAHI_ENTRY_GROUP_COLLISION) (\<lambda>collision.
       if uncommited \<or> collision then Ret s
       else
         res_bind (if astate a = AVAHI_PROBING then probing_done (egroup x) s else Ret s)
           (start_announcer now rnd e a (reannounced_state x (astate a))))))"

definition reannounce_walk_callback :: "timeval \<Rightarrow> int \<Rightarrow> nat \<Rightarrow> nat \<Rightarrow> server \<Rightarrow> server res" where
  "reannounce_walk_callback now rnd e i s =
     res_bind (get_entry s e) (\<lambda>x.
       if edead x then Crash
       else case get_announcer x i of None \<Rightarrow> Ret s | Some a \<Rightarrow> reannounce now rnd e a s)"

definition avahi_reannounce_entry :: "timeval \<Rightarrow> int \<Rightarrow> nat \<Rightarrow> server \<Rightarrow> server res" where
  "avahi_reannounce_entry now rnd e s =
     res_bind (get_entry s e) (\<lambda>x.
       if edead x then Crash
       else interface_walk (reannounce_walk_callback now rnd e) (einterface x) (eprotocol x) (interfaces s) s)"

section \<open>Groups\<close>

definition entry_group_commit_real :: "bool \<Rightarrow> timeval \<Rightarrow> int \<Rightarrow> nat \<Rightarrow> server \<Rightarrow> server res" where
  "entry_group_commit_real sc now rnd g s =
     res_bind (get_group s g) (\<lambda>x.
     res_bind (avahi_s_entry_group_change_state now (set_group g (x\<lparr>register_time := now\<rparr>) s) g AVAHI_ENTRY_GROUP_REGISTERING) (\<lambda>s.
     res_bind (get_group s g) (\<lambda>x.
       if gdead x then Ret s
       else
         res_bind (avahi_announce_group now rnd g s) (avahi_s_entry_group_check_probed sc now rnd g False))))"

definition entry_group_register_time_event_callback :: "bool \<Rightarrow> timeval \<Rightarrow> int \<Rightarrow> nat \<Rightarrow> server \<Rightarrow> server res" where
  "entry_group_register_time_event_callback sc now rnd g s =
     res_bind (get_group s g) (\<lambda>x.
       entry_group_commit_real sc now rnd g (set_group g (x\<lparr>register_time_event := None\<rparr>) s))"

fun all_dead :: "server \<Rightarrow> nat list \<Rightarrow> bool res" where
  "all_dead s [] = Ret True"
| "all_dead s (e # es) = res_bind (get_entry s e) (\<lambda>x. if edead x then all_dead s es else Ret False)"

definition avahi_s_entry_group_is_empty :: "server \<Rightarrow> nat \<Rightarrow> bool res" where
  "avahi_s_entry_group_is_empty s g = res_bind (get_group s g) (\<lambda>x. all_dead s (gentries x))"

datatype publish_error =
    AVAHI_ERR_BAD_STATE | AVAHI_ERR_IS_EMPTY | AVAHI_ERR_INVALID_INTERFACE | AVAHI_ERR_INVALID_PROTOCOL
  | AVAHI_ERR_INVALID_FLAGS | AVAHI_ERR_INVALID_HOST_NAME | AVAHI_ERR_INVALID_TTL | AVAHI_ERR_IS_PATTERN
  | AVAHI_ERR_INVALID_RECORD | AVAHI_ERR_INVALID_DNS_CLASS | AVAHI_ERR_INVALID_DNS_TYPE | AVAHI_ERR_NOT_SUPPORTED
  | AVAHI_ERR_NOT_PERMITTED | AVAHI_ERR_NOT_FOUND | AVAHI_ERR_COLLISION

text \<open>An error is \<open>Inl\<close>; success is \<open>Inr\<close>.\<close>

definition avahi_s_entry_group_commit :: "bool \<Rightarrow> timeval \<Rightarrow> int \<Rightarrow> nat \<Rightarrow> server \<Rightarrow> (server \<times> (publish_error + unit)) res" where
  "avahi_s_entry_group_commit sc now rnd g s =
     res_bind (get_group s g) (\<lambda>x.
       if gdead x then Crash
       else if gstate x \<noteq> AVAHI_ENTRY_GROUP_UNCOMMITED \<and> gstate x \<noteq> AVAHI_ENTRY_GROUP_COLLISION
       then Ret (s, Inl AVAHI_ERR_BAD_STATE)
       else
         res_bind (avahi_s_entry_group_is_empty s g) (\<lambda>empty.
           if empty then Ret (s, Inl AVAHI_ERR_IS_EMPTY)
           else
             let x = x\<lparr>n_register_try := n_register_try x + 1\<rparr>;
                 x = x\<lparr>register_time := avahi_timeval_add (register_time x)
                         (1000 * (if AVAHI_RR_RATE_LIMIT_COUNT \<le> n_register_try x
                                  then AVAHI_RR_HOLDOFF_MSEC_RATE_LIMIT else AVAHI_RR_HOLDOFF_MSEC))\<rparr>
             in res_map (\<lambda>s. (s, Inr ()))
               (if avahi_timeval_compare (register_time x) now \<le> 0
                then entry_group_commit_real sc now rnd g (set_group g x s)
                else if register_time_event x \<noteq> None then Crash
                else avahi_s_entry_group_change_state now
                       (set_group g (x\<lparr>register_time_event := Some (register_time x)\<rparr>) s) g AVAHI_ENTRY_GROUP_REGISTERING)))"

definition schedule_cleanup :: "timeval \<Rightarrow> server \<Rightarrow> server" where
  "schedule_cleanup now s =
     (if cleanup_time_event s = None then s\<lparr>cleanup_time_event := Some (elapse_after now 1000)\<rparr> else s)"

text \<open>An entry leaves the network, with or without goodbye, and is marked dead.\<close>

definition kill_entry :: "bool \<Rightarrow> timeval \<Rightarrow> int \<Rightarrow> bool \<Rightarrow> nat \<Rightarrow> server \<Rightarrow> server res" where
  "kill_entry sc now rnd send_goodbye e s =
     res_bind (avahi_goodbye_entry sc now rnd e send_goodbye True s) (\<lambda>s.
       res_map (\<lambda>x. set_entry e (x\<lparr>edead := True\<rparr>) s) (get_entry s e))"

definition avahi_s_entry_group_free :: "bool \<Rightarrow> timeval \<Rightarrow> int \<Rightarrow> nat \<Rightarrow> server \<Rightarrow> server res" where
  "avahi_s_entry_group_free sc now rnd g s =
     res_bind (get_group s g) (\<lambda>x.
     res_bind (for_entries (kill_entry sc now rnd True) (gentries x) s) (\<lambda>s.
     res_map (\<lambda>x.
       schedule_cleanup now
         ((set_group g (x\<lparr>register_time_event := None, gdead := True\<rparr>) s)\<lparr>need_group_cleanup := True, need_entry_cleanup := True\<rparr>))
       (get_group s g)))"

definition avahi_s_entry_group_reset :: "bool \<Rightarrow> timeval \<Rightarrow> int \<Rightarrow> nat \<Rightarrow> server \<Rightarrow> server res" where
  "avahi_s_entry_group_reset sc now rnd g s =
     res_bind (get_group s g) (\<lambda>x.
     res_bind (for_entries (kill_entry sc now rnd True) (gentries x) s) (\<lambda>s.
     res_bind (get_group s g) (\<lambda>x.
     res_map (schedule_cleanup now)
       (avahi_s_entry_group_change_state now ((set_group g (x\<lparr>n_probing := 0\<rparr>) s)\<lparr>need_entry_cleanup := True\<rparr>) g
          AVAHI_ENTRY_GROUP_UNCOMMITED))))"

text \<open>A number that is not in use stands for the new group.\<close>

definition avahi_s_entry_group_new :: "nat \<Rightarrow> server \<Rightarrow> server res" where
  "avahi_s_entry_group_new g s =
     (if gstore s g \<noteq> None then Crash
      else
        Ret ((set_group g \<lparr>gdead = False, gstate = AVAHI_ENTRY_GROUP_UNCOMMITED, n_probing = 0, n_register_try = 0,
               register_time = \<lparr>tv_sec = 0, tv_usec = 0\<rparr>, register_time_event = None,
               established_at = \<lparr>tv_sec = 0, tv_usec = 0\<rparr>, gentries = []\<rparr> s)\<lparr>groups := g # groups s\<rparr>))"

end
