(* ===== verification/Entries.thy ===== *)
theory Entries
  imports Announce
begin

text \<open>
  Adding entries and removing them (\<open>avahi-core/entry.c\<close>), and what becomes of them when other hosts
  claim their names (\<open>withdraw_entry\<close>, \<open>incoming_probe\<close> and \<open>handle_conflict\<close> of
  \<open>avahi-core/server.c\<close>).
\<close>

section \<open>Removing entries and groups\<close>

definition entry_key :: "server \<Rightarrow> nat \<Rightarrow> key" where
  "entry_key s e = (case estore s e of Some x \<Rightarrow> rkey (erecord x) | None \<Rightarrow> \<lparr>name = [], clazz = 0, ktype = 0\<rparr>)"

definition leave_group :: "nat option \<Rightarrow> nat \<Rightarrow> server \<Rightarrow> server res" where
  "leave_group g e s =
     (case g of
        None \<Rightarrow> Ret s
      | Some g \<Rightarrow> res_map (\<lambda>x. set_group g (x\<lparr>gentries := remove1 e (gentries x)\<rparr>) s) (get_group s g))"

definition avahi_entry_free :: "bool \<Rightarrow> timeval \<Rightarrow> int \<Rightarrow> nat \<Rightarrow> server \<Rightarrow> server res" where
  "avahi_entry_free sc now rnd e s =
     res_bind (avahi_goodbye_entry sc now rnd e True True s) (\<lambda>s.
     res_bind (get_entry s e) (\<lambda>x.
     res_bind (index_remove sc (entries_by_key s) (entry_key s) (rkey (erecord x)) e) (\<lambda>idx.
     res_map (\<lambda>s. s\<lparr>estore := (estore s)(e := None)\<rparr>)
       (leave_group (egroup x) e (s\<lparr>entries := remove1 e (entries s), entries_by_key := idx\<rparr>)))))"

fun free_entries :: "bool \<Rightarrow> timeval \<Rightarrow> int \<Rightarrow> nat list \<Rightarrow> server \<Rightarrow> server res" where
  "free_entries sc now rnd [] s = Ret s"
| "free_entries sc now rnd (e # es) s = res_bind (avahi_entry_free sc now rnd e s) (free_entries sc now rnd es)"

text \<open>Freeing the first entry of the group takes it from the list, until it is empty.\<close>

definition avahi_entry_group_free :: "bool \<Rightarrow> timeval \<Rightarrow> int \<Rightarrow> nat \<Rightarrow> server \<Rightarrow> server res" where
  "avahi_entry_group_free sc now rnd g s =
     res_bind (get_group s g) (\<lambda>x.
       res_map (\<lambda>s. s\<lparr>groups := remove1 g (groups s), gstore := (gstore s)(g := None)\<rparr>)
         (free_entries sc now rnd (gentries x) s))"

fun free_dead_groups :: "bool \<Rightarrow> timeval \<Rightarrow> int \<Rightarrow> nat list \<Rightarrow> server \<Rightarrow> server res" where
  "free_dead_groups sc now rnd [] s = Ret s"
| "free_dead_groups sc now rnd (g # gs) s =
     res_bind (get_group s g) (\<lambda>x.
     res_bind (if gdead x then avahi_entry_group_free sc now rnd g s else Ret s) (free_dead_groups sc now rnd gs))"

fun free_dead_entries :: "bool \<Rightarrow> timeval \<Rightarrow> int \<Rightarrow> nat list \<Rightarrow> server \<Rightarrow> server res" where
  "free_dead_entries sc now rnd [] s = Ret s"
| "free_dead_entries sc now rnd (e # es) s =
     res_bind (get_entry s e) (\<lambda>x.
     res_bind (if edead x then avahi_entry_free sc now rnd e s else Ret s) (free_dead_entries sc now rnd es))"

definition avahi_cleanup_dead_entries :: "bool \<Rightarrow> timeval \<Rightarrow> int \<Rightarrow> server \<Rightarrow> server res" where
  "avahi_cleanup_dead_entries sc now rnd s =
     res_bind (if need_group_cleanup s
               then res_map (\<lambda>s. s\<lparr>need_group_cleanup := False\<rparr>) (free_dead_groups sc now rnd (groups s) s) else Ret s) (\<lambda>s.
     res_map (\<lambda>s. s\<lparr>cleanup_time_event := None\<rparr>)
       (if need_entry_cleanup s
        then res_map (\<lambda>s. s\<lparr>need_entry_cleanup := False\<rparr>) (free_dead_entries sc now rnd (entries s) s) else Ret s))"

section \<open>Adding entries\<close>

definition AVAHI_MDNS_SUFFIX_LOCAL :: "byte list" where "AVAHI_MDNS_SUFFIX_LOCAL = str ''local''"
definition AVAHI_MDNS_SUFFIX_ADDR_IPV4 :: "byte list" where "AVAHI_MDNS_SUFFIX_ADDR_IPV4 = str ''254.169.in-addr.arpa''"
definition AVAHI_MDNS_SUFFIX_ADDR_IPV6 :: "byte list" where "AVAHI_MDNS_SUFFIX_ADDR_IPV6 = str ''0.8.e.f.ip6.arpa''"

definition transport_flags_from_domain :: "server \<Rightarrow> publish_flag set \<Rightarrow> byte list \<Rightarrow> publish_flag set res" where
  "transport_flags_from_domain s flags domain =
     (if AVAHI_PUBLISH_USE_MULTICAST \<in> flags \<and> AVAHI_PUBLISH_USE_WIDE_AREA \<in> flags then Crash
      else if AVAHI_PUBLISH_USE_MULTICAST \<in> flags \<or> AVAHI_PUBLISH_USE_WIDE_AREA \<in> flags then Ret flags
      else
        res_map (\<lambda>b. insert (if b then AVAHI_PUBLISH_USE_MULTICAST else AVAHI_PUBLISH_USE_WIDE_AREA) flags)
          (if \<not> wide_area_servers s then Ret True
           else
             res_bind (avahi_domain_ends_with domain AVAHI_MDNS_SUFFIX_LOCAL) (\<lambda>b.
             if b then Ret True
             else
               res_bind (avahi_domain_ends_with domain AVAHI_MDNS_SUFFIX_ADDR_IPV4) (\<lambda>b.
               if b then Ret True else avahi_domain_ends_with domain AVAHI_MDNS_SUFFIX_ADDR_IPV6))))"

fun conflict_in :: "server \<Rightarrow> int \<Rightarrow> int \<Rightarrow> rr \<Rightarrow> publish_flag set \<Rightarrow> nat list \<Rightarrow> bool res" where
  "conflict_in s interface protocol r flags [] = Ret False"
| "conflict_in s interface protocol r flags (e # es) =
     res_bind (get_entry s e) (\<lambda>x.
       if edead x \<or>
          AVAHI_PUBLISH_UNIQUE \<notin> flags \<and> AVAHI_PUBLISH_UNIQUE \<notin> eflags x \<or>
          AVAHI_PUBLISH_ALLOW_MULTIPLE \<in> flags \<and> AVAHI_PUBLISH_ALLOW_MULTIPLE \<in> eflags x
       then conflict_in s interface protocol r flags es
       else
         res_bind (avahi_record_equal_no_ttl r (erecord x)) (\<lambda>eq.
           if eq then conflict_in s interface protocol r flags es
           else if (interface \<le> 0 \<or> einterface x \<le> 0 \<or> einterface x = interface) \<and>
                   (protocol = AVAHI_PROTO_UNSPEC \<or> eprotocol x = AVAHI_PROTO_UNSPEC \<or> eprotocol x = protocol)
           then Ret True
           else conflict_in s interface protocol r flags es))"

definition check_record_conflict :: "bool \<Rightarrow> server \<Rightarrow> int \<Rightarrow> int \<Rightarrow> rr \<Rightarrow> publish_flag set \<Rightarrow> bool res" where
  "check_record_conflict sc s interface protocol r flags =
     conflict_in s interface protocol r flags (index_list sc (entries_by_key s) (rkey r))"

definition AVAHI_DNS_TYPE_TKEY :: u16 where "AVAHI_DNS_TYPE_TKEY = 249"
definition AVAHI_DNS_TYPE_TSIG :: u16 where "AVAHI_DNS_TYPE_TSIG = 250"
definition AVAHI_DNS_TYPE_IXFR :: u16 where "AVAHI_DNS_TYPE_IXFR = 251"
definition AVAHI_DNS_TYPE_AXFR :: u16 where "AVAHI_DNS_TYPE_AXFR = 252"

definition publishable_type :: "u16 \<Rightarrow> bool" where
  "publishable_type t \<longleftrightarrow> t \<noteq> 0 \<and> t \<noteq> AVAHI_DNS_TYPE_ANY \<and> t \<noteq> AVAHI_DNS_TYPE_OPT \<and> t \<noteq> AVAHI_DNS_TYPE_TKEY \<and>
     t \<noteq> AVAHI_DNS_TYPE_TSIG \<and> t \<noteq> AVAHI_DNS_TYPE_IXFR \<and> t \<noteq> AVAHI_DNS_TYPE_AXFR"

text \<open>The checks of \<open>server_add_internal\<close>: the first error, or the flags completed by the transport.\<close>

definition check_add ::
  "server \<Rightarrow> nat option \<Rightarrow> int \<Rightarrow> int \<Rightarrow> publish_flag set \<Rightarrow> rr \<Rightarrow> (publish_error + publish_flag set) res" where
  "check_add s g interface protocol flags r =
     (if sstate s = AVAHI_SERVER_FAILURE \<or> sstate s = AVAHI_SERVER_INVALID then Ret (Inl AVAHI_ERR_BAD_STATE)
      else if \<not> AVAHI_IF_VALID interface then Ret (Inl AVAHI_ERR_INVALID_INTERFACE)
      else if \<not> AVAHI_PROTO_VALID protocol then Ret (Inl AVAHI_ERR_INVALID_PROTOCOL)
      else if AVAHI_PUBLISH_NO_REVERSE \<in> flags \<or> AVAHI_PUBLISH_NO_COOKIE \<in> flags then Ret (Inl AVAHI_ERR_INVALID_FLAGS)
      else if \<not> avahi_is_valid_domain_name (name (rkey r)) then Ret (Inl AVAHI_ERR_INVALID_HOST_NAME)
      else if ttl r = 0 then Ret (Inl AVAHI_ERR_INVALID_TTL)
      else if avahi_key_is_pattern (rkey r) then Ret (Inl AVAHI_ERR_IS_PATTERN)
      else
        res_bind (avahi_record_is_valid r) (\<lambda>valid.
        if \<not> valid then Ret (Inl AVAHI_ERR_INVALID_RECORD)
        else if clazz (rkey r) \<noteq> AVAHI_DNS_CLASS_IN then Ret (Inl AVAHI_ERR_INVALID_DNS_CLASS)
        else if \<not> publishable_type (ktype (rkey r)) then Ret (Inl AVAHI_ERR_INVALID_DNS_TYPE)
        else
          res_bind (transport_flags_from_domain s flags (name (rkey r))) (\<lambda>flags.
          if AVAHI_PUBLISH_USE_MULTICAST \<notin> flags then Ret (Inl AVAHI_ERR_NOT_SUPPORTED)
          else if disable_publishing s then Ret (Inl AVAHI_ERR_NOT_PERMITTED)
          else
            res_bind (group_in_state s g AVAHI_ENTRY_GROUP_ESTABLISHED) (\<lambda>est.
            res_map (\<lambda>reg.
              if (est \<or> reg) \<and> AVAHI_PUBLISH_UPDATE \<notin> flags then Inl AVAHI_ERR_BAD_STATE else Inr flags)
              (group_in_state s g AVAHI_ENTRY_GROUP_REGISTERING)))))"

text \<open>The first entry in the list that an update is meant for.\<close>

fun find_update :: "server \<Rightarrow> nat option \<Rightarrow> int \<Rightarrow> int \<Rightarrow> nat list \<Rightarrow> nat option res" where
  "find_update s g interface protocol [] = Ret None"
| "find_update s g interface protocol (e # es) =
     res_bind (get_entry s e) (\<lambda>x.
       if \<not> edead x \<and> egroup x = g \<and> einterface x = interface \<and> eprotocol x = protocol then Ret (Some e)
       else find_update s g interface protocol es)"

definition update_entry ::
  "bool \<Rightarrow> timeval \<Rightarrow> int \<Rightarrow> nat option \<Rightarrow> nat \<Rightarrow> publish_flag set \<Rightarrow> rr \<Rightarrow> server \<Rightarrow> server res" where
  "update_entry sc now rnd g e flags r s =
     res_bind (get_entry s e) (\<lambda>x.
       let old_record = erecord x;
           s = set_entry e (x\<lparr>erecord := r, eflags := flags\<rparr>) s
       in res_bind (avahi_record_equal_no_ttl old_record r) (\<lambda>eq.
          res_bind (group_in_state s g AVAHI_ENTRY_GROUP_UNCOMMITED) (\<lambda>uncommited.
          res_map (\<lambda>s.
            if e = hd (index_list sc (entries_by_key s) (rkey r))
            then s\<lparr>entries_by_key := fst (avahi_hashmap_replace (key_hash_func sc) key_equal_func (entries_by_key s) (rkey r)
                     (index_list sc (entries_by_key s) (rkey r)))\<rparr>
            else s)
            (if \<not> eq \<and> \<not> uncommited then
               res_bind (if AVAHI_PUBLISH_UNIQUE \<notin> flags then avahi_goodbye_entry sc now rnd e True False s else Ret s)
                 (avahi_reannounce_entry now rnd e)
             else Ret s))))"

definition add_entry ::
  "bool \<Rightarrow> timeval \<Rightarrow> int \<Rightarrow> nat \<Rightarrow> nat option \<Rightarrow> int \<Rightarrow> int \<Rightarrow> publish_flag set \<Rightarrow> rr \<Rightarrow> server \<Rightarrow> server res" where
  "add_entry sc now rnd e g interface protocol flags r s =
     (if estore s e \<noteq> None then Crash
      else
        let x = \<lparr>egroup = g, edead = False, eflags = flags, erecord = r, einterface = interface, eprotocol = protocol,
                 announcers = []\<rparr>;
            s = (set_entry e x s)\<lparr>entries := e # entries s, entries_by_key := index_prepend sc (entries_by_key s) (rkey r) e\<rparr>
        in res_bind (case g of
                       None \<Rightarrow> Ret s
                     | Some g \<Rightarrow> res_map (\<lambda>y. set_group g (y\<lparr>gentries := e # gentries y\<rparr>) s) (get_group s g))
             (avahi_announce_entry now rnd e))"

text \<open>\<open>e\<close> is the number of the entry, should one be added.\<close>

definition server_add_internal ::
  "bool \<Rightarrow> timeval \<Rightarrow> int \<Rightarrow> nat \<Rightarrow> server \<Rightarrow> nat option \<Rightarrow> int \<Rightarrow> int \<Rightarrow> publish_flag set \<Rightarrow> rr \<Rightarrow>
   (server \<times> (publish_error + nat)) res" where
  "server_add_internal sc now rnd e s g interface protocol flags r =
     res_bind (check_add s g interface protocol flags r) (\<lambda>x.
       case x of
         Inl err \<Rightarrow> Ret (s, Inl err)
       | Inr flags \<Rightarrow>
           if AVAHI_PUBLISH_UPDATE \<in> flags then
             res_bind (find_update s g interface protocol (index_list sc (entries_by_key s) (rkey r))) (\<lambda>y.
               case y of
                 None \<Rightarrow> Ret (s, Inl AVAHI_ERR_NOT_FOUND)
               | Some e \<Rightarrow> res_map (\<lambda>s. (s, Inr e)) (update_entry sc now rnd g e flags r s))
           else
             res_bind (check_record_conflict sc s interface protocol r flags) (\<lambda>conflict.
               if conflict then Ret (s, Inl AVAHI_ERR_COLLISION)
               else res_map (\<lambda>s. (s, Inr e)) (add_entry sc now rnd e g interface protocol flags r s)))"

section \<open>Conflicts\<close>

definition withdraw_entry :: "bool \<Rightarrow> timeval \<Rightarrow> int \<Rightarrow> nat \<Rightarrow> server \<Rightarrow> server res" where
  "withdraw_entry sc now rnd e s =
     res_bind (get_entry s e) (\<lambda>x.
       if edead x then Ret s
       else
         res_map (\<lambda>s. s\<lparr>need_entry_cleanup := True\<rparr>)
           (case egroup x of
              None \<Rightarrow> kill_entry sc now rnd False e s
            | Some g \<Rightarrow>
                res_bind (get_group s g) (\<lambda>y.
                res_bind (for_entries (kill_entry sc now rnd False) (gentries y) s) (\<lambda>s.
                res_bind (get_group s g) (\<lambda>y.
                  avahi_s_entry_group_change_state now (set_group g (y\<lparr>n_probing := 0\<rparr>) s) g AVAHI_ENTRY_GROUP_COLLISION)))))"

fun withdraw_entries :: "bool \<Rightarrow> timeval \<Rightarrow> int \<Rightarrow> nat list \<Rightarrow> server \<Rightarrow> server res" where
  "withdraw_entries sc now rnd [] s = Ret s"
| "withdraw_entries sc now rnd (e # es) s = res_bind (withdraw_entry sc now rnd e s) (withdraw_entries sc now rnd es)"

definition withdraw_rrset :: "bool \<Rightarrow> timeval \<Rightarrow> int \<Rightarrow> key \<Rightarrow> server \<Rightarrow> server res" where
  "withdraw_rrset sc now rnd k s = withdraw_entries sc now rnd (index_list sc (entries_by_key s) k) s"

text \<open>What the entries say about a probe: it is for one of our records, or some won or lost.\<close>

fun probe_outcome :: "server \<Rightarrow> rr \<Rightarrow> nat \<Rightarrow> nat list \<Rightarrow> (bool \<times> bool \<times> bool) res" where
  "probe_outcome s r i [] = Ret (False, False, False)"
| "probe_outcome s r i (e # es) =
     res_bind (get_entry s e) (\<lambda>x.
       if edead x then probe_outcome s r i es
       else
         res_bind (avahi_record_lexicographical_compare (erecord x) r) (\<lambda>c.
           if c = 0 then Ret (True, False, False)
           else
             res_bind (avahi_entry_is_probing s e i) (\<lambda>probing.
             res_map (\<lambda>(ours, won, lost). (ours, won \<or> probing \<and> 0 < c, lost \<or> probing \<and> c < 0)) (probe_outcome s r i es))))"

definition incoming_probe :: "bool \<Rightarrow> timeval \<Rightarrow> int \<Rightarrow> rr \<Rightarrow> nat \<Rightarrow> server \<Rightarrow> server res" where
  "incoming_probe sc now rnd r i s =
     res_bind (probe_outcome s r i (index_list sc (entries_by_key s) (rkey r))) (\<lambda>(ours, won, lost).
       if \<not> ours \<and> \<not> won \<and> lost then withdraw_rrset sc now rnd (rkey r) s else Ret s)"

text \<open>
  The loop of \<open>handle_conflict\<close>, with its variables \<open>valid\<close>, \<open>ours\<close>, \<open>conflict\<close>,
  \<open>withdraw_immediately\<close> and \<open>conflicting_entry\<close>.
\<close>

record conflict_state =
  valid :: bool
  ours :: bool
  conflict :: bool
  withdraw_immediately :: bool
  conflicting_entry :: "nat option"

fun conflict_loop :: "bool \<Rightarrow> nat \<Rightarrow> rr \<Rightarrow> bool \<Rightarrow> nat list \<Rightarrow> conflict_state \<Rightarrow> server \<Rightarrow> (server \<times> conflict_state) res" where
  "conflict_loop sc i r uniq [] c s = Ret (s, c)"
| "conflict_loop sc i r uniq (e # es) c s =
     res_bind (get_entry s e) (\<lambda>x.
       if edead x then conflict_loop sc i r uniq es c s
       else if avahi_record_is_goodbye r then
         res_bind (avahi_record_equal_no_ttl (erecord x) r) (\<lambda>eq.
           if eq then
             res_map (\<lambda>s. (s, c\<lparr>valid := False\<rparr>)) (avahi_server_prepare_matching_responses sc s i (rkey (erecord x)) False)
           else conflict_loop sc i r uniq es c s)
       else if \<not> unique x \<and> \<not> uniq then conflict_loop sc i r uniq es c s
       else
         res_bind (avahi_record_equal_no_ttl (erecord x) r) (\<lambda>eq.
         res_bind (avahi_entry_is_registered s e i) (\<lambda>registered.
           if eq then
             if ttl r \<le> ttl (erecord x) div 2 \<and> registered then
               res_map (\<lambda>s. (s, c\<lparr>ours := True, valid := False\<rparr>))
                 (avahi_server_prepare_matching_responses sc s i (rkey (erecord x)) False)
             else Ret (s, c\<lparr>ours := True\<rparr>)
           else if registered then
             conflict_loop sc i r uniq es (c\<lparr>conflict := True, conflicting_entry := Some e\<rparr>) s
           else
             res_bind (avahi_entry_is_probing s e i) (\<lambda>probing.
               conflict_loop sc i r uniq es (if probing then c\<lparr>conflict := True, withdraw_immediately := True\<rparr> else c) s))))"

definition handle_conflict :: "bool \<Rightarrow> timeval \<Rightarrow> int \<Rightarrow> server \<Rightarrow> nat \<Rightarrow> rr \<Rightarrow> bool \<Rightarrow> (server \<times> bool) res" where
  "handle_conflict sc now rnd s i r uniq =
     res_bind (conflict_loop sc i r uniq (index_list sc (entries_by_key s) (rkey r))
                 \<lparr>valid = True, ours = False, conflict = False, withdraw_immediately = False, conflicting_entry = None\<rparr> s) (\<lambda>(s, c).
       if \<not> ours c \<and> conflict c then
         res_map (\<lambda>s. (s, False))
           (if withdraw_immediately c then withdraw_rrset sc now rnd (rkey r) s
            else case conflicting_entry c of None \<Rightarrow> Crash | Some e \<Rightarrow> avahi_entry_return_to_initial_state now rnd e i s)
       else Ret (s, valid c))"

end
