(* ===== verification/Ifaces.thy ===== *)
theory Ifaces
  imports Entries Response_Sched Address
begin

text \<open>
  Network interfaces (\<open>avahi-core/iface.c\<close>): which addresses and interfaces count, whether an address
  is on the link, the limit on the rate of packets, and what happens to entries and responses when
  an interface comes, becomes relevant, ceases to be and goes. An interface is a number; its
  record is \<open>iface\<close> of the theory \<open>Publish\<close>. Whether joining the multicast group succeeded is an
  argument, as are the addresses of the interface.
\<close>

unbundle bit_operations_syntax

section \<open>Addresses of an interface\<close>

record iface_address =
  ia_address :: address
  ia_prefix_len :: nat
  ia_global_scope :: bool
  ia_deprecated :: bool

text \<open>The address at position \<open>n\<close> of the list; the other addresses are those at other positions.\<close>

definition avahi_interface_address_is_relevant :: "iface_address list \<Rightarrow> nat \<Rightarrow> bool" where
  "avahi_interface_address_is_relevant as n \<longleftrightarrow>
     ia_global_scope (as ! n) \<and> \<not> ia_deprecated (as ! n) \<or>
     \<not> list_ex (\<lambda>m. m \<noteq> n \<and> ia_global_scope (as ! m) \<and> \<not> ia_deprecated (as ! m)) [0..<length as]"

definition avahi_interface_is_relevant_internal :: "bool \<Rightarrow> iface_address list \<Rightarrow> bool" where
  "avahi_interface_is_relevant_internal flags_ok as \<longleftrightarrow>
     flags_ok \<and> list_ex (avahi_interface_address_is_relevant as) [0..<length as]"

text \<open>The lists of names in the configuration are \<open>deny\<close> and \<open>allow\<close>.\<close>

definition avahi_interface_is_relevant :: "byte list list \<Rightarrow> byte list list \<Rightarrow> byte list \<Rightarrow> bool \<Rightarrow> iface_address list \<Rightarrow> bool" where
  "avahi_interface_is_relevant deny allow hw_name flags_ok as \<longleftrightarrow>
     (if list_ex (\<lambda>l. strcasecmp l hw_name = 0) deny then False
      else if allow \<noteq> [] \<and> \<not> list_ex (\<lambda>l. strcasecmp l hw_name = 0) allow then False
      else avahi_interface_is_relevant_internal flags_ok as)"

definition avahi_interface_monitor_get_address :: "iface_address list \<Rightarrow> address \<Rightarrow> iface_address option" where
  "avahi_interface_monitor_get_address as a = find (\<lambda>x. avahi_address_cmp (ia_address x) a = 0) as"

text \<open>
  The mask of an IPv4 prefix. Shifting by the width of the word or more is undefined in C: \<open>Crash\<close>.
\<close>

definition ipv4_mask :: "nat \<Rightarrow> u32 res" where
  "ipv4_mask n = (if 32 \<le> n then Crash else Ret (NOT (drop_bit n (- 1))))"

text \<open>The loop over the bytes of an IPv6 address, from the first one with \<open>pl\<close> bits of the prefix left.\<close>

fun ipv6_on_link :: "byte list \<Rightarrow> byte list \<Rightarrow> byte \<Rightarrow> bool" where
  "ipv6_on_link (x # xs) (y # ys) pl =
     (if pl = 0 then True
      else
        let (m, pl) = (if 8 \<le> pl then (255, pl - 8) else (NOT (drop_bit (unat pl) 255), 0)) in
        if x AND m \<noteq> y AND m then False else ipv6_on_link xs ys pl)"
| "ipv6_on_link _ _ pl = False"

fun address_on_link :: "address \<Rightarrow> iface_address list \<Rightarrow> bool res" where
  "address_on_link a [] = Ret False"
| "address_on_link a (ia # as) =
     (if proto a = AVAHI_PROTO_INET then
        res_bind (ipv4_mask (ia_prefix_len ia)) (\<lambda>m.
          if ntohl (ipv4_data a) AND m = ntohl (ipv4_data (ia_address ia)) AND m then Ret True else address_on_link a as)
      else if proto a = AVAHI_PROTO_INET6 then
        (if ipv6_on_link (addr_data a) (addr_data (ia_address ia)) (of_nat (ia_prefix_len ia)) then Ret True
         else address_on_link a as)
      else Crash)"

definition avahi_interface_address_on_link :: "int \<Rightarrow> iface_address list \<Rightarrow> address \<Rightarrow> bool res" where
  "avahi_interface_address_on_link protocol as a =
     (if proto a \<noteq> protocol then Ret False else address_on_link a as)"

section \<open>The rate of packets\<close>

record ratelimit =
  ratelimit_begin :: timeval
  ratelimit_counter :: nat

text \<open>
  The check of \<open>avahi_interface_send_packet_unicast\<close> before a packet is sent: the state of the
  hardware interface after it, and whether the packet may be sent.
\<close>

definition ratelimit_pass :: "int \<Rightarrow> nat \<Rightarrow> timeval \<Rightarrow> ratelimit \<Rightarrow> ratelimit \<times> bool" where
  "ratelimit_pass interval burst now rl =
     (if 0 < interval then
        let rl = (if tv_sec (ratelimit_begin rl) \<le> 0 \<or> avahi_timeval_compare (avahi_timeval_add (ratelimit_begin rl) interval) now < 0
                  then \<lparr>ratelimit_begin = now, ratelimit_counter = 0\<rparr> else rl)
        in if burst < ratelimit_counter rl then (rl, False)
           else (rl\<lparr>ratelimit_counter := ratelimit_counter rl + 1\<rparr>, True)
      else (rl, True))"

section \<open>Interfaces come and go\<close>

definition avahi_interface_new :: "nat \<Rightarrow> int \<Rightarrow> int \<Rightarrow> nat \<Rightarrow> server \<Rightarrow> server res" where
  "avahi_interface_new i idx protocol mtu s =
     (if istore s i \<noteq> None \<or> \<not> AVAHI_PROTO_VALID protocol then Crash
      else
        Ret ((set_iface i \<lparr>announcing = False, hw_index = idx, iprotocol = protocol, hw_mtu = mtu,
                iresponses = avahi_response_scheduler_new (sjitter s), iprobes = [], iunicasts = []\<rparr> s)
             \<lparr>interfaces := i # interfaces s\<rparr>))"

text \<open>
  The auxiliary records of the responses an interface sends are those the server finds among its
  entries. The response schedulers share the static variables of \<open>avahi_elapse_time\<close>.
\<close>

definition server_aux :: "bool \<Rightarrow> server \<Rightarrow> nat \<Rightarrow> rr \<Rightarrow> (rr \<times> bool) list" where
  "server_aux sc s i r = (case avahi_server_enumerate_aux_records sc s i r of Crash \<Rightarrow> [] | Ret rs \<Rightarrow> rs)"

definition with_responses :: "nat \<Rightarrow> (iface \<Rightarrow> response_sched \<Rightarrow> response_sched res) \<Rightarrow> server \<Rightarrow> server res" where
  "with_responses i f s =
     res_bind (get_iface s i) (\<lambda>x.
       res_map (\<lambda>rs. (set_iface i (x\<lparr>iresponses := rs\<rparr>) s)\<lparr>sjitter := rjitter rs\<rparr>) (f x ((iresponses x)\<lparr>rjitter := sjitter s\<rparr>)))"

definition response_elapsed :: "bool \<Rightarrow> timeval \<Rightarrow> int \<Rightarrow> nat \<Rightarrow> nat \<Rightarrow> server \<Rightarrow> server res" where
  "response_elapsed sc now rnd i j s =
     with_responses i (\<lambda>x rs. response_elapse_callback sc (server_aux sc s i) (hw_mtu x) now rnd rs j) s"

definition response_incoming :: "timeval \<Rightarrow> nat \<Rightarrow> rr \<Rightarrow> bool \<Rightarrow> server \<Rightarrow> server res" where
  "response_incoming now i r flush s = with_responses i (\<lambda>_ rs. avahi_response_scheduler_incoming now rs r flush) s"

definition response_suppress :: "timeval \<Rightarrow> nat \<Rightarrow> rr \<Rightarrow> address \<Rightarrow> server \<Rightarrow> server res" where
  "response_suppress now i r a s = with_responses i (\<lambda>_ rs. avahi_response_scheduler_suppress now rs r a) s"

text \<open>
  Whether the interface is relevant, whether the list of interfaces is complete and whether the multicast group can be
  joined are arguments. The lookups, queriers, queries, probes and the cache of the interface are
  not part of this state.
\<close>

definition avahi_interface_check_relevant :: "bool \<Rightarrow> timeval \<Rightarrow> int \<Rightarrow> bool \<Rightarrow> bool \<Rightarrow> bool \<Rightarrow> nat \<Rightarrow> server \<Rightarrow> server res" where
  "avahi_interface_check_relevant sc now rnd list_complete b joined i s =
     res_bind (get_iface s i) (\<lambda>y.
       if list_complete \<and> b \<and> \<not> announcing y then
         if joined then avahi_announce_interface now rnd i (set_iface i (y\<lparr>announcing := True\<rparr>) s) else Ret s
       else if \<not> b \<and> announcing y then
         res_bind (avahi_goodbye_interface sc now rnd i False True s) (\<lambda>s.
         res_bind (with_responses i (\<lambda>_. avahi_response_scheduler_clear) s) (\<lambda>s.
         res_map (\<lambda>y. set_iface i (y\<lparr>announcing := False\<rparr>) s) (get_iface s i)))
       else Ret s)"

text \<open>The scheduled responses are sent in at most \<open>k\<close> packets.\<close>

definition avahi_interface_free :: "bool \<Rightarrow> timeval \<Rightarrow> int \<Rightarrow> nat \<Rightarrow> bool \<Rightarrow> nat \<Rightarrow> server \<Rightarrow> server res" where
  "avahi_interface_free sc now rnd k send_goodbye i s =
     res_bind (avahi_goodbye_interface sc now rnd i send_goodbye True s) (\<lambda>s.
     res_bind (with_responses i (\<lambda>x. avahi_response_scheduler_force sc (server_aux sc s i) (hw_mtu x) now rnd k) s) (\<lambda>s.
       if list_ex (\<lambda>e. case estore s e of None \<Rightarrow> False | Some x \<Rightarrow> get_announcer x i \<noteq> None) (entries s) then Crash
       else Ret (s\<lparr>istore := (istore s)(i := None), interfaces := remove1 i (interfaces s)\<rparr>)))"

end
