(* ===== verification/Publish_Inv.thy ===== *)
theory Publish_Inv
  imports Announce Response_Send
begin

text \<open>
  What the operations that look records up, gather and post them leave as it is: everything but the
  schedules of the interfaces, the record list and the static variables of \<open>avahi_elapse_time\<close>.
\<close>

section \<open>Interfaces and the record list\<close>

definition publishable :: "rr \<Rightarrow> bool" where
  "publishable r \<longleftrightarrow> postable r \<and> rdata r \<noteq> Generic []"

lemma publishable_ok: "publishable r \<Longrightarrow> rr_ok r \<and> key_ok (rkey r) \<and> postable r \<and> \<not> avahi_key_is_pattern (rkey r)"
  by (simp add: publishable_def postable_def rr_ok_def)

lemma goodbye_record:
  assumes "publishable r"
  shows "make_goodbye_record r = Ret (Some (r\<lparr>ttl := 0\<rparr>))" "postable (r\<lparr>ttl := 0\<rparr>)" "rr_abs (r\<lparr>ttl := 0\<rparr>) = rr_abs r"
  using assms record_copy_same [of r]
  by (auto simp: make_goodbye_record_def publishable_def postable_def rr_ok_def sent_record_def rr_abs_def)

definition iface_ok :: "iface \<Rightarrow> bool" where
  "iface_ok y \<longleftrightarrow> resp_core (iresponses y) \<and> jobs_in (Collect postable) (iresponses y)"

text \<open>No record in the list asks for a unicast response: that happens only while a query is answered.\<close>

definition list_ok :: "record_list \<Rightarrow> bool" where
  "list_ok l \<longleftrightarrow> record_list_ok l \<and> (\<forall>it \<in> set (lread l) \<union> set (lunread l). postable (irecord it)) \<and>
     (\<forall>it \<in> set (lunread l). \<not> unicast_response it)"

definition io_ok :: "server \<Rightarrow> bool" where
  "io_ok s \<longleftrightarrow> distinct (interfaces s) \<and> (\<forall>i. istore s i \<noteq> None \<longleftrightarrow> i \<in> set (interfaces s)) \<and>
     (\<forall>i y. istore s i = Some y \<longrightarrow> iface_ok y) \<and> rand_ok (last_rand (sjitter s)) \<and> list_ok (srecords s)"

definition iface_moves :: "timeval \<Rightarrow> iface \<Rightarrow> iface \<Rightarrow> bool" where
  "iface_moves now y y' \<longleftrightarrow> announcing y' = announcing y \<and> hw_index y' = hw_index y \<and> iprotocol y' = iprotocol y \<and>
     hw_mtu y' = hw_mtu y \<and> iprobes y' = iprobes y \<and> iunicasts y' = iunicasts y \<and>
     progress now (Collect postable) (iresponses y) (iresponses y')"

text \<open>The entries and groups, and what else is not the business of these operations.\<close>

definition same_zone :: "server \<Rightarrow> server \<Rightarrow> bool" where
  "same_zone s s' \<longleftrightarrow> entries s' = entries s \<and> estore s' = estore s \<and> entries_by_key s' = entries_by_key s \<and>
     groups s' = groups s \<and> gstore s' = gstore s \<and> interfaces s' = interfaces s \<and>
     need_entry_cleanup s' = need_entry_cleanup s \<and> need_group_cleanup s' = need_group_cleanup s \<and>
     cleanup_time_event s' = cleanup_time_event s \<and> sstate s' = sstate s \<and> wide_area_servers s' = wide_area_servers s \<and>
     disable_publishing s' = disable_publishing s \<and> changes s' = changes s"

definition quiet_step :: "timeval \<Rightarrow> server \<Rightarrow> server \<Rightarrow> bool" where
  "quiet_step now s s' \<longleftrightarrow> same_zone s s' \<and> io_ok s' \<and> (\<forall>i. rel_option (iface_moves now) (istore s i) (istore s' i))"

lemma iface_moves_refl: "iface_ok y \<Longrightarrow> iface_moves now y y"
  by (simp add: iface_moves_def iface_ok_def progress_refl)

lemma iface_moves_trans: "iface_moves now y y' \<Longrightarrow> iface_moves now y' y'' \<Longrightarrow> iface_moves now y y''"
  using progress_trans unfolding iface_moves_def by metis

lemma quiet_refl: "io_ok s \<Longrightarrow> quiet_step now s s"
  by (auto simp: quiet_step_def same_zone_def io_ok_def iface_moves_refl intro!: option.rel_refl_strong)

lemma quiet_trans:
  assumes "quiet_step now s s'" "quiet_step now s' s''"
  shows "quiet_step now s s''"
proof -
  have "rel_option (iface_moves now) (istore s i) (istore s'' i)" for i
  proof -
    have "rel_option (iface_moves now) (istore s i) (istore s' i)" "rel_option (iface_moves now) (istore s' i) (istore s'' i)"
      using assms by (simp_all add: quiet_step_def)
    then show ?thesis using iface_moves_trans by (cases "istore s i"; cases "istore s' i"; cases "istore s'' i") auto
  qed
  with assms show ?thesis by (simp add: quiet_step_def same_zone_def)
qed

lemma quiet_io: "quiet_step now s s' \<Longrightarrow> io_ok s'"
  by (simp add: quiet_step_def)

lemma quiet_zone:
  assumes "quiet_step now s s'"
  shows "entries s' = entries s" "estore s' = estore s" "entries_by_key s' = entries_by_key s" "groups s' = groups s"
    "gstore s' = gstore s" "interfaces s' = interfaces s" "changes s' = changes s" "need_entry_cleanup s' = need_entry_cleanup s"
    "need_group_cleanup s' = need_group_cleanup s" "cleanup_time_event s' = cleanup_time_event s"
  using assms by (simp_all add: quiet_step_def same_zone_def)

lemma quiet_reads:
  assumes "quiet_step now s s'"
  shows "get_entry s' e = get_entry s e" "get_group s' g = get_group s g"
    "avahi_entry_is_registered s' e i = avahi_entry_is_registered s e i" "avahi_entry_is_probing s' e i = avahi_entry_is_probing s e i"
    "get_announcer_of s' e i = get_announcer_of s e i" "is_duplicate_entry sc s' e = is_duplicate_entry sc s e"
proof -
  note z = quiet_zone [OF assms]
  show e: "get_entry s' e = get_entry s e" for e by (simp add: get_entry_def z)
  show "get_group s' g = get_group s g" by (simp add: get_group_def z)
  show "avahi_entry_is_registered s' e i = avahi_entry_is_registered s e i" by (simp add: avahi_entry_is_registered_def e)
  show "avahi_entry_is_probing s' e i = avahi_entry_is_probing s e i" by (simp add: avahi_entry_is_probing_def e)
  show "get_announcer_of s' e i = get_announcer_of s e i" by (simp add: get_announcer_of_def e)
  have "duplicate_in s' e r es = duplicate_in s e r es" for r es by (induction es) (simp_all add: e cong: if_cong)
  then show "is_duplicate_entry sc s' e = is_duplicate_entry sc s e" by (simp add: is_duplicate_entry_def e z)
qed

lemma quiet_iface:
  assumes "quiet_step now s s'" "istore s i = Some y"
  obtains y' where "istore s' i = Some y'" "iface_moves now y y'"
  using assms by (auto simp: quiet_step_def dest!: spec [where x = i] elim: option.rel_cases)

lemma quiet_istore: "quiet_step now s s' \<Longrightarrow> istore s' i \<noteq> None \<longleftrightarrow> istore s i \<noteq> None"
  by (cases "istore s i"; cases "istore s' i") (auto simp: quiet_step_def dest: spec [where x = i])

text \<open>On interface \<open>i\<close>, if it announces, the records are scheduled, or they need not be.\<close>

definition all_covered :: "timeval \<Rightarrow> server \<Rightarrow> nat \<Rightarrow> rr set \<Rightarrow> bool" where
  "all_covered now s i rs \<longleftrightarrow> (\<forall>y. istore s i = Some y \<longrightarrow> announcing y \<longrightarrow> (\<forall>r \<in> rs. covered now (iresponses y) r))"

lemma all_covered_quiet:
  assumes "quiet_step now s s'" "all_covered now s i rs"
  shows "all_covered now s' i rs"
proof -
  have "rel_option (iface_moves now) (istore s i) (istore s' i)" using assms(1) by (simp add: quiet_step_def)
  with assms(2) show ?thesis
    by (cases "istore s i"; cases "istore s' i") (auto simp: all_covered_def iface_moves_def progress_def)
qed

section \<open>Time and posting\<close>

lemma server_elapse_ok:
  assumes "io_ok s" "normalized now" "rand_ok rnd" "0 \<le> msec" "0 \<le> jitter"
  obtains s' tv where "server_elapse_time now rnd s msec jitter = (s', tv)" "quiet_step now s s'" "normalized tv"
    "usec_of now + msec * 1000 \<le> usec_of tv" "usec_of tv \<le> usec_of now + (msec + jitter) * 1000"
proof -
  have "rand_ok (last_rand (sjitter s))" using assms(1) by (simp add: io_ok_def)
  from elapse_time_range [OF this assms(3,2,4,5)] obtain tv js where
    e: "avahi_elapse_time now rnd (sjitter s) msec jitter = (tv, js)" "rand_ok (last_rand js)" "normalized tv"
      "usec_of now + msec * 1000 \<le> usec_of tv" "usec_of tv \<le> usec_of now + (msec + jitter) * 1000" .
  have "io_ok (s\<lparr>sjitter := js\<rparr>)" using assms(1) e(2) by (simp add: io_ok_def)
  moreover have "same_zone s (s\<lparr>sjitter := js\<rparr>)" by (simp add: same_zone_def)
  moreover have "\<forall>i. rel_option (iface_moves now) (istore s i) (istore (s\<lparr>sjitter := js\<rparr>) i)"
    using quiet_refl [OF assms(1), of now] by (simp add: quiet_step_def)
  ultimately show thesis using that [of "s\<lparr>sjitter := js\<rparr>" tv] e by (simp add: server_elapse_time_def quiet_step_def)
qed

lemma progress_rjitter: "progress now R (s\<lparr>rjitter := js\<rparr>) s' = progress now R s s'"
  by (simp add: progress_def covered_def jobs_in_def off_schedule_def)

lemma post_response_ok:
  assumes "io_ok s" "postable r" "querier_ok q" "normalized now" "rand_ok rnd" "istore s i \<noteq> None"
  obtains s' b where "avahi_interface_post_response now rnd s i r flush q imm = Ret (s', b)" "quiet_step now s s'"
    "all_covered now s' i {r}" "srecords s' = srecords s"
proof -
  obtain y where y: "istore s i = Some y" using assms(6) by blast
  have yok: "iface_ok y" using assms(1) y by (simp add: io_ok_def)
  show thesis
  proof (cases "announcing y")
    case False
    with y have "avahi_interface_post_response now rnd s i r flush q imm = Ret (s, False)"
      by (simp add: avahi_interface_post_response_def get_iface_def)
    with that quiet_refl [OF assms(1)] y False show thesis by (simp add: all_covered_def)
  next
    case True
    let ?rs = "(iresponses y)\<lparr>rjitter := sjitter s\<rparr>"
    have "resp_core ?rs" using yok assms(1) core_rjitter by (simp add: iface_ok_def io_ok_def)
    from post_progress [OF this assms(2-5), where R = "Collect postable" and flush = flush and imm = imm] assms(2) obtain rs b where
      rs: "avahi_response_scheduler_post now rnd ?rs r flush q imm = Ret (rs, b)" "progress now (Collect postable) ?rs rs" "covered now rs r"
      by auto
    let ?y = "y\<lparr>iresponses := rs\<rparr>" and ?s = "(set_iface i (y\<lparr>iresponses := rs\<rparr>) s)\<lparr>sjitter := rjitter rs\<rparr>"
    have eq: "avahi_interface_post_response now rnd s i r flush q imm = Ret (?s, b)"
      using y True rs(1) by (simp add: avahi_interface_post_response_def get_iface_def)
    have pr: "progress now (Collect postable) (iresponses y) rs" using rs(2) by (simp add: progress_rjitter)
    then have "iface_ok ?y" using yok by (simp add: iface_ok_def progress_def)
    moreover have "rand_ok (last_rand (rjitter rs))" using rs(2) core_rand by (simp add: progress_def)
    ultimately have "io_ok ?s" using assms(1) y by (auto simp: io_ok_def set_iface_def)
    moreover have "same_zone s ?s" by (simp add: same_zone_def set_iface_def)
    moreover have "rel_option (iface_moves now) (istore s j) (istore ?s j)" for j
    proof (cases "j = i")
      case True
      with y pr show ?thesis by (simp add: set_iface_def iface_moves_def)
    next
      case False
      with quiet_refl [OF assms(1), of now] show ?thesis by (simp add: quiet_step_def set_iface_def)
    qed
    ultimately have "quiet_step now s ?s" by (simp add: quiet_step_def)
    with that eq rs(3) show thesis by (simp add: all_covered_def set_iface_def)
  qed
qed

section \<open>Gathering records\<close>

text \<open>The records of \<open>rs\<close> are in the list.\<close>

definition gathered :: "server \<Rightarrow> rr set \<Rightarrow> bool" where
  "gathered s rs \<longleftrightarrow> (\<forall>r \<in> rs. \<exists>it \<in> set (lunread (srecords s)). rr_abs (irecord it) = rr_abs r)"

lemma push_quiet:
  assumes "io_ok s" "postable r"
  obtains l where "avahi_record_list_push (srecords s) r flush False aux = Ret l" "quiet_step now s (s\<lparr>srecords := l\<rparr>)"
    "set (lunread (srecords s)) \<subseteq> set (lunread l)" "lread l = lread (srecords s)" "in_list l r"
proof -
  have r: "rr_ok r" and l: "record_list_ok (srecords s)" using assms by (auto simp: io_ok_def postable_def list_ok_def)
  note push = record_list_push_ok [OF l r, of flush False aux]
  let ?it = "\<lparr>irecord = r, unicast_response = False, flush_cache = flush, auxiliary = aux\<rparr>"
  let ?l = "if in_list (srecords s) r then srecords s
    else (srecords s)\<lparr>lunread := ?it # lunread (srecords s), all_flush_cache := all_flush_cache (srecords s) \<and> flush\<rparr>"
  note keep = record_list_push_keeps [OF l r push]
  have "list_ok ?l" using assms keep(1) by (auto simp: list_ok_def io_ok_def)
  then have "io_ok (s\<lparr>srecords := ?l\<rparr>)" using assms(1) by (simp add: io_ok_def)
  moreover have "\<forall>i. rel_option (iface_moves now) (istore s i) (istore (s\<lparr>srecords := ?l\<rparr>) i)"
    using quiet_refl [OF assms(1), of now] by (simp add: quiet_step_def)
  ultimately have quiet: "quiet_step now s (s\<lparr>srecords := ?l\<rparr>)" by (simp add: quiet_step_def same_zone_def)
  have "in_list ?l r" using keep(2) by simp
  then show thesis by (intro that [OF push quiet]) auto
qed

text \<open>
  A loop over entries that pushes the records of those that \<open>P\<close> holds for: it is enough that each
  round does that.
\<close>

definition pushes :: "timeval \<Rightarrow> server \<Rightarrow> server \<Rightarrow> rr set \<Rightarrow> bool" where
  "pushes now s s' rs \<longleftrightarrow> quiet_step now s s' \<and> lread (srecords s') = lread (srecords s) \<and>
     set (lunread (srecords s)) \<subseteq> set (lunread (srecords s')) \<and> (\<forall>r \<in> rs. in_list (srecords s') r)"

lemma pushes_refl: "io_ok s \<Longrightarrow> pushes now s s {}"
  by (simp add: pushes_def quiet_refl)

lemma pushes_mono: "pushes now s s' rs \<Longrightarrow> rs' \<subseteq> rs \<Longrightarrow> pushes now s s' rs'"
  by (auto simp: pushes_def)

lemma in_list_mono: "in_list l r \<Longrightarrow> lread l' = lread l \<Longrightarrow> set (lunread l) \<subseteq> set (lunread l') \<Longrightarrow> in_list l' r"
  by (auto simp: in_list_def)

lemma pushes_trans:
  assumes "pushes now s s' rs" "pushes now s' s'' rs'"
  shows "pushes now s s'' (rs \<union> rs')"
proof -
  have "\<forall>r \<in> rs. in_list (srecords s'') r" using assms in_list_mono by (auto simp: pushes_def)
  with assms show ?thesis by (auto simp: pushes_def intro: quiet_trans)
qed

text \<open>The entries are publishable and there is no dead one among the ones a step needs.\<close>

definition entries_ok :: "server \<Rightarrow> bool" where
  "entries_ok s \<longleftrightarrow> (\<forall>e x. estore s e = Some x \<longrightarrow> publishable (erecord x))"

lemma prepare_response_ok:
  assumes "io_ok s" "entries_ok s" "estore s e = Some x"
  obtains s' where "avahi_server_prepare_response s e False aux = Ret s'" "pushes now s s' {erecord x}"
proof -
  have "postable (erecord x)" using assms(2,3) by (simp add: entries_ok_def publishable_def)
  from push_quiet [OF assms(1) this, of "unique x" aux now] obtain l where
    "avahi_record_list_push (srecords s) (erecord x) (unique x) False aux = Ret l" "quiet_step now s (s\<lparr>srecords := l\<rparr>)"
    "set (lunread (srecords s)) \<subseteq> set (lunread l)" "lread l = lread (srecords s)" "in_list l (erecord x)" .
  with assms(3) show thesis
    by (intro that [of "s\<lparr>srecords := l\<rparr>"]) (simp_all add: avahi_server_prepare_response_def get_entry_def pushes_def)
qed

text \<open>Whether an entry is registered on an interface.\<close>

definition registered_on :: "server \<Rightarrow> nat \<Rightarrow> entry \<Rightarrow> bool" where
  "registered_on s i x \<longleftrightarrow> \<not> edead x \<and> (case get_announcer x i of None \<Rightarrow> False | Some a \<Rightarrow> announcer_registered x a)"

lemma is_registered_on:
  "estore s e = Some x \<Longrightarrow> \<not> edead x \<Longrightarrow> avahi_entry_is_registered s e i = Ret (registered_on s i x)"
  by (simp add: avahi_entry_is_registered_def get_entry_def registered_on_def)

lemma prepare_listed_ok:
  assumes "io_ok s" "entries_ok s" "\<forall>e \<in> set es. estore s e \<noteq> None"
  shows "\<exists>s'. prepare_listed i False es s = Ret s' \<and>
    pushes now s s' {erecord x | e x. e \<in> set es \<and> estore s e = Some x \<and> registered_on s i x}"
  using assms
proof (induction es arbitrary: s)
  case Nil
  then show ?case by (simp add: pushes_refl)
next
  case (Cons e es)
  then obtain x where x: "estore s e = Some x" by auto
  have "\<exists>s1. (if registered_on s i x then avahi_server_prepare_response s e False False else Ret s) = Ret s1 \<and>
      pushes now s s1 (if registered_on s i x then {erecord x} else {})"
  proof (cases "registered_on s i x")
    case True
    with prepare_response_ok [OF Cons.prems(1,2) x, of False now] show ?thesis by auto
  qed (use Cons.prems(1) pushes_refl in simp)
  then obtain s1 where s1: "(if registered_on s i x then avahi_server_prepare_response s e False False else Ret s) = Ret s1"
    "pushes now s s1 (if registered_on s i x then {erecord x} else {})" by blast
  have q: "quiet_step now s s1" using s1(2) by (simp add: pushes_def)
  note z = quiet_zone [OF q]
  have "entries_ok s1" "\<forall>e \<in> set es. estore s1 e \<noteq> None" using Cons.prems(2,3) by (simp_all add: entries_ok_def z)
  from Cons.IH [OF quiet_io [OF q] this] obtain s' where s': "prepare_listed i False es s1 = Ret s'"
    "pushes now s1 s' {erecord x | e x. e \<in> set es \<and> estore s e = Some x \<and> registered_on s i x}"
    by (auto simp: z registered_on_def)
  have "prepare_listed i False (e # es) s = Ret s'"
    using x s1(1) s'(1) is_registered_on [OF x] by (cases "edead x") (simp_all add: get_entry_def registered_on_def)
  moreover have "(if registered_on s i x then {erecord x} else {}) \<union>
      {erecord x | e x. e \<in> set es \<and> estore s e = Some x \<and> registered_on s i x} =
      {erecord x | e' x. e' \<in> set (e # es) \<and> estore s e' = Some x \<and> registered_on s i x}" using x by auto
  ultimately show ?case using pushes_trans [OF s1(2) s'(2)] by auto
qed

definition key_matches :: "key \<Rightarrow> key \<Rightarrow> bool" where
  "key_matches p k \<longleftrightarrow> folded (name p) = folded (name k) \<and> (ktype p = ktype k \<or> ktype p = AVAHI_DNS_TYPE_ANY) \<and>
     (clazz p = clazz k \<or> clazz p = AVAHI_DNS_CLASS_ANY)"

lemma key_pattern_match: "key_ok p \<Longrightarrow> key_ok k \<Longrightarrow> \<not> avahi_key_is_pattern k \<Longrightarrow> avahi_key_pattern_match p k = Ret (key_matches p k)"
  by (simp add: avahi_key_pattern_match_def key_ok_def domain_equal_folded key_matches_def)

lemma prepare_pattern_listed:
  assumes "\<forall>e \<in> set es. \<exists>x. estore s e = Some x \<and> (\<not> edead x \<longrightarrow> avahi_key_pattern_match k (rkey (erecord x)) = Ret (m e))"
  shows "prepare_pattern i k u es s = prepare_listed i u (filter m es) s"
  using assms
proof (induction es arbitrary: s)
  case (Cons e es)
  then obtain x where x: "estore s e = Some x" "\<not> edead x \<Longrightarrow> avahi_key_pattern_match k (rkey (erecord x)) = Ret (m e)" by auto
  have keep: "estore s' = estore s" if "avahi_server_prepare_response s e u False = Ret s'" for s'
    using that x(1) by (auto simp: avahi_server_prepare_response_def get_entry_def res_map_eq_Ret)
  show ?case
  proof (cases "\<not> edead x \<and> m e \<and> registered_on s i x")
    case True
    then have "avahi_entry_is_registered s e i = Ret True" using is_registered_on [OF x(1)] by simp
    with True x Cons.IH Cons.prems keep show ?thesis
      by (cases "avahi_server_prepare_response s e u False") (simp_all add: get_entry_def)
  next
    case False
    then show ?thesis
      using x Cons.IH [of s] Cons.prems is_registered_on [OF x(1), of i] by (cases "edead x"; cases "m e") (simp_all add: get_entry_def)
  qed
qed simp

text \<open>The index holds the entries under their keys.\<close>

definition zone_keys :: "server \<Rightarrow> nat \<rightharpoonup> key" where
  "zone_keys s e = map_option (\<lambda>x. rkey (erecord x)) (estore s e)"

definition index_ready :: "bool \<Rightarrow> server \<Rightarrow> bool" where
  "index_ready sc s \<longleftrightarrow> index_ok sc (entries_by_key s) (zone_keys s) \<and> entries_ok s \<and>
     distinct (entries s) \<and> (\<forall>e. estore s e \<noteq> None \<longleftrightarrow> e \<in> set (entries s))"

lemma index_ready_quiet: "quiet_step now s s' \<Longrightarrow> index_ready sc s' = index_ready sc s"
  by (simp add: index_ready_def zone_keys_def [abs_def] quiet_zone entries_ok_def)

lemma listed_entries:
  assumes "index_ready sc s" "key_ok k"
  shows "e \<in> set (index_list sc (entries_by_key s) k) \<longleftrightarrow> (\<exists>x. estore s e = Some x \<and> key_abs (rkey (erecord x)) = key_abs k)"
  using assms index_list_set [of sc "entries_by_key s" "zone_keys s" k e] by (auto simp: index_ready_def zone_keys_def)

text \<open>The records that answer a question for key \<open>k\<close> on interface \<open>i\<close>, without CNAMEs.\<close>

definition answers_key :: "key \<Rightarrow> key \<Rightarrow> bool" where
  "answers_key k k' \<longleftrightarrow> (if avahi_key_is_pattern k then key_matches k k' else key_abs k' = key_abs k)"

definition answers :: "server \<Rightarrow> nat \<Rightarrow> key \<Rightarrow> rr set" where
  "answers s i k = {erecord x | e x. estore s e = Some x \<and> registered_on s i x \<and> answers_key k (rkey (erecord x))}"

lemma prepare_for_key_ok:
  assumes "io_ok s" "index_ready sc s" "key_ok k"
  shows "\<exists>s'. prepare_for_key sc i k False s = Ret s' \<and> pushes now s s' (answers s i k)"
proof -
  have ok: "entries_ok s" using assms(2) by (simp add: index_ready_def)
  show ?thesis
  proof (cases "avahi_key_is_pattern k")
    case True
    let ?m = "\<lambda>e. \<exists>x. estore s e = Some x \<and> key_matches k (rkey (erecord x))"
    have "\<forall>e \<in> set (entries s). \<exists>x. estore s e = Some x \<and> (\<not> edead x \<longrightarrow> avahi_key_pattern_match k (rkey (erecord x)) = Ret (?m e))"
    proof
      fix e assume "e \<in> set (entries s)"
      then obtain x where x: "estore s e = Some x" using assms(2) unfolding index_ready_def by blast
      then have "publishable (erecord x)" using ok by (simp add: entries_ok_def)
      from publishable_ok [OF this] key_pattern_match [OF assms(3)] x
      show "\<exists>x. estore s e = Some x \<and> (\<not> edead x \<longrightarrow> avahi_key_pattern_match k (rkey (erecord x)) = Ret (?m e))" by auto
    qed
    note eq = prepare_pattern_listed [OF this, of i False]
    have "\<forall>e \<in> set (filter ?m (entries s)). estore s e \<noteq> None" by auto
    from prepare_listed_ok [OF assms(1) ok this, of i now] obtain s' where s': "prepare_listed i False (filter ?m (entries s)) s = Ret s'"
      "pushes now s s' {erecord x | e x. e \<in> set (filter ?m (entries s)) \<and> estore s e = Some x \<and> registered_on s i x}" by blast
    have "answers s i k \<subseteq> {erecord x | e x. e \<in> set (filter ?m (entries s)) \<and> estore s e = Some x \<and> registered_on s i x}"
      using assms(2) True unfolding answers_def answers_key_def index_ready_def by auto
    from pushes_mono [OF s'(2) this] s'(1) eq True show ?thesis by (simp add: prepare_for_key_def)
  next
    case False
    let ?l = "index_list sc (entries_by_key s) k"
    have "\<forall>e \<in> set ?l. estore s e \<noteq> None" using listed_entries [OF assms(2,3)] by auto
    from prepare_listed_ok [OF assms(1) ok this, of i now] obtain s' where s': "prepare_listed i False ?l s = Ret s'"
      "pushes now s s' {erecord x | e x. e \<in> set ?l \<and> estore s e = Some x \<and> registered_on s i x}" by blast
    have "answers s i k = {erecord x | e x. e \<in> set ?l \<and> estore s e = Some x \<and> registered_on s i x}"
      using listed_entries [OF assms(2,3)] False by (auto simp: answers_def answers_key_def, blast)
    with s' False show ?thesis by (simp add: prepare_for_key_def)
  qed
qed

lemma prepare_matching_ok:
  assumes "io_ok s" "index_ready sc s" "sent_name AVAHI_DOMAIN_NAME_MAX (name k)"
  shows "\<exists>s'. avahi_server_prepare_matching_responses sc s i k False = Ret s' \<and> pushes now s s' (answers s i k)"
proof -
  note key = sent_name_key [OF assms(3) order.refl]
  then have "key_ok k" by (simp add: key_ok_def)
  from prepare_for_key_ok [OF assms(1,2) this] obtain s1 where
    s1: "prepare_for_key sc i k False s = Ret s1" "pushes now s s1 (answers s i k)" by blast
  let ?k = "\<lparr>name = name k, clazz = AVAHI_DNS_CLASS_IN, ktype = AVAHI_DNS_TYPE_CNAME\<rparr>"
  have q: "quiet_step now s s1" using s1(2) by (simp add: pushes_def)
  have "index_ready sc s1" "key_ok ?k" using assms(2) index_ready_quiet [OF q] key(3) by (simp_all add: key_ok_def)
  from prepare_for_key_ok [OF quiet_io [OF q] this] obtain s2 where
    s2: "prepare_for_key sc i ?k False s1 = Ret s2" "pushes now s1 s2 (answers s1 i ?k)" by blast
  have "pushes now s s2 (answers s i k)" using pushes_mono [OF pushes_trans [OF s1(2) s2(2)]] by simp
  with s1 s2(1) key(1) show ?thesis by (simp add: avahi_server_prepare_matching_responses_def)
qed

section \<open>Announcing\<close>

text \<open>Without a query to answer, the records of the list are posted, one after the other.\<close>

lemma list_next_ok:
  assumes "list_ok l" "avahi_record_list_next l = (l', x)"
  shows "list_ok l'" "case x of None \<Rightarrow> l' = l \<and> lunread l = []
    | Some it \<Rightarrow> lunread l = it # lunread l' \<and> postable (irecord it) \<and> \<not> unicast_response it"
  using assms record_list_next_keeps(1) [of l l' x]
  by (auto simp: list_ok_def avahi_record_list_next_def split: list.splits)

lemma generate_loop_ok:
  assumes "io_ok s" "normalized now" "rand_ok rnd" "istore s i \<noteq> None" "length (lunread (srecords s)) \<le> m"
  shows "\<exists>s'. generate_loop m sc now rnd s i None None 0 False imm None = Ret (s', None) \<and> quiet_step now s s' \<and>
    all_covered now s' i (irecord ` set (lunread (srecords s)))"
  using assms(1,4,5)
proof (induction m arbitrary: s)
  case 0
  then show ?case
    by (simp add: generate_loop.simps avahi_record_list_next_def quiet_refl all_covered_def)
next
  case (Suc m)
  obtain l x where nx: "avahi_record_list_next (srecords s) = (l, x)" by (cases "avahi_record_list_next (srecords s)")
  have "list_ok (srecords s)" using Suc.prems(1) by (simp add: io_ok_def)
  note l = list_next_ok [OF this nx]
  show ?case
  proof (cases x)
    case None
    with nx l(2) Suc.prems(1) show ?thesis by (simp add: generate_loop.simps quiet_refl all_covered_def)
  next
    case (Some it)
    let ?s = "s\<lparr>srecords := l\<rparr>"
    have io: "io_ok ?s" using Suc.prems(1) l(1) by (simp add: io_ok_def)
    then have q0: "quiet_step now s ?s"
      using quiet_refl [OF Suc.prems(1), of now] by (simp add: quiet_step_def same_zone_def)
    have r: "postable (irecord it)" "querier_ok None" "istore ?s i \<noteq> None"
      using l(2) Some Suc.prems(2) by (simp_all add: querier_ok_def)
    let ?im = "imm \<or> flush_cache it \<and> \<not> auxiliary it \<and> avahi_record_list_all_flush_cache l"
    from post_response_ok [OF io r(1,2) assms(2,3) r(3), of "flush_cache it" ?im] obtain s1 b where
      s1: "avahi_interface_post_response now rnd ?s i (irecord it) (flush_cache it) None ?im = Ret (s1, b)" "quiet_step now ?s s1"
        "all_covered now s1 i {irecord it}" "srecords s1 = l" by auto
    have "istore s1 i \<noteq> None" using quiet_istore [OF s1(2)] r(3) by blast
    moreover have len: "length (lunread (srecords s1)) \<le> m" using Suc.prems(3) l(2) Some s1(4) by simp
    ultimately obtain s' where s': "generate_loop m sc now rnd s1 i None None 0 False imm None = Ret (s', None)" "quiet_step now s1 s'"
      "all_covered now s' i (irecord ` set (lunread (srecords s1)))" using Suc.IH [OF quiet_io [OF s1(2)]] by blast
    have "generate_loop (Suc m) sc now rnd s i None None 0 False imm None = Ret (s', None)"
      using nx Some s1(1) s'(1) l(2) by (subst generate_loop.simps) simp
    moreover have "quiet_step now s s'" using quiet_trans [OF quiet_trans [OF q0 s1(2)] s'(2)] .
    moreover have "all_covered now s' i (irecord ` set (lunread (srecords s)))"
      using all_covered_quiet [OF s'(2) s1(3)] s'(3) l(2) Some s1(4) by (simp add: all_covered_def)
    ultimately show ?thesis by blast
  qed
qed

lemma io_flush: "io_ok s \<Longrightarrow> quiet_step now s (s\<lparr>srecords := avahi_record_list_flush (srecords s)\<rparr>)"
  using quiet_refl [of s now]
  by (simp add: quiet_step_def same_zone_def io_ok_def list_ok_def record_list_ok_def avahi_record_list_flush_def)

lemma generate_response_ok:
  assumes "io_ok s" "normalized now" "rand_ok rnd" "istore s i \<noteq> None"
  obtains s' where "avahi_server_generate_response sc now rnd s i None None 0 False imm = Ret s'" "quiet_step now s s'"
    "all_covered now s' i (irecord ` set (lunread (srecords s)))" "srecords s' = avahi_record_list_new"
proof -
  from generate_loop_ok [OF assms, of "length (lunread (srecords s)) + length (entries s)" sc imm] obtain s1 where
    s1: "generate_loop (length (lunread (srecords s)) + length (entries s)) sc now rnd s i None None 0 False imm None = Ret (s1, None)"
      "quiet_step now s s1" "all_covered now s1 i (irecord ` set (lunread (srecords s)))" by auto
  let ?s = "s1\<lparr>srecords := avahi_record_list_flush (srecords s1)\<rparr>"
  have q: "quiet_step now s1 ?s" using io_flush [OF quiet_io [OF s1(2)]] .
  show thesis
  proof (rule that [of ?s])
    show "avahi_server_generate_response sc now rnd s i None None 0 False imm = Ret ?s"
      using s1(1) by (simp add: avahi_server_generate_response_def)
    show "quiet_step now s ?s" using quiet_trans [OF s1(2) q] .
    show "all_covered now ?s i (irecord ` set (lunread (srecords s)))" using all_covered_quiet [OF q s1(3)] .
    show "srecords ?s = avahi_record_list_new" by (simp add: record_list_flush_new)
  qed
qed

lemma covered_abs: "rr_abs r = rr_abs r' \<Longrightarrow> covered now s r = covered now s r'"
  by (simp add: covered_def)

text \<open>What an announcement posts: the record of the entry, or the whole set of records with its key.\<close>

definition announced_records :: "server \<Rightarrow> nat \<Rightarrow> entry \<Rightarrow> rr set" where
  "announced_records s i x = (if unique x then answers s i (rkey (erecord x)) else {erecord x})"

lemma announce_records_ok:
  assumes "io_ok s" "index_ready sc s" "normalized now" "rand_ok rnd" "istore s i \<noteq> None" "estore s e = Some x"
    and "lread (srecords s) = []"
  obtains s1 s' where
    "(if unique x then avahi_server_prepare_matching_responses sc s i (rkey (erecord x)) False
      else avahi_server_prepare_response s e False False) = Ret s1"
    "avahi_server_generate_response sc now rnd s1 i None None 0 False False = Ret s'" "quiet_step now s s'"
    "all_covered now s' i (announced_records s i x)" "srecords s' = avahi_record_list_new"
proof -
  have ok: "entries_ok s" using assms(2) by (simp add: index_ready_def)
  then have "sent_name AVAHI_DOMAIN_NAME_MAX (name (rkey (erecord x)))"
    using assms(6) by (simp add: entries_ok_def publishable_def postable_def sent_record_def)
  then obtain s1 where s1: "(if unique x then avahi_server_prepare_matching_responses sc s i (rkey (erecord x)) False
      else avahi_server_prepare_response s e False False) = Ret s1" "pushes now s s1 (announced_records s i x)"
    using prepare_matching_ok [OF assms(1,2), of "rkey (erecord x)" i now] prepare_response_ok [OF assms(1) ok assms(6), of False now]
    unfolding announced_records_def by (cases "unique x") auto
  have q: "quiet_step now s s1" using s1(2) by (simp add: pushes_def)
  have "istore s1 i \<noteq> None" using quiet_istore [OF q] assms(5) by blast
  from generate_response_ok [OF quiet_io [OF q] assms(3,4) this, of sc False] obtain s' where
    s': "avahi_server_generate_response sc now rnd s1 i None None 0 False False = Ret s'" "quiet_step now s1 s'"
      "all_covered now s' i (irecord ` set (lunread (srecords s1)))" "srecords s' = avahi_record_list_new" .
  have "all_covered now s' i (announced_records s i x)" unfolding all_covered_def
  proof (intro allI impI ballI)
    fix y r assume y: "istore s' i = Some y" "announcing y" and r: "r \<in> announced_records s i x"
    from r s1(2) assms(7) obtain it where it: "it \<in> set (lunread (srecords s1))" "rr_abs (irecord it) = rr_abs r"
      by (auto simp: pushes_def in_list_def item_abs_def image_iff)
    with s'(3) y have "covered now (iresponses y) (irecord it)" by (auto simp: all_covered_def)
    with covered_abs [OF it(2)] show "covered now (iresponses y) r" by simp
  qed
  then show thesis by (rule that [OF s1(1) s'(1) quiet_trans [OF q s'(2)] _ s'(4)])
qed

end
