(* ===== verification/Announce_Inv.thy ===== *)
theory Announce_Inv
  imports Publish_Inv Entries
begin

text \<open>
  The invariant of the published records, and that the operations of the announcers and groups keep
  it: no operation fails an assertion or reads what has been freed.
\<close>

section \<open>Announcers by entry and interface\<close>

definition announcer_at :: "server \<Rightarrow> nat \<Rightarrow> nat \<Rightarrow> announcer option" where
  "announcer_at s e i = (case estore s e of None \<Rightarrow> None | Some x \<Rightarrow> get_announcer x i)"

definition put_announcer :: "nat \<Rightarrow> announcer \<Rightarrow> server \<Rightarrow> server" where
  "put_announcer e a s =
     s\<lparr>estore := (estore s)(e := map_option (\<lambda>x.
         x\<lparr>announcers := map (\<lambda>b. if ainterface b = ainterface a then a else b) (announcers x)\<rparr>) (estore s e))\<rparr>"

lemma put_announcer_fields [simp]:
  "entries (put_announcer e a s) = entries s" "entries_by_key (put_announcer e a s) = entries_by_key s"
  "groups (put_announcer e a s) = groups s" "gstore (put_announcer e a s) = gstore s" "interfaces (put_announcer e a s) = interfaces s"
  "istore (put_announcer e a s) = istore s" "srecords (put_announcer e a s) = srecords s" "sjitter (put_announcer e a s) = sjitter s"
  "changes (put_announcer e a s) = changes s" "need_entry_cleanup (put_announcer e a s) = need_entry_cleanup s"
  "need_group_cleanup (put_announcer e a s) = need_group_cleanup s" "cleanup_time_event (put_announcer e a s) = cleanup_time_event s"
  by (simp_all add: put_announcer_def)

lemma set_announcer_put: "estore s e \<noteq> None \<Longrightarrow> set_announcer e a s = Ret (put_announcer e a s)"
  by (cases "estore s e") (simp_all add: set_announcer_def get_entry_def put_announcer_def set_entry_def)

lemma get_announcer_at: "announcer_at s e i = Some a \<Longrightarrow> get_announcer_of s e i = Ret a"
  by (auto simp: announcer_at_def get_announcer_of_def get_entry_def split: option.splits)

lemma announcer_at_entry: "announcer_at s e i = Some a \<Longrightarrow> \<exists>x. estore s e = Some x \<and> get_announcer x i = Some a"
  by (auto simp: announcer_at_def split: option.splits)

lemma get_announcer_Some: "get_announcer x i = Some a \<Longrightarrow> a \<in> set (announcers x) \<and> ainterface a = i"
  by (auto simp: get_announcer_def find_Some_iff)

lemma get_announcer_mem:
  "distinct (map ainterface (announcers x)) \<Longrightarrow> a \<in> set (announcers x) \<Longrightarrow> get_announcer x (ainterface a) = Some a"
proof -
  have "distinct (map ainterface as) \<Longrightarrow> a \<in> set as \<Longrightarrow> find (\<lambda>b. ainterface b = ainterface a) as = Some a" for as
    by (induction as) (auto simp: image_iff)
  then show "distinct (map ainterface (announcers x)) \<Longrightarrow> a \<in> set (announcers x) \<Longrightarrow> get_announcer x (ainterface a) = Some a"
    by (simp add: get_announcer_def)
qed

lemma find_replace:
  "find (\<lambda>b. ainterface b = i) (map (\<lambda>b. if ainterface b = ainterface a then a else b) as) =
   (case find (\<lambda>b. ainterface b = i) as of None \<Rightarrow> None | Some b \<Rightarrow> Some (if i = ainterface a then a else b))"
  by (induction as) auto

lemma announcer_at_put:
  "announcer_at (put_announcer e a s) e' i =
   (case announcer_at s e' i of None \<Rightarrow> None | Some b \<Rightarrow> Some (if e' = e \<and> i = ainterface a then a else b))"
  by (auto simp: announcer_at_def put_announcer_def get_announcer_def find_replace split: option.splits)

lemma put_put [simp]: "ainterface b = ainterface a \<Longrightarrow> put_announcer e b (put_announcer e a s) = put_announcer e b s"
proof -
  assume "ainterface b = ainterface a"
  then have "(\<lambda>c. if ainterface c = ainterface b then b else c) \<circ> (\<lambda>c. if ainterface c = ainterface a then a else c) =
      (\<lambda>c. if ainterface c = ainterface b then b else c)" by (intro ext) simp
  then show ?thesis by (cases "estore s e") (simp_all add: put_announcer_def)
qed

text \<open>An entry without its announcers.\<close>

definition bare :: "entry \<Rightarrow> entry" where
  "bare x = x\<lparr>announcers := []\<rparr>"

lemma bare_simps [simp]:
  "egroup (bare x) = egroup x" "edead (bare x) = edead x" "eflags (bare x) = eflags x" "erecord (bare x) = erecord x"
  "einterface (bare x) = einterface x" "eprotocol (bare x) = eprotocol x"
  by (simp_all add: bare_def)

lemma bare_put: "map_option bare (estore (put_announcer e a s) e') = map_option bare (estore s e')"
  by (cases "estore s e'") (auto simp: put_announcer_def bare_def)

section \<open>Counting\<close>

definition probing_in :: "announcer list \<Rightarrow> nat" where
  "probing_in as = length (filter (\<lambda>a. astate a = AVAHI_PROBING) as)"

definition probing_of :: "server \<Rightarrow> nat \<Rightarrow> nat" where
  "probing_of s e = (case estore s e of None \<Rightarrow> 0 | Some x \<Rightarrow> probing_in (announcers x))"

lemma probing_in_replace:
  assumes "distinct (map ainterface as)" "find (\<lambda>b. ainterface b = ainterface a) as = Some b"
  shows "probing_in (map (\<lambda>b. if ainterface b = ainterface a then a else b) as) + (if astate b = AVAHI_PROBING then 1 else 0) =
    probing_in as + (if astate a = AVAHI_PROBING then 1 else 0)"
  using assms
proof (induction as)
  case (Cons c as)
  show ?case
  proof (cases "ainterface c = ainterface a")
    case True
    with Cons.prems have "map (\<lambda>b. if ainterface b = ainterface a then a else b) as = as"
      by (intro map_idI) (auto simp: image_iff)
    with True Cons.prems show ?thesis by (auto simp: probing_in_def)
  next
    case False
    with Cons show ?thesis by (auto simp: probing_in_def)
  qed
qed simp

lemma probing_of_put:
  assumes "announcer_at s e (ainterface a) = Some b" "\<forall>x. estore s e = Some x \<longrightarrow> distinct (map ainterface (announcers x))"
  shows "probing_of (put_announcer e a s) e' + (if e' = e \<and> astate b = AVAHI_PROBING then 1 else 0) =
    probing_of s e' + (if e' = e \<and> astate a = AVAHI_PROBING then 1 else 0)"
proof (cases "e' = e")
  case True
  from announcer_at_entry [OF assms(1)] obtain x where x: "estore s e = Some x" "get_announcer x (ainterface a) = Some b" by blast
  with assms(2) probing_in_replace [of "announcers x" a b] True show ?thesis
    by (auto simp: probing_of_def put_announcer_def get_announcer_def)
next
  case False
  then show ?thesis by (simp add: probing_of_def put_announcer_def)
qed

section \<open>The invariant\<close>

definition entry_ok :: "server \<Rightarrow> entry \<Rightarrow> bool" where
  "entry_ok s x \<longleftrightarrow> distinct (map ainterface (announcers x)) \<and> (edead x \<longrightarrow> announcers x = []) \<and>
     (\<forall>g. egroup x = Some g \<longrightarrow> gstore s g \<noteq> None)"

definition group_ok :: "nat set \<Rightarrow> server \<Rightarrow> nat \<Rightarrow> group \<Rightarrow> bool" where
  "group_ok L s g y \<longleftrightarrow> distinct (gentries y) \<and>
     (\<forall>e. e \<in> set (gentries y) \<longleftrightarrow> (\<exists>x. estore s e = Some x \<and> egroup x = Some g)) \<and>
     gstate y \<noteq> AVAHI_ENTRY_GROUP_FAILURE \<and>
     (register_time_event y \<noteq> None \<longrightarrow> gstate y = AVAHI_ENTRY_GROUP_REGISTERING) \<and> normalized (register_time y) \<and>
     (gdead y \<longrightarrow> (\<forall>e x. estore s e = Some x \<longrightarrow> egroup x = Some g \<longrightarrow> edead x)) \<and>
     (g \<in> L \<longrightarrow> gstate y = AVAHI_ENTRY_GROUP_REGISTERING \<and> \<not> gdead y) \<and>
     (\<Sum>e \<in> set (gentries y). probing_of s e) + (if g \<in> L then 1 else 0) \<le> n_probing y"

text \<open>The state of the group an entry is in, if it is in one.\<close>

definition state_of_group :: "server \<Rightarrow> nat \<Rightarrow> entry_group_state option" where
  "state_of_group s e =
     (case estore s e of None \<Rightarrow> None | Some x \<Rightarrow> (case egroup x of None \<Rightarrow> None | Some g \<Rightarrow> map_option gstate (gstore s g)))"

definition group_allows :: "entry_group_state option \<Rightarrow> announcer_state \<Rightarrow> bool" where
  "group_allows gs st \<longleftrightarrow>
     (case gs of
        None \<Rightarrow> st \<noteq> AVAHI_WAITING
      | Some AVAHI_ENTRY_GROUP_REGISTERING \<Rightarrow> True
      | Some AVAHI_ENTRY_GROUP_ESTABLISHED \<Rightarrow> st \<noteq> AVAHI_WAITING
      | _ \<Rightarrow> False)"

definition delay_ok :: "announcer \<Rightarrow> bool" where
  "delay_ok a \<longleftrightarrow> 1 \<le> sec_delay a \<and>
     (case astate a of
        AVAHI_PROBING \<Rightarrow> 1 \<le> n_iteration a \<and> n_iteration a \<le> 4 \<and> sec_delay a = 1
      | AVAHI_WAITING \<Rightarrow> sec_delay a = 1
      | AVAHI_ANNOUNCING \<Rightarrow> n_iteration a \<le> 3 \<and> sec_delay a \<le> 2 ^ n_iteration a
      | AVAHI_ESTABLISHED \<Rightarrow> True)"

definition announcer_ok :: "entry_group_state option \<Rightarrow> announcer \<Rightarrow> bool" where
  "announcer_ok gs a \<longleftrightarrow> group_allows gs (astate a) \<and> delay_ok a \<and>
     (atime_event a = None \<longleftrightarrow> astate a = AVAHI_WAITING \<or> astate a = AVAHI_ESTABLISHED) \<and>
     (\<forall>tv. atime_event a = Some tv \<longrightarrow> normalized tv)"

text \<open>
  The announcers in \<open>P\<close> are still to be dealt with. The groups in \<open>L\<close> count an announcer that probes which
  they have no more.
\<close>

definition zone_ok :: "nat set \<Rightarrow> bool \<Rightarrow> (nat \<times> nat) set \<Rightarrow> server \<Rightarrow> bool" where
  "zone_ok L sc P s \<longleftrightarrow> index_ready sc s \<and> distinct (groups s) \<and> L \<subseteq> set (groups s) \<and> (\<forall>g. gstore s g \<noteq> None \<longleftrightarrow> g \<in> set (groups s)) \<and>
     (\<forall>e x. estore s e = Some x \<longrightarrow> entry_ok s x) \<and> (\<forall>g y. gstore s g = Some y \<longrightarrow> group_ok L s g y) \<and>
     (\<forall>e i a. announcer_at s e i = Some a \<longrightarrow> istore s i \<noteq> None \<and> ((e, i) \<notin> P \<longrightarrow> announcer_ok (state_of_group s e) a))"

definition server_inv :: "nat set \<Rightarrow> bool \<Rightarrow> server \<Rightarrow> bool" where
  "server_inv L sc s \<longleftrightarrow> zone_ok L sc {} s \<and> io_ok s \<and> lread (srecords s) = []"

section \<open>What keeps the invariant\<close>

lemma zone_entry: "zone_ok L sc P s \<Longrightarrow> estore s e = Some x \<Longrightarrow> entry_ok s x \<and> publishable (erecord x)"
  by (auto simp: zone_ok_def index_ready_def entries_ok_def)

lemma zone_group: "zone_ok L sc P s \<Longrightarrow> gstore s g = Some y \<Longrightarrow> group_ok L s g y"
  by (simp add: zone_ok_def)

lemma zone_announcer:
  "zone_ok L sc P s \<Longrightarrow> announcer_at s e i = Some a \<Longrightarrow> istore s i \<noteq> None \<and> ((e, i) \<notin> P \<longrightarrow> announcer_ok (state_of_group s e) a)"
  by (simp add: zone_ok_def)

lemma zone_index: "zone_ok L sc P s \<Longrightarrow> index_ready sc s"
  by (simp add: zone_ok_def)

lemma zone_mono: "zone_ok L sc P s \<Longrightarrow> P \<subseteq> P' \<Longrightarrow> zone_ok L sc P' s"
  unfolding zone_ok_def by blast

text \<open>The invariant depends on the entries and groups and on which interfaces there are.\<close>

lemma zone_cong:
  assumes "zone_ok L sc P s" "entries s' = entries s" "estore s' = estore s" "entries_by_key s' = entries_by_key s"
    "groups s' = groups s" "gstore s' = gstore s" "\<forall>i. istore s' i = None \<longleftrightarrow> istore s i = None"
  shows "zone_ok L sc P s'"
proof -
  have "index_ready sc s' = index_ready sc s" by (simp add: index_ready_def entries_ok_def zone_keys_def [abs_def] assms(2-4))
  moreover have "entry_ok s' x = entry_ok s x" "group_ok L s' g y = group_ok L s g y" "announcer_at s' e i = announcer_at s e i"
    "state_of_group s' e = state_of_group s e" for x g y e i
    by (simp_all add: entry_ok_def group_ok_def announcer_at_def state_of_group_def probing_of_def [abs_def] assms(3,6) cong: option.case_cong)
  ultimately show ?thesis using assms(1,2,3,5,6,7) unfolding zone_ok_def by simp
qed

lemma zone_quiet:
  assumes "quiet_step now s s'" "zone_ok L sc P s"
  shows "zone_ok L sc P s'"
  by (rule zone_cong [OF assms(2)]) (use quiet_zone [OF assms(1)] quiet_istore [OF assms(1)] in blast)+

lemma quiet_announcer:
  assumes "quiet_step now s s'"
  shows "announcer_at s' e i = announcer_at s e i" "state_of_group s' e = state_of_group s e" "probing_of s' e = probing_of s e"
  by (simp_all add: announcer_at_def state_of_group_def probing_of_def quiet_zone [OF assms] cong: option.case_cong)

text \<open>
  An announcer changes and, when it is the last step of a change of its group's count, that count
  has room for it.
\<close>

definition probing_sum :: "server \<Rightarrow> nat \<Rightarrow> nat" where
  "probing_sum s g = (case gstore s g of None \<Rightarrow> 0 | Some y \<Rightarrow> \<Sum>e \<in> set (gentries y). probing_of s e)"

lemma state_of_group_put [simp]: "state_of_group (put_announcer e a s) e' = state_of_group s e'"
  using bare_put [of e a s e'] by (cases "estore s e'") (auto simp: state_of_group_def put_announcer_def cong: option.case_cong)

lemma index_ready_put: "index_ready sc s \<Longrightarrow> index_ready sc (put_announcer e a s)"
proof -
  assume ok: "index_ready sc s"
  have "zone_keys (put_announcer e a s) = zone_keys s" by (auto simp: zone_keys_def put_announcer_def fun_eq_iff option.map_comp o_def)
  moreover have "estore (put_announcer e a s) e' \<noteq> None \<longleftrightarrow> estore s e' \<noteq> None" for e' by (simp add: put_announcer_def)
  moreover have "entries_ok (put_announcer e a s)" using ok by (auto simp: index_ready_def entries_ok_def put_announcer_def split: if_splits)
  ultimately show ?thesis using ok by (simp add: index_ready_def)
qed

lemma probing_sum_put:
  assumes "zone_ok L sc P s" "announcer_at s e (ainterface a) = Some b" "gstore s g = Some y"
  shows "(\<Sum>e' \<in> set (gentries y). probing_of (put_announcer e a s) e') + (if e \<in> set (gentries y) \<and> astate b = AVAHI_PROBING then 1 else 0) =
    (\<Sum>e' \<in> set (gentries y). probing_of s e') + (if e \<in> set (gentries y) \<and> astate a = AVAHI_PROBING then 1 else 0)"
proof -
  have d: "\<forall>x. estore s e = Some x \<longrightarrow> distinct (map ainterface (announcers x))" using assms(1) by (auto simp: zone_ok_def entry_ok_def)
  note p = probing_of_put [OF assms(2) d]
  show ?thesis
  proof (cases "e \<in> set (gentries y)")
    case True
    have "probing_of (put_announcer e a s) e' = probing_of s e'" if "e' \<noteq> e" for e' using p [of e'] that by simp
    then have "(\<Sum>e' \<in> set (gentries y) - {e}. probing_of (put_announcer e a s) e') = (\<Sum>e' \<in> set (gentries y) - {e}. probing_of s e')"
      by (intro sum.cong) simp_all
    with p [of e] True show ?thesis
      by (simp add: sum.remove [of "set (gentries y)" e] split: if_splits)
  next
    case False
    have "(\<Sum>e' \<in> set (gentries y). probing_of (put_announcer e a s) e') = (\<Sum>e' \<in> set (gentries y). probing_of s e')"
    proof (rule sum.cong)
      fix e' assume "e' \<in> set (gentries y)"
      with False have "e' \<noteq> e" by auto
      with p [of e'] show "probing_of (put_announcer e a s) e' = probing_of s e'" by simp
    qed simp
    with False show ?thesis by simp
  qed
qed

text \<open>The count of the group of entry \<open>e\<close> changes.\<close>

definition adjust :: "(nat \<Rightarrow> nat) \<Rightarrow> nat \<Rightarrow> server \<Rightarrow> server" where
  "adjust f e s =
     (case estore s e of
        None \<Rightarrow> s
      | Some x \<Rightarrow>
          (case egroup x of
             None \<Rightarrow> s
           | Some g \<Rightarrow> (case gstore s g of None \<Rightarrow> s | Some y \<Rightarrow> set_group g (y\<lparr>n_probing := f (n_probing y)\<rparr>) s)))"

lemma adjust_fields [simp]:
  "entries (adjust f e s) = entries s" "entries_by_key (adjust f e s) = entries_by_key s" "estore (adjust f e s) = estore s"
  "groups (adjust f e s) = groups s" "interfaces (adjust f e s) = interfaces s" "istore (adjust f e s) = istore s"
  "srecords (adjust f e s) = srecords s" "sjitter (adjust f e s) = sjitter s" "changes (adjust f e s) = changes s"
  "need_entry_cleanup (adjust f e s) = need_entry_cleanup s"
  "need_group_cleanup (adjust f e s) = need_group_cleanup s" "cleanup_time_event (adjust f e s) = cleanup_time_event s"
  by (simp_all add: adjust_def set_group_def split: option.splits)

lemma adjust_gstore:
  "gstore (adjust f e s) g = (case gstore s g of None \<Rightarrow> None
     | Some y \<Rightarrow> Some (if \<exists>x. estore s e = Some x \<and> egroup x = Some g then y\<lparr>n_probing := f (n_probing y)\<rparr> else y))"
  by (auto simp: adjust_def set_group_def split: option.splits)

lemma adjust_id: "adjust (\<lambda>n. n) e s = s"
  by (auto simp: adjust_def set_group_def fun_upd_idem split: option.splits)

lemma adjust_adjust: "adjust f e (adjust f' e s) = adjust (\<lambda>n. f (f' n)) e s"
  by (auto simp: adjust_def set_group_def split: option.splits)

lemma adjust_reads [simp]:
  "announcer_at (adjust f e s) e' i = announcer_at s e' i" "probing_of (adjust f e s) e' = probing_of s e'"
  "state_of_group (adjust f e s) e' = state_of_group s e'" "get_entry (adjust f e s) e' = get_entry s e'"
  by (auto simp: announcer_at_def probing_of_def state_of_group_def get_entry_def adjust_gstore split: option.splits)

text \<open>Each change of an announcer is of this form.\<close>

lemma zone_adjust_put:
  assumes zone: "zone_ok L sc P s" and b: "announcer_at s e (ainterface a) = Some b"
    and ok: "(e, ainterface a) \<notin> P' \<Longrightarrow> announcer_ok (state_of_group s e) a" and P: "P \<subseteq> insert (e, ainterface a) P'"
    and count: "\<And>x g y. estore s e = Some x \<Longrightarrow> egroup x = Some g \<Longrightarrow> gstore s g = Some y \<Longrightarrow>
      (\<Sum>e \<in> set (gentries y). probing_of s e) + (if g \<in> L then 1 else 0) + (if astate a = AVAHI_PROBING then 1 else 0) \<le>
      f (n_probing y) + (if astate b = AVAHI_PROBING then 1 else 0)"
  shows "zone_ok L sc P' (put_announcer e a (adjust f e s))"
proof -
  let ?s = "put_announcer e a (adjust f e s)"
  from announcer_at_entry [OF b] obtain x where x: "estore s e = Some x" "get_announcer x (ainterface a) = Some b" by blast
  have put: "put_announcer e a (adjust f e s) = (put_announcer e a s)\<lparr>gstore := gstore (adjust f e s)\<rparr>"
    by (auto simp: put_announcer_def adjust_def set_group_def split: option.splits)
  have estore: "estore ?s = estore (put_announcer e a s)" by (simp add: put)
  have "index_ready sc ?s" using index_ready_put [OF zone_index [OF zone], of e a]
    by (simp add: index_ready_def zone_keys_def [abs_def] entries_ok_def estore)
  moreover have "entry_ok ?s x'" if "estore ?s e' = Some x'" for e' x'
  proof -
    from that obtain x0 where x0: "estore s e' = Some x0" "bare x' = bare x0"
      "announcers x' = (if e' = e then map (\<lambda>b. if ainterface b = ainterface a then a else b) (announcers x0) else announcers x0)"
      by (auto simp: put_announcer_def bare_def split: if_splits)
    have ok: "entry_ok s x0" using zone_entry [OF zone x0(1)] by simp
    have "map ainterface (announcers x') = map ainterface (announcers x0)" using x0(3) by (auto simp: comp_def)
    moreover have "edead x' = edead x0" "egroup x' = egroup x0" using arg_cong [OF x0(2), of edead] arg_cong [OF x0(2), of egroup] by simp_all
    moreover have "gstore ?s g = None \<longleftrightarrow> gstore s g = None" for g by (simp add: adjust_gstore split: option.splits)
    ultimately show ?thesis using ok x0(3) by (auto simp: entry_ok_def)
  qed
  moreover have "group_ok L ?s g y'" if y': "gstore ?s g = Some y'" for g y'
  proof -
    from y' obtain y where y: "gstore s g = Some y" "y' = (if egroup x = Some g then y\<lparr>n_probing := f (n_probing y)\<rparr> else y)"
      using x(1) by (auto simp: adjust_gstore split: option.splits)
    have g: "group_ok L s g y" using zone_group [OF zone y(1)] .
    have mem: "(\<exists>x. estore ?s e' = Some x \<and> egroup x = Some g) \<longleftrightarrow> (\<exists>x. estore s e' = Some x \<and> egroup x = Some g)" for e'
      using bare_put [of e a s e'] by (cases "estore s e'") (auto simp: put_announcer_def split: if_splits)
    have dead: "(\<forall>e' x. estore ?s e' = Some x \<longrightarrow> egroup x = Some g \<longrightarrow> edead x) \<longleftrightarrow>
        (\<forall>e' x. estore s e' = Some x \<longrightarrow> egroup x = Some g \<longrightarrow> edead x)"
      by (auto simp: put_announcer_def split: if_splits)
    have e_mem: "e \<in> set (gentries y) \<longleftrightarrow> egroup x = Some g" using g x(1) by (auto simp: group_ok_def)
    have "probing_of ?s = probing_of (put_announcer e a s)" by (rule ext) (simp add: probing_of_def estore)
    with probing_sum_put [OF zone b y(1)] e_mem count [OF x(1) _ y(1)] g y(2)
    have "(\<Sum>e' \<in> set (gentries y'). probing_of ?s e') + (if g \<in> L then 1 else 0) \<le> n_probing y'" by (auto simp: group_ok_def split: if_splits)
    with g y(2) mem dead show ?thesis unfolding group_ok_def by (simp split: if_splits)
  qed
  moreover have "istore ?s i' \<noteq> None \<and> ((e', i') \<notin> P' \<longrightarrow> announcer_ok (state_of_group ?s e') a')" if a': "announcer_at ?s e' i' = Some a'" for e' i' a'
  proof -
    from a' obtain b' where b': "announcer_at s e' i' = Some b'" "a' = (if e' = e \<and> i' = ainterface a then a else b')"
      by (auto simp: announcer_at_put split: option.splits)
    with zone_announcer [OF zone b'(1)] ok P show ?thesis by (cases "e' = e \<and> i' = ainterface a") auto
  qed
  moreover have "gstore ?s g = None \<longleftrightarrow> gstore s g = None" for g by (simp add: adjust_gstore split: option.splits)
  then have "gstore ?s g \<noteq> None \<longleftrightarrow> g \<in> set (groups ?s)" for g using zone by (simp add: zone_ok_def)
  ultimately show ?thesis using zone unfolding zone_ok_def by simp
qed

lemma zone_put:
  assumes "zone_ok L sc P s" "announcer_at s e (ainterface a) = Some b"
    and "(e, ainterface a) \<notin> P' \<Longrightarrow> announcer_ok (state_of_group s e) a" "P \<subseteq> insert (e, ainterface a) P'"
    and "astate a = AVAHI_PROBING \<Longrightarrow> astate b = AVAHI_PROBING"
  shows "zone_ok L sc P' (put_announcer e a s)"
proof -
  have "(\<Sum>e \<in> set (gentries y). probing_of s e) + (if g \<in> L then 1 else 0) \<le> n_probing y" if "gstore s g = Some y" for g y
    using zone_group [OF assms(1) that] by (simp add: group_ok_def)
  with zone_adjust_put [OF assms(1-4), of "\<lambda>n. n"] assms(5) show ?thesis by (fastforce simp: adjust_id)
qed

section \<open>Announcing\<close>

text \<open>A state apart from announcers, groups and the schedules of the interfaces.\<close>

definition same_entries :: "timeval \<Rightarrow> server \<Rightarrow> server \<Rightarrow> bool" where
  "same_entries now s s' \<longleftrightarrow> entries s' = entries s \<and> entries_by_key s' = entries_by_key s \<and> groups s' = groups s \<and>
     interfaces s' = interfaces s \<and> (\<forall>e. map_option bare (estore s' e) = map_option bare (estore s e)) \<and>
     need_entry_cleanup s' = need_entry_cleanup s \<and> need_group_cleanup s' = need_group_cleanup s \<and>
     cleanup_time_event s' = cleanup_time_event s \<and> (\<forall>i rs. all_covered now s i rs \<longrightarrow> all_covered now s' i rs) \<and>
     (\<forall>i. map_option (\<lambda>y. (announcing y, hw_index y, iprotocol y)) (istore s' i) =
        map_option (\<lambda>y. (announcing y, hw_index y, iprotocol y)) (istore s i))"

lemma same_entries_refl: "same_entries now s s"
  by (simp add: same_entries_def)

lemma same_entries_trans: "same_entries now s s' \<Longrightarrow> same_entries now s' s'' \<Longrightarrow> same_entries now s s''"
  by (simp add: same_entries_def)

lemma quiet_same_entries:
  assumes "quiet_step now s s'"
  shows "same_entries now s s'"
proof -
  have "map_option (\<lambda>y. (announcing y, hw_index y, iprotocol y)) (istore s' i) =
      map_option (\<lambda>y. (announcing y, hw_index y, iprotocol y)) (istore s i)" for i
    using assms by (cases "istore s i"; cases "istore s' i") (auto simp: quiet_step_def iface_moves_def dest: spec [where x = i])
  then show ?thesis using all_covered_quiet [OF assms] by (simp add: same_entries_def quiet_zone [OF assms])
qed

lemma put_same_entries: "same_entries now s (put_announcer e a s)"
  by (simp add: same_entries_def bare_put all_covered_def)

lemma adjust_same_entries: "same_entries now s (adjust f e s)"
  by (simp add: same_entries_def all_covered_def)

lemma io_put: "io_ok s \<Longrightarrow> io_ok (put_announcer e a s)"
  by (simp add: io_ok_def)

lemma io_adjust: "io_ok s \<Longrightarrow> io_ok (adjust f e s)"
  by (simp add: io_ok_def)

text \<open>What an announcement makes of the announcer.\<close>

definition announced :: "timeval \<Rightarrow> announcer \<Rightarrow> announcer \<Rightarrow> bool" where
  "announced now a a' \<longleftrightarrow> ainterface a' = ainterface a \<and> n_iteration a' = n_iteration a + 1 \<and>
     (if 3 \<le> n_iteration a then astate a' = AVAHI_ESTABLISHED \<and> atime_event a' = None \<and> sec_delay a' = sec_delay a
      else astate a' = AVAHI_ANNOUNCING \<and> sec_delay a' = 2 * sec_delay a \<and>
        (\<exists>tv. atime_event a' = Some tv \<and> normalized tv \<and> usec_of now + int (sec_delay a) * 1000000 \<le> usec_of tv \<and>
           usec_of tv \<le> usec_of now + int (sec_delay a) * 1000000 + 250000))"

lemma announced_ok:
  assumes "announced now a a'" "astate a = AVAHI_ANNOUNCING" "delay_ok a" "group_allows gs AVAHI_ANNOUNCING"
  shows "announcer_ok gs a'" "astate a' \<noteq> AVAHI_PROBING" "astate a' \<noteq> AVAHI_WAITING"
proof -
  have "group_allows gs AVAHI_ESTABLISHED" using assms(4) by (auto simp: group_allows_def split: option.splits entry_group_state.splits)
  with assms show "announcer_ok gs a'" "astate a' \<noteq> AVAHI_PROBING" "astate a' \<noteq> AVAHI_WAITING"
    by (auto simp: announced_def announcer_ok_def delay_ok_def split: if_splits)
qed

lemma announce_next_ok:
  assumes zone: "zone_ok L sc P s" and io: "io_ok s" "lread (srecords s) = []" and now: "normalized now" "rand_ok rnd"
    and x: "estore s e = Some x" and a: "announcer_at s e i = Some a" "astate a = AVAHI_ANNOUNCING" "delay_ok a"
    and gs: "group_allows (state_of_group s e) AVAHI_ANNOUNCING" and P: "P \<subseteq> insert (e, i) P'"
  shows "\<exists>s' a'. announce_next sc now rnd e i s = Ret s' \<and> zone_ok L sc P' s' \<and> io_ok s' \<and> lread (srecords s') = [] \<and>
    same_entries now s s' \<and> gstore s' = gstore s \<and> changes s' = changes s \<and> announced now a a' \<and>
    (\<forall>e' i'. announcer_at s' e' i' = (if e' = e \<and> i' = i then Some a' else announcer_at s e' i')) \<and>
    all_covered now s' i (announced_records s i x)"
proof -
  have i: "istore s i \<noteq> None" "ainterface a = i"
    using zone_announcer [OF zone a(1)] announcer_at_entry [OF a(1)] get_announcer_Some by auto
  from announce_records_ok [OF io(1) zone_index [OF zone] now i(1) x io(2)] obtain s1 s2 where
    s2: "(if unique x then avahi_server_prepare_matching_responses sc s i (rkey (erecord x)) False
      else avahi_server_prepare_response s e False False) = Ret s1"
      "avahi_server_generate_response sc now rnd s1 i None None 0 False False = Ret s2" "quiet_step now s s2"
      "all_covered now s2 i (announced_records s i x)" "srecords s2 = avahi_record_list_new" .
  note q = quiet_zone [OF s2(3)] quiet_announcer [OF s2(3)]
  have at: "get_announcer_of s2 e i = Ret a" using a(1) by (intro get_announcer_at) (simp add: q)
  let ?a = "a\<lparr>n_iteration := n_iteration a + 1\<rparr>"
  obtain s3 a' where s3: "quiet_step now s2 s3" "srecords s3 = srecords s2" "announced now a a'"
    "announce_next sc now rnd e i s = set_announcer e a' s3"
  proof (cases "3 \<le> n_iteration a")
    case True
    let ?a' = "?a\<lparr>astate := AVAHI_ESTABLISHED, atime_event := None\<rparr>"
    have "announced now a ?a'" using True by (simp add: announced_def)
    moreover have "announce_next sc now rnd e i s = set_announcer e ?a' s2"
      using x s2(1,2) at True by (simp add: announce_next_def get_entry_def)
    ultimately show thesis using that quiet_refl [OF quiet_io [OF s2(3)]] by blast
  next
    case False
    obtain s3 tv where tv: "server_elapse_time now rnd s2 (int (sec_delay a) * 1000) AVAHI_ANNOUNCEMENT_JITTER_MSEC = (s3, tv)"
      "quiet_step now s2 s3" "normalized tv" "usec_of now + int (sec_delay a) * 1000 * 1000 \<le> usec_of tv"
      "usec_of tv \<le> usec_of now + (int (sec_delay a) * 1000 + AVAHI_ANNOUNCEMENT_JITTER_MSEC) * 1000"
      by (rule server_elapse_ok [OF quiet_io [OF s2(3)] now, of "int (sec_delay a) * 1000" AVAHI_ANNOUNCEMENT_JITTER_MSEC])
        (simp_all add: AVAHI_ANNOUNCEMENT_JITTER_MSEC_def)
    let ?a' = "?a\<lparr>sec_delay := sec_delay a * 2, atime_event := Some tv\<rparr>"
    have "announced now a ?a'" using False tv(3-5) a(2) by (simp add: announced_def AVAHI_ANNOUNCEMENT_JITTER_MSEC_def)
    moreover have "srecords s3 = srecords s2" using tv(1) by (auto simp: server_elapse_time_def split: prod.splits)
    moreover have "announce_next sc now rnd e i s = set_announcer e ?a' s3"
      using x s2(1,2) at False tv(1) by (simp add: announce_next_def get_entry_def)
    ultimately show thesis using that tv(2) by blast
  qed
  have q3: "quiet_step now s s3" using quiet_trans [OF s2(3) s3(1)] .
  note q' = quiet_zone [OF q3] quiet_announcer [OF q3]
  have ai: "ainterface a' = i" using s3(3) i(2) by (simp add: announced_def)
  note a' = announced_ok [OF s3(3) a(2,3) gs]
  have "announce_next sc now rnd e i s = Ret (put_announcer e a' s3)" unfolding s3(4) by (rule set_announcer_put) (simp add: q' x)
  moreover have "zone_ok L sc P' (put_announcer e a' s3)"
    by (rule zone_put [OF zone_quiet [OF q3 zone], where b = a]) (use a(1) a' ai P in \<open>simp_all add: q'\<close>)
  moreover have "same_entries now s (put_announcer e a' s3)" using same_entries_trans [OF quiet_same_entries [OF q3] put_same_entries] .
  moreover have "announcer_at (put_announcer e a' s3) e' i' = (if e' = e \<and> i' = i then Some a' else announcer_at s e' i')" for e' i'
    using a(1) ai by (auto simp: announcer_at_put q' split: option.splits)
  moreover have "all_covered now (put_announcer e a' s3) i (announced_records s i x)"
    using all_covered_quiet [OF s3(1) s2(4)] by (simp add: all_covered_def)
  ultimately show ?thesis using io_put [OF quiet_io [OF q3]] s2(5) s3(2,3)
    by (intro exI [of _ "put_announcer e a' s3"] exI [of _ a']) (simp add: q' avahi_record_list_new_def)
qed

text \<open>What becomes of the announcers of a group that is established.\<close>

definition woken :: "timeval \<Rightarrow> bool \<Rightarrow> announcer \<Rightarrow> announcer \<Rightarrow> bool" where
  "woken now immediately a a' \<longleftrightarrow>
     (if astate a \<noteq> AVAHI_WAITING then a' = a
      else if immediately then announced now (a\<lparr>astate := AVAHI_ANNOUNCING, n_iteration := 1\<rparr>) a'
      else \<exists>tv. a' = a\<lparr>astate := AVAHI_ANNOUNCING, n_iteration := 0, atime_event := Some tv\<rparr> \<and> normalized tv \<and>
        usec_of now \<le> usec_of tv \<and> usec_of tv \<le> usec_of now + 250000)"

definition waits :: "server \<Rightarrow> nat \<times> nat \<Rightarrow> bool" where
  "waits s p \<longleftrightarrow> (\<exists>a. announcer_at s (fst p) (snd p) = Some a \<and> state_of_group s (fst p) = Some AVAHI_ENTRY_GROUP_ESTABLISHED \<and>
     (if astate a = AVAHI_WAITING then sec_delay a = 1 else announcer_ok (Some AVAHI_ENTRY_GROUP_ESTABLISHED) a))"

lemma bare_entry:
  assumes "map_option bare (estore s' e) = map_option bare (estore s e)" "estore s e = Some x"
  obtains x' where "estore s' e = Some x'" "egroup x' = egroup x" "edead x' = edead x" "eflags x' = eflags x" "erecord x' = erecord x"
    "einterface x' = einterface x" "eprotocol x' = eprotocol x"
proof -
  from assms obtain x' where x': "estore s' e = Some x'" "bare x' = bare x" by (cases "estore s' e") auto
  show thesis
    by (rule that [OF x'(1)]) (use x'(2) in \<open>auto dest: arg_cong [where f = egroup] arg_cong [where f = edead] arg_cong [where f = eflags]
      arg_cong [where f = erecord] arg_cong [where f = einterface] arg_cong [where f = eprotocol]\<close>)
qed

lemma state_of_group_bare:
  assumes "map_option bare (estore s' e) = map_option bare (estore s e)" "gstore s' = gstore s"
  shows "state_of_group s' e = state_of_group s e"
proof (cases "estore s e")
  case None
  with assms(1) show ?thesis by (simp add: state_of_group_def)
next
  case (Some x)
  from bare_entry [OF assms(1) Some] obtain x' where "estore s' e = Some x'" "egroup x' = egroup x" .
  with Some assms(2) show ?thesis by (simp add: state_of_group_def cong: option.case_cong)
qed

lemma zone_shrink:
  assumes "zone_ok L sc P s" "P \<subseteq> insert (e, i) P'" "announcer_at s e i = Some a" "announcer_ok (state_of_group s e) a"
  shows "zone_ok L sc P' s"
proof -
  have "announcer_ok (state_of_group s e') a'" if "announcer_at s e' i' = Some a'" "(e', i') \<notin> P'" for e' i' a'
    using zone_announcer [OF assms(1) that(1)] assms(2-4) that by (cases "(e', i') = (e, i)") auto
  with assms(1) show ?thesis unfolding zone_ok_def by blast
qed

lemma wake_one:
  assumes zone: "zone_ok L sc (set (p # ps)) s" and io: "io_ok s" "lread (srecords s) = []" and now: "normalized now" "rand_ok rnd"
    and w: "waits s p" and p: "p = (e, i)"
  shows "\<exists>s' a a'. res_bind (get_announcer_of s e i) (\<lambda>a.
       if astate a \<noteq> AVAHI_WAITING then Ret s
       else if imm then
         res_bind (set_announcer e (a\<lparr>astate := AVAHI_ANNOUNCING, n_iteration := 1\<rparr>) s) (announce_next sc now rnd e i)
       else
         let (s, tv) = server_elapse_time now rnd s 0 AVAHI_ANNOUNCEMENT_JITTER_MSEC
         in set_announcer e (a\<lparr>astate := AVAHI_ANNOUNCING, n_iteration := 0, atime_event := Some tv\<rparr>) s) = Ret s' \<and>
    zone_ok L sc (set ps) s' \<and> io_ok s' \<and> lread (srecords s') = [] \<and> same_entries now s s' \<and> gstore s' = gstore s \<and> changes s' = changes s \<and>
    announcer_at s e i = Some a \<and> woken now imm a a' \<and>
    (\<forall>e' i'. announcer_at s' e' i' = (if e' = e \<and> i' = i then Some a' else announcer_at s e' i'))"
proof -
  from w p obtain a where a: "announcer_at s e i = Some a" "state_of_group s e = Some AVAHI_ENTRY_GROUP_ESTABLISHED"
    "if astate a = AVAHI_WAITING then sec_delay a = 1 else announcer_ok (Some AVAHI_ENTRY_GROUP_ESTABLISHED) a"
    by (auto simp: waits_def)
  note get = get_announcer_at [OF a(1)]
  from announcer_at_entry [OF a(1)] obtain x where x: "estore s e = Some x" "get_announcer x i = Some a" by blast
  have ai: "ainterface a = i" using get_announcer_Some [OF x(2)] by simp
  have gs: "group_allows (state_of_group s e) AVAHI_ANNOUNCING" using a(2) by (simp add: group_allows_def)
  show ?thesis
  proof (cases "astate a = AVAHI_WAITING")
    case False
    have "zone_ok L sc (set ps) s" using zone_shrink [OF zone _ a(1)] a(2,3) False p by auto
    with False a(1) get io show ?thesis by (intro exI [of _ s] exI [of _ a]) (simp add: woken_def same_entries_refl)
  next
    case True
    show ?thesis
    proof (cases imm)
      case False
      obtain s1 tv where tv: "server_elapse_time now rnd s 0 AVAHI_ANNOUNCEMENT_JITTER_MSEC = (s1, tv)" "quiet_step now s s1" "normalized tv"
        "usec_of now + 0 * 1000 \<le> usec_of tv" "usec_of tv \<le> usec_of now + (0 + AVAHI_ANNOUNCEMENT_JITTER_MSEC) * 1000"
        by (rule server_elapse_ok [OF io(1) now, of 0 AVAHI_ANNOUNCEMENT_JITTER_MSEC]) (simp_all add: AVAHI_ANNOUNCEMENT_JITTER_MSEC_def)
      note q = quiet_zone [OF tv(2)] quiet_announcer [OF tv(2)]
      let ?a = "a\<lparr>astate := AVAHI_ANNOUNCING, n_iteration := 0, atime_event := Some tv\<rparr>" and ?s = "\<lambda>a. put_announcer e a s1"
      have sr: "srecords s1 = srecords s" using tv(1) by (auto simp: server_elapse_time_def split: prod.splits)
      have "set_announcer e ?a s1 = Ret (?s ?a)" by (rule set_announcer_put) (simp add: q x)
      moreover have "announcer_ok (state_of_group s e) ?a" using gs True a(3) tv(3) by (simp add: announcer_ok_def delay_ok_def)
      then have "zone_ok L sc (set ps) (?s ?a)"
        using a(1) ai p by (intro zone_put [OF zone_quiet [OF tv(2) zone], where b = a]) (simp_all add: q)
      moreover have "same_entries now s (?s ?a)" using same_entries_trans [OF quiet_same_entries [OF tv(2)] put_same_entries] .
      moreover have "woken now imm a ?a" using True False tv(3-5) by (auto simp: woken_def AVAHI_ANNOUNCEMENT_JITTER_MSEC_def)
      moreover have "announcer_at (?s ?a) e' i' = (if e' = e \<and> i' = i then Some ?a else announcer_at s e' i')" for e' i'
        using a(1) ai by (auto simp: announcer_at_put q split: option.splits)
      ultimately show ?thesis using True False get tv(1) io_put [OF quiet_io [OF tv(2)]] io(2) a(1)
        by (intro exI [of _ "?s ?a"] exI [of _ a] exI [of _ ?a]) (simp add: q sr)
    next
      case imm: True
      let ?a = "a\<lparr>astate := AVAHI_ANNOUNCING, n_iteration := 1\<rparr>"
      let ?s = "put_announcer e ?a s"
      have put: "set_announcer e ?a s = Ret ?s" by (rule set_announcer_put) (simp add: x)
      obtain x' where x': "estore ?s e = Some x'" using x by (simp add: put_announcer_def)
      have at: "announcer_at ?s e i = Some ?a" using a(1) ai by (simp add: announcer_at_put)
      have "delay_ok ?a" using a(3) True by (simp add: delay_ok_def)
      moreover have "zone_ok L sc (set (p # ps)) ?s"
        using a(1) ai p by (intro zone_put [OF zone, where b = a]) simp_all
      ultimately obtain s' a' where s': "announce_next sc now rnd e i ?s = Ret s'" "zone_ok L sc (set ps) s'" "io_ok s'" "lread (srecords s') = []"
        "same_entries now ?s s'" "gstore s' = gstore ?s" "changes s' = changes ?s" "announced now ?a a'"
        "\<forall>e' i'. announcer_at s' e' i' = (if e' = e \<and> i' = i then Some a' else announcer_at ?s e' i')"
        using announce_next_ok [of L sc "set (p # ps)" ?s now rnd e x' i ?a "set ps"] io_put [OF io(1)] io(2) now x' at gs p by auto
      have "same_entries now s s'" using same_entries_trans [OF put_same_entries s'(5)] .
      moreover have "announcer_at s' e' i' = (if e' = e \<and> i' = i then Some a' else announcer_at s e' i')" for e' i'
        using s'(9) ai by (auto simp: announcer_at_put split: option.splits)
      moreover have "woken now imm a a'" using True imm s'(8) by (simp add: woken_def)
      ultimately show ?thesis using True imm get put s'(1-4,6,7) a(1)
        by (intro exI [of _ s'] exI [of _ a] exI [of _ a']) simp
    qed
  qed
qed

lemma announce_waiting_ok:
  assumes "zone_ok L sc (set ps) s" "io_ok s" "lread (srecords s) = []" "normalized now" "rand_ok rnd" "\<forall>p \<in> set ps. waits s p" "distinct ps"
  shows "\<exists>s'. announce_waiting sc now rnd imm ps s = Ret s' \<and> zone_ok L sc {} s' \<and> io_ok s' \<and> lread (srecords s') = [] \<and>
    same_entries now s s' \<and> gstore s' = gstore s \<and> changes s' = changes s \<and>
    (\<forall>e i. (e, i) \<notin> set ps \<longrightarrow> announcer_at s' e i = announcer_at s e i) \<and>
    (\<forall>(e, i) \<in> set ps. \<exists>a a'. announcer_at s e i = Some a \<and> announcer_at s' e i = Some a' \<and> woken now imm a a')"
  using assms(1-3,6,7)
proof (induction ps arbitrary: s)
  case Nil
  then show ?case by (auto intro!: exI [of _ s] simp: same_entries_refl)
next
  case (Cons p ps)
  obtain e i where p: "p = (e, i)" by (cases p)
  have "waits s p" using Cons.prems(4) by simp
  from wake_one [OF Cons.prems(1-3) assms(4,5) this p, of imm] obtain s1 a a' where
    s1: "res_bind (get_announcer_of s e i) (\<lambda>a.
       if astate a \<noteq> AVAHI_WAITING then Ret s
       else if imm then
         res_bind (set_announcer e (a\<lparr>astate := AVAHI_ANNOUNCING, n_iteration := 1\<rparr>) s) (announce_next sc now rnd e i)
       else
         let (s, tv) = server_elapse_time now rnd s 0 AVAHI_ANNOUNCEMENT_JITTER_MSEC
         in set_announcer e (a\<lparr>astate := AVAHI_ANNOUNCING, n_iteration := 0, atime_event := Some tv\<rparr>) s) = Ret s1" and
    ok: "zone_ok L sc (set ps) s1" "io_ok s1" "lread (srecords s1) = []" and
    frame: "same_entries now s s1" "gstore s1 = gstore s" "changes s1 = changes s" and
    a: "announcer_at s e i = Some a" "woken now imm a a'" and
    at: "\<forall>e' i'. announcer_at s1 e' i' = (if e' = e \<and> i' = i then Some a' else announcer_at s e' i')" by blast
  have sg: "state_of_group s1 e' = state_of_group s e'" for e'
    using frame by (intro state_of_group_bare) (simp_all add: same_entries_def)
  have "waits s1 q" if "q \<in> set ps" for q
  proof -
    have "q \<noteq> p" using that Cons.prems(5) by auto
    then have "announcer_at s1 (fst q) (snd q) = announcer_at s (fst q) (snd q)" using at p by (cases q) auto
    with Cons.prems(4) that sg show ?thesis by (simp add: waits_def)
  qed
  with Cons.IH [OF ok] Cons.prems(5) obtain s' where s': "announce_waiting sc now rnd imm ps s1 = Ret s'" "zone_ok L sc {} s'" "io_ok s'"
    "lread (srecords s') = []" "same_entries now s1 s'" "gstore s' = gstore s1" "changes s' = changes s1"
    "\<forall>e i. (e, i) \<notin> set ps \<longrightarrow> announcer_at s' e i = announcer_at s1 e i"
    "\<forall>(e, i) \<in> set ps. \<exists>a a'. announcer_at s1 e i = Some a \<and> announcer_at s' e i = Some a' \<and> woken now imm a a'" by auto
  have nin: "(e, i) \<notin> set ps" using Cons.prems(5) p by simp
  have "announce_waiting sc now rnd imm (p # ps) s = Ret s'"
  proof -
    from s1 obtain b where b: "get_announcer_of s e i = Ret b" by (auto simp: res_bind_eq_Ret)
    show ?thesis using s1 s'(1) unfolding p announce_waiting.simps b res_bind.simps by simp
  qed
  moreover have "\<forall>e' i'. (e', i') \<notin> set (p # ps) \<longrightarrow> announcer_at s' e' i' = announcer_at s e' i'" using s'(8) at p by auto
  moreover have "\<exists>b b'. announcer_at s e' i' = Some b \<and> announcer_at s' e' i' = Some b' \<and> woken now imm b b'"
    if "(e', i') \<in> set (p # ps)" for e' i'
  proof (cases "(e', i') = p")
    case True
    with p a at s'(8) nin show ?thesis by auto
  next
    case False
    with that s'(9) at p show ?thesis by (auto split: if_splits)
  qed
  moreover have "same_entries now s s'" using same_entries_trans [OF frame(1) s'(5)] .
  ultimately show ?case using s'(2-4,6,7) frame(2,3) by (intro exI [of _ s'] conjI) auto
qed

section \<open>Groups change\<close>

lemma state_of_group_set:
  "gstore s g = Some y \<Longrightarrow> state_of_group (set_group g y' s) e =
     (if \<exists>x. estore s e = Some x \<and> egroup x = Some g then Some (gstate y') else state_of_group s e)"
  by (auto simp: state_of_group_def set_group_def split: option.splits)

lemma set_group_fields [simp]:
  "entries (set_group g y s) = entries s" "entries_by_key (set_group g y s) = entries_by_key s" "estore (set_group g y s) = estore s"
  "groups (set_group g y s) = groups s" "interfaces (set_group g y s) = interfaces s" "istore (set_group g y s) = istore s"
  "srecords (set_group g y s) = srecords s" "sjitter (set_group g y s) = sjitter s" "changes (set_group g y s) = changes s"
  "gstore (set_group g y s) = (gstore s)(g \<mapsto> y)" "announcer_at (set_group g y s) e i = announcer_at s e i"
  "probing_of (set_group g y s) e = probing_of s e" "get_entry (set_group g y s) e = get_entry s e"
  "need_entry_cleanup (set_group g y s) = need_entry_cleanup s"
  "need_group_cleanup (set_group g y s) = need_group_cleanup s" "cleanup_time_event (set_group g y s) = cleanup_time_event s"
  by (simp_all add: set_group_def announcer_at_def probing_of_def get_entry_def)

lemma zone_set_group:
  assumes zone: "zone_ok L sc P s" and y: "gstore s g = Some y" "gentries y' = gentries y"
    and ok: "gstate y' \<noteq> AVAHI_ENTRY_GROUP_FAILURE" "register_time_event y' \<noteq> None \<Longrightarrow> gstate y' = AVAHI_ENTRY_GROUP_REGISTERING"
      "normalized (register_time y')" "(\<Sum>e \<in> set (gentries y). probing_of s e) + (if g \<in> L then 1 else 0) \<le> n_probing y'"
      "g \<in> L \<Longrightarrow> gstate y' = AVAHI_ENTRY_GROUP_REGISTERING \<and> \<not> gdead y'"
    and dead: "gdead y' \<Longrightarrow> (\<forall>e x. estore s e = Some x \<longrightarrow> egroup x = Some g \<longrightarrow> edead x)"
    and P: "P \<subseteq> P'"
    and allows: "\<And>e i a. announcer_at s e i = Some a \<Longrightarrow> e \<in> set (gentries y) \<Longrightarrow> (e, i) \<notin> P' \<Longrightarrow> group_allows (Some (gstate y')) (astate a)"
  shows "zone_ok L sc P' (set_group g y' s)"
proof -
  let ?s = "set_group g y' s"
  have g: "group_ok L s g y" using zone_group [OF zone y(1)] .
  have "index_ready sc ?s" using zone_index [OF zone] by (simp add: index_ready_def zone_keys_def [abs_def] entries_ok_def)
  moreover have "entry_ok ?s x" if "estore s e = Some x" for e x
    using zone_entry [OF zone that] y(1) by (simp add: entry_ok_def)
  moreover have "group_ok L ?s g' z" if z: "gstore ?s g' = Some z" for g' z
  proof (cases "g' = g")
    case True
    with z have "z = y'" by simp
    with True g ok y(2) dead show ?thesis unfolding group_ok_def by simp
  next
    case False
    with z have "gstore s g' = Some z" by simp
    from zone_group [OF zone this] show ?thesis unfolding group_ok_def by simp
  qed
  moreover have "(e, i) \<notin> P' \<longrightarrow> announcer_ok (state_of_group ?s e) a" if a: "announcer_at s e i = Some a" for e i a
  proof
    assume nin: "(e, i) \<notin> P'"
    with zone_announcer [OF zone a] P have old: "announcer_ok (state_of_group s e) a" by blast
    show "announcer_ok (state_of_group ?s e) a"
    proof (cases "\<exists>x. estore s e = Some x \<and> egroup x = Some g")
      case True
      with g have "e \<in> set (gentries y)" by (auto simp: group_ok_def)
      from allows [OF a this nin] old True show ?thesis by (simp add: announcer_ok_def state_of_group_set [OF y(1)])
    next
      case False
      show ?thesis unfolding state_of_group_set [OF y(1)] if_not_P [OF False] by (rule old)
    qed
  qed
  moreover have "gstore ?s g' \<noteq> None \<longleftrightarrow> g' \<in> set (groups s)" for g' using zone y(1) by (auto simp: zone_ok_def)
  moreover have "istore s i \<noteq> None" if "announcer_at s e i = Some a" for e i a using zone_announcer [OF zone that] by simp
  ultimately show ?thesis using zone unfolding zone_ok_def by simp
qed

definition changed_group :: "timeval \<Rightarrow> entry_group_state \<Rightarrow> group \<Rightarrow> group" where
  "changed_group now st y =
     (let y = (if gstate y = AVAHI_ENTRY_GROUP_ESTABLISHED
               then if 5000000 < avahi_age now (established_at y) then y\<lparr>n_register_try := 0\<rparr> else y
               else if gstate y = AVAHI_ENTRY_GROUP_REGISTERING then y\<lparr>register_time_event := None\<rparr>
               else y);
          y = (if st = AVAHI_ENTRY_GROUP_ESTABLISHED then y\<lparr>established_at := now\<rparr> else y)
      in y\<lparr>gstate := st\<rparr>)"

lemma changed_group_simps [simp]:
  "gentries (changed_group now st y) = gentries y" "gstate (changed_group now st y) = st" "gdead (changed_group now st y) = gdead y"
  "n_probing (changed_group now st y) = n_probing y" "register_time (changed_group now st y) = register_time y"
  "register_time_event (changed_group now st y) =
     (if gstate y = AVAHI_ENTRY_GROUP_REGISTERING then None else register_time_event y)"
  by (simp_all add: changed_group_def Let_def)

definition told :: "nat \<Rightarrow> entry_group_state \<Rightarrow> server \<Rightarrow> server" where
  "told g st s = s\<lparr>changes := changes s @ [(g, st)]\<rparr>"

lemma told_fields [simp]:
  "entries (told g st s) = entries s" "entries_by_key (told g st s) = entries_by_key s" "estore (told g st s) = estore s"
  "groups (told g st s) = groups s" "interfaces (told g st s) = interfaces s" "istore (told g st s) = istore s"
  "srecords (told g st s) = srecords s" "sjitter (told g st s) = sjitter s" "changes (told g st s) = changes s @ [(g, st)]"
  "gstore (told g st s) = gstore s" "announcer_at (told g st s) e i = announcer_at s e i"
  "state_of_group (told g st s) e = state_of_group s e" "get_entry (told g st s) e = get_entry s e"
  "get_group (told g st s) g' = get_group s g'"
  "need_entry_cleanup (told g st s) = need_entry_cleanup s"
  "need_group_cleanup (told g st s) = need_group_cleanup s" "cleanup_time_event (told g st s) = cleanup_time_event s"
  by (simp_all add: told_def announcer_at_def state_of_group_def get_entry_def get_group_def cong: option.case_cong)

lemma zone_told: "zone_ok L sc P s \<Longrightarrow> zone_ok L sc P (told g st s)"
  by (rule zone_cong [of L sc P s]) simp_all

lemma change_state_eq:
  assumes "gstore s g = Some y" "st \<noteq> AVAHI_ENTRY_GROUP_FAILURE"
  shows "avahi_s_entry_group_change_state now s g st =
    Ret (if gstate y = st then s else told g st (set_group g (changed_group now st y) s))"
  using assms by (simp add: avahi_s_entry_group_change_state_def get_group_def changed_group_def told_def Let_def)

lemma announcers_of_ok:
  assumes "\<forall>e \<in> set es. \<exists>x. estore s e = Some x \<and> distinct (map ainterface (announcers x))" "distinct es"
  shows "\<exists>ps. announcers_of s es = Ret ps \<and> distinct ps \<and> (\<forall>e i. (e, i) \<in> set ps \<longleftrightarrow> e \<in> set es \<and> announcer_at s e i \<noteq> None)"
  using assms
proof (induction es)
  case (Cons e es)
  then obtain x ps where x: "estore s e = Some x" "distinct (map ainterface (announcers x))" and
    ps: "announcers_of s es = Ret ps" "distinct ps" "\<forall>e i. (e, i) \<in> set ps \<longleftrightarrow> e \<in> set es \<and> announcer_at s e i \<noteq> None" by auto
  let ?ps = "map (\<lambda>a. (e, ainterface a)) (announcers x) @ ps"
  have "announcers_of s (e # es) = Ret ?ps" using x(1) ps(1) by (simp add: get_entry_def)
  moreover have at: "announcer_at s e i \<noteq> None \<longleftrightarrow> i \<in> ainterface ` set (announcers x)" for i
    using x(1) by (auto simp: announcer_at_def get_announcer_def find_None_iff)
  moreover have "distinct ?ps"
  proof -
    have "map (\<lambda>a. (e, ainterface a)) (announcers x) = map (Pair e) (map ainterface (announcers x))" by simp
    then have "distinct (map (\<lambda>a. (e, ainterface a)) (announcers x))" using x(2) by (simp only: distinct_map) (simp add: inj_on_def)
    moreover have "set (map (\<lambda>a. (e, ainterface a)) (announcers x)) \<inter> set ps = {}" using ps(3) Cons.prems(2) by auto
    ultimately show ?thesis using ps(2) by simp
  qed
  moreover have "(e', i) \<in> set ?ps \<longleftrightarrow> e' \<in> set (e # es) \<and> announcer_at s e' i \<noteq> None" for e' i
    using ps(3) at by auto
  ultimately show ?case by blast
qed simp

text \<open>When the last announcer of a group has probed.\<close>

definition others_kept :: "server \<Rightarrow> server \<Rightarrow> nat set \<Rightarrow> bool" where
  "others_kept s s' es \<longleftrightarrow> (\<forall>e i. e \<notin> es \<longrightarrow> announcer_at s' e i = announcer_at s e i)"

definition established :: "timeval \<Rightarrow> bool \<Rightarrow> nat \<Rightarrow> group \<Rightarrow> server \<Rightarrow> server \<Rightarrow> bool" where
  "established now immediately g y s s' \<longleftrightarrow>
     gstore s' = (gstore s)(g \<mapsto> changed_group now AVAHI_ENTRY_GROUP_ESTABLISHED y) \<and>
     changes s' = changes s @ [(g, AVAHI_ENTRY_GROUP_ESTABLISHED)] \<and> others_kept s s' (set (gentries y)) \<and>
     (\<forall>e i. e \<in> set (gentries y) \<longrightarrow>
        (case announcer_at s e i of
           None \<Rightarrow> announcer_at s' e i = None
         | Some a \<Rightarrow> \<exists>a'. announcer_at s' e i = Some a' \<and> woken now immediately a a'))"

lemma same_entries_told_set: "same_entries now s (told g st (set_group g y s))"
  by (simp add: same_entries_def all_covered_def)

lemma check_probed_ok:
  assumes zone: "zone_ok L sc {} s" and io: "io_ok s" "lread (srecords s) = []" and now: "normalized now" "rand_ok rnd"
    and y: "gstore s g = Some y" "\<not> gdead y"
  shows "\<exists>s'. avahi_s_entry_group_check_probed sc now rnd g imm s = Ret s' \<and> server_inv L sc s' \<and> same_entries now s s' \<and>
    (if gstate y = AVAHI_ENTRY_GROUP_REGISTERING \<and> n_probing y = 0 then established now imm g y s s' else s' = s)"
proof (cases "gstate y = AVAHI_ENTRY_GROUP_REGISTERING \<and> n_probing y = 0")
  case False
  with y zone io show ?thesis
    by (intro exI [of _ s]) (auto simp: avahi_s_entry_group_check_probed_def get_group_def server_inv_def same_entries_refl)
next
  case True
  let ?y = "changed_group now AVAHI_ENTRY_GROUP_ESTABLISHED y"
  let ?t = "set_group g ?y s" and ?s = "told g AVAHI_ENTRY_GROUP_ESTABLISHED (set_group g ?y s)"
  have g: "group_ok L s g y" using zone_group [OF zone y(1)] .
  have ents: "\<forall>e \<in> set (gentries y). \<exists>x. estore ?s e = Some x \<and> distinct (map ainterface (announcers x))"
    using g zone by (auto simp: group_ok_def zone_ok_def entry_ok_def)
  have dist: "distinct (gentries y)" using g by (simp add: group_ok_def)
  from announcers_of_ok [OF ents dist] obtain ps where ps: "announcers_of ?s (gentries y) = Ret ps" "distinct ps"
    "\<forall>e i. (e, i) \<in> set ps \<longleftrightarrow> e \<in> set (gentries y) \<and> announcer_at s e i \<noteq> None" by auto
  have sg: "state_of_group s e = Some AVAHI_ENTRY_GROUP_REGISTERING" "state_of_group ?s e = Some AVAHI_ENTRY_GROUP_ESTABLISHED"
    if "e \<in> set (gentries y)" for e
    using that g True y(1) by (auto simp: group_ok_def state_of_group_def)
  have ann: "announcer_ok (Some AVAHI_ENTRY_GROUP_REGISTERING) a" if "announcer_at s e i = Some a" "e \<in> set (gentries y)" for e i a
    using zone_announcer [OF zone that(1)] sg(1) [OF that(2)] by simp
  have z: "zone_ok L sc (set ps) ?s"
  proof (rule zone_told, rule zone_set_group [OF zone y(1)])
    show "gentries ?y = gentries y" by simp
    show "\<And>e i a. announcer_at s e i = Some a \<Longrightarrow> e \<in> set (gentries y) \<Longrightarrow> (e, i) \<notin> set ps \<Longrightarrow> group_allows (Some (gstate ?y)) (astate a)"
      using ps(3) by auto
  qed (use g True y(2) in \<open>auto simp: group_ok_def\<close>)
  have w: "\<forall>p \<in> set ps. waits ?s p"
  proof
    fix p assume mem: "p \<in> set ps"
    obtain e i where p': "p = (e, i)" by (cases p)
    with mem ps(3) obtain a where p: "p = (e, i)" "e \<in> set (gentries y)" "announcer_at s e i = Some a" by blast
    from ann [OF p(3,2)] have "if astate a = AVAHI_WAITING then sec_delay a = 1 else announcer_ok (Some AVAHI_ENTRY_GROUP_ESTABLISHED) a"
      by (auto simp: announcer_ok_def group_allows_def delay_ok_def)
    with p sg(2) show "waits ?s p" by (simp add: waits_def)
  qed
  have "io_ok ?s" using io(1) by (simp add: io_ok_def)
  from announce_waiting_ok [OF z this _ now w ps(2), of imm] io(2) obtain s' where
    s': "announce_waiting sc now rnd imm ps ?s = Ret s'" "zone_ok L sc {} s'" "io_ok s'" "lread (srecords s') = []" "same_entries now ?s s'"
      "gstore s' = gstore ?s" "changes s' = changes ?s" "\<forall>e i. (e, i) \<notin> set ps \<longrightarrow> announcer_at s' e i = announcer_at ?s e i"
      "\<forall>(e, i) \<in> set ps. \<exists>a a'. announcer_at ?s e i = Some a \<and> announcer_at s' e i = Some a' \<and> woken now imm a a'" by auto
  have "avahi_s_entry_group_check_probed sc now rnd g imm s = Ret s'"
    using y True s'(1) ps(1) change_state_eq [OF y(1), of AVAHI_ENTRY_GROUP_ESTABLISHED now]
    by (simp add: avahi_s_entry_group_check_probed_def get_group_def)
  moreover have "established now imm g y s s'" unfolding established_def others_kept_def
  proof (intro conjI allI impI)
    show "gstore s' = (gstore s)(g \<mapsto> ?y)" "changes s' = changes s @ [(g, AVAHI_ENTRY_GROUP_ESTABLISHED)]" using s'(6,7) by simp_all
    show "announcer_at s' e i = announcer_at s e i" if "e \<notin> set (gentries y)" for e i using that s'(8) ps(3) by simp
    show "case announcer_at s e i of None \<Rightarrow> announcer_at s' e i = None | Some a \<Rightarrow> \<exists>a'. announcer_at s' e i = Some a' \<and> woken now imm a a'"
      if "e \<in> set (gentries y)" for e i
    proof (cases "announcer_at s e i")
      case None
      with s'(8) ps(3) show ?thesis by simp
    next
      case (Some a)
      with that ps(3) have "(e, i) \<in> set ps" by simp
      from bspec [OF s'(9) this] Some show ?thesis by auto
    qed
  qed
  moreover have "same_entries now s s'" using same_entries_trans [OF same_entries_told_set s'(5)] .
  ultimately show ?thesis using True s'(2-4) by (auto simp: server_inv_def)
qed

section \<open>The time event of an announcer\<close>

lemma announcer_positive:
  assumes zone: "zone_ok L sc P s" and a: "announcer_at s e i = Some a" "astate a = AVAHI_PROBING"
    and y: "estore s e = Some x" "egroup x = Some g" "gstore s g = Some y"
  shows "0 < (\<Sum>e \<in> set (gentries y). probing_of s e)" "0 < n_probing y"
proof -
  have g: "group_ok L s g y" using zone_group [OF zone y(3)] .
  from announcer_at_entry [OF a(1)] y(1) get_announcer_Some have "a \<in> set (announcers x)" by auto
  then have "0 < probing_of s e" using y(1) a(2) by (auto simp: probing_of_def probing_in_def length_greater_0_conv filter_empty_conv)
  moreover have "e \<in> set (gentries y)" using g y(1,2) by (auto simp: group_ok_def)
  ultimately show "0 < (\<Sum>e \<in> set (gentries y). probing_of s e)"
    by (auto simp: sum.remove [of "set (gentries y)" e "probing_of s"])
  with g show "0 < n_probing y" by (simp add: group_ok_def)
qed

lemma probing_done_ok:
  assumes zone: "zone_ok L sc P s" and a: "announcer_at s e i = Some a" "astate a = AVAHI_PROBING" and x: "estore s e = Some x"
  shows "probing_done (egroup x) s = Ret (adjust (\<lambda>n. n - 1) e s)"
proof (cases "egroup x")
  case None
  with x show ?thesis by (simp add: probing_done_def adjust_def)
next
  case (Some g)
  then obtain y where y: "gstore s g = Some y" using zone_entry [OF zone x] by (auto simp: entry_ok_def)
  from announcer_positive(2) [OF zone a x Some y] Some x y show ?thesis
    by (simp add: probing_done_def adjust_def get_group_def)
qed

lemma probing_started_ok:
  assumes zone: "zone_ok L sc P s" and x: "estore s e = Some x"
  shows "probing_started (egroup x) s = Ret (adjust Suc e s)"
proof (cases "egroup x")
  case None
  with x show ?thesis by (simp add: probing_started_def adjust_def)
next
  case (Some g)
  then obtain y where y: "gstore s g = Some y" using zone_entry [OF zone x] by (auto simp: entry_ok_def)
  with Some x show ?thesis by (simp add: probing_started_def adjust_def get_group_def)
qed

lemma set_iface_ok:
  assumes inv: "server_inv L sc s" and y: "istore s i = Some y" and y': "iface_ok y'"
  shows "server_inv L sc (set_iface i y' s)"
proof -
  have zone: "zone_ok L sc {} s" and io: "io_ok s" and l: "lread (srecords s) = []" using inv by (simp_all add: server_inv_def)
  have store: "istore (set_iface i y' s) j = None \<longleftrightarrow> istore s j = None" for j using y by (simp add: set_iface_def)
  have "zone_ok L sc {} (set_iface i y' s)"
    by (rule zone_cong [OF zone]) (use store in \<open>simp_all add: set_iface_def\<close>)
  moreover have "io_ok (set_iface i y' s)"
  proof -
    have "iface_ok z" if "istore (set_iface i y' s) j = Some z" for j z
      using that io y' by (cases "j = i") (simp_all add: set_iface_def io_ok_def)
    moreover have "istore (set_iface i y' s) j \<noteq> None \<longleftrightarrow> j \<in> set (interfaces (set_iface i y' s))" for j
      using io store [of j] by (simp add: io_ok_def set_iface_def)
    ultimately show ?thesis using io unfolding io_ok_def by (simp add: set_iface_def)
  qed
  ultimately show ?thesis using l by (simp add: server_inv_def set_iface_def)
qed

lemma post_probe_ok:
  assumes inv: "server_inv L sc s" and y: "istore s i = Some y" and r: "postable r"
    and y': "y' = y\<lparr>iprobes := iprobes y @ (if announcing y then [r] else [])\<rparr>"
  shows "avahi_interface_post_probe s i r = Ret (set_iface i y' s)" "server_inv L sc (set_iface i y' s)"
    "same_entries now s (set_iface i y' s)"
proof -
  have "y' = y" if "\<not> announcing y" using that y' by simp
  then show "avahi_interface_post_probe s i r = Ret (set_iface i y' s)"
    using y r y' by (cases "announcing y") (simp_all add: avahi_interface_post_probe_def get_iface_def postable_def set_iface_def fun_upd_idem)
  have "iresponses y' = iresponses y" "announcing y' = announcing y" "hw_index y' = hw_index y" "iprotocol y' = iprotocol y"
    by (simp_all add: y')
  then have ok: "iface_ok y'" using inv y by (auto simp: server_inv_def io_ok_def iface_ok_def)
  show "server_inv L sc (set_iface i y' s)" by (rule set_iface_ok [OF inv y ok])
  have "all_covered now (set_iface i y' s) j rs" if "all_covered now s j rs" for j rs
    using that y \<open>iresponses y' = iresponses y\<close> \<open>announcing y' = announcing y\<close>
    by (cases "j = i") (simp_all add: all_covered_def set_iface_def)
  then show "same_entries now s (set_iface i y' s)" using y \<open>announcing y' = announcing y\<close> \<open>hw_index y' = hw_index y\<close>
    \<open>iprotocol y' = iprotocol y\<close> by (simp add: same_entries_def set_iface_def)
qed

lemma next_state_probe:
  assumes inv: "server_inv L sc s" and now: "normalized now" "rand_ok rnd"
    and a: "announcer_at s e i = Some a" "astate a = AVAHI_PROBING" "n_iteration a < 4" and x: "estore s e = Some x"
  shows "\<exists>s' y. next_state sc now rnd e i s = Ret s' \<and> server_inv L sc s' \<and> same_entries now s s' \<and> gstore s' = gstore s \<and> changes s' = changes s \<and>
    istore s i = Some y \<and> istore s' = (istore s)(i \<mapsto> y\<lparr>iprobes := iprobes y @ (if announcing y then [erecord x] else [])\<rparr>) \<and>
    (\<forall>e' i'. announcer_at s' e' i' = (if e' = e \<and> i' = i
       then Some (a\<lparr>atime_event := Some (elapse_after now AVAHI_PROBE_INTERVAL_MSEC), n_iteration := n_iteration a + 1\<rparr>) else announcer_at s e' i'))"
proof -
  have zone: "zone_ok L sc {} s" and io: "io_ok s" "lread (srecords s) = []" using inv by (auto simp: server_inv_def)
  have ai: "ainterface a = i" using announcer_at_entry [OF a(1)] get_announcer_Some by auto
  obtain y where y: "istore s i = Some y" using zone_announcer [OF zone a(1)] by auto
  have r: "postable (erecord x)" using zone_entry [OF zone x] by (simp add: publishable_def)
  define y' where "y' = y\<lparr>iprobes := iprobes y @ (if announcing y then [erecord x] else [])\<rparr>"
  let ?s1 = "set_iface i y' s"
  note post = post_probe_ok [OF inv y r y'_def]
  let ?tv = "elapse_after now AVAHI_PROBE_INTERVAL_MSEC"
  let ?a = "a\<lparr>atime_event := Some ?tv, n_iteration := n_iteration a + 1\<rparr>"
  have el: "server_elapse_time now rnd ?s1 AVAHI_PROBE_INTERVAL_MSEC 0 = (?s1, ?tv)"
    by (simp add: server_elapse_time_def avahi_elapse_time_def elapse_after_def set_iface_def)
  have x1: "estore ?s1 e = Some x" by (simp add: set_iface_def x)
  have at1: "announcer_at ?s1 = announcer_at s" by (rule ext)+ (simp add: announcer_at_def set_iface_def)
  have sg1: "state_of_group ?s1 e = state_of_group s e" by (simp add: state_of_group_def set_iface_def cong: option.case_cong)
  have aok: "announcer_ok (state_of_group s e) a" using zone_announcer [OF zone a(1)] by simp
  have "normalized ?tv" using normalized_elapse [OF now(1)] by (simp add: AVAHI_PROBE_INTERVAL_MSEC_def)
  then have "announcer_ok (state_of_group s e) ?a" using aok a(2,3) by (auto simp: announcer_ok_def delay_ok_def)
  then have "zone_ok L sc {} (put_announcer e ?a ?s1)"
    using post(2) a(1,2) ai by (intro zone_put [of L sc "{}" ?s1 e ?a a]) (simp_all add: at1 sg1 server_inv_def)
  then have "server_inv L sc (put_announcer e ?a ?s1)" using post(2) io_put by (simp add: server_inv_def)
  moreover have "next_state sc now rnd e i s = Ret (put_announcer e ?a ?s1)"
    using x get_announcer_at [OF a(1)] a(2,3) post(1) el set_announcer_put [of ?s1 e] x1 by (simp add: next_state_def get_entry_def)
  moreover have "same_entries now s (put_announcer e ?a ?s1)" using same_entries_trans [OF post(3) put_same_entries] .
  moreover have "announcer_at (put_announcer e ?a ?s1) e' i' = (if e' = e \<and> i' = i then Some ?a else announcer_at s e' i')" for e' i'
    using a(1) ai by (auto simp: announcer_at_put at1 split: option.splits)
  ultimately show ?thesis using y by (intro exI [of _ "put_announcer e ?a ?s1"] exI [of _ y]) (simp add: set_iface_def y'_def)
qed

lemma next_state_announce:
  assumes inv: "server_inv L sc s" and now: "normalized now" "rand_ok rnd"
    and a: "announcer_at s e i = Some a" "astate a = AVAHI_ANNOUNCING" and x: "estore s e = Some x"
  shows "\<exists>s' a'. next_state sc now rnd e i s = Ret s' \<and> server_inv L sc s' \<and> same_entries now s s' \<and> gstore s' = gstore s \<and> changes s' = changes s \<and>
    announced now a a' \<and> (\<forall>e' i'. announcer_at s' e' i' = (if e' = e \<and> i' = i then Some a' else announcer_at s e' i')) \<and>
    all_covered now s' i (announced_records s i x)"
proof -
  have zone: "zone_ok L sc {} s" and io: "io_ok s" "lread (srecords s) = []" using inv by (auto simp: server_inv_def)
  have aok: "announcer_ok (state_of_group s e) a" using zone_announcer [OF zone a(1)] by simp
  then have "delay_ok a" "group_allows (state_of_group s e) AVAHI_ANNOUNCING" using a(2) by (simp_all add: announcer_ok_def)
  from announce_next_ok [OF zone io now x a this] obtain s' a' where
    "announce_next sc now rnd e i s = Ret s' \<and> zone_ok L sc {} s' \<and> io_ok s' \<and> lread (srecords s') = [] \<and>
    same_entries now s s' \<and> gstore s' = gstore s \<and> changes s' = changes s \<and> announced now a a' \<and>
    (\<forall>e' i'. announcer_at s' e' i' = (if e' = e \<and> i' = i then Some a' else announcer_at s e' i')) \<and>
    all_covered now s' i (announced_records s i x)" by blast
  moreover have "next_state sc now rnd e i s = announce_next sc now rnd e i s"
    using x get_announcer_at [OF a(1)] a(2) by (simp add: next_state_def get_entry_def)
  ultimately show ?thesis by (auto simp: server_inv_def)
qed

end
