(* ===== verification/Announce_Steps.thy ===== *)
theory Announce_Steps
  imports Announce_Inv
begin

text \<open>
  What the announcers do to states that satisfy the invariant: probing ends, the last announcer that
  probes establishes its group, and announcers start.
\<close>

section \<open>The end of probing\<close>

lemma group_in_state_eq:
  assumes "zone_ok L sc P s" "estore s e = Some x"
  shows "group_in_state s (egroup x) st = Ret (state_of_group s e = Some st)"
proof (cases "egroup x")
  case None
  with assms show ?thesis by (simp add: group_in_state_def state_of_group_def)
next
  case (Some g)
  then obtain y where "gstore s g = Some y" using zone_entry [OF assms] by (auto simp: entry_ok_def)
  with Some assms(2) show ?thesis by (simp add: group_in_state_def state_of_group_def get_group_def)
qed

lemma entry_of_announcer:
  assumes "zone_ok L sc P s" "announcer_at s e i = Some a" "estore s e = Some x"
  shows "\<not> edead x" "ainterface a = i" "get_announcer x i = Some a"
proof -
  from announcer_at_entry [OF assms(2)] assms(3) show a: "get_announcer x i = Some a" by simp
  from get_announcer_Some [OF this] have mem: "a \<in> set (announcers x)" and i: "ainterface a = i" by auto
  show "ainterface a = i" by (rule i)
  have "entry_ok s x" using zone_entry [OF assms(1,3)] by simp
  with mem show "\<not> edead x" by (auto simp: entry_ok_def)
qed

lemma zone_probed:
  assumes zone: "zone_ok L sc {} s" and a: "announcer_at s e i = Some a" "astate a = AVAHI_PROBING"
    and b: "ainterface b = i" "astate b \<noteq> AVAHI_PROBING" "(e, i) \<notin> P \<Longrightarrow> announcer_ok (state_of_group s e) b"
  shows "zone_ok L sc P (put_announcer e b (adjust (\<lambda>n. n - 1) e s))"
proof (rule zone_adjust_put [OF zone])
  show "announcer_at s e (ainterface b) = Some a" using a(1) b(1) by simp
  show "(e, ainterface b) \<notin> P \<Longrightarrow> announcer_ok (state_of_group s e) b" using b by simp
  show "{} \<subseteq> insert (e, ainterface b) P" by simp
next
  fix x g y assume y: "estore s e = Some x" "egroup x = Some g" "gstore s g = Some y"
  have "group_ok L s g y" using zone_group [OF zone y(3)] .
  with announcer_positive(2) [OF zone a y] a(2) b(2)
  show "(\<Sum>e \<in> set (gentries y). probing_of s e) + (if g \<in> L then 1 else 0) + (if astate b = AVAHI_PROBING then 1 else 0) \<le>
      n_probing y - 1 + (if astate a = AVAHI_PROBING then 1 else 0)" by (simp add: group_ok_def)
qed

lemma answers_mono:
  assumes "\<And>e x. estore s e = Some x \<Longrightarrow> registered_on s i x \<Longrightarrow> \<exists>x'. estore s' e = Some x' \<and> erecord x' = erecord x \<and> registered_on s' i x'"
  shows "answers s i k \<subseteq> answers s' i k"
proof
  fix r assume "r \<in> answers s i k"
  then obtain e x where x: "r = erecord x" "estore s e = Some x" "registered_on s i x" "answers_key k (rkey (erecord x))"
    by (auto simp: answers_def)
  from assms [OF x(2,3)] obtain x' where "estore s' e = Some x'" "erecord x' = erecord x" "registered_on s' i x'" by blast
  with x(1,4) show "r \<in> answers s' i k" unfolding answers_def by (intro CollectI exI [of _ e] exI [of _ x']) simp
qed

lemma announces_own:
  assumes "zone_ok L sc P s" "announcer_at s e i = Some a" "astate a = AVAHI_ANNOUNCING" "estore s e = Some x"
  shows "erecord x \<in> announced_records s i x"
proof -
  note ent = entry_of_announcer [OF assms(1,2,4)]
  have "registered_on s i x" using ent assms(3) by (simp add: registered_on_def announcer_registered_def)
  moreover have "publishable (erecord x)" using zone_entry [OF assms(1,4)] by simp
  then have "answers_key (rkey (erecord x)) (rkey (erecord x))" using publishable_ok by (auto simp: answers_key_def)
  ultimately show ?thesis using assms(4) by (auto simp: announced_records_def answers_def)
qed

text \<open>In a group that registers, the announcer waits for the others; the last one establishes the group.\<close>

lemma next_state_probed_waits:
  assumes inv: "server_inv L sc s" and now: "normalized now" "rand_ok rnd"
    and a: "announcer_at s e i = Some a" "astate a = AVAHI_PROBING" "n_iteration a = 4"
    and x: "estore s e = Some x" "egroup x = Some g" and y: "gstore s g = Some y" "gstate y = AVAHI_ENTRY_GROUP_REGISTERING"
  defines "y' \<equiv> y\<lparr>n_probing := n_probing y - 1\<rparr>"
  defines "t \<equiv> put_announcer e (a\<lparr>astate := AVAHI_WAITING, atime_event := None\<rparr>) (set_group g y' s)"
  shows "\<exists>s'. next_state sc now rnd e i s = Ret s' \<and> server_inv L sc s' \<and> same_entries now s s' \<and>
    (if n_probing y = 1 then established now True g y' t s' else s' = t)"
proof -
  have zone: "zone_ok L sc {} s" and io: "io_ok s" "lread (srecords s) = []" using inv by (auto simp: server_inv_def)
  have adj: "adjust (\<lambda>n. n - 1) e s = set_group g y' s" using x y by (simp add: adjust_def y'_def)
  note ent = entry_of_announcer [OF zone a(1) x(1)]
  have sg: "state_of_group s e = Some AVAHI_ENTRY_GROUP_REGISTERING" using x y by (simp add: state_of_group_def)
  let ?b = "a\<lparr>astate := AVAHI_WAITING, atime_event := None\<rparr>"
  have "announcer_ok (state_of_group s e) a" using zone_announcer [OF zone a(1)] by simp
  then have b: "announcer_ok (state_of_group s e) ?b"
    using a(2) by (simp add: announcer_ok_def delay_ok_def sg group_allows_def)
  have zt: "zone_ok L sc {} t" unfolding t_def adj [symmetric]
    by (rule zone_probed [OF zone a(1,2)]) (use ent(2) b in simp_all)
  have iot: "io_ok t" "lread (srecords t) = []" using io by (simp_all add: t_def io_ok_def)
  have gt: "gstore t g = Some y'" by (simp add: t_def)
  have "\<not> gdead y'" using zone_group [OF zone y(1)] x ent(1) by (auto simp: group_ok_def y'_def)
  from check_probed_ok [OF zt iot now gt this, of True] obtain s' where
    s': "avahi_s_entry_group_check_probed sc now rnd g True t = Ret s'" "server_inv L sc s'" "same_entries now t s'"
      "if gstate y' = AVAHI_ENTRY_GROUP_REGISTERING \<and> n_probing y' = 0 then established now True g y' t s' else s' = t" by blast
  have pos: "0 < n_probing y" using announcer_positive(2) [OF zone a(1,2) x y(1)] .
  have set: "set_announcer e ?b (set_group g y' s) = Ret t" unfolding t_def by (rule set_announcer_put) (simp add: x)
  have gis: "group_in_state (set_group g y' s) (Some g) AVAHI_ENTRY_GROUP_REGISTERING = Ret True"
    using y(2) by (simp add: group_in_state_def get_group_def y'_def)
  have "next_state sc now rnd e i s = Ret s'"
    using x get_announcer_at [OF a(1)] a(2,3) probing_done_ok [OF zone a(1,2) x(1)] adj set gis s'(1)
    by (simp add: next_state_def get_entry_def)
  moreover have "same_entries now s t" unfolding t_def adj [symmetric]
    using same_entries_trans [OF adjust_same_entries put_same_entries] .
  ultimately show ?thesis using s' pos y(2) same_entries_trans
    by (intro exI [of _ s']) (auto simp: y'_def split: if_splits)
qed

text \<open>An announcer in no group, or in one that is established, announces its entry at once.\<close>

lemma next_state_probed_announces:
  assumes inv: "server_inv L sc s" and now: "normalized now" "rand_ok rnd"
    and a: "announcer_at s e i = Some a" "astate a = AVAHI_PROBING" "n_iteration a = 4"
    and x: "estore s e = Some x" and g: "state_of_group s e \<noteq> Some AVAHI_ENTRY_GROUP_REGISTERING"
  shows "\<exists>s' a'. next_state sc now rnd e i s = Ret s' \<and> server_inv L sc s' \<and> same_entries now s s' \<and>
    gstore s' = gstore (adjust (\<lambda>n. n - 1) e s) \<and> changes s' = changes s \<and> announced now (a\<lparr>n_iteration := 1\<rparr>) a' \<and>
    (\<forall>e' i'. announcer_at s' e' i' = (if e' = e \<and> i' = i then Some a' else announcer_at s e' i')) \<and>
    all_covered now s' i (insert (erecord x) (announced_records s i x))"
proof -
  have zone: "zone_ok L sc {} s" and io: "io_ok s" "lread (srecords s) = []" using inv by (auto simp: server_inv_def)
  note ent = entry_of_announcer [OF zone a(1) x]
  let ?b = "a\<lparr>astate := AVAHI_ANNOUNCING, n_iteration := 1, atime_event := None\<rparr>"
  let ?t = "adjust (\<lambda>n. n - 1) e s"
  let ?s = "put_announcer e ?b ?t"
  have aok: "announcer_ok (state_of_group s e) a" using zone_announcer [OF zone a(1)] by simp
  then have gs: "group_allows (state_of_group s e) AVAHI_ANNOUNCING" "delay_ok ?b"
    using a(2) by (auto simp: announcer_ok_def group_allows_def delay_ok_def split: option.splits entry_group_state.splits)
  have z: "zone_ok L sc {(e, i)} ?s" by (rule zone_probed [OF zone a(1,2)]) (use ent(2) in simp_all)
  obtain x' where x': "estore ?s e = Some x'" "erecord x' = erecord x" "unique x' = unique x"
    using x by (simp add: put_announcer_def unique_def)
  have at: "announcer_at ?s e i = Some ?b" using a(1) ent(2) by (simp add: announcer_at_put)
  have "io_ok ?s" "lread (srecords ?s) = []" using io by (simp_all add: io_ok_def)
  from announce_next_ok [OF z this now x'(1) at _ gs(2), of "{}"] gs(1) obtain s' a' where
    s': "announce_next sc now rnd e i ?s = Ret s'" "zone_ok L sc {} s'" "io_ok s'" "lread (srecords s') = []" "same_entries now ?s s'"
      "gstore s' = gstore ?s" "changes s' = changes ?s" "announced now ?b a'"
      "\<forall>e' i'. announcer_at s' e' i' = (if e' = e \<and> i' = i then Some a' else announcer_at ?s e' i')"
      "all_covered now s' i (announced_records ?s i x')" by auto
  have set: "set_announcer e ?b ?t = Ret ?s" by (rule set_announcer_put) (simp add: x)
  have gis: "group_in_state ?t (egroup x) AVAHI_ENTRY_GROUP_REGISTERING = Ret False"
  proof (cases "egroup x")
    case None
    then show ?thesis by (simp add: group_in_state_def)
  next
    case (Some h)
    then obtain z where z: "gstore s h = Some z" using zone_entry [OF zone x] by (auto simp: entry_ok_def)
    with Some g x show ?thesis by (auto simp: group_in_state_def get_group_def state_of_group_def adjust_gstore)
  qed
  have "next_state sc now rnd e i s = Ret s'"
    using x get_announcer_at [OF a(1)] a(2,3) probing_done_ok [OF zone a(1,2) x] set gis s'(1)
    by (simp add: next_state_def get_entry_def)
  moreover have "same_entries now s s'"
    using same_entries_trans [OF same_entries_trans [OF adjust_same_entries put_same_entries] s'(5)] .
  moreover have "announcer_at s' e' i' = (if e' = e \<and> i' = i then Some a' else announcer_at s e' i')" for e' i'
    using s'(9) ent(2) by (auto simp: announcer_at_put split: option.splits)
  moreover have "announced now (a\<lparr>n_iteration := 1\<rparr>) a'" using s'(8) by (simp add: announced_def)
  moreover have "insert (erecord x) (announced_records s i x) \<subseteq> announced_records ?s i x'"
  proof -
    have "registered_on s i x0 \<Longrightarrow> \<exists>x1. estore ?s e0 = Some x1 \<and> erecord x1 = erecord x0 \<and> registered_on ?s i x1"
      if "estore s e0 = Some x0" for e0 x0
      using that x ent(3) a(2) by (cases "e0 = e") (auto simp: registered_on_def announcer_registered_def put_announcer_def)
    then have "answers s i k \<subseteq> answers ?s i k" for k by (rule answers_mono)
    moreover have "erecord x' \<in> announced_records ?s i x'"
      using announces_own [OF z at _ x'(1)] by simp
    ultimately show ?thesis using x'(2,3) by (auto simp: announced_records_def)
  qed
  ultimately show ?thesis using s'(2-4,6,7,10)
    by (intro exI [of _ s'] exI [of _ a']) (auto simp: server_inv_def all_covered_def)
qed

section \<open>Announcers start\<close>

text \<open>Groups but for their counts, and what the clients were told.\<close>

definition same_groups :: "server \<Rightarrow> server \<Rightarrow> bool" where
  "same_groups s s' \<longleftrightarrow> changes s' = changes s \<and>
     (\<forall>g. map_option (n_probing_update (\<lambda>_. 0)) (gstore s' g) = map_option (n_probing_update (\<lambda>_. 0)) (gstore s g))"

lemma same_groups_refl: "same_groups s s"
  by (simp add: same_groups_def)

lemma same_groups_trans: "same_groups s s' \<Longrightarrow> same_groups s' s'' \<Longrightarrow> same_groups s s''"
  by (simp add: same_groups_def)

lemma same_groups_adjust: "same_groups s (adjust f e s)"
  by (auto simp: same_groups_def adjust_gstore split: option.splits)

lemma same_groups_store: "gstore s' = gstore s \<Longrightarrow> changes s' = changes s \<Longrightarrow> same_groups s s'"
  by (simp add: same_groups_def)

lemma same_groups_gstate:
  assumes "same_groups s s'"
  shows "map_option gstate (gstore s' g) = map_option gstate (gstore s g)" "map_option gdead (gstore s' g) = map_option gdead (gstore s g)"
    "map_option gentries (gstore s' g) = map_option gentries (gstore s g)"
proof -
  have eq: "map_option (n_probing_update (\<lambda>_. 0)) (gstore s' g) = map_option (n_probing_update (\<lambda>_. 0)) (gstore s g)"
    using assms by (simp add: same_groups_def)
  show "map_option gstate (gstore s' g) = map_option gstate (gstore s g)"
    using arg_cong [OF eq, of "map_option gstate"] by (simp add: option.map_comp o_def)
  show "map_option gdead (gstore s' g) = map_option gdead (gstore s g)"
    using arg_cong [OF eq, of "map_option gdead"] by (simp add: option.map_comp o_def)
  show "map_option gentries (gstore s' g) = map_option gentries (gstore s g)"
    using arg_cong [OF eq, of "map_option gentries"] by (simp add: option.map_comp o_def)
qed

definition started :: "timeval \<Rightarrow> announcer \<Rightarrow> announcer_state \<Rightarrow> announcer \<Rightarrow> bool" where
  "started now a st a' \<longleftrightarrow> ainterface a' = ainterface a \<and> astate a' = st \<and> n_iteration a' = 1 \<and> sec_delay a' = 1 \<and>
     (if st = AVAHI_WAITING \<or> st = AVAHI_ESTABLISHED then atime_event a' = None
      else \<exists>tv. atime_event a' = Some tv \<and> normalized tv \<and> usec_of now \<le> usec_of tv \<and> usec_of tv \<le> usec_of now + 250000)"

lemma started_ok: "started now a st a' \<Longrightarrow> group_allows gs st \<Longrightarrow> announcer_ok gs a'"
  by (cases st) (auto simp: started_def announcer_ok_def delay_ok_def)

lemma zone_put_quiet:
  assumes "zone_ok L sc P (put_announcer e a s)" "quiet_step now s s'"
  shows "zone_ok L sc P (put_announcer e a s')"
proof -
  have "istore s' i = None \<longleftrightarrow> istore s i = None" for i using quiet_istore [OF assms(2), of i] by blast
  then show ?thesis by (intro zone_cong [OF assms(1)]) (simp_all add: put_announcer_def quiet_zone [OF assms(2)])
qed

text \<open>\<open>f\<close> is what the step has done to the count of the group so far.\<close>

lemma start_announcer_ok:
  assumes zone: "zone_ok L sc P s" and io: "io_ok s" "lread (srecords s) = []" and now: "normalized now" "rand_ok rnd"
    and x: "estore s e = Some x" and b: "announcer_at s e (ainterface a) = Some b"
    and f: "\<And>g y. egroup x = Some g \<Longrightarrow> gstore s g = Some y \<Longrightarrow>
      (\<Sum>e \<in> set (gentries y). probing_of s e) + (if g \<in> L then 1 else 0) \<le> f (n_probing y) + (if astate b = AVAHI_PROBING then 1 else 0)"
    and gs: "group_allows (state_of_group s e) st" and P: "P \<subseteq> insert (e, ainterface a) P'"
  shows "\<exists>s' a'. start_announcer now rnd e a st (adjust f e s) = Ret s' \<and> zone_ok L sc P' s' \<and> io_ok s' \<and> lread (srecords s') = [] \<and>
    same_entries now s s' \<and> same_groups s s' \<and> started now a st a' \<and>
    (\<forall>e' i'. announcer_at s' e' i' = (if e' = e \<and> i' = ainterface a then Some a' else announcer_at s e' i'))"
proof -
  define F where "F = (if st = AVAHI_PROBING then \<lambda>n. Suc (f n) else f)"
  let ?t = "adjust F e s"
  have start: "(if st = AVAHI_PROBING then probing_started (egroup x) (adjust f e s) else Ret (adjust f e s)) = Ret ?t"
  proof (cases "egroup x")
    case None
    then show ?thesis using x by (simp add: probing_started_def adjust_def)
  next
    case (Some g)
    then obtain y where "gstore s g = Some y" using zone_entry [OF zone x] by (auto simp: entry_ok_def)
    with Some x show ?thesis by (simp add: probing_started_def adjust_def get_group_def F_def set_group_def)
  qed
  have iot: "io_ok ?t" using io by (simp add: io_ok_def)
  obtain s1 tv where s1: "(if st = AVAHI_PROBING then map_prod id Some (server_elapse_time now rnd ?t 0 AVAHI_PROBE_JITTER_MSEC)
      else if st = AVAHI_ANNOUNCING then map_prod id Some (server_elapse_time now rnd ?t 0 AVAHI_ANNOUNCEMENT_JITTER_MSEC)
      else (?t, None)) = (s1, tv)" "quiet_step now ?t s1" "srecords s1 = srecords ?t"
    "started now a st (a\<lparr>astate := st, n_iteration := 1, sec_delay := 1, atime_event := tv\<rparr>)"
  proof (cases "st = AVAHI_PROBING \<or> st = AVAHI_ANNOUNCING")
    case False
    then show thesis using that quiet_refl [OF iot] by (cases st) (simp_all add: started_def)
  next
    case True
    obtain s1 tv where tv: "server_elapse_time now rnd ?t 0 250 = (s1, tv)" "quiet_step now ?t s1" "normalized tv"
      "usec_of now + 0 * 1000 \<le> usec_of tv" "usec_of tv \<le> usec_of now + (0 + 250) * 1000"
      by (rule server_elapse_ok [OF iot now, of 0 250]) simp_all
    have "srecords s1 = srecords ?t" using tv(1) by (auto simp: server_elapse_time_def split: prod.splits)
    with True tv that show thesis
      by (auto simp: AVAHI_PROBE_JITTER_MSEC_def AVAHI_ANNOUNCEMENT_JITTER_MSEC_def started_def)
  qed
  let ?a = "a\<lparr>astate := st, n_iteration := 1, sec_delay := 1, atime_event := tv\<rparr>"
  let ?s = "put_announcer e ?a s1"
  note q = quiet_zone [OF s1(2)] quiet_announcer [OF s1(2)]
  have "start_announcer now rnd e a st (adjust f e s) = Ret ?s"
    using x start s1(1) set_announcer_put [of s1 e ?a] by (simp add: start_announcer_def get_entry_def q)
  moreover have "zone_ok L sc P' (put_announcer e ?a ?t)"
  proof (rule zone_adjust_put [OF zone])
    show "announcer_at s e (ainterface ?a) = Some b" using b by simp
    show "P \<subseteq> insert (e, ainterface ?a) P'" using P by simp
    show "announcer_ok (state_of_group s e) ?a" by (rule started_ok [OF s1(4) gs])
    fix x' g y assume "estore s e = Some x'" "egroup x' = Some g" "gstore s g = Some y"
    with x f [of g y] show "(\<Sum>e \<in> set (gentries y). probing_of s e) + (if g \<in> L then 1 else 0) + (if astate ?a = AVAHI_PROBING then 1 else 0) \<le>
      F (n_probing y) + (if astate b = AVAHI_PROBING then 1 else 0)" by (simp add: F_def split: if_splits)
  qed
  note zone_put_quiet [OF this s1(2)]
  moreover have "same_entries now s ?s"
    using same_entries_trans [OF same_entries_trans [OF adjust_same_entries quiet_same_entries [OF s1(2)]] put_same_entries] .
  moreover have "same_groups s ?s"
    using same_groups_trans [OF same_groups_adjust [of s F e] same_groups_store [of ?s ?t]] by (simp add: q)
  moreover have "announcer_at ?s e' i' = (if e' = e \<and> i' = ainterface a then Some ?a else announcer_at s e' i')" for e' i'
    using b by (auto simp: announcer_at_put q split: option.splits)
  ultimately show ?thesis using io_put [OF quiet_io [OF s1(2)]] s1(3,4) io(2)
    by (intro exI [of _ ?s] exI [of _ ?a]) simp
qed

lemma group_sum:
  assumes "zone_ok L sc P s" "gstore s g = Some y"
  shows "(\<Sum>e \<in> set (gentries y). probing_of s e) + (if g \<in> L then 1 else 0) \<le> n_probing y"
  using zone_group [OF assms] by (simp add: group_ok_def)

lemma initial_state_cong:
  assumes "\<And>g. map_option gstate (gstore s' g) = map_option gstate (gstore s g)"
  shows "initial_state s' x = initial_state s x"
proof -
  have "res_map (\<lambda>y. f (gstate y)) (get_group s' g) = res_map (\<lambda>y. f (gstate y)) (get_group s g)" for f :: "entry_group_state \<Rightarrow> announcer_state" and g
    using assms [of g] by (cases "gstore s g"; cases "gstore s' g") (simp_all add: get_group_def)
  from this [of "\<lambda>st. if st = AVAHI_ENTRY_GROUP_ESTABLISHED then AVAHI_ANNOUNCING else AVAHI_WAITING"]
  show ?thesis by (simp add: initial_state_def cong: option.case_cong)
qed

lemma initial_state_ok:
  assumes zone: "zone_ok L sc P s" and x: "estore s e = Some x"
    and g: "state_of_group s e \<in> {None, Some AVAHI_ENTRY_GROUP_REGISTERING, Some AVAHI_ENTRY_GROUP_ESTABLISHED}"
  shows "\<exists>st. initial_state s x = Ret st \<and> group_allows (state_of_group s e) st"
proof (cases "egroup x")
  case None
  with x show ?thesis by (auto simp: initial_state_def group_allows_def state_of_group_def)
next
  case (Some h)
  then obtain y where y: "gstore s h = Some y" using zone_entry [OF zone x] by (auto simp: entry_ok_def)
  with Some x g have "gstate y = AVAHI_ENTRY_GROUP_REGISTERING \<or> gstate y = AVAHI_ENTRY_GROUP_ESTABLISHED"
    by (auto simp: state_of_group_def)
  with Some x y show ?thesis by (auto simp: initial_state_def group_allows_def state_of_group_def get_group_def)
qed

text \<open>Announcers come and go and entries are marked dead, but no announcer starts to probe.\<close>

definition entry_moves :: "entry \<Rightarrow> entry \<Rightarrow> bool" where
  "entry_moves x x' \<longleftrightarrow> egroup x' = egroup x \<and> erecord x' = erecord x \<and> (edead x \<longrightarrow> edead x') \<and>
     distinct (map ainterface (announcers x')) \<and> (edead x' \<longrightarrow> announcers x' = []) \<and>
     probing_in (announcers x') \<le> probing_in (announcers x)"

lemma entry_moves_refl: "entry_ok s x \<Longrightarrow> entry_moves x x"
  by (simp add: entry_moves_def entry_ok_def)

lemma zone_estore:
  assumes zone: "zone_ok L sc P s" and same: "entries s' = entries s" "entries_by_key s' = entries_by_key s" "groups s' = groups s"
      "gstore s' = gstore s" "\<And>i. istore s' i = None \<longleftrightarrow> istore s i = None"
    and moves: "\<And>e. rel_option entry_moves (estore s e) (estore s' e)"
    and ann: "\<And>e i a. announcer_at s' e i = Some a \<Longrightarrow> istore s i \<noteq> None \<and> ((e, i) \<notin> P' \<longrightarrow> announcer_ok (state_of_group s e) a)"
  shows "zone_ok L sc P' s'"
proof -
  have old: "\<exists>x. estore s e = Some x \<and> entry_moves x x'" if "estore s' e = Some x'" for e x'
    using moves [of e] that by (cases "estore s e") auto
  have new: "\<exists>x'. estore s' e = Some x' \<and> entry_moves x x'" if "estore s e = Some x" for e x
    using moves [of e] that by (cases "estore s' e") auto
  have none: "estore s' e = None \<longleftrightarrow> estore s e = None" for e using moves [of e] by (cases "estore s e"; cases "estore s' e") auto
  have "zone_keys s' = zone_keys s"
  proof
    show "zone_keys s' e = zone_keys s e" for e
      using moves [of e] by (cases "estore s e"; cases "estore s' e") (auto simp: zone_keys_def entry_moves_def)
  qed
  moreover have "entries_ok s'" using zone_entry [OF zone] old by (fastforce simp: entries_ok_def entry_moves_def)
  ultimately have "index_ready sc s'" using zone_index [OF zone] none by (simp add: index_ready_def same)
  moreover have "entry_ok s' x'" if "estore s' e = Some x'" for e x'
    using old [OF that] zone_entry [OF zone, of e] by (auto simp: entry_ok_def entry_moves_def same)
  moreover have "group_ok L s' g y" if y: "gstore s g = Some y" for g y
  proof -
    have g: "group_ok L s g y" using zone_group [OF zone y] .
    have "(\<exists>x. estore s' e = Some x \<and> egroup x = Some g) \<longleftrightarrow> (\<exists>x. estore s e = Some x \<and> egroup x = Some g)" for e
      using old [of e] new [of e] by (auto simp: entry_moves_def)
    moreover have "edead x'" if "gdead y" "estore s' e = Some x'" "egroup x' = Some g" for e x'
      using old [OF that(2)] that g by (auto simp: entry_moves_def group_ok_def)
    moreover have "probing_of s' e \<le> probing_of s e" for e
      using moves [of e] by (cases "estore s e"; cases "estore s' e") (auto simp: probing_of_def entry_moves_def)
    then have "(\<Sum>e \<in> set (gentries y). probing_of s' e) \<le> (\<Sum>e \<in> set (gentries y). probing_of s e)" by (intro sum_mono)
    ultimately show ?thesis using g unfolding group_ok_def by simp
  qed
  moreover have "state_of_group s' e = state_of_group s e" for e
    using moves [of e] by (cases "estore s e"; cases "estore s' e") (auto simp: state_of_group_def entry_moves_def same cong: option.case_cong)
  ultimately show ?thesis using zone ann unfolding zone_ok_def same(3,4) by (simp add: same)
qed

lemma set_entry_fields [simp]:
  "entries (set_entry e x s) = entries s" "entries_by_key (set_entry e x s) = entries_by_key s"
  "estore (set_entry e x s) = (estore s)(e \<mapsto> x)"
  "groups (set_entry e x s) = groups s" "gstore (set_entry e x s) = gstore s" "interfaces (set_entry e x s) = interfaces s"
  "istore (set_entry e x s) = istore s" "srecords (set_entry e x s) = srecords s" "sjitter (set_entry e x s) = sjitter s"
  "changes (set_entry e x s) = changes s" "need_entry_cleanup (set_entry e x s) = need_entry_cleanup s"
  "need_group_cleanup (set_entry e x s) = need_group_cleanup s" "cleanup_time_event (set_entry e x s) = cleanup_time_event s"
  by (simp_all add: set_entry_def)

lemma announcer_at_set_entry: "announcer_at (set_entry e x s) e' i = (if e' = e then get_announcer x i else announcer_at s e' i)"
  by (simp add: announcer_at_def)

lemma set_entry_same:
  assumes "estore s e = Some x" "bare x' = bare x"
  shows "same_entries now s (set_entry e x' s)" "same_groups s (set_entry e x' s)"
  using assms by (auto simp: same_entries_def same_groups_def all_covered_def)

lemma go_to_initial_state_ok:
  assumes zone: "zone_ok L sc P s" and io: "io_ok s" "lread (srecords s) = []" and now: "normalized now" "rand_ok rnd"
    and x: "estore s e = Some x" and a: "announcer_at s e i = Some a"
    and f: "\<And>g y. egroup x = Some g \<Longrightarrow> gstore s g = Some y \<Longrightarrow>
      (\<Sum>e \<in> set (gentries y). probing_of s e) + (if g \<in> L then 1 else 0) \<le> f (n_probing y) + (if astate a = AVAHI_PROBING then 1 else 0)"
    and g: "state_of_group s e \<in> {None, Some AVAHI_ENTRY_GROUP_REGISTERING, Some AVAHI_ENTRY_GROUP_ESTABLISHED}"
    and P: "P \<subseteq> insert (e, i) P'"
  shows "\<exists>s' a' st. go_to_initial_state now rnd e i (adjust f e s) = Ret s' \<and> initial_state s x = Ret st \<and>
    zone_ok L sc P' s' \<and> io_ok s' \<and> lread (srecords s') = [] \<and> same_entries now s s' \<and> same_groups s s' \<and> started now a st a' \<and>
    (\<forall>e' i'. announcer_at s' e' i' = (if e' = e \<and> i' = i then Some a' else announcer_at s e' i'))"
proof -
  note ent = entry_of_announcer [OF zone a x]
  from initial_state_ok [OF zone x g] obtain st where st: "initial_state s x = Ret st" "group_allows (state_of_group s e) st" by blast
  have init: "initial_state (adjust f e s) x = Ret st"
    using st(1) initial_state_cong [of "adjust f e s" s x] by (simp add: adjust_gstore split: option.splits)
  have b: "announcer_at s e (ainterface a) = Some a" using a ent(2) by simp
  have "P \<subseteq> insert (e, ainterface a) P'" using P ent(2) by simp
  then have "\<exists>s' a'. start_announcer now rnd e a st (adjust f e s) = Ret s' \<and> zone_ok L sc P' s' \<and> io_ok s' \<and> lread (srecords s') = [] \<and>
    same_entries now s s' \<and> same_groups s s' \<and> started now a st a' \<and>
    (\<forall>e' i'. announcer_at s' e' i' = (if e' = e \<and> i' = ainterface a then Some a' else announcer_at s e' i'))"
    by (intro start_announcer_ok [OF zone io now x b _ st(2)] f) simp_all
  then obtain s' a' where
    "start_announcer now rnd e a st (adjust f e s) = Ret s' \<and> zone_ok L sc P' s' \<and> io_ok s' \<and> lread (srecords s') = [] \<and>
    same_entries now s s' \<and> same_groups s s' \<and> started now a st a' \<and>
    (\<forall>e' i'. announcer_at s' e' i' = (if e' = e \<and> i' = ainterface a then Some a' else announcer_at s e' i'))" by blast
  moreover have "get_announcer_of (adjust f e s) e i = Ret a" using a by (intro get_announcer_at) simp
  ultimately show ?thesis using x ent(2) init st(1)
    by (intro exI [of _ s'] exI [of _ a'] exI [of _ st]) (simp add: go_to_initial_state_def get_entry_def)
qed

text \<open>The entry's group is commited.\<close>

definition commited :: "entry_group_state option \<Rightarrow> bool" where
  "commited gs \<longleftrightarrow> gs = None \<or> gs = Some AVAHI_ENTRY_GROUP_REGISTERING \<or> gs = Some AVAHI_ENTRY_GROUP_ESTABLISHED"

lemma is_commited_eq:
  assumes "zone_ok L sc P s" "estore s e = Some x" "\<not> edead x"
  shows "avahi_entry_is_commited s e = Ret (commited (state_of_group s e))"
proof (cases "egroup x")
  case None
  with assms show ?thesis by (simp add: avahi_entry_is_commited_def get_entry_def state_of_group_def commited_def)
next
  case (Some h)
  then obtain y where "gstore s h = Some y" using zone_entry [OF assms(1,2)] by (auto simp: entry_ok_def)
  with Some assms(2,3) show ?thesis
    by (simp add: avahi_entry_is_commited_def get_entry_def state_of_group_def commited_def get_group_def)
qed

text \<open>
  Entry \<open>e\<close> has an announcer on interface \<open>i\<close>, if it is one for the entry. The announcers there
  were stay as they are; the new ones start.
\<close>

definition announced_on :: "server \<Rightarrow> nat \<Rightarrow> nat \<Rightarrow> bool" where
  "announced_on s e i \<longleftrightarrow> (\<forall>x y. estore s e = Some x \<longrightarrow> istore s i = Some y \<longrightarrow> \<not> edead x \<longrightarrow>
     avahi_interface_match y (einterface x) (eprotocol x) \<longrightarrow> announcing y \<longrightarrow> commited (state_of_group s e) \<longrightarrow> announcer_at s e i \<noteq> None)"

definition belongs_on :: "server \<Rightarrow> nat \<Rightarrow> nat \<Rightarrow> bool" where
  "belongs_on s e i \<longleftrightarrow> (\<exists>x y. estore s e = Some x \<and> istore s i = Some y \<and> \<not> edead x \<and>
     avahi_interface_match y (einterface x) (eprotocol x) \<and> announcing y \<and> commited (state_of_group s e))"

definition new_started :: "timeval \<Rightarrow> server \<Rightarrow> server \<Rightarrow> bool" where
  "new_started now s s' \<longleftrightarrow>
     (\<forall>e i a. announcer_at s e i = Some a \<longrightarrow> announcer_at s' e i = Some a) \<and>
     (\<forall>e i a'. announcer_at s e i = None \<longrightarrow> announcer_at s' e i = Some a' \<longrightarrow>
        belongs_on s e i \<and> (\<exists>x st. estore s e = Some x \<and> initial_state s x = Ret st \<and> started now (fresh_announcer i) st a'))"

end
