(* ===== verification/Announce_Groups.thy ===== *)
theory Announce_Groups
  imports Announce_Steps
begin

text \<open>
  Operations that walk over entries and interfaces keep the invariant: announcing an interface, an
  entry or a group gives every live entry its announcers.
\<close>

section \<open>New announcers\<close>

definition announces :: "timeval \<Rightarrow> server \<Rightarrow> server \<Rightarrow> bool" where
  "announces now s s' \<longleftrightarrow> same_entries now s s' \<and> same_groups s s' \<and> new_started now s s'"

lemma announces_refl: "announces now s s"
  by (auto simp: announces_def same_entries_refl same_groups_refl new_started_def)

lemma same_state_of_group:
  assumes "same_entries now s s'" "same_groups s s'"
  shows "state_of_group s' e = state_of_group s e"
proof (cases "estore s e")
  case None
  moreover have "map_option bare (estore s' e) = map_option bare (estore s e)" using assms(1) by (simp add: same_entries_def)
  ultimately show ?thesis by (simp add: state_of_group_def)
next
  case (Some x)
  have "map_option bare (estore s' e) = map_option bare (estore s e)" using assms(1) by (simp add: same_entries_def)
  from bare_entry [OF this Some] obtain x' where "estore s' e = Some x'" "egroup x' = egroup x" .
  with Some same_groups_gstate(1) [OF assms(2)] show ?thesis by (simp add: state_of_group_def cong: option.case_cong)
qed

lemma same_iface:
  assumes "same_entries now s s'" "istore s' i = Some y'"
  obtains y where "istore s i = Some y" "announcing y' = announcing y" "hw_index y' = hw_index y" "iprotocol y' = iprotocol y"
proof -
  have "map_option (\<lambda>y. (announcing y, hw_index y, iprotocol y)) (istore s' i) =
      map_option (\<lambda>y. (announcing y, hw_index y, iprotocol y)) (istore s i)" using assms(1) by (simp add: same_entries_def)
  with assms(2) that show thesis by (cases "istore s i") auto
qed

lemma same_istore: "same_entries now s s' \<Longrightarrow> istore s' i = None \<longleftrightarrow> istore s i = None"
proof -
  assume "same_entries now s s'"
  then have "map_option (\<lambda>y. (announcing y, hw_index y, iprotocol y)) (istore s' i) =
      map_option (\<lambda>y. (announcing y, hw_index y, iprotocol y)) (istore s i)" by (simp add: same_entries_def)
  then show ?thesis by (cases "istore s i"; cases "istore s' i") simp_all
qed

lemma same_entry:
  assumes "same_entries now s s'" "estore s e = Some x"
  obtains x' where "estore s' e = Some x'" "egroup x' = egroup x" "edead x' = edead x" "eflags x' = eflags x" "erecord x' = erecord x"
    "einterface x' = einterface x" "eprotocol x' = eprotocol x"
proof -
  have "map_option bare (estore s' e) = map_option bare (estore s e)" using assms(1) by (simp add: same_entries_def)
  from bare_entry [OF this assms(2)] that show thesis by blast
qed

lemma same_entry_back:
  assumes "same_entries now s s'" "estore s' e = Some x'"
  obtains x where "estore s e = Some x" "egroup x' = egroup x" "edead x' = edead x" "eflags x' = eflags x" "erecord x' = erecord x"
    "einterface x' = einterface x" "eprotocol x' = eprotocol x"
proof -
  have "map_option bare (estore s' e) = map_option bare (estore s e)" using assms(1) by (simp add: same_entries_def)
  then have "map_option bare (estore s e) = map_option bare (estore s' e)" by simp
  from bare_entry [OF this assms(2)] obtain x where "estore s e = Some x" "egroup x = egroup x'" "edead x = edead x'"
    "eflags x = eflags x'" "erecord x = erecord x'" "einterface x = einterface x'" "eprotocol x = eprotocol x'" .
  then show thesis by (intro that [of x]) simp_all
qed

lemma same_initial_state:
  assumes "same_groups s s'" "egroup x' = egroup x" "eflags x' = eflags x"
  shows "initial_state s' x' = initial_state s x"
proof -
  have "initial_state s' x' = initial_state s' x" using assms(2,3) by (simp add: initial_state_def unique_def)
  also have "initial_state s' x = initial_state s x" using same_groups_gstate(1) [OF assms(1)] by (rule initial_state_cong)
  finally show ?thesis .
qed

lemma belongs_back:
  assumes "same_entries now s s'" "same_groups s s'" "belongs_on s' e i"
  shows "belongs_on s e i"
proof -
  from assms(3) obtain x' y' where x': "estore s' e = Some x'" "istore s' i = Some y'" "\<not> edead x'"
    "avahi_interface_match y' (einterface x') (eprotocol x')" "announcing y'" "commited (state_of_group s' e)" by (auto simp: belongs_on_def)
  from same_entry_back [OF assms(1) x'(1)] obtain x where x: "estore s e = Some x" "edead x' = edead x"
    "einterface x' = einterface x" "eprotocol x' = eprotocol x" .
  from same_iface [OF assms(1) x'(2)] obtain y where y: "istore s i = Some y" "announcing y' = announcing y" "hw_index y' = hw_index y"
    "iprotocol y' = iprotocol y" .
  show ?thesis using x x' y same_state_of_group [OF assms(1,2)] by (auto simp: belongs_on_def avahi_interface_match_def)
qed

lemma announces_trans:
  assumes "announces now s s'" "announces now s' s''"
  shows "announces now s s''"
proof -
  have se: "same_entries now s s'" and sg: "same_groups s s'" and n: "new_started now s s'" and n': "new_started now s' s''"
    using assms by (simp_all add: announces_def)
  have "new_started now s s''" unfolding new_started_def
  proof (intro conjI allI impI)
    show "announcer_at s'' e i = Some a" if "announcer_at s e i = Some a" for e i a
      using n n' that by (simp add: new_started_def)
    show "belongs_on s e i" if none: "announcer_at s e i = None" and a': "announcer_at s'' e i = Some a'" for e i a'
    proof (cases "announcer_at s' e i")
      case None
      with n' a' have "belongs_on s' e i" by (simp add: new_started_def)
      from belongs_back [OF se sg this] show ?thesis .
    qed (use n none in \<open>simp add: new_started_def\<close>)
    show "\<exists>x st. estore s e = Some x \<and> initial_state s x = Ret st \<and> started now (fresh_announcer i) st a'"
      if none: "announcer_at s e i = None" and a': "announcer_at s'' e i = Some a'" for e i a'
    proof (cases "announcer_at s' e i")
      case (Some a)
      with n' a' have "a' = a" by (simp add: new_started_def)
      with n none Some show ?thesis by (simp add: new_started_def)
    next
      case None
      with n' a' obtain x' st where x': "estore s' e = Some x'" "initial_state s' x' = Ret st" "started now (fresh_announcer i) st a'"
        unfolding new_started_def by blast
      from same_entry_back [OF se x'(1)] obtain x where x: "estore s e = Some x" "egroup x' = egroup x" "eflags x' = eflags x" .
      have "initial_state s x = Ret st" using same_initial_state [OF sg x(2,3)] x'(2) by simp
      with x(1) x'(3) show ?thesis by blast
    qed
  qed
  then show ?thesis using assms same_entries_trans [of now s s' s''] same_groups_trans [of s s' s''] by (simp add: announces_def)
qed

lemma announced_on_keep:
  assumes "announces now s s'" "announced_on s e i"
  shows "announced_on s' e i"
proof -
  have se: "same_entries now s s'" and sg: "same_groups s s'" and n: "new_started now s s'" using assms by (simp_all add: announces_def)
  show ?thesis unfolding announced_on_def
  proof (intro allI impI)
    fix x' y' assume x': "estore s' e = Some x'" "istore s' i = Some y'" "\<not> edead x'"
      "avahi_interface_match y' (einterface x') (eprotocol x')" "announcing y'" "commited (state_of_group s' e)"
    from same_entry_back [OF se x'(1)] obtain x where x: "estore s e = Some x" "edead x' = edead x"
      "einterface x' = einterface x" "eprotocol x' = eprotocol x" .
    from same_iface [OF se x'(2)] obtain y where y: "istore s i = Some y" "announcing y' = announcing y" "hw_index y' = hw_index y"
      "iprotocol y' = iprotocol y" .
    have "announcer_at s e i \<noteq> None"
      using assms(2) x x' y same_state_of_group [OF se sg] by (auto simp: announced_on_def avahi_interface_match_def)
    then obtain a where "announcer_at s e i = Some a" by blast
    with n show "announcer_at s' e i \<noteq> None" by (simp add: new_started_def)
  qed
qed

lemma new_announcer_ok:
  assumes inv: "server_inv L sc s" and now: "normalized now" "rand_ok rnd"
    and x: "estore s e = Some x" "\<not> edead x" and i: "istore s i \<noteq> None"
  shows "\<exists>s'. new_announcer now rnd i e s = Ret s' \<and> server_inv L sc s' \<and> announces now s s' \<and> announced_on s' e i \<and>
    (\<forall>e' i'. i' \<noteq> i \<longrightarrow> announcer_at s' e' i' = announcer_at s e' i')"
proof -
  have zone: "zone_ok L sc {} s" and io: "io_ok s" "lread (srecords s) = []" using inv by (auto simp: server_inv_def)
  obtain y where y: "istore s i = Some y" using i by blast
  note com = is_commited_eq [OF zone x]
  show ?thesis
  proof (cases "avahi_interface_match y (einterface x) (eprotocol x) \<and> announcing y \<and> commited (state_of_group s e) \<and> get_announcer x i = None")
    case False
    then have "new_announcer now rnd i e s = Ret s" using x y com by (auto simp: new_announcer_def get_entry_def get_iface_def)
    moreover have "announced_on s e i" using False x y by (auto simp: announced_on_def announcer_at_def)
    ultimately show ?thesis using inv announces_refl by blast
  next
    case True
    let ?a = "fresh_announcer i"
    let ?x = "x\<lparr>announcers := ?a # announcers x\<rparr>"
    let ?s = "set_entry e ?x s"
    have xok: "entry_ok s x" using zone_entry [OF zone x(1)] by simp
    have none: "i \<notin> ainterface ` set (announcers x)" using True by (auto simp: get_announcer_def find_None_iff)
    have at: "announcer_at ?s e' i' = (if e' = e \<and> i' = i then Some ?a else announcer_at s e' i')" for e' i'
      using x(1) by (auto simp: announcer_at_def get_announcer_def fresh_announcer_def)
    have "entry_moves x ?x" using xok x(2) none by (simp add: entry_moves_def entry_ok_def probing_in_def fresh_announcer_def)
    then have "rel_option entry_moves (estore s e') (estore ?s e')" for e'
      using entry_moves_refl zone_entry [OF zone, of e'] x(1) by (cases "estore s e'") auto
    then have z: "zone_ok L sc {(e, i)} ?s"
      by (intro zone_estore [OF zone]) (use at i zone_announcer [OF zone] in \<open>auto split: if_splits\<close>)
    have ios: "io_ok ?s" "lread (srecords ?s) = []" using io by (simp_all add: io_ok_def)
    have xs: "estore ?s e = Some ?x" by simp
    have ats: "announcer_at ?s e i = Some ?a" using at by simp
    have bare: "bare ?x = bare x" by (simp add: bare_def)
    note same = set_entry_same [OF x(1) bare]
    have sg: "state_of_group ?s e = state_of_group s e" by (rule same_state_of_group [OF same])
    have "\<exists>s' a' st. go_to_initial_state now rnd e i (adjust (\<lambda>n. n) e ?s) = Ret s' \<and> initial_state ?s ?x = Ret st \<and>
      zone_ok L sc {} s' \<and> io_ok s' \<and> lread (srecords s') = [] \<and> same_entries now ?s s' \<and> same_groups ?s s' \<and> started now ?a st a' \<and>
      (\<forall>e' i'. announcer_at s' e' i' = (if e' = e \<and> i' = i then Some a' else announcer_at ?s e' i'))"
      using True sg group_sum [OF z]
      by (intro go_to_initial_state_ok [OF z ios now xs ats]) (auto simp: commited_def fresh_announcer_def)
    then obtain s' a' st where s': "go_to_initial_state now rnd e i ?s = Ret s'" "initial_state ?s ?x = Ret st"
      "zone_ok L sc {} s'" "io_ok s'" "lread (srecords s') = []" "same_entries now ?s s'" "same_groups ?s s'" "started now ?a st a'"
      "\<forall>e' i'. announcer_at s' e' i' = (if e' = e \<and> i' = i then Some a' else announcer_at ?s e' i')" by (auto simp: adjust_id)
    have "initial_state s x = Ret st" using s'(2) same_initial_state [OF same(2)] by simp
    moreover have "belongs_on s e i" using True x y by (simp add: belongs_on_def)
    ultimately have "new_started now s s'" using s'(8,9) at x(1) True unfolding new_started_def
      by (auto simp: announcer_at_def)
    moreover have "same_entries now s s'" "same_groups s s'"
      using same_entries_trans [OF same(1) s'(6)] same_groups_trans [OF same(2) s'(7)] .
    moreover have "new_announcer now rnd i e s = Ret s'"
      using x y com True s'(1) by (simp add: new_announcer_def get_entry_def get_iface_def)
    moreover have "announced_on s' e i" using s'(9) by (simp add: announced_on_def)
    moreover have "\<forall>e' i'. i' \<noteq> i \<longrightarrow> announcer_at s' e' i' = announcer_at s e' i'" using s'(9) at by simp
    ultimately show ?thesis using s'(3-5) by (auto simp: announces_def server_inv_def)
  qed
qed

section \<open>Walks\<close>

lemma interface_walk_ok:
  assumes step: "\<And>i s y. i \<in> set is \<Longrightarrow> I s \<Longrightarrow> istore s i = Some y \<Longrightarrow> avahi_interface_match y idx p \<Longrightarrow>
      \<exists>s'. f i s = Ret s' \<and> I s' \<and> R s s' \<and> Q i s'"
    and other: "\<And>i s y. i \<in> set is \<Longrightarrow> I s \<Longrightarrow> istore s i = Some y \<Longrightarrow> \<not> avahi_interface_match y idx p \<Longrightarrow> Q i s"
    and store: "\<And>i s. i \<in> set is \<Longrightarrow> I s \<Longrightarrow> istore s i \<noteq> None"
    and refl: "\<And>s. I s \<Longrightarrow> R s s" and trans: "\<And>s s' s''. R s s' \<Longrightarrow> R s' s'' \<Longrightarrow> R s s''"
    and keep: "\<And>i s s'. R s s' \<Longrightarrow> Q i s \<Longrightarrow> Q i s'"
    and I: "I s"
  shows "\<exists>s'. interface_walk f idx p is s = Ret s' \<and> I s' \<and> R s s' \<and> (\<forall>i \<in> set is. Q i s')"
  using I step other store
proof (induction "is" arbitrary: s)
  case Nil
  then show ?case using refl by auto
next
  case (Cons i "is")
  obtain y where y: "istore s i = Some y" using Cons.prems(4) [of i s] Cons.prems(1) by auto
  obtain s1 where s1: "(if avahi_interface_match y idx p then f i s else Ret s) = Ret s1" "I s1" "R s s1" "Q i s1"
  proof (cases "avahi_interface_match y idx p")
    case True
    with Cons.prems(2) [OF _ Cons.prems(1) y True] that show thesis by auto
  next
    case False
    with Cons.prems(3) [OF _ Cons.prems(1) y False] Cons.prems(1) that refl show thesis by auto
  qed
  have "\<exists>s'. interface_walk f idx p is s1 = Ret s' \<and> I s' \<and> R s1 s' \<and> (\<forall>i \<in> set is. Q i s')"
  proof (rule Cons.IH [OF s1(2)])
    fix j t z assume j: "j \<in> set is" and t: "I t"
    from j have mem: "j \<in> set (i # is)" by simp
    show "istore t j \<noteq> None" by (rule Cons.prems(4) [OF mem t])
    assume z: "istore t j = Some z"
    show "Q j t" if "\<not> avahi_interface_match z idx p" by (rule Cons.prems(3) [OF mem t z that])
    show "\<exists>s'. f j t = Ret s' \<and> I s' \<and> R t s' \<and> Q j s'" if "avahi_interface_match z idx p" by (rule Cons.prems(2) [OF mem t z that])
  qed
  then obtain s' where s': "interface_walk f idx p is s1 = Ret s'" "I s'" "R s1 s'" "\<forall>i \<in> set is. Q i s'" by blast
  have "interface_walk f idx p (i # is) s = Ret s'" using y s1(1) s'(1) by (simp add: get_iface_def)
  moreover have "R s s'" "Q i s'" using trans [OF s1(3) s'(3)] keep [OF s'(3) s1(4)] .
  ultimately show ?case using s'(2,4) by (intro exI [of _ s']) simp
qed

lemma for_entries_ok:
  assumes step: "\<And>e s x. e \<in> set es \<Longrightarrow> I s \<Longrightarrow> estore s e = Some x \<Longrightarrow> \<not> edead x \<Longrightarrow> \<exists>s'. f e s = Ret s' \<and> I s' \<and> R s s' \<and> Q e s'"
    and dead: "\<And>e s x. e \<in> set es \<Longrightarrow> I s \<Longrightarrow> estore s e = Some x \<Longrightarrow> edead x \<Longrightarrow> Q e s"
    and store: "\<And>e s. e \<in> set es \<Longrightarrow> I s \<Longrightarrow> estore s e \<noteq> None"
    and refl: "\<And>s. I s \<Longrightarrow> R s s" and trans: "\<And>s s' s''. R s s' \<Longrightarrow> R s' s'' \<Longrightarrow> R s s''"
    and keep: "\<And>e s s'. R s s' \<Longrightarrow> Q e s \<Longrightarrow> Q e s'"
    and I: "I s"
  shows "\<exists>s'. for_entries f es s = Ret s' \<and> I s' \<and> R s s' \<and> (\<forall>e \<in> set es. Q e s')"
  using I step dead store
proof (induction es arbitrary: s)
  case Nil
  then show ?case using refl by auto
next
  case (Cons e es)
  obtain x where x: "estore s e = Some x" using Cons.prems(4) [of e s] Cons.prems(1) by auto
  obtain s1 where s1: "(if edead x then Ret s else f e s) = Ret s1" "I s1" "R s s1" "Q e s1"
  proof (cases "edead x")
    case False
    with Cons.prems(2) [OF _ Cons.prems(1) x False] that show thesis by auto
  next
    case True
    with Cons.prems(3) [OF _ Cons.prems(1) x True] Cons.prems(1) that refl show thesis by auto
  qed
  have "\<exists>s'. for_entries f es s1 = Ret s' \<and> I s' \<and> R s1 s' \<and> (\<forall>e \<in> set es. Q e s')"
  proof (rule Cons.IH [OF s1(2)])
    fix j t z assume j: "j \<in> set es" and t: "I t"
    from j have mem: "j \<in> set (e # es)" by simp
    show "estore t j \<noteq> None" by (rule Cons.prems(4) [OF mem t])
    assume z: "estore t j = Some z"
    show "Q j t" if "edead z" by (rule Cons.prems(3) [OF mem t z that])
    show "\<exists>s'. f j t = Ret s' \<and> I s' \<and> R t s' \<and> Q j s'" if "\<not> edead z" by (rule Cons.prems(2) [OF mem t z that])
  qed
  then obtain s' where s': "for_entries f es s1 = Ret s'" "I s'" "R s1 s'" "\<forall>e \<in> set es. Q e s'" by blast
  have "for_entries f (e # es) s = Ret s'" using x s1(1) s'(1) by (simp add: get_entry_def)
  moreover have "R s s'" "Q e s'" using trans [OF s1(3) s'(3)] keep [OF s'(3) s1(4)] .
  ultimately show ?case using s'(2,4) by (intro exI [of _ s']) simp
qed

section \<open>Announcing\<close>

lemma io_interfaces: "io_ok s \<Longrightarrow> istore s i \<noteq> None \<longleftrightarrow> i \<in> set (interfaces s)"
  unfolding io_ok_def by blast

lemma zone_entries: "zone_ok L sc P s \<Longrightarrow> estore s e \<noteq> None \<longleftrightarrow> e \<in> set (entries s)"
  unfolding zone_ok_def index_ready_def by blast

lemma announce_entry_ok:
  assumes inv: "server_inv L sc s" and now: "normalized now" "rand_ok rnd" and x: "estore s e = Some x" "\<not> edead x"
  shows "\<exists>s'. avahi_announce_entry now rnd e s = Ret s' \<and> server_inv L sc s' \<and> announces now s s' \<and> (\<forall>i. announced_on s' e i)"
proof -
  let ?I = "\<lambda>t. server_inv L sc t \<and> same_entries now s t"
  have ent: "\<exists>x'. estore t e = Some x' \<and> \<not> edead x' \<and> einterface x' = einterface x \<and> eprotocol x' = eprotocol x" if "?I t" for t
    using same_entry [of now s t e x] that x by metis
  have "\<exists>s'. interface_walk (\<lambda>i. new_announcer now rnd i e) (einterface x) (eprotocol x) (interfaces s) s = Ret s' \<and> ?I s' \<and>
    announces now s s' \<and> (\<forall>i \<in> set (interfaces s). announced_on s' e i)"
  proof (rule interface_walk_ok)
    fix i t y assume t: "?I t" and y: "istore t i = Some y"
    from ent [OF t] obtain x' where x': "estore t e = Some x'" "\<not> edead x'" "einterface x' = einterface x" "eprotocol x' = eprotocol x" by blast
    show "announced_on t e i" if "\<not> avahi_interface_match y (einterface x) (eprotocol x)"
      using that x' y by (simp add: announced_on_def)
    have "istore t i \<noteq> None" using y by simp
    from new_announcer_ok [OF _ now x'(1,2) this] t obtain s' where
      "new_announcer now rnd i e t = Ret s'" "server_inv L sc s'" "announces now t s'" "announced_on s' e i" by blast
    with t show "\<exists>s'. new_announcer now rnd i e t = Ret s' \<and> ?I s' \<and> announces now t s' \<and> announced_on s' e i"
      using same_entries_trans [of now s t s'] by (auto simp: announces_def)
  next
    show "istore t i \<noteq> None" if "i \<in> set (interfaces s)" "?I t" for i t
      using that io_interfaces [of t i] by (auto simp: server_inv_def same_entries_def)
  qed (use inv same_entries_refl in \<open>auto intro: announces_refl announces_trans announced_on_keep\<close>)
  then obtain s' where s': "interface_walk (\<lambda>i. new_announcer now rnd i e) (einterface x) (eprotocol x) (interfaces s) s = Ret s'"
    "?I s'" "announces now s s'" "\<forall>i \<in> set (interfaces s). announced_on s' e i" by blast
  have "announced_on s' e i" for i
  proof (cases "i \<in> set (interfaces s)")
    case False
    then have "istore s' i = None" using s'(2) io_interfaces [of s' i] by (auto simp: server_inv_def same_entries_def)
    then show ?thesis by (simp add: announced_on_def)
  qed (use s'(4) in simp)
  with s' x show ?thesis by (intro exI [of _ s']) (simp add: avahi_announce_entry_def get_entry_def)
qed

lemma announce_interface_ok:
  assumes inv: "server_inv L sc s" and now: "normalized now" "rand_ok rnd" and i: "istore s i \<noteq> None"
  shows "\<exists>s'. avahi_announce_interface now rnd i s = Ret s' \<and> server_inv L sc s' \<and> announces now s s' \<and> (\<forall>e. announced_on s' e i) \<and>
    (\<forall>e j. j \<noteq> i \<longrightarrow> announcer_at s' e j = announcer_at s e j)"
proof -
  obtain y where y: "istore s i = Some y" using i by blast
  show ?thesis
  proof (cases "announcing y")
    case False
    with y have "\<forall>e. announced_on s e i" by (simp add: announced_on_def)
    with False y inv show ?thesis
      by (intro exI [of _ s]) (simp add: avahi_announce_interface_def get_iface_def announces_refl)
  next
    case True
    let ?I = "\<lambda>t. server_inv L sc t \<and> same_entries now s t"
      and ?R = "\<lambda>t t'. announces now t t' \<and> (\<forall>e j. j \<noteq> i \<longrightarrow> announcer_at t' e j = announcer_at t e j)"
    have "\<exists>s'. for_entries (new_announcer now rnd i) (entries s) s = Ret s' \<and> ?I s' \<and> ?R s s' \<and>
      (\<forall>e \<in> set (entries s). announced_on s' e i)"
    proof (rule for_entries_ok)
      fix e t x assume t: "?I t" and x: "estore t e = Some x"
      show "announced_on t e i" if "edead x" using that x by (simp add: announced_on_def)
      have "istore t i \<noteq> None" using i t same_istore [of now s t i] by simp
      from new_announcer_ok [OF _ now x _ this] t
      show "\<exists>s'. new_announcer now rnd i e t = Ret s' \<and> ?I s' \<and> ?R t s' \<and> announced_on s' e i" if "\<not> edead x"
        using that same_entries_trans unfolding announces_def by blast
    next
      show "estore t e \<noteq> None" if "e \<in> set (entries s)" "?I t" for e t
        using that zone_entries [of L sc "{}" t e] by (auto simp: server_inv_def same_entries_def)
    qed (use inv same_entries_refl in \<open>auto intro: announces_refl announces_trans announced_on_keep\<close>)
    then obtain s' where s': "for_entries (new_announcer now rnd i) (entries s) s = Ret s'" "?I s'" "?R s s'"
      "\<forall>e \<in> set (entries s). announced_on s' e i" by blast
    have "announced_on s' e i" for e
    proof (cases "e \<in> set (entries s)")
      case False
      then have "estore s' e = None" using s'(2) zone_entries [of L sc "{}" s' e] by (auto simp: server_inv_def same_entries_def)
      then show ?thesis by (simp add: announced_on_def)
    qed (use s'(4) in simp)
    with s' y True show ?thesis by (intro exI [of _ s']) (simp add: avahi_announce_interface_def get_iface_def)
  qed
qed

lemma announce_group_ok:
  assumes inv: "server_inv L sc s" and now: "normalized now" "rand_ok rnd" and y: "gstore s g = Some y"
  shows "\<exists>s'. avahi_announce_group now rnd g s = Ret s' \<and> server_inv L sc s' \<and> announces now s s' \<and>
    (\<forall>e \<in> set (gentries y). \<forall>i. announced_on s' e i)"
proof -
  let ?I = "\<lambda>t. server_inv L sc t \<and> same_entries now s t"
  have g: "group_ok L s g y" using inv y zone_group [of L sc "{}" s] by (simp add: server_inv_def)
  have "\<exists>s'. for_entries (avahi_announce_entry now rnd) (gentries y) s = Ret s' \<and> ?I s' \<and> announces now s s' \<and>
    (\<forall>e \<in> set (gentries y). \<forall>i. announced_on s' e i)"
  proof (rule for_entries_ok)
    fix e t x assume t: "?I t" and x: "estore t e = Some x"
    show "\<forall>i. announced_on t e i" if "edead x" using that x by (simp add: announced_on_def)
    from announce_entry_ok [OF _ now x] t
    show "\<exists>s'. avahi_announce_entry now rnd e t = Ret s' \<and> ?I s' \<and> announces now t s' \<and> (\<forall>i. announced_on s' e i)" if "\<not> edead x"
      using that same_entries_trans unfolding announces_def by blast
  next
    fix e t assume e: "e \<in> set (gentries y)" and t: "?I t"
    from e g obtain x where "estore s e = Some x" by (auto simp: group_ok_def)
    with same_entry [of now s t e x] t show "estore t e \<noteq> None" by auto
  qed (use inv same_entries_refl in \<open>auto intro: announces_refl announces_trans announced_on_keep\<close>)
  with y show ?thesis by (auto simp: avahi_announce_group_def get_group_def)
qed

end
