(* ===== verification/Goodbye.thy ===== *)
theory Goodbye
  imports Announce_Groups
begin

text \<open>
  Saying goodbye keeps the invariant, and so does taking announcers away: entries are killed and
  interfaces are left.
\<close>

section \<open>Goodbye\<close>

lemma duplicate_ok:
  assumes "rr_ok r" "\<forall>i \<in> set es. \<exists>x. estore s i = Some x \<and> rr_ok (erecord x)"
  shows "duplicate_in s e r es = Ret (\<exists>i \<in> set es. i \<noteq> e \<and> (\<exists>x. estore s i = Some x \<and> \<not> edead x \<and> rr_abs (erecord x) = rr_abs r))"
  using assms(2)
proof (induction es)
  case (Cons i es)
  then obtain x where x: "estore s i = Some x" "rr_ok (erecord x)" by auto
  show ?case
  proof (cases "i = e \<or> edead x")
    case True
    with Cons x show ?thesis by (auto simp: get_entry_def)
  next
    case False
    with Cons x record_equal_abs [OF x(2) assms(1)] show ?thesis by (auto simp: get_entry_def)
  qed
qed simp

lemma is_duplicate_ok:
  assumes zone: "zone_ok L sc P s" and x: "estore s e = Some x"
  shows "is_duplicate_entry sc s e =
    Ret (\<exists>i x'. i \<noteq> e \<and> estore s i = Some x' \<and> \<not> edead x' \<and> rr_abs (erecord x') = rr_abs (erecord x))"
proof -
  let ?l = "index_list sc (entries_by_key s) (rkey (erecord x))"
  have r: "rr_ok (erecord x')" if "estore s e' = Some x'" for e' x' using zone_entry [OF zone that] publishable_ok by blast
  have k: "key_ok (rkey (erecord x))" using r [OF x] by (simp add: rr_ok_def)
  note listed = listed_entries [OF zone_index [OF zone] k]
  have "\<forall>i \<in> set ?l. \<exists>x'. estore s i = Some x' \<and> rr_ok (erecord x')" using listed r by blast
  note dup = duplicate_ok [OF r [OF x] this, of e]
  have "key_abs (rkey r1) = key_abs (rkey r2)" if "rr_abs r1 = rr_abs r2" for r1 r2 using that by (simp add: rr_abs_def key_abs_def)
  then have "(\<exists>i \<in> set ?l. i \<noteq> e \<and> (\<exists>x'. estore s i = Some x' \<and> \<not> edead x' \<and> rr_abs (erecord x') = rr_abs (erecord x))) \<longleftrightarrow>
    (\<exists>i x'. i \<noteq> e \<and> estore s i = Some x' \<and> \<not> edead x' \<and> rr_abs (erecord x') = rr_abs (erecord x))" using listed by blast
  with dup x show ?thesis by (simp add: is_duplicate_entry_def get_entry_def)
qed

lemma send_goodbye_ok:
  assumes zone: "zone_ok L sc P s" and io: "io_ok s" and now: "normalized now" "rand_ok rnd"
    and x: "estore s e = Some x" "\<not> edead x" and i: "istore s i \<noteq> None"
  shows "\<exists>s'. send_goodbye_callback sc now rnd e i s = Ret s' \<and> quiet_step now s s' \<and> srecords s' = srecords s"
proof -
  obtain y where y: "istore s i = Some y" using i by blast
  have pub: "publishable (erecord x)" using zone_entry [OF zone x(1)] by simp
  note good = goodbye_record [OF pub]
  obtain dup where dup: "is_duplicate_entry sc s e = Ret dup" using is_duplicate_ok [OF zone x(1)] by blast
  show ?thesis
  proof (cases "avahi_interface_match y (einterface x) (eprotocol x) \<and> AVAHI_PUBLISH_NO_ANNOUNCE \<notin> eflags x \<and> registered_on s i x \<and> \<not> dup")
    case False
    with x y dup is_registered_on [OF x, of i] quiet_refl [OF io, of now] show ?thesis
      by (intro exI [of _ s]) (auto simp: send_goodbye_callback_def get_entry_def get_iface_def)
  next
    case True
    have "querier_ok None" by (simp add: querier_ok_def)
    from post_response_ok [OF io good(2) this now i, of "unique x" True] obtain s' b where
      "avahi_interface_post_response now rnd s i ((erecord x)\<lparr>ttl := 0\<rparr>) (unique x) None True = Ret (s', b)" "quiet_step now s s'"
      "srecords s' = srecords s" .
    with True x y dup is_registered_on [OF x, of i] good(1) show ?thesis
      by (intro exI [of _ s']) (simp add: send_goodbye_callback_def get_entry_def get_iface_def)
  qed
qed

lemma goodbye_entry_ok:
  assumes zone: "zone_ok L sc P s" and io: "io_ok s" and now: "normalized now" "rand_ok rnd" and x: "estore s e = Some x"
  shows "\<exists>t. avahi_goodbye_entry sc now rnd e send_goodbye remove s = Ret (if remove then set_entry e (x\<lparr>announcers := []\<rparr>) t else t) \<and>
    quiet_step now s t \<and> srecords t = srecords s"
proof -
  obtain t where t: "(if send_goodbye \<and> \<not> edead x
      then interface_walk (send_goodbye_callback sc now rnd e) AVAHI_IF_UNSPEC AVAHI_PROTO_UNSPEC (interfaces s) s
      else Ret s) = Ret t" "quiet_step now s t" "srecords t = srecords s"
  proof (cases "send_goodbye \<and> \<not> edead x")
    case False
    then show thesis using that quiet_refl [OF io] by auto
  next
    case True
    let ?I = "\<lambda>t. quiet_step now s t \<and> srecords t = srecords s"
    have "\<exists>t. interface_walk (send_goodbye_callback sc now rnd e) AVAHI_IF_UNSPEC AVAHI_PROTO_UNSPEC (interfaces s) s = Ret t \<and> ?I t \<and>
      True \<and> (\<forall>i \<in> set (interfaces s). True)"
    proof (rule interface_walk_ok [where R = "\<lambda>_ _. True" and Q = "\<lambda>_ _. True"])
      fix i u y assume u: "?I u" and y: "istore u i = Some y"
      have "istore u i \<noteq> None" using y by simp
      from send_goodbye_ok [OF zone_quiet [OF _ zone] _ now _ _ this, of now e x] u x True quiet_io
      obtain u' where "send_goodbye_callback sc now rnd e i u = Ret u'" "quiet_step now u u'" "srecords u' = srecords u"
        by (auto simp: quiet_zone)
      with u show "\<exists>u'. send_goodbye_callback sc now rnd e i u = Ret u' \<and> ?I u' \<and> True \<and> True"
        using quiet_trans by (intro exI [of _ u']) auto
    next
      show "istore u i \<noteq> None" if "i \<in> set (interfaces s)" "?I u" for i u
        using that io_interfaces [OF io, of i] quiet_istore [of now s u i] by blast
    qed (use quiet_refl [OF io] in auto)
    with True that show thesis by auto
  qed
  have "estore t e = Some x" using x by (simp add: quiet_zone [OF t(2)])
  with t x show ?thesis
    by (intro exI [of _ t]) (simp add: avahi_goodbye_entry_def remove_entry_announcers_def get_entry_def)
qed

section \<open>Fewer announcers\<close>

text \<open>Some announcers are gone, and all those of entries that are marked dead.\<close>

definition lose_announcers :: "(announcer \<Rightarrow> bool) \<Rightarrow> bool \<Rightarrow> entry \<Rightarrow> entry" where
  "lose_announcers Q dead x = x\<lparr>announcers := filter (\<lambda>a. \<not> Q a) (announcers x), edead := edead x \<or> dead\<rparr>"

lemma lose_announcers_simps [simp]:
  "egroup (lose_announcers Q d x) = egroup x" "eflags (lose_announcers Q d x) = eflags x" "erecord (lose_announcers Q d x) = erecord x"
  "einterface (lose_announcers Q d x) = einterface x" "eprotocol (lose_announcers Q d x) = eprotocol x"
  "edead (lose_announcers Q d x) = (edead x \<or> d)" "announcers (lose_announcers Q d x) = filter (\<lambda>a. \<not> Q a) (announcers x)"
  by (simp_all add: lose_announcers_def)

lemma get_announcer_fewer:
  assumes "distinct (map ainterface (announcers x))" "get_announcer (lose_announcers Q d x) i = Some a"
  shows "get_announcer x i = Some a"
proof -
  from get_announcer_Some [OF assms(2)] have "a \<in> set (announcers x)" "ainterface a = i" by auto
  with get_announcer_mem [OF assms(1)] show ?thesis by auto
qed

lemma probing_in_filter: "probing_in (filter P as) \<le> probing_in as"
  by (induction as) (auto simp: probing_in_def)

lemma server_inv_fewer:
  assumes inv: "server_inv L sc s" and io: "io_ok s'" "lread (srecords s') = []"
    and same: "entries s' = entries s" "entries_by_key s' = entries_by_key s" "groups s' = groups s"
      "gstore s' = gstore s" "\<And>i. istore s' i = None \<longleftrightarrow> istore s i = None"
    and store: "\<And>e. estore s' e = map_option (lose_announcers (Q e) (D e)) (estore s e)"
    and dead: "\<And>e a. D e \<Longrightarrow> Q e a"
  shows "server_inv L sc s'"
proof -
  have zone: "zone_ok L sc {} s" using inv by (simp add: server_inv_def)
  have "zone_ok L sc {} s'"
  proof (rule zone_estore [OF zone same])
    fix e
    show "rel_option entry_moves (estore s e) (estore s' e)"
    proof (cases "estore s e")
      case None
      with store show ?thesis by simp
    next
      case (Some x)
      have "entry_ok s x" using zone_entry [OF zone Some] by simp
      moreover have "probing_in (filter (\<lambda>a. \<not> Q e a) (announcers x)) \<le> probing_in (announcers x)"
        by (rule probing_in_filter)
      ultimately have "entry_moves x (lose_announcers (Q e) (D e) x)"
        using dead [of e] by (auto simp: entry_moves_def entry_ok_def distinct_map_filter)
      with Some store show ?thesis by simp
    qed
    fix i a assume "announcer_at s' e i = Some a"
    then obtain x where x: "estore s e = Some x" "get_announcer (lose_announcers (Q e) (D e) x) i = Some a"
      using store [of e] by (auto simp: announcer_at_def split: option.splits)
    have "distinct (map ainterface (announcers x))" using zone_entry [OF zone x(1)] by (simp add: entry_ok_def)
    from get_announcer_fewer [OF this x(2)] x(1) have "announcer_at s e i = Some a" by (simp add: announcer_at_def)
    from zone_announcer [OF zone this]
    show "istore s i \<noteq> None \<and> ((e, i) \<notin> {} \<longrightarrow> announcer_ok (state_of_group s e) a)" by simp
  qed
  with io show ?thesis by (simp add: server_inv_def)
qed

text \<open>The entries in \<open>es\<close> are dead, and nothing else has changed but the schedules.\<close>

definition kill :: "entry \<Rightarrow> entry" where
  "kill = lose_announcers (\<lambda>_. True) True"

lemma kill_simps [simp]:
  "egroup (kill x) = egroup x" "eflags (kill x) = eflags x" "erecord (kill x) = erecord x"
  "einterface (kill x) = einterface x" "eprotocol (kill x) = eprotocol x" "edead (kill x)" "announcers (kill x) = []" "kill (kill x) = kill x"
  by (simp_all add: kill_def lose_announcers_def)

definition killed :: "server \<Rightarrow> server \<Rightarrow> nat set \<Rightarrow> bool" where
  "killed s s' es \<longleftrightarrow> entries s' = entries s \<and> entries_by_key s' = entries_by_key s \<and> groups s' = groups s \<and> gstore s' = gstore s \<and>
     interfaces s' = interfaces s \<and> changes s' = changes s \<and> (\<forall>e. estore s' e = (if e \<in> es then map_option kill (estore s e) else estore s e)) \<and>
     (\<forall>i. istore s' i = None \<longleftrightarrow> istore s i = None)"

lemma killed_trans: "killed s s' es \<Longrightarrow> killed s' s'' es' \<Longrightarrow> killed s s'' (es \<union> es')"
  by (auto simp: killed_def option.map_comp o_def intro!: option.map_cong)

lemma kill_dead: "entry_ok s x \<Longrightarrow> edead x \<Longrightarrow> kill x = x"
  by (cases x) (simp add: kill_def lose_announcers_def entry_ok_def)

lemma kill_entry_ok:
  assumes inv: "server_inv L sc s" and now: "normalized now" "rand_ok rnd" and x: "estore s e = Some x"
  shows "\<exists>s'. kill_entry sc now rnd send_goodbye e s = Ret s' \<and> server_inv L sc s' \<and> killed s s' {e}"
proof -
  have zone: "zone_ok L sc {} s" and io: "io_ok s" "lread (srecords s) = []" using inv by (auto simp: server_inv_def)
  from goodbye_entry_ok [OF zone io(1) now x, of send_goodbye True] obtain t where
    t: "avahi_goodbye_entry sc now rnd e send_goodbye True s = Ret (set_entry e (x\<lparr>announcers := []\<rparr>) t)" "quiet_step now s t"
      "srecords t = srecords s" by auto
  let ?s = "set_entry e (kill x) t"
  have kill: "x\<lparr>announcers := [], edead := True\<rparr> = kill x" by (simp add: kill_def lose_announcers_def)
  have ex: "kill_entry sc now rnd send_goodbye e s = Ret ?s"
    unfolding kill_entry_def t(1) by (simp add: get_entry_def set_entry_def kill)
  have none: "istore ?s i = None \<longleftrightarrow> istore s i = None" for i using quiet_istore [OF t(2), of i] by auto
  have store: "estore ?s e' = map_option (lose_announcers (\<lambda>_. e' = e) (e' = e)) (estore s e')" for e'
    using x by (cases "estore s e'") (auto simp: quiet_zone [OF t(2)] kill_def lose_announcers_def)
  have "io_ok ?s" "lread (srecords ?s) = []" using quiet_io [OF t(2)] t(3) io(2) by (simp_all add: io_ok_def)
  then have "server_inv L sc ?s"
    by (rule server_inv_fewer [OF inv, where Q = "\<lambda>e' _. e' = e" and D = "\<lambda>e'. e' = e"])
      (use none store in \<open>simp_all add: quiet_zone [OF t(2)]\<close>)
  moreover have "killed s ?s {e}" using none x by (auto simp: killed_def quiet_zone [OF t(2)])
  ultimately show ?thesis using ex by blast
qed

lemma kill_entries_ok:
  assumes "server_inv L sc s" "normalized now" "rand_ok rnd" "\<forall>e \<in> set es. estore s e \<noteq> None"
  shows "\<exists>s'. for_entries (kill_entry sc now rnd send_goodbye) es s = Ret s' \<and> server_inv L sc s' \<and> killed s s' (set es)"
  using assms(1,4)
proof (induction es arbitrary: s)
  case Nil
  then show ?case by (simp add: killed_def)
next
  case (Cons e es)
  obtain x where x: "estore s e = Some x" using Cons.prems(2) by auto
  obtain s1 where s1: "(if edead x then Ret s else kill_entry sc now rnd send_goodbye e s) = Ret s1" "server_inv L sc s1" "killed s s1 {e}"
  proof (cases "edead x")
    case False
    with kill_entry_ok [OF Cons.prems(1) assms(2,3) x, of send_goodbye] that show thesis by auto
  next
    case True
    have "entry_ok s x" using Cons.prems(1) x zone_entry by (auto simp: server_inv_def)
    from kill_dead [OF this True] x have "killed s s {e}" by (simp add: killed_def)
    with True Cons.prems(1) that show thesis by simp
  qed
  have "\<forall>e' \<in> set es. estore s1 e' \<noteq> None" using s1(3) Cons.prems(2) by (auto simp: killed_def)
  from Cons.IH [OF s1(2) this] obtain s' where
    s': "for_entries (kill_entry sc now rnd send_goodbye) es s1 = Ret s'" "server_inv L sc s'" "killed s1 s' (set es)" by blast
  have "killed s s' (set (e # es))" using killed_trans [OF s1(3) s'(3)] by simp
  with x s1(1) s'(1,2) show ?case by (intro exI [of _ s']) (simp add: get_entry_def)
qed

lemma goodbye_entries_ok:
  assumes zone: "zone_ok L sc P s" and io: "io_ok s" and now: "normalized now" "rand_ok rnd" and i: "istore s i \<noteq> None"
    and es: "\<forall>e \<in> set es. estore s e \<noteq> None"
  shows "\<exists>s'. for_entries (\<lambda>e. send_goodbye_callback sc now rnd e i) es s = Ret s' \<and> quiet_step now s s' \<and> srecords s' = srecords s"
proof -
  let ?I = "\<lambda>t. quiet_step now s t \<and> srecords t = srecords s"
  have "\<exists>s'. for_entries (\<lambda>e. send_goodbye_callback sc now rnd e i) es s = Ret s' \<and> ?I s' \<and> True \<and> (\<forall>e \<in> set es. True)"
  proof (rule for_entries_ok [where R = "\<lambda>_ _. True" and Q = "\<lambda>_ _. True"])
    fix e u x assume u: "?I u" and x: "estore u e = Some x" "\<not> edead x"
    have "istore u i \<noteq> None" using i quiet_istore [of now s u i] u by blast
    from send_goodbye_ok [OF zone_quiet [OF conjunct1 [OF u] zone] quiet_io [OF conjunct1 [OF u]] now x this] obtain u' where
      "send_goodbye_callback sc now rnd e i u = Ret u'" "quiet_step now u u'" "srecords u' = srecords u" by blast
    with u show "\<exists>u'. send_goodbye_callback sc now rnd e i u = Ret u' \<and> ?I u' \<and> True \<and> True"
      using quiet_trans by (intro exI [of _ u']) auto
  qed (use es quiet_refl [OF io] in \<open>auto simp: quiet_zone\<close>)
  then show ?thesis by auto
qed

lemma find_without:
  "find (\<lambda>a. ainterface a = j) (filter (\<lambda>a. ainterface a \<noteq> i) as) = (if j = i then None else find (\<lambda>a. ainterface a = j) as)"
  by (induction as) auto

text \<open>The announcers on interface \<open>i\<close> are gone.\<close>

definition left_interface :: "nat \<Rightarrow> server \<Rightarrow> server \<Rightarrow> bool" where
  "left_interface i s s' \<longleftrightarrow> (\<forall>e. announcer_at s' e i = None) \<and> (\<forall>e j. j \<noteq> i \<longrightarrow> announcer_at s' e j = announcer_at s e j)"

lemma goodbye_interface_ok:
  assumes inv: "server_inv L sc s" and now: "normalized now" "rand_ok rnd" and i: "istore s i \<noteq> None"
  shows "\<exists>s'. avahi_goodbye_interface sc now rnd i send_goodbye remove s = Ret s' \<and> server_inv L sc s' \<and> same_groups s s' \<and>
    gstore s' = gstore s \<and> (\<forall>j. istore s' j = None \<longleftrightarrow> istore s j = None) \<and>
    (if remove then left_interface i s s' else \<forall>e j. announcer_at s' e j = announcer_at s e j)"
proof -
  have zone: "zone_ok L sc {} s" and io: "io_ok s" "lread (srecords s) = []" using inv by (auto simp: server_inv_def)
  obtain y where y: "istore s i = Some y" using i by blast
  have es: "\<forall>e \<in> set (entries s). estore s e \<noteq> None" using zone_entries [OF zone] by blast
  obtain t where t: "(if send_goodbye \<and> announcing y then for_entries (\<lambda>e. send_goodbye_callback sc now rnd e i) (entries s) s else Ret s) = Ret t"
    "quiet_step now s t" "srecords t = srecords s"
    using goodbye_entries_ok [OF zone io(1) now i es] quiet_refl [OF io(1)] by (cases "send_goodbye \<and> announcing y") auto
  note q = quiet_zone [OF t(2)] quiet_announcer [OF t(2)]
  have store_t: "\<forall>j. istore t j = None \<longleftrightarrow> istore s j = None" using quiet_istore [OF t(2)] by blast
  have inv_t: "server_inv L sc t" using zone_quiet [OF t(2) zone] quiet_io [OF t(2)] t(3) io(2) by (simp add: server_inv_def)
  show ?thesis
  proof (cases remove)
    case False
    have "same_groups s t" by (rule same_groups_store) (simp_all add: q)
    with False y t(1) inv_t show ?thesis
      by (intro exI [of _ t]) (simp add: avahi_goodbye_interface_def get_iface_def q store_t)
  next
    case True
    let ?s = "remove_interface_announcers i t"
    have store: "estore ?s e = map_option (lose_announcers (\<lambda>a. ainterface a = i) False) (estore t e)" for e
      by (cases "estore t e") (simp_all add: remove_interface_announcers_def lose_announcers_def)
    have "io_ok ?s" "lread (srecords ?s) = []" using quiet_io [OF t(2)] t(3) io(2) by (simp_all add: io_ok_def remove_interface_announcers_def)
    then have "server_inv L sc ?s"
      by (rule server_inv_fewer [OF inv_t, where Q = "\<lambda>_ a. ainterface a = i" and D = "\<lambda>_. False"])
        (use store in \<open>simp_all add: remove_interface_announcers_def\<close>)
    moreover have "announcer_at ?s e j = (if j = i then None else announcer_at t e j)" for e j
      by (auto simp: announcer_at_def get_announcer_def store find_without split: option.splits)
    then have "left_interface i s ?s" by (simp add: left_interface_def q)
    moreover have "same_groups s ?s" by (rule same_groups_store) (simp_all add: remove_interface_announcers_def q)
    moreover have "avahi_goodbye_interface sc now rnd i send_goodbye remove s = Ret ?s"
      using True y t(1) by (simp add: avahi_goodbye_interface_def get_iface_def)
    moreover have "gstore ?s = gstore s" "istore ?s = istore t" by (simp_all add: remove_interface_announcers_def q)
    ultimately show ?thesis using True store_t by auto
  qed
qed

end
