(* ===== verification/Entry_Groups.thy ===== *)
theory Entry_Groups
  imports Goodbye
begin

text \<open>
  Announcing again, and the operations of groups: to create, commit, reset and free them.
\<close>

section \<open>Announcing again\<close>

lemma allows_commited: "group_allows gs st \<Longrightarrow> commited gs"
  by (auto simp: group_allows_def commited_def split: option.splits entry_group_state.splits)

lemma announcer_commited:
  assumes "server_inv L sc s" "announcer_at s e i = Some a"
  shows "commited (state_of_group s e)" "announcer_ok (state_of_group s e) a"
proof -
  have zone: "zone_ok L sc {} s" using assms(1) by (simp add: server_inv_def)
  from zone_announcer [OF this assms(2)] show "announcer_ok (state_of_group s e) a" by simp
  then show "commited (state_of_group s e)" using allows_commited [of "state_of_group s e" "astate a"] by (simp add: announcer_ok_def)
qed

text \<open>The count of a group when an announcer stops whatever it does.\<close>

definition count_off :: "announcer \<Rightarrow> nat \<Rightarrow> nat" where
  "count_off a = (if astate a = AVAHI_PROBING then (\<lambda>n. n - 1) else (\<lambda>n. n))"

lemma count_off_ok:
  assumes zone: "zone_ok L sc P s" and a: "announcer_at s e i = Some a" and x: "estore s e = Some x" "egroup x = Some g" "gstore s g = Some y"
  shows "(\<Sum>e \<in> set (gentries y). probing_of s e) + (if g \<in> L then 1 else 0) \<le> count_off a (n_probing y) + (if astate a = AVAHI_PROBING then 1 else 0)"
  using group_sum [OF zone x(3)] announcer_positive(2) [OF zone a _ x] by (auto simp: count_off_def)

lemma probing_done_count_off:
  assumes "zone_ok L sc P s" "announcer_at s e i = Some a" "estore s e = Some x"
  shows "(if astate a = AVAHI_PROBING then probing_done (egroup x) s else Ret s) = Ret (adjust (count_off a) e s)"
proof (cases "astate a = AVAHI_PROBING")
  case True
  from probing_done_ok [OF assms(1,2) True assms(3)] True show ?thesis by (simp add: count_off_def)
next
  case False
  then show ?thesis by (simp add: count_off_def adjust_id)
qed

text \<open>The announcer of entry \<open>e\<close> on interface \<open>i\<close> has started again, in state \<open>st\<close>.\<close>

definition restarted :: "timeval \<Rightarrow> nat \<Rightarrow> nat \<Rightarrow> announcer_state \<Rightarrow> server \<Rightarrow> server \<Rightarrow> bool" where
  "restarted now e i st s s' \<longleftrightarrow> (\<exists>a a'. announcer_at s e i = Some a \<and> started now a st a' \<and>
     (\<forall>e' i'. announcer_at s' e' i' = (if e' = e \<and> i' = i then Some a' else announcer_at s e' i')))"

lemma reannounce_ok:
  assumes inv: "server_inv L sc s" and now: "normalized now" "rand_ok rnd" and x: "estore s e = Some x" and a: "announcer_at s e i = Some a"
  shows "\<exists>s'. reannounce now rnd e a s = Ret s' \<and> server_inv L sc s' \<and> same_entries now s s' \<and> same_groups s s' \<and>
    restarted now e i (reannounced_state x (astate a)) s s'"
proof -
  have zone: "zone_ok L sc {} s" and io: "io_ok s" "lread (srecords s) = []" using inv by (auto simp: server_inv_def)
  note ent = entry_of_announcer [OF zone a x]
  note com = announcer_commited [OF inv a]
  let ?st = "reannounced_state x (astate a)"
  have gs: "group_allows (state_of_group s e) ?st" using com
    by (auto simp: announcer_ok_def commited_def group_allows_def reannounced_state_def split: if_splits)
  have b: "announcer_at s e (ainterface a) = Some a" using a ent(2) by simp
  have "\<exists>s' a'. start_announcer now rnd e a ?st (adjust (count_off a) e s) = Ret s' \<and> zone_ok L sc {} s' \<and> io_ok s' \<and>
    lread (srecords s') = [] \<and> same_entries now s s' \<and> same_groups s s' \<and> started now a ?st a' \<and>
    (\<forall>e' i'. announcer_at s' e' i' = (if e' = e \<and> i' = ainterface a then Some a' else announcer_at s e' i'))"
    by (rule start_announcer_ok [OF zone io now x b _ gs]) (use count_off_ok [OF zone a x] in simp_all)
  then obtain s' a' where s': "start_announcer now rnd e a ?st (adjust (count_off a) e s) = Ret s'" "zone_ok L sc {} s'" "io_ok s'"
    "lread (srecords s') = []" "same_entries now s s'" "same_groups s s'" "started now a ?st a'"
    "\<forall>e' i'. announcer_at s' e' i' = (if e' = e \<and> i' = ainterface a then Some a' else announcer_at s e' i')" by blast
  have "reannounce now rnd e a s = Ret s'"
    using x s'(1) com(1) probing_done_count_off [OF zone a x] group_in_state_eq [OF zone x]
    by (auto simp: reannounce_def get_entry_def commited_def)
  moreover have "restarted now e i ?st s s'" using a s'(7,8) ent(2) unfolding restarted_def
    by (intro exI [of _ a] exI [of _ a']) simp
  ultimately show ?thesis using s'(2-6) by (auto simp: server_inv_def)
qed

lemma reannounce_entry_ok:
  assumes inv: "server_inv L sc s" and now: "normalized now" "rand_ok rnd" and x: "estore s e = Some x" "\<not> edead x"
  shows "\<exists>s'. avahi_reannounce_entry now rnd e s = Ret s' \<and> server_inv L sc s' \<and> same_entries now s s' \<and> same_groups s s'"
proof -
  let ?I = "\<lambda>t. server_inv L sc t \<and> same_entries now s t \<and> same_groups s t"
  have "\<exists>s'. interface_walk (reannounce_walk_callback now rnd e) (einterface x) (eprotocol x) (interfaces s) s = Ret s' \<and> ?I s' \<and>
    True \<and> (\<forall>i \<in> set (interfaces s). True)"
  proof (rule interface_walk_ok [where R = "\<lambda>_ _. True" and Q = "\<lambda>_ _. True"])
    fix i t y assume t: "?I t" and y: "istore t i = Some y"
    obtain x' where x': "estore t e = Some x'" "edead x' = edead x" using same_entry [of now s t e x] t x(1) by auto
    show "\<exists>s'. reannounce_walk_callback now rnd e i t = Ret s' \<and> ?I s' \<and> True \<and> True"
    proof (cases "get_announcer x' i")
      case None
      with t x' x(2) show ?thesis by (intro exI [of _ t]) (simp add: reannounce_walk_callback_def get_entry_def)
    next
      case (Some a)
      then have "announcer_at t e i = Some a" using x'(1) by (simp add: announcer_at_def)
      from reannounce_ok [OF conjunct1 [OF t] now x'(1) this] obtain s' where
        s': "reannounce now rnd e a t = Ret s'" "server_inv L sc s'" "same_entries now t s'" "same_groups t s'" by blast
      with t x' x(2) Some same_entries_trans [of now s t s'] same_groups_trans [of s t s'] show ?thesis
        by (intro exI [of _ s']) (simp add: reannounce_walk_callback_def get_entry_def)
    qed
  next
    show "istore t i \<noteq> None" if "i \<in> set (interfaces s)" "?I t" for i t
      using that io_interfaces [of t i] by (auto simp: server_inv_def same_entries_def)
  qed (use inv same_entries_refl same_groups_refl in auto)
  with x show ?thesis by (auto simp: avahi_reannounce_entry_def get_entry_def)
qed

lemma return_to_initial_state_ok:
  assumes inv: "server_inv L sc s" and now: "normalized now" "rand_ok rnd" and x: "estore s e = Some x"
  shows "\<exists>s'. avahi_entry_return_to_initial_state now rnd e i s = Ret s' \<and> server_inv L sc s' \<and> same_entries now s s' \<and> same_groups s s' \<and>
    (case announcer_at s e i of None \<Rightarrow> s' = s | Some a \<Rightarrow> \<exists>st. initial_state s x = Ret st \<and> restarted now e i st s s')"
proof (cases "announcer_at s e i")
  case None
  with inv x show ?thesis
    by (intro exI [of _ s]) (simp add: avahi_entry_return_to_initial_state_def get_entry_def announcer_at_def same_entries_refl same_groups_refl)
next
  case (Some a)
  have zone: "zone_ok L sc {} s" and io: "io_ok s" "lread (srecords s) = []" using inv by (auto simp: server_inv_def)
  note ent = entry_of_announcer [OF zone Some x]
  have "\<exists>s' a' st. go_to_initial_state now rnd e i (adjust (count_off a) e s) = Ret s' \<and> initial_state s x = Ret st \<and>
    zone_ok L sc {} s' \<and> io_ok s' \<and> lread (srecords s') = [] \<and> same_entries now s s' \<and> same_groups s s' \<and> started now a st a' \<and>
    (\<forall>e' i'. announcer_at s' e' i' = (if e' = e \<and> i' = i then Some a' else announcer_at s e' i'))"
    by (rule go_to_initial_state_ok [OF zone io now x Some])
      (use count_off_ok [OF zone Some x] announcer_commited(1) [OF inv Some] in \<open>auto simp: commited_def\<close>)
  then obtain s' a' st where s': "go_to_initial_state now rnd e i (adjust (count_off a) e s) = Ret s'" "initial_state s x = Ret st"
    "zone_ok L sc {} s'" "io_ok s'" "lread (srecords s') = []" "same_entries now s s'" "same_groups s s'" "started now a st a'"
    "\<forall>e' i'. announcer_at s' e' i' = (if e' = e \<and> i' = i then Some a' else announcer_at s e' i')" by blast
  have "avahi_entry_return_to_initial_state now rnd e i s = Ret s'"
    using x ent(3) s'(1) probing_done_count_off [OF zone Some x] by (simp add: avahi_entry_return_to_initial_state_def get_entry_def)
  moreover have "restarted now e i st s s'" using Some s'(8,9) unfolding restarted_def by blast
  ultimately show ?thesis using s'(2-7) Some by (auto simp: server_inv_def)
qed

section \<open>Groups\<close>

lemma group_of: "server_inv L sc s \<Longrightarrow> gstore s g = Some y \<Longrightarrow> group_ok L s g y"
  using zone_group by (auto simp: server_inv_def)

lemma group_entry: "group_ok L s g y \<Longrightarrow> e \<in> set (gentries y) \<longleftrightarrow> (\<exists>x. estore s e = Some x \<and> egroup x = Some g)"
  unfolding group_ok_def by blast

lemma group_state: "group_ok L s g y \<Longrightarrow> gstore s g = Some y \<Longrightarrow> e \<in> set (gentries y) \<Longrightarrow> state_of_group s e = Some (gstate y)"
  by (auto simp: group_ok_def state_of_group_def)

lemma group_announcers:
  assumes "server_inv L sc s" "gstore s g = Some y" "e \<in> set (gentries y)" "announcer_at s e i = Some a"
  shows "gstate y = AVAHI_ENTRY_GROUP_REGISTERING \<or> gstate y = AVAHI_ENTRY_GROUP_ESTABLISHED" "group_allows (Some (gstate y)) (astate a)"
  using announcer_commited [OF assms(1,4)] group_state [OF group_of [OF assms(1,2)] assms(2,3)]
  by (auto simp: commited_def announcer_ok_def)

lemma server_inv_set_group:
  assumes inv: "server_inv L sc s" and y: "gstore s g = Some y" "gentries y' = gentries y"
    and ok: "gstate y' \<noteq> AVAHI_ENTRY_GROUP_FAILURE" "register_time_event y' \<noteq> None \<Longrightarrow> gstate y' = AVAHI_ENTRY_GROUP_REGISTERING"
      "normalized (register_time y')" "(\<Sum>e \<in> set (gentries y). probing_of s e) + (if g \<in> L then 1 else 0) \<le> n_probing y'"
      "g \<in> L \<Longrightarrow> gstate y' = AVAHI_ENTRY_GROUP_REGISTERING \<and> \<not> gdead y'"
    and dead: "gdead y' \<Longrightarrow> \<forall>e x. estore s e = Some x \<longrightarrow> egroup x = Some g \<longrightarrow> edead x"
    and allows: "\<And>e i a. announcer_at s e i = Some a \<Longrightarrow> e \<in> set (gentries y) \<Longrightarrow> group_allows (Some (gstate y')) (astate a)"
  shows "server_inv L sc (set_group g y' s)"
proof -
  have "zone_ok L sc {} s" "io_ok s" "lread (srecords s) = []" using inv by (simp_all add: server_inv_def)
  moreover from zone_set_group [OF this(1) y ok dead subset_refl] allows have "zone_ok L sc {} (set_group g y' s)" by blast
  ultimately show ?thesis by (simp add: server_inv_def io_ok_def)
qed

lemma server_inv_told: "server_inv L sc s \<Longrightarrow> server_inv L sc (told g st s)"
  using zone_told by (simp add: server_inv_def io_ok_def)

lemma established_woken:
  assumes "established now imm g y s s'" "e \<in> set (gentries y)" "announcer_at s e i = Some a"
  shows "\<exists>a'. announcer_at s' e i = Some a' \<and> woken now imm a a'"
proof -
  have "e \<in> set (gentries y) \<longrightarrow> (case announcer_at s e i of None \<Rightarrow> announcer_at s' e i = None
    | Some a \<Rightarrow> \<exists>a'. announcer_at s' e i = Some a' \<and> woken now imm a a')" using assms(1) by (simp add: established_def)
  with assms(2,3) show ?thesis by simp
qed

lemma announced_on_same:
  assumes se: "same_entries now s s'" and "commited (state_of_group s' e) \<Longrightarrow> commited (state_of_group s e)"
    and "announcer_at s e i \<noteq> None \<Longrightarrow> announcer_at s' e i \<noteq> None" and on: "announced_on s e i"
  shows "announced_on s' e i" unfolding announced_on_def
proof (intro allI impI)
  fix x' y' assume x': "estore s' e = Some x'" "istore s' i = Some y'" "\<not> edead x'"
    "avahi_interface_match y' (einterface x') (eprotocol x')" "announcing y'" "commited (state_of_group s' e)"
  from same_entry_back [OF se x'(1)] obtain x where x: "estore s e = Some x" "edead x' = edead x"
    "einterface x' = einterface x" "eprotocol x' = eprotocol x" .
  from same_iface [OF se x'(2)] obtain y where y: "istore s i = Some y" "announcing y' = announcing y" "hw_index y' = hw_index y"
    "iprotocol y' = iprotocol y" .
  have "announcer_at s e i \<noteq> None"
    using on x x' y assms(2) by (auto simp: announced_on_def avahi_interface_match_def)
  then show "announcer_at s' e i \<noteq> None" by (rule assms(3))
qed

text \<open>
  A group that is commited: its entries are announced on the interfaces they are for, and the
  group is established, unless an announcer has still to probe.
\<close>

definition group_commited :: "server \<Rightarrow> nat \<Rightarrow> bool" where
  "group_commited s g \<longleftrightarrow> (\<exists>y. gstore s g = Some y \<and> (\<forall>e \<in> set (gentries y). \<forall>i. announced_on s e i) \<and>
     (if n_probing y = 0 then gstate y = AVAHI_ENTRY_GROUP_ESTABLISHED else gstate y = AVAHI_ENTRY_GROUP_REGISTERING))"

lemma commit_real_ok:
  assumes inv: "server_inv L sc s" and now: "normalized now" "rand_ok rnd" and y: "gstore s g = Some y" "\<not> gdead y"
    "gstate y \<noteq> AVAHI_ENTRY_GROUP_ESTABLISHED" "register_time_event y = None"
  shows "\<exists>s'. entry_group_commit_real sc now rnd g s = Ret s' \<and> server_inv L sc s' \<and> same_entries now s s' \<and> group_commited s' g"
proof -
  have g: "group_ok L s g y" using group_of [OF inv y(1)] .
  let ?y = "y\<lparr>register_time := now\<rparr>"
  have none: "group_allows (Some AVAHI_ENTRY_GROUP_REGISTERING) (astate a)"
    if "announcer_at s e i = Some a" "e \<in> set (gentries y)" for e i a by (simp add: group_allows_def)
  obtain s1 y1 where s1: "avahi_s_entry_group_change_state now (set_group g ?y s) g AVAHI_ENTRY_GROUP_REGISTERING = Ret s1"
    "server_inv L sc s1" "gstore s1 g = Some y1" "\<not> gdead y1" "gentries y1 = gentries y" "gstate y1 = AVAHI_ENTRY_GROUP_REGISTERING"
    "same_entries now s s1"
  proof (cases "gstate y = AVAHI_ENTRY_GROUP_REGISTERING")
    case True
    have "avahi_s_entry_group_change_state now (set_group g ?y s) g AVAHI_ENTRY_GROUP_REGISTERING = Ret (set_group g ?y s)"
      using True by (simp add: avahi_s_entry_group_change_state_def get_group_def)
    moreover have "server_inv L sc (set_group g ?y s)"
      using g y True now(1) none by (intro server_inv_set_group [OF inv y(1)]) (simp_all add: group_ok_def)
    moreover have "same_entries now s (set_group g ?y s)" by (simp add: same_entries_def all_covered_def)
    ultimately show thesis using y True by (intro that [of "set_group g ?y s" ?y]) simp_all
  next
    case False
    let ?y1 = "changed_group now AVAHI_ENTRY_GROUP_REGISTERING ?y"
    let ?s1 = "told g AVAHI_ENTRY_GROUP_REGISTERING (set_group g ?y1 s)"
    have "avahi_s_entry_group_change_state now (set_group g ?y s) g AVAHI_ENTRY_GROUP_REGISTERING = Ret ?s1"
      using False change_state_eq [of "set_group g ?y s" g ?y AVAHI_ENTRY_GROUP_REGISTERING now] by (simp add: set_group_def)
    moreover have "server_inv L sc ?s1"
      using g y False now(1) none by (intro server_inv_told server_inv_set_group [OF inv y(1)]) (simp_all add: group_ok_def)
    ultimately show thesis using y same_entries_told_set by (intro that [of ?s1 ?y1]) simp_all
  qed
  from announce_group_ok [OF s1(2) now s1(3)] obtain s2 where s2: "avahi_announce_group now rnd g s1 = Ret s2" "server_inv L sc s2"
    "announces now s1 s2" "\<forall>e \<in> set (gentries y1). \<forall>i. announced_on s2 e i" by blast
  have same2: "same_entries now s1 s2" "same_groups s1 s2" using s2(3) by (simp_all add: announces_def)
  obtain y2 where y2: "gstore s2 g = Some y2" "gstate y2 = AVAHI_ENTRY_GROUP_REGISTERING" "\<not> gdead y2" "gentries y2 = gentries y"
    using same_groups_gstate [OF same2(2), of g] s1(3-6) by (cases "gstore s2 g") auto
  have "zone_ok L sc {} s2" "io_ok s2" "lread (srecords s2) = []" using s2(2) by (simp_all add: server_inv_def)
  from check_probed_ok [OF this now y2(1,3), of False] y2(2) obtain s' where
    s': "avahi_s_entry_group_check_probed sc now rnd g False s2 = Ret s'" "server_inv L sc s'" "same_entries now s2 s'"
      "if n_probing y2 = 0 then established now False g y2 s2 s' else s' = s2" by auto
  have real: "entry_group_commit_real sc now rnd g s = Ret s'"
    using y s1(1,3,4) s2(1) s'(1) by (simp add: entry_group_commit_real_def get_group_def)
  have gc: "group_commited s' g"
  proof (cases "n_probing y2 = 0")
    case False
    with s'(4) y2 s1(5) s2(4) show ?thesis by (simp add: group_commited_def)
  next
    case True
    with s'(4) have est: "established now False g y2 s2 s'" by simp
    let ?y' = "changed_group now AVAHI_ENTRY_GROUP_ESTABLISHED y2"
    have "gstore s' g = Some ?y'" using est by (simp add: established_def)
    moreover have "announced_on s' e i" if e: "e \<in> set (gentries y2)" for e i
    proof (rule announced_on_same [OF s'(3)])
      show "announced_on s2 e i" using s2(4) e y2(4) s1(5) by simp
      show "commited (state_of_group s2 e)"
        using group_state [OF group_of [OF s2(2) y2(1)] y2(1) e] y2(2) by (simp add: commited_def)
      show "announcer_at s2 e i \<noteq> None \<Longrightarrow> announcer_at s' e i \<noteq> None"
        using established_woken [OF est e] by blast
    qed
    ultimately show ?thesis using True unfolding group_commited_def by (intro exI [of _ ?y'] conjI ballI allI) simp_all
  qed
  have "same_entries now s s'" using same_entries_trans [OF same_entries_trans [OF s1(7) same2(1)] s'(3)] .
  with real s'(2) gc show ?thesis by blast
qed

lemma all_dead_ok: "\<forall>e \<in> set es. estore s e \<noteq> None \<Longrightarrow> all_dead s es = Ret (\<forall>e \<in> set es. \<forall>x. estore s e = Some x \<longrightarrow> edead x)"
  by (induction es) (auto simp: get_entry_def)

text \<open>The hold-off after the last try to register the group.\<close>

definition next_try :: "group \<Rightarrow> group" where
  "next_try y = y\<lparr>n_register_try := n_register_try y + 1,
     register_time := avahi_timeval_add (register_time y)
       (1000 * (if AVAHI_RR_RATE_LIMIT_COUNT \<le> n_register_try y + 1 then AVAHI_RR_HOLDOFF_MSEC_RATE_LIMIT else AVAHI_RR_HOLDOFF_MSEC))\<rparr>"

lemma commit_ok:
  assumes inv: "server_inv L sc s" and now: "normalized now" "rand_ok rnd" and y: "gstore s g = Some y" "\<not> gdead y"
  shows "\<exists>s' r. avahi_s_entry_group_commit sc now rnd g s = Ret (s', r) \<and> server_inv L sc s' \<and> same_entries now s s' \<and>
    (if gstate y \<noteq> AVAHI_ENTRY_GROUP_UNCOMMITED \<and> gstate y \<noteq> AVAHI_ENTRY_GROUP_COLLISION then s' = s \<and> r = Inl AVAHI_ERR_BAD_STATE
     else if \<forall>e \<in> set (gentries y). \<forall>x. estore s e = Some x \<longrightarrow> edead x then s' = s \<and> r = Inl AVAHI_ERR_IS_EMPTY
     else r = Inr () \<and>
       (if usec_of (register_time (next_try y)) \<le> usec_of now then group_commited s' g
        else s' = told g AVAHI_ENTRY_GROUP_REGISTERING (set_group g ((next_try y)\<lparr>
            register_time_event := Some (register_time (next_try y)), gstate := AVAHI_ENTRY_GROUP_REGISTERING\<rparr>) s)))"
proof -
  have g: "group_ok L s g y" using group_of [OF inv y(1)] .
  let ?dead = "\<forall>e \<in> set (gentries y). \<forall>x. estore s e = Some x \<longrightarrow> edead x"
  let ?open = "gstate y = AVAHI_ENTRY_GROUP_UNCOMMITED \<or> gstate y = AVAHI_ENTRY_GROUP_COLLISION"
  have "\<forall>e \<in> set (gentries y). estore s e \<noteq> None" using group_entry [OF g] by auto
  from all_dead_ok [OF this] y(1) have empty: "avahi_s_entry_group_is_empty s g = Ret ?dead"
    by (simp add: avahi_s_entry_group_is_empty_def get_group_def)
  show ?thesis
  proof (cases "?open \<and> \<not> ?dead")
    case False
    with y empty inv show ?thesis
      by (cases ?open) (simp_all add: avahi_s_entry_group_commit_def get_group_def same_entries_refl)
  next
    case True
    let ?x = "next_try y"
    have x: "gentries ?x = gentries y" "gstate ?x = gstate y" "gdead ?x = gdead y" "n_probing ?x = n_probing y"
      "register_time_event ?x = register_time_event y" by (simp_all add: next_try_def)
    have norm: "normalized (register_time ?x)" unfolding next_try_def
      using g by (auto intro!: normalized_add simp: group_ok_def AVAHI_RR_HOLDOFF_MSEC_def AVAHI_RR_HOLDOFF_MSEC_RATE_LIMIT_def)
    have rt: "register_time_event y = None" using g True by (auto simp: group_ok_def)
    have closed: "\<not> (announcer_at s e i = Some a)" if "e \<in> set (gentries y)" for e i a
      using group_announcers(1) [OF inv y(1) that] True by auto
    have start: "avahi_s_entry_group_commit sc now rnd g s = res_map (\<lambda>s. (s, Inr ()))
      (if avahi_timeval_compare (register_time ?x) now \<le> 0 then entry_group_commit_real sc now rnd g (set_group g ?x s)
       else if register_time_event ?x \<noteq> None then Crash
       else avahi_s_entry_group_change_state now (set_group g (?x\<lparr>register_time_event := Some (register_time ?x)\<rparr>) s) g
         AVAHI_ENTRY_GROUP_REGISTERING)"
      using True y empty by (auto simp: avahi_s_entry_group_commit_def get_group_def next_try_def Let_def)
    have early: "avahi_timeval_compare (register_time ?x) now \<le> 0 \<longleftrightarrow> usec_of (register_time ?x) \<le> usec_of now"
      using timeval_compare_usec [OF norm now(1)] by (auto simp: sgn_if split: if_splits)
    show ?thesis
    proof (cases "usec_of (register_time ?x) \<le> usec_of now")
      case due: True
      have "server_inv L sc (set_group g ?x s)"
        using g y True norm rt x closed by (intro server_inv_set_group [OF inv y(1)]) (auto simp: group_ok_def)
      moreover have "gstore (set_group g ?x s) g = Some ?x" by simp
      moreover have "\<not> gdead ?x" "gstate ?x \<noteq> AVAHI_ENTRY_GROUP_ESTABLISHED" "register_time_event ?x = None"
        using y(2) x True rt by auto
      ultimately obtain s' where s': "entry_group_commit_real sc now rnd g (set_group g ?x s) = Ret s'" "server_inv L sc s'"
        "same_entries now (set_group g ?x s) s'" "group_commited s' g" using commit_real_ok [OF _ now] by blast
      have "same_entries now s (set_group g ?x s)" by (simp add: same_entries_def all_covered_def)
      from same_entries_trans [OF this s'(3)] s' due early start True show ?thesis
        by (intro exI [of _ s'] exI [of _ "Inr ()"]) auto
    next
      case hold: False
      let ?y' = "?x\<lparr>register_time_event := Some (register_time ?x), gstate := AVAHI_ENTRY_GROUP_REGISTERING\<rparr>"
      let ?s = "told g AVAHI_ENTRY_GROUP_REGISTERING (set_group g ?y' s)"
      have "avahi_s_entry_group_change_state now (set_group g (?x\<lparr>register_time_event := Some (register_time ?x)\<rparr>) s) g
          AVAHI_ENTRY_GROUP_REGISTERING = Ret ?s"
        using True x(2) by (auto simp: avahi_s_entry_group_change_state_def get_group_def set_group_def told_def Let_def)
      moreover have "server_inv L sc ?s"
        using g y norm x closed by (intro server_inv_told server_inv_set_group [OF inv y(1)]) (auto simp: group_ok_def)
      moreover have "same_entries now s ?s" by (rule same_entries_told_set)
      ultimately show ?thesis using hold early start True x(5) rt by (intro exI [of _ ?s] exI [of _ "Inr ()"]) auto
    qed
  qed
qed

lemma register_timer_ok:
  assumes inv: "server_inv L sc s" and now: "normalized now" "rand_ok rnd" and y: "gstore s g = Some y" "\<not> gdead y" "register_time_event y \<noteq> None"
  shows "\<exists>s'. entry_group_register_time_event_callback sc now rnd g s = Ret s' \<and> server_inv L sc s' \<and> same_entries now s s' \<and> group_commited s' g"
proof -
  have g: "group_ok L s g y" using group_of [OF inv y(1)] .
  then have reg: "gstate y = AVAHI_ENTRY_GROUP_REGISTERING" using y(3) by (simp add: group_ok_def)
  let ?y = "y\<lparr>register_time_event := None\<rparr>"
  have "server_inv L sc (set_group g ?y s)"
    using g y reg by (intro server_inv_set_group [OF inv y(1)]) (auto simp: group_ok_def group_allows_def)
  from commit_real_ok [OF this now, of g ?y] y(2) reg obtain s' where
    s': "entry_group_commit_real sc now rnd g (set_group g ?y s) = Ret s'" "server_inv L sc s'" "same_entries now (set_group g ?y s) s'" "group_commited s' g" by auto
  have "same_entries now s (set_group g ?y s)" by (simp add: same_entries_def all_covered_def)
  from same_entries_trans [OF this s'(3)] s' y show ?thesis
    by (intro exI [of _ s']) (simp add: entry_group_register_time_event_callback_def get_group_def)
qed

text \<open>Flags and the timer of the clean-up do not matter for the invariant.\<close>

lemma server_inv_cong:
  assumes "server_inv L sc s" "entries s' = entries s" "estore s' = estore s" "entries_by_key s' = entries_by_key s" "groups s' = groups s"
    "gstore s' = gstore s" "interfaces s' = interfaces s" "istore s' = istore s" "srecords s' = srecords s" "sjitter s' = sjitter s"
  shows "server_inv L sc s'"
proof -
  have "zone_ok L sc {} s" using assms(1) by (simp add: server_inv_def)
  then have "zone_ok L sc {} s'" by (rule zone_cong) (simp_all add: assms(2-10))
  with assms show ?thesis by (simp add: server_inv_def io_ok_def)
qed

lemma schedule_cleanup_fields [simp]:
  "entries (schedule_cleanup now s) = entries s" "entries_by_key (schedule_cleanup now s) = entries_by_key s"
  "estore (schedule_cleanup now s) = estore s" "groups (schedule_cleanup now s) = groups s" "gstore (schedule_cleanup now s) = gstore s"
  "interfaces (schedule_cleanup now s) = interfaces s" "istore (schedule_cleanup now s) = istore s"
  "srecords (schedule_cleanup now s) = srecords s" "sjitter (schedule_cleanup now s) = sjitter s" "changes (schedule_cleanup now s) = changes s"
  by (simp_all add: schedule_cleanup_def)

text \<open>A group whose entries are all dead goes to state \<open>st\<close>.\<close>

lemma change_killed_ok:
  assumes inv: "server_inv L sc s" and y: "gstore s g = Some y" and dead: "\<forall>e \<in> set (gentries y). estore s e = map_option kill (estore s e)"
    and st: "st \<noteq> AVAHI_ENTRY_GROUP_FAILURE" "st \<noteq> AVAHI_ENTRY_GROUP_REGISTERING" and lost: "g \<notin> L"
  defines "y' \<equiv> y\<lparr>n_probing := 0\<rparr>"
  shows "\<exists>s'. avahi_s_entry_group_change_state now (set_group g y' s) g st = Ret s' \<and> server_inv L sc s' \<and> estore s' = estore s \<and>
    (\<exists>y''. gstore s' = (gstore s)(g \<mapsto> y'') \<and> gstate y'' = st \<and> gdead y'' = gdead y \<and> gentries y'' = gentries y) \<and>
    changes s' = changes s @ (if gstate y = st then [] else [(g, st)])"
proof -
  have g: "group_ok L s g y" using group_of [OF inv y] .
  have x: "announcers x = []" if "estore s e = Some x" "e \<in> set (gentries y)" for e x
  proof -
    have "estore s e = Some (kill x)" using dead that by auto
    then have "x = kill x" using that(1) by simp
    then show ?thesis by (metis kill_simps(7))
  qed
  have none: "announcer_at s e i \<noteq> Some a" if "e \<in> set (gentries y)" for e i a
    using x [OF _ that] by (auto simp: announcer_at_def get_announcer_def split: option.splits)
  have "probing_of s e = 0" if "e \<in> set (gentries y)" for e
    using x [OF _ that] by (auto simp: probing_of_def probing_in_def split: option.splits)
  then have zero: "(\<Sum>e \<in> set (gentries y). probing_of s e) = 0" by simp
  let ?y = "if gstate y = st then y' else changed_group now st y'"
  have eq: "avahi_s_entry_group_change_state now (set_group g y' s) g st =
      Ret (if gstate y = st then set_group g ?y s else told g st (set_group g ?y s))"
    using change_state_eq [of "set_group g y' s" g y' st now] st(1) by (simp add: y'_def set_group_def)
  have new: "register_time_event ?y = None" "gentries ?y = gentries y" "gstate ?y = st" "gdead ?y = gdead y" "n_probing ?y = 0"
    "register_time ?y = register_time y" using g st(2) by (auto simp: y'_def group_ok_def)
  have "server_inv L sc (set_group g ?y s)"
    by (rule server_inv_set_group [OF inv y new(2)]) (use g st none zero new lost in \<open>auto simp: group_ok_def\<close>)
  then show ?thesis using eq new server_inv_told
    by (cases "gstate y = st") (auto intro!: exI [of _ ?y])
qed

lemma reset_ok:
  assumes inv: "server_inv L sc s" and now: "normalized now" "rand_ok rnd" and y: "gstore s g = Some y" and lost: "g \<notin> L"
  shows "\<exists>s'. avahi_s_entry_group_reset sc now rnd g s = Ret s' \<and> server_inv L sc s' \<and>
    (\<forall>e. estore s' e = (if e \<in> set (gentries y) then map_option kill (estore s e) else estore s e)) \<and>
    (\<exists>y'. gstore s' = (gstore s)(g \<mapsto> y') \<and> gstate y' = AVAHI_ENTRY_GROUP_UNCOMMITED \<and> gdead y' = gdead y \<and> gentries y' = gentries y) \<and>
    changes s' = changes s @ (if gstate y = AVAHI_ENTRY_GROUP_UNCOMMITED then [] else [(g, AVAHI_ENTRY_GROUP_UNCOMMITED)])"
proof -
  have g: "group_ok L s g y" using group_of [OF inv y] .
  have "\<forall>e \<in> set (gentries y). estore s e \<noteq> None" using group_entry [OF g] by auto
  from kill_entries_ok [OF inv now this, of True] obtain t where t: "for_entries (kill_entry sc now rnd True) (gentries y) s = Ret t"
    "server_inv L sc t" "killed s t (set (gentries y))" by blast
  have yt: "gstore t g = Some y" "gstore t = gstore s" "changes t = changes s" using t(3) y by (simp_all add: killed_def)
  have "\<forall>e \<in> set (gentries y). estore t e = map_option kill (estore t e)"
    using t(3) by (auto simp: killed_def option.map_comp o_def intro!: option.map_cong)
  from change_killed_ok [OF t(2) yt(1) this _ _ lost, of AVAHI_ENTRY_GROUP_UNCOMMITED now] obtain s1 y1 where
    s1: "avahi_s_entry_group_change_state now (set_group g (y\<lparr>n_probing := 0\<rparr>) t) g AVAHI_ENTRY_GROUP_UNCOMMITED = Ret s1" "server_inv L sc s1"
      "estore s1 = estore t" "gstore s1 = (gstore t)(g \<mapsto> y1)" "gstate y1 = AVAHI_ENTRY_GROUP_UNCOMMITED" "gdead y1 = gdead y" "gentries y1 = gentries y"
      "changes s1 = changes t @ (if gstate y = AVAHI_ENTRY_GROUP_UNCOMMITED then [] else [(g, AVAHI_ENTRY_GROUP_UNCOMMITED)])" by auto
  let ?f = "\<lambda>s. s\<lparr>need_entry_cleanup := True\<rparr>"
  have flag: "avahi_s_entry_group_change_state now (?f s0) g st = res_map ?f (avahi_s_entry_group_change_state now s0 g st)" for s0 st
    by (cases "gstore s0 g") (simp_all add: avahi_s_entry_group_change_state_def get_group_def set_group_def Let_def)
  let ?s = "schedule_cleanup now (?f s1)"
  have "avahi_s_entry_group_reset sc now rnd g s = Ret ?s"
    using y t(1) yt(1) s1(1) by (simp add: avahi_s_entry_group_reset_def get_group_def flag)
  moreover have "server_inv L sc ?s" by (rule server_inv_cong [OF s1(2)]) simp_all
  ultimately show ?thesis using s1(3-8) yt(2,3) t(3) by (intro exI [of _ ?s]) (auto simp: killed_def)
qed

lemma group_free_ok:
  assumes inv: "server_inv L sc s" and now: "normalized now" "rand_ok rnd" and y: "gstore s g = Some y" and lost: "g \<notin> L"
  shows "\<exists>s'. avahi_s_entry_group_free sc now rnd g s = Ret s' \<and> server_inv L sc s' \<and>
    (\<forall>e. estore s' e = (if e \<in> set (gentries y) then map_option kill (estore s e) else estore s e)) \<and>
    gstore s' = (gstore s)(g \<mapsto> y\<lparr>register_time_event := None, gdead := True\<rparr>) \<and> changes s' = changes s"
proof -
  have g: "group_ok L s g y" using group_of [OF inv y] .
  have "\<forall>e \<in> set (gentries y). estore s e \<noteq> None" using group_entry [OF g] by auto
  from kill_entries_ok [OF inv now this, of True] obtain t where t: "for_entries (kill_entry sc now rnd True) (gentries y) s = Ret t"
    "server_inv L sc t" "killed s t (set (gentries y))" by blast
  have yt: "gstore t g = Some y" "gstore t = gstore s" "changes t = changes s" using t(3) y by (simp_all add: killed_def)
  let ?y = "y\<lparr>register_time_event := None, gdead := True\<rparr>"
  let ?s = "schedule_cleanup now ((set_group g ?y t)\<lparr>need_group_cleanup := True, need_entry_cleanup := True\<rparr>)"
  have gt: "group_ok L t g y" using group_of [OF t(2) yt(1)] .
  have "\<forall>e x. estore t e = Some x \<longrightarrow> egroup x = Some g \<longrightarrow> edead x"
  proof (intro allI impI)
    fix e x assume x: "estore t e = Some x" "egroup x = Some g"
    then have "e \<in> set (gentries y)" using group_entry [OF gt] by blast
    then have "estore t e = map_option kill (estore s e)" using t(3) by (simp add: killed_def)
    with x(1) show "edead x" by auto
  qed
  then have "server_inv L sc (set_group g ?y t)"
    using gt group_announcers(2) [OF t(2) yt(1)] lost by (intro server_inv_set_group [OF t(2) yt(1)]) (auto simp: group_ok_def)
  then have "server_inv L sc ?s" by (rule server_inv_cong) simp_all
  moreover have "avahi_s_entry_group_free sc now rnd g s = Ret ?s"
    using y t(1) yt(1) by (simp add: avahi_s_entry_group_free_def get_group_def)
  ultimately show ?thesis using t(3) yt(2,3) by (intro exI [of _ ?s]) (simp add: killed_def)
qed

lemma zone_groups: "zone_ok L sc P s \<Longrightarrow> gstore s g \<noteq> None \<longleftrightarrow> g \<in> set (groups s)"
  unfolding zone_ok_def by blast

lemma group_new_ok:
  assumes inv: "server_inv L sc s" and g: "gstore s g = None"
  shows "\<exists>s'. avahi_s_entry_group_new g s = Ret s' \<and> server_inv L sc s'"
proof -
  obtain s' y where s': "avahi_s_entry_group_new g s = Ret s'" "s' = (set_group g y s)\<lparr>groups := g # groups s\<rparr>" "gentries y = []"
    "gstate y = AVAHI_ENTRY_GROUP_UNCOMMITED" "register_time_event y = None" "normalized (register_time y)" "\<not> gdead y"
    using g by (auto simp: avahi_s_entry_group_new_def normalized_def)
  have zone: "zone_ok L sc {} s" using inv by (simp add: server_inv_def)
  have none: "egroup x \<noteq> Some g" if "estore s e = Some x" for e x using zone_entry [OF zone that] g by (auto simp: entry_ok_def)
  have lost: "g \<notin> L" "L \<subseteq> set (groups s')" using zone zone_groups [OF zone, of g] g by (auto simp: zone_ok_def s'(2))
  have "index_ready sc s'" using zone_index [OF zone] by (simp add: index_ready_def zone_keys_def [abs_def] entries_ok_def s'(2))
  moreover have "entry_ok s' x" if "estore s e = Some x" for e x using zone_entry [OF zone that] by (auto simp: entry_ok_def s'(2))
  moreover have "group_ok L s' h z" if z: "gstore s' h = Some z" for h z
  proof (cases "h = g")
    case True
    with z s' none lost show ?thesis by (auto simp: group_ok_def)
  next
    case False
    with z have "gstore s h = Some z" by (simp add: s'(2))
    from zone_group [OF zone this] show ?thesis
      by (simp add: group_ok_def s'(2) probing_of_def [abs_def])
  qed
  moreover have "gstore s' h \<noteq> None \<longleftrightarrow> h \<in> set (groups s')" for h using zone_groups [OF zone, of h] by (simp add: s'(2))
  moreover have "g \<notin> set (groups s)" using zone_groups [OF zone, of g] g by simp
  then have "distinct (groups s')" using zone by (simp add: s'(2) zone_ok_def)
  moreover have "state_of_group s' e = state_of_group s e" for e
    using none [of e] by (auto simp: state_of_group_def s'(2) split: option.splits)
  moreover have "announcer_at s' e i = announcer_at s e i" for e i by (simp add: announcer_at_def s'(2))
  ultimately have "zone_ok L sc {} s'" using zone lost(2) unfolding zone_ok_def by (simp add: s'(2))
  moreover have "io_ok s'" "lread (srecords s') = []" using inv by (simp_all add: server_inv_def io_ok_def s'(2))
  ultimately show ?thesis using s'(1) by (auto simp: server_inv_def)
qed

end
