(* ===== verification/Entries_Inv.thy ===== *)
theory Entries_Inv
  imports Entry_Groups Entries
begin

text \<open>
  Removing entries and groups keeps the invariant, and so does the clean-up of what is dead.
\<close>

section \<open>Removing\<close>

text \<open>The groups \<open>gs\<close> and the entries \<open>es\<close> are no longer there, and nothing else has changed.\<close>

definition freed :: "nat set \<Rightarrow> nat set \<Rightarrow> server \<Rightarrow> server \<Rightarrow> bool" where
  "freed gs es s s' \<longleftrightarrow> interfaces s' = interfaces s \<and> changes s' = changes s \<and>
     need_entry_cleanup s' = need_entry_cleanup s \<and> need_group_cleanup s' = need_group_cleanup s \<and>
     groups s' = filter (\<lambda>g. g \<notin> gs) (groups s) \<and>
     entries s' = filter (\<lambda>e. e \<notin> es) (entries s) \<and> (\<forall>e. estore s' e = (if e \<in> es then None else estore s e)) \<and>
     (\<forall>g. gstore s' g = (if g \<in> gs then None else map_option (gentries_update (filter (\<lambda>e. e \<notin> es))) (gstore s g)))"

lemma freed_refl: "freed {} {} s s"
proof -
  have "map_option (gentries_update (filter (\<lambda>e. e \<notin> {}))) (gstore s g) = gstore s g" for g
    by (cases "gstore s g") simp_all
  then show ?thesis by (simp add: freed_def)
qed

lemma freed_flags:
  assumes "freed gs es s s'"
  shows "freed gs es (s\<lparr>need_group_cleanup := False\<rparr>) (s'\<lparr>need_group_cleanup := False\<rparr>)"
    and "freed gs es (s\<lparr>need_entry_cleanup := False\<rparr>) (s'\<lparr>need_entry_cleanup := False\<rparr>)"
    and "freed gs es s (s'\<lparr>cleanup_time_event := None\<rparr>)"
  using assms by (simp_all add: freed_def)

lemma freed_trans:
  assumes "freed gs es s s'" "freed gs' es' s' s''"
  shows "freed (gs \<union> gs') (es \<union> es') s s''"
proof -
  have "filter (\<lambda>e. e \<notin> es') (filter (\<lambda>e. e \<notin> es) l) = filter (\<lambda>e. e \<notin> es \<union> es') l" for l :: "nat list"
    by (induction l) auto
  with assms show ?thesis unfolding freed_def by (auto simp: option.map_comp o_def)
qed

lemma zone_free_entry:
  assumes zone: "zone_ok L sc {} s" and x: "estore s e = Some x" "announcers x = []"
    and idx: "index_ok sc (entries_by_key s') ((zone_keys s)(e := None))"
    and s': "groups s' = groups s" "entries s' = filter (\<lambda>e'. e' \<noteq> e) (entries s)"
      "estore s' = (estore s)(e := None)" "\<And>g. gstore s' g = map_option (gentries_update (filter (\<lambda>e'. e' \<noteq> e))) (gstore s g)"
      "\<And>i. istore s' i = None \<longleftrightarrow> istore s i = None"
  shows "zone_ok L sc {} s'"
proof -
  have "zone_keys s' = (zone_keys s)(e := None)" by (auto simp: zone_keys_def s'(3))
  then have "index_ready sc s'" using zone_index [OF zone] idx zone_entries [OF zone]
    by (auto simp: index_ready_def entries_ok_def s'(2,3) split: if_splits)
  moreover have "entry_ok s' x'" if "estore s' e' = Some x'" for e' x'
    using zone_entry [OF zone, of e' x'] that by (auto simp: entry_ok_def s'(3,4) split: if_splits)
  moreover have "group_ok L s' g y'" if y': "gstore s' g = Some y'" for g y'
  proof -
    from y' obtain y where y: "gstore s g = Some y" "y' = gentries_update (filter (\<lambda>e'. e' \<noteq> e)) y"
      by (auto simp: s'(4))
    have g: "group_ok L s g y" using zone_group [OF zone y(1)] .
    have "(\<Sum>e' \<in> set (gentries y'). probing_of s' e') = (\<Sum>e' \<in> set (gentries y'). probing_of s e')"
      by (rule sum.cong) (auto simp: y(2) probing_of_def s'(3))
    also have "\<dots> \<le> (\<Sum>e' \<in> set (gentries y). probing_of s e')" by (rule sum_mono2) (auto simp: y(2))
    finally have "(\<Sum>e' \<in> set (gentries y'). probing_of s' e') + (if g \<in> L then 1 else 0) \<le> n_probing y'" using g by (simp add: group_ok_def y(2))
    moreover have "e' \<in> set (gentries y') \<longleftrightarrow> (\<exists>x. estore s' e' = Some x \<and> egroup x = Some g)" for e'
      using group_entry [OF g, of e'] by (auto simp: y(2) s'(3))
    ultimately show ?thesis using g y(2) unfolding group_ok_def by (auto simp: s'(3))
  qed
  moreover have "announcer_ok (state_of_group s' e') a \<and> istore s' i \<noteq> None" if a: "announcer_at s' e' i = Some a" for e' i a
  proof -
    have ne: "e' \<noteq> e" using a by (auto simp: announcer_at_def s'(3))
    have "announcer_at s e' i = Some a" using a ne by (simp add: announcer_at_def s'(3))
    moreover have "state_of_group s' e' = state_of_group s e'"
    proof (cases "estore s e'")
      case (Some x')
      then show ?thesis using ne by (simp add: state_of_group_def s'(3,4) option.map_comp o_def cong: option.case_cong)
    qed (use ne in \<open>simp add: state_of_group_def s'(3)\<close>)
    ultimately show ?thesis using zone_announcer [OF zone, of e' i a] s'(5) [of i] by simp
  qed
  moreover have "gstore s' g \<noteq> None \<longleftrightarrow> g \<in> set (groups s')" for g using zone_groups [OF zone, of g] by (simp add: s'(1,4))
  ultimately show ?thesis using zone unfolding zone_ok_def by (simp add: s'(1))
qed

lemma entry_free_ok:
  assumes inv: "server_inv L sc s" and now: "normalized now" "rand_ok rnd" and x: "estore s e = Some x"
  shows "\<exists>s'. avahi_entry_free sc now rnd e s = Ret s' \<and> server_inv L sc s' \<and> freed {} {e} s s'"
proof -
  have zone: "zone_ok L sc {} s" and io: "io_ok s" "lread (srecords s) = []" using inv by (auto simp: server_inv_def)
  from goodbye_entry_ok [OF zone io(1) now x, of True True] obtain t where
    t: "avahi_goodbye_entry sc now rnd e True True s = Ret (set_entry e (x\<lparr>announcers := []\<rparr>) t)" "quiet_step now s t"
      "srecords t = srecords s" by auto
  let ?x = "x\<lparr>announcers := []\<rparr>"
  let ?s = "set_entry e ?x t"
  note q = quiet_zone [OF t(2)]
  have lose: "?x = lose_announcers (\<lambda>_. True) False x" by (simp add: lose_announcers_def)
  have same: "lose_announcers (\<lambda>_. False) False z = z" for z by (simp add: lose_announcers_def)
  have store: "estore ?s e' = map_option (lose_announcers (\<lambda>_. e' = e) False) (estore s e')" for e'
    using x lose same by (cases "estore s e'") (auto simp: q)
  have none: "istore ?s i = None \<longleftrightarrow> istore s i = None" for i using quiet_istore [OF t(2), of i] by auto
  have ios: "io_ok ?s" "lread (srecords ?s) = []" using quiet_io [OF t(2)] t(3) io(2) by (simp_all add: io_ok_def)
  then have inv1: "server_inv L sc ?s"
    by (rule server_inv_fewer [OF inv, where Q = "\<lambda>e' _. e' = e" and D = "\<lambda>_. False"])
      (use none store in \<open>simp_all add: q\<close>)
  then have zone1: "zone_ok L sc {} ?s" by (simp add: server_inv_def)
  have key: "zone_keys ?s e = Some (rkey (erecord x))" "index_ok sc (entries_by_key ?s) (zone_keys ?s)"
    using zone_index [OF zone1] by (simp_all add: zone_keys_def index_ready_def)
  have key_of: "entry_key ?s j = k" if "zone_keys ?s j = Some k" for j k
    using that by (cases "estore ?s j") (simp_all only: zone_keys_def entry_key_def option.map option.case option.simps)
  from index_remove_ok [OF key(2,1), of "entry_key ?s"] key_of obtain idx where
    idx: "index_remove sc (entries_by_key ?s) (entry_key ?s) (rkey (erecord x)) e = Ret idx" "index_ok sc idx ((zone_keys ?s)(e := None))"
    by blast
  let ?t = "?s\<lparr>entries := remove1 e (entries ?s), entries_by_key := idx\<rparr>"
  let ?g = "\<lambda>g. map_option (gentries_update (filter (\<lambda>e'. e' \<noteq> e))) (gstore s g)"
  have unlinked: "gstore s h = Some y \<Longrightarrow> egroup x \<noteq> Some h \<Longrightarrow> gentries_update (filter (\<lambda>e'. e' \<noteq> e)) y = y" for h y
  proof -
    assume y: "gstore s h = Some y" and h: "egroup x \<noteq> Some h"
    have "e \<notin> set (gentries y)" using group_entry [OF zone_group [OF zone y]] x h by auto
    then have "filter (\<lambda>e'. e' \<noteq> e) (gentries y) = gentries y" by (auto intro: filter_True)
    then show "gentries_update (filter (\<lambda>e'. e' \<noteq> e)) y = y" by simp
  qed
  obtain s2 where s2: "leave_group (egroup x) e ?t = Ret s2" "\<And>g. gstore s2 g = ?g g" "s2 = ?t\<lparr>gstore := gstore s2\<rparr>"
  proof (cases "egroup x")
    case None
    have "gstore ?t g = ?g g" for g using unlinked [of g] None by (cases "gstore s g") (simp_all add: q)
    with None that [of ?t] show thesis by (simp add: leave_group_def)
  next
    case (Some h)
    then obtain y where y: "gstore s h = Some y" using zone_entry [OF zone x] by (auto simp: entry_ok_def)
    have "distinct (gentries y)" using zone_group [OF zone y] by (simp add: group_ok_def)
    then have rem: "remove1 e (gentries y) = filter (\<lambda>e'. e' \<noteq> e) (gentries y)"
      by (simp add: distinct_remove1_removeAll removeAll_filter_not_eq) metis
    let ?u = "set_group h (y\<lparr>gentries := remove1 e (gentries y)\<rparr>) ?t"
    have "leave_group (egroup x) e ?t = Ret ?u" using Some y by (simp add: leave_group_def get_group_def q)
    moreover have "gstore ?u g = ?g g" for g using unlinked [of g] Some y rem by (cases "gstore s g") (auto simp: q)
    moreover have "?u = ?t\<lparr>gstore := gstore ?u\<rparr>" by (simp add: set_group_def)
    ultimately show thesis by (rule that)
  qed
  let ?s' = "s2\<lparr>estore := (estore s2)(e := None)\<rparr>"
  have ex: "avahi_entry_free sc now rnd e s = Ret ?s'"
    using t(1) idx(1) s2(1) by (simp add: avahi_entry_free_def get_entry_def)
  have dist: "distinct (entries s)" using zone_index [OF zone] by (simp add: index_ready_def)
  then have ents: "remove1 e (entries s) = filter (\<lambda>e'. e' \<noteq> e) (entries s)"
    by (simp add: distinct_remove1_removeAll removeAll_filter_not_eq) metis
  have fields: "groups s2 = groups s" "entries s2 = filter (\<lambda>e'. e' \<noteq> e) (entries s)" "entries_by_key s2 = idx" "estore s2 = estore ?s"
    "interfaces s2 = interfaces s" "istore s2 = istore t" "srecords s2 = srecords s" "sjitter s2 = sjitter t" "changes s2 = changes s"
    "need_entry_cleanup s2 = need_entry_cleanup s" "need_group_cleanup s2 = need_group_cleanup s"
    using arg_cong [OF s2(3), of need_group_cleanup] arg_cong [OF s2(3), of need_entry_cleanup] arg_cong [OF s2(3), of groups] arg_cong [OF s2(3), of entries] arg_cong [OF s2(3), of entries_by_key] arg_cong [OF s2(3), of estore]
      arg_cong [OF s2(3), of interfaces] arg_cong [OF s2(3), of istore] arg_cong [OF s2(3), of srecords] arg_cong [OF s2(3), of sjitter]
      arg_cong [OF s2(3), of changes] t(3) ents by (simp_all add: q)
  have "zone_ok L sc {} ?s'"
  proof (rule zone_free_entry [OF zone1, of e ?x])
    show "estore ?s e = Some ?x" "announcers ?x = []" by simp_all
    show "index_ok sc (entries_by_key ?s') ((zone_keys ?s)(e := None))" using idx(2) by (simp add: fields)
    show "gstore ?s' g = map_option (gentries_update (filter (\<lambda>e'. e' \<noteq> e))) (gstore ?s g)" for g using s2(2) by (simp add: q)
  qed (simp_all add: fields q)
  moreover have "io_ok ?s'" using ios(1) t(3) by (simp add: io_ok_def fields q)
  moreover have "freed {} {e} s ?s'" using s2(2) by (simp add: freed_def fields q)
  ultimately show ?thesis using ex io(2) by (auto simp: server_inv_def fields)
qed

lemma free_entries_ok:
  assumes "server_inv L sc s" "normalized now" "rand_ok rnd" "distinct es" "\<forall>e \<in> set es. estore s e \<noteq> None"
  shows "\<exists>s'. free_entries sc now rnd es s = Ret s' \<and> server_inv L sc s' \<and> freed {} (set es) s s'"
  using assms(1,4,5)
proof (induction es arbitrary: s)
  case Nil
  then show ?case by (simp add: freed_refl)
next
  case (Cons e es)
  then obtain x where "estore s e = Some x" by auto
  from entry_free_ok [OF Cons.prems(1) assms(2,3) this] obtain s1 where
    s1: "avahi_entry_free sc now rnd e s = Ret s1" "server_inv L sc s1" "freed {} {e} s s1" by blast
  have "\<forall>e' \<in> set es. estore s1 e' \<noteq> None" using s1(3) Cons.prems(2,3) by (auto simp: freed_def)
  with Cons.IH [OF s1(2)] Cons.prems(2) obtain s' where
    s': "free_entries sc now rnd es s1 = Ret s'" "server_inv L sc s'" "freed {} (set es) s1 s'" by auto
  from freed_trans [OF s1(3) s'(3)] s1(1) s'(1,2) show ?case by (intro exI [of _ s']) simp
qed

lemma zone_free_group:
  assumes zone: "zone_ok L sc {} s" and y: "gstore s g = Some y" "gentries y = []" and lost: "g \<notin> L"
    and s': "groups s' = remove1 g (groups s)" "gstore s' = (gstore s)(g := None)" "entries s' = entries s" "estore s' = estore s"
      "entries_by_key s' = entries_by_key s" "istore s' = istore s"
  shows "zone_ok L sc {} s'"
proof -
  have none: "egroup x \<noteq> Some g" if "estore s e = Some x" for e x
    using group_entry [OF zone_group [OF zone y(1)], of e] y(2) that by auto
  have "index_ready sc s'" using zone_index [OF zone] by (simp add: index_ready_def zone_keys_def [abs_def] entries_ok_def s')
  moreover have "entry_ok s' x" if "estore s e = Some x" for e x
    using zone_entry [OF zone that] none [OF that] by (auto simp: entry_ok_def s'(2))
  moreover have "group_ok L s' h z" if z: "gstore s' h = Some z" for h z
  proof -
    have "gstore s h = Some z" using z by (simp add: s'(2) split: if_splits)
    from zone_group [OF zone this] show ?thesis by (simp add: group_ok_def s'(4) probing_of_def [abs_def])
  qed
  moreover have dist: "distinct (groups s)" using zone by (simp add: zone_ok_def)
  then have "gstore s' h \<noteq> None \<longleftrightarrow> h \<in> set (groups s')" for h using zone_groups [OF zone, of h] by (auto simp: s'(1,2))
  moreover have "state_of_group s' e = state_of_group s e" for e
    using none [of e] by (auto simp: state_of_group_def s'(2,4) split: option.splits)
  moreover have "announcer_at s' e i = announcer_at s e i" for e i by (simp add: announcer_at_def s'(4))
  ultimately show ?thesis using zone dist lost unfolding zone_ok_def by (simp add: s'(1,4,6) subset_Diff_insert)
qed

lemma entry_group_free_ok:
  assumes inv: "server_inv L sc s" and now: "normalized now" "rand_ok rnd" and y: "gstore s g = Some y" "gdead y"
  shows "\<exists>s'. avahi_entry_group_free sc now rnd g s = Ret s' \<and> server_inv L sc s' \<and> freed {g} (set (gentries y)) s s'"
proof -
  have g: "group_ok L s g y" using group_of [OF inv y(1)] .
  have "\<forall>e \<in> set (gentries y). estore s e \<noteq> None" "distinct (gentries y)" using group_entry [OF g] g by (auto simp: group_ok_def)
  from free_entries_ok [OF inv now this(2,1)] obtain t where t: "free_entries sc now rnd (gentries y) s = Ret t" "server_inv L sc t"
    "freed {} (set (gentries y)) s t" by blast
  let ?s = "t\<lparr>groups := remove1 g (groups t), gstore := (gstore t)(g := None)\<rparr>"
  have "gstore t g = Some (gentries_update (filter (\<lambda>e. e \<notin> set (gentries y))) y)" using t(3) y by (simp add: freed_def)
  moreover have "filter (\<lambda>e. e \<notin> set l) l = []" for l :: "nat list" by (simp add: filter_empty_conv)
  then have "gentries (gentries_update (filter (\<lambda>e. e \<notin> set (gentries y))) y) = []" by simp
  moreover have zone: "zone_ok L sc {} t" using t(2) by (simp add: server_inv_def)
  moreover have "g \<notin> L" using g y(2) by (auto simp: group_ok_def)
  ultimately have "zone_ok L sc {} ?s" using zone_free_group [of L sc t g _ ?s] by simp
  then have "server_inv L sc ?s" using t(2) by (simp add: server_inv_def io_ok_def)
  moreover have "distinct (groups t)" using zone by (simp add: zone_ok_def)
  then have "remove1 g (groups t) = filter (\<lambda>h. h \<noteq> g) (groups t)"
    by (simp add: distinct_remove1_removeAll removeAll_filter_not_eq) metis
  then have "freed {g} (set (gentries y)) s ?s" using t(3) by (simp add: freed_def)
  ultimately show ?thesis using t(1) y(1)
    by (intro exI [of _ ?s]) (simp add: avahi_entry_group_free_def get_group_def)
qed

text \<open>The dead among the groups \<open>gs\<close> and their entries.\<close>

definition dead_groups :: "nat set \<Rightarrow> server \<Rightarrow> nat set" where
  "dead_groups gs s = {g \<in> gs. \<exists>y. gstore s g = Some y \<and> gdead y}"

definition entries_in :: "nat set \<Rightarrow> server \<Rightarrow> nat set" where
  "entries_in gs s = {e. \<exists>x. estore s e = Some x \<and> (\<exists>g \<in> gs. egroup x = Some g)}"

lemma entries_in_group:
  assumes "server_inv L sc s" "gstore s g = Some y"
  shows "entries_in {g} s = set (gentries y)"
  using group_entry [OF group_of [OF assms]] by (auto simp: entries_in_def)

lemma free_dead_groups_ok:
  assumes "server_inv L sc s" "normalized now" "rand_ok rnd" "distinct gs" "\<forall>g \<in> set gs. gstore s g \<noteq> None"
  shows "\<exists>s'. free_dead_groups sc now rnd gs s = Ret s' \<and> server_inv L sc s' \<and>
    freed (dead_groups (set gs) s) (entries_in (dead_groups (set gs) s) s) s s'"
  using assms(1,4,5)
proof (induction gs arbitrary: s)
  case Nil
  then show ?case by (simp add: freed_refl dead_groups_def entries_in_def)
next
  case (Cons g gs)
  then obtain y where y: "gstore s g = Some y" by auto
  let ?G = "if gdead y then {g} else {}"
  obtain s1 where s1: "(if gdead y then avahi_entry_group_free sc now rnd g s else Ret s) = Ret s1" "server_inv L sc s1"
    "freed ?G (entries_in ?G s) s s1"
  proof (cases "gdead y")
    case False
    show thesis by (rule that [of s]) (use Cons.prems(1) False in \<open>simp_all add: freed_refl entries_in_def\<close>)
  next
    case True
    with entry_group_free_ok [OF Cons.prems(1) assms(2,3) y] entries_in_group [OF Cons.prems(1) y] that show thesis by auto
  qed
  have same: "map_option gdead (gstore s1 h) = map_option gdead (gstore s h)" if "h \<in> set gs" for h
    using s1(3) Cons.prems(2) that by (auto simp: freed_def option.map_comp o_def)
  then have "\<forall>h \<in> set gs. gstore s1 h \<noteq> None" using Cons.prems(3) by (metis list.set_intros(2) option.map_disc_iff)
  with Cons.IH [OF s1(2)] Cons.prems(2) obtain s' where s': "free_dead_groups sc now rnd gs s1 = Ret s'" "server_inv L sc s'"
    "freed (dead_groups (set gs) s1) (entries_in (dead_groups (set gs) s1) s1) s1 s'" by auto
  have dead: "dead_groups (set gs) s1 = dead_groups (set gs) s"
  proof -
    have "(\<exists>z. gstore s1 h = Some z \<and> gdead z) \<longleftrightarrow> (\<exists>z. gstore s h = Some z \<and> gdead z)" if "h \<in> set gs" for h
      using same [OF that] by (cases "gstore s h"; cases "gstore s1 h") auto
    then show ?thesis by (auto simp: dead_groups_def)
  qed
  have all: "?G \<union> dead_groups (set gs) s = dead_groups (set (g # gs)) s" using y by (auto simp: dead_groups_def)
  have "estore s1 e = (if e \<in> entries_in ?G s then None else estore s e)" for e using s1(3) by (simp add: freed_def)
  then have "entries_in ?G s \<union> entries_in D s1 = entries_in (?G \<union> D) s" for D
    unfolding entries_in_def by (auto split: if_splits)
  with freed_trans [OF s1(3) s'(3)] all dead
  have "freed (dead_groups (set (g # gs)) s) (entries_in (dead_groups (set (g # gs)) s) s) s s'" by simp
  with y s1(1) s'(1,2) show ?case by (intro exI [of _ s']) (simp add: get_group_def)
qed

lemma free_dead_entries_ok:
  assumes "server_inv L sc s" "normalized now" "rand_ok rnd" "distinct es" "\<forall>e \<in> set es. estore s e \<noteq> None"
  shows "\<exists>s'. free_dead_entries sc now rnd es s = Ret s' \<and> server_inv L sc s' \<and>
    freed {} {e \<in> set es. \<exists>x. estore s e = Some x \<and> edead x} s s'"
  using assms(1,4,5)
proof (induction es arbitrary: s)
  case Nil
  then show ?case by (simp add: freed_refl)
next
  case (Cons e es)
  then obtain x where x: "estore s e = Some x" by auto
  obtain s1 where s1: "(if edead x then avahi_entry_free sc now rnd e s else Ret s) = Ret s1" "server_inv L sc s1"
    "freed {} (if edead x then {e} else {}) s s1"
  proof (cases "edead x")
    case True
    with entry_free_ok [OF Cons.prems(1) assms(2,3) x] that show thesis by auto
  next
    case False
    with Cons.prems(1) freed_refl that show thesis by simp
  qed
  have same: "estore s1 e' = estore s e'" if "e' \<in> set es" for e' using s1(3) that Cons.prems(2) by (auto simp: freed_def)
  then have "\<forall>e' \<in> set es. estore s1 e' \<noteq> None" using Cons.prems(3) by simp
  with Cons.IH [OF s1(2)] Cons.prems(2) obtain s' where s': "free_dead_entries sc now rnd es s1 = Ret s'" "server_inv L sc s'"
    "freed {} {e' \<in> set es. \<exists>x. estore s1 e' = Some x \<and> edead x} s1 s'" by auto
  have "(if edead x then {e} else {}) \<union> {e' \<in> set es. \<exists>x. estore s1 e' = Some x \<and> edead x} =
      {e' \<in> set (e # es). \<exists>x. estore s e' = Some x \<and> edead x}" using same x by auto
  with freed_trans [OF s1(3) s'(3)] have "freed {} {e' \<in> set (e # es). \<exists>x. estore s e' = Some x \<and> edead x} s s'" by simp
  with s1(1) s'(1,2) x show ?case by (intro exI [of _ s']) (simp add: get_entry_def)
qed

text \<open>
  The clean-up removes what is dead, and only that: \<open>swept_groups\<close> and \<open>swept_entries\<close>.
\<close>

definition swept_groups :: "server \<Rightarrow> nat set" where
  "swept_groups s = {g. need_group_cleanup s \<and> (\<exists>y. gstore s g = Some y \<and> gdead y)}"

definition swept_entries :: "server \<Rightarrow> nat set" where
  "swept_entries s = {e. \<exists>x. estore s e = Some x \<and> edead x \<and>
     (need_entry_cleanup s \<or> (\<exists>g \<in> swept_groups s. egroup x = Some g))}"

lemma swept_dead:
  assumes "server_inv L sc s" "estore s e = Some x" "egroup x = Some g" "g \<in> swept_groups s"
  shows "edead x"
proof -
  from assms(4) obtain y where y: "gstore s g = Some y" "gdead y" by (auto simp: swept_groups_def)
  from group_of [OF assms(1) y(1)] y(2) assms(2,3) show ?thesis by (auto simp: group_ok_def)
qed

lemma cleanup_ok:
  assumes inv: "server_inv L sc s" and now: "normalized now" "rand_ok rnd"
  shows "\<exists>s'. avahi_cleanup_dead_entries sc now rnd s = Ret s' \<and> server_inv L sc s' \<and> cleanup_time_event s' = None \<and>
    \<not> need_group_cleanup s' \<and> \<not> need_entry_cleanup s' \<and>
    freed (swept_groups s) (swept_entries s) (s\<lparr>need_group_cleanup := False, need_entry_cleanup := False\<rparr>) s'"
proof -
  have zone: "zone_ok L sc {} s" using inv by (simp add: server_inv_def)
  let ?G = "swept_groups s"
  let ?ng = "\<lambda>s. s\<lparr>need_group_cleanup := False\<rparr>" and ?ne = "\<lambda>s. s\<lparr>need_entry_cleanup := False\<rparr>"
  have rec: "\<not> need_group_cleanup s \<Longrightarrow> ?ng s = s" "\<not> need_entry_cleanup t \<Longrightarrow> ?ne t = t" for s t :: server by simp_all
  obtain s1 where s1: "(if need_group_cleanup s then res_map ?ng (free_dead_groups sc now rnd (groups s) s) else Ret s) = Ret s1" "server_inv L sc s1"
    "freed ?G (entries_in ?G s) (?ng s) s1"
  proof (cases "need_group_cleanup s")
    case False
    then have "?G = {}" "entries_in ?G s = {}" by (simp_all add: swept_groups_def entries_in_def)
    moreover have "freed {} {} (?ng s) s" unfolding rec(1) [OF False] by (rule freed_refl)
    ultimately show thesis using inv False by (intro that [of s]) simp_all
  next
    case True
    have "distinct (groups s)" "\<forall>g \<in> set (groups s). gstore s g \<noteq> None" using zone zone_groups [OF zone] by (auto simp: zone_ok_def)
    from free_dead_groups_ok [OF inv now this] obtain t where t: "free_dead_groups sc now rnd (groups s) s = Ret t" "server_inv L sc t"
      "freed (dead_groups (set (groups s)) s) (entries_in (dead_groups (set (groups s)) s) s) s t" by blast
    have "dead_groups (set (groups s)) s = ?G" using zone_groups [OF zone] True by (auto simp: dead_groups_def swept_groups_def)
    with t(3) freed_flags(1) have "freed ?G (entries_in ?G s) (?ng s) (?ng t)" by simp
    moreover have "server_inv L sc (?ng t)" by (rule server_inv_cong [OF t(2)]) simp_all
    ultimately show thesis using True t(1) by (intro that [of "?ng t"]) simp_all
  qed
  have nec: "need_entry_cleanup s1 = need_entry_cleanup s" "\<not> need_group_cleanup s1" using s1(3) by (simp_all add: freed_def)
  have zone1: "zone_ok L sc {} s1" using s1(2) by (simp add: server_inv_def)
  let ?E = "{e. need_entry_cleanup s \<and> (\<exists>x. estore s1 e = Some x \<and> edead x)}"
  obtain s2 where s2: "(if need_entry_cleanup s1 then res_map ?ne (free_dead_entries sc now rnd (entries s1) s1) else Ret s1) = Ret s2" "server_inv L sc s2"
    "freed {} ?E (?ne s1) s2"
  proof (cases "need_entry_cleanup s")
    case False
    then have "freed {} {} (?ne s1) s1" using nec(1) rec(2) [of s1] freed_refl by metis
    with False s1(2) nec show thesis by (intro that [of s1]) simp_all
  next
    case True
    have "distinct (entries s1)" "\<forall>e \<in> set (entries s1). estore s1 e \<noteq> None"
      using zone_index [OF zone1] zone_entries [OF zone1] by (auto simp: index_ready_def)
    from free_dead_entries_ok [OF s1(2) now this] obtain t where t: "free_dead_entries sc now rnd (entries s1) s1 = Ret t" "server_inv L sc t"
      "freed {} {e \<in> set (entries s1). \<exists>x. estore s1 e = Some x \<and> edead x} s1 t" by blast
    have "{e \<in> set (entries s1). \<exists>x. estore s1 e = Some x \<and> edead x} = ?E" using zone_entries [OF zone1] True by auto
    with t(3) have "freed {} ?E s1 t" by simp
    note freed_flags(2) [OF this]
    moreover have "server_inv L sc (?ne t)" by (rule server_inv_cong [OF t(2)]) simp_all
    ultimately show thesis using True nec t(1) by (intro that [of "?ne t"]) simp_all
  qed
  let ?s = "s2\<lparr>cleanup_time_event := None\<rparr>"
  have "avahi_cleanup_dead_entries sc now rnd s = Ret ?s"
    using s1(1) s2(1) nec(1) by (simp add: avahi_cleanup_dead_entries_def)
  moreover have "server_inv L sc ?s" by (rule server_inv_cong [OF s2(2)]) simp_all
  moreover have "freed ?G (swept_entries s) (s\<lparr>need_group_cleanup := False, need_entry_cleanup := False\<rparr>) ?s"
  proof -
    have "estore s1 e = (if e \<in> entries_in ?G s then None else estore s e)" for e using s1(3) by (simp add: freed_def)
    then have all: "entries_in ?G s \<union> ?E = swept_entries s"
      using swept_dead [OF inv] by (auto simp: entries_in_def swept_entries_def)
    from freed_flags(3) [OF freed_trans [OF freed_flags(2) [OF s1(3)] s2(3)]] show ?thesis
      unfolding all Un_empty_right .
  qed
  moreover have "\<not> need_group_cleanup ?s" "\<not> need_entry_cleanup ?s" using s2(3) nec by (simp_all add: freed_def)
  moreover have "cleanup_time_event ?s = None" by simp
  ultimately show ?thesis by (intro exI [of _ ?s] conjI)
qed

end
