(* ===== verification/Entries_Add.thy ===== *)
theory Entries_Add
  imports Entries_Inv
begin

text \<open>
  Adding and updating entries keeps the invariant; both end with announcing the entry.
\<close>

section \<open>Adding\<close>

lemma index_list_zone:
  assumes "zone_ok L sc P s" "key_ok k" "e \<in> set (index_list sc (entries_by_key s) k)"
  shows "\<exists>x. estore s e = Some x \<and> key_abs (rkey (erecord x)) = key_abs k"
  using listed_entries [OF zone_index [OF assms(1)] assms(2)] assms(3) by blast

lemma zone_add_entry:
  assumes zone: "zone_ok L sc {} s" and e: "estore s e = None" and x: "publishable (erecord x)" "announcers x = []" "\<not> edead x"
    and g: "\<forall>g. egroup x = Some g \<longrightarrow> (\<exists>y. gstore s g = Some y \<and> \<not> gdead y)"
    and s': "entries s' = e # entries s" "estore s' = (estore s)(e \<mapsto> x)"
      "entries_by_key s' = index_prepend sc (entries_by_key s) (rkey (erecord x)) e" "groups s' = groups s" "istore s' = istore s"
      "\<And>h. gstore s' h = (if egroup x = Some h then map_option (gentries_update (Cons e)) (gstore s h) else gstore s h)"
  shows "zone_ok L sc {} s'"
proof -
  have keys: "zone_keys s' = (zone_keys s)(e \<mapsto> rkey (erecord x))" by (auto simp: zone_keys_def s'(2))
  have k: "key_ok (rkey (erecord x))" using publishable_ok [OF x(1)] by simp
  have "zone_keys s e = None" "index_ok sc (entries_by_key s) (zone_keys s)"
    using zone_index [OF zone] e by (simp_all add: zone_keys_def index_ready_def)
  from index_prepend_ok [OF this(2) k this(1)] have idx: "index_ok sc (entries_by_key s') (zone_keys s')" by (simp add: s'(3) keys)
  have "e \<notin> set (entries s)" using zone_entries [OF zone, of e] e by simp
  then have ready: "index_ready sc s'" using zone_index [OF zone] idx x(1) zone_entries [OF zone]
    by (auto simp: index_ready_def entries_ok_def s'(1,2) split: if_splits)
  have none: "gstore s' h = None \<longleftrightarrow> gstore s h = None" for h by (simp add: s'(6))
  have "entry_ok s' z" if z: "estore s' e' = Some z" for e' z
  proof (cases "e' = e")
    case True
    with z have "z = x" by (simp add: s'(2))
    with g x none show ?thesis by (auto simp: entry_ok_def)
  next
    case False
    with z have "estore s e' = Some z" by (simp add: s'(2))
    from zone_entry [OF zone this] none show ?thesis by (auto simp: entry_ok_def)
  qed
  moreover have "group_ok L s' h y'" if y': "gstore s' h = Some y'" for h y'
  proof -
    obtain y where y: "gstore s h = Some y" "y' = (if egroup x = Some h then gentries_update (Cons e) y else y)"
      using y' by (auto simp: s'(6) split: if_splits)
    have go: "group_ok L s h y" using zone_group [OF zone y(1)] .
    have out: "e \<notin> set (gentries y)" using group_entry [OF go, of e] e by simp
    have mem: "e' \<in> set (gentries y') \<longleftrightarrow> (\<exists>z. estore s' e' = Some z \<and> egroup z = Some h)" for e'
      using group_entry [OF go, of e'] out by (auto simp: y(2) s'(2))
    have same: "probing_of s' e' = probing_of s e'" if "e' \<noteq> e" for e' using that by (simp add: probing_of_def s'(2))
    have "probing_of s' e = 0" using x(2) by (simp add: probing_of_def s'(2) probing_in_def)
    moreover have "(\<Sum>e' \<in> set (gentries y). probing_of s' e') = (\<Sum>e' \<in> set (gentries y). probing_of s e')"
    proof (rule sum.cong)
      fix e' assume "e' \<in> set (gentries y)"
      with out have "e' \<noteq> e" by auto
      then show "probing_of s' e' = probing_of s e'" by (rule same)
    qed simp
    ultimately have "(\<Sum>e' \<in> set (gentries y'). probing_of s' e') = (\<Sum>e' \<in> set (gentries y). probing_of s e')"
      using out by (simp add: y(2))
    moreover have "edead z" if d: "gdead y'" and z: "estore s' e' = Some z" "egroup z = Some h" for e' z
    proof -
      have dy: "gdead y" using d by (simp add: y(2) split: if_splits)
      have "e' \<noteq> e"
      proof
        assume "e' = e"
        with z have "egroup x = Some h" by (simp add: s'(2))
        with g y(1) dy show False by auto
      qed
      with z dy go show ?thesis by (simp add: s'(2) group_ok_def)
    qed
    moreover have "distinct (gentries y')" "n_probing y' = n_probing y" "gstate y' = gstate y" "register_time y' = register_time y"
      "register_time_event y' = register_time_event y" "gdead y' = gdead y" using go out by (simp_all add: y(2) group_ok_def)
    ultimately show ?thesis using go mem unfolding group_ok_def by simp
  qed
  moreover have "announcer_ok (state_of_group s' e') a \<and> istore s' i \<noteq> None" if a: "announcer_at s' e' i = Some a" for e' i a
  proof -
    have ne: "e' \<noteq> e" using a x(2) by (auto simp: announcer_at_def get_announcer_def s'(2) split: if_splits)
    have "announcer_at s e' i = Some a" using a ne by (simp add: announcer_at_def s'(2))
    moreover have "map_option gstate (gstore s' h) = map_option gstate (gstore s h)" for h by (cases "gstore s h") (simp_all add: s'(6))
    then have "state_of_group s' e' = state_of_group s e'" using ne by (simp add: state_of_group_def s'(2) cong: option.case_cong)
    ultimately show ?thesis using zone_announcer [OF zone, of e' i a] by (simp add: s'(5))
  qed
  moreover have "gstore s' h \<noteq> None \<longleftrightarrow> h \<in> set (groups s')" for h using zone_groups [OF zone, of h] none by (simp add: s'(4))
  ultimately show ?thesis using zone ready unfolding zone_ok_def by (simp add: s'(4))
qed

text \<open>An entry is added to a group that is not dead, or to none, and then announced.\<close>

lemma add_entry_ok:
  assumes inv: "server_inv L sc s" and now: "normalized now" "rand_ok rnd" and e: "estore s e = None" and r: "publishable r"
    and g: "\<forall>h. g = Some h \<longrightarrow> (\<exists>y. gstore s h = Some y \<and> \<not> gdead y)"
  shows "\<exists>s'. add_entry sc now rnd e g interface protocol flags r s = Ret s' \<and> server_inv L sc s' \<and> (\<forall>i. announced_on s' e i) \<and>
    (\<exists>x. estore s' e = Some x \<and> erecord x = r \<and> egroup x = g \<and> eflags x = flags \<and> \<not> edead x \<and> einterface x = interface \<and> eprotocol x = protocol) \<and>
    (\<forall>e' i a. announcer_at s e' i = Some a \<longrightarrow> announcer_at s' e' i = Some a)"
proof -
  have zone: "zone_ok L sc {} s" and io: "io_ok s" "lread (srecords s) = []" using inv by (auto simp: server_inv_def)
  let ?x = "\<lparr>egroup = g, edead = False, eflags = flags, erecord = r, einterface = interface, eprotocol = protocol, announcers = []\<rparr>"
  let ?s = "(set_entry e ?x s)\<lparr>entries := e # entries s, entries_by_key := index_prepend sc (entries_by_key s) (rkey r) e\<rparr>"
  obtain t where t: "(case g of None \<Rightarrow> Ret ?s | Some g \<Rightarrow> res_map (\<lambda>y. set_group g (y\<lparr>gentries := e # gentries y\<rparr>) ?s) (get_group ?s g)) = Ret t"
    "t = ?s\<lparr>gstore := gstore t\<rparr>" "\<And>h. gstore t h = (if g = Some h then map_option (gentries_update (Cons e)) (gstore s h) else gstore s h)"
  proof (cases g)
    case None
    then show thesis by (intro that [of ?s]) simp_all
  next
    case (Some h)
    then obtain y where y: "gstore s h = Some y" using g by blast
    with Some show thesis
      by (intro that [of "set_group h (y\<lparr>gentries := e # gentries y\<rparr>) ?s"]) (auto simp: get_group_def set_group_def)
  qed
  have f: "entries t = e # entries s" "estore t = (estore s)(e \<mapsto> ?x)" "entries_by_key t = index_prepend sc (entries_by_key s) (rkey r) e"
    "groups t = groups s" "istore t = istore s" "interfaces t = interfaces s" "srecords t = srecords s" "sjitter t = sjitter s"
    using arg_cong [OF t(2), of entries] arg_cong [OF t(2), of estore] arg_cong [OF t(2), of entries_by_key] arg_cong [OF t(2), of groups]
      arg_cong [OF t(2), of istore] arg_cong [OF t(2), of interfaces] arg_cong [OF t(2), of srecords] arg_cong [OF t(2), of sjitter] by simp_all
  have "zone_ok L sc {} t"
    by (rule zone_add_entry [OF zone e, of ?x]) (use r g f t(3) in simp_all)
  moreover have "io_ok t" using io(1) by (simp add: io_ok_def f)
  ultimately have inv_t: "server_inv L sc t" using io(2) by (simp add: server_inv_def f)
  have "estore t e = Some ?x" "\<not> edead ?x" by (simp_all add: f)
  from announce_entry_ok [OF inv_t now this] obtain s' where s': "avahi_announce_entry now rnd e t = Ret s'" "server_inv L sc s'"
    "announces now t s'" "\<forall>i. announced_on s' e i" by blast
  have "add_entry sc now rnd e g interface protocol flags r s = Ret s'" using e t(1) s'(1) by (simp add: add_entry_def Let_def)
  moreover obtain x' where "estore s' e = Some x'" "egroup x' = g" "edead x' = False" "eflags x' = flags" "erecord x' = r"
    "einterface x' = interface" "eprotocol x' = protocol"
    using same_entry [of now t s' e ?x] s'(3) by (auto simp: announces_def f)
  moreover have "announcer_at s' e' i = Some a" if a: "announcer_at s e' i = Some a" for e' i a
  proof -
    have "e' \<noteq> e" using a e by (auto simp: announcer_at_def)
    with a have "announcer_at t e' i = Some a" by (simp add: announcer_at_def f)
    with s'(3) show ?thesis by (simp add: announces_def new_started_def)
  qed
  ultimately show ?thesis using s'(2,4) by blast
qed

section \<open>Updating\<close>

lemma zone_update_entry:
  assumes zone: "zone_ok L sc {} s" and x: "estore s e = Some x" and r: "publishable r" "key_abs (rkey r) = key_abs (rkey (erecord x))"
  shows "zone_ok L sc {} (set_entry e (x\<lparr>erecord := r, eflags := flags\<rparr>) s)"
proof -
  let ?x = "x\<lparr>erecord := r, eflags := flags\<rparr>"
  let ?s = "set_entry e ?x s"
  have keys: "zone_keys ?s = (zone_keys s)(e \<mapsto> rkey r)" by (auto simp: zone_keys_def)
  have k: "key_ok (rkey r)" using publishable_ok [OF r(1)] by simp
  have "index_ok sc (entries_by_key s) (zone_keys s)" "zone_keys s e = Some (rkey (erecord x))"
    using zone_index [OF zone] x by (simp_all add: index_ready_def zone_keys_def)
  from index_replace_same(1) [OF this k r(2)] have "index_ready sc ?s"
    using zone_index [OF zone] r(1) x by (auto simp: index_ready_def keys entries_ok_def split: if_splits)
  moreover have "entry_ok ?s z" if "estore ?s e' = Some z" for e' z
  proof (cases "e' = e")
    case True
    with that have "z = ?x" by simp
    with zone_entry [OF zone x] show ?thesis by (simp add: entry_ok_def)
  next
    case False
    with that zone_entry [OF zone, of e' z] show ?thesis by (simp add: entry_ok_def)
  qed
  moreover have "group_ok L ?s g y" if y: "gstore s g = Some y" for g y
  proof -
    have go: "group_ok L s g y" using zone_group [OF zone y] .
    have p: "probing_of ?s = probing_of s" using x by (auto simp: probing_of_def fun_eq_iff)
    have m: "(\<exists>z. estore ?s e' = Some z \<and> egroup z = Some g) \<longleftrightarrow> (\<exists>z. estore s e' = Some z \<and> egroup z = Some g)" for e'
      using x by auto
    have d: "(\<forall>e' z. estore ?s e' = Some z \<longrightarrow> egroup z = Some g \<longrightarrow> edead z) \<longleftrightarrow>
      (\<forall>e' z. estore s e' = Some z \<longrightarrow> egroup z = Some g \<longrightarrow> edead z)" using x by auto
    from go show ?thesis unfolding group_ok_def p m d set_entry_fields(5) by blast
  qed
  moreover have "announcer_at ?s e' i = announcer_at s e' i" for e' i using x by (simp add: announcer_at_def get_announcer_def)
  moreover have "state_of_group ?s e' = state_of_group s e'" for e' using x by (simp add: state_of_group_def cong: option.case_cong)
  ultimately show ?thesis using zone unfolding zone_ok_def by simp
qed

lemma zone_replace_index:
  assumes zone: "zone_ok L sc {} s" and x: "estore s e = Some x"
  shows "zone_ok L sc {} (s\<lparr>entries_by_key := fst (avahi_hashmap_replace (key_hash_func sc) key_equal_func (entries_by_key s) (rkey (erecord x))
    (index_list sc (entries_by_key s) (rkey (erecord x))))\<rparr>)" (is "zone_ok _ _ _ ?s")
proof -
  have keys: "zone_keys s e = Some (rkey (erecord x))" using x by (simp add: zone_keys_def)
  then have upd: "(zone_keys s)(e \<mapsto> rkey (erecord x)) = zone_keys s" by (simp add: fun_upd_idem)
  have "index_ok sc (entries_by_key s) (zone_keys s)" using zone_index [OF zone] by (simp add: index_ready_def)
  moreover have "key_ok (rkey (erecord x))" using zone_entry [OF zone x] publishable_ok by blast
  ultimately have "index_ok sc (entries_by_key ?s) ((zone_keys s)(e \<mapsto> rkey (erecord x)))"
    using index_replace_same(2) [of sc "entries_by_key s" "zone_keys s" e "rkey (erecord x)" "rkey (erecord x)"] keys by simp
  then have "index_ok sc (entries_by_key ?s) (zone_keys s)" unfolding upd .
  then have "index_ready sc ?s" using zone_index [OF zone] by (simp add: index_ready_def zone_keys_def [abs_def] entries_ok_def)
  moreover have "entry_ok ?s z = entry_ok s z" "group_ok L ?s g y = group_ok L s g y" "announcer_at ?s e' i = announcer_at s e' i"
    "state_of_group ?s e' = state_of_group s e'" for z g y e' i
    by (simp_all add: entry_ok_def group_ok_def announcer_at_def state_of_group_def probing_of_def [abs_def] cong: option.case_cong)
  ultimately show ?thesis using zone unfolding zone_ok_def by simp
qed

lemma update_entry_ok:
  assumes inv: "server_inv L sc s" and now: "normalized now" "rand_ok rnd" and x: "estore s e = Some x" "\<not> edead x" "egroup x = g"
    and r: "publishable r" "key_abs (rkey r) = key_abs (rkey (erecord x))"
  shows "\<exists>s'. update_entry sc now rnd g e flags r s = Ret s' \<and> server_inv L sc s' \<and>
    (\<exists>x'. estore s' e = Some x' \<and> erecord x' = r \<and> eflags x' = flags \<and> egroup x' = g \<and> \<not> edead x') \<and>
    (\<forall>e'. e' \<noteq> e \<longrightarrow> map_option bare (estore s' e') = map_option bare (estore s e'))"
proof -
  let ?x = "x\<lparr>erecord := r, eflags := flags\<rparr>"
  let ?s = "set_entry e ?x s"
  have zone: "zone_ok L sc {} s" and io: "io_ok s" "lread (srecords s) = []" using inv by (auto simp: server_inv_def)
  have zone1: "zone_ok L sc {} ?s" by (rule zone_update_entry [OF zone x(1) r])
  have io1: "io_ok ?s" using io by (simp add: io_ok_def)
  have inv1: "server_inv L sc ?s" using zone1 io1 io(2) by (simp add: server_inv_def)
  have eq: "avahi_record_equal_no_ttl (erecord x) r = Ret (rr_abs (erecord x) = rr_abs r)"
    using record_equal_abs publishable_ok r(1) zone_entry [OF zone x(1)] by blast
  have xs: "estore ?s e = Some ?x" "\<not> edead ?x" using x by simp_all
  obtain unc where unc: "group_in_state ?s g AVAHI_ENTRY_GROUP_UNCOMMITED = Ret unc"
    using group_in_state_eq [OF zone1 xs(1)] x(3) by simp
  obtain t where t: "(if \<not> rr_abs (erecord x) = rr_abs r \<and> \<not> unc
      then res_bind (if AVAHI_PUBLISH_UNIQUE \<notin> flags then avahi_goodbye_entry sc now rnd e True False ?s else Ret ?s) (avahi_reannounce_entry now rnd e)
      else Ret ?s) = Ret t" "server_inv L sc t" "same_entries now ?s t"
  proof (cases "\<not> rr_abs (erecord x) = rr_abs r \<and> \<not> unc")
    case False
    show thesis by (rule that [of ?s]) (use False inv1 same_entries_refl in auto)
  next
    case True
    obtain u where u: "(if AVAHI_PUBLISH_UNIQUE \<notin> flags then avahi_goodbye_entry sc now rnd e True False ?s else Ret ?s) = Ret u"
      "quiet_step now ?s u" "srecords u = srecords ?s"
    proof (cases "AVAHI_PUBLISH_UNIQUE \<in> flags")
      case True
      with that quiet_refl [OF io1] show thesis by simp
    next
      case False
      with goodbye_entry_ok [OF zone1 io1 now xs(1), of True False] that show thesis by auto
    qed
    have "server_inv L sc u" using zone_quiet [OF u(2) zone1] quiet_io [OF u(2)] u(3) io(2) by (simp add: server_inv_def)
    from reannounce_entry_ok [OF this now, of e ?x] xs obtain t where "avahi_reannounce_entry now rnd e u = Ret t" "server_inv L sc t"
      "same_entries now u t" by (auto simp: quiet_zone [OF u(2)])
    with True u(1) same_entries_trans [OF quiet_same_entries [OF u(2)]] that [of t] show thesis by auto
  qed
  obtain x' where x': "estore t e = Some x'" "egroup x' = g" "edead x' = False" "eflags x' = flags" "erecord x' = r"
    using same_entry [OF t(3) xs(1)] x by auto
  let ?idx = "fst (avahi_hashmap_replace (key_hash_func sc) key_equal_func (entries_by_key t) (rkey r) (index_list sc (entries_by_key t) (rkey r)))"
  let ?t = "if e = hd (index_list sc (entries_by_key t) (rkey r)) then t\<lparr>entries_by_key := ?idx\<rparr> else t"
  have "zone_ok L sc {} t" using t(2) by (simp add: server_inv_def)
  from zone_replace_index [OF this x'(1)] t(2) have "server_inv L sc (t\<lparr>entries_by_key := ?idx\<rparr>)"
    by (simp add: server_inv_def io_ok_def x'(5))
  with t(2) have "server_inv L sc ?t" by simp
  moreover have "update_entry sc now rnd g e flags r s = Ret ?t"
    using x(1) eq unc t(1) by (simp add: update_entry_def get_entry_def Let_def)
  moreover have "map_option bare (estore ?t e') = map_option bare (estore s e')" if "e' \<noteq> e" for e'
    using t(3) that by (simp add: same_entries_def)
  moreover have "estore ?t = estore t" by simp
  then have "estore ?t e = Some x'" using x'(1) by metis
  ultimately show ?thesis using x' by (intro exI [of _ ?t]) blast
qed

lemma find_update_ok:
  assumes "\<forall>e \<in> set es. estore s e \<noteq> None"
  shows "\<exists>y. find_update s g interface protocol es = Ret y \<and>
    (case y of None \<Rightarrow> True | Some e \<Rightarrow> e \<in> set es \<and> (\<exists>x. estore s e = Some x \<and> \<not> edead x \<and> egroup x = g))"
  using assms by (induction es) (auto simp: get_entry_def split: option.splits)

end
