(* ===== verification/Conflicts.thy ===== *)
theory Conflicts
  imports Entries_Add
begin

text \<open>
  What a client's request to add a record and what other hosts' probes and claims do to the
  published records: each leads to a state that satisfies the invariant again.
\<close>

section \<open>Requests to add a record\<close>

lemma ends_with_total:
  assumes "sent_name m d" "m \<le> AVAHI_DOMAIN_NAME_MAX" "domain_labels suffix = Some ls"
  shows "\<exists>b. avahi_domain_ends_with d suffix = Ret b"
proof -
  from assms(1) obtain ld where "d = render ld" "label_list ld" by (auto elim: sent_nameE)
  then have "labels d = Some ld" "[] \<notin> set ld" by (auto simp: labels_render label_list_def is_label_def)
  from domain_ends_with_spec [OF this assms(3)] show ?thesis by blast
qed

lemma transport_flags_ok:
  assumes "sent_name m d" "m \<le> AVAHI_DOMAIN_NAME_MAX" "\<not> (AVAHI_PUBLISH_USE_MULTICAST \<in> flags \<and> AVAHI_PUBLISH_USE_WIDE_AREA \<in> flags)"
  shows "\<exists>flags'. transport_flags_from_domain s flags d = Ret flags' \<and> flags \<subseteq> flags' \<and>
    flags' - flags \<subseteq> {AVAHI_PUBLISH_USE_MULTICAST, AVAHI_PUBLISH_USE_WIDE_AREA}"
proof -
  have suffixes: "\<exists>ls. domain_labels x = Some ls" if "x \<in> {AVAHI_MDNS_SUFFIX_LOCAL, AVAHI_MDNS_SUFFIX_ADDR_IPV4, AVAHI_MDNS_SUFFIX_ADDR_IPV6}" for x
  proof -
    have "domain_labels AVAHI_MDNS_SUFFIX_LOCAL \<noteq> None" "domain_labels AVAHI_MDNS_SUFFIX_ADDR_IPV4 \<noteq> None"
      "domain_labels AVAHI_MDNS_SUFFIX_ADDR_IPV6 \<noteq> None" by code_simp+
    with that show ?thesis by auto
  qed
  have "\<exists>b. avahi_domain_ends_with d AVAHI_MDNS_SUFFIX_LOCAL = Ret b" "\<exists>b. avahi_domain_ends_with d AVAHI_MDNS_SUFFIX_ADDR_IPV4 = Ret b"
    "\<exists>b. avahi_domain_ends_with d AVAHI_MDNS_SUFFIX_ADDR_IPV6 = Ret b"
    using ends_with_total [OF assms(1,2)] suffixes by blast+
  then obtain a b c where "avahi_domain_ends_with d AVAHI_MDNS_SUFFIX_LOCAL = Ret a" "avahi_domain_ends_with d AVAHI_MDNS_SUFFIX_ADDR_IPV4 = Ret b"
    "avahi_domain_ends_with d AVAHI_MDNS_SUFFIX_ADDR_IPV6 = Ret c" by blast
  with assms(3) show ?thesis by (auto simp: transport_flags_from_domain_def)
qed

text \<open>
  A request that passes the checks is for a publishable record with a lifetime, the server publishes
  by multicast, and a group that is commited takes updates only.
\<close>

lemma check_add_ok:
  assumes r: "publishable r" and flags: "\<not> (AVAHI_PUBLISH_USE_MULTICAST \<in> flags \<and> AVAHI_PUBLISH_USE_WIDE_AREA \<in> flags)"
    and g: "\<forall>h. g = Some h \<longrightarrow> gstore s h \<noteq> None"
  shows "\<exists>c. check_add s g interface protocol flags r = Ret c \<and>
    (\<forall>flags'. c = Inr flags' \<longrightarrow> flags \<subseteq> flags' \<and> AVAHI_PUBLISH_USE_MULTICAST \<in> flags' \<and> ttl r \<noteq> 0 \<and> \<not> disable_publishing s \<and>
      (AVAHI_PUBLISH_UPDATE \<in> flags' \<or> (\<forall>h y. g = Some h \<longrightarrow> gstore s h = Some y \<longrightarrow>
         gstate y \<noteq> AVAHI_ENTRY_GROUP_ESTABLISHED \<and> gstate y \<noteq> AVAHI_ENTRY_GROUP_REGISTERING)))"
proof -
  have sent: "sent_record r" using r by (simp add: publishable_def postable_def)
  then have nm: "sent_name AVAHI_DOMAIN_NAME_MAX (name (rkey r))" by (simp add: sent_record_def)
  have "\<exists>valid. avahi_record_is_valid r = Ret valid"
    using sent_rdata_valid [of r] sent by (cases "avahi_key_is_valid (rkey r)") (auto simp: sent_record_def avahi_record_is_valid_def)
  then obtain valid where valid: "avahi_record_is_valid r = Ret valid" by blast
  from transport_flags_ok [OF nm order.refl flags, of s] obtain fl where
    fl: "transport_flags_from_domain s flags (name (rkey r)) = Ret fl" "flags \<subseteq> fl" by blast
  have st: "\<exists>b. group_in_state s g st = Ret b \<and> (\<forall>h y. g = Some h \<longrightarrow> gstore s h = Some y \<longrightarrow> b = (gstate y = st))" for st
    using g by (cases g) (auto simp: group_in_state_def get_group_def)
  obtain est where est: "group_in_state s g AVAHI_ENTRY_GROUP_ESTABLISHED = Ret est"
    "\<forall>h y. g = Some h \<longrightarrow> gstore s h = Some y \<longrightarrow> est = (gstate y = AVAHI_ENTRY_GROUP_ESTABLISHED)" using st by blast
  obtain reg where reg: "group_in_state s g AVAHI_ENTRY_GROUP_REGISTERING = Ret reg"
    "\<forall>h y. g = Some h \<longrightarrow> gstore s h = Some y \<longrightarrow> reg = (gstate y = AVAHI_ENTRY_GROUP_REGISTERING)" using st by blast
  show ?thesis using fl(2) est(2) reg(2) by (auto simp: check_add_def valid fl(1) est(1) reg(1))
qed

lemma conflict_in_ok:
  assumes "rr_ok r" "\<forall>e \<in> set es. \<exists>x. estore s e = Some x \<and> rr_ok (erecord x)"
  shows "\<exists>b. conflict_in s interface protocol r flags es = Ret b"
  using assms(2) by (induction es) (auto simp: get_entry_def record_equal_abs [OF assms(1)])

lemma server_add_ok:
  assumes inv: "server_inv L sc s" and now: "normalized now" "rand_ok rnd" and e: "estore s e = None" and r: "publishable r"
    and flags: "\<not> (AVAHI_PUBLISH_USE_MULTICAST \<in> flags \<and> AVAHI_PUBLISH_USE_WIDE_AREA \<in> flags)"
    and g: "\<forall>h. g = Some h \<longrightarrow> (\<exists>y. gstore s h = Some y \<and> \<not> gdead y)"
  shows "\<exists>s' res. server_add_internal sc now rnd e s g interface protocol flags r = Ret (s', res) \<and> server_inv L sc s' \<and>
    (case res of
       Inl err \<Rightarrow> s' = s
     | Inr e' \<Rightarrow> \<exists>x flags'. check_add s g interface protocol flags r = Ret (Inr flags') \<and>
         estore s' e' = Some x \<and> erecord x = r \<and> egroup x = g \<and> eflags x = flags' \<and> \<not> edead x \<and>
         (if AVAHI_PUBLISH_UPDATE \<in> flags' then e' \<in> set (entries s)
          else e' = e \<and> check_record_conflict sc s interface protocol r flags' = Ret False \<and> (\<forall>i. announced_on s' e i)))"
proof -
  have zone: "zone_ok L sc {} s" using inv by (simp add: server_inv_def)
  have ok: "rr_ok r" "key_ok (rkey r)" using publishable_ok [OF r] by simp_all
  let ?l = "index_list sc (entries_by_key s) (rkey r)"
  note listed = index_list_zone [OF zone ok(2)]
  have "\<forall>h. g = Some h \<longrightarrow> gstore s h \<noteq> None" using g by auto
  from check_add_ok [OF r flags this] obtain c where c: "check_add s g interface protocol flags r = Ret c" by blast
  show ?thesis
  proof (cases c)
    case (Inl err)
    with c inv show ?thesis by (intro exI [of _ s] exI [of _ "Inl err"]) (simp add: server_add_internal_def)
  next
    case (Inr fl)
    show ?thesis
    proof (cases "AVAHI_PUBLISH_UPDATE \<in> fl")
      case True
      have "\<forall>e \<in> set ?l. estore s e \<noteq> None" using listed by fastforce
      from find_update_ok [OF this, of g interface protocol] obtain y where y: "find_update s g interface protocol ?l = Ret y"
        "case y of None \<Rightarrow> True | Some e \<Rightarrow> e \<in> set ?l \<and> (\<exists>x. estore s e = Some x \<and> \<not> edead x \<and> egroup x = g)" by blast
      show ?thesis
      proof (cases y)
        case None
        with c Inr True y(1) inv show ?thesis
          by (intro exI [of _ s] exI [of _ "Inl AVAHI_ERR_NOT_FOUND"]) (simp add: server_add_internal_def)
      next
        case (Some e')
        then obtain x where x: "estore s e' = Some x" "\<not> edead x" "egroup x = g" "e' \<in> set ?l" using y(2) by auto
        have "key_abs (rkey r) = key_abs (rkey (erecord x))" using listed [OF x(4)] x(1) by auto
        from update_entry_ok [OF inv now x(1-3) r this, of fl] obtain s' x' where
          s': "update_entry sc now rnd g e' fl r s = Ret s'" "server_inv L sc s'" "estore s' e' = Some x'" "erecord x' = r" "eflags x' = fl"
            "egroup x' = g" "\<not> edead x'" by blast
        moreover have "e' \<in> set (entries s)" using zone_entries [OF zone, of e'] x(1) by simp
        ultimately show ?thesis using c Inr True y(1) Some
          by (intro exI [of _ s'] exI [of _ "Inr e'"]) (auto simp: server_add_internal_def)
      qed
    next
      case False
      have "\<forall>e \<in> set ?l. \<exists>x. estore s e = Some x \<and> rr_ok (erecord x)"
      proof
        fix e assume "e \<in> set ?l"
        from listed [OF this] obtain x where "estore s e = Some x" by blast
        with zone_entry [OF zone this] publishable_ok show "\<exists>x. estore s e = Some x \<and> rr_ok (erecord x)" by blast
      qed
      from conflict_in_ok [OF ok(1) this, of interface protocol fl] obtain b where b: "check_record_conflict sc s interface protocol r fl = Ret b"
        by (auto simp: check_record_conflict_def)
      show ?thesis
      proof (cases b)
        case True
        with c Inr False b inv show ?thesis
          by (intro exI [of _ s] exI [of _ "Inl AVAHI_ERR_COLLISION"]) (simp add: server_add_internal_def)
      next
        case nb: False
        from add_entry_ok [OF inv now e r g, of interface protocol fl] obtain s' x where
          "add_entry sc now rnd e g interface protocol fl r s = Ret s'" "server_inv L sc s'" "\<forall>i. announced_on s' e i"
          "estore s' e = Some x" "erecord x = r" "egroup x = g" "eflags x = fl" "\<not> edead x" by blast
        with c Inr False b nb show ?thesis
          by (intro exI [of _ s'] exI [of _ "Inr e"]) (auto simp: server_add_internal_def)
      qed
    qed
  qed
qed

section \<open>Withdrawing\<close>

definition collided :: "server \<Rightarrow> nat \<Rightarrow> bool" where
  "collided s g \<longleftrightarrow> (\<exists>y. gstore s g = Some y \<and> gstate y = AVAHI_ENTRY_GROUP_COLLISION)"

text \<open>Some entries have died, and the groups of those that were alive are in collision.\<close>

definition withdrawn :: "server \<Rightarrow> server \<Rightarrow> bool" where
  "withdrawn s s' \<longleftrightarrow> (\<forall>e. estore s' e = estore s e \<or> estore s' e = map_option kill (estore s e)) \<and> (\<forall>g. collided s g \<longrightarrow> collided s' g) \<and>
     (\<forall>e x x' g. estore s e = Some x \<longrightarrow> \<not> edead x \<longrightarrow> estore s' e = Some x' \<longrightarrow> edead x' \<longrightarrow> egroup x = Some g \<longrightarrow> collided s' g)"

lemma withdrawn_refl: "withdrawn s s"
  by (simp add: withdrawn_def)

lemma withdrawn_entry:
  assumes "withdrawn s s'" "estore s e = Some x"
  obtains "estore s' e = Some x" | "estore s' e = Some (kill x)"
proof -
  have "estore s' e = estore s e \<or> estore s' e = map_option kill (estore s e)" using assms(1) by (simp add: withdrawn_def)
  with assms(2) that show thesis by auto
qed

lemma withdrawn_trans:
  assumes "withdrawn s s'" "withdrawn s' s''"
  shows "withdrawn s s''"
proof -
  have "estore s'' e = estore s e \<or> estore s'' e = map_option kill (estore s e)" for e
  proof -
    have "estore s' e = estore s e \<or> estore s' e = map_option kill (estore s e)"
      "estore s'' e = estore s' e \<or> estore s'' e = map_option kill (estore s' e)" using assms by (simp_all add: withdrawn_def)
    moreover have "map_option kill (map_option kill (estore s e)) = map_option kill (estore s e)" by (cases "estore s e") simp_all
    ultimately show ?thesis by metis
  qed
  moreover have "collided s'' g" if x: "estore s e = Some x" "\<not> edead x" "estore s'' e = Some x''" "edead x''" "egroup x = Some g" for e x x'' g
  proof (cases rule: withdrawn_entry [OF assms(1) x(1)])
    case 1
    with assms(2) x(2-5) show ?thesis unfolding withdrawn_def by blast
  next
    case 2
    then have "estore s' e = Some (kill x)" "edead (kill x)" by simp_all
    with assms(1) x(1,2,5) have "collided s' g" unfolding withdrawn_def by blast
    with assms(2) show ?thesis by (simp add: withdrawn_def)
  qed
  moreover have "collided s'' g" if "collided s g" for g using assms that by (simp add: withdrawn_def)
  ultimately show ?thesis unfolding withdrawn_def by blast
qed

text \<open>None of the entries is in a group of \<open>L\<close>.\<close>

definition none_in :: "nat set \<Rightarrow> server \<Rightarrow> nat set \<Rightarrow> bool" where
  "none_in L s es \<longleftrightarrow> (\<forall>e \<in> es. \<forall>x g. estore s e = Some x \<longrightarrow> egroup x = Some g \<longrightarrow> g \<notin> L)"

lemma none_in_empty [simp]: "none_in {} s es"
  by (simp add: none_in_def)

lemma none_in_withdrawn:
  assumes "withdrawn s s'" "none_in L s es"
  shows "none_in L s' es"
  unfolding none_in_def
proof (intro ballI allI impI)
  fix e x' g assume e: "e \<in> es" and x': "estore s' e = Some x'" "egroup x' = Some g"
  have "estore s' e = estore s e \<or> estore s' e = map_option kill (estore s e)" using assms(1) by (simp add: withdrawn_def)
  with x' obtain x where "estore s e = Some x" "egroup x = Some g" by (cases "estore s e") auto
  with assms(2) e show "g \<notin> L" unfolding none_in_def by blast
qed

lemma withdraw_entry_ok:
  assumes inv: "server_inv L sc s" and now: "normalized now" "rand_ok rnd" and x: "estore s e = Some x" and none: "none_in L s {e}"
  shows "\<exists>s'. withdraw_entry sc now rnd e s = Ret s' \<and> server_inv L sc s' \<and> withdrawn s s' \<and> (\<exists>x'. estore s' e = Some x' \<and> edead x')"
proof (cases "edead x")
  case True
  with x inv show ?thesis by (intro exI [of _ s]) (simp add: withdraw_entry_def get_entry_def withdrawn_refl)
next
  case False
  have zone: "zone_ok L sc {} s" using inv by (simp add: server_inv_def)
  let ?f = "\<lambda>s. s\<lparr>need_entry_cleanup := True\<rparr>"
  have flag: "server_inv L sc t \<Longrightarrow> server_inv L sc (?f t)" for t by (rule server_inv_cong) simp_all
  have wflag: "withdrawn s t \<Longrightarrow> withdrawn s (?f t)" for t by (simp add: withdrawn_def collided_def)
  show ?thesis
  proof (cases "egroup x")
    case None
    from kill_entry_ok [OF inv now x, of False] obtain t where t: "kill_entry sc now rnd False e s = Ret t" "server_inv L sc t" "killed s t {e}" by blast
    have "withdrawn s t" using t(3) x None by (auto simp: withdrawn_def killed_def collided_def split: if_splits)
    moreover have "estore (?f t) e = Some (kill x)" using t(3) x by (simp add: killed_def)
    moreover have "withdraw_entry sc now rnd e s = Ret (?f t)" using x False None t(1) by (simp add: withdraw_entry_def get_entry_def)
    ultimately show ?thesis using flag [OF t(2)] wflag [of t] by (intro exI [of _ "?f t"]) simp
  next
    case (Some g)
    then obtain y where y: "gstore s g = Some y" using zone_entry [OF zone x] by (auto simp: entry_ok_def)
    note go = group_of [OF inv y]
    have "\<forall>e \<in> set (gentries y). estore s e \<noteq> None" using group_entry [OF go] by auto
    from kill_entries_ok [OF inv now this, of False] obtain t where t: "for_entries (kill_entry sc now rnd False) (gentries y) s = Ret t"
      "server_inv L sc t" "killed s t (set (gentries y))" by blast
    have yt: "gstore t g = Some y" using t(3) y by (simp add: killed_def)
    have "\<forall>e \<in> set (gentries y). estore t e = map_option kill (estore t e)"
      using t(3) by (auto simp: killed_def option.map_comp o_def intro!: option.map_cong)
    moreover have "g \<notin> L" using none x Some by (auto simp: none_in_def)
    ultimately have "\<exists>u. avahi_s_entry_group_change_state now (set_group g (y\<lparr>n_probing := 0\<rparr>) t) g AVAHI_ENTRY_GROUP_COLLISION = Ret u \<and>
        server_inv L sc u \<and> estore u = estore t \<and> (\<exists>y'. gstore u = (gstore t)(g \<mapsto> y') \<and> gstate y' = AVAHI_ENTRY_GROUP_COLLISION)"
      using change_killed_ok [OF t(2) yt, of AVAHI_ENTRY_GROUP_COLLISION now] by auto
    then obtain u y' where
      u: "avahi_s_entry_group_change_state now (set_group g (y\<lparr>n_probing := 0\<rparr>) t) g AVAHI_ENTRY_GROUP_COLLISION = Ret u" "server_inv L sc u"
        "estore u = estore t" "gstore u = (gstore t)(g \<mapsto> y')" "gstate y' = AVAHI_ENTRY_GROUP_COLLISION" by auto
    have "withdrawn s u" unfolding withdrawn_def
    proof (intro conjI allI impI)
      show "estore u e' = estore s e' \<or> estore u e' = map_option kill (estore s e')" for e'
        using t(3) u(3) by (simp add: killed_def)
      show "collided u h" if "collided s h" for h using that t(3) u(4,5) by (auto simp: killed_def collided_def)
      show "collided u h" if z: "estore s e' = Some z" "\<not> edead z" "estore u e' = Some z'" "edead z'" "egroup z = Some h" for e' z z' h
      proof -
        have "e' \<in> set (gentries y)" using z t(3) u(3) by (auto simp: killed_def split: if_splits)
        then have "h = g" using group_entry [OF go, of e'] z(1,5) by auto
        with u(4,5) show ?thesis by (simp add: collided_def)
      qed
    qed
    moreover have "e \<in> set (gentries y)" using group_entry [OF go, of e] x Some by blast
    then have "estore (?f u) e = Some (kill x)" using t(3) x u(3) by (simp add: killed_def)
    moreover have "withdraw_entry sc now rnd e s = Ret (?f u)"
      using x False Some y t(1) yt u(1) by (simp add: withdraw_entry_def get_entry_def get_group_def)
    ultimately show ?thesis using flag [OF u(2)] wflag [of u] by (intro exI [of _ "?f u"]) simp
  qed
qed

lemma withdraw_entries_ok:
  assumes "server_inv L sc s" "normalized now" "rand_ok rnd" "\<forall>e \<in> set es. estore s e \<noteq> None" "none_in L s (set es)"
  shows "\<exists>s'. withdraw_entries sc now rnd es s = Ret s' \<and> server_inv L sc s' \<and> withdrawn s s' \<and> (\<forall>e \<in> set es. \<exists>x'. estore s' e = Some x' \<and> edead x')"
  using assms(1,4,5)
proof (induction es arbitrary: s)
  case Nil
  then show ?case by (simp add: withdrawn_refl)
next
  case (Cons e es)
  then obtain x where x: "estore s e = Some x" by auto
  from withdraw_entry_ok [OF Cons.prems(1) assms(2,3) this] Cons.prems(3) obtain s1 x1 where
    s1: "withdraw_entry sc now rnd e s = Ret s1" "server_inv L sc s1" "withdrawn s s1" "estore s1 e = Some x1" "edead x1"
    by (auto simp: none_in_def)
  have "\<forall>e' \<in> set es. estore s1 e' \<noteq> None"
  proof
    fix e' assume "e' \<in> set es"
    with Cons.prems(2) obtain z where "estore s e' = Some z" by auto
    from withdrawn_entry [OF s1(3) this] show "estore s1 e' \<noteq> None" by (metis option.distinct(1))
  qed
  moreover have "none_in L s1 (set es)" using none_in_withdrawn [OF s1(3) Cons.prems(3)] by (simp add: none_in_def)
  ultimately obtain s' where s': "withdraw_entries sc now rnd es s1 = Ret s'" "server_inv L sc s'" "withdrawn s1 s'"
    "\<forall>e \<in> set es. \<exists>x'. estore s' e = Some x' \<and> edead x'" using Cons.IH [OF s1(2)] by blast
  have "\<exists>x'. estore s' e = Some x' \<and> edead x'"
    using withdrawn_entry [OF s'(3) s1(4)] s1(5) by (metis kill_simps(6))
  with s1(1) s'(1,2,4) withdrawn_trans [OF s1(3) s'(3)] show ?case by (intro exI [of _ s']) simp
qed

section \<open>Probes\<close>

definition comparable :: "rr \<Rightarrow> bool" where
  "comparable r \<longleftrightarrow> rr_ok r \<and> rdata r \<noteq> Generic []"

lemma compare_total:
  assumes "comparable a" "comparable b"
  shows "\<exists>c. avahi_record_lexicographical_compare a b = Ret c"
proof (cases "clazz (rkey a) = clazz (rkey b) \<and> ktype (rkey a) = ktype (rkey b)")
  case True
  with assms compare_rdata_order [of a b] show ?thesis
    by (auto simp: comparable_def avahi_record_lexicographical_compare_def Let_def)
qed (simp add: avahi_record_lexicographical_compare_def Let_def)

text \<open>An entry in the list that is alive compares with the record as \<open>P\<close> says.\<close>

definition some_entry :: "server \<Rightarrow> rr \<Rightarrow> nat list \<Rightarrow> (entry \<Rightarrow> int \<Rightarrow> bool) \<Rightarrow> bool" where
  "some_entry s r es P \<longleftrightarrow> (\<exists>e \<in> set es. \<exists>x c. estore s e = Some x \<and> \<not> edead x \<and>
     avahi_record_lexicographical_compare (erecord x) r = Ret c \<and> P x c)"

definition probing_on :: "nat \<Rightarrow> entry \<Rightarrow> bool" where
  "probing_on i x \<longleftrightarrow> (case get_announcer x i of None \<Rightarrow> False | Some a \<Rightarrow> announcer_probing x a)"

lemma some_entry_Cons:
  assumes "estore s e = Some x" "avahi_record_lexicographical_compare (erecord x) r = Ret c"
  shows "some_entry s r (e # es) P \<longleftrightarrow> \<not> edead x \<and> P x c \<or> some_entry s r es P"
  using assms by (auto simp: some_entry_def)

lemma some_entry_dead:
  assumes "estore s e = Some x" "edead x"
  shows "some_entry s r (e # es) P \<longleftrightarrow> some_entry s r es P"
  using assms by (auto simp: some_entry_def)

lemma probe_outcome_ok:
  assumes "comparable r" "\<forall>e \<in> set es. \<exists>x. estore s e = Some x \<and> comparable (erecord x)"
  shows "\<exists>o1 w l. probe_outcome s r i es = Ret (o1, w, l) \<and> (o1 \<longleftrightarrow> some_entry s r es (\<lambda>_ c. c = 0)) \<and>
    (\<not> o1 \<longrightarrow> (w \<longleftrightarrow> some_entry s r es (\<lambda>x c. probing_on i x \<and> 0 < c)) \<and> (l \<longleftrightarrow> some_entry s r es (\<lambda>x c. probing_on i x \<and> c < 0)))"
  using assms(2)
proof (induction es)
  case Nil
  show ?case by (intro exI [of _ False]) (simp add: some_entry_def)
next
  case (Cons e es)
  then obtain x where x: "estore s e = Some x" "comparable (erecord x)" by auto
  from Cons obtain o1 w l where IH: "probe_outcome s r i es = Ret (o1, w, l)" "o1 \<longleftrightarrow> some_entry s r es (\<lambda>_ c. c = 0)"
    "\<not> o1 \<longrightarrow> (w \<longleftrightarrow> some_entry s r es (\<lambda>x c. probing_on i x \<and> 0 < c)) \<and> (l \<longleftrightarrow> some_entry s r es (\<lambda>x c. probing_on i x \<and> c < 0))" by auto
  from compare_total [OF x(2) assms(1)] obtain c where c: "avahi_record_lexicographical_compare (erecord x) r = Ret c" by blast
  note cons = some_entry_Cons [OF x(1) c]
  show ?case
  proof (cases "edead x")
    case True
    with x(1) IH show ?thesis by (simp add: some_entry_dead [OF x(1) True] get_entry_def)
  next
    case False
    have p: "avahi_entry_is_probing s e i = Ret (probing_on i x)"
      using x(1) False by (simp add: avahi_entry_is_probing_def get_entry_def probing_on_def)
    show ?thesis
    proof (cases "c = 0")
      case True
      with x(1) False c show ?thesis by (intro exI [of _ True] exI [of _ False]) (simp add: cons get_entry_def)
    next
      case nz: False
      with x(1) False c p IH(1)
      have "probe_outcome s r i (e # es) = Ret (o1, w \<or> probing_on i x \<and> 0 < c, l \<or> probing_on i x \<and> c < 0)" by (simp add: get_entry_def)
      with nz False IH(2,3) show ?thesis by (simp add: cons) blast
    qed
  qed
qed

text \<open>The entries with the name, type and class of the record.\<close>

definition lost_probe :: "bool \<Rightarrow> server \<Rightarrow> rr \<Rightarrow> nat \<Rightarrow> bool" where
  "lost_probe sc s r i \<longleftrightarrow> (let es = index_list sc (entries_by_key s) (rkey r) in
     \<not> some_entry s r es (\<lambda>_ c. c = 0) \<and> \<not> some_entry s r es (\<lambda>x c. probing_on i x \<and> 0 < c) \<and> some_entry s r es (\<lambda>x c. probing_on i x \<and> c < 0))"

lemma listed_comparable:
  assumes "zone_ok L sc P s" "key_ok k"
  shows "\<forall>e \<in> set (index_list sc (entries_by_key s) k). \<exists>x. estore s e = Some x \<and> comparable (erecord x)"
proof
  fix e assume "e \<in> set (index_list sc (entries_by_key s) k)"
  from index_list_zone [OF assms this] obtain x where "estore s e = Some x" by blast
  with zone_entry [OF assms(1) this] publishable_ok show "\<exists>x. estore s e = Some x \<and> comparable (erecord x)"
    by (auto simp: comparable_def publishable_def)
qed

lemma incoming_probe_ok:
  assumes inv: "server_inv L sc s" and now: "normalized now" "rand_ok rnd" and r: "comparable r"
    and none: "none_in L s (set (index_list sc (entries_by_key s) (rkey r)))"
  shows "\<exists>s'. incoming_probe sc now rnd r i s = Ret s' \<and> server_inv L sc s' \<and> withdrawn s s' \<and>
    (if lost_probe sc s r i then \<forall>e \<in> set (index_list sc (entries_by_key s) (rkey r)). \<exists>x'. estore s' e = Some x' \<and> edead x' else s' = s)"
proof -
  have zone: "zone_ok L sc {} s" using inv by (simp add: server_inv_def)
  have k: "key_ok (rkey r)" using r by (simp add: comparable_def rr_ok_def)
  let ?es = "index_list sc (entries_by_key s) (rkey r)"
  note listed = listed_comparable [OF zone k]
  from probe_outcome_ok [OF r listed, of i] obtain o1 w l where out: "probe_outcome s r i ?es = Ret (o1, w, l)"
    "o1 \<longleftrightarrow> some_entry s r ?es (\<lambda>_ c. c = 0)"
    "\<not> o1 \<longrightarrow> (w \<longleftrightarrow> some_entry s r ?es (\<lambda>x c. probing_on i x \<and> 0 < c)) \<and> (l \<longleftrightarrow> some_entry s r ?es (\<lambda>x c. probing_on i x \<and> c < 0))" by blast
  have lost: "\<not> o1 \<and> \<not> w \<and> l \<longleftrightarrow> lost_probe sc s r i" using out(2,3) unfolding lost_probe_def Let_def by blast
  show ?thesis
  proof (cases "lost_probe sc s r i")
    case False
    with lost out(1) inv show ?thesis by (intro exI [of _ s]) (auto simp: incoming_probe_def withdrawn_refl)
  next
    case True
    have "\<forall>e \<in> set ?es. estore s e \<noteq> None" using listed by auto
    from withdraw_entries_ok [OF inv now this none] obtain s' where "withdraw_rrset sc now rnd (rkey r) s = Ret s'" "server_inv L sc s'" "withdrawn s s'"
      "\<forall>e \<in> set ?es. \<exists>x'. estore s' e = Some x' \<and> edead x'" by (auto simp: withdraw_rrset_def)
    with True lost out(1) show ?thesis by (intro exI [of _ s']) (simp add: incoming_probe_def)
  qed
qed

section \<open>Conflicts\<close>

text \<open>What the loop of \<open>handle_conflict\<close> makes of the state and of its variables.\<close>

definition conflict_ok :: "server \<Rightarrow> nat \<Rightarrow> conflict_state \<Rightarrow> bool" where
  "conflict_ok s i c \<longleftrightarrow> (conflict c \<longrightarrow> withdraw_immediately c \<or>
     (\<exists>e x. conflicting_entry c = Some e \<and> estore s e = Some x \<and> registered_on s i x))"

lemma prepare_again:
  assumes inv: "server_inv L sc s" and x: "estore s e = Some x"
  shows "\<exists>t. avahi_server_prepare_matching_responses sc s i (rkey (erecord x)) False = Ret t \<and> quiet_step now s t \<and>
    lread (srecords t) = lread (srecords s)"
proof -
  have zone: "zone_ok L sc {} s" and io: "io_ok s" using inv by (simp_all add: server_inv_def)
  have "publishable (erecord x)" using zone_entry [OF zone x] by simp
  then have "sent_name AVAHI_DOMAIN_NAME_MAX (name (rkey (erecord x)))" by (simp add: publishable_def postable_def sent_record_def)
  from prepare_matching_ok [OF io zone_index [OF zone] this, of i now] show ?thesis by (auto simp: pushes_def)
qed

lemma conflict_loop_ok:
  assumes inv: "server_inv L sc s" and r: "rr_ok r" and es: "\<forall>e \<in> set es. estore s e \<noteq> None" and c: "conflict_ok s i c"
  shows "\<exists>t c'. conflict_loop sc i r uniq es c s = Ret (t, c') \<and> quiet_step now s t \<and> lread (srecords t) = lread (srecords s) \<and> conflict_ok s i c'"
  using es c
proof (induction es arbitrary: c)
  case Nil
  have "io_ok s" using inv by (simp add: server_inv_def)
  with Nil quiet_refl [OF this, of now] show ?case by (intro exI [of _ s] exI [of _ c]) simp
next
  case (Cons e es)
  have zone: "zone_ok L sc {} s" and io: "io_ok s" using inv by (simp_all add: server_inv_def)
  obtain x where x: "estore s e = Some x" using Cons.prems(1) by auto
  have es: "\<forall>e \<in> set es. estore s e \<noteq> None" using Cons.prems(1) by simp
  note again = Cons.IH [OF es]
  have eq: "avahi_record_equal_no_ttl (erecord x) r = Ret (rr_abs (erecord x) = rr_abs r)"
    using record_equal_abs publishable_ok r zone_entry [OF zone x] by blast
  from prepare_again [OF inv x, of i now] obtain t where t: "avahi_server_prepare_matching_responses sc s i (rkey (erecord x)) False = Ret t"
    "quiet_step now s t" "lread (srecords t) = lread (srecords s)" by blast
  show ?case
  proof (cases "edead x \<or> \<not> avahi_record_is_goodbye r \<and> \<not> unique x \<and> \<not> uniq")
    case True
    with x have "conflict_loop sc i r uniq (e # es) c s = conflict_loop sc i r uniq es c s" by (auto simp: get_entry_def)
    with again [OF Cons.prems(2)] show ?thesis by simp
  next
    case False
    then have alive: "\<not> edead x" by simp
    show ?thesis
    proof (cases "avahi_record_is_goodbye r")
      case True
      show ?thesis
      proof (cases "rr_abs (erecord x) = rr_abs r")
        case same: True
        with x alive True eq t Cons.prems(2) show ?thesis
          by (intro exI [of _ t] exI [of _ "c\<lparr>valid := False\<rparr>"]) (simp add: get_entry_def conflict_ok_def)
      next
        case False
        with x alive True eq have "conflict_loop sc i r uniq (e # es) c s = conflict_loop sc i r uniq es c s" by (simp add: get_entry_def)
        with again [OF Cons.prems(2)] show ?thesis by simp
      qed
    next
      case live: False
      note reg = is_registered_on [OF x alive, of i]
      have prob: "avahi_entry_is_probing s e i = Ret (probing_on i x)"
        using x alive by (simp add: avahi_entry_is_probing_def get_entry_def probing_on_def)
      show ?thesis
      proof (cases "rr_abs (erecord x) = rr_abs r")
        case same: True
        show ?thesis
        proof (cases "ttl r \<le> ttl (erecord x) div 2 \<and> registered_on s i x")
          case True
          with x alive live False same eq reg t Cons.prems(2) show ?thesis
            by (intro exI [of _ t] exI [of _ "c\<lparr>ours := True, valid := False\<rparr>"]) (auto simp: get_entry_def conflict_ok_def)
        next
          case no: False
          with x alive live False same eq reg Cons.prems(2) quiet_refl [OF io, of now] show ?thesis
            by (intro exI [of _ s] exI [of _ "c\<lparr>ours := True\<rparr>"]) (auto simp: get_entry_def conflict_ok_def)
        qed
      next
        case diff: False
        let ?c = "if registered_on s i x then c\<lparr>conflict := True, conflicting_entry := Some e\<rparr>
          else if probing_on i x then c\<lparr>conflict := True, withdraw_immediately := True\<rparr> else c"
        have "conflict_loop sc i r uniq (e # es) c s = conflict_loop sc i r uniq es ?c s"
          using x alive live False diff eq reg prob by (auto simp: get_entry_def)
        moreover have "conflict_ok s i ?c" using Cons.prems(2) x by (auto simp: conflict_ok_def)
        ultimately show ?thesis using again by simp
      qed
    qed
  qed
qed

lemma handle_conflict_ok:
  assumes inv: "server_inv L sc s" and now: "normalized now" "rand_ok rnd" and r: "rr_ok r"
    and none: "none_in L s (set (index_list sc (entries_by_key s) (rkey r)))"
  shows "\<exists>s' b. handle_conflict sc now rnd s i r uniq = Ret (s', b) \<and> server_inv L sc s'"
proof -
  have zone: "zone_ok L sc {} s" and l: "lread (srecords s) = []" using inv by (simp_all add: server_inv_def)
  have k: "key_ok (rkey r)" using r by (simp add: rr_ok_def)
  let ?es = "index_list sc (entries_by_key s) (rkey r)"
  let ?c = "\<lparr>valid = True, ours = False, conflict = False, withdraw_immediately = False, conflicting_entry = None\<rparr>"
  have es: "\<forall>e \<in> set ?es. estore s e \<noteq> None" using listed_comparable [OF zone k] by auto
  have "conflict_ok s i ?c" by (simp add: conflict_ok_def)
  from conflict_loop_ok [OF inv r es this, of uniq now] obtain t c where t: "conflict_loop sc i r uniq ?es ?c s = Ret (t, c)" "quiet_step now s t"
    "lread (srecords t) = lread (srecords s)" "conflict_ok s i c" by blast
  have inv_t: "server_inv L sc t" using zone_quiet [OF t(2) zone] quiet_io [OF t(2)] t(3) l by (simp add: server_inv_def)
  show ?thesis
  proof (cases "\<not> ours c \<and> conflict c")
    case False
    with t(1) inv_t show ?thesis by (intro exI [of _ t] exI [of _ "valid c"]) (auto simp: handle_conflict_def)
  next
    case True
    show ?thesis
    proof (cases "withdraw_immediately c")
      case now: True
      have "\<forall>e \<in> set (index_list sc (entries_by_key t) (rkey r)). estore t e \<noteq> None" using es by (simp add: quiet_zone [OF t(2)])
      moreover have "none_in L t (set (index_list sc (entries_by_key t) (rkey r)))"
        using none by (simp add: none_in_def quiet_zone [OF t(2)])
      ultimately obtain s' where "withdraw_rrset sc now rnd (rkey r) t = Ret s'" "server_inv L sc s'"
        using withdraw_entries_ok [OF inv_t assms(2,3)] unfolding withdraw_rrset_def by blast
      with t(1) True now show ?thesis by (intro exI [of _ s'] exI [of _ False]) (simp add: handle_conflict_def)
    next
      case False
      with True t(4) obtain e x where e: "conflicting_entry c = Some e" "estore s e = Some x" by (auto simp: conflict_ok_def)
      then have "estore t e = Some x" by (simp add: quiet_zone [OF t(2)])
      from return_to_initial_state_ok [OF inv_t assms(2,3) this, of i] obtain s' where
        "avahi_entry_return_to_initial_state now rnd e i t = Ret s'" "server_inv L sc s'" by blast
      with t(1) True False e(1) show ?thesis by (intro exI [of _ s'] exI [of _ False]) (simp add: handle_conflict_def)
    qed
  qed
qed

end
