(* ===== verification/Ifaces_Inv.thy ===== *)
theory Ifaces_Inv
  imports Ifaces Conflicts Response_Properties
begin

text \<open>
  Interfaces and the published records: the auxiliary records the server finds can be sent, and what
  happens when responses are sent and when interfaces come and go keeps the invariant.
\<close>

section \<open>Auxiliary records\<close>

definition aux_ok :: "(rr \<times> bool) list \<Rightarrow> bool" where
  "aux_ok rs \<longleftrightarrow> (\<forall>(r, f) \<in> set rs. postable r)"

lemma aux_ok_simps [simp]: "aux_ok []" "aux_ok ((r, f) # rs) \<longleftrightarrow> postable r \<and> aux_ok rs" "aux_ok (rs @ rs') \<longleftrightarrow> aux_ok rs \<and> aux_ok rs'"
  by (auto simp: aux_ok_def)

lemma enum_listed_ok:
  assumes "\<forall>e \<in> set es. \<exists>x. estore s e = Some x \<and> postable (erecord x)"
  shows "\<exists>rs. enum_listed s i es = Ret rs \<and> aux_ok rs"
  using assms
proof (induction es)
  case (Cons e es)
  then obtain x rs where "estore s e = Some x" "postable (erecord x)" "enum_listed s i es = Ret rs" "aux_ok rs" by auto
  then show ?case using is_registered_on [of s e x i] by (cases "edead x") (auto simp: get_entry_def)
qed simp

lemma enum_any_ok:
  assumes "name_ok nm" "\<forall>e \<in> set es. \<exists>x. estore s e = Some x \<and> postable (erecord x)"
  shows "\<exists>rs. enum_any s i nm es = Ret rs \<and> aux_ok rs"
  using assms(2)
proof (induction es)
  case (Cons e es)
  then obtain x rs where x: "estore s e = Some x" "postable (erecord x)" "enum_any s i nm es = Ret rs" "aux_ok rs" by auto
  then have "name_ok (name (rkey (erecord x)))" by (simp add: postable_def rr_ok_def key_ok_def)
  with x domain_equal_folded [OF assms(1) this] show ?case
    using is_registered_on [of s e x i] by (cases "edead x") (auto simp: get_entry_def)
qed simp

lemma enum_aux_ok:
  assumes zone: "zone_ok L sc P s" and nm: "sent_name AVAHI_DOMAIN_NAME_MAX nm"
  shows "\<exists>rs. enum_aux_records sc s i nm type = Ret rs \<and> aux_ok rs"
proof -
  note key = sent_name_key [OF nm order.refl]
  have post: "postable (erecord x)" if "estore s e = Some x" for e x using zone_entry [OF zone that] by (simp add: publishable_def)
  show ?thesis
  proof (cases "type = AVAHI_DNS_TYPE_ANY")
    case True
    have "\<forall>e \<in> set (entries s). \<exists>x. estore s e = Some x \<and> postable (erecord x)"
    proof
      fix e assume "e \<in> set (entries s)"
      with zone_entries [OF zone, of e] obtain x where "estore s e = Some x" by blast
      with post show "\<exists>x. estore s e = Some x \<and> postable (erecord x)" by blast
    qed
    with enum_any_ok [OF key(3)] True show ?thesis by (simp add: enum_aux_records_def)
  next
    case False
    let ?k = "\<lparr>name = nm, clazz = AVAHI_DNS_CLASS_IN, ktype = type\<rparr>"
    have "key_ok ?k" using key(3) by (simp add: key_ok_def)
    then have "\<forall>e \<in> set (index_list sc (entries_by_key s) ?k). \<exists>x. estore s e = Some x \<and> postable (erecord x)"
      using index_list_zone [OF zone] post by blast
    from enum_listed_ok [OF this] False key(1) show ?thesis by (simp add: enum_aux_records_def)
  qed
qed

lemma sent_rdata_member:
  assumes "sent_rdata t d"
  shows "case_of_type t = Name_case \<Longrightarrow> \<exists>n. d = Name n \<and> sent_name AVAHI_DOMAIN_NAME_MAX n"
    and "case_of_type t = Srv_case \<Longrightarrow> \<exists>x y z n. d = Srv x y z n \<and> sent_name AVAHI_DOMAIN_NAME_MAX n"
  using assms by (cases rule: sent_rdata_cases; simp)+

lemma enumerate_ok:
  assumes zone: "zone_ok L sc P s" and r: "postable r"
  shows "\<exists>rs. avahi_server_enumerate_aux_records sc s i r = Ret rs \<and> aux_ok rs"
proof -
  have sent: "sent_rdata (ktype (rkey r)) (rdata r)" using r by (simp add: postable_def sent_record_def)
  have types: "case_of_type AVAHI_DNS_TYPE_PTR = Name_case" "case_of_type AVAHI_DNS_TYPE_CNAME = Name_case"
    "case_of_type AVAHI_DNS_TYPE_SRV = Srv_case" by code_simp+
  note aux = enum_aux_ok [OF zone, of _ i]
  show ?thesis
  proof (cases "clazz (rkey r) = AVAHI_DNS_CLASS_IN \<and> ktype (rkey r) = AVAHI_DNS_TYPE_PTR")
    case True
    with sent_rdata_member(1) [OF sent] types obtain n where n: "rdata r = Name n" "sent_name AVAHI_DOMAIN_NAME_MAX n" by auto
    from aux [OF n(2), of AVAHI_DNS_TYPE_SRV] aux [OF n(2), of AVAHI_DNS_TYPE_TXT] n(1) True show ?thesis
      by (auto simp: avahi_server_enumerate_aux_records_def)
  next
    case not_ptr: False
    show ?thesis
    proof (cases "clazz (rkey r) = AVAHI_DNS_CLASS_IN \<and> ktype (rkey r) = AVAHI_DNS_TYPE_SRV")
      case True
      with sent_rdata_member(2) [OF sent] types obtain a b c n where n: "rdata r = Srv a b c n" "sent_name AVAHI_DOMAIN_NAME_MAX n" by auto
      from aux [OF n(2), of AVAHI_DNS_TYPE_A] aux [OF n(2), of AVAHI_DNS_TYPE_AAAA] n(1) True not_ptr show ?thesis
        by (auto simp: avahi_server_enumerate_aux_records_def)
    next
      case not_srv: False
      show ?thesis
      proof (cases "clazz (rkey r) = AVAHI_DNS_CLASS_IN \<and> ktype (rkey r) = AVAHI_DNS_TYPE_CNAME")
        case True
        with sent_rdata_member(1) [OF sent] types obtain n where n: "rdata r = Name n" "sent_name AVAHI_DOMAIN_NAME_MAX n" by auto
        from aux [OF n(2), of AVAHI_DNS_TYPE_ANY] n(1) True not_ptr not_srv show ?thesis
          by (auto simp: avahi_server_enumerate_aux_records_def)
      next
        case False
        with not_ptr not_srv show ?thesis by (auto simp: avahi_server_enumerate_aux_records_def)
      qed
    qed
  qed
qed

lemma server_aux_closed: "zone_ok L sc P s \<Longrightarrow> aux_closed (server_aux sc s i) (Collect postable)"
  using enumerate_ok [of L sc P s _ i] by (force simp: aux_closed_def server_aux_def aux_ok_def)

section \<open>Response schedulers of the interfaces\<close>

lemma with_responses_ok:
  assumes inv: "server_inv L sc s" and y: "istore s i = Some y"
    and f: "response_inv ((iresponses y)\<lparr>rjitter := sjitter s\<rparr>) \<Longrightarrow> \<exists>rs'. f y ((iresponses y)\<lparr>rjitter := sjitter s\<rparr>) = Ret rs' \<and> response_inv rs'"
  shows "\<exists>s' rs. with_responses i f s = Ret s' \<and> server_inv L sc s' \<and> f y ((iresponses y)\<lparr>rjitter := sjitter s\<rparr>) = Ret rs \<and>
    s' = (set_iface i (y\<lparr>iresponses := rs\<rparr>) s)\<lparr>sjitter := rjitter rs\<rparr>"
proof -
  have io: "io_ok s" using inv by (simp add: server_inv_def)
  then have "iface_ok y" "rand_ok (last_rand (sjitter s))" using y by (auto simp: io_ok_def)
  then have "response_inv ((iresponses y)\<lparr>rjitter := sjitter s\<rparr>)"
    using core_rjitter by (simp add: iface_ok_def response_inv_def jobs_in_def)
  from f [OF this] obtain rs where rs: "f y ((iresponses y)\<lparr>rjitter := sjitter s\<rparr>) = Ret rs" "response_inv rs" by blast
  let ?y = "y\<lparr>iresponses := rs\<rparr>"
  have "iface_ok ?y" "rand_ok (last_rand (rjitter rs))" using rs(2) by (simp_all add: iface_ok_def response_inv_def resp_core_def)
  from set_iface_ok [OF inv y this(1)] this(2) have "server_inv L sc ((set_iface i ?y s)\<lparr>sjitter := rjitter rs\<rparr>)"
    using zone_cong [of L sc "{}" "set_iface i ?y s" "(set_iface i ?y s)\<lparr>sjitter := rjitter rs\<rparr>"]
    by (simp add: server_inv_def io_ok_def)
  with y rs(1) show ?thesis by (simp add: with_responses_def get_iface_def)
qed

text \<open>Entries and groups stay as they are.\<close>

definition same_records :: "server \<Rightarrow> server \<Rightarrow> bool" where
  "same_records s s' \<longleftrightarrow> entries s' = entries s \<and> estore s' = estore s \<and> entries_by_key s' = entries_by_key s \<and> groups s' = groups s \<and>
     gstore s' = gstore s \<and> changes s' = changes s \<and> srecords s' = srecords s"

lemma same_records_iface: "same_records s ((set_iface i y s)\<lparr>sjitter := js\<rparr>)"
  by (simp add: same_records_def set_iface_def)

lemma response_step_ok:
  assumes inv: "server_inv L sc s" and y: "istore s i = Some y" and f: "\<And>rs. f y rs = response_do sc x rs"
    and x: "response_op_ok ((iresponses y)\<lparr>rjitter := sjitter s\<rparr>) x"
  shows "\<exists>s'. with_responses i f s = Ret s' \<and> server_inv L sc s' \<and> same_records s s' \<and>
    interfaces s' = interfaces s \<and> (\<forall>j. j \<noteq> i \<longrightarrow> istore s' j = istore s j) \<and> (\<exists>rs. istore s' i = Some (y\<lparr>iresponses := rs\<rparr>))"
proof -
  let ?rs = "(iresponses y)\<lparr>rjitter := sjitter s\<rparr>"
  have "\<exists>s' rs. with_responses i f s = Ret s' \<and> server_inv L sc s' \<and>
    f y ?rs = Ret rs \<and> s' = (set_iface i (y\<lparr>iresponses := rs\<rparr>) s)\<lparr>sjitter := rjitter rs\<rparr>"
    by (rule with_responses_ok [OF inv y]) (use response_do_ok [OF _ x] f in auto)
  then obtain s' rs where s': "with_responses i f s = Ret s'" "server_inv L sc s'"
    "s' = (set_iface i (y\<lparr>iresponses := rs\<rparr>) s)\<lparr>sjitter := rjitter rs\<rparr>" by blast
  then show ?thesis using same_records_iface [of s "rjitter rs" i] by (auto simp: set_iface_def)
qed

lemma response_incoming_ok:
  assumes "server_inv L sc s" "istore s i = Some y" "normalized now" "rr_ok r"
  shows "\<exists>s'. response_incoming now i r flush s = Ret s' \<and> server_inv L sc s'"
  using response_step_ok [OF assms(1,2), of _ "Response_incoming now r flush"] assms(3,4) by (force simp: response_incoming_def)

lemma response_suppress_ok:
  assumes "server_inv L sc s" "istore s i = Some y" "normalized now" "rr_ok r" "address_ok a"
  shows "\<exists>s'. response_suppress now i r a s = Ret s' \<and> server_inv L sc s'"
  using response_step_ok [OF assms(1,2), of _ "Response_suppress now r a"] assms(3-5) by (force simp: response_suppress_def)

lemma server_aux_postable: "server_inv L sc s \<Longrightarrow> aux_closed (server_aux sc s i) (Collect postable)"
  using server_aux_closed [of L sc "{}" s i] by (simp add: server_inv_def)

lemma response_elapsed_ok:
  assumes "server_inv L sc s" "istore s i = Some y" "normalized now" "rand_ok rnd" "rstore (iresponses y) j \<noteq> None"
  shows "\<exists>s'. response_elapsed sc now rnd i j s = Ret s' \<and> server_inv L sc s'"
  using response_step_ok [OF assms(1,2), of _ "Response_elapse (server_aux sc s i) (hw_mtu y) now rnd j"] assms(3-5)
    server_aux_postable [OF assms(1)]
  by (force simp: response_elapsed_def)

lemma response_force_ok:
  assumes "server_inv L sc s" "istore s i = Some y" "normalized now" "rand_ok rnd"
  shows "\<exists>s'. with_responses i (\<lambda>x. avahi_response_scheduler_force sc (server_aux sc s i) (hw_mtu x) now rnd k) s = Ret s' \<and>
    server_inv L sc s' \<and> same_records s s' \<and> interfaces s' = interfaces s \<and> (\<forall>j. j \<noteq> i \<longrightarrow> istore s' j = istore s j) \<and> istore s' i \<noteq> None"
  using response_step_ok [OF assms(1,2), of "\<lambda>x. avahi_response_scheduler_force sc (server_aux sc s i) (hw_mtu x) now rnd k"
    "Response_force (server_aux sc s i) (hw_mtu y) now rnd k"] assms(3,4) server_aux_postable [OF assms(1)]
  by auto

lemma response_clear_step:
  assumes "server_inv L sc s" "istore s i = Some y"
  shows "\<exists>s'. with_responses i (\<lambda>_. avahi_response_scheduler_clear) s = Ret s' \<and> server_inv L sc s' \<and> same_records s s' \<and>
    (\<forall>j. j \<noteq> i \<longrightarrow> istore s' j = istore s j) \<and> (\<exists>rs. istore s' i = Some (y\<lparr>iresponses := rs\<rparr>))"
  using response_step_ok [OF assms, of "\<lambda>_. avahi_response_scheduler_clear" Response_clear] by auto

section \<open>Interfaces come and go\<close>

lemma zone_add_iface:
  assumes "zone_ok L sc P s" "istore s i = None"
  shows "zone_ok L sc P ((set_iface i y s)\<lparr>interfaces := js\<rparr>)"
proof -
  let ?s = "(set_iface i y s)\<lparr>interfaces := js\<rparr>"
  have "index_ready sc ?s = index_ready sc s" by (simp add: index_ready_def entries_ok_def zone_keys_def [abs_def] set_iface_def)
  moreover have "entry_ok ?s x = entry_ok s x" "group_ok L ?s g z = group_ok L s g z" "announcer_at ?s e j = announcer_at s e j"
    "state_of_group ?s e = state_of_group s e" for x g z e j
    by (simp_all add: entry_ok_def group_ok_def announcer_at_def state_of_group_def probing_of_def [abs_def] set_iface_def cong: option.case_cong)
  ultimately show ?thesis using assms unfolding zone_ok_def by (auto simp: set_iface_def)
qed

lemma interface_new_ok:
  assumes inv: "server_inv L sc s" and i: "istore s i = None" and p: "AVAHI_PROTO_VALID protocol"
  shows "\<exists>s'. avahi_interface_new i idx protocol mtu s = Ret s' \<and> server_inv L sc s' \<and> same_records s s' \<and>
    interfaces s' = i # interfaces s \<and> (\<forall>j. j \<noteq> i \<longrightarrow> istore s' j = istore s j) \<and>
    (\<exists>y. istore s' i = Some y \<and> \<not> announcing y \<and> hw_index y = idx \<and> iprotocol y = protocol)"
proof -
  let ?y = "\<lparr>announcing = False, hw_index = idx, iprotocol = protocol, hw_mtu = mtu,
    iresponses = avahi_response_scheduler_new (sjitter s), iprobes = [], iunicasts = []\<rparr>"
  have io: "io_ok s" using inv by (simp add: server_inv_def)
  then have "iface_ok ?y" using resp_core_new [of "sjitter s"] by (simp add: iface_ok_def io_ok_def jobs_in_def) (simp add: avahi_response_scheduler_new_def)
  moreover have "i \<notin> set (interfaces s)" using io i unfolding io_ok_def by metis
  ultimately have "io_ok ((set_iface i ?y s)\<lparr>interfaces := i # interfaces s\<rparr>)" using io by (auto simp: io_ok_def set_iface_def)
  with inv zone_add_iface [of L sc "{}" s i "i # interfaces s" ?y] i have
    "server_inv L sc ((set_iface i ?y s)\<lparr>interfaces := i # interfaces s\<rparr>)" by (simp add: server_inv_def) (simp add: set_iface_def)
  with i p show ?thesis by (simp add: avahi_interface_new_def same_records_def set_iface_def)
qed

lemma announcing_on_ok:
  assumes inv: "server_inv L sc s" and y: "istore s i = Some y" and now: "normalized now" "rand_ok rnd"
  shows "\<exists>s'. avahi_announce_interface now rnd i (set_iface i (y\<lparr>announcing := True\<rparr>) s) = Ret s' \<and> server_inv L sc s' \<and>
    announces now (set_iface i (y\<lparr>announcing := True\<rparr>) s) s' \<and> (\<forall>e. announced_on s' e i) \<and>
    (\<forall>e j. j \<noteq> i \<longrightarrow> announcer_at s' e j = announcer_at s e j)"
proof -
  have "iface_ok y" using inv y by (auto simp: server_inv_def io_ok_def)
  then have "iface_ok (y\<lparr>announcing := True\<rparr>)" by (simp add: iface_ok_def)
  from set_iface_ok [OF inv y this] have "server_inv L sc (set_iface i (y\<lparr>announcing := True\<rparr>) s)" .
  from announce_interface_ok [OF this now, of i] show ?thesis by (simp add: set_iface_def announcer_at_def)
qed

lemma same_records_announcer: "same_records s s' \<Longrightarrow> announcer_at s' e i = announcer_at s e i"
  by (simp add: same_records_def announcer_at_def)

lemma same_records_groups: "same_records s s' \<Longrightarrow> same_groups s s'"
  by (simp add: same_records_def same_groups_store)

text \<open>An interface is left: all it had in hand is gone.\<close>

lemma leaving_ok:
  assumes inv: "server_inv L sc s" and y: "istore s i = Some y" and now: "normalized now" "rand_ok rnd"
  shows "\<exists>s'. res_bind (avahi_goodbye_interface sc now rnd i False True s) (\<lambda>s.
         res_bind (with_responses i (\<lambda>_. avahi_response_scheduler_clear) s) (\<lambda>s.
         res_map (\<lambda>y. set_iface i (y\<lparr>announcing := False\<rparr>) s) (get_iface s i))) = Ret s' \<and> server_inv L sc s' \<and> same_groups s s' \<and> gstore s' = gstore s \<and>
    left_interface i s s' \<and> (\<exists>z. istore s' i = Some z \<and> \<not> announcing z)"
proof -
  from y have i: "istore s i \<noteq> None" by simp
  from goodbye_interface_ok [OF inv now this, of False True] obtain t where t: "avahi_goodbye_interface sc now rnd i False True s = Ret t"
    "server_inv L sc t" "same_groups s t" "left_interface i s t" "gstore t = gstore s" by auto
  have "istore t = istore s" using t(1) y by (auto simp: avahi_goodbye_interface_def get_iface_def remove_interface_announcers_def)
  with y have ty: "istore t i = Some y" by simp
  from response_clear_step [OF t(2) ty] obtain u rs where u: "with_responses i (\<lambda>_. avahi_response_scheduler_clear) t = Ret u"
    "server_inv L sc u" "same_records t u" "istore u i = Some (y\<lparr>iresponses := rs\<rparr>)" by blast
  let ?y = "y\<lparr>iresponses := rs, announcing := False\<rparr>"
  have "iface_ok (y\<lparr>iresponses := rs\<rparr>)" using u(2,4) by (auto simp: server_inv_def io_ok_def)
  then have "iface_ok ?y" by (simp add: iface_ok_def)
  from set_iface_ok [OF u(2,4) this] have "server_inv L sc (set_iface i ?y u)" .
  moreover have "same_groups s (set_iface i ?y u)"
    using t(3) same_records_groups [OF u(3)] by (auto intro: same_groups_trans simp: same_groups_def set_iface_def)
  moreover have "left_interface i s (set_iface i ?y u)"
    using t(4) same_records_announcer [OF u(3)] by (simp add: left_interface_def announcer_at_def set_iface_def)
  moreover have "gstore (set_iface i ?y u) = gstore s" using u(3) t(5) by (simp add: same_records_def set_iface_def)
  ultimately show ?thesis using t(1) u(1,4) by (simp add: get_iface_def) (simp add: set_iface_def)
qed

lemma check_relevant_ok:
  assumes inv: "server_inv L sc s" and y: "istore s i = Some y" and now: "normalized now" "rand_ok rnd"
  shows "\<exists>s'. avahi_interface_check_relevant sc now rnd list_complete b joined i s = Ret s' \<and> server_inv L sc s' \<and>
    (if list_complete \<and> b \<and> \<not> announcing y \<and> joined
     then announces now (set_iface i (y\<lparr>announcing := True\<rparr>) s) s' \<and> (\<forall>e. announced_on s' e i) \<and>
       (\<forall>e j. j \<noteq> i \<longrightarrow> announcer_at s' e j = announcer_at s e j)
     else if \<not> b \<and> announcing y then same_groups s s' \<and> gstore s' = gstore s \<and> left_interface i s s' \<and> (\<exists>z. istore s' i = Some z \<and> \<not> announcing z)
     else s' = s)"
proof -
  have get: "get_iface s i = Ret y" using y by (simp add: get_iface_def)
  from announcing_on_ok [OF inv y now] leaving_ok [OF inv y now] show ?thesis
    unfolding avahi_interface_check_relevant_def get res_bind.simps
    by (cases "list_complete \<and> b \<and> \<not> announcing y"; cases joined; cases "\<not> b \<and> announcing y") (use inv in auto)
qed

lemma zone_drop_iface:
  assumes zone: "zone_ok L sc P s" and gone: "\<forall>e. announcer_at s e i = None"
  shows "zone_ok L sc P (s\<lparr>istore := (istore s)(i := None), interfaces := js\<rparr>)"
proof -
  let ?s = "s\<lparr>istore := (istore s)(i := None), interfaces := js\<rparr>"
  have "index_ready sc ?s = index_ready sc s" by (simp add: index_ready_def entries_ok_def zone_keys_def [abs_def])
  moreover have "entry_ok ?s x = entry_ok s x" "group_ok L ?s g z = group_ok L s g z" "announcer_at ?s e j = announcer_at s e j"
    "state_of_group ?s e = state_of_group s e" for x g z e j
    by (simp_all add: entry_ok_def group_ok_def announcer_at_def state_of_group_def probing_of_def [abs_def] cong: option.case_cong)
  ultimately show ?thesis using zone gone unfolding zone_ok_def by auto
qed

lemma interface_free_ok:
  assumes inv: "server_inv L sc s" and y: "istore s i = Some y" and now: "normalized now" "rand_ok rnd"
  shows "\<exists>s'. avahi_interface_free sc now rnd k send_goodbye i s = Ret s' \<and> server_inv L sc s' \<and> same_groups s s' \<and>
    left_interface i s s' \<and> istore s' i = None"
proof -
  from y have i: "istore s i \<noteq> None" by simp
  from goodbye_interface_ok [OF inv now this, of send_goodbye True] obtain t where
    t: "avahi_goodbye_interface sc now rnd i send_goodbye True s = Ret t" "server_inv L sc t" "same_groups s t" "left_interface i s t"
      "\<forall>j. istore t j = None \<longleftrightarrow> istore s j = None" by auto
  from t(5) y obtain z where z: "istore t i = Some z" by (cases "istore t i") auto
  from response_force_ok [OF t(2) z now, of k] obtain u where
    u: "with_responses i (\<lambda>x. avahi_response_scheduler_force sc (server_aux sc t i) (hw_mtu x) now rnd k) t = Ret u"
      "server_inv L sc u" "same_records t u" "interfaces u = interfaces t" "istore u i \<noteq> None" by blast
  have gone: "\<forall>e. announcer_at u e i = None" using t(4) same_records_announcer [OF u(3)] by (simp add: left_interface_def)
  have none: "\<not> list_ex (\<lambda>e. case estore u e of None \<Rightarrow> False | Some x \<Rightarrow> get_announcer x i \<noteq> None) (entries u)"
    using gone by (auto simp: list_ex_iff announcer_at_def split: option.splits)
  let ?u = "u\<lparr>istore := (istore u)(i := None), interfaces := remove1 i (interfaces u)\<rparr>"
  have io: "io_ok u" using u(2) by (simp add: server_inv_def)
  then have "io_ok ?u" by (auto simp: io_ok_def)
  with zone_drop_iface [OF _ gone, of L sc "{}"] u(2) have "server_inv L sc ?u" by (simp add: server_inv_def)
  moreover have "same_groups s ?u"
    using t(3) same_records_groups [OF u(3)] by (auto intro: same_groups_trans simp: same_groups_def)
  moreover have "left_interface i s ?u"
    using t(4) same_records_announcer [OF u(3)] by (simp add: left_interface_def announcer_at_def)
  ultimately show ?thesis using t(1) u(1) none unfolding avahi_interface_free_def by (intro exI [of _ ?u]) simp
qed

end
