(* ===== verification/Publish_Reach.thy ===== *)
theory Publish_Reach
  imports Ifaces_Inv
begin

text \<open>
  The published records as a whole: all operations on entries, groups, announcers and interfaces as
  one datatype, the states that are reached by them in any order, and the invariant of these states.
\<close>

section \<open>Operations\<close>

text \<open>
  The clients of the server use groups and add records to them; announcers, groups, scheduled responses and the clean-up have
  timers; interfaces come and go; probes, conflicting records and responses are heard. A number
  that is not in use stands for what is created.
\<close>

datatype publish_op =
    Group_new nat
  | Group_commit nat
  | Group_reset nat
  | Group_free nat
  | Group_timer nat
  | Entry_add nat "nat option" int int "publish_flag set" rr
  | Announcer_timer nat nat
  | Clean_up
  | Iface_new nat int int nat
  | Iface_check bool bool bool nat
  | Iface_free nat bool nat
  | Iface_timer nat nat
  | Heard_response nat rr bool
  | Heard_known_answer nat rr address
  | Heard_probe nat rr
  | Heard_conflict nat rr bool
  | Server_turns server_state

fun publish_do :: "bool \<Rightarrow> timeval \<Rightarrow> int \<Rightarrow> publish_op \<Rightarrow> server \<Rightarrow> server res" where
  "publish_do sc now rnd (Group_new g) s = avahi_s_entry_group_new g s"
| "publish_do sc now rnd (Group_commit g) s = res_map fst (avahi_s_entry_group_commit sc now rnd g s)"
| "publish_do sc now rnd (Group_reset g) s = avahi_s_entry_group_reset sc now rnd g s"
| "publish_do sc now rnd (Group_free g) s = avahi_s_entry_group_free sc now rnd g s"
| "publish_do sc now rnd (Group_timer g) s = entry_group_register_time_event_callback sc now rnd g s"
| "publish_do sc now rnd (Entry_add e g idx protocol flags r) s = res_map fst (server_add_internal sc now rnd e s g idx protocol flags r)"
| "publish_do sc now rnd (Announcer_timer e i) s = Announce.next_state sc now rnd e i s"
| "publish_do sc now rnd Clean_up s = avahi_cleanup_dead_entries sc now rnd s"
| "publish_do sc now rnd (Iface_new i idx protocol mtu) s = avahi_interface_new i idx protocol mtu s"
| "publish_do sc now rnd (Iface_check complete relevant joined i) s = avahi_interface_check_relevant sc now rnd complete relevant joined i s"
| "publish_do sc now rnd (Iface_free k goodbye i) s = avahi_interface_free sc now rnd k goodbye i s"
| "publish_do sc now rnd (Iface_timer i j) s = response_elapsed sc now rnd i j s"
| "publish_do sc now rnd (Heard_response i r flush) s = response_incoming now i r flush s"
| "publish_do sc now rnd (Heard_known_answer i r a) s = response_suppress now i r a s"
| "publish_do sc now rnd (Heard_probe i r) s = incoming_probe sc now rnd r i s"
| "publish_do sc now rnd (Heard_conflict i r flush) s = res_map fst (handle_conflict sc now rnd s i r flush)"
| "publish_do sc now rnd (Server_turns st) s = Ret (s\<lparr>sstate := st\<rparr>)"

text \<open>
  When an operation is used as it is meant to be: what it is about is there, groups that have been freed are not used,
  timers run off when they have been set, records have names that can be sent and are no patterns, and are not added
  for both transports at once.
\<close>

fun publish_op_ok :: "server \<Rightarrow> publish_op \<Rightarrow> bool" where
  "publish_op_ok s (Group_new g) \<longleftrightarrow> gstore s g = None"
| "publish_op_ok s (Group_commit g) \<longleftrightarrow> (\<exists>y. gstore s g = Some y \<and> \<not> gdead y)"
| "publish_op_ok s (Group_reset g) \<longleftrightarrow> gstore s g \<noteq> None"
| "publish_op_ok s (Group_free g) \<longleftrightarrow> gstore s g \<noteq> None"
| "publish_op_ok s (Group_timer g) \<longleftrightarrow> (\<exists>y. gstore s g = Some y \<and> \<not> gdead y \<and> register_time_event y \<noteq> None)"
| "publish_op_ok s (Entry_add e g idx protocol flags r) \<longleftrightarrow> estore s e = None \<and> publishable r \<and>
     \<not> (AVAHI_PUBLISH_USE_MULTICAST \<in> flags \<and> AVAHI_PUBLISH_USE_WIDE_AREA \<in> flags) \<and>
     (\<forall>h. g = Some h \<longrightarrow> (\<exists>y. gstore s h = Some y \<and> \<not> gdead y))"
| "publish_op_ok s (Announcer_timer e i) \<longleftrightarrow> (\<exists>a. announcer_at s e i = Some a \<and> atime_event a \<noteq> None)"
| "publish_op_ok s Clean_up \<longleftrightarrow> True"
| "publish_op_ok s (Iface_new i idx protocol mtu) \<longleftrightarrow> istore s i = None \<and> AVAHI_PROTO_VALID protocol"
| "publish_op_ok s (Iface_check complete relevant joined i) \<longleftrightarrow> istore s i \<noteq> None"
| "publish_op_ok s (Iface_free k goodbye i) \<longleftrightarrow> istore s i \<noteq> None"
| "publish_op_ok s (Iface_timer i j) \<longleftrightarrow> (\<exists>y. istore s i = Some y \<and> rstore (iresponses y) j \<noteq> None)"
| "publish_op_ok s (Heard_response i r flush) \<longleftrightarrow> istore s i \<noteq> None \<and> rr_ok r"
| "publish_op_ok s (Heard_known_answer i r a) \<longleftrightarrow> istore s i \<noteq> None \<and> rr_ok r \<and> address_ok a"
| "publish_op_ok s (Heard_probe i r) \<longleftrightarrow> comparable r"
| "publish_op_ok s (Heard_conflict i r flush) \<longleftrightarrow> rr_ok r"
| "publish_op_ok s (Server_turns st) \<longleftrightarrow> True"

text \<open>A server that has just been made, without entries, groups and interfaces.\<close>

definition new_server :: "jitter_state \<Rightarrow> bool \<Rightarrow> bool \<Rightarrow> server" where
  "new_server js wide_area disabled =
     \<lparr>entries = [], estore = Map.empty, entries_by_key = avahi_hashmap_new, groups = [], gstore = Map.empty,
      interfaces = [], istore = Map.empty, srecords = avahi_record_list_new, need_entry_cleanup = False,
      need_group_cleanup = False, cleanup_time_event = None, sjitter = js, sstate = AVAHI_SERVER_INVALID,
      wide_area_servers = wide_area, disable_publishing = disabled, changes = []\<rparr>"

inductive publish_reachable :: "bool \<Rightarrow> server \<Rightarrow> bool" for sc where
  publish_new: "rand_ok (last_rand js) \<Longrightarrow> publish_reachable sc (new_server js w d)"
| publish_step: "publish_reachable sc s \<Longrightarrow> publish_op_ok s x \<Longrightarrow> normalized now \<Longrightarrow> rand_ok rnd \<Longrightarrow>
    publish_do sc now rnd x s = Ret s' \<Longrightarrow> publish_reachable sc s'"

section \<open>The invariant holds\<close>

lemma next_state_ok:
  assumes inv: "server_inv L sc s" and now: "normalized now" "rand_ok rnd" and a: "announcer_at s e i = Some a" "atime_event a \<noteq> None"
  shows "\<exists>s'. Announce.next_state sc now rnd e i s = Ret s' \<and> server_inv L sc s'"
proof -
  have zone: "zone_ok L sc {} s" using inv by (simp add: server_inv_def)
  obtain x where x: "estore s e = Some x" using announcer_at_entry [OF a(1)] by blast
  have ok: "announcer_ok (state_of_group s e) a" using zone_announcer [OF zone a(1)] by simp
  then have st: "astate a = AVAHI_PROBING \<and> n_iteration a \<le> 4 \<or> astate a = AVAHI_ANNOUNCING"
    using a(2) by (cases "astate a") (auto simp: announcer_ok_def delay_ok_def)
  show ?thesis
  proof (cases "astate a = AVAHI_ANNOUNCING")
    case True
    with next_state_announce [OF inv now a(1) _ x] show ?thesis by blast
  next
    case False
    with st have probing: "astate a = AVAHI_PROBING" "n_iteration a \<le> 4" by auto
    show ?thesis
    proof (cases "n_iteration a < 4")
      case True
      with next_state_probe [OF inv now a(1) probing(1) _ x] show ?thesis by blast
    next
      case False
      with probing have four: "n_iteration a = 4" by simp
      show ?thesis
      proof (cases "state_of_group s e = Some AVAHI_ENTRY_GROUP_REGISTERING")
        case True
        with x obtain g y where "egroup x = Some g" "gstore s g = Some y" "gstate y = AVAHI_ENTRY_GROUP_REGISTERING"
          by (auto simp: state_of_group_def split: option.splits)
        with next_state_probed_waits [OF inv now a(1) probing(1) four x] show ?thesis by blast
      next
        case False
        with next_state_probed_announces [OF inv now a(1) probing(1) four x] show ?thesis by blast
      qed
    qed
  qed
qed

text \<open>
  The groups in \<open>L\<close> are neither reset nor freed, and no record is heard that has the name, class and type of one of theirs.
\<close>

definition other_key :: "nat set \<Rightarrow> server \<Rightarrow> key \<Rightarrow> bool" where
  "other_key L s k \<longleftrightarrow> (\<forall>e x g. estore s e = Some x \<longrightarrow> egroup x = Some g \<longrightarrow> g \<in> L \<longrightarrow> key_abs (rkey (erecord x)) \<noteq> key_abs k)"

fun spares :: "nat set \<Rightarrow> server \<Rightarrow> publish_op \<Rightarrow> bool" where
  "spares L s (Group_reset g) \<longleftrightarrow> g \<notin> L"
| "spares L s (Group_free g) \<longleftrightarrow> g \<notin> L"
| "spares L s (Heard_probe i r) \<longleftrightarrow> other_key L s (rkey r)"
| "spares L s (Heard_conflict i r flush) \<longleftrightarrow> other_key L s (rkey r)"
| "spares L s _ \<longleftrightarrow> True"

lemma spares_empty [simp]: "spares {} s x"
  by (cases x) (simp_all add: other_key_def)

lemma other_key_none_in:
  assumes "server_inv L sc s" "key_ok k" "other_key L s k"
  shows "none_in L s (set (index_list sc (entries_by_key s) k))"
  using assms index_list_zone [of L sc "{}" s k] by (fastforce simp: none_in_def other_key_def server_inv_def)

lemma publish_do_ok:
  assumes inv: "server_inv L sc s" and now: "normalized now" "rand_ok rnd" and ok: "publish_op_ok s x" and spared: "spares L s x"
  shows "\<exists>s'. publish_do sc now rnd x s = Ret s' \<and> server_inv L sc s'"
proof (cases x)
  case (Group_new g)
  with ok group_new_ok [OF inv, of g] show ?thesis by simp
next
  case (Group_commit g)
  with ok commit_ok [OF inv now, of g] show ?thesis by fastforce
next
  case (Group_reset g)
  with ok spared reset_ok [OF inv now, of g] show ?thesis by fastforce
next
  case (Group_free g)
  with ok spared group_free_ok [OF inv now, of g] show ?thesis by fastforce
next
  case (Group_timer g)
  with ok register_timer_ok [OF inv now, of g] show ?thesis by fastforce
next
  case (Entry_add e g idx protocol flags r)
  then have "estore s e = None" "publishable r" "\<not> (AVAHI_PUBLISH_USE_MULTICAST \<in> flags \<and> AVAHI_PUBLISH_USE_WIDE_AREA \<in> flags)"
    "\<forall>h. g = Some h \<longrightarrow> (\<exists>y. gstore s h = Some y \<and> \<not> gdead y)" using ok by simp_all
  from server_add_ok [OF inv now this, of idx protocol] obtain s' res where
    "server_add_internal sc now rnd e s g idx protocol flags r = Ret (s', res)" "server_inv L sc s'" by blast
  with Entry_add show ?thesis by simp
next
  case (Announcer_timer e i)
  with ok next_state_ok [OF inv now, of e i] show ?thesis by auto
next
  case Clean_up
  with cleanup_ok [OF inv now] show ?thesis by auto
next
  case (Iface_new i idx protocol mtu)
  with ok interface_new_ok [OF inv, of i protocol idx mtu] show ?thesis by auto
next
  case (Iface_check complete relevant joined i)
  with ok check_relevant_ok [OF inv _ now, of i] show ?thesis by fastforce
next
  case (Iface_free k goodbye i)
  with ok interface_free_ok [OF inv _ now, of i] show ?thesis by fastforce
next
  case (Iface_timer i j)
  with ok response_elapsed_ok [OF inv _ now, of i] show ?thesis by auto
next
  case (Heard_response i r flush)
  with ok response_incoming_ok [OF inv _ now(1), of i] show ?thesis by auto
next
  case (Heard_known_answer i r a)
  with ok response_suppress_ok [OF inv _ now(1), of i] show ?thesis by auto
next
  case (Heard_probe i r)
  with ok spared incoming_probe_ok [OF inv now _ other_key_none_in [OF inv]] show ?thesis by (fastforce simp: comparable_def rr_ok_def)
next
  case (Heard_conflict i r flush)
  with ok spared handle_conflict_ok [OF inv now _ other_key_none_in [OF inv], of r i flush] show ?thesis by (fastforce simp: rr_ok_def)
next
  case (Server_turns st)
  have "server_inv L sc (s\<lparr>sstate := st\<rparr>)" by (rule server_inv_cong [OF inv]) simp_all
  with Server_turns show ?thesis by simp
qed

lemma new_server_inv: "rand_ok (last_rand js) \<Longrightarrow> server_inv {} sc (new_server js w d)"
  by (simp add: new_server_def server_inv_def zone_ok_def io_ok_def index_ready_def entries_ok_def zone_keys_def [abs_def]
    index_ok_new announcer_at_def list_ok_def record_list_ok_def avahi_record_list_new_def)

lemma publish_reachable_inv: "publish_reachable sc s \<Longrightarrow> server_inv {} sc s"
proof (induction rule: publish_reachable.induct)
  case (publish_new js w d)
  then show ?case by (rule new_server_inv)
next
  case (publish_step s x now rnd s')
  with publish_do_ok [OF publish_step.IH publish_step.hyps(3,4,2)] show ?case by simp
qed

section \<open>Later operations\<close>

text \<open>The states reached from a state by operations that spare the groups in \<open>L\<close>.\<close>

inductive publish_later :: "bool \<Rightarrow> nat set \<Rightarrow> server \<Rightarrow> server \<Rightarrow> bool" for sc L s where
  later_now: "publish_later sc L s s"
| later_step: "publish_later sc L s s' \<Longrightarrow> publish_op_ok s' x \<Longrightarrow> spares L s' x \<Longrightarrow> normalized now \<Longrightarrow> rand_ok rnd \<Longrightarrow>
    publish_do sc now rnd x s' = Ret s'' \<Longrightarrow> publish_later sc L s s''"

lemma later_inv:
  assumes "publish_later sc L s s'" "server_inv L sc s"
  shows "server_inv L sc s'"
  using assms
proof (induction rule: publish_later.induct)
  case (later_step s' x now rnd s'')
  with publish_do_ok [OF later_step.IH [OF later_step.prems] later_step.hyps(4,5,2,3)] show ?case by simp
qed

lemma later_reachable:
  assumes "publish_later sc L s s'" "publish_reachable sc s"
  shows "publish_reachable sc s'"
  using assms by (induction rule: publish_later.induct) (auto intro: publish_step)

text \<open>What the invariant says of a group in \<open>L\<close>.\<close>

lemma lost_group:
  assumes "server_inv L sc s" "g \<in> L"
  obtains y where "gstore s g = Some y" "gstate y = AVAHI_ENTRY_GROUP_REGISTERING" "\<not> gdead y" "0 < n_probing y"
proof -
  have zone: "zone_ok L sc {} s" using assms(1) by (simp add: server_inv_def)
  then have "g \<in> set (groups s)" using assms(2) by (auto simp: zone_ok_def)
  with zone_groups [OF zone, of g] obtain y where y: "gstore s g = Some y" by auto
  from zone_group [OF zone y] assms(2) y that show thesis by (auto simp: group_ok_def)
qed

text \<open>A group that counts more probing announcers than it has.\<close>

lemma server_inv_lost:
  assumes inv: "server_inv {} sc s" and y: "gstore s g = Some y" "gstate y = AVAHI_ENTRY_GROUP_REGISTERING" "\<not> gdead y"
    and less: "(\<Sum>e \<in> set (gentries y). probing_of s e) < n_probing y"
  shows "server_inv {g} sc s"
proof -
  have zone: "zone_ok {} sc {} s" using inv by (simp add: server_inv_def)
  have "group_ok {g} s h z" if z: "gstore s h = Some z" for h z
    using zone_group [OF zone z] y less z by (cases "h = g") (auto simp: group_ok_def)
  moreover have "{g} \<subseteq> set (groups s)" using zone_groups [OF zone, of g] y(1) by simp
  ultimately have "zone_ok {g} sc {} s" using zone unfolding zone_ok_def by blast
  with inv show ?thesis by (simp add: server_inv_def)
qed

lemma probing_of_card:
  assumes "server_inv L sc s"
  shows "finite {i. \<exists>a. announcer_at s e i = Some a \<and> astate a = AVAHI_PROBING}"
    and "probing_of s e = card {i. \<exists>a. announcer_at s e i = Some a \<and> astate a = AVAHI_PROBING}"
proof -
  let ?I = "{i. \<exists>a. announcer_at s e i = Some a \<and> astate a = AVAHI_PROBING}"
  have "finite ?I \<and> probing_of s e = card ?I"
  proof (cases "estore s e")
    case None
    then show ?thesis by (simp add: announcer_at_def probing_of_def)
  next
    case (Some x)
    let ?l = "map ainterface (filter (\<lambda>a. astate a = AVAHI_PROBING) (announcers x))"
    have d: "distinct (map ainterface (announcers x))"
      using assms zone_entry [of L sc "{}" s e x] Some by (simp add: server_inv_def entry_ok_def)
    have "i \<in> ?I \<longleftrightarrow> i \<in> set ?l" for i
    proof
      assume "i \<in> ?I"
      then obtain a where "get_announcer x i = Some a" "astate a = AVAHI_PROBING" using Some by (auto simp: announcer_at_def)
      with get_announcer_Some show "i \<in> set ?l" by fastforce
    next
      assume "i \<in> set ?l"
      then obtain a where "a \<in> set (announcers x)" "astate a = AVAHI_PROBING" "ainterface a = i" by auto
      with get_announcer_mem [OF d] Some show "i \<in> ?I" by (auto simp: announcer_at_def)
    qed
    then have "?I = set ?l" by blast
    moreover have "distinct ?l" using d by (rule distinct_map_filter)
    then have "card (set ?l) = probing_of s e" using Some by (simp only: distinct_card) (simp add: probing_of_def probing_in_def)
    ultimately show ?thesis by simp
  qed
  then show "finite ?I" "probing_of s e = card ?I" by simp_all
qed

text \<open>An interface that is left takes its announcers with it, but they are still counted.\<close>

lemma left_interface_lost:
  assumes inv: "server_inv {} sc s" and inv': "server_inv {} sc s'" and left: "left_interface i s s'" and same: "gstore s' = gstore s"
    and y: "gstore s g = Some y" "gstate y = AVAHI_ENTRY_GROUP_REGISTERING"
    and a: "e \<in> set (gentries y)" "announcer_at s e i = Some a" "astate a = AVAHI_PROBING"
  shows "server_inv {g} sc s'"
proof (rule server_inv_lost [OF inv' _ y(2)])
  let ?I = "\<lambda>s e. {i. \<exists>a. announcer_at s e i = Some a \<and> astate a = AVAHI_PROBING}"
  show "gstore s' g = Some y" using same y(1) by simp
  have zone: "zone_ok {} sc {} s" using inv by (simp add: server_inv_def)
  have g: "group_ok {} s g y" by (rule group_of [OF inv y(1)])
  with a(1) obtain x where x: "estore s e = Some x" "egroup x = Some g" using group_entry by blast
  from entry_of_announcer(1) [OF zone a(2) x(1)] g x show "\<not> gdead y" by (auto simp: group_ok_def)
  have sub: "?I s' e' \<subseteq> ?I s e' - {i}" for e'
  proof
    fix j assume j: "j \<in> ?I s' e'"
    then have "j \<noteq> i" using left by (auto simp: left_interface_def)
    with j left show "j \<in> ?I s e' - {i}" by (auto simp: left_interface_def)
  qed
  have le: "probing_of s' e' \<le> probing_of s e'" for e'
    unfolding probing_of_card(2) [OF inv] probing_of_card(2) [OF inv'] using sub [of e'] by (intro card_mono probing_of_card(1) [OF inv]) auto
  have "i \<in> ?I s e" "i \<notin> ?I s' e" using a(2,3) left by (auto simp: left_interface_def)
  then have "?I s' e \<subset> ?I s e" using sub [of e] by blast
  then have "probing_of s' e < probing_of s e"
    unfolding probing_of_card(2) [OF inv] probing_of_card(2) [OF inv'] by (rule psubset_card_mono [OF probing_of_card(1) [OF inv]])
  with le a(1) have "(\<Sum>e \<in> set (gentries y). probing_of s' e) < (\<Sum>e \<in> set (gentries y). probing_of s e)"
    by (intro sum_strict_mono_ex1) auto
  also have "\<dots> \<le> n_probing y" using g by (simp add: group_ok_def)
  finally show "(\<Sum>e \<in> set (gentries y). probing_of s' e) < n_probing y" .
qed

end
