(* ===== verification/Publish_Properties.thy ===== *)
theory Publish_Properties
  imports Publish_Reach
begin

text \<open>
  The published records: an example and what holds in every state that is reached.
\<close>

section \<open>An example\<close>

definition publish_next :: "timeval \<Rightarrow> publish_op \<Rightarrow> server \<Rightarrow> server" where
  "publish_next now x s = (case publish_do True now 0 x s of Ret s \<Rightarrow> s | Crash \<Rightarrow> s)"

lemma publish_next_reachable:
  assumes "publish_reachable True s" "publish_op_ok s x" "normalized now"
  shows "publish_reachable True (publish_next now x s)"
proof -
  have rnd: "rand_ok 0" by (simp add: rand_ok_def RAND_MAX_def)
  from publish_do_ok [OF publish_reachable_inv [OF assms(1)] assms(3) rnd assms(2) spares_empty] obtain s' where "publish_do True now 0 x s = Ret s'" by blast
  with publish_step [OF assms rnd] show ?thesis by (simp add: publish_next_def)
qed

definition example_do :: "publish_op \<Rightarrow> server \<Rightarrow> server" where
  "example_do = publish_next (example_time 100)"

lemma example_now: "normalized (example_time 100)" "rand_ok 0"
  by (rule example_postable)+

lemma example_do_reachable: "publish_reachable True s \<Longrightarrow> publish_op_ok s x \<Longrightarrow> publish_reachable True (example_do x s)"
  unfolding example_do_def by (rule publish_next_reachable) (use example_now in simp_all)

definition example_new_server :: server where
  "example_new_server = example_do (Server_turns AVAHI_SERVER_RUNNING) (new_server \<lparr>last_rand = 0, timestamp = 0\<rparr> False False)"

definition example_found_server :: server where
  "example_found_server = example_do (Iface_new 0 1 0 1500) example_new_server"

definition example_iface_server :: server where
  "example_iface_server = example_do (Iface_check True True True 0) example_found_server"

definition example_group_server :: server where
  "example_group_server = example_do (Group_new 0) example_iface_server"

definition example_entry_op :: "char list \<Rightarrow> publish_op" where
  "example_entry_op nm = Entry_add 0 (Some 0) (- 1) (- 1) {AVAHI_PUBLISH_UNIQUE} (example_record nm 120)"

definition example_added_server :: server where
  "example_added_server = example_do (example_entry_op ''a.local'') example_group_server"

definition example_commited_server :: server where
  "example_commited_server = example_do (Group_commit 0) example_added_server"

lemma example_publishable: "publishable (example_record ''a.local'' 120)"
  unfolding publishable_def using example_postable(1) by simp code_simp

lemma example_publish_ok:
  "publish_op_ok example_new_server (Iface_new 0 1 0 1500)" "publish_op_ok example_found_server (Iface_check True True True 0)"
  "publish_op_ok example_iface_server (Group_new 0)" "publish_op_ok example_group_server (example_entry_op ''a.local'')"
  "publish_op_ok example_added_server (Group_commit 0)"
proof -
  have "istore example_new_server 0 = None" "AVAHI_PROTO_VALID 0" "gstore example_iface_server 0 = None" "estore example_group_server 0 = None"
    by code_simp+
  moreover have "map_option announcing (istore example_found_server 0) = Some False"
    "map_option gdead (gstore example_group_server 0) = Some False" "map_option gdead (gstore example_added_server 0) = Some False" by code_simp+
  ultimately show "publish_op_ok example_new_server (Iface_new 0 1 0 1500)" "publish_op_ok example_found_server (Iface_check True True True 0)"
    "publish_op_ok example_iface_server (Group_new 0)" "publish_op_ok example_group_server (example_entry_op ''a.local'')"
    "publish_op_ok example_added_server (Group_commit 0)"
    using example_publishable by (auto simp: example_entry_op_def)
qed

lemma example_publish_reachable:
  "publish_reachable True example_new_server" "publish_reachable True example_found_server" "publish_reachable True example_iface_server"
  "publish_reachable True example_group_server" "publish_reachable True example_added_server" "publish_reachable True example_commited_server"
proof -
  have "publish_reachable True (new_server \<lparr>last_rand = 0, timestamp = 0\<rparr> False False)"
    by (rule publish_new) (simp add: rand_ok_def RAND_MAX_def)
  then show new: "publish_reachable True example_new_server" unfolding example_new_server_def by (rule example_do_reachable) simp
  note step = example_do_reachable [OF _ example_publish_ok(1)] example_do_reachable [OF _ example_publish_ok(2)]
    example_do_reachable [OF _ example_publish_ok(3)] example_do_reachable [OF _ example_publish_ok(4)] example_do_reachable [OF _ example_publish_ok(5)]
  from step(1) [OF new] show found: "publish_reachable True example_found_server" by (simp add: example_found_server_def)
  from step(2) [OF found] show iface: "publish_reachable True example_iface_server" by (simp add: example_iface_server_def)
  from step(3) [OF iface] show grp: "publish_reachable True example_group_server" by (simp add: example_group_server_def)
  from step(4) [OF grp] show added: "publish_reachable True example_added_server" by (simp add: example_added_server_def)
  from step(5) [OF added] show "publish_reachable True example_commited_server" by (simp add: example_commited_server_def)
qed

section \<open>All states\<close>

lemma announcers_at:
  assumes "server_inv {} sc s" "estore s e = Some x" "a \<in> set (announcers x)"
  shows "announcer_at s e (ainterface a) = Some a"
proof -
  have "distinct (map ainterface (announcers x))" using assms zone_entry by (fastforce simp: server_inv_def entry_ok_def)
  with assms(3) have "find (\<lambda>b. ainterface b = ainterface a) (announcers x) = Some a"
    by (induction "announcers x" rule: rev_induct) (auto simp: find_Some_iff in_set_conv_nth distinct_conv_nth)
  with assms(2) show ?thesis by (simp add: announcer_at_def get_announcer_def)
qed

lemma announcer_state_ok:
  assumes "server_inv {} sc s" "announcer_at s e i = Some a"
  shows "istore s i \<noteq> None" "(atime_event a = None) = (astate a = AVAHI_WAITING \<or> astate a = AVAHI_ESTABLISHED)"
    "state_of_group s e \<in> {None, Some AVAHI_ENTRY_GROUP_REGISTERING, Some AVAHI_ENTRY_GROUP_ESTABLISHED}"
    "astate a = AVAHI_WAITING \<Longrightarrow> state_of_group s e = Some AVAHI_ENTRY_GROUP_REGISTERING"
proof -
  have zone: "zone_ok {} sc {} s" using assms(1) by (simp add: server_inv_def)
  from zone_announcer [OF zone assms(2)] have ok: "announcer_ok (state_of_group s e) a" "istore s i \<noteq> None" by auto
  then show "istore s i \<noteq> None" "(atime_event a = None) = (astate a = AVAHI_WAITING \<or> astate a = AVAHI_ESTABLISHED)"
    by (simp_all add: announcer_ok_def)
  from ok have allows: "group_allows (state_of_group s e) (astate a)" by (simp add: announcer_ok_def)
  then show "state_of_group s e \<in> {None, Some AVAHI_ENTRY_GROUP_REGISTERING, Some AVAHI_ENTRY_GROUP_ESTABLISHED}"
    by (auto simp: group_allows_def split: option.splits entry_group_state.splits)
  assume "astate a = AVAHI_WAITING"
  with allows show "state_of_group s e = Some AVAHI_ENTRY_GROUP_REGISTERING"
    by (auto simp: group_allows_def split: option.splits entry_group_state.splits)
qed

text \<open>
  Property C1. Whatever clients do with groups and entries, whichever timers run off, interfaces come
  and go and packets are heard, in whatever order, no operation crashes. In every state an entry has one
  announcer at most on an interface, and none when it is dead; an announcer is on an interface that is there, it has
  a time event exactly when it probes or announces, and the group of its entry is being registered or is
  established, the former when it waits. A group lists exactly its entries, and
  counts at least as many probing announcers as it has.
\<close>

theorem server_publish_invariant:
  assumes "publish_reachable sc s" "publish_op_ok s x" "normalized now" "rand_ok rnd"
  shows "(\<exists>s'. publish_do sc now rnd x s = Ret s' \<and> publish_reachable sc s') \<and>
    (\<forall>e x. estore s e = Some x \<longrightarrow> distinct (map ainterface (announcers x)) \<and> (edead x \<longrightarrow> announcers x = []) \<and>
       (\<forall>a \<in> set (announcers x). istore s (ainterface a) \<noteq> None \<and>
          (atime_event a \<noteq> None \<longleftrightarrow> astate a = AVAHI_PROBING \<or> astate a = AVAHI_ANNOUNCING) \<and>
          (\<forall>g. egroup x = Some g \<longrightarrow> (\<exists>y. gstore s g = Some y \<and>
             (gstate y = AVAHI_ENTRY_GROUP_REGISTERING \<or> gstate y = AVAHI_ENTRY_GROUP_ESTABLISHED \<and> astate a \<noteq> AVAHI_WAITING))))) \<and>
    (\<forall>g y. gstore s g = Some y \<longrightarrow>
       (\<forall>e. e \<in> set (gentries y) \<longleftrightarrow> (\<exists>x. estore s e = Some x \<and> egroup x = Some g)) \<and>
       (\<Sum>e \<in> set (gentries y). probing_of s e) \<le> n_probing y)"
proof -
  have inv: "server_inv {} sc s" using assms(1) by (rule publish_reachable_inv)
  from publish_do_ok [OF inv assms(3,4,2) spares_empty] publish_step [OF assms] have "\<exists>s'. publish_do sc now rnd x s = Ret s' \<and> publish_reachable sc s'" by blast
  moreover have "distinct (map ainterface (announcers x)) \<and> (edead x \<longrightarrow> announcers x = [])" if "estore s e = Some x" for e x
    using zone_entry [of "{}" sc "{}" s e x] that inv by (simp add: server_inv_def entry_ok_def)
  moreover have "istore s (ainterface a) \<noteq> None \<and> (atime_event a \<noteq> None \<longleftrightarrow> astate a = AVAHI_PROBING \<or> astate a = AVAHI_ANNOUNCING) \<and>
      (\<forall>g. egroup x = Some g \<longrightarrow> (\<exists>y. gstore s g = Some y \<and>
         (gstate y = AVAHI_ENTRY_GROUP_REGISTERING \<or> gstate y = AVAHI_ENTRY_GROUP_ESTABLISHED \<and> astate a \<noteq> AVAHI_WAITING)))"
    if x: "estore s e = Some x" and a: "a \<in> set (announcers x)" for e x a
  proof (intro conjI allI impI)
    note st = announcer_state_ok [OF inv announcers_at [OF inv x a]]
    show "istore s (ainterface a) \<noteq> None" by (rule st(1))
    show "atime_event a \<noteq> None \<longleftrightarrow> astate a = AVAHI_PROBING \<or> astate a = AVAHI_ANNOUNCING" using st(2) by (cases "astate a") simp_all
    fix g assume g: "egroup x = Some g"
    with zone_entry [of "{}" sc "{}" s e x] x inv obtain y where y: "gstore s g = Some y" by (auto simp: server_inv_def entry_ok_def)
    with x g have sg: "state_of_group s e = Some (gstate y)" by (simp add: state_of_group_def)
    show "\<exists>y. gstore s g = Some y \<and>
        (gstate y = AVAHI_ENTRY_GROUP_REGISTERING \<or> gstate y = AVAHI_ENTRY_GROUP_ESTABLISHED \<and> astate a \<noteq> AVAHI_WAITING)"
      using y st(3,4) unfolding sg by auto
  qed
  moreover have "(\<forall>e. e \<in> set (gentries y) \<longleftrightarrow> (\<exists>x. estore s e = Some x \<and> egroup x = Some g)) \<and> (\<Sum>e \<in> set (gentries y). probing_of s e) \<le> n_probing y"
    if "gstore s g = Some y" for g y using group_of [OF inv that] by (simp add: group_ok_def)
  ultimately show ?thesis by blast
qed

lemma server_publish_invariant_witness:
  "\<exists>s'. publish_do True (example_time 100) 0 (Group_commit 0) example_added_server = Ret s' \<and> publish_reachable True s'"
  using server_publish_invariant [OF example_publish_reachable(5) example_publish_ok(5) example_now] by blast

end
