(* ===== verification/Announcer_Properties.thy ===== *)
theory Announcer_Properties
  imports Publish_Properties
begin

text \<open>
  How an announcer probes and announces when its timer runs off each time it is due, and how the
  last one that probes establishes its group.
\<close>

section \<open>The timer of an announcer\<close>

text \<open>The timer of the announcer runs off \<open>n\<close> times, each time when it is due.\<close>

fun announcer_run :: "bool \<Rightarrow> int \<Rightarrow> nat \<Rightarrow> nat \<Rightarrow> nat \<Rightarrow> server \<Rightarrow> server res" where
  "announcer_run sc rnd e i 0 s = Ret s"
| "announcer_run sc rnd e i (Suc n) s =
     (case announcer_at s e i of
        None \<Rightarrow> Ret s
      | Some a \<Rightarrow>
          (case atime_event a of
             None \<Rightarrow> Ret s
           | Some tv \<Rightarrow> res_bind (Announce.next_state sc tv rnd e i s) (announcer_run sc rnd e i n)))"

lemma timer_normalized:
  assumes "server_inv {} sc s" "announcer_at s e i = Some a" "atime_event a = Some tv"
  shows "normalized tv"
proof -
  have "zone_ok {} sc {} s" using assms(1) by (simp add: server_inv_def)
  from zone_announcer [OF this assms(2)] assms(3) show ?thesis by (simp add: announcer_ok_def)
qed

lemma timer_reachable:
  assumes "publish_reachable sc s" "rand_ok rnd" "announcer_at s e i = Some a" "atime_event a = Some tv" "Announce.next_state sc tv rnd e i s = Ret s'"
  shows "publish_reachable sc s'"
proof (rule publish_step [OF assms(1) _ timer_normalized [OF publish_reachable_inv [OF assms(1)] assms(3,4)] assms(2)])
  show "publish_op_ok s (Announcer_timer e i)" using assms(3,4) by simp
  show "publish_do sc tv rnd (Announcer_timer e i) s = Ret s'" using assms(5) by simp
qed

lemma probe_run:
  assumes "publish_reachable sc s" "rand_ok rnd" "announcer_at s e i = Some a" "astate a = AVAHI_PROBING" "n_iteration a + n \<le> 4"
    "atime_event a = Some tv" "estore s e = Some x" "erecord x = r" "istore s i = Some y" "announcing y"
  shows "\<exists>s' tv'. announcer_run sc rnd e i n s = Ret s' \<and> publish_reachable sc s' \<and>
    istore s' i = Some (y\<lparr>iprobes := iprobes y @ replicate n r\<rparr>) \<and>
    announcer_at s' e i = Some (a\<lparr>atime_event := Some tv', n_iteration := n_iteration a + n\<rparr>) \<and>
    usec_of tv' = usec_of tv + 250000 * int n \<and> (\<exists>x'. estore s' e = Some x' \<and> erecord x' = r \<and> egroup x' = egroup x) \<and> gstore s' = gstore s"
  using assms
proof (induction n arbitrary: s a tv x y)
  case 0
  have "a\<lparr>atime_event := Some tv\<rparr> = a" using 0(6) by (cases a) simp
  with 0 show ?case by (intro exI [of _ s] exI [of _ tv]) simp
next
  case (Suc n)
  note inv = publish_reachable_inv [OF Suc.prems(1)]
  note norm = timer_normalized [OF inv Suc.prems(3,6)]
  have "n_iteration a < 4" using Suc.prems(5) by simp
  from next_state_probe [OF inv norm Suc.prems(2,3,4) this Suc.prems(7)] obtain s1 where
    s1: "Announce.next_state sc tv rnd e i s = Ret s1" "server_inv {} sc s1" "same_entries tv s s1" "gstore s1 = gstore s"
      "istore s1 i = Some (y\<lparr>iprobes := iprobes y @ [r]\<rparr>)"
      "announcer_at s1 e i = Some (a\<lparr>atime_event := Some (elapse_after tv AVAHI_PROBE_INTERVAL_MSEC), n_iteration := n_iteration a + 1\<rparr>)"
    using Suc.prems(8-10) by auto
  from same_entry [OF s1(3) Suc.prems(7)] obtain x1 where x1: "estore s1 e = Some x1" "erecord x1 = r" "egroup x1 = egroup x"
    using Suc.prems(8) by metis
  have "usec_of (elapse_after tv AVAHI_PROBE_INTERVAL_MSEC) = usec_of tv + 250000"
    by (simp add: elapse_after_usec AVAHI_PROBE_INTERVAL_MSEC_def)
  with Suc.IH [OF timer_reachable [OF Suc.prems(1-3,6) s1(1)] Suc.prems(2) s1(6) _ _ _ x1(1,2) s1(5)] Suc.prems s1(1,4) x1(3)
  show ?case by (auto simp: algebra_simps)
qed

section \<open>Probes and announcements\<close>

text \<open>
  The announcer of an entry with record \<open>r\<close> on an interface that announces. Between two runs of its timer anything may
  happen that leaves it, its record, the state of its group and the interface alone.
\<close>

definition on_air :: "nat \<Rightarrow> nat \<Rightarrow> rr \<Rightarrow> announcer \<Rightarrow> server \<Rightarrow> bool" where
  "on_air e i r a s \<longleftrightarrow> announcer_at s e i = Some a \<and> (\<exists>x. estore s e = Some x \<and> erecord x = r) \<and>
     (\<exists>y. istore s i = Some y \<and> announcing y)"

definition undisturbed :: "bool \<Rightarrow> nat \<Rightarrow> nat \<Rightarrow> server \<Rightarrow> server \<Rightarrow> bool" where
  "undisturbed sc e i s s' \<longleftrightarrow> publish_reachable sc s' \<and> announcer_at s' e i = announcer_at s e i \<and>
     map_option erecord (estore s' e) = map_option erecord (estore s e) \<and> state_of_group s' e = state_of_group s e \<and>
     map_option announcing (istore s' i) = map_option announcing (istore s i)"

lemma undisturbed_on_air:
  assumes "undisturbed sc e i s s'" "on_air e i r a s"
  shows "publish_reachable sc s'" "on_air e i r a s'" "state_of_group s' e = state_of_group s e"
proof -
  show "publish_reachable sc s'" "state_of_group s' e = state_of_group s e" using assms(1) by (simp_all add: undisturbed_def)
  from assms(2) obtain x y where "announcer_at s e i = Some a" "estore s e = Some x" "erecord x = r" "istore s i = Some y" "announcing y"
    by (auto simp: on_air_def)
  with assms(1) show "on_air e i r a s'" by (auto simp: undisturbed_def on_air_def)
qed

lemma same_on_air:
  assumes "same_entries now s s'" "on_air e i r b s" "announcer_at s' e i = Some a"
  shows "on_air e i r a s'"
proof -
  from assms(2) obtain x y where x: "estore s e = Some x" "erecord x = r" and y: "istore s i = Some y" "announcing y" by (auto simp: on_air_def)
  from same_entry [OF assms(1) x(1)] x(2) obtain x' where "estore s' e = Some x'" "erecord x' = r" by metis
  moreover have "istore s' i \<noteq> None" using same_istore [OF assms(1), of i] y(1) by simp
  then obtain y' where y': "istore s' i = Some y'" by blast
  from same_iface [OF assms(1) y'] y have "announcing y'" by auto
  ultimately show ?thesis using assms(3) y' by (auto simp: on_air_def)
qed

text \<open>
  The timer runs off at time \<open>t\<close>, when a probe with the record is sent or the record is handed to the scheduler of responses, as the
  first of the steps says, then after a time between the two of the step for the next step, and so on. In the end \<open>Q\<close> holds.
\<close>

fun keeps_schedule :: "bool \<Rightarrow> nat \<Rightarrow> nat \<Rightarrow> rr \<Rightarrow> (announcer_state \<times> int \<times> int) list \<Rightarrow> (timeval \<Rightarrow> server \<Rightarrow> bool) \<Rightarrow> timeval \<Rightarrow> server \<Rightarrow> bool" where
  "keeps_schedule sc e i r [] Q t s \<longleftrightarrow> Q t s"
| "keeps_schedule sc e i r ((st, lo, hi) # steps) Q t s \<longleftrightarrow>
     (\<exists>a y. announcer_at s e i = Some a \<and> atime_event a = Some t \<and> istore s i = Some y \<and>
        (\<forall>rnd. rand_ok rnd \<longrightarrow>
           (\<exists>s1 y1. Announce.next_state sc t rnd e i s = Ret s1 \<and> publish_reachable sc s1 \<and> istore s1 i = Some y1 \<and>
              (if st = AVAHI_PROBING then iprobes y1 = iprobes y @ [r] else covered t (iresponses y1) r) \<and>
              (\<forall>s2. undisturbed sc e i s1 s2 \<longrightarrow>
                 (\<exists>t2. usec_of t + lo \<le> usec_of t2 \<and> usec_of t2 \<le> usec_of t + hi \<and> keeps_schedule sc e i r steps Q t2 s2)))))"

fun announcements :: "nat \<Rightarrow> nat \<Rightarrow> (announcer_state \<times> int \<times> int) list" where
  "announcements d 0 = [(AVAHI_ANNOUNCING, 0, 0)]"
| "announcements d (Suc n) = (AVAHI_ANNOUNCING, 1000000 * int d, 1000000 * int d + 250000) # announcements (2 * d) n"

definition established_on :: "nat \<Rightarrow> nat \<Rightarrow> timeval \<Rightarrow> server \<Rightarrow> bool" where
  "established_on e i t s \<longleftrightarrow> (\<exists>a. announcer_at s e i = Some a \<and> astate a = AVAHI_ESTABLISHED \<and> atime_event a = None)"

text \<open>One step, in any state.\<close>

lemma covered_on_air: "on_air e i r a s \<Longrightarrow> all_covered t s i rs \<Longrightarrow> r \<in> rs \<Longrightarrow> \<exists>y. istore s i = Some y \<and> covered t (iresponses y) r"
  by (auto simp: on_air_def all_covered_def)

lemma announce_step:
  assumes s: "publish_reachable sc s" "on_air e i r a s" and rnd: "rand_ok rnd" and a: "astate a = AVAHI_ANNOUNCING" "atime_event a = Some t"
  shows "\<exists>s1 a1 y1. Announce.next_state sc t rnd e i s = Ret s1 \<and> publish_reachable sc s1 \<and> on_air e i r a1 s1 \<and> announced t a a1 \<and>
    istore s1 i = Some y1 \<and> covered t (iresponses y1) r"
proof -
  note inv = publish_reachable_inv [OF s(1)]
  from s(2) obtain x where at: "announcer_at s e i = Some a" and x: "estore s e = Some x" "erecord x = r" by (auto simp: on_air_def)
  from next_state_announce [OF inv timer_normalized [OF inv at a(2)] rnd at a(1) x(1)] obtain s1 a1 where
    s1: "Announce.next_state sc t rnd e i s = Ret s1" "same_entries t s s1" "announced t a a1" "announcer_at s1 e i = Some a1"
      "all_covered t s1 i (announced_records s i x)" by (metis (full_types))
  have "r \<in> announced_records s i x" using announces_own [of "{}" sc "{}" s e i a x] inv at a(1) x by (simp add: server_inv_def)
  with same_on_air [OF s1(2) s(2) s1(4)] covered_on_air s1(5) timer_reachable [OF s(1) rnd at a(2) s1(1)] s1(1,3) show ?thesis by blast
qed

lemma probed_step:
  assumes s: "publish_reachable sc s" "on_air e i r a s" and rnd: "rand_ok rnd" and a: "astate a = AVAHI_PROBING" "n_iteration a = 4" "atime_event a = Some t"
    and g: "state_of_group s e \<noteq> Some AVAHI_ENTRY_GROUP_REGISTERING"
  shows "\<exists>s1 a1 y1. Announce.next_state sc t rnd e i s = Ret s1 \<and> publish_reachable sc s1 \<and> on_air e i r a1 s1 \<and>
    announced t (a\<lparr>n_iteration := 1\<rparr>) a1 \<and> istore s1 i = Some y1 \<and> covered t (iresponses y1) r"
proof -
  note inv = publish_reachable_inv [OF s(1)]
  from s(2) obtain x where at: "announcer_at s e i = Some a" and x: "estore s e = Some x" "erecord x = r" by (auto simp: on_air_def)
  from next_state_probed_announces [OF inv timer_normalized [OF inv at a(3)] rnd at a(1,2) x(1) g] obtain s1 a1 where
    s1: "Announce.next_state sc t rnd e i s = Ret s1" "same_entries t s s1" "announced t (a\<lparr>n_iteration := 1\<rparr>) a1" "announcer_at s1 e i = Some a1"
      "all_covered t s1 i (insert (erecord x) (announced_records s i x))" by (metis (full_types))
  with same_on_air [OF s1(2) s(2) s1(4)] covered_on_air [of e i r a1 s1] x(2) timer_reachable [OF s(1) rnd at a(3) s1(1)] show ?thesis by blast
qed

lemma probe_step:
  assumes s: "publish_reachable sc s" "on_air e i r a s" and rnd: "rand_ok rnd" and a: "astate a = AVAHI_PROBING" "n_iteration a < 4" "atime_event a = Some t"
    and y: "istore s i = Some y"
  shows "\<exists>s1. Announce.next_state sc t rnd e i s = Ret s1 \<and> publish_reachable sc s1 \<and>
    on_air e i r (a\<lparr>atime_event := Some (elapse_after t AVAHI_PROBE_INTERVAL_MSEC), n_iteration := n_iteration a + 1\<rparr>) s1 \<and>
    istore s1 i = Some (y\<lparr>iprobes := iprobes y @ [r]\<rparr>) \<and> state_of_group s1 e = state_of_group s e"
proof -
  note inv = publish_reachable_inv [OF s(1)]
  from s(2) y obtain x where at: "announcer_at s e i = Some a" and x: "estore s e = Some x" "erecord x = r" and ann: "announcing y"
    by (auto simp: on_air_def)
  from next_state_probe [OF inv timer_normalized [OF inv at a(3)] rnd at a(1,2) x(1)] obtain s1 where
    s1: "Announce.next_state sc t rnd e i s = Ret s1" "same_entries t s s1" "gstore s1 = gstore s" "changes s1 = changes s"
      "istore s1 i = Some (y\<lparr>iprobes := iprobes y @ [r]\<rparr>)"
      "announcer_at s1 e i = Some (a\<lparr>atime_event := Some (elapse_after t AVAHI_PROBE_INTERVAL_MSEC), n_iteration := n_iteration a + 1\<rparr>)"
    using y x(2) ann by auto
  have "state_of_group s1 e = state_of_group s e" by (rule same_state_of_group [OF s1(2) same_groups_store [OF s1(3,4)]])
  with same_on_air [OF s1(2) s(2) s1(6)] timer_reachable [OF s(1) rnd at a(3) s1(1)] s1(1,5) show ?thesis by blast
qed

lemma keeps_announcing:
  assumes "publish_reachable sc s" "on_air e i r a s" "astate a = AVAHI_ANNOUNCING" "n_iteration a + n = 3" "atime_event a = Some t"
  shows "keeps_schedule sc e i r (announcements (sec_delay a) n) (established_on e i) t s"
  using assms
proof (induction n arbitrary: s a t)
  case 0
  from 0(2) obtain y where y: "announcer_at s e i = Some a" "istore s i = Some y" by (auto simp: on_air_def)
  have "\<exists>s1 y1. Announce.next_state sc t rnd e i s = Ret s1 \<and> publish_reachable sc s1 \<and> istore s1 i = Some y1 \<and> covered t (iresponses y1) r \<and>
      (\<forall>s2. undisturbed sc e i s1 s2 \<longrightarrow> (\<exists>t2. usec_of t \<le> usec_of t2 \<and> usec_of t2 \<le> usec_of t \<and> established_on e i t2 s2))" if rnd: "rand_ok rnd" for rnd
  proof -
    from announce_step [OF 0(1,2) rnd 0(3,5)] obtain s1 a1 y1 where s1: "Announce.next_state sc t rnd e i s = Ret s1" "publish_reachable sc s1"
      "on_air e i r a1 s1" "announced t a a1" "istore s1 i = Some y1" "covered t (iresponses y1) r" by blast
    have "astate a1 = AVAHI_ESTABLISHED" "atime_event a1 = None" using s1(4) 0(4) by (simp_all add: announced_def)
    with undisturbed_on_air(2) [OF _ s1(3)] have "established_on e i t s2" if "undisturbed sc e i s1 s2" for s2
      using that by (auto simp: established_on_def on_air_def)
    with s1(1,2,5,6) show ?thesis by blast
  qed
  with y 0(5) show ?case by simp
next
  case (Suc n)
  from Suc.prems(2) obtain y where y: "announcer_at s e i = Some a" "istore s i = Some y" by (auto simp: on_air_def)
  have "\<exists>s1 y1. Announce.next_state sc t rnd e i s = Ret s1 \<and> publish_reachable sc s1 \<and> istore s1 i = Some y1 \<and> covered t (iresponses y1) r \<and>
      (\<forall>s2. undisturbed sc e i s1 s2 \<longrightarrow> (\<exists>t2. usec_of t + 1000000 * int (sec_delay a) \<le> usec_of t2 \<and>
         usec_of t2 \<le> usec_of t + (1000000 * int (sec_delay a) + 250000) \<and>
         keeps_schedule sc e i r (announcements (2 * sec_delay a) n) (established_on e i) t2 s2))" if rnd: "rand_ok rnd" for rnd
  proof -
    from announce_step [OF Suc.prems(1,2) rnd Suc.prems(3,5)] obtain s1 a1 y1 where s1: "Announce.next_state sc t rnd e i s = Ret s1" "publish_reachable sc s1"
      "on_air e i r a1 s1" "announced t a a1" "istore s1 i = Some y1" "covered t (iresponses y1) r" by blast
    from s1(4) Suc.prems(4) obtain t2 where a1: "astate a1 = AVAHI_ANNOUNCING" "n_iteration a1 + n = 3" "atime_event a1 = Some t2"
      "sec_delay a1 = 2 * sec_delay a" "usec_of t + int (sec_delay a) * 1000000 \<le> usec_of t2"
      "usec_of t2 \<le> usec_of t + int (sec_delay a) * 1000000 + 250000" by (auto simp: announced_def)
    have "keeps_schedule sc e i r (announcements (2 * sec_delay a) n) (established_on e i) t2 s2" if "undisturbed sc e i s1 s2" for s2
      using Suc.IH [OF undisturbed_on_air(1,2) [OF that s1(3)] a1(1-3)] a1(4) by simp
    with s1(1,2,5,6) a1(5,6) show ?thesis by (intro exI [of _ s1] exI [of _ y1]) (auto intro!: exI [of _ t2] simp: algebra_simps)
  qed
  with y Suc.prems(5) show ?case by simp
qed

text \<open>The rest of the probes, and what comes after them.\<close>

lemma keeps_probing:
  assumes "publish_reachable sc s" "on_air e i r a s" "astate a = AVAHI_PROBING" "n_iteration a + n = 4" "atime_event a = Some t"
    and "\<And>s' t'. publish_reachable sc s' \<Longrightarrow> on_air e i r (a\<lparr>atime_event := Some t', n_iteration := 4\<rparr>) s' \<Longrightarrow>
      state_of_group s' e = state_of_group s e \<Longrightarrow> keeps_schedule sc e i r rest Q t' s'"
  shows "keeps_schedule sc e i r (replicate n (AVAHI_PROBING, 250000, 250000) @ rest) Q t s"
  using assms
proof (induction n arbitrary: s a t)
  case 0
  have "a\<lparr>atime_event := Some t, n_iteration := 4\<rparr> = a" using 0(4,5) by (cases a) simp
  with 0(2) have "on_air e i r (a\<lparr>atime_event := Some t, n_iteration := 4\<rparr>) s" by simp
  from 0(6) [OF 0(1) this refl] show ?case by simp
next
  case (Suc n)
  from Suc.prems(2) obtain y where y: "announcer_at s e i = Some a" "istore s i = Some y" by (auto simp: on_air_def)
  let ?t2 = "elapse_after t AVAHI_PROBE_INTERVAL_MSEC"
  let ?a = "a\<lparr>atime_event := Some ?t2, n_iteration := n_iteration a + 1\<rparr>"
  have t2: "usec_of ?t2 = usec_of t + 250000" by (simp add: elapse_after_usec AVAHI_PROBE_INTERVAL_MSEC_def)
  have "\<exists>s1 y1. Announce.next_state sc t rnd e i s = Ret s1 \<and> publish_reachable sc s1 \<and> istore s1 i = Some y1 \<and> iprobes y1 = iprobes y @ [r] \<and>
      (\<forall>s2. undisturbed sc e i s1 s2 \<longrightarrow> (\<exists>t2. usec_of t + 250000 \<le> usec_of t2 \<and> usec_of t2 \<le> usec_of t + 250000 \<and>
         keeps_schedule sc e i r (replicate n (AVAHI_PROBING, 250000, 250000) @ rest) Q t2 s2))" if rnd: "rand_ok rnd" for rnd
  proof -
    from probe_step [OF Suc.prems(1,2) rnd Suc.prems(3) _ Suc.prems(5) y(2)] Suc.prems(4) obtain s1 where
      s1: "Announce.next_state sc t rnd e i s = Ret s1" "publish_reachable sc s1" "on_air e i r ?a s1"
        "istore s1 i = Some (y\<lparr>iprobes := iprobes y @ [r]\<rparr>)" "state_of_group s1 e = state_of_group s e" by auto
    have "keeps_schedule sc e i r (replicate n (AVAHI_PROBING, 250000, 250000) @ rest) Q ?t2 s2" if "undisturbed sc e i s1 s2" for s2
      using Suc.prems(3,4,6) s1(5) undisturbed_on_air(3) [OF that s1(3)]
      by (intro Suc.IH [OF undisturbed_on_air(1,2) [OF that s1(3)]]) simp_all
    moreover have "usec_of t + 250000 \<le> usec_of ?t2" "usec_of ?t2 \<le> usec_of t + 250000" using t2 by simp_all
    moreover have "iprobes (y\<lparr>iprobes := iprobes y @ [r]\<rparr>) = iprobes y @ [r]" by simp
    ultimately show ?thesis using s1(1,2,4) by blast
  qed
  with y Suc.prems(5) show ?case by simp
qed

text \<open>The first announcement follows the last probe when the group does not have to be waited for.\<close>

lemma keeps_probed:
  assumes s: "publish_reachable sc s" "on_air e i r a s" and a: "astate a = AVAHI_PROBING" "n_iteration a = 4" "atime_event a = Some t" "sec_delay a = 1"
    and g: "state_of_group s e \<noteq> Some AVAHI_ENTRY_GROUP_REGISTERING"
  shows "keeps_schedule sc e i r [(AVAHI_ANNOUNCING, 1000000, 1250000), (AVAHI_ANNOUNCING, 2000000, 2250000), (AVAHI_ANNOUNCING, 0, 0)]
    (established_on e i) t s"
proof -
  from s(2) obtain y where y: "announcer_at s e i = Some a" "istore s i = Some y" by (auto simp: on_air_def)
  let ?rest = "[(AVAHI_ANNOUNCING, 2000000, 2250000), (AVAHI_ANNOUNCING, 0, 0)]"
  have rest: "announcements 2 (Suc 0) = ?rest" by simp
  have "\<exists>s1 y1. Announce.next_state sc t rnd e i s = Ret s1 \<and> publish_reachable sc s1 \<and> istore s1 i = Some y1 \<and> covered t (iresponses y1) r \<and>
      (\<forall>s2. undisturbed sc e i s1 s2 \<longrightarrow> (\<exists>t2. usec_of t + 1000000 \<le> usec_of t2 \<and> usec_of t2 \<le> usec_of t + 1250000 \<and>
         keeps_schedule sc e i r ?rest (established_on e i) t2 s2))" if rnd: "rand_ok rnd" for rnd
  proof -
    from probed_step [OF s rnd a(1-3) g] obtain s1 a1 y1 where s1: "Announce.next_state sc t rnd e i s = Ret s1" "publish_reachable sc s1"
      "on_air e i r a1 s1" "announced t (a\<lparr>n_iteration := 1\<rparr>) a1" "istore s1 i = Some y1" "covered t (iresponses y1) r" by blast
    from s1(4) a(4) obtain t2 where a1: "astate a1 = AVAHI_ANNOUNCING" "n_iteration a1 + Suc 0 = 3" "atime_event a1 = Some t2"
      "sec_delay a1 = 2" "usec_of t + 1000000 \<le> usec_of t2" "usec_of t2 \<le> usec_of t + 1250000" by (auto simp: announced_def)
    have "keeps_schedule sc e i r ?rest (established_on e i) t2 s2" if "undisturbed sc e i s1 s2" for s2
      using keeps_announcing [OF undisturbed_on_air(1,2) [OF that s1(3)] a1(1-3)] unfolding a1(4) rest .
    with s1(1,2,5,6) a1(5,6) show ?thesis by blast
  qed
  with y a(3) show ?thesis unfolding keeps_schedule.simps(2) by simp
qed

section \<open>Properties\<close>

text \<open>
  Property C2. An announcer on an interface that announces keeps to its schedule, whatever happens between the runs of its
  timer that leaves it, its record, the state of its group and the interface alone.
  While it probes, it sends its record in a probe each time, 250 milliseconds apart, until it has done so three times.
  Another 250 milliseconds later, unless its group is still being registered, it goes on to announce: its record is handed to the
  scheduler of responses three times, the second time 1 to 1.25 seconds after the first and the third 2 to 2.25 seconds after the second.
  An announcer that announces makes those of its four announcements that are left, with delays that double. After the last
  it is established and its timer is off.
\<close>

theorem announcer_schedule:
  assumes "publish_reachable sc s" "announcer_at s e i = Some a" "atime_event a = Some t"
    "estore s e = Some x" "istore s i = Some y" "announcing y"
  shows "(astate a = AVAHI_PROBING \<longrightarrow> n_iteration a \<in> {1..4} \<and>
      keeps_schedule sc e i (erecord x) (replicate (4 - n_iteration a) (AVAHI_PROBING, 250000, 250000))
        (\<lambda>t s. announcer_at s e i = Some (a\<lparr>atime_event := Some t, n_iteration := 4\<rparr>)) t s) \<and>
    (astate a = AVAHI_PROBING \<and> state_of_group s e \<noteq> Some AVAHI_ENTRY_GROUP_REGISTERING \<longrightarrow>
      keeps_schedule sc e i (erecord x) (replicate (4 - n_iteration a) (AVAHI_PROBING, 250000, 250000) @
        [(AVAHI_ANNOUNCING, 1000000, 1250000), (AVAHI_ANNOUNCING, 2000000, 2250000), (AVAHI_ANNOUNCING, 0, 0)]) (established_on e i) t s) \<and>
    (astate a = AVAHI_ANNOUNCING \<longrightarrow> n_iteration a \<le> 3 \<and>
      keeps_schedule sc e i (erecord x) (announcements (sec_delay a) (3 - n_iteration a)) (established_on e i) t s)"
proof (intro conjI impI)
  have air: "on_air e i (erecord x) a s" using assms(2,4-6) by (simp add: on_air_def)
  have "zone_ok {} sc {} s" using publish_reachable_inv [OF assms(1)] by (simp add: server_inv_def)
  from zone_announcer [OF this assms(2)] have ok: "delay_ok a" by (simp add: announcer_ok_def)
  show "n_iteration a \<in> {1..4}" if "astate a = AVAHI_PROBING" using ok that by (simp add: delay_ok_def)
  note n = this
  show "n_iteration a \<le> 3" if "astate a = AVAHI_ANNOUNCING" using ok that by (simp add: delay_ok_def)
  then show "keeps_schedule sc e i (erecord x) (announcements (sec_delay a) (3 - n_iteration a)) (established_on e i) t s"
    if "astate a = AVAHI_ANNOUNCING" using keeps_announcing [OF assms(1) air that _ assms(3)] that by simp
  have a: "a\<lparr>atime_event := Some t\<rparr> = a" using assms(3) by (cases a) simp
  show "keeps_schedule sc e i (erecord x) (replicate (4 - n_iteration a) (AVAHI_PROBING, 250000, 250000))
      (\<lambda>t s. announcer_at s e i = Some (a\<lparr>atime_event := Some t, n_iteration := 4\<rparr>)) t s" if "astate a = AVAHI_PROBING"
    using keeps_probing [OF assms(1) air that _ assms(3), of "4 - n_iteration a" "[]"] n [OF that] a by (auto simp: on_air_def)
  assume probing: "astate a = AVAHI_PROBING \<and> state_of_group s e \<noteq> Some AVAHI_ENTRY_GROUP_REGISTERING"
  then have "sec_delay a = 1" using ok by (simp add: delay_ok_def)
  with probing n show "keeps_schedule sc e i (erecord x) (replicate (4 - n_iteration a) (AVAHI_PROBING, 250000, 250000) @
      [(AVAHI_ANNOUNCING, 1000000, 1250000), (AVAHI_ANNOUNCING, 2000000, 2250000), (AVAHI_ANNOUNCING, 0, 0)]) (established_on e i) t s"
    using keeps_probing [OF assms(1) air _ _ assms(3), of "4 - n_iteration a"] keeps_probed by auto
qed

definition example_announcer :: announcer where
  "example_announcer = \<lparr>ainterface = 0, atime_event = Some (example_time 100), astate = AVAHI_PROBING, n_iteration = 1, sec_delay = 1\<rparr>"

lemma example_commited_announcer: "announcer_at example_commited_server 0 0 = Some example_announcer"
  by code_simp

definition example_single_op :: publish_op where
  "example_single_op = Entry_add 0 None (- 1) (- 1) {AVAHI_PUBLISH_UNIQUE} (example_record ''a.local'' 120)"

definition example_single_server :: server where
  "example_single_server = example_do example_single_op example_iface_server"

lemma example_single_reachable: "publish_reachable True example_single_server"
proof -
  have "estore example_iface_server 0 = None" by code_simp
  then have "publish_op_ok example_iface_server example_single_op" using example_publishable by (simp add: example_single_op_def)
  from example_do_reachable [OF example_publish_reachable(3) this] show ?thesis by (simp add: example_single_server_def)
qed

lemma announcer_schedule_witness:
  "\<exists>s' y. Announce.next_state True (example_time 100) 0 0 0 example_single_server = Ret s' \<and> istore s' 0 = Some y \<and>
     iprobes y = [example_record ''a.local'' 120]"
proof -
  have "map_option (\<lambda>x. (erecord x, egroup x)) (estore example_single_server 0) = Some (example_record ''a.local'' 120, None)"
    "map_option (\<lambda>y. (announcing y, iprobes y)) (istore example_single_server 0) = Some (True, [])"
    "announcer_at example_single_server 0 0 = Some example_announcer" by code_simp+
  then obtain x y where x: "estore example_single_server 0 = Some x" "erecord x = example_record ''a.local'' 120" "egroup x = None"
    and y: "istore example_single_server 0 = Some y" "announcing y" "iprobes y = []" and at: "announcer_at example_single_server 0 0 = Some example_announcer" by auto
  have a: "atime_event example_announcer = Some (example_time 100)" "astate example_announcer = AVAHI_PROBING" "n_iteration example_announcer = 1"
    by (simp_all add: example_announcer_def)
  have "state_of_group example_single_server 0 = None" using x by (simp add: state_of_group_def)
  with announcer_schedule [OF example_single_reachable at a(1) x(1) y(1,2)] a(2,3) x(2)
  have "keeps_schedule True 0 0 (example_record ''a.local'' 120) (replicate 3 (AVAHI_PROBING, 250000, 250000) @
      [(AVAHI_ANNOUNCING, 1000000, 1250000), (AVAHI_ANNOUNCING, 2000000, 2250000), (AVAHI_ANNOUNCING, 0, 0)]) (established_on 0 0)
      (example_time 100) example_single_server" by simp
  with example_now(2) y(1,3) show ?thesis by (auto simp: numeral_3_eq_3)
qed

section \<open>Groups are established\<close>

text \<open>
  Property C4. When an announcer has sent its last probe and its group is being registered, its count of probing
  announcers goes down. While others still probe, the announcer waits for them and nothing else happens. The last one
  establishes the group: its clients are told, and every announcer of the group that waited makes its first
  announcement at once, so that its next one comes a second to 1.25 seconds later.
\<close>

theorem last_prober_establishes:
  assumes "publish_reachable sc s" "normalized now" "rand_ok rnd" "announcer_at s e i = Some a" "astate a = AVAHI_PROBING" "n_iteration a = 4"
    "estore s e = Some x" "egroup x = Some g" "gstore s g = Some y" "gstate y = AVAHI_ENTRY_GROUP_REGISTERING"
  shows "0 < n_probing y \<and> (\<exists>s'. Announce.next_state sc now rnd e i s = Ret s' \<and> publish_reachable sc s' \<and>
    (if 1 < n_probing y
     then gstore s' = (gstore s)(g \<mapsto> y\<lparr>n_probing := n_probing y - 1\<rparr>) \<and> changes s' = changes s \<and>
       announcer_at s' e i = Some (a\<lparr>astate := AVAHI_WAITING, atime_event := None\<rparr>) \<and>
       (\<forall>e' i'. e' \<noteq> e \<or> i' \<noteq> i \<longrightarrow> announcer_at s' e' i' = announcer_at s e' i')
     else changes s' = changes s @ [(g, AVAHI_ENTRY_GROUP_ESTABLISHED)] \<and>
       (\<exists>y'. gstore s' = (gstore s)(g \<mapsto> y') \<and> gstate y' = AVAHI_ENTRY_GROUP_ESTABLISHED \<and> n_probing y' = 0 \<and> established_at y' = now) \<and>
       (\<forall>e' i' b. e' \<in> set (gentries y) \<longrightarrow> announcer_at s e' i' = Some b \<longrightarrow>
          e' = e \<and> i' = i \<or> astate b = AVAHI_WAITING \<longrightarrow>
          (\<exists>b' tv. announcer_at s' e' i' = Some b' \<and> astate b' = AVAHI_ANNOUNCING \<and> n_iteration b' = 2 \<and> atime_event b' = Some tv \<and>
             usec_of now + 1000000 \<le> usec_of tv \<and> usec_of tv \<le> usec_of now + 1250000))))"
proof -
  note inv = publish_reachable_inv [OF assms(1)]
  have zone: "zone_ok {} sc {} s" using inv by (simp add: server_inv_def)
  let ?y = "y\<lparr>n_probing := n_probing y - 1\<rparr>" and ?a = "a\<lparr>astate := AVAHI_WAITING, atime_event := None\<rparr>"
  let ?t = "put_announcer e ?a (set_group g ?y s)"
  from next_state_probed_waits [OF inv assms(2-10)] obtain s' where s': "Announce.next_state sc now rnd e i s = Ret s'" "server_inv {} sc s'"
    "if n_probing y = 1 then established now True g ?y ?t s' else s' = ?t" by blast
  have mem: "e \<in> set (gentries y)" using group_entry [OF group_of [OF inv assms(9)]] assms(7,8) by blast
  have pos: "0 < n_probing y" by (rule announcer_positive(2) [OF zone assms(4,5,7,8,9)])
  have ai: "ainterface a = i" using entry_of_announcer(2) [OF zone assms(4,7)] .
  have at: "announcer_at ?t e' i' = (if e' = e \<and> i' = i then Some ?a else announcer_at s e' i')" for e' i'
  proof -
    have "announcer_at (set_group g ?y s) e' i' = announcer_at s e' i'" by (simp add: announcer_at_def set_group_def)
    with assms(4) ai show ?thesis by (auto simp: announcer_at_put split: option.splits)
  qed
  have delay: "sec_delay b = 1" if "announcer_at s e' i' = Some b" "e' = e \<and> i' = i \<or> astate b = AVAHI_WAITING" for e' i' b
    using zone_announcer [OF zone that(1)] that assms(4,5) by (auto simp: announcer_ok_def delay_ok_def)
  have "atime_event a \<noteq> None" using announcer_state_ok(2) [OF inv assms(4)] assms(5) by simp
  then have reach: "publish_reachable sc s'" using publish_step [OF assms(1) _ assms(2,3)] assms(4) s'(1)
    by (metis publish_do.simps(7) publish_op_ok.simps(7))
  show ?thesis
  proof (cases "n_probing y = 1")
    case False
    with s'(3) have "s' = ?t" by simp
    with False pos s'(1) reach at show ?thesis by (intro conjI exI [of _ s']) (auto simp: set_group_def put_announcer_def)
  next
    case True
    with s'(3) have est: "established now True g ?y ?t s'" by simp
    let ?y' = "changed_group now AVAHI_ENTRY_GROUP_ESTABLISHED ?y"
    have "gstore s' = (gstore s)(g \<mapsto> ?y')" "changes s' = changes s @ [(g, AVAHI_ENTRY_GROUP_ESTABLISHED)]"
      using est by (simp_all add: established_def set_group_def put_announcer_def)
    moreover have "gstate ?y' = AVAHI_ENTRY_GROUP_ESTABLISHED" "n_probing ?y' = 0" "established_at ?y' = now"
      using assms(10) True by (simp_all add: changed_group_def Let_def)
    moreover have "\<exists>b' tv. announcer_at s' e' i' = Some b' \<and> astate b' = AVAHI_ANNOUNCING \<and> n_iteration b' = 2 \<and> atime_event b' = Some tv \<and>
        usec_of now + 1000000 \<le> usec_of tv \<and> usec_of tv \<le> usec_of now + 1250000"
      if e': "e' \<in> set (gentries y)" and b: "announcer_at s e' i' = Some b" and w: "e' = e \<and> i' = i \<or> astate b = AVAHI_WAITING" for e' i' b
    proof -
      have ge: "gentries ?y = gentries y" by simp
      obtain c where c: "announcer_at ?t e' i' = Some c" "astate c = AVAHI_WAITING" "sec_delay c = 1"
        using at [of e' i'] b w delay [OF b w] assms(4) by (cases "e' = e \<and> i' = i") auto
      have "case announcer_at ?t e' i' of None \<Rightarrow> announcer_at s' e' i' = None
          | Some a \<Rightarrow> \<exists>a'. announcer_at s' e' i' = Some a' \<and> woken now True a a'"
        using est e' unfolding established_def ge by blast
      with c(1) obtain b' where b': "announcer_at s' e' i' = Some b'" "woken now True c b'" by auto
      with c show ?thesis by (auto simp: woken_def announced_def)
    qed
    ultimately show ?thesis using True s'(1) reach by (intro conjI exI [of _ s']) auto
  qed
qed

lemma last_prober_establishes_witness:
  "\<exists>s s'. Announce.next_state True (example_time 100) 0 0 0 s = Ret s' \<and> changes s' = changes s @ [(0, AVAHI_ENTRY_GROUP_ESTABLISHED)]"
proof -
  have "map_option egroup (estore example_commited_server 0) = Some (Some 0)" "map_option announcing (istore example_commited_server 0) = Some True"
    "map_option (\<lambda>y. (gstate y, n_probing y)) (gstore example_commited_server 0) = Some (AVAHI_ENTRY_GROUP_REGISTERING, 1)" by code_simp+
  then obtain x y z where xy: "estore example_commited_server 0 = Some x" "istore example_commited_server 0 = Some y" "announcing y" "egroup x = Some 0"
    and z: "gstore example_commited_server 0 = Some z" "gstate z = AVAHI_ENTRY_GROUP_REGISTERING" "n_probing z = 1" by auto
  have a: "atime_event example_announcer = Some (example_time 100)" "astate example_announcer = AVAHI_PROBING" "n_iteration example_announcer = 1"
    by (simp_all add: example_announcer_def)
  from probe_run [OF example_publish_reachable(6) example_now(2) example_commited_announcer a(2) _ a(1) xy(1) refl xy(2,3), of 3] a(3) obtain s tv x' where
    s: "publish_reachable True s" "announcer_at s 0 0 = Some (example_announcer\<lparr>atime_event := Some tv, n_iteration := 4\<rparr>)"
      "estore s 0 = Some x'" "egroup x' = egroup x" "gstore s = gstore example_commited_server" by auto
  have "astate (example_announcer\<lparr>atime_event := Some tv, n_iteration := 4\<rparr>) = AVAHI_PROBING"
    "n_iteration (example_announcer\<lparr>atime_event := Some tv, n_iteration := 4\<rparr>) = 4" using a by simp_all
  moreover have "egroup x' = Some 0" "gstore s 0 = Some z" using s(4,5) xy(4) z(1) by simp_all
  ultimately obtain s' where "Announce.next_state True (example_time 100) 0 0 0 s = Ret s'"
    "if 1 < n_probing z then True else changes s' = changes s @ [(0, AVAHI_ENTRY_GROUP_ESTABLISHED)]"
    using last_prober_establishes [OF s(1) example_now s(2) _ _ s(3), of 0 z] z(2) by (metis (full_types))
  with z(3) show ?thesis by auto
qed

end
