(* ===== verification/Entry_Properties.thy ===== *)
theory Entry_Properties
  imports Announcer_Properties
begin

text \<open>
  What committing a group does, and what the clean-up removes.
\<close>

section \<open>Committing a group\<close>

text \<open>
  Property C9. Committing a group that is registered or established is an error, and so is committing one without a live
  entry; nothing changes. Otherwise the commit succeeds. Within one second of the
  last try, or twenty from the fifteenth try on, nothing is sent yet: the group is being registered
  and its timer is set for the end of that time. After it every entry of the group gets
  an announcer on every interface that it matches and that is announcing, and the group is established at once when none of them has to probe.
\<close>

theorem group_commit_outcome:
  assumes "publish_reachable sc s" "normalized now" "rand_ok rnd" "gstore s g = Some y" "\<not> gdead y"
  defines "t \<equiv> usec_of (register_time y) + (if 15 \<le> n_register_try y + 1 then 20000000 else 1000000)"
  shows "\<exists>s' r. avahi_s_entry_group_commit sc now rnd g s = Ret (s', r) \<and> publish_reachable sc s' \<and>
    (if gstate y \<noteq> AVAHI_ENTRY_GROUP_UNCOMMITED \<and> gstate y \<noteq> AVAHI_ENTRY_GROUP_COLLISION
     then s' = s \<and> r = Inl AVAHI_ERR_BAD_STATE
     else if \<not> (\<exists>e x. estore s e = Some x \<and> egroup x = Some g \<and> \<not> edead x) then s' = s \<and> r = Inl AVAHI_ERR_IS_EMPTY
     else r = Inr () \<and>
       (if usec_of now < t
        then changes s' = changes s @ [(g, AVAHI_ENTRY_GROUP_REGISTERING)] \<and> (\<forall>e i. announcer_at s' e i = announcer_at s e i) \<and>
          (\<exists>y' tv. gstore s' = (gstore s)(g \<mapsto> y') \<and> gstate y' = AVAHI_ENTRY_GROUP_REGISTERING \<and>
             n_register_try y' = n_register_try y + 1 \<and> register_time_event y' = Some tv \<and> usec_of tv = t)
        else \<exists>y'. gstore s' g = Some y' \<and> (\<forall>e \<in> set (gentries y'). \<forall>i. announced_on s' e i) \<and>
          gstate y' = (if n_probing y' = 0 then AVAHI_ENTRY_GROUP_ESTABLISHED else AVAHI_ENTRY_GROUP_REGISTERING)))"
proof -
  note inv = publish_reachable_inv [OF assms(1)]
  from commit_ok [OF inv assms(2-5)] obtain s' r where
    s': "avahi_s_entry_group_commit sc now rnd g s = Ret (s', r)" "server_inv {} sc s'"
    "if gstate y \<noteq> AVAHI_ENTRY_GROUP_UNCOMMITED \<and> gstate y \<noteq> AVAHI_ENTRY_GROUP_COLLISION then s' = s \<and> r = Inl AVAHI_ERR_BAD_STATE
     else if \<forall>e \<in> set (gentries y). \<forall>x. estore s e = Some x \<longrightarrow> edead x then s' = s \<and> r = Inl AVAHI_ERR_IS_EMPTY
     else r = Inr () \<and>
       (if usec_of (register_time (next_try y)) \<le> usec_of now then group_commited s' g
        else s' = told g AVAHI_ENTRY_GROUP_REGISTERING (set_group g ((next_try y)\<lparr>
            register_time_event := Some (register_time (next_try y)), gstate := AVAHI_ENTRY_GROUP_REGISTERING\<rparr>) s))" by blast
  have "publish_op_ok s (Group_commit g)" "publish_do sc now rnd (Group_commit g) s = Ret s'" using assms(4,5) s'(1) by auto
  then have reach: "publish_reachable sc s'" by (rule publish_step [OF assms(1) _ assms(2,3)])
  have due: "usec_of (register_time (next_try y)) = t"
    by (simp add: next_try_def t_def usec_of_add AVAHI_RR_RATE_LIMIT_COUNT_def AVAHI_RR_HOLDOFF_MSEC_def AVAHI_RR_HOLDOFF_MSEC_RATE_LIMIT_def)
  have live: "(\<forall>e \<in> set (gentries y). \<forall>x. estore s e = Some x \<longrightarrow> edead x) \<longleftrightarrow> \<not> (\<exists>e x. estore s e = Some x \<and> egroup x = Some g \<and> \<not> edead x)"
    using group_entry [OF group_of [OF inv assms(4)]] by fastforce
  show ?thesis
  proof (cases "(gstate y \<noteq> AVAHI_ENTRY_GROUP_UNCOMMITED \<and> gstate y \<noteq> AVAHI_ENTRY_GROUP_COLLISION) \<or>
      \<not> (\<exists>e x. estore s e = Some x \<and> egroup x = Some g \<and> \<not> edead x)")
    case True
    show ?thesis
    proof (cases "gstate y \<noteq> AVAHI_ENTRY_GROUP_UNCOMMITED \<and> gstate y \<noteq> AVAHI_ENTRY_GROUP_COLLISION")
      case bad: True
      with s'(1,3) reach show ?thesis by (intro exI [of _ s'] exI [of _ r]) simp
    next
      case False
      with True have dead: "\<not> (\<exists>e x. estore s e = Some x \<and> egroup x = Some g \<and> \<not> edead x)" by blast
      with s'(3) False have "s' = s \<and> r = Inl AVAHI_ERR_IS_EMPTY" unfolding live by (simp only: if_False if_True) simp
      with s'(1) reach show ?thesis unfolding if_not_P [OF False] if_P [OF dead] by blast
    qed
  next
    case False
    with s'(3) live have r: "r = Inr ()" and out: "if t \<le> usec_of now then group_commited s' g
        else s' = told g AVAHI_ENTRY_GROUP_REGISTERING (set_group g ((next_try y)\<lparr>
            register_time_event := Some (register_time (next_try y)), gstate := AVAHI_ENTRY_GROUP_REGISTERING\<rparr>) s)"
      unfolding due by (simp_all split: if_splits)
    show ?thesis
    proof (cases "t \<le> usec_of now")
      case True
      with out have "\<exists>y'. gstore s' g = Some y' \<and> (\<forall>e \<in> set (gentries y'). \<forall>i. announced_on s' e i) \<and>
          gstate y' = (if n_probing y' = 0 then AVAHI_ENTRY_GROUP_ESTABLISHED else AVAHI_ENTRY_GROUP_REGISTERING)"
        by (auto simp: group_commited_def split: if_splits)
      moreover have nb: "\<not> (gstate y \<noteq> AVAHI_ENTRY_GROUP_UNCOMMITED \<and> gstate y \<noteq> AVAHI_ENTRY_GROUP_COLLISION)"
        and nd: "\<not> \<not> (\<exists>e x. estore s e = Some x \<and> egroup x = Some g \<and> \<not> edead x)" and nt: "\<not> usec_of now < t"
        using False True by auto
      ultimately show ?thesis using s'(1) reach r unfolding if_not_P [OF nb] if_not_P [OF nd] if_not_P [OF nt] by blast
    next
      case hold: False
      let ?y = "(next_try y)\<lparr>register_time_event := Some (register_time (next_try y)), gstate := AVAHI_ENTRY_GROUP_REGISTERING\<rparr>"
      have "s' = told g AVAHI_ENTRY_GROUP_REGISTERING (set_group g ?y s)" using out hold by simp
      moreover have "n_register_try ?y = n_register_try y + 1" by (simp add: next_try_def)
      ultimately have "changes s' = changes s @ [(g, AVAHI_ENTRY_GROUP_REGISTERING)] \<and> (\<forall>e i. announcer_at s' e i = announcer_at s e i) \<and>
          (\<exists>y' tv. gstore s' = (gstore s)(g \<mapsto> y') \<and> gstate y' = AVAHI_ENTRY_GROUP_REGISTERING \<and>
             n_register_try y' = n_register_try y + 1 \<and> register_time_event y' = Some tv \<and> usec_of tv = t)"
        using due by (intro conjI exI [of _ ?y] exI [of _ "register_time (next_try y)"])
          (simp_all add: set_group_def announcer_at_def)
      with hold False r s'(1) reach show ?thesis by (intro exI [of _ s'] exI [of _ r]) simp
    qed
  qed
qed

lemma group_commit_outcome_witness:
  "\<exists>s' y'. avahi_s_entry_group_commit True (example_time 100) 0 0 example_added_server = Ret (s', Inr ()) \<and> publish_reachable True s' \<and>
    gstore s' 0 = Some y' \<and> (\<forall>e. e \<in> set (gentries y') \<longrightarrow> announced_on s' e 0)"
proof -
  have "map_option (\<lambda>y. (gdead y, gstate y, n_register_try y, usec_of (register_time y))) (gstore example_added_server 0) =
      Some (False, AVAHI_ENTRY_GROUP_UNCOMMITED, 0, 0)"
    "map_option (\<lambda>x. (egroup x, edead x)) (estore example_added_server 0) = Some (Some 0, False)" "usec_of (example_time 100) = 100000000" by code_simp+
  then obtain y x where y: "gstore example_added_server 0 = Some y" "\<not> gdead y" "gstate y = AVAHI_ENTRY_GROUP_UNCOMMITED" "n_register_try y = 0"
      "usec_of (register_time y) = 0" and x: "estore example_added_server 0 = Some x" "egroup x = Some 0" "\<not> edead x"
    and now: "usec_of (example_time 100) = 100000000" by auto
  from x have live: "\<exists>e x. estore example_added_server e = Some x \<and> egroup x = Some 0 \<and> \<not> edead x" by blast
  from group_commit_outcome [OF example_publish_reachable(5) example_now y(1,2)] live y(3-5) now show ?thesis by auto
qed

section \<open>Cleaning up\<close>

text \<open>
  Property C25. The clean-up, for which a timer is set when an entry or a group is freed, does not crash. If it was asked for
  groups, the dead groups and their entries are removed, and if it was asked for entries, all entries
  that are dead. Nothing else changes: what is left of entries is as it was, each other group only loses the removed entries from its
  list, and the clients are told nothing.
\<close>

theorem cleanup_removes_dead:
  assumes "publish_reachable sc s" "normalized now" "rand_ok rnd"
  shows "\<exists>s'. avahi_cleanup_dead_entries sc now rnd s = Ret s' \<and> publish_reachable sc s' \<and> cleanup_time_event s' = None \<and>
    \<not> need_group_cleanup s' \<and> \<not> need_entry_cleanup s' \<and> changes s' = changes s \<and> interfaces s' = interfaces s \<and>
    (\<forall>e x. estore s' e = Some x \<longleftrightarrow> estore s e = Some x \<and> \<not> (edead x \<and>
       (need_entry_cleanup s \<or> need_group_cleanup s \<and> (\<exists>g y. egroup x = Some g \<and> gstore s g = Some y \<and> gdead y)))) \<and>
    (\<forall>g. gstore s' g =
       (case gstore s g of
          None \<Rightarrow> None
        | Some y \<Rightarrow> if need_group_cleanup s \<and> gdead y then None
                    else Some (y\<lparr>gentries := filter (\<lambda>e. estore s' e \<noteq> None) (gentries y)\<rparr>))) \<and>
    entries s' = filter (\<lambda>e. estore s' e \<noteq> None) (entries s) \<and> groups s' = filter (\<lambda>g. gstore s' g \<noteq> None) (groups s)"
proof -
  note inv = publish_reachable_inv [OF assms(1)]
  have zone: "zone_ok {} sc {} s" using inv by (simp add: server_inv_def)
  let ?E = "swept_entries s" and ?G = "swept_groups s"
  from cleanup_ok [OF inv assms(2,3)] obtain s' where
    s': "avahi_cleanup_dead_entries sc now rnd s = Ret s'" "cleanup_time_event s' = None" "\<not> need_group_cleanup s'" "\<not> need_entry_cleanup s'"
    "freed ?G ?E (s\<lparr>need_group_cleanup := False, need_entry_cleanup := False\<rparr>) s'" by blast
  have reach: "publish_reachable sc s'" by (rule publish_step [OF assms(1) _ assms(2,3), of Clean_up]) (simp_all add: s'(1))
  have es: "estore s' e = (if e \<in> ?E then None else estore s e)" and ents: "entries s' = filter (\<lambda>e. e \<notin> ?E) (entries s)"
    and gs: "gstore s' g = (if g \<in> ?G then None else map_option (gentries_update (filter (\<lambda>e. e \<notin> ?E))) (gstore s g))"
    and grps: "groups s' = filter (\<lambda>g. g \<notin> ?G) (groups s)" and same: "changes s' = changes s" "interfaces s' = interfaces s" for e g
    using s'(5) by (simp_all add: freed_def)
  have left: "e \<notin> ?E \<longleftrightarrow> estore s' e \<noteq> None" if "estore s e \<noteq> None" for e using es [of e] that by simp
  have list: "filter (\<lambda>e. e \<notin> ?E) (gentries y) = filter (\<lambda>e. estore s' e \<noteq> None) (gentries y)" if y: "gstore s g = Some y" for g y
    using group_entry [OF group_of [OF inv y]] left by (intro filter_cong) auto
  have "estore s' e = Some x \<longleftrightarrow> estore s e = Some x \<and> \<not> (edead x \<and>
      (need_entry_cleanup s \<or> need_group_cleanup s \<and> (\<exists>g y. egroup x = Some g \<and> gstore s g = Some y \<and> gdead y)))" for e x
    using es [of e] by (auto simp: swept_entries_def swept_groups_def)
  moreover have "gstore s' g = (case gstore s g of None \<Rightarrow> None
      | Some y \<Rightarrow> if need_group_cleanup s \<and> gdead y then None else Some (y\<lparr>gentries := filter (\<lambda>e. estore s' e \<noteq> None) (gentries y)\<rparr>))" for g
    using gs [of g] list [of g] by (cases "gstore s g") (auto simp: swept_groups_def)
  moreover have "entries s' = filter (\<lambda>e. estore s' e \<noteq> None) (entries s)"
    unfolding ents using left zone_entries [OF zone] by (intro filter_cong) auto
  moreover have "groups s' = filter (\<lambda>g. gstore s' g \<noteq> None) (groups s)"
    unfolding grps using gs zone_groups [OF zone] by (intro filter_cong) auto
  ultimately show ?thesis using s'(1-4) reach same by (intro exI [of _ s'] conjI allI) assumption+
qed

definition example_freed_server :: server where
  "example_freed_server = example_do (Group_free 0) example_commited_server"

lemma cleanup_removes_dead_witness:
  "\<exists>s'. avahi_cleanup_dead_entries True (example_time 100) 0 example_freed_server = Ret s' \<and> estore s' 0 = None \<and> gstore s' 0 = None"
proof -
  have "map_option gdead (gstore example_commited_server 0) = Some False" by code_simp
  then have "publish_op_ok example_commited_server (Group_free 0)" by auto
  from example_do_reachable [OF example_publish_reachable(6) this] have "publish_reachable True example_freed_server"
    by (simp add: example_freed_server_def)
  from cleanup_removes_dead [OF this example_now] obtain s' where
    s': "avahi_cleanup_dead_entries True (example_time 100) 0 example_freed_server = Ret s'"
      "\<forall>e x. estore s' e = Some x \<longrightarrow> estore example_freed_server e = Some x \<and> \<not> (edead x \<and> need_entry_cleanup example_freed_server)"
      "\<forall>g y. gstore example_freed_server g = Some y \<longrightarrow> need_group_cleanup example_freed_server \<and> gdead y \<longrightarrow> gstore s' g = None"
    by fastforce
  have "map_option edead (estore example_freed_server 0) = Some True" "need_entry_cleanup example_freed_server"
    "map_option gdead (gstore example_freed_server 0) = Some True" "need_group_cleanup example_freed_server" by code_simp+
  then obtain x y where x: "estore example_freed_server 0 = Some x" "edead x" "need_entry_cleanup example_freed_server"
    and y: "gstore example_freed_server 0 = Some y" "gdead y" "need_group_cleanup example_freed_server" by auto
  have "estore s' 0 = None" using s'(2) x by (cases "estore s' 0") auto
  moreover have "gstore s' 0 = None" using s'(3) y by blast
  ultimately show ?thesis using s'(1) by blast
qed

end
