(* ===== verification/Conflict_Properties.thy ===== *)
theory Conflict_Properties
  imports Entry_Properties
begin

text \<open>
  Which of two hosts that probe for the same name gives it up, what becomes of the records of an interface that is
  announcing or is lost, and what becomes of a group that loses the interface it is probing on.
\<close>

section \<open>Two hosts probe for the same name\<close>

lemma publishable_comparable: "publishable r \<Longrightarrow> comparable r"
  by (simp add: publishable_def comparable_def postable_def)

lemma same_key_types:
  assumes "key_abs (rkey a) = key_abs (rkey b)"
  shows "clazz (rkey a) = clazz (rkey b)" "ktype (rkey a) = ktype (rkey b)"
  using assms by (simp_all add: key_abs_def)

text \<open>One live entry has the key, and it is probing, with a record that compares as \<open>c\<close> with the one that is heard.\<close>

lemma single_probe:
  assumes inv: "server_inv {} sc s" and now: "normalized now" "rand_ok rnd" and x: "estore s e = Some x" "\<not> edead x" "probing_on i x"
    and r: "publishable r" "key_abs (rkey (erecord x)) = key_abs (rkey r)"
    and only: "\<forall>e' x'. estore s e' = Some x' \<longrightarrow> \<not> edead x' \<longrightarrow> key_abs (rkey (erecord x')) = key_abs (rkey r) \<longrightarrow> e' = e"
    and c: "avahi_record_lexicographical_compare (erecord x) r = Ret c" "c \<noteq> 0"
  shows "\<exists>s'. incoming_probe sc now rnd r i s = Ret s' \<and> server_inv {} sc s' \<and> withdrawn s s' \<and>
    (if c < 0 then \<exists>x'. estore s' e = Some x' \<and> edead x' else s' = s)"
proof -
  have zone: "zone_ok {} sc {} s" using inv by (simp add: server_inv_def)
  have k: "key_ok (rkey r)" using publishable_ok [OF r(1)] by simp
  have "index_ok sc (entries_by_key s) (zone_keys s)" using zone_index [OF zone] by (simp add: index_ready_def)
  note mem = index_list_set [OF this k]
  have e: "e \<in> set (index_list sc (entries_by_key s) (rkey r))" using mem x(1) r(2) by (simp add: zone_keys_def)
  have live: "e' = e" if "e' \<in> set (index_list sc (entries_by_key s) (rkey r))" "estore s e' = Some x'" "\<not> edead x'" for e' x'
    using mem that only by (auto simp: zone_keys_def)
  have some: "some_entry s r (index_list sc (entries_by_key s) (rkey r)) P \<longleftrightarrow> P x c" for P
  proof
    assume "some_entry s r (index_list sc (entries_by_key s) (rkey r)) P"
    then obtain e' x' c' where *: "e' \<in> set (index_list sc (entries_by_key s) (rkey r))" "estore s e' = Some x'" "\<not> edead x'"
      "avahi_record_lexicographical_compare (erecord x') r = Ret c'" "P x' c'" by (auto simp: some_entry_def)
    from live [OF *(1-3)] * x c(1) show "P x c" by simp
  next
    assume "P x c"
    with e x c(1) show "some_entry s r (index_list sc (entries_by_key s) (rkey r)) P" unfolding some_entry_def by blast
  qed
  have "lost_probe sc s r i \<longleftrightarrow> c < 0" using x(3) c(2) by (auto simp: lost_probe_def some)
  with incoming_probe_ok [OF inv now publishable_comparable [OF r(1)], of i] e show ?thesis by (auto split: if_splits)
qed

text \<open>
  Property C3. Two hosts each have one live entry with a name, class and type, for which they probe, and no other live entry with these three.
  Their data differ. They hear each other's probe. The host whose record comes first in the order of the data gives its entry up:
  it marks it dead, and the entry's group, if it has one, is in collision. Nothing changes on the other host.
\<close>

theorem probe_tie_break:
  assumes "publish_reachable sc s1" "publish_reachable sc s2" "normalized now" "rand_ok rnd"
    "estore s1 e1 = Some x1" "\<not> edead x1" "probing_on i1 x1" "estore s2 e2 = Some x2" "\<not> edead x2" "probing_on i2 x2"
    "key_abs (rkey (erecord x1)) = key_abs (rkey (erecord x2))" "\<not> same_data (rdata (erecord x1)) (rdata (erecord x2))"
    "\<forall>e x. estore s1 e = Some x \<longrightarrow> \<not> edead x \<longrightarrow> key_abs (rkey (erecord x)) = key_abs (rkey (erecord x2)) \<longrightarrow> e = e1"
    "\<forall>e x. estore s2 e = Some x \<longrightarrow> \<not> edead x \<longrightarrow> key_abs (rkey (erecord x)) = key_abs (rkey (erecord x1)) \<longrightarrow> e = e2"
  shows "\<exists>c t1 t2. avahi_record_lexicographical_compare (erecord x1) (erecord x2) = Ret c \<and> c \<noteq> 0 \<and>
    incoming_probe sc now rnd (erecord x2) i1 s1 = Ret t1 \<and> incoming_probe sc now rnd (erecord x1) i2 s2 = Ret t2 \<and>
    (if 0 < c then t1 = s1 \<and> (\<exists>x. estore t2 e2 = Some x \<and> edead x) \<and> (\<forall>g. egroup x2 = Some g \<longrightarrow> collided t2 g)
     else t2 = s2 \<and> (\<exists>x. estore t1 e1 = Some x \<and> edead x) \<and> (\<forall>g. egroup x1 = Some g \<longrightarrow> collided t1 g))"
proof -
  note inv = publish_reachable_inv [OF assms(1)] publish_reachable_inv [OF assms(2)]
  have r: "publishable (erecord x1)" "publishable (erecord x2)"
    using inv zone_entry assms(5,8) by (auto simp: server_inv_def)
  have "rr_ok (erecord x1)" "rr_ok (erecord x2)" "rdata (erecord x1) \<noteq> Generic []" "rdata (erecord x2) \<noteq> Generic []"
    using r by (simp_all add: publishable_def postable_def)
  from record_compare_antisym [OF this] obtain c where c: "avahi_record_lexicographical_compare (erecord x1) (erecord x2) = Ret c"
    "avahi_record_lexicographical_compare (erecord x2) (erecord x1) = Ret (- c)" "c \<noteq> 0"
    using same_key_types [OF assms(11)] assms(12) by auto
  from single_probe [OF inv(1) assms(3-7) r(2) assms(11,13) c(1,3)] obtain t1 where
    t1: "incoming_probe sc now rnd (erecord x2) i1 s1 = Ret t1" "withdrawn s1 t1"
      "if c < 0 then \<exists>x'. estore t1 e1 = Some x' \<and> edead x' else t1 = s1" by blast
  from single_probe [OF inv(2) assms(3,4,8-10) r(1) assms(11) [symmetric] assms(14) c(2)] c(3) obtain t2 where
    t2: "incoming_probe sc now rnd (erecord x1) i2 s2 = Ret t2" "withdrawn s2 t2"
      "if - c < 0 then \<exists>x'. estore t2 e2 = Some x' \<and> edead x' else t2 = s2" by auto
  show ?thesis
  proof (cases "c < 0")
    case True
    with t1(3) obtain x' where x': "estore t1 e1 = Some x'" "edead x'" by auto
    with t1(2) assms(5,6) have "\<forall>g. egroup x1 = Some g \<longrightarrow> collided t1 g" unfolding withdrawn_def by blast
    with True x' t1(1) t2 c(1,3) show ?thesis by auto
  next
    case False
    with t2(3) c(3) obtain x' where x': "estore t2 e2 = Some x'" "edead x'" by auto
    with t2(2) assms(8,9) have "\<forall>g. egroup x2 = Some g \<longrightarrow> collided t2 g" unfolding withdrawn_def by blast
    with False x' t1 t2(1) c(1,3) show ?thesis by auto
  qed
qed

definition example_rival_record :: rr where
  "example_rival_record = (example_record ''A.local'' 120)\<lparr>rdata := A [10, 0, 0, 2]\<rparr>"

definition example_rival_op :: publish_op where
  "example_rival_op = Entry_add 0 (Some 0) (- 1) (- 1) {AVAHI_PUBLISH_UNIQUE} example_rival_record"

definition example_rival_server :: server where
  "example_rival_server = example_do (Group_commit 0) (example_do example_rival_op example_group_server)"

lemma example_rival_reachable: "publish_reachable True example_rival_server"
proof -
  have "rr_ok example_rival_record" "sent_record example_rival_record" "\<not> avahi_key_is_pattern (rkey example_rival_record)"
    "rdata example_rival_record \<noteq> Generic []" by code_simp+
  then have "publishable example_rival_record" by (simp add: publishable_def postable_def)
  moreover have "estore example_group_server 0 = None" "map_option gdead (gstore example_group_server 0) = Some False" by code_simp+
  ultimately have "publish_op_ok example_group_server example_rival_op" by (auto simp: example_rival_op_def)
  note added = example_do_reachable [OF example_publish_reachable(4) this]
  have "map_option gdead (gstore (example_do example_rival_op example_group_server) 0) = Some False" by code_simp
  then have "publish_op_ok (example_do example_rival_op example_group_server) (Group_commit 0)" by auto
  from example_do_reachable [OF added this] show ?thesis by (simp add: example_rival_server_def)
qed

lemma example_only:
  assumes "publish_reachable True s" "entries s = [0]"
  shows "\<forall>e x. estore s e = Some x \<longrightarrow> P x \<longrightarrow> Q x \<longrightarrow> e = 0"
  using publish_reachable_inv [OF assms(1)] assms(2) by (fastforce simp: server_inv_def zone_ok_def index_ready_def)

lemma probe_tie_break_witness:
  "\<exists>t1 t2. incoming_probe True (example_time 100) 0 example_rival_record 0 example_commited_server = Ret t1 \<and>
     incoming_probe True (example_time 100) 0 (example_record ''a.local'' 120) 0 example_rival_server = Ret t2 \<and>
     (t1 = example_commited_server \<and> collided t2 0 \<or> t2 = example_rival_server \<and> collided t1 0)"
proof -
  have "map_option (\<lambda>x. (edead x, egroup x, probing_on 0 x, erecord x)) (estore example_commited_server 0) = Some (False, Some 0, True, example_record ''a.local'' 120)"
    "map_option (\<lambda>x. (edead x, egroup x, probing_on 0 x, erecord x)) (estore example_rival_server 0) = Some (False, Some 0, True, example_rival_record)"
    "entries example_commited_server = [0]" "entries example_rival_server = [0]" by code_simp+
  then obtain x1 x2 where x1: "estore example_commited_server 0 = Some x1" "\<not> edead x1" "probing_on 0 x1" "egroup x1 = Some 0" "erecord x1 = example_record ''a.local'' 120"
    and x2: "estore example_rival_server 0 = Some x2" "\<not> edead x2" "probing_on 0 x2" "egroup x2 = Some 0" "erecord x2 = example_rival_record"
    and only: "entries example_commited_server = [0]" "entries example_rival_server = [0]" by auto
  have "key_abs (rkey (example_record ''a.local'' 120)) = key_abs (rkey example_rival_record)"
    "\<not> same_data (rdata (example_record ''a.local'' 120)) (rdata example_rival_record)" by code_simp+
  from probe_tie_break [OF example_publish_reachable(6) example_rival_reachable example_now x1(1-3) x2(1-3), unfolded x1(5) x2(5), OF this
      example_only [OF example_publish_reachable(6) only(1)] example_only [OF example_rival_reachable only(2)]] x1(4) x2(4)
  show ?thesis by (auto split: if_splits)
qed

section \<open>Interfaces\<close>

lemma belongs_same:
  assumes "same_entries now s s'" "same_groups s s'" "belongs_on s e i"
  shows "belongs_on s' e i"
proof -
  from assms(3) obtain x y where x: "estore s e = Some x" "istore s i = Some y" "\<not> edead x"
    "avahi_interface_match y (einterface x) (eprotocol x)" "announcing y" "commited (state_of_group s e)" by (auto simp: belongs_on_def)
  obtain x' where x': "estore s' e = Some x'" "edead x' = edead x" "einterface x' = einterface x" "eprotocol x' = eprotocol x"
    using same_entry [OF assms(1) x(1)] by metis
  have "istore s' i \<noteq> None" using same_istore [OF assms(1), of i] x(2) by simp
  then obtain y' where y': "istore s' i = Some y'" by blast
  from same_iface [OF assms(1) y'] x(2) have "announcing y' = announcing y" "hw_index y' = hw_index y" "iprotocol y' = iprotocol y" by auto
  with x x' y' same_state_of_group [OF assms(1,2)] show ?thesis by (auto simp: belongs_on_def avahi_interface_match_def)
qed

text \<open>The interface \<open>i\<close> is one for the entry \<open>e\<close>, whose group is commited.\<close>

definition entry_for :: "server \<Rightarrow> nat \<Rightarrow> iface \<Rightarrow> bool" where
  "entry_for s e y \<longleftrightarrow> (\<exists>x. estore s e = Some x \<and> \<not> edead x \<and> avahi_interface_match y (einterface x) (eprotocol x) \<and>
     (\<forall>g. egroup x = Some g \<longrightarrow> (\<exists>z. gstore s g = Some z \<and>
        (gstate z = AVAHI_ENTRY_GROUP_REGISTERING \<or> gstate z = AVAHI_ENTRY_GROUP_ESTABLISHED))))"

lemma belongs_entry_for:
  assumes "server_inv {} sc s"
  shows "belongs_on (set_iface i (y\<lparr>announcing := True\<rparr>) s) e i \<longleftrightarrow> entry_for s e y"
proof -
  have zone: "zone_ok {} sc {} s" using assms by (simp add: server_inv_def)
  have group: "commited (state_of_group s e) \<longleftrightarrow> (\<forall>g. egroup x = Some g \<longrightarrow> (\<exists>z. gstore s g = Some z \<and>
      (gstate z = AVAHI_ENTRY_GROUP_REGISTERING \<or> gstate z = AVAHI_ENTRY_GROUP_ESTABLISHED)))" if x: "estore s e = Some x" for x
  proof (cases "egroup x")
    case None
    with x show ?thesis by (simp add: commited_def state_of_group_def)
  next
    case (Some g)
    with zone_entry [OF zone x] obtain z where "gstore s g = Some z" by (auto simp: entry_ok_def)
    with Some x show ?thesis by (auto simp: commited_def state_of_group_def)
  qed
  have "state_of_group (set_iface i (y\<lparr>announcing := True\<rparr>) s) e = state_of_group s e"
    by (simp add: state_of_group_def set_iface_def cong: option.case_cong)
  with group show ?thesis by (auto simp: belongs_on_def entry_for_def set_iface_def avahi_interface_match_def)
qed

text \<open>
  Property C26. When an interface becomes relevant, the list of interfaces is complete and the multicast group can be joined,
  a new announcer appears on it exactly for those entries that had none there, are live, match the interface and are in no group or in
  one that is commited. It starts in the initial state of its entry: probing or announcing within a quarter of a second, or
  waiting, or established. All announcers there were, on this interface and on others, stay as they are. When the list is not
  complete or the group cannot be joined, nothing changes. When the interface
  ceases to be relevant, no announcer is left on it, those on other interfaces stay as they are and no group
  changes, not even its count of probing announcers.
\<close>

theorem interface_relevance:
  assumes "publish_reachable sc s" "normalized now" "rand_ok rnd" "istore s i = Some y"
  shows "(\<not> announcing y \<longrightarrow> (\<exists>s'. avahi_interface_check_relevant sc now rnd complete True joined i s = Ret s' \<and> publish_reachable sc s' \<and>
       (if complete \<and> joined
        then (\<forall>e. case announcer_at s e i of
                 Some a \<Rightarrow> announcer_at s' e i = Some a
               | None \<Rightarrow>
                   (case announcer_at s' e i of
                      None \<Rightarrow> \<not> entry_for s e y
                    | Some a \<Rightarrow> entry_for s e y \<and>
                        (\<exists>x st. estore s e = Some x \<and> initial_state s x = Ret st \<and> started now (fresh_announcer i) st a))) \<and>
          (\<forall>e j. j \<noteq> i \<longrightarrow> announcer_at s' e j = announcer_at s e j) \<and> changes s' = changes s
        else s' = s))) \<and>
    (announcing y \<longrightarrow> (\<exists>s'. avahi_interface_check_relevant sc now rnd complete False joined i s = Ret s' \<and> publish_reachable sc s' \<and>
       (\<forall>e. announcer_at s' e i = None) \<and> (\<forall>e j. j \<noteq> i \<longrightarrow> announcer_at s' e j = announcer_at s e j) \<and>
       gstore s' = gstore s \<and> changes s' = changes s))"
proof (intro conjI impI)
  note inv = publish_reachable_inv [OF assms(1)]
  have step: "publish_reachable sc s'" if "avahi_interface_check_relevant sc now rnd complete b joined i s = Ret s'" for b s'
    by (rule publish_step [OF assms(1) _ assms(2,3), of "Iface_check complete b joined i"]) (use that assms(4) in simp_all)
  {
    assume off: "\<not> announcing y"
    let ?t = "set_iface i (y\<lparr>announcing := True\<rparr>) s"
    from check_relevant_ok [OF inv assms(4,2,3), of complete True joined] off obtain s' where
      s': "avahi_interface_check_relevant sc now rnd complete True joined i s = Ret s'"
        "if complete \<and> joined then announces now ?t s' \<and> (\<forall>e. announced_on s' e i) \<and> (\<forall>e j. j \<noteq> i \<longrightarrow> announcer_at s' e j = announcer_at s e j)
         else s' = s" by auto
    have at: "announcer_at ?t e j = announcer_at s e j" "estore ?t = estore s" "changes ?t = changes s" for e j
      by (simp_all add: announcer_at_def set_iface_def)
    have init: "initial_state ?t x = initial_state s x" for x by (rule initial_state_cong) (simp add: set_iface_def)
    have "case announcer_at s e i of
        Some a \<Rightarrow> announcer_at s' e i = Some a
      | None \<Rightarrow> (case announcer_at s' e i of
            None \<Rightarrow> \<not> entry_for s e y
          | Some a \<Rightarrow> entry_for s e y \<and> (\<exists>x st. estore s e = Some x \<and> initial_state s x = Ret st \<and> started now (fresh_announcer i) st a))"
      if "complete \<and> joined" for e
    proof -
      from s'(2) that have a: "same_entries now ?t s'" "same_groups ?t s'" "new_started now ?t s'" "announced_on s' e i"
        by (simp_all add: announces_def)
      have none: "\<not> entry_for s e y" if "announcer_at s' e i = None"
      proof
        assume "entry_for s e y"
        then have "belongs_on ?t e i" using belongs_entry_for [OF inv] by blast
        from belongs_same [OF a(1,2) this] a(4) that show False by (auto simp: belongs_on_def announced_on_def)
      qed
      show ?thesis
        using a(3) none belongs_entry_for [OF inv, of i y e] unfolding new_started_def at init by (auto split: option.split)
    qed
    moreover have "changes s' = changes s" if "complete \<and> joined" using s'(2) that at(3) by (simp add: announces_def same_groups_def)
    ultimately show "\<exists>s'. avahi_interface_check_relevant sc now rnd complete True joined i s = Ret s' \<and> publish_reachable sc s' \<and>
       (if complete \<and> joined
        then (\<forall>e. case announcer_at s e i of
                 Some a \<Rightarrow> announcer_at s' e i = Some a
               | None \<Rightarrow>
                   (case announcer_at s' e i of
                      None \<Rightarrow> \<not> entry_for s e y
                    | Some a \<Rightarrow> entry_for s e y \<and>
                        (\<exists>x st. estore s e = Some x \<and> initial_state s x = Ret st \<and> started now (fresh_announcer i) st a))) \<and>
          (\<forall>e j. j \<noteq> i \<longrightarrow> announcer_at s' e j = announcer_at s e j) \<and> changes s' = changes s
        else s' = s)" using s' step [OF s'(1)] by (intro exI [of _ s']) (simp split: if_splits)
  }
  assume on: "announcing y"
  with check_relevant_ok [OF inv assms(4,2,3), of complete False joined] obtain s' where
    s': "avahi_interface_check_relevant sc now rnd complete False joined i s = Ret s'" "same_groups s s'" "gstore s' = gstore s" "left_interface i s s'" by auto
  with step show "\<exists>s'. avahi_interface_check_relevant sc now rnd complete False joined i s = Ret s' \<and> publish_reachable sc s' \<and>
       (\<forall>e. announcer_at s' e i = None) \<and> (\<forall>e j. j \<noteq> i \<longrightarrow> announcer_at s' e j = announcer_at s e j) \<and>
       gstore s' = gstore s \<and> changes s' = changes s"
    unfolding left_interface_def same_groups_def by blast
qed

lemma interface_relevance_witness:
  "\<exists>s'. avahi_interface_check_relevant True (example_time 100) 0 True False True 0 example_commited_server = Ret s' \<and>
     publish_reachable True s' \<and> announcer_at s' 0 0 = None \<and> gstore s' = gstore example_commited_server"
proof -
  have "map_option announcing (istore example_commited_server 0) = Some True" by code_simp
  then obtain y where y: "istore example_commited_server 0 = Some y" "announcing y" by auto
  from interface_relevance [OF example_publish_reachable(6) example_now y(1), of True True] y(2) show ?thesis by auto
qed

text \<open>
  Property C27. When an interface ceases to be relevant, the probing announcers it has are removed, but the groups
  that are being registered still count them. Such a group is stranded: whatever operations follow, as long as the client neither
  resets nor frees the group and no record is heard in a probe or response that has name, class and type of one of its entries, the group is
  being registered, it is never established, and to commit it is an error.
\<close>

theorem lost_interface_strands_group:
  assumes "publish_reachable sc s" "normalized now" "rand_ok rnd" "istore s i = Some y" "announcing y"
    "gstore s g = Some z" "gstate z = AVAHI_ENTRY_GROUP_REGISTERING"
    "e \<in> set (gentries z)" "announcer_at s e i = Some a" "astate a = AVAHI_PROBING"
  shows "\<exists>s'. avahi_interface_check_relevant sc now rnd complete False joined i s = Ret s' \<and> publish_reachable sc s' \<and>
    announcer_at s' e i = None \<and> gstore s' g = Some z \<and>
    (\<forall>s''. publish_later sc {g} s' s'' \<longrightarrow> publish_reachable sc s'' \<and>
       (\<exists>z'. gstore s'' g = Some z' \<and> gstate z' = AVAHI_ENTRY_GROUP_REGISTERING \<and> 0 < n_probing z') \<and>
       avahi_s_entry_group_commit sc now' rnd' g s'' = Ret (s'', Inl AVAHI_ERR_BAD_STATE))"
proof -
  note inv = publish_reachable_inv [OF assms(1)]
  from check_relevant_ok [OF inv assms(4,2,3), of complete False joined] assms(5) obtain s' where
    s': "avahi_interface_check_relevant sc now rnd complete False joined i s = Ret s'" "server_inv {} sc s'" "gstore s' = gstore s"
      "left_interface i s s'" by auto
  have reach: "publish_reachable sc s'"
    by (rule publish_step [OF assms(1) _ assms(2,3), of "Iface_check complete False joined i"]) (use s'(1) assms(4) in simp_all)
  have lost: "server_inv {g} sc s'" by (rule left_interface_lost [OF inv s'(2,4,3) assms(6-10)])
  have "publish_reachable sc s'' \<and> (\<exists>z'. gstore s'' g = Some z' \<and> gstate z' = AVAHI_ENTRY_GROUP_REGISTERING \<and> 0 < n_probing z') \<and>
      avahi_s_entry_group_commit sc now' rnd' g s'' = Ret (s'', Inl AVAHI_ERR_BAD_STATE)" if later: "publish_later sc {g} s' s''" for s''
  proof -
    from lost_group [OF later_inv [OF later lost], of g] obtain z' where
      z': "gstore s'' g = Some z'" "gstate z' = AVAHI_ENTRY_GROUP_REGISTERING" "\<not> gdead z'" "0 < n_probing z'" by auto
    then show ?thesis using later_reachable [OF later reach]
      by (simp add: avahi_s_entry_group_commit_def get_group_def)
  qed
  with s'(1,3,4) reach assms(6) show ?thesis by (intro exI [of _ s']) (simp add: left_interface_def)
qed

text \<open>A second interface comes after the first is lost.\<close>

lemma lost_interface_strands_group_witness:
  "\<exists>s' s''. avahi_interface_check_relevant True (example_time 100) 0 True False True 0 example_commited_server = Ret s' \<and>
     avahi_interface_new 1 2 0 1500 s' = Ret s'' \<and> map_option gstate (gstore s'' 0) = Some AVAHI_ENTRY_GROUP_REGISTERING \<and>
     announcer_at s' 0 0 = None"
proof -
  let ?s = "example_commited_server"
  have "map_option announcing (istore ?s 0) = Some True" "map_option (\<lambda>z. (gstate z, gentries z)) (gstore ?s 0) = Some (AVAHI_ENTRY_GROUP_REGISTERING, [0])"
    by code_simp+
  then obtain y z where y: "istore ?s 0 = Some y" "announcing y"
    and z: "gstore ?s 0 = Some z" "gstate z = AVAHI_ENTRY_GROUP_REGISTERING" "0 \<in> set (gentries z)" by auto
  have a: "astate example_announcer = AVAHI_PROBING" by (simp add: example_announcer_def)
  from lost_interface_strands_group [OF example_publish_reachable(6) example_now y z example_commited_announcer a, of True True] obtain s' where
    s': "avahi_interface_check_relevant True (example_time 100) 0 True False True 0 ?s = Ret s'" "announcer_at s' 0 0 = None"
    "\<forall>s''. publish_later True {0} s' s'' \<longrightarrow> (\<exists>z'. gstore s'' 0 = Some z' \<and> gstate z' = AVAHI_ENTRY_GROUP_REGISTERING)" by blast
  have "map_option (\<lambda>s. map_option announcing (istore s 1)) (case avahi_interface_check_relevant True (example_time 100) 0 True False True 0 ?s of
      Ret s' \<Rightarrow> Some s' | Crash \<Rightarrow> None) = Some None" by code_simp
  then have "istore s' 1 = None" using s'(1) by simp
  moreover have "AVAHI_PROTO_VALID 0" by code_simp
  ultimately obtain s'' where s'': "avahi_interface_new 1 2 0 1500 s' = Ret s''" by (auto simp: avahi_interface_new_def)
  have "publish_later True {0} s' s''"
    by (rule later_step [OF later_now, of s' "Iface_new 1 2 0 1500" "{0}" "example_time 100" 0])
      (use \<open>istore s' 1 = None\<close> \<open>AVAHI_PROTO_VALID 0\<close> example_now s'' in simp_all)
  with s' s'' show ?thesis by fastforce
qed

end
