(* ===== verification/Iface_Properties.thy ===== *)
theory Iface_Properties
  imports Conflict_Properties
begin

text \<open>
  What the limit on the rate of packets lets through, and which addresses are on the link of an interface.
\<close>

unbundle bit_operations_syntax

section \<open>The rate of packets\<close>

text \<open>Which of the packets that are to be sent at the times given may be sent.\<close>

fun ratelimit_run :: "int \<Rightarrow> nat \<Rightarrow> ratelimit \<Rightarrow> timeval list \<Rightarrow> bool list" where
  "ratelimit_run interval burst rl [] = []"
| "ratelimit_run interval burst rl (t # ts) =
     (let (rl, b) = ratelimit_pass interval burst t rl in b # ratelimit_run interval burst rl ts)"

lemma window_open:
  assumes "0 < interval" "normalized (ratelimit_begin rl)" "normalized t" "0 < tv_sec (ratelimit_begin rl)"
    "usec_of t \<le> usec_of (ratelimit_begin rl) + interval"
  shows "ratelimit_pass interval burst t rl =
    (if burst < ratelimit_counter rl then (rl, False) else (rl\<lparr>ratelimit_counter := ratelimit_counter rl + 1\<rparr>, True))"
proof -
  have "normalized (avahi_timeval_add (ratelimit_begin rl) interval)" using assms by (intro normalized_add) simp_all
  from timeval_compare_usec [OF this assms(3)] have "\<not> avahi_timeval_compare (avahi_timeval_add (ratelimit_begin rl) interval) t < 0"
    using assms(5) by (simp add: usec_of_add sgn_if)
  with assms(1,4) show ?thesis by (simp add: ratelimit_pass_def)
qed

lemma window_closed:
  assumes "0 < interval" "ratelimit_pass interval burst t rl = (rl', b)"
  shows "ratelimit_pass interval burst t rl =
      (if burst < ratelimit_counter rl then (rl, False) else (rl\<lparr>ratelimit_counter := ratelimit_counter rl + 1\<rparr>, True)) \<or>
    rl' = \<lparr>ratelimit_begin = t, ratelimit_counter = 1\<rparr> \<and> b"
  using assms by (auto simp: ratelimit_pass_def Let_def split: if_splits)

lemma window_run:
  assumes "0 < interval" "normalized (ratelimit_begin rl)" "0 < tv_sec (ratelimit_begin rl)"
    "\<forall>t \<in> set ts. normalized t \<and> usec_of t \<le> usec_of (ratelimit_begin rl) + interval"
  shows "ratelimit_run interval burst rl ts =
    replicate (min (length ts) (burst + 1 - ratelimit_counter rl)) True @ replicate (length ts - (burst + 1 - ratelimit_counter rl)) False"
  using assms(2-4)
proof (induction ts arbitrary: rl)
  case (Cons t ts)
  then have pass: "ratelimit_pass interval burst t rl =
      (if burst < ratelimit_counter rl then (rl, False) else (rl\<lparr>ratelimit_counter := ratelimit_counter rl + 1\<rparr>, True))"
    by (intro window_open [OF assms(1)]) simp_all
  show ?case
  proof (cases "burst < ratelimit_counter rl")
    case True
    with Cons pass show ?thesis by simp
  next
    case False
    then have "burst + 1 - ratelimit_counter rl = Suc (burst - ratelimit_counter rl)" by simp
    with False Cons.IH [of "rl\<lparr>ratelimit_counter := ratelimit_counter rl + 1\<rparr>"] Cons.prems pass show ?thesis by simp
  qed
qed simp

lemma passed_in_window:
  "length (filter (\<lambda>b. b) (replicate m True @ replicate n False)) = m"
  by (simp add: filter_replicate)

text \<open>
  Property C28. When packets are to be sent at times none of which is before the start of the current interval nor after its end, the first ones
  up to the burst, and one more, are sent and all others are not. However the times fall, at most twice as many packets are sent within the length of an interval.
\<close>

theorem ratelimit_bound:
  assumes "0 < interval" "\<forall>t \<in> set ts. normalized t \<and> 0 < tv_sec t \<and> usec_of T \<le> usec_of t \<and> usec_of t \<le> usec_of T + interval"
  shows "(ts \<noteq> [] \<and> ratelimit_begin rl = T \<and> normalized T \<and> 0 < tv_sec T \<and> ratelimit_counter rl = 0 \<longrightarrow>
      ratelimit_run interval burst rl ts = replicate (min (length ts) (burst + 1)) True @ replicate (length ts - (burst + 1)) False) \<and>
    length (filter (\<lambda>b. b) (ratelimit_run interval burst rl ts)) \<le> 2 * (burst + 1)"
proof (rule conjI, intro impI)
  assume "ts \<noteq> [] \<and> ratelimit_begin rl = T \<and> normalized T \<and> 0 < tv_sec T \<and> ratelimit_counter rl = 0"
  with window_run [OF assms(1), of rl ts burst] assms(2)
  show "ratelimit_run interval burst rl ts = replicate (min (length ts) (burst + 1)) True @ replicate (length ts - (burst + 1)) False" by simp
next
  have "length (filter (\<lambda>b. b) (ratelimit_run interval burst rl ts)) \<le> (burst + 1 - ratelimit_counter rl) + (burst + 1)"
    using assms(2)
  proof (induction ts arbitrary: rl)
    case (Cons t ts)
    obtain rl' b where pass: "ratelimit_pass interval burst t rl = (rl', b)" by fastforce
    from window_closed [OF assms(1) pass] show ?case
    proof
      assume "ratelimit_pass interval burst t rl =
        (if burst < ratelimit_counter rl then (rl, False) else (rl\<lparr>ratelimit_counter := ratelimit_counter rl + 1\<rparr>, True))"
      with Cons.IH [of rl'] Cons.prems pass show ?thesis by (auto split: if_splits)
    next
      assume new: "rl' = \<lparr>ratelimit_begin = t, ratelimit_counter = 1\<rparr> \<and> b"
      have "\<forall>u \<in> set ts. normalized u \<and> usec_of u \<le> usec_of t + interval" using Cons.prems by auto
      with new window_run [OF assms(1), of rl' ts burst] Cons.prems
      have "ratelimit_run interval burst rl' ts = replicate (min (length ts) burst) True @ replicate (length ts - burst) False" by simp
      then have "length (filter (\<lambda>b. b) (ratelimit_run interval burst rl' ts)) = min (length ts) burst" by (simp only: passed_in_window)
      then have "length (filter (\<lambda>b. b) (ratelimit_run interval burst rl' ts)) \<le> burst" by simp
      with new pass show ?thesis by simp
    qed
  qed simp
  then show "length (filter (\<lambda>b. b) (ratelimit_run interval burst rl ts)) \<le> 2 * (burst + 1)" by simp
qed

lemma ratelimit_bound_witness:
  "length (filter (\<lambda>b. b) (ratelimit_run 2000000 1 \<lparr>ratelimit_begin = example_time 98, ratelimit_counter = 1\<rparr>
     [example_time 100, example_time 100, example_time 101, example_time 102])) \<le> 2 * (1 + 1)"
proof -
  have "\<forall>t \<in> set [example_time 100, example_time 100, example_time 101, example_time 102].
      normalized t \<and> 0 < tv_sec t \<and> usec_of (example_time 100) \<le> usec_of t \<and> usec_of t \<le> usec_of (example_time 100) + 2000000" by code_simp
  from ratelimit_bound [OF _ this, of _ 1] show ?thesis by simp
qed

section \<open>Addresses on the link\<close>

text \<open>The bits of a byte, and those of bytes one after the other, the first bit being the most significant one.\<close>

definition byte_bits :: "byte \<Rightarrow> bool list" where
  "byte_bits b = map (bit b) (rev [0..<8])"

definition address_bits :: "byte list \<Rightarrow> bool list" where
  "address_bits xs = concat (map byte_bits xs)"

lemma length_byte_bits [simp]: "length (byte_bits b) = 8"
  by (simp add: byte_bits_def)

lemma address_bits_simps [simp]: "address_bits [] = []" "address_bits (x # xs) = byte_bits x @ address_bits xs"
  by (simp_all add: address_bits_def)

lemma byte_bits_nth: "k < 8 \<Longrightarrow> byte_bits b ! k = bit b (7 - k)"
  by (simp add: byte_bits_def rev_nth)

lemma byte_eq_bits: "byte_bits a = byte_bits b \<longleftrightarrow> a = b"
proof
  assume eq: "byte_bits a = byte_bits b"
  show "a = b"
  proof (rule bit_word_eqI)
    fix n :: nat assume "n < LENGTH(8)"
    then have "7 - n < 8" "7 - (7 - n) = n" by simp_all
    with byte_bits_nth [of "7 - n" a] byte_bits_nth [of "7 - n" b] eq show "bit a n = bit b n" by simp
  qed
qed simp

lemma byte_mask: "k < 8 \<Longrightarrow> x AND NOT (drop_bit k 255) = y AND NOT (drop_bit k (255 :: byte)) \<longleftrightarrow> take k (byte_bits x) = take k (byte_bits y)"
proof -
  assume k: "k < 8"
  have all: "(255 :: byte) = - 1" by simp
  have bits: "bit (NOT (drop_bit k (255 :: byte))) n \<longleftrightarrow> n < 8 \<and> 8 \<le> n + k" for n
    by (subst all) (use k in \<open>auto simp: bit_not_iff bit_drop_bit_eq bit_minus_1_iff bit_mask_iff\<close>)
  have "(x AND NOT (drop_bit k 255) = y AND NOT (drop_bit k (255 :: byte))) \<longleftrightarrow> (\<forall>n < 8. 8 \<le> n + k \<longrightarrow> bit x n = bit y n)"
    unfolding bit_eq_iff bit_and_iff bits by auto
  also have "\<dots> \<longleftrightarrow> (\<forall>m < k. byte_bits x ! m = byte_bits y ! m)"
  proof
    assume "\<forall>n < 8. 8 \<le> n + k \<longrightarrow> bit x n = bit y n"
    with k show "\<forall>m < k. byte_bits x ! m = byte_bits y ! m" by (simp add: byte_bits_nth)
  next
    assume all: "\<forall>m < k. byte_bits x ! m = byte_bits y ! m"
    have "bit x n = bit y n" if n: "n < 8" "8 \<le> n + k" for n
    proof -
      from n have "7 - n < k" "7 - n < 8" "7 - (7 - n) = n" by arith+
      with all byte_bits_nth show ?thesis by metis
    qed
    then show "\<forall>n < 8. 8 \<le> n + k \<longrightarrow> bit x n = bit y n" by blast
  qed
  also have "\<dots> \<longleftrightarrow> take k (byte_bits x) = take k (byte_bits y)" using k by (auto simp: list_eq_iff_nth_eq)
  finally show ?thesis .
qed

lemma on_link_zero: "ipv6_on_link xs ys 0 \<longleftrightarrow> xs \<noteq> [] \<and> ys \<noteq> []"
  by (cases xs; cases ys) simp_all

text \<open>Bits in the last byte are compared, but then the loop is over before the result is given.\<close>

lemma ipv6_prefix:
  "length xs = length ys \<Longrightarrow> ipv6_on_link xs ys pl \<longleftrightarrow>
     unat pl + 8 \<le> 8 * length xs \<and> take (unat pl) (address_bits xs) = take (unat pl) (address_bits ys)"
proof (induction xs arbitrary: ys pl)
  case (Cons x xs)
  then obtain y ys' where ys: "ys = y # ys'" "length xs = length ys'" by (cases ys) auto
  consider "pl = 0" | "0 < unat pl" "unat pl < 8" | "8 \<le> unat pl" by (metis gr0I unat_eq_zero not_less)
  then show ?case
  proof cases
    case 1
    with ys show ?thesis by simp
  next
    case 2
    then have pl: "pl \<noteq> 0" "\<not> 8 \<le> pl" by (auto simp: word_le_nat_alt)
    have "unat pl + 8 \<le> 8 * length (x # xs) \<longleftrightarrow> xs \<noteq> []" using 2 by (cases xs) simp_all
    moreover have "xs \<noteq> [] \<longleftrightarrow> ys' \<noteq> []" using ys(2) by auto
    ultimately show ?thesis using 2 pl ys byte_mask [OF 2(2), of x y] by (simp add: on_link_zero)
  next
    case 3
    then have pl: "pl \<noteq> 0" "8 \<le> pl" by (auto simp: word_le_nat_alt)
    then have sub: "unat (pl - 8) = unat pl - 8" by (simp add: unat_sub)
    have full: "b AND 255 = b" for b :: byte
    proof -
      have "(255 :: byte) = - 1" by simp
      then show ?thesis by (metis and.right_neutral)
    qed
    have "take (unat pl) (address_bits (b # bs)) = byte_bits b @ take (unat pl - 8) (address_bits bs)" for b bs using 3 by simp
    with 3 pl ys Cons.IH [OF ys(2), of "pl - 8"] show ?thesis by (auto simp: full sub byte_eq_bits)
  qed
qed simp

lemma ipv4_prefix:
  fixes a b :: u32
  assumes "ipv4_mask n = Ret m"
  shows "a AND m = b AND m \<longleftrightarrow> drop_bit (32 - n) a = drop_bit (32 - n) b"
proof -
  have n: "n < 32" and m: "m = NOT (drop_bit n (- 1))" using assms by (auto simp: ipv4_mask_def split: if_splits)
  have bits: "bit m k \<longleftrightarrow> k < 32 \<and> 32 \<le> k + n" for k
    using n by (auto simp: m bit_not_iff bit_drop_bit_eq bit_minus_1_iff exp_eq_zero_iff bit_mask_iff)
  have "(a AND m = b AND m) \<longleftrightarrow> (\<forall>k < 32. 32 \<le> k + n \<longrightarrow> bit a k = bit b k)"
    unfolding bit_eq_iff bit_and_iff bits by auto
  also have "\<dots> \<longleftrightarrow> drop_bit (32 - n) a = drop_bit (32 - n) b"
  proof
    assume all: "\<forall>k < 32. 32 \<le> k + n \<longrightarrow> bit a k = bit b k"
    show "drop_bit (32 - n) a = drop_bit (32 - n) b"
    proof (rule bit_word_eqI)
      fix k :: nat
      show "bit (drop_bit (32 - n) a) k = bit (drop_bit (32 - n) b) k"
      proof (cases "32 - n + k < 32")
        case True
        with all n show ?thesis by (simp add: bit_drop_bit_eq)
      next
        case False
        then show ?thesis by (auto simp: bit_drop_bit_eq dest: bit_imp_le_length)
      qed
    qed
  next
    assume eq: "drop_bit (32 - n) a = drop_bit (32 - n) b"
    have "bit a k = bit b k" if k: "k < 32" "32 \<le> k + n" for k
    proof -
      have "bit (drop_bit (32 - n) a) (k - (32 - n)) = bit (drop_bit (32 - n) b) (k - (32 - n))" using eq by simp
      with k show ?thesis by (simp add: bit_drop_bit_eq)
    qed
    then show "\<forall>k < 32. 32 \<le> k + n \<longrightarrow> bit a k = bit b k" by blast
  qed
  finally show ?thesis .
qed

text \<open>
  Property C29. An address is on the link of an interface if it is of the protocol of the interface and agrees with one of its addresses in as many
  leading bits as the prefix of that address has. This is so for IPv4 when no prefix is as long as the address. For IPv6 addresses with a prefix of
  more than 120 bits are passed over: no address is on their link, not even they themselves.
\<close>

theorem address_on_link_decides:
  assumes "\<forall>ia \<in> set as. address_ok (ia_address ia)" "address_ok a"
    "protocol = AVAHI_PROTO_INET \<and> (\<forall>ia \<in> set as. ia_prefix_len ia < 32) \<or>
     protocol = AVAHI_PROTO_INET6 \<and> (\<forall>ia \<in> set as. ia_prefix_len ia \<le> 128)"
  shows "avahi_interface_address_on_link protocol as a = Ret (proto a = protocol \<and>
    (\<exists>ia \<in> set as.
       if protocol = AVAHI_PROTO_INET
       then drop_bit (32 - ia_prefix_len ia) (ntohl (ipv4_data a)) = drop_bit (32 - ia_prefix_len ia) (ntohl (ipv4_data (ia_address ia)))
       else ia_prefix_len ia \<le> 120 \<and>
         take (ia_prefix_len ia) (address_bits (addr_data a)) = take (ia_prefix_len ia) (address_bits (addr_data (ia_address ia)))))"
proof (cases "proto a = protocol")
  case False
  then show ?thesis by (simp add: avahi_interface_address_on_link_def)
next
  case True
  let ?on = "\<lambda>ia. if protocol = AVAHI_PROTO_INET
       then drop_bit (32 - ia_prefix_len ia) (ntohl (ipv4_data a)) = drop_bit (32 - ia_prefix_len ia) (ntohl (ipv4_data (ia_address ia)))
       else ia_prefix_len ia \<le> 120 \<and>
         take (ia_prefix_len ia) (address_bits (addr_data a)) = take (ia_prefix_len ia) (address_bits (addr_data (ia_address ia)))"
  have "address_on_link a as = Ret (\<exists>ia \<in> set as. ?on ia)"
    using assms(1,3)
  proof (induction as)
    case (Cons ia as)
    then have IH: "address_on_link a as = Ret (\<exists>ia \<in> set as. ?on ia)" by auto
    show ?case
    proof (cases "protocol = AVAHI_PROTO_INET")
      case v4: True
      then have "ia_prefix_len ia < 32" using Cons.prems(2) by (auto simp: proto_defs)
      then obtain m where m: "ipv4_mask (ia_prefix_len ia) = Ret m" by (simp add: ipv4_mask_def)
      from ipv4_prefix [OF m] IH m v4 True show ?thesis by simp
    next
      case False
      with Cons.prems(2) have v6: "protocol = AVAHI_PROTO_INET6" "ia_prefix_len ia \<le> 128" by auto
      then have "unat (of_nat (ia_prefix_len ia) :: byte) = ia_prefix_len ia" by (simp add: unat_of_nat)
      moreover have "length (addr_data a) = 16" "length (addr_data (ia_address ia)) = 16" using Cons.prems(1) assms(2) by (simp_all add: address_ok_def)
      ultimately show ?thesis
        using ipv6_prefix [of "addr_data a" "addr_data (ia_address ia)" "of_nat (ia_prefix_len ia)"] IH v6 False True by auto
    qed
  qed simp
  with True show ?thesis by (simp add: avahi_interface_address_on_link_def)
qed

lemma address_on_link_decides_witness:
  "avahi_interface_address_on_link AVAHI_PROTO_INET
     [\<lparr>ia_address = example_address 1, ia_prefix_len = 24, ia_global_scope = True, ia_deprecated = False\<rparr>] (example_address 7) = Ret True"
proof -
  let ?as = "[\<lparr>ia_address = example_address 1, ia_prefix_len = 24, ia_global_scope = True, ia_deprecated = False\<rparr>]"
  have ok: "\<forall>ia \<in> set ?as. address_ok (ia_address ia)" "address_ok (example_address 7)" "\<forall>ia \<in> set ?as. ia_prefix_len ia < 32" by code_simp+
  have "proto (example_address 7) = AVAHI_PROTO_INET"
    "drop_bit (32 - 24) (ntohl (ipv4_data (example_address 7))) = drop_bit (32 - 24) (ntohl (ipv4_data (example_address 1)))" by code_simp+
  with address_on_link_decides [OF ok(1,2), of AVAHI_PROTO_INET] ok(3) show ?thesis by simp
qed

end
