(* ===== verification/Spec2Isabelle.thy ===== *)
theory Spec2Isabelle
  imports Strlst Alternative Name_Properties Cache_Properties Timer_Properties Query_Properties
    Response_Properties Probe_Properties Querier_Properties
    Iface_Properties
begin

text \<open>
  This library models Avahi, the implementation of multicast DNS and DNS service discovery in
  \<open>src/avahi-common\<close> and \<open>src/avahi-core\<close>, which this repository carries with it.

  \<^bold>\<open>The program.\<close> A server publishes records and looks up those of other hosts. Clients put records into
  groups of entries. An entry that is claimed as unique is probed for on every interface, then it is
  announced; announcers, one for an entry and an interface, do both with timers. Responses
  and queries are not sent at once but handed to the schedulers of the interface, which
  put many records into one packet and leave out what other hosts have just said or know. The records
  of other hosts are kept in a cache for each interface; entries are refreshed before they expire. All timers
  are events in one queue on a priority queue. Packets, records, names and hash tables are the data
  these parts share.

  \<^bold>\<open>Conventions\<close> (\<open>Avahi_Prelude\<close>). Results of type \<open>'a res\<close> are \<open>Ret x\<close>, or \<open>Crash\<close> for a failed
  assertion and for accesses that are undefined in C. Bytes are 8-bit words, C strings lists of bytes
  without NUL, \<open>uint16_t\<close> and \<open>uint32_t\<close> words of their width; unsigned counters and sizes are natural numbers where they
  do not wrap around. Pointers to objects are numbers, with a store that maps those in memory to
  records; a new object takes a number that is not in use. The clock and the value of \<open>rand\<close> are arguments
  (\<open>now\<close>, \<open>rnd\<close>), so is whether \<open>char\<close> is signed (\<open>sc\<close>). Calls of callbacks of clients and packets
  that are sent are collected in the state. Memory never runs out.

  \<^bold>\<open>Names.\<close> \<open>Utf8\<close>: \<open>utf8.c\<close>. \<open>Domain\<close>, \<open>Domain_Names\<close>, \<open>Service_Name\<close>: \<open>domain.c\<close>, \<open>domain-util.c\<close>. \<open>Domain_Spec\<close> gives a
  name its meaning, a list of labels, and the operations as functions of it; \<open>Name_Properties\<close>
  has round trips, the canonical form and comparison. \<open>Alternative\<close>: \<open>alternative.c\<close>. \<open>Strlst\<close>: \<open>strlst.c\<close>.
  \<open>Address\<close>: \<open>address.c\<close>, \<open>addr-util.c\<close>.

  \<^bold>\<open>Tables and queues.\<close> \<open>Hashmap\<close>: \<open>hashmap.c\<close>, with a locale for what a table needs of its hash and
  equality, in which it refines a map. \<open>Key_Index\<close>: the lists of objects with one key in such a table. \<open>Prioq\<close>, \<open>Prioq_Links\<close>,
  \<open>Prioq_Heap\<close>, \<open>Prioq_Ops\<close>: \<open>prioq.c\<close>, a heap of linked nodes, with a locale for the comparison.
  \<open>Timeeventq\<close>: \<open>timeeventq.c\<close>. \<open>Timeval\<close>: \<open>timeval.c\<close>. \<open>Timer_Properties\<close> shows that the queue never crashes and that timers are
  never late.

  \<^bold>\<open>Records and packets.\<close> \<open>Rr\<close>: \<open>rr.c\<close>; \<open>rr_abs\<close> is the meaning of a record. \<open>Dns\<close>: \<open>dns.c\<close>, where reading behind the
  bytes in use is a \<open>Crash\<close> (\<open>read_byte\<close>). \<open>Dns_Consume\<close> shows that reading arbitrary bytes is safe, \<open>Dns_Append\<close>, \<open>Dns_Wire\<close> and \<open>Dns_Records\<close> that what is written is
  read back, with compressed names. \<open>Dns_Packets\<close> relates a packet to its questions and records. \<open>Rrlist\<close>: \<open>rrlist.c\<close>.

  \<^bold>\<open>Cache and schedulers.\<close> \<open>Cache\<close>: \<open>cache.c\<close>; \<open>Query_Sched\<close>: \<open>query-sched.c\<close>; \<open>Response_Sched\<close>: \<open>response-sched.c\<close>;
  \<open>Probe_Sched\<close>: \<open>probe-sched.c\<close>. For each
  there is an invariant of the states reached by any sequence of operations (\<open>Cache_Inv\<close>, \<open>Query_Inv\<close>, \<open>Response_Inv\<close>, \<open>Probe_Inv\<close>), what
  is sent (\<open>Query_Send\<close>, \<open>Response_Send\<close>, \<open>Probe_Send\<close>) and a theory of properties. None of them crashes, but for the query scheduler
  when a question does not fit into an empty packet, which its code asserts. What \<open>Dns_Records\<close> shows of
  name compression (a name that is in a packet takes two bytes there) is why a probe too large for
  the MTU goes out (if its name has three characters), although its size is estimated too low.
  \<open>Querier\<close>: \<open>querier.c\<close>, the questions an interface asks again and again, which hands them to the query scheduler;
  \<open>Querier_Inv\<close> has the invariant, and \<open>Querier_Properties\<close> shows that the queriers count those who are interested, and how often they ask.

  \<^bold>\<open>Publishing.\<close> \<open>Publish\<close> has the state of the server as far as its own records go, the look-up of records and the
  generation of responses (\<open>server.c\<close>); \<open>Announce\<close> the announcers and groups
  (\<open>announce.c\<close>, \<open>entry.c\<close>); \<open>Entries\<close> adding and removing entries and conflicts with other hosts (\<open>entry.c\<close>,
  \<open>server.c\<close>); \<open>Ifaces\<close> the interfaces (\<open>iface.c\<close>). The response scheduler of an interface is a field of its record, and the auxiliary records it asks
  for are those the server finds. \<open>Publish_Inv\<close> and \<open>Announce_Inv\<close> state the invariant,
  \<open>Announce_Steps\<close>, \<open>Announce_Groups\<close>, \<open>Goodbye\<close>, \<open>Entry_Groups\<close>, \<open>Entries_Inv\<close>, \<open>Entries_Add\<close>, \<open>Conflicts\<close> and
  \<open>Ifaces_Inv\<close> show for each operation that it keeps it and what it does. \<open>Publish_Reach\<close> puts the operations
  together in one transition system. The invariant has a parameter, the groups that count an announcer too many for probing, which
  is how a group that has lost an interface is shown to stay unestablished whatever happens later; \<open>Publish_Properties\<close>, \<open>Announcer_Properties\<close>, \<open>Entry_Properties\<close>,
  \<open>Conflict_Properties\<close> and \<open>Iface_Properties\<close> have the properties.

  \<^bold>\<open>Bounds.\<close> Most loops are recursions on lists. Where a loop has a bound as an argument, it is enough: the loops
  of \<open>avahi_server_generate_response\<close> take a record from the list in every round and push
  records of entries only, none twice; appending to a reply takes two rounds at most, as an empty packet is followed by one
  large enough; the loop that fills a response is shown to end (\<open>filling_packet_terminates\<close>). The loops of
  \<open>avahi_response_scheduler_force\<close> and of the schedulers take the number of packets as an argument, and what is shown holds
  for every number.

  \<^bold>\<open>Not modelled.\<close> Sockets, the monitors of network interfaces and main loops are input and output with the kernel.
  The probe scheduler is modelled on its own: the record of an interface collects the probes that announcers hand to it. Multicast and wide area lookups,
  browsers and resolvers, which subscribe to the cache for clients; the reading of packets and their
  dispatch to the components, reflection between interfaces, host records and the state of the server as a whole; the functions of \<open>entry.c\<close> that build
  the records of addresses and services. When an interface is lost, its cache and query scheduler are emptied, too; they are
  modelled on their own. The clean-up of dead entries also cleans up browsers, which is left out. A callback that frees its group while the group changes state is not modelled. The applications in C++ and QML around the library are
  left aside.
\<close>

end
